(* ===== verification/LuwuPrelude.thy ===== *)
theory LuwuPrelude
  imports Main "HOL-Library.Word"
begin

text \<open>
  The shared vocabulary of the development.

  \<^item> Results: every operation of the C++ code that can raise a Lua error, hit an assertion or
    leave the defined part of C++ returns a value of the sum type \<open>'e + 'a\<close>; \<open>bindE\<close>
    sequences such results the way statements follow each other in a function body.
  \<^item> Bytes: the code's \<^verbatim>\<open>char\<close> arrays are lists of 8-bit words; \<open>le_bytes\<close> and
    \<open>le_nat\<close> are what \<^verbatim>\<open>memcpy\<close> between an integer and a byte array does on a
    little-endian machine.
  \<^item> Machine integers: the ranges and the truncating division of C++, and words read as natural
    numbers.
\<close>

named_theorems res_simps \<open>unfolding of result combinators\<close>
named_theorems bytes_simps \<open>lengths and round trips of byte encodings\<close>

unbundle bit_operations_syntax

type_synonym byte = "8 word"
type_synonym bytes = "8 word list"
type_synonym u32 = "32 word"
type_synonym u64 = "64 word"


section \<open>Results\<close>

definition bindE :: "'e + 'a \<Rightarrow> ('a \<Rightarrow> 'e + 'b) \<Rightarrow> 'e + 'b" where
  "bindE m f = (case m of Inl e \<Rightarrow> Inl e | Inr x \<Rightarrow> f x)"

lemma bindE_simps [simp, res_simps]:
  "bindE (Inl e) f = Inl e"
  "bindE (Inr x) f = f x"
  by (simp_all add: bindE_def)

lemma bindE_Inr_iff [res_simps]:
  "bindE m f = Inr y \<longleftrightarrow> (\<exists>x. m = Inr x \<and> f x = Inr y)"
  by (cases m) auto

lemma bindE_Inl_iff [res_simps]:
  "bindE m f = Inl e \<longleftrightarrow> m = Inl e \<or> (\<exists>x. m = Inr x \<and> f x = Inl e)"
  by (cases m) auto

lemma bindE_cong [fundef_cong]:
  "m = m' \<Longrightarrow> (\<And>x. m' = Inr x \<Longrightarrow> f x = g x) \<Longrightarrow> bindE m f = bindE m' g"
  by (cases m') auto

text \<open>A check that either passes or ends the operation with an error.\<close>

definition guardE :: "bool \<Rightarrow> 'e \<Rightarrow> 'e + unit" where
  "guardE b e = (if b then Inr () else Inl e)"

lemma guardE_simps [simp, res_simps]:
  "guardE True e = Inr ()"
  "guardE False e = Inl e"
  by (simp_all add: guardE_def)

lemma guardE_Inr_iff [simp]: "guardE b e = Inr u \<longleftrightarrow> b"
  by (simp add: guardE_def)

lemma guardE_Inl_iff [simp]: "guardE b e = Inl e' \<longleftrightarrow> \<not> b \<and> e' = e"
  by (auto simp: guardE_def)

definition is_Inr :: "'e + 'a \<Rightarrow> bool" where
  "is_Inr r = (case r of Inl _ \<Rightarrow> False | Inr _ \<Rightarrow> True)"

lemma is_Inr_simps [simp]: "is_Inr (Inr x)" "\<not> is_Inr (Inl e)"
  by (simp_all add: is_Inr_def)

text \<open>Applying a fallible operation to the elements of a list, left to right.\<close>

fun mapE :: "('a \<Rightarrow> 'e + 'b) \<Rightarrow> 'a list \<Rightarrow> 'e + 'b list" where
  "mapE f [] = Inr []"
| "mapE f (x # xs) = bindE (f x) (\<lambda>y. bindE (mapE f xs) (\<lambda>ys. Inr (y # ys)))"

lemma mapE_cong [fundef_cong]:
  "xs = ys \<Longrightarrow> (\<And>x. x \<in> set ys \<Longrightarrow> f x = g x) \<Longrightarrow> mapE f xs = mapE g ys"
  by (induction ys arbitrary: xs) auto

lemma mapE_Inr: "(\<And>x. x \<in> set xs \<Longrightarrow> f x = Inr (g x)) \<Longrightarrow> mapE f xs = Inr (map g xs)"
  by (induction xs) auto

lemma mapE_length: "mapE f xs = Inr ys \<Longrightarrow> length ys = length xs"
  by (induction xs arbitrary: ys) (auto simp: bindE_Inr_iff)

text \<open>A loop whose body can end the operation with an error.\<close>

fun foldE :: "('b \<Rightarrow> 'a \<Rightarrow> 'e + 'b) \<Rightarrow> 'b \<Rightarrow> 'a list \<Rightarrow> 'e + 'b" where
  "foldE f r [] = Inr r"
| "foldE f r (x # xs) = bindE (f r x) (\<lambda>r. foldE f r xs)"

lemma foldE_Inr:
  "(\<And>r x. x \<in> set xs \<Longrightarrow> f r x = Inr (g r x)) \<Longrightarrow> foldE f r xs = Inr (foldl g r xs)"
  by (induction xs arbitrary: r) auto


section \<open>Bytes\<close>

text \<open>What \<^verbatim>\<open>memcpy\<close> between an integer and a byte array does on a little-endian machine.\<close>

fun le_bytes :: "nat \<Rightarrow> nat \<Rightarrow> bytes" where
  "le_bytes 0 v = []"
| "le_bytes (Suc n) v = word_of_nat (v mod 256) # le_bytes n (v div 256)"

fun le_nat :: "bytes \<Rightarrow> nat" where
  "le_nat [] = 0"
| "le_nat (b # bs) = unat b + 256 * le_nat bs"

lemma le_bytes_length [simp, bytes_simps]: "length (le_bytes n v) = n"
  by (induction n arbitrary: v) auto

lemma unat_byte: "unat (b :: byte) < 256"
  using unsigned_less [of b, where ?'a = nat] by simp

lemma unat_byte_of_nat: "v < 256 \<Longrightarrow> unat (word_of_nat v :: byte) = v"
  by (simp add: unsigned_of_nat take_bit_nat_eq_self)

lemma le_nat_le_bytes [bytes_simps]: "le_nat (le_bytes n v) = v mod 256 ^ n"
proof (induction n arbitrary: v)
  case (Suc n)
  have "le_nat (le_bytes (Suc n) v) = v mod 256 + 256 * (v div 256 mod 256 ^ n)"
    by (simp add: Suc unat_byte_of_nat)
  also have "\<dots> = v mod (256 * 256 ^ n)" by (simp add: mod_mult2_eq)
  finally show ?case by simp
qed simp

lemma le_nat_bound: "le_nat bs < 256 ^ length bs"
proof (induction bs)
  case (Cons b bs)
  then have "unat b + 256 * le_nat bs < 256 + 256 * (256 ^ length bs - 1)"
    using unat_byte [of b] by (intro add_less_le_mono) auto
  also have "\<dots> = 256 ^ length (b # bs)" by (simp add: diff_mult_distrib2)
  finally show ?case by simp
qed simp

lemma le_bytes_le_nat [bytes_simps]: "le_bytes (length bs) (le_nat bs) = bs"
proof (induction bs)
  case (Cons b bs)
  have "(unat b + 256 * le_nat bs) mod 256 = unat b" "(unat b + 256 * le_nat bs) div 256 = le_nat bs"
    using unat_byte [of b] by auto
  with Cons show ?case by simp
qed simp


section \<open>Integers of C++\<close>

text \<open>The values of \<^verbatim>\<open>int\<close> and \<^verbatim>\<open>int64_t\<close> as mathematical integers.\<close>

definition in_int32 :: "int \<Rightarrow> bool" where
  "in_int32 n \<longleftrightarrow> - (2 ^ 31) \<le> n \<and> n < 2 ^ 31"

definition in_int64 :: "int \<Rightarrow> bool" where
  "in_int64 n \<longleftrightarrow> - (2 ^ 63) \<le> n \<and> n < 2 ^ 63"

text \<open>The conversion of a \<^verbatim>\<open>size_t\<close> to \<^verbatim>\<open>int\<close>.\<close>

definition int_of_size :: "nat \<Rightarrow> int" where
  "int_of_size n = (let m = int n mod 2 ^ 32 in if 2 ^ 31 \<le> m then m - 2 ^ 32 else m)"

lemma int_of_size_small: "n < 2 ^ 31 \<Longrightarrow> int_of_size n = int n"
  by (simp add: int_of_size_def)

lemma in_int64_sint [simp]: "in_int64 (sint (w :: u64))"
  using sint_greater_eq [of w] sint_less [of w] by (simp add: in_int64_def)

lemma sint_of_int64: "in_int64 n \<Longrightarrow> sint (word_of_int n :: u64) = n"
  by (simp add: in_int64_def signed_take_bit_int_eq_self sint_sbintrunc')

text \<open>Division and remainder of C++ truncate towards zero.\<close>

definition cdiv :: "int \<Rightarrow> int \<Rightarrow> int" where
  "cdiv a b = sgn a * sgn b * (\<bar>a\<bar> div \<bar>b\<bar>)"

definition crem :: "int \<Rightarrow> int \<Rightarrow> int" where
  "crem a b = a - b * cdiv a b"

lemma cdiv_crem: "cdiv a b * b + crem a b = a"
  by (simp add: crem_def algebra_simps)

lemma crem_abs: "crem a b = sgn a * (\<bar>a\<bar> mod \<bar>b\<bar>)"
proof -
  have "b * (sgn a * sgn b * (\<bar>a\<bar> div \<bar>b\<bar>)) = sgn a * (\<bar>b\<bar> * (\<bar>a\<bar> div \<bar>b\<bar>))"
    by (simp add: abs_sgn algebra_simps)
  then have "crem a b = sgn a * \<bar>a\<bar> - sgn a * (\<bar>b\<bar> * (\<bar>a\<bar> div \<bar>b\<bar>))"
    by (simp add: crem_def cdiv_def mult_sgn_abs)
  also have "\<dots> = sgn a * (\<bar>a\<bar> mod \<bar>b\<bar>)"
    by (simp add: minus_mult_div_eq_mod flip: right_diff_distrib)
  finally show ?thesis .
qed

lemma crem_bound: "b \<noteq> 0 \<Longrightarrow> \<bar>crem a b\<bar> < \<bar>b\<bar>"
  by (simp add: crem_abs abs_mult sgn_if)


section \<open>Words as natural numbers\<close>

lemma unat_u32_bound: "unat (x :: u32) < 2 ^ 32"
  using unsigned_less [of x, where ?'a = nat] by simp

lemma unat_u64_of_nat: "v < 2 ^ 64 \<Longrightarrow> unat (word_of_nat v :: u64) = v"
  by (simp add: unsigned_of_nat take_bit_nat_eq_self)

lemma unat_u32_of_nat: "v < 2 ^ 32 \<Longrightarrow> unat (word_of_nat v :: u32) = v"
  by (simp add: unsigned_of_nat take_bit_nat_eq_self)

lemma unat_ucast_u32 [simp]: "unat (ucast (x :: u32) :: u64) = unat x"
  using unat_u32_bound [of x] by (simp only: unsigned_ucast_eq) (rule take_bit_nat_eq_self, simp)

lemma unat_mult_u32: "unat ((ucast (x :: u32) :: u64) * ucast (y :: u32)) = unat x * unat y"
proof -
  have "unat x * unat y \<le> (2 ^ 32 - 1) * (2 ^ 32 - 1)"
    using unat_u32_bound [of x] unat_u32_bound [of y] by (intro mult_le_mono) auto
  then show ?thesis by (simp add: unat_word_ariths)
qed

lemma unat_low32: "unat (ucast (x :: u64) :: u32) = unat x mod 2 ^ 32"
  by (simp only: unsigned_ucast_eq take_bit_eq_mod) simp

lemma unat_high32: "unat (drop_bit 32 (x :: u64)) = unat x div 2 ^ 32"
  unfolding unsigned_drop_bit_eq
  using unsigned_less [of x, where ?'a = nat] by (simp add: drop_bit_eq_div take_bit_eq_mod)

lemma unat_split32: "unat (x :: u64) = unat (ucast (drop_bit 32 x) :: u32) * 2 ^ 32 + unat (ucast x :: u32)"
proof -
  have "unat x div 2 ^ 32 < 2 ^ 32"
    using unsigned_less [of x, where ?'a = nat] by (simp add: less_mult_imp_div_less)
  then show ?thesis by (simp only: unat_low32 unat_high32 mod_less div_mult_mod_eq)
qed

lemma push_or_low32:
  "unat (push_bit 32 (w :: u64) OR ucast (v :: u32)) = unat w mod 2 ^ 32 * 2 ^ 32 + unat v"
proof -
  have "push_bit 32 w AND (ucast v :: u64) = 0"
    by (rule bit_word_eqI) (auto simp: bit_and_iff bit_push_bit_iff bit_ucast_iff dest: bit_imp_le_length)
  then have "push_bit 32 w OR (ucast v :: u64) = push_bit 32 w + ucast v"
    using word_plus_and_or [of "push_bit 32 w" "ucast v :: u64"] by simp
  moreover have "unat (push_bit 32 w) = unat w mod 2 ^ 32 * 2 ^ 32"
    by (simp add: push_bit_eq_mult unat_word_ariths mult_mod_left)
  moreover have "unat w mod 2 ^ 32 * 2 ^ 32 + unat v < 2 ^ 64"
  proof -
    have "unat w mod 2 ^ 32 < 2 ^ 32" by simp
    then show ?thesis using unat_u32_bound [of v] by simp
  qed
  ultimately show ?thesis by (simp only: unat_word_ariths(1) unat_ucast_u32) simp
qed

lemma unat_and_mask: "unat ((w :: u64) AND (push_bit n 1 - 1)) = unat w mod 2 ^ n"
proof -
  have "push_bit n 1 - 1 = (mask n :: u64)" by (simp add: mask_eq_exp_minus_1 push_bit_eq_mult)
  then have "w AND (push_bit n 1 - 1) = take_bit n w" by (simp only: take_bit_eq_mask)
  then show ?thesis by (simp only: unsigned_take_bit_eq) (simp only: take_bit_eq_mod)
qed

lemma unat_drop_bit_div: "unat (drop_bit n (w :: u64)) = unat w div 2 ^ n"
  unfolding unsigned_drop_bit_eq
  using unsigned_less [of w, where ?'a = nat] by (simp add: drop_bit_eq_div take_bit_eq_mod)

lemma mod_div_swap: "0 < b \<Longrightarrow> a mod (b * c) div b = (a :: nat) div b mod c"
  by (simp add: mod_mult2_eq)

end
