(* ===== verification/LuwuDouble.thy ===== *)
theory LuwuDouble
  imports LuwuPrelude
begin

text \<open>
  The C++ type \<^verbatim>\<open>double\<close>, which carries every Lua number. A value is its IEEE-754
  binary64 bit pattern, the one that \<^verbatim>\<open>memcpy\<close> and unions of the VM read and write. The
  operations are those the modelled code uses: comparison, conversion to an integer by truncation
  (the casts \<^verbatim>\<open>(int)d\<close>, \<^verbatim>\<open>(int64_t)d\<close>) and conversion of an integer to the nearest
  double with ties to even (the casts \<^verbatim>\<open>(double)n\<close>).

  A finite value is \<open>dbl_scaled d / 2 ^ 1074\<close> for the integer \<open>dbl_scaled d\<close>;
  infinities have scaled values beyond every finite one, so comparison is comparison of scaled values
  once NaN has been excluded.
\<close>

type_synonym double = "64 word"


section \<open>Layout, classification, order\<close>

definition dbl_sign :: "double \<Rightarrow> bool" where
  "dbl_sign d = bit d 63"

definition dbl_exponent :: "double \<Rightarrow> nat" where
  "dbl_exponent d = unat d div 2 ^ 52 mod 2 ^ 11"

definition dbl_fraction :: "double \<Rightarrow> nat" where
  "dbl_fraction d = unat d mod 2 ^ 52"

definition dbl_isnan :: "double \<Rightarrow> bool" where
  "dbl_isnan d \<longleftrightarrow> dbl_exponent d = 2047 \<and> dbl_fraction d \<noteq> 0"

definition dbl_isfinite :: "double \<Rightarrow> bool" where
  "dbl_isfinite d \<longleftrightarrow> dbl_exponent d \<noteq> 2047"

definition dbl_magnitude :: "double \<Rightarrow> nat" where
  "dbl_magnitude d =
     (if dbl_exponent d = 0 then dbl_fraction d
      else (2 ^ 52 + dbl_fraction d) * 2 ^ (dbl_exponent d - 1))"

definition dbl_scaled :: "double \<Rightarrow> int" where
  "dbl_scaled d = (if dbl_sign d then - int (dbl_magnitude d) else int (dbl_magnitude d))"

definition dbl_eq :: "double \<Rightarrow> double \<Rightarrow> bool" where
  "dbl_eq a b \<longleftrightarrow> \<not> dbl_isnan a \<and> \<not> dbl_isnan b \<and> dbl_scaled a = dbl_scaled b"

definition dbl_lt :: "double \<Rightarrow> double \<Rightarrow> bool" where
  "dbl_lt a b \<longleftrightarrow> \<not> dbl_isnan a \<and> \<not> dbl_isnan b \<and> dbl_scaled a < dbl_scaled b"

definition dbl_le :: "double \<Rightarrow> double \<Rightarrow> bool" where
  "dbl_le a b \<longleftrightarrow> \<not> dbl_isnan a \<and> \<not> dbl_isnan b \<and> dbl_scaled a \<le> dbl_scaled b"

definition dbl_trunc :: "double \<Rightarrow> int option" where
  "dbl_trunc d =
     (if dbl_isfinite d
      then Some (if dbl_sign d then - int (dbl_magnitude d div 2 ^ 1074)
                 else int (dbl_magnitude d div 2 ^ 1074))
      else None)"


section \<open>Integers to doubles\<close>

fun bit_length :: "nat \<Rightarrow> nat" where
  "bit_length n = (if n = 0 then 0 else Suc (bit_length (n div 2)))"

declare bit_length.simps [simp del]

definition round_to_even :: "nat \<Rightarrow> nat \<Rightarrow> nat" where
  "round_to_even a sh =
     (let q = a div 2 ^ sh; r = a mod 2 ^ sh; half = 2 ^ (sh - 1)
      in if half < r \<or> (r = half \<and> odd q) then q + 1 else q)"

definition dbl_of_nat :: "nat \<Rightarrow> double" where
  "dbl_of_nat a =
     (let k = bit_length a in
      if a = 0 then 0
      else if k \<le> 53 then word_of_nat ((k + 1021) * 2 ^ 52 + a * 2 ^ (53 - k))
      else word_of_nat ((k + 1021) * 2 ^ 52 + round_to_even a (k - 53)))"

definition dbl_of_int :: "int \<Rightarrow> double" where
  "dbl_of_int n = (if n < 0 then dbl_of_nat (nat (- n)) OR 2 ^ 63 else dbl_of_nat (nat n))"


section \<open>Facts\<close>

lemma bit_length_bounds: "0 < n \<Longrightarrow> 2 ^ (bit_length n - 1) \<le> n \<and> n < 2 ^ bit_length n"
proof (induction n rule: bit_length.induct)
  case (1 n)
  show ?case
  proof (cases "n div 2 = 0")
    case True
    with "1.prems" have "n = 1" by simp
    then show ?thesis by (simp add: bit_length.simps)
  next
    case False
    with "1" have IH: "2 ^ (bit_length (n div 2) - 1) \<le> n div 2 \<and> n div 2 < 2 ^ bit_length (n div 2)"
      by simp
    from False have pos: "0 < bit_length (n div 2)"
      by (simp add: bit_length.simps [of "n div 2"])
    have bl: "bit_length n = Suc (bit_length (n div 2))"
      using "1.prems" by (simp add: bit_length.simps [of n])
    from pos obtain m where m: "bit_length (n div 2) = Suc m"
      by (cases "bit_length (n div 2)") auto
    show ?thesis using IH by (simp add: bl m) arith
  qed
qed

lemma bit_length_le:
  assumes "n < 2 ^ k"
  shows "bit_length n \<le> k"
proof (cases "n = 0")
  case True
  then show ?thesis by (simp add: bit_length.simps)
next
  case False
  then have "2 ^ (bit_length n - 1) \<le> n" using bit_length_bounds by simp
  from this assms have "(2 :: nat) ^ (bit_length n - 1) < 2 ^ k" by (rule le_less_trans)
  then have "bit_length n - 1 < k" by (rule power_less_imp_less_exp [rotated]) simp
  then show ?thesis by simp
qed

lemma bit_length_pos: "0 < n \<Longrightarrow> 0 < bit_length n"
  by (subst bit_length.simps) simp

lemma pow2_split: "i + j = n \<Longrightarrow> (2::nat) ^ i * 2 ^ j = 2 ^ n"
  by (simp flip: power_add)

lemma normalised_bounds:
  assumes "0 < a" "bit_length a \<le> n"
  shows "2 ^ (n - 1) \<le> a * 2 ^ (n - bit_length a)"
    and "a * 2 ^ (n - bit_length a) < 2 ^ n"
proof -
  note k1 = bit_length_pos [OF assms(1)] and b = bit_length_bounds [OF assms(1)]
  have "2 ^ (n - 1) = (2::nat) ^ (bit_length a - 1) * 2 ^ (n - bit_length a)"
    using k1 assms(2) by (intro pow2_split [symmetric]) simp
  also have "\<dots> \<le> a * 2 ^ (n - bit_length a)"
    using b by (intro mult_le_mono1) simp
  finally show "2 ^ (n - 1) \<le> a * 2 ^ (n - bit_length a)" .
  have "a * 2 ^ (n - bit_length a) < 2 ^ bit_length a * 2 ^ (n - bit_length a)"
    using b by simp
  then show "a * 2 ^ (n - bit_length a) < 2 ^ n"
    using pow2_split [of "bit_length a" "n - bit_length a" n] assms(2) by simp
qed

text \<open>
  A natural number below \<open>2 ^ 53\<close> is stored exactly: its exponent and fraction fields.
\<close>

lemma unat_dbl_of_nat:
  assumes a: "0 < a" "a < 2 ^ 53"
  obtains m where "a * 2 ^ (53 - bit_length a) = 2 ^ 52 + m" and "m < 2 ^ 52"
    and "unat (dbl_of_nat a) = (bit_length a + 1022) * 2 ^ 52 + m"
proof
  define x where "x = a * 2 ^ (53 - bit_length a)"
  have k: "bit_length a \<le> 53" using a(2) by (rule bit_length_le)
  have x: "2 ^ 52 \<le> x" "x < 2 ^ 53"
    using normalised_bounds [OF a(1) k] by (simp_all add: x_def)
  show "a * 2 ^ (53 - bit_length a) = 2 ^ 52 + (x - 2 ^ 52)" using x by (simp add: x_def)
  show "x - 2 ^ 52 < 2 ^ 52" using x by simp
  have "dbl_of_nat a = word_of_nat ((bit_length a + 1021) * 2 ^ 52 + x)"
    using a(1) k by (simp only: dbl_of_nat_def Let_def x_def) simp
  also have "(bit_length a + 1021) * 2 ^ 52 + x = (bit_length a + 1022) * 2 ^ 52 + (x - 2 ^ 52)"
    using x by simp
  finally have "unat (dbl_of_nat a) = ((bit_length a + 1022) * 2 ^ 52 + (x - 2 ^ 52)) mod 2 ^ 64"
    by (simp only: unat_of_nat) (simp add: take_bit_eq_mod)
  also have "\<dots> = (bit_length a + 1022) * 2 ^ 52 + (x - 2 ^ 52)"
    using k x by (intro mod_less) simp
  finally show "unat (dbl_of_nat a) = (bit_length a + 1022) * 2 ^ 52 + (x - 2 ^ 52)" .
qed

lemma dbl_of_nat_fields:
  assumes a: "0 < a" "a < 2 ^ 53"
  shows "dbl_exponent (dbl_of_nat a) = bit_length a + 1022"
    and "2 ^ 52 + dbl_fraction (dbl_of_nat a) = a * 2 ^ (53 - bit_length a)"
    and "unat (dbl_of_nat a) < 2 ^ 63"
proof -
  obtain m where m: "a * 2 ^ (53 - bit_length a) = 2 ^ 52 + m" "m < 2 ^ 52"
      "unat (dbl_of_nat a) = (bit_length a + 1022) * 2 ^ 52 + m"
    using unat_dbl_of_nat [OF a] .
  have k: "bit_length a \<le> 53" using a(2) by (rule bit_length_le)
  show "dbl_exponent (dbl_of_nat a) = bit_length a + 1022"
    using m(2) k by (simp add: dbl_exponent_def m(3))
  have "dbl_fraction (dbl_of_nat a) = m"
    unfolding dbl_fraction_def m(3) using m(2) by (subst mod_mult_self3) (rule mod_less)
  then show "2 ^ 52 + dbl_fraction (dbl_of_nat a) = a * 2 ^ (53 - bit_length a)"
    by (simp only: m(1))
  show "unat (dbl_of_nat a) < 2 ^ 63" using k m(2) by (simp add: m(3))
qed

lemma dbl_of_nat_exact:
  assumes "a < 2 ^ 53"
  shows "dbl_magnitude (dbl_of_nat a) = a * 2 ^ 1074"
    and "dbl_exponent (dbl_of_nat a) \<noteq> 2047"
    and "unat (dbl_of_nat a) < 2 ^ 63"
proof -
  have "dbl_magnitude (dbl_of_nat a) = a * 2 ^ 1074 \<and> dbl_exponent (dbl_of_nat a) \<noteq> 2047
    \<and> unat (dbl_of_nat a) < 2 ^ 63"
  proof (cases "a = 0")
    case True
    then show ?thesis
      by (simp add: dbl_of_nat_def dbl_magnitude_def dbl_exponent_def dbl_fraction_def)
  next
    case False
    then have a: "0 < a" by simp
    note f = dbl_of_nat_fields [OF a assms]
    have k: "bit_length a \<le> 53" using assms by (rule bit_length_le)
    have "dbl_magnitude (dbl_of_nat a) = (a * 2 ^ (53 - bit_length a)) * 2 ^ (bit_length a + 1021)"
      by (simp add: dbl_magnitude_def f(1) f(2) [symmetric])
    also have "\<dots> = a * (2 ^ (53 - bit_length a) * 2 ^ (bit_length a + 1021))" by (rule mult.assoc)
    also have "\<dots> = a * 2 ^ 1074"
      using k by (subst pow2_split [of _ _ 1074]) simp_all
    finally show ?thesis using f(1,3) k by simp
  qed
  then show "dbl_magnitude (dbl_of_nat a) = a * 2 ^ 1074"
    and "dbl_exponent (dbl_of_nat a) \<noteq> 2047"
    and "unat (dbl_of_nat a) < 2 ^ 63"
    by simp_all
qed

lemma bit63_iff: "bit (d :: double) 63 \<longleftrightarrow> 2 ^ 63 \<le> unat d"
proof -
  have "bit d 63 \<longleftrightarrow> bit (unat d) 63" by (simp add: bit_unsigned_iff)
  also have "\<dots> \<longleftrightarrow> odd (unat d div 2 ^ 63)" by (rule bit_iff_odd)
  finally have "bit d 63 \<longleftrightarrow> odd (unat d div 2 ^ 63)" .
  moreover have "unat d div 2 ^ 63 < 2"
    using unsigned_less [of d, where ?'a = nat] by (simp add: less_mult_imp_div_less)
  then have "unat d div 2 ^ 63 = 0 \<or> unat d div 2 ^ 63 = 1" by linarith
  moreover have "2 ^ 63 \<le> unat d \<longleftrightarrow> unat d div 2 ^ 63 \<noteq> 0"
    by (simp add: div_eq_0_iff not_less)
  ultimately show ?thesis by auto
qed

lemma sign_bit_or:
  assumes "unat (d :: double) < 2 ^ 63"
  shows "unat (d OR 2 ^ 63) = unat d + 2 ^ 63"
proof -
  have "\<not> bit d 63" using assms by (simp add: bit63_iff)
  then have "d AND 2 ^ 63 = 0" by (simp only: and_exp_eq_0_iff_not_bit not_False_eq_True)
  then have "d OR 2 ^ 63 = d + 2 ^ 63" using word_plus_and_or [of d "2 ^ 63"] by simp
  moreover have "unat (d + 2 ^ 63) = unat d + 2 ^ 63"
    using assms by (simp add: unat_word_ariths)
  ultimately show ?thesis by simp
qed

lemma signed_fields:
  assumes "unat (d :: double) < 2 ^ 63"
  shows "dbl_exponent (d OR 2 ^ 63) = dbl_exponent d"
    and "dbl_fraction (d OR 2 ^ 63) = dbl_fraction d"
    and "dbl_sign (d OR 2 ^ 63)"
    and "dbl_magnitude (d OR 2 ^ 63) = dbl_magnitude d"
proof -
  show e: "dbl_exponent (d OR 2 ^ 63) = dbl_exponent d"
    unfolding dbl_exponent_def sign_bit_or [OF assms]
    using div_mult_self1 [of "2 ^ 52" "unat d" "2 ^ 11"] by simp
  show f: "dbl_fraction (d OR 2 ^ 63) = dbl_fraction d"
    unfolding dbl_fraction_def sign_bit_or [OF assms]
    using mod_mult_self1 [of "unat d" "2 ^ 11" "2 ^ 52"] by simp
  show "dbl_sign (d OR 2 ^ 63)"
    by (simp add: dbl_sign_def bit_or_iff bit_exp_iff)
  show "dbl_magnitude (d OR 2 ^ 63) = dbl_magnitude d"
    by (simp only: dbl_magnitude_def e f)
qed

definition exact_in_double :: "int \<Rightarrow> bool" where
  "exact_in_double n \<longleftrightarrow> \<bar>n\<bar> < 2 ^ 53"

lemma dbl_of_int_exact:
  assumes "exact_in_double n"
  shows "dbl_scaled (dbl_of_int n) = n * 2 ^ 1074"
    and "dbl_isfinite (dbl_of_int n)"
    and "\<not> dbl_isnan (dbl_of_int n)"
    and "dbl_trunc (dbl_of_int n) = Some n"
proof -
  define a where "a = nat \<bar>n\<bar>"
  have a: "a < 2 ^ 53" using assms by (simp add: a_def exact_in_double_def)
  note ex = dbl_of_nat_exact [OF a] and sg = signed_fields [OF dbl_of_nat_exact(3) [OF a]]
  have pos: "\<not> dbl_sign (dbl_of_nat a)" using ex(3) by (simp add: dbl_sign_def bit63_iff)
  have d: "dbl_of_int n = (if n < 0 then dbl_of_nat a OR 2 ^ 63 else dbl_of_nat a)"
    by (simp only: dbl_of_int_def a_def) simp
  have e: "dbl_exponent (dbl_of_int n) \<noteq> 2047" by (cases "n < 0") (simp_all only: d sg ex if_True if_False not_False_eq_True)
  show fin: "dbl_isfinite (dbl_of_int n)" using e unfolding dbl_isfinite_def .
  show "\<not> dbl_isnan (dbl_of_int n)" using e by (simp add: dbl_isnan_def)
  have m: "dbl_magnitude (dbl_of_int n) = a * 2 ^ 1074"
    by (cases "n < 0") (simp_all only: d sg ex if_True if_False)
  have s: "dbl_sign (dbl_of_int n) \<longleftrightarrow> n < 0"
    using sg(3) pos by (cases "n < 0") (simp_all only: d if_True if_False)
  have n: "n = (if n < 0 then - int a else int a)" by (simp add: a_def)
  have "int (a * 2 ^ 1074) = int a * 2 ^ 1074" by (simp only: of_nat_mult of_nat_power of_nat_numeral)
  then show "dbl_scaled (dbl_of_int n) = n * 2 ^ 1074"
    using n by (simp only: dbl_scaled_def s m) (cases "n < 0"; simp only: if_True if_False mult_minus_left)
  have "a * 2 ^ 1074 div 2 ^ 1074 = a" by (rule nonzero_mult_div_cancel_right) (rule power_not_zero, simp)
  then show "dbl_trunc (dbl_of_int n) = Some n"
    using n fin by (simp only: dbl_trunc_def s m if_True)
qed

lemma dbl_eq_of_int:
  assumes "exact_in_double m" "exact_in_double n"
  shows "dbl_eq (dbl_of_int m) (dbl_of_int n) \<longleftrightarrow> m = n"
  using dbl_of_int_exact [OF assms(1)] dbl_of_int_exact [OF assms(2)]
  by (simp only: dbl_eq_def simp_thms mult_right_cancel [OF power_not_zero [of "2::int" 1074]] zero_neq_numeral not_False_eq_True)

lemma dbl_eq_sym: "dbl_eq a b \<longleftrightarrow> dbl_eq b a"
  by (auto simp: dbl_eq_def)

lemma dbl_eq_trans: "dbl_eq a b \<Longrightarrow> dbl_eq b c \<Longrightarrow> dbl_eq a c"
  by (simp add: dbl_eq_def)

lemma dbl_eq_refl: "dbl_eq a a \<longleftrightarrow> \<not> dbl_isnan a"
  by (simp add: dbl_eq_def)

lemma in_int32_exact [intro]: "in_int32 n \<Longrightarrow> exact_in_double n"
  by (auto simp: in_int32_def exact_in_double_def)

lemma uint32_exact [simp]: "exact_in_double (uint (w :: u32))"
  using uint_lt2p [of w] uint_ge_0 [of w] by (simp add: exact_in_double_def)

end
