(* ===== verification/NumPrint.thy ===== *)
theory NumPrint
  imports LuwuDouble
begin

text \<open>
  Number formatting, \<^verbatim>\<open>VM/src/lnumprint.cpp\<close>: the shortest decimal of a double by the
  Schubfach algorithm (\<open>schubfach\<close> with its 128-bit arithmetic and its compressed table of
  powers of ten), the layout of the digits (\<open>luai_num2str\<close>) and the decimal form of 64-bit
  integers (\<open>luai_int2str\<close>). Functions that fill a character buffer return the bytes they
  leave in it, in order.

  Shown here: the portable 32-bit multiplication agrees with the 128-bit one; the digit printer
  and \<open>luai_int2str\<close> produce the decimal numeral, and the write position of the latter ends
  where its assertion says; integral doubles print as plain decimal numerals.
\<close>

section \<open>Tables\<close>

definition kPow10TableMin :: int where "kPow10TableMin = -292"

definition kPow10TableMax :: int where "kPow10TableMax = 324"

definition kPow5Table :: "u64 list" where
  "kPow5Table =
     [0x8000000000000000, 0xa000000000000000, 0xc800000000000000, 0xfa00000000000000,
      0x9c40000000000000, 0xc350000000000000, 0xf424000000000000, 0x9896800000000000,
      0xbebc200000000000, 0xee6b280000000000, 0x9502f90000000000, 0xba43b74000000000,
      0xe8d4a51000000000, 0x9184e72a00000000, 0xb5e620f480000000, 0xe35fa931a0000000]"

definition kPow10Table :: "(u64 \<times> u64 \<times> u64) list" where
  "kPow10Table =
     [(0xff77b1fcbebcdc4f, 0x25e8e89c13bb0f7b, 0x333443443333443b),
      (0x8dd01fad907ffc3b, 0xae3da7d97f6792e4, 0xbbb3ab3cb3ba3cbc),
      (0x9d71ac8fada6c9b5, 0x6f773fc3603db4aa, 0x4ba4bc4bb4bb4bcc),
      (0xaecc49914078536d, 0x58fae9f773886e19, 0x3ba3bc33b43b43bb),
      (0xc21094364dfb5636, 0x985915fc12f542e5, 0x33b43b43a33b33cb),
      (0xd77485cb25823ac7, 0x7d633293366b828c, 0x34b44c444343443c),
      (0xef340a98172aace4, 0x86fb897116c87c35, 0x333343333343334b),
      (0x84c8d4dfd2c63f3b, 0x29ecd9f40041e074, 0xccaccbbcbcbb4bbc),
      (0x936b9fcebb25c995, 0xcab10dd900beec35, 0x3ab3ab3ab3bb3bbb),
      (0xa3ab66580d5fdaf5, 0xc13e60d0d2e0ebbb, 0x4cc3dc4db4db4dbb),
      (0xb5b5ada8aaff80b8, 0x0d819992132456bb, 0x33b33a34c33b34ab),
      (0xc9bcff6034c13052, 0xfc89b393dd02f0b6, 0x33c33b44b43c34bc),
      (0xdff9772470297ebd, 0x59787e2b93bc56f8, 0x43b444444443434c),
      (0xf8a95fcf88747d94, 0x75a44c6397ce912b, 0x443334343443343b),
      (0x8a08f0f8bf0f156b, 0x1b8e9ecb641b5900, 0xbbabab3aa3ab4ccc),
      (0x993fe2c6d07b7fab, 0xe546a8038efe402a, 0x4cb4bc4db4db4bcc),
      (0xaa242499697392d2, 0xdde50bd1d5d0b9ea, 0x3ba3ba3bb33b33bc),
      (0xbce5086492111aea, 0x88f4bb1ca6bcf585, 0x44b44c44c44c43cb),
      (0xd1b71758e219652b, 0xd3c36113404ea4a9, 0x44c44c44c444443b),
      (0xe8d4a51000000000, 0x0000000000000000, 0x444444444444444c),
      (0x813f3978f8940984, 0x4000000000000000, 0xcccccccccccccccc),
      (0x8f7e32ce7bea5c6f, 0xe4820023a2000000, 0xbba3bc4cc4cc4ccc),
      (0x9f4f2726179a2245, 0x01d762422c946591, 0x4aa3bb3aa3ba3bab),
      (0xb0de65388cc8ada8, 0x3b25a55f43294bcc, 0x3ca33b33b44b43bc),
      (0xc45d1df942711d9a, 0x3ba5d0bd324f8395, 0x44c44c34c44b44cb),
      (0xda01ee641a708de9, 0xe80e6f4820cc9496, 0x33b33b343333333c),
      (0xf209787bb47d6b84, 0xc0678c5dbd23a49b, 0x443444444443443b),
      (0x865b86925b9bc5c2, 0x0b8a2392ba45a9b3, 0xdbccbcccb4cb3bbb),
      (0x952ab45cfa97a0b2, 0xdd945a747bf26184, 0x3bc4bb4ab3ca3cbc),
      (0xa59bc234db398c25, 0x43fab9837e699096, 0x3bb3ac3ab3bb33ac),
      (0xb7dcbf5354e9bece, 0x0c11ed6d538aeb30, 0x33b43b43b34c34dc),
      (0xcc20ce9bd35c78a5, 0x31ec038df7b441f5, 0x34c44c43c44b44cb),
      (0xe2a0b5dc971f303a, 0x2e44ae64840fd61e, 0x333333333333333c),
      (0xfb9b7cd9a4a7443c, 0x169840ef017da3b2, 0x433344443333344c),
      (0x8bab8eefb6409c1a, 0x1ad089b6c2f7548f, 0xdcbdcc3cc4cc4bcb),
      (0x9b10a4e5e9913128, 0xca7cf2b4191c8327, 0x3ab3cb3bc3bb4bbb),
      (0xac2820d9623bf429, 0x546345fa9fbdcd45, 0x3bb3cc43c43c43cb),
      (0xbf21e44003acdd2c, 0xe0470a63e6bd56c4, 0x44b34a43b44c44bc),
      (0xd433179d9c8cb841, 0x5fa60692a46151ec, 0x43a33a33a333333c)]"

definition kDigitTable :: bytes where
  "kDigitTable = map of_char
    (''0001020304050607080910111213141516171819202122232425262728293031323334353637383940414243444546474849'' @
     ''5051525354555657585960616263646566676869707172737475767778798081828384858687888990919293949596979899'')"


section \<open>128-bit products\<close>

text \<open>
  \<open>mul128\<close> returns the pair of the low word (the function's result) and the high word
  (stored through the pointer); the branch taken where the compiler has 128-bit integers.
\<close>

definition mul128 :: "u64 \<Rightarrow> u64 \<Rightarrow> u64 \<times> u64" where
  "mul128 x y = (let r = (ucast x :: 128 word) * ucast y in (ucast r, ucast (drop_bit 64 r)))"

text \<open>The branch for compilers that have neither the intrinsic nor 128-bit integers.\<close>

definition mul128_portable :: "u64 \<Rightarrow> u64 \<Rightarrow> u64 \<times> u64" where
  "mul128_portable x y =
     (let x0 = ucast x :: u32; x1 = ucast (drop_bit 32 x) :: u32;
          y0 = ucast y :: u32; y1 = ucast (drop_bit 32 y) :: u32;
          p11 = (ucast x1 :: u64) * ucast y1; p01 = (ucast x0 :: u64) * ucast y1;
          p10 = (ucast x1 :: u64) * ucast y0; p00 = (ucast x0 :: u64) * ucast y0;
          mid = p10 + drop_bit 32 p00 + ucast (ucast p01 :: u32);
          r0 = push_bit 32 mid OR ucast (ucast p00 :: u32);
          r1 = p11 + drop_bit 32 mid + drop_bit 32 p01
      in (r0, r1))"

definition mul192hi :: "u64 \<Rightarrow> u64 \<Rightarrow> u64 \<Rightarrow> u64 \<times> u64" where
  "mul192hi xhi xlo y =
     (let (z1, z2) = mul128 xhi y; (z0, z1c) = mul128 xlo y;
          z1 = z1 + z1c; z2 = z2 + (if z1 < z1c then 1 else 0)
      in (z1, z2))"

definition roundodd :: "u64 \<Rightarrow> u64 \<Rightarrow> u64 \<Rightarrow> u64" where
  "roundodd ghi glo cp =
     (let (xlo, xhi) = mul128 glo cp; (ylo, yhi) = mul128 ghi cp;
          z = ylo + xhi
      in (yhi + (if z < xhi then 1 else 0)) OR (if 1 < z then 1 else 0))"


section \<open>Schubfach\<close>

record Decimal =
  d_s :: u64
  d_k :: int

text \<open>
  The reconstruction of the 128-bit fraction of \<open>10 ^ (-k)\<close> from the compressed table
  (the lines of \<open>schubfach\<close> under section 9.8.2), as (high, low).
\<close>

definition pow10_entry :: "int \<Rightarrow> u64 \<times> u64" where
  "pow10_entry k =
     (let gtoff = nat (- k - kPow10TableMin);
          (gt0, gt1, gt2) = kPow10Table ! (gtoff div 16);
          (glo, ghi) = mul192hi gt0 gt1 (kPow5Table ! (gtoff mod 16));
          gterr = drop_bit ((gtoff mod 16) * 4) gt2 AND 15;
          gtscale = drop_bit 3 gterr;
          ghi = push_bit (unat gtscale) ghi;
          ghi = ghi + (drop_bit 63 glo AND gtscale);
          glo = push_bit (unat gtscale) glo;
          glo = glo - ((gterr AND 7) - 4)
      in (ghi, glo))"

definition schubfach :: "nat \<Rightarrow> u64 \<Rightarrow> Decimal" where
  "schubfach exponent fraction =
     (let q = int exponent - 1023 - 51;
          (c, q) = (if exponent \<noteq> 0 then (fraction OR push_bit 52 1, q - 1) else (fraction, q))
      in
      if (word_of_int (- q) :: u32) < 53 \<and> c AND (push_bit (nat (- q)) 1 - 1) = 0
      then \<lparr>d_s = drop_bit (nat (- q)) c, d_k = 0\<rparr>
      else
        let irr = (c = push_bit 52 1 \<and> q \<noteq> -1074);
            out = c AND 1;
            cbl = 4 * c - 2 + (if irr then 1 else 0);
            cb = 4 * c;
            cbr = 4 * c + 2;
            k = (q * 315652 + (if irr then -131008 else 0)) div 2 ^ 20;
            h = nat (q + (- k * 3483294) div 2 ^ 20 + 1);
            (ghi, glo) = pow10_entry k;
            vbl = roundodd ghi glo (push_bit h cbl);
            vb = roundodd ghi glo (push_bit h cb);
            vbr = roundodd ghi glo (push_bit h cbr);
            s = vb div 4;
            sp = s div 10;
            upin = (vbl + out \<le> 40 * sp);
            wpin = (40 * sp + 40 + out \<le> vbr)
        in
        if 10 \<le> s \<and> upin \<noteq> wpin
        then \<lparr>d_s = sp + (if wpin then 1 else 0), d_k = k + 1\<rparr>
        else
          let uin = (vbl + out \<le> 4 * s);
              win = (4 * s + 4 + out \<le> vbr);
              rup = (4 * s + 2 + 1 - (s AND 1) \<le> vb)
          in \<lparr>d_s = s + (if (if uin \<noteq> win then win else rup) then 1 else 0), d_k = k\<rparr>)"


section \<open>Digits\<close>

text \<open>The bytes of a string literal of the source.\<close>

definition lit :: "string \<Rightarrow> bytes" where
  "lit s = map of_char s"

definition digit_char :: "nat \<Rightarrow> byte" where
  "digit_char d = 48 + word_of_nat d"

definition digit_pair :: "nat \<Rightarrow> bytes" where
  "digit_pair v = [kDigitTable ! (v * 2), kDigitTable ! (v * 2 + 1)]"

definition printspecial :: "bool \<Rightarrow> u64 \<Rightarrow> bytes" where
  "printspecial sign fraction =
     (if fraction = 0 then (if sign then lit ''-inf'' else lit ''inf'') else lit ''nan'')"

text \<open>
  The first loop of \<open>printunsignedrev\<close> writes four digits at a time in front of those
  already in the buffer, the second one two at a time.
\<close>

fun printunsigned_pairs :: "nat \<Rightarrow> bytes \<Rightarrow> bytes" where
  "printunsigned_pairs rest acc =
     (if 10 \<le> rest then printunsigned_pairs (rest div 100) (digit_pair (rest mod 100) @ acc)
      else if rest \<noteq> 0 then digit_char rest # acc
      else acc)"

fun printunsignedrev :: "nat \<Rightarrow> bytes \<Rightarrow> bytes" where
  "printunsignedrev num acc =
     (if 10000 \<le> num
      then let tail = num mod 10000
           in printunsignedrev (num div 10000)
                (digit_pair (tail div 100) @ digit_pair (tail mod 100) @ acc)
      else printunsigned_pairs num acc)"

declare printunsigned_pairs.simps [simp del] printunsignedrev.simps [simp del]

definition printexp :: "int \<Rightarrow> bytes" where
  "printexp num =
     (let v = nat (if num < 0 then - num else num)
      in lit ''e'' @ (if num < 0 then lit ''-'' else lit ''+'') @
         (if 100 \<le> v then [digit_char (v div 100)] @ digit_pair (v mod 100) else digit_pair v))"

definition trimzero :: "bytes \<Rightarrow> bytes" where
  "trimzero b = rev (dropWhile (\<lambda>c. c = 48) (rev b))"


section \<open>luai\_num2str and luai\_int2str\<close>

text \<open>The layout of the digits \<open>dec\<close> with the decimal point after \<open>dot\<close> digits.\<close>

definition layout_decimal :: "bytes \<Rightarrow> int \<Rightarrow> bytes" where
  "layout_decimal dec dot =
     (let declen = int (length dec) in
      if -5 \<le> dot \<and> dot \<le> 21
      then if dot \<le> 0 then trimzero (lit ''0.'' @ replicate (nat (- dot)) 48 @ dec)
           else if dot = declen then dec
           else if dot < declen then trimzero (take (nat dot) dec @ lit ''.'' @ drop (nat dot) dec)
           else dec @ replicate (nat (dot - declen)) 48
      else let body = trimzero (take 1 dec @ lit ''.'' @ drop 1 dec);
               body = (if last body = 46 then butlast body else body)
           in body @ printexp (dot - 1))"

definition luai_num2str :: "double \<Rightarrow> bytes" where
  "luai_num2str n =
     (let sign = (drop_bit 63 n \<noteq> 0);
          exponent = unat (drop_bit 52 n AND 2047);
          fraction = n AND (push_bit 52 1 - 1)
      in
      if exponent = 0x7ff then printspecial sign fraction
      else (if sign then lit ''-'' else []) @
        (if exponent = 0 \<and> fraction = 0 then lit ''0''
         else let d = schubfach exponent fraction;
                  dec = printunsignedrev (unat (d_s d)) [];
                  dot = int (length dec) + d_k d
              in layout_decimal dec dot))"

text \<open>
  \<open>luai_int2str\<close>: first the number of digits, then the digits from the last one backwards.
  \<open>int2str_digits\<close> is the \<^verbatim>\<open>do\<close> loop with the buffer as a list and the write
  position \<open>pos\<close>.
\<close>

function int2str_numDigits :: "u64 \<Rightarrow> u64 \<Rightarrow> nat \<Rightarrow> nat" where
  "int2str_numDigits val cap numDigits =
     (if numDigits < 19 \<and> cap \<le> val then int2str_numDigits val (cap * 10) (numDigits + 1)
      else numDigits)"
  by pat_completeness auto
termination
  by (relation "measure (\<lambda>(val, cap, numDigits). 19 - numDigits)") auto

text \<open>A store through \<^verbatim>\<open>buf[pos]\<close>; \<open>None\<close> when it would leave the buffer.\<close>

definition store_at :: "bytes \<Rightarrow> int \<Rightarrow> byte \<Rightarrow> bytes option" where
  "store_at buf pos c = (if 0 \<le> pos \<and> pos < int (length buf) then Some (buf[nat pos := c]) else None)"

fun int2str_digits :: "nat \<Rightarrow> int \<Rightarrow> bytes \<Rightarrow> (int \<times> bytes) option" where
  "int2str_digits val pos buf =
     (case store_at buf pos (digit_char (val mod 10)) of
        None \<Rightarrow> None
      | Some buf \<Rightarrow>
          (if val div 10 \<noteq> 0 then int2str_digits (val div 10) (pos - 1) buf else Some (pos - 1, buf)))"

declare int2str_numDigits.simps [simp del] int2str_digits.simps [simp del]

text \<open>
  The buffer starts with unspecified contents \<open>buf\<close>; the result is the buffer up to the
  returned end pointer, or \<open>None\<close> when a store leaves the buffer or the assertion on the
  final write position fails.
\<close>

definition luai_int2str :: "bytes \<Rightarrow> u64 \<Rightarrow> bytes option" where
  "luai_int2str buf l =
     (let neg = (sint l < 0);
          val = (if neg then NOT l + 1 else l);
          numDigits = int2str_numDigits val 10 1;
          pos = (if neg then int numDigits else int numDigits - 1)
      in case store_at buf (pos + 1) 0 of None \<Rightarrow> None
       | Some buf \<Rightarrow>
      (case int2str_digits (unat val) pos buf of None \<Rightarrow> None
       | Some (pos, buf) \<Rightarrow>
      (case (if neg then map_option (\<lambda>b. (pos - 1, b)) (store_at buf pos 45) else Some (pos, buf))
       of None \<Rightarrow> None
       | Some (pos, buf) \<Rightarrow>
         (if pos = -1 then Some (take (if neg then numDigits + 1 else numDigits) buf) else None))))"


section \<open>Reference: decimal numerals\<close>

fun decimal :: "nat \<Rightarrow> bytes" where
  "decimal n = (if n < 10 then [digit_char n] else decimal (n div 10) @ [digit_char (n mod 10)])"

declare decimal.simps [simp del]

definition of_decimal :: "bytes \<Rightarrow> nat" where
  "of_decimal ds = foldl (\<lambda>v c. v * 10 + unat (c - 48)) 0 ds"

definition signed_decimal :: "int \<Rightarrow> bytes" where
  "signed_decimal n = (if n < 0 then 45 # decimal (nat (- n)) else decimal (nat n))"


section \<open>Products\<close>

lemma schoolbook:
  fixes a b c d R :: nat
  defines "mid \<equiv> b * c + a * c div R + a * d mod R"
  shows "(b * R + a) * (d * R + c)
    = (b * d + mid div R + a * d div R) * (R * R) + (mid mod R * R + a * c mod R)"
proof -
  obtain q1 r1 where 1: "a * d div R = q1" "a * d mod R = r1" "a * d = q1 * R + r1"
    by (metis div_mult_mod_eq)
  obtain q2 r2 where 2: "a * c div R = q2" "a * c mod R = r2" "a * c = q2 * R + r2"
    by (metis div_mult_mod_eq)
  obtain q3 r3 where 3: "mid div R = q3" "mid mod R = r3" "mid = q3 * R + r3"
    by (metis div_mult_mod_eq)
  have "(b * R + a) * (d * R + c) = b * d * (R * R) + b * c * R + a * d * R + a * c"
    by (simp add: algebra_simps)
  also have "\<dots> = b * d * (R * R) + q1 * (R * R) + (b * c + q2 + r1) * R + r2"
    by (simp add: 1(3) 2(3) algebra_simps)
  also have "\<dots> = b * d * (R * R) + q1 * (R * R) + (q3 * R + r3) * R + r2"
    using 3(3) unfolding mid_def 1(2) 2(1) by simp
  finally show ?thesis unfolding 1(1) 2(2) 3(1,2) by (simp add: algebra_simps)
qed

lemma mul128_unat:
  "unat (fst (mul128 x y)) = unat x * unat y mod 2 ^ 64"
  "unat (snd (mul128 x y)) = unat x * unat y div 2 ^ 64"
proof -
  define r where "r = (ucast x :: 128 word) * ucast y"
  have b: "unat x \<le> 2 ^ 64 - 1" "unat y \<le> 2 ^ 64 - 1"
    using unsigned_less [of x, where ?'a = nat] unsigned_less [of y, where ?'a = nat] by simp_all
  have xy: "unat x * unat y \<le> (2 ^ 64 - 1) * (2 ^ 64 - 1)" using b by (rule mult_le_mono)
  have u: "unat (ucast z :: 128 word) = unat z" for z :: u64
    using unsigned_less [of z, where ?'a = nat]
    by (simp only: unsigned_ucast_eq) (rule take_bit_nat_eq_self, simp)
  have r: "unat r = unat x * unat y"
    using xy by (simp add: r_def unat_word_ariths u)
  show "unat (fst (mul128 x y)) = unat x * unat y mod 2 ^ 64"
    by (simp only: mul128_def Let_def r_def [symmetric] fst_conv unsigned_ucast_eq take_bit_eq_mod r) simp
  have "unat (drop_bit 64 r) = unat r div 2 ^ 64"
    unfolding unsigned_drop_bit_eq
    using unsigned_less [of r, where ?'a = nat] by (simp add: drop_bit_eq_div take_bit_eq_mod)
  moreover have "unat x * unat y div 2 ^ 64 < 2 ^ 64"
    using xy by (intro less_mult_imp_div_less) simp
  ultimately show "unat (snd (mul128 x y)) = unat x * unat y div 2 ^ 64"
    by (simp only: mul128_def Let_def r_def [symmetric] snd_conv unsigned_ucast_eq r)
       (rule take_bit_nat_eq_self, simp)
qed

text \<open>
  C21: the portable 64-by-64-bit multiplication built from four 32-bit products returns the same
  low and high word as the 128-bit multiplication, for all operands.
\<close>

theorem mul128_portable_eq: "mul128_portable x y = mul128 x y"
proof -
  define a b c d where "a = unat (ucast x :: u32)" and "b = unat (ucast (drop_bit 32 x) :: u32)"
    and "c = unat (ucast y :: u32)" and "d = unat (ucast (drop_bit 32 y) :: u32)"
  have bnd: "a < 2 ^ 32" "b < 2 ^ 32" "c < 2 ^ 32" "d < 2 ^ 32"
    by (simp_all only: a_def b_def c_def d_def unat_u32_bound)
  define mid where "mid = b * c + a * c div 2 ^ 32 + a * d mod 2 ^ 32"
  define lo hi where "lo = mid mod 2 ^ 32 * 2 ^ 32 + a * c mod 2 ^ 32"
    and "hi = b * d + mid div 2 ^ 32 + a * d div 2 ^ 32"
  have sb: "unat x * unat y = hi * (2 ^ 32 * 2 ^ 32) + lo"
    using schoolbook [of b "2 ^ 32" a d c]
    by (simp only: lo_def hi_def mid_def unat_split32 [of x] unat_split32 [of y]
        a_def [symmetric] b_def [symmetric] c_def [symmetric] d_def [symmetric])
  have lo: "lo < 2 ^ 64"
  proof -
    have "mid mod 2 ^ 32 < 2 ^ 32" "a * c mod 2 ^ 32 < 2 ^ 32" by simp_all
    then show ?thesis by (simp add: lo_def)
  qed
  have prod: "p * q \<le> (2 ^ 32 - 1) * (2 ^ 32 - 1)" if "p < 2 ^ 32" "q < 2 ^ 32" for p q :: nat
    using that by (intro mult_le_mono) auto
  have div32: "n div 2 ^ 32 < 2 ^ 32" if "n < 2 ^ 64" for n :: nat
    using that by (intro less_mult_imp_div_less) simp
  note bc = prod [OF bnd(2) bnd(3)] and bd = prod [OF bnd(2) bnd(4)] and ac = prod [OF bnd(1) bnd(3)]
    and ad = prod [OF bnd(1) bnd(4)]
  have acd: "a * c div 2 ^ 32 < 2 ^ 32" and add: "a * d div 2 ^ 32 < 2 ^ 32"
    using ac ad by (auto intro!: div32)
  have mlt: "mid < 2 ^ 64" using bc acd mod_less_divisor [of "2 ^ 32" "a * d"] by (simp add: mid_def)
  have hlt: "hi < 2 ^ 64" using bd add div32 [OF mlt] by (simp add: hi_def)
  define W where "W = (ucast (ucast (drop_bit 32 x) :: u32) :: u64) * ucast (ucast y :: u32)
      + drop_bit 32 ((ucast (ucast x :: u32) :: u64) * ucast (ucast y :: u32))
      + ucast (ucast ((ucast (ucast x :: u32) :: u64) * ucast (ucast (drop_bit 32 y) :: u32)) :: u32)"
  have W: "unat W = mid"
    using mlt unfolding W_def unat_word_ariths(1) unat_high32 unat_ucast_u32
      unat_low32 [of "ucast (ucast x :: u32) * ucast (ucast (drop_bit 32 y) :: u32)"] unat_mult_u32
      a_def [symmetric] b_def [symmetric] c_def [symmetric] d_def [symmetric] mid_def
    by simp
  have "unat (fst (mul128_portable x y)) = lo"
    unfolding mul128_portable_def Let_def W_def [symmetric] fst_conv push_or_low32 W unat_mult_u32 lo_def
      unat_low32 [of "ucast (ucast x :: u32) * ucast (ucast y :: u32)"]
      a_def [symmetric] c_def [symmetric] ..
  moreover have "unat (snd (mul128_portable x y)) = hi"
    using hlt W
    unfolding mul128_portable_def Let_def W_def [symmetric] snd_conv unat_word_ariths(1) unat_mult_u32
      unat_high32 a_def [symmetric] b_def [symmetric] c_def [symmetric] d_def [symmetric] hi_def
    by simp
  ultimately show ?thesis
    using lo sb mul128_unat [of x y] by (simp add: prod_eq_iff word_unat_eq_iff)
qed


section \<open>Digits and integers\<close>

lemma nth_concat_pairs:
  "i < length xs \<Longrightarrow> concat (map (\<lambda>v. [f v, g v]) xs) ! (i * 2) = f (xs ! i)
     \<and> concat (map (\<lambda>v. [f v, g v]) xs) ! (i * 2 + 1) = g (xs ! i)"
proof (induction xs arbitrary: i)
  case Nil
  then show ?case by simp
next
  case (Cons x xs)
  then show ?case by (cases i) auto
qed

lemma kDigitTable_eq:
  "kDigitTable = concat (map (\<lambda>v. [digit_char (v div 10), digit_char (v mod 10)]) [0..<100])"
  unfolding kDigitTable_def digit_char_def
  by code_simp

lemma digit_pair_eq: "v < 100 \<Longrightarrow> digit_pair v = [digit_char (v div 10), digit_char (v mod 10)]"
  using nth_concat_pairs [of v "[0..<100]"] by (simp add: digit_pair_def kDigitTable_eq)

lemma digit_char_value: "d < 10 \<Longrightarrow> unat (digit_char d - 48) = d"
  by (simp add: digit_char_def unat_of_nat)

lemma of_decimal_decimal: "of_decimal (decimal n) = n"
proof (induction n rule: decimal.induct)
  case (1 n)
  then show ?case
    by (cases "n < 10") (simp_all add: decimal.simps [of n] of_decimal_def digit_char_value)
qed

lemma decimal_two:
  assumes "10 \<le> n" "n < 100"
  shows "decimal n = [digit_char (n div 10), digit_char (n mod 10)]"
proof -
  have "n div 10 < 10" using assms by (simp add: less_mult_imp_div_less)
  then show ?thesis using assms by (simp add: decimal.simps [of n] decimal.simps [of "n div 10"])
qed

lemma decimal_pair:
  "100 \<le> n \<Longrightarrow> decimal n = decimal (n div 100) @ [digit_char (n mod 100 div 10), digit_char (n mod 10)]"
proof -
  assume n: "100 \<le> n"
  have "n div 10 mod 10 = n mod 100 div 10" using mod_div_swap [of 10 n 10] by simp
  moreover have "n div 10 div 10 = n div 100" by (simp add: div_mult2_eq [symmetric])
  moreover have "\<not> n div 10 < 10" using n by linarith
  ultimately show ?thesis using n by (simp add: decimal.simps [of n] decimal.simps [of "n div 10"])
qed

lemma printunsigned_pairs_decimal:
  "printunsigned_pairs n acc = (if n = 0 then acc else decimal n @ acc)"
proof (induction n acc rule: printunsigned_pairs.induct)
  case (1 n acc)
  consider "n < 10" | "10 \<le> n" "n < 100" | "100 \<le> n" by linarith
  then show ?case
  proof cases
    case 1
    then show ?thesis by (simp add: printunsigned_pairs.simps [of n] decimal.simps [of n])
  next
    case 2
    then show ?thesis
      using "1.IH" by (simp add: printunsigned_pairs.simps [of n] digit_pair_eq decimal_two)
  next
    case 3
    then have "n div 100 \<noteq> 0" by linarith
    with 3 show ?thesis
      using "1.IH" mod_mod_cancel [of 10 100 n]
      by (simp add: printunsigned_pairs.simps [of n] digit_pair_eq decimal_pair [of n])
  qed
qed

lemma printunsignedrev_decimal:
  "printunsignedrev n acc = (if n = 0 then acc else decimal n @ acc)"
proof (induction n acc rule: printunsignedrev.induct)
  case (1 n acc)
  show ?case
  proof (cases "10000 \<le> n")
    case False
    then show ?thesis by (simp add: printunsignedrev.simps [of n] printunsigned_pairs_decimal)
  next
    case True
    define m where "m = n div 100"
    have m: "100 \<le> m" using True by (simp add: m_def)
    have d: "m div 100 = n div 10000" by (simp add: m_def div_mult2_eq [symmetric])
    have r: "m mod 100 = n mod 10000 div 100" using mod_div_swap [of 100 n 100] by (simp add: m_def)
    have "decimal n = decimal m @ [digit_char (n mod 100 div 10), digit_char (n mod 10)]"
      using True by (simp add: decimal_pair m_def)
    also have "\<dots> = decimal (n div 10000) @ digit_pair (n mod 10000 div 100) @ digit_pair (n mod 10000 mod 100)"
    proof -
      have "m mod 10 = m mod 100 mod 10" by (simp add: mod_mod_cancel)
      moreover have "n mod 10000 mod 100 = n mod 100" "n mod 10000 mod 100 mod 10 = n mod 10"
        by (simp_all add: mod_mod_cancel)
      moreover have "m mod 100 < 100" by simp
      ultimately show ?thesis
        using decimal_pair [OF m] unfolding d r by (simp add: digit_pair_eq)
    qed
    finally have "decimal n = decimal (n div 10000) @ digit_pair (n mod 10000 div 100)
      @ digit_pair (n mod 10000 mod 100)" .
    moreover have "n div 10000 \<noteq> 0" "n \<noteq> 0" using True by auto
    ultimately show ?thesis using 1 [OF True refl] True
      by (simp only: printunsignedrev.simps [of n] Let_def if_True if_False append_assoc)
  qed
qed


lemma decimal_length_pos: "0 < length (decimal n)"
  by (subst decimal.simps) simp

lemma decimal_length_le: "0 < k \<Longrightarrow> length (decimal n) \<le> k \<longleftrightarrow> n < 10 ^ k"
proof (induction n arbitrary: k rule: decimal.induct)
  case (1 n)
  show ?case
  proof (cases "n < 10")
    case True
    moreover have "(10::nat) \<le> 10 ^ k" using "1.prems" by (simp add: self_le_power)
    ultimately show ?thesis using "1.prems" by (simp add: decimal.simps [of n])
  next
    case False
    show ?thesis
    proof (cases "k = 1")
      case True
      with False decimal_length_pos [of "n div 10"] show ?thesis by (simp add: decimal.simps [of n])
    next
      case k: False
      with "1.prems" obtain j where j: "k = Suc j" "0 < j" by (cases k) auto
      have "length (decimal n) \<le> k \<longleftrightarrow> length (decimal (n div 10)) \<le> j"
        using False by (simp add: decimal.simps [of n] j)
      also have "\<dots> \<longleftrightarrow> n div 10 < 10 ^ j" using "1.IH" [OF False j(2)] .
      also have "\<dots> \<longleftrightarrow> n < 10 ^ k" by (auto simp: j(1) div_less_iff_less_mult mult.commute)
      finally show ?thesis .
    qed
  qed
qed

lemma int2str_numDigits_eq:
  assumes "unat cap = 10 ^ nd" "0 < nd" "nd \<le> 19" "unat val < 10 ^ 19"
    and "nd \<le> length (decimal (unat val))"
  shows "int2str_numDigits val cap nd = length (decimal (unat val))"
  using assms
proof (induction val cap nd rule: int2str_numDigits.induct)
  case (1 val cap nd)
  have le19: "length (decimal (unat val)) \<le> 19" using "1.prems"(4) by (simp add: decimal_length_le)
  have cap: "cap \<le> val \<longleftrightarrow> \<not> length (decimal (unat val)) \<le> nd"
    using "1.prems"(1,2) by (simp add: decimal_length_le word_le_nat_alt not_less)
  show ?case
  proof (cases "nd < 19 \<and> cap \<le> val")
    case True
    then have "(10::nat) ^ nd \<le> 10 ^ 18" by (intro power_increasing) auto
    then have "unat (cap * 10) = 10 ^ (nd + 1)"
      using "1.prems"(1) by (simp add: unat_word_ariths)
    with True cap "1.prems" have "int2str_numDigits val (cap * 10) (nd + 1) = length (decimal (unat val))"
      by (intro "1.IH") auto
    with True show ?thesis by (simp add: int2str_numDigits.simps [of val cap nd])
  next
    case False
    with cap le19 "1.prems"(3,5) show ?thesis
      by (auto simp: int2str_numDigits.simps [of val cap nd])
  qed
qed

lemma int2str_digits_eq:
  assumes "length (decimal val) \<le> Suc p" "p < length buf"
  shows "int2str_digits val (int p) buf
    = Some (int p - int (length (decimal val)),
            take (Suc p - length (decimal val)) buf @ decimal val @ drop (Suc p) buf)"
  using assms
proof (induction val arbitrary: p buf rule: decimal.induct)
  case (1 val)
  have st: "store_at buf (int p) c = Some (take p buf @ c # drop (Suc p) buf)" for c
    using "1.prems"(2) by (simp add: store_at_def upd_conv_take_nth_drop)
  show ?case
  proof (cases "val < 10")
    case True
    then show ?thesis
      by (subst int2str_digits.simps) (simp add: st decimal.simps [of val])
  next
    case False
    then have len: "length (decimal val) = Suc (length (decimal (val div 10)))"
      by (simp add: decimal.simps [of val])
    with "1.prems"(1) decimal_length_pos [of "val div 10"] obtain q where q: "p = Suc q" by (cases p) auto
    let ?b = "take p buf @ digit_char (val mod 10) # drop (Suc p) buf"
    have "int2str_digits (val div 10) (int q) ?b
      = Some (int q - int (length (decimal (val div 10))),
          take (Suc q - length (decimal (val div 10))) ?b @ decimal (val div 10) @ drop (Suc q) ?b)"
      using "1.prems" len q False by (intro "1.IH") auto
    moreover have "drop (Suc q) ?b = digit_char (val mod 10) # drop (Suc p) buf"
      using "1.prems"(2) q by simp
    moreover have "take (Suc q - length (decimal (val div 10))) ?b = take (Suc p - length (decimal val)) buf"
      using "1.prems"(2) q len by (simp add: min_def)
    moreover have "int p - 1 = int q" "val div 10 \<noteq> 0" using False q by (auto simp: div_eq_0_iff)
    moreover have "decimal val = decimal (val div 10) @ [digit_char (val mod 10)]"
      using False by (simp add: decimal.simps [of val])
    ultimately show ?thesis
      using len by (subst int2str_digits.simps) (simp only: st option.case if_True append_assoc append.simps, simp add: q)
  qed
qed

lemma int2str_magnitude:
  fixes l :: u64
  defines "v \<equiv> (if sint l < 0 then NOT l + 1 else l)"
  shows "unat v = nat \<bar>sint l\<bar>" "unat v < 10 ^ 19"
proof -
  have l: "l = word_of_int (sint l)" by simp
  have r: "- (2 ^ 63) \<le> sint l" "sint l < 2 ^ 63" using in_int64_sint [of l] by (simp_all add: in_int64_def)
  have "v = word_of_int \<bar>sint l\<bar>"
  proof (cases "sint l < 0")
    case True
    then have "v = - l" by (simp add: v_def minus_eq_not_plus_1)
    also have "\<dots> = word_of_int (- sint l)" by (subst (1) l) (simp only: wi_hom_neg)
    finally show ?thesis using True by simp
  next
    case False
    then show ?thesis by (simp add: v_def)
  qed
  moreover have "unat (word_of_int \<bar>sint l\<bar> :: u64) = nat \<bar>sint l\<bar>"
    using r by (simp add: unat_eq_nat_uint uint_word_of_int abs_if)
  ultimately show "unat v = nat \<bar>sint l\<bar>" by simp
  moreover have "nat \<bar>sint l\<bar> \<le> 2 ^ 63" using r by (auto simp: nat_le_iff)
  ultimately show "unat v < 10 ^ 19" by simp
qed

text \<open>
  C22: in a buffer of the size its callers reserve (\<^verbatim>\<open>LUAI_MAXINT2STR\<close> is 30),
  \<open>luai_int2str\<close> writes the decimal numeral of every 64-bit integer, the smallest one
  included: no store leaves the buffer and the final assertion on the write position holds.
\<close>

theorem luai_int2str_decimal:
  assumes "30 \<le> length buf"
  shows "luai_int2str buf l = Some (signed_decimal (sint l))"
proof -
  define v where "v = (if sint l < 0 then NOT l + 1 else l)"
  have v: "unat v = nat \<bar>sint l\<bar>" "unat v < 10 ^ 19"
    using int2str_magnitude [of l] by (simp_all only: v_def)
  define n where "n = length (decimal (unat v))"
  have n: "0 < n" "n \<le> 19"
    using v(2) decimal_length_pos [of "unat v"] by (simp_all only: n_def decimal_length_le zero_less_numeral)
  have nd: "int2str_numDigits v 10 1 = n"
    unfolding n_def using v(2) n(1) by (intro int2str_numDigits_eq) (auto simp: n_def Suc_le_eq)
  define p where "p = (if sint l < 0 then n else n - 1)"
  define b where "b = buf[Suc p := 0]"
  have p: "p < length b" "n \<le> Suc p" using n assms by (auto simp: p_def b_def)
  have s1: "store_at buf (int p + 1) 0 = Some b"
    using n assms by (auto simp: store_at_def b_def p_def nat_add_distrib)
  have s2: "int2str_digits (unat v) (int p) b
      = Some (int p - int n, take (Suc p - n) b @ decimal (unat v) @ drop (Suc p) b)"
    unfolding n_def using p by (intro int2str_digits_eq) (simp_all add: n_def)
  have pos: "(if sint l < 0 then int n else int n - 1) = int p" using n by (simp add: p_def)
  have s3: "store_at (take 1 b @ decimal (unat v) @ r) 0 45 = Some (45 # decimal (unat v) @ r)" for r
    using p by (cases b) (auto simp: store_at_def)
  have len: "length (decimal (unat v)) = n" by (simp only: n_def)
  have sd: "signed_decimal (sint l) = (if sint l < 0 then 45 # decimal (unat v) else decimal (unat v))"
    by (simp add: signed_decimal_def v(1))
  show ?thesis
    using n s3 unfolding luai_int2str_def Let_def v_def [symmetric] nd pos s1 option.case s2 prod.case sd
    by (cases "sint l < 0") (simp_all add: p_def len)
qed

lemma luai_int2str_witness:
  "30 \<le> length (replicate 30 (0 :: byte)) \<and> luai_int2str (replicate 30 0) (- 205) = Some (lit ''-205'')"
  using luai_int2str_decimal [of "replicate 30 0" "- 205"]
  by (simp add: signed_decimal_def decimal.simps digit_char_def lit_def)


section \<open>Integral doubles\<close>

lemma num2str_fields:
  "unat (drop_bit 52 n AND 2047) = dbl_exponent n"
  "unat (n AND (push_bit 52 1 - 1)) = dbl_fraction n"
  "drop_bit 63 n \<noteq> 0 \<longleftrightarrow> dbl_sign n"
proof -
  have "(2047 :: u64) = push_bit 11 1 - 1" by simp
  then show "unat (drop_bit 52 n AND 2047) = dbl_exponent n"
    by (simp only: unat_and_mask unat_drop_bit_div dbl_exponent_def)
  show "unat (n AND (push_bit 52 1 - 1)) = dbl_fraction n"
    by (simp only: unat_and_mask dbl_fraction_def)
  have "drop_bit 63 n = 0 \<longleftrightarrow> unat n div 2 ^ 63 = 0"
    by (simp only: word_unat_eq_iff unat_drop_bit_div unat_0)
  also have "\<dots> \<longleftrightarrow> unat n < 2 ^ 63" by (simp add: div_eq_0_iff)
  finally show "drop_bit 63 n \<noteq> 0 \<longleftrightarrow> dbl_sign n" by (auto simp: dbl_sign_def bit63_iff)
qed

lemma or_implicit_one:
  assumes "unat (f :: u64) < 2 ^ 52"
  shows "unat (f OR push_bit 52 1) = 2 ^ 52 + unat f"
proof -
  have "f AND push_bit 52 1 = 0"
  proof (rule word_unat_eq_iff [THEN iffD2])
    have "bit f 52 \<longleftrightarrow> bit (unat f) 52" by (simp add: bit_unsigned_iff)
    also have "\<dots> \<longleftrightarrow> odd (unat f div 2 ^ 52)" by (rule bit_iff_odd)
    finally have "\<not> bit f 52" using assms by simp
    then have "f AND 2 ^ 52 = 0" by (simp only: and_exp_eq_0_iff_not_bit not_False_eq_True)
    then show "unat (f AND push_bit 52 1) = unat (0 :: u64)" by simp
  qed
  then have "f OR push_bit 52 1 = f + push_bit 52 1" using word_plus_and_or [of f "push_bit 52 1"] by simp
  then show ?thesis using assms by (simp add: unat_word_ariths)
qed

text \<open>The fast path of \<open>schubfach\<close> recovers an integer below \<open>2 ^ 53\<close> exactly.\<close>

lemma schubfach_integer:
  fixes c f :: u64
  assumes "unat c = a * 2 ^ k" "k < 53" "e \<noteq> 0" "int e = 1075 - int k"
    and "unat f < 2 ^ 52" "unat c = 2 ^ 52 + unat f"
  shows "unat (d_s (schubfach e f)) = a \<and> d_k (schubfach e f) = 0"
proof -
  have c: "f OR push_bit 52 1 = c"
    using or_implicit_one [OF assms(5)] assms(6) by (simp add: word_unat_eq_iff)
  have q: "int e - 1023 - 51 - 1 = - int k" using assms(4) by simp
  have k: "(word_of_int (int k) :: u32) < 53"
    using assms(2) by (simp add: word_less_nat_alt unat_of_nat)
  have z: "c AND (push_bit k 1 - 1) = 0"
    using assms(1) by (simp only: word_unat_eq_iff unat_and_mask) simp
  have "schubfach e f = \<lparr>d_s = drop_bit k c, d_k = 0\<rparr>"
    unfolding schubfach_def Let_def using assms(3) q k z c by simp
  moreover have "unat (drop_bit k c) = a" using assms(1) by (simp only: unat_drop_bit_div) simp
  ultimately show ?thesis by simp
qed

lemma layout_plain: "length dec \<le> 21 \<Longrightarrow> dec \<noteq> [] \<Longrightarrow> layout_decimal dec (int (length dec)) = dec"
  by (simp add: layout_decimal_def)

text \<open>
  C23: a Lua number that is an integer of magnitude below \<open>2 ^ 53\<close> is printed as its plain
  decimal numeral, with a minus sign when it is negative and no exponent or fraction.
\<close>

theorem luai_num2str_integer:
  assumes "exact_in_double n"
  shows "luai_num2str (dbl_of_int n) = signed_decimal n"
proof (cases "n = 0")
  case True
  then show ?thesis
    by (simp add: luai_num2str_def dbl_of_int_def dbl_of_nat_def signed_decimal_def decimal.simps
        lit_def digit_char_def)
next
  case False
  define a where "a = nat \<bar>n\<bar>"
  have a: "0 < a" "a < 2 ^ 53" using False assms by (auto simp: a_def exact_in_double_def)
  have d: "dbl_of_int n = (if n < 0 then dbl_of_nat a OR 2 ^ 63 else dbl_of_nat a)"
    by (simp only: dbl_of_int_def a_def) simp
  note sg = signed_fields [OF dbl_of_nat_fields(3) [OF a]] and fd = dbl_of_nat_fields [OF a]
  have k: "1 \<le> bit_length a" "bit_length a \<le> 53"
    using bit_length_pos [OF a(1)] bit_length_le [OF a(2)] by simp_all
  have e: "dbl_exponent (dbl_of_int n) = bit_length a + 1022"
    by (cases "n < 0") (simp_all only: d if_True if_False sg fd)
  have f: "dbl_fraction (dbl_of_int n) = dbl_fraction (dbl_of_nat a)"
    by (cases "n < 0") (simp_all only: d if_True if_False sg)
  have s: "dbl_sign (dbl_of_int n) \<longleftrightarrow> n < 0"
    using sg(3) fd(3) by (cases "n < 0") (simp_all only: d if_True if_False, simp add: dbl_sign_def bit63_iff)
  define fr where "fr = dbl_of_int n AND (push_bit 52 1 - 1)"
  have fr: "unat fr = dbl_fraction (dbl_of_nat a)" by (simp only: fr_def num2str_fields f)
  have frlt: "unat fr < 2 ^ 52" unfolding fr dbl_fraction_def by simp
  have sch: "unat (d_s (schubfach (bit_length a + 1022) fr)) = a
      \<and> d_k (schubfach (bit_length a + 1022) fr) = 0"
    by (rule schubfach_integer [where c = "fr OR push_bit 52 1" and k = "53 - bit_length a"])
      (use k frlt or_implicit_one [OF frlt] fr fd(2) in auto)
  have len: "length (decimal a) \<le> 21"
    using a(2) by (subst decimal_length_le) auto
  have ne: "decimal a \<noteq> []" using decimal_length_pos [of a] by auto
  have "luai_num2str (dbl_of_int n) = (if n < 0 then lit ''-'' else []) @ decimal a"
    unfolding luai_num2str_def Let_def num2str_fields e s fr_def [symmetric]
    using sch a(1) k layout_plain [OF len ne] by (simp add: printunsignedrev_decimal)
  then show ?thesis by (simp add: signed_decimal_def a_def lit_def)
qed

lemma luai_num2str_integer_witness:
  "exact_in_double (-1024) \<and> luai_num2str (dbl_of_int (-1024)) = lit ''-1024''"
  using luai_num2str_integer [of "-1024"]
  by (simp add: exact_in_double_def signed_decimal_def decimal.simps digit_char_def lit_def)

end
