(* ===== verification/LuaApi.thy ===== *)
theory LuaApi
  imports NumPrint
begin

text \<open>
  What the library functions of the VM see of it: values (\<^verbatim>\<open>TValue\<close>), the arguments of
  a C function (the stack slots from \<^verbatim>\<open>L->base\<close> to \<^verbatim>\<open>L->top\<close>), the buffers it can reach, and the
  argument checkers of \<^verbatim>\<open>VM/src/laux.cpp\<close> over the conversions of
  \<^verbatim>\<open>VM/src/lapi.cpp\<close>. Errors are values: a failed type check, a failed argument check, an
  error raised by the function, or a step that C++ leaves undefined (a cast of a number outside the
  range of the target type, signed overflow, an oversized shift). Strings are byte lists, numbers
  are doubles and 64-bit integers are words.

  \<^verbatim>\<open>strtod\<close> of the C library is a field of the state; the integer parsers of the C
  library are modelled here, because \<^verbatim>\<open>integer.fromstring\<close> is specified by them.
\<close>

section \<open>Values and state\<close>

datatype lua_Type =
    LUA_TNIL | LUA_TBOOLEAN | LUA_TLIGHTUSERDATA | LUA_TNUMBER | LUA_TINTEGER | LUA_TVECTOR
  | LUA_TSYMNONE | LUA_TSTRING | LUA_TTABLE | LUA_TFUNCTION | LUA_TUSERDATA | LUA_TTHREAD
  | LUA_TBUFFER | LUA_TCLASS | LUA_TOBJECT

datatype TValue =
    TvNil
  | TvBoolean bool
  | TvLightUserdata nat
  | TvNumber double
  | TvInteger u64
  | TvVector u32 u32 u32
  | TvSymNone
  | TvString bytes
  | TvTable nat
  | TvFunction nat
  | TvUserdata nat
  | TvThread nat
  | TvBuffer nat
  | TvClass nat
  | TvObject nat

fun ttype :: "TValue \<Rightarrow> lua_Type" where
  "ttype TvNil = LUA_TNIL"
| "ttype (TvBoolean _) = LUA_TBOOLEAN"
| "ttype (TvLightUserdata _) = LUA_TLIGHTUSERDATA"
| "ttype (TvNumber _) = LUA_TNUMBER"
| "ttype (TvInteger _) = LUA_TINTEGER"
| "ttype (TvVector _ _ _) = LUA_TVECTOR"
| "ttype TvSymNone = LUA_TSYMNONE"
| "ttype (TvString _) = LUA_TSTRING"
| "ttype (TvTable _) = LUA_TTABLE"
| "ttype (TvFunction _) = LUA_TFUNCTION"
| "ttype (TvUserdata _) = LUA_TUSERDATA"
| "ttype (TvThread _) = LUA_TTHREAD"
| "ttype (TvBuffer _) = LUA_TBUFFER"
| "ttype (TvClass _) = LUA_TCLASS"
| "ttype (TvObject _) = LUA_TOBJECT"

definition ttisnumber :: "TValue \<Rightarrow> bool" where
  "ttisnumber v \<longleftrightarrow> ttype v = LUA_TNUMBER"

definition ttisinteger :: "TValue \<Rightarrow> bool" where
  "ttisinteger v \<longleftrightarrow> ttype v = LUA_TINTEGER"

definition ttisbuffer :: "TValue \<Rightarrow> bool" where
  "ttisbuffer v \<longleftrightarrow> ttype v = LUA_TBUFFER"

text \<open>The payload of a value whose tag has been tested; the code asserts the tag.\<close>

fun nvalue :: "TValue \<Rightarrow> double" where
  "nvalue (TvNumber d) = d"
| "nvalue _ = 0"

fun lvalue :: "TValue \<Rightarrow> u64" where
  "lvalue (TvInteger l) = l"
| "lvalue _ = 0"

fun bufvalue :: "TValue \<Rightarrow> nat" where
  "bufvalue (TvBuffer a) = a"
| "bufvalue _ = 0"

lemma ttisnumber_iff: "ttisnumber v \<longleftrightarrow> v = TvNumber (nvalue v)"
  by (cases v) (simp_all add: ttisnumber_def)

lemma ttisinteger_iff: "ttisinteger v \<longleftrightarrow> v = TvInteger (lvalue v)"
  by (cases v) (simp_all add: ttisinteger_def)

lemma ttisbuffer_iff: "ttisbuffer v \<longleftrightarrow> v = TvBuffer (bufvalue v)"
  by (cases v) (simp_all add: ttisbuffer_def)

datatype lua_error =
    ArgError nat string
  | TypeError nat lua_Type "lua_Type option"
  | RuntimeError string
  | Undefined string

text \<open>A buffer object: its bytes and its mode (0 owned by Luau, 1 host immutable, 2 host mutable).\<close>

record Buffer =
  b_data :: bytes
  b_mode :: nat

record lua_State =
  base :: "TValue list"
  buffers :: "nat \<Rightarrow> Buffer option"
  strtod :: "bytes \<Rightarrow> double \<times> nat"

type_synonym 'a res = "lua_error + 'a"


section \<open>Conversions of the C library\<close>

text \<open>The bytes of a C string: those before the first zero byte.\<close>

definition c_string :: "bytes \<Rightarrow> bytes" where
  "c_string s = takeWhile (\<lambda>c. c \<noteq> 0) s"

definition isspace :: "byte \<Rightarrow> bool" where
  "isspace c \<longleftrightarrow> c = 32 \<or> (9 \<le> c \<and> c \<le> 13)"

definition digit_value :: "byte \<Rightarrow> nat" where
  "digit_value c =
     (if 48 \<le> c \<and> c \<le> 57 then unat c - 48
      else if 97 \<le> c \<and> c \<le> 122 then unat c - 97 + 10
      else if 65 \<le> c \<and> c \<le> 90 then unat c - 65 + 10
      else 36)"

definition digits_value :: "nat \<Rightarrow> bytes \<Rightarrow> nat" where
  "digits_value radix ds = foldl (\<lambda>v c. v * radix + digit_value c) 0 ds"

text \<open>
  The subject sequence of \<^verbatim>\<open>strtol\<close> and its kin: white space, a sign, the prefix
  \<^verbatim>\<open>0x\<close> in base 16 when a digit follows it, digits. The result is the sign, the magnitude
  and the number of bytes consumed; \<open>None\<close> when there is no digit.
\<close>

definition strto_subject :: "bytes \<Rightarrow> nat \<Rightarrow> (bool \<times> nat \<times> nat) option" where
  "strto_subject s radix =
     (let ws = length (takeWhile isspace s);
          s1 = drop ws s;
          sg = (if s1 \<noteq> [] \<and> (hd s1 = 45 \<or> hd s1 = 43) then 1 else 0);
          neg = (s1 \<noteq> [] \<and> hd s1 = 45);
          s2 = drop sg s1;
          pre = (if radix = 16 \<and> 3 \<le> length s2 \<and> s2 ! 0 = 48 \<and> (s2 ! 1 = 120 \<or> s2 ! 1 = 88)
                    \<and> digit_value (s2 ! 2) < 16 then 2 else 0);
          ds = takeWhile (\<lambda>c. digit_value c < radix) (drop pre s2)
      in if ds = [] then None
         else Some (neg, digits_value radix ds, ws + sg + pre + length ds))"

text \<open>\<^verbatim>\<open>strtoull\<close> saturates at \<^verbatim>\<open>ULLONG_MAX\<close> and negates modulo \<open>2 ^ 64\<close>.\<close>

definition strtoull :: "bytes \<Rightarrow> nat \<Rightarrow> u64 \<times> nat" where
  "strtoull s radix =
     (case strto_subject s radix of
        None \<Rightarrow> (0, 0)
      | Some (neg, m, e) \<Rightarrow>
          (if 2 ^ 64 \<le> m then (-1, e)
           else if neg then (- word_of_nat m, e) else (word_of_nat m, e)))"

text \<open>\<^verbatim>\<open>strtoll\<close> saturates at both ends of the range.\<close>

definition strtoll :: "bytes \<Rightarrow> nat \<Rightarrow> u64 \<times> nat" where
  "strtoll s radix =
     (case strto_subject s radix of
        None \<Rightarrow> (0, 0)
      | Some (neg, m, e) \<Rightarrow>
          (if neg then (if 2 ^ 63 \<le> m then (word_of_int (- (2 ^ 63)), e) else (- word_of_nat m, e))
           else (if 2 ^ 63 \<le> m then (word_of_int (2 ^ 63 - 1), e) else (word_of_nat m, e))))"

text \<open>The byte at offset \<open>n\<close> of a C string, the terminating zero included.\<close>

definition char_at :: "bytes \<Rightarrow> nat \<Rightarrow> byte" where
  "char_at s n = (if n < length s then s ! n else 0)"

text \<open>The tail of both string parsers: trailing white space, then the end of the string.\<close>

definition only_space_left :: "bytes \<Rightarrow> nat \<Rightarrow> bool" where
  "only_space_left s n \<longleftrightarrow> dropWhile isspace (drop n s) = []"

definition luaO_str2d :: "(bytes \<Rightarrow> double \<times> nat) \<Rightarrow> bytes \<Rightarrow> double option" where
  "luaO_str2d cstrtod s =
     (let (result, endptr) = cstrtod s in
      if endptr = 0 then None
      else
        let (result, endptr) =
          (if char_at s endptr = 120 \<or> char_at s endptr = 88
           then let (v, e) = strtoull s 16 in (dbl_of_nat (unat v), e)
           else (result, endptr))
        in if only_space_left s endptr then Some result else None)"

definition luaO_str2l :: "bytes \<Rightarrow> nat \<Rightarrow> u64 option" where
  "luaO_str2l s radix =
     (let parsed =
        (if radix = 10
         then let (result, endptr) = strtoll s radix in
              if endptr = 0 then None
              else if char_at s endptr = 120 \<or> char_at s endptr = 88
              then Some (strtoull s 16)
              else Some (result, endptr)
         else let (result, endptr) = strtoull s radix in
              if endptr = 0 then None else Some (result, endptr))
      in case parsed of
           None \<Rightarrow> None
         | Some (result, endptr) \<Rightarrow> if only_space_left s endptr then Some result else None)"


section \<open>Reading arguments\<close>

text \<open>
  \<open>index2addr\<close> for a positive index: the slot, or \<open>None\<close> for the address of
  \<^verbatim>\<open>luaO_nilobject\<close> that stands for a missing argument.
\<close>

definition index2addr :: "lua_State \<Rightarrow> nat \<Rightarrow> TValue option" where
  "index2addr L idx = (if 0 < idx \<and> idx \<le> length (base L) then Some (base L ! (idx - 1)) else None)"

definition lua_gettop :: "lua_State \<Rightarrow> nat" where
  "lua_gettop L = length (base L)"

definition lua_type :: "lua_State \<Rightarrow> nat \<Rightarrow> lua_Type option" where
  "lua_type L idx = map_option ttype (index2addr L idx)"

definition lua_isnoneornil :: "lua_State \<Rightarrow> nat \<Rightarrow> bool" where
  "lua_isnoneornil L idx \<longleftrightarrow> lua_type L idx = None \<or> lua_type L idx = Some LUA_TNIL"

definition luaV_tonumber :: "lua_State \<Rightarrow> TValue \<Rightarrow> double option" where
  "luaV_tonumber L obj =
     (case obj of
        TvNumber d \<Rightarrow> Some d
      | TvString s \<Rightarrow> luaO_str2d (strtod L) (c_string s)
      | _ \<Rightarrow> None)"

definition lua_tonumberx :: "lua_State \<Rightarrow> nat \<Rightarrow> double option" where
  "lua_tonumberx L idx =
     (case index2addr L idx of None \<Rightarrow> None | Some o' \<Rightarrow> luaV_tonumber L o')"

text \<open>The casts \<^verbatim>\<open>luai_num2int\<close> and \<^verbatim>\<open>luai_num2unsigned\<close>.\<close>

definition luai_num2int :: "double \<Rightarrow> int res" where
  "luai_num2int d =
     (case dbl_trunc d of
        None \<Rightarrow> Inl (Undefined ''cast of a non-finite number'')
      | Some n \<Rightarrow> if in_int32 n then Inr n else Inl (Undefined ''number out of range of int''))"

definition luai_num2long :: "double \<Rightarrow> int res" where
  "luai_num2long d =
     (case dbl_trunc d of
        None \<Rightarrow> Inl (Undefined ''cast of a non-finite number'')
      | Some n \<Rightarrow> if in_int64 n then Inr n else Inl (Undefined ''number out of range of int64''))"

definition luai_num2unsigned :: "double \<Rightarrow> u32 res" where
  "luai_num2unsigned d = bindE (luai_num2long d) (\<lambda>n. Inr (word_of_int n))"

definition lua_tointegerx :: "lua_State \<Rightarrow> nat \<Rightarrow> int option res" where
  "lua_tointegerx L idx =
     (case lua_tonumberx L idx of
        None \<Rightarrow> Inr None
      | Some num \<Rightarrow> bindE (luai_num2int num) (\<lambda>n. Inr (Some n)))"

definition lua_tounsignedx :: "lua_State \<Rightarrow> nat \<Rightarrow> u32 option res" where
  "lua_tounsignedx L idx =
     (case lua_tonumberx L idx of
        None \<Rightarrow> Inr None
      | Some num \<Rightarrow> bindE (luai_num2unsigned num) (\<lambda>n. Inr (Some n)))"

definition lua_tointeger64 :: "lua_State \<Rightarrow> nat \<Rightarrow> u64 option" where
  "lua_tointeger64 L idx =
     (case index2addr L idx of Some (TvInteger l) \<Rightarrow> Some l | _ \<Rightarrow> None)"

text \<open>
  \<open>lua_tolstring\<close> also converts a number to a string, in place in the code; the model
  returns the string. \<open>lua_tobuffer\<close> returns the address and the object.
\<close>

definition lua_tolstring :: "lua_State \<Rightarrow> nat \<Rightarrow> bytes option" where
  "lua_tolstring L idx =
     (case index2addr L idx of
        Some (TvString s) \<Rightarrow> Some s
      | Some (TvNumber d) \<Rightarrow> Some (luai_num2str d)
      | _ \<Rightarrow> None)"

definition lua_tobuffer :: "lua_State \<Rightarrow> nat \<Rightarrow> (nat \<times> Buffer) option" where
  "lua_tobuffer L idx =
     (case index2addr L idx of
        Some (TvBuffer a) \<Rightarrow> map_option (Pair a) (buffers L a)
      | _ \<Rightarrow> None)"


section \<open>Argument checks\<close>

definition luaL_typeerrorL :: "lua_State \<Rightarrow> nat \<Rightarrow> lua_Type \<Rightarrow> 'a res" where
  "luaL_typeerrorL L narg tname = Inl (TypeError narg tname (lua_type L narg))"

definition luaL_argcheck :: "bool \<Rightarrow> nat \<Rightarrow> string \<Rightarrow> unit res" where
  "luaL_argcheck cond arg extramsg = guardE cond (ArgError arg extramsg)"

definition luaL_checknumber :: "lua_State \<Rightarrow> nat \<Rightarrow> double res" where
  "luaL_checknumber L narg =
     (case lua_tonumberx L narg of None \<Rightarrow> luaL_typeerrorL L narg LUA_TNUMBER | Some d \<Rightarrow> Inr d)"

definition luaL_checkinteger :: "lua_State \<Rightarrow> nat \<Rightarrow> int res" where
  "luaL_checkinteger L narg =
     bindE (lua_tointegerx L narg) (\<lambda>r.
       case r of None \<Rightarrow> luaL_typeerrorL L narg LUA_TNUMBER | Some d \<Rightarrow> Inr d)"

definition luaL_checkunsigned :: "lua_State \<Rightarrow> nat \<Rightarrow> u32 res" where
  "luaL_checkunsigned L narg =
     bindE (lua_tounsignedx L narg) (\<lambda>r.
       case r of None \<Rightarrow> luaL_typeerrorL L narg LUA_TNUMBER | Some d \<Rightarrow> Inr d)"

definition luaL_checkinteger64 :: "lua_State \<Rightarrow> nat \<Rightarrow> u64 res" where
  "luaL_checkinteger64 L narg =
     (case lua_tointeger64 L narg of None \<Rightarrow> luaL_typeerrorL L narg LUA_TINTEGER | Some l \<Rightarrow> Inr l)"

definition luaL_optinteger :: "lua_State \<Rightarrow> nat \<Rightarrow> int \<Rightarrow> int res" where
  "luaL_optinteger L narg d = (if lua_isnoneornil L narg then Inr d else luaL_checkinteger L narg)"

definition luaL_optinteger64 :: "lua_State \<Rightarrow> nat \<Rightarrow> u64 \<Rightarrow> u64 res" where
  "luaL_optinteger64 L narg d = (if lua_isnoneornil L narg then Inr d else luaL_checkinteger64 L narg)"

definition luaL_checklstring :: "lua_State \<Rightarrow> nat \<Rightarrow> bytes res" where
  "luaL_checklstring L narg =
     (case lua_tolstring L narg of None \<Rightarrow> luaL_typeerrorL L narg LUA_TSTRING | Some s \<Rightarrow> Inr s)"

definition luaL_checkbuffer :: "lua_State \<Rightarrow> nat \<Rightarrow> (nat \<times> Buffer) res" where
  "luaL_checkbuffer L narg =
     (case lua_tobuffer L narg of None \<Rightarrow> luaL_typeerrorL L narg LUA_TBUFFER | Some b \<Rightarrow> Inr b)"

definition luaL_checkbuffermutable :: "lua_State \<Rightarrow> nat \<Rightarrow> (nat \<times> Buffer) res" where
  "luaL_checkbuffermutable L narg =
     bindE (luaL_checkbuffer L narg) (\<lambda>(a, b).
       if b_mode b = 1 then Inl (RuntimeError ''buffer is immutable'') else Inr (a, b))"

definition lua_checkstack_limit :: nat where
  "lua_checkstack_limit = 8000"

text \<open>\<open>luaL_checkstack\<close>, where the allocator always provides the memory for a larger stack.\<close>

definition luaL_checkstack :: "lua_State \<Rightarrow> int \<Rightarrow> string \<Rightarrow> unit res" where
  "luaL_checkstack L space mes =
     guardE (space \<le> int lua_checkstack_limit \<and> int (length (base L)) + space \<le> int lua_checkstack_limit)
       (RuntimeError (''stack overflow ('' @ mes @ '')''))"


section \<open>Pushing results\<close>

definition lua_pushinteger :: "int \<Rightarrow> TValue" where
  "lua_pushinteger n = TvNumber (dbl_of_int n)"

definition lua_pushunsigned :: "u32 \<Rightarrow> TValue" where
  "lua_pushunsigned u = TvNumber (dbl_of_int (uint u))"


section \<open>Facts\<close>

text \<open>The arguments of a call as the checkers read them.\<close>

named_theorems arg_simps \<open>argument checkers on known arguments\<close>

definition call_state :: "TValue list \<Rightarrow> lua_State" where
  "call_state args = \<lparr>base = args, buffers = (\<lambda>_. None), strtod = (\<lambda>_. (0, 0))\<rparr>"

lemma index2addr_call [arg_simps]:
  "index2addr (call_state args) idx = (if 0 < idx \<and> idx \<le> length args then Some (args ! (idx - 1)) else None)"
  by (simp add: index2addr_def call_state_def)

lemma lua_tonumberx_number [arg_simps]:
  "index2addr L i = Some (TvNumber d) \<Longrightarrow> lua_tonumberx L i = Some d"
  by (simp add: lua_tonumberx_def luaV_tonumber_def)

lemma luai_num2int_of_int [arg_simps]: "in_int32 n \<Longrightarrow> luai_num2int (dbl_of_int n) = Inr n"
  using dbl_of_int_exact(4) [OF in_int32_exact, of n] by (simp add: luai_num2int_def)

lemma exact_in_int64: "exact_in_double n \<Longrightarrow> in_int64 n"
  by (auto simp: exact_in_double_def in_int64_def)

lemma luai_num2long_of_int [arg_simps]: "exact_in_double n \<Longrightarrow> luai_num2long (dbl_of_int n) = Inr n"
  using dbl_of_int_exact(4) [of n] exact_in_int64 [of n] by (simp add: luai_num2long_def)

lemma luai_num2unsigned_of_int [arg_simps]:
  "exact_in_double n \<Longrightarrow> luai_num2unsigned (dbl_of_int n) = Inr (word_of_int n)"
  by (simp add: luai_num2unsigned_def luai_num2long_of_int)

text \<open>A Lua number that holds an integer arrives in a C function as that integer.\<close>

lemma luaL_checkinteger_of_int [arg_simps]:
  "index2addr L i = Some (TvNumber (dbl_of_int n)) \<Longrightarrow> in_int32 n \<Longrightarrow> luaL_checkinteger L i = Inr n"
  by (simp add: luaL_checkinteger_def lua_tointegerx_def lua_tonumberx_number luai_num2int_of_int)

lemma luaL_checkunsigned_of_int [arg_simps]:
  "index2addr L i = Some (TvNumber (dbl_of_int n)) \<Longrightarrow> exact_in_double n
    \<Longrightarrow> luaL_checkunsigned L i = Inr (word_of_int n)"
  by (simp add: luaL_checkunsigned_def lua_tounsignedx_def lua_tonumberx_number luai_num2unsigned_of_int)

lemma luaL_checkunsigned_pushed [arg_simps]:
  "index2addr L i = Some (lua_pushunsigned u) \<Longrightarrow> luaL_checkunsigned L i = Inr u"
  by (simp add: lua_pushunsigned_def luaL_checkunsigned_of_int)

lemma luaL_checkinteger64_int [arg_simps]:
  "index2addr L i = Some (TvInteger l) \<Longrightarrow> luaL_checkinteger64 L i = Inr l"
  by (simp add: luaL_checkinteger64_def lua_tointeger64_def)

lemma luaL_checkinteger_range: "luaL_checkinteger L i = Inr n \<Longrightarrow> in_int32 n"
  by (auto simp: luaL_checkinteger_def lua_tointegerx_def luai_num2int_def luaL_typeerrorL_def
      bindE_Inr_iff split: option.splits if_splits)

lemma luaL_optinteger_range: "in_int32 d \<Longrightarrow> luaL_optinteger L i d = Inr n \<Longrightarrow> in_int32 n"
  by (auto simp: luaL_optinteger_def dest: luaL_checkinteger_range split: if_splits)

lemma luaL_checkinteger64_Inr:
  "luaL_checkinteger64 L i = Inr l \<longleftrightarrow> index2addr L i = Some (TvInteger l)"
  by (auto simp: luaL_checkinteger64_def lua_tointeger64_def luaL_typeerrorL_def split: option.splits TValue.splits)

lemma luaL_checkinteger64_fails:
  "(\<exists>l. luaL_checkinteger64 L i = Inr l) \<or> luaL_checkinteger64 L i = Inl (TypeError i LUA_TINTEGER (lua_type L i))"
  by (auto simp: luaL_checkinteger64_def luaL_typeerrorL_def split: option.splits)

lemma luaL_checkbuffer_mutable:
  "luaL_checkbuffermutable L i = Inr (a, b) \<Longrightarrow> luaL_checkbuffer L i = Inr (a, b) \<and> b_mode b \<noteq> 1"
  by (auto simp: luaL_checkbuffermutable_def bindE_Inr_iff split: if_splits)

end
