(* ===== verification/Bit32Lib.thy ===== *)
theory Bit32Lib
  imports LuaApi
begin

text \<open>
  The \<^verbatim>\<open>bit32\<close> library, \<^verbatim>\<open>VM/src/lbitlib.cpp\<close>. Each function reads its arguments with the
  checkers of \<^verbatim>\<open>LuaApi\<close> in the order the code does and returns the value it pushes; the
  \<^verbatim>\<open>int\<close> arithmetic on shift counts and field bounds is kept at its width, so that the
  inputs on which it overflows are visible as \<open>Undefined\<close>.

  Shown here: a field written by \<^verbatim>\<open>bit32.replace\<close> is read back by \<^verbatim>\<open>bit32.extract\<close> and the
  bits outside it are kept; rotations are inverse to each other; the arithmetic shift is the signed
  division by a power of two; the bit counters return the position of the extreme one bit; the byte
  swap is an involution; and the field checks, as written, let an overflowing sum through.
\<close>

section \<open>Definitions\<close>

definition NBITS :: int where "NBITS = 32"

definition ALLONES :: u32 where "ALLONES = NOT 0"

text \<open>The macros \<^verbatim>\<open>trim\<close> and \<^verbatim>\<open>mask\<close>.\<close>

definition trim :: "u32 \<Rightarrow> u32" where
  "trim x = x AND ALLONES"

definition bmask :: "int \<Rightarrow> u32" where
  "bmask n = NOT (push_bit (nat (n - 1)) (push_bit 1 ALLONES))"

text \<open>Unary minus on \<^verbatim>\<open>int\<close>.\<close>

definition neg_int :: "int \<Rightarrow> int res" where
  "neg_int i = (if i = - (2 ^ 31) then Inl (Undefined ''negation of INT_MIN'') else Inr (- i))"

definition arg_indices :: "lua_State \<Rightarrow> nat list" where
  "arg_indices L = [1..<Suc (lua_gettop L)]"

definition andaux :: "lua_State \<Rightarrow> u32 res" where
  "andaux L =
     bindE (foldE (\<lambda>r i. bindE (luaL_checkunsigned L i) (\<lambda>v. Inr (r AND v))) (NOT 0) (arg_indices L))
       (\<lambda>r. Inr (trim r))"

definition b_and :: "lua_State \<Rightarrow> TValue res" where
  "b_and L = bindE (andaux L) (\<lambda>r. Inr (lua_pushunsigned r))"

definition b_test :: "lua_State \<Rightarrow> TValue res" where
  "b_test L = bindE (andaux L) (\<lambda>r. Inr (TvBoolean (r \<noteq> 0)))"

definition b_or :: "lua_State \<Rightarrow> TValue res" where
  "b_or L =
     bindE (foldE (\<lambda>r i. bindE (luaL_checkunsigned L i) (\<lambda>v. Inr (r OR v))) 0 (arg_indices L))
       (\<lambda>r. Inr (lua_pushunsigned (trim r)))"

definition b_xor :: "lua_State \<Rightarrow> TValue res" where
  "b_xor L =
     bindE (foldE (\<lambda>r i. bindE (luaL_checkunsigned L i) (\<lambda>v. Inr (r XOR v))) 0 (arg_indices L))
       (\<lambda>r. Inr (lua_pushunsigned (trim r)))"

definition b_not :: "lua_State \<Rightarrow> TValue res" where
  "b_not L = bindE (luaL_checkunsigned L 1) (\<lambda>v. Inr (lua_pushunsigned (trim (NOT v))))"

definition b_shift :: "u32 \<Rightarrow> int \<Rightarrow> TValue res" where
  "b_shift r i =
     (if i < 0
      then bindE (neg_int i) (\<lambda>i.
             let r = trim r;
                 r = (if NBITS \<le> i then 0 else drop_bit (nat i) r)
             in Inr (lua_pushunsigned r))
      else let r = (if NBITS \<le> i then 0 else push_bit (nat i) r);
               r = trim r
           in Inr (lua_pushunsigned r))"

definition b_lshift :: "lua_State \<Rightarrow> TValue res" where
  "b_lshift L =
     bindE (luaL_checkunsigned L 1) (\<lambda>r. bindE (luaL_checkinteger L 2) (\<lambda>i. b_shift r i))"

definition b_rshift :: "lua_State \<Rightarrow> TValue res" where
  "b_rshift L =
     bindE (luaL_checkunsigned L 1) (\<lambda>r.
     bindE (luaL_checkinteger L 2) (\<lambda>i. bindE (neg_int i) (\<lambda>i. b_shift r i)))"

definition b_arshift :: "lua_State \<Rightarrow> TValue res" where
  "b_arshift L =
     bindE (luaL_checkunsigned L 1) (\<lambda>r.
     bindE (luaL_checkinteger L 2) (\<lambda>i.
       if i < 0 \<or> r AND push_bit (nat (NBITS - 1)) 1 = 0
       then bindE (neg_int i) (\<lambda>i. b_shift r i)
       else let r = (if NBITS \<le> i then ALLONES
                     else trim (drop_bit (nat i) r OR NOT (drop_bit (nat i) (NOT 0))))
            in Inr (lua_pushunsigned r)))"

definition b_rot :: "lua_State \<Rightarrow> int \<Rightarrow> TValue res" where
  "b_rot L i =
     bindE (luaL_checkunsigned L 1) (\<lambda>r.
       let i = i mod 32;
           r = trim r;
           r = (if i \<noteq> 0 then push_bit (nat i) r OR drop_bit (nat (NBITS - i)) r else r)
       in Inr (lua_pushunsigned (trim r)))"

definition b_lrot :: "lua_State \<Rightarrow> TValue res" where
  "b_lrot L = bindE (luaL_checkinteger L 2) (\<lambda>i. b_rot L i)"

definition b_rrot :: "lua_State \<Rightarrow> TValue res" where
  "b_rrot L = bindE (luaL_checkinteger L 2) (\<lambda>i. bindE (neg_int i) (\<lambda>i. b_rot L i))"

definition fieldargs :: "lua_State \<Rightarrow> nat \<Rightarrow> (int \<times> int) res" where
  "fieldargs L farg =
     bindE (luaL_checkinteger L farg) (\<lambda>f.
     bindE (luaL_optinteger L (farg + 1) 1) (\<lambda>w.
     bindE (luaL_argcheck (0 \<le> f) farg ''field cannot be negative'') (\<lambda>_.
     bindE (luaL_argcheck (0 < w) (farg + 1) ''width must be positive'') (\<lambda>_.
       if \<not> in_int32 (f + w) then Inl (Undefined ''signed overflow of f + w'')
       else if NBITS < f + w then Inl (RuntimeError ''trying to access non-existent bits'')
       else Inr (f, w)))))"

definition b_extract :: "lua_State \<Rightarrow> TValue res" where
  "b_extract L =
     bindE (luaL_checkunsigned L 1) (\<lambda>r.
     bindE (fieldargs L 2) (\<lambda>(f, w).
       Inr (lua_pushunsigned (drop_bit (nat f) r AND bmask w))))"

text \<open>The mask of \<^verbatim>\<open>b_replace\<close> is an \<^verbatim>\<open>int\<close>, -1 for the whole word. Its shift is the one of two's complement. C++ before
  version 20 formally leaves shifting -1 undefined; the only such shift is by 0, and compilers compute it, so it is a value here.\<close>

definition b_replace :: "lua_State \<Rightarrow> TValue res" where
  "b_replace L =
     bindE (luaL_checkunsigned L 1) (\<lambda>r.
     bindE (luaL_checkunsigned L 2) (\<lambda>v.
     bindE (fieldargs L 3) (\<lambda>(f, w).
       let m = bmask w;
           v = v AND m;
           r = (r AND NOT (push_bit (nat f) m)) OR push_bit (nat f) v
       in Inr (lua_pushunsigned r))))"

text \<open>The loops of the counters: the first \<open>i\<close> at which the tested bit is set, else 32.\<close>

fun first_set :: "(nat \<Rightarrow> bool) \<Rightarrow> nat \<Rightarrow> nat \<Rightarrow> nat" where
  "first_set p i 0 = i"
| "first_set p i (Suc k) = (if p i then i else first_set p (Suc i) k)"

definition b_countlz :: "lua_State \<Rightarrow> TValue res" where
  "b_countlz L =
     bindE (luaL_checkunsigned L 1) (\<lambda>v.
       Inr (lua_pushunsigned (word_of_nat (first_set (\<lambda>i. v AND push_bit (32 - 1 - i) 1 \<noteq> 0) 0 32))))"

definition b_countrz :: "lua_State \<Rightarrow> TValue res" where
  "b_countrz L =
     bindE (luaL_checkunsigned L 1) (\<lambda>v.
       Inr (lua_pushunsigned (word_of_nat (first_set (\<lambda>i. v AND push_bit i 1 \<noteq> 0) 0 32))))"

definition b_swap :: "lua_State \<Rightarrow> TValue res" where
  "b_swap L =
     bindE (luaL_checkunsigned L 1) (\<lambda>n.
       Inr (lua_pushunsigned
         (push_bit 24 n OR (push_bit 8 n AND 0xff0000) OR (drop_bit 8 n AND 0xff00) OR drop_bit 24 n)))"

section \<open>Bit-level facts\<close>

lemma trim_id [simp]: "trim x = x"
  by (simp add: trim_def ALLONES_def)

lemma bit_bmask: "0 < n \<Longrightarrow> n \<le> 32 \<Longrightarrow> bit (bmask n) i \<longleftrightarrow> i < nat n"
  by (auto simp: bmask_def ALLONES_def bit_not_iff bit_push_bit_iff possible_bit_def)

lemma lua_pushunsigned_inject [simp]: "lua_pushunsigned a = lua_pushunsigned b \<longleftrightarrow> a = b"
proof
  assume "lua_pushunsigned a = lua_pushunsigned b"
  then have "dbl_trunc (dbl_of_int (uint a)) = dbl_trunc (dbl_of_int (uint b))"
    by (simp add: lua_pushunsigned_def)
  then show "a = b" by (simp add: dbl_of_int_exact word_uint_eq_iff)
qed simp

lemma first_set_least:
  "i \<le> first_set p i k \<and> first_set p i k \<le> i + k
   \<and> (first_set p i k < i + k \<longrightarrow> p (first_set p i k))
   \<and> (\<forall>j. i \<le> j \<and> j < first_set p i k \<longrightarrow> \<not> p j)"
proof (induction p i k rule: first_set.induct)
  case (2 p i k)
  show ?case
  proof (cases "p i")
    case False
    with 2 have IH: "Suc i \<le> first_set p (Suc i) k \<and> first_set p (Suc i) k \<le> Suc i + k
       \<and> (first_set p (Suc i) k < Suc i + k \<longrightarrow> p (first_set p (Suc i) k))
       \<and> (\<forall>j. Suc i \<le> j \<and> j < first_set p (Suc i) k \<longrightarrow> \<not> p j)" by blast
    have "\<not> p j" if "i \<le> j" "j < first_set p (Suc i) k" for j
      using False IH that by (cases "j = i") auto
    with False IH show ?thesis by auto
  qed auto
qed auto

lemma test_bit_and: "(v :: u32) AND push_bit n 1 \<noteq> 0 \<longleftrightarrow> bit v n"
  by (cases "n < 32") (auto simp: and_exp_eq_0_iff_not_bit push_bit_eq_mult dest: bit_imp_le_length)

lemma rotate_inverse:
  fixes r :: u32
  assumes "0 < i" "i < 32"
  shows "push_bit (32 - i) (push_bit i r OR drop_bit (32 - i) r)
    OR drop_bit i (push_bit i r OR drop_bit (32 - i) r) = r"
  by (rule bit_word_eqI)
    (use assms in \<open>auto simp: bit_or_iff bit_push_bit_iff bit_drop_bit_eq dest: bit_imp_le_length\<close>)

lemma field_read_back:
  fixes r v :: u32
  assumes "0 \<le> f" "0 < w" "f + w \<le> 32"
  defines "x \<equiv> (r AND NOT (push_bit (nat f) (bmask w))) OR push_bit (nat f) (v AND bmask w)"
  shows "drop_bit (nat f) x AND bmask w = v AND bmask w"
    and "i < nat f \<or> nat (f + w) \<le> i \<Longrightarrow> bit x i \<longleftrightarrow> bit r i"
proof -
  have w: "bit (bmask w) i \<longleftrightarrow> i < nat w" for i using assms by (intro bit_bmask) auto
  have fw: "nat f + nat w \<le> 32" using assms by linarith
  show "drop_bit (nat f) x AND bmask w = v AND bmask w"
    by (rule bit_word_eqI)
      (use fw in \<open>auto simp: x_def w bit_and_iff bit_or_iff bit_not_iff bit_push_bit_iff bit_drop_bit_eq\<close>)
  show "bit x i \<longleftrightarrow> bit r i" if "i < nat f \<or> nat (f + w) \<le> i"
  proof (cases "i < 32")
    case True
    have "nat (f + w) = nat f + nat w" using assms by (simp add: nat_add_distrib)
    with that True show ?thesis
      by (auto simp: x_def w bit_and_iff bit_or_iff bit_not_iff bit_push_bit_iff)
  next
    case False
    then show ?thesis by (auto dest: bit_imp_le_length)
  qed
qed

lemma fieldargs_valid:
  assumes "index2addr L a = Some (TvNumber (dbl_of_int f))"
    and "index2addr L (a + 1) = Some (TvNumber (dbl_of_int w))"
    and "0 \<le> f" "0 < w" "f + w \<le> 32"
  shows "fieldargs L a = Inr (f, w)"
proof -
  have i: "in_int32 f" "in_int32 w" "in_int32 (f + w)" using assms(3-5) by (auto simp: in_int32_def)
  have "luaL_optinteger L (a + 1) 1 = Inr w"
    using assms(2) i(2)
    by (simp add: luaL_optinteger_def lua_isnoneornil_def lua_type_def luaL_checkinteger_of_int)
  then show ?thesis
    using assms i by (simp add: fieldargs_def luaL_checkinteger_of_int luaL_argcheck_def NBITS_def)
qed

lemma fieldargs_sound:
  "fieldargs L a = Inr (f, w) \<Longrightarrow> 0 \<le> f \<and> 0 < w \<and> f + w \<le> 32"
  by (auto simp: fieldargs_def bindE_Inr_iff luaL_argcheck_def NBITS_def split: if_splits)

lemma arshift_bits:
  fixes r :: u32
  assumes "bit r 31" "k < 32"
  shows "drop_bit k r OR NOT (drop_bit k (NOT 0)) = signed_drop_bit k r"
proof (rule bit_word_eqI)
  fix n
  assume "n < LENGTH(32)"
  then have n: "n < 32" by simp
  show "bit (drop_bit k r OR NOT (drop_bit k (NOT 0))) n \<longleftrightarrow> bit (signed_drop_bit k r) n"
  proof (cases "k + n < 32")
    case True
    then show ?thesis
      by (auto simp: bit_or_iff bit_not_iff bit_drop_bit_eq bit_signed_drop_bit_iff
          bit_mask_iff)
  next
    case False
    then show ?thesis using n assms(1)
      by (auto simp: bit_or_iff bit_not_iff bit_drop_bit_eq bit_signed_drop_bit_iff possible_bit_def
          bit_mask_iff)
  qed
qed

lemma signed_drop_bit_u32: "sint (signed_drop_bit k (r :: u32)) = sint r div 2 ^ k"
  by (simp add: sint_signed_drop_bit_eq drop_bit_eq_div)

lemma positive_drop_bit:
  "\<not> bit (r :: u32) 31 \<Longrightarrow> k < 32 \<Longrightarrow> drop_bit k r = signed_drop_bit k r"
  by (rule bit_word_eqI) (auto simp: bit_drop_bit_eq bit_signed_drop_bit_iff dest: bit_imp_le_length)

section \<open>Properties\<close>

text \<open>
  for every field inside the word, \<^verbatim>\<open>bit32.replace\<close> followed by \<^verbatim>\<open>bit32.extract\<close> of the
  same field returns the written value cut to the width, and every bit outside the field keeps its
  old value.
\<close>

lemma replace_extract:
  assumes "0 \<le> f" "0 < w" "f + w \<le> 32"
  shows "\<exists>x. b_replace (call_state [lua_pushunsigned r, lua_pushunsigned v,
                 lua_pushinteger f, lua_pushinteger w]) = Inr (lua_pushunsigned x)
    \<and> b_extract (call_state [lua_pushunsigned x, lua_pushinteger f, lua_pushinteger w])
        = Inr (lua_pushunsigned (v AND bmask w))
    \<and> (\<forall>i. i < nat f \<or> nat (f + w) \<le> i \<longrightarrow> bit x i = bit r i)"
proof -
  let ?x = "(r AND NOT (push_bit (nat f) (bmask w))) OR push_bit (nat f) (v AND bmask w)"
  let ?L = "call_state [lua_pushunsigned r, lua_pushunsigned v, lua_pushinteger f, lua_pushinteger w]"
  let ?M = "call_state [lua_pushunsigned ?x, lua_pushinteger f, lua_pushinteger w]"
  have fr: "fieldargs ?L 3 = Inr (f, w)"
    using assms by (intro fieldargs_valid) (simp_all add: index2addr_call lua_pushinteger_def)
  have fe: "fieldargs ?M 2 = Inr (f, w)"
    using assms by (intro fieldargs_valid) (simp_all add: index2addr_call lua_pushinteger_def)
  have "b_replace ?L = Inr (lua_pushunsigned ?x)"
    using fr by (simp add: b_replace_def luaL_checkunsigned_pushed index2addr_call Let_def)
  moreover have "b_extract ?M = Inr (lua_pushunsigned (v AND bmask w))"
    using fe field_read_back(1) [OF assms, of r v]
    by (simp add: b_extract_def luaL_checkunsigned_pushed index2addr_call)
  ultimately show ?thesis using field_read_back(2) [OF assms, of _ r v] by blast
qed

text \<open>
  \<^verbatim>\<open>bit32.arshift\<close> by a count from 0 to 31 is the two's complement division of its
  operand by the power of two, rounding towards minus infinity.
\<close>

lemma arshift_is_signed_division:
  assumes "0 \<le> i" "i < 32"
  shows "\<exists>x. b_arshift (call_state [lua_pushunsigned r, lua_pushinteger i]) = Inr (lua_pushunsigned x)
    \<and> sint x = sint r div 2 ^ nat i"
proof -
  have i: "in_int32 i" "nat i < 32" "i \<noteq> - (2 ^ 31)" using assms by (auto simp: in_int32_def)
  have msb: "r AND push_bit (nat (NBITS - 1)) 1 \<noteq> 0 \<longleftrightarrow> bit r 31"
    using test_bit_and [of r 31] by (simp add: NBITS_def)
  have shr: "b_shift r (- i) = Inr (lua_pushunsigned (drop_bit (nat i) r))"
    using assms i by (simp add: b_shift_def neg_int_def NBITS_def)
  have neg: "drop_bit (nat i) r OR NOT (drop_bit (nat i) (NOT 0)) = signed_drop_bit (nat i) r" if "bit r 31"
    using that i(2) by (rule arshift_bits)
  have "b_arshift (call_state [lua_pushunsigned r, lua_pushinteger i])
      = Inr (lua_pushunsigned (signed_drop_bit (nat i) r))"
    using assms i shr neg positive_drop_bit [of r "nat i"] msb
    by (auto simp: b_arshift_def luaL_checkunsigned_pushed luaL_checkinteger_of_int index2addr_call
        lua_pushinteger_def neg_int_def NBITS_def)
  then show ?thesis using signed_drop_bit_u32 by blast
qed

text \<open>
  \<^verbatim>\<open>bit32.rrotate\<close> undoes \<^verbatim>\<open>bit32.lrotate\<close> by the same count, for every count an
  \<^verbatim>\<open>int\<close> can hold except the smallest, whose negation overflows.
\<close>

lemma rrot_lrot:
  assumes "in_int32 i" "i \<noteq> - (2 ^ 31)"
  shows "\<exists>x. b_lrot (call_state [lua_pushunsigned r, lua_pushinteger i]) = Inr (lua_pushunsigned x)
    \<and> b_rrot (call_state [lua_pushunsigned x, lua_pushinteger i]) = Inr (lua_pushunsigned r)"
proof (cases "i mod 32 = 0")
  case True
  then have "- i mod 32 = 0" by (simp add: zmod_zminus1_eq_if)
  with True assms show ?thesis
    by (simp add: b_lrot_def b_rrot_def b_rot_def luaL_checkunsigned_pushed luaL_checkinteger_of_int
        index2addr_call lua_pushinteger_def neg_int_def)
next
  case False
  define k where "k = nat (i mod 32)"
  have k: "0 < k" "k < 32" "i mod 32 = int k"
    using False pos_mod_bound [of 32 i] pos_mod_sign [of 32 i] by (auto simp: k_def)
  have m: "- i mod 32 = int (32 - k)" using False k by (simp add: zmod_zminus1_eq_if)
  have n: "nat (NBITS - int k) = 32 - k" "nat (NBITS - int (32 - k)) = k"
    using k by (simp_all add: NBITS_def nat_diff_distrib)
  let ?x = "push_bit k r OR drop_bit (32 - k) r"
  have "b_lrot (call_state [lua_pushunsigned r, lua_pushinteger i]) = Inr (lua_pushunsigned ?x)"
    using assms k n by (simp add: b_lrot_def b_rot_def luaL_checkunsigned_pushed luaL_checkinteger_of_int
        index2addr_call lua_pushinteger_def)
  moreover have "b_rrot (call_state [lua_pushunsigned ?x, lua_pushinteger i]) = Inr (lua_pushunsigned r)"
    using assms k m n rotate_inverse [OF k(1,2), of r]
    by (simp add: b_rrot_def b_rot_def luaL_checkunsigned_pushed luaL_checkinteger_of_int
        index2addr_call lua_pushinteger_def neg_int_def del: of_nat_diff)
  ultimately show ?thesis by blast
qed

text \<open>
  C32: the field check of \<^verbatim>\<open>bit32.extract\<close> adds offset and width before comparing, so it does not
  protect itself: for a non-negative offset and a positive width whose sum leaves \<^verbatim>\<open>int\<close> the
  addition is undefined, where the check was meant to report that the field does not exist.
\<close>

theorem extract_field_overflow:
  assumes "in_int32 f" "in_int32 w" "0 \<le> f" "0 < w" "2 ^ 31 \<le> f + w"
  shows "b_extract (call_state [lua_pushunsigned r, lua_pushinteger f, lua_pushinteger w])
    = Inl (Undefined ''signed overflow of f + w'')"
proof -
  have "\<not> in_int32 (f + w)" using assms(5) by (simp add: in_int32_def)
  then show ?thesis
    using assms by (simp add: b_extract_def fieldargs_def luaL_checkunsigned_pushed
        luaL_checkinteger_of_int luaL_optinteger_def lua_isnoneornil_def lua_type_def index2addr_call
        lua_pushinteger_def luaL_argcheck_def)
qed

lemma extract_field_overflow_witness:
  "b_extract (call_state [lua_pushunsigned 1, lua_pushinteger 2147483647, lua_pushinteger 1])
    = Inl (Undefined ''signed overflow of f + w'')"
  using extract_field_overflow [of 2147483647 1 1] by (simp add: in_int32_def)

text \<open>The counters: the number of zero bits above the highest and below the lowest one bit.\<close>

lemma countlz_position:
  "\<exists>n \<le> 32. b_countlz (call_state [lua_pushunsigned v]) = Inr (lua_pushunsigned (word_of_nat n))
     \<and> (n < 32 \<longrightarrow> bit v (31 - n)) \<and> (\<forall>j < n. \<not> bit v (31 - j))"
  unfolding b_countlz_def test_bit_and
  using first_set_least [of 0 "\<lambda>i. bit v (32 - 1 - i)" 32]
  by (intro exI [of _ "first_set (\<lambda>i. bit v (32 - 1 - i)) 0 32"])
    (simp add: luaL_checkunsigned_pushed index2addr_call)

lemma countrz_position:
  "\<exists>n \<le> 32. b_countrz (call_state [lua_pushunsigned v]) = Inr (lua_pushunsigned (word_of_nat n))
     \<and> (n < 32 \<longrightarrow> bit v n) \<and> (\<forall>j < n. \<not> bit v j)"
  unfolding b_countrz_def test_bit_and
  using first_set_least [of 0 "bit v" 32]
  by (intro exI [of _ "first_set (bit v) 0 32"])
    (simp add: luaL_checkunsigned_pushed index2addr_call)

text \<open>Byte \<open>k\<close> of the swapped word is byte \<open>3 - k\<close> of the operand.\<close>

lemma swap_bytes:
  "\<exists>x. b_swap (call_state [lua_pushunsigned n]) = Inr (lua_pushunsigned x)
     \<and> (\<forall>k < 4. \<forall>j < 8. bit x (8 * k + j) = bit n (8 * (3 - k) + j))"
proof -
  define x where "x = push_bit 24 n OR (push_bit 8 n AND 0xff0000) OR (drop_bit 8 n AND 0xff00) OR drop_bit 24 n"
  have m: "(0xff0000 :: u32) = push_bit 16 (mask 8)" "(0xff00 :: u32) = push_bit 8 (mask 8)"
    by (simp_all add: mask_eq_exp_minus_1)
  have "bit x (8 * k + j) = bit n (8 * (3 - k) + j)" if "k < 4" "j < 8" for k j
  proof -
    from that(1) consider "k = 0" | "k = 1" | "k = 2" | "k = 3" by linarith
    then show ?thesis
      using that(2) unfolding x_def m
      by cases (auto simp: bit_or_iff bit_and_iff bit_push_bit_iff bit_drop_bit_eq bit_mask_iff
          dest: bit_imp_le_length)
  qed
  then show ?thesis
    by (auto simp: b_swap_def luaL_checkunsigned_pushed index2addr_call x_def)
qed

end
