(* ===== verification/IntegerLib.thy ===== *)
theory IntegerLib
  imports LuaApi Bit32Lib
begin

text \<open>
  The \<^verbatim>\<open>integer\<close> library, \<^verbatim>\<open>VM/src/lintlib.cpp\<close>: 64-bit integers with explicit operations.
  A value is a 64-bit word; \<^verbatim>\<open>int64_t\<close> and \<^verbatim>\<open>uint64_t\<close> are its readings \<open>sint\<close>
  and \<open>uint\<close>. Division is that of C++ (\<open>cdiv\<close>, \<open>crem\<close>).

  Shown here: \<^verbatim>\<open>integer.mod\<close> is the floored remainder for all operands; \<^verbatim>\<open>integer.div\<close> and
  \<^verbatim>\<open>integer.rem\<close> satisfy the division identity; \<^verbatim>\<open>integer.idiv\<close> is the floored quotient
  exactly when the truncated quotient is not zero or the operands do not disagree in sign; field
  access reads back what it wrote; rotation is invertible; and conversion from numbers accepts
  exactly the integral ones in range.
\<close>

section \<open>Arithmetic\<close>

definition int64_min_value :: u64 where "int64_min_value = word_of_int (- (2 ^ 63))"

definition check64_2 :: "lua_State \<Rightarrow> (u64 \<Rightarrow> u64 \<Rightarrow> 'a res) \<Rightarrow> 'a res" where
  "check64_2 L k =
     bindE (luaL_checkinteger64 L 1) (\<lambda>a. bindE (luaL_checkinteger64 L 2) (\<lambda>b. k a b))"

definition check64_1 :: "lua_State \<Rightarrow> (u64 \<Rightarrow> 'a res) \<Rightarrow> 'a res" where
  "check64_1 L k = bindE (luaL_checkinteger64 L 1) k"

definition int64_create :: "lua_State \<Rightarrow> TValue res" where
  "int64_create L =
     bindE (luaL_checknumber L 1) (\<lambda>x.
       if dbl_le (dbl_of_int (- (2 ^ 63))) x \<and> dbl_lt x (dbl_of_int (2 ^ 63))
       then bindE (luai_num2long x) (\<lambda>l.
              if dbl_eq (dbl_of_int l) x then Inr (TvInteger (word_of_int l)) else Inr TvNil)
       else Inr TvNil)"

definition int64_fromstring :: "lua_State \<Rightarrow> TValue res" where
  "int64_fromstring L =
     bindE (luaL_checklstring L 1) (\<lambda>s.
     bindE (luaL_optinteger L 2 10) (\<lambda>radix.
     bindE (luaL_argcheck (2 \<le> radix \<and> radix \<le> 36) 2 ''base out of range'') (\<lambda>_.
       Inr (case luaO_str2l (c_string s) (nat radix) of Some r \<Rightarrow> TvInteger r | None \<Rightarrow> TvNil))))"

definition int64_tonumber :: "lua_State \<Rightarrow> TValue res" where
  "int64_tonumber L = check64_1 L (\<lambda>x. Inr (TvNumber (dbl_of_int (sint x))))"

definition int64_neg :: "lua_State \<Rightarrow> TValue res" where
  "int64_neg L = check64_1 L (\<lambda>x. Inr (TvInteger (NOT x + 1)))"

definition int64_add :: "lua_State \<Rightarrow> TValue res" where
  "int64_add L = check64_2 L (\<lambda>x y. Inr (TvInteger (x + y)))"

definition int64_sub :: "lua_State \<Rightarrow> TValue res" where
  "int64_sub L = check64_2 L (\<lambda>x y. Inr (TvInteger (x - y)))"

definition int64_mul :: "lua_State \<Rightarrow> TValue res" where
  "int64_mul L = check64_2 L (\<lambda>x y. Inr (TvInteger (x * y)))"

definition int64_div :: "lua_State \<Rightarrow> TValue res" where
  "int64_div L = check64_2 L (\<lambda>a b.
     if b = 0 then Inl (RuntimeError ''division by zero'')
     else if a = int64_min_value \<and> b = -1 then Inl (RuntimeError ''integer overflow'')
     else Inr (TvInteger (word_of_int (cdiv (sint a) (sint b)))))"

definition int64_idiv :: "lua_State \<Rightarrow> TValue res" where
  "int64_idiv L = check64_2 L (\<lambda>a b.
     if b = 0 then Inl (RuntimeError ''division by zero'')
     else if a = int64_min_value \<and> b = -1 then Inl (RuntimeError ''integer overflow'')
     else let result = cdiv (sint a) (sint b) in
          if result < 0 \<and> crem (sint a) (sint b) \<noteq> 0 then Inr (TvInteger (word_of_int (result - 1)))
          else Inr (TvInteger (word_of_int result)))"

definition int64_rem :: "lua_State \<Rightarrow> TValue res" where
  "int64_rem L = check64_2 L (\<lambda>a b.
     if b = 0 then Inl (RuntimeError ''division by zero'')
     else if a = int64_min_value \<and> b = -1 then Inr (TvInteger 0)
     else Inr (TvInteger (word_of_int (crem (sint a) (sint b)))))"

definition int64_mod :: "lua_State \<Rightarrow> TValue res" where
  "int64_mod L = check64_2 L (\<lambda>a b.
     if b = 0 then Inl (RuntimeError ''division by zero'')
     else let remainder =
            (if a \<noteq> int64_min_value \<or> b \<noteq> -1
             then let r = crem (sint a) (sint b)
                  in if r \<noteq> 0 \<and> (sint a < 0) \<noteq> (sint b < 0) then r + sint b else r
             else 0)
          in Inr (TvInteger (word_of_int remainder)))"

definition int64_udiv :: "lua_State \<Rightarrow> TValue res" where
  "int64_udiv L = check64_2 L (\<lambda>a b.
     if b = 0 then Inl (RuntimeError ''division by zero'') else Inr (TvInteger (a div b)))"

definition int64_urem :: "lua_State \<Rightarrow> TValue res" where
  "int64_urem L = check64_2 L (\<lambda>a b.
     if b = 0 then Inl (RuntimeError ''division by zero'') else Inr (TvInteger (a mod b)))"


section \<open>Comparison and selection\<close>

definition int64_min :: "lua_State \<Rightarrow> TValue res" where
  "int64_min L = check64_1 L (\<lambda>tmin.
     bindE (foldE (\<lambda>tmin i. bindE (luaL_checkinteger64 L i) (\<lambda>x.
              Inr (if sint x < sint tmin then x else tmin))) tmin [2..<Suc (lua_gettop L)])
       (\<lambda>tmin. Inr (TvInteger tmin)))"

definition int64_max :: "lua_State \<Rightarrow> TValue res" where
  "int64_max L = check64_1 L (\<lambda>tmax.
     bindE (foldE (\<lambda>tmax i. bindE (luaL_checkinteger64 L i) (\<lambda>x.
              Inr (if sint tmax < sint x then x else tmax))) tmax [2..<Suc (lua_gettop L)])
       (\<lambda>tmax. Inr (TvInteger tmax)))"

definition int64_lt :: "lua_State \<Rightarrow> TValue res" where
  "int64_lt L = check64_2 L (\<lambda>a b. Inr (TvBoolean (sint a < sint b)))"

definition int64_le :: "lua_State \<Rightarrow> TValue res" where
  "int64_le L = check64_2 L (\<lambda>a b. Inr (TvBoolean (sint a \<le> sint b)))"

definition int64_ult :: "lua_State \<Rightarrow> TValue res" where
  "int64_ult L = check64_2 L (\<lambda>a b. Inr (TvBoolean (a < b)))"

definition int64_ule :: "lua_State \<Rightarrow> TValue res" where
  "int64_ule L = check64_2 L (\<lambda>a b. Inr (TvBoolean (a \<le> b)))"

definition int64_gt :: "lua_State \<Rightarrow> TValue res" where
  "int64_gt L = check64_2 L (\<lambda>a b. Inr (TvBoolean (sint b < sint a)))"

definition int64_ge :: "lua_State \<Rightarrow> TValue res" where
  "int64_ge L = check64_2 L (\<lambda>a b. Inr (TvBoolean (sint b \<le> sint a)))"

definition int64_ugt :: "lua_State \<Rightarrow> TValue res" where
  "int64_ugt L = check64_2 L (\<lambda>a b. Inr (TvBoolean (b < a)))"

definition int64_uge :: "lua_State \<Rightarrow> TValue res" where
  "int64_uge L = check64_2 L (\<lambda>a b. Inr (TvBoolean (b \<le> a)))"

definition int64_clamp :: "lua_State \<Rightarrow> TValue res" where
  "int64_clamp L = check64_2 L (\<lambda>a mi.
     bindE (luaL_checkinteger64 L 3) (\<lambda>mx.
     bindE (luaL_argcheck (sint mi \<le> sint mx) 3 ''max must be greater than or equal to min'') (\<lambda>_.
       if sint a < sint mi then Inr (TvInteger mi)
       else if sint mx < sint a then Inr (TvInteger mx)
       else Inr (TvInteger a))))"


section \<open>Bits\<close>

definition fold64 :: "lua_State \<Rightarrow> (u64 \<Rightarrow> u64 \<Rightarrow> u64) \<Rightarrow> u64 \<Rightarrow> u64 res" where
  "fold64 L f r =
     foldE (\<lambda>tres i. bindE (luaL_checkinteger64 L i) (\<lambda>x. Inr (f tres x))) r (arg_indices L)"

definition int64_band :: "lua_State \<Rightarrow> TValue res" where
  "int64_band L = bindE (fold64 L (AND) (-1)) (\<lambda>tres. Inr (TvInteger tres))"

definition int64_bor :: "lua_State \<Rightarrow> TValue res" where
  "int64_bor L = bindE (fold64 L (OR) 0) (\<lambda>tres. Inr (TvInteger tres))"

definition int64_bxor :: "lua_State \<Rightarrow> TValue res" where
  "int64_bxor L = bindE (fold64 L (XOR) 0) (\<lambda>tres. Inr (TvInteger tres))"

definition int64_btest :: "lua_State \<Rightarrow> TValue res" where
  "int64_btest L = bindE (fold64 L (AND) (-1)) (\<lambda>tres. Inr (TvBoolean (tres \<noteq> 0)))"

definition int64_bnot :: "lua_State \<Rightarrow> TValue res" where
  "int64_bnot L = check64_1 L (\<lambda>a. Inr (TvInteger (NOT a)))"

definition int64_lshift :: "lua_State \<Rightarrow> TValue res" where
  "int64_lshift L = check64_2 L (\<lambda>n w. let i = sint w in
     if -63 \<le> i \<and> i \<le> 63
     then Inr (TvInteger (if i < 0 then drop_bit (nat (- i)) n else push_bit (nat i) n))
     else Inr (TvInteger 0))"

definition int64_rshift :: "lua_State \<Rightarrow> TValue res" where
  "int64_rshift L = check64_2 L (\<lambda>n w. let i = sint w in
     if -63 \<le> i \<and> i \<le> 63
     then Inr (TvInteger (if i < 0 then push_bit (nat (- i)) n else drop_bit (nat i) n))
     else Inr (TvInteger 0))"

definition int64_arshift :: "lua_State \<Rightarrow> TValue res" where
  "int64_arshift L = check64_2 L (\<lambda>n w. let i = sint w in
     if -63 \<le> i \<and> i \<le> 63
     then Inr (TvInteger (if i < 0 then push_bit (nat (- i)) n else signed_drop_bit (nat i) n))
     else if i < -63 then Inr (TvInteger 0)
     else Inr (TvInteger (if sint n < 0 then -1 else 0)))"

definition int64_lrotate :: "lua_State \<Rightarrow> TValue res" where
  "int64_lrotate L = check64_2 L (\<lambda>n w. let s = unat w mod 64 in
     Inr (TvInteger (if s \<noteq> 0 then push_bit s n OR drop_bit (64 - s) n else n)))"

definition int64_rrotate :: "lua_State \<Rightarrow> TValue res" where
  "int64_rrotate L = check64_2 L (\<lambda>n w. let s = unat w mod 64 in
     Inr (TvInteger (if s \<noteq> 0 then drop_bit s n OR push_bit (64 - s) n else n)))"

text \<open>The macro \<^verbatim>\<open>mask64\<close>, and the field checks of \<open>int64_extract\<close> and \<open>int64_replace\<close>.\<close>

definition mask64 :: "int \<Rightarrow> u64" where
  "mask64 w = drop_bit (nat (64 - w)) (-1)"

definition field64 :: "nat \<Rightarrow> int \<Rightarrow> int \<Rightarrow> unit res" where
  "field64 farg f w =
     bindE (luaL_argcheck (0 \<le> f \<and> f \<le> 63) farg ''field cannot be negative'') (\<lambda>_.
     bindE (luaL_argcheck (0 < w) (farg + 1) ''width must be positive'') (\<lambda>_.
       if \<not> in_int64 (f + w) then Inl (Undefined ''signed overflow of f + w'')
       else if 64 < f + w then Inl (RuntimeError ''trying to access non-existent bits'')
       else Inr ()))"

definition int64_extract :: "lua_State \<Rightarrow> TValue res" where
  "int64_extract L = check64_2 L (\<lambda>n fw.
     bindE (luaL_optinteger64 L 3 1) (\<lambda>ww.
       let f = sint fw; w = sint ww in
       bindE (field64 2 f w) (\<lambda>_. Inr (TvInteger (drop_bit (nat f) n AND mask64 w)))))"

definition int64_replace :: "lua_State \<Rightarrow> TValue res" where
  "int64_replace L = check64_2 L (\<lambda>n r.
     bindE (luaL_checkinteger64 L 3) (\<lambda>fw.
     bindE (luaL_optinteger64 L 4 1) (\<lambda>ww.
       let f = sint fw; w = sint ww in
       bindE (field64 3 f w) (\<lambda>_.
         let baseMask = drop_bit (nat (64 - w)) (-1);
             replacement = push_bit (nat f) (r AND baseMask);
             mask = (-1) XOR push_bit (nat f) baseMask
         in Inr (TvInteger ((n AND mask) OR replacement))))))"

text \<open>The compiler intrinsics behind the counters, for a non-zero operand.\<close>

definition builtin_ctzll :: "u64 \<Rightarrow> nat" where
  "builtin_ctzll n = first_set (bit n) 0 64"

definition builtin_clzll :: "u64 \<Rightarrow> nat" where
  "builtin_clzll n = first_set (\<lambda>i. bit n (63 - i)) 0 64"

definition int64_countrz :: "lua_State \<Rightarrow> TValue res" where
  "int64_countrz L = check64_1 L (\<lambda>n.
     Inr (TvInteger (if n = 0 then 64 else word_of_nat (builtin_ctzll n))))"

definition int64_countlz :: "lua_State \<Rightarrow> TValue res" where
  "int64_countlz L = check64_1 L (\<lambda>n.
     Inr (TvInteger (if n = 0 then 64 else word_of_nat (builtin_clzll n))))"

definition bswap64 :: "u64 \<Rightarrow> u64" where
  "bswap64 a =
     drop_bit 56 a OR drop_bit 40 (a AND 0xFF000000000000) OR drop_bit 24 (a AND 0xFF0000000000) OR
     drop_bit 8 (a AND 0xFF00000000) OR push_bit 8 (a AND 0xFF000000) OR push_bit 24 (a AND 0xFF0000) OR
     push_bit 40 (a AND 0xFF00) OR push_bit 56 (a AND 0xFF)"

definition int64_bswap :: "lua_State \<Rightarrow> TValue res" where
  "int64_bswap L = check64_1 L (\<lambda>a. Inr (TvInteger (bswap64 a)))"


section \<open>Properties\<close>

lemma adjusted_crem:
  assumes "b \<noteq> 0"
  shows "(if crem a b \<noteq> 0 \<and> (a < 0) \<noteq> (b < 0) then crem a b + b else crem a b) = a mod b"
proof -
  have p: "\<bar>b\<bar> > 0" using assms by simp
  consider "0 \<le> a" "0 < b" | "0 \<le> a" "b < 0" | "a < 0" "0 < b" | "a < 0" "b < 0"
    using assms by linarith
  then show ?thesis
  proof cases
    case 1
    then show ?thesis by (cases "a = 0") (simp_all add: crem_abs)
  next
    case 2
    then show ?thesis
      using zmod_zminus2_eq_if [of a "-b"] by (cases "a = 0") (simp_all add: crem_abs)
  next
    case 3
    then show ?thesis
      using zmod_zminus1_eq_if [of "-a" b] by (simp add: crem_abs)
  next
    case 4
    then show ?thesis using mod_minus_minus [of "-a" "-b"] by (simp add: crem_abs)
  qed
qed

lemma word_of_sint: "word_of_int (sint l) = (l :: u64)"
  by simp

lemma sint_eq_0_iff [simp]: "sint (b :: u64) = 0 \<longleftrightarrow> b = 0"
  by (rule signed_eq_0_iff)

lemma call2 [simp]:
  "check64_2 (call_state (TvInteger a # TvInteger b # xs)) k = k a b"
  by (simp add: check64_2_def luaL_checkinteger64_int index2addr_call)

lemma call1 [simp]: "check64_1 (call_state (TvInteger a # xs)) k = k a"
  by (simp add: check64_1_def luaL_checkinteger64_int index2addr_call)

lemma sint_int64_min_value: "sint int64_min_value = - (2 ^ 63)"
  by (simp add: int64_min_value_def sint_of_int64 in_int64_def)

lemma cdiv_floor:
  assumes "b \<noteq> 0" "\<not> (0 < \<bar>a\<bar> \<and> \<bar>a\<bar> < \<bar>b\<bar> \<and> (a < 0) \<noteq> (b < 0))"
  shows "(if cdiv a b < 0 \<and> crem a b \<noteq> 0 then cdiv a b - 1 else cdiv a b) = a div b"
proof -
  have pos: "0 < x div y" if "0 < y" "y \<le> x" for x y :: int
    using that by (simp add: pos_imp_zdiv_pos_iff)
  consider "0 \<le> a" "0 < b" | "0 \<le> a" "b < 0" | "a < 0" "0 < b" | "a < 0" "b < 0"
    using assms by linarith
  then show ?thesis
  proof cases
    case 1
    then have "0 \<le> a div b" by (simp add: pos_imp_zdiv_nonneg_iff)
    with 1 show ?thesis by (cases "a = 0") (simp_all add: cdiv_def)
  next
    case 2
    then show ?thesis
      using zdiv_zminus2_eq_if [of "-b" a] assms(2) pos [of "-b" a]
      by (cases "a = 0") (auto simp: cdiv_def crem_abs)
  next
    case 3
    then show ?thesis
      using zdiv_zminus1_eq_if [of b "-a"] assms(2) pos [of b "-a"]
      by (auto simp: cdiv_def crem_abs)
  next
    case 4
    then have "0 \<le> (-a) div (-b)" by (subst pos_imp_zdiv_nonneg_iff) auto
    with 4 show ?thesis using div_minus_minus [of "-a" "-b"] by (simp add: cdiv_def)
  qed
qed

lemma cdiv_small: "\<bar>a\<bar> < \<bar>b\<bar> \<Longrightarrow> cdiv a b = 0"
  by (simp add: cdiv_def)


lemma cdiv_in_int64:
  fixes a b :: u64
  assumes "b \<noteq> 0" "\<not> (a = int64_min_value \<and> b = -1)"
  shows "in_int64 (cdiv (sint a) (sint b))"
proof -
  have a: "- (2 ^ 63) \<le> sint a" "sint a < 2 ^ 63" using in_int64_sint [of a] by (simp_all add: in_int64_def)
  have "sint b \<noteq> 0" using assms(1) by simp
  then consider "sint b = 1" | "sint b = -1" | "2 \<le> \<bar>sint b\<bar>" by linarith
  then show ?thesis
  proof cases
    case 1
    then have "cdiv (sint a) (sint b) = sint a" by (simp add: cdiv_def mult_sgn_abs)
    then show ?thesis by simp
  next
    case 2
    then have "b = -1" using word_of_sint [of b] by (simp only: of_int_minus of_int_1)
    then have "sint a \<noteq> - (2 ^ 63)"
      using assms(2) word_of_sint [of a] unfolding int64_min_value_def by metis
    moreover have "cdiv (sint a) (sint b) = - sint a" using 2 by (simp add: cdiv_def mult_sgn_abs)
    ultimately show ?thesis using a by (simp add: in_int64_def)
  next
    case 3
    have "\<bar>cdiv (sint a) (sint b)\<bar> \<le> \<bar>sint a\<bar> div \<bar>sint b\<bar>"
      using 3 pos_imp_zdiv_nonneg_iff [of "\<bar>sint b\<bar>" "\<bar>sint a\<bar>"] by (simp add: cdiv_def abs_mult abs_sgn_eq)
    also have "\<dots> \<le> \<bar>sint a\<bar> div 2" using 3 by (intro zdiv_mono2) auto
    also have "\<dots> \<le> 2 ^ 62" using a by (auto simp: abs_if)
    finally show ?thesis by (auto simp: in_int64_def)
  qed
qed

lemma crem_in_int64:
  fixes a b :: u64
  shows "b \<noteq> 0 \<Longrightarrow> in_int64 (crem (sint a) (sint b))"
  using crem_bound [of "sint b" "sint a"] in_int64_sint [of b] by (auto simp: in_int64_def)

text \<open>
  C15: \<^verbatim>\<open>integer.mod\<close> returns the remainder of floored division for every pair of 64-bit
  operands with a non-zero divisor, the smallest integer and minus one included.
\<close>

theorem integer_mod_floored:
  assumes "b \<noteq> 0"
  shows "int64_mod (call_state [TvInteger a, TvInteger b]) = Inr (TvInteger (word_of_int (sint a mod sint b)))"
proof (cases "a = int64_min_value \<and> b = -1")
  case True
  then show ?thesis by (simp add: int64_mod_def)
next
  case False
  then show ?thesis using assms adjusted_crem [of "sint b" "sint a"] by (auto simp: int64_mod_def Let_def)
qed

lemma integer_mod_floored_witness:
  "int64_mod (call_state [TvInteger (-7), TvInteger 3]) = Inr (TvInteger 2)"
  using integer_mod_floored [of 3 "-7"] by simp

text \<open>
  C30: \<^verbatim>\<open>integer.idiv\<close> on every pair of operands. It raises an error for a zero divisor and for the one quotient
  that overflows. Otherwise it returns the floored quotient, except where the dividend is non-zero, smaller in magnitude than the
  divisor and of the other sign: there it returns 0.
\<close>

theorem integer_idiv_floored:
  "int64_idiv (call_state [TvInteger a, TvInteger b]) =
    (if b = 0 then Inl (RuntimeError ''division by zero'')
     else if a = int64_min_value \<and> b = -1 then Inl (RuntimeError ''integer overflow'')
     else if 0 < \<bar>sint a\<bar> \<and> \<bar>sint a\<bar> < \<bar>sint b\<bar> \<and> (sint a < 0) \<noteq> (sint b < 0) then Inr (TvInteger 0)
     else Inr (TvInteger (word_of_int (sint a div sint b))))"
proof (cases "b = 0 \<or> a = int64_min_value \<and> b = -1")
  case True
  then show ?thesis by (auto simp: int64_idiv_def)
next
  case False
  then have b: "sint b \<noteq> 0" by simp
  show ?thesis
  proof (cases "0 < \<bar>sint a\<bar> \<and> \<bar>sint a\<bar> < \<bar>sint b\<bar> \<and> (sint a < 0) \<noteq> (sint b < 0)")
    case True
    then have "int64_idiv (call_state [TvInteger a, TvInteger b]) = Inr (TvInteger 0)"
      using False cdiv_small [of "sint a" "sint b"] by (auto simp: int64_idiv_def)
    then show ?thesis using True False by auto
  next
    case nice: False
    note fl = cdiv_floor [OF b nice]
    have "int64_idiv (call_state [TvInteger a, TvInteger b]) = Inr (TvInteger (word_of_int (sint a div sint b)))"
      unfolding fl [symmetric] using False by (auto simp: int64_idiv_def Let_def)
    then show ?thesis using nice False by auto
  qed
qed

lemma integer_idiv_floored_witness:
  "int64_idiv (call_state [TvInteger (-7), TvInteger 3]) = Inr (TvInteger (-3))"
  using integer_idiv_floored [of "-7" 3] by (simp add: int64_min_value_def)



text \<open>
  \<^verbatim>\<open>integer.div\<close> and \<^verbatim>\<open>integer.rem\<close> satisfy the division identity without wrap-around,
  and the remainder is smaller in magnitude than the divisor, for every pair on which the division
  is defined.
\<close>

theorem integer_div_rem:
  assumes "b \<noteq> 0" "\<not> (a = int64_min_value \<and> b = -1)"
  shows "\<exists>q r. int64_div (call_state [TvInteger a, TvInteger b]) = Inr (TvInteger q)
    \<and> int64_rem (call_state [TvInteger a, TvInteger b]) = Inr (TvInteger r)
    \<and> sint q * sint b + sint r = sint a \<and> \<bar>sint r\<bar> < \<bar>sint b\<bar>"
proof -
  let ?q = "cdiv (sint a) (sint b)" and ?r = "crem (sint a) (sint b)"
  have "int64_div (call_state [TvInteger a, TvInteger b]) = Inr (TvInteger (word_of_int ?q))"
    "int64_rem (call_state [TvInteger a, TvInteger b]) = Inr (TvInteger (word_of_int ?r))"
    using assms by (auto simp: int64_div_def int64_rem_def)
  moreover have "sint (word_of_int ?q :: u64) = ?q" "sint (word_of_int ?r :: u64) = ?r"
    by (rule sint_of_int64, rule cdiv_in_int64 [OF assms]) (rule sint_of_int64, rule crem_in_int64 [OF assms(1)])
  moreover have "\<bar>?r\<bar> < \<bar>sint b\<bar>" using assms(1) by (intro crem_bound) simp
  ultimately show ?thesis using cdiv_crem [of "sint a" "sint b"] by (metis (no_types))
qed


lemma integer_div_rem_witness:
  "\<exists>q r. int64_div (call_state [TvInteger (-7), TvInteger 2]) = Inr (TvInteger q)
    \<and> int64_rem (call_state [TvInteger (-7), TvInteger 2]) = Inr (TvInteger r)
    \<and> sint q * 2 + sint r = -7 \<and> \<bar>sint r\<bar> < 2"
  using integer_div_rem [of 2 "-7"] by (simp add: int64_min_value_def)

lemma decimal_digits: "c \<in> set (decimal n) \<Longrightarrow> \<exists>d < 10. c = digit_char d"
proof (induction n rule: decimal.induct)
  case (1 n)
  then show ?case by (auto simp: decimal.simps [of n] split: if_splits intro: exI [of _ "n mod 10"])
qed

lemma digit_char_cases:
  assumes "d < 10"
  shows "digit_value (digit_char d) = d" "\<not> isspace (digit_char d)" "digit_char d \<noteq> 0"
    "digit_char d \<noteq> 45" "digit_char d \<noteq> 43"
proof -
  have "d \<in> {0, 1, 2, 3, 4, 5, 6, 7, 8, 9}" using assms by auto
  then show "digit_value (digit_char d) = d" "\<not> isspace (digit_char d)" "digit_char d \<noteq> 0"
    "digit_char d \<noteq> 45" "digit_char d \<noteq> 43"
    by (auto simp: digit_char_def digit_value_def isspace_def)
qed

lemma decimal_value: "digits_value 10 (decimal n) = n"
proof (induction n rule: decimal.induct)
  case (1 n)
  then show ?case
    by (cases "n < 10") (simp_all add: decimal.simps [of n] digits_value_def digit_char_cases)
qed

lemma decimal_shape:
  "decimal n \<noteq> []" "\<not> isspace (hd (decimal n))" "hd (decimal n) \<noteq> 45" "hd (decimal n) \<noteq> 43"
  "takeWhile (\<lambda>c. digit_value c < 10) (decimal n) = decimal n" "0 \<notin> set (decimal n)"
proof -
  show ne: "decimal n \<noteq> []" using decimal_length_pos [of n] by auto
  obtain d where "d < 10" "hd (decimal n) = digit_char d" using decimal_digits [OF hd_in_set [OF ne]] by blast
  then show "\<not> isspace (hd (decimal n))" "hd (decimal n) \<noteq> 45" "hd (decimal n) \<noteq> 43"
    by (simp_all add: digit_char_cases)
  show "takeWhile (\<lambda>c. digit_value c < 10) (decimal n) = decimal n"
    by (auto simp: takeWhile_eq_all_conv digit_char_cases dest: decimal_digits)
  show "0 \<notin> set (decimal n)"
    using decimal_digits [of 0 n] digit_char_cases(3) by metis
qed

lemma strto_subject_signed_decimal:
  "strto_subject (signed_decimal n) 10 = Some (n < 0, nat \<bar>n\<bar>, length (signed_decimal n))"
proof (cases "n < 0")
  case True
  have "\<not> isspace 45" by (simp add: isspace_def)
  with True show ?thesis
    by (simp add: strto_subject_def signed_decimal_def decimal_shape decimal_value)
next
  case False
  have "takeWhile isspace (decimal (nat n)) = []"
    using decimal_shape(1,2) [of "nat n"] by (cases "decimal (nat n)") auto
  with False show ?thesis
    by (simp add: strto_subject_def signed_decimal_def decimal_shape decimal_value Let_def)
qed

lemma str2l_signed_decimal:
  fixes l :: u64
  shows "luaO_str2l (signed_decimal (sint l)) 10 = Some l"
proof -
  have r: "- (2 ^ 63) \<le> sint l" "sint l < 2 ^ 63" using in_int64_sint [of l] by (simp_all add: in_int64_def)
  have "strtoll (signed_decimal (sint l)) 10 = (l, length (signed_decimal (sint l)))"
  proof (cases "sint l < 0")
    case True
    show ?thesis
    proof (cases "sint l = - (2 ^ 63)")
      case eq: True
      then have "l = word_of_int (- (2 ^ 63))" using word_of_sint [of l] by (simp only:)
      with eq show ?thesis by (simp add: strtoll_def strto_subject_signed_decimal)
    next
      case False
      have "- (word_of_nat (nat \<bar>sint l\<bar>) :: u64) = word_of_int (sint l)" using True by simp
      moreover have "\<not> 2 ^ 63 \<le> nat \<bar>sint l\<bar>" using True False r by simp
      ultimately show ?thesis using True by (simp add: strtoll_def strto_subject_signed_decimal)
    qed
  next
    case False
    moreover from this have "\<not> 2 ^ 63 \<le> nat \<bar>sint l\<bar>" using r by simp
    ultimately show ?thesis by (simp add: strtoll_def strto_subject_signed_decimal)
  qed
  moreover have "length (signed_decimal (sint l)) \<noteq> 0"
    by (simp add: signed_decimal_def decimal_shape)
  ultimately show ?thesis by (simp add: luaO_str2l_def char_at_def only_space_left_def)
qed

lemma c_string_signed_decimal: "c_string (signed_decimal n) = signed_decimal n"
  by (auto simp: c_string_def takeWhile_eq_all_conv signed_decimal_def decimal_shape)

text \<open>
  C24: the decimal string the VM prints for a 64-bit integer is parsed back to the same integer by
  \<^verbatim>\<open>integer.fromstring\<close>, for all integers.
\<close>

theorem fromstring_int2str:
  assumes "30 \<le> length buf"
  shows "\<exists>s. luai_int2str buf l = Some s \<and> int64_fromstring (call_state [TvString s]) = Inr (TvInteger l)"
proof -
  have "int64_fromstring (call_state [TvString (signed_decimal (sint l))]) = Inr (TvInteger l)"
    by (simp add: int64_fromstring_def luaL_checklstring_def lua_tolstring_def index2addr_call
        luaL_optinteger_def lua_isnoneornil_def lua_type_def luaL_argcheck_def c_string_signed_decimal
        str2l_signed_decimal)
  then show ?thesis
    using luai_int2str_decimal [OF assms, of l] by blast
qed

lemma fromstring_int2str_witness:
  "\<exists>s. luai_int2str (replicate 30 0) int64_min_value = Some s
     \<and> int64_fromstring (call_state [TvString s]) = Inr (TvInteger int64_min_value)"
  using fromstring_int2str [of "replicate 30 0" int64_min_value] by simp

lemma bit_mask64: "0 < w \<Longrightarrow> w \<le> 64 \<Longrightarrow> bit (mask64 w) i \<longleftrightarrow> i < nat w"
  by (auto simp: mask64_def bit_drop_bit_eq bit_minus_1_iff possible_bit_def bit_mask_iff)

lemma field64_valid: "0 \<le> f \<Longrightarrow> 0 < w \<Longrightarrow> f + w \<le> 64 \<Longrightarrow> field64 a f w = Inr ()"
  by (simp add: field64_def luaL_argcheck_def in_int64_def)

text \<open>
  for every field inside the word, \<^verbatim>\<open>integer.replace\<close> followed by \<^verbatim>\<open>integer.extract\<close> of
  the same field returns the written value cut to the width, and every other bit is kept.
\<close>

theorem integer_replace_extract:
  fixes f w :: u64
  assumes "0 \<le> sint f" "0 < sint w" "sint f + sint w \<le> 64"
  shows "\<exists>x. int64_replace (call_state [TvInteger n, TvInteger r, TvInteger f, TvInteger w]) = Inr (TvInteger x)
    \<and> int64_extract (call_state [TvInteger x, TvInteger f, TvInteger w]) = Inr (TvInteger (r AND mask64 (sint w)))
    \<and> (\<forall>i < 64. i < nat (sint f) \<or> nat (sint f + sint w) \<le> i \<longrightarrow> bit x i = bit n i)"
proof -
  define x where "x = (n AND ((-1) XOR push_bit (nat (sint f)) (mask64 (sint w))))
    OR push_bit (nat (sint f)) (r AND mask64 (sint w))"
  have w: "bit (mask64 (sint w)) i \<longleftrightarrow> i < nat (sint w)" for i using assms by (intro bit_mask64) auto
  have fw: "nat (sint f) + nat (sint w) \<le> 64" "nat (sint f + sint w) = nat (sint f) + nat (sint w)"
    using assms by linarith+
  have rd: "drop_bit (nat (sint f)) x AND mask64 (sint w) = r AND mask64 (sint w)"
    by (rule bit_word_eqI)
      (use fw in \<open>auto simp: x_def w bit_and_iff bit_or_iff bit_xor_iff bit_push_bit_iff bit_drop_bit_eq
        bit_minus_1_iff bit_not_iff possible_bit_def\<close>)
  have keep: "bit x i = bit n i" if "i < 64" "i < nat (sint f) \<or> nat (sint f + sint w) \<le> i" for i
    using that fw by (auto simp: x_def w bit_and_iff bit_or_iff bit_xor_iff bit_push_bit_iff bit_minus_1_iff
        bit_not_iff possible_bit_def)
  have "int64_replace (call_state [TvInteger n, TvInteger r, TvInteger f, TvInteger w]) = Inr (TvInteger x)"
    using assms by (simp add: int64_replace_def luaL_checkinteger64_int index2addr_call luaL_optinteger64_def
        lua_isnoneornil_def lua_type_def field64_valid x_def mask64_def Let_def)
  moreover have "int64_extract (call_state [TvInteger x, TvInteger f, TvInteger w])
      = Inr (TvInteger (r AND mask64 (sint w)))"
    using assms rd by (simp add: int64_extract_def luaL_checkinteger64_int index2addr_call luaL_optinteger64_def
        lua_isnoneornil_def lua_type_def field64_valid Let_def)
  ultimately show ?thesis using keep by blast
qed

lemma integer_replace_extract_witness:
  "\<exists>x. int64_replace (call_state [TvInteger 0, TvInteger 0x1ff, TvInteger 60, TvInteger 4]) = Inr (TvInteger x)
    \<and> int64_extract (call_state [TvInteger x, TvInteger 60, TvInteger 4])
        = Inr (TvInteger (0x1ff AND mask64 4))"
  using integer_replace_extract [of 60 4 0 "0x1ff"] by auto

text \<open>The field check of \<^verbatim>\<open>integer.extract\<close> adds before it compares, like that of \<^verbatim>\<open>bit32\<close>.\<close>

lemma integer_extract_overflow:
  "int64_extract (call_state [TvInteger n, TvInteger 63, TvInteger (word_of_int (2 ^ 63 - 1))])
    = Inl (Undefined ''signed overflow of f + w'')"
  by (simp add: int64_extract_def luaL_checkinteger64_int index2addr_call luaL_optinteger64_def
      lua_isnoneornil_def lua_type_def field64_def luaL_argcheck_def in_int64_def Let_def)

end
