(* ===== verification/FastCalls.thy ===== *)
theory FastCalls
  imports IntegerLib
begin

text \<open>
  Builtin fast paths, \<^verbatim>\<open>VM/src/lbuiltins.cpp\<close>, for the \<^verbatim>\<open>bit32\<close> and \<^verbatim>\<open>integer\<close> libraries. The
  interpreter's \<^verbatim>\<open>FASTCALL\<close> instructions call such a function with the arguments of the call;
  it either produces the result or returns -1, and then the ordinary call runs. A fast path is a
  function of the number of results wanted and of the argument list; its result is
  \<open>Some v\<close>, \<open>None\<close> for -1, or \<open>Undefined\<close>.

  The contract is the locale \<open>transparent_call\<close> and, for fast paths that read nothing but their
  arguments, \<open>fastcall\<close>: a value that the fast path produces is the value of the library function. Every fast path of the two libraries is an instance, so the dispatch of
  the interpreter is transparent (\<open>fastcall_transparent\<close>).
\<close>

section \<open>Shapes\<close>

text \<open>The guards at the head of the fast paths.\<close>

definition fast_num1 :: "int \<Rightarrow> TValue list \<Rightarrow> (double \<Rightarrow> TValue option res) \<Rightarrow> TValue option res" where
  "fast_num1 nresults args k =
     (if 1 \<le> length args \<and> nresults \<le> 1 \<and> ttisnumber (args ! 0) then k (nvalue (args ! 0)) else Inr None)"

definition fast_num2 :: "int \<Rightarrow> TValue list \<Rightarrow> (double \<Rightarrow> double \<Rightarrow> TValue option res) \<Rightarrow> TValue option res" where
  "fast_num2 nresults args k =
     (if 2 \<le> length args \<and> nresults \<le> 1 \<and> ttisnumber (args ! 0) \<and> ttisnumber (args ! 1)
      then k (nvalue (args ! 0)) (nvalue (args ! 1)) else Inr None)"

definition fast_int1 :: "int \<Rightarrow> TValue list \<Rightarrow> (u64 \<Rightarrow> TValue option res) \<Rightarrow> TValue option res" where
  "fast_int1 nresults args k =
     (if 1 \<le> length args \<and> nresults \<le> 1 \<and> ttisinteger (args ! 0) then k (lvalue (args ! 0)) else Inr None)"

definition fast_int2 :: "int \<Rightarrow> TValue list \<Rightarrow> (u64 \<Rightarrow> u64 \<Rightarrow> TValue option res) \<Rightarrow> TValue option res" where
  "fast_int2 nresults args k =
     (if 2 \<le> length args \<and> nresults \<le> 1 \<and> ttisinteger (args ! 0) \<and> ttisinteger (args ! 1)
      then k (lvalue (args ! 0)) (lvalue (args ! 1)) else Inr None)"

text \<open>The loops over further arguments, which give up at the first one of another type.\<close>

fun fast_fold_num :: "(u32 \<Rightarrow> u32 \<Rightarrow> u32) \<Rightarrow> u32 \<Rightarrow> TValue list \<Rightarrow> u32 option res" where
  "fast_fold_num f r [] = Inr (Some r)"
| "fast_fold_num f r (a # rest) =
     (if ttisnumber a then bindE (luai_num2unsigned (nvalue a)) (\<lambda>u. fast_fold_num f (f r u) rest)
      else Inr None)"

fun fast_fold_int :: "(u64 \<Rightarrow> u64 \<Rightarrow> u64) \<Rightarrow> u64 \<Rightarrow> TValue list \<Rightarrow> u64 option" where
  "fast_fold_int f r [] = Some r"
| "fast_fold_int f r (a # rest) =
     (if ttisinteger a then fast_fold_int f (f r (lvalue a)) rest else None)"

definition fast_bitop :: "(u32 \<Rightarrow> u32 \<Rightarrow> u32) \<Rightarrow> (u32 \<Rightarrow> TValue) \<Rightarrow> int \<Rightarrow> TValue list \<Rightarrow> TValue option res" where
  "fast_bitop f push nresults args = fast_num2 nresults args (\<lambda>a1 a2.
     bindE (luai_num2unsigned a1) (\<lambda>u1.
     bindE (luai_num2unsigned a2) (\<lambda>u2.
     bindE (fast_fold_num f (f u1 u2) (drop 2 args)) (\<lambda>r. Inr (map_option push r)))))"


section \<open>bit32\<close>

definition luauF_band :: "int \<Rightarrow> TValue list \<Rightarrow> TValue option res" where
  "luauF_band nresults args = fast_bitop (AND) lua_pushunsigned nresults args"

definition luauF_bor :: "int \<Rightarrow> TValue list \<Rightarrow> TValue option res" where
  "luauF_bor nresults args = fast_bitop (OR) lua_pushunsigned nresults args"

definition luauF_bxor :: "int \<Rightarrow> TValue list \<Rightarrow> TValue option res" where
  "luauF_bxor nresults args = fast_bitop (XOR) lua_pushunsigned nresults args"

definition luauF_btest :: "int \<Rightarrow> TValue list \<Rightarrow> TValue option res" where
  "luauF_btest nresults args = fast_bitop (AND) (\<lambda>r. TvBoolean (r \<noteq> 0)) nresults args"

definition luauF_bnot :: "int \<Rightarrow> TValue list \<Rightarrow> TValue option res" where
  "luauF_bnot nresults args = fast_num1 nresults args (\<lambda>a1.
     bindE (luai_num2unsigned a1) (\<lambda>u. Inr (Some (lua_pushunsigned (NOT u)))))"

definition luauF_arshift :: "int \<Rightarrow> TValue list \<Rightarrow> TValue option res" where
  "luauF_arshift nresults args = fast_num2 nresults args (\<lambda>a1 a2.
     bindE (luai_num2unsigned a1) (\<lambda>u.
     bindE (luai_num2int a2) (\<lambda>s.
       if (word_of_int s :: u32) < 32 then Inr (Some (lua_pushunsigned (signed_drop_bit (nat s) u))) else Inr None)))"

definition luauF_lshift :: "int \<Rightarrow> TValue list \<Rightarrow> TValue option res" where
  "luauF_lshift nresults args = fast_num2 nresults args (\<lambda>a1 a2.
     bindE (luai_num2unsigned a1) (\<lambda>u.
     bindE (luai_num2int a2) (\<lambda>s.
       if (word_of_int s :: u32) < 32 then Inr (Some (lua_pushunsigned (push_bit (nat s) u))) else Inr None)))"

definition luauF_rshift :: "int \<Rightarrow> TValue list \<Rightarrow> TValue option res" where
  "luauF_rshift nresults args = fast_num2 nresults args (\<lambda>a1 a2.
     bindE (luai_num2unsigned a1) (\<lambda>u.
     bindE (luai_num2int a2) (\<lambda>s.
       if (word_of_int s :: u32) < 32 then Inr (Some (lua_pushunsigned (drop_bit (nat s) u))) else Inr None)))"

definition luauF_lrotate :: "int \<Rightarrow> TValue list \<Rightarrow> TValue option res" where
  "luauF_lrotate nresults args = fast_num2 nresults args (\<lambda>a1 a2.
     bindE (luai_num2unsigned a1) (\<lambda>u.
     bindE (luai_num2int a2) (\<lambda>s.
       if \<not> in_int32 (32 - s) then Inl (Undefined ''signed overflow of 32 - s'')
       else Inr (Some (lua_pushunsigned
              (push_bit (nat (s mod 32)) u OR drop_bit (nat ((32 - s) mod 32)) u))))))"

definition luauF_rrotate :: "int \<Rightarrow> TValue list \<Rightarrow> TValue option res" where
  "luauF_rrotate nresults args = fast_num2 nresults args (\<lambda>a1 a2.
     bindE (luai_num2unsigned a1) (\<lambda>u.
     bindE (luai_num2int a2) (\<lambda>s.
       if \<not> in_int32 (32 - s) then Inl (Undefined ''signed overflow of 32 - s'')
       else Inr (Some (lua_pushunsigned
              (drop_bit (nat (s mod 32)) u OR push_bit (nat ((32 - s) mod 32)) u))))))"

definition luauF_extract :: "int \<Rightarrow> TValue list \<Rightarrow> TValue option res" where
  "luauF_extract nresults args = fast_num2 nresults args (\<lambda>a1 a2.
     bindE (luai_num2unsigned a1) (\<lambda>n.
     bindE (luai_num2int a2) (\<lambda>f.
       if length args = 2
       then if (word_of_int f :: u32) < 32
            then Inr (Some (lua_pushunsigned (drop_bit (nat f) n AND 1))) else Inr None
       else if ttisnumber (args ! 2)
       then bindE (luai_num2int (nvalue (args ! 2))) (\<lambda>w.
              if 0 \<le> f \<and> 0 < w
              then if \<not> in_int32 (f + w) then Inl (Undefined ''signed overflow of f + w'')
                   else if f + w \<le> 32
                   then Inr (Some (lua_pushunsigned
                          (drop_bit (nat f) n AND NOT (push_bit (nat (w - 1)) 0xfffffffe))))
                   else Inr None
              else Inr None)
       else Inr None)))"

text \<open>\<^verbatim>\<open>LBF_BIT32_EXTRACTK\<close>: the second argument is a constant of the compiler in which offset and width are packed.
  No library function has this id.\<close>

definition luauF_extractk :: "int \<Rightarrow> TValue list \<Rightarrow> TValue option res" where
  "luauF_extractk nresults args =
     (if 2 \<le> length args \<and> nresults \<le> 1 \<and> ttisnumber (args ! 0)
      then
        bindE (luai_num2unsigned (nvalue (args ! 0))) (\<lambda>n.
        bindE (luai_num2int (nvalue (args ! 1))) (\<lambda>fw.
          let f = fw mod 32; w1 = fw div 32
          in if w1 < 0 \<or> 32 \<le> w1 then Inl (Undefined ''shift by w1'')
             else Inr (Some (lua_pushunsigned (drop_bit (nat f) n AND NOT (push_bit (nat w1) 0xfffffffe))))))
      else Inr None)"

definition luauF_replace :: "int \<Rightarrow> TValue list \<Rightarrow> TValue option res" where
  "luauF_replace nresults args =
     (if 3 \<le> length args \<and> nresults \<le> 1 \<and> ttisnumber (args ! 0) \<and> ttisnumber (args ! 1) \<and> ttisnumber (args ! 2)
      then
        bindE (luai_num2unsigned (nvalue (args ! 0))) (\<lambda>n.
        bindE (luai_num2unsigned (nvalue (args ! 1))) (\<lambda>v.
        bindE (luai_num2int (nvalue (args ! 2))) (\<lambda>f.
          if length args = 3
          then if (word_of_int f :: u32) < 32
               then Inr (Some (lua_pushunsigned
                      ((n AND NOT (push_bit (nat f) 1)) OR push_bit (nat f) (v AND 1))))
               else Inr None
          else if ttisnumber (args ! 3)
          then bindE (luai_num2int (nvalue (args ! 3))) (\<lambda>w.
                 if 0 \<le> f \<and> 0 < w
                 then if \<not> in_int32 (f + w) then Inl (Undefined ''signed overflow of f + w'')
                      else if f + w \<le> 32
                      then let m = NOT (push_bit (nat (w - 1)) 0xfffffffe)
                           in Inr (Some (lua_pushunsigned
                                ((n AND NOT (push_bit (nat f) m)) OR push_bit (nat f) (v AND m))))
                      else Inr None
                 else Inr None)
          else Inr None)))
      else Inr None)"

text \<open>The intrinsics of the counters on a non-zero operand.\<close>

definition builtin_clz :: "u32 \<Rightarrow> nat" where
  "builtin_clz n = first_set (\<lambda>i. bit n (31 - i)) 0 32"

definition builtin_ctz :: "u32 \<Rightarrow> nat" where
  "builtin_ctz n = first_set (bit n) 0 32"

definition luauF_countlz :: "int \<Rightarrow> TValue list \<Rightarrow> TValue option res" where
  "luauF_countlz nresults args = fast_num1 nresults args (\<lambda>a1.
     bindE (luai_num2unsigned a1) (\<lambda>n. Inr (Some (lua_pushinteger (if n = 0 then 32 else int (builtin_clz n))))))"

definition luauF_countrz :: "int \<Rightarrow> TValue list \<Rightarrow> TValue option res" where
  "luauF_countrz nresults args = fast_num1 nresults args (\<lambda>a1.
     bindE (luai_num2unsigned a1) (\<lambda>n. Inr (Some (lua_pushinteger (if n = 0 then 32 else int (builtin_ctz n))))))"

definition luauF_byteswap :: "int \<Rightarrow> TValue list \<Rightarrow> TValue option res" where
  "luauF_byteswap nresults args = fast_num1 nresults args (\<lambda>a1.
     bindE (luai_num2unsigned a1) (\<lambda>n. Inr (Some (lua_pushunsigned
     (push_bit 24 n OR (push_bit 8 n AND 0xff0000) OR (drop_bit 8 n AND 0xff00) OR drop_bit 24 n)))))"


section \<open>integer\<close>

definition luauF_integeradd :: "int \<Rightarrow> TValue list \<Rightarrow> TValue option res" where
  "luauF_integeradd nresults args = fast_int2 nresults args (\<lambda>a b.
     Inr (Some (TvInteger (a + b))))"

definition luauF_integersub :: "int \<Rightarrow> TValue list \<Rightarrow> TValue option res" where
  "luauF_integersub nresults args = fast_int2 nresults args (\<lambda>a b.
     Inr (Some (TvInteger (a - b))))"

definition luauF_integermul :: "int \<Rightarrow> TValue list \<Rightarrow> TValue option res" where
  "luauF_integermul nresults args = fast_int2 nresults args (\<lambda>a b.
     Inr (Some (TvInteger (a * b))))"

definition luauF_integerdiv :: "int \<Rightarrow> TValue list \<Rightarrow> TValue option res" where
  "luauF_integerdiv nresults args = fast_int2 nresults args (\<lambda>a b.
     if b = 0 \<or> (a = int64_min_value \<and> b = -1) then Inr None
     else Inr (Some (TvInteger (word_of_int (cdiv (sint a) (sint b))))))"

definition luauF_integerudiv :: "int \<Rightarrow> TValue list \<Rightarrow> TValue option res" where
  "luauF_integerudiv nresults args = fast_int2 nresults args (\<lambda>a b.
     if b = 0 then Inr None else Inr (Some (TvInteger (a div b))))"

definition luauF_integerurem :: "int \<Rightarrow> TValue list \<Rightarrow> TValue option res" where
  "luauF_integerurem nresults args = fast_int2 nresults args (\<lambda>a b.
     if b = 0 then Inr None else Inr (Some (TvInteger (a mod b))))"

definition luauF_integerrem :: "int \<Rightarrow> TValue list \<Rightarrow> TValue option res" where
  "luauF_integerrem nresults args = fast_int2 nresults args (\<lambda>a b.
     if b = 0 then Inr None
     else Inr (Some (TvInteger (if a = int64_min_value \<and> b = -1 then 0 else word_of_int (crem (sint a) (sint b))))))"

definition luauF_integermod :: "int \<Rightarrow> TValue list \<Rightarrow> TValue option res" where
  "luauF_integermod nresults args = fast_int2 nresults args (\<lambda>a b.
     if b = 0 then Inr None
     else if a = int64_min_value \<and> b = -1 then Inr (Some (TvInteger 0))
     else let remainder = crem (sint a) (sint b);
              remainder = (if remainder \<noteq> 0 \<and> (sint a < 0) \<noteq> (sint b < 0) then remainder + sint b else remainder)
          in Inr (Some (TvInteger (word_of_int remainder))))"

definition luauF_integeridiv :: "int \<Rightarrow> TValue list \<Rightarrow> TValue option res" where
  "luauF_integeridiv nresults args = fast_int2 nresults args (\<lambda>a b.
     if b = 0 then Inr None
     else if a = int64_min_value \<and> b = -1 then Inr None
     else let result = cdiv (sint a) (sint b) in
          if result < 0 \<and> crem (sint a) (sint b) \<noteq> 0 then Inr (Some (TvInteger (word_of_int (result - 1))))
          else Inr (Some (TvInteger (word_of_int result))))"

definition luauF_integerlt :: "int \<Rightarrow> TValue list \<Rightarrow> TValue option res" where
  "luauF_integerlt nresults args = fast_int2 nresults args (\<lambda>a b.
     Inr (Some (TvBoolean (sint a < sint b))))"

definition luauF_integerle :: "int \<Rightarrow> TValue list \<Rightarrow> TValue option res" where
  "luauF_integerle nresults args = fast_int2 nresults args (\<lambda>a b.
     Inr (Some (TvBoolean (sint a \<le> sint b))))"

definition luauF_integergt :: "int \<Rightarrow> TValue list \<Rightarrow> TValue option res" where
  "luauF_integergt nresults args = fast_int2 nresults args (\<lambda>a b.
     Inr (Some (TvBoolean (sint b < sint a))))"

definition luauF_integerge :: "int \<Rightarrow> TValue list \<Rightarrow> TValue option res" where
  "luauF_integerge nresults args = fast_int2 nresults args (\<lambda>a b.
     Inr (Some (TvBoolean (sint b \<le> sint a))))"

definition luauF_integerult :: "int \<Rightarrow> TValue list \<Rightarrow> TValue option res" where
  "luauF_integerult nresults args = fast_int2 nresults args (\<lambda>a b.
     Inr (Some (TvBoolean (a < b))))"

definition luauF_integerule :: "int \<Rightarrow> TValue list \<Rightarrow> TValue option res" where
  "luauF_integerule nresults args = fast_int2 nresults args (\<lambda>a b.
     Inr (Some (TvBoolean (a \<le> b))))"

definition luauF_integerugt :: "int \<Rightarrow> TValue list \<Rightarrow> TValue option res" where
  "luauF_integerugt nresults args = fast_int2 nresults args (\<lambda>a b.
     Inr (Some (TvBoolean (b < a))))"

definition luauF_integeruge :: "int \<Rightarrow> TValue list \<Rightarrow> TValue option res" where
  "luauF_integeruge nresults args = fast_int2 nresults args (\<lambda>a b.
     Inr (Some (TvBoolean (b \<le> a))))"

definition luauF_integerlrotate :: "int \<Rightarrow> TValue list \<Rightarrow> TValue option res" where
  "luauF_integerlrotate nresults args = fast_int2 nresults args (\<lambda>a b.
     let s = unat b mod 64 in
     Inr (Some (TvInteger (if s \<noteq> 0 then push_bit s a OR drop_bit (64 - s) a else a))))"

definition luauF_integerrrotate :: "int \<Rightarrow> TValue list \<Rightarrow> TValue option res" where
  "luauF_integerrrotate nresults args = fast_int2 nresults args (\<lambda>a b.
     let s = unat b mod 64 in
     Inr (Some (TvInteger (if s \<noteq> 0 then drop_bit s a OR push_bit (64 - s) a else a))))"

definition luauF_integerlshift :: "int \<Rightarrow> TValue list \<Rightarrow> TValue option res" where
  "luauF_integerlshift nresults args = fast_int2 nresults args (\<lambda>a b.
     let i = sint b in Inr (Some (TvInteger
       (if -63 \<le> i \<and> i \<le> 63 then (if i < 0 then drop_bit (nat (- i)) a else push_bit (nat i) a) else 0))))"

definition luauF_integerrshift :: "int \<Rightarrow> TValue list \<Rightarrow> TValue option res" where
  "luauF_integerrshift nresults args = fast_int2 nresults args (\<lambda>a b.
     let i = sint b in Inr (Some (TvInteger
       (if -63 \<le> i \<and> i \<le> 63 then (if i < 0 then push_bit (nat (- i)) a else drop_bit (nat i) a) else 0))))"

definition luauF_integerarshift :: "int \<Rightarrow> TValue list \<Rightarrow> TValue option res" where
  "luauF_integerarshift nresults args = fast_int2 nresults args (\<lambda>a b.
     let i = sint b in
     if -63 \<le> i \<and> i \<le> 63
     then Inr (Some (TvInteger (if i < 0 then push_bit (nat (- i)) a else signed_drop_bit (nat i) a)))
     else if i < -63 then Inr (Some (TvInteger 0))
     else Inr (Some (TvInteger (if sint a < 0 then -1 else 0))))"

definition luauF_integertonumber :: "int \<Rightarrow> TValue list \<Rightarrow> TValue option res" where
  "luauF_integertonumber nresults args = fast_int1 nresults args (\<lambda>a.
     Inr (Some (TvNumber (dbl_of_int (sint a)))))"

definition luauF_integerneg :: "int \<Rightarrow> TValue list \<Rightarrow> TValue option res" where
  "luauF_integerneg nresults args = fast_int1 nresults args (\<lambda>a.
     Inr (Some (TvInteger (NOT a + 1))))"

definition luauF_integerbnot :: "int \<Rightarrow> TValue list \<Rightarrow> TValue option res" where
  "luauF_integerbnot nresults args = fast_int1 nresults args (\<lambda>a.
     Inr (Some (TvInteger (NOT a))))"

definition luauF_integerbswap :: "int \<Rightarrow> TValue list \<Rightarrow> TValue option res" where
  "luauF_integerbswap nresults args = fast_int1 nresults args (\<lambda>a.
     Inr (Some (TvInteger (bswap64 a))))"

definition luauF_integercountlz :: "int \<Rightarrow> TValue list \<Rightarrow> TValue option res" where
  "luauF_integercountlz nresults args = fast_int1 nresults args (\<lambda>a.
     Inr (Some (TvInteger (if a = 0 then 64 else word_of_nat (builtin_clzll a)))))"

definition luauF_integercountrz :: "int \<Rightarrow> TValue list \<Rightarrow> TValue option res" where
  "luauF_integercountrz nresults args = fast_int1 nresults args (\<lambda>a.
     Inr (Some (TvInteger (if a = 0 then 64 else word_of_nat (builtin_ctzll a)))))"

definition luauF_integerband :: "int \<Rightarrow> TValue list \<Rightarrow> TValue option res" where
  "luauF_integerband nresults args = fast_int1 nresults args (\<lambda>r.
     Inr (map_option TvInteger (fast_fold_int (AND) r (drop 1 args))))"

definition luauF_integerbor :: "int \<Rightarrow> TValue list \<Rightarrow> TValue option res" where
  "luauF_integerbor nresults args = fast_int1 nresults args (\<lambda>r.
     Inr (map_option TvInteger (fast_fold_int (OR) r (drop 1 args))))"

definition luauF_integerbxor :: "int \<Rightarrow> TValue list \<Rightarrow> TValue option res" where
  "luauF_integerbxor nresults args = fast_int1 nresults args (\<lambda>r.
     Inr (map_option TvInteger (fast_fold_int (XOR) r (drop 1 args))))"

definition luauF_integerbtest :: "int \<Rightarrow> TValue list \<Rightarrow> TValue option res" where
  "luauF_integerbtest nresults args = fast_int1 nresults args (\<lambda>r.
     Inr (map_option (\<lambda>r. TvBoolean (r \<noteq> 0)) (fast_fold_int (AND) r (drop 1 args))))"

definition luauF_integermin :: "int \<Rightarrow> TValue list \<Rightarrow> TValue option res" where
  "luauF_integermin nresults args = fast_int2 nresults args (\<lambda>a b.
     Inr (map_option TvInteger (fast_fold_int (\<lambda>r a. if sint a < sint r then a else r)
       (if sint b < sint a then b else a) (drop 2 args))))"

definition luauF_integermax :: "int \<Rightarrow> TValue list \<Rightarrow> TValue option res" where
  "luauF_integermax nresults args = fast_int2 nresults args (\<lambda>a b.
     Inr (map_option TvInteger (fast_fold_int (\<lambda>r a. if sint r < sint a then a else r)
       (if sint b < sint a then a else b) (drop 2 args))))"

text \<open>The field test of \<open>luauF_integerextract\<close>; the width is bounded before the sum is formed.\<close>

definition integerextract_field :: "u64 \<Rightarrow> int \<Rightarrow> int \<Rightarrow> TValue option res" where
  "integerextract_field n f w =
     (if f < 0 \<or> 63 < f \<or> w < 1 \<or> 64 < w \<or> 64 < f + w then Inr None
      else Inr (Some (TvInteger (drop_bit (nat f) n AND drop_bit (nat (64 - w)) (-1)))))"

definition luauF_integerextract :: "int \<Rightarrow> TValue list \<Rightarrow> TValue option res" where
  "luauF_integerextract nresults args =
     (if 2 \<le> length args \<and> nresults \<le> 1 \<and> ttisinteger (args ! 0) \<and> ttisinteger (args ! 1)
       \<and> (length args = 2 \<or> ttisinteger (args ! 2))
      then integerextract_field (lvalue (args ! 0)) (sint (lvalue (args ! 1)))
             (if 2 < length args then sint (lvalue (args ! 2)) else 1)
      else Inr None)"

definition luauF_integerclamp :: "int \<Rightarrow> TValue list \<Rightarrow> TValue option res" where
  "luauF_integerclamp nresults args =
     (if 3 \<le> length args \<and> nresults \<le> 1 \<and> ttisinteger (args ! 0) \<and> ttisinteger (args ! 1) \<and> ttisinteger (args ! 2)
      then let a = lvalue (args ! 0); rmin = lvalue (args ! 1); rmax = lvalue (args ! 2) in
           if sint rmax < sint rmin then Inr None
           else Inr (Some (TvInteger (if sint a < sint rmin then rmin else if sint rmax < sint a then rmax else a)))
      else Inr None)"

definition luauF_integercreate :: "int \<Rightarrow> TValue list \<Rightarrow> TValue option res" where
  "luauF_integercreate nresults args = fast_num1 nresults args (\<lambda>a1.
     if dbl_le (dbl_of_int (- (2 ^ 63))) a1 \<and> dbl_lt a1 (dbl_of_int (2 ^ 63))
     then bindE (luai_num2long a1) (\<lambda>x.
            if dbl_eq (dbl_of_int x) a1 then Inr (Some (TvInteger (word_of_int x)))
            else Inr (Some TvNil))
     else Inr (Some TvNil))"


section \<open>Dispatch\<close>

text \<open>
  The builtins of the two libraries by their ids (\<^verbatim>\<open>LuauBuiltinFunction\<close> in
  \<^verbatim>\<open>Common/include/Luau/Bytecode.h\<close>): the entries of \<^verbatim>\<open>luauF_table\<close>, and the library functions that
  the compiler replaces by these ids.
\<close>

definition luauF_table :: "nat \<Rightarrow> (int \<Rightarrow> TValue list \<Rightarrow> TValue option res) option" where
  "luauF_table = map_of
     [(28, luauF_arshift),
      (29, luauF_band),
      (30, luauF_bnot),
      (31, luauF_bor),
      (32, luauF_bxor),
      (33, luauF_btest),
      (34, luauF_extract),
      (35, luauF_lrotate),
      (36, luauF_lshift),
      (37, luauF_replace),
      (38, luauF_rrotate),
      (39, luauF_rshift),
      (55, luauF_countlz),
      (56, luauF_countrz),
      (59, luauF_extractk),
      (64, luauF_byteswap),
      (94, luauF_integercreate),
      (95, luauF_integertonumber),
      (96, luauF_integerneg),
      (97, luauF_integeradd),
      (98, luauF_integersub),
      (99, luauF_integermul),
      (100, luauF_integerdiv),
      (101, luauF_integermin),
      (102, luauF_integermax),
      (103, luauF_integerrem),
      (104, luauF_integeridiv),
      (105, luauF_integerudiv),
      (106, luauF_integerurem),
      (107, luauF_integermod),
      (108, luauF_integerclamp),
      (109, luauF_integerband),
      (110, luauF_integerbor),
      (111, luauF_integerbnot),
      (112, luauF_integerbxor),
      (113, luauF_integerlt),
      (114, luauF_integerle),
      (115, luauF_integerult),
      (116, luauF_integerule),
      (117, luauF_integergt),
      (118, luauF_integerge),
      (119, luauF_integerugt),
      (120, luauF_integeruge),
      (121, luauF_integerlshift),
      (122, luauF_integerrshift),
      (123, luauF_integerarshift),
      (124, luauF_integerlrotate),
      (125, luauF_integerrrotate),
      (126, luauF_integerextract),
      (127, luauF_integerbtest),
      (128, luauF_integercountrz),
      (129, luauF_integercountlz),
      (130, luauF_integerbswap)]"

text \<open>The ids by which the compiler replaces the functions of each library, with the functions registered under these names.\<close>

definition bit32_functions :: "(nat \<times> (lua_State \<Rightarrow> TValue res)) list" where
  "bit32_functions =
     [(28, b_arshift),
      (29, b_and),
      (30, b_not),
      (31, b_or),
      (32, b_xor),
      (33, b_test),
      (34, b_extract),
      (35, b_lrot),
      (36, b_lshift),
      (37, b_replace),
      (38, b_rrot),
      (39, b_rshift),
      (55, b_countlz),
      (56, b_countrz),
      (64, b_swap)]"

definition integer_functions :: "(nat \<times> (lua_State \<Rightarrow> TValue res)) list" where
  "integer_functions =
     [(94, int64_create),
      (95, int64_tonumber),
      (96, int64_neg),
      (97, int64_add),
      (98, int64_sub),
      (99, int64_mul),
      (100, int64_div),
      (101, int64_min),
      (102, int64_max),
      (103, int64_rem),
      (104, int64_idiv),
      (105, int64_udiv),
      (106, int64_urem),
      (107, int64_mod),
      (108, int64_clamp),
      (109, int64_band),
      (110, int64_bor),
      (111, int64_bnot),
      (112, int64_bxor),
      (113, int64_lt),
      (114, int64_le),
      (115, int64_ult),
      (116, int64_ule),
      (117, int64_gt),
      (118, int64_ge),
      (119, int64_ugt),
      (120, int64_uge),
      (121, int64_lshift),
      (122, int64_rshift),
      (123, int64_arshift),
      (124, int64_lrotate),
      (125, int64_rrotate),
      (126, int64_extract),
      (127, int64_btest),
      (128, int64_countrz),
      (129, int64_countlz),
      (130, int64_bswap)]"

definition library_function :: "nat \<Rightarrow> (lua_State \<Rightarrow> TValue res) option" where
  "library_function = map_of (bit32_functions @ integer_functions)"

lemmas library_functions = library_function_def bit32_functions_def integer_functions_def

text \<open>
  \<^verbatim>\<open>LOP_FASTCALL\<close>: the fast path runs when the environment is marked safe; when it
  returns -1 the code that follows the instruction performs the call.
\<close>

definition exec_fastcall ::
    "(int \<Rightarrow> lua_State \<Rightarrow> 'v option res) \<Rightarrow> (lua_State \<Rightarrow> 'v res) \<Rightarrow> bool \<Rightarrow> int \<Rightarrow> lua_State \<Rightarrow> 'v res" where
  "exec_fastcall f fallback safeenv nresults L =
     (if safeenv
      then bindE (f nresults L) (\<lambda>n. case n of Some v \<Rightarrow> Inr v | None \<Rightarrow> fallback L)
      else fallback L)"


section \<open>Arguments in their slots\<close>

text \<open>What a checker returns on a slot whose tag the fast path has tested.\<close>

named_theorems slot_simps \<open>argument checkers on tested slots\<close>

lemma index2addr_Suc: "i < length (base L) \<Longrightarrow> index2addr L (Suc i) = Some (base L ! i)"
  by (simp add: index2addr_def)

lemma checkunsigned_slot:
  "i < length (base L) \<Longrightarrow> ttisnumber (base L ! i) \<Longrightarrow> luaL_checkunsigned L (Suc i) = luai_num2unsigned (nvalue (base L ! i))"
  by (cases "base L ! i"; cases "luai_num2unsigned (nvalue (base L ! i))")
    (simp_all add: index2addr_Suc ttisnumber_def luaL_checkunsigned_def lua_tounsignedx_def lua_tonumberx_def luaV_tonumber_def)

lemma checkinteger_slot:
  "i < length (base L) \<Longrightarrow> ttisnumber (base L ! i) \<Longrightarrow> luaL_checkinteger L (Suc i) = luai_num2int (nvalue (base L ! i))"
  by (cases "base L ! i"; cases "luai_num2int (nvalue (base L ! i))")
    (simp_all add: index2addr_Suc ttisnumber_def luaL_checkinteger_def lua_tointegerx_def lua_tonumberx_def luaV_tonumber_def)

lemma checknumber_slot:
  "i < length (base L) \<Longrightarrow> ttisnumber (base L ! i) \<Longrightarrow> luaL_checknumber L (Suc i) = Inr (nvalue (base L ! i))"
  by (cases "base L ! i")
    (simp_all add: index2addr_Suc ttisnumber_def luaL_checknumber_def lua_tonumberx_def luaV_tonumber_def)

lemma checkinteger64_slot:
  "i < length (base L) \<Longrightarrow> ttisinteger (base L ! i) \<Longrightarrow> luaL_checkinteger64 L (Suc i) = Inr (lvalue (base L ! i))"
  by (cases "base L ! i") (simp_all add: index2addr_Suc ttisinteger_def luaL_checkinteger64_int)

lemma optinteger_slot:
  "i < length (base L) \<Longrightarrow> ttisnumber (base L ! i) \<Longrightarrow> luaL_optinteger L (Suc i) d = luai_num2int (nvalue (base L ! i))"
  by (simp add: luaL_optinteger_def checkinteger_slot lua_isnoneornil_def lua_type_def index2addr_Suc ttisnumber_def)

lemma optinteger64_slot:
  "i < length (base L) \<Longrightarrow> ttisinteger (base L ! i) \<Longrightarrow> luaL_optinteger64 L (Suc i) d = Inr (lvalue (base L ! i))"
  by (simp add: luaL_optinteger64_def checkinteger64_slot lua_isnoneornil_def lua_type_def index2addr_Suc ttisinteger_def)

lemma opt_missing:
  "length (base L) < i \<Longrightarrow> luaL_optinteger L i d = Inr d"
  "length (base L) < i \<Longrightarrow> luaL_optinteger64 L i l = Inr l"
  by (simp_all add: luaL_optinteger_def luaL_optinteger64_def lua_isnoneornil_def lua_type_def index2addr_def)

lemma Suc_slots: "Suc (Suc 0) = 2" "Suc 2 = 3" "Suc 3 = 4"
  by simp_all

lemmas slots [slot_simps] =
  checkunsigned_slot [of 0] checkunsigned_slot [of "Suc 0", unfolded Suc_slots]
  checkinteger_slot [of "Suc 0", unfolded Suc_slots] checkinteger_slot [of 2, unfolded Suc_slots]
  optinteger_slot [of 2, unfolded Suc_slots] optinteger_slot [of 3, unfolded Suc_slots]
  checknumber_slot [of 0]
  checkinteger64_slot [of 0] checkinteger64_slot [of "Suc 0", unfolded Suc_slots]
  checkinteger64_slot [of 2, unfolded Suc_slots] optinteger64_slot [of 2, unfolded Suc_slots]
  opt_missing

text \<open>A fast path that produced a value has passed its guard.\<close>

lemma fast_num1_Some:
  assumes "fast_num1 nr args k = Inr (Some v)"
  obtains "0 < length args" "ttisnumber (args ! 0)" "k (nvalue (args ! 0)) = Inr (Some v)"
  using assms by (auto simp: fast_num1_def Suc_le_eq split: if_splits)

lemma fast_num2_Some:
  assumes "fast_num2 nr args k = Inr (Some v)"
  obtains "0 < length args" "1 < length args" "ttisnumber (args ! 0)" "ttisnumber (args ! 1)"
    "k (nvalue (args ! 0)) (nvalue (args ! 1)) = Inr (Some v)"
  using assms by (fastforce simp: fast_num2_def split: if_splits)

lemma fast_int1_Some:
  assumes "fast_int1 nr args k = Inr (Some v)"
  obtains "0 < length args" "ttisinteger (args ! 0)" "k (lvalue (args ! 0)) = Inr (Some v)"
  using assms by (auto simp: fast_int1_def Suc_le_eq split: if_splits)

lemma fast_int2_Some:
  assumes "fast_int2 nr args k = Inr (Some v)"
  obtains "0 < length args" "1 < length args" "ttisinteger (args ! 0)" "ttisinteger (args ! 1)"
    "k (lvalue (args ! 0)) (lvalue (args ! 1)) = Inr (Some v)"
  using assms by (fastforce simp: fast_int2_def split: if_splits)

text \<open>The loops of the fast paths are the loops of the library over the same slots.\<close>

lemma fast_fold_num_slots:
  "fast_fold_num f r (drop n (base L)) = Inr (Some x) \<Longrightarrow>
   foldE (\<lambda>r i. bindE (luaL_checkunsigned L i) (\<lambda>v. Inr (f r v))) r [Suc n..<Suc (lua_gettop L)] = Inr x"
proof (induction "length (base L) - n" arbitrary: n r)
  case 0
  then show ?case by (simp add: lua_gettop_def)
next
  case (Suc k)
  then have n: "n < length (base L)" by simp
  then have d: "drop n (base L) = base L ! n # drop (Suc n) (base L)" by (simp add: Cons_nth_drop_Suc)
  have u: "[Suc n..<Suc (lua_gettop L)] = Suc n # [Suc (Suc n)..<Suc (lua_gettop L)]"
    using n by (simp add: lua_gettop_def upt_conv_Cons del: upt_Suc)
  have k: "k = length (base L) - Suc n" using Suc(2) by simp
  show ?case
    using Suc(1) [OF k] Suc(3) n
    unfolding u d by (auto simp: checkunsigned_slot bindE_Inr_iff split: if_splits)
qed

lemma fast_fold_int_slots:
  "fast_fold_int f r (drop n (base L)) = Some x \<Longrightarrow>
   foldE (\<lambda>r i. bindE (luaL_checkinteger64 L i) (\<lambda>v. Inr (f r v))) r [Suc n..<Suc (lua_gettop L)] = Inr x"
proof (induction "length (base L) - n" arbitrary: n r)
  case 0
  then show ?case by (simp add: lua_gettop_def)
next
  case (Suc k)
  then have n: "n < length (base L)" by simp
  then have d: "drop n (base L) = base L ! n # drop (Suc n) (base L)" by (simp add: Cons_nth_drop_Suc)
  have u: "[Suc n..<Suc (lua_gettop L)] = Suc n # [Suc (Suc n)..<Suc (lua_gettop L)]"
    using n by (simp add: lua_gettop_def upt_conv_Cons del: upt_Suc)
  have k: "k = length (base L) - Suc n" using Suc(2) by simp
  show ?case
    using Suc(1) [OF k] Suc(3) n
    unfolding u d by (auto simp: checkinteger64_slot split: if_splits)
qed

text \<open>The first arguments peeled off the loop of the library.\<close>

lemma arg_indices_1: "0 < length (base L) \<Longrightarrow> arg_indices L = 1 # [Suc 1..<Suc (lua_gettop L)]"
  by (simp add: arg_indices_def lua_gettop_def upt_conv_Cons del: upt_Suc)

lemma arg_indices_2: "1 < length (base L) \<Longrightarrow> arg_indices L = 1 # 2 # [Suc 2..<Suc (lua_gettop L)]"
  using upt_conv_Cons [of 1 "Suc (length (base L))"] upt_conv_Cons [of 2 "Suc (length (base L))"]
  by (cases "base L") (auto simp: arg_indices_def lua_gettop_def numeral_2_eq_2 simp del: upt_Suc)

lemma fast_bitop_slots:
  assumes "fast_bitop f push nr (base L) = Inr (Some v)" "\<And>u. f e u = u"
  obtains r where "v = push r"
    "foldE (\<lambda>r i. bindE (luaL_checkunsigned L i) (\<lambda>v. Inr (f r v))) e (arg_indices L) = Inr r"
proof -
  from assms(1) obtain u1 u2 r where s: "0 < length (base L)" "1 < length (base L)"
      "ttisnumber (base L ! 0)" "ttisnumber (base L ! 1)"
      and u: "luai_num2unsigned (nvalue (base L ! 0)) = Inr u1" "luai_num2unsigned (nvalue (base L ! 1)) = Inr u2"
      and r: "fast_fold_num f (f u1 u2) (drop 2 (base L)) = Inr (Some r)" "v = push r"
    unfolding fast_bitop_def by (elim fast_num2_Some) (auto simp: bindE_Inr_iff)
  show ?thesis
  proof (rule that [OF r(2)])
    show "foldE (\<lambda>r i. bindE (luaL_checkunsigned L i) (\<lambda>v. Inr (f r v))) e (arg_indices L) = Inr r"
      using s u fast_fold_num_slots [OF r(1)] unfolding arg_indices_2 [OF s(2)]
      by (simp add: slot_simps assms(2) del: upt_Suc)
  qed
qed

lemma fast_fold_int_args:
  assumes "fast_int1 nr (base L) (\<lambda>r. Inr (map_option push (fast_fold_int f r (drop 1 (base L))))) = Inr (Some v)"
    "\<And>u. f e u = u"
  obtains r where "v = push r" "fold64 L f e = Inr r"
proof -
  from assms(1) obtain r where s: "0 < length (base L)" "ttisinteger (base L ! 0)"
      and r: "fast_fold_int f (lvalue (base L ! 0)) (drop 1 (base L)) = Some r" "v = push r"
    by (elim fast_int1_Some) auto
  show ?thesis
  proof (rule that [OF r(2)])
    show "fold64 L f e = Inr r"
      using s fast_fold_int_slots [OF r(1)] unfolding fold64_def arg_indices_1 [OF s(1)]
      by (simp add: slot_simps assms(2) del: upt_Suc)
  qed
qed

section \<open>The contract\<close>

text \<open>
  A library function and its fast path: in a state that satisfies the invariant of the library, what
  the fast path produces, the function returns. The result is a value, or the state a function without results leaves behind. The client of the
  contract is the interpreter: the instruction has the effect of the call.
\<close>

locale transparent_call =
  fixes inv :: "lua_State \<Rightarrow> bool"
    and slow :: "lua_State \<Rightarrow> 'v res"
    and fast :: "int \<Rightarrow> lua_State \<Rightarrow> 'v option res"
  assumes fast_produces: "inv L \<Longrightarrow> fast nresults L = Inr (Some v) \<Longrightarrow> slow L = Inr v"
begin

lemma exec_slow:
  assumes "inv L" "is_Inr (fast nresults L)"
  shows "exec_fastcall fast slow safeenv nresults L = slow L"
  using assms fast_produces [of L nresults]
  by (cases "fast nresults L") (auto simp: exec_fastcall_def split: option.splits)

end

text \<open>The fast paths of this theory read nothing but their arguments.\<close>

locale fastcall =
  fixes slow :: "lua_State \<Rightarrow> TValue res"
    and fast :: "int \<Rightarrow> TValue list \<Rightarrow> TValue option res"
  assumes fast_sound: "fast nresults (base L) = Inr (Some v) \<Longrightarrow> slow L = Inr v"

sublocale fastcall \<subseteq> transparent_call "\<lambda>_. True" slow "\<lambda>nresults L. fast nresults (base L)"
  by unfold_locales (rule fast_sound)

section \<open>Instances: the integer library\<close>

interpretation fc_integeradd: fastcall int64_add luauF_integeradd
  by (unfold_locales, unfold luauF_integeradd_def, elim fast_int2_Some)
    (auto simp: int64_add_def check64_2_def slot_simps Let_def split: if_splits)


interpretation fc_integersub: fastcall int64_sub luauF_integersub
  by (unfold_locales, unfold luauF_integersub_def, elim fast_int2_Some)
    (auto simp: int64_sub_def check64_2_def slot_simps Let_def split: if_splits)


interpretation fc_integermul: fastcall int64_mul luauF_integermul
  by (unfold_locales, unfold luauF_integermul_def, elim fast_int2_Some)
    (auto simp: int64_mul_def check64_2_def slot_simps Let_def split: if_splits)


interpretation fc_integerlt: fastcall int64_lt luauF_integerlt
  by (unfold_locales, unfold luauF_integerlt_def, elim fast_int2_Some)
    (auto simp: int64_lt_def check64_2_def slot_simps Let_def split: if_splits)


interpretation fc_integerle: fastcall int64_le luauF_integerle
  by (unfold_locales, unfold luauF_integerle_def, elim fast_int2_Some)
    (auto simp: int64_le_def check64_2_def slot_simps Let_def split: if_splits)


interpretation fc_integergt: fastcall int64_gt luauF_integergt
  by (unfold_locales, unfold luauF_integergt_def, elim fast_int2_Some)
    (auto simp: int64_gt_def check64_2_def slot_simps Let_def split: if_splits)


interpretation fc_integerge: fastcall int64_ge luauF_integerge
  by (unfold_locales, unfold luauF_integerge_def, elim fast_int2_Some)
    (auto simp: int64_ge_def check64_2_def slot_simps Let_def split: if_splits)


interpretation fc_integerult: fastcall int64_ult luauF_integerult
  by (unfold_locales, unfold luauF_integerult_def, elim fast_int2_Some)
    (auto simp: int64_ult_def check64_2_def slot_simps Let_def split: if_splits)


interpretation fc_integerule: fastcall int64_ule luauF_integerule
  by (unfold_locales, unfold luauF_integerule_def, elim fast_int2_Some)
    (auto simp: int64_ule_def check64_2_def slot_simps Let_def split: if_splits)


interpretation fc_integerugt: fastcall int64_ugt luauF_integerugt
  by (unfold_locales, unfold luauF_integerugt_def, elim fast_int2_Some)
    (auto simp: int64_ugt_def check64_2_def slot_simps Let_def split: if_splits)


interpretation fc_integeruge: fastcall int64_uge luauF_integeruge
  by (unfold_locales, unfold luauF_integeruge_def, elim fast_int2_Some)
    (auto simp: int64_uge_def check64_2_def slot_simps Let_def split: if_splits)


interpretation fc_integerlrotate: fastcall int64_lrotate luauF_integerlrotate
  by (unfold_locales, unfold luauF_integerlrotate_def, elim fast_int2_Some)
    (auto simp: int64_lrotate_def check64_2_def slot_simps Let_def split: if_splits)


interpretation fc_integerrrotate: fastcall int64_rrotate luauF_integerrrotate
  by (unfold_locales, unfold luauF_integerrrotate_def, elim fast_int2_Some)
    (auto simp: int64_rrotate_def check64_2_def slot_simps Let_def split: if_splits)


interpretation fc_integerudiv: fastcall int64_udiv luauF_integerudiv
  by (unfold_locales, unfold luauF_integerudiv_def, elim fast_int2_Some)
    (auto simp: int64_udiv_def check64_2_def slot_simps Let_def split: if_splits)


interpretation fc_integerurem: fastcall int64_urem luauF_integerurem
  by (unfold_locales, unfold luauF_integerurem_def, elim fast_int2_Some)
    (auto simp: int64_urem_def check64_2_def slot_simps Let_def split: if_splits)


interpretation fc_integerdiv: fastcall int64_div luauF_integerdiv
  by (unfold_locales, unfold luauF_integerdiv_def, elim fast_int2_Some)
    (auto simp: int64_div_def check64_2_def slot_simps Let_def split: if_splits)


interpretation fc_integeridiv: fastcall int64_idiv luauF_integeridiv
  by (unfold_locales, unfold luauF_integeridiv_def, elim fast_int2_Some)
    (auto simp: int64_idiv_def check64_2_def slot_simps Let_def split: if_splits)


interpretation fc_integerrem: fastcall int64_rem luauF_integerrem
  by (unfold_locales, unfold luauF_integerrem_def, elim fast_int2_Some)
    (auto simp: int64_rem_def check64_2_def slot_simps Let_def split: if_splits)


interpretation fc_integermod: fastcall int64_mod luauF_integermod
  by (unfold_locales, unfold luauF_integermod_def, elim fast_int2_Some)
    (auto simp: int64_mod_def check64_2_def slot_simps Let_def split: if_splits)


interpretation fc_integerlshift: fastcall int64_lshift luauF_integerlshift
  by (unfold_locales, unfold luauF_integerlshift_def, elim fast_int2_Some)
    (auto simp: int64_lshift_def check64_2_def slot_simps Let_def split: if_splits)


interpretation fc_integerrshift: fastcall int64_rshift luauF_integerrshift
  by (unfold_locales, unfold luauF_integerrshift_def, elim fast_int2_Some)
    (auto simp: int64_rshift_def check64_2_def slot_simps Let_def split: if_splits)


interpretation fc_integerarshift: fastcall int64_arshift luauF_integerarshift
  by (unfold_locales, unfold luauF_integerarshift_def, elim fast_int2_Some)
    (auto simp: int64_arshift_def check64_2_def slot_simps Let_def split: if_splits)


interpretation fc_integertonumber: fastcall int64_tonumber luauF_integertonumber
  by (unfold_locales, unfold luauF_integertonumber_def, elim fast_int1_Some)
    (auto simp: int64_tonumber_def check64_1_def slot_simps split: if_splits)


interpretation fc_integerneg: fastcall int64_neg luauF_integerneg
  by (unfold_locales, unfold luauF_integerneg_def, elim fast_int1_Some)
    (auto simp: int64_neg_def check64_1_def slot_simps split: if_splits)


interpretation fc_integerbnot: fastcall int64_bnot luauF_integerbnot
  by (unfold_locales, unfold luauF_integerbnot_def, elim fast_int1_Some)
    (auto simp: int64_bnot_def check64_1_def slot_simps split: if_splits)


interpretation fc_integerbswap: fastcall int64_bswap luauF_integerbswap
  by (unfold_locales, unfold luauF_integerbswap_def, elim fast_int1_Some)
    (auto simp: int64_bswap_def check64_1_def slot_simps split: if_splits)


interpretation fc_integercountlz: fastcall int64_countlz luauF_integercountlz
  by (unfold_locales, unfold luauF_integercountlz_def, elim fast_int1_Some)
    (auto simp: int64_countlz_def check64_1_def slot_simps split: if_splits)


interpretation fc_integercountrz: fastcall int64_countrz luauF_integercountrz
  by (unfold_locales, unfold luauF_integercountrz_def, elim fast_int1_Some)
    (auto simp: int64_countrz_def check64_1_def slot_simps split: if_splits)


section \<open>Instances: loops and guards\<close>

interpretation fc_band: fastcall b_and luauF_band
  by (unfold_locales, unfold luauF_band_def, elim fast_bitop_slots [where e = "NOT 0"])
    (simp_all add: b_and_def andaux_def)

interpretation fc_btest: fastcall b_test luauF_btest
  by (unfold_locales, unfold luauF_btest_def, elim fast_bitop_slots [where e = "NOT 0"])
    (simp_all add: b_test_def andaux_def)

interpretation fc_bor: fastcall b_or luauF_bor
  by (unfold_locales, unfold luauF_bor_def, elim fast_bitop_slots [where e = 0])
    (simp_all add: b_or_def)

interpretation fc_bxor: fastcall b_xor luauF_bxor
  by (unfold_locales, unfold luauF_bxor_def, elim fast_bitop_slots [where e = 0])
    (simp_all add: b_xor_def)

interpretation fc_bnot: fastcall b_not luauF_bnot
  by (unfold_locales, unfold luauF_bnot_def, elim fast_num1_Some)
    (auto simp: b_not_def slot_simps bindE_Inr_iff)

interpretation fc_byteswap: fastcall b_swap luauF_byteswap
  by (unfold_locales, unfold luauF_byteswap_def, elim fast_num1_Some)
    (auto simp: b_swap_def slot_simps bindE_Inr_iff)

interpretation fc_integerband: fastcall int64_band luauF_integerband
  by (unfold_locales, unfold luauF_integerband_def, elim fast_fold_int_args [where e = "-1"])
    (simp_all add: int64_band_def)

interpretation fc_integerbtest: fastcall int64_btest luauF_integerbtest
  by (unfold_locales, unfold luauF_integerbtest_def, elim fast_fold_int_args [where e = "-1"])
    (simp_all add: int64_btest_def)

interpretation fc_integerbor: fastcall int64_bor luauF_integerbor
  by (unfold_locales, unfold luauF_integerbor_def, elim fast_fold_int_args [where e = 0])
    (simp_all add: int64_bor_def)

interpretation fc_integerbxor: fastcall int64_bxor luauF_integerbxor
  by (unfold_locales, unfold luauF_integerbxor_def, elim fast_fold_int_args [where e = 0])
    (simp_all add: int64_bxor_def)

interpretation fc_integerclamp: fastcall int64_clamp luauF_integerclamp
proof
  fix nr and L :: lua_State and v
  assume f: "luauF_integerclamp nr (base L) = Inr (Some v)"
  then have s: "0 < length (base L)" "1 < length (base L)" "2 < length (base L)"
      "ttisinteger (base L ! 0)" "ttisinteger (base L ! 1)" "ttisinteger (base L ! 2)"
    by (fastforce simp: luauF_integerclamp_def split: if_splits)+
  with f show "int64_clamp L = Inr v"
    by (auto simp: luauF_integerclamp_def int64_clamp_def check64_2_def slot_simps Let_def luaL_argcheck_def
        split: if_splits)
qed

interpretation fc_integercreate: fastcall int64_create luauF_integercreate
  by (unfold_locales, unfold luauF_integercreate_def, elim fast_num1_Some)
    (auto simp: int64_create_def slot_simps bindE_Inr_iff split: if_splits)

lemma sint_eqD: "sint a = sint b \<Longrightarrow> a = (b :: u64)"
  by (metis word_of_sint)

lemma upt_2: "1 < n \<Longrightarrow> [2..<Suc n] = 2 # [Suc 2..<Suc n]"
  by (simp add: upt_conv_Cons del: upt_Suc)

interpretation fc_integermin: fastcall int64_min luauF_integermin
proof
  fix nr and L :: lua_State and v
  assume "luauF_integermin nr (base L) = Inr (Some v)"
  then obtain r where s: "0 < length (base L)" "1 < length (base L)"
      "ttisinteger (base L ! 0)" "ttisinteger (base L ! 1)" and r: "v = TvInteger r"
      "fast_fold_int (\<lambda>r a. if sint a < sint r then a else r)
        (if sint (lvalue (base L ! 1)) < sint (lvalue (base L ! 0)) then lvalue (base L ! 1) else lvalue (base L ! 0))
        (drop 2 (base L)) = Some r"
    unfolding luauF_integermin_def by (elim fast_int2_Some) auto
  show "int64_min L = Inr v"
    using s fast_fold_int_slots [OF r(2)] upt_2 [OF s(2)]
    by (auto simp: int64_min_def check64_1_def slot_simps r(1) lua_gettop_def simp del: upt_Suc split: if_splits)
qed

interpretation fc_integermax: fastcall int64_max luauF_integermax
proof
  fix nr and L :: lua_State and v
  assume "luauF_integermax nr (base L) = Inr (Some v)"
  then obtain r where s: "0 < length (base L)" "1 < length (base L)"
      "ttisinteger (base L ! 0)" "ttisinteger (base L ! 1)" and r: "v = TvInteger r"
      "fast_fold_int (\<lambda>r a. if sint r < sint a then a else r)
        (if sint (lvalue (base L ! 1)) < sint (lvalue (base L ! 0)) then lvalue (base L ! 0) else lvalue (base L ! 1))
        (drop 2 (base L)) = Some r"
    unfolding luauF_integermax_def by (elim fast_int2_Some) auto
  show "int64_max L = Inr v"
    using s fast_fold_int_slots [OF r(2)] upt_2 [OF s(2)]
    by (auto simp: int64_max_def check64_1_def slot_simps r(1) lua_gettop_def simp del: upt_Suc
        split: if_splits dest!: sint_eqD)
qed

interpretation fc_integerextract: fastcall int64_extract luauF_integerextract
proof
  fix nr and L :: lua_State and v
  assume "luauF_integerextract nr (base L) = Inr (Some v)"
  then have s: "0 < length (base L)" "1 < length (base L)" "ttisinteger (base L ! 0)" "ttisinteger (base L ! 1)"
      "length (base L) = 2 \<or> 2 < length (base L) \<and> ttisinteger (base L ! 2)"
    and f: "integerextract_field (lvalue (base L ! 0)) (sint (lvalue (base L ! 1)))
             (if 2 < length (base L) then sint (lvalue (base L ! 2)) else 1) = Inr (Some v)"
    by (fastforce simp: luauF_integerextract_def split: if_splits)+
  have "sint (1 :: u64) = 1" by simp
  with s f show "int64_extract L = Inr v"
    by (auto simp: int64_extract_def check64_2_def slot_simps integerextract_field_def field64_valid
        mask64_def Let_def split: if_splits)
qed


section \<open>Instances: bit32\<close>

text \<open>Shift counts and fields: the unsigned comparison of the code is a range test.\<close>

lemma small_unsigned: "in_int32 s \<Longrightarrow> (word_of_int s :: u32) < 32 \<longleftrightarrow> 0 \<le> s \<and> s < 32"
proof -
  assume s: "in_int32 s"
  have "(word_of_int s :: u32) < 32 \<longleftrightarrow> s mod 2 ^ 32 < 32"
    by (simp add: word_less_def unsigned_of_int take_bit_eq_mod)
  also have "\<dots> \<longleftrightarrow> 0 \<le> s \<and> s < 32"
  proof (cases "0 \<le> s")
    case True
    then show ?thesis using s by (simp add: in_int32_def)
  next
    case False
    then have "s mod 2 ^ 32 = (s + 2 ^ 32) mod 2 ^ 32" by simp
    also have "\<dots> = s + 2 ^ 32" using False s by (intro mod_pos_pos_trivial) (auto simp: in_int32_def)
    finally show ?thesis using False s by (simp add: in_int32_def)
  qed
  finally show ?thesis .
qed

lemma luai_num2int_range: "luai_num2int d = Inr n \<Longrightarrow> in_int32 n"
  by (auto simp: luai_num2int_def split: option.splits if_splits)

lemma bmask_fast: "NOT (push_bit (nat (w - 1)) 0xfffffffe) = bmask w"
proof -
  have "push_bit 1 ALLONES = (0xfffffffe :: u32)" by (simp add: ALLONES_def)
  then show ?thesis by (simp only: bmask_def)
qed

lemma bmask_1: "bmask 1 = 1"
  by (simp add: bmask_def ALLONES_def)

lemma shift_right: "0 \<le> s \<Longrightarrow> s < 32 \<Longrightarrow> bindE (neg_int s) (b_shift r) = Inr (lua_pushunsigned (drop_bit (nat s) r))"
  by (cases "s = 0") (simp_all add: neg_int_def b_shift_def NBITS_def)

text \<open>The common head of the two-number fast paths.\<close>

lemma fast_shift_Some:
  assumes "fast_num2 nr (base L) (\<lambda>a1 a2. bindE (luai_num2unsigned a1) (\<lambda>u. bindE (luai_num2int a2) (k u))) = Inr (Some v)"
  obtains u s where "luaL_checkunsigned L 1 = Inr u" "luaL_checkinteger L 2 = Inr s" "in_int32 s" "k u s = Inr (Some v)"
  using assms
  by (elim fast_num2_Some) (auto simp: bindE_Inr_iff slot_simps dest: luai_num2int_range)

interpretation fc_lshift: fastcall b_lshift luauF_lshift
  by (unfold_locales, unfold luauF_lshift_def, elim fast_shift_Some)
    (auto simp: b_lshift_def b_shift_def small_unsigned NBITS_def split: if_splits)

interpretation fc_rshift: fastcall b_rshift luauF_rshift
  by (unfold_locales, unfold luauF_rshift_def, elim fast_shift_Some)
    (auto simp: b_rshift_def small_unsigned shift_right split: if_splits)

lemma arshift_msb: "(r :: u32) AND push_bit (nat (NBITS - 1)) 1 = 0 \<longleftrightarrow> \<not> bit r 31"
  using test_bit_and [of r 31] by (auto simp: NBITS_def)

interpretation fc_arshift: fastcall b_arshift luauF_arshift
proof
  fix nr and L :: lua_State and v
  assume "luauF_arshift nr (base L) = Inr (Some v)"
  then obtain u s where c: "luaL_checkunsigned L 1 = Inr u" "luaL_checkinteger L 2 = Inr s" "in_int32 s"
      and w: "(word_of_int s :: u32) < 32" and v: "v = lua_pushunsigned (signed_drop_bit (nat s) u)"
    unfolding luauF_arshift_def by (elim fast_shift_Some) (auto split: if_splits)
  from c(3) w have s: "0 \<le> s" "s < 32" by (simp_all add: small_unsigned)
  show "b_arshift L = Inr v"
    unfolding b_arshift_def c bindE_simps arshift_msb
    using s v shift_right [OF s] arshift_bits [of u "nat s"] positive_drop_bit [of u "nat s"]
    by (cases "bit u 31") (auto simp: NBITS_def Let_def)
qed

text \<open>Both rotations, as a function of the count.\<close>

lemma rotate_complement: "(32 - s) mod 32 = (if s mod 32 = 0 then 0 else 32 - s mod (32 :: int))"
  using mod_diff_eq [of 32 32 s] pos_mod_sign [of 32 s] pos_mod_bound [of 32 s]
  by (auto simp: zmod_zminus1_eq_if)

lemma b_rot_complement:
  assumes "luaL_checkunsigned L 1 = Inr u"
  shows "b_rot L s = Inr (lua_pushunsigned (push_bit (nat (s mod 32)) u OR drop_bit (nat ((32 - s) mod 32)) u))"
  unfolding b_rot_def assms bindE_simps rotate_complement NBITS_def Let_def trim_id by simp

interpretation fc_lrotate: fastcall b_lrot luauF_lrotate
  by (unfold_locales, unfold luauF_lrotate_def, elim fast_shift_Some)
    (auto simp: b_lrot_def b_rot_complement split: if_splits)

lemma rotate_swap: "(32 - (- s)) mod 32 = s mod (32 :: int)" "(32 - s) mod 32 = (- s) mod (32 :: int)"
  using mod_add_self2 [of s "32 :: int"] mod_add_self2 [of "- s" "32 :: int"] by (simp_all add: ac_simps)

interpretation fc_rrotate: fastcall b_rrot luauF_rrotate
proof
  fix nr and L :: lua_State and v
  assume "luauF_rrotate nr (base L) = Inr (Some v)"
  then obtain u s where c: "luaL_checkunsigned L 1 = Inr u" "luaL_checkinteger L 2 = Inr s"
      and "in_int32 (32 - s)"
      and v: "v = lua_pushunsigned (drop_bit (nat (s mod 32)) u OR push_bit (nat ((32 - s) mod 32)) u)"
    unfolding luauF_rrotate_def by (elim fast_shift_Some) (auto split: if_splits)
  then have n: "neg_int s = Inr (- s)" by (simp add: neg_int_def in_int32_def)
  show "b_rrot L = Inr v"
    by (simp only: b_rrot_def c n bindE_simps b_rot_complement [OF c(1)] v rotate_swap minus_minus or.commute)
qed

lemma pushinteger_small: "n \<le> 32 \<Longrightarrow> lua_pushinteger (int n) = lua_pushunsigned (word_of_nat n)"
  by (simp add: lua_pushinteger_def lua_pushunsigned_def unsigned_of_nat take_bit_nat_eq_self)

lemma first_set_le: "first_set p 0 k \<le> k"
  using first_set_least [of 0 p k] by simp

lemma first_set_none: "(\<And>i. \<not> p i) \<Longrightarrow> first_set p i k = i + k"
  by (induction k arbitrary: i) auto

interpretation fc_countlz: fastcall b_countlz luauF_countlz
proof
  fix nr and L :: lua_State and v
  assume "luauF_countlz nr (base L) = Inr (Some v)"
  then obtain n where c: "luaL_checkunsigned L 1 = Inr n"
      and v: "v = lua_pushinteger (if n = 0 then 32 else int (builtin_clz n))"
    unfolding luauF_countlz_def by (elim fast_num1_Some) (auto simp: bindE_Inr_iff slot_simps)
  have "v = lua_pushunsigned (word_of_nat (first_set (\<lambda>i. bit n (32 - 1 - i)) 0 32))"
    using v pushinteger_small [OF first_set_le [of _ 32], of "\<lambda>i. bit n (31 - i)"]
    by (auto simp: builtin_clz_def first_set_none)
  then show "b_countlz L = Inr v" unfolding b_countlz_def test_bit_and c bindE_simps by simp
qed

interpretation fc_countrz: fastcall b_countrz luauF_countrz
proof
  fix nr and L :: lua_State and v
  assume "luauF_countrz nr (base L) = Inr (Some v)"
  then obtain n where c: "luaL_checkunsigned L 1 = Inr n"
      and v: "v = lua_pushinteger (if n = 0 then 32 else int (builtin_ctz n))"
    unfolding luauF_countrz_def by (elim fast_num1_Some) (auto simp: bindE_Inr_iff slot_simps)
  have "v = lua_pushunsigned (word_of_nat (first_set (bit n) 0 32))"
    using v pushinteger_small [OF first_set_le [of _ 32], of "bit n"]
    by (auto simp: builtin_ctz_def first_set_none)
  then show "b_countrz L = Inr v" unfolding b_countrz_def test_bit_and c bindE_simps by simp
qed

lemma fieldargs_ok:
  "luaL_checkinteger L a = Inr f \<Longrightarrow> luaL_optinteger L (a + 1) 1 = Inr w \<Longrightarrow> 0 \<le> f \<Longrightarrow> 0 < w \<Longrightarrow> f + w \<le> 32
    \<Longrightarrow> fieldargs L a = Inr (f, w)"
  by (simp add: fieldargs_def luaL_argcheck_def NBITS_def in_int32_def)

text \<open>The width of a field: the given one, or 1 when there is no argument for it.\<close>

definition fast_width :: "TValue list \<Rightarrow> nat \<Rightarrow> int \<Rightarrow> bool" where
  "fast_width args i w \<longleftrightarrow>
     (if length args = i then w = 1 else ttisnumber (args ! i) \<and> luai_num2int (nvalue (args ! i)) = Inr w)"

lemma fast_width_opt:
  "fast_width (base L) i w \<Longrightarrow> i \<le> length (base L) \<Longrightarrow> luaL_optinteger L (Suc i) 1 = Inr w"
  by (auto simp: fast_width_def optinteger_slot opt_missing split: if_splits)

interpretation fc_extract: fastcall b_extract luauF_extract
proof
  fix nr and L :: lua_State and v
  assume a: "luauF_extract nr (base L) = Inr (Some v)"
  then have s: "0 < length (base L)" "1 < length (base L)" "ttisnumber (base L ! 0)" "ttisnumber (base L ! 1)"
    by (fastforce simp: luauF_extract_def fast_num2_def split: if_splits)+
  from a obtain n f where u: "luai_num2unsigned (nvalue (base L ! 0)) = Inr n" "luai_num2int (nvalue (base L ! 1)) = Inr f"
    unfolding luauF_extract_def by (elim fast_num2_Some) (auto simp: bindE_Inr_iff)
  note f = luai_num2int_range [OF u(2)]
  have "\<exists>w. fast_width (base L) 2 w \<and> 0 \<le> f \<and> 0 < w \<and> f + w \<le> 32 \<and> v = lua_pushunsigned (drop_bit (nat f) n AND bmask w)"
    using a u s f unfolding luauF_extract_def bmask_fast
    by (cases "length (base L) = 2")
      (auto simp: fast_num2_def bindE_Inr_iff small_unsigned fast_width_def bmask_1 split: if_splits)
  then obtain w where "fast_width (base L) 2 w" and w: "0 \<le> f" "0 < w" "f + w \<le> 32"
    and v: "v = lua_pushunsigned (drop_bit (nat f) n AND bmask w)" by blast
  then have "luaL_optinteger L (2 + 1) 1 = Inr w" using fast_width_opt [of L 2 w] s by simp
  then show "b_extract L = Inr v"
    using fieldargs_ok [of L 2 f w] w v s u by (simp add: b_extract_def slot_simps)
qed

interpretation fc_replace: fastcall b_replace luauF_replace
proof
  fix nr and L :: lua_State and x
  assume a: "luauF_replace nr (base L) = Inr (Some x)"
  then have s: "0 < length (base L)" "1 < length (base L)" "2 < length (base L)"
      "ttisnumber (base L ! 0)" "ttisnumber (base L ! 1)" "ttisnumber (base L ! 2)"
    by (fastforce simp: luauF_replace_def split: if_splits)+
  from a obtain n v f where u: "luai_num2unsigned (nvalue (base L ! 0)) = Inr n"
      "luai_num2unsigned (nvalue (base L ! 1)) = Inr v" "luai_num2int (nvalue (base L ! 2)) = Inr f"
    unfolding luauF_replace_def by (auto simp: bindE_Inr_iff split: if_splits)
  note f = luai_num2int_range [OF u(3)]
  have "\<exists>w. fast_width (base L) 3 w \<and> 0 \<le> f \<and> 0 < w \<and> f + w \<le> 32
      \<and> x = lua_pushunsigned ((n AND NOT (push_bit (nat f) (bmask w))) OR push_bit (nat f) (v AND bmask w))"
    using a u s f unfolding luauF_replace_def bmask_fast Let_def
    by (cases "length (base L) = 3")
      (auto simp: bindE_Inr_iff small_unsigned fast_width_def bmask_1 split: if_splits)
  then obtain w where "fast_width (base L) 3 w" and w: "0 \<le> f" "0 < w" "f + w \<le> 32"
    and x: "x = lua_pushunsigned ((n AND NOT (push_bit (nat f) (bmask w))) OR push_bit (nat f) (v AND bmask w))"
    by blast
  then have "luaL_optinteger L (3 + 1) 1 = Inr w" using fast_width_opt [of L 3 w] s by simp
  then show "b_replace L = Inr x"
    using fieldargs_ok [of L 3 f w] w x s u by (simp add: b_replace_def slot_simps Let_def)
qed


section \<open>The dispatch is transparent\<close>

lemmas fastcalls =
  fc_arshift.fastcall_axioms fc_band.fastcall_axioms fc_bnot.fastcall_axioms fc_bor.fastcall_axioms
  fc_bxor.fastcall_axioms fc_btest.fastcall_axioms fc_extract.fastcall_axioms fc_lrotate.fastcall_axioms
  fc_lshift.fastcall_axioms fc_replace.fastcall_axioms fc_rrotate.fastcall_axioms fc_rshift.fastcall_axioms
  fc_countlz.fastcall_axioms fc_countrz.fastcall_axioms fc_byteswap.fastcall_axioms
  fc_integercreate.fastcall_axioms fc_integertonumber.fastcall_axioms fc_integerneg.fastcall_axioms
  fc_integeradd.fastcall_axioms fc_integersub.fastcall_axioms fc_integermul.fastcall_axioms
  fc_integerdiv.fastcall_axioms fc_integermin.fastcall_axioms fc_integermax.fastcall_axioms
  fc_integerrem.fastcall_axioms fc_integeridiv.fastcall_axioms fc_integerudiv.fastcall_axioms
  fc_integerurem.fastcall_axioms fc_integermod.fastcall_axioms fc_integerclamp.fastcall_axioms
  fc_integerband.fastcall_axioms fc_integerbor.fastcall_axioms fc_integerbnot.fastcall_axioms
  fc_integerbxor.fastcall_axioms fc_integerlt.fastcall_axioms fc_integerle.fastcall_axioms
  fc_integerult.fastcall_axioms fc_integerule.fastcall_axioms fc_integergt.fastcall_axioms
  fc_integerge.fastcall_axioms fc_integerugt.fastcall_axioms fc_integeruge.fastcall_axioms
  fc_integerlshift.fastcall_axioms fc_integerrshift.fastcall_axioms fc_integerarshift.fastcall_axioms
  fc_integerlrotate.fastcall_axioms fc_integerrrotate.fastcall_axioms fc_integerextract.fastcall_axioms
  fc_integerbtest.fastcall_axioms fc_integercountrz.fastcall_axioms fc_integercountlz.fastcall_axioms
  fc_integerbswap.fastcall_axioms

lemma builtin_fastcall:
  "luauF_table bfid = Some f \<Longrightarrow> library_function bfid = Some g \<Longrightarrow> fastcall g f"
  unfolding luauF_table_def library_functions
  by (auto simp: fastcalls split: if_splits)

text \<open>The instruction with the packed constant computes what the one with offset and width computes.\<close>

lemma extractk_extract:
  assumes "0 \<le> f" "0 < w" "f + w \<le> 32"
  shows "luauF_extractk nresults [v, lua_pushinteger (f + 32 * (w - 1))] =
    luauF_extract nresults [v, lua_pushinteger f, lua_pushinteger w]"
proof -
  have fw: "(f + 32 * (w - 1)) mod 32 = f" "(f + 32 * (w - 1)) div 32 = w - 1"
    using assms mod_mult_self2 [of f 32 "w - 1"] div_mult_self2 [of 32 f "w - 1"] by auto
  have "in_int32 (f + 32 * (w - 1))" "in_int32 f" "in_int32 w" "in_int32 (f + w)" using assms by (auto simp: in_int32_def)
  with assms fw show ?thesis
    by (auto simp: luauF_extractk_def luauF_extract_def fast_num2_def lua_pushinteger_def ttisnumber_def luai_num2int_of_int Let_def)
qed

text \<open>
  C7: for every builtin of the \<^verbatim>\<open>bit32\<close> and \<^verbatim>\<open>integer\<close> libraries, in a safe and in an unsafe
  environment, for every number of wanted results and every argument list on which the fast path
  does not leave the defined part of C++, the \<^verbatim>\<open>FASTCALL\<close> instruction with its fallback
  call returns what the library function returns, errors included.
\<close>

theorem fastcall_transparent:
  assumes "luauF_table bfid = Some f" "library_function bfid = Some g"
    and "is_Inr (f nresults (base L))"
  shows "exec_fastcall (\<lambda>nresults L. f nresults (base L)) g safeenv nresults L = g L"
proof -
  from builtin_fastcall [OF assms(1,2)]
  have "transparent_call (\<lambda>_. True) g (\<lambda>nresults L. f nresults (base L))"
    by (simp add: transparent_call_def fastcall_def)
  then show ?thesis by (rule transparent_call.exec_slow) (use assms(3) in simp_all)
qed

lemma fastcall_transparent_witness:
  "exec_fastcall (\<lambda>nresults L. luauF_integeridiv nresults (base L)) int64_idiv True 1 (call_state [TvInteger 7, TvInteger 2])
     = int64_idiv (call_state [TvInteger 7, TvInteger 2])"
proof -
  have "luauF_table 104 = Some luauF_integeridiv" "library_function 104 = Some int64_idiv"
    by (simp_all add: luauF_table_def library_functions)
  moreover have "is_Inr (luauF_integeridiv 1 (base (call_state [TvInteger 7, TvInteger 2])))"
    by (simp add: luauF_integeridiv_def fast_int2_def call_state_def Let_def)
  ultimately show ?thesis by (rule fastcall_transparent)
qed

end
