(* ===== verification/LuwuFloat.thy ===== *)
theory LuwuFloat
  imports LuwuDouble
begin

text \<open>
  The C++ type \<^verbatim>\<open>float\<close> as the buffer library uses it: \<^verbatim>\<open>double(f)\<close> and
  \<^verbatim>\<open>float(d)\<close> on IEEE-754 bit patterns, the second rounding to nearest with ties to even.
  \<open>flt_of_dbl_of_flt\<close> shows that widening is undone by narrowing.
\<close>

type_synonym float_bits = "32 word"

section \<open>Definitions\<close>

definition flt_exponent :: "float_bits \<Rightarrow> nat" where
  "flt_exponent f = unat f div 2 ^ 23 mod 2 ^ 8"

definition flt_fraction :: "float_bits \<Rightarrow> nat" where
  "flt_fraction f = unat f mod 2 ^ 23"

definition flt_sign :: "float_bits \<Rightarrow> nat" where
  "flt_sign f = unat f div 2 ^ 31"

text \<open>
  Widening, by magnitude: infinities and NaN keep their payload (a NaN becomes quiet), a subnormal
  number is normalised, a normal one changes its bias.
\<close>

definition widen :: "nat \<Rightarrow> nat \<Rightarrow> nat" where
  "widen e m =
     (if e = 255 then 2047 * 2 ^ 52 + (if m = 0 then 0 else 2 ^ 51 + m mod 2 ^ 22 * 2 ^ 29)
      else if e = 0 then
        (if m = 0 then 0
         else let k = bit_length m in (k + 872) * 2 ^ 52 + m * 2 ^ (53 - k))
      else (e + 896) * 2 ^ 52 + m * 2 ^ 29)"

definition dbl_of_flt :: "float_bits \<Rightarrow> double" where
  "dbl_of_flt f = word_of_nat (flt_sign f * 2 ^ 63 + widen (flt_exponent f) (flt_fraction f))"

text \<open>
  Narrowing, by magnitude. \<open>shift\<close> is the number of bits of the 53-bit significand below the
  quantum of the target: 29 for numbers in the normal range, more below it.
\<close>

definition narrow :: "nat \<Rightarrow> nat \<Rightarrow> nat" where
  "narrow e m =
     (if e = 2047 then 255 * 2 ^ 23 + (if m = 0 then 0 else 2 ^ 22 + m div 2 ^ 29 mod 2 ^ 22)
      else
        let sig = (if e = 0 then m else 2 ^ 52 + m);
            shift = (if 897 \<le> e then 29 else 926 - max e 1);
            r = (e - 897) * 2 ^ 23 + round_to_even sig shift
        in if 255 * 2 ^ 23 \<le> r then 255 * 2 ^ 23 else r)"

definition flt_of_dbl :: "double \<Rightarrow> float_bits" where
  "flt_of_dbl d = word_of_nat (unat d div 2 ^ 63 * 2 ^ 31 + narrow (dbl_exponent d) (dbl_fraction d))"

definition flt_isnan :: "float_bits \<Rightarrow> bool" where
  "flt_isnan f \<longleftrightarrow> flt_exponent f = 255 \<and> flt_fraction f \<noteq> 0"


section \<open>Round trip\<close>

lemma round_exact: "round_to_even (a * 2 ^ sh) sh = a" if "0 < sh"
  by (simp add: round_to_even_def)

lemma split_field:
  assumes "x < (b :: nat)"
  shows "(a * b + x) div b = a" "(a * b + x) mod b = x"
  using assms by simp_all

lemma widen_fields:
  assumes "e < 256" "m < 2 ^ 23"
  shows "widen e m < 2 ^ 63"
    and "\<not> (e = 255 \<and> m \<noteq> 0) \<Longrightarrow> narrow (widen e m div 2 ^ 52) (widen e m mod 2 ^ 52) = e * 2 ^ 23 + m"
proof -
  consider (special) "e = 255" | (zero) "e = 0" "m = 0" | (sub) "e = 0" "0 < m" | (norm) "0 < e" "e < 255"
    using assms(1) by linarith
  then have "widen e m < 2 ^ 63 \<and>
    (\<not> (e = 255 \<and> m \<noteq> 0) \<longrightarrow> narrow (widen e m div 2 ^ 52) (widen e m mod 2 ^ 52) = e * 2 ^ 23 + m)"
  proof cases
    case special
    have "m mod 2 ^ 22 < 2 ^ 22" by simp
    then show ?thesis using special by (auto simp: widen_def narrow_def)
  next
    case zero
    then show ?thesis by (simp add: widen_def narrow_def round_to_even_def)
  next
    case norm
    define x where "x = m * 2 ^ 29"
    have x: "x < 2 ^ 52" using assms(2) by (simp add: x_def)
    have w: "widen e m = (e + 896) * 2 ^ 52 + x" using norm by (simp add: widen_def x_def)
    have d: "widen e m div 2 ^ 52 = e + 896" "widen e m mod 2 ^ 52 = x" unfolding w by (rule split_field [OF x])+
    have "2 ^ 52 + x = (2 ^ 23 + m) * 2 ^ 29" by (simp add: x_def)
    then have "round_to_even (2 ^ 52 + x) 29 = 2 ^ 23 + m" by (simp only: round_exact) 
    moreover have "(e - 1) * 2 ^ 23 + (2 ^ 23 + m) = e * 2 ^ 23 + m" using norm by (simp add: diff_mult_distrib)
    moreover have "e * 2 ^ 23 + m < 255 * 2 ^ 23" using norm assms(2) by simp
    ultimately have "narrow (e + 896) x = e * 2 ^ 23 + m" using norm by (simp add: narrow_def Let_def)
    moreover have "widen e m < 2 ^ 63" using w x norm by simp
    ultimately show ?thesis by (simp only: d) simp
  next
    case sub
    define k where "k = bit_length m"
    have k: "0 < k" "k \<le> 23"
      using bit_length_pos [OF sub(2)] bit_length_le [OF assms(2)] by (simp_all add: k_def)
    have s: "2 ^ 52 \<le> m * 2 ^ (53 - k)" "m * 2 ^ (53 - k) < 2 ^ 53"
      using normalised_bounds [OF sub(2), of 53] k by (simp_all add: k_def)
    define x where "x = m * 2 ^ (53 - k) - 2 ^ 52"
    have x: "x < 2 ^ 52" "2 ^ 52 + x = m * 2 ^ (53 - k)" using s by (simp_all add: x_def)
    have "widen e m = (k + 872) * 2 ^ 52 + m * 2 ^ (53 - k)" using sub by (simp add: widen_def k_def Let_def)
    then have w: "widen e m = (k + 873) * 2 ^ 52 + x" using x(2) by simp
    have d: "widen e m div 2 ^ 52 = k + 873" "widen e m mod 2 ^ 52 = x" unfolding w by (rule split_field [OF x(1)])+
    have "round_to_even (2 ^ 52 + x) (53 - k) = m" using x(2) k by (simp only: round_exact)
    then have "narrow (k + 873) x = m" using k sub assms(2) by (simp add: narrow_def Let_def)
    moreover have "widen e m < 2 ^ 63" using w x k by simp
    moreover have "e * 2 ^ 23 + m = m" using sub by simp
    ultimately show ?thesis by (simp only: d) simp
  qed
  then show "widen e m < 2 ^ 63"
    "\<not> (e = 255 \<and> m \<noteq> 0) \<Longrightarrow> narrow (widen e m div 2 ^ 52) (widen e m mod 2 ^ 52) = e * 2 ^ 23 + m" by blast+
qed

lemma flt_fields: "unat f = flt_sign f * 2 ^ 31 + (flt_exponent f * 2 ^ 23 + flt_fraction f)"
  and flt_bounds: "flt_sign f < 2" "flt_exponent f < 256" "flt_fraction f < 2 ^ 23"
proof -
  have b: "unat f < 2 ^ 32" by (rule unat_u32_bound)
  show "flt_sign f < 2" "flt_exponent f < 256" "flt_fraction f < 2 ^ 23"
    using b by (simp_all add: flt_sign_def flt_exponent_def flt_fraction_def)
  have "unat f div 2 ^ 31 = unat f div 2 ^ 23 div 2 ^ 8" by (simp add: div_mult2_eq [symmetric])
  then have "unat f = (unat f div 2 ^ 31 * 2 ^ 8 + unat f div 2 ^ 23 mod 2 ^ 8) * 2 ^ 23 + unat f mod 2 ^ 23"
    by (simp only: div_mult_mod_eq)
  also have "\<dots> = unat f div 2 ^ 31 * 2 ^ 31 + (unat f div 2 ^ 23 mod 2 ^ 8 * 2 ^ 23 + unat f mod 2 ^ 23)"
    by (simp add: algebra_simps)
  finally show "unat f = flt_sign f * 2 ^ 31 + (flt_exponent f * 2 ^ 23 + flt_fraction f)"
    by (simp only: flt_sign_def flt_exponent_def flt_fraction_def)
qed

lemma flt_of_dbl_of_flt:
  assumes "\<not> flt_isnan f"
  shows "flt_of_dbl (dbl_of_flt f) = f"
proof -
  let ?w = "widen (flt_exponent f) (flt_fraction f)"
  note w = widen_fields [OF flt_bounds(2) [of f] flt_bounds(3) [of f]]
  have b: "flt_sign f * 2 ^ 63 + ?w < 2 ^ 64" using w(1) flt_bounds(1) [of f] by simp
  then have u: "unat (dbl_of_flt f) = flt_sign f * 2 ^ 63 + ?w"
    unfolding dbl_of_flt_def by (rule unat_u64_of_nat)
  have s: "unat (dbl_of_flt f) div 2 ^ 63 = flt_sign f" using w(1) by (simp add: u)
  have m: "dbl_fraction (dbl_of_flt f) = ?w mod 2 ^ 52"
  proof -
    have "flt_sign f * 2 ^ 63 + ?w = ?w + flt_sign f * 2 ^ 11 * 2 ^ 52" by simp
    then show ?thesis by (simp only: dbl_fraction_def u mod_mult_self1)
  qed
  have e: "dbl_exponent (dbl_of_flt f) = ?w div 2 ^ 52"
  proof -
    have "flt_sign f * 2 ^ 63 + ?w = ?w + flt_sign f * 2 ^ 11 * 2 ^ 52" by simp
    then have "unat (dbl_of_flt f) div 2 ^ 52 = flt_sign f * 2 ^ 11 + ?w div 2 ^ 52"
      by (simp only: u) simp
    moreover have "?w div 2 ^ 52 < 2 ^ 11" using w(1) by (simp add: less_mult_imp_div_less)
    ultimately show ?thesis by (simp add: dbl_exponent_def)
  qed
  have "flt_of_dbl (dbl_of_flt f) = word_of_nat (flt_sign f * 2 ^ 31 + (flt_exponent f * 2 ^ 23 + flt_fraction f))"
    using w(2) assms by (simp only: flt_of_dbl_def s m e flt_isnan_def) simp
  also have "\<dots> = f" by (simp only: flt_fields [symmetric]) simp
  finally show ?thesis .
qed

end
