(* ===== verification/BufferLib.thy ===== *)
theory BufferLib
  imports FastCalls LuwuFloat
begin

text \<open>
  The \<^verbatim>\<open>buffer\<close> library, \<^verbatim>\<open>VM/src/lbuflib.cpp\<close>, with the allocation of
  \<^verbatim>\<open>VM/src/lbuffer.cpp\<close> and the fast paths of \<^verbatim>\<open>VM/src/lbuiltins.cpp\<close> for buffers. A function
  that reads returns the pushed value; a function that writes returns the new state.

  Every \<^verbatim>\<open>memcpy\<close>, \<^verbatim>\<open>memmove\<close> and \<^verbatim>\<open>memset\<close> goes through \<open>mem_read\<close> and \<open>mem_write\<close>,
  which fail with \<open>access_outside\<close> when the range leaves the bytes of the buffer: the bounds checks
  of the code have to exclude it. The template parameter of a function is a parameter of its
  definition: size and signedness of an integer type, or the floating-point type.

  Shown here: no operation leaves its buffer (\<open>buffer_memory_safe\<close>); a write changes nothing
  but bytes of the mutable buffer it names (locale \<open>buffer_writer\<close>, one instance per writer,
  lifted to sequences of writes); typed reads return what typed writes stored; \<^verbatim>\<open>readbits\<close> and
  \<^verbatim>\<open>writebits\<close> are bit-field access to the buffer as one little-endian number; \<^verbatim>\<open>copy\<close> moves
  overlapping ranges; and the fast paths are transparent.
\<close>

section \<open>Memory\<close>

definition access_outside :: lua_error where
  "access_outside = Undefined ''access outside the buffer''"

definition mem_read :: "bytes \<Rightarrow> int \<Rightarrow> nat \<Rightarrow> bytes res" where
  "mem_read data offset n =
     (if 0 \<le> offset \<and> nat offset + n \<le> length data then Inr (take n (drop (nat offset) data))
      else Inl access_outside)"

definition mem_write :: "bytes \<Rightarrow> int \<Rightarrow> bytes \<Rightarrow> bytes res" where
  "mem_write data offset bs =
     (if 0 \<le> offset \<and> nat offset + length bs \<le> length data
      then Inr (take (nat offset) data @ bs @ drop (nat offset + length bs) data)
      else Inl access_outside)"

definition set_data :: "lua_State \<Rightarrow> nat \<Rightarrow> Buffer \<Rightarrow> bytes \<Rightarrow> lua_State" where
  "set_data L a b d = L\<lparr>buffers := (buffers L)(a \<mapsto> b\<lparr>b_data := d\<rparr>)\<rparr>"

definition mem_store :: "lua_State \<Rightarrow> nat \<Rightarrow> Buffer \<Rightarrow> int \<Rightarrow> bytes \<Rightarrow> lua_State res" where
  "mem_store L a b offset bs = bindE (mem_write (b_data b) offset bs) (\<lambda>d. Inr (set_data L a b d))"

definition MAX_BUFFER_SIZE :: nat where
  "MAX_BUFFER_SIZE = 2 ^ 30"

text \<open>The macro \<^verbatim>\<open>isoutofbounds\<close>; the offset is compared as \<^verbatim>\<open>unsigned\<close>.\<close>

definition isoutofbounds :: "int \<Rightarrow> nat \<Rightarrow> nat \<Rightarrow> bool" where
  "isoutofbounds offset len accessize \<longleftrightarrow> len < nat (offset mod 2 ^ 32) + accessize"

definition out_of_bounds :: lua_error where
  "out_of_bounds = RuntimeError ''buffer access out of bounds''"


section \<open>Creation\<close>

text \<open>\<open>a\<close> is the address the allocator returns.\<close>

definition luaB_newbuffer :: "lua_State \<Rightarrow> nat \<Rightarrow> nat \<Rightarrow> lua_State res" where
  "luaB_newbuffer L a s =
     (if MAX_BUFFER_SIZE < s then Inl (RuntimeError ''buffer too big'')
      else Inr (L\<lparr>buffers := (buffers L)(a \<mapsto> \<lparr>b_data = replicate s 0, b_mode = 0\<rparr>)\<rparr>))"

definition buffer_create :: "nat \<Rightarrow> lua_State \<Rightarrow> (lua_State \<times> TValue) res" where
  "buffer_create a L =
     bindE (luaL_checkinteger L 1) (\<lambda>size.
     bindE (luaL_argcheck (0 \<le> size) 1 ''size'') (\<lambda>_.
     bindE (luaB_newbuffer L a (nat size)) (\<lambda>L. Inr (L, TvBuffer a))))"

definition buffer_fromstring :: "nat \<Rightarrow> lua_State \<Rightarrow> (lua_State \<times> TValue) res" where
  "buffer_fromstring a L =
     bindE (luaL_checklstring L 1) (\<lambda>val.
     bindE (luaB_newbuffer L a (length val)) (\<lambda>L.
       case buffers L a of
         None \<Rightarrow> Inl access_outside
       | Some b \<Rightarrow> bindE (mem_store L a b 0 val) (\<lambda>L. Inr (L, TvBuffer a))))"

definition buffer_tostring :: "lua_State \<Rightarrow> TValue res" where
  "buffer_tostring L =
     bindE (luaL_checkbuffer L 1) (\<lambda>(a, b).
     bindE (mem_read (b_data b) 0 (length (b_data b))) (\<lambda>s. Inr (TvString s)))"

definition buffer_isfrozen :: "lua_State \<Rightarrow> TValue res" where
  "buffer_isfrozen L = bindE (luaL_checkbuffer L 1) (\<lambda>(a, b). Inr (TvBoolean (b_mode b = 1)))"

definition buffer_len :: "lua_State \<Rightarrow> TValue res" where
  "buffer_len L =
     bindE (luaL_checkbuffer L 1) (\<lambda>(a, b). Inr (TvNumber (dbl_of_int (int (length (b_data b)) mod 2 ^ 32))))"


section \<open>Typed access\<close>

text \<open>The value of \<open>n\<close> bytes read as a signed or unsigned integer type of that size.\<close>

definition int_value :: "bool \<Rightarrow> nat \<Rightarrow> nat \<Rightarrow> int" where
  "int_value sg n v = (if sg \<and> 2 ^ (8 * n - 1) \<le> v then int v - 2 ^ (8 * n) else int v)"

definition buffer_readinteger :: "bool \<Rightarrow> nat \<Rightarrow> lua_State \<Rightarrow> TValue res" where
  "buffer_readinteger sg n L =
     bindE (luaL_checkbuffer L 1) (\<lambda>(a, b).
     bindE (luaL_checkinteger L 2) (\<lambda>offset.
       if isoutofbounds offset (length (b_data b)) n then Inl out_of_bounds
       else bindE (mem_read (b_data b) offset n) (\<lambda>val.
              Inr (TvNumber (dbl_of_int (int_value sg n (le_nat val)))))))"

definition buffer_writeinteger :: "nat \<Rightarrow> lua_State \<Rightarrow> lua_State res" where
  "buffer_writeinteger n L =
     bindE (luaL_checkbuffermutable L 1) (\<lambda>(a, b).
     bindE (luaL_checkinteger L 2) (\<lambda>offset.
     bindE (luaL_checkunsigned L 3) (\<lambda>value.
       if isoutofbounds offset (length (b_data b)) n then Inl out_of_bounds
       else mem_store L a b offset (le_bytes n (unat value)))))"

definition buffer_readlong :: "lua_State \<Rightarrow> TValue res" where
  "buffer_readlong L =
     bindE (luaL_checkbuffer L 1) (\<lambda>(a, b).
     bindE (luaL_checkinteger L 2) (\<lambda>offset.
       if isoutofbounds offset (length (b_data b)) 8 then Inl out_of_bounds
       else bindE (mem_read (b_data b) offset 8) (\<lambda>val. Inr (TvInteger (word_of_nat (le_nat val))))))"

definition buffer_writelong :: "lua_State \<Rightarrow> lua_State res" where
  "buffer_writelong L =
     bindE (luaL_checkbuffermutable L 1) (\<lambda>(a, b).
     bindE (luaL_checkinteger L 2) (\<lambda>offset.
     bindE (luaL_checkinteger64 L 3) (\<lambda>value.
       if isoutofbounds offset (length (b_data b)) 8 then Inl out_of_bounds
       else mem_store L a b offset (le_bytes 8 (unat value)))))"

datatype fp_type = FpFloat | FpDouble

fun sizeof_fp :: "fp_type \<Rightarrow> nat" where
  "sizeof_fp FpFloat = 4"
| "sizeof_fp FpDouble = 8"

fun double_of_fp :: "fp_type \<Rightarrow> bytes \<Rightarrow> double" where
  "double_of_fp FpFloat val = dbl_of_flt (word_of_nat (le_nat val))"
| "double_of_fp FpDouble val = word_of_nat (le_nat val)"

fun fp_of_double :: "fp_type \<Rightarrow> double \<Rightarrow> bytes" where
  "fp_of_double FpFloat d = le_bytes 4 (unat (flt_of_dbl d))"
| "fp_of_double FpDouble d = le_bytes 8 (unat d)"

definition buffer_readfp :: "fp_type \<Rightarrow> lua_State \<Rightarrow> TValue res" where
  "buffer_readfp t L =
     bindE (luaL_checkbuffer L 1) (\<lambda>(a, b).
     bindE (luaL_checkinteger L 2) (\<lambda>offset.
       if isoutofbounds offset (length (b_data b)) (sizeof_fp t) then Inl out_of_bounds
       else bindE (mem_read (b_data b) offset (sizeof_fp t)) (\<lambda>val. Inr (TvNumber (double_of_fp t val)))))"

definition buffer_writefp :: "fp_type \<Rightarrow> lua_State \<Rightarrow> lua_State res" where
  "buffer_writefp t L =
     bindE (luaL_checkbuffermutable L 1) (\<lambda>(a, b).
     bindE (luaL_checkinteger L 2) (\<lambda>offset.
     bindE (luaL_checknumber L 3) (\<lambda>value.
       if isoutofbounds offset (length (b_data b)) (sizeof_fp t) then Inl out_of_bounds
       else mem_store L a b offset (fp_of_double t value))))"


section \<open>Ranges\<close>

definition buffer_readstring :: "lua_State \<Rightarrow> TValue res" where
  "buffer_readstring L =
     bindE (luaL_checkbuffer L 1) (\<lambda>(a, b).
     bindE (luaL_checkinteger L 2) (\<lambda>offset.
     bindE (luaL_checkinteger L 3) (\<lambda>size.
     bindE (luaL_argcheck (0 \<le> size) 3 ''size'') (\<lambda>_.
       if isoutofbounds offset (length (b_data b)) (nat size) then Inl out_of_bounds
       else bindE (mem_read (b_data b) offset (nat size)) (\<lambda>s. Inr (TvString s))))))"

definition buffer_writestring :: "lua_State \<Rightarrow> lua_State res" where
  "buffer_writestring L =
     bindE (luaL_checkbuffermutable L 1) (\<lambda>(a, b).
     bindE (luaL_checkinteger L 2) (\<lambda>offset.
     bindE (luaL_checklstring L 3) (\<lambda>val.
     bindE (luaL_optinteger L 4 (int_of_size (length val))) (\<lambda>count.
     bindE (luaL_argcheck (0 \<le> count) 4 ''count'') (\<lambda>_.
       if length val < nat count then Inl (RuntimeError ''string length overflow'')
       else if isoutofbounds offset (length (b_data b)) (nat count) then Inl out_of_bounds
       else mem_store L a b offset (take (nat count) val))))))"

text \<open>The default size \<^verbatim>\<open>int(len) - offset\<close>, which is evaluated even when the argument is present.\<close>

definition rest_size :: "nat \<Rightarrow> int \<Rightarrow> int res" where
  "rest_size len offset =
     (let d = int_of_size len - offset in
      if in_int32 d then Inr d else Inl (Undefined ''signed overflow of len - offset''))"

definition buffer_copy :: "lua_State \<Rightarrow> lua_State res" where
  "buffer_copy L =
     bindE (luaL_checkbuffermutable L 1) (\<lambda>(ta, tb).
     bindE (luaL_checkinteger L 2) (\<lambda>toffset.
     bindE (luaL_checkbuffer L 3) (\<lambda>(sa, sb).
     bindE (luaL_optinteger L 4 0) (\<lambda>soffset.
     bindE (rest_size (length (b_data sb)) soffset) (\<lambda>d.
     bindE (luaL_optinteger L 5 d) (\<lambda>size.
       if size < 0 then Inl out_of_bounds
       else if isoutofbounds soffset (length (b_data sb)) (nat size) then Inl out_of_bounds
       else if isoutofbounds toffset (length (b_data tb)) (nat size) then Inl out_of_bounds
       else bindE (mem_read (b_data sb) soffset (nat size)) (\<lambda>bs. mem_store L ta tb toffset bs)))))))"

definition buffer_fill :: "lua_State \<Rightarrow> lua_State res" where
  "buffer_fill L =
     bindE (luaL_checkbuffermutable L 1) (\<lambda>(a, b).
     bindE (luaL_checkinteger L 2) (\<lambda>offset.
     bindE (luaL_checkunsigned L 3) (\<lambda>value.
     bindE (rest_size (length (b_data b)) offset) (\<lambda>d.
     bindE (luaL_optinteger L 4 d) (\<lambda>size.
       if size < 0 then Inl out_of_bounds
       else if isoutofbounds offset (length (b_data b)) (nat size) then Inl out_of_bounds
       else mem_store L a b offset (replicate (nat size) (ucast (value AND 0xff))))))))"


section \<open>Bit fields\<close>

text \<open>The arguments of both functions and their checks: the bit offset and the bit count.\<close>

definition bit_range :: "nat \<Rightarrow> int \<Rightarrow> int \<Rightarrow> unit res" where
  "bit_range len bitoffset bitcount =
     (if bitoffset < 0 then Inl out_of_bounds
      else if 32 < bitcount mod 2 ^ 32 then Inl (RuntimeError ''bit count is out of range of [0; 32]'')
      else if \<not> in_int64 (bitoffset + bitcount) then Inl (Undefined ''signed overflow of bitoffset + bitcount'')
      else if len * 8 < nat (bitoffset + bitcount) then Inl out_of_bounds
      else Inr ())"

definition startbyte :: "int \<Rightarrow> nat" where
  "startbyte bitoffset = nat (bitoffset div 8 mod 2 ^ 32)"

definition endbyte :: "int \<Rightarrow> int \<Rightarrow> nat" where
  "endbyte bitoffset bitcount = nat ((bitoffset + bitcount + 7) div 8 mod 2 ^ 32)"

definition buffer_readbits :: "lua_State \<Rightarrow> TValue res" where
  "buffer_readbits L =
     bindE (luaL_checkbuffer L 1) (\<lambda>(a, b).
     bindE (luaL_checknumber L 2) (\<lambda>num.
     bindE (luai_num2long num) (\<lambda>bitoffset.
     bindE (luaL_checkinteger L 3) (\<lambda>bitcount.
     bindE (bit_range (length (b_data b)) bitoffset bitcount) (\<lambda>_.
     bindE (mem_read (b_data b) (int (startbyte bitoffset)) (endbyte bitoffset bitcount - startbyte bitoffset)) (\<lambda>bs.
       let data = (word_of_nat (le_nat bs) :: u64);
           subbyteoffset = nat (bitoffset mod 8);
           mask = push_bit (nat bitcount) 1 - 1
       in Inr (lua_pushunsigned (ucast (drop_bit subbyteoffset data AND mask)))))))))"

definition buffer_writebits :: "lua_State \<Rightarrow> lua_State res" where
  "buffer_writebits L =
     bindE (luaL_checkbuffermutable L 1) (\<lambda>(a, b).
     bindE (luaL_checknumber L 2) (\<lambda>num.
     bindE (luai_num2long num) (\<lambda>bitoffset.
     bindE (luaL_checkinteger L 3) (\<lambda>bitcount.
     bindE (luaL_checkunsigned L 4) (\<lambda>value.
     bindE (bit_range (length (b_data b)) bitoffset bitcount) (\<lambda>_.
     bindE (mem_read (b_data b) (int (startbyte bitoffset)) (endbyte bitoffset bitcount - startbyte bitoffset)) (\<lambda>bs.
       let data = (word_of_nat (le_nat bs) :: u64);
           subbyteoffset = nat (bitoffset mod 8);
           mask = push_bit subbyteoffset (push_bit (nat bitcount) 1 - 1);
           data = (data AND NOT mask) OR (push_bit subbyteoffset (ucast value) AND mask)
       in mem_store L a b (int (startbyte bitoffset))
            (take (endbyte bitoffset bitcount - startbyte bitoffset) (le_bytes 8 (unat data))))))))))"

section \<open>Buffer arguments\<close>

lemma index2addr_base [arg_simps]:
  "index2addr (L\<lparr>base := args\<rparr>) idx = (if 0 < idx \<and> idx \<le> length args then Some (args ! (idx - 1)) else None)"
  by (simp add: index2addr_def)

lemma checkbuffer_arg [arg_simps]:
  "index2addr L i = Some (TvBuffer a) \<Longrightarrow> buffers L a = Some b \<Longrightarrow> luaL_checkbuffer L i = Inr (a, b)"
  by (simp add: luaL_checkbuffer_def lua_tobuffer_def)

lemma checkbuffermutable_arg [arg_simps]:
  "index2addr L i = Some (TvBuffer a) \<Longrightarrow> buffers L a = Some b \<Longrightarrow> b_mode b \<noteq> 1
    \<Longrightarrow> luaL_checkbuffermutable L i = Inr (a, b)"
  by (simp add: luaL_checkbuffermutable_def checkbuffer_arg)

lemma optinteger_none [arg_simps]: "index2addr L i = None \<Longrightarrow> luaL_optinteger L i d = Inr d"
  by (simp add: luaL_optinteger_def lua_isnoneornil_def lua_type_def)

lemma checkinteger_pushed [arg_simps]:
  "index2addr L i = Some (lua_pushinteger n) \<Longrightarrow> in_int32 n \<Longrightarrow> luaL_checkinteger L i = Inr n"
  by (simp add: lua_pushinteger_def luaL_checkinteger_of_int)


section \<open>Bounds\<close>

definition wf_state :: "lua_State \<Rightarrow> bool" where
  "wf_state L \<longleftrightarrow> (\<forall>a b. buffers L a = Some b \<longrightarrow> length (b_data b) \<le> MAX_BUFFER_SIZE)"

lemma checkbuffer_Inr: "luaL_checkbuffer L i = Inr (a, b) \<Longrightarrow> buffers L a = Some b"
  by (auto simp: luaL_checkbuffer_def lua_tobuffer_def luaL_typeerrorL_def split: option.splits TValue.splits)

lemma checkbuffer_len:
  "wf_state L \<Longrightarrow> luaL_checkbuffer L i = Inr (a, b) \<Longrightarrow> length (b_data b) \<le> MAX_BUFFER_SIZE"
  "wf_state L \<Longrightarrow> luaL_checkbuffermutable L i = Inr (a, b) \<Longrightarrow> length (b_data b) \<le> MAX_BUFFER_SIZE"
  using checkbuffer_Inr [of L i a b] luaL_checkbuffer_mutable [of L i a b] by (auto simp: wf_state_def)

text \<open>The unsigned comparison excludes negative offsets because buffers are shorter than \<open>2 ^ 31\<close>.\<close>

lemma in_bounds:
  assumes "\<not> isoutofbounds offset len n" "in_int32 offset" "len \<le> MAX_BUFFER_SIZE"
  shows "0 \<le> offset \<and> nat offset + n \<le> len"
proof -
  have "0 \<le> offset"
  proof (rule ccontr)
    assume "\<not> 0 \<le> offset"
    then have "offset mod 2 ^ 32 = offset + 2 ^ 32"
      using assms(2) mod_pos_pos_trivial [of "offset + 2 ^ 32" "2 ^ 32"] by (simp add: in_int32_def)
    then have "\<not> len < nat (offset + 2 ^ 32) + n" using assms(1) by (simp add: isoutofbounds_def)
    then show False using assms(2,3) by (simp add: in_int32_def MAX_BUFFER_SIZE_def not_less) linarith
  qed
  with assms show ?thesis by (simp add: isoutofbounds_def in_int32_def)
qed

lemma mem_read_ok: "\<not> isoutofbounds offset (length d) n \<Longrightarrow> in_int32 offset \<Longrightarrow> length d \<le> MAX_BUFFER_SIZE
    \<Longrightarrow> mem_read d offset n = Inr (take n (drop (nat offset) d))"
  using in_bounds [of offset "length d" n] by (simp add: mem_read_def)

lemma mem_store_ok: "\<not> isoutofbounds offset (length (b_data b)) (length bs) \<Longrightarrow> in_int32 offset
    \<Longrightarrow> length (b_data b) \<le> MAX_BUFFER_SIZE
    \<Longrightarrow> mem_store L a b offset bs
      = Inr (set_data L a b (take (nat offset) (b_data b) @ bs @ drop (nat offset + length bs) (b_data b)))"
  using in_bounds [of offset "length (b_data b)" "length bs"] by (simp add: mem_store_def mem_write_def)

lemma length_fp [simp]: "length (fp_of_double t d) = sizeof_fp t"
  by (cases t) simp_all

text \<open>The byte range of a bit field: inside the buffer and at most five bytes long.\<close>

lemma bit_range_bytes:
  assumes "bit_range len bitoffset bitcount = Inr ()" "len \<le> MAX_BUFFER_SIZE" "in_int32 bitcount"
  shows "0 \<le> bitcount \<and> bitcount \<le> 32 \<and> 0 \<le> bitoffset"
    and "startbyte bitoffset = nat bitoffset div 8"
    and "startbyte bitoffset \<le> endbyte bitoffset bitcount"
    and "endbyte bitoffset bitcount \<le> len"
    and "nat bitoffset mod 8 + nat bitcount \<le> 8 * (endbyte bitoffset bitcount - startbyte bitoffset)"
    and "endbyte bitoffset bitcount - startbyte bitoffset \<le> 5"
proof -
  have o: "0 \<le> bitoffset" "\<not> 32 < bitcount mod 2 ^ 32" "nat (bitoffset + bitcount) \<le> len * 8"
    using assms(1) by (auto simp: bit_range_def split: if_splits)
  have c: "0 \<le> bitcount" 
  proof (rule ccontr)
    assume n: "\<not> 0 \<le> bitcount"
    then have "bitcount mod 2 ^ 32 = bitcount + 2 ^ 32"
      using assms(3) mod_pos_pos_trivial [of "bitcount + 2 ^ 32" "2 ^ 32"] by (simp add: in_int32_def)
    then show False using o(2) assms(3) by (simp add: in_int32_def)
  qed
  then have c32: "bitcount \<le> 32" using o(2) assms(3) by (simp add: in_int32_def)
  show "0 \<le> bitcount \<and> bitcount \<le> 32 \<and> 0 \<le> bitoffset" using c c32 o(1) by simp
  have len: "int len \<le> 2 ^ 30" using assms(2) by (simp add: MAX_BUFFER_SIZE_def)
  have sum: "bitoffset + bitcount \<le> int len * 8" using o c by linarith
  obtain p n where p: "bitoffset = int p" "bitcount = int n" using o(1) c by (metis nonneg_int_cases)
  have pn: "p + n \<le> len * 8" "n \<le> 32" "len \<le> 2 ^ 30" using sum c32 p len by auto
  have s: "startbyte bitoffset = p div 8"
  proof -
    have "bitoffset div 8 mod 2 ^ 32 = int (p div 8 mod 2 ^ 32)" by (simp add: p zdiv_int zmod_int)
    moreover have "p div 8 < 2 ^ 32" using pn by auto
    ultimately show ?thesis by (simp add: startbyte_def)
  qed
  have e: "endbyte bitoffset bitcount = (p + n + 7) div 8"
  proof -
    have "(bitoffset + bitcount + 7) div 8 mod 2 ^ 32 = int ((p + n + 7) div 8 mod 2 ^ 32)"
      by (simp add: p zdiv_int zmod_int)
    moreover have "(p + n + 7) div 8 < 2 ^ 32" using pn by auto
    ultimately show ?thesis by (simp add: endbyte_def)
  qed
  show "startbyte bitoffset = nat bitoffset div 8" using s p by simp
  show "startbyte bitoffset \<le> endbyte bitoffset bitcount" unfolding s e by (intro div_le_mono) simp
  show "endbyte bitoffset bitcount \<le> len" unfolding e using pn by auto
  show "nat bitoffset mod 8 + nat bitcount \<le> 8 * (endbyte bitoffset bitcount - startbyte bitoffset)"
  proof -
    have "p + n \<le> (p + n + 7) div 8 * 8" by linarith
    moreover have "p div 8 * 8 + p mod 8 = p" by simp
    ultimately have "p mod 8 + n \<le> 8 * ((p + n + 7) div 8 - p div 8)"
      unfolding diff_mult_distrib2 by linarith
    then show ?thesis unfolding s e using p by simp
  qed
  show "endbyte bitoffset bitcount - startbyte bitoffset \<le> 5"
  proof -
    have "(p + n + 7) div 8 * 8 \<le> p + n + 7" "p < p div 8 * 8 + 8" by simp_all
    then show ?thesis unfolding s e using pn(2) by linarith
  qed
qed


section \<open>Memory safety\<close>

named_theorems no_access \<open>steps that do not touch a buffer\<close>

lemma checks_no_access [no_access]:
  "luaL_checkbuffer L i \<noteq> Inl access_outside"
  "luaL_checkbuffermutable L i \<noteq> Inl access_outside"
  "luaL_checknumber L i \<noteq> Inl access_outside"
  "luaL_checkinteger64 L i \<noteq> Inl access_outside"
  "luaL_checklstring L i \<noteq> Inl access_outside"
  "luaL_argcheck c i m \<noteq> Inl access_outside"
  "luai_num2long d \<noteq> Inl access_outside"
  "luai_num2int d \<noteq> Inl access_outside"
  "rest_size len offset \<noteq> Inl access_outside"
  "bit_range len bitoffset bitcount \<noteq> Inl access_outside"
  "out_of_bounds \<noteq> access_outside"
  "RuntimeError m \<noteq> access_outside"
  by (auto simp: luaL_checkbuffer_def luaL_checkbuffermutable_def luaL_checknumber_def luaL_checkinteger64_def
      luaL_checklstring_def luaL_argcheck_def luai_num2long_def luai_num2int_def rest_size_def bit_range_def
      access_outside_def out_of_bounds_def luaL_typeerrorL_def bindE_Inl_iff Let_def
      split: option.splits if_splits)

lemma number_checks_no_access [no_access]:
  "luaL_checkinteger L i \<noteq> Inl access_outside"
  "luaL_checkunsigned L i \<noteq> Inl access_outside"
  "luaL_optinteger L i n \<noteq> Inl access_outside"
proof -
  show i: "luaL_checkinteger L i \<noteq> Inl access_outside"
    using checks_no_access(8)
    by (auto simp: luaL_checkinteger_def lua_tointegerx_def bindE_Inl_iff luaL_typeerrorL_def access_outside_def
        split: option.splits)
  show "luaL_checkunsigned L i \<noteq> Inl access_outside"
    using checks_no_access(7)
    by (auto simp: luaL_checkunsigned_def lua_tounsignedx_def luai_num2unsigned_def bindE_Inl_iff
        luaL_typeerrorL_def access_outside_def split: option.splits)
  show "luaL_optinteger L i n \<noteq> Inl access_outside" using i by (simp add: luaL_optinteger_def)
qed

text \<open>The read and the write behind the checks.\<close>

lemma read_guarded:
  assumes "wf_state L" "luaL_checkbuffer L i = Inr (a, b)" "luaL_checkinteger L j = Inr offset"
    "\<not> isoutofbounds offset (length (b_data b)) n"
  shows "mem_read (b_data b) offset n = Inr (take n (drop (nat offset) (b_data b)))"
  using assms by (intro mem_read_ok luaL_checkinteger_range checkbuffer_len(1))

lemma store_guarded:
  assumes "wf_state L" "luaL_checkbuffermutable L i = Inr (a, b)" "luaL_checkinteger L j = Inr offset"
    "\<not> isoutofbounds offset (length (b_data b)) (length bs)"
  shows "mem_store L a b offset bs
    = Inr (set_data L a b (take (nat offset) (b_data b) @ bs @ drop (nat offset + length bs) (b_data b)))"
  using assms by (intro mem_store_ok luaL_checkinteger_range checkbuffer_len(2))

lemma read_bits_guarded:
  assumes "wf_state L" "luaL_checkbuffer L i = Inr (a, b)" "luaL_checkinteger L j = Inr bitcount"
    "bit_range (length (b_data b)) bitoffset bitcount = Inr ()"
  shows "mem_read (b_data b) (int (startbyte bitoffset)) (endbyte bitoffset bitcount - startbyte bitoffset)
    = Inr (take (endbyte bitoffset bitcount - startbyte bitoffset) (drop (startbyte bitoffset) (b_data b)))"
  using bit_range_bytes [OF assms(4) checkbuffer_len(1) [OF assms(1,2)] luaL_checkinteger_range [OF assms(3)]]
  by (simp add: mem_read_def)

lemma readers_safe:
  assumes "wf_state L"
  shows "buffer_tostring L \<noteq> Inl access_outside"
    "buffer_readinteger sg n L \<noteq> Inl access_outside"
    "buffer_readlong L \<noteq> Inl access_outside"
    "buffer_readfp t L \<noteq> Inl access_outside"
    "buffer_readstring L \<noteq> Inl access_outside"
    "buffer_readbits L \<noteq> Inl access_outside"
    "buffer_isfrozen L \<noteq> Inl access_outside"
    "buffer_len L \<noteq> Inl access_outside"
  by (auto simp: buffer_tostring_def buffer_isfrozen_def buffer_len_def mem_read_def bindE_Inl_iff no_access split: prod.splits)
    (auto simp: buffer_readinteger_def buffer_readlong_def buffer_readfp_def buffer_readstring_def
      buffer_readbits_def bindE_Inl_iff no_access read_guarded [OF assms] read_bits_guarded [OF assms] Let_def
      split: prod.splits if_splits)

text \<open>A store that succeeds keeps the length of the buffer.\<close>

lemma mem_store_shape:
  "mem_store L a b offset bs = Inr L' \<Longrightarrow> \<exists>d. length d = length (b_data b) \<and> L' = set_data L a b d"
  unfolding mem_store_def mem_write_def
  by (cases "0 \<le> offset \<and> nat offset + length bs \<le> length (b_data b)")
    (auto intro!: exI [of _ "take (nat offset) (b_data b) @ bs @ drop (nat offset + length bs) (b_data b)"])

text \<open>
  The contract of a writer: it never leaves the buffer, and a successful call replaces the bytes of
  the mutable buffer that is its first argument by as many bytes.
\<close>

locale buffer_writer =
  fixes wop :: "lua_State \<Rightarrow> lua_State res"
  assumes write_safe: "wf_state L \<Longrightarrow> wop L \<noteq> Inl access_outside"
    and write_shape: "wop L = Inr L' \<Longrightarrow>
      \<exists>a b d. luaL_checkbuffermutable L 1 = Inr (a, b) \<and> length d = length (b_data b) \<and> L' = set_data L a b d"
begin

lemma write_wf: "wf_state L \<Longrightarrow> wop L = Inr L' \<Longrightarrow> wf_state L'"
  using write_shape [of L L'] checkbuffer_len(2) [of L 1] by (auto simp: wf_state_def set_data_def split: if_splits)

lemma write_keeps:
  assumes "wop L = Inr L'" "buffers L x = Some c"
  obtains c' where "buffers L' x = Some c'" "length (b_data c') = length (b_data c)" "b_mode c' = b_mode c"
    "b_mode c = 1 \<Longrightarrow> c' = c"
proof -
  from write_shape [OF assms(1)] obtain a b d where w: "luaL_checkbuffermutable L 1 = Inr (a, b)"
    "length d = length (b_data b)" "L' = set_data L a b d" by blast
  with luaL_checkbuffer_mutable [OF w(1)] checkbuffer_Inr [of L 1 a b] have "buffers L a = Some b" "b_mode b \<noteq> 1" by auto
  with assms(2) w(2,3) show ?thesis by (intro that [of "if x = a then b\<lparr>b_data := d\<rparr> else c"]) (auto simp: set_data_def)
qed

lemma write_base: "wop L = Inr L' \<Longrightarrow> base L' = base L"
  using write_shape [of L L'] by (auto simp: set_data_def)

end

interpretation writeinteger: buffer_writer "buffer_writeinteger n" for n
  by unfold_locales
    (auto simp: buffer_writeinteger_def bindE_Inl_iff bindE_Inr_iff no_access store_guarded
      split: prod.splits if_splits dest!: mem_store_shape)

interpretation writelong: buffer_writer buffer_writelong
  by unfold_locales
    (auto simp: buffer_writelong_def bindE_Inl_iff bindE_Inr_iff no_access store_guarded
      split: prod.splits if_splits dest!: mem_store_shape)

interpretation writefp: buffer_writer "buffer_writefp t" for t
  by unfold_locales
    (auto simp: buffer_writefp_def bindE_Inl_iff bindE_Inr_iff no_access store_guarded
      split: prod.splits if_splits dest!: mem_store_shape)

interpretation writestring: buffer_writer buffer_writestring
  by unfold_locales
    (auto simp: buffer_writestring_def bindE_Inl_iff bindE_Inr_iff no_access store_guarded min_def
      split: prod.splits if_splits dest!: mem_store_shape)

interpretation fill: buffer_writer buffer_fill
  by unfold_locales
    (auto simp: buffer_fill_def bindE_Inl_iff bindE_Inr_iff no_access store_guarded
      split: prod.splits if_splits dest!: mem_store_shape)

lemma copy_source:
  assumes "wf_state L" "luaL_checkbuffer L i = Inr (a, b)" "luaL_optinteger L j 0 = Inr offset"
    "\<not> isoutofbounds offset (length (b_data b)) n"
  shows "mem_read (b_data b) offset n = Inr (take n (drop (nat offset) (b_data b)))"
    and "length (take n (drop (nat offset) (b_data b))) = n"
proof -
  have "in_int32 offset" using luaL_optinteger_range [OF _ assms(3)] by (simp add: in_int32_def)
  with assms checkbuffer_len(1) [OF assms(1,2)]
  show "mem_read (b_data b) offset n = Inr (take n (drop (nat offset) (b_data b)))"
    "length (take n (drop (nat offset) (b_data b))) = n"
    using in_bounds [of offset "length (b_data b)" n] by (auto simp: mem_read_ok)
qed

lemma buffer_copy_safe:
  assumes "wf_state L"
  shows "buffer_copy L \<noteq> Inl access_outside"
proof -
  have "mem_store L ta tb toffset (take n (drop (nat soffset) (b_data sb))) \<noteq> Inl access_outside"
    if "luaL_checkbuffermutable L 1 = Inr (ta, tb)" "luaL_checkinteger L 2 = Inr toffset"
      "luaL_checkbuffer L 3 = Inr (sa, sb)" "luaL_optinteger L 4 0 = Inr soffset"
      "\<not> isoutofbounds soffset (length (b_data sb)) n" "\<not> isoutofbounds toffset (length (b_data tb)) n"
    for ta tb toffset sa sb soffset n
    using store_guarded [OF assms that(1,2)] copy_source(2) [OF assms that(3-5)] that(6) by simp
  then show ?thesis
    by (auto simp: buffer_copy_def bindE_Inl_iff no_access copy_source(1) [OF assms] split: prod.splits if_splits)
qed

interpretation copy: buffer_writer buffer_copy
  by unfold_locales
    (use buffer_copy_safe in \<open>auto simp: buffer_copy_def bindE_Inr_iff split: prod.splits if_splits
      dest!: mem_store_shape\<close>)

lemma store_bits_guarded:
  assumes "wf_state L" "luaL_checkbuffermutable L i = Inr (a, b)" "luaL_checkinteger L j = Inr bitcount"
    "bit_range (length (b_data b)) bitoffset bitcount = Inr ()" "length bs = 8"
  shows "mem_store L a b (int (startbyte bitoffset)) (take (endbyte bitoffset bitcount - startbyte bitoffset) bs)
    = Inr (set_data L a b (take (startbyte bitoffset) (b_data b)
        @ take (endbyte bitoffset bitcount - startbyte bitoffset) bs
        @ drop (endbyte bitoffset bitcount) (b_data b)))"
  using bit_range_bytes [OF assms(4) checkbuffer_len(2) [OF assms(1,2)] luaL_checkinteger_range [OF assms(3)]] assms(5)
  by (simp add: mem_store_def mem_write_def)

interpretation writebits: buffer_writer buffer_writebits
proof
  fix L L' :: lua_State
  show "wf_state L \<Longrightarrow> buffer_writebits L \<noteq> Inl access_outside"
    by (auto simp: buffer_writebits_def bindE_Inl_iff no_access store_bits_guarded Let_def
        read_bits_guarded [OF _ conjunct1 [OF luaL_checkbuffer_mutable]] split: prod.splits if_splits)
  show "buffer_writebits L = Inr L' \<Longrightarrow>
      \<exists>a b d. luaL_checkbuffermutable L 1 = Inr (a, b) \<and> length d = length (b_data b) \<and> L' = set_data L a b d"
    by (auto simp: buffer_writebits_def bindE_Inr_iff Let_def split: prod.splits dest!: mem_store_shape)
qed

section \<open>The table of the library\<close>

definition buffer_readers :: "(lua_State \<Rightarrow> TValue res) list" where
  "buffer_readers =
     [buffer_tostring, buffer_readinteger True 1, buffer_readinteger False 1, buffer_readinteger True 2,
      buffer_readinteger False 2, buffer_readinteger True 4, buffer_readinteger False 4, buffer_readfp FpFloat,
      buffer_readfp FpDouble, buffer_readstring, buffer_len, buffer_readbits, buffer_readlong, buffer_isfrozen]"

definition buffer_writers :: "(lua_State \<Rightarrow> lua_State res) list" where
  "buffer_writers =
     [buffer_writeinteger 1, buffer_writeinteger 2, buffer_writeinteger 4, buffer_writefp FpFloat,
      buffer_writefp FpDouble, buffer_writestring, buffer_copy, buffer_fill, buffer_writebits, buffer_writelong]"

lemma buffer_writers_contract: "w \<in> set buffer_writers \<Longrightarrow> buffer_writer w"
  by (auto simp: buffer_writers_def writeinteger.buffer_writer_axioms writelong.buffer_writer_axioms
      writefp.buffer_writer_axioms writestring.buffer_writer_axioms fill.buffer_writer_axioms
      copy.buffer_writer_axioms writebits.buffer_writer_axioms)

text \<open>
  C4: on a state whose buffers respect \<^verbatim>\<open>MAX_BUFFER_SIZE\<close>, no function of the
  \<^verbatim>\<open>buffer\<close> library reads or writes a byte outside the buffer it is given, whatever its
  arguments: every access that the checks let through is in range.
\<close>

theorem buffer_memory_safe:
  assumes "wf_state L"
  shows "(\<forall>r \<in> set buffer_readers. r L \<noteq> Inl access_outside)
    \<and> (\<forall>w \<in> set buffer_writers. w L \<noteq> Inl access_outside)
    \<and> buffer_fromstring a L \<noteq> Inl access_outside"
proof (intro conjI ballI)
  show "r L \<noteq> Inl access_outside" if "r \<in> set buffer_readers" for r
    using that readers_safe [OF assms] by (auto simp: buffer_readers_def)
  show "w L \<noteq> Inl access_outside" if "w \<in> set buffer_writers" for w
    using buffer_writer.write_safe [OF buffer_writers_contract [OF that] assms] .
  show "buffer_fromstring a L \<noteq> Inl access_outside"
    by (auto simp: buffer_fromstring_def luaB_newbuffer_def bindE_Inl_iff no_access mem_store_def mem_write_def
        split: option.splits if_splits)
qed

text \<open>A call with a buffer of four bytes, for the concrete instances below.\<close>

definition one_buffer :: "bytes \<Rightarrow> nat \<Rightarrow> TValue list \<Rightarrow> lua_State" where
  "one_buffer d mode args = (call_state args)\<lparr>buffers := [1 \<mapsto> \<lparr>b_data = d, b_mode = mode\<rparr>]\<rparr>"

lemma one_buffer_simps [arg_simps]:
  "index2addr (one_buffer d mode args) idx = (if 0 < idx \<and> idx \<le> length args then Some (args ! (idx - 1)) else None)"
  "buffers (one_buffer d mode args) = [1 \<mapsto> \<lparr>b_data = d, b_mode = mode\<rparr>]"
  by (simp_all add: one_buffer_def index2addr_def call_state_def)

lemma one_buffer_wf: "length d \<le> MAX_BUFFER_SIZE \<Longrightarrow> wf_state (one_buffer d mode args)"
  by (simp add: wf_state_def one_buffer_def)

lemma buffer_memory_safe_witness:
  "buffer_readstring (one_buffer [1, 2, 3, 4] 0 [TvBuffer 1, lua_pushinteger (-1), lua_pushinteger 3]) \<noteq> Inl access_outside"
  using buffer_memory_safe [OF one_buffer_wf, of "[1, 2, 3, 4]" 0 "[TvBuffer 1, lua_pushinteger (-1), lua_pushinteger 3]"]
  by (simp add: buffer_readers_def MAX_BUFFER_SIZE_def)

text \<open>Programs: sequences of calls, each with its own arguments.\<close>

inductive buffer_step :: "lua_State \<Rightarrow> lua_State \<Rightarrow> bool" where
  step_write: "w \<in> set buffer_writers \<Longrightarrow> w (L\<lparr>base := args\<rparr>) = Inr L' \<Longrightarrow> buffer_step L L'"
| step_create: "buffers L a = None \<Longrightarrow> buffer_create a (L\<lparr>base := args\<rparr>) = Inr (L', v) \<Longrightarrow> buffer_step L L'"
| step_fromstring: "buffers L a = None \<Longrightarrow> buffer_fromstring a (L\<lparr>base := args\<rparr>) = Inr (L', v) \<Longrightarrow> buffer_step L L'"

text \<open>What a call keeps of a buffer: length and mode, and every byte if it is immutable.\<close>

definition kept :: "Buffer \<Rightarrow> Buffer \<Rightarrow> bool" where
  "kept c c' \<longleftrightarrow> length (b_data c') = length (b_data c) \<and> b_mode c' = b_mode c \<and> (b_mode c = 1 \<longrightarrow> c' = c)"

definition buffers_kept :: "lua_State \<Rightarrow> lua_State \<Rightarrow> bool" where
  "buffers_kept L L' \<longleftrightarrow> (\<forall>x c. buffers L x = Some c \<longrightarrow> (\<exists>c'. buffers L' x = Some c' \<and> kept c c'))"

lemma buffers_kept_refl: "buffers_kept L L"
  by (simp add: buffers_kept_def kept_def)

lemma buffers_kept_trans: "buffers_kept L1 L2 \<Longrightarrow> buffers_kept L2 L3 \<Longrightarrow> buffers_kept L1 L3"
  unfolding buffers_kept_def kept_def by metis

lemma newbuffer_fresh:
  assumes "luaB_newbuffer (L\<lparr>base := args\<rparr>) a s = Inr L'" "buffers L a = None" "wf_state L"
  shows "wf_state L'" "buffers_kept L L'"
  using assms by (auto simp: luaB_newbuffer_def wf_state_def buffers_kept_def kept_def split: if_splits)

lemma buffer_step_keeps:
  assumes "buffer_step L L'" "wf_state L"
  shows "wf_state L' \<and> buffers_kept L L'"
  using assms
proof cases
  case (step_write w args)
  let ?L = "L\<lparr>base := args\<rparr>"
  note c = buffer_writers_contract [OF step_write(1)]
  have "wf_state ?L" using assms(2) by (simp add: wf_state_def)
  then have "wf_state L'" by (rule buffer_writer.write_wf [OF c]) (rule step_write(2))
  moreover have "buffers_kept L L'"
    unfolding buffers_kept_def kept_def
  proof (intro allI impI)
    fix x d
    assume "buffers L x = Some d"
    then have "buffers ?L x = Some d" by simp
    then show "\<exists>c'. buffers L' x = Some c' \<and> length (b_data c') = length (b_data d) \<and> b_mode c' = b_mode d \<and> (b_mode d = 1 \<longrightarrow> c' = d)"
      by (rule buffer_writer.write_keeps [OF c step_write(2)]) blast
  qed
  ultimately show ?thesis ..
next
  case (step_create a args v)
  then show ?thesis using newbuffer_fresh [OF _ step_create(1) assms(2)]
    by (auto simp: buffer_create_def bindE_Inr_iff)
next
  case (step_fromstring a args v)
  then obtain L1 s b val where n: "luaB_newbuffer (L\<lparr>base := args\<rparr>) a s = Inr L1" "buffers L1 a = Some b"
      and w: "mem_store L1 a b 0 val = Inr L'"
    by (auto simp: buffer_fromstring_def bindE_Inr_iff split: option.splits)
  note k = newbuffer_fresh [OF n(1) step_fromstring(1) assms(2)]
  from mem_store_shape [OF w] obtain d where "length d = length (b_data b)" "L' = set_data L1 a b d" by blast
  with k n(2) step_fromstring(1) show ?thesis
    by (auto simp: wf_state_def buffers_kept_def kept_def set_data_def split: if_splits)
qed

text \<open>
  C20: along every sequence of calls to the \<^verbatim>\<open>buffer\<close> library, from a state whose buffers
  respect the size limit, the limit keeps holding, no buffer changes its length or its mode, and a
  buffer that the host made immutable keeps every byte.
\<close>

theorem frozen_buffers_constant:
  assumes "buffer_step\<^sup>*\<^sup>* L L'" "wf_state L"
  shows "wf_state L' \<and> (\<forall>a b. buffers L a = Some b \<longrightarrow>
    (\<exists>b'. buffers L' a = Some b' \<and> length (b_data b') = length (b_data b) \<and> b_mode b' = b_mode b
       \<and> (b_mode b = 1 \<longrightarrow> b_data b' = b_data b)))"
proof -
  from assms have "wf_state L' \<and> buffers_kept L L'"
  proof (induction rule: rtranclp_induct)
    case base
    then show ?case by (simp add: buffers_kept_refl)
  next
    case (step y z)
    then show ?case using buffer_step_keeps [OF step(2)] buffers_kept_trans by blast
  qed
  then show ?thesis by (fastforce simp: buffers_kept_def kept_def)
qed

lemma frozen_buffers_constant_witness:
  "\<exists>L'. buffer_fill (one_buffer [1, 2, 3, 4] 0 [TvBuffer 1, lua_pushinteger 1, lua_pushunsigned 9]) = Inr L'
    \<and> length (b_data (the (buffers L' 1))) = 4"
proof -
  let ?L = "one_buffer [1, 2, 3, 4] 0 [TvBuffer 1, lua_pushinteger 1, lua_pushunsigned 9]"
  have "\<exists>L'. buffer_fill ?L = Inr L'"
    by (simp add: buffer_fill_def arg_simps in_int32_def rest_size_def int_of_size_def isoutofbounds_def
        mem_store_def mem_write_def)
  then obtain L' where w: "buffer_fill ?L = Inr L'" ..
  have "buffer_fill (?L\<lparr>base := base ?L\<rparr>) = Inr L'" using w by simp
  then have "buffer_step ?L L'" by (intro step_write [of buffer_fill]) (simp add: buffer_writers_def)
  then have "buffer_step\<^sup>*\<^sup>* ?L L'" by (rule r_into_rtranclp)
  moreover have "buffers ?L 1 = Some \<lparr>b_data = [1, 2, 3, 4], b_mode = 0\<rparr>" by (simp add: one_buffer_simps)
  ultimately have "\<exists>b'. buffers L' 1 = Some b' \<and> length (b_data b') = 4"
    using frozen_buffers_constant [OF _ one_buffer_wf] by (fastforce simp: MAX_BUFFER_SIZE_def)
  with w show ?thesis by auto
qed

section \<open>Typed reads return what typed writes stored\<close>

text \<open>A read of the bytes that a write stored, and of the bytes outside them.\<close>

lemma store_at_read:
  assumes "k + length bs \<le> length d"
  shows "take (length bs) (drop k (take k d @ bs @ drop (k + length bs) d)) = bs"
    and "length (take k d @ bs @ drop (k + length bs) d) = length d"
    and "i < k \<or> k + length bs \<le> i \<Longrightarrow> i < length d \<Longrightarrow> (take k d @ bs @ drop (k + length bs) d) ! i = d ! i"
  using assms by (auto simp: nth_append min_def)

lemma offset_in_bounds:
  assumes "0 \<le> offset" "nat offset + n \<le> len" "len \<le> MAX_BUFFER_SIZE"
  shows "in_int32 offset" "\<not> isoutofbounds offset len n"
proof -
  have "offset < 2 ^ 31" using assms by (simp add: MAX_BUFFER_SIZE_def)
  then show "in_int32 offset" using assms by (simp add: in_int32_def)
  then show "\<not> isoutofbounds offset len n" using assms by (simp add: isoutofbounds_def in_int32_def)
qed

lemma mem_read_written:
  assumes "0 \<le> offset" "nat offset + length bs \<le> length (b_data b)"
  shows "mem_read (take (nat offset) (b_data b) @ bs @ drop (nat offset + length bs) (b_data b)) offset (length bs) = Inr bs"
  using assms store_at_read [of "nat offset" bs "b_data b"] by (simp add: mem_read_def)

lemma unat_mod_width: "n \<le> 4 \<Longrightarrow> unat (word_of_int k :: u32) mod 256 ^ n = nat (k mod 256 ^ n)"
proof -
  assume "n \<le> 4"
  then have "(256 :: int) ^ n dvd 256 ^ 4" by (rule le_imp_power_dvd)
  then have "(k mod 2 ^ 32) mod 256 ^ n = k mod 256 ^ n" by (simp add: mod_mod_cancel)
  moreover have "unat (word_of_int k :: u32) = nat (k mod 2 ^ 32)"
    by (simp flip: nat_uint_eq add: uint_word_of_int)
  moreover have "nat (k mod 2 ^ 32 mod 256 ^ n) = nat (k mod 2 ^ 32) mod 256 ^ n"
    by (subst nat_mod_distrib) (simp_all add: nat_power_eq)
  ultimately show ?thesis by simp
qed

lemma int_value_range:
  assumes "0 < n"
  shows "(if sg then - (2 ^ (8 * n - 1)) \<le> k \<and> k < 2 ^ (8 * n - 1) else 0 \<le> k \<and> k < 2 ^ (8 * n)) =
    (int_value sg n (nat (k mod 256 ^ n)) = k)"
proof -
  have w: "(256 :: int) ^ n = 2 ^ (8 * n)" by (simp add: power_mult)
  define h :: int where "h = 2 ^ (8 * n - 1)"
  have "8 * n = Suc (8 * n - 1)" using assms by simp
  then have h: "(2 :: int) ^ (8 * n) = 2 * h" unfolding h_def by (metis power_Suc)
  have pos: "0 < h" by (simp add: h_def)
  define m where "m = k mod (2 * h)"
  have m: "0 \<le> m" "m < 2 * h" using pos by (simp_all add: m_def)
  have nat: "2 ^ (8 * n - 1) \<le> nat m \<longleftrightarrow> h \<le> m" using m by (simp add: h_def le_nat_iff)
  have v: "int_value sg n (nat (k mod 256 ^ n)) = (if sg \<and> h \<le> m then m - 2 * h else m)"
    unfolding int_value_def w h m_def [symmetric] nat using m by simp
  have eq: "k - m = 2 * h * (k div (2 * h))" unfolding m_def by (simp add: minus_mod_eq_mult_div)
  have k1: "k = m" if "0 \<le> k" "k < 2 * h" using that unfolding m_def by simp
  have k2: "k = m - 2 * h" if "- h \<le> k" "k < 0"
  proof -
    have "(k + 2 * h) mod (2 * h) = k + 2 * h" using that pos by (intro mod_pos_pos_trivial) auto
    then show ?thesis by (simp add: m_def)
  qed
  show ?thesis unfolding v h h_def [symmetric] using k1 k2 m pos by (cases "0 \<le> k") auto
qed

text \<open>
  C28: an integer written by \<^verbatim>\<open>buffer.write\<close> with up to 4 bytes at an offset inside a mutable
  buffer is read back at that offset, as a signed or as an unsigned number. The integer may be any whole number of magnitude below 2^53,
  where doubles are exact, so negative ones and those beyond 32 bits are included: what comes back is the number modulo its width, and the number itself
  when the type that is read can hold it. All other bytes keep their values.
\<close>

theorem writeinteger_readinteger:
  assumes "buffers L a = Some b" "b_mode b \<noteq> 1" "length (b_data b) \<le> MAX_BUFFER_SIZE"
    and "0 \<le> offset" "nat offset + n \<le> length (b_data b)" "0 < n" "n \<le> 4" "exact_in_double k"
  shows "\<exists>L' b' r. buffer_writeinteger n (L\<lparr>base := [TvBuffer a, lua_pushinteger offset, lua_pushinteger k]\<rparr>) = Inr L'
    \<and> buffer_readinteger sg n (L'\<lparr>base := [TvBuffer a, lua_pushinteger offset]\<rparr>) = Inr (lua_pushinteger r)
    \<and> r = int_value sg n (nat (k mod 256 ^ n))
    \<and> (if sg then - (2 ^ (8 * n - 1)) \<le> k \<and> k < 2 ^ (8 * n - 1) else 0 \<le> k \<and> k < 2 ^ (8 * n)) = (r = k)
    \<and> buffers L' a = Some b' \<and> length (b_data b') = length (b_data b)
    \<and> (\<forall>i < length (b_data b). i < nat offset \<or> nat offset + n \<le> i \<longrightarrow> b_data b' ! i = b_data b ! i)"
proof -
  let ?L = "L\<lparr>base := [TvBuffer a, lua_pushinteger offset, lua_pushinteger k]\<rparr>"
  let ?v = "word_of_int k :: u32"
  let ?bs = "le_bytes n (unat ?v)"
  let ?d = "take (nat offset) (b_data b) @ ?bs @ drop (nat offset + n) (b_data b)"
  note off = offset_in_bounds [OF assms(4,5,3)]
  have l: "nat offset + length ?bs \<le> length (b_data b)" using assms(5) by simp
  note s = store_at_read [OF l]
  have w: "buffer_writeinteger n ?L = Inr (set_data ?L a b ?d)"
    using assms off by (simp add: buffer_writeinteger_def arg_simps lua_pushinteger_def mem_store_def mem_write_def)
  have "mem_read ?d offset n = Inr ?bs" using mem_read_written [OF assms(4) l] by simp
  moreover have "unat ?v mod 256 ^ n = nat (k mod 256 ^ n)" by (rule unat_mod_width [OF assms(7)])
  ultimately have "buffer_readinteger sg n ((set_data ?L a b ?d)\<lparr>base := [TvBuffer a, lua_pushinteger offset]\<rparr>)
        = Inr (lua_pushinteger (int_value sg n (nat (k mod 256 ^ n))))"
    using off s(2) by (simp add: buffer_readinteger_def arg_simps lua_pushinteger_def set_data_def le_nat_le_bytes)
  then show ?thesis using w s int_value_range [OF assms(6), of sg k] by (auto simp: set_data_def)
qed


text \<open>The number -2 in two bytes.\<close>

lemma writeinteger_readinteger_witness:
  "\<exists>L'. buffer_writeinteger 2 (one_buffer [1, 2, 3, 4] 0 [TvBuffer 1, lua_pushinteger 1, lua_pushinteger (-2)]) = Inr L'
    \<and> buffer_readinteger True 2 (L'\<lparr>base := [TvBuffer 1, lua_pushinteger 1]\<rparr>) = Inr (lua_pushinteger (-2))"
proof -
  let ?L = "one_buffer [1, 2, 3, 4] 0 [TvBuffer 1, lua_pushinteger 1, lua_pushinteger (-2)]"
  have "?L\<lparr>base := [TvBuffer 1, lua_pushinteger 1, lua_pushinteger (-2)]\<rparr> = ?L"
    by (simp add: one_buffer_def call_state_def)
  then show ?thesis
    using writeinteger_readinteger [of ?L 1 _ 1 2 "-2" True]
    by (simp add: one_buffer_simps MAX_BUFFER_SIZE_def exact_in_double_def) metis
qed

text \<open>The same for 64-bit integers and for floating-point numbers.\<close>

lemma writelong_readlong:
  assumes "buffers L a = Some b" "b_mode b \<noteq> 1" "length (b_data b) \<le> MAX_BUFFER_SIZE"
    and "0 \<le> offset" "nat offset + 8 \<le> length (b_data b)"
  shows "\<exists>L'. buffer_writelong (L\<lparr>base := [TvBuffer a, lua_pushinteger offset, TvInteger v]\<rparr>) = Inr L'
    \<and> buffer_readlong (L'\<lparr>base := [TvBuffer a, lua_pushinteger offset]\<rparr>) = Inr (TvInteger v)"
proof -
  let ?L = "L\<lparr>base := [TvBuffer a, lua_pushinteger offset, TvInteger v]\<rparr>"
  let ?bs = "le_bytes 8 (unat v)"
  let ?d = "take (nat offset) (b_data b) @ ?bs @ drop (nat offset + 8) (b_data b)"
  note off = offset_in_bounds [OF assms(4,5,3)]
  have l: "nat offset + length ?bs \<le> length (b_data b)" using assms(5) by simp
  have w: "buffer_writelong ?L = Inr (set_data ?L a b ?d)"
    using assms off by (simp add: buffer_writelong_def arg_simps mem_store_def mem_write_def)
  have "unat v mod 256 ^ 8 = unat v" using unsigned_less [of v, where ?'a = nat] by simp
  then have "(word_of_nat (le_nat ?bs) :: u64) = v" by (simp only: le_nat_le_bytes) simp
  moreover have "mem_read ?d offset 8 = Inr ?bs" using mem_read_written [OF assms(4) l] by simp
  ultimately have "buffer_readlong ((set_data ?L a b ?d)\<lparr>base := [TvBuffer a, lua_pushinteger offset]\<rparr>) = Inr (TvInteger v)"
    using off store_at_read(2) [OF l] by (simp add: buffer_readlong_def arg_simps set_data_def)
  then show ?thesis using w by blast
qed

lemma checknumber_arg [arg_simps]: "index2addr L i = Some (TvNumber d) \<Longrightarrow> luaL_checknumber L i = Inr d"
  by (simp add: luaL_checknumber_def lua_tonumberx_number)

lemma fp_round_trip: "double_of_fp FpDouble (fp_of_double FpDouble d) = d"
  "\<not> flt_isnan f \<Longrightarrow> fp_of_double FpFloat (dbl_of_flt f) = le_bytes 4 (unat f)"
proof -
  have "unat d mod 256 ^ 8 = unat d" using unsigned_less [of d, where ?'a = nat] by simp
  then show "double_of_fp FpDouble (fp_of_double FpDouble d) = d"
    by (simp only: double_of_fp.simps fp_of_double.simps le_nat_le_bytes) simp
qed (simp add: flt_of_dbl_of_flt)

text \<open>
  a number written by \<^verbatim>\<open>buffer.writef64\<close> is read back bit for bit by \<^verbatim>\<open>buffer.readf64\<close>; and a
  number that is exactly a \<^verbatim>\<open>float\<close> and not NaN survives \<^verbatim>\<open>buffer.writef32\<close> and \<^verbatim>\<open>buffer.readf32\<close>.
\<close>

theorem writefp_readfp:
  assumes "buffers L a = Some b" "b_mode b \<noteq> 1" "length (b_data b) \<le> MAX_BUFFER_SIZE"
    and "0 \<le> offset" "nat offset + sizeof_fp t \<le> length (b_data b)"
    and "t = FpFloat \<Longrightarrow> \<exists>f. d = dbl_of_flt f \<and> \<not> flt_isnan f"
  shows "\<exists>L'. buffer_writefp t (L\<lparr>base := [TvBuffer a, lua_pushinteger offset, TvNumber d]\<rparr>) = Inr L'
    \<and> buffer_readfp t (L'\<lparr>base := [TvBuffer a, lua_pushinteger offset]\<rparr>) = Inr (TvNumber d)"
proof -
  let ?L = "L\<lparr>base := [TvBuffer a, lua_pushinteger offset, TvNumber d]\<rparr>"
  let ?bs = "fp_of_double t d"
  let ?d = "take (nat offset) (b_data b) @ ?bs @ drop (nat offset + sizeof_fp t) (b_data b)"
  note off = offset_in_bounds [OF assms(4,5,3)]
  have l: "nat offset + length ?bs \<le> length (b_data b)" using assms(5) by simp
  have w: "buffer_writefp t ?L = Inr (set_data ?L a b ?d)"
    using assms off by (simp add: buffer_writefp_def arg_simps mem_store_def mem_write_def)
  have "double_of_fp t ?bs = d"
  proof (cases t)
    case FpFloat
    with assms(6) obtain f where f: "d = dbl_of_flt f" "\<not> flt_isnan f" by blast
    have "unat f mod 256 ^ 4 = unat f" using unat_u32_bound [of f] by simp
    then have "(word_of_nat (le_nat (le_bytes 4 (unat f))) :: u32) = f" by (simp only: le_nat_le_bytes) simp
    then show ?thesis using FpFloat f fp_round_trip(2) [OF f(2)] by (simp del: fp_of_double.simps)
  next
    case FpDouble
    then show ?thesis using fp_round_trip(1) by simp
  qed
  moreover have "mem_read ?d offset (sizeof_fp t) = Inr ?bs" using mem_read_written [OF assms(4) l] by simp
  ultimately have "buffer_readfp t ((set_data ?L a b ?d)\<lparr>base := [TvBuffer a, lua_pushinteger offset]\<rparr>) = Inr (TvNumber d)"
    using off store_at_read(2) [OF l] by (simp add: buffer_readfp_def arg_simps set_data_def)
  then show ?thesis using w by blast
qed

lemma writefp_readfp_witness:
  "\<exists>L'. buffer_writefp FpFloat ((one_buffer [1, 2, 3, 4] 0 [])\<lparr>base := [TvBuffer 1, lua_pushinteger 0, TvNumber (dbl_of_flt 0x3F800000)]\<rparr>) = Inr L'
    \<and> buffer_readfp FpFloat (L'\<lparr>base := [TvBuffer 1, lua_pushinteger 0]\<rparr>) = Inr (TvNumber (dbl_of_flt 0x3F800000))"
proof (rule writefp_readfp [where b = "\<lparr>b_data = [1, 2, 3, 4], b_mode = 0\<rparr>"])
  show "\<exists>f. dbl_of_flt 0x3F800000 = dbl_of_flt f \<and> \<not> flt_isnan f"
    by (intro exI [of _ "0x3F800000"]) (simp add: flt_isnan_def flt_exponent_def)
qed (simp_all add: one_buffer_simps MAX_BUFFER_SIZE_def)

section \<open>Bit fields\<close>

lemma bit_le_nat: "bit (le_nat bs) i \<longleftrightarrow> i div 8 < length bs \<and> bit (bs ! (i div 8)) (i mod 8)"
proof (induction bs arbitrary: i)
  case (Cons b bs)
  have "unat b AND push_bit 8 (le_nat bs) = 0"
    by (rule bit_eqI) (auto simp: bit_and_iff bit_push_bit_iff bit_unsigned_iff dest: bit_imp_le_length)
  then have "le_nat (b # bs) = unat b OR push_bit 8 (le_nat bs)"
    using disjunctive_add_eq_or [of "unat b" "push_bit 8 (le_nat bs)"] by (simp add: push_bit_eq_mult ac_simps)
  then have *: "bit (le_nat (b # bs)) i \<longleftrightarrow> bit b i \<or> 8 \<le> i \<and> bit (le_nat bs) (i - 8)"
    by (simp add: bit_or_iff bit_push_bit_iff bit_unsigned_iff del: le_nat.simps)
  show ?case
  proof (cases "i < 8")
    case True
    then show ?thesis using * by simp
  next
    case False
    then obtain j where "i = j + 8" by (metis add.commute le_Suc_ex not_less)
    moreover have "\<not> bit b i" using False by (auto dest: bit_imp_le_length)
    moreover have "(j + 8) div 8 = Suc (j div 8)" by simp
    ultimately show ?thesis using * Cons [of j] by (simp only: nth_Cons_Suc list.size mod_add_self2 add_diff_cancel_right') simp
  qed
qed simp

lemma bit_le_bytes: "j < n \<Longrightarrow> k < 8 \<Longrightarrow> bit (le_bytes n v ! j) k \<longleftrightarrow> bit v (8 * j + k)"
proof (induction n arbitrary: j v)
  case (Suc n)
  show ?case
  proof (cases j)
    case 0
    have "bit (word_of_nat (v mod 256) :: byte) k \<longleftrightarrow> bit (take_bit 8 v) k"
      using Suc(3) by (simp add: bit_of_nat_iff take_bit_eq_mod possible_bit_def)
    then show ?thesis using 0 Suc(3) by (simp add: bit_take_bit_iff)
  next
    case (Suc j')
    have "bit (v div 256) (8 * j' + k) \<longleftrightarrow> bit (drop_bit 8 v) (8 * j' + k)" by (simp add: drop_bit_eq_div)
    then show ?thesis using Suc Suc.prems Suc.IH [of j' "v div 256"] by (simp add: bit_drop_bit_eq ac_simps)
  qed
qed simp

text \<open>The eight bytes the code works on, as bits of the buffer.\<close>

lemma bit_window:
  assumes "s + m \<le> length d" "m \<le> 8"
  shows "bit (word_of_nat (le_nat (take m (drop s d))) :: u64) i \<longleftrightarrow> i < 8 * m \<and> bit (le_nat d) (8 * s + i)"
proof -
  have *: "bit (le_nat (take m (drop s d))) i \<longleftrightarrow> i < 8 * m \<and> bit (le_nat d) (8 * s + i)" for i
  proof (cases "i < 8 * m")
    case True
    then have "i div 8 < m" by (simp add: less_mult_imp_div_less)
    then show ?thesis using assms True by (simp add: bit_le_nat div_add1_eq [of "8 * s"])
  next
    case False
    then have "\<not> i div 8 < m" by simp
    then show ?thesis using False by (simp add: bit_le_nat)
  qed
  show ?thesis unfolding bit_of_nat_iff * using assms(2) by (auto simp: possible_bit_def)
qed

lemma bit_field_mask: "bit (push_bit n 1 - 1 :: u64) i \<longleftrightarrow> i < n \<and> i < 64"
proof -
  have "push_bit n 1 - 1 = (mask n :: u64)" by (simp add: mask_eq_exp_minus_1 push_bit_eq_mult)
  then show ?thesis by (auto simp: bit_mask_iff possible_bit_def)
qed

lemma bit_div_mod: "bit (x div 2 ^ p mod 2 ^ n :: nat) i \<longleftrightarrow> i < n \<and> bit x (p + i)"
  by (simp flip: drop_bit_eq_div take_bit_eq_mod add: bit_take_bit_iff bit_drop_bit_eq)

lemma readbits_value:
  assumes "s + m \<le> length d" "m \<le> 8" "r + n \<le> 8 * m" "n \<le> 32"
  shows "(ucast (drop_bit r (word_of_nat (le_nat (take m (drop s d))) :: u64) AND (push_bit n 1 - 1)) :: u32)
    = word_of_nat (le_nat d div 2 ^ (8 * s + r) mod 2 ^ n)"
proof (rule bit_word_eqI)
  fix i
  assume "i < LENGTH(32)"
  then have i: "i < 32" by simp
  show "bit (ucast (drop_bit r (word_of_nat (le_nat (take m (drop s d))) :: u64) AND (push_bit n 1 - 1)) :: u32) i
    \<longleftrightarrow> bit (word_of_nat (le_nat d div 2 ^ (8 * s + r) mod 2 ^ n) :: u32) i"
    unfolding bit_ucast_iff bit_and_iff bit_drop_bit_eq bit_field_mask o_apply bit_window [OF assms(1,2)]
    unfolding bit_of_nat_iff bit_div_mod
    using i assms by (auto simp: possible_bit_def ac_simps)
qed

lemma bit_range_valid:
  assumes "p + n \<le> 8 * len" "n \<le> 32" "len \<le> MAX_BUFFER_SIZE"
  shows "bit_range len (int p) (int n) = Inr ()" "in_int32 (int n)" "exact_in_double (int p)"
  using assms
  by (auto simp: bit_range_def in_int64_def in_int32_def MAX_BUFFER_SIZE_def exact_in_double_def nat_add_distrib)

text \<open>
  C19: \<^verbatim>\<open>buffer.readbits\<close> returns the bits \<open>p\<close> to \<open>p + n - 1\<close> of the whole buffer read as one
  little-endian number, for every field of at most 32 bits inside the buffer.
\<close>

theorem readbits_spec:
  assumes "buffers L a = Some b" "length (b_data b) \<le> MAX_BUFFER_SIZE"
    and "n \<le> 32" "p + n \<le> 8 * length (b_data b)"
  shows "buffer_readbits (L\<lparr>base := [TvBuffer a, lua_pushinteger (int p), lua_pushinteger (int n)]\<rparr>)
    = Inr (lua_pushunsigned (word_of_nat (le_nat (b_data b) div 2 ^ p mod 2 ^ n)))"
proof -
  note v = bit_range_valid [OF assms(4,3,2)]
  note r = bit_range_bytes [OF v(1) assms(2) v(2)]
  define s m where "s = startbyte (int p)" and "m = endbyte (int p) (int n) - startbyte (int p)"
  have sm: "s + m \<le> length (b_data b)" "m \<le> 8" "p mod 8 + n \<le> 8 * m" "8 * s + p mod 8 = p"
    using r by (auto simp: s_def m_def)
  have "mem_read (b_data b) (int s) m = Inr (take m (drop s (b_data b)))" using sm by (simp add: mem_read_def)
  moreover have "nat (int p mod 8) = p mod 8" by (simp add: nat_mod_distrib)
  ultimately show ?thesis
    using assms v readbits_value [OF sm(1-3) assms(3)] sm(4)
    by (simp add: buffer_readbits_def arg_simps lua_pushinteger_def s_def m_def Let_def)
qed

lemma readbits_spec_witness:
  "buffer_readbits ((one_buffer [0x34, 0x12] 0 [])\<lparr>base := [TvBuffer 1, lua_pushinteger (int 4), lua_pushinteger (int 8)]\<rparr>)
    = Inr (lua_pushunsigned 0x23)"
  using readbits_spec [of "one_buffer [0x34, 0x12] 0 []" 1 "\<lparr>b_data = [0x34, 0x12], b_mode = 0\<rparr>" 8 4]
  by (simp add: one_buffer_simps MAX_BUFFER_SIZE_def)


text \<open>The window put back into the buffer.\<close>

lemma bit_window_stored:
  assumes "s + m \<le> length d" "m \<le> 8"
  shows "bit (le_nat (take s d @ take m (le_bytes 8 (unat (w :: u64))) @ drop (s + m) d)) i
    \<longleftrightarrow> (if 8 * s \<le> i \<and> i < 8 * (s + m) then bit w (i - 8 * s) else bit (le_nat d) i)"
proof -
  let ?d = "take s d @ take m (le_bytes 8 (unat w)) @ drop (s + m) d"
  have len: "length ?d = length d" using assms by simp
  consider "i div 8 < s" | "s \<le> i div 8" "i div 8 < s + m" | "s + m \<le> i div 8" by linarith
  then show ?thesis
  proof cases
    case 1
    then have "i < 8 * s" by (simp add: div_less_iff_less_mult mult.commute)
    then show ?thesis using 1 assms by (simp add: bit_le_nat nth_append)
  next
    case 2
    then have i: "8 * s \<le> i" "i < 8 * (s + m)"
      by (simp_all add: less_eq_div_iff_mult_less_eq div_less_iff_less_mult mult.commute)
    have "8 * (i div 8) + i mod 8 = i" by simp
    then have b: "i div 8 - s < 8" "8 * (i div 8 - s) + i mod 8 = i - 8 * s"
      using 2 i(1) assms(2) unfolding diff_mult_distrib2 by linarith+
    have n: "?d ! (i div 8) = le_bytes 8 (unat w) ! (i div 8 - s)"
    proof -
      have "i div 8 - s < m" using 2 by linarith
      then show ?thesis using 2 assms by (simp add: nth_append)
    qed
    have "bit (le_nat ?d) i \<longleftrightarrow> bit (le_bytes 8 (unat w) ! (i div 8 - s)) (i mod 8)"
      using 2 assms(1) unfolding bit_le_nat len n by auto
    also have "\<dots> \<longleftrightarrow> bit w (i - 8 * s)"
      using bit_le_bytes [OF b(1), of "i mod 8" "unat w"] by (simp add: b(2) bit_unsigned_iff)
    finally show ?thesis using i by simp
  next
    case 3
    then have "8 * (s + m) \<le> i" by (simp add: less_eq_div_iff_mult_less_eq mult.commute)
    moreover have "?d ! (i div 8) = d ! (i div 8)" if "i div 8 < length d"
    proof -
      have "\<not> i div 8 < s" "\<not> i div 8 - s < m" using 3 by linarith+
      then show ?thesis using 3 assms that by (simp add: nth_append)
    qed
    ultimately show ?thesis unfolding bit_le_nat len by auto
  qed
qed

lemma bit_field_set:
  fixes data :: u64
  shows "bit ((data AND NOT (push_bit r (push_bit n 1 - 1))) OR (push_bit r v AND push_bit r (push_bit n 1 - 1))) i
    \<longleftrightarrow> i < 64 \<and> (if r \<le> i \<and> i < r + n then bit v (i - r) else bit data i)"
  unfolding bit_or_iff bit_and_iff bit_not_iff bit_push_bit_iff bit_field_mask
  by (auto simp: possible_bit_def dest: bit_imp_le_length)

text \<open>
  C17: \<^verbatim>\<open>buffer.writebits\<close> replaces the bits \<open>p\<close> to \<open>p + n - 1\<close> of the buffer, read as one
  little-endian number, by the low bits of the value, and changes no other bit.
\<close>

theorem writebits_spec:
  assumes "buffers L a = Some b" "b_mode b \<noteq> 1" "length (b_data b) \<le> MAX_BUFFER_SIZE"
    and "n \<le> 32" "p + n \<le> 8 * length (b_data b)"
  shows "\<exists>L' b'. buffer_writebits (L\<lparr>base := [TvBuffer a, lua_pushinteger (int p), lua_pushinteger (int n), lua_pushunsigned v]\<rparr>) = Inr L'
    \<and> buffers L' a = Some b' \<and> length (b_data b') = length (b_data b)
    \<and> (\<forall>i. bit (le_nat (b_data b')) i \<longleftrightarrow> (if p \<le> i \<and> i < p + n then bit v (i - p) else bit (le_nat (b_data b)) i))"
proof -
  let ?L = "L\<lparr>base := [TvBuffer a, lua_pushinteger (int p), lua_pushinteger (int n), lua_pushunsigned v]\<rparr>"
  note v = bit_range_valid [OF assms(5,4,3)]
  note r = bit_range_bytes [OF v(1) assms(3) v(2)]
  define s m where "s = startbyte (int p)" and "m = endbyte (int p) (int n) - startbyte (int p)"
  have sm: "s + m \<le> length (b_data b)" "m \<le> 8" "p mod 8 + n \<le> 8 * m" "8 * s + p mod 8 = p"
    using r by (auto simp: s_def m_def)
  define data where "data = (word_of_nat (le_nat (take m (drop s (b_data b)))) :: u64)"
  define x where "x = (data AND NOT (push_bit (p mod 8) (push_bit n 1 - 1)))
     OR (push_bit (p mod 8) (ucast v) AND push_bit (p mod 8) (push_bit n 1 - 1))"
  define d where "d = take s (b_data b) @ take m (le_bytes 8 (unat x)) @ drop (s + m) (b_data b)"
  have rd: "mem_read (b_data b) (int s) m = Inr (take m (drop s (b_data b)))" using sm by (simp add: mem_read_def)
  have st: "mem_store ?L a b (int s) (take m (le_bytes 8 (unat x))) = Inr (set_data ?L a b d)"
    using sm by (simp add: mem_store_def mem_write_def d_def)
  have pm: "nat (int p mod 8) = p mod 8" by (simp add: nat_mod_distrib)
  have c: "luaL_checkbuffermutable ?L 1 = Inr (a, b)" "luaL_checknumber ?L 2 = Inr (dbl_of_int (int p))"
      "luaL_checkinteger ?L 3 = Inr (int n)" "luaL_checkunsigned ?L 4 = Inr v"
    using assms v by (simp_all add: arg_simps lua_pushinteger_def)
  have w: "buffer_writebits ?L = Inr (set_data ?L a b d)"
    unfolding buffer_writebits_def c bindE_simps prod.case luai_num2long_of_int [OF v(3)] v(1) m_def [symmetric]
    unfolding s_def [symmetric] rd bindE_simps Let_def pm data_def [symmetric] nat_int x_def [symmetric]
    by (rule st)
  have "bit (le_nat d) i \<longleftrightarrow> (if p \<le> i \<and> i < p + n then bit v (i - p) else bit (le_nat (b_data b)) i)" for i
  proof (cases "8 * s \<le> i \<and> i < 8 * (s + m)")
    case True
    then have i: "i - 8 * s < 8 * m" "i - 8 * s < 64" "8 * s + (i - 8 * s) = i" using sm(2) by auto
    have "bit x (i - 8 * s) \<longleftrightarrow> (if p mod 8 \<le> i - 8 * s \<and> i - 8 * s < p mod 8 + n
        then bit v (i - 8 * s - p mod 8) else bit (le_nat (b_data b)) i)"
      unfolding x_def bit_field_set data_def bit_window [OF sm(1,2)] bit_ucast_iff using i by auto
    moreover have "p mod 8 \<le> i - 8 * s \<longleftrightarrow> p \<le> i" "i - 8 * s < p mod 8 + n \<longleftrightarrow> i < p + n"
      "i - 8 * s - p mod 8 = i - p" using True sm(4) by auto
    ultimately show ?thesis unfolding d_def bit_window_stored [OF sm(1,2)] using True by simp
  next
    case False
    then have "\<not> (p \<le> i \<and> i < p + n)" using sm(3,4) by auto
    with False show ?thesis unfolding d_def bit_window_stored [OF sm(1,2)] by auto
  qed
  moreover have "length d = length (b_data b)" using sm by (simp add: d_def)
  ultimately show ?thesis using w by (auto simp: set_data_def)
qed

lemma writebits_spec_witness:
  "\<exists>L' b'. buffer_writebits ((one_buffer [0x34, 0x12] 0 [])\<lparr>base := [TvBuffer 1, lua_pushinteger (int 4), lua_pushinteger (int 8), lua_pushunsigned 0xFF]\<rparr>) = Inr L'
    \<and> buffers L' 1 = Some b' \<and> bit (le_nat (b_data b')) 6 \<and> bit (le_nat (b_data b')) 12"
  using writebits_spec [of "one_buffer [0x34, 0x12] 0 []" 1 "\<lparr>b_data = [0x34, 0x12], b_mode = 0\<rparr>" 8 4 "0xFF"]
  by (simp add: one_buffer_simps MAX_BUFFER_SIZE_def) (auto simp: bit_numeral_rec bit_0)

section \<open>Moving bytes\<close>

text \<open>
  C29: \<^verbatim>\<open>buffer.copy\<close> replaces the target range by the bytes the source range had before the call
  and keeps every other byte, also when source and target are overlapping ranges of one buffer.
\<close>

theorem copy_moves:
  assumes "buffers L ta = Some tb" "b_mode tb \<noteq> 1" "buffers L sa = Some sb" "wf_state L"
    and "0 \<le> toff" "0 \<le> soff" "nat toff + n \<le> length (b_data tb)" "nat soff + n \<le> length (b_data sb)"
  shows "\<exists>L' tb'. buffer_copy (L\<lparr>base := [TvBuffer ta, lua_pushinteger toff, TvBuffer sa, lua_pushinteger soff,
      lua_pushinteger (int n)]\<rparr>) = Inr L'
    \<and> buffers L' ta = Some tb' \<and> length (b_data tb') = length (b_data tb)
    \<and> (\<forall>i < length (b_data tb). b_data tb' ! i =
        (if nat toff \<le> i \<and> i < nat toff + n then b_data sb ! (nat soff + (i - nat toff)) else b_data tb ! i))"
proof -
  let ?L = "L\<lparr>base := [TvBuffer ta, lua_pushinteger toff, TvBuffer sa, lua_pushinteger soff, lua_pushinteger (int n)]\<rparr>"
  have len: "length (b_data tb) \<le> MAX_BUFFER_SIZE" "length (b_data sb) \<le> MAX_BUFFER_SIZE"
    using assms(1,3,4) by (auto simp: wf_state_def)
  note t = offset_in_bounds [OF assms(5,7) len(1)] and s = offset_in_bounds [OF assms(6,8) len(2)]
  have n: "in_int32 (int n)" using assms(8) len(2) by (simp add: in_int32_def MAX_BUFFER_SIZE_def)
  have d: "rest_size (length (b_data sb)) soff = Inr (int (length (b_data sb)) - soff)"
    using assms(6,8) len(2) by (simp add: rest_size_def int_of_size_def in_int32_def MAX_BUFFER_SIZE_def Let_def)
  have c: "luaL_checkbuffermutable ?L 1 = Inr (ta, tb)" "luaL_checkinteger ?L 2 = Inr toff"
      "luaL_checkbuffer ?L 3 = Inr (sa, sb)"
    using assms t by (simp_all add: arg_simps)
  have opt: "luaL_optinteger ?L 4 0 = Inr soff" "luaL_optinteger ?L 5 d = Inr (int n)" for d
    using s n by (simp_all add: luaL_optinteger_def lua_isnoneornil_def lua_type_def arg_simps lua_pushinteger_def)
  let ?bs = "take n (drop (nat soff) (b_data sb))"
  have l: "length ?bs = n" using assms(8) by simp
  let ?d = "take (nat toff) (b_data tb) @ ?bs @ drop (nat toff + n) (b_data tb)"
  have "buffer_copy ?L = Inr (set_data ?L ta tb ?d)"
    unfolding buffer_copy_def c opt d bindE_simps prod.case
    using t s assms(5-8) l by (simp add: mem_read_def mem_store_def mem_write_def)
  moreover have "length ?d = length (b_data tb)" using assms(7) l by simp
  moreover have "?d ! i = (if nat toff \<le> i \<and> i < nat toff + n then b_data sb ! (nat soff + (i - nat toff)) else b_data tb ! i)"
    if "i < length (b_data tb)" for i
    using that assms(7,8) by (auto simp: nth_append)
  ultimately show ?thesis by (auto simp: set_data_def)
qed

lemma copy_moves_witness:
  "\<exists>L' tb'. buffer_copy ((one_buffer [1, 2, 3, 4] 0 [])\<lparr>base := [TvBuffer 1, lua_pushinteger 1, TvBuffer 1,
      lua_pushinteger 0, lua_pushinteger (int 3)]\<rparr>) = Inr L'
    \<and> buffers L' 1 = Some tb' \<and> b_data tb' ! 3 = 3"
  using copy_moves [of "one_buffer [1, 2, 3, 4] 0 []" 1 "\<lparr>b_data = [1, 2, 3, 4], b_mode = 0\<rparr>" 1
      "\<lparr>b_data = [1, 2, 3, 4], b_mode = 0\<rparr>" 1 0 3]
  by (simp add: one_buffer_simps one_buffer_wf MAX_BUFFER_SIZE_def) (fastforce simp: eval_nat_numeral)


section \<open>Fast paths\<close>

text \<open>The macro \<^verbatim>\<open>checkoutofbounds\<close> and the object behind a buffer value.\<close>

definition checkoutofbounds :: "int \<Rightarrow> nat \<Rightarrow> nat \<Rightarrow> bool" where
  "checkoutofbounds offset len accessize \<longleftrightarrow> len \<le> nat (offset mod 2 ^ 32) + (accessize - 1)"

definition buffer_object :: "lua_State \<Rightarrow> TValue \<Rightarrow> Buffer res" where
  "buffer_object L v = (case buffers L (bufvalue v) of Some b \<Rightarrow> Inr b | None \<Rightarrow> Inl access_outside)"

definition fast_read :: "(bytes \<Rightarrow> TValue) \<Rightarrow> nat \<Rightarrow> int \<Rightarrow> lua_State \<Rightarrow> TValue option res" where
  "fast_read conv n nresults L =
     (if 2 \<le> length (base L) \<and> nresults \<le> 1 \<and> ttisbuffer (base L ! 0) \<and> ttisnumber (base L ! 1)
      then bindE (luai_num2int (nvalue (base L ! 1))) (\<lambda>offset.
           bindE (buffer_object L (base L ! 0)) (\<lambda>b.
             if checkoutofbounds offset (length (b_data b)) n then Inr None
             else bindE (mem_read (b_data b) (offset mod 2 ^ 32) n) (\<lambda>val. Inr (Some (conv val)))))
      else Inr None)"

definition luauF_readinteger :: "bool \<Rightarrow> nat \<Rightarrow> int \<Rightarrow> lua_State \<Rightarrow> TValue option res" where
  "luauF_readinteger sg n = fast_read (\<lambda>val. TvNumber (dbl_of_int (int_value sg n (le_nat val)))) n"

definition luauF_readfp :: "fp_type \<Rightarrow> int \<Rightarrow> lua_State \<Rightarrow> TValue option res" where
  "luauF_readfp t = fast_read (\<lambda>val. TvNumber (double_of_fp t val)) (sizeof_fp t)"

definition luauF_bufferreadlong :: "int \<Rightarrow> lua_State \<Rightarrow> TValue option res" where
  "luauF_bufferreadlong = fast_read (\<lambda>val. TvInteger (word_of_nat (le_nat val))) 8"

definition luauF_bufferisfrozen :: "int \<Rightarrow> lua_State \<Rightarrow> TValue option res" where
  "luauF_bufferisfrozen nresults L =
     (if 1 \<le> length (base L) \<and> nresults \<le> 1 \<and> ttisbuffer (base L ! 0)
      then bindE (buffer_object L (base L ! 0)) (\<lambda>b. Inr (Some (TvBoolean (b_mode b = 1))))
      else Inr None)"

definition fast_write :: "(TValue \<Rightarrow> bool) \<Rightarrow> (TValue \<Rightarrow> bytes res) \<Rightarrow> nat \<Rightarrow> int \<Rightarrow> lua_State \<Rightarrow> lua_State option res" where
  "fast_write tag conv n nresults L =
     (if 3 \<le> length (base L) \<and> nresults \<le> 0 \<and> ttisbuffer (base L ! 0) \<and> ttisnumber (base L ! 1) \<and> tag (base L ! 2)
      then bindE (buffer_object L (base L ! 0)) (\<lambda>b.
           if b_mode b \<noteq> 1
           then bindE (luai_num2int (nvalue (base L ! 1))) (\<lambda>offset.
                  if checkoutofbounds offset (length (b_data b)) n then Inr None
                  else bindE (conv (base L ! 2)) (\<lambda>val.
                       bindE (mem_store L (bufvalue (base L ! 0)) b (offset mod 2 ^ 32) val) (\<lambda>L'. Inr (Some L'))))
           else Inr None)
      else Inr None)"

definition luauF_writeinteger :: "nat \<Rightarrow> int \<Rightarrow> lua_State \<Rightarrow> lua_State option res" where
  "luauF_writeinteger n = fast_write ttisnumber
     (\<lambda>v. bindE (luai_num2unsigned (nvalue v)) (\<lambda>value. Inr (le_bytes n (unat value)))) n"

definition luauF_writefp :: "fp_type \<Rightarrow> int \<Rightarrow> lua_State \<Rightarrow> lua_State option res" where
  "luauF_writefp t = fast_write ttisnumber (\<lambda>v. Inr (fp_of_double t (nvalue v))) (sizeof_fp t)"

definition luauF_bufferwritelong :: "int \<Rightarrow> lua_State \<Rightarrow> lua_State option res" where
  "luauF_bufferwritelong = fast_write ttisinteger (\<lambda>v. Inr (le_bytes 8 (unat (lvalue v)))) 8"

text \<open>Where the test of the fast paths passes, the test of the library passes.\<close>

lemma checkoutofbounds_in_bounds:
  assumes "\<not> checkoutofbounds offset len n" "0 < n" "in_int32 offset" "len \<le> MAX_BUFFER_SIZE"
  shows "\<not> isoutofbounds offset len n" "offset mod 2 ^ 32 = offset"
proof -
  show i: "\<not> isoutofbounds offset len n" using assms(1,2) by (simp add: checkoutofbounds_def isoutofbounds_def)
  from in_bounds [OF i assms(3,4)] assms(3) show "offset mod 2 ^ 32 = offset" by (simp add: in_int32_def)
qed

lemma checkbuffer_slot:
  assumes "0 < length (base L)" "ttisbuffer (base L ! 0)" "buffer_object L (base L ! 0) = Inr b"
  shows "luaL_checkbuffer L 1 = Inr (bufvalue (base L ! 0), b)"
proof -
  have "index2addr L (Suc 0) = Some (TvBuffer (bufvalue (base L ! 0)))"
    using assms(1,2) index2addr_Suc [of 0 L] by (simp add: ttisbuffer_iff)
  then show ?thesis using assms(3) checkbuffer_arg [of L "Suc 0"] by (simp add: buffer_object_def split: option.splits)
qed

text \<open>
  A fast path either falls back or does what the library function does, down to its errors, so the instruction is
  the call whatever the arguments are.
\<close>

locale faithful_fast =
  fixes inv :: "lua_State \<Rightarrow> bool"
    and slow :: "lua_State \<Rightarrow> 'v res"
    and fast :: "int \<Rightarrow> lua_State \<Rightarrow> 'v option res"
  assumes fast_cases: "inv L \<Longrightarrow> fast nresults L = Inr None \<or> fast nresults L = bindE (slow L) (\<lambda>v. Inr (Some v))"
begin

lemma exec_eq: "inv L \<Longrightarrow> exec_fastcall fast slow safeenv nresults L = slow L"
  using fast_cases [of L nresults] by (cases "slow L") (auto simp: exec_fastcall_def)

end

sublocale faithful_fast \<subseteq> transparent_call
proof
  show "inv L \<Longrightarrow> fast nresults L = Inr (Some v) \<Longrightarrow> slow L = Inr v" for L nresults v
    using fast_cases [of L nresults] by (cases "slow L") auto
qed

text \<open>The buffers that a call names exist and respect the size limit.\<close>

definition buffer_args :: "lua_State \<Rightarrow> bool" where
  "buffer_args L \<longleftrightarrow> wf_state L \<and> (\<forall>a. TvBuffer a \<in> set (base L) \<longrightarrow> buffers L a \<noteq> None)"

definition read_guard :: "int \<Rightarrow> lua_State \<Rightarrow> bool" where
  "read_guard nresults L \<longleftrightarrow> 2 \<le> length (base L) \<and> nresults \<le> 1 \<and> ttisbuffer (base L ! 0) \<and> ttisnumber (base L ! 1)"

definition write_guard :: "(TValue \<Rightarrow> bool) \<Rightarrow> int \<Rightarrow> lua_State \<Rightarrow> bool" where
  "write_guard tag nresults L \<longleftrightarrow> 3 \<le> length (base L) \<and> nresults \<le> 0 \<and> ttisbuffer (base L ! 0) \<and>
     ttisnumber (base L ! 1) \<and> tag (base L ! 2)"

lemma buffer_args_object:
  assumes "buffer_args L" "0 < length (base L)" "ttisbuffer (base L ! 0)"
  obtains b where "buffer_object L (base L ! 0) = Inr b" "luaL_checkbuffer L 1 = Inr (bufvalue (base L ! 0), b)"
    "length (b_data b) \<le> MAX_BUFFER_SIZE"
proof -
  have "base L ! 0 = TvBuffer (bufvalue (base L ! 0))" using assms(3) by (simp add: ttisbuffer_iff)
  then have "TvBuffer (bufvalue (base L ! 0)) \<in> set (base L)" using assms(2) by (metis nth_mem)
  then obtain b where "buffers L (bufvalue (base L ! 0)) = Some b" using assms(1) by (auto simp: buffer_args_def)
  then have b: "buffer_object L (base L ! 0) = Inr b" by (simp add: buffer_object_def)
  note cb = checkbuffer_slot [OF assms(2,3) b]
  from checkbuffer_len(1) [OF _ cb] assms(1) that [OF b cb] show thesis by (simp add: buffer_args_def)
qed

text \<open>The readers and the writers of the library have one shape each.\<close>

definition typed_read :: "(bytes \<Rightarrow> TValue) \<Rightarrow> nat \<Rightarrow> lua_State \<Rightarrow> TValue res" where
  "typed_read conv n L =
     bindE (luaL_checkbuffer L 1) (\<lambda>(a, b).
     bindE (luaL_checkinteger L 2) (\<lambda>offset.
       if isoutofbounds offset (length (b_data b)) n then Inl out_of_bounds
       else bindE (mem_read (b_data b) offset n) (\<lambda>val. Inr (conv val))))"

definition typed_write :: "(lua_State \<Rightarrow> bytes res) \<Rightarrow> nat \<Rightarrow> lua_State \<Rightarrow> lua_State res" where
  "typed_write arg n L =
     bindE (luaL_checkbuffermutable L 1) (\<lambda>(a, b).
     bindE (luaL_checkinteger L 2) (\<lambda>offset.
     bindE (arg L) (\<lambda>val.
       if isoutofbounds offset (length (b_data b)) n then Inl out_of_bounds
       else mem_store L a b offset val)))"

lemma checks_agree:
  assumes "0 < n" "in_int32 offset" "len \<le> MAX_BUFFER_SIZE"
  shows "checkoutofbounds offset len n \<longleftrightarrow> isoutofbounds offset len n"
  using assms(1) by (auto simp: checkoutofbounds_def isoutofbounds_def)

lemma fast_read_guarded:
  assumes L: "buffer_args L" and n: "0 < n" and g: "read_guard nresults L"
  shows "fast_read conv n nresults L = bindE (typed_read conv n L) (\<lambda>v. Inr (Some v)) \<or>
    fast_read conv n nresults L = Inr None \<and> typed_read conv n L = Inl out_of_bounds"
proof -
  from g have s: "0 < length (base L)" "1 < length (base L)" "ttisbuffer (base L ! 0)" "ttisnumber (base L ! 1)"
    by (auto simp: read_guard_def)
  obtain b where b: "buffer_object L (base L ! 0) = Inr b" "luaL_checkbuffer L 1 = Inr (bufvalue (base L ! 0), b)"
    and len: "length (b_data b) \<le> MAX_BUFFER_SIZE" using buffer_args_object [OF L s(1,3)] by blast
  have i: "luaL_checkinteger L 2 = luai_num2int (nvalue (base L ! 1))" using s by (simp add: slot_simps)
  show ?thesis
  proof (cases "luai_num2int (nvalue (base L ! 1))")
    case (Inl e)
    then show ?thesis using g b i by (simp add: fast_read_def read_guard_def typed_read_def)
  next
    case (Inr offset)
    note r = luai_num2int_range [OF Inr]
    note c = checks_agree [OF n r len]
    show ?thesis
    proof (cases "isoutofbounds offset (length (b_data b)) n")
      case True
      then show ?thesis using g b i Inr c by (simp add: fast_read_def read_guard_def typed_read_def)
    next
      case False
      then have "offset mod 2 ^ 32 = offset" using checkoutofbounds_in_bounds(2) [OF _ n r len] c by simp
      with False show ?thesis
        using g b i Inr c unfolding fast_read_def read_guard_def typed_read_def
        by (cases "mem_read (b_data b) offset n") simp_all
    qed
  qed
qed

lemma fast_read_unguarded: "\<not> read_guard nresults L \<Longrightarrow> fast_read conv n nresults L = Inr None"
  by (auto simp: fast_read_def read_guard_def)

lemma fast_read_faithful: "0 < n \<Longrightarrow> faithful_fast buffer_args (typed_read conv n) (fast_read conv n)"
  using fast_read_guarded fast_read_unguarded by unfold_locales blast

lemma fast_write_guarded:
  assumes L: "buffer_args L" and n: "0 < n" and g: "write_guard tag nresults L" and arg: "arg L = conv (base L ! 2)"
  shows "fast_write tag conv n nresults L = bindE (typed_write arg n L) (\<lambda>L'. Inr (Some L')) \<or>
    fast_write tag conv n nresults L = Inr None \<and> (\<exists>e. typed_write arg n L = Inl e)"
proof -
  from g have s: "0 < length (base L)" "1 < length (base L)" "ttisbuffer (base L ! 0)" "ttisnumber (base L ! 1)"
    by (auto simp: write_guard_def)
  obtain b where b: "buffer_object L (base L ! 0) = Inr b" "luaL_checkbuffer L 1 = Inr (bufvalue (base L ! 0), b)"
    and len: "length (b_data b) \<le> MAX_BUFFER_SIZE" using buffer_args_object [OF L s(1,3)] by blast
  have i: "luaL_checkinteger L 2 = luai_num2int (nvalue (base L ! 1))" using s by (simp add: slot_simps)
  show ?thesis
  proof (cases "b_mode b = 1")
    case True
    then show ?thesis using g b by (simp add: fast_write_def write_guard_def typed_write_def luaL_checkbuffermutable_def)
  next
    case False
    then have m: "luaL_checkbuffermutable L 1 = Inr (bufvalue (base L ! 0), b)" using b by (simp add: luaL_checkbuffermutable_def)
    show ?thesis
    proof (cases "luai_num2int (nvalue (base L ! 1))")
      case (Inl e)
      then show ?thesis using g b(1) m i False by (simp add: fast_write_def write_guard_def typed_write_def)
    next
      case (Inr offset)
      note r = luai_num2int_range [OF Inr]
      note c = checks_agree [OF n r len]
      show ?thesis
      proof (cases "isoutofbounds offset (length (b_data b)) n")
        case True
        then show ?thesis
          using g b(1) m i Inr c False by (cases "arg L") (simp_all add: fast_write_def write_guard_def typed_write_def)
      next
        case inside: False
        then have "offset mod 2 ^ 32 = offset" using checkoutofbounds_in_bounds(2) [OF _ n r len] c by simp
        with inside False show ?thesis
          using g b(1) m i Inr c arg unfolding fast_write_def write_guard_def typed_write_def
          by (cases "conv (base L ! 2)"; cases "mem_store L (bufvalue (base L ! 0)) b offset (projr (conv (base L ! 2)))") simp_all
      qed
    qed
  qed
qed

lemma fast_write_unguarded: "\<not> write_guard tag nresults L \<Longrightarrow> fast_write tag conv n nresults L = Inr None"
  by (auto simp: fast_write_def write_guard_def)

lemma fast_write_faithful:
  assumes "0 < n" "\<And>L. 2 < length (base L) \<Longrightarrow> tag (base L ! 2) \<Longrightarrow> arg L = conv (base L ! 2)"
  shows "faithful_fast buffer_args (typed_write arg n) (fast_write tag conv n)"
proof
  fix L nresults
  assume L: "buffer_args L"
  have "arg L = conv (base L ! 2)" if "write_guard tag nresults L" using assms(2) that by (simp add: write_guard_def)
  then show "fast_write tag conv n nresults L = Inr None \<or>
      fast_write tag conv n nresults L = bindE (typed_write arg n L) (\<lambda>v. Inr (Some v))"
    using fast_write_guarded [OF L assms(1)] fast_write_unguarded by blast
qed

lemma sizeof_fp_pos [simp]: "0 < sizeof_fp t"
  by (cases t) simp_all

text \<open>Argument 3 of the writers in its slot.\<close>

lemmas write_slots = checkunsigned_slot [of 2, unfolded Suc_slots] checknumber_slot [of 2, unfolded Suc_slots]
  checkinteger64_slot [of 2, unfolded Suc_slots]

text \<open>The library functions in these shapes.\<close>

lemma typed_reads:
  "buffer_readinteger sg n = typed_read (\<lambda>val. TvNumber (dbl_of_int (int_value sg n (le_nat val)))) n"
  "buffer_readfp t = typed_read (\<lambda>val. TvNumber (double_of_fp t val)) (sizeof_fp t)"
  "buffer_readlong = typed_read (\<lambda>val. TvInteger (word_of_nat (le_nat val))) 8"
  by (simp_all add: fun_eq_iff buffer_readinteger_def buffer_readfp_def buffer_readlong_def typed_read_def)

lemma typed_writes:
  "buffer_writeinteger n = typed_write (\<lambda>L. bindE (luaL_checkunsigned L 3) (\<lambda>v. Inr (le_bytes n (unat v)))) n"
  "buffer_writefp t = typed_write (\<lambda>L. bindE (luaL_checknumber L 3) (\<lambda>v. Inr (fp_of_double t v))) (sizeof_fp t)"
  "buffer_writelong = typed_write (\<lambda>L. bindE (luaL_checkinteger64 L 3) (\<lambda>v. Inr (le_bytes 8 (unat v)))) 8"
  by (auto simp: fun_eq_iff buffer_writeinteger_def buffer_writefp_def buffer_writelong_def typed_write_def bindE_def
      split: sum.splits)

lemma readinteger_call: "0 < n \<Longrightarrow> faithful_fast buffer_args (buffer_readinteger sg n) (luauF_readinteger sg n)"
  unfolding typed_reads luauF_readinteger_def by (rule fast_read_faithful)

lemma writeinteger_call: "0 < n \<Longrightarrow> faithful_fast buffer_args (buffer_writeinteger n) (luauF_writeinteger n)"
  unfolding typed_writes luauF_writeinteger_def by (rule fast_write_faithful) (simp_all add: write_slots)

interpretation fc_readfp: faithful_fast buffer_args "buffer_readfp t" "luauF_readfp t" for t
  unfolding typed_reads luauF_readfp_def by (rule fast_read_faithful) simp

interpretation fc_writefp: faithful_fast buffer_args "buffer_writefp t" "luauF_writefp t" for t
  unfolding typed_writes luauF_writefp_def by (rule fast_write_faithful) (simp_all add: write_slots)

interpretation fc_readlong: faithful_fast buffer_args buffer_readlong luauF_bufferreadlong
  unfolding typed_reads luauF_bufferreadlong_def by (rule fast_read_faithful) simp

interpretation fc_writelong: faithful_fast buffer_args buffer_writelong luauF_bufferwritelong
  unfolding typed_writes luauF_bufferwritelong_def by (rule fast_write_faithful) (simp_all add: write_slots)

interpretation fc_isfrozen: faithful_fast buffer_args buffer_isfrozen luauF_bufferisfrozen
proof
  fix L nresults
  assume L: "buffer_args L"
  show "luauF_bufferisfrozen nresults L = Inr None \<or>
      luauF_bufferisfrozen nresults L = bindE (buffer_isfrozen L) (\<lambda>v. Inr (Some v))"
  proof (cases "0 < length (base L) \<and> nresults \<le> 1 \<and> ttisbuffer (base L ! 0)")
    case True
    then obtain b where "buffer_object L (base L ! 0) = Inr b" "luaL_checkbuffer L 1 = Inr (bufvalue (base L ! 0), b)"
      using buffer_args_object [OF L] by blast
    then show ?thesis using True by (simp add: luauF_bufferisfrozen_def buffer_isfrozen_def Suc_le_eq)
  qed (auto simp: luauF_bufferisfrozen_def Suc_le_eq)
qed

text \<open>A call whose arguments have the tags that the fast path tests is left to the library only where the library
  reports an error.\<close>

lemma fast_read_produces:
  "buffer_args L \<Longrightarrow> 0 < n \<Longrightarrow> read_guard nresults L \<Longrightarrow> typed_read conv n L = Inr v \<Longrightarrow>
   fast_read conv n nresults L = Inr (Some v)"
  using fast_read_guarded [of L n nresults conv] by auto

lemma fast_write_produces:
  assumes "buffer_args L" "0 < n" "write_guard tag nresults L" "typed_write arg n L = Inr L'"
    "\<And>L. 2 < length (base L) \<Longrightarrow> tag (base L ! 2) \<Longrightarrow> arg L = conv (base L ! 2)"
  shows "fast_write tag conv n nresults L = Inr (Some L')"
  using fast_write_guarded [where conv = conv and arg = arg, OF assms(1-3)] assms(3-5) by (auto simp: write_guard_def)

text \<open>
  C25: the fast paths of the \<^verbatim>\<open>buffer\<close> library, with their own bounds test and their
  unsigned address arithmetic, are transparent. On a state whose buffers exist and respect the size limit, in a safe and in an
  unsafe environment and for every number of wanted results, an instruction that reads or writes an integer of any size, a
  floating-point number or a 64-bit integer is the library call: the same value or the same state, the same error, and nothing
  outside the buffer is touched. When the arguments have the tags the instruction tests and the call succeeds, it is the fast
  path that produced the result: the bounds test of the fast path rejects no access that the library allows.
\<close>

theorem buffer_fastcall_transparent:
  assumes "buffer_args L" "0 < n"
  shows "exec_fastcall (luauF_readinteger sg n) (buffer_readinteger sg n) safeenv nresults L = buffer_readinteger sg n L
    \<and> exec_fastcall (luauF_readfp t) (buffer_readfp t) safeenv nresults L = buffer_readfp t L
    \<and> exec_fastcall luauF_bufferreadlong buffer_readlong safeenv nresults L = buffer_readlong L
    \<and> exec_fastcall (luauF_writeinteger n) (buffer_writeinteger n) safeenv nresults L = buffer_writeinteger n L
    \<and> exec_fastcall (luauF_writefp t) (buffer_writefp t) safeenv nresults L = buffer_writefp t L
    \<and> exec_fastcall luauF_bufferwritelong buffer_writelong safeenv nresults L = buffer_writelong L
    \<and> (\<forall>v. read_guard nresults L \<longrightarrow>
        (buffer_readinteger sg n L = Inr v \<longrightarrow> luauF_readinteger sg n nresults L = Inr (Some v)) \<and>
        (buffer_readfp t L = Inr v \<longrightarrow> luauF_readfp t nresults L = Inr (Some v)) \<and>
        (buffer_readlong L = Inr v \<longrightarrow> luauF_bufferreadlong nresults L = Inr (Some v)))
    \<and> (\<forall>L'. write_guard ttisnumber nresults L \<longrightarrow>
        (buffer_writeinteger n L = Inr L' \<longrightarrow> luauF_writeinteger n nresults L = Inr (Some L')) \<and>
        (buffer_writefp t L = Inr L' \<longrightarrow> luauF_writefp t nresults L = Inr (Some L')))
    \<and> (\<forall>L'. write_guard ttisinteger nresults L \<longrightarrow>
        buffer_writelong L = Inr L' \<longrightarrow> luauF_bufferwritelong nresults L = Inr (Some L'))"
proof (intro conjI allI impI)
  show "read_guard nresults L \<Longrightarrow> buffer_readinteger sg n L = Inr v \<Longrightarrow> luauF_readinteger sg n nresults L = Inr (Some v)"
    and "read_guard nresults L \<Longrightarrow> buffer_readfp t L = Inr v \<Longrightarrow> luauF_readfp t nresults L = Inr (Some v)"
    and "read_guard nresults L \<Longrightarrow> buffer_readlong L = Inr v \<Longrightarrow> luauF_bufferreadlong nresults L = Inr (Some v)" for v
    using assms unfolding typed_reads luauF_readinteger_def luauF_readfp_def luauF_bufferreadlong_def
    by (simp_all add: fast_read_produces)
  show "write_guard ttisnumber nresults L \<Longrightarrow> buffer_writeinteger n L = Inr L' \<Longrightarrow>
      luauF_writeinteger n nresults L = Inr (Some L')" for L'
    unfolding typed_writes luauF_writeinteger_def
    by (rule fast_write_produces [OF assms]) (assumption | simp add: write_slots)+
  show "write_guard ttisnumber nresults L \<Longrightarrow> buffer_writefp t L = Inr L' \<Longrightarrow> luauF_writefp t nresults L = Inr (Some L')" for L'
    unfolding typed_writes luauF_writefp_def
    by (rule fast_write_produces [OF assms(1)]) (assumption | simp add: write_slots)+
  show "write_guard ttisinteger nresults L \<Longrightarrow> buffer_writelong L = Inr L' \<Longrightarrow>
      luauF_bufferwritelong nresults L = Inr (Some L')" for L'
    unfolding typed_writes luauF_bufferwritelong_def
    by (rule fast_write_produces [OF assms(1)]) (assumption | simp add: write_slots)+
qed (use assms faithful_fast.exec_eq [OF readinteger_call] faithful_fast.exec_eq [OF writeinteger_call]
    fc_readfp.exec_eq fc_writefp.exec_eq fc_readlong.exec_eq fc_writelong.exec_eq in simp_all)

lemma buffer_fastcall_transparent_witness:
  "exec_fastcall (luauF_readinteger False 4) (buffer_readinteger False 4) True 1
     (one_buffer [1, 2, 3, 4] 0 [TvBuffer 1, lua_pushinteger 1]) = Inl out_of_bounds
   \<and> luauF_readinteger False 4 1 (one_buffer [1, 2, 3, 4] 0 [TvBuffer 1, lua_pushinteger 0])
     = Inr (Some (TvNumber (dbl_of_int 0x04030201)))"
proof -
  let ?L = "\<lambda>i. one_buffer [1, 2, 3, 4] 0 [TvBuffer 1, lua_pushinteger i]"
  have ok: "buffer_args (?L i)" for i
  proof -
    have "wf_state (?L i)" by (simp add: one_buffer_wf MAX_BUFFER_SIZE_def)
    moreover have "\<forall>a. TvBuffer a \<in> set (base (?L i)) \<longrightarrow> buffers (?L i) a \<noteq> None"
      by (simp add: one_buffer_def call_state_def lua_pushinteger_def)
    ultimately show ?thesis by (simp add: buffer_args_def)
  qed
  have int: "luaL_checkinteger (?L i) 2 = Inr i" if "in_int32 i" for i
    using that by (simp add: luaL_checkinteger_of_int one_buffer_simps lua_pushinteger_def)
  have slow: "buffer_readinteger False 4 (?L 1) = Inl out_of_bounds"
    "buffer_readinteger False 4 (?L 0) = Inr (TvNumber (dbl_of_int 0x04030201))"
    using int [of 1] int [of 0] checkbuffer_arg [of "?L 1" 1] checkbuffer_arg [of "?L 0" 1]
    by (simp_all add: buffer_readinteger_def one_buffer_simps in_int32_def isoutofbounds_def mem_read_def int_value_def)
  have "read_guard 1 (?L 0)"
    by (simp add: read_guard_def one_buffer_def call_state_def ttisbuffer_def ttisnumber_def lua_pushinteger_def)
  with buffer_fastcall_transparent [OF ok [of 0], of 4 False True 1] buffer_fastcall_transparent [OF ok [of 1], of 4 False True 1] slow
  show ?thesis by simp
qed

end
