(* ===== verification/Utf8Lib.thy ===== *)
theory Utf8Lib
  imports BufferLib
begin

text \<open>
  The \<^verbatim>\<open>utf8\<close> library, \<^verbatim>\<open>VM/src/lutf8lib.cpp\<close>. Strings are byte lists with a terminating zero that
  may be read; a read beyond it fails with \<open>string_overrun\<close>. \<open>utf8_decode\<close> returns
  \<open>None\<close> where the code returns \<^verbatim>\<open>NULL\<close>. Loops are recursive functions with their
  termination proofs: the decoder uses up the bits of the first byte, the scanners advance in the
  string.

  Shown here: the decoder inverts the encoder on every code point that is not a surrogate, and
  accepts nothing but encodings (so overlong forms, surrogates and values above
  \<^verbatim>\<open>10FFFF\<close> are rejected); \<^verbatim>\<open>utf8.codepoint\<close> and \<^verbatim>\<open>utf8.len\<close> read back what
  \<^verbatim>\<open>utf8.char\<close> wrote; no function reads past the end of its string; and one input makes the decoder
  shift by more than the width of its type.
\<close>


section \<open>Strings\<close>

text \<open>A Lua string is followed by a zero byte; a read beyond it leaves the string.\<close>

definition string_overrun :: lua_error where
  "string_overrun = Undefined ''read past the end of the string''"

definition str_at :: "bytes \<Rightarrow> nat \<Rightarrow> byte res" where
  "str_at s i = (if i \<le> length s then Inr (char_at s i) else Inl string_overrun)"

definition iscont_byte :: "byte \<Rightarrow> bool" where
  "iscont_byte c \<longleftrightarrow> c AND 0xC0 = 0x80"

definition iscont :: "bytes \<Rightarrow> nat \<Rightarrow> bool res" where
  "iscont s i = bindE (str_at s i) (\<lambda>c. Inr (iscont_byte c))"

definition u_posrelat :: "int \<Rightarrow> nat \<Rightarrow> int" where
  "u_posrelat pos len =
     (if 0 \<le> pos then pos
      else if len < nat (- pos) then 0
      else int_of_size len + pos + 1)"


section \<open>Decoding\<close>

definition MAXUNICODE :: int where "MAXUNICODE = 0x10FFFF"

definition utf8_limits :: "u32 list" where
  "utf8_limits = [0xFF, 0x7F, 0x7FF, 0xFFFF]"

lemma lead_bits_decrease:
  fixes c :: u32
  assumes "c AND 0x40 \<noteq> 0"
  shows "card {i. i \<le> 6 \<and> bit (push_bit 1 c) i} < card {i. i \<le> 6 \<and> bit c i}"
proof -
  have "bit c 6" using assms and_exp_eq_0_iff_not_bit [of c 6] by (simp add: eval_nat_numeral)
  have b: "bit (push_bit 1 c) i \<longleftrightarrow> 1 \<le> i \<and> i < 32 \<and> bit c (i - 1)" for i
    unfolding bit_push_bit_iff by (auto simp: possible_bit_def)
  have "{i. i \<le> 6 \<and> bit (push_bit 1 c) i} = Suc ` ({i. i \<le> 6 \<and> bit c i} - {6})"
    unfolding b
  proof (intro equalityI subsetI)
    fix i
    assume "i \<in> {i. i \<le> 6 \<and> 1 \<le> i \<and> i < 32 \<and> bit c (i - 1)}"
    then show "i \<in> Suc ` ({i. i \<le> 6 \<and> bit c i} - {6})" by (cases i) auto
  qed auto
  then have "card {i. i \<le> 6 \<and> bit (push_bit 1 c) i} = card ({i. i \<le> 6 \<and> bit c i} - {6})"
    by (simp add: card_image)
  also have "\<dots> < card {i. i \<le> 6 \<and> bit c i}"
    using \<open>bit c 6\<close> by (intro psubset_card_mono) auto
  finally show ?thesis .
qed

text \<open>
  The loop over the continuation bytes: \<open>None\<close> at a byte that is no continuation, else the
  count, the shifted first byte and the collected bits. It ends because the shift uses up the seven
  low bits of the first byte.
\<close>

function utf8_cont :: "bytes \<Rightarrow> nat \<Rightarrow> nat \<Rightarrow> u32 \<Rightarrow> u32 \<Rightarrow> (nat \<times> u32 \<times> u32) option res" where
  "utf8_cont s p count c r =
     (if c AND 0x40 \<noteq> 0
      then bindE (str_at s (p + Suc count)) (\<lambda>cc.
             if \<not> iscont_byte cc then Inr None
             else utf8_cont s p (Suc count) (push_bit 1 c) (push_bit 6 r OR ucast (cc AND 0x3F)))
      else Inr (Some (count, c, r)))"
  by pat_completeness auto
termination
  by (relation "measure (\<lambda>(s, p, count, c, r). card {i. i \<le> 6 \<and> bit c i})") (use lead_bits_decrease in auto)

declare utf8_cont.simps [simp del]

text \<open>The first byte is added and the result is checked.\<close>

definition utf8_check :: "nat \<Rightarrow> nat \<Rightarrow> u32 \<Rightarrow> u32 \<Rightarrow> (nat \<times> u32) option res" where
  "utf8_check p count c r =
     (if 32 \<le> count * 5 then Inl (Undefined ''shift by count * 5'')
      else let r = r OR push_bit (count * 5) (c AND 0x7F) in
        if 3 < count \<or> 0x10FFFF < r \<or> r \<le> utf8_limits ! count then Inr None
        else if r - 0xD800 < 0x800 then Inr None
        else Inr (Some (p + count + 1, r)))"

definition utf8_decode :: "bytes \<Rightarrow> nat \<Rightarrow> (nat \<times> u32) option res" where
  "utf8_decode s p =
     bindE (str_at s p) (\<lambda>b.
       if (ucast b :: u32) < 0x80 then Inr (Some (p + 1, ucast b))
       else bindE (utf8_cont s p 0 (ucast b) 0) (\<lambda>x.
         case x of
           None \<Rightarrow> Inr None
         | Some (count, c, r) \<Rightarrow> utf8_check p count c r))"


section \<open>Encoding\<close>

function utf8esc_loop :: "u64 \<Rightarrow> u32 \<Rightarrow> bytes \<Rightarrow> bytes" where
  "utf8esc_loop x mfb buff =
     (let buff = ucast (0x80 OR (x AND 0x3f)) # buff;
          x = drop_bit 6 x;
          mfb = drop_bit 1 mfb
      in if ucast mfb < x then utf8esc_loop x mfb buff
         else ucast (ucast (push_bit 1 (NOT mfb)) OR x) # buff)"
  by pat_completeness auto
termination
proof (relation "measure (\<lambda>(x, mfb, buff). unat x)", goal_cases)
  case (2 x mfb buff xa xb xc)
  then have "0 < unat (drop_bit 6 x)" by (metis gr_zeroI not_less_zero unat_eq_0 word_not_simps(1))
  then have "unat x div 64 < unat x" by (simp add: unat_drop_bit_div)
  then show ?case using 2 by (simp add: unat_drop_bit_div)
qed simp

declare utf8esc_loop.simps [simp del]

definition luaO_utf8esc :: "u64 \<Rightarrow> bytes" where
  "luaO_utf8esc x = (if x < 0x80 then [ucast x] else utf8esc_loop x 0x3f [])"


text \<open>Continuation bytes are not zero, so the loop stays inside the string.\<close>

lemma not_iscont_0 [simp]: "\<not> iscont_byte 0"
  by (simp add: iscont_byte_def)

lemma str_at_cont: "str_at s i = Inr c \<Longrightarrow> iscont_byte c \<Longrightarrow> i < length s \<and> c = s ! i"
  by (auto simp: str_at_def char_at_def split: if_splits)

lemma utf8_cont_Some:
  "utf8_cont s p count c r = Inr (Some (k, c', r')) \<Longrightarrow>
   count \<le> k \<and> (\<forall>j. count < j \<and> j \<le> k \<longrightarrow> p + j < length s \<and> iscont_byte (s ! (p + j)))"
proof (induction s p count c r rule: utf8_cont.induct)
  case (1 s p count c r)
  show ?case
  proof (cases "c AND 0x40 \<noteq> 0")
    case True
    with 1(2) obtain cc where cc: "str_at s (p + Suc count) = Inr cc" "iscont_byte cc"
      and r: "utf8_cont s p (Suc count) (push_bit 1 c) (push_bit 6 r OR ucast (cc AND 0x3F)) = Inr (Some (k, c', r'))"
      by (subst (asm) utf8_cont.simps) (auto simp: bindE_Inr_iff split: if_splits)
    from 1(1) [OF True cc(1) _ r] cc(2) have IH: "Suc count \<le> k"
      "\<forall>j. Suc count < j \<and> j \<le> k \<longrightarrow> p + j < length s \<and> iscont_byte (s ! (p + j))" by auto
    have "p + j < length s \<and> iscont_byte (s ! (p + j))" if "count < j" "j \<le> k" for j
      using that IH(2) str_at_cont [OF cc] cc(2) by (cases "j = Suc count") auto
    with IH(1) show ?thesis by auto
  next
    case False
    with 1(2) show ?thesis by (subst (asm) utf8_cont.simps) auto
  qed
qed

lemma utf8_cont_inside:
  "p + count < length s \<Longrightarrow> utf8_cont s p count c r \<noteq> Inl e"
proof (induction s p count c r rule: utf8_cont.induct)
  case (1 s p count c r)
  then have s: "str_at s (p + Suc count) = Inr (char_at s (p + Suc count))" by (simp add: str_at_def)
  show ?case
  proof (cases "c AND 0x40 \<noteq> 0 \<and> iscont_byte (char_at s (p + Suc count))")
    case True
    then have "p + Suc count < length s" using str_at_cont [OF s] by simp
    with 1(1) [OF _ s] True show ?thesis by (subst utf8_cont.simps) (simp only: s bindE_simps simp_thms if_True if_False)
  next
    case False
    then show ?thesis by (subst utf8_cont.simps) (auto simp only: s bindE_simps split: if_splits)
  qed
qed

text \<open>
  A decoded sequence lies inside the string, its bytes after the first are continuation bytes, and
  the scan advances.
\<close>

lemma utf8_check_Some: "utf8_check p count c r = Inr (Some (q, code)) \<Longrightarrow> q = p + count + 1"
  by (auto simp: utf8_check_def Let_def split: if_splits)

lemma utf8_decode_Some:
  assumes "utf8_decode s p = Inr (Some (q, code))" "p < length s"
  shows "p < q \<and> q \<le> length s \<and> (\<forall>j. p < j \<and> j < q \<longrightarrow> iscont_byte (s ! j))"
proof -
  from assms(2) have "str_at s p = Inr (s ! p)" by (simp add: str_at_def char_at_def)
  with assms(1) consider "q = p + 1" | k c r where "utf8_cont s p 0 (ucast (s ! p)) 0 = Inr (Some (k, c, r))" "q = p + k + 1"
    by (auto simp: utf8_decode_def bindE_Inr_iff dest!: utf8_check_Some split: if_splits option.splits)
  then show ?thesis
  proof cases
    case 1
    then show ?thesis using assms(2) by auto
  next
    case 2
    note c = utf8_cont_Some [OF 2(1)]
    have "iscont_byte (s ! j)" if "p < j" "j < q" for j
      using c that 2(2) by (auto dest!: spec [of _ "j - p"])
    moreover have "p + k < length s" using c assms(2) by (cases "k = 0") auto
    ultimately show ?thesis using 2(2) by auto
  qed
qed

lemma utf8_decode_advances: "utf8_decode s p = Inr (Some (q, code)) \<Longrightarrow> p < q"
  by (auto simp: utf8_decode_def bindE_Inr_iff dest!: utf8_check_Some split: if_splits option.splits)

lemma utf8_decode_inside: "p < length s \<Longrightarrow> utf8_decode s p \<noteq> Inl string_overrun"
  using utf8_cont_inside [of p 0 s]
  by (auto simp: utf8_decode_def bindE_Inl_iff str_at_def utf8_check_def string_overrun_def Let_def
      split: if_splits option.splits)


section \<open>The library functions\<close>

function utflen_loop :: "bytes \<Rightarrow> int \<Rightarrow> int \<Rightarrow> nat \<Rightarrow> TValue list res" where
  "utflen_loop s posi posj n =
     (if posi \<le> posj
      then bindE (utf8_decode s (nat posi)) (\<lambda>s1.
             case s1 of
               None \<Rightarrow> Inr [TvNil, lua_pushinteger (posi + 1)]
             | Some (q, _) \<Rightarrow> utflen_loop s (int q) posj (Suc n))
      else Inr [lua_pushinteger (int n)])"
  by pat_completeness auto
termination
  by (relation "measure (\<lambda>(s, posi, posj, n). nat (posj - posi + 1))")
    (auto dest!: utf8_decode_advances)

declare utflen_loop.simps [simp del]

definition utflen :: "lua_State \<Rightarrow> TValue list res" where
  "utflen L =
     bindE (luaL_checklstring L 1) (\<lambda>s.
     bindE (luaL_optinteger L 2 1) (\<lambda>i.
     bindE (luaL_optinteger L 3 (-1)) (\<lambda>j.
       let posi = u_posrelat i (length s);
           posj = u_posrelat j (length s)
       in bindE (luaL_argcheck (1 \<le> posi \<and> posi - 1 \<le> int_of_size (length s)) 2 ''initial position out of string'') (\<lambda>_.
          bindE (luaL_argcheck (posj - 1 < int_of_size (length s)) 3 ''final position out of string'') (\<lambda>_.
            utflen_loop s (posi - 1) (posj - 1) 0)))))"

function codepoint_loop :: "bytes \<Rightarrow> nat \<Rightarrow> nat \<Rightarrow> TValue list res" where
  "codepoint_loop s p se =
     (if p < se
      then bindE (utf8_decode s p) (\<lambda>x.
             case x of
               None \<Rightarrow> Inl (RuntimeError ''invalid UTF-8 code'')
             | Some (q, code) \<Rightarrow> bindE (codepoint_loop s q se) (\<lambda>vs. Inr (lua_pushinteger (uint code) # vs)))
      else Inr [])"
  by pat_completeness auto
termination
  by (relation "measure (\<lambda>(s, p, se). se - p)") (auto dest!: utf8_decode_advances)

declare codepoint_loop.simps [simp del]

definition codepoint :: "lua_State \<Rightarrow> TValue list res" where
  "codepoint L =
     bindE (luaL_checklstring L 1) (\<lambda>s.
     bindE (luaL_optinteger L 2 1) (\<lambda>i.
       let posi = u_posrelat i (length s) in
     bindE (luaL_optinteger L 3 posi) (\<lambda>e.
       let pose = u_posrelat e (length s) in
       bindE (luaL_argcheck (1 \<le> posi) 2 ''out of range'') (\<lambda>_.
       bindE (luaL_argcheck (pose \<le> int_of_size (length s)) 3 ''out of range'') (\<lambda>_.
         if pose < posi then Inr []
         else if 2 ^ 31 - 1 \<le> pose - posi then Inl (RuntimeError ''string slice too long'')
         else bindE (luaL_checkstack L (pose - posi + 1) ''string slice too long'') (\<lambda>_.
                codepoint_loop s (nat (posi - 1)) (nat pose)))))))"

definition buffutfchar :: "lua_State \<Rightarrow> nat \<Rightarrow> bytes res" where
  "buffutfchar L arg =
     bindE (luaL_checkinteger L arg) (\<lambda>code.
     bindE (luaL_argcheck (0 \<le> code \<and> code \<le> MAXUNICODE) arg ''value out of range'') (\<lambda>_.
       Inr (luaO_utf8esc (word_of_int code))))"

definition utfchar :: "lua_State \<Rightarrow> TValue res" where
  "utfchar L =
     (let n = lua_gettop L in
      if n = 1 then bindE (buffutfchar L 1) (\<lambda>charstr. Inr (TvString charstr))
      else bindE (foldE (\<lambda>b i. bindE (buffutfchar L i) (\<lambda>charstr. Inr (b @ charstr))) [] [1..<Suc n])
             (\<lambda>b. Inr (TvString b)))"

text \<open>The loops of \<open>byteoffset\<close>: to the start of the current, the previous, the next character.\<close>

fun char_start :: "bytes \<Rightarrow> nat \<Rightarrow> nat res" where
  "char_start s 0 = Inr 0"
| "char_start s (Suc posi) = bindE (iscont s (Suc posi)) (\<lambda>c. if c then char_start s posi else Inr (Suc posi))"

lemma char_start_le: "char_start s p = Inr q \<Longrightarrow> q \<le> p"
  by (induction s p rule: char_start.induct) (fastforce simp: bindE_Inr_iff split: if_splits)+

function next_char :: "bytes \<Rightarrow> nat \<Rightarrow> nat res" where
  "next_char s posi =
     bindE (iscont s (Suc posi)) (\<lambda>c. if c then next_char s (Suc posi) else Inr (Suc posi))"
  by pat_completeness auto
termination
  by (relation "measure (\<lambda>(s, posi). length s - posi)")
    (auto simp: iscont_def bindE_Inr_iff dest!: str_at_cont)

declare next_char.simps [simp del]

lemma next_char_less: "next_char s p = Inr q \<Longrightarrow> p < q"
proof (induction s p rule: next_char.induct)
  case (1 s p)
  from 1(2) show ?case
    by (subst (asm) next_char.simps) (fastforce simp: bindE_Inr_iff dest: 1(1) split: if_splits)
qed

function move_back :: "bytes \<Rightarrow> int \<Rightarrow> nat \<Rightarrow> (int \<times> nat) res" where
  "move_back s n posi =
     (if n < 0 \<and> 0 < posi
      then bindE (char_start s (posi - 1)) (\<lambda>posi'. move_back s (n + 1) posi')
      else Inr (n, posi))"
  by pat_completeness auto
termination
  by (relation "measure (\<lambda>(s, n, posi). posi)") (auto dest!: char_start_le)

declare move_back.simps [simp del]

function move_forward :: "bytes \<Rightarrow> int \<Rightarrow> nat \<Rightarrow> (int \<times> nat) res" where
  "move_forward s n posi =
     (if 0 < n \<and> int posi < int_of_size (length s)
      then bindE (next_char s posi) (\<lambda>posi'. move_forward s (n - 1) posi')
      else Inr (n, posi))"
  by pat_completeness auto
termination
  by (relation "measure (\<lambda>(s, n, posi). nat n)") auto

declare move_forward.simps [simp del]

definition byteoffset_move :: "bytes \<Rightarrow> int \<Rightarrow> nat \<Rightarrow> (int \<times> nat) res" where
  "byteoffset_move s n posi =
     (if n = 0 then bindE (char_start s posi) (\<lambda>posi. Inr (n, posi))
      else bindE (iscont s posi) (\<lambda>c.
             if c then Inl (RuntimeError ''initial position is a continuation byte'')
             else if n < 0 then move_back s n posi
             else move_forward s (n - 1) posi))"

definition byteoffset :: "lua_State \<Rightarrow> TValue res" where
  "byteoffset L =
     bindE (luaL_checklstring L 1) (\<lambda>s.
     bindE (luaL_checkinteger L 2) (\<lambda>n.
     bindE (luaL_optinteger L 3 (if 0 \<le> n then 1 else int_of_size (length s) + 1)) (\<lambda>i.
       let posi = u_posrelat i (length s) in
       bindE (luaL_argcheck (1 \<le> posi \<and> posi - 1 \<le> int_of_size (length s)) 3 ''position out of range'') (\<lambda>_.
       let posi = nat (posi - 1) in
       bindE (byteoffset_move s n posi) (\<lambda>(n, posi). Inr (if n = 0 then lua_pushinteger (int posi + 1) else TvNil))))))"

text \<open>\<^verbatim>\<open>lua_tointeger\<close> is 0 for an argument that is no number.\<close>

definition iter_aux :: "lua_State \<Rightarrow> TValue list res" where
  "iter_aux L =
     bindE (luaL_checklstring L 1) (\<lambda>s.
     bindE (lua_tointegerx L 2) (\<lambda>k.
       let n = (case k of Some k \<Rightarrow> k | None \<Rightarrow> 0) in
       if n = - (2 ^ 31) then Inl (Undefined ''signed overflow of n - 1'')
       else let n = n - 1 in
     bindE (if n < 0 then Inr 0
            else if n < int_of_size (length s) then next_char s (nat n)
            else Inr (nat n)) (\<lambda>n.
       if int_of_size (length s) \<le> int n then Inr []
       else bindE (utf8_decode s n) (\<lambda>x.
              case x of
                None \<Rightarrow> Inl (RuntimeError ''invalid UTF-8 code'')
              | Some (q, code) \<Rightarrow>
                  bindE (iscont s q) (\<lambda>c.
                    if c then Inl (RuntimeError ''invalid UTF-8 code'')
                    else Inr [lua_pushinteger (int n + 1), lua_pushinteger (uint code)])))))"

section \<open>Encoder and decoder\<close>

lemma bit6_iff: "(c :: u32) AND 0x40 \<noteq> 0 \<longleftrightarrow> bit c 6"
  using test_bit_and [of c 6] by (simp add: push_bit_eq_mult)

lemma utf8_cont_step:
  assumes "bit c 6" "str_at s (p + Suc count) = Inr cc" "iscont_byte cc"
  shows "utf8_cont s p count c r = utf8_cont s p (Suc count) (push_bit 1 c) (push_bit 6 r OR ucast (cc AND 0x3F))"
  using assms by (subst utf8_cont.simps) (simp only: bit6_iff bindE_simps if_True if_False simp_thms)

lemma utf8_cont_stop: "\<not> bit c 6 \<Longrightarrow> utf8_cont s p count c r = Inr (Some (count, c, r))"
  by (subst utf8_cont.simps) (simp only: bit6_iff if_False)

lemma utf8_cont_fail:
  assumes "bit c 6" "str_at s (p + Suc count) = Inr cc" "\<not> iscont_byte cc"
  shows "utf8_cont s p count c r = Inr None"
  using assms by (subst utf8_cont.simps) (simp only: bit6_iff bindE_simps if_True simp_thms)

text \<open>The bytes of an encoding: continuation byte \<open>k\<close> counted from the end, and the first byte.\<close>

definition enc_cont :: "u64 \<Rightarrow> nat \<Rightarrow> byte" where
  "enc_cont x k = ucast (0x80 OR (drop_bit (6 * k) x AND 0x3f))"

definition enc_lead :: "u64 \<Rightarrow> nat \<Rightarrow> byte" where
  "enc_lead x k = ucast (ucast (push_bit 1 (NOT (drop_bit k 0x3f)) :: u32) OR drop_bit (6 * k) x)"

lemma bit_enc_cont: "i < 8 \<Longrightarrow> bit (enc_cont x k) i \<longleftrightarrow> i = 7 \<or> i < 6 \<and> bit x (6 * k + i)"
proof -
  assume i: "i < 8"
  have m: "(0x3f :: u64) = mask 6" "(0x80 :: u64) = push_bit 7 1" by (simp_all add: mask_eq_exp_minus_1)
  show ?thesis using i
    unfolding enc_cont_def m bit_ucast_iff bit_or_iff bit_and_iff bit_mask_iff bit_push_bit_iff bit_drop_bit_eq o_apply
    by (auto simp: possible_bit_def bit_1_iff)
qed

lemma bit_enc_lead: "i < 8 \<Longrightarrow> bit (enc_lead x k) i \<longleftrightarrow> (0 < i \<and> 7 \<le> i + k) \<or> bit x (6 * k + i)"
proof -
  assume i: "i < 8"
  have m: "(0x3f :: u32) = mask 6" by (simp add: mask_eq_exp_minus_1)
  show ?thesis using i
    unfolding enc_lead_def m bit_ucast_iff bit_or_iff bit_not_iff bit_mask_iff bit_push_bit_iff bit_drop_bit_eq o_apply
    by (auto simp: possible_bit_def)
qed

lemma iscont_byte_iff: "iscont_byte c \<longleftrightarrow> bit c 7 \<and> \<not> bit c 6"
proof -
  have m: "(0xC0 :: byte) = push_bit 6 (mask 2)" "(0x80 :: byte) = push_bit 7 1" by (simp_all add: mask_eq_exp_minus_1)
  show ?thesis
  proof
    assume "iscont_byte c"
    then have "bit (c AND 0xC0) 7 = bit (0x80 :: byte) 7" "bit (c AND 0xC0) 6 = bit (0x80 :: byte) 6"
      by (simp_all only: iscont_byte_def)
    then show "bit c 7 \<and> \<not> bit c 6"
      unfolding m bit_and_iff bit_push_bit_iff bit_mask_iff by (auto simp: possible_bit_def bit_1_iff)
  next
    assume a: "bit c 7 \<and> \<not> bit c 6"
    have "c AND 0xC0 = 0x80"
    proof (rule bit_word_eqI)
      fix i
      assume "i < LENGTH(8)"
      moreover have "i = 6" if "6 \<le> i" "i < 7" using that by simp
      ultimately show "bit (c AND 0xC0) i = bit (0x80 :: byte) i"
        unfolding m bit_and_iff bit_push_bit_iff bit_mask_iff
        using a by (cases "i = 7"; cases "i = 6") (auto simp: possible_bit_def bit_1_iff)
    qed
    then show "iscont_byte c" by (simp add: iscont_byte_def)
  qed
qed

lemma iscont_enc_cont [simp]: "iscont_byte (enc_cont x k)"
  by (simp add: iscont_byte_iff bit_enc_cont)


text \<open>The loop of the encoder, unrolled by the size of the code point.\<close>

lemma loop_test: "(ucast (m :: u32) :: u64) < drop_bit n x \<longleftrightarrow> unat m < unat x div 2 ^ n"
  by (simp only: word_less_nat_alt unat_drop_bit_div unat_ucast_u32)

lemma esc_byte: "ucast (0x80 OR (drop_bit (6 * k) x AND 0x3f)) = enc_cont x k"
  by (simp add: enc_cont_def)

lemma utf8esc_last:
  assumes "unat x div 2 ^ (6 * Suc k) \<le> 31 div 2 ^ k" "k < 5"
  shows "utf8esc_loop (drop_bit (6 * k) x) (drop_bit k 0x3f) buff = enc_lead x (Suc k) # enc_cont x k # buff"
proof -
  have d: "drop_bit 6 (drop_bit (6 * k) x) = drop_bit (6 * Suc k) x" "drop_bit 1 (drop_bit k 0x3f :: u32) = drop_bit (Suc k) 0x3f"
    by (simp_all only: drop_bit_drop_bit) (simp_all add: ac_simps)
  have "unat (drop_bit (Suc k) 0x3f :: u32) = 31 div 2 ^ k"
    unfolding unsigned_drop_bit_eq by (simp add: drop_bit_Suc drop_bit_eq_div div_mult2_eq)
  then have "\<not> (ucast (drop_bit (Suc k) 0x3f :: u32) :: u64) < drop_bit (6 * Suc k) x"
    using assms(1) by (simp only: loop_test not_less)
  then show ?thesis
    by (subst utf8esc_loop.simps) (simp only: Let_def d esc_byte if_False enc_lead_def [symmetric])
qed

lemma utf8esc_more:
  assumes "31 div 2 ^ k < unat x div 2 ^ (6 * Suc k)"
  shows "utf8esc_loop (drop_bit (6 * k) x) (drop_bit k 0x3f) buff
    = utf8esc_loop (drop_bit (6 * Suc k) x) (drop_bit (Suc k) 0x3f) (enc_cont x k # buff)"
proof -
  have d: "drop_bit 6 (drop_bit (6 * k) x) = drop_bit (6 * Suc k) x" "drop_bit 1 (drop_bit k 0x3f :: u32) = drop_bit (Suc k) 0x3f"
    by (simp_all only: drop_bit_drop_bit) (simp_all add: ac_simps)
  have "unat (drop_bit (Suc k) 0x3f :: u32) = 31 div 2 ^ k"
    unfolding unsigned_drop_bit_eq by (simp add: drop_bit_Suc drop_bit_eq_div div_mult2_eq)
  then have "(ucast (drop_bit (Suc k) 0x3f :: u32) :: u64) < drop_bit (6 * Suc k) x"
    using assms by (simp only: loop_test)
  then show ?thesis
    by (subst utf8esc_loop.simps) (simp only: Let_def d esc_byte if_True)
qed

text \<open>The number of continuation bytes of a code point.\<close>

definition cont_count :: "u64 \<Rightarrow> nat" where
  "cont_count x = (if unat x < 0x80 then 0 else if unat x < 0x800 then 1 else if unat x < 0x10000 then 2 else 3)"

definition enc_bytes :: "u64 \<Rightarrow> nat \<Rightarrow> bytes" where
  "enc_bytes x k = enc_lead x k # map (enc_cont x) (rev [0..<k])"

lemma luaO_utf8esc_cases:
  assumes "unat x < 0x200000"
  shows "luaO_utf8esc x = (if cont_count x = 0 then [ucast x] else enc_bytes x (cont_count x))"
proof -
  let ?n = "unat x"
  consider "?n < 0x80" | "0x80 \<le> ?n" "?n < 0x800" | "0x800 \<le> ?n" "?n < 0x10000" | "0x10000 \<le> ?n"
    by linarith
  then show ?thesis
  proof cases
    case 1
    then show ?thesis by (simp add: luaO_utf8esc_def cont_count_def word_less_nat_alt)
  next
    case 2
    have "utf8esc_loop (drop_bit (6 * 0) x) (drop_bit 0 0x3f) [] = enc_bytes x 1"
      unfolding enc_bytes_def using 2 by (subst utf8esc_last) simp_all
    with 2 show ?thesis by (simp add: luaO_utf8esc_def cont_count_def word_less_nat_alt)
  next
    case 3
    have "utf8esc_loop (drop_bit (6 * 0) x) (drop_bit 0 0x3f) []
      = utf8esc_loop (drop_bit (6 * Suc 0) x) (drop_bit (Suc 0) 0x3f) [enc_cont x 0]"
      by (rule utf8esc_more) (use 3 in simp)
    also have "\<dots> = [enc_lead x (Suc (Suc 0)), enc_cont x (Suc 0), enc_cont x 0]"
      by (rule utf8esc_last) (use 3 in simp_all)
    also have "\<dots> = enc_bytes x 2" by (simp add: enc_bytes_def numeral_2_eq_2)
    finally have "utf8esc_loop (drop_bit (6 * 0) x) (drop_bit 0 0x3f) [] = enc_bytes x 2" .
    with 3 show ?thesis by (simp add: luaO_utf8esc_def cont_count_def word_less_nat_alt)
  next
    case 4
    have "utf8esc_loop (drop_bit (6 * 0) x) (drop_bit 0 0x3f) []
      = utf8esc_loop (drop_bit (6 * Suc 0) x) (drop_bit (Suc 0) 0x3f) [enc_cont x 0]"
      by (rule utf8esc_more) (use 4 in simp)
    also have "\<dots> = utf8esc_loop (drop_bit (6 * Suc (Suc 0)) x) (drop_bit (Suc (Suc 0)) 0x3f) [enc_cont x (Suc 0), enc_cont x 0]"
      by (rule utf8esc_more) (use 4 in simp)
    also have "\<dots> = [enc_lead x (Suc (Suc (Suc 0))), enc_cont x (Suc (Suc 0)), enc_cont x (Suc 0), enc_cont x 0]"
      by (rule utf8esc_last) (use 4 assms in simp_all)
    also have "\<dots> = enc_bytes x 3" by (simp add: enc_bytes_def numeral_3_eq_3)
    finally have "utf8esc_loop (drop_bit (6 * 0) x) (drop_bit 0 0x3f) [] = enc_bytes x 3" .
    with 4 show ?thesis by (simp add: luaO_utf8esc_def cont_count_def word_less_nat_alt)
  qed
qed

text \<open>The decoder on an encoding: after \<open>j\<close> continuation bytes it has collected their payload.\<close>

lemma bit_beyond: "unat (x :: u64) < 2 ^ n \<Longrightarrow> n \<le> i \<Longrightarrow> \<not> bit x i"
proof -
  assume a: "unat x < 2 ^ n" "n \<le> i"
  then have "take_bit n (unat x) = unat x" by (simp add: take_bit_nat_eq_self)
  then have "\<not> bit (unat x) i" using a(2) by (metis bit_take_bit_iff not_less)
  then show "\<not> bit x i" by (auto simp: bit_unsigned_iff)
qed

lemma str_at_nth: "i < length s \<Longrightarrow> str_at s i = Inr (s ! i)"
  by (simp add: str_at_def char_at_def)

definition collected :: "u64 \<Rightarrow> nat \<Rightarrow> nat \<Rightarrow> u32" where
  "collected x k j = ucast (take_bit (6 * j) (drop_bit (6 * (k - j)) x))"

lemma bit_collected: "bit (collected x k j) i \<longleftrightarrow> i < 32 \<and> i < 6 * j \<and> bit x (6 * (k - j) + i)"
  unfolding collected_def bit_ucast_iff bit_take_bit_iff bit_drop_bit_eq o_apply by (auto simp: possible_bit_def)

lemma collected_Suc:
  assumes "j < k"
  shows "push_bit 6 (collected x k j) OR ucast (enc_cont x (k - Suc j) AND 0x3F) = collected x k (Suc j)"
proof (rule bit_word_eqI)
  fix i
  assume "i < LENGTH(32)"
  then have i: "i < 32" by simp
  have m: "(0x3F :: byte) = mask 6" by (simp add: mask_eq_exp_minus_1)
  have k: "6 * (k - j) = 6 * (k - Suc j) + 6" using assms by simp
  have c: "bit (ucast (enc_cont x (k - Suc j) AND 0x3F) :: u32) i \<longleftrightarrow> i < 6 \<and> bit x (6 * (k - Suc j) + i)"
    unfolding m bit_ucast_iff bit_and_iff bit_mask_iff using bit_enc_cont [of i x "k - Suc j"]
    by (auto simp: possible_bit_def)
  show "bit (push_bit 6 (collected x k j) OR ucast (enc_cont x (k - Suc j) AND 0x3F)) i \<longleftrightarrow> bit (collected x k (Suc j)) i"
    unfolding bit_or_iff c bit_push_bit_iff bit_collected k using i by (auto simp: possible_bit_def)
qed

lemma bit_lead:
  assumes "unat x < 2 ^ (5 * k + 6)" "0 < k" "k \<le> 6"
  shows "bit (ucast (enc_lead x k) :: u32) i \<longleftrightarrow> i < 8 \<and> (7 \<le> i + k \<or> i + k < 6 \<and> bit x (6 * k + i))"
proof (cases "i < 8")
  case True
  have "\<not> bit x (6 * k + i)" if "6 \<le> i + k" using bit_beyond [OF assms(1)] that assms(3) by simp
  then show ?thesis
    using True bit_enc_lead [OF True, of x k] assms(2,3)
    by (cases "6 \<le> i + k") (auto simp: bit_ucast_iff possible_bit_def not_less)
next
  case False
  then show ?thesis by (auto simp: bit_ucast_iff dest: bit_imp_le_length)
qed

lemma utf8_cont_encoding:
  assumes "unat x < 2 ^ (5 * k + 6)" "0 < k" "k \<le> 6"
    and "\<And>j. 0 < j \<Longrightarrow> j \<le> k \<Longrightarrow> str_at s (p + j) = Inr (enc_cont x (k - j))"
  shows "j \<le> k \<Longrightarrow> utf8_cont s p j (push_bit j (ucast (enc_lead x k))) (collected x k j)
    = Inr (Some (k, push_bit k (ucast (enc_lead x k)), collected x k k))"
proof (induction "k - j" arbitrary: j)
  case 0
  then have "j = k" by simp
  moreover have "\<not> bit (push_bit k (ucast (enc_lead x k)) :: u32) 6"
    unfolding bit_push_bit_iff bit_lead [OF assms(1-3)] using assms(2,3) by auto
  ultimately show ?case by (simp add: utf8_cont_stop)
next
  case (Suc d)
  then have j: "j < k" "d = k - Suc j" "Suc j \<le> k" by simp_all
  have "bit (push_bit j (ucast (enc_lead x k)) :: u32) 6"
    unfolding bit_push_bit_iff bit_lead [OF assms(1-3)] using j(1) assms(3) by (auto simp: possible_bit_def)
  from utf8_cont_step [OF this assms(4) [of "Suc j"]] j(1,3)
  have "utf8_cont s p j (push_bit j (ucast (enc_lead x k))) (collected x k j)
    = utf8_cont s p (Suc j) (push_bit 1 (push_bit j (ucast (enc_lead x k)))) (collected x k (Suc j))"
    by (simp only: collected_Suc [OF j(1)] iscont_enc_cont zero_less_Suc simp_thms)
  also have "push_bit 1 (push_bit j (ucast (enc_lead x k) :: u32)) = push_bit (Suc j) (ucast (enc_lead x k))"
    by (simp only: push_bit_push_bit) simp
  also have "utf8_cont s p (Suc j) (push_bit (Suc j) (ucast (enc_lead x k))) (collected x k (Suc j))
    = Inr (Some (k, push_bit k (ucast (enc_lead x k)), collected x k k))"
    by (rule Suc(1) [OF j(2,3)])
  finally show ?case .
qed

lemma code_assembled:
  assumes "unat x < 2 ^ (5 * k + 6)" "0 < k" "k \<le> 3"
  shows "collected x k k OR push_bit (k * 5) (push_bit k (ucast (enc_lead x k)) AND 0x7F) = ucast x"
proof (rule bit_word_eqI)
  fix i
  assume "i < LENGTH(32)"
  then have i: "i < 32" by simp
  have m: "(0x7F :: u32) = mask 7" by (simp add: mask_eq_exp_minus_1)
  have k6: "k \<le> 6" using assms(3) by simp
  have big: "\<not> bit x i" if "5 * k + 6 \<le> i" using bit_beyond [OF assms(1) that] .
  show "bit (collected x k k OR push_bit (k * 5) (push_bit k (ucast (enc_lead x k)) AND 0x7F)) i \<longleftrightarrow> bit (ucast x :: u32) i"
    unfolding bit_or_iff bit_collected bit_push_bit_iff bit_and_iff m bit_mask_iff bit_lead [OF assms(1,2) k6]
    unfolding bit_ucast_iff
    using i big assms(2,3) by (cases "i < 6 * k"; cases "5 * k + 6 \<le> i") (auto simp: possible_bit_def)
qed


text \<open>The code points the decoder accepts.\<close>

definition scalar_value :: "u64 \<Rightarrow> bool" where
  "scalar_value x \<longleftrightarrow> unat x \<le> 0x10FFFF \<and> \<not> (0xD800 \<le> unat x \<and> unat x < 0xE000)"

lemma surrogate_test: "unat r < 0x110000 \<Longrightarrow> (r :: u32) - 0xD800 < 0x800 \<longleftrightarrow> 0xD800 \<le> unat r \<and> unat r < 0xE000"
proof -
  assume r: "unat r < 0x110000"
  show ?thesis
  proof (cases "0xD800 \<le> unat r")
    case True
    then have "unat (r - 0xD800) = unat r - 0xD800" by (simp add: unat_sub word_le_nat_alt)
    then show ?thesis using True by (auto simp: word_less_nat_alt)
  next
    case False
    then have "r < 0xD800" by (simp add: word_less_nat_alt)
    then have "unat (r - 0xD800) = unat r + 2 ^ 32 - 0xD800"
      using unat_sub_if' [of r "0xD800"] False by simp
    then show ?thesis using False by (simp add: word_less_nat_alt)
  qed
qed

lemma unat_ucast_code: "unat (x :: u64) < 2 ^ 32 \<Longrightarrow> unat (ucast x :: u32) = unat x"
  by (simp add: unat_low32)

lemma cont_count_bounds:
  assumes "unat x \<le> 0x10FFFF"
  shows "cont_count x \<le> 3" "0 < cont_count x \<Longrightarrow> unat x < 2 ^ (5 * cont_count x + 6)"
    "0 < cont_count x \<Longrightarrow> unat (utf8_limits ! cont_count x) < unat x"
  using assms by (auto simp: cont_count_def utf8_limits_def)

lemma utf8_check_code:
  assumes "scalar_value x" "0 < k" "k \<le> 3" "unat (utf8_limits ! k) < unat x" "unat x < 2 ^ (5 * k + 6)"
  shows "utf8_check p k (push_bit k (ucast (enc_lead x k))) (collected x k k) = Inr (Some (p + k + 1, ucast x))"
proof -
  have u: "unat (ucast x :: u32) = unat x" using assms(1) by (intro unat_ucast_code) (simp add: scalar_value_def)
  have "\<not> 0x10FFFF < (ucast x :: u32)" "\<not> (ucast x :: u32) \<le> utf8_limits ! k" "\<not> (ucast x :: u32) - 0xD800 < 0x800"
    using assms u surrogate_test [of "ucast x"] by (auto simp: word_less_nat_alt word_le_nat_alt scalar_value_def)
  then show ?thesis
    unfolding utf8_check_def code_assembled [OF assms(5,2,3)] Let_def using assms(3) by simp
qed

lemma utf8_decode_encoding:
  assumes "scalar_value x" "\<And>j. j < length (luaO_utf8esc x) \<Longrightarrow> str_at s (p + j) = Inr (luaO_utf8esc x ! j)"
  shows "utf8_decode s p = Inr (Some (p + length (luaO_utf8esc x), ucast x))"
proof -
  have n: "unat x \<le> 0x10FFFF" using assms(1) by (simp add: scalar_value_def)
  note e = luaO_utf8esc_cases [of x]
  note b = cont_count_bounds [OF n]
  show ?thesis
  proof (cases "cont_count x = 0")
    case True
    then have "unat x < 0x80" by (simp add: cont_count_def split: if_splits)
    moreover have "luaO_utf8esc x = [ucast x]" using e n True by simp
    moreover have "(ucast (ucast x :: byte) :: u32) = ucast x" if "unat x < 0x80"
    proof (rule bit_word_eqI)
      fix i
      have "\<not> bit x i" if "\<not> i < 8" using bit_beyond [of x 7 i] that \<open>unat x < 0x80\<close> by simp
      then show "bit (ucast (ucast x :: byte) :: u32) i \<longleftrightarrow> bit (ucast x :: u32) i"
        by (auto simp: bit_ucast_iff possible_bit_def)
    qed
    ultimately show ?thesis
      using assms(2) [of 0] by (simp add: utf8_decode_def word_less_nat_alt unat_ucast_code)
  next
    case False
    define k where "k = cont_count x"
    have k: "0 < k" "k \<le> 3" "k \<le> 6" "unat x < 2 ^ (5 * k + 6)" "unat (utf8_limits ! k) < unat x"
      using False b by (simp_all add: k_def)
    have es: "luaO_utf8esc x = enc_bytes x k" using e n False by (simp add: k_def)
    have len: "length (luaO_utf8esc x) = k + 1" by (simp add: es enc_bytes_def)
    have at: "str_at s (p + j) = Inr (enc_cont x (k - j))" if "0 < j" "j \<le> k" for j
      using assms(2) [of j] that by (cases j) (simp_all add: es enc_bytes_def rev_nth)
    have at0: "str_at s p = Inr (enc_lead x k)" using assms(2) [of 0] by (simp add: es enc_bytes_def)
    have "bit (ucast (enc_lead x k) :: u32) 7" using bit_lead [OF k(4,1,3)] k by simp
    then have hi: "\<not> (ucast (enc_lead x k) :: u32) < 0x80"
      using bit_beyond [of "ucast (ucast (enc_lead x k) :: u32)" 7 7]
      by (auto simp: word_less_nat_alt bit_ucast_iff possible_bit_def)
    have c0: "collected x k 0 = 0" by (simp add: collected_def)
    have "utf8_cont s p 0 (ucast (enc_lead x k)) 0 = Inr (Some (k, push_bit k (ucast (enc_lead x k)), collected x k k))"
      using utf8_cont_encoding [OF k(4,1,3) at, of 0] by (simp add: c0)
    then show ?thesis
      using at0 hi utf8_check_code [OF assms(1) k(1,2,5,4)] len by (simp add: utf8_decode_def)
  qed
qed

text \<open>
  C18: the decoder of the \<^verbatim>\<open>utf8\<close> library inverts its encoder: wherever the bytes that
  \<^verbatim>\<open>luaO_utf8esc\<close> produces for a code point that is not a surrogate stand in a string, decoding at
  that position returns the code point and the position behind the bytes.
\<close>

theorem utf8_decode_encode:
  assumes "scalar_value x"
  shows "utf8_decode (pre @ luaO_utf8esc x @ rest) (length pre)
    = Inr (Some (length pre + length (luaO_utf8esc x), ucast x))"
  using assms by (rule utf8_decode_encoding) (simp add: str_at_def char_at_def nth_append)

lemma utf8_decode_encode_witness:
  "utf8_decode ([0x61] @ luaO_utf8esc 0x20AC @ [0x62]) 1 = Inr (Some (1 + length (luaO_utf8esc 0x20AC), 0x20AC))"
  using utf8_decode_encode [of "0x20AC" "[0x61]" "[0x62]"] by (simp add: scalar_value_def)


text \<open>Conversely, what the loop has read when it succeeds.\<close>

lemma utf8_cont_bits:
  "utf8_cont s p count c r = Inr (Some (k, c', r')) \<Longrightarrow>
     c' = push_bit (k - count) c \<and> \<not> bit c' 6 \<and> (\<forall>j < k - count. j \<le> 6 \<and> bit c (6 - j))
     \<and> (\<forall>i < 32. bit r' i \<longleftrightarrow> (if i < 6 * (k - count) then bit (s ! (p + k - i div 6)) (i mod 6)
                             else bit r (i - 6 * (k - count))))"
proof (induction s p count c r rule: utf8_cont.induct)
  case (1 s p count c r)
  show ?case
  proof (cases "c AND 0x40 \<noteq> 0")
    case True
    with 1(2) obtain cc where cc: "str_at s (p + Suc count) = Inr cc" "iscont_byte cc"
      and R: "utf8_cont s p (Suc count) (push_bit 1 c) (push_bit 6 r OR ucast (cc AND 0x3F)) = Inr (Some (k, c', r'))"
      by (subst (asm) utf8_cont.simps) (auto simp: bindE_Inr_iff split: if_splits)
    define m where "m = k - Suc count"
    have k: "k - count = Suc m" "p + k - m = p + Suc count" using utf8_cont_Some [OF R] by (auto simp: m_def)
    from cc(2) have nn: "\<not> \<not> iscont_byte cc" by simp
    note IH = 1(1) [OF True cc(1) nn R, folded m_def]
    have "push_bit m (push_bit 1 c) = push_bit (Suc m) c" by (simp only: push_bit_push_bit Suc_eq_plus1)
    with IH have c': "c' = push_bit (Suc m) c" "\<not> bit c' 6" by metis+
    have bits: "j \<le> 6 \<and> bit c (6 - j)" if "j < Suc m" for j
    proof (cases j)
      case 0
      then show ?thesis using True by (simp add: bit6_iff)
    next
      case (Suc i)
      then have "i < m" using that by simp
      then have "i \<le> 6 \<and> bit (push_bit 1 c) (6 - i)" using IH by blast
      then show ?thesis unfolding bit_push_bit_iff using Suc by auto
    qed
    have mk: "(0x3F :: byte) = mask 6" by (simp add: mask_eq_exp_minus_1)
    have payload: "bit (push_bit 6 r OR ucast (cc AND 0x3F)) i \<longleftrightarrow> (if i < 6 then bit cc i else bit r (i - 6))" if "i < 32" for i
      unfolding bit_or_iff bit_push_bit_iff bit_ucast_iff mk bit_and_iff bit_mask_iff using that by (auto simp: possible_bit_def)
    have "bit r' i \<longleftrightarrow> (if i < 6 * Suc m then bit (s ! (p + k - i div 6)) (i mod 6) else bit r (i - 6 * Suc m))" if "i < 32" for i
    proof -
      consider "i < 6 * m" | "6 * m \<le> i" "i < 6 * Suc m" | "6 * Suc m \<le> i" by linarith
      then show ?thesis
      proof cases
        case 2
        then have d: "i div 6 = m" by (intro div_nat_eqI) auto
        then have "i mod 6 = i - 6 * m" using minus_mult_div_eq_mod [of i 6] by simp
        note d = d this
        show ?thesis using d 2 IH that payload [of "i - 6 * m"] str_at_cont [OF cc] k(2) by auto
      next
        case 3
        moreover have "i - 6 * m - 6 = i - 6 * Suc m" by simp
        ultimately show ?thesis using IH that payload [of "i - 6 * m"] by auto
      qed (use IH that in auto)
    qed
    with c' bits k(1) show ?thesis by simp
  next
    case False
    with 1(2) show ?thesis by (subst (asm) utf8_cont.simps) (auto simp: bit6_iff [symmetric])
  qed
qed

lemma iscont_bits: "iscont_byte c \<Longrightarrow> i < 8 \<Longrightarrow> bit c i \<longleftrightarrow> i = 7 \<or> i < 6 \<and> bit c i"
  by (cases "i = 6") (auto simp: iscont_byte_iff)


lemma bit_code:
  assumes "utf8_cont s p 0 (ucast b) 0 = Inr (Some (k, c', r'))" "k \<le> 3" "i < 32"
  shows "bit (r' OR push_bit (k * 5) (c' AND 0x7F)) i \<longleftrightarrow>
    (if i < 6 * k then bit (s ! (p + k - i div 6)) (i mod 6) else i < 5 * k + 6 \<and> bit b (i - 6 * k))"
proof -
  note B = utf8_cont_bits [OF assms(1), simplified]
  have m: "(0x7F :: u32) = mask 7" by (simp add: mask_eq_exp_minus_1)
  have c: "bit c' j \<longleftrightarrow> k \<le> j \<and> j < 32 \<and> bit b (j - k)" for j
    using B unfolding bit_push_bit_iff bit_ucast_iff by (auto simp: possible_bit_def bit_push_bit_iff bit_ucast_iff)
  have z: "\<not> bit b (6 - k)" using B c [of 6] assms(2) by auto
  have "bit (push_bit (k * 5) (c' AND 0x7F)) i \<longleftrightarrow> 6 * k \<le> i \<and> i < 5 * k + 6 \<and> bit b (i - 6 * k)"
  proof (cases "i = 5 * k + 6")
    case True
    have "5 * k + 6 - 6 * k = 6 - k" using assms(2) by simp
    with True z assms show ?thesis unfolding bit_push_bit_iff bit_and_iff m bit_mask_iff c by auto
  next
    case False
    then show ?thesis unfolding bit_push_bit_iff bit_and_iff m bit_mask_iff c
      using assms(2,3) by (auto simp: possible_bit_def diff_diff_eq)
  qed
  then show ?thesis using B assms(3) by (auto simp: bit_or_iff)
qed

lemma decoded_bytes:
  assumes "utf8_cont s p 0 (ucast b) 0 = Inr (Some (k, c', r'))" "0 < k" "k \<le> 3" "bit b 7" "s ! p = b"
  defines "x \<equiv> ucast (r' OR push_bit (k * 5) (c' AND 0x7F)) :: u64"
  shows "enc_lead x k = b" "\<And>j. 0 < j \<Longrightarrow> j \<le> k \<Longrightarrow> enc_cont x (k - j) = s ! (p + j)" "unat x < 2 ^ (5 * k + 6)"
proof -
  note B = utf8_cont_bits [OF assms(1), simplified] and S = utf8_cont_Some [OF assms(1)]
  have x: "bit x i \<longleftrightarrow> i < 32 \<and> (if i < 6 * k then bit (s ! (p + k - i div 6)) (i mod 6) else i < 5 * k + 6 \<and> bit b (i - 6 * k))" for i
  proof (cases "i < 32")
    case True
    show ?thesis unfolding x_def bit_ucast_iff bit_code [OF assms(1,3) True] using True by (auto simp: possible_bit_def)
  next
    case False
    then show ?thesis unfolding x_def bit_ucast_iff by (auto dest: bit_imp_le_length)
  qed
  have lead: "bit b (6 - j)" if "j < k" for j using B that by (auto simp: bit_ucast_iff)
  have z: "\<not> bit b (6 - k)" using B assms(3) by (auto simp: bit_push_bit_iff bit_ucast_iff possible_bit_def)
  show "enc_lead x k = b"
  proof (rule bit_word_eqI)
    fix i
    assume "i < LENGTH(8)"
    then have i: "i < 8" by simp
    consider "i = 7" | "i < 7" "7 \<le> i + k" | "i + k = 6" | "i + k < 6" using i by linarith
    then show "bit (enc_lead x k) i \<longleftrightarrow> bit b i"
    proof cases
      case 2
      then show ?thesis using lead [of "6 - i"] assms(3) by (simp add: bit_enc_lead [OF i])
    next
      case 3
      then have "bit (enc_lead x k) i \<longleftrightarrow> bit x (5 * k + 6)" "i = 6 - k" "\<not> bit x (5 * k + 6)"
        unfolding bit_enc_lead [OF i] x using assms(3) by auto
      with z show ?thesis by simp
    next
      case 4
      then show ?thesis using assms(3) by (simp add: bit_enc_lead [OF i] x)
    next
      case 1
      then show ?thesis using assms(2,4) unfolding bit_enc_lead [OF i] by simp
    qed
  qed
  show "enc_cont x (k - j) = s ! (p + j)" if j: "0 < j" "j \<le> k" for j
  proof (rule bit_word_eqI)
    fix i
    assume "i < LENGTH(8)"
    then have i: "i < 8" by simp
    have "6 * (k - j) + i < 6 * k" if "i < 6" using that j by (simp add: diff_mult_distrib2)
    then have "bit x (6 * (k - j) + i) \<longleftrightarrow> bit (s ! (p + j)) i" if "i < 6"
      using that j assms(3) by (simp add: x)
    moreover have "iscont_byte (s ! (p + j))" using S j by auto
    ultimately show "bit (enc_cont x (k - j)) i \<longleftrightarrow> bit (s ! (p + j)) i"
      using iscont_bits [of "s ! (p + j)" i] i by (auto simp: bit_enc_cont [OF i])
  qed
  have "take_bit (5 * k + 6) x = x"
    by (rule bit_word_eqI) (use assms(2,3) in \<open>auto simp: bit_take_bit_iff x split: if_splits\<close>)
  then have "take_bit (5 * k + 6) (unat x) = unat x" by (metis unsigned_take_bit_eq)
  then show "unat x < 2 ^ (5 * k + 6)" by (metis take_bit_nat_less_exp)
qed

lemma utf8_check_ok:
  assumes "utf8_check p k c r = Inr (Some (q, code))"
  shows "q = p + k + 1" "k \<le> 3" "code = r OR push_bit (k * 5) (c AND 0x7F)"
    "\<not> code \<le> utf8_limits ! k" "\<not> 0x10FFFF < code" "\<not> code - 0xD800 < 0x800"
  using assms by (auto simp: utf8_check_def Let_def split: if_splits)

lemma unat_ucast_byte [simp]:
  "unat (ucast (b :: byte) :: u32) = unat b" "unat (ucast (b :: byte) :: u64) = unat b"
  using unat_byte [of b] by (simp_all only: unsigned_ucast_eq) (rule take_bit_nat_eq_self, simp)+

lemma high_bit: "\<not> (ucast (b :: byte) :: u32) < 0x80 \<Longrightarrow> bit b 7"
proof (rule ccontr)
  assume a: "\<not> (ucast b :: u32) < 0x80" "\<not> bit b 7"
  have "take_bit 7 b = b"
    by (rule bit_word_eqI) (use a(2) in \<open>auto simp: bit_take_bit_iff less_Suc_eq eval_nat_numeral\<close>)
  then have "unat b < 2 ^ 7" by (metis take_bit_nat_less_exp unsigned_take_bit_eq)
  then show False using a(1) by (simp add: word_less_nat_alt)
qed

lemma cont_cases:
  obtains "k = 0" | "k = 1" | "k = 2" | "k = 3" | "3 < (k :: nat)"
  by linarith

lemma enc_bytes_at:
  assumes "q = p + k + 1" "p + k < length s" "enc_lead x k = s ! p" "\<And>j. 0 < j \<Longrightarrow> j \<le> k \<Longrightarrow> enc_cont x (k - j) = s ! (p + j)"
  shows "enc_bytes x k = take (q - p) (drop p s)"
proof (rule nth_equalityI)
  show "length (enc_bytes x k) = length (take (q - p) (drop p s))" using assms(1,2) by (simp add: enc_bytes_def)
  fix i
  assume "i < length (enc_bytes x k)"
  then have "i \<le> k" by (simp add: enc_bytes_def)
  then show "enc_bytes x k ! i = take (q - p) (drop p s) ! i"
    using assms by (cases i) (auto simp: enc_bytes_def rev_nth)
qed

text \<open>
  C12: the decoder accepts nothing but encodings: when it succeeds, the code point is in the range of
  Unicode and no surrogate, and the bytes it consumed are the bytes the encoder produces for that code
  point. Overlong forms, truncated sequences and stray continuation bytes are therefore rejected.
\<close>

theorem utf8_decode_canonical:
  assumes "utf8_decode s p = Inr (Some (q, code))" "p < length s"
  shows "scalar_value (ucast code) \<and> take (q - p) (drop p s) = luaO_utf8esc (ucast code)"
proof -
  define b where "b = s ! p"
  have b: "str_at s p = Inr b" using assms(2) by (simp add: b_def str_at_nth)
  show ?thesis
  proof (cases "(ucast b :: u32) < 0x80")
    case True
    then have q: "q = p + 1" "code = ucast b" using assms(1) b by (simp_all add: utf8_decode_def)
    have n: "unat b < 0x80" using True by (simp add: word_less_nat_alt)
    have e: "(ucast code :: u64) = ucast b" by (rule bit_word_eqI) (auto simp: q(2) bit_ucast_iff possible_bit_def dest: bit_imp_le_length)
    have "(ucast (ucast b :: u64) :: byte) = b"
      by (rule bit_word_eqI) (auto simp: bit_ucast_iff possible_bit_def)
    then have "luaO_utf8esc (ucast b) = [b]" using n by (simp add: luaO_utf8esc_def word_less_nat_alt)
    moreover have "take (q - p) (drop p s) = [b]" using assms(2) by (simp add: q(1) b_def take_Suc_conv_app_nth [of 0])
    ultimately show ?thesis using n by (simp add: e scalar_value_def)
  next
    case False
    then obtain k c r where l: "utf8_cont s p 0 (ucast b) 0 = Inr (Some (k, c, r))" and ck: "utf8_check p k c r = Inr (Some (q, code))"
      using assms(1) b by (auto simp: utf8_decode_def bindE_Inr_iff split: option.splits)
    note d = utf8_check_ok [OF ck]
    have hi: "bit b 7" using False by (rule high_bit)
    have k: "0 < k"
    proof (rule ccontr)
      assume "\<not> 0 < k"
      then have k0: "k = 0" by simp
      have "bit code i \<longleftrightarrow> i < 6 \<and> bit b i" if "i < 32" for i
        using bit_code [OF l d(2) that] unfolding d(3) [symmetric] by (simp add: k0)
      then have "take_bit 6 code = code" by (intro bit_word_eqI) (auto simp: bit_take_bit_iff)
      then have "unat code < 2 ^ 6" by (metis take_bit_nat_less_exp unsigned_take_bit_eq)
      then show False using d(4) by (simp add: k0 utf8_limits_def word_le_nat_alt)
    qed
    let ?x = "ucast code :: u64"
    note D = decoded_bytes [OF l k d(2) hi b_def [symmetric], folded d(3)]
    have n: "unat code \<le> 0x10FFFF" "unat code < 2 ^ (5 * k + 6)" "unat (utf8_limits ! k) < unat code"
      using D(3) d(4,5) by (simp_all add: word_less_nat_alt word_le_nat_alt)
    then have s: "scalar_value ?x" using surrogate_test [of code] d(6) by (auto simp: scalar_value_def)
    have "cont_count ?x = k"
      using n k d(2) by (cases k rule: cont_cases) (auto simp: cont_count_def utf8_limits_def)
    then have "luaO_utf8esc ?x = enc_bytes ?x k" using luaO_utf8esc_cases [of ?x] n(1) k by simp
    also have "\<dots> = take (q - p) (drop p s)"
      using utf8_cont_Some [OF l] k D(1,2) d(1) by (intro enc_bytes_at) (auto simp: b_def)
    finally show ?thesis using s by simp
  qed
qed


lemma utf8_decode_canonical_witness:
  "utf8_decode [0xC3, 0xA9] 0 = Inr (Some (2, 0xE9)) \<and> [0xC3, 0xA9] = luaO_utf8esc 0xE9"
proof -
  have d: "utf8_decode [0xC3, 0xA9] 0 = Inr (Some (2, 0xE9))"
    by (simp add: utf8_decode_def str_at_def char_at_def utf8_cont.simps iscont_byte_def utf8_check_def utf8_limits_def)
  from utf8_decode_canonical [OF d] have "[0xC3, 0xA9] = luaO_utf8esc 0xE9" by simp
  with d show ?thesis by blast
qed

section \<open>Whole strings\<close>

definition valid_code :: "int \<Rightarrow> bool" where
  "valid_code c \<longleftrightarrow> 0 \<le> c \<and> c \<le> MAXUNICODE \<and> \<not> (0xD800 \<le> c \<and> c < 0xE000)"

definition encode_all :: "int list \<Rightarrow> bytes" where
  "encode_all codes = concat (map (\<lambda>c. luaO_utf8esc (word_of_int c)) codes)"

lemma valid_code_scalar:
  assumes "valid_code c"
  shows "scalar_value (word_of_int c)" "uint (ucast (word_of_int c :: u64) :: u32) = c" "in_int32 c"
proof -
  have b: "0 \<le> c" "c < 2 ^ 31" using assms by (auto simp: valid_code_def MAXUNICODE_def)
  then have u: "unat (word_of_int c :: u64) = nat c" by (simp add: unsigned_of_int take_bit_int_eq_self)
  show "scalar_value (word_of_int c)" using assms u by (auto simp: scalar_value_def valid_code_def MAXUNICODE_def)
  have "unat (ucast (word_of_int c :: u64) :: u32) = nat c" using b u by (subst unat_ucast_code) auto
  then show "uint (ucast (word_of_int c :: u64) :: u32) = c" using b by (metis int_nat_eq of_nat_unat)
  show "in_int32 c" using b by (simp add: in_int32_def)
qed

lemma codepoint_loop_encoded:
  "list_all valid_code codes \<Longrightarrow>
   codepoint_loop (pre @ encode_all codes) (length pre) (length pre + length (encode_all codes))
    = Inr (map lua_pushinteger codes)"
proof (induction codes arbitrary: pre)
  case Nil
  show ?case by (subst codepoint_loop.simps) (simp add: encode_all_def)
next
  case (Cons c codes)
  let ?e = "luaO_utf8esc (word_of_int c)"
  have v: "valid_code c" using Cons.prems by simp
  have s: "pre @ encode_all (c # codes) = pre @ ?e @ encode_all codes" by (simp add: encode_all_def)
  have dec: "utf8_decode (pre @ ?e @ encode_all codes) (length pre) = Inr (Some (length pre + length ?e, ucast (word_of_int c :: u64)))"
    by (rule utf8_decode_encoding [OF valid_code_scalar(1) [OF v]]) (simp add: str_at_def char_at_def nth_append)
  from utf8_decode_advances [OF dec] have len: "0 < length ?e" by simp
  have l: "length (encode_all (c # codes)) = length ?e + length (encode_all codes)" by (simp add: encode_all_def)
  have IH: "codepoint_loop (pre @ ?e @ encode_all codes) (length pre + length ?e) (length pre + length (encode_all (c # codes)))
     = Inr (map lua_pushinteger codes)"
    using Cons.IH [of "pre @ ?e"] Cons.prems by (simp add: l add.assoc)
  show ?case
    unfolding s by (subst codepoint_loop.simps) (use len IH dec l valid_code_scalar(2) [OF v] in simp)
qed

lemma utflen_loop_encoded:
  "list_all valid_code codes \<Longrightarrow>
   utflen_loop (pre @ encode_all codes) (int (length pre)) (int (length pre + length (encode_all codes)) - 1) n
    = Inr [lua_pushinteger (int (n + length codes))]"
proof (induction codes arbitrary: pre n)
  case Nil
  show ?case by (subst utflen_loop.simps) (simp add: encode_all_def)
next
  case (Cons c codes)
  let ?e = "luaO_utf8esc (word_of_int c)"
  have v: "valid_code c" using Cons.prems by simp
  have s: "pre @ encode_all (c # codes) = pre @ ?e @ encode_all codes" by (simp add: encode_all_def)
  have dec: "utf8_decode (pre @ ?e @ encode_all codes) (length pre) = Inr (Some (length pre + length ?e, ucast (word_of_int c :: u64)))"
    by (rule utf8_decode_encoding [OF valid_code_scalar(1) [OF v]]) (simp add: str_at_def char_at_def nth_append)
  from utf8_decode_advances [OF dec] have len: "0 < length ?e" by simp
  have l: "length (encode_all (c # codes)) = length ?e + length (encode_all codes)" by (simp add: encode_all_def)
  have IH: "utflen_loop (pre @ ?e @ encode_all codes) (int (length pre + length ?e)) (int (length pre + length (encode_all (c # codes))) - 1) (Suc n)
     = Inr [lua_pushinteger (int (Suc n + length codes))]"
    using Cons.IH [of "pre @ ?e" "Suc n"] Cons.prems by (simp add: l add.assoc)
  show ?case
  proof -
    have "0 < int (length ?e) + int (length (encode_all codes))" using len by linarith
    then show ?thesis unfolding s by (subst utflen_loop.simps) (use IH dec l in simp)
  qed
qed

lemma base_call [arg_simps]: "base (call_state args) = args"
  by (simp add: call_state_def)

lemma checklstring_arg [arg_simps]: "index2addr L i = Some (TvString s) \<Longrightarrow> luaL_checklstring L i = Inr s"
  by (simp add: luaL_checklstring_def lua_tolstring_def)

lemma optinteger_arg [arg_simps]:
  "index2addr L i = Some (lua_pushinteger n) \<Longrightarrow> in_int32 n \<Longrightarrow> luaL_optinteger L i d = Inr n"
  by (simp add: luaL_optinteger_def lua_isnoneornil_def lua_type_def checkinteger_pushed)
    (simp add: lua_pushinteger_def)

lemma buffutfchar_code:
  "index2addr L i = Some (lua_pushinteger c) \<Longrightarrow> valid_code c \<Longrightarrow> buffutfchar L i = Inr (luaO_utf8esc (word_of_int c))"
  using valid_code_scalar(3) [of c] by (simp add: buffutfchar_def arg_simps luaL_argcheck_def valid_code_def)

lemma utfchar_encodes:
  assumes "list_all valid_code codes"
  shows "utfchar (call_state (map lua_pushinteger codes)) = Inr (TvString (encode_all codes))"
proof -
  let ?L = "call_state (map lua_pushinteger codes)"
  have b: "buffutfchar ?L i = Inr (luaO_utf8esc (word_of_int (codes ! (i - 1))))" if "0 < i" "i \<le> length codes" for i
    using that assms by (intro buffutfchar_code) (auto simp: index2addr_call list_all_length)
  have "foldE (\<lambda>b i. bindE (buffutfchar ?L i) (\<lambda>charstr. Inr (b @ charstr))) acc [Suc k..<Suc (length codes)]
      = Inr (acc @ encode_all (drop k codes))" if "k \<le> length codes" for acc k
    using that
  proof (induction "length codes - k" arbitrary: k acc)
    case 0
    then show ?case by (simp add: encode_all_def)
  next
    case (Suc d)
    then have k: "k < length codes" by simp
    have u: "[Suc k..<Suc (length codes)] = Suc k # [Suc (Suc k)..<Suc (length codes)]"
      using k by (simp add: upt_conv_Cons del: upt_Suc)
    have dr: "drop k codes = codes ! k # drop (Suc k) codes" using k by (simp add: Cons_nth_drop_Suc)
    show ?case unfolding u dr using Suc(1) [of "Suc k"] Suc(2) k b [of "Suc k"] by (simp add: encode_all_def del: upt_Suc)
  qed
  from this [of 0 "[]"] have f: "foldE (\<lambda>b i. bindE (buffutfchar ?L i) (\<lambda>charstr. Inr (b @ charstr))) [] [1..<Suc (length codes)]
      = Inr (encode_all codes)" by simp
  have g: "lua_gettop ?L = length codes" by (simp add: lua_gettop_def call_state_def)
  show ?thesis
  proof (cases "length codes = 1")
    case True
    then obtain c where "codes = [c]" by (cases codes) auto
    then show ?thesis using b [of 1] by (simp add: utfchar_def lua_gettop_def base_call encode_all_def Let_def)
  next
    case False
    then show ?thesis by (simp only: utfchar_def Let_def g if_False f bindE_simps)
  qed
qed

text \<open>
  C26: \<^verbatim>\<open>utf8.codepoint\<close> over a whole string and \<^verbatim>\<open>utf8.len\<close> read back what \<^verbatim>\<open>utf8.char\<close> built: for
  every list of code points without surrogates whose encoding fits the stack limit, the first returns
  exactly these code points and the second their number.
\<close>

theorem utf8_char_codepoint:
  assumes "list_all valid_code codes" "length (encode_all codes) + 3 \<le> lua_checkstack_limit"
  shows "\<exists>s. utfchar (call_state (map lua_pushinteger codes)) = Inr (TvString s)
    \<and> codepoint (call_state [TvString s, lua_pushinteger 1, lua_pushinteger (-1)]) = Inr (map lua_pushinteger codes)
    \<and> utflen (call_state [TvString s]) = Inr [lua_pushinteger (int (length codes))]"
proof -
  let ?s = "encode_all codes"
  have n: "length ?s < 2 ^ 31" "length ?s \<le> 7997" using assms(2) by (simp_all add: lua_checkstack_limit_def)
  have "codepoint (call_state [TvString ?s, lua_pushinteger 1, lua_pushinteger (-1)]) = Inr (map lua_pushinteger codes)"
  proof (cases "codes = []")
    case True
    then show ?thesis
      by (simp add: codepoint_def arg_simps in_int32_def u_posrelat_def encode_all_def luaL_argcheck_def int_of_size_def Let_def)
  next
    case False
    then have "0 < length ?s"
      using codepoint_loop_encoded [OF assms(1), of "[]"] by (cases codes) (auto simp: codepoint_loop.simps)
    then show ?thesis
      using n codepoint_loop_encoded [OF assms(1), of "[]"]
      by (simp add: codepoint_def arg_simps in_int32_def u_posrelat_def luaL_argcheck_def int_of_size_small Let_def
          luaL_checkstack_def lua_checkstack_limit_def base_call)
  qed
  moreover have "utflen (call_state [TvString ?s]) = Inr [lua_pushinteger (int (length codes))]"
    using n utflen_loop_encoded [OF assms(1), of "[]" 0]
    by (cases "length ?s = 0") (simp_all add: utflen_def arg_simps u_posrelat_def luaL_argcheck_def int_of_size_small Let_def)
  ultimately show ?thesis using utfchar_encodes [OF assms(1)] by blast
qed

lemma utf8_char_codepoint_witness:
  "\<exists>s. utfchar (call_state (map lua_pushinteger [0x48, 0x20AC, 0x1F600])) = Inr (TvString s)
    \<and> codepoint (call_state [TvString s, lua_pushinteger 1, lua_pushinteger (-1)]) = Inr (map lua_pushinteger [0x48, 0x20AC, 0x1F600])
    \<and> utflen (call_state [TvString s]) = Inr [lua_pushinteger (int (length [0x48, 0x20AC, 0x1F600 :: int]))]"
  by (rule utf8_char_codepoint)
    (simp_all add: valid_code_def MAXUNICODE_def encode_all_def luaO_utf8esc_cases cont_count_def enc_bytes_def lua_checkstack_limit_def)


section \<open>Reads stay inside the string\<close>

named_theorems no_overrun \<open>steps that do not read a string\<close>

lemma checks_no_overrun [no_overrun]:
  "luaL_checklstring L i \<noteq> Inl string_overrun"
  "luaL_argcheck c i m \<noteq> Inl string_overrun"
  "luaL_checkstack L n m \<noteq> Inl string_overrun"
  "luai_num2int d \<noteq> Inl string_overrun"
  "RuntimeError m \<noteq> string_overrun"
  "string_overrun \<noteq> ArgError i m" "string_overrun \<noteq> RuntimeError m"
  "Undefined ''signed overflow of n - 1'' \<noteq> string_overrun"
  by (auto simp: luaL_checklstring_def luaL_argcheck_def luaL_checkstack_def luai_num2int_def
      string_overrun_def luaL_typeerrorL_def split: option.splits if_splits)

lemma integer_checks_no_overrun [no_overrun]:
  "lua_tointegerx L i \<noteq> Inl string_overrun"
  "luaL_checkinteger L i \<noteq> Inl string_overrun"
  "luaL_optinteger L i n \<noteq> Inl string_overrun"
proof -
  show t: "lua_tointegerx L i \<noteq> Inl string_overrun"
    using checks_no_overrun(4) by (auto simp: lua_tointegerx_def bindE_Inl_iff split: option.splits)
  show c: "luaL_checkinteger L i \<noteq> Inl string_overrun"
    using t by (auto simp: luaL_checkinteger_def bindE_Inl_iff luaL_typeerrorL_def string_overrun_def split: option.splits)
  show "luaL_optinteger L i n \<noteq> Inl string_overrun" using c by (simp add: luaL_optinteger_def)
qed

lemma utflen_loop_inside: "0 \<le> posi \<Longrightarrow> posj < int (length s) \<Longrightarrow> utflen_loop s posi posj n \<noteq> Inl string_overrun"
proof (induction s posi posj n rule: utflen_loop.induct)
  case (1 s posi posj n)
  show ?case
  proof (cases "posi \<le> posj")
    case True
    then have "nat posi < length s" using 1 by simp
    then show ?thesis using 1 True utf8_decode_inside [of "nat posi" s]
      by (subst utflen_loop.simps) (fastforce simp: bindE_Inl_iff split: option.splits)
  next
    case False
    then show ?thesis by (subst utflen_loop.simps) simp
  qed
qed

lemma codepoint_loop_inside: "se \<le> length s \<Longrightarrow> codepoint_loop s p se \<noteq> Inl string_overrun"
proof (induction s p se rule: codepoint_loop.induct)
  case (1 s p se)
  show ?case
  proof (cases "p < se")
    case True
    then have "p < length s" using 1 by simp
    then show ?thesis using 1 True utf8_decode_inside [of p s]
      by (subst codepoint_loop.simps) (fastforce simp: bindE_Inl_iff no_overrun split: option.splits)
  next
    case False
    then show ?thesis by (subst codepoint_loop.simps) simp
  qed
qed

lemma iscont_inside: "i \<le> length s \<Longrightarrow> iscont s i = Inr (i < length s \<and> iscont_byte (s ! i))"
  by (auto simp: iscont_def str_at_def char_at_def)

lemma char_start_inside: "p \<le> length s \<Longrightarrow> \<exists>q. char_start s p = Inr q"
  by (induction p) (auto simp: iscont_inside)

lemma next_char_inside: "p < length s \<Longrightarrow> \<exists>q. next_char s p = Inr q \<and> q \<le> length s"
proof (induction s p rule: next_char.induct)
  case (1 s p)
  show ?case
    using 1 by (subst next_char.simps) (auto simp: iscont_inside)
qed

lemma next_char_safe: "p < length s \<Longrightarrow> next_char s p \<noteq> Inl e"
  using next_char_inside [of p s] by auto

lemma iscont_after: "utf8_decode s p = Inr (Some (q, code)) \<Longrightarrow> p < length s \<Longrightarrow> iscont s q \<noteq> Inl e"
  using utf8_decode_Some [of s p q code] by (auto simp: iscont_inside)

lemma move_back_inside: "p \<le> length s \<Longrightarrow> move_back s n p \<noteq> Inl e"
proof (induction s n p rule: move_back.induct)
  case (1 s n p)
  then obtain q where q: "char_start s (p - 1) = Inr q" using char_start_inside [of "p - 1" s] by fastforce
  then show ?case using 1 char_start_le [OF q] by (subst move_back.simps) auto
qed

lemma move_forward_inside: "length s < 2 ^ 31 \<Longrightarrow> move_forward s n p \<noteq> Inl e"
proof (induction s n p rule: move_forward.induct)
  case (1 s n p)
  show ?case
  proof (cases "0 < n \<and> p < length s")
    case True
    then obtain q where "next_char s p = Inr q" using next_char_inside by blast
    then show ?thesis using 1 True by (subst move_forward.simps) (auto simp: int_of_size_small)
  next
    case False
    then show ?thesis using 1 by (subst move_forward.simps) (auto simp: int_of_size_small)
  qed
qed

lemma byteoffset_move_inside:
  assumes "p \<le> length s" "length s < 2 ^ 31"
  shows "byteoffset_move s n p \<noteq> Inl string_overrun"
  using char_start_inside [OF assms(1)] iscont_inside [OF assms(1)] move_back_inside [OF assms(1)]
    move_forward_inside [OF assms(2)] no_overrun(5)
  by (auto simp: byteoffset_move_def)

text \<open>
  C27: no function of the \<^verbatim>\<open>utf8\<close> library reads past the terminating zero of its string,
  whatever the bytes and the positions it is given, for strings shorter than \<open>2 ^ 31\<close> bytes.
\<close>

theorem utf8_no_overrun:
  assumes "\<And>s. luaL_checklstring L 1 = Inr s \<Longrightarrow> length s < 2 ^ 31"
  shows "utflen L \<noteq> Inl string_overrun \<and> codepoint L \<noteq> Inl string_overrun
    \<and> byteoffset L \<noteq> Inl string_overrun \<and> iter_aux L \<noteq> Inl string_overrun"
proof (intro conjI)
  note n = int_of_size_small [OF assms]
  show "utflen L \<noteq> Inl string_overrun"
    by (auto simp: utflen_def bindE_Inl_iff no_overrun Let_def luaL_argcheck_def n utflen_loop_inside)
  show "codepoint L \<noteq> Inl string_overrun"
    by (auto simp: codepoint_def bindE_Inl_iff no_overrun Let_def luaL_argcheck_def n codepoint_loop_inside split: if_splits)
  show "iter_aux L \<noteq> Inl string_overrun"
    using next_char_safe iscont_after utf8_decode_inside
    by (auto simp: iter_aux_def bindE_Inl_iff no_overrun Let_def n
        split: if_splits option.splits)
  show "byteoffset L \<noteq> Inl string_overrun"
    using assms
    by (auto simp: byteoffset_def bindE_Inl_iff no_overrun Let_def luaL_argcheck_def n byteoffset_move_inside
        split: if_splits)
qed

lemma utf8_no_overrun_witness:
  "byteoffset (call_state [TvString [0xE2, 0x82], lua_pushinteger 1, lua_pushinteger 3]) \<noteq> Inl string_overrun"
  using utf8_no_overrun [of "call_state [TvString [0xE2, 0x82], lua_pushinteger 1, lua_pushinteger 3]"]
  by (simp add: arg_simps)


section \<open>An oversized shift\<close>

lemma bit_FF: "bit (0xFF :: 'a :: len word) i \<longleftrightarrow> i < 8 \<and> i < LENGTH('a)"
proof -
  have "(0xFF :: 'a word) = mask 8" by (simp add: mask_eq_exp_minus_1)
  then have "bit (0xFF :: 'a word) i \<longleftrightarrow> bit (mask 8 :: 'a word) i" by (simp only:)
  then show ?thesis unfolding bit_mask_iff by (auto simp: possible_bit_def)
qed

lemma utf8_cont_FF:
  assumes "p + 7 < length s" "\<And>j. 0 < j \<Longrightarrow> j \<le> 7 \<Longrightarrow> iscont_byte (s ! (p + j))"
  shows "j \<le> 7 \<Longrightarrow> \<exists>c r'. utf8_cont s p j (push_bit j 0xFF) r = Inr (Some (7, c, r'))"
proof (induction "7 - j" arbitrary: j r)
  case 0
  then have j: "j = 7" by simp
  have "\<not> bit (push_bit 7 0xFF :: u32) 6" by (simp add: bit_push_bit_iff)
  then show ?case unfolding j using utf8_cont_stop [of "push_bit 7 0xFF" s p 7 r] by blast
next
  case (Suc d)
  then have j: "j < 7" "d = 7 - Suc j" "Suc j \<le> 7" by simp_all
  have "bit (push_bit j 0xFF :: u32) 6" unfolding bit_push_bit_iff bit_FF using j by (auto simp: possible_bit_def)
  moreover have "str_at s (p + Suc j) = Inr (s ! (p + Suc j))" using assms(1) j by (intro str_at_nth) simp
  moreover have "iscont_byte (s ! (p + Suc j))" using assms(2) [of "Suc j"] j by simp
  ultimately have "utf8_cont s p j (push_bit j 0xFF) r
      = utf8_cont s p (Suc j) (push_bit 1 (push_bit j 0xFF)) (push_bit 6 r OR ucast (s ! (p + Suc j) AND 0x3F))"
    by (rule utf8_cont_step)
  moreover have "push_bit 1 (push_bit j (0xFF :: u32)) = push_bit (Suc j) 0xFF" by (simp only: push_bit_push_bit) simp
  ultimately show ?case using Suc(1) [OF j(2,3)] by (simp only:)
qed

lemma all_ones_byte: "(\<And>i. i < 8 \<Longrightarrow> bit (b :: byte) i) \<Longrightarrow> b = 0xFF"
  by (rule bit_word_eqI) (simp only: bit_FF, simp)

text \<open>
  C33: a first byte of all ones followed by seven continuation bytes drives the decoder to the
  expression \<^verbatim>\<open>(c & 0x7F) << (count * 5)\<close> with \<^verbatim>\<open>count = 7\<close>, a shift by 35 of a 32-bit
  \<^verbatim>\<open>unsigned int\<close>, before the test \<^verbatim>\<open>count > 3\<close> rejects the sequence; and this is the only way
  to reach an oversized shift.
\<close>

theorem utf8_decode_oversized_shift:
  assumes "p < length s"
  shows "utf8_decode s p = Inl (Undefined ''shift by count * 5'') \<longleftrightarrow>
    s ! p = 0xFF \<and> p + 7 < length s \<and> (\<forall>j. 0 < j \<and> j \<le> 7 \<longrightarrow> iscont_byte (s ! (p + j)))"
    (is "?lhs \<longleftrightarrow> ?rhs")
proof
  let ?b = "s ! p"
  have b: "str_at s p = Inr ?b" by (rule str_at_nth [OF assms])
  show ?rhs if ?lhs
  proof -
    from that b utf8_cont_inside [of p 0 s] assms obtain k c r where hi: "\<not> (ucast ?b :: u32) < 0x80"
      and l: "utf8_cont s p 0 (ucast ?b) 0 = Inr (Some (k, c, r))" and ck: "utf8_check p k c r = Inl (Undefined ''shift by count * 5'')"
      by (auto simp: utf8_decode_def bindE_Inl_iff split: if_splits option.splits)
    have k7: "7 \<le> k" using ck by (auto simp: utf8_check_def Let_def split: if_splits)
    note B = utf8_cont_bits [OF l, simplified]
    have k: "k = 7"
    proof (rule ccontr)
      assume "k \<noteq> 7"
      then have "7 < k" using k7 by simp
      then show False using B by (auto dest!: spec [of _ "7 :: nat"])
    qed
    have "bit ?b i" if "i < 8" for i
      using that high_bit [OF hi] B k by (cases "i = 7") (auto simp: bit_ucast_iff dest!: spec [of _ "6 - i"])
    then have "?b = 0xFF" by (rule all_ones_byte)
    with utf8_cont_Some [OF l] k show ?rhs by auto
  qed
  show ?lhs if ?rhs
  proof -
    obtain c r where l: "utf8_cont s p 0 (push_bit 0 0xFF) 0 = Inr (Some (7, c, r))"
      using utf8_cont_FF [of p s 0 0] \<open>?rhs\<close> by auto
    have "(ucast ?b :: u32) = 0xFF" "\<not> (0xFF :: u32) < 0x80" using \<open>?rhs\<close> by simp_all
    with b l show ?lhs by (simp add: utf8_decode_def utf8_check_def)
  qed
qed

lemma utf8_decode_oversized_shift_witness:
  "utf8_decode (0xFF # replicate 7 0x80) 0 = Inl (Undefined ''shift by count * 5'')"
proof -
  have "iscont_byte ((0xFF # replicate 7 0x80) ! (0 + j))" if "0 < j" "j \<le> 7" for j
    using that by (cases j) (auto simp: iscont_byte_def)
  then show ?thesis by (subst utf8_decode_oversized_shift) auto
qed

end
