(* ===== verification/StringPattern.thy ===== *)
theory StringPattern
  imports Utf8Lib
begin

text \<open>
  Pattern matching of the string library (\<^verbatim>\<open>VM/src/lstrlib.cpp\<close>). The subject and the pattern are byte lists with a
  terminating zero that may be read (\<open>str_at\<close>); pointers into them are offsets. The matcher calls itself through
  \<^verbatim>\<open>start_capture\<close>, \<^verbatim>\<open>end_capture\<close>, \<^verbatim>\<open>max_expand\<close> and \<^verbatim>\<open>min_expand\<close>, so these take the
  matcher they call as an argument, and \<open>match\<close> counts the depth down as \<^verbatim>\<open>matchdepth\<close> does. The jumps to
  \<^verbatim>\<open>init\<close> are a loop that moves on in the pattern.

  The captures are the list of the entries below \<^verbatim>\<open>level\<close>, which are the only ones the code reads. The interrupt
  callback of the host is not set. The character classes are those of the C locale.
\<close>

section \<open>Characters\<close>

definition isupper :: "byte \<Rightarrow> bool" where "isupper c \<longleftrightarrow> 65 \<le> c \<and> c \<le> 90"

definition islower :: "byte \<Rightarrow> bool" where "islower c \<longleftrightarrow> 97 \<le> c \<and> c \<le> 122"

definition isalpha :: "byte \<Rightarrow> bool" where "isalpha c \<longleftrightarrow> isupper c \<or> islower c"

definition isdigit :: "byte \<Rightarrow> bool" where "isdigit c \<longleftrightarrow> 48 \<le> c \<and> c \<le> 57"

definition isalnum :: "byte \<Rightarrow> bool" where "isalnum c \<longleftrightarrow> isalpha c \<or> isdigit c"

definition isxdigit :: "byte \<Rightarrow> bool" where
  "isxdigit c \<longleftrightarrow> isdigit c \<or> (65 \<le> c \<and> c \<le> 70) \<or> (97 \<le> c \<and> c \<le> 102)"

definition iscntrl :: "byte \<Rightarrow> bool" where "iscntrl c \<longleftrightarrow> c < 32 \<or> c = 127"

definition isgraph :: "byte \<Rightarrow> bool" where "isgraph c \<longleftrightarrow> 33 \<le> c \<and> c \<le> 126"

definition ispunct :: "byte \<Rightarrow> bool" where "ispunct c \<longleftrightarrow> isgraph c \<and> \<not> isalnum c"

definition tolower :: "byte \<Rightarrow> byte" where "tolower c = (if isupper c then c + 32 else c)"

definition L_ESC :: byte where "L_ESC = 37"

section \<open>Single characters\<close>

text \<open>The state of a match: the constant part, and the captures with \<^verbatim>\<open>CAP_UNFINISHED\<close> and \<^verbatim>\<open>CAP_POSITION\<close> as
  lengths.\<close>

record MatchState =
  ms_src :: bytes
  ms_pat :: bytes

type_synonym captures = "(nat \<times> int) list"

definition CAP_UNFINISHED :: int where "CAP_UNFINISHED = - 1"

definition CAP_POSITION :: int where "CAP_POSITION = - 2"

definition LUA_MAXCAPTURES :: nat where "LUA_MAXCAPTURES = 32"

definition LUAI_MAXCCALLS :: nat where "LUAI_MAXCCALLS = 200"

definition check_capture :: "captures \<Rightarrow> byte \<Rightarrow> nat res" where
  "check_capture cs c =
     (let l = uint c - 49 in
      if l < 0 \<or> l \<ge> int (length cs) \<or> snd (cs ! nat l) = CAP_UNFINISHED
      then Inl (RuntimeError (''invalid capture index %'' @ [char_of (nat (48 + (l + 1)))]))
      else Inr (nat l))"

text \<open>The loop goes down from the last capture.\<close>

fun capture_to_close_from :: "captures \<Rightarrow> nat \<Rightarrow> nat res" where
  "capture_to_close_from cs 0 = Inl (RuntimeError ''invalid pattern capture'')"
| "capture_to_close_from cs (Suc level) =
     (if snd (cs ! level) = CAP_UNFINISHED then Inr level else capture_to_close_from cs level)"

definition capture_to_close :: "captures \<Rightarrow> nat res" where
  "capture_to_close cs = capture_to_close_from cs (length cs)"

function classend_set :: "bytes \<Rightarrow> nat \<Rightarrow> nat res" where
  "classend_set pat p =
     (if p = length pat then Inl (RuntimeError ''malformed pattern (missing ']')'')
      else bindE (str_at pat p) (\<lambda>c.
        let p = p + 1; p = (if c = L_ESC \<and> p < length pat then p + 1 else p) in
        bindE (str_at pat p) (\<lambda>c. if c \<noteq> 93 then classend_set pat p else Inr (p + 1))))"
  by pat_completeness auto
termination
  by (relation "measure (\<lambda>(pat, p). Suc (length pat) - p)") (auto simp: str_at_def split: if_splits)

declare classend_set.simps [simp del]

definition classend :: "bytes \<Rightarrow> nat \<Rightarrow> nat res" where
  "classend pat p =
     bindE (str_at pat p) (\<lambda>c.
     let p = p + 1 in
     if c = L_ESC then
       bindE (guardE (p \<noteq> length pat) (RuntimeError ''malformed pattern (ends with '%')'')) (\<lambda>_. Inr (p + 1))
     else if c = 91 then
       bindE (str_at pat p) (\<lambda>c. classend_set pat (if c = 94 then p + 1 else p))
     else Inr p)"

definition match_class :: "byte \<Rightarrow> byte \<Rightarrow> bool" where
  "match_class c cl =
     (let k = tolower cl;
          res = (if k = 97 then Some (isalpha c)
            else if k = 99 then Some (iscntrl c)
            else if k = 100 then Some (isdigit c)
            else if k = 103 then Some (isgraph c)
            else if k = 108 then Some (islower c)
            else if k = 112 then Some (ispunct c)
            else if k = 115 then Some (isspace c)
            else if k = 117 then Some (isupper c)
            else if k = 119 then Some (isalnum c)
            else if k = 120 then Some (isxdigit c)
            else if k = 122 then Some (c = 0)
            else None)
      in case res of None \<Rightarrow> cl = c | Some r \<Rightarrow> if islower cl then r else \<not> r)"

text \<open>The loop over the members of a set up to \<open>ec\<close>, the closing bracket; the result says whether one of them matches.\<close>

function set_member :: "bytes \<Rightarrow> byte \<Rightarrow> nat \<Rightarrow> nat \<Rightarrow> bool res" where
  "set_member pat c p ec =
     (let p = p + 1 in
      if p < ec then
        bindE (str_at pat p) (\<lambda>x.
        if x = L_ESC then
          let p = p + 1 in
          bindE (str_at pat p) (\<lambda>cl. if match_class c cl then Inr True else set_member pat c p ec)
        else
          bindE (str_at pat (p + 1)) (\<lambda>y.
          if y = 45 \<and> p + 2 < ec then
            let p = p + 2 in
            bindE (str_at pat p) (\<lambda>hi. if x \<le> c \<and> c \<le> hi then Inr True else set_member pat c p ec)
          else if x = c then Inr True
          else set_member pat c p ec))
      else Inr False)"
  by pat_completeness auto
termination
  by (relation "measure (\<lambda>(pat, c, p, ec). ec - p)") auto

declare set_member.simps [simp del]

definition matchbracketclass :: "bytes \<Rightarrow> byte \<Rightarrow> nat \<Rightarrow> nat \<Rightarrow> bool res" where
  "matchbracketclass pat c p ec =
     bindE (str_at pat (p + 1)) (\<lambda>x.
     let sig = (x \<noteq> 94); p = (if x = 94 then p + 1 else p) in
     bindE (set_member pat c p ec) (\<lambda>found. Inr (if found then sig else \<not> sig)))"

definition singlematch :: "MatchState \<Rightarrow> nat \<Rightarrow> nat \<Rightarrow> nat \<Rightarrow> bool res" where
  "singlematch ms s p ep =
     (if s \<ge> length (ms_src ms) then Inr False
      else
        bindE (str_at (ms_src ms) s) (\<lambda>c.
        bindE (str_at (ms_pat ms) p) (\<lambda>x.
        if x = 46 then Inr True
        else if x = L_ESC then bindE (str_at (ms_pat ms) (p + 1)) (\<lambda>cl. Inr (match_class c cl))
        else if x = 91 then matchbracketclass (ms_pat ms) c p (ep - 1)
        else Inr (x = c))))"

text \<open>The loop of \<^verbatim>\<open>matchbalance\<close>; \<open>cont\<close> is the number of open pairs.\<close>

function balance_loop :: "bytes \<Rightarrow> byte \<Rightarrow> byte \<Rightarrow> nat \<Rightarrow> int \<Rightarrow> nat option res" where
  "balance_loop src b e s cont =
     (let s = s + 1 in
      if s < length src then
        bindE (str_at src s) (\<lambda>c.
        if c = e then let cont = cont - 1 in if cont = 0 then Inr (Some (s + 1)) else balance_loop src b e s cont
        else balance_loop src b e s (if c = b then cont + 1 else cont))
      else Inr None)"
  by pat_completeness auto
termination
  by (relation "measure (\<lambda>(src, b, e, s, cont). length src - s)") auto

declare balance_loop.simps [simp del]

definition matchbalance :: "MatchState \<Rightarrow> nat \<Rightarrow> nat \<Rightarrow> nat option res" where
  "matchbalance ms s p =
     bindE (guardE (\<not> (p + 1 \<ge> length (ms_pat ms))) (RuntimeError ''malformed pattern (missing arguments to '%b')'')) (\<lambda>_.
     bindE (str_at (ms_src ms) s) (\<lambda>c.
     bindE (str_at (ms_pat ms) p) (\<lambda>b.
     if c \<noteq> b then Inr None
     else bindE (str_at (ms_pat ms) (p + 1)) (\<lambda>e. balance_loop (ms_src ms) b e s 1))))"

text \<open>\<^verbatim>\<open>memcmp\<close> of a capture with the subject at \<open>s\<close>, where the length is a \<^verbatim>\<open>size_t\<close>: that of a position capture is huge.\<close>

definition match_capture :: "MatchState \<Rightarrow> captures \<Rightarrow> nat \<Rightarrow> byte \<Rightarrow> nat option res" where
  "match_capture ms cs s c =
     bindE (check_capture cs c) (\<lambda>l.
     let (init, clen) = cs ! l; len = nat (clen mod 2 ^ 64) in
     if length (ms_src ms) - s \<ge> len then
       bindE (guardE (init + len \<le> length (ms_src ms) \<and> s + len \<le> length (ms_src ms)) string_overrun) (\<lambda>_.
       Inr (if take len (drop init (ms_src ms)) = take len (drop s (ms_src ms)) then Some (s + len) else None))
     else Inr None)"

section \<open>The matcher\<close>

text \<open>A matcher takes the captures, the position in the subject and the position in the pattern. It returns the end of the
  match, or nothing, and the captures.\<close>

type_synonym matcher = "captures \<Rightarrow> nat \<Rightarrow> nat \<Rightarrow> (nat option \<times> captures) res"

text \<open>\<^verbatim>\<open>max_expand\<close>: \<open>max_count\<close> is its first loop, \<open>max_try\<close> the second.\<close>

function max_count :: "MatchState \<Rightarrow> nat \<Rightarrow> nat \<Rightarrow> nat \<Rightarrow> nat \<Rightarrow> nat res" where
  "max_count ms s p ep i =
     bindE (singlematch ms (s + i) p ep) (\<lambda>b. if b then max_count ms s p ep (i + 1) else Inr i)"
  by pat_completeness auto
termination
  by (relation "measure (\<lambda>(ms, s, p, ep, i). length (ms_src ms) - (s + i))") (auto simp: singlematch_def split: if_splits)

declare max_count.simps [simp del]

fun max_try :: "matcher \<Rightarrow> captures \<Rightarrow> nat \<Rightarrow> nat \<Rightarrow> nat \<Rightarrow> (nat option \<times> captures) res" where
  "max_try match cs s ep i =
     bindE (match cs (s + i) (ep + 1)) (\<lambda>(r, cs).
     case r of
       Some e \<Rightarrow> Inr (Some e, cs)
     | None \<Rightarrow> (case i of 0 \<Rightarrow> Inr (None, cs) | Suc i \<Rightarrow> max_try match cs s ep i))"

declare max_try.simps [simp del]

definition max_expand :: "matcher \<Rightarrow> MatchState \<Rightarrow> captures \<Rightarrow> nat \<Rightarrow> nat \<Rightarrow> nat \<Rightarrow> (nat option \<times> captures) res" where
  "max_expand match ms cs s p ep = bindE (max_count ms s p ep 0) (\<lambda>i. max_try match cs s ep i)"

function min_expand :: "matcher \<Rightarrow> MatchState \<Rightarrow> captures \<Rightarrow> nat \<Rightarrow> nat \<Rightarrow> nat \<Rightarrow> (nat option \<times> captures) res" where
  "min_expand match ms cs s p ep =
     bindE (match cs s (ep + 1)) (\<lambda>(r, cs).
     case r of
       Some e \<Rightarrow> Inr (Some e, cs)
     | None \<Rightarrow> bindE (singlematch ms s p ep) (\<lambda>b. if b then min_expand match ms cs (s + 1) p ep else Inr (None, cs)))"
  by pat_completeness auto
termination
  by (relation "measure (\<lambda>(match, ms, cs, s, p, ep). length (ms_src ms) - s)") (auto simp: singlematch_def split: if_splits)

declare min_expand.simps [simp del]

definition start_capture :: "matcher \<Rightarrow> captures \<Rightarrow> nat \<Rightarrow> nat \<Rightarrow> int \<Rightarrow> (nat option \<times> captures) res" where
  "start_capture match cs s p what =
     bindE (guardE (\<not> (length cs \<ge> LUA_MAXCAPTURES)) (RuntimeError ''too many captures'')) (\<lambda>_.
     bindE (match (cs @ [(s, what)]) s p) (\<lambda>(r, cs).
     Inr (r, if r = None then take (length cs - 1) cs else cs)))"

definition end_capture :: "matcher \<Rightarrow> captures \<Rightarrow> nat \<Rightarrow> nat \<Rightarrow> (nat option \<times> captures) res" where
  "end_capture match cs s p =
     bindE (capture_to_close cs) (\<lambda>l.
     bindE (match (cs[l := (fst (cs ! l), int s - int (fst (cs ! l)))]) s p) (\<lambda>(r, cs).
     Inr (r, if r = None then cs[l := (fst (cs ! l), CAP_UNFINISHED)] else cs)))"

lemma str_at_Inr: "str_at s i = Inr c \<longleftrightarrow> i \<le> length s \<and> c = char_at s i"
  by (auto simp: str_at_def)

lemma char_at_nonzero: "char_at s i \<noteq> 0 \<Longrightarrow> i < length s"
  by (auto simp: char_at_def split: if_splits)

lemma classend_set_grows: "classend_set pat p = Inr ep \<Longrightarrow> p < ep \<and> ep \<le> length pat"
proof (induction pat p rule: classend_set.induct)
  case (1 pat p)
  define q where "q = (if char_at pat p = L_ESC \<and> p + 1 < length pat then p + 1 + 1 else p + 1)"
  have p: "p \<noteq> length pat"
    using "1.prems" by (subst (asm) classend_set.simps) (auto split: if_splits)
  from "1.prems" p have "str_at pat p = Inr (char_at pat p)"
    by (subst (asm) classend_set.simps) (auto simp: bindE_Inr_iff str_at_Inr)
  note p = p this
  have "str_at pat q = Inr (char_at pat q) \<and> (if char_at pat q \<noteq> 93 then classend_set pat q else Inr (q + 1)) = Inr ep"
    using "1.prems" p(1) unfolding q_def
    by (subst (asm) classend_set.simps) (auto simp: p(2) bindE_Inr_iff Let_def str_at_Inr split: if_splits)
  then have q: "q \<le> length pat" and r: "(if char_at pat q \<noteq> 93 then classend_set pat q else Inr (q + 1)) = Inr ep"
    by (simp_all add: str_at_Inr)
  have "p < q" by (simp add: q_def)
  show ?case
  proof (cases "char_at pat q = 93")
    case True
    then have "q < length pat" by (intro char_at_nonzero) simp
    with True r \<open>p < q\<close> show ?thesis by simp
  next
    case False
    have "q < ep \<and> ep \<le> length pat"
      by (rule "1.IH" [OF p refl]) (use False r q in \<open>simp_all add: q_def str_at_Inr\<close>)
    with \<open>p < q\<close> show ?thesis by simp
  qed
qed

lemma classend_grows: "classend pat p = Inr ep \<Longrightarrow> p < length pat \<Longrightarrow> p < ep \<and> ep \<le> length pat"
  by (auto simp: classend_def Let_def bindE_Inr_iff dest!: classend_set_grows split: if_splits)

text \<open>The case \<^verbatim>\<open>dflt\<close> of \<^verbatim>\<open>match\<close>, a single character class with an optional suffix: it has ended with a result, or
  goes on at \<^verbatim>\<open>init\<close> with new positions.\<close>

definition match_default ::
  "matcher \<Rightarrow> MatchState \<Rightarrow> captures \<Rightarrow> nat \<Rightarrow> nat \<Rightarrow> ((nat option \<times> captures) + (captures \<times> nat \<times> nat)) res" where
  "match_default match ms cs s p =
     bindE (classend (ms_pat ms) p) (\<lambda>ep.
     bindE (singlematch ms s p ep) (\<lambda>b.
     bindE (str_at (ms_pat ms) ep) (\<lambda>x.
     if \<not> b then
       if x = 42 \<or> x = 63 \<or> x = 45 then Inr (Inr (cs, s, ep + 1))
       else Inr (Inl (None, cs))
     else if x = 63 then
       bindE (match cs (s + 1) (ep + 1)) (\<lambda>(r, cs).
       case r of Some e \<Rightarrow> Inr (Inl (Some e, cs)) | None \<Rightarrow> Inr (Inr (cs, s, ep + 1)))
     else if x = 43 then bindE (max_expand match ms cs (s + 1) p ep) (\<lambda>r. Inr (Inl r))
     else if x = 42 then bindE (max_expand match ms cs s p ep) (\<lambda>r. Inr (Inl r))
     else if x = 45 then bindE (min_expand match ms cs s p ep) (\<lambda>r. Inr (Inl r))
     else Inr (Inr (cs, s + 1, ep)))))"

text \<open>The frontier \<^verbatim>\<open>%f\<close>, with \<open>p\<close> behind it.\<close>

definition match_frontier :: "MatchState \<Rightarrow> nat \<Rightarrow> nat \<Rightarrow> nat option res" where
  "match_frontier ms s p =
     bindE (str_at (ms_pat ms) p) (\<lambda>x.
     bindE (guardE (x = 91) (RuntimeError ''missing '[' after '%f' in pattern'')) (\<lambda>_.
     bindE (classend (ms_pat ms) p) (\<lambda>ep.
     bindE (if s = 0 then Inr 0 else str_at (ms_src ms) (s - 1)) (\<lambda>previous.
     bindE (matchbracketclass (ms_pat ms) previous p (ep - 1)) (\<lambda>before.
     bindE (if before then Inr False
            else bindE (str_at (ms_src ms) s) (\<lambda>c. matchbracketclass (ms_pat ms) c p (ep - 1))) (\<lambda>here.
     Inr (if here then Some ep else None)))))))"

text \<open>One round of \<^verbatim>\<open>match\<close> from \<^verbatim>\<open>init\<close>, where the pattern has not ended.\<close>

definition match_item ::
  "matcher \<Rightarrow> MatchState \<Rightarrow> captures \<Rightarrow> nat \<Rightarrow> nat \<Rightarrow> ((nat option \<times> captures) + (captures \<times> nat \<times> nat)) res" where
  "match_item match ms cs s p =
     bindE (str_at (ms_pat ms) p) (\<lambda>x.
     if x = 40 then
       bindE (str_at (ms_pat ms) (p + 1)) (\<lambda>y.
       bindE (if y = 41 then start_capture match cs s (p + 2) CAP_POSITION
              else start_capture match cs s (p + 1) CAP_UNFINISHED) (\<lambda>r. Inr (Inl r)))
     else if x = 41 then bindE (end_capture match cs s (p + 1)) (\<lambda>r. Inr (Inl r))
     else if x = 36 \<and> p + 1 = length (ms_pat ms) then
       Inr (Inl (if s = length (ms_src ms) then Some s else None, cs))
     else if x = L_ESC then
       bindE (str_at (ms_pat ms) (p + 1)) (\<lambda>y.
       if y = 98 then
         bindE (matchbalance ms s (p + 2)) (\<lambda>r.
         case r of Some s \<Rightarrow> Inr (Inr (cs, s, p + 4)) | None \<Rightarrow> Inr (Inl (None, cs)))
       else if y = 102 then
         bindE (match_frontier ms s (p + 2)) (\<lambda>r.
         case r of Some ep \<Rightarrow> Inr (Inr (cs, s, ep)) | None \<Rightarrow> Inr (Inl (None, cs)))
       else if isdigit y then
         bindE (match_capture ms cs s y) (\<lambda>r.
         case r of Some s \<Rightarrow> Inr (Inr (cs, s, p + 2)) | None \<Rightarrow> Inr (Inl (None, cs)))
       else match_default match ms cs s p)
     else match_default match ms cs s p)"

lemma match_frontier_grows: "match_frontier ms s p = Inr (Some ep) \<Longrightarrow> p < ep"
  using classend_grows [of "ms_pat ms" p] char_at_nonzero [of "ms_pat ms" p]
  by (auto simp: match_frontier_def bindE_Inr_iff str_at_Inr split: if_splits)

lemma match_default_grows:
  assumes "match_default match ms cs s p = Inr (Inr (cs', s', p'))" "p < length (ms_pat ms)"
  shows "p < p'"
proof -
  obtain ep where "classend (ms_pat ms) p = Inr ep" using assms(1) by (auto simp: match_default_def bindE_Inr_iff)
  moreover from classend_grows [OF this assms(2)] have "p < ep" by simp
  ultimately show ?thesis
    using assms(1) by (auto simp: match_default_def bindE_Inr_iff split: if_splits option.splits)
qed

lemma match_item_grows:
  assumes "match_item match ms cs s p = Inr (Inr (cs', s', p'))" "p \<noteq> length (ms_pat ms)"
  shows "p < length (ms_pat ms) \<and> p < p'"
proof -
  have len: "p < length (ms_pat ms)" using assms by (auto simp: match_item_def bindE_Inr_iff str_at_Inr)
  moreover have "p' = p + 4 \<or> p' = p + 2 \<or> match_frontier ms s (p + 2) = Inr (Some p') \<or>
      match_default match ms cs s p = Inr (Inr (cs', s', p'))"
    using assms(1) unfolding match_item_def
    by (simp only: bindE_Inr_iff) (fastforce split: if_splits option.splits simp: bindE_Inr_iff)
  then have "p < p'"
    using match_default_grows [OF _ len] match_frontier_grows [of ms s "p + 2" p'] by auto
  ultimately show ?thesis by simp
qed

function match_loop :: "matcher \<Rightarrow> MatchState \<Rightarrow> captures \<Rightarrow> nat \<Rightarrow> nat \<Rightarrow> (nat option \<times> captures) res" where
  "match_loop match ms cs s p =
     (if p \<noteq> length (ms_pat ms) then
        bindE (match_item match ms cs s p) (\<lambda>r.
        case r of Inl r \<Rightarrow> Inr r | Inr (cs, s, p) \<Rightarrow> match_loop match ms cs s p)
      else Inr (Some s, cs))"
  by pat_completeness auto
termination
  by (relation "measure (\<lambda>(match, ms, cs, s, p). length (ms_pat ms) - p)")
    (auto dest!: match_item_grows intro: diff_less_mono2)

declare match_loop.simps [simp del]

fun match :: "nat \<Rightarrow> MatchState \<Rightarrow> matcher" where
  "match 0 ms cs s p = Inl (RuntimeError ''pattern too complex'')"
| "match (Suc matchdepth) ms cs s p = match_loop (match matchdepth ms) ms cs s p"

end
