(* ===== verification/StringMatch.thy ===== *)
theory StringMatch
  imports StringPattern
begin

text \<open>
  The meaning of the patterns of the string library, and the proof that the matcher of \<open>StringPattern\<close> has it. A pattern
  is read as a list of items (\<open>parse\<close>); \<open>successes\<close> is the list of all ways to match them, in the order of
  preference; the matcher finds the first one (\<open>match_finds_first_success\<close>). On every pattern, the matcher stays inside
  its strings (\<open>match_memory_safe\<close>) and ends: its loops go on only with a later position, and it calls itself only to a
  fixed depth.
\<close>

section \<open>What a pattern means\<close>

text \<open>
  A pattern read as a sequence of items, and the meaning of the sequence: the list of the ways to match it from a position,
  in the order in which the matcher prefers them, each with the end of the match and the captures.
\<close>

datatype smember = SClass byte | SRange byte byte | SByte byte

datatype charset = AnyChar | ClassOf byte | SetOf bool "smember list" | TheChar byte

fun in_member :: "byte \<Rightarrow> smember \<Rightarrow> bool" where
  "in_member c (SClass cl) \<longleftrightarrow> match_class c cl"
| "in_member c (SRange lo hi) \<longleftrightarrow> lo \<le> c \<and> c \<le> hi"
| "in_member c (SByte x) \<longleftrightarrow> c = x"

fun in_charset :: "charset \<Rightarrow> byte \<Rightarrow> bool" where
  "in_charset AnyChar c \<longleftrightarrow> True"
| "in_charset (ClassOf cl) c \<longleftrightarrow> match_class c cl"
| "in_charset (SetOf sig ms) c \<longleftrightarrow> (list_ex (in_member c) ms \<longleftrightarrow> sig)"
| "in_charset (TheChar x) c \<longleftrightarrow> c = x"

datatype item =
    Single charset | Maybe charset | Star charset | Plus charset | Lazy charset
  | Open | Position | Close | AtEnd | Balance byte byte | Frontier charset | Back byte

function set_members :: "bytes \<Rightarrow> nat \<Rightarrow> nat \<Rightarrow> smember list" where
  "set_members pat p ec =
     (let p = p + 1 in
      if p < ec then
        if char_at pat p = L_ESC then SClass (char_at pat (p + 1)) # set_members pat (p + 1) ec
        else if char_at pat (p + 1) = 45 \<and> p + 2 < ec then
          SRange (char_at pat p) (char_at pat (p + 2)) # set_members pat (p + 2) ec
        else SByte (char_at pat p) # set_members pat p ec
      else [])"
  by pat_completeness auto
termination
  by (relation "measure (\<lambda>(pat, p, ec). ec - p)") auto

declare set_members.simps [simp del]

definition bracket_at :: "bytes \<Rightarrow> nat \<Rightarrow> nat \<Rightarrow> charset" where
  "bracket_at pat p ec =
     (if char_at pat (p + 1) = 94 then SetOf False (set_members pat (p + 1) ec) else SetOf True (set_members pat p ec))"

definition charset_at :: "bytes \<Rightarrow> nat \<Rightarrow> nat \<Rightarrow> charset" where
  "charset_at pat p ep =
     (let x = char_at pat p in
      if x = 46 then AnyChar
      else if x = L_ESC then ClassOf (char_at pat (p + 1))
      else if x = 91 then bracket_at pat p (ep - 1)
      else TheChar x)"

definition parse_single :: "bytes \<Rightarrow> nat \<Rightarrow> (item \<times> nat) res" where
  "parse_single pat p =
     bindE (classend pat p) (\<lambda>ep.
     let C = charset_at pat p ep; x = char_at pat ep in
     Inr (if x = 63 then (Maybe C, ep + 1)
          else if x = 43 then (Plus C, ep + 1)
          else if x = 42 then (Star C, ep + 1)
          else if x = 45 then (Lazy C, ep + 1)
          else (Single C, ep)))"

definition parse_item :: "bytes \<Rightarrow> nat \<Rightarrow> (item \<times> nat) res" where
  "parse_item pat p =
     (let x = char_at pat p; y = char_at pat (p + 1) in
      if x = 40 then Inr (if y = 41 then (Position, p + 2) else (Open, p + 1))
      else if x = 41 then Inr (Close, p + 1)
      else if x = 36 \<and> p + 1 = length pat then Inr (AtEnd, p + 1)
      else if x = L_ESC \<and> y = 98 then
        bindE (guardE (p + 3 < length pat) (RuntimeError ''malformed pattern (missing arguments to '%b')'')) (\<lambda>_.
        Inr (Balance (char_at pat (p + 2)) (char_at pat (p + 3)), p + 4))
      else if x = L_ESC \<and> y = 102 then
        bindE (guardE (char_at pat (p + 2) = 91) (RuntimeError ''missing '[' after '%f' in pattern'')) (\<lambda>_.
        bindE (classend pat (p + 2)) (\<lambda>ep. Inr (Frontier (bracket_at pat (p + 2) (ep - 1)), ep)))
      else if x = L_ESC \<and> isdigit y then Inr (Back y, p + 2)
      else parse_single pat p)"

lemma parse_single_grows: "parse_single pat p = Inr (it, q) \<Longrightarrow> p < length pat \<Longrightarrow> p < q \<and> q \<le> length pat"
  by (auto simp: parse_single_def Let_def bindE_Inr_iff dest!: classend_grows intro!: Suc_leI char_at_nonzero
      split: if_splits)

lemma parse_item_grows:
  assumes "parse_item pat p = Inr (it, q)" "p < length pat"
  shows "p < q \<and> q \<le> length pat"
proof -
  have nx: "p + 1 < length pat" if "char_at pat (p + 1) \<noteq> 0" using char_at_nonzero that by blast
  consider "q = p + 1" | "q = p + 2" "char_at pat (p + 1) \<noteq> 0" | "q = p + 4" "p + 3 < length pat"
    | "char_at pat (p + 2) = 91" "classend pat (p + 2) = Inr q" | "parse_single pat p = Inr (it, q)"
    using assms(1) by (fastforce simp: parse_item_def Let_def bindE_Inr_iff isdigit_def split: if_splits)
  then show ?thesis
  proof cases
    case 4
    then have "p + 2 < length pat" using char_at_nonzero [of pat "p + 2"] by simp
    with classend_grows [OF 4(2)] show ?thesis by simp
  next
    case 5
    then show ?thesis using parse_single_grows assms(2) by blast
  qed (use assms(2) nx in auto)
qed

function parse :: "bytes \<Rightarrow> nat \<Rightarrow> item list res" where
  "parse pat p =
     (if p < length pat then
        bindE (parse_item pat p) (\<lambda>(it, q). bindE (parse pat q) (\<lambda>its. Inr (it # its)))
      else Inr [])"
  by pat_completeness auto
termination
  by (relation "measure (\<lambda>(pat, p). length pat - p)") (auto dest!: parse_item_grows)

declare parse.simps [simp del]

text \<open>The run of characters of a set from a position.\<close>

definition run :: "bytes \<Rightarrow> charset \<Rightarrow> nat \<Rightarrow> nat" where
  "run src C s = length (takeWhile (in_charset C) (drop s src))"

definition one :: "bytes \<Rightarrow> charset \<Rightarrow> nat \<Rightarrow> bool" where
  "one src C s \<longleftrightarrow> s < length src \<and> in_charset C (src ! s)"

text \<open>The innermost capture that is still open.\<close>

definition open_capture :: "captures \<Rightarrow> nat option" where
  "open_capture cs = find (\<lambda>l. snd (cs ! l) = CAP_UNFINISHED) (rev [0..<length cs])"

text \<open>How much deeper a text is nested at its end than at its start; where it is equal, a bracket closes.\<close>

definition nesting :: "byte \<Rightarrow> byte \<Rightarrow> bytes \<Rightarrow> int" where
  "nesting b e w = sum_list (map (\<lambda>c. if c = e then - 1 else if c = b then 1 else 0) w)"

definition balanced :: "bytes \<Rightarrow> byte \<Rightarrow> byte \<Rightarrow> nat \<Rightarrow> nat option" where
  "balanced src b e s =
     (if s < length src \<and> src ! s = b
      then find (\<lambda>q. nesting b e (take (q - (s + 1)) (drop (s + 1) src)) = - 1) [s + 2..<Suc (length src)]
      else None)"

definition captured :: "captures \<Rightarrow> byte \<Rightarrow> nat \<times> int" where
  "captured cs c = cs ! nat (uint c - 49)"

definition repeats :: "bytes \<Rightarrow> nat \<times> int \<Rightarrow> nat \<Rightarrow> bool" where
  "repeats src cap s \<longleftrightarrow>
     0 \<le> snd cap \<and> s + nat (snd cap) \<le> length src \<and>
     take (nat (snd cap)) (drop s src) = take (nat (snd cap)) (drop (fst cap) src)"

fun successes :: "bytes \<Rightarrow> item list \<Rightarrow> captures \<Rightarrow> nat \<Rightarrow> (nat \<times> captures) list" where
  "successes src [] cs s = [(s, cs)]"
| "successes src (Single C # its) cs s = (if one src C s then successes src its cs (s + 1) else [])"
| "successes src (Maybe C # its) cs s =
     (if one src C s then successes src its cs (s + 1) else []) @ successes src its cs s"
| "successes src (Star C # its) cs s = concat (map (\<lambda>i. successes src its cs (s + i)) (rev [0..<Suc (run src C s)]))"
| "successes src (Plus C # its) cs s =
     (if one src C s
      then concat (map (\<lambda>i. successes src its cs (s + 1 + i)) (rev [0..<Suc (run src C (s + 1))])) else [])"
| "successes src (Lazy C # its) cs s = concat (map (\<lambda>i. successes src its cs (s + i)) [0..<Suc (run src C s)])"
| "successes src (Open # its) cs s = successes src its (cs @ [(s, CAP_UNFINISHED)]) s"
| "successes src (Position # its) cs s = successes src its (cs @ [(s, CAP_POSITION)]) s"
| "successes src (Close # its) cs s =
     (case open_capture cs of
        None \<Rightarrow> []
      | Some l \<Rightarrow> successes src its (cs[l := (fst (cs ! l), int s - int (fst (cs ! l)))]) s)"
| "successes src (AtEnd # its) cs s = (if s = length src then successes src its cs s else [])"
| "successes src (Balance b e # its) cs s =
     (case balanced src b e s of None \<Rightarrow> [] | Some q \<Rightarrow> successes src its cs q)"
| "successes src (Frontier C # its) cs s =
     (if \<not> in_charset C (if s = 0 then 0 else char_at src (s - 1)) \<and> in_charset C (char_at src s)
      then successes src its cs s else [])"
| "successes src (Back c # its) cs s =
     (if repeats src (captured cs c) s then successes src its cs (s + nat (snd (captured cs c))) else [])"

text \<open>The captures of a pattern: the parentheses match, a back reference names a capture that is closed, and there are not
  too many. The list says which captures are open.\<close>

fun captures_fit :: "item list \<Rightarrow> bool list \<Rightarrow> bool" where
  "captures_fit [] fl \<longleftrightarrow> True \<notin> set fl"
| "captures_fit (Open # its) fl \<longleftrightarrow> length fl < LUA_MAXCAPTURES \<and> captures_fit its (fl @ [True])"
| "captures_fit (Position # its) fl \<longleftrightarrow> length fl < LUA_MAXCAPTURES \<and> captures_fit its (fl @ [False])"
| "captures_fit (Close # its) fl \<longleftrightarrow>
     (case find (\<lambda>l. fl ! l) (rev [0..<length fl]) of None \<Rightarrow> False | Some l \<Rightarrow> captures_fit its (fl[l := False]))"
| "captures_fit (Back c # its) fl \<longleftrightarrow>
     49 \<le> c \<and> unat c - 49 < length fl \<and> \<not> fl ! (unat c - 49) \<and> captures_fit its fl"
| "captures_fit (_ # its) fl \<longleftrightarrow> captures_fit its fl"

definition first_success :: "captures \<Rightarrow> (nat \<times> captures) list \<Rightarrow> nat option \<times> captures" where
  "first_success cs xs = (case xs of [] \<Rightarrow> (None, cs) | (e, cs') # _ \<Rightarrow> (Some e, cs'))"

section \<open>The matcher finds the first success\<close>

subsection \<open>Characters\<close>

lemma str_at_inside [simp]: "i \<le> length s \<Longrightarrow> str_at s i = Inr (char_at s i)"
  by (simp add: str_at_def)

lemma set_members_step:
  "p + 1 < ec \<Longrightarrow> set_members pat p ec =
     (if char_at pat (p + 1) = L_ESC then SClass (char_at pat (p + 2)) # set_members pat (p + 2) ec
      else if char_at pat (p + 2) = 45 \<and> p + 3 < ec
      then SRange (char_at pat (p + 1)) (char_at pat (p + 3)) # set_members pat (p + 3) ec
      else SByte (char_at pat (p + 1)) # set_members pat (p + 1) ec)"
  by (subst set_members.simps) (simp add: Let_def numeral_eq_Suc)

lemma set_member_step:
  "p + 1 < ec \<Longrightarrow> ec < length pat \<Longrightarrow> set_member pat c p ec =
     (if char_at pat (p + 1) = L_ESC
      then if match_class c (char_at pat (p + 2)) then Inr True else set_member pat c (p + 2) ec
      else if char_at pat (p + 2) = 45 \<and> p + 3 < ec
      then if char_at pat (p + 1) \<le> c \<and> c \<le> char_at pat (p + 3) then Inr True else set_member pat c (p + 3) ec
      else if char_at pat (p + 1) = c then Inr True else set_member pat c (p + 1) ec)"
  by (subst set_member.simps) (simp add: Let_def numeral_eq_Suc)

lemma set_member_spec: "ec < length pat \<Longrightarrow> set_member pat c p ec = Inr (list_ex (in_member c) (set_members pat p ec))"
proof (induction "ec - p" arbitrary: p rule: less_induct)
  case less
  show ?case
  proof (cases "p + 1 < ec")
    case True
    have IH: "set_member pat c q ec = Inr (list_ex (in_member c) (set_members pat q ec))" if "p < q" for q
      by (rule less.hyps) (use True that less.prems in auto)
    show ?thesis
      using IH [of "p + 1"] IH [of "p + 2"] IH [of "p + 3"]
      unfolding set_member_step [OF True less.prems] set_members_step [OF True]
      by (simp split: if_splits) blast
  next
    case False
    then show ?thesis by (subst set_member.simps, subst set_members.simps) simp
  qed
qed

lemma matchbracketclass_spec:
  "p < length pat \<Longrightarrow> ec < length pat \<Longrightarrow> matchbracketclass pat c p ec = Inr (in_charset (bracket_at pat p ec) c)"
  by (auto simp: matchbracketclass_def bracket_at_def set_member_spec Let_def)

lemma singlematch_spec:
  assumes "classend (ms_pat ms) p = Inr ep" "p < length (ms_pat ms)"
  shows "singlematch ms s p ep = Inr (one (ms_src ms) (charset_at (ms_pat ms) p ep) s)"
proof -
  from classend_grows [OF assms] have ep: "p < ep" "ep \<le> length (ms_pat ms)" by auto
  then have "ep - 1 < length (ms_pat ms)" by simp
  moreover have "char_at (ms_src ms) s = ms_src ms ! s" if "s < length (ms_src ms)" using that by (simp add: char_at_def)
  ultimately show ?thesis
    using assms(2) ep by (auto simp: singlematch_def one_def charset_at_def Let_def matchbracketclass_spec L_ESC_def)
qed

subsection \<open>Repetition\<close>

lemma run_simps: "run src C s = (if one src C s then Suc (run src C (s + 1)) else 0)"
  by (cases "s < length src") (auto simp: run_def one_def Cons_nth_drop_Suc [symmetric])

lemma max_count_spec:
  assumes "\<And>s. singlematch ms s p ep = Inr (one (ms_src ms) C s)"
  shows "max_count ms s p ep i = Inr (i + run (ms_src ms) C (s + i))"
proof (induction "length (ms_src ms) - (s + i)" arbitrary: i rule: less_induct)
  case less
  show ?case
  proof (cases "one (ms_src ms) C (s + i)")
    case True
    then have "length (ms_src ms) - (s + (i + 1)) < length (ms_src ms) - (s + i)" by (auto simp: one_def)
    from less.hyps [OF this] True show ?thesis
      by (subst max_count.simps) (simp add: assms run_simps [of _ _ "s + i"])
  next
    case False
    then show ?thesis by (subst max_count.simps) (simp add: assms run_simps [of _ _ "s + i"])
  qed
qed

lemma first_success_append:
  "first_success cs (xs @ ys) = (if xs = [] then first_success cs ys else first_success cs xs)"
  by (cases xs) (auto simp: first_success_def)

lemma first_success_Nil [simp]: "first_success cs [] = (None, cs)"
  by (simp add: first_success_def)

lemma first_success_None: "first_success cs xs = (None, cs') \<longleftrightarrow> xs = [] \<and> cs' = cs"
  by (auto simp: first_success_def split: list.splits)

lemma max_try_spec:
  "(\<And>i. i \<le> n \<Longrightarrow> mf cs (s + i) (ep + 1) = Inr (first_success cs (f (s + i)))) \<Longrightarrow>
   max_try mf cs s ep n = Inr (first_success cs (concat (map (\<lambda>i. f (s + i)) (rev [0..<Suc n]))))"
proof (induction n)
  case 0
  then show ?case by (subst max_try.simps) (auto simp: first_success_def split: list.splits)
next
  case (Suc n)
  have IH: "max_try mf cs s ep n = Inr (first_success cs (concat (map (\<lambda>i. f (s + i)) (rev [0..<Suc n]))))"
    by (rule Suc.IH) (use Suc.prems in simp)
  have e: "concat (map (\<lambda>i. f (s + i)) (rev [0..<Suc (Suc n)])) =
      f (s + Suc n) @ concat (map (\<lambda>i. f (s + i)) (rev [0..<Suc n]))" by simp
  show ?case
    unfolding e first_success_append using Suc.prems [of "Suc n"] IH
    by (subst max_try.simps) (auto simp: first_success_def split: list.splits simp del: upt_Suc)
qed

lemma min_expand_spec:
  assumes "\<And>s. singlematch ms s p ep = Inr (one (ms_src ms) C s)"
    and "\<And>s'. s' \<le> s + run (ms_src ms) C s \<Longrightarrow> s \<le> s' \<Longrightarrow> mf cs s' (ep + 1) = Inr (first_success cs (f s'))"
  shows "min_expand mf ms cs s p ep =
    Inr (first_success cs (concat (map (\<lambda>i. f (s + i)) [0..<Suc (run (ms_src ms) C s)])))"
  using assms(2)
proof (induction "length (ms_src ms) - s" arbitrary: s rule: less_induct)
  case less
  have m: "mf cs s (ep + 1) = Inr (first_success cs (f s))" by (rule less.prems) auto
  show ?case
  proof (cases "one (ms_src ms) C s")
    case True
    then have sh: "length (ms_src ms) - (s + 1) < length (ms_src ms) - s" by (auto simp: one_def)
    have r: "run (ms_src ms) C s = Suc (run (ms_src ms) C (s + 1))" using True run_simps [of _ _ s] by simp
    have e: "concat (map (\<lambda>i. f (s + i)) [0..<Suc (run (ms_src ms) C s)]) =
        f s @ concat (map (\<lambda>i. f (s + 1 + i)) [0..<Suc (run (ms_src ms) C (s + 1))])"
      unfolding r by (subst upt_conv_Cons) (simp, simp add: map_Suc_upt [symmetric] comp_def del: upt_Suc)
    have "min_expand mf ms cs (s + 1) p ep =
        Inr (first_success cs (concat (map (\<lambda>i. f (s + 1 + i)) [0..<Suc (run (ms_src ms) C (s + 1))])))"
      by (rule less.hyps [OF sh]) (rule less.prems, use r in auto)
    with True m show ?thesis
      unfolding e first_success_append
      by (subst min_expand.simps) (auto simp: first_success_def assms(1) split: list.splits simp del: upt_Suc)
  next
    case False
    then have "run (ms_src ms) C s = 0" using run_simps [of _ _ s] by simp
    with False m show ?thesis
      by (subst min_expand.simps) (auto simp: first_success_def assms(1) split: list.splits)
  qed
qed

subsection \<open>Balanced text, captures\<close>

lemma nesting_Cons: "nesting b e (c # w) = (if c = e then - 1 else if c = b then 1 else 0) + nesting b e w"
  by (simp add: nesting_def)

lemma find_cong: "(\<And>x. x \<in> set xs \<Longrightarrow> P x = Q x) \<Longrightarrow> find P xs = find Q xs"
  by (induction xs) auto

lemma balance_loop_spec:
  "0 < cont \<Longrightarrow> balance_loop src b e s cont =
     Inr (find (\<lambda>q. cont + nesting b e (take (q - (s + 1)) (drop (s + 1) src)) = 0) [s + 2..<Suc (length src)])"
proof (induction "length src - s" arbitrary: s cont rule: less_induct)
  case less
  show ?case
  proof (cases "s + 1 < length src")
    case True
    define d where "d = (if src ! (s + 1) = e then - 1 else if src ! (s + 1) = b then 1 else (0 :: int))"
    have c: "char_at src (s + 1) = src ! (s + 1)" using True by (simp add: char_at_def)
    have IH: "balance_loop src b e (s + 1) k =
        Inr (find (\<lambda>q. k + nesting b e (take (q - (s + 2)) (drop (s + 2) src)) = 0) [s + 3..<Suc (length src)])"
      if "0 < k" for k
      using less.hyps [of "s + 1" k] True that by (simp add: numeral_eq_Suc)
    have u: "[s + 2..<Suc (length src)] = (s + 2) # [s + 3..<Suc (length src)]"
      using True by (subst upt_conv_Cons) (auto simp: numeral_eq_Suc)
    have n: "nesting b e (take (q - (s + 1)) (drop (s + 1) src)) = d + nesting b e (take (q - (s + 2)) (drop (s + 2) src))"
      if "s + 2 \<le> q" for q
    proof -
      obtain k where "q = s + 2 + k" using \<open>s + 2 \<le> q\<close> le_Suc_ex by blast
      then show ?thesis
        using True by (simp add: Cons_nth_drop_Suc [symmetric] nesting_Cons d_def)
    qed
    have z: "nesting b e (take ((s + 2) - (s + 2)) (drop (s + 2) src)) = 0" by (simp add: nesting_def)
    have f: "find (\<lambda>q. cont + nesting b e (take (q - (s + 1)) (drop (s + 1) src)) = 0) [s + 2..<Suc (length src)] =
        (if cont + d = 0 then Some (s + 2)
         else find (\<lambda>q. cont + d + nesting b e (take (q - (s + 2)) (drop (s + 2) src)) = 0) [s + 3..<Suc (length src)])"
      unfolding u find.simps n [OF order.refl] z
      by (auto intro!: find_cong simp: n [simplified] simp del: upt_Suc)
    show ?thesis
      unfolding f using True c IH [of "cont + d"] IH [of cont] less.prems
      by (subst balance_loop.simps) (auto simp: d_def Let_def simp del: upt_Suc)
  next
    case False
    then show ?thesis by (subst balance_loop.simps) auto
  qed
qed

lemma matchbalance_spec:
  assumes "p + 1 < length (ms_pat ms)" "s \<le> length (ms_src ms)"
  shows "matchbalance ms s p = Inr (balanced (ms_src ms) (char_at (ms_pat ms) p) (char_at (ms_pat ms) (p + 1)) s)"
proof (cases "s < length (ms_src ms)")
  case True
  then show ?thesis
    using assms by (auto simp: matchbalance_def balanced_def balance_loop_spec char_at_def eq_neg_iff_add_eq_0 add.commute
        simp del: upt_Suc)
next
  case False
  then have "balance_loop (ms_src ms) b e s 1 = Inr None" for b e by (subst balance_loop.simps) simp
  then show ?thesis using assms False by (simp add: matchbalance_def balanced_def)
qed

lemma capture_to_close_from_spec:
  "capture_to_close_from cs n =
     (case find (\<lambda>l. snd (cs ! l) = CAP_UNFINISHED) (rev [0..<n]) of
        None \<Rightarrow> Inl (RuntimeError ''invalid pattern capture'') | Some l \<Rightarrow> Inr l)"
  by (induction n) auto

lemma capture_to_close_spec:
  "capture_to_close cs =
     (case open_capture cs of None \<Rightarrow> Inl (RuntimeError ''invalid pattern capture'') | Some l \<Rightarrow> Inr l)"
  by (simp add: capture_to_close_def open_capture_def capture_to_close_from_spec)

lemma find_rev_upt_Some: "find P (rev [0..<n]) = Some l \<Longrightarrow> l < n \<and> P l"
  using nth_mem [of _ "rev [0..<n]"] by (fastforce simp: find_Some_iff)

lemma match_frontier_spec:
  assumes "classend (ms_pat ms) p = Inr ep" "char_at (ms_pat ms) p = 91" "s \<le> length (ms_src ms)"
  shows "match_frontier ms s p = Inr (if \<not> in_charset (bracket_at (ms_pat ms) p (ep - 1)) (if s = 0 then 0 else char_at (ms_src ms) (s - 1))
     \<and> in_charset (bracket_at (ms_pat ms) p (ep - 1)) (char_at (ms_src ms) s) then Some ep else None)"
proof -
  have p: "p < length (ms_pat ms)" using assms(2) char_at_nonzero [of "ms_pat ms" p] by simp
  from classend_grows [OF assms(1) p] have ep: "ep - 1 < length (ms_pat ms)" by auto
  show ?thesis
    using assms p by (simp add: match_frontier_def matchbracketclass_spec [OF p ep, simplified])
qed

subsection \<open>Items\<close>

definition flags :: "captures \<Rightarrow> bool list" where
  "flags cs = map (\<lambda>(_, l). l = CAP_UNFINISHED) cs"

text \<open>The captures lie in the subject before the position of the match.\<close>

fun capture_inside :: "nat \<Rightarrow> nat \<times> int \<Rightarrow> bool" where
  "capture_inside s (i, l) \<longleftrightarrow> i \<le> s \<and> (l = CAP_UNFINISHED \<or> l = CAP_POSITION \<or> 0 \<le> l \<and> i + nat l \<le> s)"

definition captures_inside :: "MatchState \<Rightarrow> captures \<Rightarrow> nat \<Rightarrow> bool" where
  "captures_inside ms cs s \<longleftrightarrow>
     s \<le> length (ms_src ms) \<and> length (ms_src ms) < 2 ^ 63 \<and> (\<forall>c \<in> set cs. capture_inside s c)"

lemma captures_inside_mono:
  "captures_inside ms cs s \<Longrightarrow> s \<le> s' \<Longrightarrow> s' \<le> length (ms_src ms) \<Longrightarrow> captures_inside ms cs s'"
  by (fastforce simp: captures_inside_def CAP_UNFINISHED_def CAP_POSITION_def)

lemma open_capture_Some: "open_capture cs = Some l \<Longrightarrow> l < length cs \<and> snd (cs ! l) = CAP_UNFINISHED"
  unfolding open_capture_def by (rule find_rev_upt_Some)

lemma flags_nth: "l < length cs \<Longrightarrow> flags cs ! l \<longleftrightarrow> snd (cs ! l) = CAP_UNFINISHED"
  by (simp add: flags_def case_prod_beta)

lemma flags_length [simp]: "length (flags cs) = length cs"
  by (simp add: flags_def)

lemma open_capture_flags: "find (\<lambda>l. flags cs ! l) (rev [0..<length cs]) = open_capture cs"
  unfolding open_capture_def by (intro find_cong) (simp add: flags_nth)

lemma captures_inside_open:
  "captures_inside ms cs s \<Longrightarrow> what = CAP_UNFINISHED \<or> what = CAP_POSITION \<Longrightarrow> captures_inside ms (cs @ [(s, what)]) s"
  by (auto simp: captures_inside_def)

lemma captures_inside_close:
  assumes "captures_inside ms cs s" "l < length cs"
  shows "captures_inside ms (cs[l := (fst (cs ! l), int s - int (fst (cs ! l)))]) s"
proof -
  have "capture_inside s (cs ! l)" using assms by (simp add: captures_inside_def)
  then have "capture_inside s (fst (cs ! l), int s - int (fst (cs ! l)))" by (cases "cs ! l") auto
  with assms show ?thesis unfolding captures_inside_def by (auto dest!: set_update_subset_insert [THEN subsetD])
qed

lemma flags_close:
  assumes "captures_inside ms cs s" "l < length cs"
  shows "flags (cs[l := (fst (cs ! l), int s - int (fst (cs ! l)))]) = (flags cs)[l := False]"
proof -
  have "capture_inside s (cs ! l)" using assms by (simp add: captures_inside_def)
  then have "int s - int (fst (cs ! l)) \<noteq> CAP_UNFINISHED" by (cases "cs ! l") (auto simp: CAP_UNFINISHED_def)
  then show ?thesis by (simp add: flags_def map_update)
qed

lemma digit_index: "49 \<le> c \<Longrightarrow> nat (uint c - 49) = unat c - 49" for c :: byte
  by (simp add: nat_diff_distrib word_le_def flip: nat_uint_eq)

lemma check_capture_spec:
  assumes "49 \<le> c" "unat c - 49 < length cs" "\<not> flags cs ! (unat c - 49)"
  shows "check_capture cs c = Inr (unat c - 49)"
proof -
  have "0 \<le> uint c - 49" using assms(1) by (simp add: word_le_def)
  then have "uint c - 49 = int (unat c - 49)" using digit_index [OF assms(1)] by (metis int_nat_eq)
  then show ?thesis using assms by (simp add: check_capture_def flags_nth Let_def)
qed

lemma match_capture_spec:
  assumes "49 \<le> c" "unat c - 49 < length cs" "\<not> flags cs ! (unat c - 49)" "captures_inside ms cs s"
  shows "match_capture ms cs s c =
    Inr (if repeats (ms_src ms) (captured cs c) s then Some (s + nat (snd (captured cs c))) else None)"
proof -
  note k = digit_index [OF assms(1)]
  obtain i l where il: "cs ! (unat c - 49) = (i, l)" by fastforce
  from assms(3) il assms(2) have l: "l \<noteq> CAP_UNFINISHED" by (simp add: flags_nth)
  have in1: "capture_inside s (i, l)" using assms(2,4) il nth_mem by (fastforce simp: captures_inside_def)
  have s: "s \<le> length (ms_src ms)" "length (ms_src ms) < 2 ^ 63" using assms(4) by (auto simp: captures_inside_def)
  consider "l = CAP_POSITION" | "0 \<le> l" "i + nat l \<le> s" using l in1 by auto
  then show ?thesis
  proof cases
    case 1
    then show ?thesis
      using s by (simp add: match_capture_def check_capture_spec [OF assms(1-3)] k il repeats_def captured_def CAP_POSITION_def)
  next
    case 2
    then have "l mod 2 ^ 64 = l" using s by (intro mod_pos_pos_trivial) auto
    moreover have "nat l \<le> length (ms_src ms) - s \<longleftrightarrow> s + nat l \<le> length (ms_src ms)" using s by auto
    ultimately show ?thesis using 2 s
      by (auto simp: match_capture_def check_capture_spec [OF assms(1-3)] k il repeats_def captured_def Let_def)
  qed
qed

text \<open>The items for which the matcher calls itself.\<close>

fun nests :: "item \<Rightarrow> bool" where
  "nests (Single _) \<longleftrightarrow> False"
| "nests AtEnd \<longleftrightarrow> False"
| "nests (Balance _ _) \<longleftrightarrow> False"
| "nests (Frontier _) \<longleftrightarrow> False"
| "nests (Back _) \<longleftrightarrow> False"
| "nests _ \<longleftrightarrow> True"

definition nesting_items :: "item list \<Rightarrow> nat" where
  "nesting_items its = length (filter nests its)"

text \<open>One round of the matcher, \<open>it\<close> being the next item: it has the result, or goes on behind the item at a position that
  has the same first success.\<close>

definition round_agrees ::
  "MatchState \<Rightarrow> item \<Rightarrow> item list \<Rightarrow> captures \<Rightarrow> nat \<Rightarrow> nat \<Rightarrow> ((nat option \<times> captures) + (captures \<times> nat \<times> nat)) res \<Rightarrow> bool" where
  "round_agrees ms it its cs s q res \<longleftrightarrow>
     res = Inr (Inl (first_success cs (successes (ms_src ms) (it # its) cs s))) \<or>
     (\<exists>s'. res = Inr (Inr (cs, s', q)) \<and> s \<le> s' \<and> s' \<le> length (ms_src ms) \<and>
        captures_fit its (flags cs) \<and>
        first_success cs (successes (ms_src ms) (it # its) cs s) = first_success cs (successes (ms_src ms) its cs s'))"

lemma match_default_spec:
  assumes "parse_single (ms_pat ms) p = Inr (it, q)" "p < length (ms_pat ms)" "s \<le> length (ms_src ms)"
    and fit: "captures_fit its (flags cs)"
    and mf: "\<And>s'. nests it \<Longrightarrow> s \<le> s' \<Longrightarrow> s' \<le> length (ms_src ms) \<Longrightarrow> mf cs s' q = Inr (first_success cs (successes (ms_src ms) its cs s'))"
  shows "round_agrees ms it its cs s q (match_default mf ms cs s p)"
proof -
  obtain ep where ep: "classend (ms_pat ms) p = Inr ep" using assms(1) by (auto simp: parse_single_def bindE_Inr_iff)
  define C where "C = charset_at (ms_pat ms) p ep"
  let ?src = "ms_src ms"
  have sm: "\<And>s. singlematch ms s p ep = Inr (one ?src C s)" unfolding C_def by (rule singlematch_spec [OF ep assms(2)])
  have x: "str_at (ms_pat ms) ep = Inr (char_at (ms_pat ms) ep)" using classend_grows [OF ep assms(2)] by simp
  have r: "s + run ?src C s \<le> length ?src" if "s \<le> length ?src" for s
    unfolding run_def using that length_takeWhile_le [of "in_charset C" "drop s ?src"] by simp
  have one: "s < length ?src" if "one ?src C s" using that by (simp add: one_def)
  have max: "max_expand mf ms cs s' p ep =
      Inr (first_success cs (concat (map (\<lambda>i. successes ?src its cs (s' + i)) (rev [0..<Suc (run ?src C s')]))))"
    if "s \<le> s'" "s' \<le> length ?src" "q = ep + 1" "nests it" for s'
    unfolding max_expand_def max_count_spec [OF sm] using that r [of s']
    by (simp del: upt_Suc) (rule max_try_spec, use mf in auto)
  have min: "min_expand mf ms cs s p ep =
      Inr (first_success cs (concat (map (\<lambda>i. successes ?src its cs (s + i)) [0..<Suc (run ?src C s)])))"
    if "q = ep + 1" "nests it"
    by (rule min_expand_spec [OF sm]) (use that mf r [OF assms(3)] in auto)
  have zero: "run ?src C s = 0" if "\<not> one ?src C s" using that run_simps [of ?src C s] by simp
  have [simp]: "[0..<Suc 0] = [0]" by simp
  have e: "(if char_at (ms_pat ms) ep = 63 then (Maybe C, ep + 1) else if char_at (ms_pat ms) ep = 43 then (Plus C, ep + 1)
      else if char_at (ms_pat ms) ep = 42 then (Star C, ep + 1) else if char_at (ms_pat ms) ep = 45 then (Lazy C, ep + 1)
      else (Single C, ep)) = (it, q)"
    using assms(1) unfolding parse_single_def ep bindE_simps Let_def C_def sum.inject .
  consider (Maybe) "char_at (ms_pat ms) ep = 63" "it = Maybe C" "q = ep + 1"
    | (Plus) "char_at (ms_pat ms) ep = 43" "it = Plus C" "q = ep + 1"
    | (Star) "char_at (ms_pat ms) ep = 42" "it = Star C" "q = ep + 1"
    | (Lazy) "char_at (ms_pat ms) ep = 45" "it = Lazy C" "q = ep + 1"
    | (Single) "char_at (ms_pat ms) ep \<notin> {63, 43, 42, 45}" "it = Single C" "q = ep"
    using e by (simp split: if_splits)
  then show ?thesis
  proof cases
    case Maybe
    show ?thesis
    proof (cases "one ?src C s \<and> successes ?src its cs (s + 1) \<noteq> []")
      case True
      then obtain e cs' xs where "successes ?src its cs (s + 1) = (e, cs') # xs" by (auto simp: neq_Nil_conv)
      with Maybe True one mf [of "s + 1"] show ?thesis
        by (simp add: round_agrees_def match_default_def ep sm x first_success_def)
    next
      case False
      then have "match_default mf ms cs s p = Inr (Inr (cs, s, q)) \<and>
          successes ?src (Maybe C # its) cs s = successes ?src its cs s"
        using Maybe one mf [of "s + 1"] by (auto simp: match_default_def ep sm x)
      with Maybe assms(3) fit show ?thesis unfolding round_agrees_def by auto
    qed
  next
    case Plus
    then show ?thesis
      using assms(3) fit max [of "s + 1"] one
      by (auto simp: round_agrees_def match_default_def ep sm x simp del: upt_Suc)
  next
    case Star
    then show ?thesis
      using assms(3) fit max [of s] zero by (auto simp: round_agrees_def match_default_def ep sm x simp del: upt_Suc)
  next
    case Lazy
    then show ?thesis
      using assms(3) fit min zero by (auto simp: round_agrees_def match_default_def ep sm x simp del: upt_Suc)
  next
    case Single
    then show ?thesis
      using assms(3) fit one by (auto simp: round_agrees_def match_default_def ep sm x)
  qed
qed

lemma balanced_inside: "balanced src b e s = Some q \<Longrightarrow> s \<le> q \<and> q \<le> length src"
  by (auto simp: balanced_def find_Some_iff simp del: upt_Suc split: if_splits)

lemma match_item_spec:
  assumes it: "parse_item (ms_pat ms) p = Inr (it, q)" "p < length (ms_pat ms)"
    and rest: "parse (ms_pat ms) q = Inr its"
    and ok: "captures_inside ms cs s" "captures_fit (it # its) (flags cs)"
    and mf: "\<And>cs' s'. nests it \<Longrightarrow> captures_inside ms cs' s' \<Longrightarrow> captures_fit its (flags cs') \<Longrightarrow>
      mf cs' s' q = Inr (first_success cs' (successes (ms_src ms) its cs' s'))"
  shows "round_agrees ms it its cs s q (match_item mf ms cs s p)"
proof -
  let ?src = "ms_src ms" and ?pat = "ms_pat ms"
  let ?x = "char_at ?pat p" and ?y = "char_at ?pat (p + 1)"
  have at: "str_at ?pat p = Inr ?x" "str_at ?pat (p + 1) = Inr ?y" using it(2) by simp_all
  have s: "s \<le> length ?src" using ok(1) by (simp add: captures_inside_def)
  consider (open') "?x = 40" | (close) "?x = 41" | (end') "?x = 36" "p + 1 = length ?pat"
    | (balance) "?x = L_ESC" "?y = 98" | (frontier) "?x = L_ESC" "?y = 102" | (backref) "?x = L_ESC" "isdigit ?y"
    | (single) "?x \<noteq> 40" "?x \<noteq> 41" "\<not> (?x = 36 \<and> p + 1 = length ?pat)" "\<not> (?x = L_ESC \<and> (?y = 98 \<or> ?y = 102 \<or> isdigit ?y))"
    by blast
  then show ?thesis
  proof cases
    case open'
    have start: "start_capture mf cs s q what = Inr (first_success cs (successes ?src its (cs @ [(s, what)]) s))"
      if "length cs < LUA_MAXCAPTURES" "captures_fit its (flags (cs @ [(s, what)]))" "what = CAP_UNFINISHED \<or> what = CAP_POSITION"
        "nests it"
      for what
      using that mf [OF that(4) captures_inside_open [OF ok(1) that(3)] that(2)]
      by (auto simp: start_capture_def first_success_def split: list.splits)
    have "flags (cs @ [(s, CAP_UNFINISHED)]) = flags cs @ [True]" "flags (cs @ [(s, CAP_POSITION)]) = flags cs @ [False]"
      by (simp_all add: flags_def CAP_UNFINISHED_def CAP_POSITION_def)
    with open' it(1) ok(2) start [of CAP_UNFINISHED] start [of CAP_POSITION] show ?thesis
      unfolding match_item_def at by (auto simp: round_agrees_def parse_item_def Let_def split: if_splits)
  next
    case close
    with it(1) have pq: "it = Close" "q = p + 1" by (auto simp: parse_item_def Let_def)
    with ok(2) obtain l where l: "open_capture cs = Some l" "captures_fit its ((flags cs)[l := False])"
      by (auto simp: open_capture_flags split: option.splits)
    note l' = open_capture_Some [OF l(1)]
    have c: "cs[l := (fst (cs ! l), CAP_UNFINISHED)] = cs" using l' by (metis list_update_id prod.collapse)
    let ?cs = "cs[l := (fst (cs ! l), int s - int (fst (cs ! l)))]"
    have "captures_inside ms ?cs s" "captures_fit its (flags ?cs)"
      using captures_inside_close [OF ok(1)] flags_close [OF ok(1)] l' l(2) by auto
    from mf [OF _ this] l' l pq close c show ?thesis
      unfolding match_item_def at by (auto simp: round_agrees_def end_capture_def capture_to_close_spec first_success_def split: list.splits)
  next
    case end'
    then have "it = AtEnd" "q = length ?pat" using it(1) by (auto simp: parse_item_def Let_def)
    moreover from this rest have "its = []" by (subst (asm) parse.simps) simp
    ultimately show ?thesis
      using end' unfolding match_item_def at by (auto simp: round_agrees_def first_success_def)
  next
    case balance
    with it(1) have pq: "p + 3 < length ?pat" "it = Balance (char_at ?pat (p + 2)) (char_at ?pat (p + 3))" "q = p + 4"
      by (auto simp: parse_item_def Let_def L_ESC_def bindE_Inr_iff)
    have "matchbalance ms s (p + 2) = Inr (balanced ?src (char_at ?pat (p + 2)) (char_at ?pat (p + 3)) s)"
      using matchbalance_spec [of "p + 2" ms s] pq(1) s by (simp add: numeral_eq_Suc)
    then have "match_item mf ms cs s p =
        (case balanced ?src (char_at ?pat (p + 2)) (char_at ?pat (p + 3)) s of
           Some s \<Rightarrow> Inr (Inr (cs, s, p + 4)) | None \<Rightarrow> Inr (Inl (None, cs)))"
      using balance unfolding match_item_def at by (simp add: L_ESC_def)
    with pq ok(2) balanced_inside [of ?src _ _ s] show ?thesis
      by (auto simp: round_agrees_def split: option.splits)
  next
    case frontier
    with it(1) obtain C where f: "char_at ?pat (p + 2) = 91" "classend ?pat (p + 2) = Inr q" "it = Frontier C"
        "C = bracket_at ?pat (p + 2) (q - 1)"
      by (auto simp: parse_item_def Let_def L_ESC_def bindE_Inr_iff)
    have "match_item mf ms cs s p =
        (case match_frontier ms s (p + 2) of Inl e \<Rightarrow> Inl e
         | Inr (Some ep) \<Rightarrow> Inr (Inr (cs, s, ep)) | Inr None \<Rightarrow> Inr (Inl (None, cs)))"
      using frontier unfolding match_item_def at by (simp add: L_ESC_def bindE_def)
    then show ?thesis
      unfolding match_frontier_spec [OF f(2,1) s] f(3) f(4) [symmetric] using s ok(2) f(3) by (auto simp: round_agrees_def)
  next
    case backref
    then have xy: "?x = 37" "?y \<noteq> 98" "?y \<noteq> 102" by (auto simp: isdigit_def L_ESC_def)
    with it(1) backref have pq: "it = Back ?y" "q = p + 2" by (auto simp: parse_item_def Let_def L_ESC_def)
    with ok(2) have c: "49 \<le> ?y" "unat ?y - 49 < length cs" "\<not> flags cs ! (unat ?y - 49)" by simp_all
    have "match_item mf ms cs s p =
        (if repeats ?src (captured cs ?y) s then Inr (Inr (cs, s + nat (snd (captured cs ?y)), q)) else Inr (Inl (None, cs)))"
      using xy backref pq(2) match_capture_spec [OF c ok(1)] unfolding match_item_def at by (simp add: L_ESC_def)
    with pq ok(2) show ?thesis by (auto simp: round_agrees_def repeats_def)
  next
    case single
    then have "match_item mf ms cs s p = match_default mf ms cs s p" and p: "parse_single ?pat p = Inr (it, q)"
      using it(1) unfolding match_item_def at by (auto simp: parse_item_def Let_def L_ESC_def)
    moreover have fit: "captures_fit its (flags cs)"
      using ok(2) p by (auto simp: parse_single_def bindE_Inr_iff Let_def split: if_splits)
    have "round_agrees ms it its cs s q (match_default mf ms cs s p)"
      using captures_inside_mono [OF ok(1)] fit by (intro match_default_spec [OF p it(2) s fit] mf) auto
    ultimately show ?thesis by simp
  qed
qed

text \<open>The matcher with enough depth for the items that are left.\<close>

lemma match_first_success:
  "parse (ms_pat ms) p = Inr its \<Longrightarrow> p \<le> length (ms_pat ms) \<Longrightarrow> captures_inside ms cs s \<Longrightarrow>
   captures_fit its (flags cs) \<Longrightarrow> nesting_items its < d \<Longrightarrow>
   match d ms cs s p = Inr (first_success cs (successes (ms_src ms) its cs s))"
proof (induction its arbitrary: p cs s d)
  case Nil
  then have "p = length (ms_pat ms)" by (subst (asm) parse.simps) (auto simp: bindE_Inr_iff split: if_splits)
  moreover obtain d' where "d = Suc d'" using Nil by (cases d) auto
  ultimately show ?case by (simp add: match_loop.simps first_success_def)
next
  case (Cons it its)
  then obtain d' where d: "d = Suc d'" by (cases d) auto
  from Cons.prems(1) obtain q where q: "p < length (ms_pat ms)" "parse_item (ms_pat ms) p = Inr (it, q)"
    "parse (ms_pat ms) q = Inr its"
    by (subst (asm) parse.simps) (auto simp: bindE_Inr_iff split: if_splits)
  note q' = parse_item_grows [OF q(2,1)]
  have "round_agrees ms it its cs s q (match_item (match d' ms) ms cs s p)"
    by (rule match_item_spec [OF q(2,1,3) Cons.prems(3,4)]) (rule Cons.IH [OF q(3)], use q' Cons.prems(5) d in \<open>auto simp: nesting_items_def\<close>)
  moreover have "match d ms cs s' q = Inr (first_success cs (successes (ms_src ms) its cs s'))"
    if "captures_fit its (flags cs)" "s \<le> s'" "s' \<le> length (ms_src ms)" for s'
    by (rule Cons.IH [OF q(3)]) (use that q' Cons.prems captures_inside_mono in \<open>auto simp: nesting_items_def split: if_splits\<close>)
  ultimately show ?case
    using q(1) unfolding d round_agrees_def by (auto simp: match_loop.simps [of _ _ _ _ p])
qed

subsection \<open>Every pattern\<close>

text \<open>What holds of the matcher on every pattern, malformed ones too: it stays inside both strings, a failure leaves the
  captures as they were, and a success ends in the subject with the captures before its end.\<close>

definition sound_result :: "MatchState \<Rightarrow> captures \<Rightarrow> nat \<Rightarrow> (nat option \<times> captures) res \<Rightarrow> bool" where
  "sound_result ms cs s r \<longleftrightarrow>
     (case r of
        Inl e \<Rightarrow> e \<noteq> string_overrun
      | Inr (None, cs') \<Rightarrow> cs' = cs
      | Inr (Some e, cs') \<Rightarrow> s \<le> e \<and> captures_inside ms cs' e)"

definition sound_matcher :: "MatchState \<Rightarrow> matcher \<Rightarrow> bool" where
  "sound_matcher ms mf \<longleftrightarrow>
     (\<forall>cs s p. captures_inside ms cs s \<longrightarrow> p \<le> length (ms_pat ms) \<longrightarrow> sound_result ms cs s (mf cs s p))"

lemma sound_matcherD:
  "sound_matcher ms mf \<Longrightarrow> captures_inside ms cs s \<Longrightarrow> p \<le> length (ms_pat ms) \<Longrightarrow> sound_result ms cs s (mf cs s p)"
  by (simp add: sound_matcher_def)

lemma sound_result_simps [simp]:
  "sound_result ms cs s (Inl e) \<longleftrightarrow> e \<noteq> string_overrun"
  "sound_result ms cs s (Inr (None, cs')) \<longleftrightarrow> cs' = cs"
  "sound_result ms cs s (Inr (Some t, cs')) \<longleftrightarrow> s \<le> t \<and> captures_inside ms cs' t"
  by (simp_all add: sound_result_def)

lemma sound_result_cases:
  assumes "sound_result ms cs s r"
  obtains e where "r = Inl e" "e \<noteq> string_overrun"
  | "r = Inr (None, cs)"
  | e cs' where "r = Inr (Some e, cs')" "s \<le> e" "captures_inside ms cs' e"
proof (cases r)
  case (Inr y)
  obtain x cs' where y: "y = (x, cs')" by fastforce
  show ?thesis using assms that Inr y by (cases x) auto
qed (use assms that in auto)

lemma sound_result_later: "sound_result ms cs s' r \<Longrightarrow> s \<le> s' \<Longrightarrow> sound_result ms cs s r"
  by (auto simp: sound_result_def split: sum.splits option.splits)

lemma not_overrun [simp]: "RuntimeError m \<noteq> string_overrun" "string_overrun \<noteq> RuntimeError m"
  by (simp_all add: string_overrun_def)

lemma classend_set_safe: "p \<le> length pat \<Longrightarrow> classend_set pat p \<noteq> Inl string_overrun"
proof (induction "length pat - p" arbitrary: p rule: less_induct)
  case less
  show ?case
  proof (cases "p = length pat")
    case True
    then show ?thesis by (subst classend_set.simps) simp
  next
    case False
    then have "p < length pat" using less.prems by simp
    then show ?thesis
      using less.hyps [of "p + 1"] less.hyps [of "p + 2"] by (subst classend_set.simps) (simp add: Let_def)
  qed
qed

lemma classend_safe: "p < length pat \<Longrightarrow> classend pat p \<noteq> Inl string_overrun"
  using classend_set_safe [of "p + 1" pat] classend_set_safe [of "p + 2" pat] char_at_nonzero [of pat "p + 1"]
  by (auto simp: classend_def Let_def bindE_Inl_iff Suc_le_eq)

lemma max_try_sound:
  assumes "sound_matcher ms mf" "ep < length (ms_pat ms)"
  shows "captures_inside ms cs s \<Longrightarrow> s + i \<le> length (ms_src ms) \<Longrightarrow> sound_result ms cs s (max_try mf cs s ep i)"
proof (induction i)
  case 0
  from sound_matcherD [OF assms(1) 0(1), of "ep + 1"] assms(2) show ?case
    by (subst max_try.simps) (auto elim!: sound_result_cases)
next
  case (Suc i)
  have "captures_inside ms cs (s + Suc i)" using captures_inside_mono Suc.prems by simp
  from sound_matcherD [OF assms(1) this, of "ep + 1"] assms(2) Suc show ?case
    by (subst max_try.simps) (auto elim!: sound_result_cases)
qed

lemma min_expand_sound:
  assumes "sound_matcher ms mf" "ep < length (ms_pat ms)"
    "\<And>s. singlematch ms s p ep = Inr (one (ms_src ms) C s)"
  shows "captures_inside ms cs s \<Longrightarrow> sound_result ms cs s (min_expand mf ms cs s p ep)"
proof (induction "length (ms_src ms) - s" arbitrary: s rule: less_induct)
  case less
  have "sound_result ms cs s (min_expand mf ms cs (s + 1) p ep)" if "one (ms_src ms) C s"
  proof -
    from that have s: "s < length (ms_src ms)" by (simp add: one_def)
    then have "captures_inside ms cs (s + 1)" using captures_inside_mono less.prems by simp
    then have "sound_result ms cs (s + 1) (min_expand mf ms cs (s + 1) p ep)" using less.hyps s by simp
    then show ?thesis by (rule sound_result_later) simp
  qed
  with sound_matcherD [OF assms(1) less.prems, of "ep + 1"] assms(2) show ?case
    by (subst min_expand.simps) (auto elim!: sound_result_cases simp: assms(3))
qed

text \<open>A round of the loop: a sound result, or further positions behind \<open>p\<close>.\<close>

definition sound_round ::
  "MatchState \<Rightarrow> captures \<Rightarrow> nat \<Rightarrow> ((nat option \<times> captures) + (captures \<times> nat \<times> nat)) res \<Rightarrow> bool" where
  "sound_round ms cs s r \<longleftrightarrow>
     (case r of
        Inl e \<Rightarrow> e \<noteq> string_overrun
      | Inr (Inl x) \<Rightarrow> sound_result ms cs s (Inr x)
      | Inr (Inr (cs', s', p')) \<Rightarrow> cs' = cs \<and> s \<le> s' \<and> s' \<le> length (ms_src ms) \<and> p' \<le> length (ms_pat ms))"

lemma sound_round_simps [simp]:
  "sound_round ms cs s (Inl e) \<longleftrightarrow> e \<noteq> string_overrun"
  "sound_round ms cs s (Inr (Inl x)) \<longleftrightarrow> sound_result ms cs s (Inr x)"
  "sound_round ms cs s (Inr (Inr (cs', s', p'))) \<longleftrightarrow>
     cs' = cs \<and> s \<le> s' \<and> s' \<le> length (ms_src ms) \<and> p' \<le> length (ms_pat ms)"
  by (simp_all add: sound_round_def)

lemma sound_round_result: "sound_round ms cs s (bindE r (\<lambda>x. Inr (Inl x))) \<longleftrightarrow> sound_result ms cs s r"
  by (cases r) auto

lemma match_default_sound:
  assumes "sound_matcher ms mf" "captures_inside ms cs s" "p < length (ms_pat ms)"
  shows "sound_round ms cs s (match_default mf ms cs s p)"
proof (cases "classend (ms_pat ms) p")
  case (Inl e)
  then show ?thesis using classend_safe [OF assms(3)] by (auto simp: match_default_def)
next
  case (Inr ep)
  let ?src = "ms_src ms"
  define C where "C = charset_at (ms_pat ms) p ep"
  have sm: "\<And>s. singlematch ms s p ep = Inr (one ?src C s)" unfolding C_def by (rule singlematch_spec [OF Inr assms(3)])
  have ep: "ep \<le> length (ms_pat ms)" using classend_grows [OF Inr assms(3)] by simp
  have suf: "ep < length (ms_pat ms)" if "char_at (ms_pat ms) ep \<noteq> 0" using that by (rule char_at_nonzero)
  have s: "s \<le> length ?src" using assms(2) by (simp add: captures_inside_def)
  have nxt: "captures_inside ms cs (s + 1)" "s < length ?src" if "one ?src C s"
    using that captures_inside_mono [OF assms(2), of "s + 1"] by (auto simp: one_def)
  have max: "sound_result ms cs s' (max_expand mf ms cs s' p ep)"
    if "captures_inside ms cs s'" "char_at (ms_pat ms) ep \<noteq> 0" for s'
  proof -
    have "s' + run ?src C s' \<le> length ?src"
      using that(1) length_takeWhile_le [of "in_charset C" "drop s' ?src"] by (auto simp: captures_inside_def run_def)
    then show ?thesis
      using max_try_sound [OF assms(1) suf [OF that(2)] that(1)] by (simp add: max_expand_def max_count_spec [OF sm])
  qed
  have min: "sound_result ms cs s (min_expand mf ms cs s p ep)" if "char_at (ms_pat ms) ep \<noteq> 0"
    by (rule min_expand_sound [OF assms(1) suf [OF that] sm assms(2)])
  have max1: "sound_result ms cs s (max_expand mf ms cs (s + 1) p ep)"
    if "one ?src C s" "char_at (ms_pat ms) ep \<noteq> 0"
    by (rule sound_result_later [OF max [OF nxt(1) [OF that(1)] that(2)]]) simp
  have opt: "sound_result ms cs (s + 1) (mf cs (s + 1) (ep + 1))"
    if "one ?src C s" "char_at (ms_pat ms) ep \<noteq> 0"
    using sound_matcherD [OF assms(1) nxt(1) [OF that(1)], of "ep + 1"] suf [OF that(2)] by simp
  show ?thesis
  proof (cases "one ?src C s \<and> char_at (ms_pat ms) ep = 63")
    case True
    from opt [OF conjunct1 [OF True]] True s suf show ?thesis
      by (auto simp: match_default_def Inr sm ep elim!: sound_result_cases)
  next
    case False
    then show ?thesis
      using s max [OF assms(2)] max1 min suf nxt(2)
      by (auto simp: match_default_def Inr sm ep sound_round_result Suc_le_eq)
  qed
qed

lemma match_frontier_sound:
  assumes "p \<le> length (ms_pat ms)" "s \<le> length (ms_src ms)"
  shows "match_frontier ms s p \<noteq> Inl string_overrun"
    and "match_frontier ms s p = Inr (Some ep) \<Longrightarrow> ep \<le> length (ms_pat ms)"
proof -
  have p: "p < length (ms_pat ms)" if "char_at (ms_pat ms) p = 91" using char_at_nonzero [of "ms_pat ms" p] that by simp
  show "match_frontier ms s p \<noteq> Inl string_overrun"
  proof (cases "char_at (ms_pat ms) p = 91")
    case True
    with classend_safe [OF p] match_frontier_spec [OF _ True assms(2)] show ?thesis
      by (cases "classend (ms_pat ms) p") (auto simp: match_frontier_def assms(1))
  qed (use assms(1) in \<open>simp add: match_frontier_def\<close>)
  show "match_frontier ms s p = Inr (Some ep) \<Longrightarrow> ep \<le> length (ms_pat ms)"
    using classend_grows [of "ms_pat ms" p] p by (auto simp: match_frontier_def bindE_Inr_iff str_at_Inr split: if_splits)
qed

lemma check_capture_Inr: "check_capture cs c = Inr l \<Longrightarrow> l < length cs \<and> snd (cs ! l) \<noteq> CAP_UNFINISHED"
  by (auto simp: check_capture_def Let_def split: if_splits)

lemma check_capture_error: "check_capture cs c \<noteq> Inl string_overrun"
  by (simp add: check_capture_def Let_def)

lemma match_capture_sound:
  assumes "captures_inside ms cs s"
  shows "match_capture ms cs s c \<noteq> Inl string_overrun"
    and "match_capture ms cs s c = Inr (Some e) \<Longrightarrow> s \<le> e \<and> e \<le> length (ms_src ms)"
proof -
  have "match_capture ms cs s c = Inl e \<and> e \<noteq> string_overrun \<or>
      (\<exists>r. match_capture ms cs s c = Inr r \<and> (\<forall>e. r = Some e \<longrightarrow> s \<le> e \<and> e \<le> length (ms_src ms)))"
    if "check_capture cs c = Inl e" for e
    using that check_capture_error [of cs c] by (auto simp: match_capture_def)
  moreover have "\<exists>r. match_capture ms cs s c = Inr r \<and> (\<forall>e. r = Some e \<longrightarrow> s \<le> e \<and> e \<le> length (ms_src ms))"
    if l: "check_capture cs c = Inr l" for l
  proof -
    note l' = check_capture_Inr [OF l]
    obtain i n where il: "cs ! l = (i, n)" by fastforce
    have "capture_inside s (i, n)" using assms l' il nth_mem by (fastforce simp: captures_inside_def)
    with l' il have cap: "n = CAP_POSITION \<or> 0 \<le> n \<and> i + nat n \<le> s" by auto
    define len where "len = nat (n mod 2 ^ 64)"
    have s: "s \<le> length (ms_src ms)" "length (ms_src ms) < 2 ^ 63" using assms by (auto simp: captures_inside_def)
    have len: "i + len \<le> length (ms_src ms) \<and> s + len \<le> length (ms_src ms)" if "len \<le> length (ms_src ms) - s"
    proof (cases "n = CAP_POSITION")
      case True
      then show ?thesis using that s by (simp add: len_def CAP_POSITION_def)
    next
      case False
      with cap have n: "0 \<le> n" "i + nat n \<le> s" by auto
      with s have "n mod 2 ^ 64 = n" by (intro mod_pos_pos_trivial) auto
      then show ?thesis using n s that by (auto simp: len_def)
    qed
    then show ?thesis using s unfolding match_capture_def l il len_def [symmetric] bindE_simps prod.case Let_def by auto
  qed
  ultimately have "(\<exists>e. match_capture ms cs s c = Inl e \<and> e \<noteq> string_overrun) \<or>
      (\<exists>r. match_capture ms cs s c = Inr r \<and> (\<forall>e. r = Some e \<longrightarrow> s \<le> e \<and> e \<le> length (ms_src ms)))"
    by (cases "check_capture cs c") blast+
  then show "match_capture ms cs s c \<noteq> Inl string_overrun"
    and "match_capture ms cs s c = Inr (Some e) \<Longrightarrow> s \<le> e \<and> e \<le> length (ms_src ms)" by auto
qed

lemma matchbalance_sound:
  assumes "p \<le> length (ms_pat ms)" "s \<le> length (ms_src ms)"
  shows "matchbalance ms s p \<noteq> Inl string_overrun"
    and "matchbalance ms s p = Inr (Some e) \<Longrightarrow> p + 1 < length (ms_pat ms) \<and> s \<le> e \<and> e \<le> length (ms_src ms)"
proof -
  show "matchbalance ms s p \<noteq> Inl string_overrun"
    using matchbalance_spec [of p ms s] assms by (cases "p + 1 < length (ms_pat ms)") (auto simp: matchbalance_def)
  assume e: "matchbalance ms s p = Inr (Some e)"
  then have "p + 1 < length (ms_pat ms)" by (auto simp: matchbalance_def bindE_Inr_iff)
  with e matchbalance_spec [of p ms s] assms(2) balanced_inside
  show "p + 1 < length (ms_pat ms) \<and> s \<le> e \<and> e \<le> length (ms_src ms)" by fastforce
qed

lemma start_capture_sound:
  assumes "sound_matcher ms mf" "captures_inside ms cs s" "p \<le> length (ms_pat ms)"
    "what = CAP_UNFINISHED \<or> what = CAP_POSITION"
  shows "sound_result ms cs s (start_capture mf cs s p what)"
proof (cases "length cs \<ge> LUA_MAXCAPTURES")
  case True
  then show ?thesis by (simp add: start_capture_def)
next
  case False
  from sound_matcherD [OF assms(1) captures_inside_open [OF assms(2,4)] assms(3)] False show ?thesis
    by (auto simp: start_capture_def elim!: sound_result_cases)
qed

lemma end_capture_sound:
  assumes "sound_matcher ms mf" "captures_inside ms cs s" "p \<le> length (ms_pat ms)"
  shows "sound_result ms cs s (end_capture mf cs s p)"
proof (cases "open_capture cs")
  case None
  then show ?thesis by (simp add: end_capture_def capture_to_close_spec)
next
  case (Some l)
  note l = open_capture_Some [OF Some]
  then have c: "cs[l := (fst (cs ! l), CAP_UNFINISHED)] = cs" by (metis list_update_id prod.collapse)
  from sound_matcherD [OF assms(1) captures_inside_close [OF assms(2) conjunct1 [OF l]] assms(3)] l c show ?thesis
    by (auto simp: end_capture_def capture_to_close_spec Some elim!: sound_result_cases)
qed

lemma match_item_sound:
  assumes mf: "sound_matcher ms mf" and cs: "captures_inside ms cs s" and p: "p < length (ms_pat ms)"
  shows "sound_round ms cs s (match_item mf ms cs s p)"
proof -
  let ?pat = "ms_pat ms"
  let ?x = "char_at ?pat p" and ?y = "char_at ?pat (p + 1)"
  have at: "str_at ?pat p = Inr ?x" "str_at ?pat (p + 1) = Inr ?y" using p by simp_all
  have s: "s \<le> length (ms_src ms)" using cs by (simp add: captures_inside_def)
  have nx: "p + 2 \<le> length ?pat" if "?y \<noteq> 0" using char_at_nonzero [OF that] by simp
  note dflt = match_default_sound [OF mf cs p]
  consider (open') "?x = 40" | (close) "?x = 41" | (balance) "?x = L_ESC" "?y = 98"
    | (frontier) "?x = L_ESC" "?y = 102" | (backref) "?x = L_ESC" "isdigit ?y"
    | (other) "?x \<noteq> 40" "?x \<noteq> 41" "\<not> (?x = L_ESC \<and> (?y = 98 \<or> ?y = 102 \<or> isdigit ?y))"
    by blast
  then show ?thesis
  proof cases
    case open'
    with p nx start_capture_sound [OF mf cs] show ?thesis unfolding match_item_def at by (simp add: sound_round_result)
  next
    case close
    with p end_capture_sound [OF mf cs] show ?thesis unfolding match_item_def at by (simp add: sound_round_result)
  next
    case balance
    with nx have p2: "p + 2 \<le> length ?pat" by simp
    from balance matchbalance_sound [OF p2 s] show ?thesis
      unfolding match_item_def at
      by (cases "matchbalance ms s (p + 2)") (auto simp: L_ESC_def split: option.splits)
  next
    case frontier
    with nx have p2: "p + 2 \<le> length ?pat" by simp
    from frontier match_frontier_sound [OF p2 s] s show ?thesis
      unfolding match_item_def at
      by (cases "match_frontier ms s (p + 2)") (auto simp: L_ESC_def split: option.splits)
  next
    case backref
    then have xy: "?x = 37" "?y \<noteq> 98" "?y \<noteq> 102" "?y \<noteq> 0" by (auto simp: isdigit_def L_ESC_def)
    with backref nx match_capture_sound [OF cs, of ?y] show ?thesis
      unfolding match_item_def at
      by (cases "match_capture ms cs s ?y") (auto simp: L_ESC_def split: option.splits)
  next
    case other
    with dflt s cs show ?thesis unfolding match_item_def at by auto
  qed
qed

lemma match_loop_sound:
  "sound_matcher ms mf \<Longrightarrow> captures_inside ms cs s \<Longrightarrow> p \<le> length (ms_pat ms) \<Longrightarrow>
   sound_result ms cs s (match_loop mf ms cs s p)"
proof (induction "length (ms_pat ms) - p" arbitrary: s p rule: less_induct)
  case less
  show ?case
  proof (cases "p = length (ms_pat ms)")
    case True
    then show ?thesis using less.prems by (simp add: match_loop.simps)
  next
    case False
    then have p: "p < length (ms_pat ms)" using less.prems by simp
    note r = match_item_sound [OF less.prems(1,2) p]
    show ?thesis
    proof (cases "match_item mf ms cs s p")
      case (Inl e)
      then show ?thesis using r False by (simp add: match_loop.simps)
    next
      case (Inr y)
      show ?thesis
      proof (cases y)
        case (Inl x)
        then show ?thesis using r False Inr by (simp add: match_loop.simps)
      next
        case y: (Inr z)
        obtain cs' s' p' where z: "z = (cs', s', p')" by (cases z)
        from r Inr y z have n: "cs' = cs" "s \<le> s'" "s' \<le> length (ms_src ms)" "p' \<le> length (ms_pat ms)" by auto
        have "p < p'" using match_item_grows [of mf ms cs s p cs' s' p'] Inr y z False by simp
        then have "sound_result ms cs s' (match_loop mf ms cs s' p')"
          using less.prems n p captures_inside_mono by (intro less.hyps) auto
        then have "sound_result ms cs s (match_loop mf ms cs s' p')" using n(2) by (rule sound_result_later)
        with Inr y z n(1) False show ?thesis by (subst match_loop.simps) simp
      qed
    qed
  qed
qed

lemma match_sound: "sound_matcher ms (match d ms)"
proof (induction d)
  case 0
  then show ?case by (simp add: sound_matcher_def)
next
  case (Suc d)
  then show ?case using match_loop_sound unfolding sound_matcher_def by simp
qed

text \<open>A match never ends behind the subject, whatever the captures are.\<close>

definition end_bounded :: "MatchState \<Rightarrow> matcher \<Rightarrow> bool" where
  "end_bounded ms mf \<longleftrightarrow> (\<forall>cs s p e cs'. mf cs s p = Inr (Some e, cs') \<longrightarrow> e \<le> max s (length (ms_src ms)))"

lemma max_try_end:
  "end_bounded ms mf \<Longrightarrow> max_try mf cs s ep i = Inr (Some e, cs') \<Longrightarrow> e \<le> max (s + i) (length (ms_src ms))"
proof (induction i arbitrary: cs)
  case 0
  then show ?case by (subst (asm) max_try.simps) (fastforce simp: bindE_Inr_iff end_bounded_def split: option.splits)
next
  case (Suc i)
  from Suc.prems(2) obtain r cs'' where r: "mf cs (s + Suc i) (ep + 1) = Inr (r, cs'')"
    "(case r of Some e \<Rightarrow> Inr (Some e, cs'') | None \<Rightarrow> max_try mf cs'' s ep i) = Inr (Some e, cs')"
    unfolding max_try.simps [of mf cs s ep "Suc i"] bindE_Inr_iff by (auto cong: option.case_cong)
  show ?case
  proof (cases r)
    case None
    with Suc.IH [OF Suc.prems(1), of cs''] r(2) show ?thesis by auto
  next
    case (Some x)
    with r Suc.prems(1) show ?thesis unfolding end_bounded_def by fastforce
  qed
qed

lemma max_count_end: "max_count ms s p ep i = Inr k \<Longrightarrow> s + k \<le> max (s + i) (length (ms_src ms))"
proof (induction "length (ms_src ms) - (s + i)" arbitrary: i rule: less_induct)
  case less
  from less.prems obtain b where b: "singlematch ms (s + i) p ep = Inr b" "if b then max_count ms s p ep (i + 1) = Inr k else k = i"
    by (subst (asm) max_count.simps) (auto simp: bindE_Inr_iff split: if_splits)
  show ?case
  proof (cases b)
    case True
    then have "s + i < length (ms_src ms)" using b(1) by (auto simp: singlematch_def split: if_splits)
    with less.hyps [of "i + 1"] b(2) True show ?thesis by auto
  qed (use b(2) in auto)
qed

lemma max_expand_end:
  "end_bounded ms mf \<Longrightarrow> max_expand mf ms cs s p ep = Inr (Some e, cs') \<Longrightarrow> e \<le> max s (length (ms_src ms))"
  using max_try_end max_count_end [of ms s p ep 0] by (fastforce simp: max_expand_def bindE_Inr_iff)

lemma min_expand_end:
  "end_bounded ms mf \<Longrightarrow> min_expand mf ms cs s p ep = Inr (Some e, cs') \<Longrightarrow> e \<le> max s (length (ms_src ms))"
proof (induction "length (ms_src ms) - s" arbitrary: s cs rule: less_induct)
  case less
  from less.prems(2) obtain r cs'' where r: "mf cs s (ep + 1) = Inr (r, cs'')"
    "(case r of Some e \<Rightarrow> Inr (Some e, cs'')
      | None \<Rightarrow> bindE (singlematch ms s p ep) (\<lambda>b. if b then min_expand mf ms cs'' (s + 1) p ep else Inr (None, cs''))) =
     Inr (Some e, cs')"
    unfolding min_expand.simps [of mf ms cs s p ep] bindE_Inr_iff by auto
  show ?case
  proof (cases r)
    case (Some x)
    then show ?thesis using r less.prems(1) unfolding end_bounded_def by fastforce
  next
    case None
    with r(2) have n: "singlematch ms s p ep = Inr True" "min_expand mf ms cs'' (s + 1) p ep = Inr (Some e, cs')"
      by (auto simp: bindE_Inr_iff split: if_splits)
    then have "s < length (ms_src ms)" by (auto simp: singlematch_def split: if_splits)
    with less.hyps [of "s + 1" cs''] less.prems(1) n(2) show ?thesis by auto
  qed
qed

lemma match_default_end:
  assumes "end_bounded ms mf" "match_default mf ms cs s p = Inr r"
  shows "case r of Inl (e, _) \<Rightarrow> (\<forall>e'. e = Some e' \<longrightarrow> e' \<le> max s (length (ms_src ms)))
    | Inr (_, s', _) \<Rightarrow> s' \<le> max s (length (ms_src ms))"
proof -
  obtain ep b where ep: "classend (ms_pat ms) p = Inr ep" "singlematch ms s p ep = Inr b"
    using assms(2) by (auto simp: match_default_def bindE_Inr_iff)
  have b: "s + 1 \<le> max s (length (ms_src ms))" if "b" using ep(2) that by (auto simp: singlematch_def split: if_splits)
  have m: "e \<le> max s (length (ms_src ms))" if "mf cs (s + 1) (ep + 1) = Inr (Some e, cs')" b for e cs'
    using that assms(1) b by (fastforce simp: end_bounded_def)
  have x: "e \<le> max s (length (ms_src ms))" if "max_expand mf ms cs (s + 1) p ep = Inr (Some e, cs')" b for e cs'
    using max_expand_end [OF assms(1) that(1)] b that(2) by auto
  show ?thesis
    using assms(2) b m x max_expand_end [OF assms(1), of cs s p ep] min_expand_end [OF assms(1), of cs s p ep]
    unfolding match_default_def ep bindE_simps
    by (auto simp: bindE_Inr_iff split: if_splits option.splits)
qed

lemma matchbalance_end: "matchbalance ms s p = Inr (Some e) \<Longrightarrow> e \<le> length (ms_src ms)"
  by (auto simp: matchbalance_def bindE_Inr_iff balance_loop_spec find_Some_iff simp del: upt_Suc split: if_splits)

lemma match_capture_end: "match_capture ms cs s c = Inr (Some e) \<Longrightarrow> e \<le> length (ms_src ms)"
  unfolding match_capture_def bindE_Inr_iff by (auto simp: Let_def bindE_Inr_iff case_prod_beta split: if_splits)

lemma match_item_end:
  assumes "end_bounded ms mf" "match_item mf ms cs s p = Inr r"
  shows "case r of Inl (e, _) \<Rightarrow> (\<forall>e'. e = Some e' \<longrightarrow> e' \<le> max s (length (ms_src ms)))
    | Inr (_, s', _) \<Rightarrow> s' \<le> max s (length (ms_src ms))"
proof -
  have "(\<exists>x q what. start_capture mf cs s q what = Inr x \<and> r = Inl x) \<or> (\<exists>x q. end_capture mf cs s q = Inr x \<and> r = Inl x) \<or>
      r = Inl (None, cs) \<or> r = Inl (Some s, cs) \<or> (\<exists>q. r = Inr (cs, s, q)) \<or>
      (\<exists>e q. matchbalance ms s (p + 2) = Inr (Some e) \<and> r = Inr (cs, e, q)) \<or>
      (\<exists>e c q. match_capture ms cs s c = Inr (Some e) \<and> r = Inr (cs, e, q)) \<or> match_default mf ms cs s p = Inr r"
    using assms(2) unfolding match_item_def
    by (simp only: bindE_Inr_iff) (fastforce split: if_splits option.splits simp: bindE_Inr_iff)
  moreover have "e \<le> max s (length (ms_src ms))" if "start_capture mf cs s q what = Inr (Some e, cs')" for e cs' q what
    using that assms(1) by (fastforce simp: start_capture_def bindE_Inr_iff end_bounded_def split: if_splits)
  moreover have "e \<le> max s (length (ms_src ms))" if "end_capture mf cs s q = Inr (Some e, cs')" for e cs' q
    using that assms(1) by (fastforce simp: end_capture_def bindE_Inr_iff end_bounded_def split: if_splits)
  moreover note match_default_end [OF assms(1), of cs s p r] matchbalance_end match_capture_end
  ultimately show ?thesis by (elim disjE exE conjE) (auto simp: max.coboundedI2)
qed

lemma match_loop_end: "end_bounded ms mf \<Longrightarrow> match_loop mf ms cs s p = Inr (Some e, cs') \<Longrightarrow> e \<le> max s (length (ms_src ms))"
proof (induction "length (ms_pat ms) - p" arbitrary: cs s p rule: less_induct)
  case less
  show ?case
  proof (cases "p = length (ms_pat ms)")
    case True
    then show ?thesis using less.prems by (simp add: match_loop.simps)
  next
    case False
    with less.prems(2) obtain r where r: "match_item mf ms cs s p = Inr r"
      "(case r of Inl r \<Rightarrow> Inr r | Inr (cs, s, p) \<Rightarrow> match_loop mf ms cs s p) = Inr (Some e, cs')"
      by (subst (asm) match_loop.simps) (auto simp: bindE_Inr_iff)
    note i = match_item_end [OF less.prems(1) r(1)]
    show ?thesis
    proof (cases r)
      case (Inl x)
      then show ?thesis using i r(2) by (cases x) auto
    next
      case (Inr y)
      obtain cs' s' p' where y: "y = (cs', s', p')" by (cases y)
      have "p < length (ms_pat ms) \<and> p < p'" using match_item_grows r(1) False unfolding Inr y by blast
      with less.hyps [of p' cs' s'] less.prems(1) r(2) i show ?thesis by (simp add: Inr y) linarith
    qed
  qed
qed

lemma match_end: "end_bounded ms (match d ms)"
proof (induction d)
  case 0
  then show ?case by (simp add: end_bounded_def)
next
  case (Suc d)
  show ?case using match_loop_end [OF Suc] by (simp add: end_bounded_def)
qed

section \<open>The matcher as the library calls it\<close>

text \<open>
  On every pattern that can be read and whose captures fit, and that has fewer repetitions and
  parentheses than the matcher may nest calls, the backtracking matcher returns, and its result is the first element of the list of all ways to match the pattern, with the end of
  the match and the captures: it neither misses a match, nor finds a wrong one, nor prefers a later one, and when there is none
  it says so.
\<close>

theorem match_finds_first_success:
  assumes "parse (ms_pat ms) 0 = Inr its" "captures_fit its []" "nesting_items its < LUAI_MAXCCALLS"
    and "length (ms_src ms) < 2 ^ 63" "s \<le> length (ms_src ms)"
  shows "match LUAI_MAXCCALLS ms [] s 0 = Inr (first_success [] (successes (ms_src ms) its [] s))"
  by (rule match_first_success) (use assms in \<open>simp_all add: captures_inside_def flags_def\<close>)

text \<open>The pattern \<open>(%a-)=([0-9]*)$\<close> on \<open>x=12\<close>.\<close>

lemma match_finds_first_success_witness:
  "match LUAI_MAXCCALLS \<lparr>ms_src = [120, 61, 49, 50], ms_pat = [40, 37, 97, 45, 41, 61, 40, 91, 48, 45, 57, 93, 42, 41, 36]\<rparr> [] 0 0 =
    Inr (Some 4, [(0, 1), (2, 2)])"
proof -
  let ?ms = "\<lparr>ms_src = [120, 61, 49, 50], ms_pat = [40, 37, 97, 45, 41, 61, 40, 91, 48, 45, 57, 93, 42, 41, 36]\<rparr>"
  let ?its = "[Open, Lazy (ClassOf 97), Close, Single (TheChar 61), Open, Star (SetOf True [SRange 48 57]), Close, AtEnd]"
  have p: "parse (ms_pat ?ms) 0 = Inr ?its" by code_simp
  have "first_success [] (successes (ms_src ?ms) ?its [] 0) = (Some 4, [(0, 1), (2, 2)])" by code_simp
  moreover have "captures_fit ?its []" by code_simp
  ultimately show ?thesis
    using match_finds_first_success [OF p, of 0] by (simp add: LUAI_MAXCCALLS_def nesting_items_def)
qed

text \<open>
  On every pattern, malformed ones too, the matcher reads neither string past its terminating zero. When it fails the
  captures are as before, and when it succeeds the match ends in the subject and every capture lies before that end.
\<close>

theorem match_memory_safe:
  assumes "length (ms_src ms) < 2 ^ 63" "s \<le> length (ms_src ms)"
  shows "case match LUAI_MAXCCALLS ms [] s 0 of
      Inl e \<Rightarrow> e \<noteq> string_overrun
    | Inr (None, cs) \<Rightarrow> cs = []
    | Inr (Some e, cs) \<Rightarrow> s \<le> e \<and> e \<le> length (ms_src ms) \<and>
        (\<forall>(init, l) \<in> set cs. init \<le> e \<and> (0 \<le> l \<longrightarrow> init + nat l \<le> e))"
proof -
  have "captures_inside ms [] s" using assms by (simp add: captures_inside_def)
  from sound_matcherD [OF match_sound this, of 0 LUAI_MAXCCALLS]
  have "sound_result ms [] s (match LUAI_MAXCCALLS ms [] s 0)" by simp
  then show ?thesis
    by (cases rule: sound_result_cases)
      (fastforce simp: captures_inside_def CAP_UNFINISHED_def CAP_POSITION_def)+
qed

text \<open>The malformed pattern \<open>[a%\<close>.\<close>

lemma match_memory_safe_witness:
  "\<exists>r. match LUAI_MAXCCALLS \<lparr>ms_src = [97], ms_pat = [91, 97, 37]\<rparr> [] 0 0 = r \<and> r \<noteq> Inl string_overrun"
  using match_memory_safe [of "\<lparr>ms_src = [97], ms_pat = [91, 97, 37]\<rparr>" 0] by (auto split: sum.splits)

text \<open>Every success has closed captures that lie before its end.\<close>

lemma run_inside: "s \<le> length src \<Longrightarrow> s + run src C s \<le> length src"
  using length_takeWhile_le [of "in_charset C" "drop s src"] by (simp add: run_def)

lemma one_inside: "one src C s \<Longrightarrow> s < length src"
  by (simp add: one_def)

lemma successes_closed:
  "captures_fit its (flags cs) \<Longrightarrow> captures_inside ms cs s \<Longrightarrow> (e, cs') \<in> set (successes (ms_src ms) its cs s) \<Longrightarrow>
   length cs \<le> LUA_MAXCAPTURES \<Longrightarrow>
   s \<le> e \<and> captures_inside ms cs' e \<and> True \<notin> set (flags cs') \<and> length cs' \<le> LUA_MAXCAPTURES"
proof (induction its arbitrary: cs s)
  case Nil
  then show ?case by simp
next
  case (Cons it its)
  let ?src = "ms_src ms"
  have s: "s \<le> length ?src" using Cons.prems(2) by (simp add: captures_inside_def)
  have next_: "s \<le> e \<and> captures_inside ms cs' e \<and> True \<notin> set (flags cs') \<and> length cs' \<le> LUA_MAXCAPTURES"
    if "(e, cs') \<in> set (successes ?src its cs s')" "s \<le> s'" "s' \<le> length ?src" "captures_fit its (flags cs)" for s'
    using Cons.IH [OF that(4) captures_inside_mono [OF Cons.prems(2) that(2,3)] that(1) Cons.prems(4)] that(2) by auto
  have in1: "(e, cs') \<in> set (successes ?src its cs s') \<Longrightarrow> s \<le> s' \<Longrightarrow> s' \<le> length ?src \<Longrightarrow> captures_fit its (flags cs) \<Longrightarrow> ?case" for s'
    using next_ by blast
  show ?case
  proof (cases it)
    case (Single C)
    then show ?thesis using Cons.prems(1,3) one_inside [of ?src C s] in1 [of s] in1 [of "s + 1"] by (auto split: if_splits)
  next
    case (Maybe C)
    then show ?thesis using Cons.prems(1,3) one_inside [of ?src C s] s in1 [of s] in1 [of "s + 1"] by (auto split: if_splits)
  next
    case (Star C)
    then obtain i where "i \<le> run ?src C s" "(e, cs') \<in> set (successes ?src its cs (s + i))" using Cons.prems(3) by (auto simp del: upt_Suc simp: less_Suc_eq_le)
    then show ?thesis using Star Cons.prems(1) run_inside [OF s, of C] by (intro in1 [of "s + i"]) auto
  next
    case (Plus C)
    then obtain i where "one ?src C s" "i \<le> run ?src C (s + 1)" "(e, cs') \<in> set (successes ?src its cs (s + 1 + i))"
      using Cons.prems(3) by (auto simp del: upt_Suc simp: less_Suc_eq_le split: if_splits)
    then show ?thesis using Plus Cons.prems(1) one_inside [of ?src C s] run_inside [of "s + 1" ?src C] by (intro in1 [of "s + 1 + i"]) auto
  next
    case (Lazy C)
    then obtain i where "i \<le> run ?src C s" "(e, cs') \<in> set (successes ?src its cs (s + i))" using Cons.prems(3) by (auto simp del: upt_Suc simp: less_Suc_eq_le)
    then show ?thesis using Lazy Cons.prems(1) run_inside [OF s, of C] by (intro in1 [of "s + i"]) auto
  next
    case Open
    have "flags (cs @ [(s, CAP_UNFINISHED)]) = flags cs @ [True]" by (simp add: flags_def)
    with Cons.IH [OF _ captures_inside_open [OF Cons.prems(2)], of CAP_UNFINISHED] Open Cons.prems show ?thesis by simp
  next
    case Position
    have "flags (cs @ [(s, CAP_POSITION)]) = flags cs @ [False]" by (simp add: flags_def CAP_POSITION_def CAP_UNFINISHED_def)
    with Cons.IH [OF _ captures_inside_open [OF Cons.prems(2)], of CAP_POSITION] Position Cons.prems show ?thesis by simp
  next
    case Close
    then obtain l where l: "open_capture cs = Some l" "captures_fit its ((flags cs)[l := False])"
      "(e, cs') \<in> set (successes ?src its (cs[l := (fst (cs ! l), int s - int (fst (cs ! l)))]) s)"
      using Cons.prems by (auto simp: open_capture_flags split: option.splits)
    note l' = open_capture_Some [OF l(1), THEN conjunct1]
    show ?thesis
      using Cons.IH [OF _ captures_inside_close [OF Cons.prems(2) l'] l(3)] flags_close [OF Cons.prems(2) l'] l(2) Cons.prems(4) by simp
  next
    case AtEnd
    then show ?thesis using Cons.prems(1,3) s in1 [of s] in1 [of "s + 1"] by (auto split: if_splits)
  next
    case (Balance b c)
    then obtain q where "balanced ?src b c s = Some q" "(e, cs') \<in> set (successes ?src its cs q)"
      using Cons.prems(3) by (cases "balanced ?src b c s") auto
    then show ?thesis using Balance Cons.prems(1) balanced_inside [of ?src b c s q] by (intro in1 [of q]) auto
  next
    case (Frontier C)
    then show ?thesis using Cons.prems(1,3) s in1 [of s] in1 [of "s + 1"] by (auto split: if_splits)
  next
    case (Back c)
    then show ?thesis using Cons.prems(1,3) s in1 [of "s + nat (snd (captured cs c))"] by (auto simp: repeats_def split: if_splits)
  qed
qed

end
