(* ===== verification/StringLib.thy ===== *)
theory StringLib
  imports StringMatch
begin

text \<open>
  The functions of \<^verbatim>\<open>VM/src/lstrlib.cpp\<close> that search: \<^verbatim>\<open>string.find\<close>, \<^verbatim>\<open>string.match\<close>,
  \<^verbatim>\<open>string.gmatch\<close> and \<^verbatim>\<open>string.gsub\<close>, on top of the matcher. The replacement function or table of
  \<^verbatim>\<open>gsub\<close> can run any code, so it is a parameter that acts on the state of the rest of the program. A string buffer is the list
  of the bytes added to it. The position of a \<^verbatim>\<open>gmatch\<close> iterator, a number in an upvalue, is a natural number.

  Shown here: \<^verbatim>\<open>find\<close> and \<^verbatim>\<open>match\<close> return the leftmost match, the preferred one among those, with its captures
  (\<open>str_find_leftmost\<close>); \<^verbatim>\<open>lmemfind\<close> finds the leftmost occurrence and \<^verbatim>\<open>nospecials\<close> looks at every byte, zeros
  included; \<^verbatim>\<open>gmatch\<close> advances with every match (\<open>gmatch_advances\<close>); \<^verbatim>\<open>gsub\<close> with the replacement \<open>%0\<close> returns
  the subject (\<open>gsub_identity\<close>).
\<close>

section \<open>Helpers\<close>

definition str_posrelat :: "int \<Rightarrow> nat \<Rightarrow> int" where
  "str_posrelat pos len =
     (let pos = (if pos < 0 then pos + (int_of_size len + 1) else pos) in if pos \<ge> 0 then pos else 0)"

text \<open>\<^verbatim>\<open>lua_pushlstring\<close> of \<open>n\<close> bytes of a string from an offset.\<close>

definition lua_pushlstring :: "bytes \<Rightarrow> nat \<Rightarrow> nat \<Rightarrow> TValue res" where
  "lua_pushlstring s i n =
     bindE (guardE (i + n \<le> length s) string_overrun) (\<lambda>_. Inr (TvString (take n (drop i s))))"

definition str_memcmp :: "bytes \<Rightarrow> nat \<Rightarrow> bytes \<Rightarrow> bool res" where
  "str_memcmp s i t = bindE (guardE (i + length t \<le> length s) string_overrun) (\<lambda>_. Inr (take (length t) (drop i s) = t))"

definition l_isfalse :: "TValue \<Rightarrow> bool" where
  "l_isfalse v \<longleftrightarrow> v = TvNil \<or> v = TvBoolean False \<or> v = TvSymNone"

definition lua_toboolean :: "lua_State \<Rightarrow> nat \<Rightarrow> bool" where
  "lua_toboolean L idx = (case index2addr L idx of None \<Rightarrow> False | Some v \<Rightarrow> \<not> l_isfalse v)"

fun luaT_typename :: "lua_Type \<Rightarrow> string" where
  "luaT_typename LUA_TNIL = ''nil''"
| "luaT_typename LUA_TBOOLEAN = ''boolean''"
| "luaT_typename LUA_TLIGHTUSERDATA = ''userdata''"
| "luaT_typename LUA_TNUMBER = ''number''"
| "luaT_typename LUA_TINTEGER = ''integer''"
| "luaT_typename LUA_TVECTOR = ''vector''"
| "luaT_typename LUA_TSYMNONE = ''symbol''"
| "luaT_typename LUA_TSTRING = ''string''"
| "luaT_typename LUA_TTABLE = ''table''"
| "luaT_typename LUA_TFUNCTION = ''function''"
| "luaT_typename LUA_TUSERDATA = ''userdata''"
| "luaT_typename LUA_TTHREAD = ''thread''"
| "luaT_typename LUA_TBUFFER = ''buffer''"
| "luaT_typename LUA_TCLASS = ''class''"
| "luaT_typename LUA_TOBJECT = ''object''"

text \<open>\<^verbatim>\<open>luaL_addvalue\<close>: a number is added as its text.\<close>

definition luaL_addvalue :: "bytes \<Rightarrow> TValue \<Rightarrow> bytes" where
  "luaL_addvalue b v = (case v of TvString s \<Rightarrow> b @ s | TvNumber d \<Rightarrow> b @ luai_num2str d | _ \<Rightarrow> b)"

section \<open>Captures as values\<close>

definition push_onecapture :: "MatchState \<Rightarrow> captures \<Rightarrow> nat \<Rightarrow> nat \<Rightarrow> nat \<Rightarrow> TValue res" where
  "push_onecapture ms cs i s e =
     (if i \<ge> length cs then
        if i = 0 then lua_pushlstring (ms_src ms) s (e - s)
        else Inl (RuntimeError ''invalid capture index'')
      else
        let (init, l) = cs ! i in
        if l = CAP_UNFINISHED then Inl (RuntimeError ''unfinished capture'')
        else if l = CAP_POSITION then Inr (lua_pushinteger (int_of_size init + 1))
        else lua_pushlstring (ms_src ms) init (nat l))"

text \<open>The match is absent where the code passes \<^verbatim>\<open>NULL\<close>.\<close>

definition push_captures :: "lua_State \<Rightarrow> MatchState \<Rightarrow> captures \<Rightarrow> (nat \<times> nat) option \<Rightarrow> TValue list res" where
  "push_captures L ms cs se =
     (let nlevels = (if cs = [] \<and> se \<noteq> None then 1 else length cs) in
      bindE (luaL_checkstack L (int nlevels) ''too many captures'') (\<lambda>_.
      mapE (\<lambda>i. case se of None \<Rightarrow> push_onecapture ms cs i 0 0 | Some (s, e) \<Rightarrow> push_onecapture ms cs i s e)
        [0..<nlevels]))"

section \<open>Searching\<close>

text \<open>The loop of \<^verbatim>\<open>lmemfind\<close>: \<open>s1\<close> and \<open>l1\<close> are what is left, \<open>l2\<close> the length of the rest of \<open>s2\<close>.\<close>

function lmemfind_loop :: "bytes \<Rightarrow> bytes \<Rightarrow> nat \<Rightarrow> nat \<Rightarrow> nat option res" where
  "lmemfind_loop src s2 s1 l1 =
     (if l1 > 0 then
        case find (\<lambda>i. char_at src i = char_at s2 0) [s1..<s1 + l1] of
          None \<Rightarrow> Inr None
        | Some i \<Rightarrow>
            let init = i + 1 in
            bindE (str_memcmp src init (drop 1 s2)) (\<lambda>eq.
            if eq then Inr (Some (init - 1))
            else lmemfind_loop src s2 init (l1 - (init - s1)))
      else Inr None)"
  by pat_completeness auto
termination
  by (relation "measure (\<lambda>(src, s2, s1, l1). l1)") (auto simp: find_Some_iff)

declare lmemfind_loop.simps [simp del]

definition lmemfind :: "bytes \<Rightarrow> nat \<Rightarrow> nat \<Rightarrow> bytes \<Rightarrow> nat option res" where
  "lmemfind src s1 l1 s2 =
     (if length s2 = 0 then Inr (Some s1)
      else if length s2 > l1 then Inr None
      else lmemfind_loop src s2 s1 (l1 - (length s2 - 1)))"

definition SPECIALS :: bytes where
  "SPECIALS = [94, 36, 42, 43, 63, 46, 40, 91, 37, 45]"

function nospecials :: "bytes \<Rightarrow> nat \<Rightarrow> bool" where
  "nospecials p pos =
     (if list_ex (\<lambda>c. c \<in> set SPECIALS) (c_string (drop pos p)) then False
      else
        let pos = pos + (length (c_string (drop pos p)) + 1) in
        if pos \<le> length p then nospecials p pos else True)"
  by pat_completeness auto
termination
  by (relation "measure (\<lambda>(p, pos). Suc (length p) - pos)") auto

declare nospecials.simps [simp del]

text \<open>\<^verbatim>\<open>prepstate\<close>; the depth is the first argument of \<open>match\<close>, \<^verbatim>\<open>reprepstate\<close> is the empty list of captures.\<close>

definition prepstate :: "bytes \<Rightarrow> bytes \<Rightarrow> MatchState" where
  "prepstate s p = \<lparr>ms_src = s, ms_pat = p\<rparr>"

definition start_match :: "MatchState \<Rightarrow> nat \<Rightarrow> (nat option \<times> captures) res" where
  "start_match ms s = match LUAI_MAXCCALLS ms [] s 0"

text \<open>The loop of \<^verbatim>\<open>str_find_aux\<close> over the positions.\<close>

function find_loop :: "MatchState \<Rightarrow> bool \<Rightarrow> nat \<Rightarrow> (nat \<times> nat \<times> captures) option res" where
  "find_loop ms anchor s1 =
     bindE (start_match ms s1) (\<lambda>(r, cs).
     case r of
       Some res \<Rightarrow> Inr (Some (s1, res, cs))
     | None \<Rightarrow> if s1 < length (ms_src ms) \<and> \<not> anchor then find_loop ms anchor (s1 + 1) else Inr None)"
  by pat_completeness auto
termination
  by (relation "measure (\<lambda>(ms, anchor, s1). length (ms_src ms) - s1)") auto

declare find_loop.simps [simp del]

definition push_values :: "lua_State \<Rightarrow> TValue list \<Rightarrow> lua_State" where
  "push_values L vs = L\<lparr>base := base L @ vs\<rparr>"

definition str_find_aux :: "lua_State \<Rightarrow> bool \<Rightarrow> TValue list res" where
  "str_find_aux L is_find =
     bindE (luaL_checklstring L 1) (\<lambda>s.
     bindE (luaL_checklstring L 2) (\<lambda>p.
     bindE (luaL_optinteger L 3 1) (\<lambda>init.
     let init = str_posrelat init (length s); init = (if init < 1 then 1 else init) in
     if init > int_of_size (length s) + 1 then Inr [TvNil]
     else
       let s1 = nat (init - 1) in
       if is_find \<and> (lua_toboolean L 4 \<or> nospecials p 0) then
         bindE (lmemfind s s1 (length s - s1) p) (\<lambda>s2.
         case s2 of
           Some s2 \<Rightarrow> Inr [lua_pushinteger (int_of_size (s2 + 1)), lua_pushinteger (int_of_size (s2 + length p))]
         | None \<Rightarrow> Inr [TvNil])
       else
         let anchor = (char_at p 0 = 94); p = (if anchor then drop 1 p else p); ms = prepstate s p in
         bindE (find_loop ms anchor s1) (\<lambda>r.
         case r of
           Some (s1, res, cs) \<Rightarrow>
             if is_find then
               let vs = [lua_pushinteger (int_of_size (s1 + 1)), lua_pushinteger (int_of_size res)] in
               bindE (push_captures (push_values L vs) ms cs None) (\<lambda>caps. Inr (vs @ caps))
             else push_captures L ms cs (Some (s1, res))
         | None \<Rightarrow> Inr [TvNil]))))"

definition str_find :: "lua_State \<Rightarrow> TValue list res" where
  "str_find L = str_find_aux L True"

definition str_match :: "lua_State \<Rightarrow> TValue list res" where
  "str_match L = str_find_aux L False"

text \<open>The closure of \<^verbatim>\<open>gmatch\<close> has the subject, the pattern and the position as its upvalues.\<close>

record gmatch_closure =
  gm_src :: bytes
  gm_pat :: bytes
  gm_pos :: nat

function gmatch_loop :: "MatchState \<Rightarrow> nat \<Rightarrow> (nat \<times> nat \<times> captures) option res" where
  "gmatch_loop ms src =
     (if src \<le> length (ms_src ms) then
        bindE (start_match ms src) (\<lambda>(r, cs).
        case r of Some e \<Rightarrow> Inr (Some (src, e, cs)) | None \<Rightarrow> gmatch_loop ms (src + 1))
      else Inr None)"
  by pat_completeness auto
termination
  by (relation "measure (\<lambda>(ms, src). Suc (length (ms_src ms)) - src)") auto

declare gmatch_loop.simps [simp del]

definition gmatch_aux :: "lua_State \<Rightarrow> gmatch_closure \<Rightarrow> (TValue list \<times> gmatch_closure) res" where
  "gmatch_aux L f =
     (let ms = prepstate (gm_src f) (gm_pat f) in
      bindE (gmatch_loop ms (gm_pos f)) (\<lambda>r.
      case r of
        Some (src, e, cs) \<Rightarrow>
          let newstart = (if e = src then e + 1 else e); f = f\<lparr>gm_pos := newstart\<rparr> in
          bindE (push_captures L ms cs (Some (src, e))) (\<lambda>vs. Inr (vs, f))
      | None \<Rightarrow> Inr ([], f)))"

definition gmatch :: "lua_State \<Rightarrow> gmatch_closure res" where
  "gmatch L =
     bindE (luaL_checklstring L 1) (\<lambda>s.
     bindE (luaL_checklstring L 2) (\<lambda>p.
     Inr \<lparr>gm_src = s, gm_pat = p, gm_pos = 0\<rparr>))"

section \<open>Replacing\<close>

text \<open>The loop of \<^verbatim>\<open>add_s\<close> over the replacement string.\<close>

function add_s_loop :: "MatchState \<Rightarrow> captures \<Rightarrow> bytes \<Rightarrow> nat \<Rightarrow> nat \<Rightarrow> bytes \<Rightarrow> nat \<Rightarrow> bytes res" where
  "add_s_loop ms cs b s e news i =
     (if i < length news then
        if char_at news i \<noteq> L_ESC then add_s_loop ms cs (b @ [char_at news i]) s e news (i + 1)
        else
          let i = i + 1; c = char_at news i in
          if \<not> isdigit c then
            bindE (guardE (c = L_ESC) (RuntimeError ''invalid use of '%' in replacement string'')) (\<lambda>_.
            add_s_loop ms cs (b @ [c]) s e news (i + 1))
          else if c = 48 then
            bindE (lua_pushlstring (ms_src ms) s (e - s)) (\<lambda>v. add_s_loop ms cs (luaL_addvalue b v) s e news (i + 1))
          else
            bindE (push_onecapture ms cs (unat c - 49) s e) (\<lambda>v.
            add_s_loop ms cs (luaL_addvalue b v) s e news (i + 1))
      else Inr b)"
  by pat_completeness auto
termination
  by (relation "measure (\<lambda>(ms, cs, b, s, e, news, i). length news - i)") auto

declare add_s_loop.simps [simp del]

definition add_s :: "lua_State \<Rightarrow> MatchState \<Rightarrow> captures \<Rightarrow> bytes \<Rightarrow> nat \<Rightarrow> nat \<Rightarrow> bytes res" where
  "add_s L ms cs b s e =
     (case lua_tolstring L 3 of
        None \<Rightarrow> Inl (Undefined ''no replacement string'')
      | Some news \<Rightarrow> add_s_loop ms cs b s e news 0)"

text \<open>What the VM does for the replacement: it calls the function or reads the table, which may run any code; \<open>'w\<close> is the
  state of the rest of the program.\<close>

record 'w replacer =
  call_repl :: "TValue list \<Rightarrow> 'w \<Rightarrow> (TValue \<times> 'w) res"
  gettable_repl :: "TValue \<Rightarrow> 'w \<Rightarrow> (TValue \<times> 'w) res"

definition add_value ::
  "'w replacer \<Rightarrow> lua_State \<Rightarrow> MatchState \<Rightarrow> captures \<Rightarrow> bytes \<Rightarrow> nat \<Rightarrow> nat \<Rightarrow> lua_Type \<Rightarrow> 'w \<Rightarrow> (bytes \<times> 'w) res" where
  "add_value R L ms cs b s e tr w =
     (if tr = LUA_TFUNCTION \<or> tr = LUA_TTABLE then
        bindE (if tr = LUA_TFUNCTION
               then bindE (push_captures L ms cs (Some (s, e))) (\<lambda>vs. call_repl R vs w)
               else bindE (push_onecapture ms cs 0 s e) (\<lambda>v. gettable_repl R v w)) (\<lambda>(v, w).
        bindE (if l_isfalse v then lua_pushlstring (ms_src ms) s (e - s)
               else bindE (guardE (ttype v = LUA_TSTRING \<or> ttype v = LUA_TNUMBER)
                 (RuntimeError (''invalid replacement value (a '' @ luaT_typename (ttype v) @ '')''))) (\<lambda>_. Inr v)) (\<lambda>v.
        Inr (luaL_addvalue b v, w)))
      else bindE (add_s L ms cs b s e) (\<lambda>b. Inr (b, w)))"

text \<open>The loop of \<^verbatim>\<open>str_gsub\<close>; the result is the position in the subject, the count, the buffer and the rest of the program.\<close>

function gsub_loop ::
  "'w replacer \<Rightarrow> lua_State \<Rightarrow> MatchState \<Rightarrow> lua_Type \<Rightarrow> bool \<Rightarrow> int \<Rightarrow> nat \<Rightarrow> int \<Rightarrow> bytes \<Rightarrow> 'w \<Rightarrow> (nat \<times> int \<times> bytes \<times> 'w) res" where
  "gsub_loop R L ms tr anchor max_s src n b w =
     (if n < max_s then
        bindE (start_match ms src) (\<lambda>(e, cs).
        bindE (case e of
                 Some e \<Rightarrow> bindE (add_value R L ms cs b src e tr w) (\<lambda>(b, w). Inr (n + 1, b, w))
               | None \<Rightarrow> Inr (n, b, w)) (\<lambda>(n, b, w).
        if (case e of Some e \<Rightarrow> e > src | None \<Rightarrow> False) then
          let src = the e in
          if anchor then Inr (src, n, b, w) else gsub_loop R L ms tr anchor max_s src n b w
        else if src < length (ms_src ms) then
          let b = b @ [char_at (ms_src ms) src]; src = src + 1 in
          if anchor then Inr (src, n, b, w) else gsub_loop R L ms tr anchor max_s src n b w
        else Inr (src, n, b, w)))
      else Inr (src, n, b, w))"
  by pat_completeness auto
termination
proof (relation "measure (\<lambda>(R, L, ms, tr, anchor, max_s, src, n, b, w). Suc (length (ms_src ms)) - src)", goal_cases)
  case (2 R L ms tr anchor max_s src)
  then show ?case using match_end [of ms LUAI_MAXCCALLS] 
    by (fastforce simp: start_match_def end_bounded_def split: option.splits)
qed auto

declare gsub_loop.simps [simp del]

definition str_gsub :: "'w replacer \<Rightarrow> lua_State \<Rightarrow> 'w \<Rightarrow> (TValue list \<times> 'w) res" where
  "str_gsub R L w =
     bindE (luaL_checklstring L 1) (\<lambda>src.
     bindE (luaL_checklstring L 2) (\<lambda>p.
     let tr = lua_type L 3 in
     bindE (luaL_optinteger L 4 (int_of_size (length src) + 1)) (\<lambda>max_s.
     let anchor = (char_at p 0 = 94) in
     bindE (guardE (tr = Some LUA_TNUMBER \<or> tr = Some LUA_TSTRING \<or> tr = Some LUA_TFUNCTION \<or> tr = Some LUA_TTABLE)
       (ArgError 3 ''string/function/table expected'')) (\<lambda>_.
     let p = (if anchor then drop 1 p else p); ms = prepstate src p in
     bindE (gsub_loop R L ms (the tr) anchor max_s 0 0 [] w) (\<lambda>(s, n, b, w).
     Inr ([TvString (b @ drop s src), lua_pushinteger n], w))))))"

section \<open>Plain search\<close>

lemma c_string_split:
  obtains "drop (length (c_string s)) s = []" "s = c_string s"
  | t where "drop (length (c_string s)) s = 0 # t" "s = c_string s @ 0 # t"
proof (cases "dropWhile (\<lambda>c. c \<noteq> 0) s")
  case Nil
  then have "c_string s = s" unfolding c_string_def by (metis append_Nil2 takeWhile_dropWhile_id)
  then show thesis using that(1) by simp
next
  case (Cons x t)
  then have "x = 0" using hd_dropWhile [of "\<lambda>c. c \<noteq> 0" s] by simp
  then have "s = c_string s @ 0 # t" using Cons takeWhile_dropWhile_id [of "\<lambda>c. c \<noteq> 0" s] by (simp add: c_string_def)
  moreover from this have "drop (length (c_string s)) s = 0 # t" by (metis append_eq_conv_conj)
  ultimately show thesis using that(2) by blast
qed

lemma nospecials_spec: "nospecials p pos \<longleftrightarrow> (\<forall>c \<in> set (drop pos p). c \<notin> set SPECIALS)"
proof (induction "Suc (length p) - pos" arbitrary: pos rule: less_induct)
  case less
  have zero: "0 \<notin> set SPECIALS" by (simp add: SPECIALS_def)
  show ?case
  proof (cases rule: c_string_split [of "drop pos p"])
    case 1
    then have "length (c_string (drop pos p)) = length p - pos" by (metis length_drop)
    then show ?thesis using 1(2) by (subst nospecials.simps) (auto simp: Let_def list_ex_iff)
  next
    case (2 t)
    let ?n = "pos + (length (c_string (drop pos p)) + 1)"
    have t: "t = drop ?n p"
      using 2(1) by (metis Suc_eq_plus1 add.commute add_Suc_right drop_Suc drop_drop list.sel(3) tl_drop)
    have "length (drop pos p) = length (c_string (drop pos p)) + Suc (length t)" using arg_cong [OF 2(2), of length] by simp
    then have n: "?n \<le> length p" by simp
    then have IH: "nospecials p ?n \<longleftrightarrow> (\<forall>c \<in> set t. c \<notin> set SPECIALS)" unfolding t by (intro less.hyps) auto
    have "set (drop pos p) = set (c_string (drop pos p)) \<union> insert 0 (set t)" using arg_cong [OF 2(2), of set] by simp
    then show ?thesis using n IH zero by (subst nospecials.simps) (auto simp: Let_def list_ex_iff)
  qed
qed

definition MAXSSIZE :: nat where "MAXSSIZE = 2 ^ 30"

definition occurs :: "bytes \<Rightarrow> bytes \<Rightarrow> nat \<Rightarrow> bool" where
  "occurs s t i \<longleftrightarrow> i + length t \<le> length s \<and> take (length t) (drop i s) = t"

lemma find_append: "find P (xs @ ys) = (case find P xs of None \<Rightarrow> find P ys | Some x \<Rightarrow> Some x)"
  by (induction xs) auto

lemma find_upt_skip: "a \<le> c \<Longrightarrow> c \<le> b \<Longrightarrow> (\<And>i. a \<le> i \<Longrightarrow> i < c \<Longrightarrow> \<not> P i) \<Longrightarrow> find P [a..<b] = find P [c..<b]"
proof -
  assume a: "a \<le> c" "c \<le> b" and P: "\<And>i. a \<le> i \<Longrightarrow> i < c \<Longrightarrow> \<not> P i"
  have "[a..<b] = [a..<c] @ [c..<b]" using upt_add_eq_append [of a c "b - c"] a by simp
  moreover have "find P [a..<c] = None" using P by (simp add: find_None_iff)
  ultimately show ?thesis by (auto simp: find_append)
qed

lemma find_upt_Some: "find P [a..<b] = Some i \<longleftrightarrow> a \<le> i \<and> i < b \<and> P i \<and> (\<forall>j. a \<le> j \<and> j < i \<longrightarrow> \<not> P j)"
proof
  assume "find P [a..<b] = Some i"
  then obtain k where k: "k < b - a" "P (a + k)" "i = a + k" "\<And>j. j < k \<Longrightarrow> \<not> P (a + j)"
    by (auto simp: find_Some_iff)
  have "\<not> P j" if "a \<le> j" "j < i" for j using k(4) [of "j - a"] k(3) that by simp
  with k show "a \<le> i \<and> i < b \<and> P i \<and> (\<forall>j. a \<le> j \<and> j < i \<longrightarrow> \<not> P j)" by auto
next
  assume i: "a \<le> i \<and> i < b \<and> P i \<and> (\<forall>j. a \<le> j \<and> j < i \<longrightarrow> \<not> P j)"
  then have "find P [a..<b] = find P [i..<b]" by (intro find_upt_skip) auto
  then show "find P [a..<b] = Some i" using i by (simp add: upt_conv_Cons)
qed

lemma occurs_first: "t \<noteq> [] \<Longrightarrow> occurs s t i \<longleftrightarrow> i + length t \<le> length s \<and> char_at s i = char_at t 0 \<and> occurs s (drop 1 t) (i + 1)"
  by (cases t) (auto simp: occurs_def char_at_def Cons_nth_drop_Suc [symmetric])

lemma str_memcmp_spec: "i + length t \<le> length s \<Longrightarrow> str_memcmp s i t = Inr (occurs s t i)"
  by (simp add: str_memcmp_def occurs_def)

lemma lmemfind_loop_spec:
  "s2 \<noteq> [] \<Longrightarrow> s1 + l1 + (length s2 - 1) = length src \<Longrightarrow>
   lmemfind_loop src s2 s1 l1 = Inr (find (occurs src s2) [s1..<s1 + l1])"
proof (induction l1 arbitrary: s1 rule: less_induct)
  case (less l1)
  let ?c = "\<lambda>i. char_at src i = char_at s2 0"
  have no: "\<not> occurs src s2 i" if "\<not> ?c i" for i using that occurs_first [OF less.prems(1)] by simp
  show ?case
  proof (cases "0 < l1")
    case False
    then show ?thesis by (subst lmemfind_loop.simps) simp
  next
    case pos: True
    show ?thesis
    proof (cases "find ?c [s1..<s1 + l1]")
      case None
      then have "find (occurs src s2) [s1..<s1 + l1] = None" using no by (auto simp: find_None_iff)
      then show ?thesis using None pos by (subst lmemfind_loop.simps) simp
    next
      case (Some i)
      then have i: "s1 \<le> i" "i < s1 + l1" "?c i" "\<And>j. s1 \<le> j \<Longrightarrow> j < i \<Longrightarrow> \<not> ?c j" by (auto simp: find_upt_Some)
      have len: "i + 1 + length (drop 1 s2) \<le> length src" using less.prems i by (cases s2) auto
      have o: "occurs src s2 i \<longleftrightarrow> occurs src (drop 1 s2) (i + 1)"
        using occurs_first [OF less.prems(1), of src i] i(3) len less.prems(1) by (cases s2) auto
      show ?thesis
      proof (cases "occurs src s2 i")
        case True
        then have "find (occurs src s2) [s1..<s1 + l1] = Some i" using i no by (auto simp: find_upt_Some)
        then show ?thesis
          using pos Some True o str_memcmp_spec [OF len] by (subst lmemfind_loop.simps) (simp add: Let_def)
      next
        case False
        have l: "l1 - (i + 1 - s1) < l1" "s1 + l1 = i + 1 + (l1 - (i + 1 - s1))" using i pos by auto
        have "find (occurs src s2) [s1..<s1 + l1] = find (occurs src s2) [i + 1..<s1 + l1]"
          using i no False by (intro find_upt_skip) (auto simp: less_Suc_eq)
        also have "Inr \<dots> = lmemfind_loop src s2 (i + 1) (l1 - (i + 1 - s1))"
          using less.IH [OF l(1) less.prems(1), of "i + 1"] less.prems(2) l(2) by simp
        finally show ?thesis
          using pos Some False o str_memcmp_spec [OF len] by (subst lmemfind_loop.simps) (simp add: Let_def)
      qed
    qed
  qed
qed

lemma lmemfind_spec:
  assumes "s1 \<le> length src"
  shows "lmemfind src s1 (length src - s1) s2 = Inr (find (occurs src s2) [s1..<Suc (length src)])"
proof -
  consider (empty) "s2 = []" | (long) "s2 \<noteq> []" "length s2 > length src - s1" | (search) "s2 \<noteq> []" "length s2 \<le> length src - s1"
    by fastforce
  then show ?thesis
  proof cases
    case empty
    then have "find (occurs src s2) [s1..<Suc (length src)] = Some s1" using assms by (simp add: find_upt_Some occurs_def del: upt_Suc)
    then show ?thesis using empty by (simp add: lmemfind_def)
  next
    case long
    then have "find (occurs src s2) [s1..<Suc (length src)] = None" by (auto simp: find_None_iff occurs_def)
    then show ?thesis using long by (simp add: lmemfind_def)
  next
    case search
    define e where "e = s1 + (length src - s1 - (length s2 - 1))"
    have "s1 \<le> e" "e \<le> Suc (length src)" using search assms by (auto simp: e_def)
    then have "[s1..<Suc (length src)] = [s1..<e] @ [e..<Suc (length src)]"
      using upt_add_eq_append [of s1 e "Suc (length src) - e"] by (simp del: upt_Suc)
    moreover have "find (occurs src s2) [e..<Suc (length src)] = None"
      using search assms by (auto simp: find_None_iff occurs_def e_def simp del: upt_Suc)
    ultimately have "find (occurs src s2) [s1..<Suc (length src)] = find (occurs src s2) [s1..<e]"
      by (simp add: find_append del: upt_Suc split: option.splits)
    moreover have "lmemfind_loop src s2 s1 (length src - s1 - (length s2 - 1)) = Inr (find (occurs src s2) [s1..<e])"
      unfolding e_def by (rule lmemfind_loop_spec) (use search assms in auto)
    ultimately show ?thesis using search by (simp add: lmemfind_def)
  qed
qed

section \<open>Searching for a pattern\<close>

text \<open>The positions at which \<^verbatim>\<open>str_find_aux\<close> tries the pattern.\<close>

definition tried :: "bytes \<Rightarrow> bool \<Rightarrow> nat \<Rightarrow> nat list" where
  "tried s anchored org = (if anchored then [org] else [org..<Suc (length s)])"

lemma find_loop_spec:
  assumes "\<And>i. i \<le> length (ms_src ms) \<Longrightarrow> start_match ms i = Inr (first_success [] (f i))"
  shows "s1 \<le> length (ms_src ms) \<Longrightarrow> find_loop ms anchored s1 =
    Inr (map_option (\<lambda>i. (i, hd (f i))) (find (\<lambda>i. f i \<noteq> []) (tried (ms_src ms) anchored s1)))"
proof (induction "length (ms_src ms) - s1" arbitrary: s1 rule: less_induct)
  case less
  note m = assms [OF less.prems]
  show ?case
  proof (cases "f s1 = []")
    case False
    then obtain e cs xs where "f s1 = (e, cs) # xs" by (metis neq_Nil_conv surj_pair)
    moreover have "find (\<lambda>i. f i \<noteq> []) (tried (ms_src ms) anchored s1) = Some s1"
      using False less.prems by (auto simp: tried_def find_upt_Some simp del: upt_Suc)
    ultimately show ?thesis using m by (subst find_loop.simps) (simp add: first_success_def)
  next
    case True
    show ?thesis
    proof (cases "s1 < length (ms_src ms) \<and> \<not> anchored")
      case go: True
      have "tried (ms_src ms) anchored s1 = s1 # tried (ms_src ms) anchored (s1 + 1)"
        using go by (simp add: tried_def upt_conv_Cons del: upt_Suc)
      moreover have "find_loop ms anchored (s1 + 1) =
          Inr (map_option (\<lambda>i. (i, hd (f i))) (find (\<lambda>i. f i \<noteq> []) (tried (ms_src ms) anchored (s1 + 1))))"
        using go by (intro less.hyps) auto
      ultimately show ?thesis using m True go by (subst find_loop.simps) simp
    next
      case stop: False
      then have "find (\<lambda>i. f i \<noteq> []) (tried (ms_src ms) anchored s1) = None"
        using True less.prems by (auto simp: tried_def find_None_iff less_Suc_eq_le simp del: upt_Suc)
      then show ?thesis using m True stop by (subst find_loop.simps) auto
    qed
  qed
qed

text \<open>A capture as a Lua value: its text, or its position.\<close>

definition capture_value :: "bytes \<Rightarrow> nat \<times> int \<Rightarrow> TValue" where
  "capture_value s c = (if snd c = CAP_POSITION then lua_pushinteger (int (fst c) + 1) else TvString (take (nat (snd c)) (drop (fst c) s)))"

lemma push_onecapture_spec:
  assumes "captures_inside ms cs e" "True \<notin> set (flags cs)" "length (ms_src ms) < 2 ^ 31" "i < length cs"
  shows "push_onecapture ms cs i s t = Inr (capture_value (ms_src ms) (cs ! i))"
proof -
  obtain a l where c: "cs ! i = (a, l)" by fastforce
  have "capture_inside e (a, l)" using assms(1,4) c nth_mem by (fastforce simp: captures_inside_def)
  moreover have "l \<noteq> CAP_UNFINISHED" using assms(2,4) c flags_nth [OF assms(4)] nth_mem [of i "flags cs"] by auto
  moreover have "e \<le> length (ms_src ms)" using assms(1) by (simp add: captures_inside_def)
  ultimately show ?thesis
    using assms(3,4) c by (auto simp: push_onecapture_def capture_value_def lua_pushlstring_def int_of_size_small CAP_POSITION_def)
qed

lemma push_captures_spec:
  assumes "captures_inside ms cs e" "True \<notin> set (flags cs)" "length (ms_src ms) < 2 ^ 31" "length cs \<le> LUA_MAXCAPTURES"
    "length (base L) + LUA_MAXCAPTURES \<le> lua_checkstack_limit"
  shows "push_captures L ms cs None = Inr (map (capture_value (ms_src ms)) cs)"
    and "s \<le> e \<Longrightarrow> push_captures L ms cs (Some (s, e)) =
      Inr (if cs = [] then [TvString (take (e - s) (drop s (ms_src ms)))] else map (capture_value (ms_src ms)) cs)"
proof -
  have nth: "map (\<lambda>i. capture_value (ms_src ms) (cs ! i)) [0..<length cs] = map (capture_value (ms_src ms)) cs"
    by (rule nth_equalityI) auto
  have all: "mapE (\<lambda>i. push_onecapture ms cs i s t) [0..<length cs] = Inr (map (capture_value (ms_src ms)) cs)" for s t
    using mapE_Inr [of "[0..<length cs]" "\<lambda>i. push_onecapture ms cs i s t" "\<lambda>i. capture_value (ms_src ms) (cs ! i)"]
      push_onecapture_spec [OF assms(1-3)] nth by simp
  have st: "luaL_checkstack L (int n) m = Inr ()" if "n \<le> LUA_MAXCAPTURES" for n m
    using assms(5) that by (simp add: luaL_checkstack_def LUA_MAXCAPTURES_def lua_checkstack_limit_def)
  show "push_captures L ms cs None = Inr (map (capture_value (ms_src ms)) cs)"
    using st [OF assms(4)] all by (simp add: push_captures_def)
  show "push_captures L ms cs (Some (s, e)) =
      Inr (if cs = [] then [TvString (take (e - s) (drop s (ms_src ms)))] else map (capture_value (ms_src ms)) cs)" if "s \<le> e"
    using st [OF assms(4)] st [of 1] all assms(1) that
    by (auto simp: push_captures_def push_onecapture_def lua_pushlstring_def captures_inside_def LUA_MAXCAPTURES_def Let_def)
qed

text \<open>The pattern behind its anchor, and what \<^verbatim>\<open>string.find\<close> and \<^verbatim>\<open>string.match\<close> return.\<close>

definition unanchored :: "bytes \<Rightarrow> bytes" where
  "unanchored p = (if char_at p 0 = 94 then drop 1 p else p)"

definition found_plain :: "bytes \<Rightarrow> bytes \<Rightarrow> nat \<Rightarrow> TValue list" where
  "found_plain s p org =
     (case find (occurs s p) [org..<Suc (length s)] of
        None \<Rightarrow> [TvNil]
      | Some i \<Rightarrow> [lua_pushinteger (int i + 1), lua_pushinteger (int (i + length p))])"

definition found_pattern :: "bool \<Rightarrow> bytes \<Rightarrow> bool \<Rightarrow> item list \<Rightarrow> nat \<Rightarrow> TValue list" where
  "found_pattern is_find s anchored its org =
     (case find (\<lambda>i. successes s its [] i \<noteq> []) (tried s anchored org) of
        None \<Rightarrow> [TvNil]
      | Some i \<Rightarrow>
          let (e, cs) = hd (successes s its [] i); captures = map (capture_value s) cs
          in if is_find then [lua_pushinteger (int i + 1), lua_pushinteger (int e)] @ captures
             else if cs = [] then [TvString (take (e - i) (drop i s))]
             else captures)"

text \<open>
  C3: \<^verbatim>\<open>string.find\<close> and \<^verbatim>\<open>string.match\<close> return the leftmost match. For a pattern without syntax errors whose parentheses match
  and make at most 32 captures, whose back references name closed captures and which has fewer repetitions and parentheses than the
  200 calls the matcher may nest, strings within the limit of the VM and a stack with room for the results, the
  backtracking search returns without error: it finds the leftmost position, from the start position on (that one alone for
  an anchored pattern), at which there is any way to match the pattern, and there takes the first way in the order of preference
  (\<open>successes\<close>): its bounds, and its captures as texts or positions. When there is no way to match at any position, the
  result is nil. A plain search finds the leftmost occurrence of the text.
\<close>

theorem str_find_leftmost:
  assumes args: "luaL_checklstring L 1 = Inr s" "luaL_checklstring L 2 = Inr p" "luaL_optinteger L 3 1 = Inr init"
    and size: "length s \<le> MAXSSIZE" "length p \<le> MAXSSIZE" "length (base L) + 2 + LUA_MAXCAPTURES \<le> lua_checkstack_limit"
    and pattern: "parse (unanchored p) 0 = Inr its" "captures_fit its []" "nesting_items its < LUAI_MAXCCALLS"
  shows "str_find_aux L is_find = Inr
    (let start = max 1 (if init < 0 then init + int (length s) + 1 else init); org = nat (start - 1) in
     if start > int (length s) + 1 then [TvNil]
     else if is_find \<and> (lua_toboolean L 4 \<or> (\<forall>c \<in> set p. c \<notin> set SPECIALS)) then found_plain s p org
     else found_pattern is_find s (char_at p 0 = 94) its org)"
proof -
  define start where "start = max 1 (if init < 0 then init + int (length s) + 1 else init)"
  define org where "org = nat (start - 1)"
  let ?ms = "prepstate s (unanchored p)"
  have len: "int_of_size (length s) = int (length s)" using size(1) by (simp add: int_of_size_small MAXSSIZE_def)
  have init: "(if str_posrelat init (length s) < 1 then 1 else str_posrelat init (length s)) = start"
    unfolding str_posrelat_def len start_def by (auto simp: Let_def)
  have ns: "nospecials p 0 \<longleftrightarrow> (\<forall>c \<in> set p. c \<notin> set SPECIALS)" using nospecials_spec [of p 0] by simp
  note unf = str_find_aux_def args bindE_simps Let_def init len ns org_def [symmetric]
  show ?thesis
  proof (cases "start > int (length s) + 1")
    case True
    then show ?thesis unfolding unf start_def [symmetric] by simp
  next
    case False
    have org: "org \<le> length s" "int org = start - 1" using False by (auto simp: org_def start_def)
    show ?thesis
    proof (cases "is_find \<and> (lua_toboolean L 4 \<or> (\<forall>c \<in> set p. c \<notin> set SPECIALS))")
      case True
      have b: "i + 1 < 2 ^ 31 \<and> i + length p < 2 ^ 31" if "find (occurs s p) [org..<Suc (length s)] = Some i" for i
        using that size by (auto simp: find_upt_Some occurs_def MAXSSIZE_def simp del: upt_Suc)
      show ?thesis
        using False True b unfolding unf start_def [symmetric] lmemfind_spec [OF org(1)]
        by (auto simp: found_plain_def int_of_size_small int_of_size_small [of "Suc _"] add.commute simp del: upt_Suc split: option.splits)
    next
      case pat: False
      have ms: "ms_src ?ms = s" "ms_pat ?ms = unanchored p" by (simp_all add: prepstate_def)
      have u: "(if char_at p 0 = 94 then drop 1 p else p) = unanchored p" by (simp add: unanchored_def)
      have "start_match ?ms i = Inr (first_success [] (successes s its [] i))" if "i \<le> length s" for i
        unfolding start_match_def
        using match_finds_first_success [of ?ms its i] pattern size(1) that by (simp add: ms MAXSSIZE_def)
      note loop = find_loop_spec [of ?ms "successes s its []", unfolded ms, OF this org(1), of "char_at p 0 = 94"]
      show ?thesis
      proof (cases "find (\<lambda>i. successes s its [] i \<noteq> []) (tried s (char_at p 0 = 94) org)")
        case None
        then show ?thesis using False pat loop unfolding unf start_def [symmetric] u by (auto simp: found_pattern_def)
      next
        case (Some i)
        obtain e cs where hd: "hd (successes s its [] i) = (e, cs)" by fastforce
        have i: "i \<le> length s" "successes s its [] i \<noteq> []"
          using Some org(1) find_upt_Some [of _ org "Suc (length s)" i] by (auto simp: tried_def simp del: upt_Suc split: if_splits)
        then have "(e, cs) \<in> set (successes (ms_src ?ms) its [] i)" using hd by (metis hd_in_set ms(1))
        moreover have "captures_inside ?ms [] i" using i(1) size(1) by (simp add: captures_inside_def ms MAXSSIZE_def)
        ultimately have c: "i \<le> e" "captures_inside ?ms cs e" "True \<notin> set (flags cs)" "length cs \<le> LUA_MAXCAPTURES"
          using successes_closed [of its "[]" ?ms i e cs] pattern(2) by (auto simp: flags_def)
        have small: "length (ms_src ?ms) < 2 ^ 31" "e \<le> length s"
          using size(1) c(2) by (simp_all add: ms MAXSSIZE_def captures_inside_def)
        note p = push_captures_spec [OF c(2,3) small(1) c(4)]
        have sz: "int_of_size (i + 1) = int i + 1" "int_of_size e = int e"
          using i(1) small size(1) by (simp_all add: int_of_size_small MAXSSIZE_def)
        have r: "find_loop ?ms (char_at p 0 = 94) org = Inr (Some (i, e, cs))" using loop Some hd by simp
        show ?thesis
        proof (cases is_find)
          case True
          have "length (base (push_values L [v, w])) + LUA_MAXCAPTURES \<le> lua_checkstack_limit" for v w
            using size(3) by (simp add: push_values_def)
          from p(1) [OF this] show ?thesis
            using False pat True Some hd unfolding unf start_def [symmetric] u r
            by (auto simp: found_pattern_def sz [simplified] ms)
        next
          case nofind: False
          have "length (base L) + LUA_MAXCAPTURES \<le> lua_checkstack_limit" using size(3) by simp
          from p(2) [OF this c(1)] show ?thesis
            using False pat nofind Some hd unfolding unf start_def [symmetric] u r
            by (auto simp: found_pattern_def ms)
        qed
      qed
    qed
  qed
qed

text \<open>The pattern \<open>(%a+)=(%d+)\<close> in the string \<open>.k=12\<close>.\<close>

lemma str_find_leftmost_witness:
  "str_find_aux (call_state [TvString [46, 107, 61, 49, 50], TvString [40, 37, 97, 43, 41, 61, 40, 37, 100, 43, 41]]) True =
    Inr [lua_pushinteger 2, lua_pushinteger 5, TvString [107], TvString [49, 50]]"
proof -
  let ?s = "[46, 107, 61, 49, 50] :: bytes" and ?p = "[40, 37, 97, 43, 41, 61, 40, 37, 100, 43, 41] :: bytes"
  let ?its = "[Open, Plus (ClassOf 97), Close, Single (TheChar 61), Open, Plus (ClassOf 100), Close]"
  let ?L = "call_state [TvString ?s, TvString ?p]"
  have p: "parse (unanchored ?p) 0 = Inr ?its" by code_simp
  have fit: "captures_fit ?its []" by code_simp
  have "find (\<lambda>i. successes ?s ?its [] i \<noteq> []) (tried ?s False 0) = Some 1" by code_simp
  moreover have "hd (successes ?s ?its [] 1) = (5, [(1, 1), (3, 2)])" by code_simp
  ultimately have "found_pattern True ?s False ?its 0 = [lua_pushinteger 2, lua_pushinteger 5, TvString [107], TvString [49, 50]]"
    by (simp add: found_pattern_def capture_value_def CAP_POSITION_def)
  moreover have "luaL_checklstring ?L 1 = Inr ?s" "luaL_checklstring ?L 2 = Inr ?p" "luaL_optinteger ?L 3 1 = Inr 1"
    by (simp_all add: luaL_checklstring_def lua_tolstring_def index2addr_def call_state_def luaL_optinteger_def lua_isnoneornil_def lua_type_def)
  moreover have "lua_toboolean ?L 4 = False" by (simp add: lua_toboolean_def index2addr_def call_state_def)
  moreover have "length (base ?L) + 2 + LUA_MAXCAPTURES \<le> lua_checkstack_limit"
    by (simp add: call_state_def LUA_MAXCAPTURES_def lua_checkstack_limit_def)
  ultimately show ?thesis
    using str_find_leftmost [OF _ _ _ _ _ _ p fit, of ?L ?s 1 True]
    by (simp add: MAXSSIZE_def nesting_items_def LUAI_MAXCCALLS_def SPECIALS_def char_at_def)
qed

section \<open>Iterating and replacing\<close>

text \<open>Each call of a \<^verbatim>\<open>gmatch\<close> iterator that finds a match moves its position forward in the subject, to at most one
  behind its end, so the iteration ends.\<close>

lemma gmatch_loop_Some:
  "gmatch_loop ms src = Inr (Some (s, e, cs)) \<Longrightarrow> src \<le> s \<and> s \<le> length (ms_src ms) \<and> start_match ms s = Inr (Some e, cs)"
proof (induction "Suc (length (ms_src ms)) - src" arbitrary: src rule: less_induct)
  case less
  show ?case
  proof (cases "src \<le> length (ms_src ms)")
    case False
    then show ?thesis using less.prems by (simp add: gmatch_loop.simps)
  next
    case True
    from less.prems True obtain r cs' where r: "start_match ms src = Inr (r, cs')"
      "(case r of Some e \<Rightarrow> Inr (Some (src, e, cs')) | None \<Rightarrow> gmatch_loop ms (src + 1)) = Inr (Some (s, e, cs))"
      by (subst (asm) gmatch_loop.simps) (auto simp: bindE_Inr_iff)
    show ?thesis
    proof (cases r)
      case None
      have "Suc (length (ms_src ms)) - (src + 1) < Suc (length (ms_src ms)) - src" using True by simp
      from less.hyps [OF this] None r(2) show ?thesis by simp
    next
      case (Some x)
      then show ?thesis using r True by auto
    qed
  qed
qed

lemma gmatch_advances:
  assumes "gmatch_aux L f = Inr (vs, f')" "vs \<noteq> []" "length (gm_src f) < 2 ^ 63"
  shows "gm_src f' = gm_src f \<and> gm_pat f' = gm_pat f \<and> gm_pos f < gm_pos f' \<and> gm_pos f' \<le> length (gm_src f) + 1"
proof -
  let ?ms = "prepstate (gm_src f) (gm_pat f)"
  obtain s e cs where l: "gmatch_loop ?ms (gm_pos f) = Inr (Some (s, e, cs))"
    and f': "f' = f\<lparr>gm_pos := (if e = s then e + 1 else e)\<rparr>"
    using assms(1,2) by (auto simp: gmatch_aux_def Let_def bindE_Inr_iff split: option.splits)
  note m = gmatch_loop_Some [OF l]
  have "s \<le> e \<and> e \<le> length (gm_src f)"
    using match_memory_safe [of ?ms s] m assms(3) by (auto simp: start_match_def prepstate_def)
  with m f' show ?thesis by (auto simp: prepstate_def)
qed

text \<open>Replacing every match by itself, \<open>%0\<close>, gives the subject back, whatever the pattern is.\<close>

lemma add_s_whole:
  assumes "lua_tolstring L 3 = Some [37, 48]" "s \<le> e" "e \<le> length (ms_src ms)"
  shows "add_s L ms cs b s e = Inr (b @ take (e - s) (drop s (ms_src ms)))"
proof -
  have "add_s_loop ms cs b' s e [37, 48] (Suc (Suc 0)) = Inr b'" for b' by (subst add_s_loop.simps) simp
  then have "add_s_loop ms cs b s e [37, 48] 0 = Inr (b @ take (e - s) (drop s (ms_src ms)))"
    using assms(2,3) by (subst add_s_loop.simps)
      (simp add: char_at_def L_ESC_def isdigit_def lua_pushlstring_def luaL_addvalue_def Let_def)
  then show ?thesis using assms(1) by (simp add: add_s_def)
qed

lemma gsub_loop_identity:
  assumes "lua_tolstring L 3 = Some [37, 48]" "tr = LUA_TSTRING" "length (ms_src ms) < 2 ^ 63"
  shows "src \<le> length (ms_src ms) \<Longrightarrow> gsub_loop R L ms tr anchor max_s src n (take src (ms_src ms)) w = Inr (s', n', b', w') \<Longrightarrow>
    s' \<le> length (ms_src ms) \<and> b' = take s' (ms_src ms) \<and> w' = w"
proof (induction "length (ms_src ms) - src" arbitrary: src n rule: less_induct)
  case less
  show ?case
  proof (cases "n < max_s")
    case False
    then show ?thesis using less.prems by (subst (asm) gsub_loop.simps) auto
  next
    case True
    from less.prems(2) True obtain e cs where m: "start_match ms src = Inr (e, cs)"
      by (subst (asm) gsub_loop.simps) (auto simp: bindE_Inr_iff)
    have one: "take src (ms_src ms) @ [char_at (ms_src ms) src] = take (src + 1) (ms_src ms)" if "src < length (ms_src ms)"
      using that by (simp add: char_at_def take_Suc_conv_app_nth)
    have IH: "s' \<le> length (ms_src ms) \<and> b' = take s' (ms_src ms) \<and> w' = w"
      if "(if anchor then Inr (q, k, take q (ms_src ms), w) else gsub_loop R L ms tr anchor max_s q k (take q (ms_src ms)) w) =
          Inr (s', n', b', w')" "src < q" "q \<le> length (ms_src ms)" for q k
      using that less.hyps [of q k] by (auto split: if_splits)
    show ?thesis
    proof (cases e)
      case None
      then show ?thesis
        using less.prems True m one IH [of "src + 1" n] by (subst (asm) gsub_loop.simps) (auto simp: Let_def split: if_splits)
    next
      case (Some x)
      have x: "src \<le> x" "x \<le> length (ms_src ms)"
        using match_memory_safe [of ms src] m Some less.prems(1) assms(3) by (auto simp: start_match_def)
      have "take src (ms_src ms) @ take (x - src) (drop src (ms_src ms)) = take x (ms_src ms)"
        using x(1) by (metis le_add_diff_inverse take_add)
      then have "add_value R L ms cs (take src (ms_src ms)) src x tr w = Inr (take x (ms_src ms), w)"
        using add_s_whole [OF assms(1) x] assms(2) by (simp add: add_value_def)
      then show ?thesis
        using less.prems True m Some x one IH [of "src + 1" "n + 1"] IH [of x "n + 1"]
        by (subst (asm) gsub_loop.simps) (auto simp: Let_def split: if_splits)
    qed
  qed
qed

lemma gsub_identity:
  assumes "luaL_checklstring L 1 = Inr s" "index2addr L 3 = Some (TvString [37, 48])" "length s < 2 ^ 63"
    and "str_gsub R L w = Inr (vs, w')"
  shows "\<exists>n. vs = [TvString s, lua_pushinteger n] \<and> w' = w"
proof -
  have three: "lua_tolstring L 3 = Some [37, 48]" "lua_type L 3 = Some LUA_TSTRING"
    using assms(2) by (simp_all add: lua_tolstring_def lua_type_def)
  from assms(4) obtain anchor q max_s i n b w1 where
    r: "gsub_loop R L (prepstate s q) LUA_TSTRING anchor max_s 0 0 [] w = Inr (i, n, b, w1)"
    and vs: "vs = [TvString (b @ drop i s), lua_pushinteger n]" "w' = w1"
    unfolding str_gsub_def assms(1) bindE_simps three Let_def by (auto simp: bindE_Inr_iff)
  have "i \<le> length s \<and> b = take i s \<and> w1 = w"
    using gsub_loop_identity [OF three(1) refl, of "prepstate s q" 0 R anchor max_s 0 w i n b w1] r assms(3) by (simp add: prepstate_def)
  then have "vs = [TvString s, lua_pushinteger n] \<and> w' = w" using vs by simp
  then show ?thesis by blast
qed

end
