(* ===== verification/RawMemory.thy ===== *)
theory RawMemory
  imports LuwuPrelude
begin

text \<open>
  The containers of \<^verbatim>\<open>Common/include/Luau\<close> allocate raw storage and create, move and destroy
  the objects in it themselves. An allocation is a list of cells; a cell is \<open>None\<close> until an
  object is constructed in it and again after its destructor has run. Reading a cell with no object,
  destroying it, or touching a cell outside the allocation is undefined in C++ and an error here;
  an assertion that fails and an exception that is thrown are errors as well. Moving an object
  leaves one behind that can only be destroyed or overwritten, so its value is not tracked.
  Freeing storage that still holds objects leaks them and is an error too.
\<close>

section \<open>Cells\<close>

datatype cpp_error = AssertionFailed string | Thrown string | UndefinedAccess | UndefinedShift | UndefinedOverflow | Leak | Diverges

type_synonym 'a cpp = "cpp_error + 'a"
type_synonym 'a cells = "'a option list"

text \<open>A loop without a bound is an optional result; not returning is an error like the others.\<close>

definition terminates :: "'a cpp option \<Rightarrow> 'a cpp" where
  "terminates r = (case r of None \<Rightarrow> Inl Diverges | Some x \<Rightarrow> x)"

definition allocate :: "nat \<Rightarrow> 'a cells" where
  "allocate n = replicate n None"

definition cell_get :: "'a cells \<Rightarrow> nat \<Rightarrow> 'a cpp" where
  "cell_get cs i = (if i < length cs then case cs ! i of Some x \<Rightarrow> Inr x | None \<Rightarrow> Inl UndefinedAccess
                    else Inl UndefinedAccess)"

definition cell_new :: "'a cells \<Rightarrow> nat \<Rightarrow> 'a \<Rightarrow> 'a cells cpp" where
  "cell_new cs i x = (if i < length cs then Inr (cs[i := Some x]) else Inl UndefinedAccess)"

definition cell_destroy :: "'a cells \<Rightarrow> nat \<Rightarrow> 'a cells cpp" where
  "cell_destroy cs i = bindE (cell_get cs i) (\<lambda>_. Inr (cs[i := None]))"

text \<open>Storage that still holds objects when it is given back leaks them.\<close>

definition deallocate :: "'a cells \<Rightarrow> unit cpp" where
  "deallocate cs = guardE (\<forall>c \<in> set cs. c = None) Leak"

text \<open>The loops over a range of cells: destructors, \<^verbatim>\<open>std::uninitialized_copy\<close> and
  \<^verbatim>\<open>std::uninitialized_move\<close> from one allocation to another.\<close>

definition destroy_range :: "'a cells \<Rightarrow> nat \<Rightarrow> nat \<Rightarrow> 'a cells cpp" where
  "destroy_range cs first stop = foldE cell_destroy cs [first..<stop]"

definition uninitialized_copy :: "'a cells \<Rightarrow> nat \<Rightarrow> nat \<Rightarrow> 'a cells \<Rightarrow> nat \<Rightarrow> 'a cells cpp" where
  "uninitialized_copy src first n dst to =
     foldE (\<lambda>dst k. bindE (cell_get src (first + k)) (cell_new dst (to + k))) dst [0..<n]"


section \<open>Effect on the cells\<close>

lemma cell_get_Some [simp]: "i < length cs \<Longrightarrow> cs ! i = Some x \<Longrightarrow> cell_get cs i = Inr x"
  by (simp add: cell_get_def)

lemma cell_new_Inr [simp]: "i < length cs \<Longrightarrow> cell_new cs i x = Inr (cs[i := Some x])"
  by (simp add: cell_new_def)

lemma cell_destroy_Some [simp]: "i < length cs \<Longrightarrow> cs ! i = Some x \<Longrightarrow> cell_destroy cs i = Inr (cs[i := None])"
  by (simp add: cell_destroy_def)

lemma length_allocate [simp]: "length (allocate n) = n"
  by (simp add: allocate_def)

lemma nth_allocate [simp]: "i < n \<Longrightarrow> allocate n ! i = None"
  by (simp add: allocate_def)

lemma foldE_snoc: "foldE f r (xs @ [x]) = bindE (foldE f r xs) (\<lambda>r. f r x)"
  by (induction xs arbitrary: r) (auto simp: bindE_def split: sum.split)

lemma destroy_range_Inr:
  assumes "\<forall>i. first \<le> i \<and> i < stop \<longrightarrow> i < length cs \<and> cs ! i \<noteq> None" "first \<le> stop"
  shows "destroy_range cs first stop = Inr (map (\<lambda>i. if first \<le> i \<and> i < stop then None else cs ! i) [0..<length cs])"
  using assms(2,1)
proof (induction stop rule: nat_induct_at_least)
  case base
  show ?case by (simp add: destroy_range_def) (intro nth_equalityI, auto)
next
  case (Suc stop)
  let ?cs = "map (\<lambda>i. if first \<le> i \<and> i < stop then None else cs ! i) [0..<length cs]"
  from Suc have "destroy_range cs first (Suc stop) = cell_destroy ?cs stop"
    by (simp add: destroy_range_def foldE_snoc)
  also have "\<dots> = Inr (?cs[stop := None])" using Suc.prems Suc.hyps by (auto intro: cell_destroy_Some)
  also have "?cs[stop := None] = map (\<lambda>i. if first \<le> i \<and> i < Suc stop then None else cs ! i) [0..<length cs]"
    using Suc.hyps Suc.prems by (intro nth_equalityI) (auto simp: nth_list_update less_Suc_eq)
  finally show ?case .
qed

lemma uninitialized_copy_Inr:
  assumes "\<forall>k < n. first + k < length src \<and> src ! (first + k) \<noteq> None" "to + n \<le> length dst"
  shows "uninitialized_copy src first n dst to =
    Inr (map (\<lambda>i. if to \<le> i \<and> i < to + n then src ! (first + (i - to)) else dst ! i) [0..<length dst])"
  using assms
proof (induction n)
  case 0
  show ?case by (simp add: uninitialized_copy_def) (intro nth_equalityI, auto)
next
  case (Suc n)
  let ?dst = "map (\<lambda>i. if to \<le> i \<and> i < to + n then src ! (first + (i - to)) else dst ! i) [0..<length dst]"
  from Suc.prems obtain x where x: "src ! (first + n) = Some x" "first + n < length src" by auto
  from Suc have "uninitialized_copy src first (Suc n) dst to = bindE (cell_get src (first + n)) (cell_new ?dst (to + n))"
    by (simp add: uninitialized_copy_def foldE_snoc)
  also have "\<dots> = Inr (?dst[to + n := Some x])" using x Suc.prems by simp
  also have "?dst[to + n := Some x] =
      map (\<lambda>i. if to \<le> i \<and> i < to + Suc n then src ! (first + (i - to)) else dst ! i) [0..<length dst]"
    using x by (intro nth_equalityI) (auto simp: nth_list_update less_Suc_eq)
  finally show ?case .
qed

text \<open>Positions on a ring of \<open>n\<close> cells.\<close>

lemma mod_ring: "a < n \<Longrightarrow> k \<le> n \<Longrightarrow> (a + k) mod n = (if a + k < n then a + k else a + k - (n :: nat))"
  by (simp add: le_mod_geq)

end
