(* ===== verification/Refinement.thy ===== *)
theory Refinement
  imports LuwuPrelude
begin

text \<open>
  The contract that the containers of the development share. A container is a concrete state with
  an invariant, an abstract value, and operations that may fail; the abstract specification says
  which operations are allowed on a value and what they make of it. When every single operation
  refines its specification, sequences of operations do as well.
\<close>

fun allowed_run :: "('a \<Rightarrow> 'o \<Rightarrow> 'a) \<Rightarrow> ('a \<Rightarrow> 'o \<Rightarrow> bool) \<Rightarrow> 'a \<Rightarrow> 'o list \<Rightarrow> bool" where
  "allowed_run spec allowed a [] \<longleftrightarrow> True"
| "allowed_run spec allowed a (op # ops) \<longleftrightarrow> allowed a op \<and> allowed_run spec allowed (spec a op) ops"

locale data_refinement =
  fixes inv :: "'c \<Rightarrow> bool"
    and abs :: "'c \<Rightarrow> 'a"
    and exec :: "'c \<Rightarrow> 'o \<Rightarrow> 'e + 'c"
    and spec :: "'a \<Rightarrow> 'o \<Rightarrow> 'a"
    and allowed :: "'a \<Rightarrow> 'o \<Rightarrow> bool"
  assumes step: "inv c \<Longrightarrow> allowed (abs c) op \<Longrightarrow> \<exists>c'. exec c op = Inr c' \<and> inv c' \<and> abs c' = spec (abs c) op"
begin

lemma run:
  assumes "inv c" "allowed_run spec allowed (abs c) ops"
  shows "\<exists>c'. foldE exec c ops = Inr c' \<and> inv c' \<and> abs c' = foldl spec (abs c) ops"
  using assms
proof (induction ops arbitrary: c)
  case (Cons op ops)
  from step [OF Cons.prems(1), of op] Cons.prems(2)
  obtain c' where c': "exec c op = Inr c'" "inv c'" "abs c' = spec (abs c) op" by auto
  with Cons.IH [of c'] Cons.prems(2) show ?case by simp
qed simp

end

end
