(* ===== verification/VecDeque.thy ===== *)
theory VecDeque
  imports RawMemory Refinement
begin
text \<open>
  \<^verbatim>\<open>Common/include/Luau/VecDeque.h\<close>: a double-ended queue in a growable ring buffer. The element
  at position \<open>pos\<close> is in cell \<open>(head + pos) mod capacity\<close>; the cells outside the queue hold no
  object. \<^verbatim>\<open>sizeof(T)\<close> is a parameter.
\<close>

section \<open>State\<close>

record 'a VecDeque =
  buffer :: "'a cells"
  buffer_capacity :: nat
  head :: nat
  queue_size :: nat

definition vd_new :: "'a VecDeque" where
  "vd_new = \<lparr>buffer = [], buffer_capacity = 0, head = 0, queue_size = 0\<rparr>"

definition vd_max_size :: "nat \<Rightarrow> nat" where
  "vd_max_size sizeofT = (2 ^ 64 - 1) div sizeofT"

definition vd_is_full :: "'a VecDeque \<Rightarrow> bool" where
  "vd_is_full d \<longleftrightarrow> queue_size d = buffer_capacity d"

definition vd_empty :: "'a VecDeque \<Rightarrow> bool" where
  "vd_empty d \<longleftrightarrow> queue_size d = 0"

definition vd_is_contiguous :: "'a VecDeque \<Rightarrow> bool" where
  "vd_is_contiguous d \<longleftrightarrow> head d \<le> buffer_capacity d - queue_size d"

definition logicalToPhysical :: "'a VecDeque \<Rightarrow> nat \<Rightarrow> nat" where
  "logicalToPhysical d pos = (head d + pos) mod buffer_capacity d"

section \<open>Storage\<close>

definition head_size :: "'a VecDeque \<Rightarrow> nat" where
  "head_size d = min (queue_size d) (buffer_capacity d - head d)"

definition tail_size :: "'a VecDeque \<Rightarrow> nat" where
  "tail_size d = queue_size d - head_size d"

definition vd_destroyElements :: "'a VecDeque \<Rightarrow> 'a VecDeque cpp" where
  "vd_destroyElements d =
     bindE (destroy_range (buffer d) (head d) (head d + head_size d)) (\<lambda>b.
     bindE (destroy_range b 0 (tail_size d)) (\<lambda>b. Inr (d\<lparr>buffer := b\<rparr>)))"

text \<open>Head and tail of a queue are copied or moved to a new place, one after the other.\<close>

definition vd_transfer :: "'a VecDeque \<Rightarrow> 'a cells \<Rightarrow> nat \<Rightarrow> nat \<Rightarrow> 'a cells cpp" where
  "vd_transfer d dst head_to tail_to =
     bindE (if head_size d \<noteq> 0 then uninitialized_copy (buffer d) (head d) (head_size d) dst head_to else Inr dst) (\<lambda>dst.
       if tail_size d \<noteq> 0 then uninitialized_copy (buffer d) 0 (tail_size d) dst tail_to else Inr dst)"

definition vd_relocate :: "'a VecDeque \<Rightarrow> nat \<Rightarrow> 'a VecDeque cpp" where
  "vd_relocate d new_capacity =
     bindE (vd_transfer d (allocate new_capacity) 0 (head_size d)) (\<lambda>new_buffer.
     bindE (vd_destroyElements d) (\<lambda>d.
     bindE (deallocate (buffer d)) (\<lambda>_.
       Inr (d\<lparr>buffer := new_buffer, buffer_capacity := new_capacity, head := 0\<rparr>))))"

definition vd_grow :: "nat \<Rightarrow> 'a VecDeque \<Rightarrow> 'a VecDeque cpp" where
  "vd_grow sizeofT d =
     (let old_capacity = buffer_capacity d;
          new_capacity = (if 0 < old_capacity then (old_capacity * 3 mod 2 ^ 64) div 2 + 1 else 4)
      in if vd_max_size sizeofT < new_capacity then Inl (Thrown ''bad_array_new_length'')
         else bindE (guardE (old_capacity = queue_size d) (AssertionFailed ''old_capacity == queue_size'')) (\<lambda>_.
           vd_relocate d new_capacity))"

definition vd_reserve :: "nat \<Rightarrow> 'a VecDeque \<Rightarrow> nat \<Rightarrow> 'a VecDeque cpp" where
  "vd_reserve sizeofT d new_capacity =
     (if vd_max_size sizeofT < new_capacity then Inl (Thrown ''too large'')
      else if new_capacity \<le> buffer_capacity d then Inr d
      else vd_relocate d new_capacity)"

definition vd_shrink_to_fit :: "'a VecDeque \<Rightarrow> 'a VecDeque cpp" where
  "vd_shrink_to_fit d =
     (if buffer_capacity d = queue_size d then Inr d else vd_relocate d (queue_size d))"

section \<open>Construction and assignment\<close>

definition vd_copy :: "'a VecDeque \<Rightarrow> 'a VecDeque cpp" where
  "vd_copy other =
     bindE (vd_transfer other (allocate (buffer_capacity other)) (head other) 0) (\<lambda>b.
       Inr \<lparr>buffer = b, buffer_capacity = buffer_capacity other, head = head other, queue_size = queue_size other\<rparr>)"

definition vd_of_list :: "'a list \<Rightarrow> 'a VecDeque cpp" where
  "vd_of_list xs =
     bindE (uninitialized_copy (map Some xs) 0 (length xs) (allocate (length xs)) 0) (\<lambda>b.
       Inr \<lparr>buffer = b, buffer_capacity = length xs, head = 0, queue_size = length xs\<rparr>)"

text \<open>The move constructor: the new queue and what is left of the old one.\<close>

definition vd_move :: "'a VecDeque \<Rightarrow> 'a VecDeque \<times> 'a VecDeque" where
  "vd_move other = (other, vd_new)"

definition vd_assign :: "'a VecDeque \<Rightarrow> 'a VecDeque \<Rightarrow> 'a VecDeque cpp" where
  "vd_assign d other =
     bindE (vd_destroyElements d) (\<lambda>d.
     bindE (if buffer_capacity d < queue_size other
            then bindE (deallocate (buffer d)) (\<lambda>_.
              Inr (d\<lparr>buffer := allocate (buffer_capacity other), buffer_capacity := buffer_capacity other\<rparr>))
            else Inr d) (\<lambda>d.
     bindE (vd_transfer other (buffer d) 0 (head_size other)) (\<lambda>b.
       Inr (d\<lparr>buffer := b, head := 0, queue_size := queue_size other\<rparr>))))"

definition vd_move_assign :: "'a VecDeque \<Rightarrow> 'a VecDeque \<Rightarrow> ('a VecDeque \<times> 'a VecDeque) cpp" where
  "vd_move_assign d other =
     bindE (vd_destroyElements d) (\<lambda>d. bindE (deallocate (buffer d)) (\<lambda>_. Inr (vd_move other)))"

definition vd_destruct :: "'a VecDeque \<Rightarrow> unit cpp" where
  "vd_destruct d = bindE (vd_destroyElements d) (\<lambda>d. deallocate (buffer d))"

section \<open>Element access\<close>

definition vd_at :: "'a VecDeque \<Rightarrow> nat \<Rightarrow> 'a cpp" where
  "vd_at d pos = (if queue_size d \<le> pos then Inl (Thrown ''out_of_range'')
                  else cell_get (buffer d) (logicalToPhysical d pos))"

definition vd_index :: "'a VecDeque \<Rightarrow> nat \<Rightarrow> 'a cpp" where
  "vd_index d pos = bindE (guardE (pos < queue_size d) (AssertionFailed ''pos < queue_size'')) (\<lambda>_.
     cell_get (buffer d) (logicalToPhysical d pos))"

definition vd_front :: "'a VecDeque \<Rightarrow> 'a cpp" where
  "vd_front d = bindE (guardE (\<not> vd_empty d) (AssertionFailed ''!empty()'')) (\<lambda>_. cell_get (buffer d) (head d))"

definition vd_back :: "'a VecDeque \<Rightarrow> 'a cpp" where
  "vd_back d = bindE (guardE (\<not> vd_empty d) (AssertionFailed ''!empty()'')) (\<lambda>_.
     cell_get (buffer d) (logicalToPhysical d (queue_size d - 1)))"

section \<open>Modifiers\<close>

definition vd_clear :: "'a VecDeque \<Rightarrow> 'a VecDeque cpp" where
  "vd_clear d = bindE (vd_destroyElements d) (\<lambda>d. Inr (d\<lparr>head := 0, queue_size := 0\<rparr>))"

text \<open>
  The argument of a push is a reference: to an object outside the queue, or to the cell of one of
  its elements. It is read after the queue has grown, and then the cell is gone.
\<close>

datatype 'a elem_ref = Outside 'a | Cell nat

definition vd_make_room :: "nat \<Rightarrow> 'a VecDeque \<Rightarrow> 'a VecDeque cpp" where
  "vd_make_room sizeofT d = (if vd_is_full d then vd_grow sizeofT d else Inr d)"

definition vd_deref :: "'a VecDeque \<Rightarrow> 'a VecDeque \<Rightarrow> 'a elem_ref \<Rightarrow> 'a cpp" where
  "vd_deref before after r =
     (case r of
        Outside x \<Rightarrow> Inr x
      | Cell i \<Rightarrow> if vd_is_full before then Inl UndefinedAccess else cell_get (buffer after) i)"

definition vd_push_back :: "nat \<Rightarrow> 'a VecDeque \<Rightarrow> 'a elem_ref \<Rightarrow> 'a VecDeque cpp" where
  "vd_push_back sizeofT d0 r =
     bindE (vd_make_room sizeofT d0) (\<lambda>d.
     bindE (vd_deref d0 d r) (\<lambda>x.
     bindE (cell_new (buffer d) (logicalToPhysical d (queue_size d)) x) (\<lambda>b.
       Inr (d\<lparr>buffer := b, queue_size := queue_size d + 1\<rparr>))))"

definition vd_push_front :: "nat \<Rightarrow> 'a VecDeque \<Rightarrow> 'a elem_ref \<Rightarrow> 'a VecDeque cpp" where
  "vd_push_front sizeofT d0 r =
     bindE (vd_make_room sizeofT d0) (\<lambda>d.
     let h = (if head d = 0 then buffer_capacity d - 1 else head d - 1) in
     bindE (vd_deref d0 d r) (\<lambda>x.
     bindE (cell_new (buffer d) h x) (\<lambda>b.
       Inr (d\<lparr>buffer := b, head := h, queue_size := queue_size d + 1\<rparr>))))"

definition vd_pop_back :: "'a VecDeque \<Rightarrow> 'a VecDeque cpp" where
  "vd_pop_back d =
     bindE (guardE (\<not> vd_empty d) (AssertionFailed ''!empty()'')) (\<lambda>_.
     let d = d\<lparr>queue_size := queue_size d - 1\<rparr> in
     bindE (cell_destroy (buffer d) (logicalToPhysical d (queue_size d))) (\<lambda>b. Inr (d\<lparr>buffer := b\<rparr>)))"

definition vd_pop_front :: "'a VecDeque \<Rightarrow> 'a VecDeque cpp" where
  "vd_pop_front d =
     bindE (guardE (\<not> vd_empty d) (AssertionFailed ''!empty()'')) (\<lambda>_.
     bindE (cell_destroy (buffer d) (head d)) (\<lambda>b.
     let d = d\<lparr>buffer := b, head := head d + 1, queue_size := queue_size d - 1\<rparr> in
       Inr (if head d = buffer_capacity d then d\<lparr>head := 0\<rparr> else d)))"

section \<open>Invariant and abstraction\<close>

text \<open>A cell belongs to the queue when its distance from \<^verbatim>\<open>head\<close>, around the ring, is less than the size.\<close>

definition vd_occupied :: "'a VecDeque \<Rightarrow> nat \<Rightarrow> bool" where
  "vd_occupied d i \<longleftrightarrow>
     (if head d \<le> i then i - head d < queue_size d else i + buffer_capacity d - head d < queue_size d)"

definition vd_inv :: "'a VecDeque \<Rightarrow> bool" where
  "vd_inv d \<longleftrightarrow> length (buffer d) = buffer_capacity d \<and> queue_size d \<le> buffer_capacity d \<and>
     (if buffer_capacity d = 0 then head d = 0 else head d < buffer_capacity d) \<and>
     (\<forall>i < buffer_capacity d. buffer d ! i \<noteq> None \<longleftrightarrow> vd_occupied d i)"

definition vd_list :: "'a VecDeque \<Rightarrow> 'a list" where
  "vd_list d = map (\<lambda>pos. the (buffer d ! logicalToPhysical d pos)) [0..<queue_size d]"

section \<open>Positions\<close>

lemma vd_inv_head: "vd_inv d \<Longrightarrow> queue_size d < buffer_capacity d \<or> 0 < queue_size d \<Longrightarrow> head d < buffer_capacity d"
  by (auto simp: vd_inv_def split: if_splits)

lemma vd_inv_intro:
  assumes "length (buffer d) = buffer_capacity d" "queue_size d \<le> buffer_capacity d" "head d < buffer_capacity d"
    and "\<And>i. i < buffer_capacity d \<Longrightarrow> buffer d ! i \<noteq> None \<longleftrightarrow> vd_occupied d i"
  shows "vd_inv d"
  using assms by (simp add: vd_inv_def)

lemma l2p_eq:
  "head d < buffer_capacity d \<Longrightarrow> pos \<le> buffer_capacity d \<Longrightarrow>
   logicalToPhysical d pos = (if head d + pos < buffer_capacity d then head d + pos else head d + pos - buffer_capacity d)"
  by (simp add: logicalToPhysical_def mod_ring)

lemma occupied_l2p:
  assumes "vd_inv d" "pos < queue_size d"
  shows "logicalToPhysical d pos < length (buffer d) \<and> buffer d ! logicalToPhysical d pos = Some (vd_list d ! pos)"
proof -
  from assms have h: "head d < buffer_capacity d" "queue_size d \<le> buffer_capacity d" "length (buffer d) = buffer_capacity d"
    by (auto simp: vd_inv_def split: if_splits)
  with assms(2) have i: "logicalToPhysical d pos < buffer_capacity d" and "vd_occupied d (logicalToPhysical d pos)"
    by (auto simp: l2p_eq vd_occupied_def)
  with assms(1) have "buffer d ! logicalToPhysical d pos \<noteq> None" unfolding vd_inv_def by blast
  with i h assms(2) show ?thesis by (auto simp: vd_list_def)
qed

lemma length_vd_list [simp]: "length (vd_list d) = queue_size d"
  by (simp add: vd_list_def)

lemma vd_list_Nil [simp]: "vd_list d = [] \<longleftrightarrow> queue_size d = 0"
  by (simp add: vd_list_def)

lemma vd_list_eqI:
  assumes "length xs = queue_size d"
    and "\<And>pos. pos < queue_size d \<Longrightarrow> buffer d ! logicalToPhysical d pos = Some (xs ! pos)"
  shows "vd_list d = xs"
  using assms by (intro nth_equalityI) (auto simp: vd_list_def)

section \<open>Storage\<close>

lemma head_tail:
  assumes "vd_inv d"
  shows "head d + head_size d \<le> buffer_capacity d \<and> head_size d + tail_size d = queue_size d \<and> tail_size d \<le> head d
    \<and> (0 < tail_size d \<longrightarrow> head d + head_size d = buffer_capacity d)"
  using assms by (auto simp: vd_inv_def head_size_def tail_size_def split: if_splits)

lemma occupied_cells:
  assumes "vd_inv d" "i < buffer_capacity d"
  shows "vd_occupied d i \<longleftrightarrow> head d \<le> i \<and> i < head d + head_size d \<or> i < tail_size d"
  using head_tail [OF assms(1)] assms by (auto simp: vd_occupied_def vd_inv_def head_size_def tail_size_def split: if_splits)

lemma head_cell:
  assumes "vd_inv d" "k < head_size d"
  shows "head d + k < length (buffer d) \<and> buffer d ! (head d + k) = Some (vd_list d ! k)"
  using occupied_l2p [OF assms(1), of k] assms head_tail [OF assms(1)]
  by (auto simp: l2p_eq head_size_def vd_inv_def split: if_splits)

lemma tail_cell:
  assumes "vd_inv d" "k < tail_size d"
  shows "k < length (buffer d) \<and> buffer d ! k = Some (vd_list d ! (head_size d + k))"
proof -
  from head_tail [OF assms(1)] assms(2)
  have q: "head_size d + k < queue_size d" "head d + head_size d = buffer_capacity d" "k < head d" by auto
  moreover have "head d < buffer_capacity d" using assms q by (auto simp: vd_inv_def split: if_splits)
  ultimately have "logicalToPhysical d (head_size d + k) = k"
    using assms(1) by (subst l2p_eq) (auto simp: vd_inv_def)
  with occupied_l2p [OF assms(1) q(1)] show ?thesis by simp
qed

lemma destroyElements_Inr:
  assumes "vd_inv d"
  shows "vd_destroyElements d = Inr (d\<lparr>buffer := allocate (buffer_capacity d)\<rparr>)"
proof -
  let ?b = "map (\<lambda>i. if head d \<le> i \<and> i < head d + head_size d then None else buffer d ! i) [0..<length (buffer d)]"
  have len: "length (buffer d) = buffer_capacity d" using assms by (simp add: vd_inv_def)
  have 1: "destroy_range (buffer d) (head d) (head d + head_size d) = Inr ?b"
    using head_cell [OF assms] by (intro destroy_range_Inr) (auto simp: le_iff_add)
  have 2: "destroy_range ?b 0 (tail_size d) = Inr (allocate (buffer_capacity d))"
  proof (subst destroy_range_Inr)
    show "Inr (map (\<lambda>i. if 0 \<le> i \<and> i < tail_size d then None else ?b ! i) [0..<length ?b]) = Inr (allocate (buffer_capacity d))"
      using occupied_cells [OF assms] assms len by (auto simp: vd_inv_def intro!: nth_equalityI)
  qed (use tail_cell [OF assms] head_tail [OF assms] in auto)
  from 1 2 show ?thesis by (simp add: vd_destroyElements_def)
qed

text \<open>Head and tail, one after the other or at their old places.\<close>

lemma transfer_cells:
  assumes "vd_inv d" "ht + head_size d \<le> length dst" "tt + tail_size d \<le> length dst"
  shows "vd_transfer d dst ht tt = Inr (map (\<lambda>i.
    if tt \<le> i \<and> i < tt + tail_size d then buffer d ! (i - tt)
    else if ht \<le> i \<and> i < ht + head_size d then buffer d ! (head d + (i - ht)) else dst ! i) [0..<length dst])"
proof -
  let ?h = "map (\<lambda>i. if ht \<le> i \<and> i < ht + head_size d then buffer d ! (head d + (i - ht)) else dst ! i) [0..<length dst]"
  have 1: "uninitialized_copy (buffer d) (head d) (head_size d) dst ht = Inr ?h"
    using head_cell [OF assms(1)] assms(2) by (intro uninitialized_copy_Inr) auto
  have 2: "uninitialized_copy (buffer d) 0 (tail_size d) ?h tt = Inr (map (\<lambda>i.
    if tt \<le> i \<and> i < tt + tail_size d then buffer d ! (0 + (i - tt)) else ?h ! i) [0..<length ?h])"
    using tail_cell [OF assms(1)] assms(3) by (intro uninitialized_copy_Inr) auto
  have 3: "head_size d = 0 \<Longrightarrow> ?h = dst" by (intro nth_equalityI) auto
  have 4: "tail_size d = 0 \<Longrightarrow> map (\<lambda>i. if tt \<le> i \<and> i < tt + tail_size d then buffer d ! (0 + (i - tt)) else ?h ! i) [0..<length ?h] = ?h"
    by (intro nth_equalityI) auto
  have 5: "vd_transfer d dst ht tt = Inr (map (\<lambda>i.
    if tt \<le> i \<and> i < tt + tail_size d then buffer d ! (0 + (i - tt)) else ?h ! i) [0..<length ?h])"
    using 1 2 3 4 by (cases "head_size d = 0"; cases "tail_size d = 0") (simp_all add: vd_transfer_def del: map_eq_conv)
  show ?thesis unfolding 5 by (intro arg_cong [where f = Inr] nth_equalityI) auto
qed

lemma transfer_packed:
  assumes "vd_inv d" "queue_size d \<le> length dst"
  shows "vd_transfer d dst 0 (head_size d) = Inr (map Some (vd_list d) @ drop (queue_size d) dst)"
proof -
  note h = head_tail [OF assms(1)]
  show ?thesis
  proof (subst transfer_cells)
    show "Inr (map (\<lambda>i. if head_size d \<le> i \<and> i < head_size d + tail_size d then buffer d ! (i - head_size d)
        else if 0 \<le> i \<and> i < 0 + head_size d then buffer d ! (head d + (i - 0)) else dst ! i) [0..<length dst])
      = Inr (map Some (vd_list d) @ drop (queue_size d) dst)"
      using h assms(2) head_cell [OF assms(1)] tail_cell [OF assms(1), of "_ - head_size d"]
      by (intro arg_cong [where f = Inr] nth_equalityI) (auto simp: nth_append)
  qed (use h assms in auto)
qed

lemma transfer_in_place:
  assumes "vd_inv d"
  shows "vd_transfer d (allocate (buffer_capacity d)) (head d) 0 = Inr (buffer d)"
proof -
  note h = head_tail [OF assms]
  have len: "length (buffer d) = buffer_capacity d" using assms by (simp add: vd_inv_def)
  have free: "buffer d ! i = None" if "i < buffer_capacity d" "\<not> vd_occupied d i" for i
    using assms that by (auto simp: vd_inv_def)
  show ?thesis
  proof (subst transfer_cells)
    show "Inr (map (\<lambda>i. if 0 \<le> i \<and> i < 0 + tail_size d then buffer d ! (i - 0)
        else if head d \<le> i \<and> i < head d + head_size d then buffer d ! (head d + (i - head d))
        else allocate (buffer_capacity d) ! i) [0..<length (allocate (buffer_capacity d) :: 'a cells)]) = Inr (buffer d)"
      using len free occupied_cells [OF assms] by (intro arg_cong [where f = Inr] nth_equalityI) auto
  qed (use h assms len in \<open>auto simp: vd_inv_def split: if_splits\<close>)
qed

text \<open>A queue that starts at cell 0 of its storage.\<close>

definition packed :: "'a list \<Rightarrow> nat \<Rightarrow> 'a VecDeque" where
  "packed xs n = \<lparr>buffer = map Some xs @ allocate (n - length xs), buffer_capacity = n, head = 0, queue_size = length xs\<rparr>"

lemma packed_inv: "length xs \<le> n \<Longrightarrow> vd_inv (packed xs n)"
  by (auto simp: vd_inv_def packed_def vd_occupied_def nth_append)

lemma packed_list: "length xs \<le> n \<Longrightarrow> vd_list (packed xs n) = xs"
  by (rule vd_list_eqI) (auto simp: packed_def logicalToPhysical_def nth_append)

lemma deallocate_allocate [simp]: "deallocate (allocate n) = Inr ()"
  by (simp add: deallocate_def allocate_def)

lemma drop_allocate [simp]: "drop k (allocate n) = allocate (n - k)"
  by (simp add: allocate_def)

lemma relocate_packed:
  assumes "vd_inv d" "queue_size d \<le> n"
  shows "vd_relocate d n = Inr (packed (vd_list d) n)"
  using assms by (cases d) (simp add: vd_relocate_def transfer_packed destroyElements_Inr packed_def)

section \<open>Operations on the list\<close>

text \<open>The largest size at which the growth of the queue neither wraps nor exceeds \<^verbatim>\<open>max_size\<close>.\<close>

definition vd_limit :: "nat \<Rightarrow> nat" where
  "vd_limit sizeofT =
     (if vd_max_size sizeofT < 4 then 0
      else min ((2 ^ 64 - 1) div 3) ((vd_max_size sizeofT - 1) * 2 div 3))"

lemma make_room:
  assumes "vd_inv d" "queue_size d < vd_limit sizeofT"
  shows "\<exists>d'. vd_make_room sizeofT d = Inr d' \<and> vd_inv d' \<and> vd_list d' = vd_list d
    \<and> queue_size d' = queue_size d \<and> queue_size d' < buffer_capacity d' \<and> (\<not> vd_is_full d \<longrightarrow> d' = d)"
proof (cases "vd_is_full d")
  case True
  let ?n = "if 0 < buffer_capacity d then buffer_capacity d * 3 div 2 + 1 else 4"
  from True have q: "queue_size d = buffer_capacity d" by (simp add: vd_is_full_def)
  with assms(2) have "buffer_capacity d * 3 < 2 ^ 64" "?n \<le> vd_max_size sizeofT" "queue_size d < ?n"
    by (auto simp: vd_limit_def split: if_splits)
  then have "vd_make_room sizeofT d = vd_relocate d ?n"
    unfolding vd_make_room_def vd_grow_def Let_def using True q by (simp only: mod_less) simp
  with relocate_packed [OF assms(1)] packed_inv [of "vd_list d" ?n] packed_list [of "vd_list d" ?n] \<open>queue_size d < ?n\<close>
  show ?thesis using True by (simp add: packed_def)
next
  case False
  then show ?thesis using assms by (auto simp: vd_make_room_def vd_is_full_def vd_inv_def)
qed

lemma push_back_cell:
  assumes "vd_inv d" "queue_size d < buffer_capacity d"
  defines "i \<equiv> logicalToPhysical d (queue_size d)"
  shows "i < length (buffer d) \<and> vd_inv (d\<lparr>buffer := (buffer d)[i := Some x], queue_size := queue_size d + 1\<rparr>)
    \<and> vd_list (d\<lparr>buffer := (buffer d)[i := Some x], queue_size := queue_size d + 1\<rparr>) = vd_list d @ [x]"
proof (intro conjI)
  from assms have h: "head d < buffer_capacity d" "length (buffer d) = buffer_capacity d"
    by (auto simp: vd_inv_def split: if_splits)
  with assms(2) have i: "i = (if head d + queue_size d < buffer_capacity d then head d + queue_size d
      else head d + queue_size d - buffer_capacity d)" by (simp add: i_def l2p_eq)
  with h assms(2) show len: "i < length (buffer d)" by auto
  have occ: "buffer d ! j \<noteq> None \<longleftrightarrow> vd_occupied d j" if "j < buffer_capacity d" for j
    using assms(1) that by (simp add: vd_inv_def)
  show "vd_inv (d\<lparr>buffer := (buffer d)[i := Some x], queue_size := queue_size d + 1\<rparr>)"
    using h assms(2) occ i by (intro vd_inv_intro) (auto simp: nth_list_update vd_occupied_def)
  have old: "buffer d ! logicalToPhysical d pos = Some (vd_list d ! pos) \<and> logicalToPhysical d pos \<noteq> i" if "pos < queue_size d" for pos
    using occupied_l2p [OF assms(1) that] h i that assms(2) by (auto simp: l2p_eq split: if_splits)
  let ?d = "d\<lparr>buffer := (buffer d)[i := Some x], queue_size := queue_size d + 1\<rparr>"
  show "vd_list ?d = vd_list d @ [x]"
  proof (rule vd_list_eqI)
    fix pos assume "pos < queue_size ?d"
    moreover have "logicalToPhysical ?d pos = logicalToPhysical d pos" by (simp add: logicalToPhysical_def)
    ultimately show "buffer ?d ! logicalToPhysical ?d pos = Some ((vd_list d @ [x]) ! pos)"
      using old [of pos] len by (cases "pos = queue_size d") (auto simp: nth_append i_def)
  qed simp
qed

lemma push_front_cell:
  assumes "vd_inv d" "queue_size d < buffer_capacity d"
  defines "h \<equiv> (if head d = 0 then buffer_capacity d - 1 else head d - 1)"
  shows "h < length (buffer d) \<and> vd_inv (d\<lparr>buffer := (buffer d)[h := Some x], head := h, queue_size := queue_size d + 1\<rparr>)
    \<and> vd_list (d\<lparr>buffer := (buffer d)[h := Some x], head := h, queue_size := queue_size d + 1\<rparr>) = x # vd_list d"
proof (intro conjI)
  from assms have c: "head d < buffer_capacity d" "length (buffer d) = buffer_capacity d"
    by (auto simp: vd_inv_def split: if_splits)
  then show len: "h < length (buffer d)" by (auto simp: h_def)
  have occ: "buffer d ! j \<noteq> None \<longleftrightarrow> vd_occupied d j" if "j < buffer_capacity d" for j
    using assms(1) that by (simp add: vd_inv_def)
  let ?d = "d\<lparr>buffer := (buffer d)[h := Some x], head := h, queue_size := queue_size d + 1\<rparr>"
  have occ': "vd_occupied ?d j \<longleftrightarrow> vd_occupied d j \<or> j = h" if "j < buffer_capacity d" for j
    using c assms(2) that by (auto simp: vd_occupied_def h_def)
  show "vd_inv ?d" using c assms(2) occ occ' len by (intro vd_inv_intro) (auto simp: nth_list_update)
  have old: "buffer d ! logicalToPhysical d pos = Some (vd_list d ! pos) \<and> logicalToPhysical d pos \<noteq> h" if "pos < queue_size d" for pos
    using occupied_l2p [OF assms(1) that] c that assms(2) by (auto simp: l2p_eq h_def split: if_splits)
  have pos: "logicalToPhysical ?d (Suc pos) = logicalToPhysical d pos" if "pos < queue_size d" for pos
    using c assms(2) that len by (auto simp: l2p_eq h_def)
  show "vd_list ?d = x # vd_list d"
  proof (rule vd_list_eqI)
    fix pos assume "pos < queue_size ?d"
    then show "buffer ?d ! logicalToPhysical ?d pos = Some ((x # vd_list d) ! pos)"
      using pos [of "pos - 1"] old [of "pos - 1"] len c by (cases pos) (auto simp: l2p_eq)
  qed simp
qed

lemma push_back_list:
  assumes "vd_inv d" "queue_size d < vd_limit sizeofT"
  shows "\<exists>d'. vd_push_back sizeofT d (Outside x) = Inr d' \<and> vd_inv d' \<and> vd_list d' = vd_list d @ [x]"
proof -
  from make_room [OF assms] obtain d' where d': "vd_make_room sizeofT d = Inr d'" "vd_inv d'" "vd_list d' = vd_list d"
    "queue_size d' < buffer_capacity d'" by blast
  with push_back_cell [OF d'(2,4), of x] show ?thesis by (simp add: vd_push_back_def vd_deref_def)
qed

lemma push_front_list:
  assumes "vd_inv d" "queue_size d < vd_limit sizeofT"
  shows "\<exists>d'. vd_push_front sizeofT d (Outside x) = Inr d' \<and> vd_inv d' \<and> vd_list d' = x # vd_list d"
proof -
  from make_room [OF assms] obtain d' where d': "vd_make_room sizeofT d = Inr d'" "vd_inv d'" "vd_list d' = vd_list d"
    "queue_size d' < buffer_capacity d'" by blast
  with push_front_cell [OF d'(2,4), of x] show ?thesis by (simp add: vd_push_front_def vd_deref_def Let_def)
qed

lemma pop_back_list:
  assumes "vd_inv d" "queue_size d \<noteq> 0"
  shows "\<exists>d'. vd_pop_back d = Inr d' \<and> vd_inv d' \<and> vd_list d' = butlast (vd_list d)"
proof -
  let ?i = "logicalToPhysical d (queue_size d - 1)"
  let ?d = "d\<lparr>buffer := (buffer d)[?i := None], queue_size := queue_size d - 1\<rparr>"
  from assms have c: "head d < buffer_capacity d" "length (buffer d) = buffer_capacity d" "queue_size d \<le> buffer_capacity d"
    by (auto simp: vd_inv_def split: if_splits)
  have cell: "?i < length (buffer d)" "buffer d ! ?i = Some (vd_list d ! (queue_size d - 1))"
    using occupied_l2p [OF assms(1), of "queue_size d - 1"] assms(2) by auto
  then have "vd_pop_back d = Inr ?d" using assms(2)
    by (cases d) (simp add: vd_pop_back_def vd_empty_def Let_def logicalToPhysical_def)
  moreover have "vd_inv ?d"
    using c assms cell by (intro vd_inv_intro) (auto simp: nth_list_update l2p_eq vd_occupied_def vd_inv_def split: if_splits)
  moreover have "vd_list ?d = butlast (vd_list d)"
  proof (rule vd_list_eqI)
    fix pos assume "pos < queue_size ?d"
    then have p: "pos < queue_size d - 1" by simp
    with c assms(2) have "logicalToPhysical d pos \<noteq> ?i" by (auto simp: l2p_eq split: if_splits)
    with p occupied_l2p [OF assms(1), of pos] show "buffer ?d ! logicalToPhysical ?d pos = Some (butlast (vd_list d) ! pos)"
      by (simp add: logicalToPhysical_def nth_butlast)
  qed simp
  ultimately show ?thesis by blast
qed

lemma pop_front_list:
  assumes "vd_inv d" "queue_size d \<noteq> 0"
  shows "\<exists>d'. vd_pop_front d = Inr d' \<and> vd_inv d' \<and> vd_list d' = tl (vd_list d)"
proof -
  let ?h = "if head d + 1 = buffer_capacity d then 0 else head d + 1"
  let ?d = "d\<lparr>buffer := (buffer d)[head d := None], head := ?h, queue_size := queue_size d - 1\<rparr>"
  from assms have c: "head d < buffer_capacity d" "length (buffer d) = buffer_capacity d" "queue_size d \<le> buffer_capacity d"
    by (auto simp: vd_inv_def split: if_splits)
  have cell: "buffer d ! head d = Some (vd_list d ! 0)"
    using occupied_l2p [OF assms(1), of 0] assms(2) c by (simp add: l2p_eq)
  then have "vd_pop_front d = Inr ?d" using assms(2) c
    by (cases d) (simp add: vd_pop_front_def vd_empty_def Let_def)
  moreover have "vd_inv ?d"
    using c assms by (intro vd_inv_intro) (auto simp: nth_list_update vd_occupied_def vd_inv_def split: if_splits)
  moreover have "vd_list ?d = tl (vd_list d)"
  proof (rule vd_list_eqI)
    fix pos assume "pos < queue_size ?d"
    then have p: "Suc pos < queue_size d" by simp
    with c assms(2) have "logicalToPhysical ?d pos = logicalToPhysical d (Suc pos)" "logicalToPhysical d (Suc pos) \<noteq> head d"
      by (auto simp: l2p_eq split: if_splits)
    with p occupied_l2p [OF assms(1), of "Suc pos"] show "buffer ?d ! logicalToPhysical ?d pos = Some (tl (vd_list d) ! pos)"
      by (simp add: nth_tl)
  qed simp
  ultimately show ?thesis by blast
qed

lemma access_list:
  assumes "vd_inv d"
  shows "vd_at d pos = (if pos < length (vd_list d) then Inr (vd_list d ! pos) else Inl (Thrown ''out_of_range''))"
  using occupied_l2p [OF assms, of pos] by (auto simp: vd_at_def)

lemma front_list: "vd_inv d \<Longrightarrow> vd_list d \<noteq> [] \<Longrightarrow> vd_front d = Inr (hd (vd_list d))"
  using occupied_l2p [of d 0] length_vd_list [of d] vd_inv_head [of d]
  by (cases "queue_size d = 0") (auto simp: vd_front_def vd_empty_def l2p_eq hd_conv_nth)

lemma back_list: "vd_inv d \<Longrightarrow> vd_list d \<noteq> [] \<Longrightarrow> vd_back d = Inr (last (vd_list d))"
  using occupied_l2p [of d "queue_size d - 1"] length_vd_list [of d]
  by (cases "queue_size d = 0") (auto simp: vd_back_def vd_empty_def last_conv_nth)

lemma clear_list: "vd_inv d \<Longrightarrow> \<exists>d'. vd_clear d = Inr d' \<and> vd_inv d' \<and> vd_list d' = []"
  by (auto simp: vd_clear_def destroyElements_Inr vd_inv_def vd_occupied_def split: if_splits)

lemma reserve_list:
  "vd_inv d \<Longrightarrow> n \<le> vd_max_size sizeofT \<Longrightarrow>
   \<exists>d'. vd_reserve sizeofT d n = Inr d' \<and> vd_inv d' \<and> vd_list d' = vd_list d \<and> n \<le> buffer_capacity d'"
  using relocate_packed [of d n] packed_inv [of "vd_list d" n] packed_list [of "vd_list d" n]
  by (auto simp: vd_reserve_def vd_inv_def packed_def)

lemma shrink_list:
  assumes "vd_inv d"
  shows "\<exists>d'. vd_shrink_to_fit d = Inr d' \<and> vd_inv d' \<and> vd_list d' = vd_list d \<and> buffer_capacity d' = queue_size d'"
  using assms relocate_packed [of d "queue_size d"] packed_inv [of "vd_list d" "queue_size d"]
    packed_list [of "vd_list d" "queue_size d"]
  by (cases "buffer_capacity d = queue_size d") (simp_all add: vd_shrink_to_fit_def packed_def)

lemma copy_list: "vd_inv d \<Longrightarrow> vd_copy d = Inr d"
  using transfer_in_place [of d] by (cases d) (simp add: vd_copy_def)

lemma of_list_list: "vd_of_list xs = Inr (packed xs (length xs))"
proof -
  have "uninitialized_copy (map Some xs) 0 (length xs) (allocate (length xs)) 0 = Inr (map Some xs)"
    by (subst uninitialized_copy_Inr) (auto intro: nth_equalityI)
  then show ?thesis by (simp add: vd_of_list_def packed_def allocate_def)
qed

lemma assign_list:
  assumes "vd_inv d" "vd_inv other"
  shows "\<exists>d'. vd_assign d other = Inr d' \<and> vd_inv d' \<and> vd_list d' = vd_list other"
proof -
  let ?n = "if buffer_capacity d < queue_size other then buffer_capacity other else buffer_capacity d"
  have n: "length (vd_list other) \<le> ?n" using assms(2) by (auto simp: vd_inv_def)
  have "vd_assign d other = Inr (packed (vd_list other) ?n)"
    using assms n by (cases d) (auto simp: vd_assign_def destroyElements_Inr transfer_packed packed_def)
  with packed_inv [OF n] packed_list [OF n] show ?thesis by simp
qed

lemma destruct_clean: "vd_inv d \<Longrightarrow> vd_destruct d = Inr ()"
  by (simp add: vd_destruct_def destroyElements_Inr)

section \<open>Refinement of lists\<close>

datatype 'a deque_op =
    PushBack 'a | PushFront 'a | PopBack | PopFront | Clear | Reserve nat | ShrinkToFit | Assign "'a VecDeque"

fun vd_exec :: "nat \<Rightarrow> 'a VecDeque \<Rightarrow> 'a deque_op \<Rightarrow> 'a VecDeque cpp" where
  "vd_exec sizeofT d (PushBack x) = vd_push_back sizeofT d (Outside x)"
| "vd_exec sizeofT d (PushFront x) = vd_push_front sizeofT d (Outside x)"
| "vd_exec sizeofT d PopBack = vd_pop_back d"
| "vd_exec sizeofT d PopFront = vd_pop_front d"
| "vd_exec sizeofT d Clear = vd_clear d"
| "vd_exec sizeofT d (Reserve n) = vd_reserve sizeofT d n"
| "vd_exec sizeofT d ShrinkToFit = vd_shrink_to_fit d"
| "vd_exec sizeofT d (Assign other) = vd_assign d other"

fun deque_spec :: "'a list \<Rightarrow> 'a deque_op \<Rightarrow> 'a list" where
  "deque_spec xs (PushBack x) = xs @ [x]"
| "deque_spec xs (PushFront x) = x # xs"
| "deque_spec xs PopBack = butlast xs"
| "deque_spec xs PopFront = tl xs"
| "deque_spec xs Clear = []"
| "deque_spec xs (Assign other) = vd_list other"
| "deque_spec xs _ = xs"

text \<open>Popping needs an element, pushing a size below the limit, assignment a well-formed source.\<close>

fun deque_allowed :: "nat \<Rightarrow> 'a list \<Rightarrow> 'a deque_op \<Rightarrow> bool" where
  "deque_allowed sizeofT xs (PushBack x) \<longleftrightarrow> length xs < vd_limit sizeofT"
| "deque_allowed sizeofT xs (PushFront x) \<longleftrightarrow> length xs < vd_limit sizeofT"
| "deque_allowed sizeofT xs PopBack \<longleftrightarrow> xs \<noteq> []"
| "deque_allowed sizeofT xs PopFront \<longleftrightarrow> xs \<noteq> []"
| "deque_allowed sizeofT xs (Reserve n) \<longleftrightarrow> n \<le> vd_max_size sizeofT"
| "deque_allowed sizeofT xs (Assign other) \<longleftrightarrow> vd_inv other"
| "deque_allowed sizeofT xs _ \<longleftrightarrow> True"

interpretation vd: data_refinement vd_inv vd_list "vd_exec sizeofT" deque_spec "deque_allowed sizeofT" for sizeofT
proof
  fix d :: "'a VecDeque" and op
  assume "vd_inv d" "deque_allowed sizeofT (vd_list d) op"
  then show "\<exists>d'. vd_exec sizeofT d op = Inr d' \<and> vd_inv d' \<and> vd_list d' = deque_spec (vd_list d) op"
    using push_back_list [of d sizeofT] push_front_list [of d sizeofT] pop_back_list [of d] pop_front_list [of d]
      clear_list [of d] shrink_list [of d] assign_list [of d] reserve_list [of d _ sizeofT]
    by (cases op) (simp_all, blast+)
qed

lemma vd_new_inv: "vd_inv vd_new" "vd_list vd_new = []"
  by (simp_all add: vd_inv_def vd_new_def vd_list_def)

text \<open>
  C14: \<^verbatim>\<open>VecDeque\<close> is a double-ended queue. From an empty queue, every sequence of pushes, pops,
  \<^verbatim>\<open>clear\<close>, \<^verbatim>\<open>reserve\<close>, \<^verbatim>\<open>shrink_to_fit\<close> and assignments that pops only from non-empty
  queues and stays below the size limit runs without a failed assertion, exception or access to a cell
  without an object; afterwards the elements, \<^verbatim>\<open>at\<close>, \<^verbatim>\<open>size\<close>, \<^verbatim>\<open>front\<close> and
  \<^verbatim>\<open>back\<close> are those of the list obtained by the same sequence, and destruction leaks nothing.
\<close>

theorem vecdeque_refines_list:
  assumes "allowed_run deque_spec (deque_allowed sizeofT) [] ops"
  shows "\<exists>d. foldE (vd_exec sizeofT) vd_new ops = Inr d \<and> vd_list d = foldl deque_spec [] ops
    \<and> queue_size d = length (vd_list d)
    \<and> (\<forall>pos. vd_at d pos = (if pos < length (vd_list d) then Inr (vd_list d ! pos) else Inl (Thrown ''out_of_range'')))
    \<and> (vd_list d \<noteq> [] \<longrightarrow> vd_front d = Inr (hd (vd_list d)) \<and> vd_back d = Inr (last (vd_list d)))
    \<and> vd_destruct d = Inr ()"
proof -
  from vd.run [OF vd_new_inv(1), of sizeofT ops] assms
  obtain d where d: "foldE (vd_exec sizeofT) vd_new ops = Inr d" "vd_inv d" "vd_list d = foldl deque_spec [] ops"
    by (auto simp: vd_new_inv)
  show ?thesis
    by (intro exI [of _ d] conjI allI impI d(1,3))
      (simp_all add: access_list [OF d(2)] front_list [OF d(2)] back_list [OF d(2)] destruct_clean [OF d(2)])
qed

theorem vecdeque_refines_list_witness:
  "\<exists>d. foldE (vd_exec 8) vd_new [PushBack (1::nat), PushBack 2, PushFront 3, PopBack, PushFront 4, PushBack 5, PushBack 6] = Inr d
    \<and> vd_list d = [4, 3, 1, 5, 6]"
  using vecdeque_refines_list [of 8 "[PushBack (1::nat), PushBack 2, PushFront 3, PopBack, PushFront 4, PushBack 5, PushBack 6]"]
  by (auto simp: vd_limit_def vd_max_size_def)

text \<open>
  A reference to an element of the queue does not survive the growth of the queue: pushing an element
  of a full queue reads a cell that has been freed.
\<close>

theorem push_own_element_dangling:
  "vd_make_room sizeofT d = Inr d' \<Longrightarrow> vd_is_full d \<Longrightarrow> vd_push_back sizeofT d (Cell i) = Inl UndefinedAccess"
  by (simp add: vd_push_back_def vd_deref_def)

end
