(* ===== verification/Probing.thy ===== *)
theory Probing
  imports RawMemory Refinement
begin

text \<open>
  Open addressing, as far as the two hash tables of \<^verbatim>\<open>Common/include/Luau\<close> share it. A key
  has a sequence of buckets in which it may be stored; it is looked for along this sequence up to
  the first free bucket. The locale \<open>probing\<close> asks of the sequences that they stay inside the
  table and visit all of it; the lookup and insertion lemmas are proved once in it, for the quadratic
  probing of \<^verbatim>\<open>DenseHash.h\<close> and the linear probing of \<^verbatim>\<open>DenseHash2.h\<close>.

  The slots of a table are a function from buckets to the key stored there, if any.
\<close>

section \<open>Slots\<close>

definition unique_keys :: "nat \<Rightarrow> (nat \<Rightarrow> 'k option) \<Rightarrow> bool" where
  "unique_keys cap slot \<longleftrightarrow>
     (\<forall>i < cap. \<forall>j < cap. slot i \<noteq> None \<and> slot i = slot j \<longrightarrow> i = j)"

definition reachable_keys :: "nat \<Rightarrow> ('k \<Rightarrow> nat \<Rightarrow> nat) \<Rightarrow> (nat \<Rightarrow> 'k option) \<Rightarrow> bool" where
  "reachable_keys cap seq slot \<longleftrightarrow>
     (\<forall>i < cap. \<forall>k. slot i = Some k \<longrightarrow> (\<exists>p < cap. seq k p = i \<and> (\<forall>q < p. slot (seq k q) \<noteq> None)))"

definition stops :: "(nat \<Rightarrow> 'k option) \<Rightarrow> ('k \<Rightarrow> nat \<Rightarrow> nat) \<Rightarrow> 'k \<Rightarrow> nat \<Rightarrow> bool" where
  "stops slot seq k p \<longleftrightarrow> slot (seq k p) = None \<or> slot (seq k p) = Some k"

definition probe_end :: "(nat \<Rightarrow> 'k option) \<Rightarrow> ('k \<Rightarrow> nat \<Rightarrow> nat) \<Rightarrow> 'k \<Rightarrow> nat" where
  "probe_end slot seq k = (LEAST p. stops slot seq k p)"

definition target :: "(nat \<Rightarrow> 'k option) \<Rightarrow> ('k \<Rightarrow> nat \<Rightarrow> nat) \<Rightarrow> 'k \<Rightarrow> nat" where
  "target slot seq k = seq k (probe_end slot seq k)"

lemma before_end: "q < probe_end slot seq k \<Longrightarrow> \<not> stops slot seq k q"
  by (auto simp: probe_end_def dest: not_less_Least)


section \<open>Lookup and insertion\<close>

locale probing =
  fixes cap :: nat and seq :: "'k \<Rightarrow> nat \<Rightarrow> nat"
  assumes inside: "seq k p < cap"
    and covers: "i < cap \<Longrightarrow> \<exists>p < cap. seq k p = i"
begin

lemma stop_exists:
  assumes "i < cap" "slot i = None"
  shows "\<exists>p < cap. stops slot seq k p"
  using covers [OF assms(1), of k] assms(2) by (auto simp: stops_def)

lemma end_stops:
  assumes "i < cap" "slot i = None"
  shows "probe_end slot seq k < cap" "stops slot seq k (probe_end slot seq k)"
proof -
  from stop_exists [where slot = slot, OF assms] obtain p where p: "p < cap" "stops slot seq k p" by blast
  from p(2) show "stops slot seq k (probe_end slot seq k)" unfolding probe_end_def by (rule LeastI)
  from p Least_le [of "stops slot seq k" p] show "probe_end slot seq k < cap" by (simp add: probe_end_def)
qed

lemma target_present:
  assumes "reachable_keys cap seq slot" "unique_keys cap slot" "i < cap" "slot i = Some k"
  shows "target slot seq k = i" "probe_end slot seq k < cap"
proof -
  from assms(1,3,4) obtain p where p: "p < cap" "seq k p = i" "\<forall>q < p. slot (seq k q) \<noteq> None"
    unfolding reachable_keys_def by blast
  have st: "stops slot seq k p" using p assms(4) by (simp add: stops_def)
  then have le: "probe_end slot seq k \<le> p" unfolding probe_end_def by (rule Least_le)
  then show "probe_end slot seq k < cap" using p(1) by simp
  have "stops slot seq k (probe_end slot seq k)" unfolding probe_end_def using st by (rule LeastI)
  then have "slot (target slot seq k) = Some k"
    using le p(2,3) assms(4) by (cases "probe_end slot seq k = p") (auto simp: stops_def target_def)
  then show "target slot seq k = i"
    using assms(2,3,4) inside unfolding unique_keys_def target_def by (metis option.distinct(1))
qed

lemma target_absent:
  assumes "\<forall>i < cap. slot i \<noteq> Some k" "i < cap" "slot i = None"
  shows "slot (target slot seq k) = None" "target slot seq k < cap"
  using end_stops [OF assms(2), of slot k] assms inside by (auto simp: stops_def target_def)

lemma insert_unique:
  assumes "unique_keys cap slot" "\<forall>i < cap. slot i \<noteq> Some k"
  shows "unique_keys cap (slot(b := Some k))"
  using assms by (auto simp: unique_keys_def)

lemma insert_reachable:
  assumes "reachable_keys cap seq slot" "\<forall>i < cap. slot i \<noteq> Some k" "i < cap" "slot i = None"
  shows "reachable_keys cap seq (slot(target slot seq k := Some k))"
  unfolding reachable_keys_def
proof (intro allI impI)
  fix j k'
  let ?slot = "slot(target slot seq k := Some k)"
  assume j: "j < cap" "?slot j = Some k'"
  have grows: "slot b \<noteq> None \<Longrightarrow> ?slot b \<noteq> None" for b by simp
  show "\<exists>p < cap. seq k' p = j \<and> (\<forall>q < p. ?slot (seq k' q) \<noteq> None)"
  proof (cases "j = target slot seq k")
    case True
    then have "k' = k" using j by simp
    moreover have "\<forall>q < probe_end slot seq k. slot (seq k q) \<noteq> None"
      using before_end [of _ slot seq k] by (auto simp: stops_def)
    ultimately show ?thesis
      using end_stops(1) [where slot = slot and k = k, OF assms(3,4)] True grows
      by (intro exI [of _ "probe_end slot seq k"]) (auto simp: target_def)
  next
    case False
    with j have "slot j = Some k'" by simp
    with assms(1) j(1) obtain p where "p < cap" "seq k' p = j" "\<forall>q < p. slot (seq k' q) \<noteq> None"
      unfolding reachable_keys_def by blast
    with grows show ?thesis by blast
  qed
qed

end


section \<open>The two probe sequences\<close>

definition linear_seq :: "nat \<Rightarrow> ('k \<Rightarrow> nat) \<Rightarrow> 'k \<Rightarrow> nat \<Rightarrow> nat" where
  "linear_seq n home k p = (home k + p) mod 2 ^ n"

definition quadratic_seq :: "nat \<Rightarrow> ('k \<Rightarrow> nat) \<Rightarrow> 'k \<Rightarrow> nat \<Rightarrow> nat" where
  "quadratic_seq n home k p = (home k + p * (p + 1) div 2) mod 2 ^ n"

lemma linear_inj_le:
  assumes "p \<le> q" "q < 2 ^ n" "linear_seq n home k q = linear_seq n home k p"
  shows "p = q"
proof -
  from assms have "2 ^ n dvd q - p"
    by (simp add: linear_seq_def mod_eq_dvd_iff_nat)
  with assms(1,2) show ?thesis by (auto dest: dvd_imp_le)
qed

lemma linear_inj:
  "p < 2 ^ n \<Longrightarrow> q < 2 ^ n \<Longrightarrow> linear_seq n home k p = linear_seq n home k q \<Longrightarrow> p = q"
  using linear_inj_le [of p q n home k] linear_inj_le [of q p n home k] by (cases "p \<le> q") auto

text \<open>
  Quadratic probing on a table whose size is a power of two visits every bucket: two steps with the
  same bucket differ by \<open>(q - p) * (q + p + 1) / 2\<close>, one of the factors is odd, and neither has the
  factor \<open>2 ^ (n + 1)\<close>.
\<close>

lemma triangle_diff:
  assumes "p \<le> q"
  shows "2 * (q * (q + 1) div 2 - p * (p + 1) div 2) = (q - p) * (q + p + (1 :: nat))"
proof -
  have "2 * (q * (q + 1) div 2) = q * (q + 1)" "2 * (p * (p + 1) div 2) = p * (p + 1)" by simp_all
  then have "2 * (q * (q + 1) div 2 - p * (p + 1) div 2) = q * (q + 1) - p * (p + 1)"
    by (simp only: diff_mult_distrib2)
  also have "\<dots> = (q - p) * (q + p + 1)"
    using assms by (auto simp: le_iff_add algebra_simps)
  finally show ?thesis .
qed

lemma quadratic_inj_le:
  assumes "p \<le> q" "q < 2 ^ n" "quadratic_seq n home k q = quadratic_seq n home k p"
  shows "p = q"
proof -
  have mono: "p * (p + 1) div 2 \<le> q * (q + 1) div 2"
    using assms(1) by (intro div_le_mono mult_le_mono) auto
  from assms(3) mono have "2 ^ n dvd q * (q + 1) div 2 - p * (p + 1) div 2"
    unfolding quadratic_seq_def by (subst (asm) mod_eq_dvd_iff_nat) (simp_all only: add_le_cancel_left diff_cancel)
  then have "2 * 2 ^ n dvd 2 * (q * (q + 1) div 2 - p * (p + 1) div 2)" by (rule mult_dvd_mono [OF dvd_refl])
  then have d: "2 ^ Suc n dvd (q - p) * (q + p + 1)" unfolding triangle_diff [OF assms(1)] by simp
  show ?thesis
  proof (cases "even (q - p)")
    case True
    with assms(1) have "coprime (2 ^ Suc n) (q + p + 1)" by (auto simp: le_iff_add)
    with d have "2 ^ Suc n dvd q - p" by (simp only: coprime_dvd_mult_left_iff)
    with assms(1,2) show ?thesis by (auto dest: dvd_imp_le)
  next
    case False
    then have "coprime (2 ^ Suc n) (q - p)" by simp
    with d have "2 ^ Suc n dvd q + p + 1" by (simp only: coprime_dvd_mult_right_iff)
    then have "2 * 2 ^ n \<le> q + p + 1" by (auto dest: dvd_imp_le)
    with assms(1,2) show ?thesis by auto
  qed
qed

lemma quadratic_inj:
  "p < 2 ^ n \<Longrightarrow> q < 2 ^ n \<Longrightarrow> quadratic_seq n home k p = quadratic_seq n home k q \<Longrightarrow> p = q"
  using quadratic_inj_le [of p q n home k] quadratic_inj_le [of q p n home k] by (cases "p \<le> q") auto

lemma inj_covers:
  fixes f :: "nat \<Rightarrow> nat"
  assumes "\<And>p. f p < c" "\<And>p q. p < c \<Longrightarrow> q < c \<Longrightarrow> f p = f q \<Longrightarrow> p = q" "i < c"
  shows "\<exists>p < c. f p = i"
proof -
  have "inj_on f {..<c}" using assms(2) by (auto intro: inj_onI)
  then have "f ` {..<c} = {..<c}" using assms(1) by (intro endo_inj_surj) auto
  with assms(3) show ?thesis by (metis imageE lessThan_iff)
qed

interpretation linear: probing "2 ^ n" "linear_seq n home" for n home
  by unfold_locales (simp add: linear_seq_def, rule inj_covers, simp_all add: linear_inj, simp add: linear_seq_def)

interpretation quadratic: probing "2 ^ n" "quadratic_seq n home" for n home
  by unfold_locales (simp add: quadratic_seq_def, rule inj_covers, simp_all add: quadratic_inj, simp add: quadratic_seq_def)

end
