(* ===== verification/DenseHash.thy ===== *)
theory DenseHash
  imports Probing
begin

text \<open>
  \<^verbatim>\<open>Common/include/Luau/DenseHash.h\<close>: hash table with quadratic probing in which a bucket whose
  key is \<^verbatim>\<open>empty_key\<close> is free. The template parameters \<^verbatim>\<open>Hash\<close> and \<^verbatim>\<open>ItemInterface\<close> are the
  record \<open>traits\<close>; \<^verbatim>\<open>Eq\<close> is equality, as in the default \<^verbatim>\<open>std::equal_to\<close>. All buckets
  hold constructed items, so an allocation is a plain list; an \<^verbatim>\<open>Item*\<close> is the index of its bucket. Capacities and
  counts are natural numbers: the products \<^verbatim>\<open>capacity * 2\<close>, \<^verbatim>\<open>capacity * 3\<close> and the size of the allocation wrap in
  \<^verbatim>\<open>size_t\<close> only from about \<open>2 ^ 60\<close> buckets on, which no memory holds.
\<close>

section \<open>Template parameters\<close>

record ('k, 'i) traits =
  hasher :: "'k \<Rightarrow> u64"
  getKey :: "'i \<Rightarrow> 'k"
  setKey :: "'i \<Rightarrow> 'k \<Rightarrow> 'i"
  fillItem :: "'k \<Rightarrow> 'i"

definition ItemInterfaceSet :: "('k \<Rightarrow> u64) \<Rightarrow> ('k, 'k) traits" where
  "ItemInterfaceSet h = \<lparr>hasher = h, getKey = (\<lambda>item. item), setKey = (\<lambda>item key. key), fillItem = (\<lambda>key. key)\<rparr>"

text \<open>The value-initialised \<^verbatim>\<open>Value()\<close> is a parameter.\<close>

definition ItemInterfaceMap :: "('k \<Rightarrow> u64) \<Rightarrow> 'v \<Rightarrow> ('k, 'k \<times> 'v) traits" where
  "ItemInterfaceMap h dflt =
     \<lparr>hasher = h, getKey = fst, setKey = (\<lambda>item key. (key, snd item)), fillItem = (\<lambda>key. (key, dflt))\<rparr>"

text \<open>The hash functions of \<^verbatim>\<open>HashUtil.h\<close>.\<close>

definition DenseHashPointer :: "u64 \<Rightarrow> u64" where
  "DenseHashPointer key = (let u = key * 0xbf58476d1ce4e5b9 in u XOR drop_bit 31 u)"

definition hashCombine :: "u64 \<Rightarrow> u64 \<Rightarrow> u64" where
  "hashCombine seed hash = seed XOR (hash + 0x9e3779b9 + push_bit 6 seed + drop_bit 2 seed)"

definition PairHash :: "('a \<Rightarrow> u64) \<Rightarrow> ('b \<Rightarrow> u64) \<Rightarrow> 'a \<times> 'b \<Rightarrow> u64" where
  "PairHash h1 h2 p = hashCombine (hashCombine 0 (h1 (fst p))) (h2 (snd p))"

section \<open>DenseHashTable\<close>

record ('k, 'i) DenseHashTable =
  dh_data :: "'i list"
  dh_count :: nat
  dh_empty_key :: 'k

abbreviation dh_capacity :: "('k, 'i) DenseHashTable \<Rightarrow> nat" where
  "dh_capacity t \<equiv> length (dh_data t)"

definition pow2_or_zero :: "nat \<Rightarrow> bool" where
  "pow2_or_zero n \<longleftrightarrow> n AND (n - 1) = 0"

definition dh_new :: "('k, 'i) traits \<Rightarrow> 'k \<Rightarrow> nat \<Rightarrow> ('k, 'i) DenseHashTable cpp" where
  "dh_new T empty_key buckets =
     bindE (guardE (pow2_or_zero buckets) (AssertionFailed ''buckets'')) (\<lambda>_.
       Inr \<lparr>dh_data = replicate buckets (fillItem T empty_key), dh_count = 0, dh_empty_key = empty_key\<rparr>)"

text \<open>The move constructor: the new table and what is left of the old one.\<close>

definition dh_move :: "('k, 'i) DenseHashTable \<Rightarrow> ('k, 'i) DenseHashTable \<times> ('k, 'i) DenseHashTable" where
  "dh_move other = (other, other\<lparr>dh_data := [], dh_count := 0\<rparr>)"

definition dh_destroy :: "('k, 'i) DenseHashTable \<Rightarrow> ('k, 'i) DenseHashTable" where
  "dh_destroy t = t\<lparr>dh_data := []\<rparr>"

definition dh_clear :: "('k, 'i) traits \<Rightarrow> nat \<Rightarrow> ('k, 'i) DenseHashTable \<Rightarrow> ('k, 'i) DenseHashTable" where
  "dh_clear T thresholdToDestroy t =
     (if dh_count t = 0 then t
      else (if thresholdToDestroy < dh_capacity t then dh_destroy t
            else t\<lparr>dh_data := replicate (dh_capacity t) (fillItem T (dh_empty_key t))\<rparr>)\<lparr>dh_count := 0\<rparr>)"

definition dh_bucket :: "('k, 'i) traits \<Rightarrow> ('k, 'i) DenseHashTable \<Rightarrow> 'k \<Rightarrow> nat" where
  "dh_bucket T t key = unat (hasher T key) AND (dh_capacity t - 1)"

function dh_insert_loop ::
  "('k, 'i) traits \<Rightarrow> ('k, 'i) DenseHashTable \<Rightarrow> 'k \<Rightarrow> nat \<Rightarrow> nat \<Rightarrow> (('k, 'i) DenseHashTable \<times> nat) cpp" where
  "dh_insert_loop T t key bucket probe =
     (if dh_capacity t - 1 < probe then Inl (AssertionFailed ''false'')
      else if dh_capacity t \<le> bucket then Inl UndefinedAccess
      else let probe_item = dh_data t ! bucket in
        if getKey T probe_item = dh_empty_key t
        then Inr (t\<lparr>dh_data := (dh_data t)[bucket := setKey T probe_item key], dh_count := dh_count t + 1\<rparr>, bucket)
        else if getKey T probe_item = key then Inr (t, bucket)
        else dh_insert_loop T t key ((bucket + probe + 1) AND (dh_capacity t - 1)) (probe + 1))"
  by pat_completeness auto
termination
  by (relation "measure (\<lambda>(T, t, key, bucket, probe). dh_capacity t - probe)") auto

definition dh_insert_unsafe ::
  "('k, 'i) traits \<Rightarrow> ('k, 'i) DenseHashTable \<Rightarrow> 'k \<Rightarrow> (('k, 'i) DenseHashTable \<times> nat) cpp" where
  "dh_insert_unsafe T t key =
     bindE (guardE (key \<noteq> dh_empty_key t) (AssertionFailed ''!eq(key, empty_key)'')) (\<lambda>_.
       dh_insert_loop T t key (dh_bucket T t key) 0)"

function dh_find_loop :: "('k, 'i) traits \<Rightarrow> ('k, 'i) DenseHashTable \<Rightarrow> 'k \<Rightarrow> nat \<Rightarrow> nat \<Rightarrow> nat option cpp" where
  "dh_find_loop T t key bucket probe =
     (if dh_capacity t - 1 < probe then Inl (AssertionFailed ''false'')
      else if dh_capacity t \<le> bucket then Inl UndefinedAccess
      else let probe_item = dh_data t ! bucket in
        if getKey T probe_item = key then Inr (Some bucket)
        else if getKey T probe_item = dh_empty_key t then Inr None
        else dh_find_loop T t key ((bucket + probe + 1) AND (dh_capacity t - 1)) (probe + 1))"
  by pat_completeness auto
termination
  by (relation "measure (\<lambda>(T, t, key, bucket, probe). dh_capacity t - probe)") auto

definition dh_find :: "('k, 'i) traits \<Rightarrow> ('k, 'i) DenseHashTable \<Rightarrow> 'k \<Rightarrow> nat option cpp" where
  "dh_find T t key =
     (if dh_count t = 0 then Inr None
      else if key = dh_empty_key t then Inr None
      else dh_find_loop T t key (dh_bucket T t key) 0)"

definition dh_rehash :: "('k, 'i) traits \<Rightarrow> ('k, 'i) DenseHashTable \<Rightarrow> ('k, 'i) DenseHashTable cpp" where
  "dh_rehash T t =
     bindE (dh_new T (dh_empty_key t) (if dh_capacity t = 0 then 16 else dh_capacity t * 2)) (\<lambda>newtable.
     bindE (foldE (\<lambda>newtable item.
         if getKey T item \<noteq> dh_empty_key t
         then bindE (dh_insert_unsafe T newtable (getKey T item)) (\<lambda>(newtable, i).
           Inr (newtable\<lparr>dh_data := (dh_data newtable)[i := item]\<rparr>))
         else Inr newtable) newtable (dh_data t)) (\<lambda>newtable.
     bindE (guardE (dh_count t = dh_count newtable) (AssertionFailed ''count == newtable.count'')) (\<lambda>_.
       Inr (t\<lparr>dh_data := dh_data newtable\<rparr>))))"

definition dh_rehash_if_full :: "('k, 'i) traits \<Rightarrow> ('k, 'i) DenseHashTable \<Rightarrow> 'k \<Rightarrow> ('k, 'i) DenseHashTable cpp" where
  "dh_rehash_if_full T t key =
     (if dh_capacity t * 3 div 4 \<le> dh_count t
      then bindE (dh_find T t key) (\<lambda>r. if r = None then dh_rehash T t else Inr t)
      else Inr t)"

text \<open>Iterators: an index, advanced to the next bucket that is in use.\<close>

function dh_skip :: "('k, 'i) traits \<Rightarrow> ('k, 'i) DenseHashTable \<Rightarrow> nat \<Rightarrow> nat" where
  "dh_skip T t index =
     (if index < dh_capacity t \<and> getKey T (dh_data t ! index) = dh_empty_key t then dh_skip T t (index + 1) else index)"
  by pat_completeness auto
termination
  by (relation "measure (\<lambda>(T, t, index). dh_capacity t - index)") auto

definition dh_begin :: "('k, 'i) traits \<Rightarrow> ('k, 'i) DenseHashTable \<Rightarrow> nat" where
  "dh_begin T t = dh_skip T t 0"

definition dh_end :: "('k, 'i) DenseHashTable \<Rightarrow> nat" where
  "dh_end t = dh_capacity t"

definition dh_next :: "('k, 'i) traits \<Rightarrow> ('k, 'i) DenseHashTable \<Rightarrow> nat \<Rightarrow> nat" where
  "dh_next T t index = dh_skip T t (index + 1)"

declare dh_insert_loop.simps [simp del] dh_find_loop.simps [simp del] dh_skip.simps [simp del]

lemma dh_skip_ge: "index \<le> dh_skip T t index"
  by (induction T t index rule: dh_skip.induct) (subst dh_skip.simps, auto)

text \<open>A range-based \<^verbatim>\<open>for\<close> loop visits the items from \<^verbatim>\<open>begin()\<close> to \<^verbatim>\<open>end()\<close>.\<close>

function dh_walk :: "('k, 'i) traits \<Rightarrow> ('k, 'i) DenseHashTable \<Rightarrow> nat \<Rightarrow> 'i list" where
  "dh_walk T t it = (if it < dh_end t then dh_data t ! it # dh_walk T t (dh_next T t it) else [])"
  by pat_completeness auto
termination
proof (relation "measure (\<lambda>(T, t, it). dh_capacity t - it)", goal_cases)
  case (2 T t it)
  then show ?case using dh_skip_ge [of "it + 1" T t] by (simp add: dh_next_def dh_end_def)
qed simp

declare dh_walk.simps [simp del]

definition dh_iterate :: "('k, 'i) traits \<Rightarrow> ('k, 'i) DenseHashTable \<Rightarrow> 'i list" where
  "dh_iterate T t = dh_walk T t (dh_begin T t)"

section \<open>DenseHashSet\<close>

definition dhs_insert :: "('k, 'k) traits \<Rightarrow> ('k, 'k) DenseHashTable \<Rightarrow> 'k \<Rightarrow> (('k, 'k) DenseHashTable \<times> nat) cpp" where
  "dhs_insert T t key = bindE (dh_rehash_if_full T t key) (\<lambda>t. dh_insert_unsafe T t key)"

definition dhs_contains :: "('k, 'i) traits \<Rightarrow> ('k, 'i) DenseHashTable \<Rightarrow> 'k \<Rightarrow> bool cpp" where
  "dhs_contains T t key = bindE (dh_find T t key) (\<lambda>r. Inr (r \<noteq> None))"

fun dhs_all_in :: "('k, 'k) traits \<Rightarrow> ('k, 'k) DenseHashTable \<Rightarrow> 'k list \<Rightarrow> bool cpp" where
  "dhs_all_in T other [] = Inr True"
| "dhs_all_in T other (k # ks) = bindE (dhs_contains T other k) (\<lambda>b. if \<not> b then Inr False else dhs_all_in T other ks)"

definition dhs_eq :: "('k, 'k) traits \<Rightarrow> ('k, 'k) DenseHashTable \<Rightarrow> ('k, 'k) DenseHashTable \<Rightarrow> bool cpp" where
  "dhs_eq T s other = (if dh_count s \<noteq> dh_count other then Inr False else dhs_all_in T other (dh_iterate T s))"

section \<open>DenseHashMap\<close>

text \<open>\<^verbatim>\<open>operator[]\<close> returns a reference to the value, the bucket index here; \<open>dhm_set\<close> assigns through it.\<close>

definition dhm_index ::
  "('k, 'k \<times> 'v) traits \<Rightarrow> ('k, 'k \<times> 'v) DenseHashTable \<Rightarrow> 'k \<Rightarrow> (('k, 'k \<times> 'v) DenseHashTable \<times> nat) cpp" where
  "dhm_index T t key = bindE (dh_rehash_if_full T t key) (\<lambda>t. dh_insert_unsafe T t key)"

definition set_second :: "('k \<times> 'v) list \<Rightarrow> nat \<Rightarrow> 'v \<Rightarrow> ('k \<times> 'v) list" where
  "set_second items i v = items[i := (fst (items ! i), v)]"

definition dhm_set ::
  "('k, 'k \<times> 'v) traits \<Rightarrow> ('k, 'k \<times> 'v) DenseHashTable \<Rightarrow> 'k \<Rightarrow> 'v \<Rightarrow> ('k, 'k \<times> 'v) DenseHashTable cpp" where
  "dhm_set T t key value =
     bindE (dhm_index T t key) (\<lambda>(t, i). Inr (t\<lparr>dh_data := set_second (dh_data t) i value\<rparr>))"

definition dhm_find :: "('k, 'k \<times> 'v) traits \<Rightarrow> ('k, 'k \<times> 'v) DenseHashTable \<Rightarrow> 'k \<Rightarrow> 'v option cpp" where
  "dhm_find T t key = bindE (dh_find T t key) (\<lambda>r. Inr (map_option (\<lambda>i. snd (dh_data t ! i)) r))"

definition dhm_try_insert ::
  "('k, 'k \<times> 'v) traits \<Rightarrow> ('k, 'k \<times> 'v) DenseHashTable \<Rightarrow> 'k \<Rightarrow> 'v
     \<Rightarrow> (('k, 'k \<times> 'v) DenseHashTable \<times> 'v \<times> bool) cpp" where
  "dhm_try_insert T t key value =
     bindE (dh_rehash_if_full T t key) (\<lambda>t.
     let before = dh_count t in
     bindE (dh_insert_unsafe T t key) (\<lambda>(t, slot).
     let fresh = before < dh_count t;
         t = (if fresh then t\<lparr>dh_data := set_second (dh_data t) slot value\<rparr> else t)
     in Inr (t, snd (dh_data t ! slot), fresh)))"

section \<open>Invariant and abstraction\<close>

definition dh_slot :: "('k, 'i) traits \<Rightarrow> ('k, 'i) DenseHashTable \<Rightarrow> nat \<Rightarrow> 'k option" where
  "dh_slot T t i = (let k = getKey T (dh_data t ! i) in if k = dh_empty_key t then None else Some k)"

definition dh_seq :: "('k, 'i) traits \<Rightarrow> ('k, 'i) DenseHashTable \<Rightarrow> 'k \<Rightarrow> nat \<Rightarrow> nat" where
  "dh_seq T t k p = (unat (hasher T k) + p * (p + 1) div 2) mod dh_capacity t"

definition dh_used :: "('k, 'i) traits \<Rightarrow> 'k \<Rightarrow> 'i list \<Rightarrow> 'i list" where
  "dh_used T e items = filter (\<lambda>item. getKey T item \<noteq> e) items"

definition dh_wf :: "('k, 'i) traits \<Rightarrow> ('k, 'i) DenseHashTable \<Rightarrow> bool" where
  "dh_wf T t \<longleftrightarrow> pow2_or_zero (dh_capacity t)
     \<and> dh_count t = length (dh_used T (dh_empty_key t) (dh_data t))
     \<and> unique_keys (dh_capacity t) (dh_slot T t)
     \<and> reachable_keys (dh_capacity t) (dh_seq T t) (dh_slot T t)
     \<and> (\<forall>item \<in> set (dh_data t). getKey T item = dh_empty_key t \<longrightarrow> item = fillItem T (dh_empty_key t))"

definition dh_inv :: "('k, 'i) traits \<Rightarrow> ('k, 'i) DenseHashTable \<Rightarrow> bool" where
  "dh_inv T t \<longleftrightarrow> dh_wf T t \<and> dh_count t \<le> dh_capacity t * 3 div 4"

definition dh_lookup :: "('k, 'i) traits \<Rightarrow> ('k, 'i) DenseHashTable \<Rightarrow> 'k \<Rightarrow> 'i option" where
  "dh_lookup T t = map_of (map (\<lambda>item. (getKey T item, item)) (dh_used T (dh_empty_key t) (dh_data t)))"

section \<open>Powers of two\<close>

lemma and_mask_nat: "(x :: nat) AND (2 ^ n - 1) = x mod 2 ^ n"
  using take_bit_eq_mask [of n x] by (simp only: take_bit_eq_mod mask_eq_exp_minus_1)

lemma pow2_or_zero_power [simp]: "pow2_or_zero (2 ^ n)"
  unfolding pow2_or_zero_def and_mask_nat by simp

lemma pow2_or_zero_0 [simp]: "pow2_or_zero 0"
  by (simp add: pow2_or_zero_def)

lemma pow2_or_zero_iff: "pow2_or_zero c \<longleftrightarrow> c = 0 \<or> (\<exists>n. c = 2 ^ n)"
proof
  show "pow2_or_zero c \<Longrightarrow> c = 0 \<or> (\<exists>n. c = 2 ^ n)"
  proof (induction c rule: less_induct)
    case (less c)
    show ?case
    proof (cases "c = 0 \<or> c = 1")
      case True
      then show ?thesis by (auto intro: exI [of _ 0])
    next
      case False
      have a: "c AND (c - 1) = of_bool (odd c \<and> odd (c - 1)) + 2 * ((c div 2) AND ((c - 1) div 2))"
        by (subst and_rec) simp
      from less.prems have 0: "(c div 2) AND ((c - 1) div 2) = 0" unfolding pow2_or_zero_def a by simp
      show ?thesis
      proof (cases "even c")
        case True
        with False have "(c - 1) div 2 = c div 2 - 1" by (auto elim!: evenE)
        with 0 have "pow2_or_zero (c div 2)" by (simp add: pow2_or_zero_def)
        with less.IH [of "c div 2"] False True obtain n where "c div 2 = 2 ^ n" by auto
        with True have "c = 2 ^ Suc n" by auto
        then show ?thesis by blast
      next
        case odd: False
        then have "(c - 1) div 2 = c div 2" by (auto elim!: oddE)
        with 0 have "c div 2 = 0" by simp
        with False show ?thesis by auto
      qed
    qed
  qed
qed auto

lemma pow2_16 [simp]: "pow2_or_zero 16"
  using pow2_or_zero_power [of 4] by simp

lemma pow2_double: "pow2_or_zero c \<Longrightarrow> pow2_or_zero (c * 2)"
  unfolding pow2_or_zero_iff by (metis mult_zero_left power_Suc2)

section \<open>Probing\<close>

lemma dh_slot_cap: "dh_slot T t i = None \<longleftrightarrow> getKey T (dh_data t ! i) = dh_empty_key t"
  by (simp add: dh_slot_def Let_def)

lemma dh_seq_quadratic: "dh_capacity t = 2 ^ n \<Longrightarrow> dh_seq T t = quadratic_seq n (\<lambda>k. unat (hasher T k))"
  by (intro ext) (simp add: dh_seq_def quadratic_seq_def)

lemma dh_seq_0: "dh_capacity t = 2 ^ n \<Longrightarrow> dh_bucket T t k = dh_seq T t k 0"
  using and_mask_nat [of "unat (hasher T k)" n] by (simp add: dh_bucket_def dh_seq_def)

lemma dh_seq_Suc:
  assumes "dh_capacity t = 2 ^ n"
  shows "(dh_seq T t k p + p + 1) AND (dh_capacity t - 1) = dh_seq T t k (p + 1)"
proof -
  have "(p + 1) * (p + 1 + 1) = p * (p + 1) + 2 * (p + 1)" by (simp add: algebra_simps)
  then have tri: "(p + 1) * (p + 1 + 1) div 2 = p * (p + 1) div 2 + (p + 1)" by (simp only: div_mult_self2 zero_neq_numeral)
  show ?thesis
    unfolding assms and_mask_nat dh_seq_def tri by (simp only: mod_add_left_eq add.assoc)
qed

lemma dh_seq_inside: "0 < dh_capacity t \<Longrightarrow> dh_seq T t k p < dh_capacity t"
  by (simp add: dh_seq_def)

lemma probe_goes_on:
  assumes "probe < probe_end (dh_slot T t) (dh_seq T t) key" "dh_capacity t = 2 ^ n"
    and "probe_end (dh_slot T t) (dh_seq T t) key < dh_capacity t"
  shows "(getKey T (dh_data t ! dh_seq T t key probe) = key) = False"
    "(getKey T (dh_data t ! dh_seq T t key probe) = dh_empty_key t) = False"
    "(dh_capacity t - 1 < probe) = False" "(dh_capacity t \<le> dh_seq T t key probe) = False"
  using before_end [OF assms(1)] assms dh_seq_inside [of t T key probe]
  by (auto simp: stops_def dh_slot_def Let_def split: if_splits)

lemma find_loop_ends:
  assumes "dh_capacity t = 2 ^ n" "key \<noteq> dh_empty_key t" "probe_end (dh_slot T t) (dh_seq T t) key < dh_capacity t"
    and "stops (dh_slot T t) (dh_seq T t) key (probe_end (dh_slot T t) (dh_seq T t) key)"
    and "probe \<le> probe_end (dh_slot T t) (dh_seq T t) key"
  shows "dh_find_loop T t key (dh_seq T t key probe) probe =
    Inr (if dh_slot T t (target (dh_slot T t) (dh_seq T t) key) = None then None else Some (target (dh_slot T t) (dh_seq T t) key))"
  using assms(5)
proof (induction "probe_end (dh_slot T t) (dh_seq T t) key - probe" arbitrary: probe)
  case 0
  then have "probe = probe_end (dh_slot T t) (dh_seq T t) key" by simp
  with assms(1-4) dh_seq_inside [of t T key probe] show ?case
    by (subst dh_find_loop.simps) (auto simp: stops_def dh_slot_def target_def Let_def)
next
  case (Suc d)
  then have lt: "probe < probe_end (dh_slot T t) (dh_seq T t) key" by simp
  then have "dh_find_loop T t key (dh_seq T t key probe) probe = dh_find_loop T t key (dh_seq T t key (probe + 1)) (probe + 1)"
    by (subst dh_find_loop.simps) (simp only: Let_def if_False dh_seq_Suc [OF assms(1)] probe_goes_on [OF lt assms(1,3)])
  also have "\<dots> = Inr (if dh_slot T t (target (dh_slot T t) (dh_seq T t) key) = None then None
      else Some (target (dh_slot T t) (dh_seq T t) key))"
    using Suc lt by simp
  finally show ?case .
qed

lemma insert_loop_ends:
  assumes "dh_capacity t = 2 ^ n" "key \<noteq> dh_empty_key t" "probe_end (dh_slot T t) (dh_seq T t) key < dh_capacity t"
    and "stops (dh_slot T t) (dh_seq T t) key (probe_end (dh_slot T t) (dh_seq T t) key)"
    and "probe \<le> probe_end (dh_slot T t) (dh_seq T t) key"
  defines "b \<equiv> target (dh_slot T t) (dh_seq T t) key"
  shows "dh_insert_loop T t key (dh_seq T t key probe) probe =
    Inr (if dh_slot T t b = None
         then t\<lparr>dh_data := (dh_data t)[b := setKey T (dh_data t ! b) key], dh_count := dh_count t + 1\<rparr> else t, b)"
  using assms(5)
proof (induction "probe_end (dh_slot T t) (dh_seq T t) key - probe" arbitrary: probe)
  case 0
  then have "probe = probe_end (dh_slot T t) (dh_seq T t) key" by simp
  with assms(1-4) dh_seq_inside [of t T key probe] show ?case
    by (subst dh_insert_loop.simps) (auto simp: stops_def dh_slot_def target_def Let_def b_def)
next
  case (Suc d)
  then have lt: "probe < probe_end (dh_slot T t) (dh_seq T t) key" by simp
  then have "dh_insert_loop T t key (dh_seq T t key probe) probe = dh_insert_loop T t key (dh_seq T t key (probe + 1)) (probe + 1)"
    by (subst dh_insert_loop.simps) (simp only: Let_def if_False dh_seq_Suc [OF assms(1)] probe_goes_on [OF lt assms(1,3)])
  also have "\<dots> = Inr (if dh_slot T t b = None
         then t\<lparr>dh_data := (dh_data t)[b := setKey T (dh_data t ! b) key], dh_count := dh_count t + 1\<rparr> else t, b)"
    using Suc lt by simp
  finally show ?case .
qed

section \<open>Contents\<close>

lemma distinct_used:
  assumes "\<forall>i < length xs. \<forall>j < length xs. f (xs ! i) \<noteq> e \<and> f (xs ! i) = f (xs ! j) \<longrightarrow> i = j"
  shows "distinct (map f (filter (\<lambda>x. f x \<noteq> e) xs))"
  using assms
proof (induction xs)
  case (Cons x xs)
  from Cons.prems have "\<forall>i < length xs. \<forall>j < length xs. f (xs ! i) \<noteq> e \<and> f (xs ! i) = f (xs ! j) \<longrightarrow> i = j"
    by (metis Suc_less_eq length_Cons nth_Cons_Suc old.nat.inject)
  moreover have "f x \<noteq> e \<Longrightarrow> f x \<notin> f ` set xs"
    using Cons.prems [THEN spec, of 0] by (fastforce simp: in_set_conv_nth)
  ultimately show ?case using Cons.IH by auto
qed simp

lemma unique_distinct:
  "unique_keys (dh_capacity t) (dh_slot T t) \<Longrightarrow> distinct (map (getKey T) (dh_used T (dh_empty_key t) (dh_data t)))"
  unfolding dh_used_def by (rule distinct_used) (auto simp: unique_keys_def dh_slot_def Let_def)

lemma lookup_None: "dh_lookup T t k = None \<longleftrightarrow> (\<forall>i < dh_capacity t. dh_slot T t i \<noteq> Some k)"
  by (auto simp: dh_lookup_def map_of_eq_None_iff dh_used_def dh_slot_def Let_def image_iff in_set_conv_nth)

lemma lookup_Some:
  assumes "unique_keys (dh_capacity t) (dh_slot T t)"
  shows "dh_lookup T t k = Some item \<longleftrightarrow> (\<exists>i < dh_capacity t. dh_data t ! i = item \<and> dh_slot T t i = Some k)"
  using unique_distinct [OF assms]
  by (auto simp: dh_lookup_def map_of_eq_Some_iff comp_def dh_used_def dh_slot_def Let_def image_iff in_set_conv_nth split: if_splits)

lemma lookup_empty_key: "dh_lookup T t (dh_empty_key t) = None"
  by (auto simp: lookup_None dh_slot_def Let_def)

lemma card_lookup:
  assumes "dh_wf T t"
  shows "dh_count t = card (dom (dh_lookup T t))"
proof -
  let ?us = "dh_used T (dh_empty_key t) (dh_data t)"
  have "dom (dh_lookup T t) = getKey T ` set ?us" by (simp add: dh_lookup_def dom_map_of_conv_image_fst image_image)
  moreover have "distinct (map (getKey T) ?us)" using assms unique_distinct by (auto simp: dh_wf_def)
  ultimately show ?thesis using assms by (simp add: dh_wf_def distinct_card flip: set_map)
qed

lemma free_slot:
  assumes "dh_wf T t" "dh_count t < dh_capacity t"
  obtains i where "i < dh_capacity t" "dh_slot T t i = None"
proof -
  from assms have "length (filter (\<lambda>item. getKey T item \<noteq> dh_empty_key t) (dh_data t)) \<noteq> length (dh_data t)"
    by (simp add: dh_wf_def dh_used_def)
  then obtain item where "item \<in> set (dh_data t)" "getKey T item = dh_empty_key t"
    by (metis (mono_tags, lifting) filter_True)
  then show thesis using that by (auto simp: in_set_conv_nth dh_slot_cap)
qed

lemma wf_power: "dh_wf T t \<Longrightarrow> i < dh_capacity t \<Longrightarrow> \<exists>n. dh_capacity t = 2 ^ n"
  by (auto simp: dh_wf_def pow2_or_zero_iff)

lemma slot_key: "dh_slot T t i = Some k \<Longrightarrow> k \<noteq> dh_empty_key t \<and> getKey T (dh_data t ! i) = k"
  by (auto simp: dh_slot_def Let_def split: if_splits)

lemma present_target:
  assumes "dh_wf T t" "i < dh_capacity t" "dh_slot T t i = Some k"
  shows "target (dh_slot T t) (dh_seq T t) k = i" "probe_end (dh_slot T t) (dh_seq T t) k < dh_capacity t"
    "stops (dh_slot T t) (dh_seq T t) k (probe_end (dh_slot T t) (dh_seq T t) k)"
proof -
  from wf_power [OF assms(1,2)] obtain n where n: "dh_capacity t = 2 ^ n" by blast
  note q = quadratic.target_present [of n "\<lambda>k. unat (hasher T k)", folded dh_seq_quadratic [OF n] n, of "dh_slot T t" i k]
  from q assms show t: "target (dh_slot T t) (dh_seq T t) k = i" "probe_end (dh_slot T t) (dh_seq T t) k < dh_capacity t"
    by (auto simp: dh_wf_def)
  from t(1) assms(3) show "stops (dh_slot T t) (dh_seq T t) k (probe_end (dh_slot T t) (dh_seq T t) k)"
    by (simp add: stops_def target_def)
qed

lemma absent_target:
  assumes "dh_wf T t" "dh_count t < dh_capacity t" "dh_lookup T t k = None"
  shows "dh_slot T t (target (dh_slot T t) (dh_seq T t) k) = None" "target (dh_slot T t) (dh_seq T t) k < dh_capacity t"
    "probe_end (dh_slot T t) (dh_seq T t) k < dh_capacity t"
    "stops (dh_slot T t) (dh_seq T t) k (probe_end (dh_slot T t) (dh_seq T t) k)"
    "reachable_keys (dh_capacity t) (dh_seq T t) ((dh_slot T t)(target (dh_slot T t) (dh_seq T t) k := Some k))"
    "unique_keys (dh_capacity t) ((dh_slot T t)(target (dh_slot T t) (dh_seq T t) k := Some k))"
proof -
  from free_slot [OF assms(1,2)] obtain i where i: "i < dh_capacity t" "dh_slot T t i = None" .
  from wf_power [OF assms(1) i(1)] obtain n where n: "dh_capacity t = 2 ^ n" by blast
  have a: "\<forall>i < dh_capacity t. dh_slot T t i \<noteq> Some k" using assms(3) by (simp add: lookup_None)
  note f = quadratic.target_absent [of n "dh_slot T t" k i "\<lambda>k. unat (hasher T k)", folded dh_seq_quadratic [OF n] n, OF a i]
    quadratic.end_stops [of i n "dh_slot T t" "\<lambda>k. unat (hasher T k)" k, folded dh_seq_quadratic [OF n] n, OF i]
    quadratic.insert_reachable [of n "\<lambda>k. unat (hasher T k)" "dh_slot T t" k i, folded dh_seq_quadratic [OF n] n, OF _ a i]
    quadratic.insert_unique [of n "dh_slot T t" k, folded n, OF _ a]
  from f assms(1) show "dh_slot T t (target (dh_slot T t) (dh_seq T t) k) = None" "target (dh_slot T t) (dh_seq T t) k < dh_capacity t"
    "probe_end (dh_slot T t) (dh_seq T t) k < dh_capacity t"
    "stops (dh_slot T t) (dh_seq T t) k (probe_end (dh_slot T t) (dh_seq T t) k)"
    "reachable_keys (dh_capacity t) (dh_seq T t) ((dh_slot T t)(target (dh_slot T t) (dh_seq T t) k := Some k))"
    "unique_keys (dh_capacity t) ((dh_slot T t)(target (dh_slot T t) (dh_seq T t) k := Some k))"
    by (simp_all add: dh_wf_def)
qed

section \<open>Find and insert\<close>

lemma find_present:
  assumes "dh_wf T t" "i < dh_capacity t" "dh_slot T t i = Some k"
  shows "dh_find T t k = Inr (Some i)"
proof -
  from wf_power [OF assms(1,2)] obtain n where n: "dh_capacity t = 2 ^ n" by blast
  have "dh_count t \<noteq> 0"
    using assms slot_key [OF assms(3)] by (auto simp: dh_wf_def dh_used_def filter_empty_conv)
  then show ?thesis
    using find_loop_ends [OF n _ present_target(2,3) [OF assms], of 0] present_target(1) [OF assms] slot_key [OF assms(3)] assms(3)
    by (simp add: dh_find_def dh_seq_0 [OF n])
qed

lemma find_absent:
  assumes "dh_wf T t" "dh_count t < dh_capacity t \<or> dh_count t = 0" "dh_lookup T t k = None"
  shows "dh_find T t k = Inr None"
proof (cases "dh_count t = 0 \<or> k = dh_empty_key t")
  case False
  with assms have c: "dh_count t < dh_capacity t" by blast
  then obtain n where n: "dh_capacity t = 2 ^ n" using assms(1) by (auto simp: dh_wf_def pow2_or_zero_iff)
  show ?thesis
    using find_loop_ends [OF n _ absent_target(3,4) [OF assms(1) c assms(3)], of 0] absent_target(1) [OF assms(1) c assms(3)] False
    by (simp add: dh_find_def dh_seq_0 [OF n])
qed (auto simp: dh_find_def)

lemma insert_present:
  assumes "dh_wf T t" "i < dh_capacity t" "dh_slot T t i = Some k"
  shows "dh_insert_unsafe T t k = Inr (t, i)"
proof -
  from wf_power [OF assms(1,2)] obtain n where n: "dh_capacity t = 2 ^ n" by blast
  show ?thesis
    using insert_loop_ends [OF n _ present_target(2,3) [OF assms], of 0] present_target(1) [OF assms] slot_key [OF assms(3)] assms(3)
    by (simp add: dh_insert_unsafe_def dh_seq_0 [OF n])
qed

lemma map_ext_Some: "(\<And>k v. f k = Some v \<longleftrightarrow> g k = Some v) \<Longrightarrow> f = g"
  by (rule ext) (metis not_Some_eq)

lemma filter_update:
  assumes "b < length xs"
  shows "length (filter P (xs[b := v])) + of_bool (P (xs ! b)) = length (filter P xs) + of_bool (P v)"
proof -
  have "filter P xs = filter P (take b xs) @ filter P [xs ! b] @ filter P (drop (Suc b) xs)"
    by (subst id_take_nth_drop [OF assms]) simp
  then show ?thesis by (simp add: upd_conv_take_nth_drop [OF assms])
qed

lemma length_filter_update: "b < length xs \<Longrightarrow> \<not> P (xs ! b) \<Longrightarrow> P v \<Longrightarrow> length (filter P (xs[b := v])) = Suc (length (filter P xs))"
  using filter_update [of b xs P v] by simp

lemma length_filter_same: "b < length xs \<Longrightarrow> P (xs ! b) \<Longrightarrow> P v \<Longrightarrow> length (filter P (xs[b := v])) = length (filter P xs)"
  using filter_update [of b xs P v] by simp

locale item_interface =
  fixes T :: "('k, 'i) traits"
  assumes getKey_setKey: "getKey T (setKey T item k) = k"
    and getKey_fill: "getKey T (fillItem T k) = k"
    and setKey_fill: "setKey T (fillItem T e) k = fillItem T k"
begin

lemma insert_absent:
  assumes "dh_wf T t" "dh_count t < dh_capacity t" "dh_lookup T t k = None" "k \<noteq> dh_empty_key t"
  obtains t' b where "dh_insert_unsafe T t k = Inr (t', b)" "dh_wf T t'" "b < dh_capacity t'" "dh_slot T t' b = Some k"
    "dh_lookup T t' = (dh_lookup T t)(k \<mapsto> fillItem T k)" "dh_capacity t' = dh_capacity t" "dh_count t' = dh_count t + 1"
    "dh_empty_key t' = dh_empty_key t" "dh_data t' ! b = fillItem T k"
proof -
  define b where "b = target (dh_slot T t) (dh_seq T t) k"
  define t' where "t' = t\<lparr>dh_data := (dh_data t)[b := fillItem T k], dh_count := dh_count t + 1\<rparr>"
  note a = absent_target [OF assms(1-3), folded b_def]
  from assms(1) have fill: "dh_data t ! b = fillItem T (dh_empty_key t)"
    using a(1,2) by (auto simp: dh_wf_def dh_slot_cap)
  obtain n where n: "dh_capacity t = 2 ^ n" using assms(1,2) by (auto simp: dh_wf_def pow2_or_zero_iff)
  have 1: "dh_insert_unsafe T t k = Inr (t', b)"
    using insert_loop_ends [OF n assms(4) a(3,4), of 0, folded b_def] a(1) assms(4) fill
    by (simp add: dh_insert_unsafe_def dh_seq_0 [OF n] t'_def setKey_fill)
  have slot: "dh_slot T t' = (dh_slot T t)(b := Some k)" if "b < dh_capacity t"
    using that assms(4) by (auto simp: fun_eq_iff dh_slot_def t'_def nth_list_update getKey_fill Let_def)
  have seq: "dh_seq T t' = dh_seq T t" by (intro ext) (simp add: dh_seq_def t'_def)
  have "dh_count t' = length (dh_used T (dh_empty_key t') (dh_data t'))"
    using assms(1,4) a(1,2) by (simp add: dh_wf_def dh_used_def t'_def length_filter_update getKey_fill dh_slot_cap)
  then have 2: "dh_wf T t'"
    using assms(1) a(2,5,6) slot seq
    by (auto simp: dh_wf_def t'_def getKey_fill dest!: set_update_subset_insert [THEN subsetD])
  have 3: "dh_lookup T t' = (dh_lookup T t)(k \<mapsto> fillItem T k)"
  proof (rule map_ext_Some)
    fix k' item
    have "unique_keys (dh_capacity t') (dh_slot T t')" "unique_keys (dh_capacity t) (dh_slot T t)"
      using 2 assms(1) by (auto simp: dh_wf_def)
    then show "dh_lookup T t' k' = Some item \<longleftrightarrow> ((dh_lookup T t)(k \<mapsto> fillItem T k)) k' = Some item"
      using a(1,2) assms(3) slot by (auto simp: lookup_Some lookup_None t'_def nth_list_update) (metis option.distinct(1))
  qed
  show thesis
    by (rule that [OF 1 2 _ _ 3]) (use a(2) slot in \<open>auto simp: t'_def\<close>)
qed

text \<open>An item may be replaced by one with the same key.\<close>

lemma replace_item:
  assumes "dh_wf T t" "b < dh_capacity t" "dh_slot T t b = Some k" "getKey T item = k"
  defines "t' \<equiv> t\<lparr>dh_data := (dh_data t)[b := item]\<rparr>"
  shows "dh_wf T t'" "dh_lookup T t' = (dh_lookup T t)(k \<mapsto> item)" "dh_slot T t' = dh_slot T t"
proof -
  note k = slot_key [OF assms(3)]
  show slot: "dh_slot T t' = dh_slot T t"
    using assms(2-4) by (auto simp: fun_eq_iff dh_slot_def t'_def nth_list_update Let_def split: if_splits)
  have seq: "dh_seq T t' = dh_seq T t" by (intro ext) (simp add: dh_seq_def t'_def)
  have "length (dh_used T (dh_empty_key t') (dh_data t')) = length (dh_used T (dh_empty_key t) (dh_data t))"
    using assms(2,4) k by (simp add: dh_used_def t'_def length_filter_same)
  then show wf: "dh_wf T t'"
    using assms(1,4) slot seq k by (auto simp: dh_wf_def t'_def dest!: set_update_subset_insert [THEN subsetD])
  show "dh_lookup T t' = (dh_lookup T t)(k \<mapsto> item)"
  proof (rule map_ext_Some)
    fix k' x
    have u: "unique_keys (dh_capacity t') (dh_slot T t')" "unique_keys (dh_capacity t) (dh_slot T t)"
      using wf assms(1) by (auto simp: dh_wf_def)
    have "i = b" if "i < dh_capacity t" "dh_slot T t i = Some k" for i
      using u(2) that assms(2,3) unfolding unique_keys_def by (metis option.distinct(1))
    then have only: "i < dh_capacity t \<and> dh_slot T t i = Some k \<longleftrightarrow> i = b" for i using assms(2,3) by blast
    have eq: "dh_lookup T t' k' = Some x \<longleftrightarrow> (\<exists>i < dh_capacity t. (dh_data t)[b := item] ! i = x \<and> dh_slot T t i = Some k')"
      using lookup_Some [OF u(1), of k' x] slot by (simp add: t'_def)
    show "dh_lookup T t' k' = Some x \<longleftrightarrow> ((dh_lookup T t)(k \<mapsto> item)) k' = Some x"
    proof (cases "k' = k")
      case True
      with eq have "dh_lookup T t' k' = Some x \<longleftrightarrow> (\<exists>i. i = b \<and> (dh_data t)[b := item] ! i = x)" using only by metis
      with True assms(2) show ?thesis by simp
    next
      case False
      then have "dh_slot T t i = Some k' \<Longrightarrow> i \<noteq> b" for i using assms(3) by auto
      with eq lookup_Some [OF u(2), of k' x] False show ?thesis by (metis fun_upd_other nth_list_update_neq)
    qed
  qed
qed

end

section \<open>Growth\<close>

lemma load_room: "dh_inv T t \<Longrightarrow> dh_count t < dh_capacity t \<or> dh_count t = 0"
  by (auto simp: dh_inv_def)

lemma load_double:
  assumes "0 < c" "x \<le> c * 3 div 4"
  shows "x < c * 2 * 3 div 4 \<and> x < c * (2 :: nat)"
proof -
  have 1: "x * 4 \<le> c * 3" using assms(2) by (simp add: less_eq_div_iff_mult_less_eq)
  then have 2: "x < c * 2" using assms(1) by linarith
  have "Suc x * 4 \<le> c * 2 * 3"
  proof (cases "2 \<le> c")
    case True
    with 1 show ?thesis by simp
  next
    case False
    with assms(1) have "c = 1" by simp
    with 1 show ?thesis by simp
  qed
  with 2 show ?thesis by (simp only: Suc_le_eq [symmetric] less_eq_div_iff_mult_less_eq [OF zero_less_numeral])
qed

lemma find_lookup:
  assumes "dh_inv T t"
  obtains r where "dh_find T t k = Inr r" "map_option (\<lambda>i. dh_data t ! i) r = dh_lookup T t k"
proof (cases "dh_lookup T t k")
  case None
  with find_absent [OF _ load_room [OF assms] None] assms that [of None] show thesis by (simp add: dh_inv_def)
next
  case (Some item)
  from assms have wf: "dh_wf T t" "unique_keys (dh_capacity t) (dh_slot T t)" by (auto simp: dh_inv_def dh_wf_def)
  from Some obtain i where "i < dh_capacity t" "dh_data t ! i = item" "dh_slot T t i = Some k"
    unfolding lookup_Some [OF wf(2)] by blast
  with find_present [OF wf(1)] that [of "Some i"] Some show thesis by simp
qed

context item_interface
begin

lemma new_table:
  assumes "pow2_or_zero buckets"
  obtains t where "dh_new T e buckets = Inr t" "dh_inv T t" "dh_lookup T t = Map.empty" "dh_capacity t = buckets"
    "dh_empty_key t = e" "dh_count t = 0"
proof
  let ?t = "\<lparr>dh_data = replicate buckets (fillItem T e), dh_count = 0, dh_empty_key = e\<rparr>"
  show "dh_new T e buckets = Inr ?t" using assms by (simp add: dh_new_def)
  have "dh_used T e (replicate buckets (fillItem T e)) = []" by (simp add: dh_used_def getKey_fill filter_replicate)
  with assms show "dh_inv T ?t"
    by (auto simp: dh_inv_def dh_wf_def unique_keys_def reachable_keys_def dh_slot_def getKey_fill)
  show "dh_lookup T ?t = Map.empty"
    by (auto simp: dh_lookup_def dh_used_def getKey_fill)
qed simp_all

lemma reinsert_items:
  assumes "dh_wf T t" "dh_empty_key t = e" "dh_count t + length (dh_used T e items) < dh_capacity t"
    and "distinct (map (getKey T) (dh_used T e items))" "\<forall>item \<in> set (dh_used T e items). dh_lookup T t (getKey T item) = None"
  shows "\<exists>t'. foldE (\<lambda>newtable item.
         if getKey T item \<noteq> e
         then bindE (dh_insert_unsafe T newtable (getKey T item)) (\<lambda>(newtable, i).
           Inr (newtable\<lparr>dh_data := (dh_data newtable)[i := item]\<rparr>))
         else Inr newtable) t items = Inr t' \<and> dh_wf T t' \<and> dh_capacity t' = dh_capacity t \<and> dh_empty_key t' = e
     \<and> dh_count t' = dh_count t + length (dh_used T e items)
     \<and> dh_lookup T t' = dh_lookup T t ++ map_of (map (\<lambda>item. (getKey T item, item)) (dh_used T e items))"
  using assms
proof (induction items arbitrary: t)
  case Nil
  then show ?case by (simp add: dh_used_def)
next
  case (Cons item items)
  show ?case
  proof (cases "getKey T item = e")
    case True
    then have "dh_used T e (item # items) = dh_used T e items" by (simp add: dh_used_def)
    with Cons True show ?thesis by simp
  next
    case False
    then have us: "dh_used T e (item # items) = item # dh_used T e items" by (simp add: dh_used_def)
    from Cons.prems us have absent: "dh_lookup T t (getKey T item) = None" and room: "dh_count t < dh_capacity t" by auto
    from False Cons.prems(2) have key: "getKey T item \<noteq> dh_empty_key t" by simp
    obtain t1 b where t1: "dh_insert_unsafe T t (getKey T item) = Inr (t1, b)" "dh_wf T t1" "b < dh_capacity t1"
      "dh_slot T t1 b = Some (getKey T item)" "dh_lookup T t1 = (dh_lookup T t)(getKey T item \<mapsto> fillItem T (getKey T item))"
      "dh_capacity t1 = dh_capacity t" "dh_count t1 = dh_count t + 1" "dh_empty_key t1 = dh_empty_key t"
      "dh_data t1 ! b = fillItem T (getKey T item)"
      using insert_absent [OF Cons.prems(1) room absent key] .
    define t2 where "t2 = t1\<lparr>dh_data := (dh_data t1)[b := item]\<rparr>"
    note t2 = replace_item [OF t1(2-4) refl, folded t2_def]
    have look: "dh_lookup T t2 = (dh_lookup T t)(getKey T item \<mapsto> item)" using t2(2) t1(5) by simp
    have "\<forall>x \<in> set (dh_used T e items). dh_lookup T t2 (getKey T x) = None"
      using Cons.prems(4,5) us unfolding look by (auto simp: image_iff)
    moreover have "dh_empty_key t2 = e" "dh_count t2 + length (dh_used T e items) < dh_capacity t2"
      "distinct (map (getKey T) (dh_used T e items))"
      using Cons.prems(2,3,4) us t1(6-8) by (auto simp: t2_def)
    ultimately obtain t' where t': "foldE (\<lambda>newtable item.
         if getKey T item \<noteq> e
         then bindE (dh_insert_unsafe T newtable (getKey T item)) (\<lambda>(newtable, i).
           Inr (newtable\<lparr>dh_data := (dh_data newtable)[i := item]\<rparr>))
         else Inr newtable) t2 items = Inr t'" "dh_wf T t'" "dh_capacity t' = dh_capacity t2" "dh_empty_key t' = e"
      "dh_count t' = dh_count t2 + length (dh_used T e items)"
      "dh_lookup T t' = dh_lookup T t2 ++ map_of (map (\<lambda>item. (getKey T item, item)) (dh_used T e items))"
      using Cons.IH [OF t2(1)] by blast
    have "getKey T item \<notin> dom (map_of (map (\<lambda>item. (getKey T item, item)) (dh_used T e items)))"
      using Cons.prems(4) us by (simp add: dom_map_of_conv_image_fst image_image)
    then have look': "dh_lookup T t' = dh_lookup T t ++ map_of (map (\<lambda>item. (getKey T item, item)) (dh_used T e (item # items)))"
      unfolding t'(6) look us by (simp add: map_add_upd_left)
    show ?thesis
      by (intro exI [of _ t'] conjI look') (use t'(1-5) False t1(1,6,7) us in \<open>simp_all add: t2_def\<close>)
  qed
qed

lemma rehash_table:
  assumes "dh_inv T t"
  obtains t' where "dh_rehash T t = Inr t'" "dh_inv T t'" "dh_lookup T t' = dh_lookup T t" "dh_empty_key t' = dh_empty_key t"
    "dh_count t' = dh_count t" "dh_count t' < dh_capacity t' * 3 div 4"
proof -
  let ?n = "if dh_capacity t = 0 then 16 else dh_capacity t * 2"
  from assms have wf: "dh_wf T t" "dh_count t \<le> dh_capacity t * 3 div 4" by (auto simp: dh_inv_def)
  then have c: "pow2_or_zero ?n" "dh_count t < ?n * 3 div 4" "dh_count t < ?n"
    using load_double [of "dh_capacity t" "dh_count t"] by (auto simp: dh_wf_def pow2_double)
  from new_table [OF c(1), of "dh_empty_key t"] obtain t0 where t0: "dh_new T (dh_empty_key t) ?n = Inr t0" "dh_inv T t0"
    "dh_lookup T t0 = Map.empty" "dh_capacity t0 = ?n" "dh_empty_key t0 = dh_empty_key t" "dh_count t0 = 0" .
  have "distinct (map (getKey T) (dh_used T (dh_empty_key t) (dh_data t)))" "dh_count t = length (dh_used T (dh_empty_key t) (dh_data t))"
    using wf(1) unique_distinct by (auto simp: dh_wf_def)
  with reinsert_items [of t0 "dh_empty_key t" "dh_data t"] t0 c obtain t1 where t1: "foldE (\<lambda>newtable item.
         if getKey T item \<noteq> dh_empty_key t
         then bindE (dh_insert_unsafe T newtable (getKey T item)) (\<lambda>(newtable, i).
           Inr (newtable\<lparr>dh_data := (dh_data newtable)[i := item]\<rparr>))
         else Inr newtable) t0 (dh_data t) = Inr t1" "dh_wf T t1" "dh_capacity t1 = ?n" "dh_empty_key t1 = dh_empty_key t"
    "dh_count t1 = dh_count t" "dh_lookup T t1 = dh_lookup T t"
    by (auto simp: dh_inv_def dh_lookup_def)
  have "t\<lparr>dh_data := dh_data t1\<rparr> = t1" using t1(4,5) by (cases t; cases t1) simp
  with t0(1) t1(1,5) have "dh_rehash T t = Inr t1" unfolding dh_rehash_def by simp
  with t1 c(2) that [of t1] show thesis by (simp add: dh_inv_def)
qed

lemma rehash_if_full:
  assumes "dh_inv T t"
  obtains t' where "dh_rehash_if_full T t k = Inr t'" "dh_inv T t'" "dh_lookup T t' = dh_lookup T t" "dh_empty_key t' = dh_empty_key t"
    "dh_count t' = dh_count t" "dh_lookup T t k = None \<Longrightarrow> dh_count t' < dh_capacity t' * 3 div 4"
proof -
  obtain r where r: "dh_find T t k = Inr r" "map_option (\<lambda>i. dh_data t ! i) r = dh_lookup T t k"
    using find_lookup [OF assms] .
  show thesis
  proof (cases "dh_capacity t * 3 div 4 \<le> dh_count t \<and> r = None")
    case True
    with r rehash_table [OF assms] that show thesis by (auto simp: dh_rehash_if_full_def)
  next
    case False
    then have t: "dh_rehash_if_full T t k = Inr t" using r by (auto simp: dh_rehash_if_full_def)
    have room: "dh_lookup T t k = None \<Longrightarrow> dh_count t < dh_capacity t * 3 div 4" using False r(2) by (cases r) auto
    show thesis using room by (rule that [OF t assms refl refl refl])
  qed
qed

text \<open>The step that \<^verbatim>\<open>insert\<close>, \<^verbatim>\<open>operator[]\<close> and \<^verbatim>\<open>try_insert\<close> share.\<close>

lemma upsert:
  assumes "dh_inv T t" "k \<noteq> dh_empty_key t"
  obtains t1 t' b where "dh_rehash_if_full T t k = Inr t1" "dh_count t1 = dh_count t" "dh_insert_unsafe T t1 k = Inr (t', b)"
    "dh_inv T t'" "b < dh_capacity t'" "dh_slot T t' b = Some k" "dh_empty_key t' = dh_empty_key t"
    "dh_lookup T t' = (dh_lookup T t)(k \<mapsto> case dh_lookup T t k of None \<Rightarrow> fillItem T k | Some item \<Rightarrow> item)"
    "dh_lookup T t' k = Some (dh_data t' ! b)" "dh_count t < dh_count t' \<longleftrightarrow> dh_lookup T t k = None"
proof -
  from rehash_if_full [OF assms(1), of k] obtain t1 where t1: "dh_rehash_if_full T t k = Inr t1" "dh_inv T t1"
    "dh_lookup T t1 = dh_lookup T t" "dh_empty_key t1 = dh_empty_key t" "dh_count t1 = dh_count t"
    "dh_lookup T t k = None \<Longrightarrow> dh_count t1 < dh_capacity t1 * 3 div 4" by blast
  from t1(2) have wf: "dh_wf T t1" "unique_keys (dh_capacity t1) (dh_slot T t1)" by (auto simp: dh_inv_def dh_wf_def)
  show thesis
  proof (cases "dh_lookup T t k")
    case None
    with t1(6) have load: "dh_count t1 < dh_capacity t1 * 3 div 4" by blast
    then have room: "dh_count t1 < dh_capacity t1" by simp
    from None t1(3,4) assms(2) have k: "dh_lookup T t1 k = None" "k \<noteq> dh_empty_key t1" by auto
    obtain t' b where t': "dh_insert_unsafe T t1 k = Inr (t', b)" "dh_wf T t'" "b < dh_capacity t'" "dh_slot T t' b = Some k"
      "dh_lookup T t' = (dh_lookup T t1)(k \<mapsto> fillItem T k)" "dh_capacity t' = dh_capacity t1" "dh_count t' = dh_count t1 + 1"
      "dh_empty_key t' = dh_empty_key t1" "dh_data t' ! b = fillItem T k"
      using insert_absent [OF wf(1) room k] .
    have "dh_inv T t'" using t'(2,6,7) load by (simp add: dh_inv_def)
    with that [OF t1(1,5) t'(1) _ t'(3,4)] t'(5,7,8,9) t1(3,4,5) None show thesis by simp
  next
    case (Some item)
    with t1(3) obtain i where i: "i < dh_capacity t1" "dh_data t1 ! i = item" "dh_slot T t1 i = Some k"
      using lookup_Some [OF wf(2), of k item] by auto
    have "dh_lookup T t1 = (dh_lookup T t)(k \<mapsto> item)" using t1(3) Some by (simp add: fun_upd_idem)
    with that [OF t1(1,5) insert_present [OF wf(1) i(1,3)] t1(2) i(1,3) t1(4)] Some i(2) t1(5) show thesis by simp
  qed
qed

end

section \<open>Instances of the item interface\<close>

interpretation set_items: item_interface "ItemInterfaceSet h" for h
  by unfold_locales (simp_all add: ItemInterfaceSet_def)

interpretation map_items: item_interface "ItemInterfaceMap h dflt" for h dflt
  by unfold_locales (simp_all add: ItemInterfaceMap_def)

section \<open>Iteration\<close>

lemma walk_used: "dh_walk T t (dh_skip T t i) = dh_used T (dh_empty_key t) (drop i (dh_data t))"
proof (induction "dh_capacity t - i" arbitrary: i)
  case 0
  then show ?case by (subst dh_skip.simps, subst dh_walk.simps) (simp add: dh_used_def dh_end_def)
next
  case (Suc d)
  then have lt: "i < dh_capacity t" by simp
  then have drop: "drop i (dh_data t) = dh_data t ! i # drop (Suc i) (dh_data t)" by (simp add: Cons_nth_drop_Suc)
  have IH: "dh_walk T t (dh_skip T t (Suc i)) = dh_used T (dh_empty_key t) (drop (Suc i) (dh_data t))"
    using Suc(1) [of "Suc i"] Suc(2) by simp
  show ?case
  proof (cases "getKey T (dh_data t ! i) = dh_empty_key t")
    case True
    then have "dh_skip T t i = dh_skip T t (Suc i)" using lt by (subst dh_skip.simps) simp
    with IH drop True show ?thesis by (simp add: dh_used_def)
  next
    case False
    then have "dh_skip T t i = i" by (subst dh_skip.simps) simp
    with IH drop False lt show ?thesis by (subst dh_walk.simps) (simp add: dh_used_def dh_end_def dh_next_def)
  qed
qed

lemma iterate_used: "dh_iterate T t = dh_used T (dh_empty_key t) (dh_data t)"
  using walk_used [of T t 0] by (simp add: dh_iterate_def dh_begin_def)

lemma clear_table:
  assumes "item_interface T" "dh_inv T t"
  shows "dh_inv T (dh_clear T n t) \<and> dh_lookup T (dh_clear T n t) = Map.empty \<and> dh_empty_key (dh_clear T n t) = dh_empty_key t"
proof (cases "dh_count t = 0")
  case True
  then have "dh_used T (dh_empty_key t) (dh_data t) = []" using assms(2) by (simp add: dh_inv_def dh_wf_def)
  then show ?thesis using True assms(2) by (simp add: dh_clear_def dh_lookup_def)
next
  case False
  let ?n = "if n < dh_capacity t then 0 else dh_capacity t"
  have "pow2_or_zero ?n" using assms(2) by (auto simp: dh_inv_def dh_wf_def)
  with item_interface.new_table [OF assms(1) this, of "dh_empty_key t"]
  obtain t' where t': "dh_new T (dh_empty_key t) ?n = Inr t'" "dh_inv T t'" "dh_lookup T t' = Map.empty" "dh_empty_key t' = dh_empty_key t"
    by metis
  moreover have "dh_clear T n t = t'"
    using t'(1) False \<open>pow2_or_zero ?n\<close> by (cases t) (auto simp: dh_clear_def dh_new_def dh_destroy_def split: if_splits)
  ultimately show ?thesis by simp
qed

section \<open>DenseHashMap refines partial functions\<close>

definition dhm_map :: "('k, 'k \<times> 'v) traits \<Rightarrow> ('k, 'k \<times> 'v) DenseHashTable \<Rightarrow> 'k \<rightharpoonup> 'v" where
  "dhm_map T t k = map_option snd (dh_lookup T t k)"

datatype ('k, 'v) map_op = MapSet 'k 'v | MapTryInsert 'k 'v | MapIndex 'k | MapClear nat

fun dhm_exec ::
  "('k, 'k \<times> 'v) traits \<Rightarrow> ('k, 'k \<times> 'v) DenseHashTable \<Rightarrow> ('k, 'v) map_op \<Rightarrow> ('k, 'k \<times> 'v) DenseHashTable cpp" where
  "dhm_exec T t (MapSet k v) = dhm_set T t k v"
| "dhm_exec T t (MapTryInsert k v) = bindE (dhm_try_insert T t k v) (\<lambda>(t, _). Inr t)"
| "dhm_exec T t (MapIndex k) = bindE (dhm_index T t k) (\<lambda>(t, _). Inr t)"
| "dhm_exec T t (MapClear n) = Inr (dh_clear T n t)"

fun map_spec :: "'v \<Rightarrow> ('k \<rightharpoonup> 'v) \<Rightarrow> ('k, 'v) map_op \<Rightarrow> 'k \<rightharpoonup> 'v" where
  "map_spec dflt m (MapSet k v) = m(k \<mapsto> v)"
| "map_spec dflt m (MapTryInsert k v) = m(k \<mapsto> case m k of None \<Rightarrow> v | Some w \<Rightarrow> w)"
| "map_spec dflt m (MapIndex k) = m(k \<mapsto> case m k of None \<Rightarrow> dflt | Some w \<Rightarrow> w)"
| "map_spec dflt m (MapClear n) = Map.empty"

fun map_allowed :: "'k \<Rightarrow> ('k \<rightharpoonup> 'v) \<Rightarrow> ('k, 'v) map_op \<Rightarrow> bool" where
  "map_allowed e m (MapSet k v) \<longleftrightarrow> k \<noteq> e"
| "map_allowed e m (MapTryInsert k v) \<longleftrightarrow> k \<noteq> e"
| "map_allowed e m (MapIndex k) \<longleftrightarrow> k \<noteq> e"
| "map_allowed e m (MapClear n) \<longleftrightarrow> True"

lemma map_interface_simps [simp]:
  "getKey (ItemInterfaceMap h dflt) = fst" "fillItem (ItemInterfaceMap h dflt) k = (k, dflt)"
  by (simp_all add: ItemInterfaceMap_def)

lemma lookup_fst: "dh_lookup (ItemInterfaceMap h dflt) t k = Some item \<Longrightarrow> fst item = k"
  by (auto simp: dh_lookup_def dest: map_of_SomeD)

lemma map_upsert:
  fixes h dflt
  defines "T \<equiv> ItemInterfaceMap h dflt"
  assumes "dh_inv T t" "k \<noteq> dh_empty_key t"
  obtains t1 t' b where "dh_rehash_if_full T t k = Inr t1" "dh_count t1 = dh_count t" "dh_insert_unsafe T t1 k = Inr (t', b)"
    "dh_inv T t'" "dh_empty_key t' = dh_empty_key t"
    "dhm_map T t' = (dhm_map T t)(k \<mapsto> case dhm_map T t k of None \<Rightarrow> dflt | Some v \<Rightarrow> v)"
    "dhm_map T t' k = Some (snd (dh_data t' ! b))" "dh_count t < dh_count t' \<longleftrightarrow> dhm_map T t k = None"
    "b < dh_capacity t'"
    "\<And>v. dh_inv T (t'\<lparr>dh_data := set_second (dh_data t') b v\<rparr>) \<and>
          dhm_map T (t'\<lparr>dh_data := set_second (dh_data t') b v\<rparr>) = (dhm_map T t)(k \<mapsto> v)"
proof -
  from map_items.upsert [OF assms(2) [unfolded T_def] assms(3), folded T_def]
  obtain t1 t' b where u: "dh_rehash_if_full T t k = Inr t1" "dh_count t1 = dh_count t" "dh_insert_unsafe T t1 k = Inr (t', b)"
    "dh_inv T t'" "b < dh_capacity t'" "dh_slot T t' b = Some k" "dh_empty_key t' = dh_empty_key t"
    "dh_lookup T t' = (dh_lookup T t)(k \<mapsto> case dh_lookup T t k of None \<Rightarrow> fillItem T k | Some item \<Rightarrow> item)"
    "dh_lookup T t' k = Some (dh_data t' ! b)" "dh_count t < dh_count t' \<longleftrightarrow> dh_lookup T t k = None" .
  have m: "dhm_map T t' = (dhm_map T t)(k \<mapsto> case dhm_map T t k of None \<Rightarrow> dflt | Some v \<Rightarrow> v)"
    using u(8) by (auto simp: dhm_map_def fun_eq_iff T_def split: option.splits)
  have set: "dh_inv T (t'\<lparr>dh_data := set_second (dh_data t') b v\<rparr>) \<and>
          dhm_map T (t'\<lparr>dh_data := set_second (dh_data t') b v\<rparr>) = (dhm_map T t)(k \<mapsto> v)" for v
  proof -
    have "fst (dh_data t' ! b) = k" using slot_key [OF u(6)] by (simp add: T_def)
    with map_items.replace_item [of h dflt t' b k "(k, v)", folded T_def] u(4-6)
    have "dh_wf T (t'\<lparr>dh_data := set_second (dh_data t') b v\<rparr>)"
      "dh_lookup T (t'\<lparr>dh_data := set_second (dh_data t') b v\<rparr>) = (dh_lookup T t')(k \<mapsto> (k, v))"
      by (auto simp: dh_inv_def set_second_def T_def)
    then show ?thesis using u(4,8) by (auto simp: dh_inv_def dhm_map_def fun_eq_iff set_second_def)
  qed
  show thesis by (rule that [OF u(1-4,7) m _ _ u(5) set]) (use u(9,10) in \<open>auto simp: dhm_map_def\<close>)
qed

lemma try_insert_map:
  assumes "dh_inv (ItemInterfaceMap h dflt) t" "k \<noteq> dh_empty_key t"
  shows "\<exists>t'. dhm_try_insert (ItemInterfaceMap h dflt) t k v
      = Inr (t', (case dhm_map (ItemInterfaceMap h dflt) t k of None \<Rightarrow> v | Some w \<Rightarrow> w), dhm_map (ItemInterfaceMap h dflt) t k = None)
    \<and> dh_inv (ItemInterfaceMap h dflt) t' \<and> dh_empty_key t' = dh_empty_key t
    \<and> dhm_map (ItemInterfaceMap h dflt) t' = map_spec dflt (dhm_map (ItemInterfaceMap h dflt) t) (MapTryInsert k v)"
  by (rule map_upsert [OF assms])
    (auto simp: dhm_try_insert_def Let_def set_second_def split: option.splits)

lemma assign_map:
  assumes "dh_inv (ItemInterfaceMap h dflt) t" "k \<noteq> dh_empty_key t"
  shows "\<exists>t'. dhm_set (ItemInterfaceMap h dflt) t k v = Inr t' \<and> dh_inv (ItemInterfaceMap h dflt) t' \<and> dh_empty_key t' = dh_empty_key t
    \<and> dhm_map (ItemInterfaceMap h dflt) t' = (dhm_map (ItemInterfaceMap h dflt) t)(k \<mapsto> v)"
  by (rule map_upsert [OF assms]) (auto simp: dhm_set_def dhm_index_def)

lemma index_map:
  assumes "dh_inv (ItemInterfaceMap h dflt) t" "k \<noteq> dh_empty_key t"
  shows "\<exists>t' b. dhm_index (ItemInterfaceMap h dflt) t k = Inr (t', b) \<and> dh_inv (ItemInterfaceMap h dflt) t' \<and> dh_empty_key t' = dh_empty_key t
    \<and> dhm_map (ItemInterfaceMap h dflt) t' = map_spec dflt (dhm_map (ItemInterfaceMap h dflt) t) (MapIndex k)"
  by (rule map_upsert [OF assms]) (auto simp: dhm_index_def)

interpretation dhm: data_refinement
  "\<lambda>t. dh_inv (ItemInterfaceMap h dflt) t \<and> dh_empty_key t = e" "dhm_map (ItemInterfaceMap h dflt)"
  "dhm_exec (ItemInterfaceMap h dflt)" "map_spec dflt" "map_allowed e" for h dflt e
proof
  fix t :: "('a, 'a \<times> 'b) DenseHashTable" and op
  let ?T = "ItemInterfaceMap h dflt"
  assume t: "dh_inv ?T t \<and> dh_empty_key t = e" and op: "map_allowed e (dhm_map ?T t) op"
  show "\<exists>t'. dhm_exec ?T t op = Inr t' \<and> (dh_inv ?T t' \<and> dh_empty_key t' = e) \<and> dhm_map ?T t' = map_spec dflt (dhm_map ?T t) op"
  proof (cases op)
    case (MapSet k v)
    then show ?thesis using op t assign_map [OF conjunct1 [OF t], of k v] by auto
  next
    case (MapTryInsert k v)
    then show ?thesis using op t try_insert_map [OF conjunct1 [OF t], of k v] by auto
  next
    case (MapIndex k)
    then show ?thesis using op t index_map [OF conjunct1 [OF t], of k] by auto
  next
    case (MapClear n)
    with clear_table [OF map_items.item_interface_axioms conjunct1 [OF t], of n] t show ?thesis
      by (auto simp: dhm_map_def fun_eq_iff)
  qed
qed

lemma find_map:
  assumes "dh_inv (ItemInterfaceMap h dflt) t"
  shows "dhm_find (ItemInterfaceMap h dflt) t k = Inr (dhm_map (ItemInterfaceMap h dflt) t k)"
proof -
  obtain r where r: "dh_find (ItemInterfaceMap h dflt) t k = Inr r"
    "map_option (\<lambda>i. dh_data t ! i) r = dh_lookup (ItemInterfaceMap h dflt) t k" using find_lookup [OF assms] .
  show ?thesis unfolding dhm_map_def r(2) [symmetric] dhm_find_def r(1) by (simp add: option.map_comp comp_def)
qed

lemma iterate_map:
  assumes "dh_inv (ItemInterfaceMap h dflt) t"
  shows "distinct (map fst (dh_iterate (ItemInterfaceMap h dflt) t))
    \<and> map_of (dh_iterate (ItemInterfaceMap h dflt) t) = dhm_map (ItemInterfaceMap h dflt) t"
proof -
  have "map_of items k = map_option snd (map_of (map (\<lambda>item. (fst item, item)) items) k)" for items :: "('a \<times> 'b) list" and k
    by (induction items) auto
  moreover have "distinct (map fst (dh_iterate (ItemInterfaceMap h dflt) t))"
    using assms unique_distinct [of t "ItemInterfaceMap h dflt"] by (simp add: iterate_used dh_inv_def dh_wf_def)
  ultimately show ?thesis by (auto simp: iterate_used dhm_map_def dh_lookup_def fun_eq_iff)
qed

lemma count_map: "dh_inv (ItemInterfaceMap h dflt) t \<Longrightarrow> dh_count t = card (dom (dhm_map (ItemInterfaceMap h dflt) t))"
  using card_lookup [of "ItemInterfaceMap h dflt" t] by (simp add: dh_inv_def dhm_map_def dom_def)

text \<open>
  C34: \<^verbatim>\<open>DenseHashMap\<close> is a partial function, whatever the hash function. From a new table with any
  legal number of buckets, every sequence of assignments through \<^verbatim>\<open>operator[]\<close>,
  \<^verbatim>\<open>try_insert\<close>, \<^verbatim>\<open>operator[]\<close> and \<^verbatim>\<open>clear\<close> with keys other than \<^verbatim>\<open>empty_key\<close>
  runs without a failed assertion (in particular the probe loops always end at a free bucket or at
  the key); afterwards \<^verbatim>\<open>find\<close>, \<^verbatim>\<open>size\<close>, \<^verbatim>\<open>try_insert\<close> and iteration agree with the
  partial function obtained by the same sequence, and the table is at most three quarters full.
\<close>

theorem densehashmap_refines_map:
  fixes h :: "'k \<Rightarrow> u64" and dflt :: 'v
  defines "T \<equiv> ItemInterfaceMap h dflt"
  assumes "pow2_or_zero buckets" "allowed_run (map_spec dflt) (map_allowed e) Map.empty ops"
  shows "\<exists>t0 t. dh_new T e buckets = Inr t0 \<and> foldE (dhm_exec T) t0 ops = Inr t
    \<and> (\<forall>k. dhm_find T t k = Inr (foldl (map_spec dflt) Map.empty ops k))
    \<and> dh_count t = card (dom (foldl (map_spec dflt) Map.empty ops))
    \<and> (\<forall>k v. k \<noteq> e \<longrightarrow> (\<exists>t'. dhm_try_insert T t k v =
          Inr (t', (case foldl (map_spec dflt) Map.empty ops k of None \<Rightarrow> v | Some w \<Rightarrow> w), foldl (map_spec dflt) Map.empty ops k = None)))
    \<and> distinct (map fst (dh_iterate T t)) \<and> map_of (dh_iterate T t) = foldl (map_spec dflt) Map.empty ops
    \<and> dh_count t \<le> dh_capacity t * 3 div 4"
proof -
  from map_items.new_table [OF assms(2), of h dflt e, folded T_def]
  obtain t0 where t0: "dh_new T e buckets = Inr t0" "dh_inv T t0" "dh_lookup T t0 = Map.empty" "dh_empty_key t0 = e" by blast
  then have m0: "dhm_map T t0 = Map.empty" by (auto simp: dhm_map_def)
  from dhm.run [of h dflt t0 e ops, folded T_def] t0 assms(3) m0
  obtain t where t: "foldE (dhm_exec T) t0 ops = Inr t" "dh_inv T t" "dh_empty_key t = e"
    "dhm_map T t = foldl (map_spec dflt) Map.empty ops" by auto
  have tries: "\<exists>t'. dhm_try_insert T t k v = Inr (t', (case dhm_map T t k of None \<Rightarrow> v | Some w \<Rightarrow> w), dhm_map T t k = None)"
    if "k \<noteq> e" for k v
    using try_insert_map [of h dflt t k v, folded T_def] t(2,3) that by blast
  show ?thesis
    unfolding t(4) [symmetric]
    using t0(1) t(1,2) tries find_map [of h dflt t, folded T_def] iterate_map [of h dflt t, folded T_def]
      count_map [of h dflt t, folded T_def] by (auto simp: dh_inv_def)
qed

theorem densehashmap_refines_map_witness:
  "\<exists>t0 t. dh_new (ItemInterfaceMap (\<lambda>k. 5) (0 :: int)) (0 :: u64) 2 = Inr t0
    \<and> foldE (dhm_exec (ItemInterfaceMap (\<lambda>k. 5) 0)) t0 [MapSet 7 1, MapSet 9 2, MapIndex 3, MapSet 7 4] = Inr t
    \<and> dhm_find (ItemInterfaceMap (\<lambda>k. 5) 0) t 7 = Inr (Some 4) \<and> dhm_find (ItemInterfaceMap (\<lambda>k. 5) 0) t 3 = Inr (Some 0)
    \<and> dhm_find (ItemInterfaceMap (\<lambda>k. 5) 0) t 8 = Inr None"
  using densehashmap_refines_map [of 2 0 0 "[MapSet (7 :: u64) 1, MapSet 9 2, MapIndex 3, MapSet 7 4]" "\<lambda>k. 5"]
    pow2_or_zero_power [of 1] by auto

section \<open>DenseHashSet refines sets\<close>

definition dhs_set :: "('k \<Rightarrow> u64) \<Rightarrow> ('k, 'k) DenseHashTable \<Rightarrow> 'k set" where
  "dhs_set h t = dom (dh_lookup (ItemInterfaceSet h) t)"

definition dhs_add :: "('k \<Rightarrow> u64) \<Rightarrow> ('k, 'k) DenseHashTable \<Rightarrow> 'k \<Rightarrow> ('k, 'k) DenseHashTable cpp" where
  "dhs_add h t key = bindE (dhs_insert (ItemInterfaceSet h) t key) (\<lambda>(t, _). Inr t)"

interpretation dhs: data_refinement
  "\<lambda>t. dh_inv (ItemInterfaceSet h) t \<and> dh_empty_key t = e" "dhs_set h" "dhs_add h" "\<lambda>s k. insert k s" "\<lambda>s k. k \<noteq> e" for h e
proof
  fix t :: "('a, 'a) DenseHashTable" and k
  assume t: "dh_inv (ItemInterfaceSet h) t \<and> dh_empty_key t = e" "k \<noteq> e"
  then have "dh_inv (ItemInterfaceSet h) t" "k \<noteq> dh_empty_key t" by auto
  then show "\<exists>t'. dhs_add h t k = Inr t' \<and> (dh_inv (ItemInterfaceSet h) t' \<and> dh_empty_key t' = e) \<and> dhs_set h t' = insert k (dhs_set h t)"
    by (rule set_items.upsert) (use t(1) in \<open>auto simp: dhs_add_def dhs_insert_def dhs_set_def\<close>)
qed

lemma contains_set:
  assumes "dh_inv (ItemInterfaceSet h) t"
  shows "dhs_contains (ItemInterfaceSet h) t k = Inr (k \<in> dhs_set h t)"
  by (rule find_lookup [OF assms, of k]) (auto simp: dhs_contains_def dhs_set_def dom_def dest: sym)

lemma set_interface_simps [simp]: "getKey (ItemInterfaceSet h) = (\<lambda>k. k)"
  by (simp add: ItemInterfaceSet_def)

lemma iterate_set: "set (dh_iterate (ItemInterfaceSet h) t) = dhs_set h t"
  by (simp add: iterate_used dhs_set_def dh_lookup_def dom_map_of_conv_image_fst image_image)

lemma all_in_set:
  assumes "dh_inv (ItemInterfaceSet h) t"
  shows "dhs_all_in (ItemInterfaceSet h) t ks = Inr (set ks \<subseteq> dhs_set h t)"
  by (induction ks) (auto simp: contains_set [OF assms])

text \<open>
  C35: \<^verbatim>\<open>operator==\<close> of \<^verbatim>\<open>DenseHashSet\<close> is equality of sets: two sets filled by inserting
  elements other than their empty keys, in any order, with repetitions and with different initial
  sizes, compare equal exactly when they were given the same elements.
\<close>

theorem densehashset_eq_sets:
  assumes "pow2_or_zero n1" "pow2_or_zero n2" "e1 \<notin> set xs" "e2 \<notin> set ys"
  shows "\<exists>s0 t0 s t. dh_new (ItemInterfaceSet h) e1 n1 = Inr s0 \<and> dh_new (ItemInterfaceSet h) e2 n2 = Inr t0
    \<and> foldE (dhs_add h) s0 xs = Inr s \<and> foldE (dhs_add h) t0 ys = Inr t
    \<and> dhs_eq (ItemInterfaceSet h) s t = Inr (set xs = set ys)
    \<and> (\<forall>k. dhs_contains (ItemInterfaceSet h) s k = Inr (k \<in> set xs))"
proof -
  have run: "\<exists>s0 s. dh_new (ItemInterfaceSet h) e n = Inr s0 \<and> foldE (dhs_add h) s0 ks = Inr s
      \<and> dh_inv (ItemInterfaceSet h) s \<and> dhs_set h s = set ks"
    if "pow2_or_zero n" "e \<notin> set ks" for e n and ks :: "'a list"
  proof -
    from set_items.new_table [OF that(1), of h e] obtain s0 where s0: "dh_new (ItemInterfaceSet h) e n = Inr s0"
      "dh_inv (ItemInterfaceSet h) s0" "dh_lookup (ItemInterfaceSet h) s0 = Map.empty" "dh_empty_key s0 = e" by blast
    have "allowed_run (\<lambda>s k. insert k s) (\<lambda>s k. k \<noteq> e) s ks" for s using that(2) by (induction ks arbitrary: s) auto
    moreover have "foldl (\<lambda>s k. insert k s) s ks = s \<union> set ks" for s by (induction ks arbitrary: s) auto
    ultimately show ?thesis using dhs.run [of h s0 e ks] s0 by (auto simp: dhs_set_def)
  qed
  from run [OF assms(1,3)] obtain s0 s where s: "dh_new (ItemInterfaceSet h) e1 n1 = Inr s0" "foldE (dhs_add h) s0 xs = Inr s"
    "dh_inv (ItemInterfaceSet h) s" "dhs_set h s = set xs" by blast
  from run [OF assms(2,4)] obtain t0 t where t: "dh_new (ItemInterfaceSet h) e2 n2 = Inr t0" "foldE (dhs_add h) t0 ys = Inr t"
    "dh_inv (ItemInterfaceSet h) t" "dhs_set h t = set ys" by blast
  have "dh_count s = card (set xs)" "dh_count t = card (set ys)"
    using card_lookup [of "ItemInterfaceSet h"] s(3,4) t(3,4) by (auto simp: dh_inv_def dhs_set_def)
  then have "dhs_eq (ItemInterfaceSet h) s t = Inr (set xs = set ys)"
    using all_in_set [OF t(3), of "dh_iterate (ItemInterfaceSet h) s"] iterate_set [of h s] s(4) t(4)
      card_subset_eq [of "set ys" "set xs"] by (auto simp: dhs_eq_def)
  with s t contains_set [OF s(3)] show ?thesis by auto
qed

theorem densehashset_eq_sets_witness:
  "\<exists>s t. foldE (dhs_add (\<lambda>k. 1)) \<lparr>dh_data = [], dh_count = 0, dh_empty_key = 0\<rparr> [5, 7, 5] = Inr s
     \<and> foldE (dhs_add (\<lambda>k. 1)) \<lparr>dh_data = [1], dh_count = 0, dh_empty_key = 1\<rparr> [7, 5] = Inr t
     \<and> dhs_eq (ItemInterfaceSet (\<lambda>k. 1)) s t = Inr True \<and> dhs_contains (ItemInterfaceSet (\<lambda>k. 1)) s (5 :: u64) = Inr True
     \<and> dhs_contains (ItemInterfaceSet (\<lambda>k. 1)) s 0 = Inr False"
proof -
  have "dh_new (ItemInterfaceSet (\<lambda>k. 1)) (0 :: u64) 0 = Inr \<lparr>dh_data = [], dh_count = 0, dh_empty_key = 0\<rparr>"
    "dh_new (ItemInterfaceSet (\<lambda>k. 1)) (1 :: u64) 1 = Inr \<lparr>dh_data = [1], dh_count = 0, dh_empty_key = 1\<rparr>"
    by (simp_all add: dh_new_def pow2_or_zero_def ItemInterfaceSet_def)
  then show ?thesis
    using densehashset_eq_sets [of 0 1 0 "[5 :: u64, 7, 5]" 1 "[7, 5]" "\<lambda>k. 1"] pow2_or_zero_power [of 0] by (auto simp: insert_commute)
qed

end
