(* ===== verification/DenseBitSet.thy ===== *)
theory DenseBitSet
  imports DenseHash
begin

text \<open>
  The bit set of \<^verbatim>\<open>Common/include/Luau/DenseHash2.h\<close> that says which buckets of the table hold an
  item: 64 buckets to a word, read and written with shifts and masks, and iterated over by isolating
  the lowest bit of a word. Shown here: reading after writing, and the buckets that the iterator visits.
\<close>

section \<open>BitSet\<close>

function countTrailingZeroes :: "u64 \<Rightarrow> nat" where
  "countTrailingZeroes w = (if w = 0 then 64 else if w AND 1 = 0 then 1 + countTrailingZeroes (drop_bit 1 w) else 0)"
  by pat_completeness auto
termination
proof (relation "measure unat", goal_cases)
  case (2 w)
  then have "0 < unat w" by (simp add: unat_gt_0)
  then show ?case by (simp add: unat_drop_bit_div)
qed simp

declare countTrailingZeroes.simps [simp del]

record BitSet =
  bs_capacity :: nat
  bs_data :: "u64 list"

definition bs_new :: "nat \<Rightarrow> BitSet cpp" where
  "bs_new capacity =
     bindE (guardE (pow2_or_zero capacity) (AssertionFailed ''capacity'')) (\<lambda>_.
       Inr \<lparr>bs_capacity = capacity,
            bs_data = (if capacity \<noteq> 0 then replicate (if capacity < 64 then 1 else drop_bit 6 capacity) 0 else [])\<rparr>)"

definition bs_empty :: BitSet where
  "bs_empty = \<lparr>bs_capacity = 0, bs_data = []\<rparr>"

definition bs_word :: "BitSet \<Rightarrow> nat \<Rightarrow> u64 cpp" where
  "bs_word bs i = (if i < length (bs_data bs) then Inr (bs_data bs ! i) else Inl UndefinedAccess)"

definition bs_wordAt :: "BitSet \<Rightarrow> nat \<Rightarrow> u64 cpp" where
  "bs_wordAt bs idx = bindE (guardE (idx < length (bs_data bs)) (AssertionFailed ''idx < count'')) (\<lambda>_. bs_word bs idx)"

definition bs_contains :: "BitSet \<Rightarrow> nat \<Rightarrow> bool cpp" where
  "bs_contains bs bucket =
     bindE (bs_word bs (drop_bit 6 bucket)) (\<lambda>w. Inr (drop_bit (bucket AND 63) w AND 1 = 1))"

definition bs_clear :: "BitSet \<Rightarrow> BitSet" where
  "bs_clear bs = bs\<lparr>bs_data := replicate (length (bs_data bs)) 0\<rparr>"

definition bs_set :: "BitSet \<Rightarrow> nat \<Rightarrow> bool \<Rightarrow> BitSet cpp" where
  "bs_set bs bucket v =
     bindE (bs_word bs (drop_bit 6 bucket)) (\<lambda>w.
     let offset = bucket AND 63;
         w = (if v then w OR push_bit offset 1 else w AND NOT (push_bit offset 1))
     in Inr (bs\<lparr>bs_data := (bs_data bs)[drop_bit 6 bucket := w]\<rparr>))"

text \<open>An iterator is the index of a word and the bits of that word still to be visited.\<close>

function bs_skip :: "u64 list \<Rightarrow> nat \<Rightarrow> nat \<times> u64" where
  "bs_skip ws wordIdx =
     (if wordIdx < length ws then if ws ! wordIdx = 0 then bs_skip ws (wordIdx + 1) else (wordIdx, ws ! wordIdx)
      else (wordIdx, 0))"
  by pat_completeness auto
termination by (relation "measure (\<lambda>(ws, wordIdx). length ws - wordIdx)") auto

function bs_settle :: "u64 list \<Rightarrow> nat \<Rightarrow> u64 \<Rightarrow> nat \<times> u64" where
  "bs_settle ws wordIdx word =
     (if word = 0
      then if length ws \<le> wordIdx + 1 then (wordIdx + 1, 0) else bs_settle ws (wordIdx + 1) (ws ! (wordIdx + 1))
      else (wordIdx, word))"
  by pat_completeness auto
termination by (relation "measure (\<lambda>(ws, wordIdx, word). length ws - wordIdx)") auto

definition bs_begin :: "u64 list \<Rightarrow> nat \<times> u64" where
  "bs_begin ws = bs_skip ws 0"

definition bs_end :: "u64 list \<Rightarrow> nat \<times> u64" where
  "bs_end ws = bs_skip ws (length ws)"

definition bs_current :: "nat \<times> u64 \<Rightarrow> nat" where
  "bs_current it = fst it * 64 + countTrailingZeroes (snd it)"

definition bs_next :: "u64 list \<Rightarrow> nat \<times> u64 \<Rightarrow> nat \<times> u64" where
  "bs_next ws it = bs_settle ws (fst it) (snd it AND (snd it - 1))"

text \<open>A range-based \<^verbatim>\<open>for\<close> over the bit set.\<close>

partial_function (option) bs_walk :: "u64 list \<Rightarrow> nat \<times> u64 \<Rightarrow> nat list option" where
  "bs_walk ws it =
     (if it \<noteq> bs_end ws
      then Option.bind (bs_walk ws (bs_next ws it)) (\<lambda>buckets. Some (bs_current it # buckets))
      else Some [])"

definition bs_buckets :: "BitSet \<Rightarrow> nat list cpp" where
  "bs_buckets bs = terminates (map_option Inr (bs_walk (bs_data bs) (bs_begin (bs_data bs))))"

declare bs_skip.simps [simp del] bs_settle.simps [simp del]

section \<open>The bit set\<close>

lemma even_and_1: "(w :: u64) AND 1 = 0 \<longleftrightarrow> even w"
  by (simp add: and_one_eq even_iff_mod_2_eq_zero)

lemma unat_half: "unat (drop_bit 1 (w :: u64)) = unat w div 2"
  using unat_drop_bit_div [of 1 w] by simp

lemma even_unat: "even (unat (w :: u64)) \<longleftrightarrow> even w"
  using bit_unsigned_iff [of w 0, where ?'a = nat] by (simp add: bit_0)

lemma half_nonzero: "even w \<Longrightarrow> w \<noteq> 0 \<Longrightarrow> drop_bit 1 (w :: u64) \<noteq> 0"
  using unat_half [of w] even_unat [of w] by (metis dvd_div_eq_0_iff unat_eq_zero)

lemma half_minus_1:
  "w \<noteq> 0 \<Longrightarrow> drop_bit 1 ((w :: u64) - 1) = (if even w then drop_bit 1 w - 1 else drop_bit 1 w)"
proof -
  assume w: "w \<noteq> 0"
  then have m: "unat (w - 1) = unat w - 1" by (rule unat_minus_one)
  have "unat (drop_bit 1 (w - 1)) = unat (if even w then drop_bit 1 w - 1 else drop_bit 1 w)"
  proof (cases "even w")
    case True
    have "even n \<Longrightarrow> (n - 1) div 2 = n div 2 - 1" for n :: nat by (auto elim!: evenE)
    moreover from True have "even (unat w)" by (simp only: even_unat)
    ultimately have "(unat w - 1) div 2 = unat w div 2 - 1" by blast
    with True show ?thesis using unat_minus_one [OF half_nonzero [OF True w]] by (simp only: if_True unat_half m)
  next
    case False
    have "odd n \<Longrightarrow> (n - 1) div 2 = n div 2" for n :: nat by (auto elim!: oddE)
    moreover from False have "odd (unat w)" using even_unat [of w] by blast
    ultimately have "(unat w - 1) div 2 = unat w div 2" by blast
    with False show ?thesis by (simp only: if_False unat_half m)
  qed
  then show ?thesis by (simp only: word_unat_eq_iff)
qed

lemma bit_Suc_drop: "bit (w :: u64) (Suc j) \<longleftrightarrow> bit (drop_bit 1 w) j"
  by (simp add: bit_drop_bit_eq)

text \<open>Subtracting one clears the lowest bit and sets those below it.\<close>

lemma bit_minus_1:
  assumes "w \<noteq> 0"
  shows "countTrailingZeroes w < 64 \<and> bit w (countTrailingZeroes w) \<and> (\<forall>j < countTrailingZeroes w. \<not> bit w j)
    \<and> (\<forall>j. bit (w AND (w - 1)) j \<longleftrightarrow> bit w j \<and> j \<noteq> countTrailingZeroes w)"
  using assms
proof (induction w rule: countTrailingZeroes.induct)
  case (1 w)
  show ?case
  proof (cases "even w")
    case True
    let ?h = "drop_bit 1 w"
    have c: "countTrailingZeroes w = Suc (countTrailingZeroes ?h)"
      using True 1(2) by (subst countTrailingZeroes.simps) (simp add: even_and_1)
    have IH: "countTrailingZeroes ?h < 64" "bit ?h (countTrailingZeroes ?h)" "\<forall>j < countTrailingZeroes ?h. \<not> bit ?h j"
      "\<forall>j. bit (?h AND (?h - 1)) j \<longleftrightarrow> bit ?h j \<and> j \<noteq> countTrailingZeroes ?h"
      using 1 True half_nonzero [OF True] by (simp_all add: even_and_1)
    have b: "bit w (Suc (countTrailingZeroes ?h))" using IH(2) by (simp add: bit_Suc_drop)
    then have "Suc (countTrailingZeroes ?h) < 64" using bit_imp_le_length [of w "Suc (countTrailingZeroes ?h)"] by simp
    moreover have "\<not> bit w j" if "j < Suc (countTrailingZeroes ?h)" for j
      using that IH(3) True by (cases j) (simp add: bit_0, simp only: bit_Suc_drop not_False_eq_True Suc_less_eq)
    moreover have "bit (w AND (w - 1)) j \<longleftrightarrow> bit w j \<and> j \<noteq> Suc (countTrailingZeroes ?h)" for j
    proof (cases j)
      case 0
      show ?thesis unfolding 0 bit_and_iff using True by (simp add: bit_0)
    next
      case (Suc j)
      show ?thesis
        unfolding Suc bit_and_iff bit_Suc_drop [of w] bit_Suc_drop [of "w - 1"] half_minus_1 [OF 1(2)]
        using True IH(4) [rule_format, of j] by (simp only: bit_and_iff if_True nat.inject)
    qed
    ultimately show ?thesis using b unfolding c by blast
  next
    case False
    have "bit (w AND (w - 1)) j \<longleftrightarrow> bit w j \<and> j \<noteq> 0" for j
    proof (cases j)
      case 0
      from False have "even (w - 1)" by (auto elim!: oddE)
      then show ?thesis unfolding 0 bit_and_iff by (simp add: bit_0)
    next
      case (Suc j)
      show ?thesis
        unfolding Suc bit_and_iff bit_Suc_drop [of w] bit_Suc_drop [of "w - 1"] half_minus_1 [OF 1(2)] using False by simp
    qed
    moreover have "countTrailingZeroes w = 0" using False 1(2) by (subst countTrailingZeroes.simps) (simp add: even_and_1)
    ultimately show ?thesis using False by (simp add: bit_0)
  qed
qed
lemma lowest_bit:
  assumes "w \<noteq> 0"
  shows "filter (bit w) [0..<64] = countTrailingZeroes w # filter (bit (w AND (w - 1))) [0..<64]"
proof -
  let ?c = "countTrailingZeroes w"
  note b = bit_minus_1 [OF assms]
  then have "[0..<64] = [0..<?c] @ ?c # [Suc ?c..<64]" by (metis le0 less_imp_le upt_add_eq_append upt_conv_Cons le_add_diff_inverse)
  moreover have "filter (bit w) [0..<?c] = []" "filter (bit (w AND (w - 1))) [0..<?c] = []" using b by (auto simp: filter_empty_conv)
  moreover have "filter (bit w) [Suc ?c..<64] = filter (bit (w AND (w - 1))) [Suc ?c..<64]" using b by (intro filter_cong) auto
  ultimately show ?thesis using b by simp
qed

definition word_buckets :: "nat \<Rightarrow> u64 \<Rightarrow> nat list" where
  "word_buckets i w = map (\<lambda>j. i * 64 + j) (filter (bit w) [0..<64])"

lemma word_buckets_0 [simp]: "word_buckets i 0 = []"
  by (simp add: word_buckets_def)

lemma word_buckets_low: "w \<noteq> 0 \<Longrightarrow> word_buckets i w = (i * 64 + countTrailingZeroes w) # word_buckets i (w AND (w - 1))"
  unfolding word_buckets_def by (subst lowest_bit) simp_all

lemma bs_end_eq: "bs_end ws = (length ws, 0)"
  by (simp add: bs_end_def bs_skip.simps)

lemma walk_settle:
  "i < length ws \<Longrightarrow> bs_walk ws (bs_settle ws i w)
     = Some (word_buckets i w @ concat (map (\<lambda>i. word_buckets i (ws ! i)) [Suc i..<length ws]))"
proof (induction "(ws, i, w)" arbitrary: i w rule: wf_induct [OF wf_measures [of "[\<lambda>(ws, i, w). length ws - i, \<lambda>(ws, i, w). unat w]"]])
  case (1 i w)
  show ?case
  proof (cases "w = 0")
    case True
    show ?thesis
    proof (cases "Suc i < length ws")
      case t: True
      then have "bs_settle ws i w = bs_settle ws (Suc i) (ws ! Suc i)" using True by (subst bs_settle.simps) simp
      moreover have "[Suc i..<length ws] = Suc i # [Suc (Suc i)..<length ws]" using t by (simp add: upt_conv_Cons)
      ultimately show ?thesis using 1(1) [rule_format, of "(ws, Suc i, ws ! Suc i)"] t True by simp
    next
      case False
      then have "bs_settle ws i w = (Suc i, 0)" "Suc i = length ws" using True 1(2) by (subst bs_settle.simps, simp_all)
      then show ?thesis using True by (subst bs_walk.simps) (simp add: bs_end_eq)
    qed
  next
    case False
    then have s: "bs_settle ws i w = (i, w)" by (subst bs_settle.simps) simp
    have "unat (w AND (w - 1)) < unat w"
      using False bit_minus_1 [OF False] by (metis word_and_le2 order_le_less unat_mono)
    then have "bs_walk ws (bs_settle ws i (w AND (w - 1)))
      = Some (word_buckets i (w AND (w - 1)) @ concat (map (\<lambda>i. word_buckets i (ws ! i)) [Suc i..<length ws]))"
      using 1(1) [rule_format, of "(ws, i, w AND (w - 1))"] 1(2) by simp
    then show ?thesis unfolding s
      using False 1(2) by (subst bs_walk.simps) (simp add: bs_end_eq bs_next_def bs_current_def word_buckets_low)
  qed
qed

lemma walk_skip: "i \<le> length ws \<Longrightarrow> bs_walk ws (bs_skip ws i) = Some (concat (map (\<lambda>i. word_buckets i (ws ! i)) [i..<length ws]))"
proof (induction ws i rule: bs_skip.induct)
  case (1 ws i)
  consider "length ws = i" | "i < length ws" "ws ! i = 0" | "i < length ws" "ws ! i \<noteq> 0" using 1(2) by linarith
  then show ?case
  proof cases
    case 1
    then have "bs_walk ws (i, 0) = Some []" by (subst bs_walk.simps) (simp add: bs_end_eq)
    with 1 show ?thesis by (simp add: bs_skip.simps)
  next
    case 2
    then have "bs_skip ws i = bs_skip ws (i + 1)" by (subst bs_skip.simps) simp
    with 2 "1.IH" show ?thesis by (simp add: upt_conv_Cons)
  next
    case 3
    then have "bs_skip ws i = bs_settle ws i (ws ! i)" by (simp add: bs_skip.simps bs_settle.simps)
    with walk_settle [OF 3(1)] 3 show ?thesis by (simp add: upt_conv_Cons)
  qed
qed

definition bs_bit :: "BitSet \<Rightarrow> nat \<Rightarrow> bool" where
  "bs_bit bs i \<longleftrightarrow> i < bs_capacity bs \<and> bit (bs_data bs ! (i div 64)) (i mod 64)"

definition bs_inv :: "BitSet \<Rightarrow> bool" where
  "bs_inv bs \<longleftrightarrow> pow2_or_zero (bs_capacity bs)
     \<and> length (bs_data bs) = (if bs_capacity bs = 0 then 0 else if bs_capacity bs < 64 then 1 else bs_capacity bs div 64)
     \<and> (\<forall>i < length (bs_data bs) * 64. bit (bs_data bs ! (i div 64)) (i mod 64) \<longrightarrow> i < bs_capacity bs)"

lemma pow2_words: "pow2_or_zero c \<Longrightarrow> 64 \<le> c \<Longrightarrow> c div 64 * 64 = c"
proof -
  assume "pow2_or_zero c" "64 \<le> c"
  then obtain n where n: "c = 2 ^ n" by (auto simp: pow2_or_zero_iff)
  with \<open>64 \<le> c\<close> have "(2 :: nat) ^ 6 \<le> 2 ^ n" by simp
  then have "6 \<le> n" by (rule power_le_imp_le_exp [rotated]) simp
  then have "64 dvd c" unfolding n using le_imp_power_dvd [of 6 n "2 :: nat"] by simp
  then show ?thesis by simp
qed

lemma bs_inv_len:
  "bs_inv bs \<Longrightarrow> length (bs_data bs) = (if bs_capacity bs = 0 then 0 else if bs_capacity bs < 64 then 1 else bs_capacity bs div 64)"
  unfolding bs_inv_def by blast

lemma bs_capacity_words:
  assumes "bs_inv bs"
  shows "bs_capacity bs \<le> length (bs_data bs) * 64"
proof (cases "bs_capacity bs < 64")
  case True
  then show ?thesis using bs_inv_len [OF assms] by (cases "bs_capacity bs = 0") simp_all
next
  case False
  then have "length (bs_data bs) * 64 = bs_capacity bs"
    using bs_inv_len [OF assms] pow2_words [of "bs_capacity bs"] assms by (simp add: bs_inv_def)
  then show ?thesis by simp
qed

lemma index64: "(i :: nat) div 64 < n \<longleftrightarrow> i < n * 64"
  by (rule div_less_iff_less_mult) simp

lemma bs_word_index: "bs_inv bs \<Longrightarrow> i < bs_capacity bs \<Longrightarrow> i div 64 < length (bs_data bs)"
  unfolding index64 using bs_capacity_words [of bs] by (metis less_le_trans)

lemma bucket_word: "drop_bit 6 (i :: nat) = i div 64" "(i :: nat) AND 63 = i mod 64"
  using and_mask_nat [of i 6] by (simp_all add: drop_bit_eq_div)

lemma contains_bit [simp]: "bs_inv bs \<Longrightarrow> i < bs_capacity bs \<Longrightarrow> bs_contains bs i = Inr (bs_bit bs i)"
  by (simp add: bs_contains_def bs_word_def bs_bit_def bs_word_index bucket_word bit_iff_odd_drop_bit and_one_eq odd_iff_mod_2_eq_one)

lemma set_bit_eq:
  assumes "bs_inv bs" "i < bs_capacity bs"
  obtains bs' where "bs_set bs i v = Inr bs'" "bs_inv bs'" "bs_capacity bs' = bs_capacity bs"
    "\<And>j. bs_bit bs' j = (if j = i then v else bs_bit bs j)"
proof -
  define w where "w = (if v then bs_data bs ! (i div 64) OR push_bit (i mod 64) 1
    else bs_data bs ! (i div 64) AND NOT (push_bit (i mod 64) 1))"
  define bs' where "bs' = bs\<lparr>bs_data := (bs_data bs)[i div 64 := w]\<rparr>"
  note idx = bs_word_index [OF assms]
  have w: "bit w k = (if k = i mod 64 then v else bit (bs_data bs ! (i div 64)) k)" if "k < 64" for k
    using that unfolding w_def
    by (auto simp: bit_or_iff bit_and_iff bit_not_iff bit_push_bit_iff bit_1_iff simp del: push_bit_of_1)
  have new: "bit (bs_data bs' ! (j div 64)) (j mod 64) = (if j = i then v else bit (bs_data bs ! (j div 64)) (j mod 64))" for j
  proof (cases "j div 64 = i div 64")
    case True
    then have "j mod 64 = i mod 64 \<longleftrightarrow> j = i" by (metis div_mult_mod_eq)
    with True idx w [of "j mod 64"] show ?thesis by (simp add: bs'_def)
  next
    case False
    then show ?thesis by (auto simp: bs'_def)
  qed
  have "bs_set bs i v = Inr bs'" using idx by (simp add: bs_set_def bs_word_def bucket_word Let_def bs'_def w_def)
  moreover have cap: "bs_capacity bs' = bs_capacity bs" "length (bs_data bs') = length (bs_data bs)" by (simp_all add: bs'_def)
  moreover from cap have "bs_inv bs'"
    using assms new unfolding bs_inv_def by (metis (no_types, lifting))
  moreover have "bs_bit bs' j = (if j = i then v else bs_bit bs j)" for j
    using new [of j] assms(2) cap(1) by (auto simp: bs_bit_def)
  ultimately show thesis using that by blast
qed

lemma bs_new_inv:
  assumes "pow2_or_zero c"
  obtains bs where "bs_new c = Inr bs" "bs_inv bs" "bs_capacity bs = c" "\<And>i. \<not> bs_bit bs i"
proof -
  define bs where "bs = \<lparr>bs_capacity = c, bs_data = (if c \<noteq> 0 then replicate (if c < 64 then 1 else drop_bit 6 c) (0 :: u64) else [])\<rparr>"
  have zero: "i < length (bs_data bs) \<Longrightarrow> bs_data bs ! i = 0" for i by (auto simp: bs_def split: if_splits)
  then have none: "i < length (bs_data bs) * 64 \<Longrightarrow> \<not> bit (bs_data bs ! (i div 64)) k" for i k
    using zero [of "i div 64"] unfolding index64 by simp
  have "length (bs_data bs) = (if c = 0 then 0 else if c < 64 then 1 else c div 64)" "bs_capacity bs = c"
    by (simp_all add: bs_def bucket_word)
  with none have "bs_inv bs" using assms unfolding bs_inv_def by blast
  moreover from this have "\<not> bs_bit bs i" for i using zero bs_word_index [of bs i] by (auto simp: bs_bit_def)
  moreover have "bs_new c = Inr bs" "bs_capacity bs = c" using assms by (simp_all add: bs_new_def bs_def)
  ultimately show thesis using that by blast
qed

lemma bs_empty_inv [simp]: "bs_inv bs_empty" "bs_capacity bs_empty = 0" "\<not> bs_bit bs_empty i"
  by (simp_all add: bs_inv_def bs_empty_def bs_bit_def)

lemma bs_clear_inv:
  assumes "bs_inv bs"
  shows "bs_inv (bs_clear bs) \<and> bs_capacity (bs_clear bs) = bs_capacity bs \<and> \<not> bs_bit (bs_clear bs) i"
proof -
  let ?bs = "bs_clear bs"
  have same: "length (bs_data ?bs) = length (bs_data bs)" "bs_capacity ?bs = bs_capacity bs" by (simp_all add: bs_clear_def)
  have none: "i < length (bs_data ?bs) * 64 \<Longrightarrow> \<not> bit (bs_data ?bs ! (i div 64)) k" for i k
    unfolding index64 [symmetric] by (simp add: bs_clear_def)
  with assms have inv: "bs_inv ?bs" unfolding bs_inv_def same by blast
  with none [of i] bs_capacity_words [OF inv] same show ?thesis by (auto simp: bs_bit_def)
qed

lemma filter_blocks:
  "filter P [0..<n * 64] = concat (map (\<lambda>i. map (\<lambda>j. i * 64 + j) (filter (\<lambda>j. P (i * 64 + j)) [0..<64])) [0..<n])"
proof (induction n)
  case (Suc n)
  have "[0..<Suc n * 64] = [0..<n * 64] @ [n * 64..<n * 64 + 64]"
    using upt_add_eq_append [of 0 "n * 64" 64] by (simp only: le0 simp_thms mult_Suc add.commute)
  moreover have "[n * 64..<n * 64 + 64] = map (\<lambda>j. n * 64 + j) [0..<64]"
    using map_add_upt [of "n * 64" 64] by (simp only: add.commute)
  ultimately show ?case using Suc by (simp add: filter_map comp_def)
qed simp

text \<open>The iterator visits the buckets in use, in order.\<close>

lemma buckets_list:
  assumes "bs_inv bs"
  shows "bs_buckets bs = Inr (filter (bs_bit bs) [0..<bs_capacity bs])"
proof -
  let ?n = "length (bs_data bs)" and ?P = "\<lambda>i. bit (bs_data bs ! (i div 64)) (i mod 64)"
  have "word_buckets i w = map (\<lambda>j. i * 64 + j) (filter (bit w) [0..<64])" for i w by (simp add: word_buckets_def)
  moreover have "filter (bit (bs_data bs ! i)) [0..<64] = filter (\<lambda>j. ?P (i * 64 + j)) [0..<64]" for i
    by (rule filter_cong) auto
  ultimately have "bs_walk (bs_data bs) (bs_begin (bs_data bs)) = Some (filter ?P [0..<?n * 64])"
    by (simp add: bs_begin_def walk_skip filter_blocks)
  moreover have "[0..<?n * 64] = [0..<bs_capacity bs] @ [bs_capacity bs..<?n * 64]"
    using upt_add_eq_append [of 0 "bs_capacity bs" "?n * 64 - bs_capacity bs"] bs_capacity_words [OF assms]
    by (simp only: le0 simp_thms le_add_diff_inverse)
  moreover have "filter ?P [bs_capacity bs..<?n * 64] = []"
    unfolding filter_empty_conv using assms [unfolded bs_inv_def] by (metis atLeastLessThan_iff not_le set_upt)
  moreover have "filter ?P [0..<bs_capacity bs] = filter (bs_bit bs) [0..<bs_capacity bs]"
    by (rule filter_cong) (auto simp: bs_bit_def)
  ultimately show ?thesis by (simp add: bs_buckets_def terminates_def)
qed

end
