(* ===== verification/DenseHash2.thy ===== *)
theory DenseHash2
  imports DenseBitSet
begin

text \<open>
  \<^verbatim>\<open>Common/include/Luau/DenseHash2.h\<close>: hash table with Fibonacci hashing, linear probing and
  deletion without tombstones. A bit set says which buckets hold an item; the buckets are raw
  storage. The probe loop \<^verbatim>\<open>for (;;)\<close> and the deletion loop have no bound of their own, so they are
  partial functions and their termination is a theorem.

  Capacities are natural numbers; \<^verbatim>\<open>size_t\<close> arithmetic that can wrap (the differences in
  \<^verbatim>\<open>doErase\<close>) is written out modulo \<open>2 ^ 64\<close>.
\<close>

section \<open>DenseHashTable2\<close>

record ('k, 'i) traits2 =
  hasher2 :: "'k \<Rightarrow> u64"
  getKey2 :: "'i \<Rightarrow> 'k"
  makeItem2 :: "'k \<Rightarrow> 'i"

definition ItemInterfaceSet2 :: "('k \<Rightarrow> u64) \<Rightarrow> ('k, 'k) traits2" where
  "ItemInterfaceSet2 h = \<lparr>hasher2 = h, getKey2 = (\<lambda>item. item), makeItem2 = (\<lambda>key. key)\<rparr>"

definition ItemInterfaceMap2 :: "('k \<Rightarrow> u64) \<Rightarrow> 'v \<Rightarrow> ('k, 'k \<times> 'v) traits2" where
  "ItemInterfaceMap2 h dflt = \<lparr>hasher2 = h, getKey2 = fst, makeItem2 = (\<lambda>key. (key, dflt))\<rparr>"

record 'i DenseHashTable2 =
  d2_data :: "'i cells"
  d2_used :: BitSet
  d2_count :: nat
  d2_hashShift :: nat

abbreviation d2_capacity :: "'i DenseHashTable2 \<Rightarrow> nat" where
  "d2_capacity t \<equiv> length (d2_data t)"

definition d2_new :: "nat \<Rightarrow> 'i DenseHashTable2 cpp" where
  "d2_new buckets =
     bindE (bs_new buckets) (\<lambda>used.
     bindE (guardE (pow2_or_zero buckets) (AssertionFailed ''buckets'')) (\<lambda>_.
       Inr \<lparr>d2_data = allocate buckets, d2_used = used, d2_count = 0,
            d2_hashShift = (if buckets \<noteq> 0 then 64 - countTrailingZeroes (word_of_nat buckets) else 64)\<rparr>))"

definition d2_doHash :: "('k, 'i) traits2 \<Rightarrow> 'i DenseHashTable2 \<Rightarrow> 'k \<Rightarrow> nat cpp" where
  "d2_doHash T t key =
     (if 64 \<le> d2_hashShift t then Inl UndefinedShift
      else Inr (unat (drop_bit (d2_hashShift t) (hasher2 T key * 11400714819323198485))))"

partial_function (option) d2_probe ::
  "('k, 'i) traits2 \<Rightarrow> 'i DenseHashTable2 \<Rightarrow> 'k \<Rightarrow> nat \<Rightarrow> (nat \<times> bool) cpp option" where
  "d2_probe T t key bucket =
     (case bs_contains (d2_used t) bucket of
        Inl e \<Rightarrow> Some (Inl e)
      | Inr c \<Rightarrow>
          if \<not> c then Some (Inr (bucket, False))
          else (case cell_get (d2_data t) bucket of
                  Inl e \<Rightarrow> Some (Inl e)
                | Inr item \<Rightarrow>
                    if getKey2 T item = key then Some (Inr (bucket, True))
                    else d2_probe T t key ((bucket + 1) AND (d2_capacity t - 1))))"

definition d2_getBucket :: "('k, 'i) traits2 \<Rightarrow> 'i DenseHashTable2 \<Rightarrow> 'k \<Rightarrow> (nat \<times> bool) cpp" where
  "d2_getBucket T t key =
     bindE (guardE (d2_count t < d2_capacity t) (AssertionFailed ''count < capacity'')) (\<lambda>_.
     bindE (d2_doHash T t key) (\<lambda>bucket. terminates (d2_probe T t key bucket)))"

definition d2_insert_unsafe :: "('k, 'i) traits2 \<Rightarrow> 'i DenseHashTable2 \<Rightarrow> 'k \<Rightarrow> ('i DenseHashTable2 \<times> nat) cpp" where
  "d2_insert_unsafe T t key =
     bindE (d2_getBucket T t key) (\<lambda>(bucket, found).
       if \<not> found
       then bindE (bs_set (d2_used t) bucket True) (\<lambda>used.
            bindE (cell_new (d2_data t) bucket (makeItem2 T key)) (\<lambda>items.
              Inr (t\<lparr>d2_used := used, d2_data := items, d2_count := d2_count t + 1\<rparr>, bucket)))
       else Inr (t, bucket))"

definition d2_find :: "('k, 'i) traits2 \<Rightarrow> 'i DenseHashTable2 \<Rightarrow> 'k \<Rightarrow> nat option cpp" where
  "d2_find T t key =
     (if d2_count t = 0 then Inr None
      else bindE (d2_getBucket T t key) (\<lambda>(bucket, found). Inr (if found then Some bucket else None)))"

definition d2_destroy_items :: "'i DenseHashTable2 \<Rightarrow> 'i cells cpp" where
  "d2_destroy_items t = bindE (bs_buckets (d2_used t)) (\<lambda>buckets. foldE cell_destroy (d2_data t) buckets)"

definition d2_destroy :: "'i DenseHashTable2 \<Rightarrow> 'i DenseHashTable2 cpp" where
  "d2_destroy t =
     bindE (d2_destroy_items t) (\<lambda>items. bindE (deallocate items) (\<lambda>_.
       Inr (t\<lparr>d2_data := [], d2_used := bs_empty, d2_hashShift := 64\<rparr>)))"

definition d2_clear :: "nat \<Rightarrow> 'i DenseHashTable2 \<Rightarrow> 'i DenseHashTable2 cpp" where
  "d2_clear thresholdToDestroy t =
     (if d2_count t = 0 then Inr t
      else bindE (if thresholdToDestroy < d2_capacity t then d2_destroy t
                  else bindE (d2_destroy_items t) (\<lambda>items.
                    Inr (t\<lparr>d2_data := items, d2_used := bs_clear (d2_used t)\<rparr>))) (\<lambda>t.
        Inr (t\<lparr>d2_count := 0\<rparr>)))"

text \<open>The copy constructor, and the move constructor with what it leaves of the old table.\<close>

definition d2_copy :: "'i DenseHashTable2 \<Rightarrow> 'i DenseHashTable2 cpp" where
  "d2_copy other =
     (if d2_capacity other \<noteq> 0
      then bindE (bs_new (d2_capacity other)) (\<lambda>used.
           bindE (bs_buckets (d2_used other)) (\<lambda>buckets.
           bindE (foldE (\<lambda>(items, used) bucket.
               bindE (cell_get (d2_data other) bucket) (\<lambda>item.
               bindE (cell_new items bucket item) (\<lambda>items.
               bindE (bs_set used bucket True) (\<lambda>used. Inr (items, used)))))
             (allocate (d2_capacity other), used) buckets) (\<lambda>(items, used).
             Inr \<lparr>d2_data = items, d2_used = used, d2_count = d2_count other, d2_hashShift = d2_hashShift other\<rparr>)))
      else Inr \<lparr>d2_data = [], d2_used = bs_empty, d2_count = d2_count other, d2_hashShift = d2_hashShift other\<rparr>)"

definition d2_move :: "'i DenseHashTable2 \<Rightarrow> 'i DenseHashTable2 \<times> 'i DenseHashTable2" where
  "d2_move other = (other, \<lparr>d2_data = [], d2_used = bs_empty, d2_count = 0, d2_hashShift = 64\<rparr>)"

definition d2_grow_step ::
  "('k, 'i) traits2 \<Rightarrow> 'i DenseHashTable2 \<Rightarrow> 'i DenseHashTable2 \<Rightarrow> nat \<Rightarrow> 'i DenseHashTable2 cpp" where
  "d2_grow_step T t newtable bucket =
     bindE (cell_get (d2_data t) bucket) (\<lambda>item.
     bindE (d2_getBucket T newtable (getKey2 T item)) (\<lambda>(dest, found).
     bindE (guardE (\<not> found) (AssertionFailed ''!found'')) (\<lambda>_.
     bindE (bs_set (d2_used newtable) dest True) (\<lambda>used.
     bindE (cell_new (d2_data newtable) dest item) (\<lambda>items.
       Inr (newtable\<lparr>d2_used := used, d2_count := d2_count newtable + 1, d2_data := items\<rparr>))))))"

definition d2_grow :: "('k, 'i) traits2 \<Rightarrow> 'i DenseHashTable2 \<Rightarrow> 'i DenseHashTable2 cpp" where
  "d2_grow T t =
     bindE (d2_new (if d2_capacity t = 0 then 16 else d2_capacity t * 2)) (\<lambda>newtable.
     bindE (bs_buckets (d2_used t)) (\<lambda>buckets.
     bindE (foldE (d2_grow_step T t) newtable buckets) (\<lambda>newtable.
     bindE (guardE (d2_count t = d2_count newtable) (AssertionFailed ''count == newtable.count'')) (\<lambda>_.
     bindE (d2_destroy t) (\<lambda>_.
       Inr (t\<lparr>d2_data := d2_data newtable, d2_used := d2_used newtable, d2_hashShift := d2_hashShift newtable\<rparr>))))))"

definition d2_rehash_if_full :: "('k, 'i) traits2 \<Rightarrow> 'i DenseHashTable2 \<Rightarrow> 'k \<Rightarrow> 'i DenseHashTable2 cpp" where
  "d2_rehash_if_full T t key =
     (if d2_capacity t * 3 div 4 \<le> d2_count t
      then bindE (d2_find T t key) (\<lambda>r. if r = None then d2_grow T t else Inr t)
      else Inr t)"

text \<open>
  Deletion. \<open>i\<close> is the bucket to be vacated, \<open>j\<close> the bucket under inspection; an item whose
  probe sequence passes through \<open>i\<close> is moved there. The result names the bucket that is vacated in
  the end, the only one whose destructor runs.
\<close>

partial_function (option) d2_shift ::
  "('k, 'i) traits2 \<Rightarrow> 'i DenseHashTable2 \<Rightarrow> nat \<Rightarrow> nat \<Rightarrow> ('i DenseHashTable2 \<times> nat) cpp option" where
  "d2_shift T t i j =
     (let hashmod = d2_capacity t - 1;
          j = (j + 1) AND hashmod
      in case bs_contains (d2_used t) j of
           Inl e \<Rightarrow> Some (Inl e)
         | Inr c \<Rightarrow>
             if \<not> c then Some (Inr (t, i))
             else (case bindE (cell_get (d2_data t) j) (\<lambda>curr. d2_doHash T t (getKey2 T curr)) of
                     Inl e \<Rightarrow> Some (Inl e)
                   | Inr r \<Rightarrow>
                       if ((i + 2 ^ 64 - r) mod 2 ^ 64) AND hashmod < ((j + 2 ^ 64 - r) mod 2 ^ 64) AND hashmod
                       then (case bindE (bs_set (d2_used t) i True) (\<lambda>used.
                                  bindE (bs_set used j False) (\<lambda>used.
                                  bindE (cell_get (d2_data t) j) (\<lambda>item.
                                  bindE (cell_new (d2_data t) i item) (\<lambda>items.
                                    Inr (t\<lparr>d2_used := used, d2_data := items\<rparr>))))) of
                               Inl e \<Rightarrow> Some (Inl e)
                             | Inr t \<Rightarrow> d2_shift T t j j)
                       else d2_shift T t i j))"

definition d2_doErase :: "('k, 'i) traits2 \<Rightarrow> 'i DenseHashTable2 \<Rightarrow> nat \<Rightarrow> ('i DenseHashTable2 \<times> nat) cpp" where
  "d2_doErase T t bucket =
     bindE (terminates (d2_shift T t bucket bucket)) (\<lambda>(t, i).
     bindE (bs_set (d2_used t) i False) (\<lambda>used.
     bindE (cell_destroy (d2_data t) i) (\<lambda>items.
       Inr (t\<lparr>d2_used := used, d2_data := items, d2_count := d2_count t - 1\<rparr>, i))))"

definition d2_erase :: "('k, 'i) traits2 \<Rightarrow> 'i DenseHashTable2 \<Rightarrow> 'k \<Rightarrow> 'i DenseHashTable2 cpp" where
  "d2_erase T t key =
     (if d2_count t = 0 then Inr t
      else bindE (d2_getBucket T t key) (\<lambda>(bucket, found).
        if found then bindE (d2_doErase T t bucket) (\<lambda>(t, _). Inr t) else Inr t))"

text \<open>Iterators of the table: the next bucket in use from an index on.\<close>

partial_function (option) d2_skip :: "'i DenseHashTable2 \<Rightarrow> nat \<Rightarrow> nat cpp option" where
  "d2_skip t index =
     (if index < d2_capacity t
      then (case bs_contains (d2_used t) index of
              Inl e \<Rightarrow> Some (Inl e)
            | Inr c \<Rightarrow> if \<not> c then d2_skip t (index + 1) else Some (Inr index))
      else Some (Inr index))"

definition d2_begin :: "'i DenseHashTable2 \<Rightarrow> nat cpp" where
  "d2_begin t = terminates (d2_skip t 0)"

definition d2_next :: "'i DenseHashTable2 \<Rightarrow> nat \<Rightarrow> nat cpp" where
  "d2_next t index = terminates (d2_skip t (index + 1))"

partial_function (option) d2_walk :: "'i DenseHashTable2 \<Rightarrow> nat \<Rightarrow> 'i list cpp option" where
  "d2_walk t index =
     (if index = d2_capacity t then Some (Inr [])
      else case bindE (cell_get (d2_data t) index) (\<lambda>item. bindE (d2_next t index) (\<lambda>index. Inr (item, index))) of
             Inl e \<Rightarrow> Some (Inl e)
           | Inr (item, index) \<Rightarrow>
               Option.bind (d2_walk t index) (\<lambda>r. Some (bindE r (\<lambda>items. Inr (item # items)))))"

definition d2_iterate :: "'i DenseHashTable2 \<Rightarrow> 'i list cpp" where
  "d2_iterate t = bindE (d2_begin t) (\<lambda>index. terminates (d2_walk t index))"

section \<open>DenseHashSet2 and DenseHashMap2\<close>

definition dhs2_insert :: "('k, 'k) traits2 \<Rightarrow> 'k DenseHashTable2 \<Rightarrow> 'k \<Rightarrow> ('k DenseHashTable2 \<times> nat) cpp" where
  "dhs2_insert T t key = bindE (d2_rehash_if_full T t key) (\<lambda>t. d2_insert_unsafe T t key)"

definition d2_contains :: "('k, 'i) traits2 \<Rightarrow> 'i DenseHashTable2 \<Rightarrow> 'k \<Rightarrow> bool cpp" where
  "d2_contains T t key = bindE (d2_find T t key) (\<lambda>r. Inr (r \<noteq> None))"

fun dhs2_all_in :: "('k, 'k) traits2 \<Rightarrow> 'k DenseHashTable2 \<Rightarrow> 'k list \<Rightarrow> bool cpp" where
  "dhs2_all_in T other [] = Inr True"
| "dhs2_all_in T other (k # ks) = bindE (d2_contains T other k) (\<lambda>b. if \<not> b then Inr False else dhs2_all_in T other ks)"

definition dhs2_eq :: "('k, 'k) traits2 \<Rightarrow> 'k DenseHashTable2 \<Rightarrow> 'k DenseHashTable2 \<Rightarrow> bool cpp" where
  "dhs2_eq T s other =
     (if d2_count s \<noteq> d2_count other then Inr False
      else bindE (d2_iterate s) (\<lambda>ks. dhs2_all_in T other ks))"

definition dhm2_index ::
  "('k, 'k \<times> 'v) traits2 \<Rightarrow> ('k \<times> 'v) DenseHashTable2 \<Rightarrow> 'k \<Rightarrow> (('k \<times> 'v) DenseHashTable2 \<times> nat) cpp" where
  "dhm2_index T t key = bindE (d2_rehash_if_full T t key) (\<lambda>t. d2_insert_unsafe T t key)"

definition assign_second :: "('k \<times> 'v) DenseHashTable2 \<Rightarrow> nat \<Rightarrow> 'v \<Rightarrow> ('k \<times> 'v) DenseHashTable2 cpp" where
  "assign_second t i v =
     bindE (cell_get (d2_data t) i) (\<lambda>item. Inr (t\<lparr>d2_data := (d2_data t)[i := Some (fst item, v)]\<rparr>))"

definition dhm2_set ::
  "('k, 'k \<times> 'v) traits2 \<Rightarrow> ('k \<times> 'v) DenseHashTable2 \<Rightarrow> 'k \<Rightarrow> 'v \<Rightarrow> ('k \<times> 'v) DenseHashTable2 cpp" where
  "dhm2_set T t key value = bindE (dhm2_index T t key) (\<lambda>(t, i). assign_second t i value)"

definition dhm2_find :: "('k, 'k \<times> 'v) traits2 \<Rightarrow> ('k \<times> 'v) DenseHashTable2 \<Rightarrow> 'k \<Rightarrow> 'v option cpp" where
  "dhm2_find T t key =
     bindE (d2_find T t key) (\<lambda>r.
       case r of None \<Rightarrow> Inr None | Some i \<Rightarrow> bindE (cell_get (d2_data t) i) (\<lambda>item. Inr (Some (snd item))))"

definition dhm2_try_insert ::
  "('k, 'k \<times> 'v) traits2 \<Rightarrow> ('k \<times> 'v) DenseHashTable2 \<Rightarrow> 'k \<Rightarrow> 'v \<Rightarrow> (('k \<times> 'v) DenseHashTable2 \<times> 'v \<times> bool) cpp" where
  "dhm2_try_insert T t key value =
     bindE (d2_rehash_if_full T t key) (\<lambda>t.
     let before = d2_count t in
     bindE (d2_insert_unsafe T t key) (\<lambda>(t, slot).
     let fresh = before < d2_count t in
     bindE (if fresh then assign_second t slot value else Inr t) (\<lambda>t.
     bindE (cell_get (d2_data t) slot) (\<lambda>item. Inr (t, snd item, fresh)))))"

section \<open>Invariant and abstraction\<close>

definition d2_slot :: "('k, 'i) traits2 \<Rightarrow> 'i DenseHashTable2 \<Rightarrow> nat \<Rightarrow> 'k option" where
  "d2_slot T t i = (if i < d2_capacity t then map_option (getKey2 T) (d2_data t ! i) else None)"

definition d2_home :: "('k, 'i) traits2 \<Rightarrow> 'i DenseHashTable2 \<Rightarrow> 'k \<Rightarrow> nat" where
  "d2_home T t key = unat (drop_bit (d2_hashShift t) (hasher2 T key * 11400714819323198485))"

abbreviation d2_seq :: "('k, 'i) traits2 \<Rightarrow> 'i DenseHashTable2 \<Rightarrow> 'k \<Rightarrow> nat \<Rightarrow> nat" where
  "d2_seq T t \<equiv> linear_seq (64 - d2_hashShift t) (d2_home T t)"

text \<open>The storage: bit set, shift and buckets agree on the capacity, and a bucket holds an object when its bit is set.\<close>

definition d2_layout :: "'i DenseHashTable2 \<Rightarrow> bool" where
  "d2_layout t \<longleftrightarrow> bs_inv (d2_used t) \<and> bs_capacity (d2_used t) = d2_capacity t
     \<and> (if d2_capacity t = 0 then d2_hashShift t = 64
        else 0 < d2_hashShift t \<and> d2_hashShift t \<le> 64 \<and> d2_capacity t = 2 ^ (64 - d2_hashShift t))
     \<and> (\<forall>i < d2_capacity t. bs_bit (d2_used t) i \<longleftrightarrow> d2_data t ! i \<noteq> None)"

definition d2_wf :: "('k, 'i) traits2 \<Rightarrow> 'i DenseHashTable2 \<Rightarrow> bool" where
  "d2_wf T t \<longleftrightarrow> d2_layout t
     \<and> d2_count t = length (filter (\<lambda>c. c \<noteq> None) (d2_data t))
     \<and> unique_keys (d2_capacity t) (d2_slot T t)
     \<and> reachable_keys (d2_capacity t) (d2_seq T t) (d2_slot T t)"

definition d2_inv :: "('k, 'i) traits2 \<Rightarrow> 'i DenseHashTable2 \<Rightarrow> bool" where
  "d2_inv T t \<longleftrightarrow> d2_wf T t \<and> d2_count t \<le> d2_capacity t * 3 div 4"

definition d2_items :: "'i DenseHashTable2 \<Rightarrow> 'i list" where
  "d2_items t = map the (filter (\<lambda>c. c \<noteq> None) (d2_data t))"

definition d2_lookup :: "('k, 'i) traits2 \<Rightarrow> 'i DenseHashTable2 \<Rightarrow> 'k \<Rightarrow> 'i option" where
  "d2_lookup T t = map_of (map (\<lambda>item. (getKey2 T item, item)) (d2_items t))"

section \<open>Contents\<close>

lemma slot_Some: "d2_slot T t i = Some k \<longleftrightarrow> i < d2_capacity t \<and> (\<exists>item. d2_data t ! i = Some item \<and> getKey2 T item = k)"
  by (simp add: d2_slot_def)

lemma slot_None: "i < d2_capacity t \<Longrightarrow> d2_slot T t i = None \<longleftrightarrow> d2_data t ! i = None"
  by (simp add: d2_slot_def)

lemma set_items: "item \<in> set (d2_items t) \<longleftrightarrow> (\<exists>i < d2_capacity t. d2_data t ! i = Some item)"
  by (force simp: d2_items_def image_iff in_set_conv_nth)

lemma d2_lookup_None: "d2_lookup T t k = None \<longleftrightarrow> (\<forall>i < d2_capacity t. d2_slot T t i \<noteq> Some k)"
proof -
  have "d2_lookup T t k = None \<longleftrightarrow> (\<forall>item \<in> set (d2_items t). getKey2 T item \<noteq> k)"
    by (auto simp: d2_lookup_def map_of_eq_None_iff image_image)
  also have "\<dots> \<longleftrightarrow> (\<forall>i < d2_capacity t. d2_slot T t i \<noteq> Some k)"
    unfolding Ball_def set_items slot_Some by blast
  finally show ?thesis .
qed

lemma distinct_items:
  assumes "unique_keys (d2_capacity t) (d2_slot T t)"
  shows "distinct (map (getKey2 T) (d2_items t))"
proof -
  let ?f = "map_option (getKey2 T)"
  have "distinct (map ?f (filter (\<lambda>c. ?f c \<noteq> None) (d2_data t)))"
    using assms by (intro distinct_used) (auto simp: unique_keys_def d2_slot_def)
  also have "map ?f (filter (\<lambda>c. ?f c \<noteq> None) (d2_data t)) = map Some (map (getKey2 T) (d2_items t))"
    by (auto simp: d2_items_def)
  finally show ?thesis using distinct_map [of Some "map (getKey2 T) (d2_items t)"] by blast
qed

lemma d2_lookup_Some:
  assumes "unique_keys (d2_capacity t) (d2_slot T t)"
  shows "d2_lookup T t k = Some item \<longleftrightarrow> (\<exists>i < d2_capacity t. d2_data t ! i = Some item \<and> getKey2 T item = k)"
  using distinct_items [OF assms]
  by (auto simp: d2_lookup_def map_of_eq_Some_iff comp_def set_items image_iff)

lemma d2_card_lookup:
  assumes "d2_wf T t"
  shows "d2_count t = card (dom (d2_lookup T t))"
proof -
  have "dom (d2_lookup T t) = getKey2 T ` set (d2_items t)" by (simp add: d2_lookup_def dom_map_of_conv_image_fst image_image)
  moreover have "distinct (map (getKey2 T) (d2_items t))" using assms distinct_items by (auto simp: d2_wf_def)
  moreover have "d2_count t = length (d2_items t)" using assms by (simp add: d2_wf_def d2_items_def)
  ultimately show ?thesis using distinct_card [of "map (getKey2 T) (d2_items t)"] by simp
qed

lemma d2_free_slot:
  assumes "d2_wf T t" "d2_count t < d2_capacity t"
  obtains i where "i < d2_capacity t" "d2_slot T t i = None"
proof -
  from assms have "length (filter (\<lambda>c. c \<noteq> None) (d2_data t)) \<noteq> length (d2_data t)" by (simp add: d2_wf_def)
  then obtain c where "c \<in> set (d2_data t)" "c = None" by (metis (mono_tags, lifting) filter_True)
  then show thesis using that by (auto simp: in_set_conv_nth d2_slot_def)
qed

section \<open>Probing\<close>

lemma layout_power: "d2_layout t \<Longrightarrow> i < d2_capacity t \<Longrightarrow> d2_capacity t = 2 ^ (64 - d2_hashShift t)"
  by (auto simp: d2_layout_def split: if_splits)

lemma layout_power1: "d2_layout t \<Longrightarrow> 1 < d2_capacity t \<Longrightarrow> d2_capacity t = 2 ^ (64 - d2_hashShift t)"
  by (erule layout_power) (rule less_trans [OF zero_less_one])

lemma home_less: "d2_layout t \<Longrightarrow> 1 < d2_capacity t \<Longrightarrow> d2_doHash T t key = Inr (d2_home T t key) \<and> d2_home T t key < d2_capacity t"
proof -
  assume l: "d2_layout t" "1 < d2_capacity t"
  then have c: "d2_capacity t = 2 ^ (64 - d2_hashShift t)" "0 < d2_hashShift t" "d2_hashShift t \<noteq> 64" "d2_hashShift t \<le> 64"
    by (auto simp: d2_layout_def split: if_splits)
  let ?w = "hasher2 T key * 11400714819323198485 :: u64"
  have "unat ?w < 2 ^ (64 - d2_hashShift t) * 2 ^ d2_hashShift t"
    using c(4) unsigned_less [of ?w, where ?'a = nat] by (simp flip: power_add)
  then have "unat ?w div 2 ^ d2_hashShift t < 2 ^ (64 - d2_hashShift t)" by (simp add: less_mult_imp_div_less)
  with c show ?thesis by (simp add: d2_doHash_def d2_home_def unat_drop_bit_div)
qed

lemma d2_seq_0: "d2_layout t \<Longrightarrow> 1 < d2_capacity t \<Longrightarrow> d2_home T t k = d2_seq T t k 0"
  using home_less [of t T k] layout_power1 [of t] by (simp add: linear_seq_def)

lemma d2_seq_Suc:
  assumes "d2_layout t" "1 < d2_capacity t"
  shows "(d2_seq T t k p + 1) AND (d2_capacity t - 1) = d2_seq T t k (Suc p)"
  unfolding layout_power [OF assms(1) less_trans [OF zero_less_one assms(2)]] and_mask_nat linear_seq_def
  by (simp add: mod_Suc_eq)

lemma d2_seq_inside: "d2_layout t \<Longrightarrow> i < d2_capacity t \<Longrightarrow> d2_seq T t k p < d2_capacity t"
  using layout_power [of t i] by (simp add: linear_seq_def)

lemma d2_seq_inside1: "d2_layout t \<Longrightarrow> 1 < d2_capacity t \<Longrightarrow> d2_seq T t k p < d2_capacity t"
  by (erule d2_seq_inside) (rule less_trans [OF zero_less_one])

lemma d2_contains_slot: "d2_layout t \<Longrightarrow> i < d2_capacity t \<Longrightarrow> bs_contains (d2_used t) i = Inr (d2_slot T t i \<noteq> None)"
  by (simp add: d2_layout_def d2_slot_def)

lemma probe_ends:
  assumes "d2_layout t" "1 < d2_capacity t" "stops (d2_slot T t) (d2_seq T t) key (probe_end (d2_slot T t) (d2_seq T t) key)"
    and "p \<le> probe_end (d2_slot T t) (d2_seq T t) key"
  defines "b \<equiv> target (d2_slot T t) (d2_seq T t) key"
  shows "d2_probe T t key (d2_seq T t key p) = Some (Inr (b, d2_slot T t b \<noteq> None))"
  using assms(4)
proof (induction "probe_end (d2_slot T t) (d2_seq T t) key - p" arbitrary: p)
  case 0
  then have b: "b = d2_seq T t key p" "stops (d2_slot T t) (d2_seq T t) key p"
    using assms(3) by (simp_all add: b_def target_def)
  have "b < d2_capacity t" unfolding b(1) by (rule d2_seq_inside1 [OF assms(1,2)])
  then show ?case unfolding b(1) [symmetric]
    using b d2_contains_slot [OF assms(1), of b T]
    by (subst d2_probe.simps) (auto simp: stops_def d2_slot_def split: option.splits)
next
  case (Suc d)
  then have lt: "p < probe_end (d2_slot T t) (d2_seq T t) key" by simp
  let ?i = "d2_seq T t key p"
  have i: "?i < d2_capacity t" by (rule d2_seq_inside1 [OF assms(1,2)])
  from before_end [OF lt] obtain item where item: "d2_data t ! ?i = Some item" "getKey2 T item \<noteq> key"
    using i by (auto simp: stops_def d2_slot_def)
  then have "d2_probe T t key ?i = d2_probe T t key (d2_seq T t key (Suc p))"
    using d2_contains_slot [OF assms(1) i, of T] i slot_None [OF i, of T] d2_seq_Suc [OF assms(1,2), of T key p]
    by (subst d2_probe.simps) simp
  also have "\<dots> = Some (Inr (b, d2_slot T t b \<noteq> None))" using Suc lt by simp
  finally show ?case .
qed

lemma getBucket_target:
  fixes T :: "('k, 'i) traits2" and key
  assumes "d2_wf T t" "1 < d2_capacity t" "d2_count t < d2_capacity t"
  defines "b \<equiv> target (d2_slot T t) (d2_seq T t) key"
  shows "d2_getBucket T t key = Inr (b, d2_slot T t b \<noteq> None)" "b < d2_capacity t"
proof -
  from assms(1) have l: "d2_layout t" by (simp add: d2_wf_def)
  from d2_free_slot [OF assms(1,3)] obtain i where i: "i < d2_capacity t" "d2_slot T t i = None" .
  note c = layout_power [OF l i(1)]
  from linear.end_stops [of i "64 - d2_hashShift t" "d2_slot T t" "d2_home T t" key] i c
  have "stops (d2_slot T t) (d2_seq T t) key (probe_end (d2_slot T t) (d2_seq T t) key)" by simp
  from probe_ends [OF l assms(2) this, of 0] home_less [OF l assms(2), of T key] assms(3)
  show "d2_getBucket T t key = Inr (b, d2_slot T t b \<noteq> None)"
    by (simp add: d2_getBucket_def terminates_def b_def flip: d2_seq_0 [OF l assms(2)])
  show "b < d2_capacity t" using d2_seq_inside [OF l i(1)] by (simp add: b_def target_def)
qed

lemma target_of_present:
  assumes "d2_wf T t" "d2_slot T t i = Some k"
  shows "target (d2_slot T t) (d2_seq T t) k = i"
proof -
  from assms have i: "i < d2_capacity t" and l: "d2_layout t" by (auto simp: slot_Some d2_wf_def)
  from linear.target_present(1) [of "64 - d2_hashShift t" "d2_home T t" "d2_slot T t" i k] assms i layout_power [OF l i]
  show ?thesis by (simp add: d2_wf_def)
qed

lemma target_of_absent:
  assumes "d2_wf T t" "d2_count t < d2_capacity t" "d2_lookup T t k = None"
  defines "b \<equiv> target (d2_slot T t) (d2_seq T t) k"
  shows "d2_slot T t b = None" "reachable_keys (d2_capacity t) (d2_seq T t) ((d2_slot T t)(b := Some k))"
    "unique_keys (d2_capacity t) ((d2_slot T t)(b := Some k))"
proof -
  from d2_free_slot [OF assms(1,2)] obtain i where i: "i < d2_capacity t" "d2_slot T t i = None" .
  have c: "d2_capacity t = 2 ^ (64 - d2_hashShift t)" using assms(1) layout_power [of t i] i(1) by (simp add: d2_wf_def)
  have a: "\<forall>i < d2_capacity t. d2_slot T t i \<noteq> Some k" using assms(3) by (simp add: d2_lookup_None)
  from linear.target_absent(1) [of "64 - d2_hashShift t" "d2_slot T t" k i "d2_home T t"] a i c
  show "d2_slot T t b = None" by (simp add: b_def)
  from linear.insert_reachable [of "64 - d2_hashShift t" "d2_home T t" "d2_slot T t" k i] a i c assms(1)
  show "reachable_keys (d2_capacity t) (d2_seq T t) ((d2_slot T t)(b := Some k))" by (simp add: b_def d2_wf_def)
  from linear.insert_unique [of "64 - d2_hashShift t" "d2_slot T t" k b] a c assms(1)
  show "unique_keys (d2_capacity t) ((d2_slot T t)(b := Some k))" by (simp add: d2_wf_def)
qed

section \<open>Insertion\<close>

lemma put_item:
  assumes "d2_wf T t" "1 < d2_capacity t" "d2_count t < d2_capacity t" "d2_lookup T t k = None" "getKey2 T item = k"
  defines "b \<equiv> target (d2_slot T t) (d2_seq T t) k"
  obtains used t' where "bs_set (d2_used t) b True = Inr used" "b < d2_capacity t"
    "t' = t\<lparr>d2_used := used, d2_data := (d2_data t)[b := Some item], d2_count := d2_count t + 1\<rparr>"
    "d2_wf T t'" "d2_lookup T t' = (d2_lookup T t)(k \<mapsto> item)"
proof -
  note tg = target_of_absent [OF assms(1,3,4), folded b_def]
  from assms(1) have l: "d2_layout t" and bs: "bs_inv (d2_used t)" "bs_capacity (d2_used t) = d2_capacity t"
    by (auto simp: d2_wf_def d2_layout_def)
  have b: "b < d2_capacity t" using d2_seq_inside1 [OF l assms(2)] by (simp add: b_def target_def)
  then have free: "d2_data t ! b = None" using tg(1) by (simp add: slot_None)
  obtain used where used: "bs_set (d2_used t) b True = Inr used" "bs_inv used" "bs_capacity used = d2_capacity t"
    "\<And>j. bs_bit used j = (if j = b then True else bs_bit (d2_used t) j)"
    using set_bit_eq [OF bs(1), of b True] b bs(2) by metis
  define t' where "t' = t\<lparr>d2_used := used, d2_data := (d2_data t)[b := Some item], d2_count := d2_count t + 1\<rparr>"
  have slot: "d2_slot T t' = (d2_slot T t)(b := Some k)"
    using b assms(5) by (auto simp: fun_eq_iff d2_slot_def t'_def nth_list_update)
  have home: "d2_home T t' = d2_home T t" by (intro ext) (simp add: d2_home_def t'_def)
  have same: "d2_capacity t' = d2_capacity t" "d2_hashShift t' = d2_hashShift t" "d2_used t' = used" by (simp_all add: t'_def)
  have "d2_layout t'" using l used b unfolding d2_layout_def same by (auto simp: t'_def nth_list_update)
  moreover have "d2_count t' = length (filter (\<lambda>c. c \<noteq> None) (d2_data t'))"
    using assms(1) b free length_filter_update [of b "d2_data t" "\<lambda>c. c \<noteq> None" "Some item"] by (simp add: d2_wf_def t'_def)
  ultimately have wf: "d2_wf T t'" using tg(2,3) by (simp only: d2_wf_def slot home same)
  have u: "unique_keys (d2_capacity t') (d2_slot T t')" "unique_keys (d2_capacity t) (d2_slot T t)"
    using wf assms(1) by (simp_all only: d2_wf_def)
  have "d2_lookup T t' k' = Some x \<longleftrightarrow> ((d2_lookup T t)(k \<mapsto> item)) k' = Some x" for k' x
  proof (cases "k' = k")
    case True
    have "d2_lookup T t' k = Some item" using b assms(5) by (subst d2_lookup_Some [OF u(1)]) (auto simp: t'_def)
    with True show ?thesis by auto
  next
    case False
    have "(d2_data t' ! i = Some x \<and> getKey2 T x = k') \<longleftrightarrow> (d2_data t ! i = Some x \<and> getKey2 T x = k')" if "i < d2_capacity t" for i
      using False that free assms(5) by (cases "i = b") (auto simp: t'_def)
    with False show ?thesis using d2_lookup_Some [OF u(1), of k' x] d2_lookup_Some [OF u(2), of k' x] same(1) by auto
  qed
  then have "d2_lookup T t' = (d2_lookup T t)(k \<mapsto> item)" by (rule map_ext_Some)
  from that [OF used(1) b t'_def wf this] show thesis .
qed

text \<open>An object may be assigned to, as long as its key stays the same.\<close>

lemma d2_replace_item:
  assumes "d2_wf T t" "d2_data t ! b = Some old" "b < d2_capacity t" "getKey2 T old = k" "getKey2 T item = k"
  defines "t' \<equiv> t\<lparr>d2_data := (d2_data t)[b := Some item]\<rparr>"
  shows "d2_wf T t'" "d2_lookup T t' = (d2_lookup T t)(k \<mapsto> item)"
proof -
  have slot: "d2_slot T t' = d2_slot T t"
    using assms(2-5) by (auto simp: fun_eq_iff d2_slot_def t'_def nth_list_update)
  have home: "d2_home T t' = d2_home T t" by (intro ext) (simp add: d2_home_def t'_def)
  have same: "d2_capacity t' = d2_capacity t" "d2_hashShift t' = d2_hashShift t" "d2_used t' = d2_used t" "d2_count t' = d2_count t"
    by (simp_all add: t'_def)
  have cell: "d2_data t' ! i \<noteq> None \<longleftrightarrow> d2_data t ! i \<noteq> None" for i
    using assms(2,3) by (cases "i = b") (auto simp: t'_def)
  have "d2_layout t'" using assms(1) unfolding d2_wf_def d2_layout_def same cell by blast
  moreover have "d2_count t' = length (filter (\<lambda>c. c \<noteq> None) (d2_data t'))"
    using assms(1-3) length_filter_same [of b "d2_data t" "\<lambda>c. c \<noteq> None" "Some item"] by (simp add: d2_wf_def t'_def)
  ultimately show wf: "d2_wf T t'" using assms(1) by (simp only: d2_wf_def slot home same)
  have u: "unique_keys (d2_capacity t') (d2_slot T t')" "unique_keys (d2_capacity t) (d2_slot T t)"
    using wf assms(1) by (simp_all only: d2_wf_def)
  have "d2_lookup T t' k' = Some x \<longleftrightarrow> ((d2_lookup T t)(k \<mapsto> item)) k' = Some x" for k' x
  proof (cases "k' = k")
    case True
    have "d2_lookup T t' k = Some item" using assms(3,5) by (subst d2_lookup_Some [OF u(1)]) (auto simp: t'_def)
    with True show ?thesis by auto
  next
    case False
    have "(d2_data t' ! i = Some x \<and> getKey2 T x = k') \<longleftrightarrow> (d2_data t ! i = Some x \<and> getKey2 T x = k')" if "i < d2_capacity t" for i
      using False that assms(2,4,5) by (cases "i = b") (auto simp: t'_def)
    with False show ?thesis using d2_lookup_Some [OF u(1), of k' x] d2_lookup_Some [OF u(2), of k' x] same(1) by auto
  qed
  then show "d2_lookup T t' = (d2_lookup T t)(k \<mapsto> item)" by (rule map_ext_Some)
qed

lemma d2_insert_absent:
  assumes "d2_wf T t" "1 < d2_capacity t" "d2_count t < d2_capacity t" "d2_lookup T t k = None" "getKey2 T (makeItem2 T k) = k"
  obtains t' b where "d2_insert_unsafe T t k = Inr (t', b)" "d2_wf T t'" "d2_lookup T t' = (d2_lookup T t)(k \<mapsto> makeItem2 T k)"
    "d2_capacity t' = d2_capacity t" "d2_count t' = d2_count t + 1" "b < d2_capacity t'" "d2_data t' ! b = Some (makeItem2 T k)"
proof -
  note g = getBucket_target [OF assms(1-3), of k]
  obtain used t' where p: "bs_set (d2_used t) (target (d2_slot T t) (d2_seq T t) k) True = Inr used"
    "target (d2_slot T t) (d2_seq T t) k < d2_capacity t"
    "t' = t\<lparr>d2_used := used, d2_data := (d2_data t)[target (d2_slot T t) (d2_seq T t) k := Some (makeItem2 T k)],
      d2_count := d2_count t + 1\<rparr>"
    "d2_wf T t'" "d2_lookup T t' = (d2_lookup T t)(k \<mapsto> makeItem2 T k)"
    using put_item [OF assms] .
  have "d2_insert_unsafe T t k = Inr (t', target (d2_slot T t) (d2_seq T t) k)"
    using g p(1-3) target_of_absent(1) [OF assms(1,3,4)] by (simp add: d2_insert_unsafe_def)
  from that [OF this p(4,5)] p(2,3) show thesis by simp
qed

lemma d2_find_lookup:
  assumes "d2_inv T t"
  obtains r where "d2_find T t k = Inr r" "(case r of None \<Rightarrow> None | Some i \<Rightarrow> d2_data t ! i) = d2_lookup T t k"
    "\<And>i. r = Some i \<Longrightarrow> i < d2_capacity t \<and> d2_slot T t i = Some k"
proof -
  from assms have wf: "d2_wf T t" "unique_keys (d2_capacity t) (d2_slot T t)" by (auto simp: d2_inv_def d2_wf_def)
  show thesis
  proof (cases "d2_count t = 0")
    case True
    then have "d2_data t ! i = None" if "i < d2_capacity t" for i
      using wf(1) that by (auto simp: d2_wf_def filter_empty_conv dest: nth_mem)
    then have "d2_lookup T t k = None" by (auto simp: d2_lookup_None d2_slot_def)
    with True that [of None] show thesis by (simp add: d2_find_def)
  next
    case False
    then have c: "1 < d2_capacity t" "d2_count t < d2_capacity t" using assms by (auto simp: d2_inv_def)
    let ?b = "target (d2_slot T t) (d2_seq T t) k"
    note g = getBucket_target [OF wf(1) c, of k]
    show thesis
    proof (cases "d2_lookup T t k")
      case None
      with g target_of_absent(1) [OF wf(1) c(2) None] False that [of None] show thesis by (simp add: d2_find_def)
    next
      case (Some item)
      then obtain i where i: "i < d2_capacity t" "d2_data t ! i = Some item" "getKey2 T item = k"
        using d2_lookup_Some [OF wf(2)] by blast
      then have "d2_slot T t i = Some k" by (simp add: d2_slot_def)
      moreover from target_of_present [OF wf(1) this] have "?b = i" .
      ultimately show thesis using g i Some False that [of "Some i"] by (simp add: d2_find_def)
    qed
  qed
qed

section \<open>Destruction and growth\<close>

lemma destroy_cells:
  assumes "distinct is" "\<forall>i \<in> set is. i < length cs \<and> cs ! i \<noteq> None"
  shows "foldE cell_destroy cs is = Inr (map (\<lambda>i. if i \<in> set is then None else cs ! i) [0..<length cs])"
  using assms
proof (induction "is" arbitrary: cs)
  case Nil
  show ?case by (simp, intro nth_equalityI) auto
next
  case (Cons i "is")
  then obtain x where x: "i < length cs" "cs ! i = Some x" by auto
  have "foldE cell_destroy (cs[i := None]) is
      = Inr (map (\<lambda>j. if j \<in> set is then None else cs[i := None] ! j) [0..<length (cs[i := None])])"
    using Cons.prems by (intro Cons.IH) (auto simp: nth_list_update)
  also have "map (\<lambda>j. if j \<in> set is then None else cs[i := None] ! j) [0..<length (cs[i := None])]
      = map (\<lambda>j. if j \<in> set (i # is) then None else cs ! j) [0..<length cs]"
    using x by (intro nth_equalityI) (auto simp: nth_list_update)
  finally show ?case using x by simp
qed

lemma used_buckets:
  assumes "d2_layout t"
  shows "bs_buckets (d2_used t) = Inr (filter (\<lambda>i. d2_data t ! i \<noteq> None) [0..<d2_capacity t])"
proof -
  have "filter (bs_bit (d2_used t)) [0..<d2_capacity t] = filter (\<lambda>i. d2_data t ! i \<noteq> None) [0..<d2_capacity t]"
    using assms by (intro filter_cong) (auto simp: d2_layout_def)
  then show ?thesis using assms buckets_list [of "d2_used t"] by (simp add: d2_layout_def)
qed

lemma destroy_items_all:
  assumes "d2_layout t"
  shows "d2_destroy_items t = Inr (allocate (d2_capacity t))"
proof -
  let ?is = "filter (\<lambda>i. d2_data t ! i \<noteq> None) [0..<d2_capacity t]"
  have "foldE cell_destroy (d2_data t) ?is = Inr (map (\<lambda>i. if i \<in> set ?is then None else d2_data t ! i) [0..<d2_capacity t])"
    by (rule destroy_cells) auto
  also have "map (\<lambda>i. if i \<in> set ?is then None else d2_data t ! i) [0..<d2_capacity t] = allocate (d2_capacity t)"
    by (intro nth_equalityI) auto
  finally show ?thesis by (simp add: d2_destroy_items_def used_buckets [OF assms])
qed

lemma deallocate_fresh [simp]: "deallocate (allocate n) = Inr ()"
  by (simp add: deallocate_def allocate_def)

lemma destroy_empties:
  "d2_layout t \<Longrightarrow> d2_destroy t = Inr (t\<lparr>d2_data := [], d2_used := bs_empty, d2_hashShift := 64\<rparr>)"
  by (simp add: d2_destroy_def destroy_items_all)

lemma ctz_power: "n < 64 \<Longrightarrow> countTrailingZeroes (2 ^ n) = n"
proof -
  assume n: "n < 64"
  let ?w = "2 ^ n :: u64"
  have b: "bit ?w j \<longleftrightarrow> j = n" if "j < 64" for j using that n by (simp add: bit_exp_iff)
  have "?w \<noteq> 0" using b [OF n] by force
  from bit_minus_1 [OF this] b show ?thesis by blast
qed

lemma new_table2:
  assumes "c = 0 \<or> (\<exists>n < 64. c = 2 ^ n)"
  obtains t :: "'i DenseHashTable2" where "d2_new c = Inr t" "d2_inv T t" "d2_lookup T t = Map.empty" "d2_capacity t = c" "d2_count t = 0"
proof -
  from assms have p: "pow2_or_zero c" by auto
  from bs_new_inv [OF p] obtain bs where bs: "bs_new c = Inr bs" "bs_inv bs" "bs_capacity bs = c" "\<And>i. \<not> bs_bit bs i" by blast
  define t :: "'i DenseHashTable2" where "t = \<lparr>d2_data = allocate c, d2_used = bs, d2_count = 0,
     d2_hashShift = (if c \<noteq> 0 then 64 - countTrailingZeroes (word_of_nat c) else 64)\<rparr>"
  have "c = 0 \<and> d2_hashShift t = 64 \<or> c \<noteq> 0 \<and> 0 < d2_hashShift t \<and> d2_hashShift t \<le> 64 \<and> c = 2 ^ (64 - d2_hashShift t)"
    using assms by (auto simp: t_def ctz_power)
  then have "d2_layout t" using bs by (auto simp: d2_layout_def t_def)
  moreover have "filter (\<lambda>c. c \<noteq> None) (allocate c :: 'i cells) = []" by (simp add: allocate_def filter_empty_conv)
  ultimately have "d2_inv T t"
    by (auto simp: d2_inv_def d2_wf_def unique_keys_def reachable_keys_def d2_slot_def t_def)
  moreover have "d2_lookup T t = Map.empty"
    using \<open>filter (\<lambda>c. c \<noteq> None) (allocate c :: 'i cells) = []\<close> by (simp add: d2_lookup_def d2_items_def t_def)
  moreover have "d2_new c = Inr t" using bs p by (simp add: d2_new_def t_def)
  ultimately show thesis using that [of t] by (simp add: t_def)
qed

lemma grow_step:
  assumes "d2_wf T nt" "1 < d2_capacity nt" "d2_count nt < d2_capacity nt" "d2_lookup T nt (getKey2 T item) = None"
    and "cell_get (d2_data t) i = Inr item"
  obtains nt' where "d2_grow_step T t nt i = Inr nt'" "d2_wf T nt'" "d2_capacity nt' = d2_capacity nt"
    "d2_count nt' = d2_count nt + 1" "d2_lookup T nt' = (d2_lookup T nt)(getKey2 T item \<mapsto> item)"
proof -
  let ?b = "target (d2_slot T nt) (d2_seq T nt) (getKey2 T item)"
  obtain used nt' where p: "bs_set (d2_used nt) ?b True = Inr used" "?b < d2_capacity nt"
    "nt' = nt\<lparr>d2_used := used, d2_data := (d2_data nt)[?b := Some item], d2_count := d2_count nt + 1\<rparr>"
    "d2_wf T nt'" "d2_lookup T nt' = (d2_lookup T nt)(getKey2 T item \<mapsto> item)"
    using put_item [OF assms(1-4) refl] .
  have "d2_grow_step T t nt i = Inr nt'"
    using getBucket_target [OF assms(1-3), of "getKey2 T item"] target_of_absent(1) [OF assms(1,3,4)] p(1-3) assms(5)
    by (simp add: d2_grow_step_def)
  from that [OF this p(4) _ _ p(5)] p(3) show thesis by simp
qed

lemma grow_steps:
  assumes "d2_wf T nt" "1 < d2_capacity nt" "d2_count nt + length is < d2_capacity nt"
    and "\<forall>i \<in> set is. cell_get (d2_data t) i = Inr (f i)" "distinct (map (\<lambda>i. getKey2 T (f i)) is)"
    and "\<forall>i \<in> set is. d2_lookup T nt (getKey2 T (f i)) = None"
  shows "\<exists>nt'. foldE (d2_grow_step T t) nt is = Inr nt' \<and> d2_wf T nt' \<and> d2_capacity nt' = d2_capacity nt
    \<and> d2_count nt' = d2_count nt + length is
    \<and> d2_lookup T nt' = d2_lookup T nt ++ map_of (map (\<lambda>i. (getKey2 T (f i), f i)) is)"
  using assms
proof (induction "is" arbitrary: nt)
  case (Cons i "is")
  let ?m = "map_of (map (\<lambda>i. (getKey2 T (f i), f i)) is)"
  have room: "d2_count nt < d2_capacity nt" "d2_lookup T nt (getKey2 T (f i)) = None" "cell_get (d2_data t) i = Inr (f i)"
    using Cons.prems by auto
  from grow_step [OF Cons.prems(1,2) room] obtain n1 where n1: "d2_grow_step T t nt i = Inr n1" "d2_wf T n1"
    "d2_capacity n1 = d2_capacity nt" "d2_count n1 = d2_count nt + 1"
    "d2_lookup T n1 = (d2_lookup T nt)(getKey2 T (f i) \<mapsto> f i)" .
  have "\<exists>nt'. foldE (d2_grow_step T t) n1 is = Inr nt' \<and> d2_wf T nt' \<and> d2_capacity nt' = d2_capacity n1
    \<and> d2_count nt' = d2_count n1 + length is \<and> d2_lookup T nt' = d2_lookup T n1 ++ ?m"
    using Cons.prems n1 by (intro Cons.IH) (auto simp: image_iff)
  then obtain n' where n': "foldE (d2_grow_step T t) n1 is = Inr n'" "d2_wf T n'" "d2_capacity n' = d2_capacity n1"
    "d2_count n' = d2_count n1 + length is" "d2_lookup T n' = d2_lookup T n1 ++ ?m" by blast
  have "getKey2 T (f i) \<notin> dom ?m" using Cons.prems(5) by (simp add: dom_map_of_conv_image_fst image_image)
  then have look: "d2_lookup T n' = d2_lookup T nt ++ map_of (map (\<lambda>i. (getKey2 T (f i), f i)) (i # is))"
    unfolding n'(5) n1(5) by (simp add: map_add_upd_left)
  show ?case by (intro exI [of _ n'] conjI look) (use n1(1,3,4) n'(1-4) in simp_all)
qed simp

lemma bucket_items: "map (\<lambda>i. the (d2_data t ! i)) (filter (\<lambda>i. d2_data t ! i \<noteq> None) [0..<d2_capacity t]) = d2_items t"
proof -
  have "d2_items t = map the (filter (\<lambda>c. c \<noteq> None) (map (\<lambda>i. d2_data t ! i) [0..<d2_capacity t]))"
    by (simp add: d2_items_def map_nth)
  then show ?thesis by (simp add: filter_map comp_def)
qed

lemma grow_table:
  assumes "d2_inv T t" "d2_capacity t = 0 \<or> (\<exists>n < 63. d2_capacity t = 2 ^ n)"
  obtains t' where "d2_grow T t = Inr t'" "d2_inv T t'" "d2_lookup T t' = d2_lookup T t" "d2_count t' = d2_count t"
    "d2_count t' < d2_capacity t' * 3 div 4" "1 < d2_capacity t'"
proof -
  let ?n = "if d2_capacity t = 0 then 16 else d2_capacity t * 2"
  let ?is = "filter (\<lambda>i. d2_data t ! i \<noteq> None) [0..<d2_capacity t]"
  from assms(1) have wf: "d2_wf T t" "d2_layout t" "d2_count t \<le> d2_capacity t * 3 div 4"
    and u: "unique_keys (d2_capacity t) (d2_slot T t)" by (auto simp: d2_inv_def d2_wf_def)
  have "\<exists>n < 64. ?n = 2 ^ n"
  proof (cases "d2_capacity t = 0")
    case True
    then show ?thesis by (intro exI [of _ 4]) simp
  next
    case False
    with assms(2) obtain n where "n < 63" "d2_capacity t = 2 ^ n" by blast
    then show ?thesis by (intro exI [of _ "Suc n"]) simp
  qed
  then have "?n = 0 \<or> (\<exists>n < 64. ?n = 2 ^ n)" by blast
  then obtain n0 :: "'b DenseHashTable2" where n0: "d2_new ?n = Inr n0" "d2_inv T n0" "d2_lookup T n0 = Map.empty" "d2_capacity n0 = ?n" "d2_count n0 = 0"
    by (rule new_table2)
  have len: "d2_count t = length ?is"
    using wf(1) arg_cong [OF bucket_items [of t], of length] by (simp add: d2_wf_def d2_items_def)
  have c: "d2_count t < ?n * 3 div 4" "d2_count t < ?n" "1 < ?n"
    using wf(3) load_double [of "d2_capacity t" "d2_count t"] by (auto split: if_splits)
  have "distinct (map (\<lambda>i. getKey2 T (the (d2_data t ! i))) ?is)"
    using distinct_items [OF u] bucket_items [of t] by (metis (no_types, lifting) list.map_comp comp_apply map_eq_conv)
  with grow_steps [of T n0 ?is t "\<lambda>i. the (d2_data t ! i)"] n0 c len
  obtain n1 where n1: "foldE (d2_grow_step T t) n0 ?is = Inr n1" "d2_wf T n1" "d2_capacity n1 = ?n" "d2_count n1 = d2_count t"
    "d2_lookup T n1 = map_of (map (\<lambda>i. (getKey2 T (the (d2_data t ! i)), the (d2_data t ! i))) ?is)"
    by (auto simp: d2_inv_def)
  have "map (\<lambda>i. (getKey2 T (the (d2_data t ! i)), the (d2_data t ! i))) ?is = map (\<lambda>item. (getKey2 T item, item)) (d2_items t)"
    by (simp flip: bucket_items)
  with n1(5) have look: "d2_lookup T n1 = d2_lookup T t" by (simp add: d2_lookup_def)
  have "t\<lparr>d2_data := d2_data n1, d2_used := d2_used n1, d2_hashShift := d2_hashShift n1\<rparr> = n1" using n1(4) by (cases t; cases n1) simp
  then have "d2_grow T t = Inr n1"
    using n0(1) n1(1,4) by (simp add: d2_grow_def used_buckets [OF wf(2)] destroy_empties [OF wf(2)])
  moreover have "d2_inv T n1" using n1 c by (simp add: d2_inv_def)
  ultimately show thesis using that [of n1] look n1 c by simp
qed

text \<open>Below this number of elements the doubled capacity fits into 64 bits.\<close>

definition d2_limit :: nat where "d2_limit = 2 ^ 60"

lemma capacity_bounded:
  assumes "d2_inv T t" "d2_count t < d2_limit" "d2_capacity t * 3 div 4 \<le> d2_count t"
  shows "d2_capacity t = 0 \<or> (\<exists>n < 63. d2_capacity t = 2 ^ n)"
proof (cases "d2_capacity t = 0")
  case False
  with assms(1) have c: "d2_capacity t = 2 ^ (64 - d2_hashShift t)" by (auto simp: d2_inv_def d2_wf_def d2_layout_def)
  have "\<not> 63 \<le> 64 - d2_hashShift t"
  proof
    assume "63 \<le> 64 - d2_hashShift t"
    then have "(2 :: nat) ^ 63 \<le> d2_capacity t" unfolding c by (rule power_increasing) simp
    then have "2 ^ 63 * 3 div 4 \<le> d2_capacity t * 3 div 4" by (intro div_le_mono mult_le_mono1)
    with assms(2,3) show False by (simp add: d2_limit_def)
  qed
  with c show ?thesis by auto
qed simp

lemma d2_rehash_if_full:
  assumes "d2_inv T t" "d2_count t < d2_limit"
  obtains t' where "d2_rehash_if_full T t k = Inr t'" "d2_inv T t'" "d2_lookup T t' = d2_lookup T t" "d2_count t' = d2_count t"
    "d2_lookup T t k = None \<Longrightarrow> d2_count t' < d2_capacity t' * 3 div 4" "d2_lookup T t k = None \<Longrightarrow> 1 < d2_capacity t'"
proof -
  obtain r where r: "d2_find T t k = Inr r" "(case r of None \<Rightarrow> None | Some i \<Rightarrow> d2_data t ! i) = d2_lookup T t k"
    "\<And>i. r = Some i \<Longrightarrow> i < d2_capacity t \<and> d2_slot T t i = Some k" using d2_find_lookup [OF assms(1), of k] by blast
  show thesis
  proof (cases "d2_capacity t * 3 div 4 \<le> d2_count t \<and> r = None")
    case True
    with r grow_table [OF assms(1) capacity_bounded [OF assms]] that show thesis by (auto simp: d2_rehash_if_full_def)
  next
    case False
    then have t: "d2_rehash_if_full T t k = Inr t" using r by (auto simp: d2_rehash_if_full_def)
    have room: "d2_lookup T t k = None \<Longrightarrow> d2_count t < d2_capacity t * 3 div 4"
      using False r(2,3) by (cases r) (auto simp: slot_Some)
    have "d2_lookup T t k = None \<Longrightarrow> 1 < d2_capacity t"
      using room by (cases "d2_capacity t \<le> 1") (auto simp: le_Suc_eq)
    with room show thesis by (rule that [OF t assms(1) refl refl])
  qed
qed

lemma d2_insert_present:
  assumes "d2_wf T t" "1 < d2_capacity t" "d2_count t < d2_capacity t" "d2_slot T t i = Some k"
  shows "d2_insert_unsafe T t k = Inr (t, i)"
  using getBucket_target(1) [OF assms(1-3), of k] target_of_present [OF assms(1,4)] assms(4)
  by (simp add: d2_insert_unsafe_def)

text \<open>The step that \<^verbatim>\<open>insert\<close>, \<^verbatim>\<open>operator[]\<close> and \<^verbatim>\<open>try_insert\<close> share.\<close>

lemma d2_upsert:
  assumes "d2_inv T t" "d2_count t < d2_limit" "getKey2 T (makeItem2 T k) = k"
  obtains t1 t' b item where "d2_rehash_if_full T t k = Inr t1" "d2_count t1 = d2_count t" "d2_insert_unsafe T t1 k = Inr (t', b)"
    "d2_inv T t'" "b < d2_capacity t'" "d2_data t' ! b = Some item" "getKey2 T item = k"
    "item = (case d2_lookup T t k of None \<Rightarrow> makeItem2 T k | Some item \<Rightarrow> item)"
    "d2_lookup T t' = (d2_lookup T t)(k \<mapsto> item)" "d2_count t < d2_count t' \<longleftrightarrow> d2_lookup T t k = None"
proof -
  from d2_rehash_if_full [OF assms(1,2), of k] obtain t1 where t1: "d2_rehash_if_full T t k = Inr t1" "d2_inv T t1"
    "d2_lookup T t1 = d2_lookup T t" "d2_count t1 = d2_count t"
    "d2_lookup T t k = None \<Longrightarrow> d2_count t1 < d2_capacity t1 * 3 div 4" "d2_lookup T t k = None \<Longrightarrow> 1 < d2_capacity t1" by blast
  from t1(2) have wf: "d2_wf T t1" "unique_keys (d2_capacity t1) (d2_slot T t1)" by (auto simp: d2_inv_def d2_wf_def)
  show thesis
  proof (cases "d2_lookup T t k")
    case None
    then have load: "d2_count t1 < d2_capacity t1 * 3 div 4" "1 < d2_capacity t1" "d2_count t1 < d2_capacity t1" "d2_lookup T t1 k = None"
      using t1(3,5,6) by auto
    obtain t' b where t': "d2_insert_unsafe T t1 k = Inr (t', b)" "d2_wf T t'" "d2_lookup T t' = (d2_lookup T t1)(k \<mapsto> makeItem2 T k)"
      "d2_capacity t' = d2_capacity t1" "d2_count t' = d2_count t1 + 1" "b < d2_capacity t'" "d2_data t' ! b = Some (makeItem2 T k)"
      using d2_insert_absent [OF wf(1) load(2-4) assms(3)] .
    have "d2_inv T t'" using t'(2,4,5) load(1) by (simp add: d2_inv_def)
    with that [OF t1(1,4) t'(1) _ t'(6,7) assms(3)] t'(3,5) t1(3,4) None show thesis by simp
  next
    case (Some item)
    with t1(3) obtain i where i: "i < d2_capacity t1" "d2_data t1 ! i = Some item" "getKey2 T item = k"
      using d2_lookup_Some [OF wf(2), of k item] by auto
    then have "d2_slot T t1 i = Some k" by (simp add: d2_slot_def)
    moreover have "d2_count t1 \<noteq> 0" using wf(1) i(2) nth_mem [OF i(1)] by (force simp: d2_wf_def filter_empty_conv)
    then have "1 < d2_capacity t1" "d2_count t1 < d2_capacity t1" using t1(2) by (auto simp: d2_inv_def)
    ultimately have "d2_insert_unsafe T t1 k = Inr (t1, i)" using d2_insert_present [OF wf(1)] by blast
    moreover have "d2_lookup T t1 = (d2_lookup T t)(k \<mapsto> item)" using t1(3) Some by (simp add: fun_upd_idem)
    ultimately show thesis using that [OF t1(1,4) _ t1(2) i] Some t1(4) by simp
  qed
qed

section \<open>Deletion\<close>

text \<open>
  The number of steps from one bucket to another around the table. Every bucket between the home of
  a key and the place of the key is in use; while an item is deleted, the vacated bucket \<open>i\<close> may be
  missing from the sequences of those items that the loop has not reached yet.
\<close>

definition ring_dist :: "nat \<Rightarrow> nat \<Rightarrow> nat \<Rightarrow> nat" where
  "ring_dist c a b = (if a \<le> b then b - a else b + c - a)"

definition compact :: "nat \<Rightarrow> ('k \<Rightarrow> nat) \<Rightarrow> (nat \<Rightarrow> 'k option) \<Rightarrow> bool" where
  "compact c home s \<longleftrightarrow> (\<forall>x < c. \<forall>k. s x = Some k \<longrightarrow>
     (\<forall>y < c. ring_dist c (home k) y < ring_dist c (home k) x \<longrightarrow> s y \<noteq> None))"

definition compact_but :: "nat \<Rightarrow> ('k \<Rightarrow> nat) \<Rightarrow> (nat \<Rightarrow> 'k option) \<Rightarrow> nat \<Rightarrow> nat \<Rightarrow> bool" where
  "compact_but c home s i j \<longleftrightarrow> s i = None \<and> (\<forall>x < c. \<forall>k. s x = Some k \<longrightarrow>
     (\<forall>y < c. ring_dist c (home k) y < ring_dist c (home k) x \<longrightarrow>
        s y \<noteq> None \<or> y = i \<and> ring_dist c i j < ring_dist c i x))"

lemma ring_dist_self [simp]: "ring_dist c i i = 0"
  by (simp add: ring_dist_def)

lemma ring_dist_less: "a < c \<Longrightarrow> b < c \<Longrightarrow> ring_dist c a b < c"
  by (auto simp: ring_dist_def)

lemma ring_dist_inj: "i < c \<Longrightarrow> x < c \<Longrightarrow> y < c \<Longrightarrow> ring_dist c i x = ring_dist c i y \<Longrightarrow> x = y"
  by (auto simp: ring_dist_def split: if_splits)

lemma ring_dist_pos: "i < c \<Longrightarrow> x < c \<Longrightarrow> x \<noteq> i \<Longrightarrow> 0 < ring_dist c i x"
  by (auto simp: ring_dist_def)

lemma ring_dist_add:
  "a < c \<Longrightarrow> i < c \<Longrightarrow> x < c \<Longrightarrow> ring_dist c a i < ring_dist c a x \<Longrightarrow> ring_dist c a x = ring_dist c a i + ring_dist c i x"
  by (auto simp: ring_dist_def split: if_splits)

lemma ring_dist_via:
  "a < c \<Longrightarrow> i < c \<Longrightarrow> x < c \<Longrightarrow> ring_dist c a i + ring_dist c i x < c \<Longrightarrow> ring_dist c a x = ring_dist c a i + ring_dist c i x"
  by (auto simp: ring_dist_def split: if_splits)

lemma next_bucket:
  assumes "i < c" "j < c" "f < c" "ring_dist c i j < ring_dist c i f" "c = 2 ^ n"
  defines "j' \<equiv> (j + 1) AND (c - 1)"
  shows "j' < c" "ring_dist c i j' = ring_dist c i j + 1" "j' \<noteq> i" "Suc (ring_dist c j' f) = ring_dist c j f"
proof -
  have j': "j' = (if j + 1 = c then 0 else j + 1)"
    using assms(2) unfolding j'_def assms(5) and_mask_nat by (auto simp: mod_Suc)
  show "j' < c" using j' assms(2) by auto
  show "ring_dist c i j' = ring_dist c i j + 1" "j' \<noteq> i" "Suc (ring_dist c j' f) = ring_dist c j f"
    using j' assms(1-4) by (auto simp: ring_dist_def split: if_splits)
qed

lemma compact_start: "compact c home s \<Longrightarrow> b < c \<Longrightarrow> compact_but c home (s(b := None)) b b"
  unfolding compact_def compact_but_def by (auto simp: ring_dist_pos)

lemma compact_stop:
  assumes home: "\<And>k. home k < c" and ij: "i < c" "j' < c" "ring_dist c i j' = ring_dist c i j + 1" "j' \<noteq> i"
    and but: "compact_but c home s i j" and slot: "s j' = None"
  shows "compact c home s"
  unfolding compact_def
proof (intro allI impI)
  fix x k y assume x: "x < c" "s x = Some k" and y: "y < c" "ring_dist c (home k) y < ring_dist c (home k) x"
  show "s y \<noteq> None"
  proof
    assume "s y = None"
    with but x y have i: "y = i" "ring_dist c i j < ring_dist c i x" unfolding compact_but_def by blast+
    have "x \<noteq> j'" using slot x(2) by auto
    with ring_dist_inj [OF ij(1) x(1) ij(2)] i(2) ij(3) have lt: "ring_dist c i j' < ring_dist c i x" by linarith
    from y i have add: "ring_dist c (home k) x = ring_dist c (home k) i + ring_dist c i x"
      using ring_dist_add [OF home [of k] ij(1) x(1)] by simp
    have "ring_dist c (home k) j' = ring_dist c (home k) i + ring_dist c i j'"
      using ring_dist_via [OF home [of k] ij(1,2)] add lt ring_dist_less [OF home [of k] x(1)] by linarith
    with add lt have "ring_dist c (home k) j' < ring_dist c (home k) x" by simp
    with but x ij(2,4) slot show False unfolding compact_but_def by blast
  qed
qed

lemma compact_keep:
  assumes home: "\<And>k. home k < c" and ij: "i < c" "j' < c" "ring_dist c i j' = ring_dist c i j + 1" "j' \<noteq> i"
    and but: "compact_but c home s i j" and slot: "s j' = Some k'" "\<not> ring_dist c (home k') i < ring_dist c (home k') j'"
  shows "compact_but c home s i j'"
  unfolding compact_but_def
proof (intro conjI allI impI)
  show "s i = None" using but by (simp add: compact_but_def)
  fix x k y assume x: "x < c" "s x = Some k" and y: "y < c" "ring_dist c (home k) y < ring_dist c (home k) x"
  from but x y consider "s y \<noteq> None" | "y = i" "ring_dist c i j < ring_dist c i x" unfolding compact_but_def by blast
  then show "s y \<noteq> None \<or> y = i \<and> ring_dist c i j' < ring_dist c i x"
  proof cases
    case 2
    then have "x \<noteq> j'" using slot x y by auto
    with ring_dist_inj [OF ij(1) x(1) ij(2)] 2 ij(3) show ?thesis by fastforce
  qed simp
qed

lemma compact_move:
  assumes home: "\<And>k. home k < c" and ij: "i < c" "j' < c" "ring_dist c i j' = ring_dist c i j + 1" "j' \<noteq> i"
    and but: "compact_but c home s i j" and slot: "s j' = Some k'" "ring_dist c (home k') i < ring_dist c (home k') j'"
  shows "compact_but c home (s(i := Some k', j' := None)) j' j'"
  unfolding compact_but_def
proof (intro conjI allI impI)
  let ?s = "s(i := Some k', j' := None)"
  fix x k y assume x: "x < c" "?s x = Some k" and y: "y < c" "ring_dist c (home k) y < ring_dist c (home k) x"
  have "x \<noteq> j'" using x(2) by auto
  then have far: "ring_dist c j' j' < ring_dist c j' x" using ring_dist_pos [OF ij(2) x(1)] by simp
  have "y = i \<or> y = j' \<or> s y \<noteq> None"
  proof (cases "x = i")
    case True
    then have "k = k'" using x(2) ij(4) by auto
    with True y slot have "ring_dist c (home k') y < ring_dist c (home k') j'" by simp
    with but slot(1) ij(2) y(1) show ?thesis unfolding compact_but_def by blast
  next
    case False
    with x \<open>x \<noteq> j'\<close> have "s x = Some k" by simp
    with but x(1) y show ?thesis unfolding compact_but_def by blast
  qed
  with far show "?s y \<noteq> None \<or> y = j' \<and> ring_dist c j' j' < ring_dist c j' x" by auto
qed simp

text \<open>The same in terms of probe sequences and of the arithmetic of the code.\<close>

lemma reachable_compact:
  assumes "\<And>k. home k < 2 ^ n"
  shows "reachable_keys (2 ^ n) (linear_seq n home) s \<longleftrightarrow> compact (2 ^ n) home s"
proof -
  have seq: "ring_dist (2 ^ n) (home k) (linear_seq n home k p) = p" if "p < 2 ^ n" for k p
    using assms [of k] that by (auto simp: linear_seq_def ring_dist_def mod_ring)
  have dist: "linear_seq n home k (ring_dist (2 ^ n) (home k) x) = x \<and> ring_dist (2 ^ n) (home k) x < 2 ^ n" if "x < 2 ^ n" for k x
    using assms [of k] that by (auto simp: linear_seq_def ring_dist_def mod_ring)
  show ?thesis
  proof
    assume r: "reachable_keys (2 ^ n) (linear_seq n home) s"
    show "compact (2 ^ n) home s" unfolding compact_def
    proof (intro allI impI)
      fix x k y assume x: "x < 2 ^ n" "s x = Some k" and y: "y < 2 ^ n" "ring_dist (2 ^ n) (home k) y < ring_dist (2 ^ n) (home k) x"
      from r x obtain p where "p < 2 ^ n" "linear_seq n home k p = x" "\<forall>q < p. s (linear_seq n home k q) \<noteq> None"
        unfolding reachable_keys_def by blast
      with seq [of p k] y dist [OF y(1), of k] show "s y \<noteq> None" by metis
    qed
  next
    assume c: "compact (2 ^ n) home s"
    show "reachable_keys (2 ^ n) (linear_seq n home) s" unfolding reachable_keys_def
    proof (intro allI impI)
      fix x k assume x: "x < 2 ^ n" "s x = Some k"
      have "s (linear_seq n home k q) \<noteq> None" if "q < ring_dist (2 ^ n) (home k) x" for q
        using c x seq [of q k] that dist [OF x(1), of k] linear.inside [of n home k q] unfolding compact_def by (metis less_trans)
      with dist [OF x(1), of k] show "\<exists>p < 2 ^ n. linear_seq n home k p = x \<and> (\<forall>q < p. s (linear_seq n home k q) \<noteq> None)" by blast
    qed
  qed
qed

lemma wrapped_difference:
  assumes "a < 2 ^ n" "b < 2 ^ n" "n \<le> 63"
  shows "((b + 2 ^ 64 - a) mod 2 ^ 64) AND (2 ^ n - 1) = ring_dist (2 ^ n) a (b :: nat)"
proof -
  have split: "(2 :: nat) ^ 64 = 2 ^ n * 2 ^ (64 - n)" using assms(3) by (simp flip: power_add)
  then have "2 ^ n dvd (2 :: nat) ^ 64" by (rule dvdI)
  then have "((b + 2 ^ 64 - a) mod 2 ^ 64) AND (2 ^ n - 1) = (b + 2 ^ 64 - a) mod 2 ^ n"
    unfolding and_mask_nat by (rule mod_mod_cancel)
  also have "\<dots> = (ring_dist (2 ^ n) a b + 2 ^ n * (if a \<le> b then 2 ^ (64 - n) else 2 ^ (64 - n) - 1)) mod 2 ^ n"
  proof (cases "a \<le> b")
    case True
    then have "b + 2 ^ 64 - a = (b - a) + 2 ^ n * 2 ^ (64 - n)" using split by linarith
    with True show ?thesis by (simp only: ring_dist_def if_True)
  next
    case False
    have "2 ^ n * (2 ^ (64 - n) - 1) = 2 ^ 64 - (2 :: nat) ^ n" unfolding split by (simp only: diff_mult_distrib2 mult_1_right)
    moreover have "(2 :: nat) ^ n \<le> 2 ^ 64" using assms(3) by (intro power_increasing) auto
    ultimately show ?thesis using False assms(1) by (simp add: ring_dist_def)
  qed
  also have "\<dots> = ring_dist (2 ^ n) a b" using assms(1,2) by (simp add: ring_dist_less)
  finally show ?thesis .
qed

definition d2_hole :: "('k, 'i) traits2 \<Rightarrow> 'i DenseHashTable2 \<Rightarrow> nat \<Rightarrow> nat \<Rightarrow> 'k option" where
  "d2_hole T t i = (d2_slot T t)(i := None)"

definition erasing :: "('k, 'i) traits2 \<Rightarrow> 'i DenseHashTable2 \<Rightarrow> nat \<Rightarrow> bool" where
  "erasing T t i \<longleftrightarrow> i < d2_capacity t \<and> d2_data t ! i \<noteq> None
     \<and> bs_inv (d2_used t) \<and> bs_capacity (d2_used t) = d2_capacity t
     \<and> 0 < d2_hashShift t \<and> d2_hashShift t < 64 \<and> d2_capacity t = 2 ^ (64 - d2_hashShift t)
     \<and> (\<forall>x < d2_capacity t. x \<noteq> i \<longrightarrow> (bs_bit (d2_used t) x \<longleftrightarrow> d2_data t ! x \<noteq> None))
     \<and> unique_keys (d2_capacity t) (d2_hole T t i)"

definition erase_result :: "('k, 'i) traits2 \<Rightarrow> 'i DenseHashTable2 \<Rightarrow> nat \<Rightarrow> 'i DenseHashTable2 \<Rightarrow> nat \<Rightarrow> bool" where
  "erase_result T t i t' i' \<longleftrightarrow> erasing T t' i' \<and> compact (d2_capacity t) (d2_home T t) (d2_hole T t' i')
     \<and> d2_capacity t' = d2_capacity t \<and> d2_hashShift t' = d2_hashShift t \<and> d2_count t' = d2_count t
     \<and> (\<forall>x < d2_capacity t. d2_data t' ! x = None \<longleftrightarrow> d2_data t ! x = None)
     \<and> (\<forall>item. (\<exists>x < d2_capacity t. x \<noteq> i' \<and> d2_data t' ! x = Some item) \<longleftrightarrow>
                (\<exists>x < d2_capacity t. x \<noteq> i \<and> d2_data t ! x = Some item))"

lemma doHash_home:
  assumes "erasing T t i"
  shows "d2_doHash T t k = Inr (d2_home T t k)" "d2_home T t k < d2_capacity t"
proof -
  let ?w = "hasher2 T k * 11400714819323198485 :: u64"
  from assms have c: "d2_capacity t = 2 ^ (64 - d2_hashShift t)" "d2_hashShift t < 64" by (auto simp: erasing_def)
  have "unat ?w < 2 ^ (64 - d2_hashShift t) * 2 ^ d2_hashShift t"
    using c(2) unsigned_less [of ?w, where ?'a = nat] by (simp flip: power_add)
  then have "unat ?w div 2 ^ d2_hashShift t < 2 ^ (64 - d2_hashShift t)" by (simp add: less_mult_imp_div_less)
  with c show "d2_home T t k < d2_capacity t" "d2_doHash T t k = Inr (d2_home T t k)"
    by (simp_all add: d2_doHash_def d2_home_def unat_drop_bit_div)
qed

text \<open>Moving an item into the vacated bucket vacates the one it came from.\<close>

lemma move_item:
  assumes "erasing T t i" "j < d2_capacity t" "j \<noteq> i" "d2_data t ! j = Some item"
  obtains used1 used2 t' where "bs_set (d2_used t) i True = Inr used1" "bs_set used1 j False = Inr used2"
    "t' = t\<lparr>d2_used := used2, d2_data := (d2_data t)[i := Some item]\<rparr>" "erasing T t' j"
    "d2_hole T t' j = (d2_hole T t i)(i := Some (getKey2 T item), j := None)"
    "\<forall>x < d2_capacity t. d2_data t' ! x = None \<longleftrightarrow> d2_data t ! x = None"
    "\<forall>item'. (\<exists>x < d2_capacity t. x \<noteq> j \<and> d2_data t' ! x = Some item') \<longleftrightarrow>
       (\<exists>x < d2_capacity t. x \<noteq> i \<and> d2_data t ! x = Some item')"
proof -
  from assms(1) have e: "i < d2_capacity t" "d2_data t ! i \<noteq> None" "bs_inv (d2_used t)" "bs_capacity (d2_used t) = d2_capacity t"
    "\<And>x. x < d2_capacity t \<Longrightarrow> x \<noteq> i \<Longrightarrow> bs_bit (d2_used t) x \<longleftrightarrow> d2_data t ! x \<noteq> None"
    "unique_keys (d2_capacity t) (d2_hole T t i)" unfolding erasing_def by blast+
  obtain used1 where u1: "bs_set (d2_used t) i True = Inr used1" "bs_inv used1" "bs_capacity used1 = d2_capacity t"
    "\<And>x. bs_bit used1 x = (if x = i then True else bs_bit (d2_used t) x)"
    using set_bit_eq [OF e(3), of i True] e(1,4) by metis
  obtain used2 where u2: "bs_set used1 j False = Inr used2" "bs_inv used2" "bs_capacity used2 = d2_capacity t"
    "\<And>x. bs_bit used2 x = (if x = j then False else bs_bit used1 x)"
    using set_bit_eq [OF u1(2), of j False] assms(2) u1(3) by metis
  define t' where "t' = t\<lparr>d2_used := used2, d2_data := (d2_data t)[i := Some item]\<rparr>"
  have items: "d2_data t' ! x = (if x = i then Some item else d2_data t ! x)" for x
    using e(1) by (simp add: t'_def)
  have same: "d2_capacity t' = d2_capacity t" "d2_hashShift t' = d2_hashShift t" "d2_used t' = used2" by (simp_all add: t'_def)
  have slot: "d2_slot T t' x = (if x = i then Some (getKey2 T item) else d2_slot T t x)" for x
    using e(1) by (simp add: d2_slot_def items same(1))
  have hole: "d2_hole T t' j = (d2_hole T t i)(i := Some (getKey2 T item), j := None)"
    by (auto simp: fun_eq_iff d2_hole_def slot)
  have sj: "d2_hole T t i j = Some (getKey2 T item)" using assms(2-4) by (simp add: d2_hole_def d2_slot_def)
  have "unique_keys (d2_capacity t') (d2_hole T t' j)"
    unfolding unique_keys_def same
  proof (intro allI impI)
    fix x y assume xy: "x < d2_capacity t" "y < d2_capacity t" "d2_hole T t' j x \<noteq> None \<and> d2_hole T t' j x = d2_hole T t' j y"
    let ?m = "\<lambda>x. if x = i then j else x"
    have m: "d2_hole T t' j x = d2_hole T t i (?m x)" if "x \<noteq> j" for x
      using that sj unfolding hole by simp
    have "x \<noteq> j" "y \<noteq> j" using xy(3) by (auto simp: d2_hole_def)
    with xy m have "d2_hole T t i (?m x) \<noteq> None \<and> d2_hole T t i (?m x) = d2_hole T t i (?m y)" by metis
    moreover have "?m x < d2_capacity t" "?m y < d2_capacity t" using xy(1,2) assms(2) by auto
    ultimately have "?m x = ?m y" using e(6) unfolding unique_keys_def by blast
    with \<open>x \<noteq> j\<close> \<open>y \<noteq> j\<close> show "x = y" by (auto split: if_splits)
  qed
  moreover have "bs_bit used2 x \<longleftrightarrow> d2_data t' ! x \<noteq> None" if "x < d2_capacity t" "x \<noteq> j" for x
    using that e(5) [of x] by (simp add: u1(4) u2(4) items)
  moreover have "d2_data t' ! j \<noteq> None" using assms(3,4) by (simp add: items)
  ultimately have "erasing T t' j"
    using assms(1,2) u2(2,3) unfolding erasing_def same by blast
  moreover have "d2_data t' ! x = None \<longleftrightarrow> d2_data t ! x = None" for x using e(2) by (simp add: items)
  moreover have "(\<exists>x < d2_capacity t. x \<noteq> j \<and> d2_data t' ! x = Some item') \<longleftrightarrow>
       (\<exists>x < d2_capacity t. x \<noteq> i \<and> d2_data t ! x = Some item')" for item'
    using e(1) assms(2-4) unfolding items by (metis option.inject)
  ultimately show thesis using that [OF u1(1) u2(1) t'_def _ hole] by blast
qed

lemma erase_result_trans:
  assumes "erase_result T t1 j t' i'" "d2_capacity t1 = d2_capacity t" "d2_hashShift t1 = d2_hashShift t" "d2_count t1 = d2_count t"
    and "d2_home T t1 = d2_home T t" "\<forall>x < d2_capacity t. d2_data t1 ! x = None \<longleftrightarrow> d2_data t ! x = None"
    and "\<forall>item'. (\<exists>x < d2_capacity t. x \<noteq> j \<and> d2_data t1 ! x = Some item') \<longleftrightarrow>
       (\<exists>x < d2_capacity t. x \<noteq> i \<and> d2_data t ! x = Some item')"
  shows "erase_result T t i t' i'"
  using assms by (simp add: erase_result_def)

lemma shift_ends:
  assumes "erasing T t i" "j < d2_capacity t" "f < d2_capacity t" "d2_data t ! f = None"
    and "ring_dist (d2_capacity t) i j < ring_dist (d2_capacity t) i f"
    and "compact_but (d2_capacity t) (d2_home T t) (d2_hole T t i) i j"
  shows "\<exists>t' i'. d2_shift T t i j = Some (Inr (t', i')) \<and> erase_result T t i t' i'"
  using assms
proof (induction "ring_dist (d2_capacity t) j f" arbitrary: t i j rule: less_induct)
  case less
  let ?c = "d2_capacity t" and ?h = "d2_home T t" and ?j = "(j + 1) AND (d2_capacity t - 1)"
  from less.prems(1) have e: "i < ?c" "?c = 2 ^ (64 - d2_hashShift t)" "bs_inv (d2_used t)" "bs_capacity (d2_used t) = ?c"
    "\<And>x. x < ?c \<Longrightarrow> x \<noteq> i \<Longrightarrow> bs_bit (d2_used t) x \<longleftrightarrow> d2_data t ! x \<noteq> None" "64 - d2_hashShift t \<le> 63"
    unfolding erasing_def by auto
  note n = next_bucket [OF e(1) less.prems(2,3,5) e(2)]
  note home = doHash_home [OF less.prems(1)]
  have cont: "bs_contains (d2_used t) ?j = Inr (d2_data t ! ?j \<noteq> None)"
    using contains_bit [OF e(3), of ?j] e(4,5) n(1,3) by simp
  have hj: "d2_hole T t i ?j = map_option (getKey2 T) (d2_data t ! ?j)" using n(1,3) by (simp add: d2_hole_def d2_slot_def)
  show ?case
  proof (cases "d2_data t ! ?j")
    case None
    then have "d2_shift T t i j = Some (Inr (t, i))" using cont by (subst d2_shift.simps) (simp add: Let_def)
    moreover have "compact ?c ?h (d2_hole T t i)"
      using compact_stop [OF home(2) e(1) n(1-3) less.prems(6)] None hj by simp
    ultimately show ?thesis using less.prems(1) by (auto simp: erase_result_def)
  next
    case (Some item)
    let ?k = "getKey2 T item"
    have sj: "d2_hole T t i ?j = Some ?k" using hj Some by simp
    have get: "bindE (cell_get (d2_data t) ?j) (\<lambda>curr. d2_doHash T t (getKey2 T curr)) = Inr (?h ?k)"
      using Some n(1) home(1) by simp
    have diff: "((b + 2 ^ 64 - ?h ?k) mod 2 ^ 64) AND (?c - 1) = ring_dist ?c (?h ?k) b" if "b < ?c" for b
      using wrapped_difference [of "?h ?k" "64 - d2_hashShift t" b] home(2) [of ?k] that e(2,6) by simp
    have step: "d2_shift T t i j =
        (if ring_dist ?c (?h ?k) i < ring_dist ?c (?h ?k) ?j
         then (case bindE (bs_set (d2_used t) i True) (\<lambda>used. bindE (bs_set used ?j False) (\<lambda>used.
                 bindE (cell_get (d2_data t) ?j) (\<lambda>item. bindE (cell_new (d2_data t) i item) (\<lambda>items.
                   Inr (t\<lparr>d2_used := used, d2_data := items\<rparr>))))) of
               Inl e \<Rightarrow> Some (Inl e) | Inr t \<Rightarrow> d2_shift T t ?j ?j)
         else d2_shift T t i ?j)"
      using cont Some get by (subst d2_shift.simps) (simp only: Let_def diff [OF e(1)] diff [OF n(1)] sum.case option.simps simp_thms if_False)
    show ?thesis
    proof (cases "ring_dist ?c (?h ?k) i < ring_dist ?c (?h ?k) ?j")
      case False
      have "ring_dist ?c i ?j < ring_dist ?c i f"
        using n(2) less.prems(4,5) Some ring_dist_inj [OF e(1) n(1) less.prems(3)] by fastforce
      moreover have "compact_but ?c ?h (d2_hole T t i) i ?j"
        using compact_keep [OF home(2) e(1) n(1-3) less.prems(6) sj False] .
      ultimately show ?thesis
        using less.hyps [of t ?j i] n(1,4) less.prems(1,3,4) step False by simp
    next
      case True
      obtain used1 used2 t1 where m: "bs_set (d2_used t) i True = Inr used1" "bs_set used1 ?j False = Inr used2"
        "t1 = t\<lparr>d2_used := used2, d2_data := (d2_data t)[i := Some item]\<rparr>" "erasing T t1 ?j"
        "d2_hole T t1 ?j = (d2_hole T t i)(i := Some ?k, ?j := None)"
        "\<forall>x < ?c. d2_data t1 ! x = None \<longleftrightarrow> d2_data t ! x = None"
        "\<forall>item'. (\<exists>x < ?c. x \<noteq> ?j \<and> d2_data t1 ! x = Some item') \<longleftrightarrow> (\<exists>x < ?c. x \<noteq> i \<and> d2_data t ! x = Some item')"
        using move_item [OF less.prems(1) n(1,3) Some] .
      have same: "d2_capacity t1 = ?c" "d2_hashShift t1 = d2_hashShift t" "d2_count t1 = d2_count t" "d2_home T t1 = ?h"
        using m(3) by (auto simp: d2_home_def fun_eq_iff)
      have go: "d2_shift T t i j = d2_shift T t1 ?j ?j"
        using step True m(1-3) Some n(1) e(1) by simp
      have "f \<noteq> ?j" using less.prems(4) Some by auto
      then have far: "ring_dist ?c ?j ?j < ring_dist ?c ?j f" using ring_dist_pos [OF n(1) less.prems(3)] by simp
      have but: "compact_but ?c ?h (d2_hole T t1 ?j) ?j ?j"
        unfolding m(5) using compact_move [OF home(2) e(1) n(1-3) less.prems(6) sj True] .
      have free: "d2_data t1 ! f = None" using m(6) less.prems(3,4) by blast
      have closer: "ring_dist ?c ?j f < ring_dist ?c j f" using n(4) by simp
      obtain t' i' where r: "d2_shift T t1 ?j ?j = Some (Inr (t', i'))" "erase_result T t1 ?j t' i'"
        using less.hyps [of t1 ?j ?j, unfolded same, OF closer m(4) n(1) less.prems(3) free far but] by (elim exE conjE)
      have "erase_result T t i t' i'" by (rule erase_result_trans [OF r(2) same m(6,7)])
      with go r(1) show ?thesis by simp
    qed
  qed
qed

lemma doErase_removes:
  assumes "d2_inv T t" "d2_slot T t b = Some k"
  obtains t' i where "d2_doErase T t b = Inr (t', i)" "d2_inv T t'" "d2_lookup T t' = (d2_lookup T t)(k := None)"
    "d2_count t' = d2_count t - 1"
proof -
  from assms(1) have wf: "d2_wf T t" "d2_layout t" and u: "unique_keys (d2_capacity t) (d2_slot T t)"
    and r: "reachable_keys (d2_capacity t) (d2_seq T t) (d2_slot T t)" and load: "d2_count t \<le> d2_capacity t * 3 div 4"
    and cnt: "d2_count t = length (filter (\<lambda>c. c \<noteq> None) (d2_data t))" unfolding d2_inv_def d2_wf_def by blast+
  from assms(2) obtain item where b: "b < d2_capacity t" "d2_data t ! b = Some item" "getKey2 T item = k" by (auto simp: slot_Some)
  have pos: "0 < d2_count t" using cnt b nth_mem [OF b(1)] by (force simp: filter_empty_conv)
  then have cap: "1 < d2_capacity t" "d2_count t < d2_capacity t" using load by auto
  from d2_free_slot [OF wf(1) cap(2)] obtain f where f: "f < d2_capacity t" "d2_slot T t f = None" .
  then have free: "d2_data t ! f = None" "f \<noteq> b" using slot_None [OF f(1), of T] assms(2) by auto
  have "unique_keys (d2_capacity t) (d2_hole T t b)" using u by (auto simp: unique_keys_def d2_hole_def)
  moreover have "0 < d2_hashShift t \<and> d2_hashShift t < 64 \<and> d2_capacity t = 2 ^ (64 - d2_hashShift t)"
    using wf(2) cap(1) by (cases "d2_hashShift t = 64") (auto simp: d2_layout_def split: if_splits)
  ultimately have er: "erasing T t b" using wf(2) b(1,2) unfolding erasing_def d2_layout_def by blast
  from er have c2: "d2_capacity t = 2 ^ (64 - d2_hashShift t)" by (simp add: erasing_def)
  have home: "d2_home T t k' < 2 ^ (64 - d2_hashShift t)" for k' using doHash_home(2) [OF er] c2 by simp
  have "compact (d2_capacity t) (d2_home T t) (d2_slot T t)"
    using r reachable_compact [of "d2_home T t" "64 - d2_hashShift t" "d2_slot T t"] home c2 by simp
  from compact_start [OF this b(1)] have "compact_but (d2_capacity t) (d2_home T t) (d2_hole T t b) b b" by (simp add: d2_hole_def)
  with shift_ends [OF er b(1) f(1) free(1)] ring_dist_pos [OF b(1) f(1) free(2)]
  obtain t1 i where s: "d2_shift T t b b = Some (Inr (t1, i))" "erase_result T t b t1 i" by auto
  from s(2) have e1: "erasing T t1 i" and comp: "compact (d2_capacity t) (d2_home T t) (d2_hole T t1 i)"
    and same: "d2_capacity t1 = d2_capacity t" "d2_hashShift t1 = d2_hashShift t" "d2_count t1 = d2_count t"
    and none: "\<forall>x < d2_capacity t. d2_data t1 ! x = None \<longleftrightarrow> d2_data t ! x = None"
    and content: "\<And>it. (\<exists>x < d2_capacity t. x \<noteq> i \<and> d2_data t1 ! x = Some it) \<longleftrightarrow> (\<exists>x < d2_capacity t. x \<noteq> b \<and> d2_data t ! x = Some it)"
    unfolding erase_result_def by blast+
  from e1 have i: "i < d2_capacity t1" "d2_data t1 ! i \<noteq> None" "bs_inv (d2_used t1)" "bs_capacity (d2_used t1) = d2_capacity t1"
    and bits: "\<And>x. x < d2_capacity t1 \<Longrightarrow> x \<noteq> i \<Longrightarrow> bs_bit (d2_used t1) x \<longleftrightarrow> d2_data t1 ! x \<noteq> None"
    and u1: "unique_keys (d2_capacity t1) (d2_hole T t1 i)" unfolding erasing_def by blast+
  obtain used where us: "bs_set (d2_used t1) i False = Inr used" "bs_inv used" "bs_capacity used = d2_capacity t1"
    "\<And>x. bs_bit used x = (if x = i then False else bs_bit (d2_used t1) x)"
    using set_bit_eq [OF i(3), of i False] i(1,4) by metis
  define t' where "t' = t1\<lparr>d2_used := used, d2_data := (d2_data t1)[i := None], d2_count := d2_count t1 - 1\<rparr>"
  have "d2_doErase T t b = Inr (t', i)"
    using s(1) us(1) i(1,2) by (auto simp: d2_doErase_def terminates_def t'_def)
  moreover have slot: "d2_slot T t' = d2_hole T t1 i"
    by (auto simp: fun_eq_iff d2_slot_def d2_hole_def t'_def nth_list_update)
  have home': "d2_home T t' = d2_home T t" using same(2) by (auto simp: fun_eq_iff d2_home_def t'_def)
  have same': "d2_capacity t' = d2_capacity t" "d2_hashShift t' = d2_hashShift t" "d2_used t' = used" using same by (simp_all add: t'_def)
  have lay: "d2_layout t'"
    using us i(1) bits c2 er cap(1) same unfolding d2_layout_def same' by (auto simp: t'_def nth_list_update erasing_def)
  have "length (filter (\<lambda>c. c \<noteq> None) (d2_data t1)) = length (filter (\<lambda>c. c \<noteq> None) (d2_data t))"
    unfolding length_filter_conv_card same(1) using none by (intro arg_cong [where f = card]) auto
  then have cnt': "d2_count t' = length (filter (\<lambda>c. c \<noteq> None) (d2_data t'))"
    using filter_update [OF i(1), of "\<lambda>c. c \<noteq> None" None] i(2) cnt same(3) pos by (simp add: t'_def)
  have "d2_wf T t'"
    using lay cnt' u1 comp reachable_compact [of "d2_home T t" "64 - d2_hashShift t" "d2_hole T t1 i"] home c2
    by (simp add: d2_wf_def slot home' same' same(1))
  then have inv: "d2_inv T t'" using load same(3) by (simp add: d2_inv_def same(1) t'_def)
  moreover have "d2_lookup T t' = (d2_lookup T t)(k := None)"
  proof (rule map_ext_Some)
    fix k' it
    have u': "unique_keys (d2_capacity t') (d2_slot T t')" using inv by (simp add: d2_inv_def d2_wf_def)
    have at: "d2_data t' ! x = Some it \<longleftrightarrow> x \<noteq> i \<and> d2_data t1 ! x = Some it" for x using i(1) by (cases "x = i") (auto simp: t'_def)
    have only: "x = b" if "x < d2_capacity t" "d2_data t ! x = Some it" "getKey2 T it = k" for x
      using u that b unfolding unique_keys_def d2_slot_def by (metis option.distinct(1) option.simps(9))
    have "d2_lookup T t' k' = Some it \<longleftrightarrow> (\<exists>x < d2_capacity t. d2_data t' ! x = Some it \<and> getKey2 T it = k')"
      using d2_lookup_Some [OF u', of k' it] by (simp add: same'(1))
    also have "\<dots> \<longleftrightarrow> (\<exists>x < d2_capacity t. x \<noteq> i \<and> d2_data t1 ! x = Some it) \<and> getKey2 T it = k'" unfolding at by blast
    also have "\<dots> \<longleftrightarrow> (\<exists>x < d2_capacity t. x \<noteq> b \<and> d2_data t ! x = Some it) \<and> getKey2 T it = k'" unfolding content ..
    also have "\<dots> \<longleftrightarrow> k' \<noteq> k \<and> (\<exists>x < d2_capacity t. d2_data t ! x = Some it \<and> getKey2 T it = k')"
      using only b by (metis option.inject)
    also have "\<dots> \<longleftrightarrow> ((d2_lookup T t)(k := None)) k' = Some it" using d2_lookup_Some [OF u, of k' it] by auto
    finally show "d2_lookup T t' k' = Some it \<longleftrightarrow> ((d2_lookup T t)(k := None)) k' = Some it" .
  qed
  ultimately show thesis using that same(3) by (simp add: t'_def)
qed

lemma erase_removes:
  assumes "d2_inv T t"
  obtains t' where "d2_erase T t k = Inr t'" "d2_inv T t'" "d2_lookup T t' = (d2_lookup T t)(k := None)"
proof (cases "d2_count t = 0")
  case True
  obtain r where "d2_find T t k = Inr r" "(case r of None \<Rightarrow> None | Some i \<Rightarrow> d2_data t ! i) = d2_lookup T t k"
    using d2_find_lookup [OF assms, of k] by blast
  with True have "d2_lookup T t k = None" by (simp add: d2_find_def split: option.splits)
  then have "d2_lookup T t = (d2_lookup T t)(k := None)" by (simp add: fun_upd_idem)
  with that [of t] True assms show thesis by (simp add: d2_erase_def)
next
  case False
  then have c: "1 < d2_capacity t" "d2_count t < d2_capacity t" and wf: "d2_wf T t" using assms by (auto simp: d2_inv_def)
  let ?b = "target (d2_slot T t) (d2_seq T t) k"
  note g = getBucket_target [OF wf c, of k]
  show thesis
  proof (cases "d2_lookup T t k")
    case None
    then have "d2_erase T t k = Inr t" using g target_of_absent(1) [OF wf c(2) None] False by (simp add: d2_erase_def)
    moreover have "d2_lookup T t = (d2_lookup T t)(k := None)" using None by (simp add: fun_upd_idem)
    ultimately show thesis using that assms by metis
  next
    case (Some item)
    then obtain i where "d2_slot T t i = Some k" using d2_lookup_None [of T t k] by auto
    moreover from target_of_present [OF wf this] have "?b = i" .
    ultimately have b: "d2_slot T t ?b = Some k" by simp
    obtain t' i where "d2_doErase T t ?b = Inr (t', i)" "d2_inv T t'" "d2_lookup T t' = (d2_lookup T t)(k := None)"
      using doErase_removes [OF assms b] by blast
    with that [of t'] g b False show thesis by (simp add: d2_erase_def)
  qed
qed

section \<open>Iteration, clearing and copying\<close>

lemma skip_walk:
  assumes "d2_layout t" "i \<le> d2_capacity t"
  shows "\<exists>j. d2_skip t i = Some (Inr j) \<and> d2_walk t j = Some (Inr (map the (filter (\<lambda>c. c \<noteq> None) (drop i (d2_data t)))))"
  using assms(2)
proof (induction "d2_capacity t - i" arbitrary: i)
  case 0
  then have "d2_skip t i = Some (Inr i)" "d2_walk t i = Some (Inr [])" by (subst d2_skip.simps d2_walk.simps, simp)+
  with 0 show ?case by simp
next
  case (Suc n)
  then have i: "i < d2_capacity t" and n: "n = d2_capacity t - Suc i" by auto
  obtain j where j: "d2_skip t (Suc i) = Some (Inr j)"
    "d2_walk t j = Some (Inr (map the (filter (\<lambda>c. c \<noteq> None) (drop (Suc i) (d2_data t)))))"
    using Suc(1) [of "Suc i"] i n by auto
  have drop: "drop i (d2_data t) = d2_data t ! i # drop (Suc i) (d2_data t)" using i by (simp add: Cons_nth_drop_Suc)
  have c: "bs_contains (d2_used t) i = Inr (d2_data t ! i \<noteq> None)" using assms(1) i by (simp add: d2_layout_def)
  show ?case
  proof (cases "d2_data t ! i")
    case None
    then have "d2_skip t i = d2_skip t (Suc i)" using i c by (subst d2_skip.simps) simp
    with j drop None show ?thesis by simp
  next
    case (Some item)
    then have "d2_skip t i = Some (Inr i)" using i c by (subst d2_skip.simps) simp
    moreover have "d2_walk t i = Some (Inr (item # map the (filter (\<lambda>c. c \<noteq> None) (drop (Suc i) (d2_data t)))))"
      using i Some j by (subst d2_walk.simps) (simp add: d2_next_def terminates_def)
    ultimately show ?thesis using drop Some by simp
  qed
qed

lemma iterate_items: "d2_inv T t \<Longrightarrow> d2_iterate t = Inr (d2_items t)"
  using skip_walk [of t 0] by (auto simp: d2_iterate_def d2_begin_def terminates_def d2_items_def d2_inv_def d2_wf_def)

lemma allocate_Nil [simp]: "allocate n = [] \<longleftrightarrow> n = 0"
  by (simp add: allocate_def)

lemma d2_count_0: "d2_wf T t \<Longrightarrow> d2_count t = 0 \<Longrightarrow> d2_lookup T t = Map.empty"
  using d2_card_lookup [of T t] by (simp add: d2_wf_def d2_lookup_def d2_items_def)

lemma clear_empties:
  assumes "d2_inv T t"
  obtains t' where "d2_clear n t = Inr t'" "d2_inv T t'" "d2_lookup T t' = Map.empty" "d2_count t' = 0"
proof -
  from assms have wf: "d2_wf T t" "d2_layout t" by (auto simp: d2_inv_def d2_wf_def)
  show thesis
  proof (cases "d2_count t = 0")
    case True
    with that [of t] assms d2_count_0 [OF wf(1)] show thesis by (simp add: d2_clear_def)
  next
    case False
    define t' where "t' = (if n < d2_capacity t then \<lparr>d2_data = [], d2_used = bs_empty, d2_count = 0, d2_hashShift = 64\<rparr>
      else t\<lparr>d2_data := allocate (d2_capacity t), d2_used := bs_clear (d2_used t), d2_count := 0\<rparr>)"
    have "d2_clear n t = Inr t'"
      using destroy_empties [OF wf(2)] destroy_items_all [OF wf(2)] False by (cases t) (auto simp: d2_clear_def t'_def)
    moreover have none: "\<forall>c \<in> set (d2_data t'). c = None" by (auto simp: t'_def allocate_def)
    moreover have "d2_layout t'"
      using wf(2) bs_clear_inv [of "d2_used t"] by (auto simp: d2_layout_def t'_def split: if_splits)
    moreover have "filter (\<lambda>c. c \<noteq> None) (d2_data t') = []" "d2_count t' = 0" using none by (auto simp: filter_empty_conv t'_def)
    moreover have "d2_slot T t' x = None" for x using none nth_mem by (fastforce simp: d2_slot_def)
    ultimately show thesis using that [of t']
      by (auto simp: d2_inv_def d2_wf_def unique_keys_def reachable_keys_def d2_lookup_def d2_items_def)
  qed
qed

lemma copy_steps:
  assumes "bs_inv used" "bs_capacity used = length items" "length items = d2_capacity other"
    and "\<forall>i \<in> set is. i < d2_capacity other \<and> d2_data other ! i \<noteq> None"
  shows "\<exists>items' used'. foldE (\<lambda>(items, used) bucket.
               bindE (cell_get (d2_data other) bucket) (\<lambda>item.
               bindE (cell_new items bucket item) (\<lambda>items.
               bindE (bs_set used bucket True) (\<lambda>used. Inr (items, used))))) (items, used) is = Inr (items', used')
     \<and> bs_inv used' \<and> bs_capacity used' = length items \<and> length items' = length items
     \<and> (\<forall>x < length items. items' ! x = (if x \<in> set is then d2_data other ! x else items ! x))
     \<and> (\<forall>x. bs_bit used' x \<longleftrightarrow> x \<in> set is \<or> bs_bit used x)"
  using assms
proof (induction "is" arbitrary: items used)
  case (Cons i "is")
  then obtain item where item: "d2_data other ! i = Some item" "i < length items" by auto
  obtain used1 where u: "bs_set used i True = Inr used1" "bs_inv used1" "bs_capacity used1 = length items"
    "\<And>x. bs_bit used1 x = (if x = i then True else bs_bit used x)"
    using set_bit_eq [OF Cons.prems(1), of i True] Cons.prems(2) item(2) by metis
  have "\<exists>items' used'. foldE (\<lambda>(items, used) bucket.
               bindE (cell_get (d2_data other) bucket) (\<lambda>item.
               bindE (cell_new items bucket item) (\<lambda>items.
               bindE (bs_set used bucket True) (\<lambda>used. Inr (items, used))))) (items[i := Some item], used1) is = Inr (items', used')
     \<and> bs_inv used' \<and> bs_capacity used' = length (items[i := Some item]) \<and> length items' = length (items[i := Some item])
     \<and> (\<forall>x < length (items[i := Some item]). items' ! x = (if x \<in> set is then d2_data other ! x else items[i := Some item] ! x))
     \<and> (\<forall>x. bs_bit used' x \<longleftrightarrow> x \<in> set is \<or> bs_bit used1 x)"
    using Cons.prems u(2,3) by (intro Cons.IH) simp_all
  with item u(1,4) Cons.prems(3) show ?case by (auto simp: nth_list_update)
qed simp

lemma copy_table:
  assumes "d2_layout other"
  shows "\<exists>t. d2_copy other = Inr t \<and> d2_layout t \<and> d2_data t = d2_data other \<and> d2_count t = d2_count other \<and> d2_hashShift t = d2_hashShift other"
proof (cases "d2_capacity other = 0")
  case True
  then show ?thesis using assms by (simp add: d2_copy_def d2_layout_def)
next
  case False
  let ?is = "filter (\<lambda>i. d2_data other ! i \<noteq> None) [0..<d2_capacity other]"
  have "pow2_or_zero (d2_capacity other)" using assms False by (auto simp: d2_layout_def)
  from bs_new_inv [OF this] obtain bs where bs: "bs_new (d2_capacity other) = Inr bs" "bs_inv bs"
    "bs_capacity bs = d2_capacity other" "\<And>i. \<not> bs_bit bs i" by blast
  with copy_steps [of bs "allocate (d2_capacity other)" other ?is] obtain items used where c:
    "foldE (\<lambda>(items, used) bucket.
               bindE (cell_get (d2_data other) bucket) (\<lambda>item.
               bindE (cell_new items bucket item) (\<lambda>items.
               bindE (bs_set used bucket True) (\<lambda>used. Inr (items, used))))) (allocate (d2_capacity other), bs) ?is = Inr (items, used)"
    "bs_inv used" "bs_capacity used = d2_capacity other" "length items = d2_capacity other"
    "\<forall>x < d2_capacity other. items ! x = (if x \<in> set ?is then d2_data other ! x else allocate (d2_capacity other) ! x)"
    "\<forall>x. bs_bit used x \<longleftrightarrow> x \<in> set ?is" by auto
  have "items = d2_data other" using c(4,5) by (intro nth_equalityI) auto
  with False bs(1) c assms show ?thesis
    by (simp add: d2_copy_def used_buckets [OF assms]) (auto simp: d2_layout_def)
qed

lemma copy_inv:
  assumes "d2_inv T t"
  obtains t' where "d2_copy t = Inr t'" "d2_inv T t'" "d2_lookup T t' = d2_lookup T t"
proof -
  from assms have "d2_layout t" by (simp add: d2_inv_def d2_wf_def)
  from copy_table [OF this] obtain t' where t': "d2_copy t = Inr t'" "d2_layout t'" "d2_data t' = d2_data t"
    "d2_count t' = d2_count t" "d2_hashShift t' = d2_hashShift t" by blast
  then have "d2_slot T t' = d2_slot T t" "d2_home T t' = d2_home T t" by (simp_all add: fun_eq_iff d2_slot_def d2_home_def)
  with t' assms have "d2_inv T t'" by (simp add: d2_inv_def d2_wf_def)
  with t' that [of t'] show thesis by (simp add: d2_lookup_def d2_items_def)
qed

section \<open>DenseHashMap2 refines partial functions\<close>

lemma map_interface2_simps [simp]:
  "getKey2 (ItemInterfaceMap2 h dflt) = fst" "makeItem2 (ItemInterfaceMap2 h dflt) k = (k, dflt)"
  by (simp_all add: ItemInterfaceMap2_def)

definition dhm2_map :: "('k, 'k \<times> 'v) traits2 \<Rightarrow> ('k \<times> 'v) DenseHashTable2 \<Rightarrow> 'k \<rightharpoonup> 'v" where
  "dhm2_map T t k = map_option snd (d2_lookup T t k)"

datatype ('k, 'v) map2_op = Map2Set 'k 'v | Map2TryInsert 'k 'v | Map2Index 'k | Map2Erase 'k | Map2Clear nat | Map2Copy

fun dhm2_exec ::
  "('k, 'k \<times> 'v) traits2 \<Rightarrow> ('k \<times> 'v) DenseHashTable2 \<Rightarrow> ('k, 'v) map2_op \<Rightarrow> ('k \<times> 'v) DenseHashTable2 cpp" where
  "dhm2_exec T t (Map2Set k v) = dhm2_set T t k v"
| "dhm2_exec T t (Map2TryInsert k v) = bindE (dhm2_try_insert T t k v) (\<lambda>(t, _). Inr t)"
| "dhm2_exec T t (Map2Index k) = bindE (dhm2_index T t k) (\<lambda>(t, _). Inr t)"
| "dhm2_exec T t (Map2Erase k) = d2_erase T t k"
| "dhm2_exec T t (Map2Clear n) = d2_clear n t"
| "dhm2_exec T t Map2Copy = d2_copy t"

fun map2_spec :: "'v \<Rightarrow> ('k \<rightharpoonup> 'v) \<Rightarrow> ('k, 'v) map2_op \<Rightarrow> 'k \<rightharpoonup> 'v" where
  "map2_spec dflt m (Map2Set k v) = m(k \<mapsto> v)"
| "map2_spec dflt m (Map2TryInsert k v) = m(k \<mapsto> case m k of None \<Rightarrow> v | Some w \<Rightarrow> w)"
| "map2_spec dflt m (Map2Index k) = m(k \<mapsto> case m k of None \<Rightarrow> dflt | Some w \<Rightarrow> w)"
| "map2_spec dflt m (Map2Erase k) = m(k := None)"
| "map2_spec dflt m (Map2Clear n) = Map.empty"
| "map2_spec dflt m Map2Copy = m"

lemma lookup2_fst:
  assumes "d2_inv (ItemInterfaceMap2 h dflt) t" "d2_lookup (ItemInterfaceMap2 h dflt) t k = Some item"
  shows "fst item = k"
  using assms d2_lookup_Some [of t "ItemInterfaceMap2 h dflt" k item] by (auto simp: d2_inv_def d2_wf_def)

lemma map2_upsert:
  fixes h dflt
  defines "T \<equiv> ItemInterfaceMap2 h dflt"
  assumes "d2_inv T t" "d2_count t < d2_limit"
  obtains t1 t' b v where "d2_rehash_if_full T t k = Inr t1" "d2_count t1 = d2_count t" "d2_insert_unsafe T t1 k = Inr (t', b)"
    "d2_inv T t'" "b < d2_capacity t'" "d2_data t' ! b = Some (k, v)"
    "v = (case dhm2_map T t k of None \<Rightarrow> dflt | Some v \<Rightarrow> v)" "dhm2_map T t' = (dhm2_map T t)(k \<mapsto> v)"
    "d2_count t < d2_count t' \<longleftrightarrow> dhm2_map T t k = None"
    "\<forall>w. \<exists>t''. assign_second t' b w = Inr t'' \<and> d2_inv T t'' \<and> dhm2_map T t'' = (dhm2_map T t)(k \<mapsto> w) \<and> d2_data t'' ! b = Some (k, w)
        \<and> b < d2_capacity t''"
proof -
  have key: "getKey2 T (makeItem2 T k) = k" by (simp add: T_def)
  obtain t1 t' b item where u: "d2_rehash_if_full T t k = Inr t1" "d2_count t1 = d2_count t" "d2_insert_unsafe T t1 k = Inr (t', b)"
    "d2_inv T t'" "b < d2_capacity t'" "d2_data t' ! b = Some item" "getKey2 T item = k"
    "item = (case d2_lookup T t k of None \<Rightarrow> makeItem2 T k | Some item \<Rightarrow> item)"
    "d2_lookup T t' = (d2_lookup T t)(k \<mapsto> item)" "d2_count t < d2_count t' \<longleftrightarrow> d2_lookup T t k = None"
    using d2_upsert [OF assms(2,3) key] .
  obtain v where v: "item = (k, v)" using u(7) by (cases item) (simp add: T_def)
  have val: "v = (case dhm2_map T t k of None \<Rightarrow> dflt | Some v \<Rightarrow> v)"
    using u(8) v by (auto simp: dhm2_map_def T_def split: option.splits)
  have m: "dhm2_map T t' = (dhm2_map T t)(k \<mapsto> v)" using u(9) v by (auto simp: dhm2_map_def fun_eq_iff)
  have set: "\<exists>t''. assign_second t' b w = Inr t'' \<and> d2_inv T t'' \<and> dhm2_map T t'' = (dhm2_map T t)(k \<mapsto> w) \<and> d2_data t'' ! b = Some (k, w)
        \<and> b < d2_capacity t''" for w
  proof -
    let ?t = "t'\<lparr>d2_data := (d2_data t')[b := Some (k, w)]\<rparr>"
    have "d2_wf T ?t" "d2_lookup T ?t = (d2_lookup T t')(k \<mapsto> (k, w))"
      using d2_replace_item [of T t' b item k "(k, w)"] u(4-7) by (auto simp: d2_inv_def T_def)
    then have "d2_inv T ?t" "dhm2_map T ?t = (dhm2_map T t)(k \<mapsto> w)"
      using u(4,9) by (auto simp: d2_inv_def dhm2_map_def fun_eq_iff)
    moreover have "assign_second t' b w = Inr ?t" using u(5,6) v by (simp add: assign_second_def)
    ultimately show ?thesis using u(5) by auto
  qed
  have "d2_count t < d2_count t' \<longleftrightarrow> dhm2_map T t k = None" using u(10) by (simp add: dhm2_map_def)
  with that [OF u(1-5) _ val m _ allI [OF set]] u(6) v show thesis by blast
qed

lemma set_map2:
  assumes "d2_inv (ItemInterfaceMap2 h dflt) t" "d2_count t < d2_limit"
  shows "\<exists>t'. dhm2_set (ItemInterfaceMap2 h dflt) t k v = Inr t' \<and> d2_inv (ItemInterfaceMap2 h dflt) t'
    \<and> dhm2_map (ItemInterfaceMap2 h dflt) t' = (dhm2_map (ItemInterfaceMap2 h dflt) t)(k \<mapsto> v)"
proof -
  obtain t1 t' b where "d2_rehash_if_full (ItemInterfaceMap2 h dflt) t k = Inr t1"
    "d2_insert_unsafe (ItemInterfaceMap2 h dflt) t1 k = Inr (t', b)"
    "\<exists>t''. assign_second t' b v = Inr t'' \<and> d2_inv (ItemInterfaceMap2 h dflt) t''
        \<and> dhm2_map (ItemInterfaceMap2 h dflt) t'' = (dhm2_map (ItemInterfaceMap2 h dflt) t)(k \<mapsto> v)"
    by (rule map2_upsert [OF assms, of k]) blast
  then show ?thesis by (auto simp: dhm2_set_def dhm2_index_def)
qed

lemma index_map2:
  assumes "d2_inv (ItemInterfaceMap2 h dflt) t" "d2_count t < d2_limit"
  shows "\<exists>t' b. dhm2_index (ItemInterfaceMap2 h dflt) t k = Inr (t', b) \<and> d2_inv (ItemInterfaceMap2 h dflt) t'
    \<and> dhm2_map (ItemInterfaceMap2 h dflt) t' = map2_spec dflt (dhm2_map (ItemInterfaceMap2 h dflt) t) (Map2Index k)"
  by (rule map2_upsert [OF assms, of k]) (auto simp: dhm2_index_def)

lemma try_insert_map2:
  assumes "d2_inv (ItemInterfaceMap2 h dflt) t" "d2_count t < d2_limit"
  shows "\<exists>t'. dhm2_try_insert (ItemInterfaceMap2 h dflt) t k v
      = Inr (t', (case dhm2_map (ItemInterfaceMap2 h dflt) t k of None \<Rightarrow> v | Some w \<Rightarrow> w), dhm2_map (ItemInterfaceMap2 h dflt) t k = None)
    \<and> d2_inv (ItemInterfaceMap2 h dflt) t'
    \<and> dhm2_map (ItemInterfaceMap2 h dflt) t' = map2_spec dflt (dhm2_map (ItemInterfaceMap2 h dflt) t) (Map2TryInsert k v)"
proof -
  let ?T = "ItemInterfaceMap2 h dflt"
  obtain t1 t' b w where u: "d2_rehash_if_full ?T t k = Inr t1" "d2_count t1 = d2_count t" "d2_insert_unsafe ?T t1 k = Inr (t', b)"
    "d2_inv ?T t'" "b < d2_capacity t'" "d2_data t' ! b = Some (k, w)"
    "w = (case dhm2_map ?T t k of None \<Rightarrow> dflt | Some v \<Rightarrow> v)" "dhm2_map ?T t' = (dhm2_map ?T t)(k \<mapsto> w)"
    "d2_count t < d2_count t' \<longleftrightarrow> dhm2_map ?T t k = None"
    "\<forall>w. \<exists>t''. assign_second t' b w = Inr t'' \<and> d2_inv ?T t'' \<and> dhm2_map ?T t'' = (dhm2_map ?T t)(k \<mapsto> w) \<and> d2_data t'' ! b = Some (k, w)
        \<and> b < d2_capacity t''"
    using map2_upsert [OF assms, of k] .
  show ?thesis
    using u(1-9) u(10) [rule_format, of v] by (cases "dhm2_map ?T t k") (auto simp: dhm2_try_insert_def Let_def)
qed

interpretation dhm2: data_refinement
  "d2_inv (ItemInterfaceMap2 h dflt)" "dhm2_map (ItemInterfaceMap2 h dflt)"
  "dhm2_exec (ItemInterfaceMap2 h dflt)" "map2_spec dflt" "\<lambda>m op. card (dom m) < d2_limit" for h dflt
proof
  fix t :: "('a \<times> 'b) DenseHashTable2" and op
  let ?T = "ItemInterfaceMap2 h dflt"
  assume t: "d2_inv ?T t" and op: "card (dom (dhm2_map ?T t)) < d2_limit"
  have "dom (dhm2_map ?T t) = dom (d2_lookup ?T t)" by (auto simp: dhm2_map_def)
  with op d2_card_lookup [of ?T t] t have room: "d2_count t < d2_limit" by (simp add: d2_inv_def)
  show "\<exists>t'. dhm2_exec ?T t op = Inr t' \<and> d2_inv ?T t' \<and> dhm2_map ?T t' = map2_spec dflt (dhm2_map ?T t) op"
  proof (cases op)
    case (Map2Set k v)
    then show ?thesis using set_map2 [OF t room, of k v] by simp
  next
    case (Map2TryInsert k v)
    then show ?thesis using try_insert_map2 [OF t room, of k v] by auto
  next
    case (Map2Index k)
    then show ?thesis using index_map2 [OF t room, of k] by auto
  next
    case (Map2Erase k)
    obtain t' where "d2_erase ?T t k = Inr t'" "d2_inv ?T t'" "d2_lookup ?T t' = (d2_lookup ?T t)(k := None)"
      using erase_removes [OF t] .
    then show ?thesis using Map2Erase by (auto simp: dhm2_map_def fun_eq_iff)
  next
    case (Map2Clear n)
    obtain t' where "d2_clear n t = Inr t'" "d2_inv ?T t'" "d2_lookup ?T t' = Map.empty" using clear_empties [OF t] by blast
    then show ?thesis using Map2Clear by (auto simp: dhm2_map_def fun_eq_iff)
  next
    case Map2Copy
    obtain t' where "d2_copy t = Inr t'" "d2_inv ?T t'" "d2_lookup ?T t' = d2_lookup ?T t" using copy_inv [OF t] .
    then show ?thesis using Map2Copy by (auto simp: dhm2_map_def fun_eq_iff)
  qed
qed

lemma spec2_card:
  assumes "finite (dom m)"
  shows "finite (dom (map2_spec dflt m op)) \<and> card (dom (map2_spec dflt m op)) \<le> Suc (card (dom m))"
  using assms card_insert_le_m1 [of "Suc (card (dom m))" "dom m"]
  by (cases op) (auto simp: card_insert_if intro: le_SucI card_mono order.trans [OF card_Diff1_le])

lemma allowed_short_run:
  "finite (dom m) \<Longrightarrow> card (dom m) + length ops \<le> d2_limit \<Longrightarrow> allowed_run (map2_spec dflt) (\<lambda>m op. card (dom m) < d2_limit) m ops"
proof (induction ops arbitrary: m)
  case (Cons op ops)
  then show ?case using spec2_card [OF Cons.prems(1), of dflt op] by simp
qed simp

lemma find_map2:
  assumes "d2_inv (ItemInterfaceMap2 h dflt) t"
  shows "dhm2_find (ItemInterfaceMap2 h dflt) t k = Inr (dhm2_map (ItemInterfaceMap2 h dflt) t k)"
proof -
  let ?T = "ItemInterfaceMap2 h dflt"
  obtain r where r: "d2_find ?T t k = Inr r" "(case r of None \<Rightarrow> None | Some i \<Rightarrow> d2_data t ! i) = d2_lookup ?T t k"
    "\<forall>i. r = Some i \<longrightarrow> i < d2_capacity t \<and> d2_slot ?T t i = Some k" using d2_find_lookup [OF assms, of k] by blast
  then show ?thesis by (cases r) (auto simp: dhm2_find_def dhm2_map_def slot_Some)
qed

lemma iterate_map2:
  assumes "d2_inv (ItemInterfaceMap2 h dflt) t"
  shows "distinct (map fst (d2_items t)) \<and> map_of (d2_items t) = dhm2_map (ItemInterfaceMap2 h dflt) t"
proof -
  have "map_of items k = map_option snd (map_of (map (\<lambda>item. (fst item, item)) items) k)" for items :: "('a \<times> 'b) list" and k
    by (induction items) auto
  moreover have "distinct (map fst (d2_items t))"
    using assms distinct_items [of t "ItemInterfaceMap2 h dflt"] by (simp add: d2_inv_def d2_wf_def)
  ultimately show ?thesis by (auto simp: dhm2_map_def d2_lookup_def fun_eq_iff)
qed

lemma count_map2: "d2_inv (ItemInterfaceMap2 h dflt) t \<Longrightarrow> d2_count t = card (dom (dhm2_map (ItemInterfaceMap2 h dflt) t))"
  using d2_card_lookup [of "ItemInterfaceMap2 h dflt" t] by (simp add: d2_inv_def dhm2_map_def dom_def)

text \<open>
  C9: \<^verbatim>\<open>DenseHashMap2\<close> is a partial function with deletion, whatever the hash function. From a new
  table, every sequence of at most \<open>2 ^ 60\<close> assignments, \<^verbatim>\<open>try_insert\<close>s, \<^verbatim>\<open>operator[]\<close>s,
  \<^verbatim>\<open>erase\<close>s, \<^verbatim>\<open>clear\<close>s and copies terminates without a failed assertion, a shift by 64, an
  access to a bucket that holds no object or a leaked bucket, although the probe loop and the loop of
  \<^verbatim>\<open>doErase\<close> have no bound of their own; afterwards \<^verbatim>\<open>find\<close>, \<^verbatim>\<open>size\<close> and iteration agree
  with the partial function obtained by the same sequence.
\<close>

theorem densehashmap2_refines_map:
  fixes h :: "'k \<Rightarrow> u64" and dflt :: 'v
  defines "T \<equiv> ItemInterfaceMap2 h dflt"
  assumes "buckets = 0 \<or> (\<exists>n < 64. buckets = 2 ^ n)" "length ops \<le> 2 ^ 60"
  shows "\<exists>t0 t items. d2_new buckets = Inr t0 \<and> foldE (dhm2_exec T) t0 ops = Inr t
    \<and> (\<forall>k. dhm2_find T t k = Inr (foldl (map2_spec dflt) Map.empty ops k))
    \<and> d2_count t = card (dom (foldl (map2_spec dflt) Map.empty ops))
    \<and> d2_iterate t = Inr items \<and> distinct (map fst items) \<and> map_of items = foldl (map2_spec dflt) Map.empty ops
    \<and> d2_count t \<le> d2_capacity t * 3 div 4"
proof -
  obtain t0 :: "('k \<times> 'v) DenseHashTable2" where t0: "d2_new buckets = Inr t0" "d2_inv T t0" "d2_lookup T t0 = Map.empty"
    using new_table2 [OF assms(2)] by blast
  then have m0: "dhm2_map T t0 = Map.empty" by (auto simp: dhm2_map_def)
  have "allowed_run (map2_spec dflt) (\<lambda>m op. card (dom m) < d2_limit) (Map.empty :: 'k \<rightharpoonup> 'v) ops"
    using assms(3) by (intro allowed_short_run) (simp_all add: d2_limit_def)
  with dhm2.run [of h dflt t0 ops, folded T_def] t0(2) m0
  obtain t where t: "foldE (dhm2_exec T) t0 ops = Inr t" "d2_inv T t" "dhm2_map T t = foldl (map2_spec dflt) Map.empty ops" by auto
  show ?thesis
    unfolding t(3) [symmetric]
    using t0(1) t(1,2) find_map2 [of h dflt t, folded T_def] iterate_map2 [of h dflt t, folded T_def]
      iterate_items [OF t(2)] count_map2 [of h dflt t, folded T_def] by (auto simp: d2_inv_def)
qed

theorem densehashmap2_refines_map_witness:
  "\<exists>t0 t. d2_new 1 = Inr t0
    \<and> foldE (dhm2_exec (ItemInterfaceMap2 (\<lambda>k. 0) (0 :: int))) t0
        [Map2Set (7 :: nat) 1, Map2Set 9 2, Map2Index 3, Map2Erase 7, Map2Copy, Map2Set 9 4] = Inr t
    \<and> dhm2_find (ItemInterfaceMap2 (\<lambda>k. 0) 0) t 9 = Inr (Some 4) \<and> dhm2_find (ItemInterfaceMap2 (\<lambda>k. 0) 0) t 3 = Inr (Some 0)
    \<and> dhm2_find (ItemInterfaceMap2 (\<lambda>k. 0) 0) t 7 = Inr None"
proof -
  have "(1 :: nat) = 0 \<or> (\<exists>n < 64. (1 :: nat) = 2 ^ n)" by (intro disjI2 exI [of _ 0]) simp
  from densehashmap2_refines_map [of 1 "[Map2Set (7 :: nat) 1, Map2Set 9 2, Map2Index 3, Map2Erase 7, Map2Copy, Map2Set 9 4]" "\<lambda>k. 0" 0, OF this]
  show ?thesis by auto
qed

section \<open>DenseHashSet2\<close>

lemma set_interface2_simps [simp]: "getKey2 (ItemInterfaceSet2 h) = (\<lambda>k. k)" "makeItem2 (ItemInterfaceSet2 h) k = k"
  by (simp_all add: ItemInterfaceSet2_def)

lemma contains2_lookup: "d2_inv T t \<Longrightarrow> d2_contains T t k = Inr (d2_lookup T t k \<noteq> None)"
  by (rule d2_find_lookup [of T t k]) (auto simp: d2_contains_def slot_Some split: option.splits)

lemma insert2_adds:
  assumes "d2_inv (ItemInterfaceSet2 h) t" "d2_count t < d2_limit"
  shows "\<exists>t' b. dhs2_insert (ItemInterfaceSet2 h) t k = Inr (t', b) \<and> d2_inv (ItemInterfaceSet2 h) t'
    \<and> dom (d2_lookup (ItemInterfaceSet2 h) t') = insert k (dom (d2_lookup (ItemInterfaceSet2 h) t))"
  by (rule d2_upsert [OF assms, of k]) (auto simp: dhs2_insert_def)

lemma eq2_sets:
  assumes "d2_inv (ItemInterfaceSet2 h) s" "d2_inv (ItemInterfaceSet2 h) t"
  shows "dhs2_eq (ItemInterfaceSet2 h) s t = Inr (dom (d2_lookup (ItemInterfaceSet2 h) s) = dom (d2_lookup (ItemInterfaceSet2 h) t))"
proof -
  let ?T = "ItemInterfaceSet2 h"
  have all: "dhs2_all_in ?T t ks = Inr (set ks \<subseteq> dom (d2_lookup ?T t))" for ks
    by (induction ks) (auto simp: contains2_lookup [OF assms(2)])
  have dom: "dom (d2_lookup ?T x) = set (d2_items x)" for x :: "'a DenseHashTable2"
    by (simp add: d2_lookup_def dom_map_of_conv_image_fst image_image)
  have card: "d2_count x = card (set (d2_items x))" if "d2_inv ?T x" for x :: "'a DenseHashTable2"
    using d2_card_lookup [of ?T x] that by (simp add: d2_inv_def dom)
  show ?thesis
    unfolding dhs2_eq_def iterate_items [OF assms(1)] dom card [OF assms(1)] card [OF assms(2)]
    using all [of "d2_items s"] card_subset_eq [of "set (d2_items t)" "set (d2_items s)"] by (auto simp: dom)
qed

end
