(* ===== verification/TableSort.thy ===== *)
theory TableSort
  imports LuaApi "HOL-Library.Multiset"
begin

text \<open>
  \<^verbatim>\<open>table.sort\<close> (\<^verbatim>\<open>VM/src/ltablib.cpp\<close>): introspective sort on the array part of a table.
  The order is a predicate that runs arbitrary code: it may raise an error, and it may change the
  table it is asked about. So the predicate here is a function on the whole state, and the state is
  part of every result, of an error as well: what a script sees in the table after the error is
  what the sort left there. Indices are \<^verbatim>\<open>int\<close> in the code; every access to the array outside
  of it is an error of the model. The array has at most \<^verbatim>\<open>MAXSIZE\<close> ($2^{26}$) elements, so no
  index computation leaves the range of \<^verbatim>\<open>int\<close>.
\<close>

section \<open>Swaps and comparisons\<close>

record ('v, 'w) sort_state =
  arr :: "'v list"
  world :: 'w

type_synonym ('v, 'w, 'a) sort_res = "(lua_error \<times> ('v, 'w) sort_state) + ('a \<times> ('v, 'w) sort_state)"
type_synonym ('v, 'w) sort_step = "(lua_error \<times> ('v, 'w) sort_state) + ('v, 'w) sort_state"
type_synonym ('v, 'w) SortPredicate = "'v \<Rightarrow> 'v \<Rightarrow> ('v, 'w) sort_state \<Rightarrow> ('v, 'w, bool) sort_res"

definition sizearray :: "('v, 'w) sort_state \<Rightarrow> int" where
  "sizearray t = int (length (arr t))"

definition in_array :: "('v, 'w) sort_state \<Rightarrow> int \<Rightarrow> bool" where
  "in_array t i \<longleftrightarrow> 0 \<le> i \<and> i < sizearray t"

definition sort_swap :: "int \<Rightarrow> int \<Rightarrow> ('v, 'w) sort_state \<Rightarrow> ('v, 'w) sort_step" where
  "sort_swap i j t =
     (if in_array t i \<and> in_array t j then
        let temp = arr t ! nat i;
            a = (arr t)[nat i := arr t ! nat j]
        in Inr (t\<lparr>arr := a[nat j := temp]\<rparr>)
      else Inl (Undefined ''array access'', t))"

definition sort_less :: "('v, 'w) SortPredicate \<Rightarrow> int \<Rightarrow> int \<Rightarrow> ('v, 'w) sort_state \<Rightarrow> ('v, 'w, bool) sort_res" where
  "sort_less pred i j t =
     (if in_array t i \<and> in_array t j then
        bindE (pred (arr t ! nat i) (arr t ! nat j) t) (\<lambda>(res, t').
          if sizearray t' \<noteq> sizearray t then Inl (RuntimeError ''table modified during sorting'', t')
          else Inr (res, t'))
      else Inl (Undefined ''array access'', t))"

section \<open>Heap sort\<close>

text \<open>The loop of \<^verbatim>\<open>sort_siftheap\<close> returns the position it ends at.\<close>

function sift_loop :: "('v, 'w) SortPredicate \<Rightarrow> int \<Rightarrow> int \<Rightarrow> nat \<Rightarrow> ('v, 'w) sort_state \<Rightarrow> ('v, 'w, nat) sort_res" where
  "sift_loop pred l cnt root t =
     (if int root * 2 + 2 < cnt then
        let left = root * 2 + 1; right = root * 2 + 2 in
        bindE (sort_less pred (l + int root) (l + int left) t) (\<lambda>(b, t).
        let next = (if b then left else root) in
        bindE (sort_less pred (l + int next) (l + int right) t) (\<lambda>(b, t).
        let next = (if b then right else next) in
        if next = root then Inr (root, t)
        else bindE (sort_swap (l + int root) (l + int next) t) (\<lambda>t. sift_loop pred l cnt next t)))
      else Inr (root, t))"
  by pat_completeness auto
termination by (relation "measure (\<lambda>(pred, l, cnt, root, t). nat (cnt - int root))") (auto split: if_splits)

declare sift_loop.simps [simp del]

definition sort_siftheap :: "('v, 'w) SortPredicate \<Rightarrow> int \<Rightarrow> int \<Rightarrow> nat \<Rightarrow> ('v, 'w) sort_state \<Rightarrow> ('v, 'w) sort_step" where
  "sort_siftheap pred l u root t =
     bindE (guardE (l \<le> u) (Undefined ''l <= u'', t)) (\<lambda>_.
     let cnt = u - l + 1 in
     bindE (sift_loop pred l cnt root t) (\<lambda>(root, t).
     let lastleft = int root * 2 + 1 in
     if lastleft = cnt - 1 then
       bindE (sort_less pred (l + int root) (l + lastleft) t) (\<lambda>(b, t).
       if b then sort_swap (l + int root) (l + lastleft) t else Inr t)
     else Inr t))"

definition sort_heap :: "('v, 'w) SortPredicate \<Rightarrow> int \<Rightarrow> int \<Rightarrow> ('v, 'w) sort_state \<Rightarrow> ('v, 'w) sort_step" where
  "sort_heap pred l u t =
     bindE (guardE (l \<le> u) (Undefined ''l <= u'', t)) (\<lambda>_.
     let cnt = nat (u - l + 1) in
     bindE (foldE (\<lambda>t i. sort_siftheap pred l u i t) t (rev [0..<cnt div 2])) (\<lambda>t.
     foldE (\<lambda>t i. bindE (sort_swap l (l + int i) t) (\<lambda>t. sort_siftheap pred l (l + int i - 1) 0 t))
       t (rev [1..<cnt])))"

section \<open>Quick sort\<close>

text \<open>The two scans of the partition: \<^verbatim>\<open>++i until a[i] >= P\<close>, \<^verbatim>\<open>--j until a[j] <= P\<close>.\<close>

function scan_up :: "('v, 'w) SortPredicate \<Rightarrow> int \<Rightarrow> int \<Rightarrow> int \<Rightarrow> ('v, 'w) sort_state \<Rightarrow> ('v, 'w, int) sort_res" where
  "scan_up pred p u i t =
     bindE (sort_less pred (i + 1) p t) (\<lambda>(b, t).
       if b then if i + 1 \<ge> u then Inl (RuntimeError ''invalid order function for sorting'', t)
                 else scan_up pred p u (i + 1) t
       else Inr (i + 1, t))"
  by pat_completeness auto
termination by (relation "measure (\<lambda>(pred, p, u, i, t). nat (u - i))") auto

function scan_down :: "('v, 'w) SortPredicate \<Rightarrow> int \<Rightarrow> int \<Rightarrow> int \<Rightarrow> ('v, 'w) sort_state \<Rightarrow> ('v, 'w, int) sort_res" where
  "scan_down pred p l j t =
     bindE (sort_less pred p (j - 1) t) (\<lambda>(b, t).
       if b then if j - 1 \<le> l then Inl (RuntimeError ''invalid order function for sorting'', t)
                 else scan_down pred p l (j - 1) t
       else Inr (j - 1, t))"
  by pat_completeness auto
termination by (relation "measure (\<lambda>(pred, p, l, j, t). nat (j - l))") auto

declare scan_up.simps [simp del] scan_down.simps [simp del]

lemma scan_up_Inr:
  "scan_up pred p u i t = Inr (i', t') \<longleftrightarrow> (\<exists>b t1. sort_less pred (i + 1) p t = Inr (b, t1) \<and>
     (if b then i + 1 < u \<and> scan_up pred p u (i + 1) t1 = Inr (i', t') else i' = i + 1 \<and> t' = t1))"
  by (subst scan_up.simps) (cases "sort_less pred (i + 1) p t"; force split: prod.splits)

lemma scan_down_Inr:
  "scan_down pred p l j t = Inr (j', t') \<longleftrightarrow> (\<exists>b t1. sort_less pred p (j - 1) t = Inr (b, t1) \<and>
     (if b then l < j - 1 \<and> scan_down pred p l (j - 1) t1 = Inr (j', t') else j' = j - 1 \<and> t' = t1))"
  by (subst scan_down.simps) (cases "sort_less pred p (j - 1) t"; force split: prod.splits)

lemma scan_up_advances: "scan_up pred p u i t = Inr (i', t') \<Longrightarrow> i < i'"
proof (induction pred p u i t rule: scan_up.induct)
  case (1 pred p u i t)
  from scan_up_Inr [THEN iffD1, OF "1.prems"(1)] obtain b t1 where
    less: "sort_less pred (i + 1) p t = Inr (b, t1)" and
    r: "if b then i + 1 < u \<and> scan_up pred p u (i + 1) t1 = Inr (i', t') else i' = i + 1 \<and> t' = t1"
    by blast
  show ?case
  proof (cases b)
    case True
    with "1.IH" [OF less refl] "1.prems" r show ?thesis by auto
  qed (use r "1.prems" in auto)
qed

lemma scan_down_advances: "scan_down pred p l j t = Inr (j', t') \<Longrightarrow> j' < j"
proof (induction pred p l j t rule: scan_down.induct)
  case (1 pred p l j t)
  from scan_down_Inr [THEN iffD1, OF "1.prems"(1)] obtain b t1 where
    less: "sort_less pred p (j - 1) t = Inr (b, t1)" and
    r: "if b then l < j - 1 \<and> scan_down pred p l (j - 1) t1 = Inr (j', t') else j' = j - 1 \<and> t' = t1"
    by blast
  show ?case
  proof (cases b)
    case True
    with "1.IH" [OF less refl] "1.prems" r show ?thesis by auto
  qed (use r "1.prems" in auto)
qed

text \<open>The loop of the partition; its result is the final \<^verbatim>\<open>i\<close>.\<close>

function partition_loop ::
  "('v, 'w) SortPredicate \<Rightarrow> int \<Rightarrow> int \<Rightarrow> int \<Rightarrow> int \<Rightarrow> int \<Rightarrow> ('v, 'w) sort_state \<Rightarrow> ('v, 'w, int) sort_res" where
  "partition_loop pred l u p i j t =
     bindE (scan_up pred p u i t) (\<lambda>(i', t).
     bindE (scan_down pred p l j t) (\<lambda>(j', t).
     if j' < i' then Inr (i', t)
     else bindE (sort_swap i' j' t) (\<lambda>t. partition_loop pred l u p i' j' t)))"
  by pat_completeness auto
termination
  by (relation "measure (\<lambda>(pred, l, u, p, i, j, t). nat (j - i))")
    (auto dest!: scan_up_advances scan_down_advances)

declare partition_loop.simps [simp del]

lemma scan_up_le: "scan_up pred p u i t = Inr (i', t') \<Longrightarrow> i < u \<Longrightarrow> i' \<le> u"
proof (induction pred p u i t rule: scan_up.induct)
  case (1 pred p u i t)
  from scan_up_Inr [THEN iffD1, OF "1.prems"(1)] obtain b t1 where
    less: "sort_less pred (i + 1) p t = Inr (b, t1)" and
    r: "if b then i + 1 < u \<and> scan_up pred p u (i + 1) t1 = Inr (i', t') else i' = i + 1 \<and> t' = t1"
    by blast
  show ?case
  proof (cases b)
    case True
    with "1.IH" [OF less refl] "1.prems" r show ?thesis by auto
  qed (use r "1.prems" in auto)
qed

lemma partition_loop_range:
  "partition_loop pred l u p i j t = Inr (i', t') \<Longrightarrow> i < u \<Longrightarrow> j \<le> u \<Longrightarrow> i < i' \<and> i' \<le> u"
proof (induction pred l u p i j t rule: partition_loop.induct)
  case (1 pred l u p i j t)
  from "1.prems" obtain i1 t1 j1 t2 where s: "scan_up pred p u i t = Inr (i1, t1)" "scan_down pred p l j t1 = Inr (j1, t2)"
    and r: "(if j1 < i1 then Inr (i1, t2) else bindE (sort_swap i1 j1 t2) (\<lambda>t. partition_loop pred l u p i1 j1 t)) = Inr (i', t')"
    by (subst (asm) partition_loop.simps) (auto simp: bindE_Inr_iff)
  note b = scan_up_advances [OF s(1)] scan_up_le [OF s(1) "1.prems"(2)] scan_down_advances [OF s(2)]
  show ?case
  proof (cases "j1 < i1")
    case True with r b show ?thesis by simp
  next
    case False
    with r obtain t3 where t3: "sort_swap i1 j1 t2 = Inr t3" "partition_loop pred l u p i1 j1 t3 = Inr (i', t')"
      by (auto simp: bindE_Inr_iff)
    from "1.IH" [OF s(1) refl s(2) refl False t3] b "1.prems" False show ?thesis by simp
  qed
qed

function sort_rec :: "('v, 'w) SortPredicate \<Rightarrow> int \<Rightarrow> int \<Rightarrow> nat \<Rightarrow> ('v, 'w) sort_state \<Rightarrow> ('v, 'w) sort_step" where
  "sort_rec pred l u limit t =
     (if l < u then
        if limit = 0 then sort_heap pred l u t
        else
          bindE (sort_less pred u l t) (\<lambda>(b, t).
          bindE (if b then sort_swap u l t else Inr t) (\<lambda>t.
          if u - l = 1 then Inr t
          else
            let m = l + (u - l) div 2 in
            bindE (sort_less pred m l t) (\<lambda>(b, t).
            bindE (if b then sort_swap m l t
                   else bindE (sort_less pred u m t) (\<lambda>(b, t). if b then sort_swap m u t else Inr t)) (\<lambda>t.
            if u - l = 2 then Inr t
            else
              let p = u - 1 in
              bindE (sort_swap m (u - 1) t) (\<lambda>t.
              bindE (partition_loop pred l u p l (u - 1) t) (\<lambda>(i, t).
              bindE (sort_swap p i t) (\<lambda>t.
              let limit = limit div 2 + limit div 4 in
              if i - l < u - i
              then bindE (sort_rec pred l (i - 1) limit t) (\<lambda>t. sort_rec pred (i + 1) u limit t)
              else bindE (sort_rec pred (i + 1) u limit t) (\<lambda>t. sort_rec pred l (i - 1) limit t)))))))) 
      else Inr t)"
  by pat_completeness auto
termination
  by (relation "measure (\<lambda>(pred, l, u, limit, t). nat (u - l + 1))")
    (auto dest!: partition_loop_range)

declare sort_rec.simps [simp del]

section \<open>What every run keeps\<close>

text \<open>A postcondition for the error and one for the value of a result.\<close>

definition post :: "'e + 'a \<Rightarrow> ('e \<Rightarrow> bool) \<Rightarrow> ('a \<Rightarrow> bool) \<Rightarrow> bool" where
  "post r E Q = (case r of Inl e \<Rightarrow> E e | Inr x \<Rightarrow> Q x)"

lemma post_simps [simp]: "post (Inl e) E Q \<longleftrightarrow> E e" "post (Inr x) E Q \<longleftrightarrow> Q x"
  by (simp_all add: post_def)

lemma post_bindE: "post m E P \<Longrightarrow> (\<And>x. P x \<Longrightarrow> post (f x) E Q) \<Longrightarrow> post (bindE m f) E Q"
  by (cases m) auto

lemma post_mono: "post m E P \<Longrightarrow> (\<And>x. P x \<Longrightarrow> Q x) \<Longrightarrow> post m E Q"
  by (cases m) auto

lemma post_foldE: "I r \<Longrightarrow> (\<And>r x. I r \<Longrightarrow> x \<in> set xs \<Longrightarrow> post (f r x) E I) \<Longrightarrow> post (foldE f r xs) E I"
  by (induction xs arbitrary: r) (auto intro!: post_bindE)

text \<open>
  An invariant \<open>I\<close> of the swaps and comparisons inside the range from \<open>lo\<close> to \<open>hi\<close>, whatever the
  predicate does, is an invariant of the sort; \<open>E\<close> describes the errors and the states they leave.
\<close>

locale sort_invariant =
  fixes pred :: "('v, 'w) SortPredicate"
    and I :: "('v, 'w) sort_state \<Rightarrow> bool"
    and E :: "lua_error \<times> ('v, 'w) sort_state \<Rightarrow> bool"
    and n lo hi :: int
  assumes size: "I t \<Longrightarrow> 0 \<le> lo \<and> hi < n \<and> sizearray t = n"
    and swap: "I t \<Longrightarrow> lo \<le> i \<Longrightarrow> i \<le> hi \<Longrightarrow> lo \<le> j \<Longrightarrow> j \<le> hi \<Longrightarrow> sort_swap i j t = Inr t' \<Longrightarrow> I t'"
    and pred: "I t \<Longrightarrow> post (pred a b t) E (\<lambda>(r, t').
      if sizearray t' = n then I t' else E (RuntimeError ''table modified during sorting'', t'))"
    and invalid: "I t \<Longrightarrow> E (RuntimeError ''invalid order function for sorting'', t)"
begin

lemma swap_post: "I t \<Longrightarrow> lo \<le> i \<Longrightarrow> i \<le> hi \<Longrightarrow> lo \<le> j \<Longrightarrow> j \<le> hi \<Longrightarrow> post (sort_swap i j t) E I"
  using size [of t] swap [of t i j]
  by (auto simp: sort_swap_def in_array_def Let_def)

lemma less_post:
  "I t \<Longrightarrow> lo \<le> i \<Longrightarrow> i \<le> hi \<Longrightarrow> lo \<le> j \<Longrightarrow> j \<le> hi \<Longrightarrow> post (sort_less pred i j t) E (\<lambda>(b, t). I t)"
  using size [of t]
  by (auto simp: sort_less_def in_array_def intro!: post_bindE [OF pred])

lemma sift_loop_post:
  "I t \<Longrightarrow> lo \<le> l \<Longrightarrow> l + cnt \<le> hi + 1 \<Longrightarrow> int root < cnt \<Longrightarrow>
   post (sift_loop pred l cnt root t) E (\<lambda>(root', t). I t \<and> int root' < cnt)"
proof (induction "nat (cnt - int root)" arbitrary: root t rule: less_induct)
  case less
  show ?case
  proof (cases "int root * 2 + 2 < cnt")
    case False
    then show ?thesis using less.prems by (subst sift_loop.simps) simp
  next
    case True
    have step: "post (bindE (sort_swap x y t) (sift_loop pred l cnt nx)) E (\<lambda>(root', t). I t \<and> int root' < cnt)"
      if "I t" "root < nx" "int nx < cnt" "lo \<le> x" "x \<le> hi" "lo \<le> y" "y \<le> hi" for nx x y t
      using that less.prems by (intro post_bindE [OF swap_post less.hyps]) auto
    show ?thesis using True less.prems
      by (subst sift_loop.simps) (auto simp: Let_def intro!: post_bindE [OF less_post] step split: prod.splits)
  qed
qed

lemma siftheap_post:
  "I t \<Longrightarrow> lo \<le> l \<Longrightarrow> l \<le> u \<Longrightarrow> u \<le> hi \<Longrightarrow> int root \<le> u - l \<Longrightarrow> post (sort_siftheap pred l u root t) E I"
  by (auto simp: sort_siftheap_def Let_def split: prod.splits
      intro!: post_bindE [OF sift_loop_post] post_bindE [OF less_post] swap_post)

lemma heap_post: "I t \<Longrightarrow> lo \<le> l \<Longrightarrow> l \<le> u \<Longrightarrow> u \<le> hi \<Longrightarrow> post (sort_heap pred l u t) E I"
  by (auto simp: sort_heap_def Let_def intro!: post_bindE [OF post_foldE [of I]] post_foldE [of I] siftheap_post
      post_bindE [OF swap_post])

lemma scan_up_post:
  "I t \<Longrightarrow> lo \<le> i + 1 \<Longrightarrow> i < u \<Longrightarrow> u \<le> hi \<Longrightarrow> lo \<le> p \<Longrightarrow> p \<le> hi \<Longrightarrow>
   post (scan_up pred p u i t) E (\<lambda>(i', t). I t \<and> i < i' \<and> i' \<le> u)"
proof (induction "nat (u - i)" arbitrary: i t rule: less_induct)
  case less
  have rec: "post (scan_up pred p u (i + 1) t) E (\<lambda>(i', t). I t \<and> i < i' \<and> i' \<le> u)" if "I t" "i + 1 < u" for t
    by (rule post_mono [OF less.hyps]) (use that less.prems in auto)
  show ?case using less.prems
    by (subst scan_up.simps) (auto intro!: post_bindE [OF less_post] rec invalid split: prod.splits)
qed

lemma scan_down_post:
  "I t \<Longrightarrow> lo \<le> l \<Longrightarrow> l < j \<Longrightarrow> j \<le> hi + 1 \<Longrightarrow> lo \<le> p \<Longrightarrow> p \<le> hi \<Longrightarrow>
   post (scan_down pred p l j t) E (\<lambda>(j', t). I t \<and> l \<le> j' \<and> j' < j)"
proof (induction "nat (j - l)" arbitrary: j t rule: less_induct)
  case less
  have rec: "post (scan_down pred p l (j - 1) t) E (\<lambda>(j', t). I t \<and> l \<le> j' \<and> j' < j)" if "I t" "l < j - 1" for t
    by (rule post_mono [OF less.hyps]) (use that less.prems in auto)
  show ?case using less.prems
    by (subst scan_down.simps) (auto intro!: post_bindE [OF less_post] rec invalid split: prod.splits)
qed

lemma partition_post:
  "I t \<Longrightarrow> lo \<le> l \<Longrightarrow> l \<le> i \<Longrightarrow> i < u \<Longrightarrow> l < j \<Longrightarrow> j \<le> u \<Longrightarrow> u \<le> hi \<Longrightarrow> lo \<le> p \<Longrightarrow> p \<le> hi \<Longrightarrow>
   post (partition_loop pred l u p i j t) E (\<lambda>(i', t). I t \<and> i < i' \<and> i' \<le> u)"
proof (induction "nat (j - i)" arbitrary: i j t rule: less_induct)
  case less
  have rec: "post (partition_loop pred l u p i' j' t) E (\<lambda>(i', t). I t \<and> i < i' \<and> i' \<le> u)"
    if "I t" "i < i'" "i' \<le> j'" "j' < j" for i' j' t
    by (rule post_mono [OF less.hyps]) (use that less.prems in auto)
  show ?case using less.prems
    by (subst partition_loop.simps)
      (auto intro!: post_bindE [OF scan_up_post] post_bindE [OF scan_down_post] post_bindE [OF swap_post] rec
        split: prod.splits)
qed

lemma rec_post: "I t \<Longrightarrow> lo \<le> l \<Longrightarrow> u \<le> hi \<Longrightarrow> post (sort_rec pred l u limit t) E I"
proof (induction "nat (u - l + 1)" arbitrary: l u limit t rule: less_induct)
  case less
  have rec: "post (bindE (sort_rec pred l1 u1 limit t) (\<lambda>t. sort_rec pred l2 u2 limit t)) E I"
    if "I t" "nat (u1 - l1 + 1) < nat (u - l + 1)" "nat (u2 - l2 + 1) < nat (u - l + 1)"
      "lo \<le> l1" "lo \<le> l2" "u1 \<le> hi" "u2 \<le> hi" for l1 u1 l2 u2 limit t
    using that by (intro post_bindE [OF less.hyps] less.hyps)
  show ?case
  proof (cases "l < u \<and> limit \<noteq> 0")
    case False
    then show ?thesis using less.prems heap_post [of t l u] by (subst sort_rec.simps) auto
  next
    case True
    let ?m = "l + (u - l) div 2"
    have m: "lo \<le> ?m" "?m \<le> u" using True less.prems by auto
    have first: "post (if b then sort_swap u l t else Inr t) E I" if "I t" for b t
      using that less.prems True by (auto intro!: swap_post)
    have mid: "post (if b then sort_swap ?m l t
        else bindE (sort_less pred u ?m t) (\<lambda>(b, t). if b then sort_swap ?m u t else Inr t)) E I" if "I t" for b t
      using that less.prems True m by (auto intro!: swap_post post_bindE [OF less_post])
    show ?thesis using True less.prems m
      by (subst sort_rec.simps)
        (auto simp: Let_def simp del: bindE_simps intro!: post_bindE [OF less_post] post_bindE [OF first] post_bindE [OF mid]
          post_bindE [OF swap_post] post_bindE [OF partition_post] rec split: prod.splits)
  qed
qed

end

text \<open>Two predicates that agree on the elements of the range sort alike.\<close>

lemma bindE_post_cong: "post m E P \<Longrightarrow> (\<And>x. P x \<Longrightarrow> f x = g x) \<Longrightarrow> bindE m f = bindE m g"
  by (cases m) auto

lemma foldE_post_cong:
  "I r \<Longrightarrow> (\<And>r x. I r \<Longrightarrow> x \<in> set xs \<Longrightarrow> post (f r x) E I \<and> g r x = f r x) \<Longrightarrow> foldE g r xs = foldE f r xs"
proof (induction xs arbitrary: r)
  case (Cons x xs)
  then have "post (f r x) E I" "g r x = f r x" by auto
  then show ?case using Cons by (auto intro: bindE_post_cong)
qed simp

locale sort_agree = sort_invariant +
  fixes pred' :: "('a, 'b) SortPredicate"
  assumes agree: "I t \<Longrightarrow> lo \<le> i \<Longrightarrow> i \<le> hi \<Longrightarrow> lo \<le> j \<Longrightarrow> j \<le> hi \<Longrightarrow>
    pred' (arr t ! nat i) (arr t ! nat j) t = pred (arr t ! nat i) (arr t ! nat j) t"
begin

lemma less_agree:
  "I t \<Longrightarrow> lo \<le> i \<Longrightarrow> i \<le> hi \<Longrightarrow> lo \<le> j \<Longrightarrow> j \<le> hi \<Longrightarrow> sort_less pred' i j t = sort_less pred i j t"
  by (simp add: sort_less_def agree)

lemma sift_loop_agree:
  "I t \<Longrightarrow> lo \<le> l \<Longrightarrow> l + cnt \<le> hi + 1 \<Longrightarrow> sift_loop pred' l cnt root t = sift_loop pred l cnt root t"
proof (induction "nat (cnt - int root)" arbitrary: root t rule: less_induct)
  case less
  show ?case
  proof (cases "int root * 2 + 2 < cnt")
    case True
    have step: "bindE (sort_swap x y t) (sift_loop pred' l cnt nx) = bindE (sort_swap x y t) (sift_loop pred l cnt nx)"
      if "I t" "root < nx" "int nx < cnt" "lo \<le> x" "x \<le> hi" "lo \<le> y" "y \<le> hi" for nx x y t
      using that less.prems by (intro bindE_post_cong [OF swap_post less.hyps]) auto
    show ?thesis using True less.prems
      by (subst (1 2) sift_loop.simps)
        (auto simp: Let_def less_agree intro!: bindE_post_cong [OF less_post] step split: prod.splits)
  qed (subst (1 2) sift_loop.simps, simp)
qed

lemma siftheap_agree:
  assumes "I t" "lo \<le> l" "l \<le> u" "u \<le> hi" "int root \<le> u - l"
  shows "sort_siftheap pred' l u root t = sort_siftheap pred l u root t"
proof -
  have "post (sift_loop pred l (u - l + 1) root t) E (\<lambda>(root', t). I t \<and> int root' < u - l + 1)"
    by (rule sift_loop_post) (use assms in auto)
  then show ?thesis using assms
    by (auto simp: sort_siftheap_def Let_def sift_loop_agree less_agree intro!: bindE_post_cong split: prod.splits)
qed

lemma heap_agree:
  assumes "I t" "lo \<le> l" "l \<le> u" "u \<le> hi"
  shows "sort_heap pred' l u t = sort_heap pred l u t"
proof -
  have "foldE (\<lambda>t i. sort_siftheap pred' l u i t) t xs = foldE (\<lambda>t i. sort_siftheap pred l u i t) t xs"
    if "set xs \<subseteq> {0..<nat (u - l + 1) div 2}" for xs
    by (rule foldE_post_cong [where I = I, OF assms(1)])
      (use that assms in \<open>auto intro!: siftheap_post siftheap_agree dest!: subsetD\<close>)
  moreover have "foldE (\<lambda>t i. bindE (sort_swap l (l + int i) t) (\<lambda>t. sort_siftheap pred' l (l + int i - 1) 0 t)) t xs =
      foldE (\<lambda>t i. bindE (sort_swap l (l + int i) t) (\<lambda>t. sort_siftheap pred l (l + int i - 1) 0 t)) t xs"
    if "set xs \<subseteq> {1..<nat (u - l + 1)}" "I t" for t xs
    by (rule foldE_post_cong [where I = I, OF that(2)])
      (use that assms in \<open>auto intro!: post_bindE [OF swap_post] bindE_post_cong [OF swap_post] siftheap_post siftheap_agree
        dest!: subsetD\<close>)
  moreover have "post (foldE (\<lambda>t i. sort_siftheap pred l u i t) t (rev [0..<nat (u - l + 1) div 2])) E I"
    by (rule post_foldE [where I = I, OF assms(1)]) (use assms in \<open>auto intro!: siftheap_post\<close>)
  ultimately show ?thesis using assms(3)
    by (auto simp: sort_heap_def Let_def intro!: bindE_post_cong)
qed

lemma scan_up_agree:
  "I t \<Longrightarrow> lo \<le> i + 1 \<Longrightarrow> i < u \<Longrightarrow> u \<le> hi \<Longrightarrow> lo \<le> p \<Longrightarrow> p \<le> hi \<Longrightarrow> scan_up pred' p u i t = scan_up pred p u i t"
proof (induction "nat (u - i)" arbitrary: i t rule: less_induct)
  case less
  then show ?case
    by (subst (1 2) scan_up.simps) (auto simp: less_agree intro!: bindE_post_cong [OF less_post] less.hyps split: prod.splits)
qed

lemma scan_down_agree:
  "I t \<Longrightarrow> lo \<le> l \<Longrightarrow> l < j \<Longrightarrow> j \<le> hi + 1 \<Longrightarrow> lo \<le> p \<Longrightarrow> p \<le> hi \<Longrightarrow> scan_down pred' p l j t = scan_down pred p l j t"
proof (induction "nat (j - l)" arbitrary: j t rule: less_induct)
  case less
  then show ?case
    by (subst (1 2) scan_down.simps) (auto simp: less_agree intro!: bindE_post_cong [OF less_post] less.hyps split: prod.splits)
qed

lemma partition_agree:
  "I t \<Longrightarrow> lo \<le> l \<Longrightarrow> l \<le> i \<Longrightarrow> i < u \<Longrightarrow> l < j \<Longrightarrow> j \<le> u \<Longrightarrow> u \<le> hi \<Longrightarrow> lo \<le> p \<Longrightarrow> p \<le> hi \<Longrightarrow>
   partition_loop pred' l u p i j t = partition_loop pred l u p i j t"
proof (induction "nat (j - i)" arbitrary: i j t rule: less_induct)
  case less
  then show ?case
    by (subst (1 2) partition_loop.simps)
      (auto simp: scan_up_agree scan_down_agree split: prod.splits intro!: bindE_post_cong [OF scan_up_post]
        bindE_post_cong [OF scan_down_post] bindE_post_cong [OF swap_post] less.hyps)
qed

lemma rec_agree: "I t \<Longrightarrow> lo \<le> l \<Longrightarrow> u \<le> hi \<Longrightarrow> sort_rec pred' l u limit t = sort_rec pred l u limit t"
proof (induction "nat (u - l + 1)" arbitrary: l u limit t rule: less_induct)
  case less
  have rec: "bindE (sort_rec pred' l1 u1 limit t) (\<lambda>t. sort_rec pred' l2 u2 limit t) =
      bindE (sort_rec pred l1 u1 limit t) (\<lambda>t. sort_rec pred l2 u2 limit t)"
    if "I t" "nat (u1 - l1 + 1) < nat (u - l + 1)" "nat (u2 - l2 + 1) < nat (u - l + 1)"
      "lo \<le> l1" "lo \<le> l2" "u1 \<le> hi" "u2 \<le> hi" for l1 u1 l2 u2 limit t
    using that less.hyps [of u1 l1 t limit] by (auto intro!: bindE_post_cong [OF rec_post] less.hyps)
  show ?case
  proof (cases "l < u \<and> limit \<noteq> 0")
    case False
    then show ?thesis using less.prems heap_agree [of t l u] by (subst (1 2) sort_rec.simps) auto
  next
    case True
    let ?m = "l + (u - l) div 2"
    have m: "lo \<le> ?m" "?m \<le> u" using True less.prems by auto
    have first: "post (if b then sort_swap u l t else Inr t) E I" if "I t" for b t
      using that less.prems True by (auto intro!: swap_post)
    have mid: "post (bindE (sort_less pred u ?m t) (\<lambda>(b, t). if b then sort_swap ?m u t else Inr t)) E I"
      if "I t" for t
      using that less.prems True m by (auto intro!: swap_post post_bindE [OF less_post])
    show ?thesis using True less.prems m
      by (subst (1 2) sort_rec.simps)
        (auto simp: Let_def less_agree partition_agree simp del: bindE_simps intro!: bindE_post_cong [OF less_post]
          bindE_post_cong [OF first] bindE_post_cong [OF mid] bindE_post_cong [OF swap_post]
          bindE_post_cong [OF partition_post] rec split: prod.splits)
  qed
qed

end

section \<open>Sorting with an order\<close>

text \<open>An element by its \<^verbatim>\<open>int\<close> index, and what the swaps of a range can do to a table.\<close>

definition elem :: "('v, 'w) sort_state \<Rightarrow> int \<Rightarrow> 'v" where
  "elem t i = arr t ! nat i"

definition shuffled :: "int \<Rightarrow> int \<Rightarrow> ('v, 'w) sort_state \<Rightarrow> ('v, 'w) sort_state \<Rightarrow> bool" where
  "shuffled l u t t' \<longleftrightarrow> sizearray t' = sizearray t \<and> world t' = world t \<and>
     (\<forall>k. 0 \<le> k \<and> (k < l \<or> u < k) \<longrightarrow> elem t' k = elem t k) \<and>
     (\<forall>k. l \<le> k \<and> k \<le> u \<longrightarrow> (\<exists>k'. l \<le> k' \<and> k' \<le> u \<and> elem t' k = elem t k'))"

lemma shuffled_refl [simp]: "shuffled l u t t"
  by (auto simp: shuffled_def)

lemma shuffled_trans: "shuffled l u t t' \<Longrightarrow> shuffled l u t' t'' \<Longrightarrow> shuffled l u t t''"
  unfolding shuffled_def by metis

lemma shuffled_mono:
  assumes "shuffled l' u' t t'" "0 \<le> l" "l \<le> l'" "u' \<le> u"
  shows "shuffled l u t t'"
  unfolding shuffled_def
proof (intro conjI allI impI)
  fix k assume "l \<le> k \<and> k \<le> u"
  show "\<exists>k'. l \<le> k' \<and> k' \<le> u \<and> elem t' k = elem t k'"
  proof (cases "l' \<le> k \<and> k \<le> u'")
    case True
    with assms(1) obtain k' where "l' \<le> k'" "k' \<le> u'" "elem t' k = elem t k'" by (auto simp: shuffled_def)
    with assms show ?thesis by (intro exI [of _ k']) auto
  next
    case False
    with assms \<open>l \<le> k \<and> k \<le> u\<close> show ?thesis by (intro exI [of _ k]) (auto simp: shuffled_def)
  qed
qed (use assms in \<open>auto simp: shuffled_def\<close>)

lemma shuffled_elem: "shuffled l u t t' \<Longrightarrow> 0 \<le> k \<Longrightarrow> k < l \<or> u < k \<Longrightarrow> elem t' k = elem t k"
  by (simp add: shuffled_def)

lemma shuffled_inside:
  assumes "shuffled l u t t'" "l \<le> k" "k \<le> u"
  obtains k' where "l \<le> k'" "k' \<le> u" "elem t' k = elem t k'"
  using assms unfolding shuffled_def by blast

lemma shuffled_size: "shuffled l u t t' \<Longrightarrow> sizearray t' = sizearray t"
  by (simp add: shuffled_def)

lemma sort_swap_Inr:
  assumes "0 \<le> i" "i < sizearray t" "0 \<le> j" "j < sizearray t"
  shows "\<exists>t'. sort_swap i j t = Inr t' \<and> sizearray t' = sizearray t \<and> world t' = world t \<and> mset (arr t') = mset (arr t) \<and>
    (\<forall>k \<ge> 0. elem t' k = (if k = i then elem t j else if k = j then elem t i else elem t k))"
proof -
  have "nat i < length (arr t)" "nat j < length (arr t)" using assms by (auto simp: sizearray_def)
  then show ?thesis using assms
    by (auto simp: sort_swap_def in_array_def Let_def elem_def sizearray_def nth_list_update mset_swap nat_eq_iff)
qed

lemma sort_swap_shuffled:
  assumes "0 \<le> l" "u < sizearray t" "l \<le> i" "i \<le> u" "l \<le> j" "j \<le> u"
  shows "\<exists>t'. sort_swap i j t = Inr t' \<and> shuffled l u t t' \<and>
    (\<forall>k \<ge> 0. elem t' k = (if k = i then elem t j else if k = j then elem t i else elem t k))"
proof -
  obtain t' where t': "sort_swap i j t = Inr t'" "sizearray t' = sizearray t" "world t' = world t"
    and e: "\<forall>k \<ge> 0. elem t' k = (if k = i then elem t j else if k = j then elem t i else elem t k)"
    using sort_swap_Inr [of i t j] assms by auto
  have "\<exists>k'. l \<le> k' \<and> k' \<le> u \<and> elem t' k = elem t k'" if "l \<le> k" "k \<le> u" for k
    using e that assms by (auto intro: exI [of _ "if k = i then j else if k = j then i else k"])
  with t' e assms show ?thesis by (auto simp: shuffled_def)
qed

text \<open>A predicate that only compares: its result is an order on the values, a strict weak one on \<open>V\<close>.\<close>

definition compares :: "('v \<Rightarrow> 'v \<Rightarrow> bool) \<Rightarrow> ('v, 'w) SortPredicate" where
  "compares lt a b t = Inr (lt a b, t)"

lemma sort_less_compares [simp]:
  "0 \<le> i \<Longrightarrow> i < sizearray t \<Longrightarrow> 0 \<le> j \<Longrightarrow> j < sizearray t \<Longrightarrow>
   sort_less (compares lt) i j t = Inr (lt (elem t i) (elem t j), t)"
  by (simp add: sort_less_def in_array_def compares_def elem_def)

interpretation shuffling: sort_invariant "compares lt" "\<lambda>t. 0 \<le> lo \<and> hi < sizearray t0 \<and> shuffled lo hi t0 t"
  "\<lambda>_. True" "sizearray t0" lo hi for lt lo hi t0
proof unfold_locales
  fix t i j t' assume "0 \<le> lo \<and> hi < sizearray t0 \<and> shuffled lo hi t0 t" "lo \<le> i" "i \<le> hi" "lo \<le> j" "j \<le> hi"
    "sort_swap i j t = Inr t'"
  then show "0 \<le> lo \<and> hi < sizearray t0 \<and> shuffled lo hi t0 t'"
    using sort_swap_shuffled [of lo hi t i j] by (auto simp: shuffled_size intro: shuffled_trans)
qed (auto simp: compares_def shuffled_size)

lemma result_shuffled:
  assumes "sort_rec (compares lt) l u limit t = Inr t'" "0 \<le> l" "u < sizearray t"
  shows "shuffled l u t t'"
  using shuffling.rec_post [of l u t t l u lt limit] assms by simp

locale weak_order =
  fixes lt :: "'v \<Rightarrow> 'v \<Rightarrow> bool" and V :: "'v set"
  assumes irrefl: "x \<in> V \<Longrightarrow> \<not> lt x x"
    and trans: "x \<in> V \<Longrightarrow> y \<in> V \<Longrightarrow> z \<in> V \<Longrightarrow> lt x y \<Longrightarrow> lt y z \<Longrightarrow> lt x z"
    and incomparable: "x \<in> V \<Longrightarrow> y \<in> V \<Longrightarrow> z \<in> V \<Longrightarrow> \<not> lt x y \<Longrightarrow> \<not> lt y z \<Longrightarrow> \<not> lt x z"
begin

text \<open>The elements of the range are values of the order.\<close>

definition values_in :: "int \<Rightarrow> int \<Rightarrow> ('v, 'w) sort_state \<Rightarrow> bool" where
  "values_in l u t \<longleftrightarrow> 0 \<le> l \<and> u < sizearray t \<and> (\<forall>k. l \<le> k \<and> k \<le> u \<longrightarrow> elem t k \<in> V)"

definition le :: "'v \<Rightarrow> 'v \<Rightarrow> bool" where
  "le x y \<longleftrightarrow> \<not> lt y x"

lemma le_refl: "x \<in> V \<Longrightarrow> le x x"
  by (simp add: le_def irrefl)

lemma le_trans: "le x y \<Longrightarrow> le y z \<Longrightarrow> x \<in> V \<Longrightarrow> y \<in> V \<Longrightarrow> z \<in> V \<Longrightarrow> le x z"
  using incomparable [of z y x] by (simp add: le_def)

lemma lt_le: "lt x y \<Longrightarrow> x \<in> V \<Longrightarrow> y \<in> V \<Longrightarrow> le x y"
  using trans [of x y x] irrefl [of x] by (auto simp: le_def)

lemma values_in_elem: "values_in l u t \<Longrightarrow> l \<le> k \<Longrightarrow> k \<le> u \<Longrightarrow> elem t k \<in> V"
  by (simp add: values_in_def)

lemma values_in_shuffled: "values_in l u t \<Longrightarrow> shuffled l u t t' \<Longrightarrow> values_in l u t'"
  unfolding values_in_def shuffled_def by metis

lemma values_in_mono: "values_in l u t \<Longrightarrow> l \<le> l' \<Longrightarrow> u' \<le> u \<Longrightarrow> values_in l' u' t"
  by (auto simp: values_in_def)

definition sorted_in :: "int \<Rightarrow> int \<Rightarrow> ('v, 'w) sort_state \<Rightarrow> bool" where
  "sorted_in l u t \<longleftrightarrow> (\<forall>i j. l \<le> i \<and> i \<le> j \<and> j \<le> u \<longrightarrow> le (elem t i) (elem t j))"

end

context weak_order begin

lemma scan_up_stops:
  assumes "0 \<le> i + 1" "i < s" "s \<le> u" "u < sizearray t" "0 \<le> p" "p < sizearray t" "\<not> lt (elem t s) (elem t p)"
  shows "\<exists>i'. scan_up (compares lt) p u i t = Inr (i', t) \<and> i < i' \<and> i' \<le> s \<and>
    (\<forall>k. i < k \<and> k < i' \<longrightarrow> lt (elem t k) (elem t p)) \<and> \<not> lt (elem t i') (elem t p)"
  using assms
proof (induction "nat (u - i)" arbitrary: i rule: less_induct)
  case less
  show ?case
  proof (cases "lt (elem t (i + 1)) (elem t p)")
    case False
    with less.prems show ?thesis by (subst scan_up.simps) auto
  next
    case True
    with less.prems have "i + 1 < s" by (cases "i + 1 = s") auto
    then obtain i' where i': "scan_up (compares lt) p u (i + 1) t = Inr (i', t)" "i + 1 < i'" "i' \<le> s"
      "\<forall>k. i + 1 < k \<and> k < i' \<longrightarrow> lt (elem t k) (elem t p)" "\<not> lt (elem t i') (elem t p)"
      using less.hyps [of "i + 1"] less.prems by auto
    moreover have "lt (elem t k) (elem t p)" if "i < k" "k < i'" for k
      using that True i'(4) by (cases "k = i + 1") auto
    ultimately show ?thesis using True less.prems \<open>i + 1 < s\<close> by (subst scan_up.simps) auto
  qed
qed

lemma scan_down_stops:
  assumes "0 \<le> l" "l \<le> s" "s < j" "j \<le> sizearray t" "0 \<le> p" "p < sizearray t" "\<not> lt (elem t p) (elem t s)"
  shows "\<exists>j'. scan_down (compares lt) p l j t = Inr (j', t) \<and> s \<le> j' \<and> j' < j \<and>
    (\<forall>k. j' < k \<and> k < j \<longrightarrow> lt (elem t p) (elem t k)) \<and> \<not> lt (elem t p) (elem t j')"
  using assms
proof (induction "nat (j - l)" arbitrary: j rule: less_induct)
  case less
  show ?case
  proof (cases "lt (elem t p) (elem t (j - 1))")
    case False
    with less.prems show ?thesis by (subst scan_down.simps) auto
  next
    case True
    with less.prems have "s < j - 1" by (cases "s = j - 1") auto
    then obtain j' where j': "scan_down (compares lt) p l (j - 1) t = Inr (j', t)" "s \<le> j'" "j' < j - 1"
      "\<forall>k. j' < k \<and> k < j - 1 \<longrightarrow> lt (elem t p) (elem t k)" "\<not> lt (elem t p) (elem t j')"
      using less.hyps [of "j - 1"] less.prems by auto
    moreover have "lt (elem t p) (elem t k)" if "j' < k" "k < j" for k
      using that True j'(4) by (cases "k = j - 1") auto
    ultimately show ?thesis using True less.prems \<open>s < j - 1\<close> by (subst scan_down.simps) auto
  qed
qed

text \<open>Both scans are stopped by elements already known to lie on the other side of the pivot, so with an
  order the error of an invalid order function is not reached.\<close>

lemma partition_partitions:
  assumes "values_in l u t" "l \<le> i" "i \<le> j" "i < p" "l < j" "j \<le> p" "p \<le> u"
    and "\<forall>k. l \<le> k \<and> k \<le> i \<longrightarrow> le (elem t k) (elem t p)"
    and "\<forall>k. j \<le> k \<and> k \<le> u \<longrightarrow> le (elem t p) (elem t k)"
  shows "\<exists>i' t'. partition_loop (compares lt) l u p i j t = Inr (i', t') \<and> shuffled (i + 1) (j - 1) t t' \<and>
    i < i' \<and> i' \<le> p \<and>
    (\<forall>k. l \<le> k \<and> k < i' \<longrightarrow> le (elem t' k) (elem t p)) \<and>
    (\<forall>k. i' \<le> k \<and> k \<le> u \<longrightarrow> le (elem t p) (elem t' k))"
  using assms
proof (induction "nat (j - i)" arbitrary: i j t rule: less_induct)
  case less
  have V: "elem t k \<in> V" if "l \<le> k" "k \<le> u" for k
    using that less.prems(1) by (simp add: values_in_def)
  have bounds: "0 \<le> l" "u < sizearray t" using less.prems(1) by (auto simp: values_in_def)
  have up: "i < max j (i + 1)" by auto
  have "\<exists>i1. scan_up (compares lt) p u i t = Inr (i1, t) \<and> i < i1 \<and> i1 \<le> max j (i + 1) \<and>
      (\<forall>k. i < k \<and> k < i1 \<longrightarrow> lt (elem t k) (elem t p)) \<and> \<not> lt (elem t i1) (elem t p)"
    by (rule scan_up_stops) (use less.prems bounds up in \<open>auto simp: le_def max_def\<close>)
  then obtain i1 where i1: "scan_up (compares lt) p u i t = Inr (i1, t)" "i < i1" "i1 \<le> max j (i + 1)"
      "\<forall>k. i < k \<and> k < i1 \<longrightarrow> lt (elem t k) (elem t p)" and stop1: "\<not> lt (elem t i1) (elem t p)"
    by blast
  have "\<exists>j1. scan_down (compares lt) p l j t = Inr (j1, t) \<and> min i (j - 1) \<le> j1 \<and> j1 < j \<and>
      (\<forall>k. j1 < k \<and> k < j \<longrightarrow> lt (elem t p) (elem t k)) \<and> \<not> lt (elem t p) (elem t j1)"
    by (rule scan_down_stops) (use less.prems bounds in \<open>auto simp: le_def min_def\<close>)
  then obtain j1 where j1: "scan_down (compares lt) p l j t = Inr (j1, t)" "min i (j - 1) \<le> j1" "j1 < j"
      "\<forall>k. j1 < k \<and> k < j \<longrightarrow> lt (elem t p) (elem t k)" and stop2: "\<not> lt (elem t p) (elem t j1)"
    by blast
  note stops = stop1 stop2
  have left: "le (elem t k) (elem t p)" if "l \<le> k" "k < i1" for k
    using that less.prems i1 V by (cases "k \<le> i") (auto intro!: lt_le)
  have right: "le (elem t p) (elem t k)" if "j1 < k" "k \<le> u" for k
    using that less.prems j1 V by (cases "j \<le> k") (auto intro!: lt_le)
  show ?case
  proof (cases "j1 < i1")
    case True
    with i1 j1 left right less.prems show ?thesis
      by (subst partition_loop.simps) (auto intro!: exI [of _ t])
  next
    case False
    obtain t1 where t1: "sort_swap i1 j1 t = Inr t1" "shuffled (i + 1) (j - 1) t t1"
      and e: "\<forall>k \<ge> 0. elem t1 k = (if k = i1 then elem t j1 else if k = j1 then elem t i1 else elem t k)"
      using sort_swap_shuffled [of "i + 1" "j - 1" t i1 j1] i1 j1 False less.prems bounds by auto
    have p: "elem t1 p = elem t p" using e i1 j1 False less.prems bounds by auto
    have left': "le (elem t1 k) (elem t p)" if "l \<le> k" "k \<le> i1" for k
      using that e left [of k] stops bounds False by (auto simp: le_def)
    have right': "le (elem t p) (elem t1 k)" if "j1 \<le> k" "k \<le> u" for k
      using that e right [of k] stops bounds less.prems j1 False i1 by (auto simp: le_def)
    have vals: "values_in l u t1"
      using less.prems t1 bounds by (intro values_in_shuffled [OF less.prems(1)] shuffled_mono [OF t1(2)]) auto
    obtain i' t' where r: "partition_loop (compares lt) l u p i1 j1 t1 = Inr (i', t')"
        "shuffled (i1 + 1) (j1 - 1) t1 t'" "i1 < i'" "i' \<le> p"
        "\<forall>k. l \<le> k \<and> k < i' \<longrightarrow> le (elem t' k) (elem t p)" "\<forall>k. i' \<le> k \<and> k \<le> u \<longrightarrow> le (elem t p) (elem t' k)"
      using less.hyps [of j1 i1 t1] vals left' right' less.prems i1 j1 False p by auto
    have "shuffled (i + 1) (j - 1) t t'"
      using i1 j1 less.prems bounds by (intro shuffled_trans [OF t1(2)] shuffled_mono [OF r(2)]) auto
    with i1 j1 t1 r False show ?thesis by (subst partition_loop.simps) auto
  qed
qed

end

context weak_order begin

text \<open>The heap of \<open>cnt\<close> elements from \<open>l\<close> on: a node is not below its children. While a node is
  sifted down from \<open>r0\<close>, every node but the current one keeps this property, and the children of the
  current one are not above its parent.\<close>

definition node :: "int \<Rightarrow> ('v, 'w) sort_state \<Rightarrow> nat \<Rightarrow> 'v" where
  "node l t r = elem t (l + int r)"

definition heap_at :: "int \<Rightarrow> int \<Rightarrow> ('v, 'w) sort_state \<Rightarrow> nat \<Rightarrow> bool" where
  "heap_at l cnt t r \<longleftrightarrow> (\<forall>c. (c = 2 * r + 1 \<or> c = 2 * r + 2) \<and> int c < cnt \<longrightarrow> le (node l t c) (node l t r))"

definition sifting :: "int \<Rightarrow> int \<Rightarrow> nat \<Rightarrow> nat \<Rightarrow> ('v, 'w) sort_state \<Rightarrow> bool" where
  "sifting l cnt r0 root t \<longleftrightarrow> r0 \<le> root \<and> (\<forall>r \<ge> r0. r \<noteq> root \<longrightarrow> heap_at l cnt t r) \<and>
     (\<forall>r \<ge> r0. root = 2 * r + 1 \<or> root = 2 * r + 2 \<longrightarrow>
        (\<forall>c. (c = 2 * root + 1 \<or> c = 2 * root + 2) \<and> int c < cnt \<longrightarrow> le (node l t c) (node l t r)))"

lemma sifting_start: "(\<And>r. r0 < r \<Longrightarrow> heap_at l cnt t r) \<Longrightarrow> sifting l cnt r0 r0 t"
  by (auto simp: sifting_def)

lemma sifting_done: "sifting l cnt r0 root t \<Longrightarrow> heap_at l cnt t root \<Longrightarrow> r0 \<le> r \<Longrightarrow> heap_at l cnt t r"
  by (cases "r = root") (auto simp: sifting_def)

lemma node_in: "values_in l (l + cnt - 1) t \<Longrightarrow> int r < cnt \<Longrightarrow> node l t r \<in> V"
  by (simp add: node_def values_in_def)

text \<open>Exchanging the current node with a child that is above it and not below the other child.\<close>

lemma sifting_swap:
  assumes s: "sifting l cnt r0 root t" and V: "values_in l (l + cnt - 1) t"
    and nx: "nx = 2 * root + 1 \<or> nx = 2 * root + 2" "int nx < cnt"
    and max: "lt (node l t root) (node l t nx)"
      "\<forall>c. (c = 2 * root + 1 \<or> c = 2 * root + 2) \<and> int c < cnt \<longrightarrow> le (node l t c) (node l t nx)"
    and t': "\<forall>r. node l t' r = (if r = root then node l t nx else if r = nx then node l t root else node l t r)"
  shows "sifting l cnt r0 nx t'"
  unfolding sifting_def
proof (intro conjI allI impI)
  show "r0 \<le> nx" using s nx by (auto simp: sifting_def)
next
  fix r assume r: "r0 \<le> r" "r \<noteq> nx"
  show "heap_at l cnt t' r"
  proof (cases "r = root")
    case True
    have "le (node l t root) (node l t nx)" using max nx V by (intro lt_le node_in) auto
    with True max t' nx show ?thesis by (auto simp: heap_at_def)
  next
    case False
    show ?thesis unfolding heap_at_def
    proof (intro allI impI)
      fix c assume c: "(c = 2 * r + 1 \<or> c = 2 * r + 2) \<and> int c < cnt"
      from c nx False have "c \<noteq> nx" by auto
      from s r False c have "le (node l t c) (node l t r)" by (auto simp: sifting_def heap_at_def)
      moreover have "le (node l t nx) (node l t r)" if "c = root"
        using s r c nx that by (auto simp: sifting_def)
      ultimately show "le (node l t' c) (node l t' r)" using t' r False \<open>c \<noteq> nx\<close> by auto
    qed
  qed
next
  fix r c assume r: "r0 \<le> r" "nx = 2 * r + 1 \<or> nx = 2 * r + 2" and c: "(c = 2 * nx + 1 \<or> c = 2 * nx + 2) \<and> int c < cnt"
  from r nx have "r = root" by auto
  have "heap_at l cnt t nx" using s nx by (auto simp: sifting_def)
  with c have "le (node l t c) (node l t nx)" by (auto simp: heap_at_def)
  with t' c nx \<open>r = root\<close> show "le (node l t' c) (node l t' r)" by auto
qed

lemma node_swap:
  assumes "0 \<le> l" "l + cnt - 1 < sizearray t" "int a < cnt" "int b < cnt"
  shows "\<exists>t'. sort_swap (l + int a) (l + int b) t = Inr t' \<and> shuffled l (l + cnt - 1) t t' \<and>
    (\<forall>r. node l t' r = (if r = a then node l t b else if r = b then node l t a else node l t r))"
proof -
  obtain t' where "sort_swap (l + int a) (l + int b) t = Inr t'" "shuffled l (l + cnt - 1) t t'" and
    e: "\<forall>k \<ge> 0. elem t' k = (if k = l + int a then elem t (l + int b) else if k = l + int b then elem t (l + int a) else elem t k)"
    using sort_swap_shuffled [of l "l + cnt - 1" t "l + int a" "l + int b"] assms by auto
  then show ?thesis using assms by (auto simp: node_def)
qed

lemma sift_loop_sifts:
  assumes "sifting l cnt r0 root t" "values_in l (l + cnt - 1) t" "int root < cnt"
  shows "\<exists>root' t'. sift_loop (compares lt) l cnt root t = Inr (root', t') \<and> shuffled l (l + cnt - 1) t t' \<and>
    sifting l cnt r0 root' t' \<and> int root' < cnt \<and> (cnt \<le> int root' * 2 + 2 \<or> heap_at l cnt t' root')"
  using assms
proof (induction "nat (cnt - int root)" arbitrary: root t rule: less_induct)
  case less
  show ?case
  proof (cases "int root * 2 + 2 < cnt")
    case False
    with less.prems show ?thesis by (subst sift_loop.simps) (auto intro!: exI [of _ root] exI [of _ t])
  next
    case True
    let ?left = "2 * root + 1" and ?right = "2 * root + 2"
    define n1 where "n1 = (if lt (node l t root) (node l t ?left) then ?left else root)"
    define nx where "nx = (if lt (node l t n1) (node l t ?right) then ?right else n1)"
    have bounds: "0 \<le> l" "l + cnt - 1 < sizearray t" using less.prems by (auto simp: values_in_def)
    have n1: "int n1 < cnt" "n1 = root \<or> n1 = ?left" using True by (auto simp: n1_def)
    have loop: "sift_loop (compares lt) l cnt root t =
        (if nx = root then Inr (root, t)
         else bindE (sort_swap (l + int root) (l + int nx) t) (sift_loop (compares lt) l cnt nx))"
    proof -
      have "l + (int root * 2 + 1) = l + int ?left" "l + (int root * 2 + 2) = l + int ?right" by simp_all
      then show ?thesis using True bounds n1
        by (subst sift_loop.simps) (simp add: Let_def nx_def n1_def node_def mult.commute)
    qed
    have V: "node l t root \<in> V" "node l t ?left \<in> V" "node l t ?right \<in> V" "node l t n1 \<in> V"
      using less.prems(2) True n1 by (auto intro!: node_in)
    show ?thesis
    proof (cases "nx = root")
      case True
      then have "\<not> lt (node l t root) (node l t ?left)" "\<not> lt (node l t root) (node l t ?right)"
        by (auto simp: nx_def n1_def split: if_splits)
      then have "heap_at l cnt t root" by (auto simp: heap_at_def le_def)
      with loop True less.prems show ?thesis by auto
    next
      case False
      then have nx: "nx = ?left \<or> nx = ?right" "int nx < cnt"
        using True by (auto simp: nx_def n1_def split: if_splits)
      have "lt (node l t root) (node l t nx) \<and> le (node l t ?left) (node l t nx) \<and> le (node l t ?right) (node l t nx)"
      proof (cases "lt (node l t root) (node l t ?left)")
        case one: True
        show ?thesis
        proof (cases "lt (node l t ?left) (node l t ?right)")
          case True
          with one have "nx = ?right" by (simp add: nx_def n1_def)
          with one True V show ?thesis using trans [OF V(1,2,3)] by (simp add: le_refl lt_le)
        next
          case False
          with one have "nx = ?left" by (simp add: nx_def n1_def)
          with one False V show ?thesis by (simp add: le_refl) (simp add: le_def)
        qed
      next
        case two: False
        with False have "nx = ?right" "lt (node l t root) (node l t ?right)"
          by (auto simp: nx_def n1_def split: if_splits)
        moreover have "le (node l t ?left) (node l t root)" using two by (simp add: le_def)
        ultimately show ?thesis using V le_trans [OF _ lt_le] by (simp add: le_refl)
      qed
      then have max: "lt (node l t root) (node l t nx)"
        "\<forall>c. (c = ?left \<or> c = ?right) \<and> int c < cnt \<longrightarrow> le (node l t c) (node l t nx)" by auto
      obtain t1 where t1: "sort_swap (l + int root) (l + int nx) t = Inr t1" "shuffled l (l + cnt - 1) t t1"
        and e: "\<forall>r. node l t1 r = (if r = root then node l t nx else if r = nx then node l t root else node l t r)"
        using node_swap [OF bounds less.prems(3) nx(2)] by auto
      have "sifting l cnt r0 nx t1" by (rule sifting_swap [OF less.prems(1,2) nx max e])
      moreover have "nat (cnt - int nx) < nat (cnt - int root)" using nx less.prems(3) by auto
      ultimately obtain root' t' where
        "sift_loop (compares lt) l cnt nx t1 = Inr (root', t')" "shuffled l (l + cnt - 1) t1 t'"
        "sifting l cnt r0 root' t'" "int root' < cnt" "cnt \<le> int root' * 2 + 2 \<or> heap_at l cnt t' root'"
        using less.hyps [of nx t1] values_in_shuffled [OF less.prems(2) t1(2)] nx by auto
      with loop False t1 show ?thesis by (auto intro: shuffled_trans)
    qed
  qed
qed

lemma siftheap_heap:
  assumes "\<And>r. r0 < r \<Longrightarrow> heap_at l (u - l + 1) t r" "values_in l u t" "int r0 \<le> u - l"
  shows "\<exists>t'. sort_siftheap (compares lt) l u r0 t = Inr t' \<and> shuffled l u t t' \<and>
    (\<forall>r \<ge> r0. heap_at l (u - l + 1) t' r)"
proof -
  let ?cnt = "u - l + 1"
  have "sifting l ?cnt r0 r0 t" by (rule sifting_start) (rule assms(1))
  then obtain root t1 where 1: "sift_loop (compares lt) l ?cnt r0 t = Inr (root, t1)" "shuffled l u t t1"
    "sifting l ?cnt r0 root t1" "int root < ?cnt" "?cnt \<le> int root * 2 + 2 \<or> heap_at l ?cnt t1 root"
    using sift_loop_sifts [of l ?cnt r0 r0 t] assms by auto
  have V: "values_in l u t1" by (rule values_in_shuffled [OF assms(2) 1(2)])
  then have bounds: "0 \<le> l" "u < sizearray t1" by (auto simp: values_in_def)
  let ?last = "2 * root + 1"
  show ?thesis
  proof (cases "int ?last = ?cnt - 1 \<and> lt (node l t1 root) (node l t1 ?last)")
    case True
    obtain t2 where t2: "sort_swap (l + int root) (l + int ?last) t1 = Inr t2" "shuffled l (l + ?cnt - 1) t1 t2"
      and e: "\<forall>r. node l t2 r = (if r = root then node l t1 ?last else if r = ?last then node l t1 root else node l t1 r)"
      using node_swap [of l ?cnt t1 root ?last] bounds 1(4) True by auto
    have "le (node l t1 ?last) (node l t1 ?last)" using V True by (intro le_refl node_in [of l ?cnt]) auto
    then have "sifting l ?cnt r0 ?last t2"
      using V True by (intro sifting_swap [OF 1(3) _ _ _ _ _ e]) auto
    moreover have "heap_at l ?cnt t2 ?last" using True by (auto simp: heap_at_def)
    ultimately have "\<forall>r \<ge> r0. heap_at l ?cnt t2 r" by (auto intro: sifting_done)
    moreover have "sort_siftheap (compares lt) l u r0 t = Inr t2"
    proof -
      have u: "l + int ?last = u" using True by simp
      have "lt (elem t1 (l + int root)) (elem t1 (l + int ?last))" using True unfolding node_def by blast
      then have "lt (elem t1 (l + int root)) (elem t1 u)" unfolding u .
      moreover have m: "l + (int root * 2 + 1) = u" using u by simp
      moreover have "int root * 2 + 1 = u - l" using m by simp
      ultimately show ?thesis using 1(1,4) t2(1) bounds assms(3) unfolding sort_siftheap_def Let_def u
        by (simp add: m)
    qed
    ultimately show ?thesis using 1(2) t2(2) by (auto intro: shuffled_trans)
  next
    case False
    have "heap_at l ?cnt t1 root"
      using 1(4,5) False by (auto simp: heap_at_def le_def)
    then have "\<forall>r \<ge> r0. heap_at l ?cnt t1 r" using 1(3) by (auto intro: sifting_done)
    moreover have "sort_siftheap (compares lt) l u r0 t = Inr t1"
    proof (cases "int root * 2 + 1 = u - l")
      case True
      then have m: "l + (int root * 2 + 1) = u" by simp
      have "l + int (2 * root + 1) = u" using m by simp
      then have "node l t1 (2 * root + 1) = elem t1 u" unfolding node_def by (rule arg_cong)
      with False True have "\<not> lt (elem t1 (l + int root)) (elem t1 u)" by (simp add: node_def mult.commute)
      with 1(1,4) True bounds assms(3) show ?thesis unfolding sort_siftheap_def Let_def by (simp add: m)
    next
      case False
      with 1(1) assms(3) show ?thesis by (simp add: sort_siftheap_def)
    qed
    ultimately show ?thesis using 1(2) by auto
  qed
qed

end

context weak_order begin

lemma heap_max:
  assumes "\<And>r. heap_at l cnt t r" "values_in l (l + cnt - 1) t" "int k < cnt"
  shows "le (node l t k) (node l t 0)"
  using assms(3)
proof (induction k rule: less_induct)
  case (less k)
  show ?case
  proof (cases "k = 0")
    case True
    with less.prems assms(2) show ?thesis by (simp add: le_refl node_in)
  next
    case False
    define r where "r = (k - 1) div 2"
    have k: "k = 2 * r + 1 \<or> k = 2 * r + 2" "r < k" using False by (auto simp: r_def)
    have "le (node l t k) (node l t r)" using assms(1) [of r] k less.prems by (auto simp: heap_at_def)
    moreover have "le (node l t r) (node l t 0)" using less.IH [of r] less.prems k by auto
    ultimately show ?thesis
      by (rule le_trans) (use assms(2) less.prems k in \<open>auto intro!: node_in\<close>)
  qed
qed

lemma build_heap:
  assumes "\<And>r. m \<le> r \<Longrightarrow> heap_at l (u - l + 1) t r" "values_in l u t" "int m \<le> u - l + 1"
  shows "\<exists>t'. foldE (\<lambda>t i. sort_siftheap (compares lt) l u i t) t (rev [0..<m]) = Inr t' \<and> shuffled l u t t' \<and>
    (\<forall>r. heap_at l (u - l + 1) t' r)"
  using assms
proof (induction m arbitrary: t)
  case 0
  then show ?case by auto
next
  case (Suc m)
  obtain t1 where t1: "sort_siftheap (compares lt) l u m t = Inr t1" "shuffled l u t t1"
      "\<forall>r \<ge> m. heap_at l (u - l + 1) t1 r"
    using siftheap_heap [of m l u t] Suc.prems by auto
  with Suc.IH [of t1] Suc.prems(3) values_in_shuffled [OF Suc.prems(2) t1(2)]
  show ?case by (auto intro: shuffled_trans)
qed

text \<open>While maxima are taken out, the first \<open>s\<close> elements are a heap and the others are in place.\<close>

definition taken_out :: "int \<Rightarrow> int \<Rightarrow> nat \<Rightarrow> ('v, 'w) sort_state \<Rightarrow> bool" where
  "taken_out l u s t \<longleftrightarrow> (\<forall>r. heap_at l (int s) t r) \<and>
     (\<forall>a b. a \<le> b \<and> s \<le> b \<and> int b \<le> u - l \<longrightarrow> le (node l t a) (node l t b))"

lemma take_out_max:
  assumes t: "taken_out l u (Suc s) t" "values_in l u t" "1 \<le> s" "int s \<le> u - l"
  shows "\<exists>t'. bindE (sort_swap l (l + int s) t) (\<lambda>t. sort_siftheap (compares lt) l (l + int s - 1) 0 t) = Inr t' \<and>
    shuffled l u t t' \<and> taken_out l u s t'"
proof -
  have bounds: "0 \<le> l" "u < sizearray t" using t(2) by (auto simp: values_in_def)
  have V: "values_in l (l + int (Suc s) - 1) t" using t by (auto intro: values_in_mono)
  obtain t1 where t1: "sort_swap l (l + int s) t = Inr t1" "shuffled l (l + int s) t t1"
    and e: "\<forall>r. node l t1 r = (if r = 0 then node l t s else if r = s then node l t 0 else node l t r)"
    using node_swap [of l "int (Suc s)" t 0 s] bounds t(4) by auto
  have sh1: "shuffled l u t t1" using bounds t(4) by (intro shuffled_mono [OF t1(2)]) auto
  have V1: "values_in l u t1" by (rule values_in_shuffled [OF t(2) sh1])
  have top: "le (node l t1 a) (node l t1 s)" if "a \<le> s" for a
    using e that t heap_max [of l "int (Suc s)" t] V by (auto simp: taken_out_def)
  have tail: "le (node l t1 a) (node l t1 b)" if "a \<le> b" "s < b" "int b \<le> u - l" for a b
    using that t(1,3) e by (auto simp: taken_out_def)
  have "heap_at l (int s) t1 r" if "0 < r" for r
    using t(1) that t(3) e unfolding taken_out_def heap_at_def by auto
  then obtain t2 where t2: "sort_siftheap (compares lt) l (l + int s - 1) 0 t1 = Inr t2"
      "shuffled l (l + int s - 1) t1 t2" "\<forall>r. heap_at l (int s) t2 r"
    using siftheap_heap [of 0 l "l + int s - 1" t1] values_in_mono [OF V1, of l "l + int s - 1"] t(3,4) by auto
  have same: "node l t2 b = node l t1 b" if "s \<le> b" for b
    using that bounds shuffled_elem [OF t2(2), of "l + int b"] by (simp add: node_def)
  have inside: "\<exists>k < s. node l t2 a = node l t1 k" if a: "a < s" for a
  proof -
    obtain k' where "l \<le> k'" "k' \<le> l + int s - 1" "elem t2 (l + int a) = elem t1 k'"
      by (rule shuffled_inside [OF t2(2), of "l + int a"]) (use a in auto)
    then show ?thesis by (intro exI [of _ "nat (k' - l)"]) (auto simp: node_def)
  qed
  have "le (node l t2 a) (node l t2 b)" if "a \<le> b" "s \<le> b" "int b \<le> u - l" for a b
  proof (cases "a < s")
    case True
    with inside obtain k where "k < s" "node l t2 a = node l t1 k" by auto
    with that same top tail show ?thesis by (cases "b = s") auto
  next
    case False
    with that same top tail show ?thesis by (cases "b = s") auto
  qed
  with t2(3) have "taken_out l u s t2" by (simp add: taken_out_def)
  moreover have "shuffled l u t t2"
    using bounds t(4) by (intro shuffled_trans [OF sh1] shuffled_mono [OF t2(2)]) auto
  ultimately show ?thesis using t1(1) t2(1) by auto
qed

lemma take_out_all:
  assumes "1 \<le> s" "taken_out l u s t" "values_in l u t" "int s \<le> u - l + 1"
  shows "\<exists>t'. foldE (\<lambda>t i. bindE (sort_swap l (l + int i) t) (\<lambda>t. sort_siftheap (compares lt) l (l + int i - 1) 0 t))
      t (rev [1..<s]) = Inr t' \<and> shuffled l u t t' \<and> taken_out l u 1 t'"
  using assms
proof (induction s arbitrary: t rule: nat_induct_at_least)
  case base
  then show ?case by auto
next
  case (Suc s)
  obtain t1 where t1: "bindE (sort_swap l (l + int s) t) (\<lambda>t. sort_siftheap (compares lt) l (l + int s - 1) 0 t) = Inr t1"
      "shuffled l u t t1" "taken_out l u s t1"
    using take_out_max [of l u s t] Suc by auto
  with Suc.IH [of t1] Suc.prems(3) values_in_shuffled [OF Suc.prems(2) t1(2)] Suc.hyps
  show ?case by (auto intro: shuffled_trans)
qed

lemma sort_heap_sorts:
  assumes "values_in l u t" "l \<le> u"
  shows "\<exists>t'. sort_heap (compares lt) l u t = Inr t' \<and> shuffled l u t t' \<and> sorted_in l u t'"
proof -
  define N where "N = nat (u - l + 1)"
  have N: "int N = u - l + 1" using assms(2) by (simp add: N_def)
  have half: "int (N div 2) \<le> u - l + 1" using N [symmetric] by simp
  have "heap_at l (u - l + 1) t r" if "N div 2 \<le> r" for r
    using that N by (auto simp: heap_at_def)
  then obtain t1 where t1: "foldE (\<lambda>t i. sort_siftheap (compares lt) l u i t) t (rev [0..<N div 2]) = Inr t1"
      "shuffled l u t t1" "\<forall>r. heap_at l (u - l + 1) t1 r"
    using build_heap [of "N div 2" l u t] assms half by auto
  have V1: "values_in l u t1" by (rule values_in_shuffled [OF assms(1) t1(2)])
  have "taken_out l u N t1" using t1(3) N by (auto simp: taken_out_def)
  then obtain t2 where t2: "foldE (\<lambda>t i. bindE (sort_swap l (l + int i) t) (\<lambda>t. sort_siftheap (compares lt) l (l + int i - 1) 0 t))
      t1 (rev [1..<N]) = Inr t2" "shuffled l u t1 t2" "taken_out l u 1 t2"
    using take_out_all [of N l u t1] V1 N assms(2) by auto
  have V2: "values_in l u t2" by (rule values_in_shuffled [OF V1 t2(2)])
  have "sorted_in l u t2" unfolding sorted_in_def
  proof (intro allI impI)
    fix i j assume ij: "l \<le> i \<and> i \<le> j \<and> j \<le> u"
    show "le (elem t2 i) (elem t2 j)"
    proof (cases "j = l")
      case True
      with ij V2 show ?thesis by (auto intro!: le_refl values_in_elem [of l u])
    next
      case False
      have "nat (i - l) \<le> nat (j - l)" "1 \<le> nat (j - l)" "int (nat (j - l)) \<le> u - l" using ij False by auto
      with t2(3) have "le (node l t2 (nat (i - l))) (node l t2 (nat (j - l)))" unfolding taken_out_def by blast
      with ij show ?thesis by (simp add: node_def)
    qed
  qed
  with t1(1,2) t2(1,2) assms(2) show ?thesis
    by (auto simp: sort_heap_def N_def intro: shuffled_trans)
qed

end

context weak_order begin

lemma order_two:
  assumes "0 \<le> l" "u < sizearray t" "l < u"
  shows "\<exists>t'. (if lt (elem t u) (elem t l) then sort_swap u l t else Inr t) = Inr t' \<and> shuffled l u t t' \<and>
    (values_in l u t \<longrightarrow> le (elem t' l) (elem t' u))"
proof (cases "lt (elem t u) (elem t l)")
  case True
  obtain t' where "sort_swap u l t = Inr t'" "shuffled l u t t'" and
    e: "\<forall>k \<ge> 0. elem t' k = (if k = u then elem t l else if k = l then elem t u else elem t k)"
    using sort_swap_shuffled [of l u t u l] assms by auto
  with True assms show ?thesis by (auto simp: values_in_def intro!: lt_le)
qed (auto simp: le_def)

lemma median:
  assumes "values_in l u t" "l < m" "m < u" "le (elem t l) (elem t u)"
  shows "\<exists>t'. (if lt (elem t m) (elem t l) then sort_swap m l t
      else bindE (sort_less (compares lt) u m t) (\<lambda>(b, t). if b then sort_swap m u t else Inr t)) = Inr t' \<and>
    shuffled l u t t' \<and> le (elem t' l) (elem t' m) \<and> le (elem t' m) (elem t' u)"
proof -
  have b: "0 \<le> l" "u < sizearray t" using assms by (auto simp: values_in_def)
  have V: "elem t l \<in> V" "elem t m \<in> V" "elem t u \<in> V" using assms by (auto simp: values_in_def)
  obtain t1 where t1: "sort_swap m l t = Inr t1" "shuffled l u t t1" and
    e1: "\<forall>k \<ge> 0. elem t1 k = (if k = m then elem t l else if k = l then elem t m else elem t k)"
    using sort_swap_shuffled [of l u t m l] assms b by auto
  obtain t2 where t2: "sort_swap m u t = Inr t2" "shuffled l u t t2" and
    e2: "\<forall>k \<ge> 0. elem t2 k = (if k = m then elem t u else if k = u then elem t m else elem t k)"
    using sort_swap_shuffled [of l u t m u] assms b by auto
  consider "lt (elem t m) (elem t l)" | "\<not> lt (elem t m) (elem t l)" "lt (elem t u) (elem t m)"
    | "\<not> lt (elem t m) (elem t l)" "\<not> lt (elem t u) (elem t m)" by blast
  then show ?thesis
  proof cases
    case 1
    with t1 e1 b assms V show ?thesis by (auto intro!: lt_le)
  next
    case 2
    with t2 e2 b assms V show ?thesis by (auto intro!: lt_le)
  next
    case 3
    with b assms show ?thesis by (auto simp: le_def)
  qed
qed

text \<open>The pivot's turn: everything left of the returned position is not above it, the rest not below.\<close>

lemma pivot_placed:
  assumes "values_in l u t" "u - l > 2" "l < m" "m < u" "le (elem t l) (elem t m)" "le (elem t m) (elem t u)"
  shows "\<exists>t1 i t2 t3. sort_swap m (u - 1) t = Inr t1 \<and>
    partition_loop (compares lt) l u (u - 1) l (u - 1) t1 = Inr (i, t2) \<and> sort_swap (u - 1) i t2 = Inr t3 \<and>
    shuffled l u t t3 \<and> l < i \<and> i \<le> u - 1 \<and>
    (\<forall>k. l \<le> k \<and> k < i \<longrightarrow> le (elem t3 k) (elem t3 i)) \<and> (\<forall>k. i < k \<and> k \<le> u \<longrightarrow> le (elem t3 i) (elem t3 k))"
proof -
  have b: "0 \<le> l" "u < sizearray t" using assms by (auto simp: values_in_def)
  obtain t1 where t1: "sort_swap m (u - 1) t = Inr t1" "shuffled l u t t1" and
    e1: "\<forall>k \<ge> 0. elem t1 k = (if k = m then elem t (u - 1) else if k = u - 1 then elem t m else elem t k)"
    using sort_swap_shuffled [of l u t m "u - 1"] assms b by auto
  have V1: "values_in l u t1" by (rule values_in_shuffled [OF assms(1) t1(2)])
  let ?P = "elem t1 (u - 1)"
  have P: "?P = elem t m" "?P \<in> V" using e1 b assms V1 by (auto simp: values_in_def)
  have "\<forall>k. l \<le> k \<and> k \<le> l \<longrightarrow> le (elem t1 k) ?P"
    using e1 b assms by auto
  moreover have "le ?P (elem t1 k)" if "u - 1 \<le> k \<and> k \<le> u" for k
    using e1 b assms P that le_refl [OF P(2)] by (cases "k = u") auto
  ultimately obtain i t2 where p: "partition_loop (compares lt) l u (u - 1) l (u - 1) t1 = Inr (i, t2)"
      "shuffled (l + 1) (u - 2) t1 t2" "l < i" "i \<le> u - 1"
      and left: "\<forall>k. l \<le> k \<and> k < i \<longrightarrow> le (elem t2 k) ?P" and right: "\<forall>k. i \<le> k \<and> k \<le> u \<longrightarrow> le ?P (elem t2 k)"
    using partition_partitions [of l u t1 l "u - 1" "u - 1"] V1 assms by auto
  have P2: "elem t2 (u - 1) = ?P" using shuffled_elem [OF p(2), of "u - 1"] b assms by auto
  have sh2: "shuffled l u t1 t2" using b by (intro shuffled_mono [OF p(2)]) auto
  have size2: "sizearray t2 = sizearray t" using shuffled_size [OF t1(2)] shuffled_size [OF sh2] by simp
  obtain t3 where t3: "sort_swap (u - 1) i t2 = Inr t3" "shuffled l u t2 t3" and
    e3: "\<forall>k \<ge> 0. elem t3 k = (if k = u - 1 then elem t2 i else if k = i then elem t2 (u - 1) else elem t2 k)"
    using sort_swap_shuffled [of l u t2 "u - 1" i] p b size2 assms by auto
  have "elem t3 i = ?P" using e3 P2 p b by auto
  moreover have "le (elem t3 k) ?P" if "l \<le> k \<and> k < i" for k using e3 left that p b by auto
  moreover have "le ?P (elem t3 k)" if "i < k \<and> k \<le> u" for k using e3 right that p b P2 by auto
  ultimately show ?thesis using t1 p t3 sh2 by (auto intro: shuffled_trans)
qed

text \<open>Sorting two disjoint ranges one after the other.\<close>

lemma disjoint_shuffles:
  assumes s1: "shuffled x y t t1" and s2: "shuffled x' y' t1 t2" and d: "0 \<le> x" "0 \<le> x'" "y < x' \<or> y' < x"
  shows "x \<le> k \<Longrightarrow> k \<le> y \<Longrightarrow> elem t2 k = elem t1 k"
    and "x \<le> k \<Longrightarrow> k \<le> y \<Longrightarrow> \<exists>k'. x \<le> k' \<and> k' \<le> y \<and> elem t2 k = elem t k'"
    and "x' \<le> k \<Longrightarrow> k \<le> y' \<Longrightarrow> \<exists>k'. x' \<le> k' \<and> k' \<le> y' \<and> elem t2 k = elem t k'"
    and "0 \<le> k \<Longrightarrow> k < x \<or> y < k \<Longrightarrow> k < x' \<or> y' < k \<Longrightarrow> elem t2 k = elem t k"
proof -
  show same: "elem t2 k = elem t1 k" if "x \<le> k" "k \<le> y" for k
    using shuffled_elem [OF s2, of k] that d by auto
  show "x \<le> k \<Longrightarrow> k \<le> y \<Longrightarrow> \<exists>k'. x \<le> k' \<and> k' \<le> y \<and> elem t2 k = elem t k'"
    using s1 same [of k] by (auto simp: shuffled_def)
  show "0 \<le> k \<Longrightarrow> k < x \<or> y < k \<Longrightarrow> k < x' \<or> y' < k \<Longrightarrow> elem t2 k = elem t k"
    using shuffled_elem [OF s1, of k] shuffled_elem [OF s2, of k] by auto
  assume k: "x' \<le> k" "k \<le> y'"
  obtain k' where k': "x' \<le> k'" "k' \<le> y'" "elem t2 k = elem t1 k'"
    by (rule shuffled_inside [OF s2, of k]) (use k in auto)
  moreover have "elem t1 k' = elem t k'" using shuffled_elem [OF s1, of k'] k' d by auto
  ultimately show "\<exists>k'. x' \<le> k' \<and> k' \<le> y' \<and> elem t2 k = elem t k'" by auto
qed

lemma sorted_in_join:
  assumes V: "values_in l u t2" and i: "l < i" "i < u" "elem t2 i = elem t i"
    and left: "\<forall>k. l \<le> k \<and> k < i \<longrightarrow> le (elem t k) (elem t i)"
      "\<And>k. l \<le> k \<Longrightarrow> k \<le> i - 1 \<Longrightarrow> \<exists>k'. l \<le> k' \<and> k' \<le> i - 1 \<and> elem t2 k = elem t k'"
    and right: "\<forall>k. i < k \<and> k \<le> u \<longrightarrow> le (elem t i) (elem t k)"
      "\<And>k. i + 1 \<le> k \<Longrightarrow> k \<le> u \<Longrightarrow> \<exists>k'. i + 1 \<le> k' \<and> k' \<le> u \<and> elem t2 k = elem t k'"
    and sorted: "sorted_in l (i - 1) t2" "sorted_in (i + 1) u t2"
  shows "sorted_in l u t2"
  unfolding sorted_in_def
proof (intro allI impI)
  have l2: "le (elem t2 k) (elem t2 i)" if "l \<le> k" "k < i" for k
    using left(1) left(2) [of k] that i by auto
  have r2: "le (elem t2 i) (elem t2 k)" if "i < k" "k \<le> u" for k
    using right(1) right(2) [of k] that i by auto
  fix x y assume xy: "l \<le> x \<and> x \<le> y \<and> y \<le> u"
  then have v: "elem t2 x \<in> V" "elem t2 i \<in> V" "elem t2 y \<in> V" using values_in_elem [OF V, of x] values_in_elem [OF V, of i] values_in_elem [OF V, of y] i(1,2) by auto
  consider "y < i" | "x < i" "i \<le> y" | "x = i" | "i < x" using xy by linarith
  then show "le (elem t2 x) (elem t2 y)"
  proof cases
    case 1
    with xy sorted(1) show ?thesis by (auto simp: sorted_in_def)
  next
    case 2
    with l2 [of x] r2 [of y] xy v show ?thesis by (cases "y = i") (auto intro: le_trans)
  next
    case 3
    with r2 [of y] xy v le_refl show ?thesis by (cases "y = i") auto
  next
    case 4
    with sorted(2) xy show ?thesis by (auto simp: sorted_in_def)
  qed
qed

lemma sorted_in_halves:
  assumes V: "values_in l u t" and i: "l < i" "i < u"
    and left: "\<forall>k. l \<le> k \<and> k < i \<longrightarrow> le (elem t k) (elem t i)"
    and right: "\<forall>k. i < k \<and> k \<le> u \<longrightarrow> le (elem t i) (elem t k)"
    and s1: "shuffled x y t t1" "sorted_in x y t1" and s2: "shuffled x' y' t1 t2" "sorted_in x' y' t2"
    and parts: "x = l \<and> y = i - 1 \<and> x' = i + 1 \<and> y' = u \<or> x = i + 1 \<and> y = u \<and> x' = l \<and> y' = i - 1"
  shows "shuffled l u t t2 \<and> sorted_in l u t2"
proof -
  have b: "0 \<le> l" using V by (simp add: values_in_def)
  have d: "0 \<le> x" "0 \<le> x'" "y < x' \<or> y' < x" using parts b i by auto
  note halves = disjoint_shuffles [OF s1(1) s2(1) d]
  have sh: "shuffled l u t t2"
    using parts b i by (intro shuffled_trans [OF shuffled_mono [OF s1(1)] shuffled_mono [OF s2(1)]]) auto
  have "sorted_in x y t2" using s1(2) halves(1) by (auto simp: sorted_in_def)
  with s2(2) parts have so: "sorted_in l (i - 1) t2" "sorted_in (i + 1) u t2" by auto
  have L: "\<exists>k'. l \<le> k' \<and> k' \<le> i - 1 \<and> elem t2 k = elem t k'" if "l \<le> k" "k \<le> i - 1" for k
    using parts halves(2,3) [of k] that by auto
  have R: "\<exists>k'. i + 1 \<le> k' \<and> k' \<le> u \<and> elem t2 k = elem t k'" if "i + 1 \<le> k" "k \<le> u" for k
    using parts halves(2,3) [of k] that by auto
  have mid: "elem t2 i = elem t i" using parts halves(4) [of i] b i by auto
  have "sorted_in l u t2"
    by (rule sorted_in_join [OF values_in_shuffled [OF V sh] i mid left L right R so])
  with sh show ?thesis by simp
qed

lemma sorted_in_small: "values_in l u t \<Longrightarrow> u \<le> l \<Longrightarrow> sorted_in l u t"
  unfolding sorted_in_def
proof (intro allI impI)
  fix i j assume "values_in l u t" "u \<le> l" "l \<le> i \<and> i \<le> j \<and> j \<le> u"
  moreover from this have "j = i" by linarith
  ultimately show "le (elem t i) (elem t j)" by (auto simp: values_in_def intro!: le_refl)
qed

lemma sorted_in_two: "values_in l u t \<Longrightarrow> u - l = 1 \<Longrightarrow> le (elem t l) (elem t u) \<Longrightarrow> sorted_in l u t"
proof -
  assume a: "values_in l u t" "u - l = 1" "le (elem t l) (elem t u)"
  have "x = l \<or> x = u" if "l \<le> x" "x \<le> u" for x using that a by linarith
  with a show ?thesis unfolding sorted_in_def values_in_def by (metis le_refl order.trans order_antisym_conv)
qed

lemma sorted_in_three:
  assumes "values_in l u t" "u - l = 2" "le (elem t l) (elem t (l + 1))" "le (elem t (l + 1)) (elem t u)"
  shows "sorted_in l u t"
proof (rule sorted_in_join [where t = t and i = "l + 1"])
  have one: "k = l" if "l \<le> k" "k \<le> l + 1 - 1" for k using that by linarith
  have two: "k = u" if "l + 1 < k" "k \<le> u" for k using that assms(2) by linarith
  show "\<forall>k. l \<le> k \<and> k < l + 1 \<longrightarrow> le (elem t k) (elem t (l + 1))" using one assms(3) by auto
  show "\<forall>k. l + 1 < k \<and> k \<le> u \<longrightarrow> le (elem t (l + 1)) (elem t k)" using two assms(4) by auto
qed (use assms in \<open>auto intro!: sorted_in_small intro: values_in_mono\<close>)

text \<open>With an order that is a strict weak one on the values of the range, the sort ends without an error and
  leaves the range sorted.\<close>

lemma sort_rec_sorts:
  "values_in l u t \<Longrightarrow> \<exists>t'. sort_rec (compares lt) l u limit t = Inr t' \<and> shuffled l u t t' \<and> sorted_in l u t'"
proof (induction "nat (u - l + 1)" arbitrary: l u limit t rule: less_induct)
  case less
  note V = less.prems
  show ?case
  proof (cases "l < u \<and> limit \<noteq> 0")
    case False
    then show ?thesis using V sort_heap_sorts [of l u t] sorted_in_small [of l u t]
      by (subst sort_rec.simps) auto
  next
    case True
    have b: "0 \<le> l" "u < sizearray t" "l < u" using V True by (auto simp: values_in_def)
    obtain t1 where t1: "(if lt (elem t u) (elem t l) then sort_swap u l t else Inr t) = Inr t1" "shuffled l u t t1"
        "le (elem t1 l) (elem t1 u)"
      using order_two [OF b] V by auto
    have V1: "values_in l u t1" by (rule values_in_shuffled [OF V t1(2)])
    have b1: "u < sizearray t1" using V1 by (simp add: values_in_def)
    let ?m = "l + (u - l) div 2"
    show ?thesis
    proof (cases "u - l = 1")
      case True
      with t1 b \<open>l < u \<and> limit \<noteq> 0\<close> V1 show ?thesis
        by (subst sort_rec.simps) (auto intro!: sorted_in_two)
    next
      case not2: False
      with b have m: "l < ?m" "?m < u" by auto
      obtain t2 where t2: "(if lt (elem t1 ?m) (elem t1 l) then sort_swap ?m l t1
          else bindE (sort_less (compares lt) u ?m t1) (\<lambda>(b, t). if b then sort_swap ?m u t else Inr t)) = Inr t2"
          "shuffled l u t1 t2" "le (elem t2 l) (elem t2 ?m)" "le (elem t2 ?m) (elem t2 u)"
        using median [OF V1 m t1(3)] by auto
      have V2: "values_in l u t2" by (rule values_in_shuffled [OF V1 t2(2)])
      have start: "sort_rec (compares lt) l u limit t =
          (if u - l = 2 then Inr t2
           else bindE (sort_swap ?m (u - 1) t2) (\<lambda>t. bindE (partition_loop (compares lt) l u (u - 1) l (u - 1) t) (\<lambda>(i, t).
             bindE (sort_swap (u - 1) i t) (\<lambda>t. let limit = limit div 2 + limit div 4 in
               if i - l < u - i
               then bindE (sort_rec (compares lt) l (i - 1) limit t) (\<lambda>t. sort_rec (compares lt) (i + 1) u limit t)
               else bindE (sort_rec (compares lt) (i + 1) u limit t) (\<lambda>t. sort_rec (compares lt) l (i - 1) limit t)))))"
        using True not2 b b1 m t1(1) t2(1) by (subst sort_rec.simps) (simp add: Let_def)
      show ?thesis
      proof (cases "u - l = 2")
        case True
        then have "?m = l + 1" by simp
        with True start t1(2) t2 V2 show ?thesis by (auto intro: shuffled_trans sorted_in_three)
      next
        case not3: False
        with not2 b have "u - l > 2" by linarith
        from pivot_placed [OF V2 this m t2(3,4)] obtain t3 i t4 t5 where
          p: "sort_swap ?m (u - 1) t2 = Inr t3" "partition_loop (compares lt) l u (u - 1) l (u - 1) t3 = Inr (i, t4)"
            "sort_swap (u - 1) i t4 = Inr t5" "shuffled l u t2 t5" and i: "l < i" "i \<le> u - 1" and
          left: "\<forall>k. l \<le> k \<and> k < i \<longrightarrow> le (elem t5 k) (elem t5 i)" and
          right: "\<forall>k. i < k \<and> k \<le> u \<longrightarrow> le (elem t5 i) (elem t5 k)" by blast
        have V5: "values_in l u t5" by (rule values_in_shuffled [OF V2 p(4)])
        have sh5: "shuffled l u t t5" by (intro shuffled_trans [OF t1(2)] shuffled_trans [OF t2(2)] p(4))
        define limit' where "limit' = limit div 2 + limit div 4"
        have rec: "\<exists>t7. bindE (sort_rec (compares lt) x y limit' t5) (\<lambda>t. sort_rec (compares lt) x' y' limit' t) = Inr t7 \<and>
            shuffled l u t t7 \<and> sorted_in l u t7"
          if parts: "x = l \<and> y = i - 1 \<and> x' = i + 1 \<and> y' = u \<or> x = i + 1 \<and> y = u \<and> x' = l \<and> y' = i - 1" for x y x' y'
        proof -
          have sizes: "nat (y - x + 1) < nat (u - l + 1)" "nat (y' - x' + 1) < nat (u - l + 1)" "l \<le> x" "y \<le> u" "l \<le> x'" "y' \<le> u"
            using parts i by auto
          obtain t6 where t6: "sort_rec (compares lt) x y limit' t5 = Inr t6" "shuffled x y t5 t6" "sorted_in x y t6"
            using less.hyps [OF sizes(1) values_in_mono [OF V5 sizes(3,4)]] by blast
          have "shuffled l u t5 t6" using b sizes by (intro shuffled_mono [OF t6(2)]) auto
          then have V6: "values_in l u t6" by (rule values_in_shuffled [OF V5])
          obtain t7 where t7: "sort_rec (compares lt) x' y' limit' t6 = Inr t7" "shuffled x' y' t6 t7" "sorted_in x' y' t7"
            using less.hyps [OF sizes(2) values_in_mono [OF V6 sizes(5,6)]] by blast
          have "shuffled l u t5 t7 \<and> sorted_in l u t7"
            by (rule sorted_in_halves [OF V5 i(1) _ left right t6(2,3) t7(2,3) parts]) (use i in simp)
          with t6(1) t7(1) show ?thesis by (auto intro: shuffled_trans [OF sh5])
        qed
        show ?thesis using start not3 p rec [of l "i - 1" "i + 1" u] rec [of "i + 1" u l "i - 1"]
          by (simp add: Let_def limit'_def)
      qed
    qed
  qed
qed

end

section \<open>The orders of the language\<close>

text \<open>\<^verbatim>\<open>luaV_strcmp\<close> over byte strings; interned strings are equal when they are the same object.
  Reading the first character of an empty string finds the terminating zero. Of \<^verbatim>\<open>memcmp\<close> only the
  sign is specified, which is all the code looks at.\<close>

fun memcmp :: "bytes \<Rightarrow> bytes \<Rightarrow> int" where
  "memcmp (a # as) (b # bs) = (if a = b then memcmp as bs else if a < b then - 1 else 1)"
| "memcmp _ _ = 0"

definition first_char :: "bytes \<Rightarrow> byte" where
  "first_char s = (case s of [] \<Rightarrow> 0 | c # _ \<Rightarrow> c)"

definition luaV_strcmp :: "bytes \<Rightarrow> bytes \<Rightarrow> int" where
  "luaV_strcmp ls rs =
     (if ls = rs then 0
      else if first_char ls \<noteq> first_char rs then int (unat (first_char ls)) - int (unat (first_char rs))
      else
        let ll = length ls; lr = length rs;
            lmin = (if ll < lr then ll else lr);
            res = memcmp (take lmin ls) (take lmin rs) in
        if res \<noteq> 0 then res
        else if ll = lr then 0 else if ll < lr then - 1 else 1)"

text \<open>\<^verbatim>\<open>luaV_lessthan\<close> as a predicate; the metamethods it calls on other values are a parameter.\<close>

definition luaV_lessthan :: "(TValue, 'w) SortPredicate \<Rightarrow> (TValue, 'w) SortPredicate" where
  "luaV_lessthan call_orderTM l r t =
     (if ttype l \<noteq> ttype r then Inl (RuntimeError ''attempt to compare'', t)
      else case l of
        TvNumber a \<Rightarrow> Inr (dbl_lt a (nvalue r), t)
      | TvString a \<Rightarrow> Inr (case r of TvString b \<Rightarrow> luaV_strcmp a b < 0 | _ \<Rightarrow> False, t)
      | _ \<Rightarrow> call_orderTM l r t)"

lemma memcmp_lexordp:
  "length as = length bs \<Longrightarrow> memcmp as bs < 0 \<longleftrightarrow> ord_class.lexordp as bs"
  "length as = length bs \<Longrightarrow> memcmp as bs = 0 \<longleftrightarrow> as = bs"
  by (induction as bs rule: memcmp.induct) auto

lemma lexordp_prefixes:
  assumes "take n xs \<noteq> take n ys" "n \<le> length xs" "n \<le> length ys"
  shows "ord_class.lexordp (take n xs) (take n ys) \<longleftrightarrow> ord_class.lexordp xs (ys :: byte list)"
  using assms
proof (induction n arbitrary: xs ys)
  case (Suc n)
  then obtain x xs' y ys' where "xs = x # xs'" "ys = y # ys'" by (metis Suc_le_length_iff)
  with Suc show ?case by auto
qed simp

lemma lexordp_equal_prefix:
  assumes "take n xs = take n ys" "n = min (length xs) (length ys)" "xs \<noteq> ys"
  shows "ord_class.lexordp xs (ys :: byte list) \<longleftrightarrow> length xs < length ys"
  using assms
proof (induction n arbitrary: xs ys)
  case 0
  then have "xs = [] \<or> ys = []" by (auto simp: min_def split: if_splits)
  with 0 show ?case by auto
next
  case (Suc n)
  then obtain x xs' y ys' where "xs = x # xs'" "ys = y # ys'" by (cases xs; cases ys) auto
  with Suc show ?case by auto
qed

lemma less_byte: "uint a < uint b \<longleftrightarrow> a < (b :: byte)" "0 < uint (b :: byte) \<longleftrightarrow> b \<noteq> 0"
  using word_less_def [of 0 b] by (simp_all add: word_less_def word_neq_0_conv)

lemma luaV_strcmp_lexordp: "luaV_strcmp ls rs < 0 \<longleftrightarrow> ord_class.lexordp ls rs"
proof (cases "ls = rs")
  case True
  then show ?thesis by (simp add: luaV_strcmp_def lexordp_irreflexive')
next
  case neq: False
  show ?thesis
  proof (cases "first_char ls = first_char rs")
    case False
    then show ?thesis using neq
      by (cases ls; cases rs) (auto simp: luaV_strcmp_def first_char_def less_byte)
  next
    case True
    define n where "n = min (length ls) (length rs)"
    have cmp: "luaV_strcmp ls rs = (let res = memcmp (take n ls) (take n rs) in
        if res \<noteq> 0 then res else if length ls = length rs then 0 else if length ls < length rs then - 1 else 1)"
      using neq True by (auto simp: luaV_strcmp_def n_def min_def Let_def)
    show ?thesis
    proof (cases "take n ls = take n rs")
      case True
      then have "memcmp (take n ls) (take n rs) = 0" by (simp add: memcmp_lexordp n_def)
      with True neq cmp lexordp_equal_prefix [of n ls rs] show ?thesis by (simp add: n_def)
    next
      case False
      then have "memcmp (take n ls) (take n rs) \<noteq> 0" by (simp add: memcmp_lexordp n_def)
      with False cmp show ?thesis using lexordp_prefixes [of n ls rs] memcmp_lexordp(1) [of "take n ls" "take n rs"]
        by (simp add: n_def)
    qed
  qed
qed

text \<open>The order on values that are all numbers other than NaN, or all strings.\<close>

definition value_lt :: "TValue \<Rightarrow> TValue \<Rightarrow> bool" where
  "value_lt l r = (case (l, r) of (TvNumber a, TvNumber b) \<Rightarrow> dbl_lt a b
     | (TvString a, TvString b) \<Rightarrow> luaV_strcmp a b < 0 | _ \<Rightarrow> False)"

definition ordered_numbers :: "TValue set" where
  "ordered_numbers = {v. \<exists>d. v = TvNumber d \<and> \<not> dbl_isnan d}"

definition strings :: "TValue set" where
  "strings = range TvString"

interpretation numbers: weak_order value_lt ordered_numbers
  by unfold_locales (auto simp: value_lt_def ordered_numbers_def dbl_lt_def)

interpretation strings: weak_order value_lt strings
proof unfold_locales
  fix x y z assume "x \<in> strings" "y \<in> strings" "z \<in> strings"
  then obtain a b c where [simp]: "x = TvString a" "y = TvString b" "z = TvString c" by (auto simp: strings_def)
  show "value_lt x y \<Longrightarrow> value_lt y z \<Longrightarrow> value_lt x z"
    by (auto simp: value_lt_def luaV_strcmp_lexordp intro: lexordp_trans)
  show "\<not> value_lt x y \<Longrightarrow> \<not> value_lt y z \<Longrightarrow> \<not> value_lt x z"
    by (auto simp: value_lt_def luaV_strcmp_lexordp) (metis lexordp_linear lexordp_trans)
qed (auto simp: strings_def value_lt_def luaV_strcmp_lexordp lexordp_irreflexive')

section \<open>The sort of a table\<close>

text \<open>The last statement of \<^verbatim>\<open>tsort\<close>; \<open>n\<close> is the length of the table.\<close>

definition table_sort :: "('v, 'w) SortPredicate \<Rightarrow> int \<Rightarrow> ('v, 'w) sort_state \<Rightarrow> ('v, 'w) sort_step" where
  "table_sort pred n t = (if n > 0 then sort_rec pred 0 (n - 1) (nat n) t else Inr t)"

definition sort_error :: "('v, 'w) SortPredicate \<Rightarrow> lua_error \<Rightarrow> bool" where
  "sort_error pred e \<longleftrightarrow> e = RuntimeError ''table modified during sorting'' \<or>
     e = RuntimeError ''invalid order function for sorting'' \<or> (\<exists>a b t t'. pred a b t = Inl (e, t'))"

interpretation bounds: sort_invariant pred "\<lambda>t. 0 \<le> lo \<and> hi < n \<and> sizearray t = n" "\<lambda>(e, t). sort_error pred e" n lo hi
  for pred lo hi n
proof (unfold_locales, goal_cases)
  case (2 t i j t')
  then show ?case using sort_swap_Inr [of i t j] by auto
next
  case (3 t a b)
  then show ?case by (cases "pred a b t") (auto simp: sort_error_def)
qed (auto simp: sort_error_def)

text \<open>Predicates that leave the array alone: the sort only permutes its first \<open>n\<close> elements.\<close>

definition keeps_array :: "('v, 'w) SortPredicate \<Rightarrow> bool" where
  "keeps_array pred \<longleftrightarrow> (\<forall>a b t. case pred a b t of Inl (e, t') \<Rightarrow> arr t' = arr t | Inr (r, t') \<Rightarrow> arr t' = arr t)"

definition permuted :: "nat \<Rightarrow> 'v list \<Rightarrow> 'v list \<Rightarrow> bool" where
  "permuted n xs ys \<longleftrightarrow> mset ys = mset xs \<and> drop n ys = drop n xs"

lemma permuted_length: "permuted n xs ys \<Longrightarrow> length ys = length xs"
  unfolding permuted_def by (auto dest: mset_eq_length)

lemma permuted_take: "permuted n xs ys \<Longrightarrow> mset (take n ys) = mset (take n xs)"
  unfolding permuted_def by (metis append_take_drop_id mset_append add_right_cancel)

interpretation permuting: sort_invariant pred
    "\<lambda>t. keeps_array pred \<and> 0 \<le> lo \<and> hi < int n \<and> int n \<le> int (length xs) \<and> permuted n xs (arr t)"
    "\<lambda>(e, t). permuted n xs (arr t)" "int (length xs)" lo hi
  for pred lo hi n xs
proof (unfold_locales, goal_cases)
  case (2 t i j t')
  then have "nat i < length (arr t)" "nat j < length (arr t)" "nat i < n" "nat j < n"
    by (auto simp: permuted_length)
  moreover from this 2(6) have "arr t' = (arr t)[nat i := arr t ! nat j, nat j := arr t ! nat i]"
    by (auto simp: sort_swap_def Let_def split: if_splits)
  ultimately have "permuted n xs (arr t')" using 2(1) by (auto simp: permuted_def mset_swap)
  with 2 show ?case by simp
next
  case (3 t a b)
  then have "case pred a b t of Inl (e, t') \<Rightarrow> arr t' = arr t | Inr (r, t') \<Rightarrow> arr t' = arr t"
    by (auto simp: keeps_array_def)
  with 3 show ?case by (cases "pred a b t") (auto split: prod.splits)
qed (auto simp: sizearray_def permuted_length)

text \<open>
  C10: Sorting never reads or writes outside the array, whatever the predicate answers and whatever it does to
  the table: an inconsistent order, one that changes the elements, one that resizes the array. The sort always
  ends (the definitions are total), and when it fails the error is the predicate's own, or one of the
  two that the sort raises for resized tables and for inconsistent orders.
\<close>

theorem table_sort_memory_safe:
  assumes "n \<le> sizearray t"
  shows "case table_sort pred n t of
      Inl (e, t') \<Rightarrow> sort_error pred e
    | Inr t' \<Rightarrow> sizearray t' = sizearray t"
  using bounds.rec_post [of 0 "n - 1" "sizearray t" t 0 "n - 1" pred "nat n"] assms
  by (auto simp: table_sort_def post_def split: sum.splits)

text \<open>
  C36: With a predicate that does not assign to the table, the table is a permutation of what it was before the
  call, also when the predicate or the sort raised an error half way; elements beyond the length of
  the table are not moved.
\<close>

theorem table_sort_permutes:
  assumes "keeps_array pred" "n \<le> sizearray t"
  shows "case table_sort pred n t of
      Inl (e, t') \<Rightarrow> permuted (nat n) (arr t) (arr t')
    | Inr t' \<Rightarrow> permuted (nat n) (arr t) (arr t')"
  using permuting.rec_post [of pred 0 "n - 1" "nat n" "arr t" t 0 "n - 1" "nat n"] assms
  by (auto simp: table_sort_def post_def sizearray_def permuted_def split: sum.splits)

lemma table_sort_order:
  assumes order: "weak_order lt (set (take (nat n) (arr t)))" and n: "n \<le> sizearray t"
  shows "\<exists>t'. table_sort (compares lt) n t = Inr t' \<and> world t' = world t \<and> permuted (nat n) (arr t) (arr t') \<and>
    sorted_wrt (\<lambda>x y. \<not> lt y x) (take (nat n) (arr t'))"
proof (cases "n > 0")
  case False
  then show ?thesis by (simp add: table_sort_def permuted_def)
next
  case True
  let ?V = "set (take (nat n) (arr t))"
  have "elem t k \<in> ?V" if "0 \<le> k" "k \<le> n - 1" for k
    using that n by (auto simp: elem_def sizearray_def in_set_conv_nth intro!: exI [of _ "nat k"])
  then have "weak_order.values_in ?V 0 (n - 1) t"
    using n by (simp add: weak_order.values_in_def [OF order])
  from weak_order.sort_rec_sorts [OF order this, of "nat n"] obtain t' where
    t': "sort_rec (compares lt) 0 (n - 1) (nat n) t = Inr t'" "shuffled 0 (n - 1) t t'"
      "weak_order.sorted_in lt 0 (n - 1) t'" by blast
  have "keeps_array (compares lt)" by (simp add: keeps_array_def compares_def)
  then have "permuted (nat n) (arr t) (arr t')"
    using permuting.rec_post [of "compares lt" 0 "n - 1" "nat n" "arr t" t 0 "n - 1" "nat n"] t'(1) n True
    by (auto simp: sizearray_def permuted_def)
  moreover have "sorted_wrt (\<lambda>x y. \<not> lt y x) (take (nat n) (arr t'))"
    unfolding sorted_wrt_iff_nth_less
  proof (intro allI impI)
    fix i j assume "i < j" "j < length (take (nat n) (arr t'))"
    then show "\<not> lt (take (nat n) (arr t') ! j) (take (nat n) (arr t') ! i)"
      using t'(3) [unfolded weak_order.sorted_in_def [OF order] weak_order.le_def [OF order], rule_format, of "int i" "int j"]
      by (auto simp: elem_def zless_nat_eq_int_zless)
  qed
  ultimately show ?thesis using t' True by (auto simp: table_sort_def shuffled_def)
qed

text \<open>
  C5: With a comparison that is a strict weak order on the elements and has no other effect, \<^verbatim>\<open>table.sort\<close>
  succeeds, and the first \<open>n\<close> elements are then sorted: no element is above one that follows it. So the
  introspective sort computes what every sorting algorithm computes, and its error for invalid order
  functions is raised for nothing but invalid order functions.
\<close>

theorem table_sort_sorts:
  assumes "weak_order lt (set (take (nat n) (arr t)))" "n \<le> sizearray t"
  shows "\<exists>t'. table_sort (compares lt) n t = Inr t' \<and>
    mset (take (nat n) (arr t')) = mset (take (nat n) (arr t)) \<and> drop (nat n) (arr t') = drop (nat n) (arr t) \<and>
    sorted_wrt (\<lambda>x y. \<not> lt y x) (take (nat n) (arr t'))"
  using table_sort_order [OF assms] by (auto simp: permuted_take) (auto simp: permuted_def)

text \<open>The default order of the language, on values it can compare without metamethods.\<close>

definition comparable :: "TValue list \<Rightarrow> bool" where
  "comparable vs \<longleftrightarrow> set vs \<subseteq> ordered_numbers \<or> set vs \<subseteq> strings"

lemma agree_on_comparable:
  "l \<in> ordered_numbers \<and> r \<in> ordered_numbers \<or> l \<in> strings \<and> r \<in> strings \<Longrightarrow>
   luaV_lessthan call_orderTM l r t = compares value_lt l r t"
  by (auto simp: ordered_numbers_def strings_def luaV_lessthan_def compares_def value_lt_def)

lemma weak_order_subset: "weak_order lt V \<Longrightarrow> W \<subseteq> V \<Longrightarrow> weak_order lt W"
  unfolding weak_order_def by (meson subsetD)

lemma weak_order_comparable: "comparable vs \<Longrightarrow> weak_order value_lt (set vs)"
  unfolding comparable_def
  using weak_order_subset [OF numbers.weak_order_axioms] weak_order_subset [OF strings.weak_order_axioms] by blast

text \<open>What the default order calls sorted.\<close>

definition value_le :: "TValue \<Rightarrow> TValue \<Rightarrow> bool" where
  "value_le x y = (case (x, y) of (TvNumber a, TvNumber b) \<Rightarrow> dbl_le a b
     | (TvString a, TvString b) \<Rightarrow> a = b \<or> ord_class.lexordp a b | _ \<Rightarrow> False)"

lemma not_value_lt:
  "l \<in> ordered_numbers \<and> r \<in> ordered_numbers \<or> l \<in> strings \<and> r \<in> strings \<Longrightarrow> \<not> value_lt r l \<Longrightarrow> value_le l r"
  by (auto simp: ordered_numbers_def strings_def value_lt_def value_le_def dbl_lt_def dbl_le_def luaV_strcmp_lexordp)
    (metis lexordp_linear)

lemma comparable_pair:
  "comparable vs \<Longrightarrow> x \<in> set vs \<Longrightarrow> y \<in> set vs \<Longrightarrow>
   x \<in> ordered_numbers \<and> y \<in> ordered_numbers \<or> x \<in> strings \<and> y \<in> strings"
  unfolding comparable_def by (meson subsetD)

interpretation default_order: sort_agree "compares value_lt"
    "\<lambda>t. 0 \<le> lo \<and> hi < int n \<and> int n \<le> int (length xs) \<and> permuted n xs (arr t) \<and> comparable (take n xs)"
    "\<lambda>_. True" "int (length xs)" lo hi "luaV_lessthan call_orderTM"
  for lo hi n xs call_orderTM
proof (unfold_locales, goal_cases)
  case (2 t i j t')
  have "keeps_array (compares value_lt)" by (simp add: keeps_array_def compares_def)
  with 2 show ?case using permuting.swap [of "compares value_lt" lo hi n xs t i j t'] by auto
next
  case (5 t i j)
  have "set (take n (arr t)) = set (take n xs)" using 5 by (auto dest!: permuted_take mset_eq_setD)
  moreover have "arr t ! nat k \<in> set (take n (arr t))" if "lo \<le> k" "k \<le> hi" for k
    using that 5 permuted_length [of n xs "arr t"] by (auto simp: in_set_conv_nth intro!: exI [of _ "nat k"])
  ultimately have "arr t ! nat i \<in> set (take n xs)" "arr t ! nat j \<in> set (take n xs)" using 5 by auto
  moreover have "comparable (take n xs)" using 5(1) by simp
  ultimately show ?case by (intro agree_on_comparable [OF comparable_pair])
qed (auto simp: compares_def sizearray_def permuted_length)

text \<open>
  C37: \<^verbatim>\<open>table.sort\<close> without a comparison function sorts an array of numbers none of which is NaN in
  increasing order, and an array of strings in the lexicographic order of their bytes; it raises no error
  and calls no metamethod.
\<close>

theorem table_sort_default:
  assumes "comparable (take (nat n) (arr t))" "n \<le> sizearray t"
  shows "\<exists>t'. table_sort (luaV_lessthan call_orderTM) n t = Inr t' \<and>
    mset (take (nat n) (arr t')) = mset (take (nat n) (arr t)) \<and>
    sorted_wrt value_le (take (nat n) (arr t'))"
proof -
  let ?vs = "take (nat n) (arr t)"
  have agree: "table_sort (luaV_lessthan call_orderTM) n t = table_sort (compares value_lt) n t"
    using default_order.rec_agree [of 0 "n - 1" "nat n" "arr t" t 0 "n - 1"] assms
    by (auto simp: table_sort_def sizearray_def permuted_def)
  from table_sort_order [OF weak_order_comparable [OF assms(1)] assms(2)] obtain t' where
    t': "table_sort (compares value_lt) n t = Inr t'" "permuted (nat n) (arr t) (arr t')"
      "sorted_wrt (\<lambda>x y. \<not> value_lt y x) (take (nat n) (arr t'))" by blast
  have "set (take (nat n) (arr t')) = set ?vs" using t'(2) by (auto dest!: permuted_take mset_eq_setD)
  then have "value_le x y" if "x \<in> set (take (nat n) (arr t'))" "y \<in> set (take (nat n) (arr t'))" "\<not> value_lt y x" for x y
    using that comparable_pair [OF assms(1), of x y] not_value_lt [of x y] by blast
  then have "sorted_wrt value_le (take (nat n) (arr t'))" by (rule sorted_wrt_mono_rel [OF _ t'(3)])
  with agree t' show ?thesis by (auto simp: permuted_take)
qed

section \<open>Witnesses\<close>

definition three :: "(nat, unit) sort_state" where
  "three = \<lparr>arr = [3, 1, 2], world = ()\<rparr>"

lemma sorts_three: "table_sort (compares (<)) 3 three = Inr \<lparr>arr = [1, 2, 3], world = ()\<rparr>"
  by code_simp

definition five :: "(nat, unit) sort_state" where
  "five = \<lparr>arr = [1, 2, 3, 4, 5], world = ()\<rparr>"

lemma refuses_always_true:
  "table_sort (\<lambda>a b t. Inr (True, t)) 5 five =
   Inl (RuntimeError ''invalid order function for sorting'', \<lparr>arr = [3, 2, 4, 5, 1], world = ()\<rparr>)"
  by code_simp

theorem table_sort_memory_safe_witness:
  "(5 :: int) \<le> sizearray five \<and>
   sort_error (\<lambda>a b t. Inr (True, t :: (nat, unit) sort_state)) (RuntimeError ''invalid order function for sorting'')"
proof -
  have s: "(5 :: int) \<le> sizearray five" by (simp add: sizearray_def five_def)
  with table_sort_memory_safe [OF s, of "\<lambda>a b t. Inr (True, t)"] show ?thesis by (simp add: refuses_always_true)
qed

theorem table_sort_permutes_witness:
  "keeps_array (compares (<) :: (nat, unit) SortPredicate) \<and> (3 :: int) \<le> sizearray three \<and>
   permuted 3 (arr three) [1, 2, 3]"
proof -
  have k: "keeps_array (compares (<) :: (nat, unit) SortPredicate)" by (simp add: keeps_array_def compares_def)
  have s: "(3 :: int) \<le> sizearray three" by (simp add: sizearray_def three_def)
  from table_sort_permutes [OF k s] have "permuted 3 (arr three) [1, 2, 3]" by (simp add: sorts_three)
  with k s show ?thesis by blast
qed

theorem table_sort_sorts_witness:
  "weak_order ((<) :: nat \<Rightarrow> nat \<Rightarrow> bool) (set (take (nat 3) (arr three))) \<and> (3 :: int) \<le> sizearray three \<and>
   (\<exists>t'. table_sort (compares (<)) 3 three = Inr t' \<and> sorted_wrt (\<lambda>x y. \<not> y < x) (take 3 (arr t')))"
proof -
  have w: "weak_order ((<) :: nat \<Rightarrow> nat \<Rightarrow> bool) (set (take (nat 3) (arr three)))" by unfold_locales auto
  have s: "(3 :: int) \<le> sizearray three" by (simp add: sizearray_def three_def)
  from table_sort_sorts [OF w s] w s show ?thesis by auto
qed

definition two_strings :: "(TValue, unit) sort_state" where
  "two_strings = \<lparr>arr = [TvString [98], TvString [97, 98], TvNil], world = ()\<rparr>"

theorem table_sort_default_witness:
  "comparable (take (nat 2) (arr two_strings)) \<and> (2 :: int) \<le> sizearray two_strings \<and>
   (\<exists>t'. table_sort (luaV_lessthan (\<lambda>l r t. Inl (RuntimeError [], t))) 2 two_strings = Inr t' \<and>
     sorted_wrt value_le (take 2 (arr t')))"
proof -
  have c: "comparable (take (nat 2) (arr two_strings))" by (simp add: comparable_def two_strings_def strings_def)
  have s: "(2 :: int) \<le> sizearray two_strings" by (simp add: sizearray_def two_strings_def)
  from table_sort_default [OF c s, of "\<lambda>l r t. Inl (RuntimeError [], t)"] c s show ?thesis by auto
qed

end
