(* ===== verification/BytecodeWire.thy ===== *)
theory BytecodeWire
  imports RawMemory
begin

text \<open>
  The wire format of bytecode: fixed-width little-endian fields and variable-length integers, as
  \<^verbatim>\<open>Bytecode/src/BytecodeBuilder.cpp\<close> writes them and as \<^verbatim>\<open>Common/src/BytecodeWire.cpp\<close>,
  \<^verbatim>\<open>VM/src/lvmload.cpp\<close> and \<^verbatim>\<open>CodeGen/src/BytecodeAnalysis.cpp\<close> read them. A reader takes the data
  and the offset and returns a value and the offset behind it; reading past the end of the data and
  shifting by the width of the integer or more are undefined in C++ and errors here.
\<close>

section \<open>Readers\<close>

text \<open>What can end a reader: a fault of the program, or the loader refusing the data with a message.\<close>

datatype load_error =
    CompileError bytes
  | UnknownLuwuVersion byte
  | NewerUpstreamVersion byte
  | VersionMismatch byte
  | TypeVersionMismatch byte
  | NonLegacyOpcode byte nat
  | NonLegacyBuiltin byte nat
  | NonLegacyTypeTag byte nat
  | LegacyClasses byte

datatype read_error = Fault cpp_error | Refused load_error

type_synonym 'a reader = "bytes \<Rightarrow> nat \<Rightarrow> read_error + 'a \<times> nat"

definition returnR :: "'a \<Rightarrow> 'a reader" where
  "returnR x data offset = Inr (x, offset)"

definition bindR :: "'a reader \<Rightarrow> ('a \<Rightarrow> 'b reader) \<Rightarrow> 'b reader" where
  "bindR r f data offset = bindE (r data offset) (\<lambda>(x, offset). f x data offset)"

text \<open>A computation that does not touch the data.\<close>

definition liftR :: "'a cpp \<Rightarrow> 'a reader" where
  "liftR m data offset = (case m of Inl e \<Rightarrow> Inl (Fault e) | Inr x \<Rightarrow> Inr (x, offset))"

definition refuseR :: "load_error \<Rightarrow> 'a reader" where
  "refuseR e data offset = Inl (Refused e)"

text \<open>Loops: \<open>n\<close> elements collected in order, and \<open>n\<close> steps on a state.\<close>

fun repeatR :: "nat \<Rightarrow> 'a reader \<Rightarrow> 'a list reader" where
  "repeatR 0 r = returnR []"
| "repeatR (Suc n) r = bindR r (\<lambda>x. bindR (repeatR n r) (\<lambda>xs. returnR (x # xs)))"

fun loopR :: "nat \<Rightarrow> ('s \<Rightarrow> 's reader) \<Rightarrow> 's \<Rightarrow> 's reader" where
  "loopR 0 f s = returnR s"
| "loopR (Suc n) f s = bindR (f s) (loopR n f)"

text \<open>\<open>decodes r bs x\<close>: wherever the bytes \<open>bs\<close> stand in the data, \<open>r\<close> reads \<open>x\<close> from them and stops
  right behind them.\<close>

definition decodes :: "'a reader \<Rightarrow> bytes \<Rightarrow> 'a \<Rightarrow> bool" where
  "decodes r bs x \<longleftrightarrow> (\<forall>pre post. r (pre @ bs @ post) (length pre) = Inr (x, length pre + length bs))"

lemma decodesI: "(\<And>pre post. r (pre @ bs @ post) (length pre) = Inr (x, length pre + length bs)) \<Longrightarrow> decodes r bs x"
  by (simp add: decodes_def)

lemma decodesD: "decodes r bs x \<Longrightarrow> r (pre @ bs @ post) (length pre) = Inr (x, length pre + length bs)"
  by (simp add: decodes_def)

lemma decodes_return [intro]: "decodes (returnR x) [] x"
  by (simp add: decodes_def returnR_def)

lemma decodes_lift [intro]: "m = Inr x \<Longrightarrow> decodes (liftR m) [] x"
  by (simp add: decodes_def liftR_def)

lemma decodes_bind: "decodes r bs x \<Longrightarrow> decodes (f x) cs y \<Longrightarrow> decodes (bindR r f) (bs @ cs) y"
proof (rule decodesI)
  fix pre post assume "decodes r bs x" "decodes (f x) cs y"
  from decodesD [OF this(1), of pre "cs @ post"] decodesD [OF this(2), of "pre @ bs" post]
  show "bindR r f (pre @ (bs @ cs) @ post) (length pre) = Inr (y, length pre + length (bs @ cs))"
    by (simp add: bindR_def add.assoc)
qed

lemma decodes_bind_lift: "m = Inr x \<Longrightarrow> decodes (f x) cs y \<Longrightarrow> decodes (bindR (liftR m) f) cs y"
  using decodes_bind [OF decodes_lift] by fastforce

lemma decodes_bind_return: "decodes r bs x \<Longrightarrow> f x = y \<Longrightarrow> decodes (bindR r (\<lambda>x. returnR (f x))) bs y"
  using decodes_bind [of r bs x "\<lambda>x. returnR (f x)" "[]" y] by auto

lemma decodes_repeat:
  "(\<And>i. i < length xs \<Longrightarrow> decodes r (bss ! i) (xs ! i)) \<Longrightarrow> length bss = length xs \<Longrightarrow>
   decodes (repeatR (length xs) r) (concat bss) xs"
proof (induction xs arbitrary: bss)
  case (Cons x xs)
  from Cons.prems(2) obtain bs bss' where bss: "bss = bs # bss'" "length bss' = length xs" by (cases bss) auto
  have "decodes r bs x" using Cons.prems(1) [of 0] bss by simp
  moreover have "decodes (repeatR (length xs) r) (concat bss') xs"
    using Cons.prems(1) [of "Suc i" for i] bss by (intro Cons.IH) auto
  ultimately have "decodes (repeatR (length (x # xs)) r) (bs @ concat bss') (x # xs)"
    by (auto intro!: decodes_bind decodes_bind_return)
  with bss show ?case by simp
qed auto

lemma decodes_repeat_map:
  assumes "\<And>x. x \<in> set xs \<Longrightarrow> decodes r (enc x) (dec x)"
  shows "decodes (repeatR (length xs) r) (concat (map enc xs)) (map dec xs)"
  using decodes_repeat [of "map dec xs" r "map enc xs"] assms by simp

lemma decodes_loop:
  assumes "\<And>i. i < n \<Longrightarrow> decodes (f (s i)) (bs i) (s (Suc i))"
  shows "decodes (loopR n f (s 0)) (concat (map bs [0..<n])) (s n)"
  using assms
proof (induction n arbitrary: s bs)
  case (Suc n)
  have "decodes (f (s 0)) (bs 0) (s 1)" using Suc.prems [of 0] by simp
  moreover have "decodes (loopR n f (s 1)) (concat (map (\<lambda>i. bs (Suc i)) [0..<n])) (s (Suc n))"
    using Suc.IH [of "\<lambda>i. s (Suc i)" "\<lambda>i. bs (Suc i)"] Suc.prems by simp
  ultimately have "decodes (loopR (Suc n) f (s 0)) (bs 0 @ concat (map (\<lambda>i. bs (Suc i)) [0..<n])) (s (Suc n))"
    by (simp add: decodes_bind)
  also have "bs 0 @ concat (map (\<lambda>i. bs (Suc i)) [0..<n]) = concat (map bs [0..<Suc n])"
    by (simp add: upt_conv_Cons map_Suc_upt [symmetric] o_def del: upt_Suc)
  finally show ?case .
qed auto

section \<open>Fixed-width fields\<close>

text \<open>\<^verbatim>\<open>read<T>\<close> copies \<^verbatim>\<open>sizeof(T)\<close> bytes and moves the offset.\<close>

definition read_bytes :: "nat \<Rightarrow> bytes reader" where
  "read_bytes n data offset =
     (if offset + n \<le> length data then Inr (take n (drop offset data), offset + n) else Inl (Fault UndefinedAccess))"

definition read_uint8 :: "byte reader" where
  "read_uint8 = bindR (read_bytes 1) (\<lambda>bs. returnR (hd bs))"

definition read_uint32 :: "u32 reader" where
  "read_uint32 = bindR (read_bytes 4) (\<lambda>bs. returnR (word_of_nat (le_nat bs)))"

definition read_uint64 :: "u64 reader" where
  "read_uint64 = bindR (read_bytes 8) (\<lambda>bs. returnR (word_of_nat (le_nat bs)))"

definition writeByte :: "bytes \<Rightarrow> byte \<Rightarrow> bytes" where
  "writeByte ss value = ss @ [value]"

definition writeInt :: "bytes \<Rightarrow> u32 \<Rightarrow> bytes" where
  "writeInt ss value = ss @ le_bytes 4 (unat value)"

definition writeFloat :: "bytes \<Rightarrow> u32 \<Rightarrow> bytes" where
  "writeFloat ss value = ss @ le_bytes 4 (unat value)"

definition writeDouble :: "bytes \<Rightarrow> u64 \<Rightarrow> bytes" where
  "writeDouble ss value = ss @ le_bytes 8 (unat value)"

lemma decodes_read_bytes: "n = length bs \<Longrightarrow> decodes (read_bytes n) bs bs"
  by (rule decodesI) (simp add: read_bytes_def)

lemma decodes_read:
  "n = length bs \<Longrightarrow> f bs = x \<Longrightarrow> decodes (bindR (read_bytes n) (\<lambda>bs. returnR (f bs))) bs x"
  using decodes_bind_return [of "read_bytes n" bs bs f x] decodes_read_bytes [of n bs] by simp

lemma decodes_uint8: "decodes read_uint8 [b] b"
  unfolding read_uint8_def by (rule decodes_read) simp_all

lemma decodes_uint32: "decodes read_uint32 (le_bytes 4 (unat v)) v"
proof -
  have "le_nat (le_bytes 4 (unat v)) = unat v"
    using unat_u32_bound [of v] by (simp add: le_nat_le_bytes)
  then show ?thesis unfolding read_uint32_def by (intro decodes_read) simp_all
qed

lemma decodes_uint64: "decodes read_uint64 (le_bytes 8 (unat v)) v"
proof -
  have "le_nat (le_bytes 8 (unat v)) = unat v"
    using unsigned_less [of v, where ?'a = nat] by (simp add: le_nat_le_bytes)
  then show ?thesis unfolding read_uint64_def by (intro decodes_read) simp_all
qed

section \<open>Variable-length integers\<close>

text \<open>Seven bits per byte, the lowest first; the top bit of a byte says that more follow.\<close>

lemma drop_7_less: "drop_bit 7 v \<noteq> 0 \<Longrightarrow> unat (drop_bit 7 v) < unat (v :: u64)"
proof -
  assume "drop_bit 7 v \<noteq> 0"
  then have "0 < unat (drop_bit 7 v)" by (simp add: unat_gt_0)
  then show ?thesis unfolding unat_drop_bit_div by (intro div_less_dividend) (auto intro!: Nat.gr0I)
qed

function writeVarInt :: "bytes \<Rightarrow> u64 \<Rightarrow> bytes" where
  "writeVarInt ss value =
     (let ss = writeByte ss (ucast (value AND 127) OR (if value > 127 then 128 else 0));
          value = drop_bit 7 value
      in if value \<noteq> 0 then writeVarInt ss value else ss)"
  by pat_completeness auto

termination by (relation "measure (\<lambda>(ss, value). unat value)") (auto intro: drop_7_less)

declare writeVarInt.simps [simp del]

text \<open>The readers of the VM and of the code generator collect 32 bits. The seven bits of a byte are promoted to
  \<^verbatim>\<open>int\<close> before the shift, which is undefined when the value does not fit in 32 bits.\<close>

function readVarInt_loop :: "bytes \<Rightarrow> nat \<Rightarrow> u32 \<Rightarrow> nat \<Rightarrow> read_error + u32 \<times> nat" where
  "readVarInt_loop data offset result shift =
     (if offset < length data then
        let byte = data ! offset; low = unat (byte AND 127) in
        if 32 \<le> shift \<or> 2 ^ 32 \<le> low * 2 ^ shift then Inl (Fault UndefinedShift)
        else
          let result = result OR push_bit shift (word_of_nat low) in
          if byte AND 128 \<noteq> 0 then readVarInt_loop data (offset + 1) result (shift + 7)
          else Inr (result, offset + 1)
      else Inl (Fault UndefinedAccess))"
  by pat_completeness auto
termination by (relation "measure (\<lambda>(data, offset, result, shift). length data - offset)") auto

function readVarInt64_loop :: "bytes \<Rightarrow> nat \<Rightarrow> u64 \<Rightarrow> nat \<Rightarrow> read_error + u64 \<times> nat" where
  "readVarInt64_loop data offset result shift =
     (if offset < length data then
        let byte = data ! offset in
        if 64 \<le> shift then Inl (Fault UndefinedShift)
        else
          let result = result OR push_bit shift (ucast (byte AND 127)) in
          if byte AND 128 \<noteq> 0 then readVarInt64_loop data (offset + 1) result (shift + 7)
          else Inr (result, offset + 1)
      else Inl (Fault UndefinedAccess))"
  by pat_completeness auto
termination by (relation "measure (\<lambda>(data, offset, result, shift). length data - offset)") auto

declare readVarInt_loop.simps [simp del] readVarInt64_loop.simps [simp del]

definition readVarInt :: "u32 reader" where
  "readVarInt data offset = readVarInt_loop data offset 0 0"

definition readVarInt64 :: "u64 reader" where
  "readVarInt64 data offset = readVarInt64_loop data offset 0 0"

text \<open>\<^verbatim>\<open>readVarInt\<close> of \<^verbatim>\<open>BytecodeWire.cpp\<close> truncates the 64-bit value.\<close>

definition wire_readVarInt :: "u32 reader" where
  "wire_readVarInt = bindR readVarInt64 (\<lambda>v. returnR (ucast v))"

section \<open>Round trip\<close>

text \<open>The bytes that \<^verbatim>\<open>writeVarInt\<close> appends.\<close>

definition varint :: "u64 \<Rightarrow> bytes" where
  "varint v = writeVarInt [] v"

lemma writeVarInt_append: "writeVarInt (ss @ ss') v = ss @ writeVarInt ss' v"
proof (induction ss' v rule: writeVarInt.induct)
  case (1 ss' v)
  show ?case
    by (subst (1 2) writeVarInt.simps) (use "1.IH" in \<open>simp add: Let_def writeByte_def\<close>)
qed

lemma writeVarInt_varint: "writeVarInt ss v = ss @ varint v"
  using writeVarInt_append [of ss "[]" v] by (simp add: varint_def)

lemma drop_7_zero: "drop_bit 7 (v :: u64) = 0 \<longleftrightarrow> \<not> 127 < v"
proof -
  have "drop_bit 7 v = 0 \<longleftrightarrow> unat v div 2 ^ 7 = 0"
    by (metis unat_drop_bit_div unat_eq_zero)
  also have "\<dots> \<longleftrightarrow> \<not> 127 < v" by (auto simp: word_less_nat_alt div_eq_0_iff)
  finally show ?thesis .
qed

lemma varint_cases:
  "varint v = (if 127 < v then (ucast (v AND 127) OR 128) # varint (drop_bit 7 v) else [ucast (v AND 127)])"
proof -
  have "varint v = writeVarInt [] v" by (simp add: varint_def)
  also have "\<dots> = (if 127 < v then writeVarInt [ucast (v AND 127) OR 128] (drop_bit 7 v) else [ucast (v AND 127)])"
    using drop_7_zero [of v] by (subst writeVarInt.simps) (auto simp: Let_def writeByte_def)
  finally show ?thesis by (simp add: writeVarInt_varint)
qed

lemma and_127: "(w :: 'a :: len word) AND 127 = take_bit 7 w"
  using take_bit_eq_mask [of 7 w] by (simp add: mask_numeral)

lemma or_128: "b OR (128 :: byte) = set_bit 7 b" "b AND (128 :: byte) = (if bit b 7 then 128 else 0)"
proof -
  have "(128 :: byte) = push_bit 7 1" by (simp add: push_bit_eq_mult)
  then show "b OR 128 = set_bit 7 b" by (simp add: set_bit_eq_or)
  have "b AND push_bit n 1 = (if bit b n then push_bit n 1 else 0)" for n
    by (rule bit_word_eqI) (auto simp: bit_simps)
  from this [of 7] show "b AND (128 :: byte) = (if bit b 7 then 128 else 0)"
    by (simp add: push_bit_eq_mult)
qed

lemma low_byte:
  "take_bit 7 (ucast (take_bit 7 (v :: u64)) :: byte) = ucast (take_bit 7 v)"
  "take_bit 7 (set_bit 7 (ucast (take_bit 7 v)) :: byte) = ucast (take_bit 7 v)"
  "\<not> bit (ucast (take_bit 7 v) :: byte) 7"
  "ucast (ucast (take_bit 7 v) :: byte) = take_bit 7 v"
  by (auto intro!: bit_word_eqI simp: bit_simps)

lemma push_split: "push_bit shift (take_bit 7 v) OR push_bit (shift + 7) (drop_bit 7 v) = push_bit shift (v :: u64)"
proof (rule bit_word_eqI)
  fix n assume "n < LENGTH(64)"
  moreover have "7 + (n - (shift + 7)) = n - shift" if "shift + 7 \<le> n" using that by simp
  ultimately show "bit (push_bit shift (take_bit 7 v) OR push_bit (shift + 7) (drop_bit 7 v)) n = bit (push_bit shift v) n"
    by (cases "shift + 7 \<le> n") (auto simp: bit_simps)
qed

lemma small_take: "\<not> 127 < v \<Longrightarrow> take_bit 7 v = (v :: u64)"
proof -
  assume "\<not> 127 < v"
  then have "unat v < 2 ^ 7" by (simp add: word_less_nat_alt)
  then show ?thesis by (intro word_unat_eq_iff [THEN iffD2]) (simp add: unsigned_take_bit_eq take_bit_nat_eq_self)
qed

lemma unat_ucast_take7: "unat (ucast (take_bit 7 (v :: u64)) :: byte) = unat (take_bit 7 v)"
proof -
  have "unat (take_bit 7 v) < 2 ^ 7" by (simp only: unsigned_take_bit_eq take_bit_nat_less_exp)
  then show ?thesis by (simp add: unsigned_ucast_eq take_bit_nat_eq_self)
qed

lemma push_split32:
  "push_bit shift (ucast (take_bit 7 v)) OR push_bit (shift + 7) (ucast (drop_bit 7 v)) = (push_bit shift (ucast (v :: u64)) :: u32)"
proof (rule bit_word_eqI)
  fix n assume "n < LENGTH(32)"
  moreover have "7 + (n - (shift + 7)) = n - shift" if "shift + 7 \<le> n" using that by simp
  ultimately show "bit (push_bit shift (ucast (take_bit 7 v)) OR push_bit (shift + 7) (ucast (drop_bit 7 v)) :: u32) n =
      bit (push_bit shift (ucast v) :: u32) n"
    by (cases "shift + 7 \<le> n") (auto simp: bit_simps)
qed

lemma readVarInt64_varint:
  assumes "shift < 64" "unat v * 2 ^ shift < 2 ^ 64"
  shows "readVarInt64_loop (pre @ varint v @ post) (length pre) result shift =
    Inr (result OR push_bit shift v, length pre + length (varint v))"
  using assms
proof (induction v arbitrary: pre result shift rule: measure_induct_rule [where f = unat])
  case (less v)
  show ?case
  proof (cases "127 < v")
    case False
    then show ?thesis using less.prems varint_cases [of v]
      by (subst readVarInt64_loop.simps) (simp add: Let_def and_127 or_128 low_byte, simp add: small_take)
  next
    case True
    let ?b = "set_bit 7 (ucast (take_bit 7 v)) :: byte" and ?v = "drop_bit 7 v"
    have v: "varint v = ?b # varint ?v" using True by (subst varint_cases) (simp add: and_127 or_128)
    have "unat ?v * 2 ^ (shift + 7) \<le> unat v * 2 ^ shift"
      by (simp add: unat_drop_bit_div power_add)
    with less.prems have b: "unat ?v * 2 ^ (shift + 7) < 2 ^ 64" by (rule_tac le_less_trans)
    moreover have "1 \<le> unat ?v" using True drop_7_zero [of v] by (simp add: Suc_le_eq unat_gt_0)
    ultimately have "2 ^ (shift + 7) < (2 :: nat) ^ 64"
      using mult_le_mono1 [of 1 "unat ?v" "2 ^ (shift + 7)"] by linarith
    then have "shift + 7 < 64" by (rule power_less_imp_less_exp [rotated]) simp
    have "readVarInt64_loop ((pre @ [?b]) @ varint ?v @ post) (length (pre @ [?b])) (result OR push_bit shift (take_bit 7 v)) (shift + 7) =
        Inr ((result OR push_bit shift (take_bit 7 v)) OR push_bit (shift + 7) ?v, length (pre @ [?b]) + length (varint ?v))"
      by (rule less.IH) (use drop_7_zero [of v] True \<open>shift + 7 < 64\<close> b in \<open>auto intro!: drop_7_less\<close>)
    then show ?thesis using v less.prems
      by (subst readVarInt64_loop.simps) (simp add: Let_def and_127 or_128 low_byte or.assoc push_split bit_set_bit_iff)
  qed
qed

lemma readVarInt_varint:
  assumes "shift < 32" "unat v * 2 ^ shift < 2 ^ 32"
  shows "readVarInt_loop (pre @ varint v @ post) (length pre) result shift =
    Inr (result OR push_bit shift (ucast v), length pre + length (varint v))"
  using assms
proof (induction v arbitrary: pre result shift rule: measure_induct_rule [where f = unat])
  case (less v)
  have "unat (take_bit 7 v) \<le> unat v" by (simp add: unsigned_take_bit_eq take_bit_nat_less_eq_self)
  then have "unat (take_bit 7 v) * 2 ^ shift \<le> unat v * 2 ^ shift" by simp
  with less.prems have fits: "\<not> (32 \<le> shift \<or> 2 ^ 32 \<le> unat (take_bit 7 v) * 2 ^ shift)" by linarith
  have word: "(word_of_nat (unat (take_bit 7 v)) :: u32) = ucast (take_bit 7 v)"
    by simp
  show ?case
  proof (cases "127 < v")
    case False
    then show ?thesis using fits varint_cases [of v]
      by (subst readVarInt_loop.simps) (simp add: Let_def and_127 or_128 unat_ucast_take7 low_byte word, simp add: small_take)
  next
    case True
    let ?b = "set_bit 7 (ucast (take_bit 7 v)) :: byte" and ?v = "drop_bit 7 v"
    have v: "varint v = ?b # varint ?v" using True by (subst varint_cases) (simp add: and_127 or_128)
    have "unat ?v * 2 ^ (shift + 7) \<le> unat v * 2 ^ shift"
      by (simp add: unat_drop_bit_div power_add)
    with less.prems have b: "unat ?v * 2 ^ (shift + 7) < 2 ^ 32" by (rule_tac le_less_trans)
    moreover have "1 \<le> unat ?v" using True drop_7_zero [of v] by (simp add: Suc_le_eq unat_gt_0)
    ultimately have "2 ^ (shift + 7) < (2 :: nat) ^ 32"
      using mult_le_mono1 [of 1 "unat ?v" "2 ^ (shift + 7)"] by linarith
    then have "shift + 7 < 32" by (rule power_less_imp_less_exp [rotated]) simp
    have "readVarInt_loop ((pre @ [?b]) @ varint ?v @ post) (length (pre @ [?b])) (result OR push_bit shift (ucast (take_bit 7 v))) (shift + 7) =
        Inr ((result OR push_bit shift (ucast (take_bit 7 v))) OR push_bit (shift + 7) (ucast ?v), length (pre @ [?b]) + length (varint ?v))"
      by (rule less.IH) (use drop_7_zero [of v] True \<open>shift + 7 < 32\<close> b in \<open>auto intro!: drop_7_less\<close>)
    then show ?thesis using v fits
      by (subst readVarInt_loop.simps)
        (simp add: Let_def and_127 or_128 unat_ucast_take7 low_byte word or.assoc push_split32 bit_set_bit_iff)
  qed
qed

lemma decodes_varint64: "decodes readVarInt64 (varint v) v"
  using readVarInt64_varint [of 0 v] unsigned_less [of v, where ?'a = nat]
  by (intro decodesI) (simp add: readVarInt64_def)

lemma decodes_varint: "unat v < 2 ^ 32 \<Longrightarrow> decodes readVarInt (varint v) (ucast v)"
  using readVarInt_varint [of 0 v] by (intro decodesI) (simp add: readVarInt_def)

lemma decodes_wire_varint: "decodes wire_readVarInt (varint v) (ucast v)"
  unfolding wire_readVarInt_def by (rule decodes_bind_return [OF decodes_varint64]) simp

lemma decodes_varint_u32: "decodes readVarInt (varint (ucast v)) (v :: u32)"
proof -
  have "unat (ucast v :: u64) < 2 ^ 32" using unat_u32_bound [of v] by simp
  moreover have "ucast (ucast v :: u64) = v" by (rule bit_word_eqI) (auto simp: bit_simps)
  ultimately show ?thesis using decodes_varint by metis
qed

lemma decodes_varint_nat: "n < 2 ^ 32 \<Longrightarrow> decodes readVarInt (varint (word_of_nat n)) (word_of_nat n)"
proof -
  assume n: "n < 2 ^ 32"
  then have "unat (word_of_nat n :: u64) = n" by (intro unat_u64_of_nat) simp
  moreover from this have "ucast (word_of_nat n :: u64) = (word_of_nat n :: u32)" by (intro bit_word_eqI) (auto simp: bit_simps)
  ultimately show ?thesis using n decodes_varint [of "word_of_nat n"] by simp
qed

lemma varint_not_Nil: "varint v \<noteq> []"
  using varint_cases [of v] by auto

lemma length_varint: "unat v < 2 ^ (7 * n) \<Longrightarrow> 0 < n \<Longrightarrow> length (varint v) \<le> n"
proof (induction n arbitrary: v)
  case (Suc n)
  show ?case
  proof (cases "127 < v")
    case False
    then show ?thesis using varint_cases [of v] by simp
  next
    case True
    have "unat (drop_bit 7 v) < 2 ^ (7 * n)"
      using Suc.prems(1) by (simp add: unat_drop_bit_div power_add less_mult_imp_div_less mult.commute)
    moreover have "0 < n"
    proof (rule ccontr)
      assume "\<not> 0 < n"
      with Suc.prems(1) True show False by (simp add: word_less_nat_alt)
    qed
    ultimately show ?thesis using Suc.IH True varint_cases [of v] by simp
  qed
qed simp

text \<open>The 32-bit readers agree with the truncating one wherever they are defined.\<close>

lemma readVarInt_loop_defined:
  "readVarInt_loop data offset result shift = Inr r \<Longrightarrow>
   offset < length data \<and> shift < 32 \<and> \<not> 2 ^ 32 \<le> unat (data ! offset AND 127) * 2 ^ shift"
  by (subst (asm) readVarInt_loop.simps) (auto simp: Let_def split: if_splits)

lemma readVarInt_loop_agrees:
  "readVarInt_loop data offset result shift = Inr (v, offset') \<Longrightarrow> ucast result64 = result \<Longrightarrow>
   \<exists>w. readVarInt64_loop data offset result64 shift = Inr (w, offset') \<and> ucast w = v"
proof (induction data offset result shift arbitrary: result64 rule: readVarInt_loop.induct)
  case (1 data offset result shift)
  let ?b = "data ! offset" and ?r = "result64 OR push_bit shift (ucast (data ! offset AND 127))"
  have ok: "offset < length data" "shift < 32" "\<not> 2 ^ 32 \<le> unat (?b AND 127) * 2 ^ shift"
    using readVarInt_loop_defined [OF "1.prems"(1)] by auto
  have r: "ucast ?r = result OR push_bit shift (word_of_nat (unat (?b AND 127)))"
    unfolding "1.prems"(2) [symmetric] by (rule bit_word_eqI) (auto simp: bit_simps)
  show ?case
  proof (cases "?b AND 128 = 0")
    case True
    with "1.prems" ok r show ?thesis
      by (subst (asm) readVarInt_loop.simps) (subst readVarInt64_loop.simps, auto simp: Let_def)
  next
    case False
    with "1.prems" ok have "readVarInt_loop data (offset + 1) (result OR push_bit shift (word_of_nat (unat (?b AND 127)))) (shift + 7) =
        Inr (v, offset')"
      by (subst (asm) readVarInt_loop.simps) (simp add: Let_def)
    from "1.IH" [OF ok(1) refl refl _ refl False this r] ok
    obtain w where "readVarInt64_loop data (offset + 1) ?r (shift + 7) = Inr (w, offset')" "ucast w = v" by auto
    with False ok show ?thesis by (subst readVarInt64_loop.simps) (simp add: Let_def)
  qed
qed

text \<open>Reading moves forward and stays inside the data.\<close>

lemma readVarInt64_loop_advances:
  "readVarInt64_loop data offset result shift = Inr (v, offset') \<Longrightarrow> offset < offset' \<and> offset' \<le> length data"
proof (induction data offset result shift rule: readVarInt64_loop.induct)
  case (1 data offset result shift)
  show ?case
  proof (cases "offset < length data \<and> shift < 64 \<and> data ! offset AND 128 \<noteq> 0")
    case True
    then have step: "readVarInt64_loop data offset result shift =
        readVarInt64_loop data (offset + 1) (result OR push_bit shift (ucast (data ! offset AND 127))) (shift + 7)"
      by (subst readVarInt64_loop.simps) (simp add: Let_def)
    from "1.IH" [OF _ refl _ refl] True "1.prems" step show ?thesis by fastforce
  next
    case False
    then show ?thesis using "1.prems"
      by (subst (asm) readVarInt64_loop.simps) (auto simp: Let_def split: if_splits)
  qed
qed

text \<open>
  C38: Integers written by the bytecode builder are read back by the loader, by the code generator and by the
  tools, wherever they stand in the data, and the reader stops right behind them: every 64-bit value by the 64-bit
  reader, every value below $2^{32}$ by the 32-bit reader.
\<close>

theorem varint_round_trip:
  "readVarInt64 (writeVarInt pre v @ post) (length pre) = Inr (v, length (writeVarInt pre v)) \<and>
   wire_readVarInt (writeVarInt pre v @ post) (length pre) = Inr (ucast v, length (writeVarInt pre v)) \<and>
   (unat v < 2 ^ 32 \<longrightarrow> readVarInt (writeVarInt pre v @ post) (length pre) = Inr (ucast v, length (writeVarInt pre v)))"
  using decodesD [OF decodes_varint64, of pre v post] decodesD [OF decodes_wire_varint, of pre v post]
    decodesD [OF decodes_varint, of v pre post]
  by (simp add: writeVarInt_varint)

text \<open>
  C39: The builder appends between one and ten bytes for an integer, at most five for one below $2^{32}$ and one for
  those below 128, so the readers never shift by the width of their result on its output.
\<close>

theorem varint_length_bounds:
  "length ss < length (writeVarInt ss v) \<and> length (writeVarInt ss v) \<le> length ss + 10 \<and>
   (unat v < 2 ^ 32 \<longrightarrow> length (writeVarInt ss v) \<le> length ss + 5) \<and>
   (unat v < 2 ^ 7 \<longrightarrow> length (writeVarInt ss v) = length ss + 1)"
proof -
  have "unat v < 2 ^ (7 * 10)" using unsigned_less [of v, where ?'a = nat] by simp
  then have "length (varint v) \<le> 10" by (rule length_varint) simp
  moreover have "unat v < 2 ^ 32 \<Longrightarrow> length (varint v) \<le> 5" by (intro length_varint) auto
  moreover have "unat v < 2 ^ 7 \<Longrightarrow> length (varint v) \<le> 1" by (intro length_varint) auto
  moreover have "0 < length (varint v)" using varint_not_Nil by blast
  ultimately show ?thesis by (auto simp: writeVarInt_varint le_Suc_eq)
qed

text \<open>
  The 32-bit reader of the VM and the code generator agrees with the truncating reader of the tools on all
  data, canonical or not, on which it does not leave the defined part of C++.
\<close>

theorem varint_readers_agree:
  "readVarInt data offset = Inr (v, offset') \<Longrightarrow> wire_readVarInt data offset = Inr (v, offset')"
  using readVarInt_loop_agrees [of data offset 0 0 v offset' 0]
  by (auto simp: readVarInt_def readVarInt64_def wire_readVarInt_def bindR_def returnR_def)

theorem varint_round_trip_witness:
  "unat (300 :: u64) < 2 ^ 32 \<and> writeVarInt [1, 2] 300 = [1, 2, 172, 2] \<and>
   readVarInt (writeVarInt [1, 2] 300 @ [9]) (length [1 :: byte, 2]) = Inr (ucast (300 :: u64), length (writeVarInt [1, 2] 300))"
proof (intro conjI)
  show "unat (300 :: u64) < 2 ^ 32" by simp
  with varint_round_trip [of "[1, 2]" 300 "[9]"]
  show "readVarInt (writeVarInt [1, 2] 300 @ [9]) (length [1 :: byte, 2]) = Inr (ucast (300 :: u64), length (writeVarInt [1, 2] 300))"
    by blast
  show "writeVarInt [1, 2] 300 = [1, 2, 172, 2]" by (simp add: writeVarInt.simps writeByte_def Let_def)
qed

theorem varint_length_bounds_witness:
  "unat (127 :: u64) < 2 ^ 7 \<and> length (writeVarInt [1, 2] 127) = 3"
proof -
  have "unat (127 :: u64) < 2 ^ 7" by simp
  with varint_length_bounds [of "[1, 2]" 127] show ?thesis by simp
qed

theorem varint_readers_agree_witness:
  "readVarInt [172, 130, 0] 0 = Inr (300, 3) \<and> wire_readVarInt [172, 130, 0] 0 = Inr (300, 3)"
proof -
  have "readVarInt [172, 130, 0] 0 = Inr (300, 3)"
    by (simp add: readVarInt_def readVarInt_loop.simps Let_def)
  with varint_readers_agree [OF this] show ?thesis by simp
qed

end
