(* ===== verification/BytecodeBuilder.thy ===== *)
theory BytecodeBuilder
  imports BytecodeWire LuwuDouble
begin

text \<open>
  The bytecode builder (\<^verbatim>\<open>Bytecode/src/BytecodeBuilder.cpp\<close>): the state it keeps for the function under
  construction and for the module, its operations, and the serialisation of functions, of the string
  table and of the module. The hash maps of the builder are association lists in the order of
  insertion; only lookups and, for the string table, a walk in unspecified order depend on them. Sizes and
  indices are naturals, truncated to \<^verbatim>\<open>uint32_t\<close> where the code casts them. Failing assertions are errors.
\<close>

section \<open>State\<close>

datatype ConstantType = Type_Nil | Type_Boolean | Type_Number | Type_Integer | Type_Vectorf | Type_Vectord
  | Type_String | Type_Import | Type_Table | Type_Closure | Type_ClassShape

datatype Constant =
    CNil
  | CBoolean bool
  | CNumber double
  | CInteger64 u64
  | CVectorf u32 u32 u32 u32
  | CVectord u64 u64 u64 u64
  | CString u32
  | CImport u32
  | CTable nat
  | CClosure u32
  | CClassShape nat

text \<open>Equality of constants is decided on the bits.\<close>

datatype ConstantKey = ConstantKey ConstantType u64 u64 u64 u64

record TableShape =
  ts_keys :: "u32 list"
  ts_constants :: "u32 list"
  ts_hasConstants :: bool

record ClassShape =
  cs_className :: u32
  cs_propertyNames :: "u32 list"
  cs_methodNames :: "u32 list"
  cs_propertyFlags :: "byte list"
  cs_methodFlags :: "byte list"
  cs_propertyDefaults :: "u32 list"

record Function =
  f_data :: bytes
  f_maxstacksize :: byte
  f_numparams :: byte
  f_numupvalues :: byte
  f_isvararg :: bool
  f_debugname :: u32
  f_debuglinedefined :: u32
  f_typeinfo :: bytes

record DebugLocal =
  dl_name :: u32
  dl_reg :: byte
  dl_startpc :: u32
  dl_endpc :: u32

record TypedLocal =
  tl_type :: byte
  tl_reg :: byte
  tl_startpc :: u32
  tl_endpc :: u32

record UserdataType =
  ud_name :: bytes
  ud_nameRef :: u32
  ud_used :: bool

record BytecodeBuilder =
  bb_functions :: "Function list"
  bb_currentFunction :: "nat option"
  bb_mainFunction :: "nat option"
  bb_totalInstructionCount :: nat
  bb_insns :: "u32 list"
  bb_lines :: "int list"
  bb_constants :: "Constant list"
  bb_protos :: "u32 list"
  bb_jumps :: "(nat \<times> nat) list"
  bb_tableShapes :: "TableShape list"
  bb_classShapes :: "ClassShape list"
  bb_fbSlots :: "u32 list"
  bb_hasLongJumps :: bool
  bb_constantMap :: "(ConstantKey \<times> nat) list"
  bb_tableShapeMap :: "(TableShape \<times> nat) list"
  bb_protoMap :: "(u32 \<times> nat) list"
  bb_debugLine :: int
  bb_debugLocals :: "DebugLocal list"
  bb_debugUpvals :: "u32 list"
  bb_typedLocals :: "TypedLocal list"
  bb_typedUpvals :: "byte list"
  bb_userdataTypes :: "UserdataType list"
  bb_stringTable :: "(bytes \<times> nat) list"
  bb_bytecode :: bytes

definition kMaxConstantCount :: nat where "kMaxConstantCount = 2 ^ 23"
definition kMaxClosureCount :: nat where "kMaxClosureCount = 2 ^ 15"
definition kMaxJumpDistance :: int where "kMaxJumpDistance = 2 ^ 23"
definition kMaxLength :: nat where "kMaxLength = 32"

definition bb_new :: BytecodeBuilder where
  "bb_new = \<lparr>bb_functions = [], bb_currentFunction = None, bb_mainFunction = None, bb_totalInstructionCount = 0,
     bb_insns = [], bb_lines = [], bb_constants = [], bb_protos = [], bb_jumps = [], bb_tableShapes = [],
     bb_classShapes = [], bb_fbSlots = [], bb_hasLongJumps = False, bb_constantMap = [], bb_tableShapeMap = [],
     bb_protoMap = [], bb_debugLine = 0, bb_debugLocals = [], bb_debugUpvals = [], bb_typedLocals = [],
     bb_typedUpvals = [], bb_userdataTypes = [], bb_stringTable = [], bb_bytecode = []\<rparr>"

section \<open>Functions, constants, strings\<close>

definition beginFunction :: "byte \<Rightarrow> bool \<Rightarrow> BytecodeBuilder \<Rightarrow> (nat \<times> BytecodeBuilder) cpp" where
  "beginFunction numparams isvararg b =
     bindE (guardE (bb_currentFunction b = None) (AssertionFailed ''currentFunction == ~0u'')) (\<lambda>_.
     let id = length (bb_functions b);
         func = \<lparr>f_data = [], f_maxstacksize = 0, f_numparams = numparams, f_numupvalues = 0, f_isvararg = isvararg,
           f_debugname = 0, f_debuglinedefined = 0, f_typeinfo = []\<rparr>
     in Inr (id, b\<lparr>bb_functions := bb_functions b @ [func], bb_currentFunction := Some id,
          bb_hasLongJumps := False, bb_debugLine := 0\<rparr>))"

definition bb_clearState :: "BytecodeBuilder \<Rightarrow> BytecodeBuilder" where
  "bb_clearState b = b\<lparr>bb_insns := [], bb_lines := [], bb_constants := [], bb_protos := [], bb_jumps := [], bb_fbSlots := [],
     bb_tableShapes := [], bb_debugLocals := [], bb_debugUpvals := [], bb_typedLocals := [], bb_typedUpvals := [],
     bb_constantMap := [], bb_tableShapeMap := [], bb_protoMap := []\<rparr>"

definition setMainFunction :: "nat \<Rightarrow> BytecodeBuilder \<Rightarrow> BytecodeBuilder cpp" where
  "setMainFunction fid b =
     bindE (guardE (fid < length (bb_functions b)) (AssertionFailed ''fid < functions.size()'')) (\<lambda>_.
     Inr (b\<lparr>bb_mainFunction := Some fid\<rparr>))"

text \<open>A constant seen before keeps its index; \<open>- 1\<close> says that there are too many.\<close>

definition addConstant :: "ConstantKey \<Rightarrow> Constant \<Rightarrow> BytecodeBuilder \<Rightarrow> int \<times> BytecodeBuilder" where
  "addConstant key value b =
     (case map_of (bb_constantMap b) key of
        Some cache \<Rightarrow> (int cache, b)
      | None \<Rightarrow>
          let id = length (bb_constants b) in
          if id \<ge> kMaxConstantCount then (- 1, b)
          else (int id, b\<lparr>bb_constantMap := bb_constantMap b @ [(key, id)], bb_constants := bb_constants b @ [value]\<rparr>))"

text \<open>Strings are numbered from 1 on; 0 stands for no string.\<close>

definition addStringTableEntry :: "bytes \<Rightarrow> BytecodeBuilder \<Rightarrow> u32 \<times> BytecodeBuilder" where
  "addStringTableEntry value b =
     (case map_of (bb_stringTable b) value of
        Some index \<Rightarrow> (word_of_nat index, b)
      | None \<Rightarrow>
          let index = length (bb_stringTable b) + 1
          in (word_of_nat index, b\<lparr>bb_stringTable := bb_stringTable b @ [(value, index)]\<rparr>))"

definition addConstantNil :: "BytecodeBuilder \<Rightarrow> int \<times> BytecodeBuilder" where
  "addConstantNil b = addConstant (ConstantKey Type_Nil 0 0 0 0) CNil b"

definition addConstantBoolean :: "bool \<Rightarrow> BytecodeBuilder \<Rightarrow> int \<times> BytecodeBuilder" where
  "addConstantBoolean value b = addConstant (ConstantKey Type_Boolean (if value then 1 else 0) 0 0 0) (CBoolean value) b"

definition addConstantNumber :: "double \<Rightarrow> BytecodeBuilder \<Rightarrow> int \<times> BytecodeBuilder" where
  "addConstantNumber value b = addConstant (ConstantKey Type_Number value 0 0 0) (CNumber value) b"

definition addConstantInteger :: "u64 \<Rightarrow> BytecodeBuilder \<Rightarrow> int \<times> BytecodeBuilder" where
  "addConstantInteger value b = addConstant (ConstantKey Type_Integer value 0 0 0) (CInteger64 value) b"

definition addConstantVectorf :: "u32 \<Rightarrow> u32 \<Rightarrow> u32 \<Rightarrow> u32 \<Rightarrow> BytecodeBuilder \<Rightarrow> int \<times> BytecodeBuilder" where
  "addConstantVectorf x y z w b =
     addConstant (ConstantKey Type_Vectorf (ucast x OR push_bit 32 (ucast y)) (ucast z OR push_bit 32 (ucast w)) 0 0)
       (CVectorf x y z w) b"

definition addConstantVectord :: "u64 \<Rightarrow> u64 \<Rightarrow> u64 \<Rightarrow> u64 \<Rightarrow> BytecodeBuilder \<Rightarrow> int \<times> BytecodeBuilder" where
  "addConstantVectord x y z w b = addConstant (ConstantKey Type_Vectord x y z w) (CVectord x y z w) b"

definition addConstantString :: "bytes \<Rightarrow> BytecodeBuilder \<Rightarrow> int \<times> BytecodeBuilder" where
  "addConstantString value b =
     (let (index, b) = addStringTableEntry value b
      in addConstant (ConstantKey Type_String (ucast index) 0 0 0) (CString index) b)"

definition addImport :: "u32 \<Rightarrow> BytecodeBuilder \<Rightarrow> int \<times> BytecodeBuilder" where
  "addImport iid b = addConstant (ConstantKey Type_Import (ucast iid) 0 0 0) (CImport iid) b"

text \<open>Table shapes have a map of their own.\<close>

definition addConstantTable :: "TableShape \<Rightarrow> BytecodeBuilder \<Rightarrow> int \<times> BytecodeBuilder" where
  "addConstantTable shape b =
     (case map_of (bb_tableShapeMap b) shape of
        Some cache \<Rightarrow> (int cache, b)
      | None \<Rightarrow>
          let id = length (bb_constants b) in
          if id \<ge> kMaxConstantCount then (- 1, b)
          else (int id, b\<lparr>bb_tableShapeMap := bb_tableShapeMap b @ [(shape, id)],
                 bb_tableShapes := bb_tableShapes b @ [shape],
                 bb_constants := bb_constants b @ [CTable (length (bb_tableShapes b))]\<rparr>))"

definition addConstantClosure :: "u32 \<Rightarrow> BytecodeBuilder \<Rightarrow> int \<times> BytecodeBuilder" where
  "addConstantClosure fid b = addConstant (ConstantKey Type_Closure (ucast fid) 0 0 0) (CClosure fid) b"

definition addChildFunction :: "u32 \<Rightarrow> BytecodeBuilder \<Rightarrow> int \<times> BytecodeBuilder" where
  "addChildFunction fid b =
     (case map_of (bb_protoMap b) fid of
        Some cache \<Rightarrow> (int cache, b)
      | None \<Rightarrow>
          let id = length (bb_protos b) in
          if id \<ge> kMaxClosureCount then (- 1, b)
          else (int id, b\<lparr>bb_protoMap := bb_protoMap b @ [(fid, id)], bb_protos := bb_protos b @ [fid]\<rparr>))"

definition addClassShape :: "ClassShape \<Rightarrow> BytecodeBuilder \<Rightarrow> int \<times> BytecodeBuilder" where
  "addClassShape shape b =
     (let id = length (bb_constants b) in
      if id \<ge> kMaxConstantCount then (- 1, b)
      else (int id, b\<lparr>bb_classShapes := bb_classShapes b @ [shape],
             bb_constants := bb_constants b @ [CClassShape (length (bb_classShapes b))]\<rparr>))"

section \<open>Instructions\<close>

definition LUAU_INSN_OP :: "u32 \<Rightarrow> nat" where "LUAU_INSN_OP insn = unat (insn AND 0xff)"
definition LUAU_INSN_A :: "u32 \<Rightarrow> nat" where "LUAU_INSN_A insn = unat (drop_bit 8 insn AND 0xff)"
definition LUAU_INSN_B :: "u32 \<Rightarrow> nat" where "LUAU_INSN_B insn = unat (drop_bit 16 insn AND 0xff)"
definition LUAU_INSN_C :: "u32 \<Rightarrow> nat" where "LUAU_INSN_C insn = unat (drop_bit 24 insn AND 0xff)"
definition LUAU_INSN_D :: "u32 \<Rightarrow> int" where "LUAU_INSN_D insn = sint insn div 2 ^ 16"
definition LUAU_INSN_E :: "u32 \<Rightarrow> int" where "LUAU_INSN_E insn = sint insn div 2 ^ 8"

definition emit_word :: "u32 \<Rightarrow> BytecodeBuilder \<Rightarrow> BytecodeBuilder" where
  "emit_word w b = b\<lparr>bb_insns := bb_insns b @ [w], bb_lines := bb_lines b @ [bb_debugLine b]\<rparr>"

definition emitABC :: "byte \<Rightarrow> byte \<Rightarrow> byte \<Rightarrow> byte \<Rightarrow> BytecodeBuilder \<Rightarrow> BytecodeBuilder" where
  "emitABC op a b c = emit_word (ucast op OR push_bit 8 (ucast a) OR push_bit 16 (ucast b) OR push_bit 24 (ucast c))"

definition emitAD :: "byte \<Rightarrow> byte \<Rightarrow> 16 word \<Rightarrow> BytecodeBuilder \<Rightarrow> BytecodeBuilder" where
  "emitAD op a d = emit_word (ucast op OR push_bit 8 (ucast a) OR push_bit 16 (ucast d))"

definition emitE :: "byte \<Rightarrow> u32 \<Rightarrow> BytecodeBuilder \<Rightarrow> BytecodeBuilder" where
  "emitE op e = emit_word (ucast op OR push_bit 8 e)"

definition emitAux :: "u32 \<Rightarrow> BytecodeBuilder \<Rightarrow> BytecodeBuilder" where
  "emitAux aux = emit_word aux"

definition undoEmit :: "byte \<Rightarrow> BytecodeBuilder \<Rightarrow> BytecodeBuilder cpp" where
  "undoEmit op b =
     bindE (guardE (bb_insns b \<noteq> []) (AssertionFailed ''!insns.empty()'')) (\<lambda>_.
     bindE (guardE (LUAU_INSN_OP (last (bb_insns b)) = unat op) (AssertionFailed ''(insns.back() & 0xff) == op'')) (\<lambda>_.
     Inr (b\<lparr>bb_insns := butlast (bb_insns b), bb_lines := butlast (bb_lines b)\<rparr>)))"

definition emitLabel :: "BytecodeBuilder \<Rightarrow> nat" where
  "emitLabel b = length (bb_insns b)"

text \<open>The opcodes the operations below single out, by their numbers in \<^verbatim>\<open>Bytecode.h\<close>.\<close>

definition isJumpD :: "nat \<Rightarrow> bool" where
  "isJumpD op \<longleftrightarrow> op \<in> {23, 25, 26, 27, 28, 29, 30, 31, 32, 56, 57, 76, 58, 59, 61, 24, 77, 78, 79, 80, 88, 90}"

definition isSkipC :: "nat \<Rightarrow> bool" where
  "isSkipC op \<longleftrightarrow> op = 3"

definition isFastCall :: "nat \<Rightarrow> bool" where
  "isFastCall op \<longleftrightarrow> op \<in> {68, 73, 74, 75, 60}"

definition LOP_JUMPX :: nat where "LOP_JUMPX = 67"

definition getJumpTarget :: "u32 \<Rightarrow> nat \<Rightarrow> int" where
  "getJumpTarget insn pc =
     (let op = LUAU_INSN_OP insn in
      if isJumpD op then int pc + LUAU_INSN_D insn + 1
      else if isFastCall op then int pc + int (LUAU_INSN_C insn) + 2
      else if isSkipC op \<and> LUAU_INSN_C insn \<noteq> 0 then int pc + int (LUAU_INSN_C insn) + 1
      else if op = LOP_JUMPX then int pc + LUAU_INSN_E insn + 1
      else - 1)"

definition patchJumpD :: "nat \<Rightarrow> nat \<Rightarrow> BytecodeBuilder \<Rightarrow> (bool \<times> BytecodeBuilder) cpp" where
  "patchJumpD jumpLabel targetLabel b =
     bindE (guardE (jumpLabel < length (bb_insns b)) (AssertionFailed ''jumpLabel < insns.size()'')) (\<lambda>_.
     let jumpInsn = bb_insns b ! jumpLabel in
     bindE (guardE (isJumpD (LUAU_INSN_OP jumpInsn)) (AssertionFailed ''isJumpD'')) (\<lambda>_.
     bindE (guardE (LUAU_INSN_D jumpInsn = 0) (AssertionFailed ''LUAU_INSN_D(jumpInsn) == 0'')) (\<lambda>_.
     bindE (guardE (targetLabel \<le> length (bb_insns b)) (AssertionFailed ''targetLabel <= insns.size()'')) (\<lambda>_.
     let offset = int targetLabel - int jumpLabel - 1;
         jumps = bb_jumps b @ [(jumpLabel, targetLabel)] in
     if - (2 ^ 15) \<le> offset \<and> offset < 2 ^ 15 then
       Inr (True, b\<lparr>bb_insns := (bb_insns b)[jumpLabel := jumpInsn OR push_bit 16 (ucast (word_of_int offset :: 16 word))],
         bb_jumps := jumps\<rparr>)
     else if \<bar>offset\<bar> < kMaxJumpDistance then Inr (True, b\<lparr>bb_hasLongJumps := True, bb_jumps := jumps\<rparr>)
     else Inr (False, b)))))"

definition patchSkipC :: "nat \<Rightarrow> nat \<Rightarrow> BytecodeBuilder \<Rightarrow> (bool \<times> BytecodeBuilder) cpp" where
  "patchSkipC jumpLabel targetLabel b =
     bindE (guardE (jumpLabel < length (bb_insns b)) (AssertionFailed ''jumpLabel < insns.size()'')) (\<lambda>_.
     let jumpInsn = bb_insns b ! jumpLabel in
     bindE (guardE (isSkipC (LUAU_INSN_OP jumpInsn) \<or> isFastCall (LUAU_INSN_OP jumpInsn)) (AssertionFailed ''isSkipC'')) (\<lambda>_.
     bindE (guardE (LUAU_INSN_C jumpInsn = 0) (AssertionFailed ''LUAU_INSN_C(jumpInsn) == 0'')) (\<lambda>_.
     let offset = int targetLabel - int jumpLabel - 1 in
     if 0 \<le> offset \<and> offset < 2 ^ 8 then
       Inr (True, b\<lparr>bb_insns := (bb_insns b)[jumpLabel := jumpInsn OR push_bit 24 (word_of_int offset)]\<rparr>)
     else Inr (False, b))))"

definition patchAux :: "nat \<Rightarrow> u32 \<Rightarrow> BytecodeBuilder \<Rightarrow> BytecodeBuilder cpp" where
  "patchAux targetAux newValue b =
     bindE (guardE (targetAux < length (bb_insns b)) (AssertionFailed ''targetAux < insns.size()'')) (\<lambda>_.
     Inr (b\<lparr>bb_insns := (bb_insns b)[targetAux := newValue]\<rparr>))"

definition addFbSlot :: "BytecodeBuilder \<Rightarrow> nat \<times> BytecodeBuilder" where
  "addFbSlot b = (length (bb_fbSlots b), b\<lparr>bb_fbSlots := bb_fbSlots b @ [word_of_nat (length (bb_insns b))]\<rparr>)"

section \<open>Types and debug information\<close>

text \<open>Updates of the function under construction; without one the code would index with \<^verbatim>\<open>~0u\<close>.\<close>

definition update_current :: "(Function \<Rightarrow> Function) \<Rightarrow> BytecodeBuilder \<Rightarrow> BytecodeBuilder cpp" where
  "update_current f b =
     (case bb_currentFunction b of
        Some c \<Rightarrow> if c < length (bb_functions b)
          then Inr (b\<lparr>bb_functions := (bb_functions b)[c := f (bb_functions b ! c)]\<rparr>) else Inl UndefinedAccess
      | None \<Rightarrow> Inl UndefinedAccess)"

definition setFunctionTypeInfo :: "bytes \<Rightarrow> BytecodeBuilder \<Rightarrow> BytecodeBuilder cpp" where
  "setFunctionTypeInfo value = update_current (\<lambda>f. f\<lparr>f_typeinfo := value\<rparr>)"

definition setDebugFunctionName :: "bytes \<Rightarrow> BytecodeBuilder \<Rightarrow> BytecodeBuilder cpp" where
  "setDebugFunctionName name b =
     (let (index, b) = addStringTableEntry name b in update_current (\<lambda>f. f\<lparr>f_debugname := index\<rparr>) b)"

definition setDebugFunctionLineDefined :: "u32 \<Rightarrow> BytecodeBuilder \<Rightarrow> BytecodeBuilder cpp" where
  "setDebugFunctionLineDefined line = update_current (\<lambda>f. f\<lparr>f_debuglinedefined := line\<rparr>)"

definition setDebugLine :: "int \<Rightarrow> BytecodeBuilder \<Rightarrow> BytecodeBuilder" where
  "setDebugLine line b = b\<lparr>bb_debugLine := line\<rparr>"

definition pushLocalTypeInfo :: "byte \<Rightarrow> byte \<Rightarrow> u32 \<Rightarrow> u32 \<Rightarrow> BytecodeBuilder \<Rightarrow> BytecodeBuilder" where
  "pushLocalTypeInfo type reg startpc endpc b =
     b\<lparr>bb_typedLocals := bb_typedLocals b @ [\<lparr>tl_type = type, tl_reg = reg, tl_startpc = startpc, tl_endpc = endpc\<rparr>]\<rparr>"

definition pushUpvalTypeInfo :: "byte \<Rightarrow> BytecodeBuilder \<Rightarrow> BytecodeBuilder" where
  "pushUpvalTypeInfo type b = b\<lparr>bb_typedUpvals := bb_typedUpvals b @ [type]\<rparr>"

definition addUserdataType :: "bytes \<Rightarrow> BytecodeBuilder \<Rightarrow> nat \<times> BytecodeBuilder" where
  "addUserdataType name b =
     (length (bb_userdataTypes b),
      b\<lparr>bb_userdataTypes := bb_userdataTypes b @ [\<lparr>ud_name = name, ud_nameRef = 0, ud_used = False\<rparr>]\<rparr>)"

definition useUserdataType :: "nat \<Rightarrow> BytecodeBuilder \<Rightarrow> BytecodeBuilder cpp" where
  "useUserdataType index b =
     (if index < length (bb_userdataTypes b)
      then Inr (b\<lparr>bb_userdataTypes := (bb_userdataTypes b)[index := (bb_userdataTypes b ! index)\<lparr>ud_used := True\<rparr>]\<rparr>)
      else Inl UndefinedAccess)"

definition pushDebugLocal :: "bytes \<Rightarrow> byte \<Rightarrow> u32 \<Rightarrow> u32 \<Rightarrow> BytecodeBuilder \<Rightarrow> BytecodeBuilder" where
  "pushDebugLocal name reg startpc endpc b =
     (let (index, b) = addStringTableEntry name b
      in b\<lparr>bb_debugLocals := bb_debugLocals b @ [\<lparr>dl_name = index, dl_reg = reg, dl_startpc = startpc, dl_endpc = endpc\<rparr>]\<rparr>)"

definition pushDebugUpval :: "bytes \<Rightarrow> BytecodeBuilder \<Rightarrow> BytecodeBuilder" where
  "pushDebugUpval name b =
     (let (index, b) = addStringTableEntry name b in b\<lparr>bb_debugUpvals := bb_debugUpvals b @ [index]\<rparr>)"

section \<open>Line information\<close>

text \<open>Lines are stored as 8-bit deltas to the smallest line of their span of instructions; a span is a power of two,
  as long as possible. The line numbers are \<^verbatim>\<open>int\<close>s that are not negative, so differences do not
  overflow.\<close>

function log2_loop :: "nat \<Rightarrow> nat \<Rightarrow> nat" where
  "log2_loop v r = (if v \<ge> 2 * 2 ^ r then log2_loop v (r + 1) else r)"
  by pat_completeness auto
termination
proof (relation "measure (\<lambda>(v, r). v - r)")
  fix v r :: nat assume "v \<ge> 2 * 2 ^ r"
  moreover have "r < 2 ^ r" by (rule less_exp)
  ultimately have "r < v" by linarith
  then show "((v, r + 1), (v, r)) \<in> measure (\<lambda>(v, r). v - r)" by auto
qed simp

declare log2_loop.simps [simp del]

definition bb_log2 :: "nat \<Rightarrow> nat cpp" where
  "bb_log2 v = bindE (guardE (0 < v) (AssertionFailed ''v > 0'')) (\<lambda>_. Inr (log2_loop v 0))"

text \<open>How far the lines of a block stay within 255 of each other.\<close>

fun scan_block :: "int list \<Rightarrow> int \<Rightarrow> int \<Rightarrow> nat" where
  "scan_block [] mn mx = 0"
| "scan_block (line # lines) mn mx =
     (let mn = min mn line; mx = max mx line in
      if mx - mn > 255 then 0 else Suc (scan_block lines mn mx))"

partial_function (option) lines_span :: "int list \<Rightarrow> nat \<Rightarrow> nat \<Rightarrow> nat cpp option" where
  "lines_span lines offset span =
     (if offset < length lines then
        let next = offset + scan_block (take span (drop offset lines)) (lines ! offset) (lines ! offset) in
        case (if next < length lines \<and> next - offset < span
              then bindE (bb_log2 (next - offset)) (\<lambda>l. Inr (2 ^ l)) else Inr span) of
          Inl e \<Rightarrow> Some (Inl e)
        | Inr span \<Rightarrow> lines_span lines (offset + span) span
      else Some (Inr span))"

declare lines_span.simps [code]

definition calcLinesSpan :: "int list \<Rightarrow> nat cpp" where
  "calcLinesSpan lines =
     bindE (guardE (lines \<noteq> []) (AssertionFailed ''!lines.empty()'')) (\<lambda>_. terminates (lines_span lines 0 (2 ^ 24)))"

definition fillBaselineInfo :: "int list \<Rightarrow> nat \<Rightarrow> int list \<Rightarrow> int list cpp" where
  "fillBaselineInfo lines span baseline =
     foldE (\<lambda>baseline k.
       let offset = k * span;
           mn = foldl min (lines ! offset) (take span (drop offset lines))
       in if offset div span < length baseline then Inr (baseline[offset div span := mn]) else Inl UndefinedAccess)
     baseline [0..<(length lines + span - 1) div span]"

definition writeLineInfo :: "bytes \<Rightarrow> int list \<Rightarrow> bytes cpp" where
  "writeLineInfo ss lines =
     bindE (calcLinesSpan lines) (\<lambda>span.
     let baselineSize = (length lines - 1) div span + 1 in
     bindE (fillBaselineInfo lines span (replicate baselineSize 0)) (\<lambda>baseline.
     bindE (bb_log2 span) (\<lambda>logspan.
     let ss = writeByte ss (word_of_nat logspan) in
     bindE (foldE (\<lambda>(ss, lastOffset) i.
         let delta = lines ! i - baseline ! (i div 2 ^ logspan) in
         bindE (guardE (0 \<le> delta \<and> delta \<le> 255) (AssertionFailed ''delta >= 0 && delta <= 255'')) (\<lambda>_.
         Inr (writeByte ss (word_of_int delta - lastOffset), word_of_int delta))) (ss, 0) [0..<length lines]) (\<lambda>(ss, _).
     Inr (fst (foldl (\<lambda>(ss, lastLine) line. (writeInt ss (word_of_int (line - lastLine)), line)) (ss, 0) baseline))))))"

section \<open>Serialisation\<close>

text \<open>\<^verbatim>\<open>uint32_t(size)\<close> as a variable-length integer; an \<^verbatim>\<open>int\<close> is sign-extended to 64 bits.\<close>

definition writeSize :: "bytes \<Rightarrow> nat \<Rightarrow> bytes" where
  "writeSize ss n = writeVarInt ss (ucast (word_of_nat n :: u32))"

definition writeUnsigned :: "bytes \<Rightarrow> u32 \<Rightarrow> bytes" where
  "writeUnsigned ss v = writeVarInt ss (ucast v)"

definition writeSigned :: "bytes \<Rightarrow> u32 \<Rightarrow> bytes" where
  "writeSigned ss v = writeVarInt ss (scast v)"

definition LBC_CLASSMEMBER_CONSTDEFAULT :: byte where "LBC_CLASSMEMBER_CONSTDEFAULT = 8"
definition LPF_INLINABLE :: byte where "LPF_INLINABLE = 8"
definition LFT_CALLTARGET :: byte where "LFT_CALLTARGET = 0"

definition writeClassShape :: "bytes \<Rightarrow> ClassShape \<Rightarrow> bytes cpp" where
  "writeClassShape ss cs =
     bindE (guardE (length (cs_propertyFlags cs) = length (cs_propertyNames cs)) (AssertionFailed ''propertyFlags'')) (\<lambda>_.
     bindE (guardE (length (cs_methodFlags cs) = length (cs_methodNames cs)) (AssertionFailed ''methodFlags'')) (\<lambda>_.
     bindE (guardE (cs_propertyDefaults cs = [] \<or> length (cs_propertyDefaults cs) = length (cs_propertyNames cs))
       (AssertionFailed ''propertyDefaults'')) (\<lambda>_.
     let ss = writeSigned ss (cs_className cs);
         ss = writeVarInt ss (word_of_nat (length (cs_propertyNames cs)));
         ss = writeVarInt ss (word_of_nat (length (cs_methodNames cs))) in
     bindE (foldE (\<lambda>ss i.
         let ss = writeSigned ss (cs_propertyNames cs ! i);
             ss = writeVarInt ss (ucast (cs_propertyFlags cs ! i)) in
         if cs_propertyFlags cs ! i AND LBC_CLASSMEMBER_CONSTDEFAULT \<noteq> 0 then
           if i < length (cs_propertyDefaults cs) then Inr (writeSigned ss (cs_propertyDefaults cs ! i)) else Inl UndefinedAccess
         else Inr ss) ss [0..<length (cs_propertyNames cs)]) (\<lambda>ss.
     Inr (foldl (\<lambda>ss (name, flags). writeVarInt (writeSigned ss name) (ucast flags)) ss
       (zip (cs_methodNames cs) (cs_methodFlags cs)))))))"

text \<open>The tags of constants (\<^verbatim>\<open>LBC_CONSTANT_*\<close>).\<close>

definition LBC_CONSTANT_NIL :: byte where "LBC_CONSTANT_NIL = 0"
definition LBC_CONSTANT_BOOLEAN :: byte where "LBC_CONSTANT_BOOLEAN = 1"
definition LBC_CONSTANT_NUMBER :: byte where "LBC_CONSTANT_NUMBER = 2"
definition LBC_CONSTANT_STRING :: byte where "LBC_CONSTANT_STRING = 3"
definition LBC_CONSTANT_IMPORT :: byte where "LBC_CONSTANT_IMPORT = 4"
definition LBC_CONSTANT_TABLE :: byte where "LBC_CONSTANT_TABLE = 5"
definition LBC_CONSTANT_CLOSURE :: byte where "LBC_CONSTANT_CLOSURE = 6"
definition LBC_CONSTANT_VECTOR :: byte where "LBC_CONSTANT_VECTOR = 7"
definition LBC_CONSTANT_TABLE_WITH_CONSTANTS :: byte where "LBC_CONSTANT_TABLE_WITH_CONSTANTS = 8"
definition LBC_CONSTANT_INTEGER :: byte where "LBC_CONSTANT_INTEGER = 9"
definition LBC_CONSTANT_CLASS_SHAPE :: byte where "LBC_CONSTANT_CLASS_SHAPE = 10"
definition LBC_CONSTANT_VECTORD :: byte where "LBC_CONSTANT_VECTORD = 11"

lemmas constant_tags = LBC_CONSTANT_NIL_def LBC_CONSTANT_BOOLEAN_def LBC_CONSTANT_NUMBER_def LBC_CONSTANT_STRING_def
  LBC_CONSTANT_IMPORT_def LBC_CONSTANT_TABLE_def LBC_CONSTANT_CLOSURE_def LBC_CONSTANT_VECTOR_def
  LBC_CONSTANT_TABLE_WITH_CONSTANTS_def LBC_CONSTANT_INTEGER_def LBC_CONSTANT_CLASS_SHAPE_def LBC_CONSTANT_VECTORD_def

definition writeConstant :: "BytecodeBuilder \<Rightarrow> bytes \<Rightarrow> Constant \<Rightarrow> bytes cpp" where
  "writeConstant b ss c =
     (case c of
        CNil \<Rightarrow> Inr (writeByte ss LBC_CONSTANT_NIL)
      | CBoolean v \<Rightarrow> Inr (writeByte (writeByte ss LBC_CONSTANT_BOOLEAN) (if v then 1 else 0))
      | CNumber v \<Rightarrow> Inr (writeDouble (writeByte ss LBC_CONSTANT_NUMBER) v)
      | CInteger64 v \<Rightarrow>
          let ss = writeByte ss LBC_CONSTANT_INTEGER in
          if sint v < 0 then Inr (writeVarInt (writeByte ss 1) (NOT v + 1)) else Inr (writeVarInt (writeByte ss 0) v)
      | CVectorf x y z w \<Rightarrow> Inr (foldl writeFloat (writeByte ss LBC_CONSTANT_VECTOR) [x, y, z, w])
      | CVectord x y z w \<Rightarrow> Inr (foldl writeDouble (writeByte ss LBC_CONSTANT_VECTORD) [x, y, z, w])
      | CString v \<Rightarrow> Inr (writeUnsigned (writeByte ss LBC_CONSTANT_STRING) v)
      | CImport v \<Rightarrow> Inr (writeInt (writeByte ss LBC_CONSTANT_IMPORT) v)
      | CTable v \<Rightarrow>
          if v < length (bb_tableShapes b) then
            let shape = bb_tableShapes b ! v in
            if ts_hasConstants shape then
              let ss = writeSize (writeByte ss LBC_CONSTANT_TABLE_WITH_CONSTANTS) (length (ts_keys shape)) in
              Inr (foldl (\<lambda>ss (key, constant). writeInt (writeSigned ss key) constant) ss
                (zip (ts_keys shape) (ts_constants shape)))
            else
              Inr (foldl writeSigned (writeSize (writeByte ss LBC_CONSTANT_TABLE) (length (ts_keys shape))) (ts_keys shape))
          else Inl UndefinedAccess
      | CClosure v \<Rightarrow> Inr (writeUnsigned (writeByte ss LBC_CONSTANT_CLOSURE) v)
      | CClassShape v \<Rightarrow>
          if v < length (bb_classShapes b)
          then writeClassShape (writeByte ss LBC_CONSTANT_CLASS_SHAPE) (bb_classShapes b ! v) else Inl UndefinedAccess)"

definition writeTypeInfo :: "BytecodeBuilder \<Rightarrow> Function \<Rightarrow> bytes cpp" where
  "writeTypeInfo b func =
     (let ss = writeSize [] (length (f_typeinfo func));
          ss = writeSize ss (length (bb_typedUpvals b));
          ss = writeSize ss (length (bb_typedLocals b));
          ss = ss @ f_typeinfo func;
          ss = foldl writeByte ss (bb_typedUpvals b)
      in foldE (\<lambda>ss l.
           let ss = writeByte (writeByte ss (tl_type l)) (tl_reg l);
               ss = writeUnsigned ss (tl_startpc l) in
           bindE (guardE (tl_startpc l \<le> tl_endpc l) (AssertionFailed ''l.endpc >= l.startpc'')) (\<lambda>_.
           Inr (writeUnsigned ss (tl_endpc l - tl_startpc l)))) ss (bb_typedLocals b))"

definition writeDebugInfo :: "BytecodeBuilder \<Rightarrow> bytes \<Rightarrow> bytes" where
  "writeDebugInfo b ss =
     (if bb_debugLocals b \<noteq> [] \<or> bb_debugUpvals b \<noteq> [] then
        let ss = writeByte ss 1;
            ss = writeSize ss (length (bb_debugLocals b));
            ss = foldl (\<lambda>ss l.
              writeByte (writeUnsigned (writeUnsigned (writeUnsigned ss (dl_name l)) (dl_startpc l)) (dl_endpc l)) (dl_reg l))
              ss (bb_debugLocals b);
            ss = writeSize ss (length (bb_debugUpvals b))
        in foldl writeUnsigned ss (bb_debugUpvals b)
      else writeByte ss 0)"

definition writeFunction :: "bytes \<Rightarrow> nat \<Rightarrow> byte \<Rightarrow> u64 \<Rightarrow> u32 list \<Rightarrow> BytecodeBuilder \<Rightarrow> bytes cpp" where
  "writeFunction ss fid flags cost insns b =
     bindE (guardE (fid < length (bb_functions b)) (AssertionFailed ''id < functions.size()'')) (\<lambda>_.
     let func = bb_functions b ! fid;
         ss = writeByte ss (f_maxstacksize func);
         ss = writeByte ss (f_numparams func);
         ss = writeByte ss (f_numupvalues func);
         ss = writeByte ss (if f_isvararg func then 1 else 0);
         ss = writeByte ss flags in
     bindE (if f_typeinfo func \<noteq> [] \<or> bb_typedUpvals b \<noteq> [] \<or> bb_typedLocals b \<noteq> [] then
              bindE (writeTypeInfo b func) (\<lambda>info. Inr (writeSize ss (length info) @ info))
            else Inr (writeVarInt ss 0)) (\<lambda>ss.
     let ss = writeSize ss (length insns);
         ss = foldl writeInt ss insns;
         ss = writeSize ss (length (bb_constants b)) in
     bindE (foldE (writeConstant b) ss (bb_constants b)) (\<lambda>ss.
     let ss = writeSize ss (length (bb_protos b));
         ss = foldl writeUnsigned ss (bb_protos b);
         ss = writeSigned ss (f_debuglinedefined func);
         ss = writeUnsigned ss (f_debugname func) in
     bindE (if \<forall>line \<in> set (bb_lines b). line \<noteq> 0 then writeLineInfo (writeByte ss 1) (bb_lines b)
            else Inr (writeByte ss 0)) (\<lambda>ss.
     let ss = writeDebugInfo b ss;
         ss = writeVarInt ss (word_of_nat (length (bb_fbSlots b)));
         ss = foldl (\<lambda>ss pc. writeUnsigned (writeByte ss LFT_CALLTARGET) pc) ss (bb_fbSlots b)
     in Inr (if flags AND LPF_INLINABLE \<noteq> 0 then writeVarInt ss cost else ss)))))"

text \<open>\<^verbatim>\<open>endFunction\<close>; the encoder of the instructions is a parameter, the identity when there is none. The
  validation and the dump, which change nothing, are left out.\<close>

definition endFunction ::
  "(u32 list \<Rightarrow> u32 list) \<Rightarrow> byte \<Rightarrow> byte \<Rightarrow> byte \<Rightarrow> u64 \<Rightarrow> BytecodeBuilder \<Rightarrow> BytecodeBuilder cpp" where
  "endFunction encode maxstacksize numupvalues flags cost b =
     (case bb_currentFunction b of
        None \<Rightarrow> Inl (AssertionFailed ''currentFunction != ~0u'')
      | Some c \<Rightarrow>
          bindE (update_current (\<lambda>f. f\<lparr>f_maxstacksize := maxstacksize, f_numupvalues := numupvalues\<rparr>) b) (\<lambda>b.
          let insns = encode (bb_insns b) in
          bindE (writeFunction (f_data (bb_functions b ! c)) c flags cost insns b) (\<lambda>data.
          bindE (update_current (\<lambda>f. f\<lparr>f_data := data\<rparr>) b) (\<lambda>b.
          Inr (bb_clearState (b\<lparr>bb_currentFunction := None,
            bb_totalInstructionCount := bb_totalInstructionCount b + length insns\<rparr>))))))"

definition writeStringTable :: "bytes \<Rightarrow> (bytes \<times> nat) list \<Rightarrow> bytes cpp" where
  "writeStringTable ss table =
     bindE (foldE (\<lambda>strings (s, index).
         bindE (guardE (0 < index \<and> index \<le> length strings) (AssertionFailed ''p.second <= strings.size()'')) (\<lambda>_.
         Inr (strings[index - 1 := s]))) (replicate (length table) []) table) (\<lambda>strings.
     Inr (foldl (\<lambda>ss s. writeSize ss (length s) @ s) (writeSize ss (length strings)) strings))"

definition LWBC_MAGIC :: byte where "LWBC_MAGIC = 0xff"
definition LWBC_VERSION_TARGET :: byte where "LWBC_VERSION_TARGET = 1"
definition LWBC_VERSION_MIN :: byte where "LWBC_VERSION_MIN = 1"
definition LWBC_VERSION_MAX :: byte where "LWBC_VERSION_MAX = 1"
definition LWBC_VERSION_WIP :: byte where "LWBC_VERSION_WIP = 200"
definition LBC_TYPE_VERSION_TARGET :: byte where "LBC_TYPE_VERSION_TARGET = 3"

definition getVersion :: "bool \<Rightarrow> byte" where
  "getVersion luwuClasses = (if luwuClasses then LWBC_VERSION_WIP else LWBC_VERSION_TARGET)"

definition getTypeEncodingVersion :: byte where
  "getTypeEncodingVersion = LBC_TYPE_VERSION_TARGET"

text \<open>\<^verbatim>\<open>finalize\<close>: first the names of the used userdata types become strings, then the module is written.\<close>

fun name_userdata :: "UserdataType list \<Rightarrow> BytecodeBuilder \<Rightarrow> UserdataType list \<times> BytecodeBuilder" where
  "name_userdata [] b = ([], b)"
| "name_userdata (ty # tys) b =
     (let (ty, b) = (if ud_used ty then let (r, b) = addStringTableEntry (ud_name ty) b in (ty\<lparr>ud_nameRef := r\<rparr>, b) else (ty, b));
          (tys, b) = name_userdata tys b
      in (ty # tys, b))"

definition bb_finalize :: "bool \<Rightarrow> BytecodeBuilder \<Rightarrow> BytecodeBuilder cpp" where
  "bb_finalize luwuClasses b =
     bindE (guardE (bb_bytecode b = []) (AssertionFailed ''bytecode.empty()'')) (\<lambda>_.
     let (tys, b) = name_userdata (bb_userdataTypes b) b;
         b = b\<lparr>bb_userdataTypes := tys\<rparr>;
         ss = writeByte [LWBC_MAGIC] (getVersion luwuClasses);
         ss = writeByte ss getTypeEncodingVersion in
     bindE (writeStringTable ss (bb_stringTable b)) (\<lambda>ss.
     let ss = foldl (\<lambda>ss (i, ty). if ud_used ty then writeUnsigned (writeByte ss (word_of_nat (i + 1))) (ud_nameRef ty) else ss)
           ss (enumerate 0 tys);
         ss = writeByte ss 0;
         ss = writeSize ss (length (bb_functions b));
         ss = foldl (\<lambda>ss func. writeVarInt ss (word_of_nat (length (f_data func))) @ f_data func) ss (bb_functions b) in
     case bb_mainFunction b of
       None \<Rightarrow> Inl (AssertionFailed ''mainFunction < functions.size()'')
     | Some m \<Rightarrow>
         bindE (guardE (m < length (bb_functions b)) (AssertionFailed ''mainFunction < functions.size()'')) (\<lambda>_.
         Inr (b\<lparr>bb_bytecode := writeSize ss m\<rparr>))))"

end
