(* ===== verification/BytecodeLoader.thy ===== *)
theory BytecodeLoader
  imports BytecodeBuilder LuwuFloat
begin

text \<open>
  The loader of bytecode (\<^verbatim>\<open>VM/src/lvmload.cpp\<close>): it reads a module into protos, or refuses it with a
  message. Strings are their contents. What the loader asks of the running VM is a record of parameters.
\<close>

section \<open>Protos\<close>

text \<open>A class: the table \<^verbatim>\<open>memberstooffset\<close> is the list of its entries. The objects that do not depend on the
  shape (metatable, constructor, empty static members) are left out.\<close>

record LuauClass =
  lc_name :: bytes
  lc_numberofinstancemembers :: nat
  lc_offsettomember :: "bytes option list"
  lc_memberflags :: "byte list"
  lc_memberstooffset :: "(bytes \<times> nat) list"
  lc_initoffset :: nat
  lc_hasprivatemembers :: bool
  lc_hasconstmembers :: bool

text \<open>Constants. An object that the loader creates carries the index of its constant, which is its identity
  within the proto, and its content; \<open>KObject\<close> is an object that the globals hold. Vectors have three
  components of type \<^verbatim>\<open>float\<close>, as \<^verbatim>\<open>luaconf.h\<close> has them by default.\<close>

datatype KValue =
    KNil
  | KBoolean byte
  | KNumber double
  | KInteger u64
  | KVector u32 u32 u32
  | KString bytes
  | KObject nat
  | KTable nat "(KValue \<times> KValue) list"
  | KClosure nat nat
  | KClass nat LuauClass "KValue list option"

record LocVar =
  lv_varname :: "bytes option"
  lv_startpc :: u32
  lv_endpc :: u32
  lv_reg :: byte

record Proto =
  p_bytecodeid :: nat
  p_maxstacksize :: byte
  p_numparams :: byte
  p_nups :: byte
  p_is_vararg :: byte
  p_flags :: byte
  p_typeinfo :: bytes
  p_code :: "u32 list"
  p_k :: "KValue list"
  p_p :: "nat list"
  p_linedefined :: u32
  p_debugname :: "bytes option"
  p_lineinfo :: "(nat \<times> byte list \<times> int list) option"
  p_locvars :: "LocVar list"
  p_upvalues :: "bytes option list"
  p_feedbackvec :: "u32 list"
  p_cost :: u64

definition luaF_newproto :: "nat \<Rightarrow> Proto" where
  "luaF_newproto i = \<lparr>p_bytecodeid = i, p_maxstacksize = 0, p_numparams = 0, p_nups = 0, p_is_vararg = 0, p_flags = 0,
     p_typeinfo = [], p_code = [], p_k = [], p_p = [], p_linedefined = 0, p_debugname = None, p_lineinfo = None,
     p_locvars = [], p_upvalues = [], p_feedbackvec = [], p_cost = 0\<rparr>"

text \<open>\<^verbatim>\<open>luaG_getline\<close> of \<^verbatim>\<open>ldebug.cpp\<close>: the line of an instruction.\<close>

definition luaG_getline :: "Proto \<Rightarrow> nat \<Rightarrow> int" where
  "luaG_getline p pc =
     (case p_lineinfo p of None \<Rightarrow> 0
      | Some (linegaplog2, lineinfo, abslineinfo) \<Rightarrow> abslineinfo ! (pc div 2 ^ linegaplog2) + uint (lineinfo ! pc))"

text \<open>What the loader asks of the VM it runs in: whether the globals are safe to read ahead of time, the value of
  the table of globals, \<^verbatim>\<open>luaV_gettable\<close>, where an error has no value, and the callbacks of the
  host.\<close>

record load_env =
  le_safeenv :: bool
  le_globals :: KValue
  le_gettable :: "KValue \<Rightarrow> KValue \<Rightarrow> KValue option"
  le_gettypemapping :: "(bytes \<Rightarrow> byte) option"
  le_atom :: "(bytes \<Rightarrow> int) option"

text \<open>What the header says the module contains.\<close>

record BytecodeFeatures =
  bf_legacy :: bool
  bf_typeInfo :: bool
  bf_feedbackVector :: bool
  bf_protoSizePrefix :: bool
  bf_inlineCost :: bool

definition getLegacyFeatures :: "byte \<Rightarrow> BytecodeFeatures" where
  "getLegacyFeatures version = \<lparr>bf_legacy = True, bf_typeInfo = version \<ge> 4, bf_feedbackVector = version \<ge> 11,
     bf_protoSizePrefix = version \<ge> 12, bf_inlineCost = version \<ge> 12\<rparr>"

definition getLuwuFeatures :: BytecodeFeatures where
  "getLuwuFeatures = \<lparr>bf_legacy = False, bf_typeInfo = True, bf_feedbackVector = True, bf_protoSizePrefix = True,
     bf_inlineCost = True\<rparr>"

text \<open>The constants of \<^verbatim>\<open>Bytecode.h\<close> that the loader tests.\<close>

definition LBC_VERSION_MIN :: byte where "LBC_VERSION_MIN = 3"
definition LBC_VERSION_MAX :: byte where "LBC_VERSION_MAX = 12"
definition LBC_TYPE_VERSION_MIN :: byte where "LBC_TYPE_VERSION_MIN = 1"
definition LBC_TYPE_VERSION_MAX :: byte where "LBC_TYPE_VERSION_MAX = 3"
definition LBC_TYPE_FUNCTION :: byte where "LBC_TYPE_FUNCTION = 5"
definition LBC_TYPE_USERDATA :: byte where "LBC_TYPE_USERDATA = 7"
definition LBC_TYPE_ANY :: byte where "LBC_TYPE_ANY = 15"
definition LBC_TYPE_TAGGED_USERDATA_BASE :: byte where "LBC_TYPE_TAGGED_USERDATA_BASE = 64"
definition LBC_TYPE_TAGGED_USERDATA_END :: byte where "LBC_TYPE_TAGGED_USERDATA_END = 96"
definition LBC_TYPE_OPTIONAL_BIT :: byte where "LBC_TYPE_OPTIONAL_BIT = 128"
definition LBC_LEGACY_LAST_TYPE :: byte where "LBC_LEGACY_LAST_TYPE = 11"
definition LBC_LEGACY_LAST_OPCODE :: nat where "LBC_LEGACY_LAST_OPCODE = 88"
definition LBC_LEGACY_LAST_BUILTIN :: nat where "LBC_LEGACY_LAST_BUILTIN = 133"
definition LBC_CLASSMEMBER_PRIVATE :: byte where "LBC_CLASSMEMBER_PRIVATE = 1"
definition LBC_CLASSMEMBER_CONST :: byte where "LBC_CLASSMEMBER_CONST = 2"
definition LBC_CLASSMEMBER_INITBLOCKED :: byte where "LBC_CLASSMEMBER_INITBLOCKED = 128"

text \<open>Opcodes that carry a second word.\<close>

definition getOpLength :: "nat \<Rightarrow> nat" where
  "getOpLength op = (if op \<in> {7, 8, 12, 15, 16, 20, 27, 28, 29, 30, 31, 32, 53, 55, 58, 66, 74, 75, 60, 77, 78, 79, 80,
     83, 84, 85, 86, 87, 88, 90, 89, 91, 92, 93} then 2 else 1)"

lemma getOpLength_pos [simp]: "0 < getOpLength op"
  by (simp add: getOpLength_def)

section \<open>Checks and rewritings of a proto\<close>

definition insn_op :: "u32 \<Rightarrow> nat" where
  "insn_op insn = unat (insn AND 0xff)"

text \<open>\<^verbatim>\<open>visitTypeTags\<close> as the offsets it visits in the type information of a proto; what the callers do at
  these offsets does not change where the walk goes.\<close>

definition tellR :: "nat reader" where
  "tellR data offset = Inr (offset, offset)"

definition skipR :: "nat \<Rightarrow> unit reader" where
  "skipR n data offset = Inr ((), offset + n)"

definition visit_local :: "nat reader" where
  "visit_local = bindR tellR (\<lambda>tag. bindR (skipR 2) (\<lambda>_. bindR readVarInt (\<lambda>_. bindR readVarInt (\<lambda>_. returnR tag))))"

definition visitTypeTags :: "nat list reader" where
  "visitTypeTags =
     bindR readVarInt (\<lambda>typeSize.
     bindR readVarInt (\<lambda>upvalCount.
     bindR readVarInt (\<lambda>localCount.
     bindR tellR (\<lambda>types.
     bindR (skipR (unat typeSize)) (\<lambda>_.
     bindR tellR (\<lambda>upvals.
     bindR (skipR (unat upvalCount)) (\<lambda>_.
     bindR (repeatR (unat localCount) visit_local) (\<lambda>locals.
     returnR ([types + 2..<types + unat typeSize] @ [upvals..<upvals + unat upvalCount] @ locals)))))))))"

definition type_tags :: "bytes \<Rightarrow> read_error + nat list" where
  "type_tags data =
     bindE (visitTypeTags data 0) (\<lambda>(tags, offset).
     if \<forall>t \<in> set tags. t < length data then
       if offset = length data then Inr tags else Inl (Fault (AssertionFailed ''offset == size''))
     else Inl (Fault UndefinedAccess))"

definition remapUserdataTypes :: "bytes \<Rightarrow> bytes \<Rightarrow> read_error + bytes" where
  "remapUserdataTypes data userdataRemapping =
     bindE (type_tags data) (\<lambda>tags.
     Inr (foldl (\<lambda>data t.
       let index = unat (data ! t - LBC_TYPE_TAGGED_USERDATA_BASE) in
       if LBC_TYPE_TAGGED_USERDATA_BASE \<le> data ! t \<and> index < length userdataRemapping
       then data[t := userdataRemapping ! index] else data) data tags))"

definition legacy_tag :: "byte \<Rightarrow> bool" where
  "legacy_tag tag =
     (let base = tag AND NOT LBC_TYPE_OPTIONAL_BIT;
          isTaggedUserdata = LBC_TYPE_TAGGED_USERDATA_BASE \<le> base \<and> base < LBC_TYPE_TAGGED_USERDATA_END
      in base \<le> LBC_LEGACY_LAST_TYPE \<or> base = LBC_TYPE_ANY \<or> isTaggedUserdata)"

definition findNonLegacyTypeTag :: "bytes \<Rightarrow> read_error + nat option" where
  "findNonLegacyTypeTag typeinfo =
     bindE (type_tags typeinfo) (\<lambda>tags.
     Inr (map_option (\<lambda>t. unat (typeinfo ! t)) (find (\<lambda>t. \<not> legacy_tag (typeinfo ! t)) tags)))"

function findNonLegacyCode :: "byte \<Rightarrow> u32 list \<Rightarrow> nat \<Rightarrow> load_error option" where
  "findNonLegacyCode version code pc =
     (if pc < length code then
        let op = insn_op (code ! pc);
            isFastcall = op \<in> {68, 73, 74, 75, 60};
            a = unat (drop_bit 8 (code ! pc) AND 0xff)
        in if op > LBC_LEGACY_LAST_OPCODE then Some (NonLegacyOpcode version op)
           else if isFastcall \<and> a > LBC_LEGACY_LAST_BUILTIN then Some (NonLegacyBuiltin version a)
           else findNonLegacyCode version code (pc + getOpLength op)
      else None)"
  by pat_completeness auto
termination by (relation "measure (\<lambda>(version, code, pc). length code - pc)") (auto intro: diff_less_mono2)

text \<open>With direct access to userdata, accesses by a name with an atom change their opcode.\<close>

definition udata_opcode :: "nat \<Rightarrow> nat option" where
  "udata_opcode op = (if op = 15 then Some 83 else if op = 16 then Some 84 else if op = 20 then Some 85 else None)"

definition udata_insn :: "(bytes \<Rightarrow> int) \<Rightarrow> KValue list \<Rightarrow> u32 list \<Rightarrow> nat \<Rightarrow> u32 cpp" where
  "udata_insn atom k code pc =
     (case udata_opcode (insn_op (code ! pc)) of
        None \<Rightarrow> Inr (code ! pc)
      | Some targetOp \<Rightarrow>
          if pc + 1 < length code then
            let aux = unat (code ! (pc + 1)) in
            bindE (guardE (aux < length k) (AssertionFailed ''instruction[1] < uint32_t(sizek)'')) (\<lambda>_.
            if aux < 0x10000 then
              case k ! aux of
                KString s \<Rightarrow>
                  Inr (if atom s \<ge> 0 then (code ! pc AND 0xffffff00) OR word_of_nat targetOp else code ! pc)
              | _ \<Rightarrow> Inl (AssertionFailed ''ttisstring'')
            else Inr (code ! pc))
          else Inl UndefinedAccess)"

function udata_rewrite :: "(bytes \<Rightarrow> int) \<Rightarrow> KValue list \<Rightarrow> u32 list \<Rightarrow> nat \<Rightarrow> u32 list cpp" where
  "udata_rewrite atom k code pc =
     (if pc < length code then
        bindE (udata_insn atom k code pc) (\<lambda>insn.
        udata_rewrite atom k (code[pc := insn]) (pc + getOpLength (insn_op insn)))
      else Inr code)"
  by pat_completeness auto
termination by (relation "measure (\<lambda>(atom, k, code, pc). length code - pc)") (auto intro: diff_less_mono2)

declare findNonLegacyCode.simps [simp del] udata_rewrite.simps [simp del]

section \<open>Tables of constants\<close>

text \<open>\<^verbatim>\<open>luaO_rawequalKey\<close>; strings are interned and objects have identities.\<close>

definition flt_eq :: "u32 \<Rightarrow> u32 \<Rightarrow> bool" where
  "flt_eq x y = dbl_eq (dbl_of_flt x) (dbl_of_flt y)"

fun rawequal :: "KValue \<Rightarrow> KValue \<Rightarrow> bool" where
  "rawequal (KNumber x) (KNumber y) = dbl_eq x y"
| "rawequal (KVector x y z) (KVector x' y' z') = (flt_eq x x' \<and> flt_eq y y' \<and> flt_eq z z')"
| "rawequal (KTable i _) (KTable j _) = (i = j)"
| "rawequal (KClosure i _) (KClosure j _) = (i = j)"
| "rawequal (KClass i _ _) (KClass j _ _) = (i = j)"
| "rawequal v w = (v = w)"

text \<open>\<^verbatim>\<open>luaH_set\<close> followed by the assignment to the slot it returns. A key that is not there yet must not be nil or
  a NaN.\<close>

fun put_entry :: "('k \<Rightarrow> bool) \<Rightarrow> 'v \<Rightarrow> ('k \<times> 'v) list \<Rightarrow> ('k \<times> 'v) list option" where
  "put_entry p v [] = None"
| "put_entry p v ((k, w) # es) = (if p k then Some ((k, v) # es) else map_option (Cons (k, w)) (put_entry p v es))"

definition luaH_newkey_check :: "KValue \<Rightarrow> unit cpp" where
  "luaH_newkey_check key =
     (case key of
        KNil \<Rightarrow> Inl (Thrown ''table index is nil'')
      | KNumber x \<Rightarrow> guardE (dbl_eq x x) (Thrown ''table index is NaN'')
      | KVector x y z \<Rightarrow> guardE (flt_eq x x \<and> flt_eq y y \<and> flt_eq z z) (Thrown ''table index contains NaN'')
      | _ \<Rightarrow> Inr ())"

definition luaH_set_value :: "(KValue \<times> KValue) list \<Rightarrow> KValue \<Rightarrow> KValue \<Rightarrow> (KValue \<times> KValue) list cpp" where
  "luaH_set_value h key v =
     (case (if key = KNil then None else put_entry (\<lambda>k. rawequal k key) v h) of
        Some h \<Rightarrow> Inr h
      | None \<Rightarrow> bindE (luaH_newkey_check key) (\<lambda>_. Inr (h @ [(key, v)])))"

definition k_get :: "KValue list \<Rightarrow> u32 \<Rightarrow> KValue cpp" where
  "k_get k i = (if unat i < length k then Inr (k ! unat i) else Inl UndefinedAccess)"

text \<open>\<^verbatim>\<open>luaH_new\<close> with room for \<open>n\<close> entries in the hash part.\<close>

definition luaH_MAXBITS :: nat where "luaH_MAXBITS = 26"

definition luaH_room :: "nat \<Rightarrow> unit cpp" where
  "luaH_room n = guardE (n \<le> 2 ^ luaH_MAXBITS) (Thrown ''table overflow'')"

text \<open>The loop of \<^verbatim>\<open>LBC_CONSTANT_TABLE\<close> on a key, and that of \<^verbatim>\<open>LBC_CONSTANT_TABLE_WITH_CONSTANTS\<close> on a key and the
  index of its value; the keys whose value is nil are collected and set to nil at the end.\<close>

definition set_key :: "KValue list \<Rightarrow> (KValue \<times> KValue) list \<Rightarrow> u32 \<Rightarrow> (KValue \<times> KValue) list cpp" where
  "set_key k h key = bindE (k_get k key) (\<lambda>kv. luaH_set_value h kv (KNumber 0))"

definition set_key_constant ::
  "KValue list \<Rightarrow> (KValue \<times> KValue) list \<times> u32 list \<Rightarrow> u32 \<times> u32 \<Rightarrow> ((KValue \<times> KValue) list \<times> u32 list) cpp" where
  "set_key_constant k = (\<lambda>(h, nilKeys) (key, constantIdx).
     bindE (k_get k key) (\<lambda>kv.
     if sint constantIdx \<ge> 0 then
       bindE (k_get k constantIdx) (\<lambda>constant.
       if constant = KNil then bindE (luaH_set_value h kv (KNumber 0)) (\<lambda>h. Inr (h, nilKeys @ [key]))
       else bindE (luaH_set_value h kv constant) (\<lambda>h. Inr (h, nilKeys)))
     else bindE (luaH_set_value h kv (KNumber 0)) (\<lambda>h. Inr (h, nilKeys))))"

definition clear_nil_keys :: "KValue list \<Rightarrow> (KValue \<times> KValue) list \<times> u32 list \<Rightarrow> (KValue \<times> KValue) list cpp" where
  "clear_nil_keys k = (\<lambda>(h, nilKeys).
     foldE (\<lambda>h key. bindE (k_get k key) (\<lambda>kv. luaH_set_value h kv KNil)) h nilKeys)"

section \<open>Imports\<close>

definition luaV_getimport :: "load_env \<Rightarrow> KValue list \<Rightarrow> u32 \<Rightarrow> bool \<Rightarrow> KValue option cpp" where
  "luaV_getimport E k iid propagatenil =
     (let count' = unat (drop_bit 30 iid);
          id0 = drop_bit 20 iid AND 1023; id1 = drop_bit 10 iid AND 1023; id2 = iid AND 1023;
          step = (\<lambda>res id. case res of
              None \<Rightarrow> Inr None
            | Some v \<Rightarrow> if propagatenil \<and> v = KNil then Inr res
                        else bindE (k_get k id) (\<lambda>key. Inr (le_gettable E v key)))
      in bindE (guardE (count' > 0) (AssertionFailed ''count > 0'')) (\<lambda>_.
         bindE (k_get k id0) (\<lambda>key.
         let res = le_gettable E (le_globals E) key in
         if count' < 2 then Inr res
         else bindE (step res id1) (\<lambda>res.
         if count' < 3 then Inr res else step res id2))))"

definition resolveImportSafe :: "load_env \<Rightarrow> KValue list \<Rightarrow> u32 \<Rightarrow> KValue cpp" where
  "resolveImportSafe E k iid =
     (if le_safeenv E then
        bindE (luaV_getimport E k iid True) (\<lambda>res. Inr (case res of None \<Rightarrow> KNil | Some v \<Rightarrow> v))
      else Inr KNil)"

section \<open>Classes\<close>

text \<open>\<^verbatim>\<open>luaR_newclass\<close>, the members and \<^verbatim>\<open>luaR_sealclassshape\<close>.\<close>

definition luaR_newclass :: "bytes \<Rightarrow> nat \<Rightarrow> nat \<Rightarrow> bool \<Rightarrow> (LuauClass \<times> KValue list option) cpp" where
  "luaR_newclass name instance static hasdefaults =
     bindE (luaH_room (instance + static)) (\<lambda>_.
     Inr (\<lparr>lc_name = name, lc_numberofinstancemembers = instance,
         lc_offsettomember = replicate (instance + static) None, lc_memberflags = replicate (instance + static) 0,
         lc_memberstooffset = [], lc_initoffset = 0, lc_hasprivatemembers = False, lc_hasconstmembers = False\<rparr>,
       if hasdefaults then Some (replicate instance KNil) else None))"

definition init_name :: bytes where
  "init_name = [0x5f, 0x5f, 0x69, 0x6e, 0x69, 0x74]"

definition luaH_setstr_value :: "(bytes \<times> nat) list \<Rightarrow> bytes \<Rightarrow> nat \<Rightarrow> (bytes \<times> nat) list" where
  "luaH_setstr_value h key v = (case put_entry (\<lambda>k. k = key) v h of Some h \<Rightarrow> h | None \<Rightarrow> h @ [(key, v)])"

definition put_member :: "nat \<Rightarrow> bytes \<Rightarrow> byte \<Rightarrow> LuauClass \<Rightarrow> LuauClass cpp" where
  "put_member idx name flags c =
     (if idx < length (lc_offsettomember c) then
        Inr (c\<lparr>lc_offsettomember := (lc_offsettomember c)[idx := Some name],
          lc_memberflags := (lc_memberflags c)[idx := flags],
          lc_memberstooffset := luaH_setstr_value (lc_memberstooffset c) name idx\<rparr>)
      else Inl UndefinedAccess)"

definition luaR_sealclassshape :: "LuauClass \<Rightarrow> LuauClass cpp" where
  "luaR_sealclassshape c =
     bindE (guardE (\<forall>m \<in> set (lc_offsettomember c). m \<noteq> None) (AssertionFailed ''classdef->offsettomember[i]'')) (\<lambda>_.
     case map_of (lc_memberstooffset c) init_name of
       None \<Rightarrow> Inl (AssertionFailed ''!ttisnil(initoffset)'')
     | Some offset \<Rightarrow>
         bindE (guardE (lc_numberofinstancemembers c \<le> offset \<and> offset < length (lc_offsettomember c))
           (AssertionFailed ''initoffset'')) (\<lambda>_.
         Inr (c\<lparr>lc_hasprivatemembers := (\<exists>f \<in> set (lc_memberflags c). f AND LBC_CLASSMEMBER_PRIVATE \<noteq> 0),
           lc_hasconstmembers := (\<exists>f \<in> set (lc_memberflags c). f AND LBC_CLASSMEMBER_CONST \<noteq> 0),
           lc_initoffset := offset,
           lc_memberflags := (lc_memberflags c)[offset := lc_memberflags c ! offset OR LBC_CLASSMEMBER_INITBLOCKED],
           lc_offsettomember := (lc_offsettomember c)[offset := None]\<rparr>)))"

definition k_string :: "KValue list \<Rightarrow> u32 \<Rightarrow> bytes cpp" where
  "k_string k i =
     bindE (k_get k i) (\<lambda>v. case v of KString s \<Rightarrow> Inr s | _ \<Rightarrow> Inl (AssertionFailed ''ttisstring''))"

section \<open>Reading constants\<close>

text \<open>An \<^verbatim>\<open>int\<close> count of elements to allocate; a negative one is an enormous \<^verbatim>\<open>size_t\<close>.\<close>

definition array_size :: "u32 \<Rightarrow> nat cpp" where
  "array_size v = bindE (guardE (unat v < 2 ^ 31) (Thrown ''block too big'')) (\<lambda>_. Inr (unat v))"

definition read_array_size :: "nat reader" where
  "read_array_size = bindR readVarInt (\<lambda>v. liftR (array_size v))"

text \<open>\<^verbatim>\<open>readString\<close>; the elements of a \<^verbatim>\<open>TempBuffer\<close> are checked by an assertion.\<close>

definition string_ref :: "bytes list \<Rightarrow> u32 \<Rightarrow> bytes option cpp" where
  "string_ref strings i =
     (if i = 0 then Inr None
      else bindE (guardE (unat i - 1 < length strings) (AssertionFailed ''index < count'')) (\<lambda>_.
           Inr (Some (strings ! (unat i - 1)))))"

definition readString :: "bytes list \<Rightarrow> bytes option reader" where
  "readString strings = bindR readVarInt (\<lambda>i. liftR (string_ref strings i))"

text \<open>A proto that is loaded already: the buffer has room for all of them, but the later ones are uninitialised.\<close>

definition proto_ref :: "nat \<Rightarrow> Proto list \<Rightarrow> u32 \<Rightarrow> nat cpp" where
  "proto_ref protoCount protos fid =
     bindE (guardE (unat fid < protoCount) (AssertionFailed ''index < count'')) (\<lambda>_.
     if unat fid < length protos then Inr (unat fid) else Inl UndefinedAccess)"

definition peekR :: "'a reader \<Rightarrow> 'a reader" where
  "peekR r data offset = bindE (r data offset) (\<lambda>(x, _). Inr (x, offset))"

text \<open>The first pass over the members of a class looks for a custom \<^verbatim>\<open>__init\<close> and for constant defaults.\<close>

definition peek_member :: "KValue list \<Rightarrow> bool \<times> bool \<Rightarrow> (bool \<times> bool) reader" where
  "peek_member k = (\<lambda>(hasCustomInit, hasConstDefaults).
     bindR readVarInt (\<lambda>mid.
     bindR readVarInt (\<lambda>flags.
     bindR (liftR (k_string k mid)) (\<lambda>name.
     let hasCustomInit = (hasCustomInit \<or> name = init_name) in
     if flags AND ucast LBC_CLASSMEMBER_CONSTDEFAULT \<noteq> 0
     then bindR readVarInt (\<lambda>_. returnR (hasCustomInit, True))
     else returnR (hasCustomInit, hasConstDefaults)))))"

definition put_default :: "nat \<Rightarrow> nat \<Rightarrow> KValue \<Rightarrow> KValue list option \<Rightarrow> KValue list option cpp" where
  "put_default idx numProperties v defaults =
     (case defaults of
        None \<Rightarrow> Inl (AssertionFailed ''lco->memberdefaults'')
      | Some ds \<Rightarrow> bindE (guardE (idx < numProperties) (AssertionFailed ''idx < numProperties'')) (\<lambda>_.
                  if idx < length ds then Inr (Some (ds[idx := v])) else Inl UndefinedAccess))"

definition read_member ::
  "KValue list \<Rightarrow> nat \<Rightarrow> nat \<times> LuauClass \<times> KValue list option \<Rightarrow> (nat \<times> LuauClass \<times> KValue list option) reader" where
  "read_member k numProperties = (\<lambda>(idx, lco, defaults).
     bindR readVarInt (\<lambda>mid.
     bindR (liftR (k_string k mid)) (\<lambda>name.
     bindR readVarInt (\<lambda>flags.
     bindR (if (ucast flags :: byte) AND LBC_CLASSMEMBER_CONSTDEFAULT \<noteq> 0
            then bindR readVarInt (\<lambda>did. liftR (bindE (k_get k did) (\<lambda>v. put_default idx numProperties v defaults)))
            else returnR defaults) (\<lambda>defaults.
     bindR (liftR (put_member idx name (ucast flags) lco)) (\<lambda>lco.
     returnR (Suc idx, lco, defaults)))))))"

definition read_class_shape :: "nat \<Rightarrow> KValue list \<Rightarrow> KValue reader" where
  "read_class_shape j k =
     bindR readVarInt (\<lambda>cnid.
     bindR (liftR (k_string k cnid)) (\<lambda>classname.
     bindR readVarInt (\<lambda>numProperties.
     bindR readVarInt (\<lambda>numMethods.
     let numMembers = unat (numMethods + numProperties) in
     bindR (peekR (loopR numMembers (peek_member k) (False, False))) (\<lambda>(hasCustomInit, hasConstDefaults).
     let numStaticWithInit = (if hasCustomInit then numMethods else numMethods + 1) in
     bindR (liftR (luaR_newclass classname (unat numProperties) (unat numStaticWithInit) hasConstDefaults)) (\<lambda>(lco, defaults).
     bindR (loopR numMembers (read_member k (unat numProperties)) (0, lco, defaults)) (\<lambda>(_, lco, defaults).
     bindR (liftR (if hasCustomInit then Inr lco else put_member numMembers init_name 0 lco)) (\<lambda>lco.
     bindR (liftR (luaR_sealclassshape lco)) (\<lambda>lco.
     returnR (KClass j lco defaults))))))))))"

definition negated :: "bool \<Rightarrow> u64 \<Rightarrow> u64" where
  "negated isNegative magnitude = (if isNegative then NOT magnitude + 1 else magnitude)"

definition read_table :: "nat \<Rightarrow> KValue list \<Rightarrow> KValue reader" where
  "read_table j k =
     bindR readVarInt (\<lambda>keys.
     let n = nat (sint keys) in
     bindR (liftR (luaH_room n)) (\<lambda>_.
     bindR (loopR n (\<lambda>h. bindR readVarInt (\<lambda>key. liftR (set_key k h key))) []) (\<lambda>h.
     returnR (KTable j h))))"

definition read_table_with_constants :: "nat \<Rightarrow> KValue list \<Rightarrow> KValue reader" where
  "read_table_with_constants j k =
     bindR readVarInt (\<lambda>keys.
     bindR (liftR (luaH_room (nat (sint keys)))) (\<lambda>_.
     bindR (loopR (unat keys) (\<lambda>s.
         bindR readVarInt (\<lambda>key. bindR read_uint32 (\<lambda>constantIdx. liftR (set_key_constant k s (key, constantIdx)))))
       ([], [])) (\<lambda>s.
     bindR (liftR (clear_nil_keys k s)) (\<lambda>h.
     returnR (KTable j h)))))"

text \<open>What a constant is read in: the VM, the kind and version of the bytecode, the strings and the protos read so
  far.\<close>

record load_context =
  ld_env :: load_env
  ld_legacy :: bool
  ld_version :: byte
  ld_strings :: "bytes list"
  ld_protoCount :: nat
  ld_protos :: "Proto list"

definition read_tagged :: "load_context \<Rightarrow> nat \<Rightarrow> KValue list \<Rightarrow> byte \<Rightarrow> KValue reader" where
  "read_tagged C j k tag =
     (if tag = LBC_CONSTANT_NIL then returnR (k ! j)
     else if tag = LBC_CONSTANT_BOOLEAN then bindR read_uint8 (\<lambda>v. returnR (KBoolean v))
     else if tag = LBC_CONSTANT_NUMBER then bindR read_uint64 (\<lambda>v. returnR (KNumber v))
     else if tag = LBC_CONSTANT_VECTOR then
       bindR read_uint32 (\<lambda>x. bindR read_uint32 (\<lambda>y. bindR read_uint32 (\<lambda>z. bindR read_uint32 (\<lambda>w.
       returnR (KVector x y z)))))
     else if tag = LBC_CONSTANT_VECTORD then
       bindR read_uint64 (\<lambda>x. bindR read_uint64 (\<lambda>y. bindR read_uint64 (\<lambda>z. bindR read_uint64 (\<lambda>w.
       returnR (KVector (flt_of_dbl x) (flt_of_dbl y) (flt_of_dbl z))))))
     else if tag = LBC_CONSTANT_STRING then
       bindR (readString (ld_strings C)) (\<lambda>v. liftR (case v of Some s \<Rightarrow> Inr (KString s) | None \<Rightarrow> Inl UndefinedAccess))
     else if tag = LBC_CONSTANT_IMPORT then bindR read_uint32 (\<lambda>iid. liftR (resolveImportSafe (ld_env C) k iid))
     else if tag = LBC_CONSTANT_TABLE then read_table j k
     else if tag = LBC_CONSTANT_TABLE_WITH_CONSTANTS then read_table_with_constants j k
     else if tag = LBC_CONSTANT_CLOSURE then
       bindR readVarInt (\<lambda>fid. bindR (liftR (proto_ref (ld_protoCount C) (ld_protos C) fid)) (\<lambda>fid. returnR (KClosure j fid)))
     else if tag = LBC_CONSTANT_CLASS_SHAPE then
       if ld_legacy C then refuseR (LegacyClasses (ld_version C)) else read_class_shape j k
     else if tag = LBC_CONSTANT_INTEGER then
       bindR read_uint8 (\<lambda>isNegative. bindR readVarInt64 (\<lambda>magnitude.
       returnR (KInteger (negated (isNegative \<noteq> 0) magnitude))))
     else liftR (Inl (AssertionFailed ''Unexpected constant kind'')))"

definition read_constant :: "load_context \<Rightarrow> nat \<Rightarrow> KValue list \<Rightarrow> KValue reader" where
  "read_constant C j k = bindR read_uint8 (read_tagged C j k)"

definition read_constants :: "load_context \<Rightarrow> KValue list reader" where
  "read_constants C =
     bindR read_array_size (\<lambda>sizek.
     bindR (loopR sizek (\<lambda>(j, k). bindR (read_constant C j k) (\<lambda>v. returnR (Suc j, k[j := v]))) (0, replicate sizek KNil))
       (\<lambda>(_, k). returnR k))"

section \<open>Reading the rest of a proto\<close>

text \<open>A check or a rewriting of what has been read, which can fail in both ways.\<close>

definition embedR :: "read_error + 'a \<Rightarrow> 'a reader" where
  "embedR m data offset = bindE m (\<lambda>x. Inr (x, offset))"

definition read_typeinfo_v1 :: "byte \<Rightarrow> bytes reader" where
  "read_typeinfo_v1 numparams =
     bindR readVarInt (\<lambda>typesize.
     if typesize = 0 then returnR []
     else
       bindR (read_bytes (unat typesize)) (\<lambda>types.
       bindR (liftR (guardE (unat typesize = 2 + unat numparams) (AssertionFailed ''typesize == unsigned(2 + p->numparams)''))) (\<lambda>_.
       bindR (liftR (guardE (types ! 0 = LBC_TYPE_FUNCTION) (AssertionFailed ''types[0] == LBC_TYPE_FUNCTION''))) (\<lambda>_.
       bindR (liftR (guardE (types ! 1 = numparams) (AssertionFailed ''types[1] == p->numparams''))) (\<lambda>_.
       returnR ((if unat typesize > 127
                 then [ucast (typesize AND 127) OR 128, ucast (drop_bit 7 typesize), 0, 0]
                 else [ucast typesize, 0, 0]) @ types))))))"

definition read_typeinfo :: "byte \<Rightarrow> bytes \<Rightarrow> bytes reader" where
  "read_typeinfo typesversion userdataRemapping =
     bindR readVarInt (\<lambda>typesize.
     if typesize = 0 then returnR []
     else bindR (read_bytes (unat typesize)) (\<lambda>types.
       if typesversion = 3
       then embedR (remapUserdataTypes types userdataRemapping)
       else returnR types))"

text \<open>Line information: 8-bit offsets, each stored as the difference to the one before, and a base line for every
  span of instructions. The sum of the base lines is an \<^verbatim>\<open>int\<close>.\<close>

definition read_lineinfo :: "nat \<Rightarrow> (nat \<times> byte list \<times> int list) reader" where
  "read_lineinfo sizecode =
     bindR read_uint8 (\<lambda>g.
     let linegaplog2 = unat g in
     bindR (liftR (guardE (linegaplog2 < 32) UndefinedShift)) (\<lambda>_.
     let intervals = nat ((int sizecode - 1) div 2 ^ linegaplog2 + 1) in
     bindR (loopR sizecode (\<lambda>(lastoffset, xs). bindR read_uint8 (\<lambda>d. returnR (lastoffset + d, xs @ [lastoffset + d]))) (0, [])) (\<lambda>(_, lineinfo).
     bindR (loopR intervals (\<lambda>(lastline, xs). bindR read_uint32 (\<lambda>d.
         let line = lastline + sint d in
         bindR (liftR (guardE (- (2 ^ 31) \<le> line \<and> line < 2 ^ 31) UndefinedOverflow)) (\<lambda>_. returnR (line, xs @ [line])))) (0, [])) (\<lambda>(_, abslineinfo).
     returnR (linegaplog2, lineinfo, abslineinfo)))))"

definition read_locvar :: "bytes list \<Rightarrow> LocVar reader" where
  "read_locvar strings =
     bindR (readString strings) (\<lambda>varname.
     bindR readVarInt (\<lambda>startpc.
     bindR readVarInt (\<lambda>endpc.
     bindR read_uint8 (\<lambda>reg.
     returnR \<lparr>lv_varname = varname, lv_startpc = startpc, lv_endpc = endpc, lv_reg = reg\<rparr>))))"

definition read_debuginfo :: "bytes list \<Rightarrow> byte \<Rightarrow> (LocVar list \<times> bytes option list) reader" where
  "read_debuginfo strings nups =
     bindR read_array_size (\<lambda>sizelocvars.
     bindR (repeatR sizelocvars (read_locvar strings)) (\<lambda>locvars.
     bindR readVarInt (\<lambda>sizeupvalues.
     bindR (liftR (guardE (unat sizeupvalues = unat nups) (AssertionFailed ''sizeupvalues == p->nups''))) (\<lambda>_.
     bindR (repeatR (unat sizeupvalues) (readString strings)) (\<lambda>upvalues.
     returnR (locvars, upvalues))))))"

definition read_fbslot :: "u32 reader" where
  "read_fbslot =
     bindR read_uint8 (\<lambda>slottype.
     bindR (liftR (guardE (slottype = LFT_CALLTARGET) (AssertionFailed ''slottype == LFT_CALLTARGET''))) (\<lambda>_.
     readVarInt))"

definition legacy_check :: "byte \<Rightarrow> u32 list \<Rightarrow> bytes \<Rightarrow> read_error + unit" where
  "legacy_check version code typeinfo =
     (case findNonLegacyCode version code 0 of
        Some e \<Rightarrow> Inl (Refused e)
      | None \<Rightarrow>
          if typeinfo = [] then Inr ()
          else bindE (findNonLegacyTypeTag typeinfo) (\<lambda>tag.
               case tag of Some t \<Rightarrow> Inl (Refused (NonLegacyTypeTag version t)) | None \<Rightarrow> Inr ()))"

section \<open>Reading a proto and a module\<close>

definition read_proto_body :: "load_context \<Rightarrow> BytecodeFeatures \<Rightarrow> byte \<Rightarrow> bytes \<Rightarrow> Proto reader" where
  "read_proto_body C features typesversion userdataRemapping =
     bindR read_uint8 (\<lambda>maxstacksize.
     bindR read_uint8 (\<lambda>numparams.
     bindR read_uint8 (\<lambda>nups.
     bindR read_uint8 (\<lambda>is_vararg.
     bindR (if bf_typeInfo features then read_uint8 else returnR 0) (\<lambda>flags.
     bindR (if bf_typeInfo features then
              if typesversion = 1 then read_typeinfo_v1 numparams else read_typeinfo typesversion userdataRemapping
            else returnR []) (\<lambda>typeinfo.
     bindR read_array_size (\<lambda>sizecode.
     bindR (repeatR sizecode read_uint32) (\<lambda>code.
     bindR (if bf_legacy features then embedR (legacy_check (ld_version C) code typeinfo) else returnR ()) (\<lambda>_.
     bindR (read_constants C) (\<lambda>k.
     bindR (case le_atom (ld_env C) of None \<Rightarrow> returnR code | Some atom \<Rightarrow> liftR (udata_rewrite atom k code 0)) (\<lambda>code.
     bindR read_array_size (\<lambda>sizep.
     bindR (repeatR sizep (bindR readVarInt (\<lambda>fid. liftR (proto_ref (ld_protoCount C) (ld_protos C) fid)))) (\<lambda>ps.
     bindR readVarInt (\<lambda>linedefined.
     bindR (readString (ld_strings C)) (\<lambda>debugname.
     bindR read_uint8 (\<lambda>lineinfo.
     bindR (if lineinfo \<noteq> 0 then bindR (read_lineinfo sizecode) (\<lambda>l. returnR (Some l)) else returnR None) (\<lambda>lines.
     bindR read_uint8 (\<lambda>debuginfo.
     bindR (if debuginfo \<noteq> 0 then read_debuginfo (ld_strings C) nups else returnR ([], [])) (\<lambda>(locvars, upvalues).
     bindR (if bf_feedbackVector features then bindR readVarInt (\<lambda>n. repeatR (unat n) read_fbslot) else returnR []) (\<lambda>feedbackvec.
     bindR (if bf_inlineCost features \<and> flags AND LPF_INLINABLE \<noteq> 0 then readVarInt64 else returnR 0) (\<lambda>cost.
     returnR \<lparr>p_bytecodeid = length (ld_protos C), p_maxstacksize = maxstacksize, p_numparams = numparams, p_nups = nups,
       p_is_vararg = is_vararg, p_flags = flags, p_typeinfo = typeinfo, p_code = code, p_k = k, p_p = ps,
       p_linedefined = linedefined, p_debugname = debugname, p_lineinfo = lines, p_locvars = locvars,
       p_upvalues = upvalues, p_feedbackvec = feedbackvec, p_cost = cost\<rparr>)))))))))))))))))))))"

text \<open>A proto with its size in front: data behind the part that is understood is skipped.\<close>

definition seekR :: "nat \<Rightarrow> unit reader" where
  "seekR target data offset = Inr ((), target)"

definition read_proto :: "load_context \<Rightarrow> BytecodeFeatures \<Rightarrow> byte \<Rightarrow> bytes \<Rightarrow> Proto reader" where
  "read_proto C features typesversion userdataRemapping =
     (if bf_protoSizePrefix features then
        bindR readVarInt (\<lambda>protoSize.
        bindR tellR (\<lambda>protoStartOffset.
        bindR (read_proto_body C features typesversion userdataRemapping) (\<lambda>p.
        bindR (seekR (protoStartOffset + unat protoSize)) (\<lambda>_. returnR p))))
      else read_proto_body C features typesversion userdataRemapping)"

text \<open>The string table; \<^verbatim>\<open>luaS_newlstr\<close> limits the length of a string.\<close>

definition MAXSSIZE :: nat where "MAXSSIZE = 2 ^ 30"

definition read_string_entry :: "bytes reader" where
  "read_string_entry =
     bindR readVarInt (\<lambda>n.
     bindR (liftR (guardE (unat n \<le> MAXSSIZE) (Thrown ''string too big''))) (\<lambda>_.
     read_bytes (unat n)))"

definition read_strings :: "bytes list reader" where
  "read_strings = bindR readVarInt (\<lambda>stringCount. repeatR (unat stringCount) read_string_entry)"

definition userdataTypeLimit :: nat where
  "userdataTypeLimit = unat (LBC_TYPE_TAGGED_USERDATA_END - LBC_TYPE_TAGGED_USERDATA_BASE)"

text \<open>The names of the tagged userdata types, up to an index of 0.\<close>

definition put_userdata :: "load_env \<Rightarrow> bytes option \<Rightarrow> nat \<Rightarrow> bytes \<Rightarrow> bytes cpp" where
  "put_userdata E name i remapping =
     (if i < userdataTypeLimit then
        case le_gettypemapping E of
          None \<Rightarrow> Inr remapping
        | Some cb \<Rightarrow> (case name of None \<Rightarrow> Inl UndefinedAccess | Some s \<Rightarrow> Inr (remapping[i := cb s]))
      else Inr remapping)"

partial_function (option) userdata_loop ::
  "load_env \<Rightarrow> bytes list \<Rightarrow> bytes \<Rightarrow> bytes \<Rightarrow> nat \<Rightarrow> (read_error + bytes \<times> nat) option" where
  "userdata_loop E strings remapping data offset =
     (case read_uint8 data offset of
        Inl e \<Rightarrow> Some (Inl e)
      | Inr (index, offset) \<Rightarrow>
          if index = 0 then Some (Inr (remapping, offset))
          else case bindR (readString strings) (\<lambda>name. liftR (put_userdata E name (unat index - 1) remapping)) data offset of
              Inl e \<Rightarrow> Some (Inl e)
            | Inr (remapping, offset) \<Rightarrow> userdata_loop E strings remapping data offset)"

declare userdata_loop.simps [code]

definition read_userdata :: "load_env \<Rightarrow> bytes list \<Rightarrow> bytes reader" where
  "read_userdata E strings data offset =
     (case userdata_loop E strings (replicate userdataTypeLimit LBC_TYPE_USERDATA) data offset of
        None \<Rightarrow> Inl (Fault Diverges)
      | Some r \<Rightarrow> r)"

text \<open>The header: the version of the bytecode and what it contains.\<close>

definition read_version :: "byte \<Rightarrow> (byte \<times> BytecodeFeatures) reader" where
  "read_version version =
     (if version = LWBC_MAGIC then
        bindR read_uint8 (\<lambda>luwuVersion.
        if (LWBC_VERSION_MIN \<le> luwuVersion \<and> luwuVersion \<le> LWBC_VERSION_MAX) \<or> luwuVersion = LWBC_VERSION_WIP
        then returnR (version, getLuwuFeatures) else refuseR (UnknownLuwuVersion luwuVersion))
      else if LBC_VERSION_MIN \<le> version \<and> version \<le> LBC_VERSION_MAX then returnR (version, getLegacyFeatures version)
      else if version > LBC_VERSION_MAX then refuseR (NewerUpstreamVersion version)
      else refuseR (VersionMismatch version))"

definition read_typesversion :: "BytecodeFeatures \<Rightarrow> byte reader" where
  "read_typesversion features =
     (if bf_typeInfo features then
        bindR read_uint8 (\<lambda>typesversion.
        if typesversion < LBC_TYPE_VERSION_MIN \<or> typesversion > LBC_TYPE_VERSION_MAX
        then refuseR (TypeVersionMismatch typesversion) else returnR typesversion)
      else returnR 0)"

text \<open>The module: the protos and the index of the main one.\<close>

definition read_module :: "load_env \<Rightarrow> byte \<Rightarrow> (Proto list \<times> nat) reader" where
  "read_module E version =
     bindR (read_version version) (\<lambda>(version, features).
     bindR (read_typesversion features) (\<lambda>typesversion.
     bindR read_strings (\<lambda>strings.
     bindR (if typesversion = 3 then read_userdata E strings else returnR []) (\<lambda>userdataRemapping.
     bindR readVarInt (\<lambda>protoCount.
     bindR (loopR (unat protoCount) (\<lambda>protos.
         bindR (read_proto \<lparr>ld_env = E, ld_legacy = bf_legacy features, ld_version = version, ld_strings = strings,
             ld_protoCount = unat protoCount, ld_protos = protos\<rparr> features typesversion userdataRemapping)
           (\<lambda>p. returnR (protos @ [p]))) []) (\<lambda>protos.
     bindR readVarInt (\<lambda>mainid.
     bindR (liftR (guardE (unat mainid < length protos) (AssertionFailed ''index < count''))) (\<lambda>_.
     returnR (protos, unat mainid)))))))))"

definition loadsafe :: "load_env \<Rightarrow> bytes \<Rightarrow> read_error + Proto list \<times> nat" where
  "loadsafe E data =
     bindE (read_uint8 data 0) (\<lambda>(version, offset).
     if version = 0 then Inl (Refused (CompileError (drop offset data)))
     else bindE (read_module E version data offset) (\<lambda>(m, _). Inr m))"

text \<open>\<^verbatim>\<open>luau_load\<close> expects no error but running out of memory to reach it.\<close>

definition luau_load :: "load_env \<Rightarrow> bytes \<Rightarrow> read_error + Proto list \<times> nat" where
  "luau_load E data =
     (case loadsafe E data of
        Inl (Fault (Thrown _)) \<Rightarrow> Inl (Fault (AssertionFailed ''status == LUA_OK || status == LUA_ERRMEM''))
      | r \<Rightarrow> r)"

end
