(* ===== verification/LineInfo.thy ===== *)
theory LineInfo
  imports BytecodeLoader
begin

text \<open>
  The line information that the bytecode builder writes and the loader reads: the search for the span of instructions
  that share a base line ends with a span for which all deltas fit a byte, and reading back what was written
  gives the line of every instruction.
\<close>

section \<open>The span of the line information\<close>

text \<open>A block of \<open>span\<close> lines from \<open>offset\<close> on whose lines are within 255 of each other.\<close>

definition close_block :: "int list \<Rightarrow> nat \<Rightarrow> nat \<Rightarrow> bool" where
  "close_block lines span offset \<longleftrightarrow>
     (\<forall>i j. offset \<le> i \<and> i < offset + span \<and> i < length lines \<and> offset \<le> j \<and> j < offset + span \<and> j < length lines \<longrightarrow>
        lines ! i - lines ! j \<le> 255)"

definition spans_close :: "int list \<Rightarrow> nat \<Rightarrow> nat \<Rightarrow> bool" where
  "spans_close lines span offset \<longleftrightarrow> (\<forall>k. k * span < offset \<longrightarrow> close_block lines span (k * span))"

lemma close_block_mono: "close_block lines span offset \<Longrightarrow> offset \<le> offset' \<Longrightarrow> offset' + span' \<le> offset + span \<Longrightarrow>
  close_block lines span' offset'"
  unfolding close_block_def by (meson le_trans less_le_trans)

lemma scan_block_range:
  "mx - mn \<le> 255 \<Longrightarrow> \<exists>lo hi. lo \<le> mn \<and> mx \<le> hi \<and> hi - lo \<le> 255 \<and>
     (\<forall>x \<in> set (take (scan_block xs mn mx) xs). lo \<le> x \<and> x \<le> hi)"
proof (induction xs arbitrary: mn mx)
  case (Cons x xs)
  show ?case
  proof (cases "max mx x - min mn x > 255")
    case False
    then have "max mx x - min mn x \<le> 255" by simp
    from Cons.IH [OF this] obtain lo hi where "lo \<le> min mn x" "max mx x \<le> hi" "hi - lo \<le> 255"
      "\<forall>y \<in> set (take (scan_block xs (min mn x) (max mx x)) xs). lo \<le> y \<and> y \<le> hi" by blast
    with False show ?thesis by (intro exI [of _ lo] exI [of _ hi]) (auto simp: Let_def)
  next
    case True
    then show ?thesis using Cons.prems by (intro exI [of _ mn] exI [of _ mx]) (auto simp: Let_def)
  qed
qed auto

lemma scan_block_le: "scan_block xs mn mx \<le> length xs"
  by (induction xs arbitrary: mn mx) (auto simp: Let_def)

lemma scan_block_pos: "xs \<noteq> [] \<Longrightarrow> 0 < scan_block xs (hd xs) (hd xs)"
  by (cases xs) (auto simp: Let_def)

lemma scan_block_close:
  assumes "offset < length lines" "m = scan_block (take span (drop offset lines)) (lines ! offset) (lines ! offset)"
  shows "close_block lines m offset" "m \<le> span" "offset + m \<le> length lines"
proof -
  let ?xs = "take span (drop offset lines)"
  have m: "m \<le> length ?xs" unfolding assms(2) by (rule scan_block_le)
  then show "m \<le> span" "offset + m \<le> length lines" using assms(1) by auto
  obtain lo hi where r: "hi - lo \<le> 255" "\<forall>x \<in> set (take m ?xs). lo \<le> x \<and> x \<le> hi"
    using scan_block_range [of "lines ! offset" "lines ! offset" ?xs] unfolding assms(2) by auto
  have "lo \<le> lines ! i \<and> lines ! i \<le> hi" if i: "offset \<le> i" "i < offset + m" "i < length lines" for i
  proof -
    have "take m ?xs ! (i - offset) \<in> set (take m ?xs)" using i m by (intro nth_mem) auto
    moreover have "take m ?xs ! (i - offset) = lines ! i" using i m by simp
    ultimately show ?thesis using r(2) by metis
  qed
  with r(1) show "close_block lines m offset" unfolding close_block_def by (smt (verit))
qed

lemma log2_loop_bounds: "2 ^ r \<le> v \<Longrightarrow> 2 ^ log2_loop v r \<le> v \<and> v < 2 * 2 ^ log2_loop v r"
proof (induction v r rule: log2_loop.induct)
  case (1 v r)
  then show ?case by (subst (1 2) log2_loop.simps) auto
qed

lemma log2_loop_power: "r \<le> l \<Longrightarrow> log2_loop (2 ^ l) r = l"
proof (induction "(2::nat) ^ l" r rule: log2_loop.induct)
  case (1 r)
  show ?case
  proof (cases "r = l")
    case False
    then have "(2::nat) * 2 ^ r \<le> 2 ^ l"
      using 1(2) power_increasing [of "Suc r" l "2::nat"] by simp
    with 1 False show ?thesis by (subst log2_loop.simps) auto
  qed (subst log2_loop.simps, simp)
qed

lemma spans_close_shrink:
  assumes "spans_close lines span offset" "span' dvd span" "span dvd offset" "0 < span'"
  shows "spans_close lines span' offset"
  unfolding spans_close_def
proof (intro allI impI)
  fix k assume k: "k * span' < offset"
  obtain q where q: "span = span' * q" using assms(2) by (auto elim: dvdE)
  obtain p where p: "offset = span * p" using assms(3) by (auto elim: dvdE)
  have "0 < q" using k p q by (cases q) auto
  let ?k = "k div q"
  have 1: "?k * q \<le> k" "k < (?k + 1) * q" using \<open>0 < q\<close> by (auto simp: dividend_less_div_times)
  have "k < q * p" using k assms(4) unfolding p q by (simp add: mult.commute mult.left_commute)
  then have "?k < p" using \<open>0 < q\<close> by (simp add: less_mult_imp_div_less mult.commute)
  moreover have "0 < span" using \<open>0 < q\<close> assms(4) by (simp add: q)
  ultimately have "?k * span < offset" unfolding p by (simp add: mult.commute)
  with assms(1) have "close_block lines span (?k * span)" by (auto simp: spans_close_def)
  moreover have "?k * span \<le> k * span'" using 1(1) by (simp add: q mult.commute mult.left_commute)
  moreover have "k * span' + span' \<le> ?k * span + span"
  proof -
    have "(k + 1) * span' \<le> (?k + 1) * q * span'" using 1(2) by (intro mult_right_mono) auto
    then show ?thesis by (simp add: q algebra_simps)
  qed
  ultimately show "close_block lines span' (k * span')" by (rule close_block_mono)
qed

lemma spans_close_extend:
  assumes "spans_close lines span offset" "span dvd offset" "close_block lines span offset" "0 < span"
  shows "spans_close lines span (offset + span)"
  unfolding spans_close_def
proof (intro allI impI)
  fix k assume k: "k * span < offset + span"
  show "close_block lines span (k * span)"
  proof (cases "k * span < offset")
    case False
    obtain p where p: "offset = span * p" using assms(2) by (auto elim: dvdE)
    have "k * span < (p + 1) * span" using k unfolding p by (simp add: mult.commute)
    moreover have "p * span \<le> k * span" using False by (metis p mult.commute not_less)
    ultimately have "k < p + 1" "p \<le> k" using assms(4) by (metis mult_less_cancel2, metis mult_le_cancel2)
    then have "k = p" by simp
    then show ?thesis using assms(3) p by (simp add: mult.commute)
  qed (use assms(1) in \<open>auto simp: spans_close_def\<close>)
qed

text \<open>The loop ends with a power of two for which every block of lines is close.\<close>

lemma lines_span_ends:
  assumes "spans_close lines (2 ^ l) offset" "2 ^ l dvd offset"
  shows "\<exists>l' \<le> l. lines_span lines offset (2 ^ l) = Some (Inr (2 ^ l')) \<and> spans_close lines (2 ^ l') (length lines)"
  using assms
proof (induction "length lines - offset" arbitrary: offset l rule: less_induct)
  case less
  show ?case
  proof (cases "offset < length lines")
    case False
    then have "spans_close lines (2 ^ l) (length lines)"
      using less.prems(1) unfolding spans_close_def by (meson less_le_trans not_less)
    with False show ?thesis by (subst lines_span.simps) auto
  next
    case True
    define m where "m = scan_block (take (2 ^ l) (drop offset lines)) (lines ! offset) (lines ! offset)"
    note close = scan_block_close [OF True m_def]
    have pos: "0 < m"
      using scan_block_pos [of "take (2 ^ l) (drop offset lines)"] True by (simp add: m_def hd_drop_conv_nth hd_take)
    define shrink where "shrink \<longleftrightarrow> offset + m < length lines \<and> m < 2 ^ l"
    define l' where "l' = (if shrink then log2_loop m 0 else l)"
    have lm: "2 ^ log2_loop m 0 \<le> m" using log2_loop_bounds [of 0 m] pos by simp
    have "l' \<le> l"
    proof (cases shrink)
      case True
      then have "(2::nat) ^ log2_loop m 0 < 2 ^ l" using lm unfolding shrink_def by linarith
      then show ?thesis using True by (simp add: l'_def)
    qed (simp add: l'_def)
    have block: "close_block lines (2 ^ l') offset"
    proof (cases shrink)
      case True
      then show ?thesis using close_block_mono [OF close(1), of offset "2 ^ l'"] lm by (simp add: l'_def)
    next
      case False
      then have "offset + m = length lines \<or> m = 2 ^ l" using close(2,3) by (auto simp: shrink_def)
      then show ?thesis using close(1) False unfolding close_block_def l'_def by auto
    qed
    have dvd: "(2::nat) ^ l' dvd 2 ^ l" using \<open>l' \<le> l\<close> by (rule le_imp_power_dvd)
    have "spans_close lines (2 ^ l') offset"
      using spans_close_shrink [OF less.prems(1) dvd less.prems(2)] by simp
    moreover have "2 ^ l' dvd offset" using dvd less.prems(2) by (rule dvd_trans)
    ultimately have stp: "spans_close lines (2 ^ l') (offset + 2 ^ l')" "2 ^ l' dvd offset + 2 ^ l'"
      using block by (auto intro: spans_close_extend)
    have "lines_span lines offset (2 ^ l) = lines_span lines (offset + 2 ^ l') (2 ^ l')"
      using True pos by (subst lines_span.simps) (auto simp: Let_def m_def [symmetric] bb_log2_def l'_def shrink_def)
    moreover have "length lines - (offset + 2 ^ l') < length lines - offset" using True by (simp add: diff_less_mono2)
    ultimately show ?thesis using less.hyps [OF _ stp] \<open>l' \<le> l\<close> by (metis le_trans)
  qed
qed

lemma calcLinesSpan_ends:
  assumes "lines \<noteq> []"
  shows "\<exists>l \<le> 24. calcLinesSpan lines = Inr (2 ^ l) \<and> spans_close lines (2 ^ l) (length lines)"
proof -
  have "spans_close lines (2 ^ 24) 0" by (simp add: spans_close_def)
  from lines_span_ends [OF this] assms show ?thesis by (force simp: calcLinesSpan_def terminates_def)
qed

section \<open>Line information\<close>

definition block_min :: "int list \<Rightarrow> nat \<Rightarrow> nat \<Rightarrow> int" where
  "block_min lines span k = foldl min (lines ! (k * span)) (take span (drop (k * span) lines))"

definition block_count :: "int list \<Rightarrow> nat \<Rightarrow> nat" where
  "block_count lines span = (length lines - 1) div span + 1"

lemma block_count_eq:
  assumes "lines \<noteq> []" "0 < span"
  shows "(length lines + span - 1) div span = block_count lines span"
proof -
  have "length lines + span - 1 = (length lines - 1) + span" using assms(1) by (cases lines) auto
  then show ?thesis using assms(2) unfolding block_count_def by (metis div_add_self2 neq0_conv less_irrefl)
qed

lemma block_inside: "lines \<noteq> [] \<Longrightarrow> 0 < span \<Longrightarrow> k < block_count lines span \<Longrightarrow> k * span < length lines"
proof -
  assume "lines \<noteq> []" "0 < span" "k < block_count lines span"
  then have "k * span \<le> (length lines - 1) div span * span" by (intro mult_le_mono1) (simp add: block_count_def)
  also have "\<dots> \<le> length lines - 1" by simp
  finally show ?thesis using \<open>lines \<noteq> []\<close> by (cases lines) auto
qed

lemma foldl_min: "foldl min (x :: int) xs = Min (insert x (set xs))"
proof (induction xs arbitrary: x)
  case (Cons y xs)
  then have "foldl min x (y # xs) = Min (insert (min x y) (set xs))" by simp
  also have "\<dots> = Min (insert x (insert y (set xs)))" by (cases "xs = []") (auto simp: min.assoc)
  finally show ?case by simp
qed simp

lemma foldE_fill: "n \<le> length xs \<Longrightarrow> foldE (\<lambda>xs k. if k < length xs then Inr (xs[k := f k]) else Inl e) xs [0..<n] =
  Inr (map (\<lambda>k. if k < n then f k else xs ! k) [0..<length xs])"
proof (induction n)
  case (Suc n)
  then show ?case by (auto simp: foldE_snoc intro!: nth_equalityI simp: nth_list_update)
qed (simp add: map_nth)

lemma foldE_fill_all: "foldE (\<lambda>xs k. if k < length xs then Inr (xs[k := f k]) else Inl e) (replicate n x) [0..<n] =
  Inr (map f [0..<n])"
  using foldE_fill [of n "replicate n x" f e] by (simp cong: map_cong)

lemma fillBaselineInfo_mins:
  assumes "lines \<noteq> []" "0 < span"
  shows "fillBaselineInfo lines span (replicate (block_count lines span) 0) =
    Inr (map (block_min lines span) [0..<block_count lines span])"
proof -
  have "fillBaselineInfo lines span (replicate (block_count lines span) 0) =
    foldE (\<lambda>xs k. if k < length xs then Inr (xs[k := block_min lines span k]) else Inl UndefinedAccess)
      (replicate (block_count lines span) 0) [0..<block_count lines span]"
    unfolding fillBaselineInfo_def block_count_eq [OF assms] Let_def block_min_def using assms(2) by (simp cong: if_cong)
  then show ?thesis by (simp only: foldE_fill_all)
qed

lemma block_delta:
  assumes "spans_close lines span (length lines)" "i < length lines" "0 < span"
  shows "0 \<le> lines ! i - block_min lines span (i div span)" "lines ! i - block_min lines span (i div span) \<le> 255"
    "block_min lines span (i div span) \<in> set lines"
proof -
  let ?o = "i div span * span" and ?xs = "take span (drop (i div span * span) lines)"
  have o: "?o \<le> i" "i < ?o + span" using assms(3) by (auto simp: dividend_less_div_times add.commute)
  have "?o < length lines" using o(1) assms(2) by (rule le_less_trans)
  have nth: "j < length ?xs \<Longrightarrow> ?xs ! j = lines ! (?o + j)" for j using \<open>?o < length lines\<close> by simp
  have "i - ?o < length ?xs" using o assms(2) by (auto simp only: length_take length_drop)
  then have "?xs ! (i - ?o) \<in> set ?xs" by (rule nth_mem)
  then have i: "lines ! i \<in> set ?xs" using o assms(2) by simp
  have "?xs ! 0 \<in> set ?xs" using \<open>?o < length lines\<close> assms(3) by (intro nth_mem) auto
  then have "lines ! ?o \<in> set ?xs" using \<open>?o < length lines\<close> assms(3) by simp
  then have min: "block_min lines span (i div span) = Min (set ?xs)"
    unfolding block_min_def foldl_min by (simp add: insert_absorb)
  with i show "0 \<le> lines ! i - block_min lines span (i div span)" by simp
  have "Min (set ?xs) \<in> set ?xs" using i by (metis Min_in List.finite_set empty_iff)
  then obtain j where j: "j < length ?xs" "Min (set ?xs) = ?xs ! j" by (metis in_set_conv_nth)
  then have "Min (set ?xs) = lines ! (?o + j)" "?o + j < length lines" "j < span" by auto
  moreover have "close_block lines span ?o" using assms(1) \<open>?o < length lines\<close> by (auto simp: spans_close_def)
  ultimately show "lines ! i - block_min lines span (i div span) \<le> 255" "block_min lines span (i div span) \<in> set lines"
    using o assms(2) unfolding min close_block_def by auto
qed

text \<open>Differences to the value before, and their sums.\<close>

fun before :: "'a :: zero \<Rightarrow> (nat \<Rightarrow> 'a) \<Rightarrow> nat \<Rightarrow> 'a" where
  "before z f 0 = z"
| "before z f (Suc i) = f i"

lemma offsets_written:
  assumes "\<And>i. i < n \<Longrightarrow> 0 \<le> d i \<and> d i \<le> (255 :: int)"
  shows "foldE (\<lambda>(ss, lastOffset) i. let delta = d i in
      bindE (guardE (0 \<le> delta \<and> delta \<le> 255) e) (\<lambda>_. Inr (writeByte ss (word_of_int delta - lastOffset), word_of_int delta)))
    (ss, 0) [0..<n] =
    Inr (ss @ map (\<lambda>i. word_of_int (d i) - before 0 (\<lambda>i. word_of_int (d i)) i) [0..<n], before 0 (\<lambda>i. word_of_int (d i)) n)"
  using assms
proof (induction n)
  case (Suc n)
  then have "foldE (\<lambda>(ss, lastOffset) i. let delta = d i in
      bindE (guardE (0 \<le> delta \<and> delta \<le> 255) e) (\<lambda>_. Inr (writeByte ss (word_of_int delta - lastOffset), word_of_int delta)))
    (ss, 0) [0..<n] =
    Inr (ss @ map (\<lambda>i. word_of_int (d i) - before 0 (\<lambda>i. word_of_int (d i)) i) [0..<n], before 0 (\<lambda>i. word_of_int (d i)) n)"
    by simp
  then show ?case using Suc.prems [of n] by (simp add: foldE_snoc writeByte_def Let_def)
qed simp

lemma baseline_written:
  "foldl (\<lambda>(ss, lastLine) line. (writeInt ss (word_of_int (line - lastLine)), line)) (ss, 0) (map b [0..<n]) =
   (ss @ concat (map (\<lambda>k. le_bytes 4 (unat (word_of_int (b k - before 0 b k) :: u32))) [0..<n]), before 0 b n)"
  by (induction n) (auto simp: writeInt_def)

lemma decodes_offsets:
  "decodes (loopR n (\<lambda>(lastoffset, xs). bindR read_uint8 (\<lambda>d. returnR (lastoffset + d, xs @ [lastoffset + d]))) (0, []))
     (map (\<lambda>i. f i - before 0 f i) [0..<n]) (before 0 f n, map f [0..<n])"
proof -
  have "decodes (bindR read_uint8 (\<lambda>d. returnR (before 0 f i + d, map f [0..<i] @ [before 0 f i + d])))
      [f i - before 0 f i] (before 0 f (Suc i), map f [0..<Suc i])" for i
    by (rule decodes_bind_return [OF decodes_uint8]) simp
  then have "decodes (loopR n (\<lambda>(lastoffset, xs). bindR read_uint8 (\<lambda>d. returnR (lastoffset + d, xs @ [lastoffset + d])))
      (before 0 f 0, map f [0..<0])) (concat (map (\<lambda>i. [f i - before 0 f i]) [0..<n])) (before 0 f n, map f [0..<n])"
    by (intro decodes_loop [where s = "\<lambda>i. (before 0 f i, map f [0..<i])"]) simp
  moreover have "concat (map (\<lambda>i. [f i - before 0 f i]) [0..<n]) = map (\<lambda>i. f i - before 0 f i) [0..<n]"
    by (induction n) auto
  ultimately show ?thesis by simp
qed

lemma sint_of_int32: "- (2 ^ 31) \<le> i \<Longrightarrow> i < 2 ^ 31 \<Longrightarrow> sint (word_of_int i :: u32) = i"
  by (simp add: signed_take_bit_int_eq_self sint_sbintrunc')

lemma decodes_baseline:
  assumes "\<And>k. k < n \<Longrightarrow> 0 \<le> b k \<and> b k < 2 ^ 31"
  shows "decodes (loopR n (\<lambda>(lastline, xs). bindR read_uint32 (\<lambda>d. let line = lastline + sint d in
      bindR (liftR (guardE (- (2 ^ 31) \<le> line \<and> line < 2 ^ 31) e)) (\<lambda>_. returnR (line, xs @ [line])))) (0, []))
    (concat (map (\<lambda>k. le_bytes 4 (unat (word_of_int (b k - before 0 b k) :: u32))) [0..<n])) (before 0 b n, map b [0..<n])"
proof -
  have "decodes (bindR read_uint32 (\<lambda>d. let line = before 0 b k + sint d in
      bindR (liftR (guardE (- (2 ^ 31) \<le> line \<and> line < 2 ^ 31) e)) (\<lambda>_. returnR (line, map b [0..<k] @ [line]))))
      (le_bytes 4 (unat (word_of_int (b k - before 0 b k) :: u32))) (before 0 b (Suc k), map b [0..<Suc k])" if k: "k < n" for k
  proof -
    have "0 \<le> before 0 b k \<and> before 0 b k < 2 ^ 31" using assms [of "k - 1"] k by (cases k) auto
    with assms [OF k] have s: "sint (word_of_int (b k - before 0 b k) :: u32) = b k - before 0 b k"
      by (intro sint_of_int32) auto
    let ?w = "word_of_int (b k - before 0 b k) :: u32" and ?f = "\<lambda>d. let line = before 0 b k + sint d in
      bindR (liftR (guardE (- (2 ^ 31) \<le> line \<and> line < 2 ^ 31) e)) (\<lambda>_. returnR (line, map b [0..<k] @ [line]))"
    have f: "?f ?w = bindR (liftR (guardE (- (2 ^ 31) \<le> b k \<and> b k < 2 ^ 31) e)) (\<lambda>_. returnR (b k, map b [0..<k] @ [b k]))"
      unfolding Let_def s by simp
    have "decodes (?f ?w) [] (b k, map b [0..<k] @ [b k])"
      unfolding f using assms [OF k] by (intro decodes_bind_lift decodes_return) auto
    then have "decodes (?f ?w) [] (before 0 b (Suc k), map b [0..<Suc k])" by (simp del: Let_def)
    from decodes_bind [of read_uint32 _ ?w ?f, OF decodes_uint32 this] show ?thesis unfolding append_Nil2 .
  qed
  then have "decodes (loopR n (\<lambda>(lastline, xs). bindR read_uint32 (\<lambda>d. let line = lastline + sint d in
      bindR (liftR (guardE (- (2 ^ 31) \<le> line \<and> line < 2 ^ 31) e)) (\<lambda>_. returnR (line, xs @ [line]))))
      (before 0 b 0, map b [0..<0]))
    (concat (map (\<lambda>k. le_bytes 4 (unat (word_of_int (b k - before 0 b k) :: u32))) [0..<n])) (before 0 b n, map b [0..<n])"
    by (intro decodes_loop [where s = "\<lambda>k. (before 0 b k, map b [0..<k])"]) simp
  then show ?thesis by simp
qed

lemma foldE_cong: "(\<And>x s. x \<in> set xs \<Longrightarrow> f s x = g s x) \<Longrightarrow> foldE f s xs = foldE g s xs"
  by (induction xs arbitrary: s) (auto intro: bindE_cong)

lemma read_intervals:
  assumes "lines \<noteq> []"
  shows "nat ((int (length lines) - 1) div 2 ^ l + 1) = block_count lines (2 ^ l)"
proof -
  have "int (length lines) - 1 = int (length lines - 1)" using assms by (cases lines) auto
  moreover have "int ((length lines - 1) div 2 ^ l) = int (length lines - 1) div 2 ^ l"
    by (simp only: zdiv_int of_nat_power of_nat_numeral)
  ultimately have "(int (length lines) - 1) div 2 ^ l + 1 = int (block_count lines (2 ^ l))"
    by (simp only: block_count_def of_nat_add of_nat_1)
  then show ?thesis by (simp only: nat_int)
qed

lemma line_value:
  assumes "0 \<le> lines ! i - m" "lines ! i - m \<le> 255"
  shows "m + uint (word_of_int (lines ! i - m) :: byte) = lines ! i"
proof -
  have "uint (word_of_int (lines ! i - m) :: byte) = (lines ! i - m) mod 2 ^ 8" by (simp only: uint_word_of_int) simp
  also have "\<dots> = lines ! i - m" using assms by (intro mod_pos_pos_trivial) auto
  finally show ?thesis by simp
qed

text \<open>The bytes of the line information, and what the loader makes of them.\<close>

definition line_delta :: "int list \<Rightarrow> nat \<Rightarrow> nat \<Rightarrow> int" where
  "line_delta lines l i = lines ! i - block_min lines (2 ^ l) (i div 2 ^ l)"

definition lineinfo_bytes :: "int list \<Rightarrow> nat \<Rightarrow> bytes" where
  "lineinfo_bytes lines l =
     [word_of_nat l] @
     map (\<lambda>i. word_of_int (line_delta lines l i) - before 0 (\<lambda>i. word_of_int (line_delta lines l i)) i) [0..<length lines] @
     concat (map (\<lambda>k. le_bytes 4 (unat (word_of_int
       (block_min lines (2 ^ l) k - before 0 (block_min lines (2 ^ l)) k) :: u32))) [0..<block_count lines (2 ^ l)])"

definition lineinfo_of :: "int list \<Rightarrow> nat \<Rightarrow> nat \<times> byte list \<times> int list" where
  "lineinfo_of lines l = (l, map (\<lambda>i. word_of_int (line_delta lines l i)) [0..<length lines],
     map (block_min lines (2 ^ l)) [0..<block_count lines (2 ^ l)])"

definition good_span :: "int list \<Rightarrow> nat \<Rightarrow> bool" where
  "good_span lines l \<longleftrightarrow> l \<le> 24 \<and> lines \<noteq> [] \<and> calcLinesSpan lines = Inr (2 ^ l) \<and> spans_close lines (2 ^ l) (length lines)"

lemma good_span_exists: "lines \<noteq> [] \<Longrightarrow> \<exists>l. good_span lines l"
  using calcLinesSpan_ends [of lines] by (auto simp: good_span_def)

lemma line_delta_range:
  assumes "good_span lines l" "i < length lines"
  shows "0 \<le> line_delta lines l i" "line_delta lines l i \<le> 255" "i div 2 ^ l < block_count lines (2 ^ l)"
  using block_delta [of lines "2 ^ l" i] assms
  by (auto simp: good_span_def line_delta_def block_count_def div_le_mono less_Suc_eq_le)

lemma offsets_from_baseline:
  assumes "good_span lines l"
  shows "foldE (\<lambda>(ss, lastOffset) i.
      let delta = lines ! i - map (block_min lines (2 ^ l)) [0..<block_count lines (2 ^ l)] ! (i div 2 ^ l) in
      bindE (guardE (0 \<le> delta \<and> delta \<le> 255) e) (\<lambda>_.
      Inr (writeByte ss (word_of_int delta - lastOffset), word_of_int delta))) (ss, 0) [0..<length lines] =
    Inr (ss @ map (\<lambda>i. word_of_int (line_delta lines l i) - before 0 (\<lambda>i. word_of_int (line_delta lines l i)) i)
        [0..<length lines], before 0 (\<lambda>i. word_of_int (line_delta lines l i)) (length lines))"
    (is "foldE ?f _ _ = _")
proof -
  have "foldE ?f (ss, 0) [0..<length lines] = foldE (\<lambda>(ss, lastOffset) i. let delta = line_delta lines l i in
      bindE (guardE (0 \<le> delta \<and> delta \<le> 255) e) (\<lambda>_.
      Inr (writeByte ss (word_of_int delta - lastOffset), word_of_int delta))) (ss, 0) [0..<length lines]"
    using line_delta_range [OF assms] by (intro foldE_cong) (auto simp: line_delta_def)
  then show ?thesis using line_delta_range [OF assms] by (simp only: offsets_written)
qed

lemma lineinfo_written: "good_span lines l \<Longrightarrow> writeLineInfo ss lines = Inr (ss @ lineinfo_bytes lines l)"
proof -
  assume good: "good_span lines l"
  then have lines: "lines \<noteq> []" "calcLinesSpan lines = Inr (2 ^ l)" by (auto simp: good_span_def)
  have log: "bb_log2 (2 ^ l) = Inr l" by (simp add: bb_log2_def log2_loop_power)
  show ?thesis
    unfolding writeLineInfo_def lines(2) bindE_simps Let_def block_count_def [symmetric]
      fillBaselineInfo_mins [OF lines(1) zero_less_power [OF zero_less_numeral]] log
      offsets_from_baseline [OF good, unfolded Let_def] prod.case baseline_written fst_conv
    by (simp add: lineinfo_bytes_def writeByte_def)
qed

lemma lineinfo_decoded:
  assumes "good_span lines l" "\<forall>line \<in> set lines. 0 \<le> line \<and> line < 2 ^ 31"
  shows "decodes (read_lineinfo (length lines)) (lineinfo_bytes lines l) (lineinfo_of lines l)"
proof -
  have l: "l \<le> 24" "lines \<noteq> []" "spans_close lines (2 ^ l) (length lines)" using assms(1) by (auto simp: good_span_def)
  have base: "0 \<le> block_min lines (2 ^ l) k \<and> block_min lines (2 ^ l) k < 2 ^ 31" if "k < block_count lines (2 ^ l)" for k
    using block_delta(3) [OF l(3) block_inside [OF l(2) _ that]] assms(2) by auto
  have unat_l: "unat (word_of_nat l :: byte) = l" using l(1) by (simp add: unat_byte_of_nat)
  have "decodes (read_lineinfo (length lines)) (lineinfo_bytes lines l @ []) (lineinfo_of lines l)"
    unfolding read_lineinfo_def lineinfo_bytes_def append_assoc
    apply (rule decodes_bind [OF decodes_uint8])
    unfolding Let_def unat_l read_intervals [OF l(2)]
    apply (rule decodes_bind_lift)
     apply (use l(1) in simp)
    apply (rule decodes_bind [OF decodes_offsets])
    unfolding prod.case
    apply (rule decodes_bind [OF decodes_baseline [unfolded Let_def]])
     apply (rule base, assumption)
    apply (simp add: decodes_return lineinfo_of_def)
    done
  then show ?thesis by simp
qed

lemma getline_lineinfo:
  assumes "good_span lines l" "p_lineinfo p = Some (lineinfo_of lines l)" "pc < length lines"
  shows "luaG_getline p pc = lines ! pc"
  using line_delta_range [OF assms(1,3)] line_value [of lines pc "block_min lines (2 ^ l) (pc div 2 ^ l)"] assms(2,3)
  by (simp add: luaG_getline_def lineinfo_of_def line_delta_def)

end
