(* ===== verification/BytecodeRoundTrip.thy ===== *)
theory BytecodeRoundTrip
  imports LineInfo
begin

text \<open>
  The loader gives back what the builder was told. Constants denote values; a function in which every reference is
  valid is read back as the proto \<open>loads_as\<close> describes; the string table keeps what was added to it; and
  loading a finalized module returns the protos of its functions.
\<close>

section \<open>What constants denote\<close>

text \<open>The members of a class: index of the name, flags, and index of the default of a property that has one.\<close>

definition class_members :: "ClassShape \<Rightarrow> (u32 \<times> byte \<times> u32 option) list" where
  "class_members cs =
     map (\<lambda>i. (cs_propertyNames cs ! i, cs_propertyFlags cs ! i,
         if cs_propertyFlags cs ! i AND LBC_CLASSMEMBER_CONSTDEFAULT \<noteq> 0 then Some (cs_propertyDefaults cs ! i) else None))
       [0..<length (cs_propertyNames cs)] @
     map (\<lambda>(name, flags). (name, flags, None)) (zip (cs_methodNames cs) (cs_methodFlags cs))"

definition add_member ::
  "KValue list \<Rightarrow> nat \<Rightarrow> nat \<times> LuauClass \<times> KValue list option \<Rightarrow> u32 \<times> byte \<times> u32 option \<Rightarrow> (nat \<times> LuauClass \<times> KValue list option) cpp" where
  "add_member k numProperties = (\<lambda>(idx, lco, defaults) (mid, flags, did).
     bindE (k_string k mid) (\<lambda>name.
     bindE (case did of None \<Rightarrow> Inr defaults
            | Some d \<Rightarrow> bindE (k_get k d) (\<lambda>v. put_default idx numProperties v defaults)) (\<lambda>defaults.
     bindE (put_member idx name flags lco) (\<lambda>lco. Inr (Suc idx, lco, defaults)))))"

text \<open>The class of a shape. The shape has as many flags as names, and methods have no defaults.\<close>

definition class_value :: "nat \<Rightarrow> KValue list \<Rightarrow> ClassShape \<Rightarrow> KValue cpp" where
  "class_value j k cs =
     (let np = length (cs_propertyNames cs); nm = length (cs_methodNames cs); members = class_members cs in
     bindE (guardE (length (cs_methodFlags cs) = nm) (AssertionFailed ''methodFlags'')) (\<lambda>_.
     bindE (guardE (\<forall>f \<in> set (cs_methodFlags cs). f AND LBC_CLASSMEMBER_CONSTDEFAULT = 0) (AssertionFailed ''methodFlags'')) (\<lambda>_.
     bindE (guardE (np + nm + 1 < 2 ^ 31) (AssertionFailed ''members'')) (\<lambda>_.
     bindE (k_string k (cs_className cs)) (\<lambda>classname.
     bindE (mapE (\<lambda>m. k_string k (fst m)) members) (\<lambda>names.
     let custom = (init_name \<in> set names) in
     bindE (luaR_newclass classname np (if custom then nm else nm + 1) (\<exists>m \<in> set members. snd (snd m) \<noteq> None)) (\<lambda>(lco, defaults).
     bindE (foldE (add_member k np) (0, lco, defaults) members) (\<lambda>(_, lco, defaults).
     bindE (if custom then Inr lco else put_member (np + nm) init_name 0 lco) (\<lambda>lco.
     bindE (luaR_sealclassshape lco) (\<lambda>lco.
     Inr (KClass j lco defaults)))))))))))"

definition table_value :: "nat \<Rightarrow> KValue list \<Rightarrow> TableShape \<Rightarrow> KValue cpp" where
  "table_value j k shape =
     bindE (guardE (length (ts_constants shape) = length (ts_keys shape)) (AssertionFailed ''constants'')) (\<lambda>_.
     bindE (luaH_room (length (ts_keys shape))) (\<lambda>_.
     bindE (if ts_hasConstants shape
            then bindE (foldE (set_key_constant k) ([], []) (zip (ts_keys shape) (ts_constants shape))) (clear_nil_keys k)
            else foldE (set_key k) [] (ts_keys shape)) (\<lambda>h.
     Inr (KTable j h))))"

text \<open>The value of the constant with index \<open>j\<close>, with the constants before it in \<open>k\<close>.\<close>

definition constant_value :: "BytecodeBuilder \<Rightarrow> load_context \<Rightarrow> nat \<Rightarrow> KValue list \<Rightarrow> Constant \<Rightarrow> KValue cpp" where
  "constant_value b C j k c =
     (case c of
        CNil \<Rightarrow> Inr KNil
      | CBoolean v \<Rightarrow> Inr (KBoolean (if v then 1 else 0))
      | CNumber v \<Rightarrow> Inr (KNumber v)
      | CInteger64 v \<Rightarrow> Inr (KInteger v)
      | CVectorf x y z w \<Rightarrow> Inr (KVector x y z)
      | CVectord x y z w \<Rightarrow> Inr (KVector (flt_of_dbl x) (flt_of_dbl y) (flt_of_dbl z))
      | CString v \<Rightarrow> bindE (string_ref (ld_strings C) v)
          (\<lambda>s. case s of Some s \<Rightarrow> Inr (KString s) | None \<Rightarrow> Inl UndefinedAccess)
      | CImport v \<Rightarrow> resolveImportSafe (ld_env C) k v
      | CTable v \<Rightarrow> table_value j k (bb_tableShapes b ! v)
      | CClosure v \<Rightarrow> bindE (proto_ref (ld_protoCount C) (ld_protos C) v) (\<lambda>fid. Inr (KClosure j fid))
      | CClassShape v \<Rightarrow> class_value j k (bb_classShapes b ! v))"

definition constants_value :: "BytecodeBuilder \<Rightarrow> load_context \<Rightarrow> KValue list cpp" where
  "constants_value b C =
     foldE (\<lambda>k (j, c). bindE (constant_value b C j k c) (\<lambda>v. Inr (k[j := v])))
       (replicate (length (bb_constants b)) KNil) (enumerate 0 (bb_constants b))"

section \<open>Reading back what the builder writes\<close>

lemma foldl_append: "(\<And>ss x. x \<in> set xs \<Longrightarrow> f ss x = ss @ g x) \<Longrightarrow> foldl f ss xs = ss @ concat (map g xs)"
  by (induction xs arbitrary: ss) auto

lemma foldE_append:
  "(\<And>ss x. x \<in> set xs \<Longrightarrow> f ss x = bindE (g x) (\<lambda>bs. Inr (ss @ bs))) \<Longrightarrow>
   foldE f ss xs = bindE (mapE g xs) (\<lambda>bss. Inr (ss @ concat bss))"
proof (induction xs arbitrary: ss)
  case (Cons x xs)
  then show ?case by (cases "g x") (auto simp: bindE_def split: sum.splits)
qed simp

named_theorems writes \<open>what the writers append\<close>

lemma writers [writes]:
  "writeByte ss v = ss @ [v]"
  "writeInt ss i = ss @ le_bytes 4 (unat i)"
  "writeFloat ss i = ss @ le_bytes 4 (unat i)"
  "writeDouble ss d = ss @ le_bytes 8 (unat d)"
  "writeVarInt ss d = ss @ varint d"
  "writeUnsigned ss i = ss @ varint (ucast i)"
  "writeSize ss n = ss @ varint (ucast (word_of_nat n :: u32))"
  "writeSigned ss i = ss @ varint (scast i)"
  by (simp_all add: writeByte_def writeInt_def writeFloat_def writeDouble_def writeVarInt_varint writeUnsigned_def
      writeSize_def writeSigned_def)

lemma decodes_index: "unat v < 2 ^ 31 \<Longrightarrow> decodes readVarInt (varint (scast v)) (v :: u32)"
proof -
  assume "unat v < 2 ^ 31"
  then have "int (unat v) < 2 ^ 31" by (simp only: of_nat_less_numeral_power_cancel_iff)
  then have "uint v < 2 ^ 31" by (simp only: uint_nat)
  moreover have "0 \<le> uint v" by simp
  ultimately have "sint (word_of_int (uint v) :: u32) = uint v" by (intro sint_of_int32) linarith+
  then have "sint v = uint v" by (simp only: word_of_int_uint)
  then have "(scast v :: u64) = ucast v" by (simp only: scast_eq ucast_eq)
  then show ?thesis by (simp add: decodes_varint_u32)
qed

lemma decodes_foldE:
  assumes "\<And>x s s'. x \<in> set xs \<Longrightarrow> step s x = Inr s' \<Longrightarrow> decodes (r s) (enc x) s'" "foldE step s xs = Inr s'"
  shows "decodes (loopR (length xs) r s) (concat (map enc xs)) s'"
  using assms
proof (induction xs arbitrary: s)
  case (Cons x xs)
  from Cons.prems(2) obtain t where t: "step s x = Inr t" "foldE step t xs = Inr s'" by (auto simp: bindE_Inr_iff)
  from Cons.prems(1) [OF _ t(1)] Cons.IH [OF Cons.prems(1) t(2)] show ?case by (auto intro: decodes_bind)
qed auto

lemma decodes_bind_end: "decodes r bs x \<Longrightarrow> decodes (f x) [] y \<Longrightarrow> decodes (bindR r f) bs y"
  using decodes_bind [of r bs x f "[]" y] by simp

lemma decodes_liftR: "m = Inr x \<Longrightarrow> decodes r bs y \<Longrightarrow> f y = m \<Longrightarrow> decodes (bindR r (\<lambda>y. liftR (f y))) bs x"
  using decodes_bind [of r bs y "\<lambda>y. liftR (f y)" "[]" x] by auto

lemma decodes_peek:
  assumes "decodes r bs x" "decodes (f x) (bs @ cs) y"
  shows "decodes (bindR (peekR r) f) (bs @ cs) y"
proof (rule decodesI)
  fix pre post
  from decodesD [OF assms(1), of pre "cs @ post"] decodesD [OF assms(2), of pre post]
  show "bindR (peekR r) f (pre @ (bs @ cs) @ post) (length pre) = Inr (y, length pre + length (bs @ cs))"
    by (simp add: bindR_def peekR_def)
qed

section \<open>Constants\<close>

lemma k_get_index: "k_get k i = Inr v \<Longrightarrow> length k < 2 ^ 31 \<Longrightarrow> decodes readVarInt (varint (scast i)) i"
  by (intro decodes_index) (auto simp: k_get_def split: if_splits)

lemma k_string_index: "k_string k i = Inr v \<Longrightarrow> length k < 2 ^ 31 \<Longrightarrow> decodes readVarInt (varint (scast i)) i"
  by (auto simp: k_string_def bindE_Inr_iff intro: k_get_index)

lemma decodes_table:
  assumes k: "length k < 2 ^ 31" and keys: "foldE (set_key k) [] keys = Inr h" "luaH_room (length keys) = Inr u"
  shows "decodes (read_table j k) (varint (ucast (word_of_nat (length keys) :: u32)) @ concat (map (\<lambda>i. varint (scast i)) keys)) (KTable j h)"
proof -
  have n: "length keys \<le> 2 ^ 26" using keys(2) by (simp add: luaH_room_def luaH_MAXBITS_def)
  then have "unat (word_of_nat (length keys) :: u32) = length keys" by (intro unat_u32_of_nat) simp
  then have "nat (sint (word_of_nat (length keys) :: u32)) = length keys"
    using sint_of_int32 [of "int (length keys)"] n by simp
  moreover have "decodes (loopR (length keys) (\<lambda>h. bindR readVarInt (\<lambda>key. liftR (set_key k h key))) [])
      (concat (map (\<lambda>i. varint (scast i)) keys)) h"
  proof (rule decodes_foldE [OF _ keys(1)])
    fix i s s' assume "set_key k s i = Inr s'"
    then show "decodes (bindR readVarInt (\<lambda>key. liftR (set_key k s key))) (varint (scast i)) s'"
      using k by (intro decodes_liftR [OF _ _ refl]) (auto simp: set_key_def bindE_Inr_iff intro: k_get_index)
  qed
  ultimately show ?thesis
    unfolding read_table_def Let_def using keys(2) decodes_varint_u32
    by (intro decodes_bind [where x = "word_of_nat (length keys)"] decodes_bind_lift decodes_bind_return) (auto intro: decodes_bind_return)
qed

lemma decodes_table_with_constants:
  assumes k: "length k < 2 ^ 31" and len: "length constants = length keys" and room: "luaH_room (length keys) = Inr u"
    and keys: "foldE (set_key_constant k) ([], []) (zip keys constants) = Inr s" "clear_nil_keys k s = Inr h"
  shows "decodes (read_table_with_constants j k) (varint (ucast (word_of_nat (length keys) :: u32)) @
    concat (map (\<lambda>(i, c). varint (scast i) @ le_bytes 4 (unat c)) (zip keys constants))) (KTable j h)"
proof -
  have n: "length keys \<le> 2 ^ 26" using room by (simp add: luaH_room_def luaH_MAXBITS_def)
  then have unat_n: "unat (word_of_nat (length keys) :: u32) = length (zip keys constants)"
    using len by (simp add: unat_u32_of_nat)
  have sint_n: "nat (sint (word_of_nat (length keys) :: u32)) = length keys"
    using sint_of_int32 [of "int (length keys)"] n by simp
  have loop: "decodes (loopR (length (zip keys constants)) (\<lambda>s. bindR readVarInt (\<lambda>key. bindR read_uint32 (\<lambda>constantIdx.
      liftR (set_key_constant k s (key, constantIdx))))) ([], []))
      (concat (map (\<lambda>(i, c). varint (scast i) @ le_bytes 4 (unat c)) (zip keys constants))) s"
  proof (rule decodes_foldE [OF _ keys(1)], clarify)
    fix i c h nils h' nils' assume s: "set_key_constant k (h, nils) (i, c) = Inr (h', nils')"
    then have "decodes readVarInt (varint (scast i)) i"
      using k by (auto simp: set_key_constant_def bindE_Inr_iff intro: k_get_index)
    moreover have "decodes (bindR read_uint32 (\<lambda>constantIdx. liftR (set_key_constant k (h, nils) (i, constantIdx))))
      (le_bytes 4 (unat c)) (h', nils')" using s by (intro decodes_liftR [OF _ decodes_uint32]) auto
    ultimately show "decodes (bindR readVarInt (\<lambda>key. bindR read_uint32 (\<lambda>constantIdx.
        liftR (set_key_constant k (h, nils) (key, constantIdx))))) (varint (scast i) @ le_bytes 4 (unat c)) (h', nils')"
      by (rule decodes_bind)
  qed
  have "decodes (bindR (liftR (clear_nil_keys k s)) (\<lambda>h. returnR (KTable j h))) [] (KTable j h)"
    using keys(2) by (intro decodes_bind_lift) auto
  then have "decodes (bindR (loopR (unat (word_of_nat (length keys) :: u32)) (\<lambda>s. bindR readVarInt (\<lambda>key. bindR read_uint32 (\<lambda>constantIdx.
      liftR (set_key_constant k s (key, constantIdx))))) ([], [])) (\<lambda>s. bindR (liftR (clear_nil_keys k s)) (\<lambda>h. returnR (KTable j h))))
      (concat (map (\<lambda>(i, c). varint (scast i) @ le_bytes 4 (unat c)) (zip keys constants))) (KTable j h)"
    unfolding unat_n by (rule decodes_bind_end [OF loop])
  then show ?thesis
    unfolding read_table_with_constants_def
    by (intro decodes_bind [OF decodes_varint_u32]) (simp add: sint_n room decodes_bind_lift)
qed

section \<open>Classes\<close>

lemma set_class_members: "(mid, flags, d) \<in> set (class_members cs) \<Longrightarrow>
  \<forall>f \<in> set (cs_methodFlags cs). f AND LBC_CLASSMEMBER_CONSTDEFAULT = 0 \<Longrightarrow>
  (d = None \<longleftrightarrow> flags AND LBC_CLASSMEMBER_CONSTDEFAULT = 0)"
  by (auto simp: class_members_def dest!: set_zip_rightD split: if_splits)

definition member_bytes :: "u32 \<times> byte \<times> u32 option \<Rightarrow> bytes" where
  "member_bytes = (\<lambda>(mid, flags, d). varint (scast mid) @ varint (ucast flags) @ (case d of None \<Rightarrow> [] | Some d \<Rightarrow> varint (scast d)))"

lemma class_shape_written:
  assumes "writeClassShape ss cs = Inr ss'"
  shows "ss' = ss @ varint (scast (cs_className cs)) @ varint (word_of_nat (length (cs_propertyNames cs))) @
    varint (word_of_nat (length (cs_methodNames cs))) @ concat (map member_bytes (class_members cs))"
proof -
  let ?defaults = "\<lambda>i. if cs_propertyFlags cs ! i AND LBC_CLASSMEMBER_CONSTDEFAULT \<noteq> 0
    then if i < length (cs_propertyDefaults cs) then Inr (varint (scast (cs_propertyDefaults cs ! i))) else Inl UndefinedAccess
    else Inr []"
  let ?g = "\<lambda>i. bindE (?defaults i) (\<lambda>d. Inr (varint (scast (cs_propertyNames cs ! i)) @ varint (ucast (cs_propertyFlags cs ! i)) @ d))"
  have step: "(let ss = writeSigned ss (cs_propertyNames cs ! i); ss = writeVarInt ss (ucast (cs_propertyFlags cs ! i)) in
      if cs_propertyFlags cs ! i AND LBC_CLASSMEMBER_CONSTDEFAULT \<noteq> 0 then
        if i < length (cs_propertyDefaults cs) then Inr (writeSigned ss (cs_propertyDefaults cs ! i)) else Inl UndefinedAccess
      else Inr ss) = bindE (?g i) (\<lambda>bs. Inr (ss @ bs))" for ss i
    by (simp add: writes Let_def)
  have g: "mapE ?g is = Inr bss \<Longrightarrow> concat bss = concat (map (\<lambda>i. member_bytes (cs_propertyNames cs ! i, cs_propertyFlags cs ! i,
      if cs_propertyFlags cs ! i AND LBC_CLASSMEMBER_CONSTDEFAULT \<noteq> 0 then Some (cs_propertyDefaults cs ! i) else None)) is)" for "is" bss
    by (induction "is" arbitrary: bss) (auto simp: bindE_Inr_iff member_bytes_def split: if_splits)
  have methods: "foldl (\<lambda>ss (name, flags). writeVarInt (writeSigned ss name) (ucast flags)) ss ms =
      ss @ concat (map member_bytes (map (\<lambda>(name, flags). (name, flags, None)) ms))" for ss ms
    by (induction ms arbitrary: ss) (auto simp: writes member_bytes_def)
  from assms obtain ss1 where ss1: "foldE (\<lambda>ss i. let ss = writeSigned ss (cs_propertyNames cs ! i);
        ss = writeVarInt ss (ucast (cs_propertyFlags cs ! i)) in
      if cs_propertyFlags cs ! i AND LBC_CLASSMEMBER_CONSTDEFAULT \<noteq> 0 then
        if i < length (cs_propertyDefaults cs) then Inr (writeSigned ss (cs_propertyDefaults cs ! i)) else Inl UndefinedAccess
      else Inr ss) (writeVarInt (writeVarInt (writeSigned ss (cs_className cs)) (word_of_nat (length (cs_propertyNames cs))))
        (word_of_nat (length (cs_methodNames cs)))) [0..<length (cs_propertyNames cs)] = Inr ss1"
    "ss' = foldl (\<lambda>ss (name, flags). writeVarInt (writeSigned ss name) (ucast flags)) ss1 (zip (cs_methodNames cs) (cs_methodFlags cs))"
    by (auto simp: writeClassShape_def bindE_Inr_iff Let_def)
  from ss1(1) obtain bss where "mapE ?g [0..<length (cs_propertyNames cs)] = Inr bss"
    "ss1 = writeVarInt (writeVarInt (writeSigned ss (cs_className cs)) (word_of_nat (length (cs_propertyNames cs))))
        (word_of_nat (length (cs_methodNames cs))) @ concat bss"
    unfolding foldE_append [OF step] by (auto simp: bindE_Inr_iff)
  with g [OF this(1)] show ?thesis
    unfolding ss1(2) methods by (simp add: class_members_def writes o_def)
qed

lemma unat_byte_u32: "unat (ucast (x :: byte) :: u32) = unat x"
  by (simp add: unsigned_ucast_eq take_bit_nat_eq_self less_trans [OF unat_byte])

lemma flag_test: "(ucast f :: u32) AND ucast c = 0 \<longleftrightarrow> f AND (c :: byte) = 0"
proof -
  have "(ucast f :: u32) AND ucast c = ucast (f AND c)" by (rule bit_word_eqI) (auto simp: bit_simps)
  moreover have "(ucast x :: u32) = 0 \<longleftrightarrow> x = 0" for x :: byte
    by (metis unat_byte_u32 unat_eq_zero)
  ultimately show ?thesis by simp
qed

lemma decodes_flags: "decodes readVarInt (varint (ucast (f :: byte))) (ucast f)"
proof -
  have "(ucast f :: u64) = ucast (ucast f :: u32)" by (rule bit_word_eqI) (auto simp: bit_simps dest: bit_imp_le_length)
  then show ?thesis by (simp add: decodes_varint_u32)
qed

lemma decodes_peek_member:
  assumes k: "length k < 2 ^ 31" and name: "k_string k mid = Inr name"
    and d: "d = None \<longleftrightarrow> flags AND LBC_CLASSMEMBER_CONSTDEFAULT = 0"
    and did: "\<And>i. d = Some i \<Longrightarrow> unat i < length k"
  shows "decodes (peek_member k (a, b)) (member_bytes (mid, flags, d)) (a \<or> name = init_name, b \<or> d \<noteq> None)"
proof -
  have "decodes (if (ucast flags :: u32) AND ucast LBC_CLASSMEMBER_CONSTDEFAULT \<noteq> 0
      then bindR readVarInt (\<lambda>_. returnR (a \<or> name = init_name, True)) else returnR (a \<or> name = init_name, b))
    (case d of None \<Rightarrow> [] | Some d \<Rightarrow> varint (scast d)) (a \<or> name = init_name, b \<or> d \<noteq> None)"
  proof (cases d)
    case None
    with d show ?thesis by (simp add: flag_test decodes_return)
  next
    case (Some i)
    then have "unat i < 2 ^ 31" using did k by fastforce
    with Some d show ?thesis by (auto simp: flag_test intro!: decodes_bind_return decodes_index)
  qed
  then have "decodes (bindR (liftR (k_string k mid)) (\<lambda>name.
      let hasCustomInit = (a \<or> name = init_name) in
      if (ucast flags :: u32) AND ucast LBC_CLASSMEMBER_CONSTDEFAULT \<noteq> 0
      then bindR readVarInt (\<lambda>_. returnR (hasCustomInit, True)) else returnR (hasCustomInit, b)))
    (case d of None \<Rightarrow> [] | Some d \<Rightarrow> varint (scast d)) (a \<or> name = init_name, b \<or> d \<noteq> None)"
    unfolding Let_def by (rule decodes_bind_lift [OF name])
  from this show ?thesis
    unfolding peek_member_def member_bytes_def prod.case
    by (intro decodes_bind [OF k_string_index [OF name k]] decodes_bind [OF decodes_flags])
qed

lemma decodes_read_member:
  assumes k: "length k < 2 ^ 31" and d: "d = None \<longleftrightarrow> flags AND LBC_CLASSMEMBER_CONSTDEFAULT = 0"
    and add: "add_member k np (idx, lco, defaults) (mid, flags, d) = Inr s"
  shows "decodes (read_member k np (idx, lco, defaults)) (member_bytes (mid, flags, d)) s"
proof -
  from add obtain name defaults' lco' where name: "k_string k mid = Inr name"
    and defaults: "(case d of None \<Rightarrow> Inr defaults | Some d \<Rightarrow> bindE (k_get k d) (\<lambda>v. put_default idx np v defaults)) = Inr defaults'"
    and lco': "put_member idx name flags lco = Inr lco'" and s: "s = (Suc idx, lco', defaults')"
    by (auto simp: add_member_def bindE_Inr_iff)
  have flags: "ucast (ucast flags :: u32) = flags" by (rule bit_word_eqI) (auto simp: bit_simps)
  have opt: "decodes (if (ucast (ucast flags :: u32) :: byte) AND LBC_CLASSMEMBER_CONSTDEFAULT \<noteq> 0
      then bindR readVarInt (\<lambda>did. liftR (bindE (k_get k did) (\<lambda>v. put_default idx np v defaults))) else returnR defaults)
    (case d of None \<Rightarrow> [] | Some d \<Rightarrow> varint (scast d)) defaults'"
  proof (cases d)
    case None
    with d defaults show ?thesis by (simp add: flags decodes_return)
  next
    case (Some i)
    with defaults have i: "bindE (k_get k i) (\<lambda>v. put_default idx np v defaults) = Inr defaults'" by simp
    then have "decodes readVarInt (varint (scast i)) i" using k by (auto simp: bindE_Inr_iff intro: k_get_index)
    with Some d i show ?thesis by (auto simp: flags intro!: decodes_liftR)
  qed
  have put: "decodes (bindR (liftR (put_member idx name (ucast (ucast flags :: u32)) lco)) (\<lambda>lco. returnR (Suc idx, lco, defaults'))) [] s"
    using lco' s by (intro decodes_bind_lift) (auto simp: flags)
  show ?thesis
    unfolding read_member_def member_bytes_def prod.case
    by (rule decodes_bind [OF k_string_index [OF name k]], rule decodes_bind_lift [OF name],
        rule decodes_bind [OF decodes_flags], rule decodes_bind_end, rule opt, rule put)
qed

lemma peek_members:
  assumes "mapE (\<lambda>m. k_string k (fst m)) members = Inr names"
  shows "foldE (\<lambda>(a, b) (mid, flags, d). bindE (k_string k mid) (\<lambda>name. Inr (a \<or> name = init_name, b \<or> d \<noteq> None)))
    (a, b) members = Inr (a \<or> init_name \<in> set names, b \<or> (\<exists>m \<in> set members. snd (snd m) \<noteq> None))"
  using assms
proof (induction members arbitrary: names a b)
  case (Cons m members)
  obtain mid flags d where m: "m = (mid, flags, d)" by (cases m)
  from Cons.prems obtain name names' where n: "k_string k mid = Inr name" "names = name # names'"
    "mapE (\<lambda>m. k_string k (fst m)) members = Inr names'" by (auto simp: m bindE_Inr_iff)
  from Cons.IH [OF n(3), of "a \<or> name = init_name" "b \<or> d \<noteq> None"] show ?case
    by (simp add: m n) metis
qed simp

lemma add_members_defaults:
  assumes "foldE (add_member k np) s members = Inr s'" "(mid, flags, Some i) \<in> set members"
  shows "unat i < length k"
  using assms
proof (induction members arbitrary: s)
  case (Cons m members)
  from Cons.prems(1) obtain t where t: "add_member k np s m = Inr t" "foldE (add_member k np) t members = Inr s'"
    by (auto simp: bindE_Inr_iff)
  show ?case
  proof (cases "m = (mid, flags, Some i)")
    case True
    with t(1) show ?thesis by (cases s) (auto simp: add_member_def bindE_Inr_iff k_get_def split: if_splits)
  qed (use Cons.IH [OF t(2)] Cons.prems(2) in auto)
qed simp

lemma mapE_member: "mapE f xs = Inr ys \<Longrightarrow> x \<in> set xs \<Longrightarrow> \<exists>y. f x = Inr y"
  by (induction xs arbitrary: ys) (auto simp: bindE_Inr_iff)

lemma decodes_peek_members:
  assumes k: "length k < 2 ^ 31" and flags: "\<forall>f \<in> set (cs_methodFlags cs). f AND LBC_CLASSMEMBER_CONSTDEFAULT = 0"
    and names: "mapE (\<lambda>m. k_string k (fst m)) (class_members cs) = Inr names"
    and members: "foldE (add_member k np) s0 (class_members cs) = Inr s1"
  shows "decodes (loopR (length (class_members cs)) (peek_member k) (False, False)) (concat (map member_bytes (class_members cs)))
    (init_name \<in> set names, \<exists>m \<in> set (class_members cs). snd (snd m) \<noteq> None)"
proof (rule decodes_foldE [where step = "\<lambda>(a, b) (mid, flags, d). bindE (k_string k mid) (\<lambda>name. Inr (a \<or> name = init_name, b \<or> d \<noteq> None))"])
  show "foldE (\<lambda>(a, b) (mid, flags, d). bindE (k_string k mid) (\<lambda>name. Inr (a \<or> name = init_name, b \<or> d \<noteq> None)))
      (False, False) (class_members cs) = Inr (init_name \<in> set names, \<exists>m \<in> set (class_members cs). snd (snd m) \<noteq> None)"
    using peek_members [OF names, of False False] by simp
  fix m s s' assume m: "m \<in> set (class_members cs)"
    "(case s of (a, b) \<Rightarrow> \<lambda>(mid, flags, d). bindE (k_string k mid) (\<lambda>name. Inr (a \<or> name = init_name, b \<or> d \<noteq> None))) m = Inr s'"
  obtain a b mid fl d where [simp]: "s = (a, b)" "m = (mid, fl, d)" by (cases s, cases m) auto
  from m(2) obtain name where name: "k_string k mid = Inr name" "s' = (a \<or> name = init_name, b \<or> d \<noteq> None)"
    by (auto simp: bindE_Inr_iff)
  have "d = Some i \<Longrightarrow> unat i < length k" for i using add_members_defaults [OF members] m(1) by auto
  with set_class_members [of mid fl d cs] m(1) flags show "decodes (peek_member k s) (member_bytes m) s'"
    unfolding name(2) using decodes_peek_member [OF k name(1)] by simp
qed

lemma decodes_read_members:
  assumes k: "length k < 2 ^ 31" and flags: "\<forall>f \<in> set (cs_methodFlags cs). f AND LBC_CLASSMEMBER_CONSTDEFAULT = 0"
    and members: "foldE (add_member k np) s0 (class_members cs) = Inr s1"
  shows "decodes (loopR (length (class_members cs)) (read_member k np) s0) (concat (map member_bytes (class_members cs))) s1"
proof (rule decodes_foldE [OF _ members])
  fix m s s' assume m: "m \<in> set (class_members cs)" "add_member k np s m = Inr s'"
  obtain i c ds mid fl d where [simp]: "s = (i, c, ds)" "m = (mid, fl, d)" by (cases s, cases m) auto
  from set_class_members [of mid fl d cs] m flags show "decodes (read_member k np s) (member_bytes m) s'"
    using decodes_read_member [OF k] by auto
qed

lemma decodes_class_shape:
  assumes k: "length k < 2 ^ 31" and v: "class_value j k cs = Inr v"
  shows "decodes (read_class_shape j k) (varint (scast (cs_className cs)) @ varint (word_of_nat (length (cs_propertyNames cs))) @
    varint (word_of_nat (length (cs_methodNames cs))) @ concat (map member_bytes (class_members cs))) v"
proof -
  let ?np = "length (cs_propertyNames cs)" and ?nm = "length (cs_methodNames cs)" and ?ms = "class_members cs"
  let ?bs = "concat (map member_bytes ?ms)" and ?defs = "\<exists>m \<in> set ?ms. snd (snd m) \<noteq> None"
  from v obtain classname names lco defaults idx lcoA defaultsA lcoB lcoC where
    flags: "length (cs_methodFlags cs) = ?nm" "\<forall>f \<in> set (cs_methodFlags cs). f AND LBC_CLASSMEMBER_CONSTDEFAULT = 0" and
    small: "?np + ?nm + 1 < 2 ^ 31" and classname: "k_string k (cs_className cs) = Inr classname" and
    names: "mapE (\<lambda>m. k_string k (fst m)) ?ms = Inr names" and
    new: "luaR_newclass classname ?np (if init_name \<in> set names then ?nm else ?nm + 1) ?defs = Inr (lco, defaults)" and
    members: "foldE (add_member k ?np) (0, lco, defaults) ?ms = Inr (idx, lcoA, defaultsA)" and
    init: "(if init_name \<in> set names then Inr lcoA else put_member (?np + ?nm) init_name 0 lcoA) = Inr lcoB" and
    seal: "luaR_sealclassshape lcoB = Inr lcoC" and v: "v = KClass j lcoC defaultsA"
    by (auto simp: class_value_def Let_def bindE_Inr_iff)
  have n: "length ?ms = ?np + ?nm" by (simp add: class_members_def flags(1))
  have peek: "decodes (loopR (length ?ms) (peek_member k) (False, False)) ?bs (init_name \<in> set names, ?defs)"
    by (rule decodes_peek_members [OF k flags(2) names members])
  have read: "decodes (loopR (length ?ms) (read_member k ?np) (0, lco, defaults)) ?bs (idx, lcoA, defaultsA)"
    by (rule decodes_read_members [OF k flags(2) members])
  have un: "unat (word_of_nat ?np :: u32) = ?np"
    "unat (if init_name \<in> set names then word_of_nat ?nm else (word_of_nat ?nm :: u32) + 1) = (if init_name \<in> set names then ?nm else ?nm + 1)"
    "unat ((word_of_nat ?nm :: u32) + word_of_nat ?np) = length ?ms"
    using small unat_u32_of_nat [of ?np] unat_u32_of_nat [of ?nm] unat_u32_of_nat [of "?nm + 1"] unat_u32_of_nat [of "?nm + ?np"]
    by (simp_all add: n add.commute)
  have np: "decodes readVarInt (varint (word_of_nat ?np)) (word_of_nat ?np)"
    and nm: "decodes readVarInt (varint (word_of_nat ?nm)) (word_of_nat ?nm)"
    using small by (intro decodes_varint_nat; simp)+
  show ?thesis
    unfolding read_class_shape_def Let_def v
    apply (rule decodes_bind [OF k_string_index [OF classname k]])
    apply (rule decodes_bind_lift [OF classname])
    apply (rule decodes_bind [OF np])
    apply (rule decodes_bind [OF nm])
    unfolding un
    apply (rule decodes_peek [OF peek, where cs = "[]", unfolded append_Nil2])
    unfolding prod.case un
    apply (rule decodes_bind_lift [OF new])
    unfolding prod.case
    apply (rule decodes_bind_end [OF read])
    unfolding prod.case
    apply (rule decodes_bind_lift [OF init [folded n]])
    apply (rule decodes_bind_lift [OF seal])
    apply (rule decodes_return)
    done
qed

section \<open>Constants and their table\<close>

lemma read_tagged_simps:
  "read_tagged C j k LBC_CONSTANT_NIL = returnR (k ! j)"
  "read_tagged C j k LBC_CONSTANT_BOOLEAN = bindR read_uint8 (\<lambda>v. returnR (KBoolean v))"
  "read_tagged C j k LBC_CONSTANT_NUMBER = bindR read_uint64 (\<lambda>v. returnR (KNumber v))"
  "read_tagged C j k LBC_CONSTANT_VECTOR =
     bindR read_uint32 (\<lambda>x. bindR read_uint32 (\<lambda>y. bindR read_uint32 (\<lambda>z. bindR read_uint32 (\<lambda>w. returnR (KVector x y z)))))"
  "read_tagged C j k LBC_CONSTANT_VECTORD =
     bindR read_uint64 (\<lambda>x. bindR read_uint64 (\<lambda>y. bindR read_uint64 (\<lambda>z. bindR read_uint64 (\<lambda>w.
     returnR (KVector (flt_of_dbl x) (flt_of_dbl y) (flt_of_dbl z))))))"
  "read_tagged C j k LBC_CONSTANT_STRING = bindR (readString (ld_strings C))
     (\<lambda>v. liftR (case v of Some s \<Rightarrow> Inr (KString s) | None \<Rightarrow> Inl UndefinedAccess))"
  "read_tagged C j k LBC_CONSTANT_IMPORT = bindR read_uint32 (\<lambda>iid. liftR (resolveImportSafe (ld_env C) k iid))"
  "read_tagged C j k LBC_CONSTANT_TABLE = read_table j k"
  "read_tagged C j k LBC_CONSTANT_TABLE_WITH_CONSTANTS = read_table_with_constants j k"
  "read_tagged C j k LBC_CONSTANT_CLOSURE =
     bindR readVarInt (\<lambda>fid. bindR (liftR (proto_ref (ld_protoCount C) (ld_protos C) fid)) (\<lambda>fid. returnR (KClosure j fid)))"
  "\<not> ld_legacy C \<Longrightarrow> read_tagged C j k LBC_CONSTANT_CLASS_SHAPE = read_class_shape j k"
  "read_tagged C j k LBC_CONSTANT_INTEGER =
     bindR read_uint8 (\<lambda>isNegative. bindR readVarInt64 (\<lambda>magnitude. returnR (KInteger (negated (isNegative \<noteq> 0) magnitude))))"
  by (simp_all add: read_tagged_def constant_tags)

lemma negated_magnitude: "negated True (NOT v + 1) = v"
proof -
  have "NOT v + 1 = - v" by (simp add: minus_eq_not_plus_1)
  moreover have "NOT (- v) + 1 = v" using minus_eq_not_plus_1 [of "- v"] by simp
  ultimately show ?thesis by (simp add: negated_def)
qed

lemma decodes_integer:
  "decodes (read_tagged C j k LBC_CONSTANT_INTEGER) (if sint v < 0 then 1 # varint (NOT v + 1) else 0 # varint v) (KInteger v)"
proof -
  have "decodes (bindR readVarInt64 (\<lambda>magnitude. returnR (KInteger (negated (s \<noteq> 0) magnitude)))) (varint m) (KInteger v)"
    if "negated (s \<noteq> 0) m = v" for s :: byte and m
    using that by (intro decodes_bind_return [OF decodes_varint64]) simp
  then have "decodes (read_tagged C j k LBC_CONSTANT_INTEGER) ([s] @ varint m) (KInteger v)"
    if "negated (s \<noteq> 0) m = v" for s m
    unfolding read_tagged_simps by (intro decodes_bind [OF decodes_uint8]) (use that in simp)
  from this [of 1 "NOT v + 1"] this [of 0 v] negated_magnitude [of v] show ?thesis by (simp add: negated_def)
qed

lemma decodes_vector:
  assumes "\<And>v. decodes r (enc v) v"
  shows "decodes (bindR r (\<lambda>x. bindR r (\<lambda>y. bindR r (\<lambda>z. bindR r (\<lambda>w. returnR (f x y z))))))
    (enc x @ enc y @ enc z @ enc w) (f x y z)"
  by (intro decodes_bind [OF assms] decodes_bind_return [OF assms] refl)

lemma decodes_string:
  assumes "string_ref strings i = Inr s"
  shows "decodes (readString strings) (varint (ucast i)) s"
  unfolding readString_def by (rule decodes_liftR, rule assms, rule decodes_varint_u32, rule refl)

lemma decodes_string_constant:
  assumes "bindE (string_ref (ld_strings C) i) (\<lambda>s. case s of Some s \<Rightarrow> Inr (KString s) | None \<Rightarrow> Inl UndefinedAccess) = Inr v"
  shows "decodes (read_tagged C j k LBC_CONSTANT_STRING) (varint (ucast i)) v"
proof -
  from assms obtain s where s: "string_ref (ld_strings C) i = Inr s"
    "(case s of Some s \<Rightarrow> Inr (KString s) | None \<Rightarrow> Inl UndefinedAccess) = Inr v" by (auto simp: bindE_Inr_iff)
  show ?thesis unfolding read_tagged_simps by (rule decodes_liftR, rule s(2), rule decodes_string [OF s(1)], rule refl)
qed

lemma decodes_table_constant:
  assumes k: "length k < 2 ^ 31" and v: "table_value j k shape = Inr v"
  shows "ts_hasConstants shape \<Longrightarrow> decodes (read_tagged C j k LBC_CONSTANT_TABLE_WITH_CONSTANTS)
      (varint (ucast (word_of_nat (length (ts_keys shape)) :: u32)) @
       concat (map (\<lambda>(i, c). varint (scast i) @ le_bytes 4 (unat c)) (zip (ts_keys shape) (ts_constants shape)))) v"
    "\<not> ts_hasConstants shape \<Longrightarrow> decodes (read_tagged C j k LBC_CONSTANT_TABLE)
      (varint (ucast (word_of_nat (length (ts_keys shape)) :: u32)) @ concat (map (\<lambda>i. varint (scast i)) (ts_keys shape))) v"
  using v k unfolding table_value_def read_tagged_simps
  by (auto simp: bindE_Inr_iff intro!: decodes_table_with_constants decodes_table)

lemma table_written:
  "foldl (\<lambda>ss (key, constant). writeInt (writeSigned ss key) constant) ss ps =
     ss @ concat (map (\<lambda>(i, c). varint (scast i) @ le_bytes 4 (unat c)) ps)"
  "foldl writeSigned ss keys = ss @ concat (map (\<lambda>i. varint (scast i)) keys)"
  by (rule foldl_append; auto simp: writes)+

lemma constant_round_trip:
  assumes w: "writeConstant b ss c = Inr ss'" and v: "constant_value b C j k c = Inr v"
    and k: "length k < 2 ^ 31" "k ! j = KNil" and C: "\<not> ld_legacy C"
  shows "\<exists>bs. ss' = ss @ bs \<and> decodes (read_constant C j k) bs v"
proof -
  have "\<exists>tag bs. ss' = ss @ tag # bs \<and> decodes (read_tagged C j k tag) bs v"
  proof (cases c)
    case CNil
    with w v k(2) show ?thesis
      by (intro exI [of _ LBC_CONSTANT_NIL]) (auto simp: writeConstant_def constant_value_def writes read_tagged_simps)
  next
    case (CBoolean x)
    with w v show ?thesis
      by (intro exI [of _ LBC_CONSTANT_BOOLEAN])
        (auto simp: writeConstant_def constant_value_def writes read_tagged_simps intro!: decodes_bind_return decodes_uint8)
  next
    case (CNumber x)
    with w v show ?thesis
      by (intro exI [of _ LBC_CONSTANT_NUMBER])
        (auto simp: writeConstant_def constant_value_def writes read_tagged_simps intro!: decodes_bind_return decodes_uint64)
  next
    case (CInteger64 x)
    with w v decodes_integer [of C j k x] show ?thesis
      by (intro exI [of _ LBC_CONSTANT_INTEGER]) (auto simp: writeConstant_def constant_value_def writes Let_def split: if_splits)
  next
    case (CVectorf x y z u)
    with w v decodes_vector [OF decodes_uint32, of KVector x y z u] show ?thesis
      by (intro exI [of _ LBC_CONSTANT_VECTOR]) (auto simp: writeConstant_def constant_value_def writes read_tagged_simps)
  next
    case (CVectord x y z u)
    with w v decodes_vector [OF decodes_uint64, of "\<lambda>x y z. KVector (flt_of_dbl x) (flt_of_dbl y) (flt_of_dbl z)" x y z u]
    show ?thesis
      by (intro exI [of _ LBC_CONSTANT_VECTORD]) (auto simp: writeConstant_def constant_value_def writes read_tagged_simps)
  next
    case (CString i)
    with w v decodes_string_constant [of C i v j k] show ?thesis
      by (intro exI [of _ LBC_CONSTANT_STRING]) (auto simp: writeConstant_def constant_value_def writes)
  next
    case (CImport i)
    with w v show ?thesis
      by (intro exI [of _ LBC_CONSTANT_IMPORT])
        (auto simp: writeConstant_def constant_value_def writes read_tagged_simps intro!: decodes_liftR decodes_uint32)
  next
    case (CTable t)
    with v have t: "table_value j k (bb_tableShapes b ! t) = Inr v" by (simp add: constant_value_def)
    show ?thesis
    proof (cases "ts_hasConstants (bb_tableShapes b ! t)")
      case True
      with CTable w decodes_table_constant(1) [OF k(1) t, of C] show ?thesis
        by (intro exI [of _ LBC_CONSTANT_TABLE_WITH_CONSTANTS])
          (auto simp: writeConstant_def Let_def table_written writes(1,7) split: if_splits)
    next
      case False
      with CTable w decodes_table_constant(2) [OF k(1) t, of C] show ?thesis
        by (intro exI [of _ LBC_CONSTANT_TABLE])
          (auto simp: writeConstant_def Let_def table_written writes(1,7) split: if_splits)
    qed
  next
    case (CClosure i)
    with w v show ?thesis
      by (intro exI [of _ LBC_CONSTANT_CLOSURE]) (auto simp: writeConstant_def constant_value_def writes read_tagged_simps
          bindE_Inr_iff intro!: decodes_bind_end [OF decodes_varint_u32] decodes_bind_lift)
  next
    case (CClassShape i)
    with w obtain ss1 where "writeClassShape (ss @ [LBC_CONSTANT_CLASS_SHAPE]) (bb_classShapes b ! i) = Inr ss'"
      by (auto simp: writeConstant_def writes split: if_splits)
    from class_shape_written [OF this] CClassShape v decodes_class_shape [OF k(1), of j "bb_classShapes b ! i" v] C
    show ?thesis by (intro exI [of _ LBC_CONSTANT_CLASS_SHAPE]) (auto simp: constant_value_def read_tagged_simps)
  qed
  then show ?thesis unfolding read_constant_def by (metis append_Cons append_Nil decodes_bind decodes_uint8)
qed

lemma decodes_array_size: "n < 2 ^ 31 \<Longrightarrow> decodes read_array_size (varint (ucast (word_of_nat n :: u32))) n"
  unfolding read_array_size_def
  by (rule decodes_liftR [OF _ decodes_varint_u32 refl]) (simp add: array_size_def unat_u32_of_nat)

lemma constants_loop:
  assumes "foldE (writeConstant b) ss cs = Inr ss'"
    "foldE (\<lambda>k (j, c). bindE (constant_value b C j k c) (\<lambda>v. Inr (k[j := v]))) k (enumerate j cs) = Inr ks"
    "\<forall>i \<ge> j. i < length k \<longrightarrow> k ! i = KNil" "j + length cs \<le> length k" "length k < 2 ^ 31" "\<not> ld_legacy C"
  shows "\<exists>bs. ss' = ss @ bs \<and>
    decodes (loopR (length cs) (\<lambda>(j, k). bindR (read_constant C j k) (\<lambda>v. returnR (Suc j, k[j := v]))) (j, k)) bs (j + length cs, ks)"
  using assms
proof (induction cs arbitrary: ss j k)
  case Nil
  then show ?case by (auto intro: exI [of _ "[]"])
next
  case (Cons c cs)
  from Cons.prems(1) obtain ss1 where ss1: "writeConstant b ss c = Inr ss1" "foldE (writeConstant b) ss1 cs = Inr ss'"
    by (auto simp: bindE_Inr_iff)
  from Cons.prems(2) obtain v where v: "constant_value b C j k c = Inr v"
    "foldE (\<lambda>k (j, c). bindE (constant_value b C j k c) (\<lambda>v. Inr (k[j := v]))) (k[j := v]) (enumerate (Suc j) cs) = Inr ks"
    by (auto simp: bindE_Inr_iff)
  have "k ! j = KNil" using Cons.prems(3,4) by auto
  from constant_round_trip [OF ss1(1) v(1) Cons.prems(5) this Cons.prems(6)]
  obtain bs1 where bs1: "ss1 = ss @ bs1" "decodes (read_constant C j k) bs1 v" by blast
  have "\<forall>i \<ge> Suc j. i < length (k[j := v]) \<longrightarrow> k[j := v] ! i = KNil" using Cons.prems(3) by auto
  from Cons.IH [OF ss1(2) v(2) this] Cons.prems(4-6) obtain bs where bs: "ss' = ss1 @ bs"
    "decodes (loopR (length cs) (\<lambda>(j, k). bindR (read_constant C j k) (\<lambda>v. returnR (Suc j, k[j := v]))) (Suc j, k[j := v])) bs
       (Suc j + length cs, ks)" by auto
  have "decodes (loopR (length (c # cs)) (\<lambda>(j, k). bindR (read_constant C j k) (\<lambda>v. returnR (Suc j, k[j := v]))) (j, k))
      (bs1 @ bs) (Suc j + length cs, ks)"
    unfolding length_Cons loopR.simps prod.case
    by (rule decodes_bind, rule decodes_bind_return [OF bs1(2) refl], rule bs(2))
  with bs1(1) bs(1) show ?case by auto
qed

lemma constants_read_back:
  assumes "foldE (writeConstant b) ss (bb_constants b) = Inr ss'" "constants_value b C = Inr ks"
    "length (bb_constants b) < 2 ^ 31" "\<not> ld_legacy C"
  shows "\<exists>bs. ss' = ss @ bs \<and> decodes (read_constants C) (varint (ucast (word_of_nat (length (bb_constants b)) :: u32)) @ bs) ks"
proof -
  from constants_loop [OF assms(1) assms(2) [unfolded constants_value_def]] assms(3,4) obtain bs where bs: "ss' = ss @ bs"
    "decodes (loopR (length (bb_constants b)) (\<lambda>(j, k). bindR (read_constant C j k) (\<lambda>v. returnR (Suc j, k[j := v])))
      (0, replicate (length (bb_constants b)) KNil)) bs (length (bb_constants b), ks)" by auto
  have "decodes (read_constants C) (varint (ucast (word_of_nat (length (bb_constants b)) :: u32)) @ bs) ks"
    unfolding read_constants_def
    by (rule decodes_bind [OF decodes_array_size [OF assms(3)]], rule decodes_bind_end [OF bs(2)]) (simp add: decodes_return)
  with bs(1) show ?thesis by blast
qed

section \<open>Type information\<close>

definition local_bytes :: "TypedLocal \<Rightarrow> bytes" where
  "local_bytes l = [tl_type l, tl_reg l] @ varint (ucast (tl_startpc l)) @ varint (ucast (tl_endpc l - tl_startpc l))"

definition typeinfo_bytes :: "bytes \<Rightarrow> bytes \<Rightarrow> TypedLocal list \<Rightarrow> bytes" where
  "typeinfo_bytes types upvals locals =
     varint (ucast (word_of_nat (length types) :: u32)) @ varint (ucast (word_of_nat (length upvals) :: u32)) @
     varint (ucast (word_of_nat (length locals) :: u32)) @ types @ upvals @ concat (map local_bytes locals)"

lemma typeinfo_written:
  assumes "writeTypeInfo b func = Inr info"
  shows "info = typeinfo_bytes (f_typeinfo func) (bb_typedUpvals b) (bb_typedLocals b)"
proof -
  let ?g = "\<lambda>l. bindE (guardE (tl_startpc l \<le> tl_endpc l) (AssertionFailed ''l.endpc >= l.startpc'')) (\<lambda>_. Inr (local_bytes l))"
  have step: "bindE (guardE (tl_startpc l \<le> tl_endpc l) (AssertionFailed ''l.endpc >= l.startpc''))
      (\<lambda>_. Inr (writeUnsigned (writeUnsigned (writeByte (writeByte ss (tl_type l)) (tl_reg l)) (tl_startpc l)) (tl_endpc l - tl_startpc l))) =
    bindE (?g l) (\<lambda>bs. Inr (ss @ bs))" for ss l
    by (cases "tl_startpc l \<le> tl_endpc l") (auto simp: writes local_bytes_def)
  have locals: "mapE ?g ls = Inr bss \<Longrightarrow> bss = map local_bytes ls" for ls bss
    by (induction ls arbitrary: bss) (auto simp: bindE_Inr_iff)
  have upvals: "foldl writeByte ss xs = ss @ xs" for ss xs by (induction xs arbitrary: ss) (auto simp: writes)
  from assms show ?thesis
    unfolding writeTypeInfo_def Let_def foldE_append [of _ _ ?g, OF step] upvals
    by (auto simp: bindE_Inr_iff writes typeinfo_bytes_def dest!: locals)
qed

text \<open>The tags of a proto's types, mapped.\<close>

definition remap_tag :: "bytes \<Rightarrow> byte \<Rightarrow> byte" where
  "remap_tag r tag =
     (if LBC_TYPE_TAGGED_USERDATA_BASE \<le> tag \<and> unat (tag - LBC_TYPE_TAGGED_USERDATA_BASE) < length r
      then r ! unat (tag - LBC_TYPE_TAGGED_USERDATA_BASE) else tag)"

definition remap_local :: "bytes \<Rightarrow> TypedLocal \<Rightarrow> TypedLocal" where
  "remap_local r l = l\<lparr>tl_type := remap_tag r (tl_type l)\<rparr>"

definition remapped_typeinfo :: "bytes \<Rightarrow> bytes \<Rightarrow> bytes \<Rightarrow> TypedLocal list \<Rightarrow> bytes" where
  "remapped_typeinfo r types upvals locals =
     typeinfo_bytes (take 2 types @ map (remap_tag r) (drop 2 types)) (map (remap_tag r) upvals) (map (remap_local r) locals)"

fun local_offsets :: "nat \<Rightarrow> TypedLocal list \<Rightarrow> nat list" where
  "local_offsets offset [] = []"
| "local_offsets offset (l # ls) = offset # local_offsets (offset + length (local_bytes l)) ls"

lemma visit_locals:
  "repeatR (length ls) visit_local (pre @ concat (map local_bytes ls) @ post) (length pre) =
   Inr (local_offsets (length pre) ls, length pre + length (concat (map local_bytes ls)))"
proof (induction ls arbitrary: pre)
  case (Cons l ls)
  let ?rest = "concat (map local_bytes ls) @ post"
  have "visit_local (pre @ local_bytes l @ ?rest) (length pre) = Inr (length pre, length pre + length (local_bytes l))"
    using decodesD [OF decodes_varint_u32, of "pre @ [tl_type l, tl_reg l]" "tl_startpc l"]
      decodesD [OF decodes_varint_u32, of "pre @ [tl_type l, tl_reg l] @ varint (ucast (tl_startpc l))" "tl_endpc l - tl_startpc l" ?rest]
    by (simp add: visit_local_def bindR_def tellR_def skipR_def returnR_def local_bytes_def)
  with Cons.IH [of "pre @ local_bytes l"] show ?case by (simp add: bindR_def returnR_def)
qed (simp add: returnR_def)

lemma three_varints:
  "readVarInt (varint (ucast (a :: u32)) @ bs) 0 = Inr (a, length (varint (ucast a)))"
  "readVarInt (varint v @ varint (ucast a) @ bs) (length (varint v)) = Inr (a, length (varint v) + length (varint (ucast a)))"
  "readVarInt (varint v @ varint w @ varint (ucast a) @ bs) (length (varint v) + length (varint w)) =
     Inr (a, length (varint v) + (length (varint w) + length (varint (ucast a))))"
  using decodesD [OF decodes_varint_u32, of "[]" a bs] decodesD [OF decodes_varint_u32, of "varint v" a bs]
    decodesD [OF decodes_varint_u32, of "varint v @ varint w" a bs]
  by (simp_all add: add.assoc)

lemma visit_typeinfo:
  assumes "length types < 2 ^ 32" "length upvals < 2 ^ 32" "length locals < 2 ^ 32"
  defines "h \<equiv> length (varint (ucast (word_of_nat (length types) :: u32)) @ varint (ucast (word_of_nat (length upvals) :: u32)) @
     varint (ucast (word_of_nat (length locals) :: u32)))"
  shows "visitTypeTags (typeinfo_bytes types upvals locals) 0 =
    Inr ([h + 2..<h + length types] @ [h + length types..<h + length types + length upvals] @
         local_offsets (h + length types + length upvals) locals, length (typeinfo_bytes types upvals locals))"
proof -
  let ?v = "\<lambda>xs. varint (ucast (word_of_nat (length xs) :: u32))"
  have un: "unat (word_of_nat (length types) :: u32) = length types" "unat (word_of_nat (length upvals) :: u32) = length upvals"
    "unat (word_of_nat (length locals) :: u32) = length locals"
    using assms(1-3) by (auto intro: unat_u32_of_nat)
  let ?pre = "?v types @ ?v upvals @ ?v locals @ types @ upvals"
  have data: "typeinfo_bytes types upvals locals = ?pre @ concat (map local_bytes locals) @ []"
    by (simp only: typeinfo_bytes_def append_assoc append_Nil2)
  have "h + length types + length upvals = length ?pre" by (simp only: h_def length_append add.assoc)
  with visit_locals [of locals ?pre "[]"]
  have l: "repeatR (length locals) visit_local (typeinfo_bytes types upvals locals) (h + length types + length upvals) =
    Inr (local_offsets (h + length types + length upvals) locals, length (typeinfo_bytes types upvals locals))"
    unfolding data by (simp only: length_append list.size(3) add_0_right)
  have v: "readVarInt (typeinfo_bytes types upvals locals) 0 = Inr (word_of_nat (length types), length (?v types))"
    "readVarInt (typeinfo_bytes types upvals locals) (length (?v types)) =
       Inr (word_of_nat (length upvals), length (?v types) + length (?v upvals))"
    "readVarInt (typeinfo_bytes types upvals locals) (length (?v types) + length (?v upvals)) = Inr (word_of_nat (length locals), h)"
    unfolding typeinfo_bytes_def h_def length_append by (simp_all only: three_varints add.assoc)
  show ?thesis
    unfolding visitTypeTags_def bindR_def
    by (simp only: v un l tellR_def skipR_def returnR_def bindE_simps prod.case)
qed

definition remap_at :: "bytes \<Rightarrow> bytes \<Rightarrow> nat \<Rightarrow> bytes" where
  "remap_at r data t = (if t < length data then data[t := remap_tag r (data ! t)] else data)"

lemma remap_at_middle: "remap_at r (pre @ x # post) (length pre) = pre @ remap_tag r x # post"
  by (simp add: remap_at_def)

lemma remap_range: "foldl (remap_at r) (pre @ xs @ post) [length pre..<length pre + length xs] = pre @ map (remap_tag r) xs @ post"
proof (induction xs arbitrary: pre)
  case (Cons x xs)
  have "[length pre..<length pre + length (x # xs)] = length pre # [length (pre @ [remap_tag r x])..<length (pre @ [remap_tag r x]) + length xs]"
    by (simp add: upt_conv_Cons del: upt_Suc)
  with Cons.IH [of "pre @ [remap_tag r x]"] show ?case by (simp add: remap_at_middle del: upt_Suc)
qed simp

lemma remap_locals: "foldl (remap_at r) (pre @ concat (map local_bytes ls) @ post) (local_offsets (length pre) ls) =
  pre @ concat (map local_bytes (map (remap_local r) ls)) @ post"
proof (induction ls arbitrary: pre)
  case (Cons l ls)
  obtain bs where l: "local_bytes l = tl_type l # bs" "local_bytes (remap_local r l) = remap_tag r (tl_type l) # bs"
    by (simp add: local_bytes_def remap_local_def)
  with Cons.IH [of "pre @ local_bytes (remap_local r l)"] show ?case by (simp add: remap_at_middle)
qed simp

lemma local_offsets_less: "t \<in> set (local_offsets offset ls) \<Longrightarrow> t < offset + length (concat (map local_bytes ls))"
proof (induction ls arbitrary: offset)
  case (Cons l ls)
  have "0 < length (local_bytes l)" by (simp add: local_bytes_def)
  with Cons.IH [of "offset + length (local_bytes l)"] Cons.prems show ?case by auto
qed simp

lemma remap_step: "foldl (\<lambda>data t.
     let index = unat (data ! t - LBC_TYPE_TAGGED_USERDATA_BASE) in
     if LBC_TYPE_TAGGED_USERDATA_BASE \<le> data ! t \<and> index < length r then data[t := r ! index] else data) data tags =
   foldl (remap_at r) data tags"
proof -
  have "(let index = unat (data ! t - LBC_TYPE_TAGGED_USERDATA_BASE) in
     if LBC_TYPE_TAGGED_USERDATA_BASE \<le> data ! t \<and> index < length r then data[t := r ! index] else data) = remap_at r data t" for data t
    by (auto simp: remap_at_def remap_tag_def Let_def not_less list_update_beyond)
  then show ?thesis by (simp only:)
qed

lemma remapUserdataTypes_typeinfo:
  assumes "length types < 2 ^ 32" "length upvals < 2 ^ 32" "length locals < 2 ^ 32"
  shows "remapUserdataTypes (typeinfo_bytes types upvals locals) r = Inr (remapped_typeinfo r types upvals locals)"
proof -
  let ?v = "\<lambda>xs. varint (ucast (word_of_nat (length xs) :: u32))"
  let ?hd = "?v types @ ?v upvals @ ?v locals"
  let ?L = "concat (map local_bytes locals)" and ?data = "typeinfo_bytes types upvals locals"
  let ?t2 = "take 2 types" and ?types = "take 2 types @ map (remap_tag r) (drop 2 types)" and ?upvals = "map (remap_tag r) upvals"
  define h where "h = length ?hd"
  have data: "?data = (?hd @ ?t2) @ drop 2 types @ upvals @ ?L" by (simp add: typeinfo_bytes_def)
  have len: "length ?data = h + length types + length upvals + length ?L" by (simp add: typeinfo_bytes_def h_def)
  have lt: "length ?types = length types" by (metis append_take_drop_id length_append length_map)
  have range: "[h + 2..<h + length types] = [length (?hd @ ?t2)..<length (?hd @ ?t2) + length (drop 2 types)]"
    by (cases "length types < 2") (auto simp: h_def min_def)
  have ups: "[h + length types..<h + length types + length upvals] = [length (?hd @ ?types)..<length (?hd @ ?types) + length upvals]"
    by (subst (1 2) length_append) (simp only: lt h_def)
  have loc: "local_offsets (h + length types + length upvals) locals = local_offsets (length (?hd @ ?types @ ?upvals)) locals"
    by (subst length_append, subst length_append) (simp only: lt h_def length_map add.assoc)
  have "type_tags ?data = Inr ([h + 2..<h + length types] @ [h + length types..<h + length types + length upvals] @
      local_offsets (h + length types + length upvals) locals)"
    using local_offsets_less [of _ "h + length types + length upvals" locals]
    unfolding type_tags_def visit_typeinfo [OF assms, folded h_def] by (auto simp: len)
  moreover have "foldl (remap_at r) (foldl (remap_at r) (foldl (remap_at r) ?data [h + 2..<h + length types])
      [h + length types..<h + length types + length upvals]) (local_offsets (h + length types + length upvals) locals) =
    remapped_typeinfo r types upvals locals"
    unfolding range data remap_range
    using remap_range [of r "?hd @ ?types" upvals ?L] remap_locals [of r "?hd @ ?types @ ?upvals" locals "[]"]
    unfolding ups loc by (simp add: remapped_typeinfo_def typeinfo_bytes_def min_def)
  ultimately show ?thesis by (simp add: remapUserdataTypes_def remap_step)
qed

section \<open>Functions\<close>

lemma decodes_embed: "m = Inr x \<Longrightarrow> decodes (embedR m) [] x"
  by (rule decodesI) (simp add: embedR_def)

lemma decodes_refs:
  assumes "\<And>x. x \<in> set xs \<Longrightarrow> decodes r (enc x) (f x)" "length xs < 2 ^ 31"
  shows "decodes (bindR read_array_size (\<lambda>n. repeatR n r)) (varint (ucast (word_of_nat (length xs) :: u32)) @ concat (map enc xs)) (map f xs)"
  by (intro decodes_bind [OF decodes_array_size [OF assms(2)]] decodes_repeat_map assms(1))

lemma decodes_typeinfo:
  assumes "info = typeinfo_bytes types upvals locals" "length info < 2 ^ 32"
  shows "decodes (read_typeinfo 3 r) (varint (ucast (word_of_nat (length info) :: u32)) @ info) (remapped_typeinfo r types upvals locals)"
proof -
  have un: "unat (word_of_nat (length info) :: u32) = length info" using assms(2) by (rule unat_u32_of_nat)
  have "info \<noteq> []" unfolding assms(1) by (simp add: typeinfo_bytes_def varint_not_Nil)
  then have nz: "(word_of_nat (length info) :: u32) \<noteq> 0" using un by (metis length_0_conv unat_0)
  have "length locals \<le> length (concat (map local_bytes locals))"
    by (induction locals) (auto simp: local_bytes_def)
  then have "length types < 2 ^ 32" "length upvals < 2 ^ 32" "length locals < 2 ^ 32"
    using assms by (auto simp: typeinfo_bytes_def)
  from remapUserdataTypes_typeinfo [OF this, of r]
  have "decodes (embedR (remapUserdataTypes info r)) [] (remapped_typeinfo r types upvals locals)"
    unfolding assms(1) by (rule decodes_embed)
  then have "decodes (bindR (read_bytes (unat (word_of_nat (length info) :: u32))) (\<lambda>types. if (3::byte) = 3
      then embedR (remapUserdataTypes types r) else returnR types)) info (remapped_typeinfo r types upvals locals)"
    unfolding un by (intro decodes_bind_end [OF decodes_read_bytes [OF refl]]) simp
  then show ?thesis
    unfolding read_typeinfo_def by (intro decodes_bind [OF decodes_varint_u32]) (simp add: nz)
qed

lemma decodes_no_typeinfo: "decodes (read_typeinfo 3 r) (varint 0) []"
proof -
  have "decodes readVarInt (varint 0) 0" using decodes_varint_u32 [of 0] by simp
  then show ?thesis unfolding read_typeinfo_def by (rule decodes_bind_end) (simp add: decodes_return)
qed

text \<open>What loading the function under construction gives. The record of a proto is described field by field: lines are
  compared through \<^verbatim>\<open>luaG_getline\<close>.\<close>

definition local_value :: "bytes list \<Rightarrow> DebugLocal \<Rightarrow> LocVar cpp" where
  "local_value strings l =
     bindE (string_ref strings (dl_name l)) (\<lambda>name.
     Inr \<lparr>lv_varname = name, lv_startpc = dl_startpc l, lv_endpc = dl_endpc l, lv_reg = dl_reg l\<rparr>)"

definition loads_as ::
  "load_context \<Rightarrow> bytes \<Rightarrow> BytecodeBuilder \<Rightarrow> Function \<Rightarrow> byte \<Rightarrow> u64 \<Rightarrow> u32 list \<Rightarrow> Proto \<Rightarrow> bool" where
  "loads_as C r b func flags cost insns p \<longleftrightarrow>
     p_bytecodeid p = length (ld_protos C) \<and>
     p_maxstacksize p = f_maxstacksize func \<and> p_numparams p = f_numparams func \<and> p_nups p = f_numupvalues func \<and>
     p_is_vararg p = (if f_isvararg func then 1 else 0) \<and> p_flags p = flags \<and>
     p_typeinfo p = (if f_typeinfo func \<noteq> [] \<or> bb_typedUpvals b \<noteq> [] \<or> bb_typedLocals b \<noteq> []
       then remapped_typeinfo r (f_typeinfo func) (bb_typedUpvals b) (bb_typedLocals b) else []) \<and>
     (case le_atom (ld_env C) of None \<Rightarrow> p_code p = insns | Some atom \<Rightarrow> udata_rewrite atom (p_k p) insns 0 = Inr (p_code p)) \<and>
     constants_value b C = Inr (p_k p) \<and>
     mapE (proto_ref (ld_protoCount C) (ld_protos C)) (bb_protos b) = Inr (p_p p) \<and>
     p_linedefined p = f_debuglinedefined func \<and>
     string_ref (ld_strings C) (f_debugname func) = Inr (p_debugname p) \<and>
     (if 0 \<in> set (bb_lines b) then p_lineinfo p = None
      else \<forall>pc < length (bb_lines b). luaG_getline p pc = bb_lines b ! pc) \<and>
     mapE (local_value (ld_strings C)) (bb_debugLocals b) = Inr (p_locvars p) \<and>
     mapE (string_ref (ld_strings C)) (bb_debugUpvals b) = Inr (p_upvalues p) \<and>
     p_feedbackvec p = bb_fbSlots b \<and>
     p_cost p = (if flags AND LPF_INLINABLE \<noteq> 0 then cost else 0)"

text \<open>The state in which a function can be written and loaded: counts fit their fields, every reference is valid, and
  names of upvalues are given for all of them or for none.\<close>

definition loadable :: "load_context \<Rightarrow> BytecodeBuilder \<Rightarrow> Function \<Rightarrow> u32 list \<Rightarrow> bool" where
  "loadable C b func insns \<longleftrightarrow>
     \<not> ld_legacy C \<and> length (bb_lines b) = length insns \<and>
     length insns < 2 ^ 31 \<and> length (bb_constants b) < 2 ^ 31 \<and> length (bb_protos b) < 2 ^ 31 \<and>
     length (bb_debugLocals b) < 2 ^ 31 \<and> length (bb_fbSlots b) < 2 ^ 32 \<and>
     length (typeinfo_bytes (f_typeinfo func) (bb_typedUpvals b) (bb_typedLocals b)) < 2 ^ 32 \<and>
     is_Inr (constants_value b C) \<and>
     is_Inr (mapE (proto_ref (ld_protoCount C) (ld_protos C)) (bb_protos b)) \<and>
     is_Inr (string_ref (ld_strings C) (f_debugname func)) \<and>
     is_Inr (mapE (local_value (ld_strings C)) (bb_debugLocals b)) \<and>
     is_Inr (mapE (string_ref (ld_strings C)) (bb_debugUpvals b)) \<and>
     (bb_debugLocals b \<noteq> [] \<or> bb_debugUpvals b \<noteq> [] \<longrightarrow> length (bb_debugUpvals b) = unat (f_numupvalues func)) \<and>
     unat (f_debuglinedefined func) < 2 ^ 31 \<and>
     (\<forall>line \<in> set (bb_lines b). 0 \<le> line \<and> line < 2 ^ 31) \<and>
     (case le_atom (ld_env C) of None \<Rightarrow> True
      | Some atom \<Rightarrow> \<forall>ks. constants_value b C = Inr ks \<longrightarrow> is_Inr (udata_rewrite atom ks insns 0))"

definition debug_local_bytes :: "DebugLocal \<Rightarrow> bytes" where
  "debug_local_bytes l = varint (ucast (dl_name l)) @ varint (ucast (dl_startpc l)) @ varint (ucast (dl_endpc l)) @ [dl_reg l]"

lemma debug_written:
  "writeDebugInfo b ss = ss @ (if bb_debugLocals b \<noteq> [] \<or> bb_debugUpvals b \<noteq> []
     then [1] @ varint (ucast (word_of_nat (length (bb_debugLocals b)) :: u32)) @ concat (map debug_local_bytes (bb_debugLocals b)) @
       varint (ucast (word_of_nat (length (bb_debugUpvals b)) :: u32)) @ concat (map (\<lambda>u. varint (ucast u)) (bb_debugUpvals b))
     else [0])"
proof -
  have "foldl (\<lambda>ss l. writeByte (writeUnsigned (writeUnsigned (writeUnsigned ss (dl_name l)) (dl_startpc l)) (dl_endpc l)) (dl_reg l)) ss ls =
      ss @ concat (map debug_local_bytes ls)" for ss ls
    by (rule foldl_append) (simp add: writes debug_local_bytes_def)
  moreover have "foldl writeUnsigned ss us = ss @ concat (map (\<lambda>u. varint (ucast u)) us)" for ss us
    by (rule foldl_append) (simp add: writes)
  ultimately show ?thesis by (simp add: writeDebugInfo_def Let_def writes)
qed

lemma mapE_decodes:
  assumes "mapE f xs = Inr ys" "\<And>x y. x \<in> set xs \<Longrightarrow> f x = Inr y \<Longrightarrow> decodes r (enc x) y"
  shows "decodes (repeatR (length xs) r) (concat (map enc xs)) ys"
  using assms
proof (induction xs arbitrary: ys)
  case (Cons x xs)
  from Cons.prems(1) obtain y ys' where y: "f x = Inr y" "mapE f xs = Inr ys'" "ys = y # ys'" by (auto simp: bindE_Inr_iff)
  have "decodes (repeatR (length (x # xs)) r) (enc x @ concat (map enc xs)) (y # ys')"
    using Cons y(1,2) by (auto intro!: decodes_bind [of r "enc x" y] decodes_bind_return)
  with y(3) show ?case by simp
qed auto

lemma decodes_debuginfo:
  assumes locals: "mapE (local_value strings) (bb_debugLocals b) = Inr locvars" "length (bb_debugLocals b) < 2 ^ 31"
    and upvals: "mapE (string_ref strings) (bb_debugUpvals b) = Inr upvalues" "length (bb_debugUpvals b) = unat nups"
  shows "decodes (read_debuginfo strings nups)
    (varint (ucast (word_of_nat (length (bb_debugLocals b)) :: u32)) @ concat (map debug_local_bytes (bb_debugLocals b)) @
     varint (ucast (word_of_nat (length (bb_debugUpvals b)) :: u32)) @ concat (map (\<lambda>u. varint (ucast u)) (bb_debugUpvals b))) (locvars, upvalues)"
proof -
  have l: "decodes (repeatR (length (bb_debugLocals b)) (read_locvar strings)) (concat (map debug_local_bytes (bb_debugLocals b))) locvars"
  proof (rule mapE_decodes [OF locals(1)])
    fix l v assume "local_value strings l = Inr v"
    then obtain name where name: "string_ref strings (dl_name l) = Inr name"
      "v = \<lparr>lv_varname = name, lv_startpc = dl_startpc l, lv_endpc = dl_endpc l, lv_reg = dl_reg l\<rparr>"
      by (auto simp: local_value_def bindE_Inr_iff)
    show "decodes (read_locvar strings) (debug_local_bytes l) v"
      unfolding read_locvar_def debug_local_bytes_def name(2)
      by (intro decodes_bind [OF decodes_string [OF name(1)]] decodes_bind [OF decodes_varint_u32]
          decodes_bind_return [OF decodes_uint8] refl)
  qed
  have u: "decodes (repeatR (length (bb_debugUpvals b)) (readString strings)) (concat (map (\<lambda>u. varint (ucast u)) (bb_debugUpvals b))) upvalues"
    by (rule mapE_decodes [OF upvals(1)]) (rule decodes_string)
  have n: "unat (word_of_nat (length (bb_debugUpvals b)) :: u32) = length (bb_debugUpvals b)"
    using upvals(2) unat_byte [of nups] by (intro unat_u32_of_nat) simp
  show ?thesis
    unfolding read_debuginfo_def
    apply (rule decodes_bind [OF decodes_array_size [OF locals(2)]])
    apply (rule decodes_bind [OF l])
    apply (rule decodes_bind [OF decodes_varint_u32])
    unfolding n
    apply (rule decodes_bind_lift)
     apply (simp add: upvals(2))
    apply (rule decodes_bind_end [OF u])
    apply (rule decodes_return)
    done
qed

lemma fbslots_written: "foldl (\<lambda>ss pc. writeUnsigned (writeByte ss LFT_CALLTARGET) pc) ss pcs =
  ss @ concat (map (\<lambda>pc. LFT_CALLTARGET # varint (ucast pc)) pcs)"
  by (rule foldl_append) (simp add: writes)

lemma decodes_fbslots:
  assumes "length pcs < 2 ^ 32"
  shows "decodes (bindR readVarInt (\<lambda>n. repeatR (unat n) read_fbslot))
    (varint (word_of_nat (length pcs)) @ concat (map (\<lambda>pc. LFT_CALLTARGET # varint (ucast pc)) pcs)) pcs"
proof -
  have "decodes read_fbslot ([LFT_CALLTARGET] @ varint (ucast pc)) pc" for pc
    unfolding read_fbslot_def
    by (rule decodes_bind [OF decodes_uint8], rule decodes_bind_lift) (auto intro: decodes_varint_u32)
  then have "decodes (repeatR (length pcs) read_fbslot) (concat (map (\<lambda>pc. LFT_CALLTARGET # varint (ucast pc)) pcs)) (map (\<lambda>pc. pc) pcs)"
    by (intro decodes_repeat_map) simp
  moreover have "unat (word_of_nat (length pcs) :: u32) = length pcs" using assms by (rule unat_u32_of_nat)
  ultimately show ?thesis by (intro decodes_bind [OF decodes_varint_nat [OF assms]]) simp
qed

lemma decodes_code: "decodes (repeatR (length insns) read_uint32) (concat (map (\<lambda>i. le_bytes 4 (unat i)) insns)) insns"
  using decodes_repeat_map [of insns read_uint32 "\<lambda>i. le_bytes 4 (unat i)" "\<lambda>i. i"] decodes_uint32 by simp

lemma code_written: "foldl writeInt ss insns = ss @ concat (map (\<lambda>i. le_bytes 4 (unat i)) insns)"
  by (rule foldl_append) (simp add: writes)

lemma unsigned_written: "foldl writeUnsigned ss us = ss @ concat (map (\<lambda>u. varint (ucast u)) us)"
  by (rule foldl_append) (simp add: writes)

lemma decodes_protos:
  assumes "mapE (proto_ref n protos) fids = Inr ps" "length fids < 2 ^ 31"
  shows "decodes (bindR read_array_size (\<lambda>sizep. repeatR sizep (bindR readVarInt (\<lambda>fid. liftR (proto_ref n protos fid)))))
    (varint (ucast (word_of_nat (length fids) :: u32)) @ concat (map (\<lambda>u. varint (ucast u)) fids)) ps"
  by (rule decodes_bind [OF decodes_array_size [OF assms(2)]], rule mapE_decodes [OF assms(1)], rule decodes_liftR,
      assumption, rule decodes_varint_u32, rule refl)

text \<open>The parts of a written function: type information, constants, lines and debug information.\<close>

definition type_part :: "BytecodeBuilder \<Rightarrow> Function \<Rightarrow> bytes" where
  "type_part b func =
     (if f_typeinfo func \<noteq> [] \<or> bb_typedUpvals b \<noteq> [] \<or> bb_typedLocals b \<noteq> []
      then let info = typeinfo_bytes (f_typeinfo func) (bb_typedUpvals b) (bb_typedLocals b)
           in varint (ucast (word_of_nat (length info) :: u32)) @ info
      else varint 0)"

definition debug_part :: "BytecodeBuilder \<Rightarrow> bytes" where
  "debug_part b = (if bb_debugLocals b \<noteq> [] \<or> bb_debugUpvals b \<noteq> []
     then [1] @ varint (ucast (word_of_nat (length (bb_debugLocals b)) :: u32)) @ concat (map debug_local_bytes (bb_debugLocals b)) @
       varint (ucast (word_of_nat (length (bb_debugUpvals b)) :: u32)) @ concat (map (\<lambda>u. varint (ucast u)) (bb_debugUpvals b))
     else [0])"

definition line_part :: "int list \<Rightarrow> nat \<Rightarrow> bytes" where
  "line_part lines l = (if 0 \<in> set lines then [0] else 1 # lineinfo_bytes lines l)"

definition tail_part :: "BytecodeBuilder \<Rightarrow> byte \<Rightarrow> u64 \<Rightarrow> bytes" where
  "tail_part b flags cost =
     (varint (word_of_nat (length (bb_fbSlots b))) @ concat (map (\<lambda>pc. LFT_CALLTARGET # varint (ucast pc)) (bb_fbSlots b))) @
     (if flags AND LPF_INLINABLE \<noteq> 0 then varint cost else [])"

definition count_part :: "'a list \<Rightarrow> bytes" where
  "count_part xs = varint (ucast (word_of_nat (length xs) :: u32))"

lemma type_part_written:
  "(if f_typeinfo func \<noteq> [] \<or> bb_typedUpvals b \<noteq> [] \<or> bb_typedLocals b \<noteq> []
    then bindE (writeTypeInfo b func) (\<lambda>info. Inr (writeSize ss (length info) @ info)) else Inr (writeVarInt ss 0)) = Inr ss' \<Longrightarrow>
   ss' = ss @ type_part b func"
  by (auto simp: bindE_Inr_iff type_part_def writes Let_def dest!: typeinfo_written split: if_splits)

lemma line_part_written:
  assumes "(if \<forall>line \<in> set lines. line \<noteq> 0 then writeLineInfo (writeByte ss 1) lines else Inr (writeByte ss 0)) = Inr ss'"
  obtains l where "ss' = ss @ line_part lines l" "0 \<in> set lines \<or> good_span lines l"
proof (cases "0 \<in> set lines")
  case True
  then have "\<not> (\<forall>line \<in> set lines. line \<noteq> 0)" by blast
  with assms have "ss' = ss @ [0]" by (simp only: if_False writes sum.inject)
  with True show ?thesis by (intro that) (auto simp: line_part_def)
next
  case False
  with assms have w: "writeLineInfo (writeByte ss 1) lines = Inr ss'" by (auto split: if_splits)
  then have "lines \<noteq> []" by (auto simp: writeLineInfo_def calcLinesSpan_def bindE_Inr_iff)
  with good_span_exists obtain l where "good_span lines l" by blast
  with w False show ?thesis by (intro that [of l]) (auto simp: lineinfo_written line_part_def writes)
qed

lemma function_written:
  assumes "writeFunction ss fid flags cost insns b = Inr data" "func = bb_functions b ! fid"
  obtains ss1 ss2 l where
    "ss1 = ss @ [f_maxstacksize func, f_numparams func, f_numupvalues func, if f_isvararg func then 1 else 0, flags] @
       type_part b func @ count_part insns @ concat (map (\<lambda>i. le_bytes 4 (unat i)) insns) @ count_part (bb_constants b)"
    "foldE (writeConstant b) ss1 (bb_constants b) = Inr ss2"
    "data = ss2 @ (count_part (bb_protos b) @ concat (map (\<lambda>u. varint (ucast u)) (bb_protos b))) @
       varint (scast (f_debuglinedefined func)) @ varint (ucast (f_debugname func)) @ line_part (bb_lines b) l @ debug_part b @
       tail_part b flags cost"
    "0 \<in> set (bb_lines b) \<or> good_span (bb_lines b) l"
proof -
  let ?head = "writeByte (writeByte (writeByte (writeByte (writeByte ss (f_maxstacksize func)) (f_numparams func))
    (f_numupvalues func)) (if f_isvararg func then 1 else 0)) flags"
  from assms(1) obtain s1 s2 s3 where
    s1: "(if f_typeinfo func \<noteq> [] \<or> bb_typedUpvals b \<noteq> [] \<or> bb_typedLocals b \<noteq> []
      then bindE (writeTypeInfo b func) (\<lambda>info. Inr (writeSize ?head (length info) @ info)) else Inr (writeVarInt ?head 0)) = Inr s1" and
    s2: "foldE (writeConstant b) (writeSize (foldl writeInt (writeSize s1 (length insns)) insns) (length (bb_constants b))) (bb_constants b) = Inr s2" and
    s3: "(if \<forall>line \<in> set (bb_lines b). line \<noteq> 0
      then writeLineInfo (writeByte (writeUnsigned (writeSigned (foldl writeUnsigned (writeSize s2 (length (bb_protos b))) (bb_protos b))
        (f_debuglinedefined func)) (f_debugname func)) 1) (bb_lines b)
      else Inr (writeByte (writeUnsigned (writeSigned (foldl writeUnsigned (writeSize s2 (length (bb_protos b))) (bb_protos b))
        (f_debuglinedefined func)) (f_debugname func)) 0)) = Inr s3" and
    data: "(if flags AND LPF_INLINABLE \<noteq> 0
      then writeVarInt (foldl (\<lambda>ss pc. writeUnsigned (writeByte ss LFT_CALLTARGET) pc)
        (writeVarInt (writeDebugInfo b s3) (word_of_nat (length (bb_fbSlots b)))) (bb_fbSlots b)) cost
      else foldl (\<lambda>ss pc. writeUnsigned (writeByte ss LFT_CALLTARGET) pc)
        (writeVarInt (writeDebugInfo b s3) (word_of_nat (length (bb_fbSlots b)))) (bb_fbSlots b)) = data"
    unfolding writeFunction_def Let_def assms(2) [symmetric] bindE_Inr_iff sum.inject by blast
  from line_part_written [OF s3] obtain l where l: "s3 = writeUnsigned (writeSigned (foldl writeUnsigned
      (writeSize s2 (length (bb_protos b))) (bb_protos b)) (f_debuglinedefined func)) (f_debugname func) @ line_part (bb_lines b) l"
    "0 \<in> set (bb_lines b) \<or> good_span (bb_lines b) l" by blast
  show thesis
  proof (rule that [OF _ s2 _ l(2)])
    show "writeSize (foldl writeInt (writeSize s1 (length insns)) insns) (length (bb_constants b)) = ss @
        [f_maxstacksize func, f_numparams func, f_numupvalues func, if f_isvararg func then 1 else 0, flags] @
        type_part b func @ count_part insns @ concat (map (\<lambda>i. le_bytes 4 (unat i)) insns) @ count_part (bb_constants b)"
      unfolding type_part_written [OF s1] by (simp add: code_written writes count_part_def)
    show "data = s2 @ (count_part (bb_protos b) @ concat (map (\<lambda>u. varint (ucast u)) (bb_protos b))) @
       varint (scast (f_debuglinedefined func)) @ varint (ucast (f_debugname func)) @ line_part (bb_lines b) l @ debug_part b @
       tail_part b flags cost"
      unfolding data [symmetric] l(1) fbslots_written by (simp add: debug_written unsigned_written writes count_part_def debug_part_def tail_part_def)
  qed
qed

text \<open>The rest of a function is read back.\<close>

lemma decodes_lines:
  assumes "0 \<in> set lines \<or> good_span lines l" "\<forall>line \<in> set lines. 0 \<le> line \<and> line < 2 ^ 31"
  shows "decodes (bindR read_uint8 (\<lambda>lineinfo. if lineinfo \<noteq> 0 then bindR (read_lineinfo (length lines)) (\<lambda>l. returnR (Some l)) else returnR None))
    (line_part lines l) (if 0 \<in> set lines then None else Some (lineinfo_of lines l))"
proof (cases "0 \<in> set lines")
  case True
  then show ?thesis unfolding line_part_def by (auto intro!: decodes_bind_end [OF decodes_uint8])
next
  case False
  with assms have "decodes (bindR (read_lineinfo (length lines)) (\<lambda>l. returnR (Some l))) (lineinfo_bytes lines l) (Some (lineinfo_of lines l))"
    by (auto intro!: decodes_bind_return lineinfo_decoded)
  then have "decodes (bindR read_uint8 (\<lambda>lineinfo. if lineinfo \<noteq> 0 then bindR (read_lineinfo (length lines)) (\<lambda>l. returnR (Some l)) else returnR None))
    ([1] @ lineinfo_bytes lines l) (Some (lineinfo_of lines l))"
    by (intro decodes_bind [OF decodes_uint8]) simp
  with False show ?thesis by (simp add: line_part_def)
qed

lemma decodes_debug_part:
  assumes "mapE (local_value strings) (bb_debugLocals b) = Inr locvars" "length (bb_debugLocals b) < 2 ^ 31"
    "mapE (string_ref strings) (bb_debugUpvals b) = Inr upvalues"
    "bb_debugLocals b \<noteq> [] \<or> bb_debugUpvals b \<noteq> [] \<Longrightarrow> length (bb_debugUpvals b) = unat nups"
  shows "decodes (bindR read_uint8 (\<lambda>debuginfo. if debuginfo \<noteq> 0 then read_debuginfo strings nups else returnR ([], [])))
    (debug_part b) (locvars, upvalues)"
proof (cases "bb_debugLocals b \<noteq> [] \<or> bb_debugUpvals b \<noteq> []")
  case True
  from decodes_debuginfo [OF assms(1,2,3) assms(4) [OF True]] True show ?thesis
    unfolding debug_part_def by (auto intro!: decodes_bind [OF decodes_uint8, of _ 1, unfolded append_Cons append_Nil])
next
  case False
  with assms(1,3) show ?thesis unfolding debug_part_def by (auto intro!: decodes_bind_end [OF decodes_uint8])
qed

lemma decodes_type_part:
  assumes "length (typeinfo_bytes (f_typeinfo func) (bb_typedUpvals b) (bb_typedLocals b)) < 2 ^ 32"
  shows "decodes (read_typeinfo 3 r) (type_part b func)
    (if f_typeinfo func \<noteq> [] \<or> bb_typedUpvals b \<noteq> [] \<or> bb_typedLocals b \<noteq> []
     then remapped_typeinfo r (f_typeinfo func) (bb_typedUpvals b) (bb_typedLocals b) else [])"
  using decodes_typeinfo [OF refl assms, of r] decodes_no_typeinfo [of r] by (simp add: type_part_def Let_def)

lemma decodes_tail:
  assumes "length (bb_fbSlots b) < 2 ^ 32"
    "\<And>cost'. cost' = (if flags AND LPF_INLINABLE \<noteq> 0 then cost else 0) \<Longrightarrow> f (bb_fbSlots b) cost' = x"
  shows "decodes (bindR (bindR readVarInt (\<lambda>n. repeatR (unat n) read_fbslot)) (\<lambda>feedbackvec.
      bindR (if flags AND LPF_INLINABLE \<noteq> 0 then readVarInt64 else returnR 0) (\<lambda>cost. returnR (f feedbackvec cost))))
    (tail_part b flags cost) x"
  unfolding tail_part_def
proof (rule decodes_bind [OF decodes_fbslots [OF assms(1)]])
  have "decodes (if flags AND LPF_INLINABLE \<noteq> 0 then readVarInt64 else returnR 0)
      (if flags AND LPF_INLINABLE \<noteq> 0 then varint cost else []) (if flags AND LPF_INLINABLE \<noteq> 0 then cost else 0)"
    by (auto intro: decodes_varint64)
  then show "decodes (bindR (if flags AND LPF_INLINABLE \<noteq> 0 then readVarInt64 else returnR 0) (\<lambda>cost. returnR (f (bb_fbSlots b) cost)))
      (if flags AND LPF_INLINABLE \<noteq> 0 then varint cost else []) x"
    by (rule decodes_bind_return) (rule assms(2) [OF refl])
qed

lemma bindR_assoc: "bindR (bindR r f) g = bindR r (\<lambda>x. bindR (f x) g)"
  by (intro ext) (auto simp: bindR_def bindE_def split: sum.split)

lemma decodes_bind_assoc:
  "decodes (bindR r f) bs x \<Longrightarrow> decodes (g x) cs y \<Longrightarrow> decodes (bindR r (\<lambda>z. bindR (f z) g)) (bs @ cs) y"
  by (simp only: bindR_assoc [symmetric] decodes_bind)

lemma decodes_count: "length xs < 2 ^ 31 \<Longrightarrow> decodes read_array_size (count_part xs) (length xs)"
  unfolding count_part_def by (rule decodes_array_size)

text \<open>The body of a proto, part by part.\<close>

lemma decodes_body:
  fixes func b C cs ks code ps name l locvars upvalues flags cost insns r
  defines "bytes \<equiv> [f_maxstacksize func] @ [f_numparams func] @ [f_numupvalues func] @ [if f_isvararg func then 1 else 0] @ [flags] @
       type_part b func @ count_part insns @ concat (map (\<lambda>i. le_bytes 4 (unat i)) insns) @ [] @ cs @
       [] @ count_part (bb_protos b) @ concat (map (\<lambda>u. varint (ucast u)) (bb_protos b)) @
       varint (scast (f_debuglinedefined func)) @ varint (ucast (f_debugname func)) @ line_part (bb_lines b) l @ debug_part b @
       tail_part b flags cost"
  assumes sizes: "length (typeinfo_bytes (f_typeinfo func) (bb_typedUpvals b) (bb_typedLocals b)) < 2 ^ 32" "length insns < 2 ^ 31"
      "length (bb_protos b) < 2 ^ 31" "unat (f_debuglinedefined func) < 2 ^ 31" "length (bb_debugLocals b) < 2 ^ 31"
      "length (bb_fbSlots b) < 2 ^ 32"
    and cs: "decodes (read_constants C) cs ks"
    and code: "decodes (case le_atom (ld_env C) of None \<Rightarrow> returnR insns | Some atom \<Rightarrow> liftR (udata_rewrite atom ks insns 0)) [] code"
    and ps: "mapE (proto_ref (ld_protoCount C) (ld_protos C)) (bb_protos b) = Inr ps"
    and name: "string_ref (ld_strings C) (f_debugname func) = Inr name"
    and lines: "0 \<in> set (bb_lines b) \<or> good_span (bb_lines b) l" "\<forall>line \<in> set (bb_lines b). 0 \<le> line \<and> line < 2 ^ 31"
      "length (bb_lines b) = length insns"
    and locvars: "mapE (local_value (ld_strings C)) (bb_debugLocals b) = Inr locvars"
    and upvalues: "mapE (string_ref (ld_strings C)) (bb_debugUpvals b) = Inr upvalues"
      "bb_debugLocals b \<noteq> [] \<or> bb_debugUpvals b \<noteq> [] \<Longrightarrow> length (bb_debugUpvals b) = unat (f_numupvalues func)"
  shows "decodes (read_proto_body C getLuwuFeatures 3 r) bytes \<lparr>p_bytecodeid = length (ld_protos C), p_maxstacksize = f_maxstacksize func, p_numparams = f_numparams func,
    p_nups = f_numupvalues func, p_is_vararg = (if f_isvararg func then 1 else 0), p_flags = flags,
    p_typeinfo = (if f_typeinfo func \<noteq> [] \<or> bb_typedUpvals b \<noteq> [] \<or> bb_typedLocals b \<noteq> []
       then remapped_typeinfo r (f_typeinfo func) (bb_typedUpvals b) (bb_typedLocals b) else []),
    p_code = code, p_k = ks, p_p = ps, p_linedefined = f_debuglinedefined func, p_debugname = name, p_lineinfo = (if 0 \<in> set (bb_lines b) then None else Some (lineinfo_of (bb_lines b) l)),
    p_locvars = locvars, p_upvalues = upvalues, p_feedbackvec = bb_fbSlots b,
    p_cost = (if flags AND LPF_INLINABLE \<noteq> 0 then cost else 0)\<rparr>"
proof -
  have protos: "decodes (repeatR (length (bb_protos b)) (bindR readVarInt (\<lambda>fid. liftR (proto_ref (ld_protoCount C) (ld_protos C) fid))))
      (concat (map (\<lambda>u. varint (ucast u)) (bb_protos b))) ps"
    by (rule mapE_decodes [OF ps], rule decodes_liftR, assumption, rule decodes_varint_u32, rule refl)
  have version: "(3 :: byte) = 1 \<longleftrightarrow> False" by simp
  show ?thesis
    unfolding read_proto_body_def bytes_def
    apply (simp only: getLuwuFeatures_def BytecodeFeatures.simps if_True if_False simp_thms version)
    apply (rule decodes_bind [OF decodes_uint8])+
    apply (rule decodes_bind [OF decodes_type_part [OF sizes(1)]])
    apply (rule decodes_bind [OF decodes_count [OF sizes(2)]])
    apply (rule decodes_bind [OF decodes_code])
    apply (rule decodes_bind [OF decodes_return])
    apply (rule decodes_bind [OF cs])
    apply (rule decodes_bind [OF code])
    apply (rule decodes_bind [OF decodes_count [OF sizes(3)]])
    apply (rule decodes_bind [OF protos])
    apply (rule decodes_bind [OF decodes_index [OF sizes(4)]])
    apply (rule decodes_bind [OF decodes_string [OF name]])
    apply (rule decodes_bind_assoc [OF decodes_lines [OF lines(1,2), unfolded lines(3)]])
    apply (rule decodes_bind_assoc [OF decodes_debug_part [OF locvars sizes(5) upvalues]], assumption)
    apply (simp only: prod.case)
    apply (rule decodes_tail [OF sizes(6)])
    apply simp
    done
qed

lemma function_round_trip:
  assumes w: "writeFunction [] fid flags cost insns b = Inr data" and ok: "loadable C b (bb_functions b ! fid) insns"
  obtains p where "loads_as C r b (bb_functions b ! fid) flags cost insns p"
    "decodes (read_proto_body C getLuwuFeatures 3 r) data p"
proof -
  define func where "func = bb_functions b ! fid"
  from ok obtain ks ps name locvars upvalues where
    ks: "constants_value b C = Inr ks" and
    ps: "mapE (proto_ref (ld_protoCount C) (ld_protos C)) (bb_protos b) = Inr ps" and
    name: "string_ref (ld_strings C) (f_debugname func) = Inr name" and
    locvars: "mapE (local_value (ld_strings C)) (bb_debugLocals b) = Inr locvars" and
    upvalues: "mapE (string_ref (ld_strings C)) (bb_debugUpvals b) = Inr upvalues" and
    ups: "bb_debugLocals b \<noteq> [] \<or> bb_debugUpvals b \<noteq> [] \<Longrightarrow> length (bb_debugUpvals b) = unat (f_numupvalues func)"
    unfolding loadable_def func_def [symmetric] is_Inr_def by (auto split: sum.splits)
  from ok have sizes: "\<not> ld_legacy C" "length (bb_lines b) = length insns" "length insns < 2 ^ 31" "length (bb_constants b) < 2 ^ 31"
    "length (bb_protos b) < 2 ^ 31" "length (bb_debugLocals b) < 2 ^ 31" "length (bb_fbSlots b) < 2 ^ 32"
    "length (typeinfo_bytes (f_typeinfo func) (bb_typedUpvals b) (bb_typedLocals b)) < 2 ^ 32"
    "unat (f_debuglinedefined func) < 2 ^ 31" "\<forall>line \<in> set (bb_lines b). 0 \<le> line \<and> line < 2 ^ 31"
    by (auto simp: loadable_def func_def)
  from ok ks obtain code where code: "(case le_atom (ld_env C) of None \<Rightarrow> Inr insns | Some atom \<Rightarrow> udata_rewrite atom ks insns 0) = Inr code"
    unfolding loadable_def is_Inr_def by (auto split: option.splits sum.splits)
  from function_written [OF w func_def] obtain ss1 ss2 l where
    ss1: "ss1 = [] @ [f_maxstacksize func, f_numparams func, f_numupvalues func, if f_isvararg func then 1 else 0, flags] @
       type_part b func @ count_part insns @ concat (map (\<lambda>i. le_bytes 4 (unat i)) insns) @ count_part (bb_constants b)" and
    ss2: "foldE (writeConstant b) ss1 (bb_constants b) = Inr ss2" and
    data: "data = ss2 @ (count_part (bb_protos b) @ concat (map (\<lambda>u. varint (ucast u)) (bb_protos b))) @
       varint (scast (f_debuglinedefined func)) @ varint (ucast (f_debugname func)) @ line_part (bb_lines b) l @ debug_part b @
       tail_part b flags cost" and
    l: "0 \<in> set (bb_lines b) \<or> good_span (bb_lines b) l" by blast
  from constants_read_back [OF ss2 ks sizes(4,1)] obtain cs where cs: "ss2 = ss1 @ cs"
    "decodes (read_constants C) (count_part (bb_constants b) @ cs) ks" by (auto simp: count_part_def)
  define lines where "lines = (if 0 \<in> set (bb_lines b) then None else Some (lineinfo_of (bb_lines b) l))"
  define p where "p = \<lparr>p_bytecodeid = length (ld_protos C), p_maxstacksize = f_maxstacksize func, p_numparams = f_numparams func,
    p_nups = f_numupvalues func, p_is_vararg = (if f_isvararg func then 1 else 0), p_flags = flags,
    p_typeinfo = (if f_typeinfo func \<noteq> [] \<or> bb_typedUpvals b \<noteq> [] \<or> bb_typedLocals b \<noteq> []
       then remapped_typeinfo r (f_typeinfo func) (bb_typedUpvals b) (bb_typedLocals b) else []),
    p_code = code, p_k = ks, p_p = ps, p_linedefined = f_debuglinedefined func, p_debugname = name, p_lineinfo = lines,
    p_locvars = locvars, p_upvalues = upvalues, p_feedbackvec = bb_fbSlots b,
    p_cost = (if flags AND LPF_INLINABLE \<noteq> 0 then cost else 0)\<rparr>"
  have "loads_as C r b func flags cost insns p"
    using ks ps name locvars upvalues code getline_lineinfo [of "bb_lines b" l p] l
    by (auto simp: loads_as_def p_def lines_def split: option.splits)
  moreover have "decodes (read_proto_body C getLuwuFeatures 3 r) data p"
  proof -
    have split: "data = [f_maxstacksize func] @ [f_numparams func] @ [f_numupvalues func] @ [if f_isvararg func then 1 else 0] @ [flags] @
       type_part b func @ count_part insns @ concat (map (\<lambda>i. le_bytes 4 (unat i)) insns) @ [] @ (count_part (bb_constants b) @ cs) @
       [] @ count_part (bb_protos b) @ concat (map (\<lambda>u. varint (ucast u)) (bb_protos b)) @
       varint (scast (f_debuglinedefined func)) @ varint (ucast (f_debugname func)) @ line_part (bb_lines b) l @ debug_part b @
       tail_part b flags cost" unfolding data cs(1) ss1 by simp
    have "decodes (case le_atom (ld_env C) of None \<Rightarrow> returnR insns | Some atom \<Rightarrow> liftR (udata_rewrite atom ks insns 0)) [] code"
      using code by (auto split: option.splits)
    from decodes_body [OF sizes(8,3,5,9,6,7) cs(2) this ps name l sizes(10,2) locvars upvalues ups]
    show ?thesis unfolding split p_def lines_def by simp
  qed
  ultimately show thesis unfolding func_def by (rule that)
qed

section \<open>The string table\<close>

text \<open>The references of a table are its positions, counted from 1, and its strings are distinct.\<close>

definition strings_wf :: "BytecodeBuilder \<Rightarrow> bool" where
  "strings_wf b \<longleftrightarrow> map snd (bb_stringTable b) = map Suc [0..<length (bb_stringTable b)] \<and> distinct (map fst (bb_stringTable b))"

definition bb_strings :: "BytecodeBuilder \<Rightarrow> bytes list" where
  "bb_strings b = map fst (bb_stringTable b)"

lemma strings_wf_nth: "strings_wf b \<Longrightarrow> i < length (bb_stringTable b) \<Longrightarrow> bb_stringTable b ! i = (bb_strings b ! i, Suc i)"
proof -
  assume wf: "strings_wf b" and i: "i < length (bb_stringTable b)"
  then have "map snd (bb_stringTable b) ! i = Suc i" by (simp add: strings_wf_def)
  with i show ?thesis by (simp add: bb_strings_def prod_eq_iff)
qed

lemma string_ref_position: "Suc i < 2 ^ 32 \<Longrightarrow> i < length strings \<Longrightarrow> string_ref strings (word_of_nat (Suc i)) = Inr (Some (strings ! i))"
proof -
  assume i: "Suc i < 2 ^ 32" "i < length strings"
  then have u: "unat (word_of_nat (Suc i) :: u32) = Suc i" by (intro unat_u32_of_nat)
  then have "(word_of_nat (Suc i) :: u32) \<noteq> 0" by (metis nat.distinct(1) unat_0)
  with u i(2) show ?thesis unfolding string_ref_def by (simp del: of_nat_Suc)
qed

lemma addStringTableEntry_keeps:
  assumes wf: "strings_wf b" and add: "addStringTableEntry s b = (i, b')" and small: "length (bb_stringTable b') < 2 ^ 32"
  shows "strings_wf b'" "\<exists>new. bb_strings b' = bb_strings b @ new" "string_ref (bb_strings b') i = Inr (Some s)"
proof -
  have "strings_wf b' \<and> (\<exists>new. bb_strings b' = bb_strings b @ new) \<and> string_ref (bb_strings b') i = Inr (Some s)"
  proof (cases "map_of (bb_stringTable b) s")
    case None
    then have i: "i = word_of_nat (Suc (length (bb_stringTable b)))" and
      b': "b' = b\<lparr>bb_stringTable := bb_stringTable b @ [(s, Suc (length (bb_stringTable b)))]\<rparr>"
      using add by (auto simp: addStringTableEntry_def Let_def)
    have "s \<notin> set (map fst (bb_stringTable b))" using None by (simp add: map_of_eq_None_iff)
    moreover have "string_ref (bb_strings b @ [s]) i = Inr (Some s)"
      unfolding i using small b' by (subst string_ref_position) (auto simp: bb_strings_def nth_append)
    ultimately show ?thesis using wf by (auto simp: strings_wf_def b' bb_strings_def)
  next
    case (Some index)
    then have b': "b' = b" and i: "i = word_of_nat index" using add by (auto simp: addStringTableEntry_def)
    from Some obtain j where j: "j < length (bb_stringTable b)" "bb_stringTable b ! j = (s, index)"
      by (metis in_set_conv_nth map_of_SomeD)
    with strings_wf_nth [OF wf j(1)] have "index = Suc j" "bb_strings b ! j = s" by auto
    moreover have "Suc j < 2 ^ 32" "j < length (bb_strings b)" using small j(1) b' by (auto simp: bb_strings_def)
    ultimately show ?thesis using wf string_ref_position [of j "bb_strings b"] by (simp add: b' i)
  qed
  then show "strings_wf b'" "\<exists>new. bb_strings b' = bb_strings b @ new" "string_ref (bb_strings b') i = Inr (Some s)" by auto
qed

lemma string_ref_append: "string_ref strings i = Inr s \<Longrightarrow> string_ref (strings @ new) i = Inr s"
  by (auto simp: string_ref_def bindE_Inr_iff nth_append split: if_splits)

lemma strings_collected:
  assumes "strings_wf b"
  shows "foldE (\<lambda>strings (s, index). bindE (guardE (0 < index \<and> index \<le> length strings) e) (\<lambda>_. Inr (strings[index - 1 := s])))
    (replicate (length (bb_stringTable b)) []) (bb_stringTable b) = Inr (bb_strings b)"
proof -
  let ?t = "bb_stringTable b" and ?f = "\<lambda>strings (s, index). bindE (guardE (0 < index \<and> index \<le> length strings) e) (\<lambda>_. Inr (strings[index - 1 := s]))"
  have "n \<le> length ?t \<Longrightarrow> foldE ?f (replicate (length ?t) []) (take n ?t) = Inr (take n (bb_strings b) @ replicate (length ?t - n) [])" for n
  proof (induction n)
    case (Suc n)
    then have n: "n < length ?t" by simp
    have l: "length (bb_strings b) = length ?t" by (simp add: bb_strings_def)
    have "(take n (bb_strings b) @ replicate (length ?t - n) [])[n := bb_strings b ! n] =
        take n (bb_strings b) @ bb_strings b ! n # replicate (length ?t - Suc n) []"
      using n l by (auto simp: list_update_append replicate_Suc [symmetric] Suc_diff_Suc simp del: replicate_Suc intro!: nth_equalityI simp: nth_list_update nth_append nth_Cons split: nat.split)
    then show ?case
      using Suc n l by (simp add: take_Suc_conv_app_nth foldE_snoc strings_wf_nth [OF assms n])
  qed simp
  from this [of "length ?t"] show ?thesis by (simp add: bb_strings_def)
qed

definition string_bytes :: "bytes list \<Rightarrow> bytes" where
  "string_bytes strings = count_part strings @ concat (map (\<lambda>s. count_part s @ s) strings)"

lemma strings_written:
  assumes "strings_wf b"
  shows "writeStringTable ss (bb_stringTable b) = Inr (ss @ string_bytes (bb_strings b))"
proof -
  have "foldl (\<lambda>ss s. writeSize ss (length s) @ s) ss xs = ss @ concat (map (\<lambda>s. count_part s @ s) xs)" for ss xs
    by (rule foldl_append) (simp add: writes count_part_def)
  then show ?thesis
    unfolding writeStringTable_def strings_collected [OF assms] bindE_simps by (simp add: writes string_bytes_def count_part_def)
qed

lemma decodes_strings:
  assumes "length strings < 2 ^ 32" "\<forall>s \<in> set strings. length s \<le> MAXSSIZE"
  shows "decodes read_strings (string_bytes strings) strings"
proof -
  have entry: "decodes read_string_entry (count_part s @ s) s" if "s \<in> set strings" for s
  proof -
    have n: "length s \<le> 2 ^ 30" using assms(2) that by (simp add: MAXSSIZE_def)
    then have un: "unat (word_of_nat (length s) :: u32) = length s" by (intro unat_u32_of_nat) simp
    show ?thesis
      unfolding read_string_entry_def count_part_def
      by (rule decodes_bind [OF decodes_varint_u32], rule decodes_bind_lift)
        (use un n in \<open>auto simp: MAXSSIZE_def intro: decodes_read_bytes\<close>)
  qed
  have "decodes (repeatR (length strings) read_string_entry) (concat (map (\<lambda>s. count_part s @ s) strings)) (map (\<lambda>s. s) strings)"
    by (rule decodes_repeat_map [OF entry])
  moreover have "unat (word_of_nat (length strings) :: u32) = length strings" using assms(1) by (rule unat_u32_of_nat)
  ultimately show ?thesis
    unfolding read_strings_def string_bytes_def count_part_def by (intro decodes_bind [OF decodes_varint_u32]) simp
qed

section \<open>Userdata types\<close>

lemma name_userdata_keeps:
  assumes "name_userdata tys b = (tys', b')" "strings_wf b" "length (bb_stringTable b') < 2 ^ 32"
  shows "strings_wf b' \<and> (\<exists>new. bb_strings b' = bb_strings b @ new) \<and>
    map (\<lambda>ty. (ud_used ty, ud_name ty)) tys' = map (\<lambda>ty. (ud_used ty, ud_name ty)) tys \<and>
    (\<forall>ty \<in> set tys'. ud_used ty \<longrightarrow> string_ref (bb_strings b') (ud_nameRef ty) = Inr (Some (ud_name ty))) \<and>
    (\<exists>t. b' = b\<lparr>bb_stringTable := t\<rparr>)"
  using assms
proof (induction tys arbitrary: b tys' b')
  case Nil
  then show ?case by (auto intro: exI [of _ "bb_stringTable b"])
next
  case (Cons ty tys)
  define q where "q = (if ud_used ty then let (r, b) = addStringTableEntry (ud_name ty) b in (ty\<lparr>ud_nameRef := r\<rparr>, b) else (ty, b))"
  obtain ty1 b1 where q1: "q = (ty1, b1)" by (cases q)
  obtain tys2 b2 where r2: "name_userdata tys b1 = (tys2, b2)" by (cases "name_userdata tys b1")
  have e: "tys' = ty1 # tys2" "b' = b2" using Cons.prems(1) q1 r2 by (auto simp: q_def [symmetric])
  have "length (bb_stringTable b1) \<le> length (bb_stringTable b2)"
  proof -
    have "length (bb_stringTable c) \<le> length (bb_stringTable c')" if "name_userdata ts c = (ts', c')" for ts ts' c c'
      using that
      by (induction ts arbitrary: c ts') (auto simp: Let_def addStringTableEntry_def split: if_splits prod.splits option.splits, fastforce+)
    then show ?thesis using r2 by blast
  qed
  then have small: "length (bb_stringTable b1) < 2 ^ 32" using Cons.prems(3) e by simp
  have one: "strings_wf b1 \<and> (\<exists>new. bb_strings b1 = bb_strings b @ new) \<and> ud_used ty1 = ud_used ty \<and> ud_name ty1 = ud_name ty \<and>
    (ud_used ty1 \<longrightarrow> string_ref (bb_strings b1) (ud_nameRef ty1) = Inr (Some (ud_name ty1))) \<and> (\<exists>t. b1 = b\<lparr>bb_stringTable := t\<rparr>)"
  proof (cases "ud_used ty")
    case True
    obtain r c where a: "addStringTableEntry (ud_name ty) b = (r, c)" by (cases "addStringTableEntry (ud_name ty) b")
    then have "ty1 = ty\<lparr>ud_nameRef := r\<rparr>" "b1 = c" using True q1 by (auto simp: q_def)
    moreover have "\<exists>t. c = b\<lparr>bb_stringTable := t\<rparr>" using a
      by (auto simp: addStringTableEntry_def Let_def split: option.splits intro: exI [of _ "bb_stringTable b"])
    ultimately show ?thesis using addStringTableEntry_keeps [OF Cons.prems(2) a] small True by auto
  next
    case False
    then show ?thesis using q1 Cons.prems(2) by (auto simp: q_def intro: exI [of _ "bb_stringTable b"])
  qed
  have "strings_wf b1" "length (bb_stringTable b2) < 2 ^ 32" using one Cons.prems(3) e by auto
  note two = Cons.IH [OF r2 this]
  from one obtain new1 t1 where o: "bb_strings b1 = bb_strings b @ new1" "b1 = b\<lparr>bb_stringTable := t1\<rparr>" by blast
  from two obtain new2 t2 where t: "bb_strings b2 = bb_strings b1 @ new2" "b2 = b1\<lparr>bb_stringTable := t2\<rparr>" by blast
  have "bb_strings b2 = bb_strings b @ new1 @ new2" "b2 = b\<lparr>bb_stringTable := t2\<rparr>" using t o by simp_all
  moreover have "ud_used ty1 \<Longrightarrow> string_ref (bb_strings b2) (ud_nameRef ty1) = Inr (Some (ud_name ty1))"
    using one unfolding t(1) by (blast intro: string_ref_append)
  ultimately show ?case unfolding e using one two by (simp; blast)
qed

text \<open>The mapping of userdata types that the host gives: names of the used types in the order of their indices.\<close>

definition userdata_mapping :: "load_env \<Rightarrow> UserdataType list \<Rightarrow> bytes" where
  "userdata_mapping E tys =
     foldl (\<lambda>r (i, ty). case le_gettypemapping E of
         Some cb \<Rightarrow> if ud_used ty \<and> i < userdataTypeLimit then r[i := cb (ud_name ty)] else r
       | None \<Rightarrow> r) (replicate userdataTypeLimit LBC_TYPE_USERDATA) (enumerate 0 tys)"

definition userdata_bytes :: "nat \<times> UserdataType \<Rightarrow> bytes" where
  "userdata_bytes = (\<lambda>(i, ty). if ud_used ty then word_of_nat (i + 1) # varint (ucast (ud_nameRef ty)) else [])"

lemma userdata_loop_reads:
  assumes "\<forall>(i, ty) \<in> set us. ud_used ty \<longrightarrow> i < 255 \<and> string_ref strings (ud_nameRef ty) = Inr (Some (ud_name ty))"
  shows "userdata_loop E strings r (pre @ (concat (map userdata_bytes us) @ [0]) @ post) (length pre) =
    Some (Inr (foldl (\<lambda>r (i, ty). case le_gettypemapping E of
         Some cb \<Rightarrow> if ud_used ty \<and> i < userdataTypeLimit then r[i := cb (ud_name ty)] else r
       | None \<Rightarrow> r) r us, length pre + length (concat (map userdata_bytes us) @ [0])))"
  using assms
proof (induction us arbitrary: pre r)
  case Nil
  show ?case using decodesD [OF decodes_uint8, of pre 0 post] by (subst userdata_loop.simps) simp
next
  case (Cons u us)
  obtain i ty where u: "u = (i, ty)" by (cases u)
  let ?r = "case le_gettypemapping E of Some cb \<Rightarrow> if ud_used ty \<and> i < userdataTypeLimit then r[i := cb (ud_name ty)] else r | None \<Rightarrow> r"
  show ?case
  proof (cases "ud_used ty")
    case False
    with Cons.IH [where pre = pre and r = ?r] Cons.prems show ?thesis by (simp add: u userdata_bytes_def split: option.splits)
  next
    case True
    with Cons.prems have i: "i < 255" and name: "string_ref strings (ud_nameRef ty) = Inr (Some (ud_name ty))" by (auto simp: u)
    let ?b = "word_of_nat (i + 1) :: byte" and ?v = "varint (ucast (ud_nameRef ty))"
    let ?data = "pre @ (concat (map userdata_bytes (u # us)) @ [0]) @ post"
    have bytes: "userdata_bytes u = [?b] @ ?v" using True by (simp add: u userdata_bytes_def)
    have un: "unat ?b = i + 1" using i by (intro unat_byte_of_nat) simp
    then have nz: "?b \<noteq> 0" by (metis Suc_eq_plus1 nat.distinct(1) unat_0)
    have b: "read_uint8 ?data (length pre) = Inr (?b, length pre + 1)"
      using decodesD [OF decodes_uint8, of pre ?b] by (simp add: bytes)
    have put: "put_userdata E (Some (ud_name ty)) (unat ?b - 1) r = Inr ?r"
      using True unfolding un by (simp add: put_userdata_def split: option.splits)
    have "decodes (bindR (readString strings) (\<lambda>name. liftR (put_userdata E name (unat ?b - 1) r))) ?v ?r"
      by (rule decodes_liftR, rule put, rule decodes_string [OF name], rule refl)
    from decodesD [OF this, of "pre @ [?b]" "(concat (map userdata_bytes us) @ [0]) @ post"]
    have n: "bindR (readString strings) (\<lambda>name. liftR (put_userdata E name (unat ?b - 1) r)) ?data (length pre + 1) =
        Inr (?r, length pre + length (userdata_bytes u))" by (simp add: bytes)
    have "userdata_loop E strings r ?data (length pre) = userdata_loop E strings ?r ?data (length pre + length (userdata_bytes u))"
      by (subst userdata_loop.simps) (simp only: b n nz sum.case prod.case if_False)
    with Cons.IH [where pre = "pre @ userdata_bytes u" and r = ?r] Cons.prems show ?thesis by (simp add: u)
  qed
qed

lemma decodes_userdata:
  assumes "\<forall>(i, ty) \<in> set (enumerate 0 tys). ud_used ty \<longrightarrow> i < 255 \<and> string_ref strings (ud_nameRef ty) = Inr (Some (ud_name ty))"
  shows "decodes (read_userdata E strings) (concat (map userdata_bytes (enumerate 0 tys)) @ [0]) (userdata_mapping E tys)"
  by (rule decodesI) (simp only: read_userdata_def userdata_loop_reads [OF assms] option.case userdata_mapping_def)

section \<open>Modules\<close>

definition module_context :: "load_env \<Rightarrow> bytes list \<Rightarrow> nat \<Rightarrow> Proto list \<Rightarrow> load_context" where
  "module_context E strings n protos =
     \<lparr>ld_env = E, ld_legacy = False, ld_version = LWBC_MAGIC, ld_strings = strings, ld_protoCount = n, ld_protos = protos\<rparr>"

lemma decodes_proto:
  assumes "decodes (read_proto_body C getLuwuFeatures 3 r) data p" "length data < 2 ^ 32"
  shows "decodes (read_proto C getLuwuFeatures 3 r) (varint (word_of_nat (length data)) @ data) p"
proof (rule decodesI)
  fix pre post
  let ?v = "varint (word_of_nat (length data))"
  have un: "unat (word_of_nat (length data) :: u32) = length data" using assms(2) by (rule unat_u32_of_nat)
  have v: "readVarInt (pre @ (?v @ data) @ post) (length pre) = Inr (word_of_nat (length data), length pre + length ?v)"
    using decodesD [OF decodes_varint_nat [OF assms(2)], of pre "data @ post"] by simp
  have b: "read_proto_body C getLuwuFeatures 3 r (pre @ (?v @ data) @ post) (length pre + length ?v) =
      Inr (p, length pre + length ?v + length data)"
    using decodesD [OF assms(1), of "pre @ ?v" post] by simp
  show "read_proto C getLuwuFeatures 3 r (pre @ (?v @ data) @ post) (length pre) = Inr (p, length pre + length (?v @ data))"
    unfolding read_proto_def
    by (simp only: getLuwuFeatures_def BytecodeFeatures.simps if_True bindR_def tellR_def seekR_def returnR_def v b [unfolded getLuwuFeatures_def]
        bindE_simps prod.case un length_append add.assoc)
qed

text \<open>Where the data of a function comes from: the builder when \<^verbatim>\<open>writeFunction\<close> wrote it, and the arguments.
  Function \<open>i\<close> must be loadable behind any \<open>i\<close> functions.\<close>

type_synonym origin = "BytecodeBuilder \<times> nat \<times> byte \<times> u64 \<times> u32 list"

definition written_by :: "Function \<Rightarrow> origin \<Rightarrow> bool" where
  "written_by f = (\<lambda>(b, fid, flags, cost, insns). writeFunction [] fid flags cost insns b = Inr (f_data f))"

definition origin_loadable :: "load_context \<Rightarrow> origin \<Rightarrow> bool" where
  "origin_loadable C = (\<lambda>(b, fid, flags, cost, insns). loadable C b (bb_functions b ! fid) insns)"

definition origin_loads_as :: "load_context \<Rightarrow> bytes \<Rightarrow> origin \<Rightarrow> Proto \<Rightarrow> bool" where
  "origin_loads_as C r = (\<lambda>(b, fid, flags, cost, insns) p. loads_as C r b (bb_functions b ! fid) flags cost insns p)"

definition function_bytes :: "Function \<Rightarrow> bytes" where
  "function_bytes f = varint (word_of_nat (length (f_data f))) @ f_data f"

definition proto_step :: "load_env \<Rightarrow> bytes list \<Rightarrow> nat \<Rightarrow> bytes \<Rightarrow> Proto list \<Rightarrow> Proto list reader" where
  "proto_step E strings n r protos =
     bindR (read_proto (module_context E strings n protos) getLuwuFeatures 3 r) (\<lambda>p. returnR (protos @ [p]))"

lemma protos_loop:
  assumes "\<And>j. j < length fs \<Longrightarrow> length (f_data (fs ! j)) < 2 ^ 32" "\<And>j. j < length fs \<Longrightarrow> written_by (fs ! j) (os ! j)"
    "\<And>j protos. j < length fs \<Longrightarrow> length protos = length acc + j \<Longrightarrow> origin_loadable (module_context E strings n protos) (os ! j)"
    "length os = length fs"
  shows "\<exists>ps. length ps = length fs \<and> decodes (loopR (length fs) (proto_step E strings n r) acc) (concat (map function_bytes fs)) (acc @ ps) \<and>
    (\<forall>j < length fs. origin_loads_as (module_context E strings n (acc @ take j ps)) r (os ! j) (ps ! j))"
  using assms
proof (induction fs arbitrary: os acc)
  case (Cons f fs)
  let ?C = "module_context E strings n"
  from Cons.prems(4) obtain b fid flags cost insns os' where o: "os = (b, fid, flags, cost, insns) # os'" "length os' = length fs"
    by (cases os) auto
  have w: "writeFunction [] fid flags cost insns b = Inr (f_data f)" "loadable (?C acc) b (bb_functions b ! fid) insns"
    using Cons.prems(2,3) [of 0] by (auto simp: o written_by_def origin_loadable_def)
  from function_round_trip [OF w] obtain p where p: "loads_as (?C acc) r b (bb_functions b ! fid) flags cost insns p"
    "decodes (read_proto_body (?C acc) getLuwuFeatures 3 r) (f_data f) p" by blast
  have step: "decodes (proto_step E strings n r acc) (function_bytes f) (acc @ [p])"
    unfolding proto_step_def function_bytes_def
    using Cons.prems(1) [of 0] by (intro decodes_bind_return [OF decodes_proto [OF p(2)]]) auto
  have "\<exists>ps. length ps = length fs \<and> decodes (loopR (length fs) (proto_step E strings n r) (acc @ [p])) (concat (map function_bytes fs)) ((acc @ [p]) @ ps) \<and>
    (\<forall>j < length fs. origin_loads_as (?C ((acc @ [p]) @ take j ps)) r (os' ! j) (ps ! j))"
  proof (rule Cons.IH)
    show "length (f_data (fs ! j)) < 2 ^ 32" "written_by (fs ! j) (os' ! j)" if "j < length fs" for j
      using Cons.prems(1,2) [of "Suc j"] that by (auto simp: o)
    show "origin_loadable (?C protos) (os' ! j)" if "j < length fs" "length protos = length (acc @ [p]) + j" for j protos
      using Cons.prems(3) [of "Suc j" protos] that by (auto simp: o)
  qed (rule o(2))
  then obtain ps where ps: "length ps = length fs"
    "decodes (loopR (length fs) (proto_step E strings n r) (acc @ [p])) (concat (map function_bytes fs)) ((acc @ [p]) @ ps)"
    "\<forall>j < length fs. origin_loads_as (?C ((acc @ [p]) @ take j ps)) r (os' ! j) (ps ! j)" by blast
  have "decodes (loopR (length (f # fs)) (proto_step E strings n r) acc) (concat (map function_bytes (f # fs))) (acc @ p # ps)"
    using decodes_bind [OF step, of "loopR (length fs) (proto_step E strings n r)"] ps(2) by simp
  moreover have "origin_loads_as (?C (acc @ take j (p # ps))) r (os ! j) ((p # ps) ! j)" if "j < length (f # fs)" for j
    using ps(3) p(1) that by (cases j) (auto simp: o origin_loads_as_def)
  ultimately show ?case using ps(1) by (intro exI [of _ "p # ps"]) auto
qed (auto intro: exI [of _ "[]"])

text \<open>The bytes of a module.\<close>

lemma finalize_written:
  assumes "bb_finalize wip b = Inr b'" "strings_wf b" "length (bb_stringTable b') < 2 ^ 32"
  obtains main tys where "bb_mainFunction b = Some main" "main < length (bb_functions b)"
    "bb_bytecode b' = LWBC_MAGIC # [getVersion wip] @ [LBC_TYPE_VERSION_TARGET] @ string_bytes (bb_strings b') @
       (concat (map userdata_bytes (enumerate 0 tys)) @ [0]) @ count_part (bb_functions b) @
       concat (map function_bytes (bb_functions b)) @ varint (ucast (word_of_nat main :: u32))"
    "map (\<lambda>ty. (ud_used ty, ud_name ty)) tys = map (\<lambda>ty. (ud_used ty, ud_name ty)) (bb_userdataTypes b)"
    "\<forall>ty \<in> set tys. ud_used ty \<longrightarrow> string_ref (bb_strings b') (ud_nameRef ty) = Inr (Some (ud_name ty))"
proof -
  obtain tys c where n: "name_userdata (bb_userdataTypes b) b = (tys, c)" by (cases "name_userdata (bb_userdataTypes b) b")
  have users: "foldl (\<lambda>ss (i, ty). if ud_used ty then writeUnsigned (writeByte ss (word_of_nat (i + 1))) (ud_nameRef ty) else ss) ss us =
      ss @ concat (map userdata_bytes us)" for ss us
    by (rule foldl_append) (auto simp: writes userdata_bytes_def)
  have funs: "foldl (\<lambda>ss func. writeVarInt ss (word_of_nat (length (f_data func))) @ f_data func) ss fs =
      ss @ concat (map function_bytes fs)" for ss fs
    by (rule foldl_append) (simp add: writes function_bytes_def)
  from assms(1) obtain main ss where main: "bb_mainFunction c = Some main" "main < length (bb_functions c)" and
    ss: "writeStringTable [LWBC_MAGIC, getVersion wip, getTypeEncodingVersion] (bb_stringTable c) = Inr ss" and
    b': "b' = c\<lparr>bb_userdataTypes := tys, bb_bytecode := writeSize (foldl (\<lambda>ss func. writeVarInt ss (word_of_nat (length (f_data func))) @ f_data func)
      (writeSize (writeByte (foldl (\<lambda>ss (i, ty). if ud_used ty then writeUnsigned (writeByte ss (word_of_nat (i + 1))) (ud_nameRef ty) else ss)
        ss (enumerate 0 tys)) 0) (length (bb_functions c))) (bb_functions c)) main\<rparr>"
    unfolding bb_finalize_def n Let_def prod.case by (auto simp: bindE_Inr_iff writes(1) split: option.splits)
  have small: "length (bb_stringTable c) < 2 ^ 32" using assms(3) by (simp add: b')
  note k = name_userdata_keeps [OF n assms(2) small]
  then obtain t where c: "c = b\<lparr>bb_stringTable := t\<rparr>" by blast
  have "strings_wf c" "bb_strings b' = bb_strings c" using k by (auto simp: b' bb_strings_def)
  with ss strings_written [of c] have ss': "ss = [LWBC_MAGIC, getVersion wip, getTypeEncodingVersion] @ string_bytes (bb_strings b')" by simp
  have bytes: "bb_bytecode b' = LWBC_MAGIC # [getVersion wip] @ [LBC_TYPE_VERSION_TARGET] @ string_bytes (bb_strings b') @
       (concat (map userdata_bytes (enumerate 0 tys)) @ [0]) @ count_part (bb_functions b) @
       concat (map function_bytes (bb_functions b)) @ varint (ucast (word_of_nat main :: u32))"
    using arg_cong [OF b', of bb_bytecode] unfolding users funs ss'
    by (simp add: writes count_part_def c getTypeEncodingVersion_def)
  show thesis
    using k main c \<open>bb_strings b' = bb_strings c\<close> by (intro that [OF _ _ bytes]) auto
qed

lemma userdata_mapping_cong:
  assumes "map (\<lambda>ty. (ud_used ty, ud_name ty)) tys = map (\<lambda>ty. (ud_used ty, ud_name ty)) tys'"
  shows "userdata_mapping E tys = userdata_mapping E tys'"
proof -
  have "foldl (\<lambda>r (i, ty). case le_gettypemapping E of
         Some cb \<Rightarrow> if ud_used ty \<and> i < userdataTypeLimit then r[i := cb (ud_name ty)] else r | None \<Rightarrow> r) r (enumerate n tys) =
      foldl (\<lambda>r (i, ty). case le_gettypemapping E of
         Some cb \<Rightarrow> if ud_used ty \<and> i < userdataTypeLimit then r[i := cb (ud_name ty)] else r | None \<Rightarrow> r) r (enumerate n tys')" for n r
    using assms
  proof (induction tys arbitrary: tys' n r)
    case (Cons ty tys)
    then obtain ty' tys1 where t: "tys' = ty' # tys1" "ud_used ty = ud_used ty'" "ud_name ty = ud_name ty'"
      "map (\<lambda>ty. (ud_used ty, ud_name ty)) tys = map (\<lambda>ty. (ud_used ty, ud_name ty)) tys1" by (cases tys') auto
    show ?case unfolding t(1) enumerate_simps foldl_Cons prod.case t(2,3) by (rule Cons.IH [OF t(4)])
  qed simp
  then show ?thesis by (simp add: userdata_mapping_def)
qed

lemma version_accepted: "decodes (read_version LWBC_MAGIC) [getVersion wip] (LWBC_MAGIC, getLuwuFeatures)"
  unfolding read_version_def if_P [OF refl]
  by (rule decodes_bind_end [OF decodes_uint8])
    (simp add: getVersion_def LWBC_VERSION_WIP_def LWBC_VERSION_TARGET_def LWBC_VERSION_MIN_def LWBC_VERSION_MAX_def decodes_return)

lemma typesversion_accepted: "decodes (read_typesversion getLuwuFeatures) [LBC_TYPE_VERSION_TARGET] 3"
  unfolding read_typesversion_def
  by (simp only: getLuwuFeatures_def BytecodeFeatures.simps if_True, rule decodes_bind_end [OF decodes_uint8])
    (simp add: LBC_TYPE_VERSION_TARGET_def LBC_TYPE_VERSION_MIN_def LBC_TYPE_VERSION_MAX_def decodes_return)

lemma module_read_back:
  assumes fin: "bb_finalize wip b = Inr b'" and wf: "strings_wf b" "length (bb_stringTable b') < 2 ^ 32"
    "\<forall>s \<in> set (bb_strings b'). length s \<le> MAXSSIZE"
    and sizes: "length (bb_functions b) < 2 ^ 32" "length (bb_userdataTypes b) \<le> 255"
    and fs: "length os = length (bb_functions b)" "\<And>i. i < length (bb_functions b) \<Longrightarrow>
      length (f_data (bb_functions b ! i)) < 2 ^ 32 \<and> written_by (bb_functions b ! i) (os ! i) \<and>
      (\<forall>protos. length protos = i \<longrightarrow> origin_loadable (module_context E (bb_strings b') (length (bb_functions b)) protos) (os ! i))"
  shows "\<exists>protos main. luau_load E (bb_bytecode b') = Inr (protos, main) \<and> bb_mainFunction b = Some main \<and>
    length protos = length (bb_functions b) \<and>
    (\<forall>i < length protos. origin_loads_as (module_context E (bb_strings b') (length protos) (take i protos))
      (userdata_mapping E (bb_userdataTypes b)) (os ! i) (protos ! i))"
proof -
  from finalize_written [OF fin wf(1,2)] obtain main tys where main: "bb_mainFunction b = Some main" "main < length (bb_functions b)" and
    bytes: "bb_bytecode b' = LWBC_MAGIC # [getVersion wip] @ [LBC_TYPE_VERSION_TARGET] @ string_bytes (bb_strings b') @
       (concat (map userdata_bytes (enumerate 0 tys)) @ [0]) @ count_part (bb_functions b) @
       concat (map function_bytes (bb_functions b)) @ varint (ucast (word_of_nat main :: u32))" and
    same: "map (\<lambda>ty. (ud_used ty, ud_name ty)) tys = map (\<lambda>ty. (ud_used ty, ud_name ty)) (bb_userdataTypes b)" and
    names: "\<forall>ty \<in> set tys. ud_used ty \<longrightarrow> string_ref (bb_strings b') (ud_nameRef ty) = Inr (Some (ud_name ty))" by blast
  let ?n = "length (bb_functions b)" and ?strings = "bb_strings b'" and ?r = "userdata_mapping E tys"
  have "\<exists>ps. length ps = ?n \<and> decodes (loopR ?n (proto_step E ?strings ?n ?r) []) (concat (map function_bytes (bb_functions b))) ([] @ ps) \<and>
    (\<forall>j < ?n. origin_loads_as (module_context E ?strings ?n ([] @ take j ps)) ?r (os ! j) (ps ! j))"
    using fs by (intro protos_loop) auto
  then obtain ps where ps: "length ps = ?n" "decodes (loopR ?n (proto_step E ?strings ?n ?r) []) (concat (map function_bytes (bb_functions b))) ps"
    "\<forall>j < ?n. origin_loads_as (module_context E ?strings ?n (take j ps)) ?r (os ! j) (ps ! j)" by auto
  have "length tys = length (bb_userdataTypes b)" using same by (metis length_map)
  with names sizes(2) have users: "\<forall>(i, ty) \<in> set (enumerate 0 tys). ud_used ty \<longrightarrow> i < 255 \<and>
      string_ref ?strings (ud_nameRef ty) = Inr (Some (ud_name ty))"
    by (fastforce simp: in_set_enumerate_eq)
  have strings: "decodes read_strings (string_bytes ?strings) ?strings"
    using wf(2,3) by (intro decodes_strings) (auto simp: bb_strings_def)
  have un: "unat (word_of_nat ?n :: u32) = ?n" "unat (word_of_nat main :: u32) = main"
    using sizes(1) main(2) by (auto intro: unat_u32_of_nat)
  have body: "(\<lambda>protos. bindR (read_proto \<lparr>ld_env = E, ld_legacy = bf_legacy getLuwuFeatures, ld_version = LWBC_MAGIC, ld_strings = ?strings,
             ld_protoCount = ?n, ld_protos = protos\<rparr> getLuwuFeatures 3 ?r) (\<lambda>p. returnR (protos @ [p]))) = proto_step E ?strings ?n ?r"
    by (simp add: fun_eq_iff proto_step_def module_context_def getLuwuFeatures_def)
  have tail: "decodes (bindR readVarInt (\<lambda>mainid. bindR (liftR (guardE (unat mainid < length ps) (AssertionFailed ''index < count'')))
      (\<lambda>_. returnR (ps, unat mainid)))) (varint (ucast (word_of_nat main :: u32))) (ps, main)"
    using main(2) ps(1) un(2) by (intro decodes_bind_end [OF decodes_varint_u32] decodes_bind_lift) auto
  have "decodes (read_module E LWBC_MAGIC) ([getVersion wip] @ [LBC_TYPE_VERSION_TARGET] @ string_bytes ?strings @
       (concat (map userdata_bytes (enumerate 0 tys)) @ [0]) @ count_part (bb_functions b) @
       concat (map function_bytes (bb_functions b)) @ varint (ucast (word_of_nat main :: u32))) (ps, main)"
    unfolding read_module_def count_part_def
    apply (rule decodes_bind [OF version_accepted])
    apply (simp only: prod.case)
    apply (rule decodes_bind [OF typesversion_accepted])
    apply (rule decodes_bind [OF strings])
    apply (simp only: if_True refl)
    apply (rule decodes_bind [OF decodes_userdata [OF users]])
    apply (rule decodes_bind [OF decodes_varint_u32])
    apply (simp only: un body)
    apply (rule decodes_bind [OF ps(2)])
    apply (rule tail)
    done
  from decodesD [OF this, of "[LWBC_MAGIC]" "[]"] have "read_module E LWBC_MAGIC (bb_bytecode b') 1 = Inr ((ps, main), length (bb_bytecode b'))"
    unfolding bytes by simp
  moreover have "read_uint8 (bb_bytecode b') 0 = Inr (LWBC_MAGIC, 1)"
    using decodesD [OF decodes_uint8, of "[]" LWBC_MAGIC] unfolding bytes by simp
  moreover have "LWBC_MAGIC \<noteq> 0" by (simp add: LWBC_MAGIC_def)
  ultimately have "luau_load E (bb_bytecode b') = Inr (ps, main)" by (simp add: luau_load_def loadsafe_def)
  with main(1) ps(1,3) userdata_mapping_cong [OF same, of E] show ?thesis by auto
qed

section \<open>A sample module\<close>

definition sample_env :: load_env where
  "sample_env = \<lparr>le_safeenv = False, le_globals = KNil, le_gettable = (\<lambda>_ _. None), le_gettypemapping = Some (\<lambda>_. 99), le_atom = None\<rparr>"

text \<open>A function with two instructions on lines 10 and 300, the constants \<open>"hi"\<close>, 3, -5 and the table \<open>{hi = 3}\<close>, and a
  local variable of the first userdata type of the module.\<close>

definition sample_function :: BytecodeBuilder where
  "sample_function = bb_new\<lparr>bb_functions := [\<lparr>f_data = [], f_maxstacksize = 2, f_numparams = 1, f_numupvalues = 0, f_isvararg = False,
       f_debugname = 2, f_debuglinedefined = 9, f_typeinfo = []\<rparr>],
     bb_currentFunction := Some 0, bb_insns := [5, 65558], bb_lines := [10, 300],
     bb_constants := [CString 1, CNumber 0x4008000000000000, CInteger64 (- 5), CTable 0],
     bb_tableShapes := [\<lparr>ts_keys = [0], ts_constants = [1], ts_hasConstants = True\<rparr>],
     bb_typedLocals := [\<lparr>tl_type = 64, tl_reg = 1, tl_startpc = 0, tl_endpc = 2\<rparr>],
     bb_stringTable := [([104, 105], 1), ([102], 2)]\<rparr>"

definition sample_data :: bytes where
  "sample_data = [2, 1, 0, 0, 8, 7, 0, 0, 1, 64, 1, 0, 2, 2, 5, 0, 0, 0, 22, 0, 1, 0, 4, 3, 1, 2, 0, 0, 0, 0, 0, 0, 8, 64,
     9, 1, 5, 8, 1, 0, 1, 0, 0, 0, 0, 9, 2, 1, 0, 0, 0, 10, 0, 0, 0, 34, 1, 0, 0, 0, 0, 77]"

definition sample_module :: BytecodeBuilder where
  "sample_module = bb_new\<lparr>bb_functions := [(bb_functions sample_function ! 0)\<lparr>f_data := sample_data\<rparr>],
     bb_mainFunction := Some 0, bb_stringTable := [([104, 105], 1), ([102], 2)],
     bb_userdataTypes := [\<lparr>ud_name = [117], ud_nameRef = 0, ud_used = True\<rparr>]\<rparr>"

lemma le_bytes_numeral: "le_bytes (numeral n) v = word_of_nat (v mod 256) # le_bytes (pred_numeral n) (v div 256)"
  by (simp only: numeral_eq_Suc [of n] le_bytes.simps)

lemma sample_span: "calcLinesSpan [10, 300] = Inr 1"
proof -
  have log: "log2_loop 1 0 = 0" by (subst log2_loop.simps) simp
  have "lines_span [10, 300] 2 1 = Some (Inr 1)" by (subst lines_span.simps) simp
  then have "lines_span [10, 300] 1 1 = Some (Inr 1)" by (subst lines_span.simps) (simp add: Let_def numeral_2_eq_2)
  then have "lines_span [10, 300] 0 (2 ^ 24) = Some (Inr 1)"
    using log by (subst lines_span.simps) (simp add: Let_def bb_log2_def)
  then show ?thesis by (simp add: calcLinesSpan_def terminates_def)
qed

lemma sample_lines: "writeLineInfo ss [10, 300] = Inr (ss @ [0, 0, 0, 10, 0, 0, 0, 34, 1, 0, 0])"
  by (simp add: writeLineInfo_def sample_span fillBaselineInfo_def bb_log2_def log2_loop.simps Let_def writes le_bytes_numeral)

lemma sample_written: "writeFunction [] 0 8 77 [5, 65558] sample_function = Inr sample_data"
  by (simp add: writeFunction_def sample_function_def bb_new_def writeTypeInfo_def Let_def writes varint_cases
      sample_lines writeConstant_def constant_tags writeDebugInfo_def LPF_INLINABLE_def le_bytes_numeral sample_data_def)

lemma sample_finalized:
  obtains b' where "bb_finalize False sample_module = Inr b'" "bb_strings b' = [[104, 105], [102], [117]]"
    "length (bb_stringTable b') = 3"
  by (simp add: bb_finalize_def sample_module_def bb_new_def Let_def addStringTableEntry_def writeStringTable_def bb_strings_def)

lemma sample_loadable:
  "length protos = 0 \<Longrightarrow> loadable (module_context sample_env [[104, 105], [102], [117]] 1 protos) sample_function
     (bb_functions sample_function ! 0) [5, 65558]"
  by (simp add: loadable_def module_context_def sample_function_def bb_new_def typeinfo_bytes_def local_bytes_def varint_cases
      constants_value_def constant_value_def table_value_def string_ref_def luaH_room_def luaH_MAXBITS_def set_key_constant_def k_get_def
      luaH_set_value_def luaH_newkey_check_def clear_nil_keys_def sample_env_def)

section \<open>The theorems\<close>

text \<open>
  C13: Line information survives the round trip for every function with at least one instruction and lines in the range
  of \<^verbatim>\<open>int\<close>: the search for the span ends, no delta leaves its byte, the base lines do not overflow when the
  loader sums them up, the loader reads exactly the bytes written, and \<^verbatim>\<open>luaG_getline\<close> gives the line of every
  instruction.
\<close>

theorem line_info_round_trip:
  assumes "lines \<noteq> []" "\<forall>line \<in> set lines. 0 \<le> line \<and> line < 2 ^ 31"
  shows "\<exists>bs info. writeLineInfo ss lines = Inr (ss @ bs) \<and>
    (\<forall>pre post. read_lineinfo (length lines) (pre @ bs @ post) (length pre) = Inr (info, length pre + length bs)) \<and>
    (\<forall>p pc. p_lineinfo p = Some info \<and> pc < length lines \<longrightarrow> luaG_getline p pc = lines ! pc)"
proof -
  from good_span_exists [OF assms(1)] obtain l where l: "good_span lines l" by blast
  show ?thesis
    using lineinfo_written [OF l] decodesD [OF lineinfo_decoded [OF l assms(2)]] getline_lineinfo [OF l] by blast
qed

text \<open>
  C1: Loading what the builder wrote gives the program back. When a module is finalized whose functions were written
  by \<^verbatim>\<open>writeFunction\<close> in states in which all counts fit and all references are valid, the loader accepts the
  bytes and returns one proto for each function, with the code, the constants (strings, numbers, integers, vectors,
  imports, tables, closures and classes), the child protos, type, line and debug information, feedback slots and
  inlining cost of the builder, userdata types mapped by the host, and the main function the builder chose.
\<close>

theorem module_round_trip:
  assumes "bb_finalize wip b = Inr b'" "strings_wf b" "length (bb_stringTable b') < 2 ^ 32"
    "\<forall>s \<in> set (bb_strings b'). length s \<le> MAXSSIZE"
    "length (bb_functions b) < 2 ^ 32" "length (bb_userdataTypes b) \<le> 255" "length os = length (bb_functions b)"
    "\<And>i. i < length (bb_functions b) \<Longrightarrow>
      length (f_data (bb_functions b ! i)) < 2 ^ 32 \<and> written_by (bb_functions b ! i) (os ! i) \<and>
      (\<forall>protos. length protos = i \<longrightarrow> origin_loadable (module_context E (bb_strings b') (length (bb_functions b)) protos) (os ! i))"
  shows "\<exists>protos main. luau_load E (bb_bytecode b') = Inr (protos, main) \<and> bb_mainFunction b = Some main \<and>
    length protos = length (bb_functions b) \<and>
    (\<forall>i < length protos. origin_loads_as (module_context E (bb_strings b') (length protos) (take i protos))
      (userdata_mapping E (bb_userdataTypes b)) (os ! i) (protos ! i))"
  by (rule module_read_back [OF assms])

text \<open>
  C40: The string table of the builder: an added string is found under the reference returned for it, earlier
  references keep their strings, a string that is there already is not added again, and the table stays well-formed.
\<close>

theorem string_table_invariant:
  assumes "strings_wf b" "addStringTableEntry s b = (i, b')" "length (bb_stringTable b') < 2 ^ 32"
  shows "strings_wf b' \<and> string_ref (bb_strings b') i = Inr (Some s) \<and>
    (\<forall>j t. string_ref (bb_strings b) j = Inr t \<longrightarrow> string_ref (bb_strings b') j = Inr t) \<and>
    (s \<in> set (bb_strings b) \<longrightarrow> b' = b)"
proof -
  note keeps = addStringTableEntry_keeps [OF assms]
  have "s \<in> set (bb_strings b) \<Longrightarrow> b' = b"
  proof -
    assume "s \<in> set (bb_strings b)"
    then have "map_of (bb_stringTable b) s \<noteq> None" by (simp add: bb_strings_def map_of_eq_None_iff)
    with assms(2) show "b' = b" by (auto simp: addStringTableEntry_def)
  qed
  with keeps show ?thesis by (metis string_ref_append)
qed

theorem line_info_round_trip_witness:
  "\<exists>bs info. writeLineInfo [7] [3, 300, 2] = Inr ([7] @ bs) \<and>
    (\<forall>pre post. read_lineinfo 3 (pre @ bs @ post) (length pre) = Inr (info, length pre + length bs)) \<and>
    (\<forall>p. p_lineinfo p = Some info \<longrightarrow> luaG_getline p 0 = 3 \<and> luaG_getline p 1 = 300 \<and> luaG_getline p 2 = 2)"
proof -
  have len: "length [3, 300, 2 :: int] = 3" by simp
  from line_info_round_trip [of "[3, 300, 2]" "[7]"] obtain bs info where
    "writeLineInfo [7] [3, 300, 2] = Inr ([7] @ bs)"
    "\<forall>pre post. read_lineinfo (length [3, 300, 2 :: int]) (pre @ bs @ post) (length pre) = Inr (info, length pre + length bs)"
    and lines: "\<And>p pc. p_lineinfo p = Some info \<Longrightarrow> pc < 3 \<Longrightarrow> luaG_getline p pc = [3, 300, 2] ! pc"
    by auto
  with len lines [of _ 0] lines [of _ 1] lines [of _ 2] show ?thesis by (intro exI [of _ bs] exI [of _ info]) (auto simp: numeral_3_eq_3)
qed

theorem module_round_trip_witness:
  "\<exists>b' p. bb_finalize False sample_module = Inr b' \<and> luau_load sample_env (bb_bytecode b') = Inr ([p], 0) \<and>
     p_code p = [5, 65558] \<and> p_k p = [KString [104, 105], KNumber 0x4008000000000000, KInteger (- 5),
       KTable 3 [(KString [104, 105], KNumber 0x4008000000000000)]] \<and>
     p_debugname p = Some [102] \<and> luaG_getline p 1 = 300"
proof -
  obtain b' where b': "bb_finalize False sample_module = Inr b'" "bb_strings b' = [[104, 105], [102], [117]]"
    "length (bb_stringTable b') = 3" by (rule sample_finalized)
  let ?os = "[(sample_function, 0, 8, 77, [5, 65558])] :: origin list"
  have n: "length (bb_functions sample_module) = 1" by (simp add: sample_module_def)
  have data: "bb_functions sample_module ! 0 = (bb_functions sample_function ! 0)\<lparr>f_data := sample_data\<rparr>"
    by (simp add: sample_module_def)
  have "\<exists>protos main. luau_load sample_env (bb_bytecode b') = Inr (protos, main) \<and> bb_mainFunction sample_module = Some main \<and>
    length protos = length (bb_functions sample_module) \<and>
    (\<forall>i < length protos. origin_loads_as (module_context sample_env (bb_strings b') (length protos) (take i protos))
      (userdata_mapping sample_env (bb_userdataTypes sample_module)) (?os ! i) (protos ! i))"
  proof (rule module_round_trip [OF b'(1)])
    show "strings_wf sample_module" by (simp add: strings_wf_def sample_module_def)
    show "length (f_data (bb_functions sample_module ! i)) < 2 ^ 32 \<and> written_by (bb_functions sample_module ! i) (?os ! i) \<and>
        (\<forall>protos. length protos = i \<longrightarrow> origin_loadable (module_context sample_env (bb_strings b')
          (length (bb_functions sample_module)) protos) (?os ! i))" if "i < length (bb_functions sample_module)" for i
      using that sample_written sample_loadable
      by (simp add: n data b'(2) written_by_def origin_loadable_def) (simp add: sample_data_def)
  qed (simp_all add: n b' MAXSSIZE_def, simp_all add: sample_module_def)
  then obtain p where "luau_load sample_env (bb_bytecode b') = Inr ([p], 0)"
    "origin_loads_as (module_context sample_env (bb_strings b') 1 []) (userdata_mapping sample_env (bb_userdataTypes sample_module)) (?os ! 0) p"
    unfolding n by (auto simp: length_Suc_conv sample_module_def)
  with b' show ?thesis
    by (auto simp: origin_loads_as_def loads_as_def module_context_def sample_function_def bb_new_def sample_env_def
      constants_value_def constant_value_def table_value_def string_ref_def luaH_room_def luaH_MAXBITS_def set_key_constant_def k_get_def
      luaH_set_value_def luaH_newkey_check_def clear_nil_keys_def numeral_3_eq_3)
qed

theorem string_table_invariant_witness:
  "\<exists>b'. addStringTableEntry [117] sample_module = (3, b') \<and> string_ref (bb_strings b') 3 = Inr (Some [117])"
proof -
  obtain i b' where add: "addStringTableEntry [117] sample_module = (i, b')" by (cases "addStringTableEntry [117] sample_module")
  then have "i = 3" "length (bb_stringTable b') = 3" by (auto simp: addStringTableEntry_def sample_module_def bb_new_def)
  moreover have "strings_wf sample_module" by (simp add: strings_wf_def sample_module_def)
  ultimately show ?thesis using string_table_invariant [OF _ add] add by auto
qed

end
