(* ===== verification/LuaTable.thy ===== *)
theory LuaTable
  imports LuaApi LuwuFloat RawMemory
begin

text \<open>
  Tables of the VM (\<^verbatim>\<open>VM/src/ltable.cpp\<close>): an array part for the indices from 1 to
  \<^verbatim>\<open>sizearray\<close> and a hash part, a chained scatter table with Brent's variation whose chains
  are relative offsets inside the node vector. The values are a type parameter; \<^verbatim>\<open>nil\<close> is
  \<open>None\<close>. A pointer to a value (\<^verbatim>\<open>TValue*\<close>) is a \<open>slot\<close>, and the address of a node vector
  or array is a number that changes with every allocation. Undefined accesses, failed
  assertions, run-time errors and loops that do not end are values of \<open>cpp_error\<close>.
\<close>

section \<open>Keys\<close>

text \<open>A reference to a collectable object. Strings are interned, so two string pointers are equal when the
  contents are; any other object has an address. A dead key remembers the reference it was.\<close>

datatype GCRef = GcString bytes | GcObject lua_Type u64

datatype TKey =
    KeyNil
  | KeyBoolean bool
  | KeyLightUserdata u64 nat
  | KeyNumber double
  | KeyInteger u64
  | KeyVector u32 u32 u32
  | KeySymNone
  | KeyGc GCRef
  | KeyDead GCRef

fun iscollectable :: "TKey \<Rightarrow> bool" where
  "iscollectable (KeyGc r) = True"
| "iscollectable (KeyDead r) = True"
| "iscollectable k = False"

text \<open>Equality of floats, compared with the order of their bit patterns: equal bits or two zeros, neither a NaN.\<close>

definition flt_numeq :: "u32 \<Rightarrow> u32 \<Rightarrow> bool" where
  "flt_numeq a b \<longleftrightarrow> \<not> flt_isnan a \<and> \<not> flt_isnan b \<and> (a = b \<or> a AND 0x7FFFFFFF = 0 \<and> b AND 0x7FFFFFFF = 0)"

definition luaO_rawequalKey :: "TKey \<Rightarrow> TKey \<Rightarrow> bool" where
  "luaO_rawequalKey t1 t2 =
     (case t1 of
        KeyNil \<Rightarrow> t2 = KeyNil
      | KeySymNone \<Rightarrow> t2 = KeySymNone
      | KeyNumber a \<Rightarrow> (case t2 of KeyNumber b \<Rightarrow> dbl_eq a b | _ \<Rightarrow> False)
      | KeyInteger a \<Rightarrow> t2 = KeyInteger a
      | KeyVector x y z \<Rightarrow> (case t2 of KeyVector x' y' z' \<Rightarrow> flt_numeq x x' \<and> flt_numeq y y' \<and> flt_numeq z z' | _ \<Rightarrow> False)
      | KeyBoolean a \<Rightarrow> t2 = KeyBoolean a
      | KeyLightUserdata p tag \<Rightarrow> t2 = KeyLightUserdata p tag
      | KeyGc r \<Rightarrow> t2 = KeyGc r
      | KeyDead r \<Rightarrow> t2 = KeyDead r)"

fun key_isnan :: "TKey \<Rightarrow> bool" where
  "key_isnan (KeyNumber d) = dbl_isnan d"
| "key_isnan (KeyVector x y z) = (flt_isnan x \<or> flt_isnan y \<or> flt_isnan z)"
| "key_isnan _ = False"

section \<open>Hashing\<close>

text \<open>\<^verbatim>\<open>luaS_hash\<close> of \<^verbatim>\<open>VM/src/lstring.cpp\<close>; a string object keeps the hash of its contents.\<close>

definition rol :: "u32 \<Rightarrow> nat \<Rightarrow> u32" where
  "rol x s = drop_bit s x OR push_bit (32 - s) x"

definition hash_block :: "bytes \<Rightarrow> nat \<Rightarrow> u32" where
  "hash_block str i = word_of_nat (le_nat (take 4 (drop (4 * i) str)))"

function luaS_hash_prefix :: "bytes \<Rightarrow> u32 \<Rightarrow> u32 \<Rightarrow> u32 \<Rightarrow> bytes \<times> u32" where
  "luaS_hash_prefix str a b h =
     (if length str < 32 then (str, h)
      else
        let a = a + hash_block str 0; b = b + hash_block str 1; h = h + hash_block str 2;
            a = a XOR h; a = a - rol h 14;
            b = b XOR a; b = b - rol a 11;
            h = h XOR b; h = h - rol b 25
        in luaS_hash_prefix (drop 12 str) a b h)"
  by pat_completeness auto
termination by (relation "measure (\<lambda>(str, a, b, h). length str)") auto

definition luaS_hash :: "bytes \<Rightarrow> u32" where
  "luaS_hash str =
     (let (rest, h) = luaS_hash_prefix str 0 0 (word_of_nat (length str))
      in foldl (\<lambda>h c. h XOR (push_bit 5 h + drop_bit 2 h + ucast c)) h (rev rest))"

definition hashpow2 :: "nat \<Rightarrow> u32 \<Rightarrow> nat" where
  "hashpow2 lsizenode h = unat (h AND (push_bit lsizenode 1 - 1))"

definition hash_pointer :: "u64 \<Rightarrow> u32" where
  "hash_pointer p =
     (let h = ucast p :: u32;
          h = h XOR drop_bit 16 h; h = h * 0x85ebca6b;
          h = h XOR drop_bit 13 h; h = h * 0xc2b2ae35;
          h = h XOR drop_bit 16 h
      in h)"

text \<open>The finalizer of MurmurHash64B on two halves, shared by \<^verbatim>\<open>hashnum\<close> and \<^verbatim>\<open>hashint\<close>.\<close>

definition murmur_finalizer :: "u32 \<Rightarrow> u32 \<Rightarrow> u32" where
  "murmur_finalizer h1 h2 =
     (let m = 0x5bd1e995;
          h1 = h1 XOR drop_bit 18 h2; h1 = h1 * m;
          h2 = h2 XOR drop_bit 22 h1; h2 = h2 * m;
          h1 = h1 XOR drop_bit 17 h2; h1 = h1 * m;
          h2 = h2 XOR drop_bit 19 h1; h2 = h2 * m
      in h2)"

definition hash_num :: "double \<Rightarrow> u32" where
  "hash_num n = murmur_finalizer (ucast n) (ucast (drop_bit 32 n) AND 0x7FFFFFFF)"

definition hash_int :: "u64 \<Rightarrow> u32" where
  "hash_int n = murmur_finalizer (ucast n) (ucast (drop_bit 32 n))"

definition vec_scramble :: "u32 \<Rightarrow> u32" where
  "vec_scramble i = (let i = (if i = 0x80000000 then 0 else i) in i XOR drop_bit 17 i)"

definition hash_vec :: "u32 \<Rightarrow> u32 \<Rightarrow> u32 \<Rightarrow> u32" where
  "hash_vec x y z =
     ((vec_scramble x * 73856093) XOR (vec_scramble y * 19349663)) XOR (vec_scramble z * 83492791)"

definition hashnum :: "nat \<Rightarrow> double \<Rightarrow> nat" where
  "hashnum lsizenode n = hashpow2 lsizenode (hash_num n)"

definition hashstr :: "nat \<Rightarrow> bytes \<Rightarrow> nat" where
  "hashstr lsizenode s = hashpow2 lsizenode (luaS_hash s)"

definition hashpointer :: "nat \<Rightarrow> u64 \<Rightarrow> nat" where
  "hashpointer lsizenode p = hashpow2 lsizenode (hash_pointer p)"

text \<open>The main position of a key. The code never asks for that of \<^verbatim>\<open>nil\<close> or of a dead key, whose
  pointer field is not that of an object.\<close>

fun mainposition :: "nat \<Rightarrow> TKey \<Rightarrow> nat cpp" where
  "mainposition ls (KeyNumber n) = Inr (hashnum ls n)"
| "mainposition ls (KeyInteger n) = Inr (hashpow2 ls (hash_int n))"
| "mainposition ls (KeyVector x y z) = Inr (hashpow2 ls (hash_vec x y z))"
| "mainposition ls (KeyGc (GcString s)) = Inr (hashstr ls s)"
| "mainposition ls (KeyBoolean b) = Inr (hashpow2 ls (if b then 1 else 0))"
| "mainposition ls KeySymNone = Inr (hashpow2 ls 2)"
| "mainposition ls (KeyLightUserdata p tag) = Inr (hashpointer ls p)"
| "mainposition ls (KeyGc (GcObject ty p)) = Inr (hashpointer ls p)"
| "mainposition ls KeyNil = Inl UndefinedAccess"
| "mainposition ls (KeyDead r) = Inl UndefinedAccess"

section \<open>The table\<close>

record 'v LuaNode =
  gval :: "'v option"
  gkey :: TKey
  gnext :: int

definition dummynode :: "'v LuaNode" where
  "dummynode = \<lparr>gval = None, gkey = KeyNil, gnext = 0\<rparr>"

text \<open>The field \<open>t_node\<close> is empty when the pointer is \<^verbatim>\<open>dummynode\<close>. The field \<open>t_lastfree\<close> is the
  union of \<^verbatim>\<open>lastfree\<close> and \<^verbatim>\<open>aboundary\<close>. \<open>t_array\<close> is the allocation of the array part; its length is
  \<open>t_sizearray\<close> except while the table is resized.\<close>

record 'v LuaTable =
  t_array :: "'v option list"
  t_sizearray :: int
  t_node :: "'v LuaNode list"
  t_lsizenode :: nat
  t_nodemask8 :: byte
  t_lastfree :: int
  t_tmcache :: byte
  t_metatable :: "nat option"
  t_readonly :: bool
  t_safeenv :: bool
  t_arrayid :: nat
  t_nodeid :: nat

datatype slot = NilObject | ArraySlot nat | NodeSlot nat

definition MAXBITS :: nat where "MAXBITS = 26"
definition MAXSIZE :: int where "MAXSIZE = 2 ^ 26"

definition twoto :: "nat \<Rightarrow> nat" where
  "twoto x = 2 ^ x"

definition sizenode :: "'v LuaTable \<Rightarrow> nat" where
  "sizenode t = twoto (t_lsizenode t)"

definition gnode :: "'v LuaTable \<Rightarrow> nat \<Rightarrow> 'v LuaNode cpp" where
  "gnode t i =
     (if t_node t = [] \<and> i = 0 then Inr dummynode
      else if i < length (t_node t) then Inr (t_node t ! i) else Inl UndefinedAccess)"

definition set_node :: "'v LuaTable \<Rightarrow> nat \<Rightarrow> 'v LuaNode \<Rightarrow> 'v LuaTable cpp" where
  "set_node t i n = (if i < length (t_node t) then Inr (t\<lparr>t_node := (t_node t)[i := n]\<rparr>) else Inl UndefinedAccess)"

text \<open>Pointer arithmetic on nodes: \<open>n + d\<close> has to stay in front of no negative index.\<close>

definition node_add :: "nat \<Rightarrow> int \<Rightarrow> nat cpp" where
  "node_add n d = (if 0 \<le> int n + d then Inr (nat (int n + d)) else Inl UndefinedAccess)"

text \<open>\<^verbatim>\<open>next\<close> is a bit field of 28 bits.\<close>

definition next28 :: "int \<Rightarrow> int" where
  "next28 d = signed_take_bit 27 d"

definition array_get :: "'v LuaTable \<Rightarrow> int \<Rightarrow> 'v option cpp" where
  "array_get t i = (if 0 \<le> i \<and> nat i < length (t_array t) then Inr (t_array t ! nat i) else Inl UndefinedAccess)"

text \<open>The loads and stores through a \<^verbatim>\<open>TValue*\<close>, the latter by the macro \<^verbatim>\<open>setobj2t\<close>.\<close>

definition read_slot :: "'v LuaTable \<Rightarrow> slot \<Rightarrow> 'v option cpp" where
  "read_slot t p =
     (case p of
        NilObject \<Rightarrow> Inr None
      | ArraySlot i \<Rightarrow> array_get t (int i)
      | NodeSlot i \<Rightarrow> bindE (gnode t i) (\<lambda>n. Inr (gval n)))"

definition write_slot :: "'v LuaTable \<Rightarrow> slot \<Rightarrow> 'v option \<Rightarrow> 'v LuaTable cpp" where
  "write_slot t p v =
     (case p of
        NilObject \<Rightarrow> Inl UndefinedAccess
      | ArraySlot i \<Rightarrow> if i < length (t_array t) then Inr (t\<lparr>t_array := (t_array t)[i := v]\<rparr>) else Inl UndefinedAccess
      | NodeSlot i \<Rightarrow>
          if i < length (t_node t) then Inr (t\<lparr>t_node := (t_node t)[i := (t_node t ! i)\<lparr>gval := v\<rparr>]\<rparr>)
          else Inl UndefinedAccess)"

text \<open>The cast of a double to \<^verbatim>\<open>int\<close> is undefined in C++ when the integral part does not fit; what the
  target makes of it then is a parameter, a function that agrees with truncation where that is defined.\<close>

type_synonym num2int = "double \<Rightarrow> int"

definition casts :: "num2int \<Rightarrow> bool" where
  "casts c2i \<longleftrightarrow> (\<forall>d. in_int32 (c2i d)) \<and> (\<forall>d n. dbl_trunc d = Some n \<and> in_int32 n \<longrightarrow> c2i d = n)"

text \<open>The casts of x86 and of ARM.\<close>

definition cvttsd2si :: num2int where
  "cvttsd2si d = (case dbl_trunc d of Some n \<Rightarrow> if in_int32 n then n else - (2 ^ 31) | None \<Rightarrow> - (2 ^ 31))"

definition fcvtzs :: num2int where
  "fcvtzs d =
     (case dbl_trunc d of
        Some n \<Rightarrow> max (- (2 ^ 31)) (min (2 ^ 31 - 1) n)
      | None \<Rightarrow> if dbl_isnan d then 0 else if dbl_sign d then - (2 ^ 31) else 2 ^ 31 - 1)"

definition arrayindex :: "num2int \<Rightarrow> double \<Rightarrow> int" where
  "arrayindex c2i key = (let i = c2i key in if dbl_eq (dbl_of_int i) key then i else - 1)"

text \<open>\<^verbatim>\<open>unsigned(key) - 1 < unsigned(t->sizearray)\<close>\<close>

definition in_array_part :: "int \<Rightarrow> int \<Rightarrow> bool" where
  "in_array_part key sizearr \<longleftrightarrow> (word_of_int key :: u32) - 1 < word_of_int sizearr"

fun ttisnumber_key :: "TKey \<Rightarrow> bool" where
  "ttisnumber_key (KeyNumber d) = True"
| "ttisnumber_key _ = False"

section \<open>Searching\<close>

text \<open>The loop that follows a chain from the node \<open>n\<close> until a key satisfies \<open>match\<close>.\<close>

partial_function (option) chain_find :: "(TKey \<Rightarrow> bool) \<Rightarrow> 'v LuaTable \<Rightarrow> nat \<Rightarrow> nat option cpp option" where
  "chain_find match t n =
     (case gnode t n of
        Inl e \<Rightarrow> Some (Inl e)
      | Inr nd \<Rightarrow>
          if match (gkey nd) then Some (Inr (Some n))
          else if gnext nd = 0 then Some (Inr None)
          else (case node_add n (gnext nd) of Inl e \<Rightarrow> Some (Inl e) | Inr n' \<Rightarrow> chain_find match t n'))"

declare chain_find.simps [code]

definition search :: "(TKey \<Rightarrow> bool) \<Rightarrow> 'v LuaTable \<Rightarrow> nat \<Rightarrow> slot cpp" where
  "search match t n =
     bindE (terminates (chain_find match t n)) (\<lambda>r. Inr (case r of None \<Rightarrow> NilObject | Some i \<Rightarrow> NodeSlot i))"

definition luaH_getnum :: "'v LuaTable \<Rightarrow> int \<Rightarrow> slot cpp" where
  "luaH_getnum t key =
     (if in_array_part key (t_sizearray t) then Inr (ArraySlot (nat (key - 1)))
      else if t_node t \<noteq> [] then
        let nk = dbl_of_int key
        in search (\<lambda>k. case k of KeyNumber d \<Rightarrow> dbl_eq d nk | _ \<Rightarrow> False) t (hashnum (t_lsizenode t) nk)
      else Inr NilObject)"

definition luaH_getstr :: "'v LuaTable \<Rightarrow> bytes \<Rightarrow> slot cpp" where
  "luaH_getstr t key = search (\<lambda>k. k = KeyGc (GcString key)) t (hashstr (t_lsizenode t) key)"

definition luaH_getp :: "'v LuaTable \<Rightarrow> u64 \<Rightarrow> nat \<Rightarrow> slot cpp" where
  "luaH_getp t key tag = search (\<lambda>k. k = KeyLightUserdata key tag) t (hashpointer (t_lsizenode t) key)"

definition luaH_get :: "num2int \<Rightarrow> 'v LuaTable \<Rightarrow> TKey \<Rightarrow> slot cpp" where
  "luaH_get c2i t key =
     (let generic = bindE (mainposition (t_lsizenode t) key) (\<lambda>n. search (\<lambda>k. luaO_rawequalKey k key) t n)
      in case key of
           KeyNil \<Rightarrow> Inr NilObject
         | KeyGc (GcString s) \<Rightarrow> luaH_getstr t s
         | KeyNumber n \<Rightarrow> let k = c2i n in if dbl_eq (dbl_of_int k) n then luaH_getnum t k else generic
         | _ \<Rightarrow> generic)"

section \<open>Traversal\<close>

text \<open>A dead key is recognised by the object it referred to. The code compares addresses; a reference of the model names the object,
  a string by its contents, since strings are interned. That the collector gives the address of a dead key to another object is
  not modelled.\<close>

definition findindex :: "num2int \<Rightarrow> 'v LuaTable \<Rightarrow> TKey \<Rightarrow> int cpp" where
  "findindex c2i t key =
     (if key = KeyNil then Inr (- 1)
      else
        let i = (case key of KeyNumber d \<Rightarrow> arrayindex c2i d | _ \<Rightarrow> - 1)
        in if 0 < i \<and> i \<le> t_sizearray t then Inr (i - 1)
           else
             bindE (mainposition (t_lsizenode t) key) (\<lambda>n.
             bindE (terminates (chain_find (\<lambda>k. luaO_rawequalKey k key \<or>
                 (case (k, key) of (KeyDead r, KeyGc r') \<Rightarrow> r = r' | _ \<Rightarrow> False)) t n)) (\<lambda>r.
             case r of
               Some i \<Rightarrow> Inr (int i + t_sizearray t)
             | None \<Rightarrow> Inl (Thrown (''invalid key to '' @ [CHR 0x27] @ ''next'' @ [CHR 0x27])))))"

text \<open>The two loops of \<^verbatim>\<open>luaH_next\<close>, over the indices left in the array part and in the node vector.\<close>

function next_array :: "'v LuaTable \<Rightarrow> int \<Rightarrow> (int \<times> 'v) option cpp" where
  "next_array t i =
     (if i < t_sizearray t then
        bindE (array_get t i) (\<lambda>v. case v of Some x \<Rightarrow> Inr (Some (i, x)) | None \<Rightarrow> next_array t (i + 1))
      else Inr None)"
  by pat_completeness auto
termination by (relation "measure (\<lambda>(t, i). nat (t_sizearray t - i))") auto

function next_node :: "'v LuaTable \<Rightarrow> nat \<Rightarrow> (nat \<times> TKey \<times> 'v) option cpp" where
  "next_node t i =
     (if i < sizenode t then
        bindE (gnode t i) (\<lambda>n. case gval n of Some x \<Rightarrow> Inr (Some (i, gkey n, x)) | None \<Rightarrow> next_node t (i + 1))
      else Inr None)"
  by pat_completeness auto
termination by (relation "measure (\<lambda>(t, i). sizenode t - i)") auto

declare next_array.simps [simp del] next_node.simps [simp del]

definition luaH_next :: "num2int \<Rightarrow> 'v LuaTable \<Rightarrow> TKey \<Rightarrow> (TKey \<times> 'v) option cpp" where
  "luaH_next c2i t key =
     bindE (findindex c2i t key) (\<lambda>i.
     bindE (next_array t (i + 1)) (\<lambda>r.
     case r of
       Some (i, x) \<Rightarrow> Inr (Some (KeyNumber (dbl_of_int (i + 1)), x))
     | None \<Rightarrow>
         bindE (next_node t (nat (max (i + 1) (t_sizearray t) - t_sizearray t))) (\<lambda>r.
         Inr (map_option snd r))))"

section \<open>Sizes\<close>

text \<open>\<^verbatim>\<open>luaO_log2\<close> with its table of 256 bytes, and the macro \<^verbatim>\<open>ceillog2\<close>.\<close>

definition log_2 :: "int list" where
  "log_2 = [0, 1] @ replicate 2 2 @ replicate 4 3 @ replicate 8 4 @ replicate 16 5 @ replicate 32 6 @
     replicate 64 7 @ replicate 128 8"

function luaO_log2_loop :: "int \<Rightarrow> u32 \<Rightarrow> int" where
  "luaO_log2_loop l x = (if x \<ge> 256 then luaO_log2_loop (l + 8) (drop_bit 8 x) else l + log_2 ! unat x)"
  by pat_completeness auto
termination
proof (relation "measure (\<lambda>(l, x). unat x)", goal_cases)
  case (2 l x)
  then have "256 \<le> unat x" by (simp add: word_le_nat_alt)
  then show ?case by (simp add: unat_drop_bit_eq drop_bit_eq_div unat_div_distrib)
qed simp

definition luaO_log2 :: "u32 \<Rightarrow> int" where
  "luaO_log2 x = luaO_log2_loop (- 1) x"

definition ceillog2 :: "int \<Rightarrow> int" where
  "ceillog2 x = luaO_log2 (word_of_int (x - 1)) + 1"

text \<open>Arrays of counters, with their bounds.\<close>

definition nums_get :: "int list \<Rightarrow> nat \<Rightarrow> int cpp" where
  "nums_get nums i = (if i < length nums then Inr (nums ! i) else Inl UndefinedAccess)"

definition nums_add :: "int list \<Rightarrow> int \<Rightarrow> int \<Rightarrow> int list cpp" where
  "nums_add nums i d =
     (if 0 \<le> i \<and> nat i < length nums then Inr (nums[nat i := nums ! nat i + d]) else Inl UndefinedAccess)"

text \<open>The loop of \<^verbatim>\<open>computesizes\<close>; \<open>twotoi\<close> is the power of two of \<open>i\<close>, and \<open>narray\<close> does not change in it.\<close>

function computesizes_loop :: "int list \<Rightarrow> int \<Rightarrow> nat \<Rightarrow> int \<Rightarrow> int \<Rightarrow> int \<Rightarrow> (int \<times> int) cpp" where
  "computesizes_loop nums narray i a na n =
     (let twotoi = 2 ^ i :: int in
      if twotoi div 2 < narray then
        bindE (nums_get nums i) (\<lambda>c.
        let (a, na, n) =
          (if c > 0 then let a = a + c in if a > twotoi div 2 then (a, a, twotoi) else (a, na, n) else (a, na, n))
        in if a = narray then Inr (na, n) else computesizes_loop nums narray (i + 1) a na n)
      else Inr (na, n))"
  by pat_completeness auto
termination
proof (relation "measure (\<lambda>(nums, narray, i, a, na, n). length nums - i)", goal_cases)
  case (2 nums narray i a na n)
  then show ?case by (auto simp: nums_get_def split: if_splits)
qed simp

definition computesizes :: "int list \<Rightarrow> int \<Rightarrow> (int \<times> int) cpp" where
  "computesizes nums narray =
     bindE (computesizes_loop nums narray 0 0 0 0) (\<lambda>(na, n).
     bindE (guardE (cdiv n 2 \<le> na \<and> na \<le> n) (AssertionFailed ''*narray / 2 <= na && na <= *narray'')) (\<lambda>_.
     Inr (na, n)))"

definition countint :: "num2int \<Rightarrow> double \<Rightarrow> int list \<Rightarrow> (int \<times> int list) cpp" where
  "countint c2i key nums =
     (let k = arrayindex c2i key in
      if 0 < k \<and> k \<le> MAXSIZE then bindE (nums_add nums (ceillog2 k) 1) (\<lambda>nums. Inr (1, nums))
      else Inr (0, nums))"

text \<open>\<^verbatim>\<open>numusearray\<close>: the inner loop counts the values at the indices from \<open>i\<close> to \<open>lim\<close>; the outer one runs over
  the slices \<open>lg\<close> that are left.\<close>

definition count_range :: "'v LuaTable \<Rightarrow> int \<Rightarrow> int \<Rightarrow> int cpp" where
  "count_range t i lim =
     foldE (\<lambda>lc i. bindE (array_get t (i - 1)) (\<lambda>v. Inr (if v \<noteq> None then lc + 1 else lc))) 0 [i..lim]"

fun numusearray_loop :: "'v LuaTable \<Rightarrow> nat list \<Rightarrow> int \<Rightarrow> int list \<Rightarrow> int \<Rightarrow> (int \<times> int list) cpp" where
  "numusearray_loop t [] i nums ause = Inr (ause, nums)"
| "numusearray_loop t (lg # lgs) i nums ause =
     (let lim = int (twoto lg) in
      if lim > t_sizearray t \<and> i > t_sizearray t then Inr (ause, nums)
      else
        let lim = (if lim > t_sizearray t then t_sizearray t else lim) in
        bindE (count_range t i lim) (\<lambda>lc.
        bindE (nums_add nums (int lg) lc) (\<lambda>nums.
        numusearray_loop t lgs (max i (lim + 1)) nums (ause + lc))))"

definition numusearray :: "'v LuaTable \<Rightarrow> int list \<Rightarrow> (int \<times> int list) cpp" where
  "numusearray t nums = numusearray_loop t [0..<MAXBITS + 1] 1 nums 0"

definition numusehash :: "num2int \<Rightarrow> 'v LuaTable \<Rightarrow> int list \<Rightarrow> int \<Rightarrow> (int \<times> int list \<times> int) cpp" where
  "numusehash c2i t nums nasize =
     bindE (foldE (\<lambda>(totaluse, ause, nums) i.
         bindE (gnode t i) (\<lambda>n.
         if gval n \<noteq> None then
           bindE (case gkey n of KeyNumber d \<Rightarrow> countint c2i d nums | _ \<Rightarrow> Inr (0, nums)) (\<lambda>(c, nums).
           Inr (totaluse + 1, ause + c, nums))
         else Inr (totaluse, ause, nums))) (0, 0, nums) (rev [0..<sizenode t])) (\<lambda>(totaluse, ause, nums).
     Inr (totaluse, nums, nasize + ause))"

section \<open>Allocation and insertion\<close>

definition setarrayvector :: "'v LuaTable \<Rightarrow> int \<Rightarrow> 'v LuaTable cpp" where
  "setarrayvector t newsize =
     bindE (guardE (newsize \<le> MAXSIZE) (Thrown ''table overflow'')) (\<lambda>_.
     Inr (t\<lparr>t_array := take (nat (t_sizearray t)) (t_array t) @ replicate (nat (newsize - t_sizearray t)) None,
            t_arrayid := t_arrayid t + 1, t_sizearray := newsize\<rparr>))"

definition setnodevector :: "'v LuaTable \<Rightarrow> int \<Rightarrow> 'v LuaTable cpp" where
  "setnodevector t newsize =
     bindE (if newsize = 0 then Inr ([], 0, 0)
            else
              let lsize = ceillog2 newsize in
              bindE (guardE (lsize \<le> int MAXBITS) (Thrown ''table overflow'')) (\<lambda>_.
              let lsize = nat lsize; newsize = twoto lsize
              in Inr (replicate newsize \<lparr>gval = None, gkey = KeyNil, gnext = 0\<rparr>, lsize, int newsize))) (\<lambda>(node, lsize, newsize).
     Inr (t\<lparr>t_node := node, t_lsizenode := lsize, t_nodemask8 := word_of_int (2 ^ lsize - 1), t_lastfree := newsize,
            t_nodeid := t_nodeid t + 1\<rparr>))"

text \<open>\<^verbatim>\<open>getfreepos\<close> returns no position when there is no free node.\<close>

function getfreepos :: "'v LuaTable \<Rightarrow> (nat option \<times> 'v LuaTable) cpp" where
  "getfreepos t =
     (if t_lastfree t > 0 then
        let t = t\<lparr>t_lastfree := t_lastfree t - 1\<rparr> in
        bindE (gnode t (nat (t_lastfree t))) (\<lambda>n.
        if gkey n = KeyNil then Inr (Some (nat (t_lastfree t)), t) else getfreepos t)
      else Inr (None, t))"
  by pat_completeness auto
termination by (relation "measure (\<lambda>t. nat (t_lastfree t))") auto

declare luaO_log2_loop.simps [simp del] computesizes_loop.simps [simp del] getfreepos.simps [simp del]

text \<open>The functions that insert a key call each other: \<^verbatim>\<open>newkey\<close> calls \<^verbatim>\<open>rehash\<close>, which calls \<^verbatim>\<open>resize\<close>, which
  inserts the elements again with \<^verbatim>\<open>newkey\<close>. Each is defined with the \<^verbatim>\<open>newkey\<close> it calls as an argument.\<close>

type_synonym 'v inserter = "'v LuaTable \<Rightarrow> TKey \<Rightarrow> (slot \<times> 'v LuaTable) cpp"

definition arrayornewkey :: "num2int \<Rightarrow> 'v inserter \<Rightarrow> 'v inserter" where
  "arrayornewkey c2i newkey t key =
     (case key of
        KeyNumber n \<Rightarrow>
          let k = c2i n in
          if dbl_eq (dbl_of_int k) n \<and> in_array_part k (t_sizearray t) then Inr (ArraySlot (nat (k - 1)), t)
          else newkey t key
      | _ \<Rightarrow> newkey t key)"

definition migrate_array :: "'v inserter \<Rightarrow> 'v LuaTable \<Rightarrow> int \<Rightarrow> 'v LuaTable cpp" where
  "migrate_array newkey t i =
     bindE (array_get t i) (\<lambda>v.
     if v \<noteq> None then
       bindE (newkey t (KeyNumber (dbl_of_int (i + 1)))) (\<lambda>(p, t). write_slot t p v)
     else Inr t)"

definition migrate_node :: "num2int \<Rightarrow> 'v inserter \<Rightarrow> 'v LuaNode list \<Rightarrow> 'v LuaTable \<Rightarrow> nat \<Rightarrow> 'v LuaTable cpp" where
  "migrate_node c2i newkey nold t i =
     bindE (if nold = [] \<and> i = 0 then Inr dummynode
            else if i < length nold then Inr (nold ! i) else Inl UndefinedAccess) (\<lambda>old.
     if gval old \<noteq> None then
       bindE (arrayornewkey c2i newkey t (gkey old)) (\<lambda>(p, t). write_slot t p (gval old))
     else Inr t)"

definition resize :: "num2int \<Rightarrow> 'v inserter \<Rightarrow> 'v LuaTable \<Rightarrow> int \<Rightarrow> int \<Rightarrow> 'v LuaTable cpp" where
  "resize c2i newkey t nasize nhsize =
     bindE (guardE (\<not> (nasize > MAXSIZE \<or> nhsize > MAXSIZE)) (Thrown ''table overflow'')) (\<lambda>_.
     let oldasize = t_sizearray t; oldhsize = t_lsizenode t; nold = t_node t in
     bindE (if nasize > oldasize then setarrayvector t nasize else Inr t) (\<lambda>t.
     bindE (setnodevector t nhsize) (\<lambda>t.
     let nnew = t_nodeid t in
     bindE (if nasize < oldasize then
              bindE (foldE (migrate_array newkey) (t\<lparr>t_sizearray := nasize\<rparr>) [nasize..oldasize - 1]) (\<lambda>t.
              Inr (t\<lparr>t_array := take (nat nasize) (t_array t), t_arrayid := t_arrayid t + 1\<rparr>))
            else Inr t) (\<lambda>t.
     let anew = t_arrayid t in
     bindE (foldE (migrate_node c2i newkey nold) t (rev [0..<twoto oldhsize])) (\<lambda>t.
     bindE (guardE (nnew = t_nodeid t) (AssertionFailed ''nnew == t->node'')) (\<lambda>_.
     bindE (guardE (anew = t_arrayid t) (AssertionFailed ''anew == t->array'')) (\<lambda>_.
     Inr t)))))))"

text \<open>The loop of \<^verbatim>\<open>adjustasize\<close> moves the size past every index that holds a value.\<close>

partial_function (option) adjust_loop :: "'v LuaTable \<Rightarrow> bool \<Rightarrow> int \<Rightarrow> int \<Rightarrow> int cpp option" where
  "adjust_loop t tbound ekindex asize =
     (case (if asize + 1 = ekindex then Inr True
            else if tbound then
              bindE (luaH_getnum t (asize + 1)) (\<lambda>p. bindE (read_slot t p) (\<lambda>v. Inr (v \<noteq> None)))
            else Inr False) of
        Inl e \<Rightarrow> Some (Inl e)
      | Inr ahead \<Rightarrow> if ahead then adjust_loop t tbound ekindex (asize + 1) else Some (Inr asize))"

declare adjust_loop.simps [code]

definition adjustasize :: "num2int \<Rightarrow> 'v LuaTable \<Rightarrow> int \<Rightarrow> TKey option \<Rightarrow> int cpp" where
  "adjustasize c2i t asize ek =
     (let tbound = t_node t \<noteq> [] \<or> asize < t_sizearray t;
          ekindex = (case ek of Some (KeyNumber d) \<Rightarrow> arrayindex c2i d | _ \<Rightarrow> - 1)
      in terminates (adjust_loop t tbound ekindex asize))"

definition rehash :: "num2int \<Rightarrow> 'v inserter \<Rightarrow> 'v LuaTable \<Rightarrow> TKey \<Rightarrow> 'v LuaTable cpp" where
  "rehash c2i newkey t ek =
     bindE (numusearray t (replicate (MAXBITS + 1) 0)) (\<lambda>(nasize, nums).
     let totaluse = nasize in
     bindE (numusehash c2i t nums nasize) (\<lambda>(use, nums, nasize).
     let totaluse = totaluse + use in
     bindE (case ek of KeyNumber d \<Rightarrow> countint c2i d nums | _ \<Rightarrow> Inr (0, nums)) (\<lambda>(c, nums).
     let nasize = nasize + c; totaluse = totaluse + 1 in
     bindE (computesizes nums nasize) (\<lambda>(na, nasize).
     let nh = totaluse - na in
     bindE (adjustasize c2i t nasize (Some ek)) (\<lambda>nadjusted.
     let aextra = nadjusted - nasize in
     bindE (if aextra \<noteq> 0 then
              bindE (adjustasize c2i t (nadjusted + aextra) (Some ek)) (\<lambda>nasize. Inr (nasize, nh - aextra))
            else Inr (nasize, nh)) (\<lambda>(nasize, nh).
     resize c2i newkey t nasize nh))))))"

text \<open>The loop that finds the node in front of \<open>mp\<close> in the chain of \<open>othern\<close>.\<close>

partial_function (option) find_previous :: "'v LuaTable \<Rightarrow> nat \<Rightarrow> nat \<Rightarrow> nat cpp option" where
  "find_previous t mp othern =
     (case bindE (gnode t othern) (\<lambda>n. node_add othern (gnext n)) of
        Inl e \<Rightarrow> Some (Inl e)
      | Inr othern' \<Rightarrow> if othern' \<noteq> mp then find_previous t mp othern' else Some (Inr othern))"

declare find_previous.simps [code]

text \<open>The two ways to make room for a key whose main position \<open>mp\<close> holds a value: the colliding node is moved
  to the free node \<open>n\<close>, or the new key takes \<open>n\<close>, chained behind \<open>mp\<close>. Both return the node for the key.\<close>

definition move_colliding :: "'v LuaTable \<Rightarrow> nat \<Rightarrow> nat \<Rightarrow> nat \<Rightarrow> (nat \<times> 'v LuaTable) cpp" where
  "move_colliding t mp n othern =
     bindE (terminates (find_previous t mp othern)) (\<lambda>othern.
     bindE (gnode t othern) (\<lambda>prev.
     bindE (set_node t othern (prev\<lparr>gnext := next28 (int n - int othern)\<rparr>)) (\<lambda>t.
     bindE (gnode t mp) (\<lambda>m.
     bindE (set_node t n m) (\<lambda>t.
     bindE (if gnext m \<noteq> 0 then
              bindE (set_node t n (m\<lparr>gnext := next28 (gnext m + (int mp - int n))\<rparr>)) (\<lambda>t.
              set_node t mp (m\<lparr>gnext := 0\<rparr>))
            else Inr t) (\<lambda>t.
     bindE (gnode t mp) (\<lambda>m.
     bindE (set_node t mp (m\<lparr>gval := None\<rparr>)) (\<lambda>t.
     Inr (mp, t)))))))))"

definition chain_behind :: "'v LuaTable \<Rightarrow> nat \<Rightarrow> nat \<Rightarrow> (nat \<times> 'v LuaTable) cpp" where
  "chain_behind t mp n =
     bindE (gnode t mp) (\<lambda>m.
     bindE (gnode t n) (\<lambda>f.
     bindE (if gnext m \<noteq> 0 then
              bindE (node_add mp (gnext m)) (\<lambda>s. set_node t n (f\<lparr>gnext := next28 (int s - int n)\<rparr>))
            else bindE (guardE (gnext f = 0) (AssertionFailed ''gnext(n) == 0'')) (\<lambda>_. Inr t)) (\<lambda>t.
     bindE (set_node t mp (m\<lparr>gnext := next28 (int n - int mp)\<rparr>)) (\<lambda>t.
     Inr (n, t)))))"

definition newkey_body :: "num2int \<Rightarrow> 'v inserter \<Rightarrow> 'v inserter" where
  "newkey_body c2i newkey t key =
     (if (case key of KeyNumber d \<Rightarrow> dbl_eq d (dbl_of_int (t_sizearray t + 1)) | _ \<Rightarrow> False) then
        bindE (rehash c2i newkey t key) (\<lambda>t. arrayornewkey c2i newkey t key)
      else
        let insert = (\<lambda>mp t.
          bindE (gnode t mp) (\<lambda>m.
          bindE (set_node t mp (m\<lparr>gkey := key\<rparr>)) (\<lambda>t.
          bindE (guardE (gval m = None) (AssertionFailed ''ttisnil(gval(mp))'')) (\<lambda>_.
          Inr (NodeSlot mp, t)))))
        in
        bindE (mainposition (t_lsizenode t) key) (\<lambda>mp.
        bindE (gnode t mp) (\<lambda>m.
        if gval m \<noteq> None \<or> t_node t = [] then
          bindE (getfreepos t) (\<lambda>(n, t).
          case n of
            None \<Rightarrow> bindE (rehash c2i newkey t key) (\<lambda>t. arrayornewkey c2i newkey t key)
          | Some n \<Rightarrow>
              bindE (guardE (t_node t \<noteq> []) (AssertionFailed ''n != dummynode'')) (\<lambda>_.
              bindE (mainposition (t_lsizenode t) (gkey m)) (\<lambda>othern.
              bindE (if othern \<noteq> mp then move_colliding t mp n othern else chain_behind t mp n) (\<lambda>(mp, t).
              insert mp t))))
        else insert mp t)))"

text \<open>The depth to which \<^verbatim>\<open>newkey\<close> calls itself is bounded by \<open>d\<close>; with none left the result is \<open>Diverges\<close>.\<close>

fun newkey :: "nat \<Rightarrow> num2int \<Rightarrow> 'v inserter" where
  "newkey 0 c2i t key = Inl Diverges"
| "newkey (Suc d) c2i t key = newkey_body c2i (newkey d c2i) t key"

definition newkey_depth :: nat where
  "newkey_depth = 2"

section \<open>The interface of the table\<close>

definition luaH_resizearray :: "num2int \<Rightarrow> 'v LuaTable \<Rightarrow> int \<Rightarrow> 'v LuaTable cpp" where
  "luaH_resizearray c2i t nasize =
     (let nsize = (if t_node t = [] then 0 else int (sizenode t)) in
      bindE (adjustasize c2i t nasize None) (\<lambda>asize.
      resize c2i (newkey newkey_depth c2i) t asize nsize))"

definition luaH_resizehash :: "num2int \<Rightarrow> 'v LuaTable \<Rightarrow> int \<Rightarrow> 'v LuaTable cpp" where
  "luaH_resizehash c2i t nhsize = resize c2i (newkey newkey_depth c2i) t (t_sizearray t) nhsize"

definition luaH_new :: "int \<Rightarrow> int \<Rightarrow> 'v LuaTable cpp" where
  "luaH_new narray nhash =
     (let t = \<lparr>t_array = [], t_sizearray = 0, t_node = [], t_lsizenode = 0, t_nodemask8 = 0, t_lastfree = 0, t_tmcache = 255,
               t_metatable = None, t_readonly = False, t_safeenv = False, t_arrayid = 0, t_nodeid = 0\<rparr>
      in bindE (if narray > 0 then setarrayvector t narray else Inr t) (\<lambda>t.
         if nhash > 0 then setnodevector t nhash else Inr t))"

definition luaH_newkey :: "num2int \<Rightarrow> 'v LuaTable \<Rightarrow> TKey \<Rightarrow> (slot \<times> 'v LuaTable) cpp" where
  "luaH_newkey c2i t key =
     (case key of
        KeyNil \<Rightarrow> Inl (Thrown ''table index is nil'')
      | KeyNumber d \<Rightarrow> if dbl_isnan d then Inl (Thrown ''table index is NaN'') else newkey newkey_depth c2i t key
      | KeyVector x y z \<Rightarrow>
          if flt_isnan x \<or> flt_isnan y \<or> flt_isnan z then Inl (Thrown ''table index contains NaN'')
          else newkey newkey_depth c2i t key
      | _ \<Rightarrow> newkey newkey_depth c2i t key)"

definition invalidateTMcache :: "'v LuaTable \<Rightarrow> 'v LuaTable" where
  "invalidateTMcache t = t\<lparr>t_tmcache := 0\<rparr>"

definition luaH_setslot :: "num2int \<Rightarrow> 'v LuaTable \<Rightarrow> slot \<Rightarrow> TKey \<Rightarrow> (slot \<times> 'v LuaTable) cpp" where
  "luaH_setslot c2i t p key =
     (let t = invalidateTMcache t in if p = NilObject then luaH_newkey c2i t key else Inr (p, t))"

definition luaH_set :: "num2int \<Rightarrow> 'v LuaTable \<Rightarrow> TKey \<Rightarrow> (slot \<times> 'v LuaTable) cpp" where
  "luaH_set c2i t key =
     bindE (luaH_get c2i t key) (\<lambda>p.
     let t = invalidateTMcache t in
     if p \<noteq> NilObject then Inr (p, t) else luaH_newkey c2i t key)"

definition luaH_setnum :: "num2int \<Rightarrow> 'v LuaTable \<Rightarrow> int \<Rightarrow> (slot \<times> 'v LuaTable) cpp" where
  "luaH_setnum c2i t key =
     (if in_array_part key (t_sizearray t) then Inr (ArraySlot (nat (key - 1)), t)
      else bindE (luaH_getnum t key) (\<lambda>p.
        if p \<noteq> NilObject then Inr (p, t) else newkey newkey_depth c2i t (KeyNumber (dbl_of_int key))))"

definition luaH_setstr :: "num2int \<Rightarrow> 'v LuaTable \<Rightarrow> bytes \<Rightarrow> (slot \<times> 'v LuaTable) cpp" where
  "luaH_setstr c2i t key =
     bindE (luaH_getstr t key) (\<lambda>p.
     let t = invalidateTMcache t in
     if p \<noteq> NilObject then Inr (p, t) else newkey newkey_depth c2i t (KeyGc (GcString key)))"

definition luaH_setp :: "num2int \<Rightarrow> 'v LuaTable \<Rightarrow> u64 \<Rightarrow> nat \<Rightarrow> (slot \<times> 'v LuaTable) cpp" where
  "luaH_setp c2i t key tag =
     bindE (luaH_getp t key tag) (\<lambda>p.
     if p \<noteq> NilObject then Inr (p, t) else newkey newkey_depth c2i t (KeyLightUserdata key tag))"

section \<open>The boundary\<close>

definition maybesetaboundary :: "'v LuaTable \<Rightarrow> int \<Rightarrow> 'v LuaTable" where
  "maybesetaboundary t boundary = (if t_lastfree t \<le> 0 then t\<lparr>t_lastfree := - boundary\<rparr> else t)"

definition getaboundary :: "'v LuaTable \<Rightarrow> int" where
  "getaboundary t = (if t_lastfree t < 0 then - t_lastfree t else t_sizearray t)"

text \<open>Whether the element of the array at an index, counted from 0, is \<^verbatim>\<open>nil\<close>.\<close>

definition ttisnil_at :: "'v LuaTable \<Rightarrow> int \<Rightarrow> bool cpp" where
  "ttisnil_at t i = bindE (array_get t i) (\<lambda>v. Inr (v = None))"

text \<open>The conjunction of C++, which does not evaluate its second operand when the first is false.\<close>

definition and_cpp :: "bool cpp \<Rightarrow> bool cpp \<Rightarrow> bool cpp" where
  "and_cpp p q = bindE p (\<lambda>b. if b then q else Inr False)"

definition not_cpp :: "bool cpp \<Rightarrow> bool cpp" where
  "not_cpp p = bindE p (\<lambda>b. Inr (\<not> b))"

definition updateaboundary :: "'v LuaTable \<Rightarrow> int \<Rightarrow> (int \<times> 'v LuaTable) cpp" where
  "updateaboundary t boundary =
     bindE (and_cpp (Inr (boundary < t_sizearray t)) (ttisnil_at t (boundary - 1))) (\<lambda>below.
     if below then
       bindE (and_cpp (Inr (boundary \<ge> 2)) (not_cpp (ttisnil_at t (boundary - 2)))) (\<lambda>found.
       Inr (if found then (boundary - 1, maybesetaboundary t (boundary - 1)) else (0, t)))
     else
       bindE (and_cpp (Inr (boundary + 1 < t_sizearray t)) (and_cpp (not_cpp (ttisnil_at t boundary)) (ttisnil_at t (boundary + 1)))) (\<lambda>found.
       Inr (if found then (boundary + 1, maybesetaboundary t (boundary + 1)) else (0, t))))"

text \<open>The binary search of \<^verbatim>\<open>luaH_getn\<close>; \<open>pos\<close> is the distance of \<^verbatim>\<open>base\<close> from the array.\<close>

function bisect :: "'v LuaTable \<Rightarrow> int \<Rightarrow> int \<Rightarrow> int cpp" where
  "bisect t pos rest =
     (let half = rest div 2 in
      if 1 < rest then
        bindE (ttisnil_at t (pos + half)) (\<lambda>isnil. bisect t (if isnil then pos else pos + half) (rest - half))
      else Inr pos)"
  by pat_completeness auto
termination by (relation "measure (\<lambda>(t, pos, rest). nat rest)") auto

declare bisect.simps [simp del]

definition luaH_getn :: "'v LuaTable \<Rightarrow> (int \<times> 'v LuaTable) cpp" where
  "luaH_getn t =
     (let boundary = getaboundary t; j = t_sizearray t;
          rest = (\<lambda>t.
            bindE (and_cpp (Inr (j > 0)) (ttisnil_at t (j - 1))) (\<lambda>search.
            if search then
              bindE (bisect t 0 j) (\<lambda>pos.
              bindE (ttisnil_at t pos) (\<lambda>isnil.
              let boundary = (if isnil then 0 else 1) + pos
              in Inr (boundary, maybesetaboundary t boundary)))
            else
              bindE (if t_node t = [] then Inr True
                     else bindE (luaH_getnum t (j + 1)) (\<lambda>p. bindE (read_slot t p) (\<lambda>v. Inr (v = None)))) (\<lambda>valid.
              bindE (guardE valid (AssertionFailed ''t->node == dummynode || ttisnil(luaH_getnum(t, j + 1))'')) (\<lambda>_.
              Inr (j, t)))))
      in if boundary > 0 then
           bindE (and_cpp (not_cpp (ttisnil_at t (t_sizearray t - 1))) (Inr (t_node t = []))) (\<lambda>full.
           if full then Inr (t_sizearray t, t)
           else
             bindE (and_cpp (Inr (boundary < t_sizearray t)) (and_cpp (not_cpp (ttisnil_at t (boundary - 1))) (ttisnil_at t boundary))) (\<lambda>here.
             if here then Inr (boundary, t)
             else
               bindE (updateaboundary t boundary) (\<lambda>(found, t).
               if found > 0 then Inr (found, t) else rest t)))
         else rest t)"

section \<open>Copies and clearing\<close>

text \<open>The copy is a new object: its array and node vector are new allocations.\<close>

definition luaH_clone :: "'v LuaTable \<Rightarrow> 'v LuaTable" where
  "luaH_clone tt =
     (let t = \<lparr>t_array = [], t_sizearray = 0, t_node = [], t_lsizenode = 0, t_nodemask8 = 0, t_lastfree = 0,
               t_tmcache = t_tmcache tt, t_metatable = t_metatable tt, t_readonly = False, t_safeenv = False,
               t_arrayid = 0, t_nodeid = 0\<rparr>;
          t = (if t_sizearray tt \<noteq> 0 then
                 (maybesetaboundary t (getaboundary tt))\<lparr>t_sizearray := t_sizearray tt,
                   t_array := take (nat (t_sizearray tt)) (t_array tt)\<rparr>
               else t)
      in if t_node tt \<noteq> [] then
           t\<lparr>t_node := take (twoto (t_lsizenode tt)) (t_node tt), t_lsizenode := t_lsizenode tt,
             t_nodemask8 := t_nodemask8 tt, t_lastfree := t_lastfree tt\<rparr>
         else t)"

definition luaH_clear :: "'v LuaTable \<Rightarrow> 'v LuaTable" where
  "luaH_clear tt =
     (let tt = tt\<lparr>t_array := replicate (nat (t_sizearray tt)) None @ drop (nat (t_sizearray tt)) (t_array tt)\<rparr>;
          tt = maybesetaboundary tt 0;
          tt = (if t_node tt \<noteq> [] then
                  tt\<lparr>t_lastfree := int (sizenode tt), t_node := replicate (sizenode tt) dummynode @ drop (sizenode tt) (t_node tt)\<rparr>
                else tt)
      in tt\<lparr>t_tmcache := 255\<rparr>)"

text \<open>What the garbage collector does to an entry without a value (\<^verbatim>\<open>removeentry\<close> of \<^verbatim>\<open>VM/src/lgc.cpp\<close>).\<close>

definition removeentry :: "'v LuaTable \<Rightarrow> nat \<Rightarrow> 'v LuaTable cpp" where
  "removeentry t i =
     bindE (gnode t i) (\<lambda>n.
     bindE (guardE (gval n = None) (AssertionFailed ''ttisnil(gval(n))'')) (\<lambda>_.
     case gkey n of
       KeyGc r \<Rightarrow> set_node t i (n\<lparr>gkey := KeyDead r\<rparr>)
     | _ \<Rightarrow> Inr t))"

text \<open>The visit of the collector to a table, the loop over the nodes in \<^verbatim>\<open>traversetable\<close> of \<^verbatim>\<open>VM/src/lgc.cpp\<close>; what
  it marks is not in the table. The removal of elements from weak tables is not modelled.\<close>

fun removeentries :: "'v LuaTable \<Rightarrow> nat \<Rightarrow> 'v LuaTable cpp" where
  "removeentries t 0 = Inr t"
| "removeentries t (Suc i) =
     bindE (gnode t i) (\<lambda>n.
     bindE (guardE ((\<forall>r. gkey n \<noteq> KeyDead r) \<or> gval n = None) (AssertionFailed ''ttype(gkey(n)) != LUA_TDEADKEY || ttisnil(gval(n))'')) (\<lambda>_.
     if gval n = None then bindE (removeentry t i) (\<lambda>t. removeentries t i)
     else bindE (guardE (gkey n \<noteq> KeyNil) (AssertionFailed ''!ttisnil(gkey(n))'')) (\<lambda>_. removeentries t i)))"

definition traversetable :: "'v LuaTable \<Rightarrow> 'v LuaTable cpp" where
  "traversetable t = removeentries t (sizenode t)"

text \<open>The raw accesses of the C API: \<^verbatim>\<open>lua_rawget\<close>, \<^verbatim>\<open>lua_rawset\<close>, \<^verbatim>\<open>lua_rawgeti\<close> and \<^verbatim>\<open>lua_rawseti\<close> of
  \<^verbatim>\<open>VM/src/lapi.cpp\<close>, on the table itself.\<close>

definition luaG_readonlyerror :: "'a cpp" where
  "luaG_readonlyerror = Inl (Thrown ''attempt to modify a readonly table'')"

definition rawget :: "num2int \<Rightarrow> 'v LuaTable \<Rightarrow> TKey \<Rightarrow> 'v option cpp" where
  "rawget c2i t key = bindE (luaH_get c2i t key) (read_slot t)"

definition rawgeti :: "'v LuaTable \<Rightarrow> int \<Rightarrow> 'v option cpp" where
  "rawgeti t n = bindE (luaH_getnum t n) (read_slot t)"

definition rawset :: "num2int \<Rightarrow> 'v LuaTable \<Rightarrow> TKey \<Rightarrow> 'v option \<Rightarrow> 'v LuaTable cpp" where
  "rawset c2i t key v =
     (if t_readonly t then luaG_readonlyerror
      else bindE (luaH_set c2i t key) (\<lambda>(p, t). write_slot t p v))"

definition rawseti :: "num2int \<Rightarrow> 'v LuaTable \<Rightarrow> int \<Rightarrow> 'v option \<Rightarrow> 'v LuaTable cpp" where
  "rawseti c2i t n v =
     (if t_readonly t then luaG_readonlyerror
      else bindE (luaH_setnum c2i t n) (\<lambda>(p, t). write_slot t p v))"

text \<open>Keys of strings and light userdata have functions of their own: \<^verbatim>\<open>lua_rawgetfield\<close>,
  \<^verbatim>\<open>lua_rawsetfield\<close>, \<^verbatim>\<open>lua_rawgetptagged\<close> and \<^verbatim>\<open>lua_rawsetptagged\<close>.\<close>

definition rawgetfield :: "'v LuaTable \<Rightarrow> bytes \<Rightarrow> 'v option cpp" where
  "rawgetfield t k = bindE (luaH_getstr t k) (read_slot t)"

definition rawsetfield :: "num2int \<Rightarrow> 'v LuaTable \<Rightarrow> bytes \<Rightarrow> 'v option \<Rightarrow> 'v LuaTable cpp" where
  "rawsetfield c2i t k v =
     (if t_readonly t then luaG_readonlyerror
      else bindE (luaH_setstr c2i t k) (\<lambda>(p, t). write_slot t p v))"

definition rawgetptagged :: "'v LuaTable \<Rightarrow> u64 \<Rightarrow> nat \<Rightarrow> 'v option cpp" where
  "rawgetptagged t p tag = bindE (luaH_getp t p tag) (read_slot t)"

definition rawsetptagged :: "num2int \<Rightarrow> 'v LuaTable \<Rightarrow> u64 \<Rightarrow> nat \<Rightarrow> 'v option \<Rightarrow> 'v LuaTable cpp" where
  "rawsetptagged c2i t p tag v =
     (if t_readonly t then luaG_readonlyerror
      else bindE (luaH_setp c2i t p tag) (\<lambda>(q, t). write_slot t q v))"

definition lua_cleartable :: "'v LuaTable \<Rightarrow> 'v LuaTable cpp" where
  "lua_cleartable tt = (if t_readonly tt then luaG_readonlyerror else Inr (luaH_clear tt))"

text \<open>\<^verbatim>\<open>lua_rawiter\<close> of the API: from the iterator \<open>iter\<close> it returns the next one with a key and a value.\<close>

definition lua_rawiter :: "'v LuaTable \<Rightarrow> int \<Rightarrow> (int \<times> TKey \<times> 'v) option cpp" where
  "lua_rawiter t iter =
     bindE (next_array t iter) (\<lambda>r.
     case r of
       Some (i, x) \<Rightarrow> Inr (Some (i + 1, KeyNumber (dbl_of_int (i + 1)), x))
     | None \<Rightarrow>
         let iter = max iter (t_sizearray t) in
         bindE (next_node t (nat (iter - t_sizearray t))) (\<lambda>r.
         Inr (map_option (\<lambda>(i, k, x). (int i + t_sizearray t + 1, k, x)) r)))"

end
