(* ===== verification/TableNodes.thy ===== *)
theory TableNodes
  imports LuaTable Refinement "HOL-Library.Multiset"
begin

text \<open>
  The hash part of a table. Raw equality is an equivalence on the keys a table can hold and agrees with the
  hash functions. The chains of nodes have an invariant under which a search from the main position of a key
  finds the node that holds it; each of the three ways in which \<^verbatim>\<open>newkey\<close> places a key keeps it: in its
  empty main position, in its main position after the colliding node has moved away, or in a free node
  behind the colliding one.
\<close>

section \<open>Equality of numbers\<close>

lemma double_fields: "unat d = (if dbl_sign d then 2 ^ 63 else 0) + dbl_exponent d * 2 ^ 52 + dbl_fraction d"
proof -
  have "unat d div 2 ^ 63 = (if dbl_sign d then 1 else 0)"
    using bit63_iff [of d] unsigned_less [of d, where ?'a = nat]
    by (auto simp: dbl_sign_def div_eq_0_iff intro: div_nat_eqI)
  moreover have "unat d mod 2 ^ 63 = dbl_exponent d * 2 ^ 52 + dbl_fraction d"
  proof -
    have "unat d mod 2 ^ 63 = unat d mod (2 ^ 52 * 2 ^ 11)" by simp
    also have "\<dots> = 2 ^ 52 * (unat d div 2 ^ 52 mod 2 ^ 11) + unat d mod 2 ^ 52" by (rule mod_mult2_eq)
    finally show ?thesis by (simp add: dbl_exponent_def dbl_fraction_def)
  qed
  ultimately have "unat d = (if dbl_sign d then 1 else 0) * 2 ^ 63 + (dbl_exponent d * 2 ^ 52 + dbl_fraction d)"
    using div_mult_mod_eq [of "unat d" "2 ^ 63"] by argo
  then show ?thesis by simp
qed

lemma dbl_fraction_less: "dbl_fraction d < 2 ^ 52"
  by (simp add: dbl_fraction_def)

lemma normal_magnitude: "0 < dbl_exponent d \<Longrightarrow> 2 ^ (dbl_exponent d + 51) \<le> dbl_magnitude d \<and> dbl_magnitude d < 2 ^ (dbl_exponent d + 52)"
  using dbl_fraction_less [of d]
proof (cases "dbl_exponent d")
  case (Suc e)
  have "(2 :: nat) ^ (dbl_exponent d + 51) = 2 ^ 52 * 2 ^ e" "(2 :: nat) ^ (dbl_exponent d + 52) = 2 ^ 53 * 2 ^ e"
    by (simp_all add: Suc power_add)
  moreover have "dbl_magnitude d = (2 ^ 52 + dbl_fraction d) * 2 ^ e" using Suc by (simp add: dbl_magnitude_def)
  ultimately show ?thesis using dbl_fraction_less [of d] by (auto intro!: mult_le_mono1 mult_less_mono1)
qed simp

lemma small_magnitude: "dbl_exponent d = 0 \<Longrightarrow> dbl_magnitude d < 2 ^ 52"
  using dbl_fraction_less [of d] by (simp add: dbl_magnitude_def)

lemma magnitude_exponent:
  assumes "dbl_magnitude a = dbl_magnitude b"
  shows "dbl_exponent a = dbl_exponent b"
proof -
  have False if "dbl_exponent a < dbl_exponent b" "dbl_magnitude a = dbl_magnitude b" for a b
  proof -
    have b: "2 ^ (dbl_exponent b + 51) \<le> dbl_magnitude b" using normal_magnitude [of b] that(1) by auto
    have "dbl_magnitude a < 2 ^ (dbl_exponent a + 52)"
      using normal_magnitude [of a] small_magnitude [of a] by (cases "dbl_exponent a = 0") auto
    also have "\<dots> \<le> 2 ^ (dbl_exponent b + 51)" using that(1) by (intro power_increasing) auto
    finally show False using b that(2) by simp
  qed
  from this [of a b] this [of b a] assms show ?thesis by (metis linorder_neqE_nat)
qed

lemma magnitude_inj:
  assumes "dbl_magnitude a = dbl_magnitude b"
  shows "dbl_exponent a = dbl_exponent b \<and> dbl_fraction a = dbl_fraction b"
  using magnitude_exponent [OF assms] assms by (auto simp: dbl_magnitude_def split: if_splits)

text \<open>Equal numbers have the same bits below the sign, and the sign as well unless they are zeros.\<close>

lemma dbl_eq_bits:
  assumes "dbl_eq a b"
  shows "unat a mod 2 ^ 63 = unat b mod 2 ^ 63" "dbl_magnitude a = dbl_magnitude b"
proof -
  from assms show m: "dbl_magnitude a = dbl_magnitude b"
    by (auto simp: dbl_eq_def dbl_scaled_def split: if_splits)
  have "unat x mod 2 ^ 63 = dbl_exponent x * 2 ^ 52 + dbl_fraction x" for x :: double
  proof -
    have "dbl_exponent x < 2 ^ 11" by (simp add: dbl_exponent_def)
    then have "dbl_exponent x * 2 ^ 52 + dbl_fraction x < 2 ^ 63" using dbl_fraction_less [of x] by simp
    then show ?thesis by (subst double_fields) (simp add: add.assoc)
  qed
  then show "unat a mod 2 ^ 63 = unat b mod 2 ^ 63" using magnitude_inj [OF m] by simp
qed

lemma unat_low: "unat (take_bit n w) = unat w mod 2 ^ n"
  by (subst unsigned_take_bit_eq) (rule take_bit_eq_mod)

lemma hash_num_cong: "dbl_eq a b \<Longrightarrow> hash_num a = hash_num b"
proof -
  assume "dbl_eq a b"
  then have "take_bit 63 a = take_bit 63 b"
    using dbl_eq_bits(1) [of a b] by (intro unsigned_word_eqI [where ?'a = nat]) (simp only: unat_low)
  then have b: "bit a n = bit b n" if "n < 63" for n
    using that by (metis bit_take_bit_iff)
  have "ucast a = (ucast b :: u32)" by (rule bit_word_eqI) (simp add: bit_simps b)
  moreover have "ucast (drop_bit 32 a) AND 0x7FFFFFFF = (ucast (drop_bit 32 b) AND 0x7FFFFFFF :: u32)"
  proof -
    have m: "(0x7FFFFFFF :: u32) = mask 31" by (simp add: mask_eq_exp_minus_1)
    show ?thesis unfolding m by (rule bit_word_eqI) (auto simp: bit_simps b)
  qed
  ultimately show ?thesis by (simp add: hash_num_def)
qed

lemma flt_numeq_refl: "flt_numeq a a \<longleftrightarrow> \<not> flt_isnan a"
  by (simp add: flt_numeq_def)

lemma flt_numeq_sym: "flt_numeq a b \<longleftrightarrow> flt_numeq b a"
  by (auto simp: flt_numeq_def)

lemma flt_numeq_trans: "flt_numeq a b \<Longrightarrow> flt_numeq b c \<Longrightarrow> flt_numeq a c"
  by (auto simp: flt_numeq_def)

lemma zero_float: "(a :: u32) AND 0x7FFFFFFF = 0 \<Longrightarrow> a = 0 \<or> a = 0x80000000"
proof -
  assume "a AND 0x7FFFFFFF = 0"
  then have "take_bit 31 a = 0" by (simp add: take_bit_eq_mask mask_eq_exp_minus_1)
  then have "unat a mod 2 ^ 31 = 0" by (metis unat_low unsigned_0)
  then obtain q where q: "unat a = 2 ^ 31 * q" by (auto simp: mod_eq_0_iff_dvd elim: dvdE)
  moreover have "unat a < 2 ^ 32" using unsigned_less [of a, where ?'a = nat] by simp
  ultimately have "q = 0 \<or> q = 1" by auto
  with q have "unat a = 0 \<or> unat a = 2 ^ 31" by auto
  then show ?thesis by (auto simp: word_unat_eq_iff)
qed

lemma vec_scramble_cong: "flt_numeq a b \<Longrightarrow> vec_scramble a = vec_scramble b"
  by (auto simp: flt_numeq_def vec_scramble_def dest!: zero_float)

section \<open>Keys a table can hold\<close>

definition live_key :: "TKey \<Rightarrow> bool" where
  "live_key k \<longleftrightarrow> k \<noteq> KeyNil \<and> (\<forall>r. k \<noteq> KeyDead r) \<and> \<not> key_isnan k"

lemma rawequal_refl: "live_key k \<Longrightarrow> luaO_rawequalKey k k"
  by (cases k) (auto simp: live_key_def luaO_rawequalKey_def dbl_eq_refl flt_numeq_refl)

lemma rawequal_sym: "luaO_rawequalKey a b \<Longrightarrow> luaO_rawequalKey b a"
  by (cases a; cases b) (auto simp: luaO_rawequalKey_def dbl_eq_sym flt_numeq_sym)

lemma rawequal_trans: "luaO_rawequalKey a b \<Longrightarrow> luaO_rawequalKey b c \<Longrightarrow> luaO_rawequalKey a c"
  by (cases a; cases b; simp add: luaO_rawequalKey_def split: TKey.splits) (auto intro: dbl_eq_trans flt_numeq_trans)

lemma rawequal_live: "luaO_rawequalKey a b \<Longrightarrow> live_key a \<Longrightarrow> live_key b"
  by (cases a; cases b) (auto simp: luaO_rawequalKey_def live_key_def dbl_eq_def flt_numeq_def)

lemma rawequal_live_iff: "luaO_rawequalKey a b \<Longrightarrow> live_key a \<longleftrightarrow> live_key b"
  using rawequal_live rawequal_sym by blast

definition home :: "nat \<Rightarrow> TKey \<Rightarrow> nat" where
  "home ls k = (case mainposition ls k of Inr n \<Rightarrow> n | Inl e \<Rightarrow> 0)"

lemma hashpow2_less: "hashpow2 ls h < 2 ^ ls"
proof (cases "ls < 32")
  case True
  then have "hashpow2 ls h = unat h mod 2 ^ ls"
    unfolding hashpow2_def by (simp only: push_bit_of_1 flip: mask_eq_exp_minus_1 take_bit_eq_mask unat_low)
  then show ?thesis by simp
next
  case False
  have "hashpow2 ls h < 2 ^ 32" unfolding hashpow2_def using unsigned_less [where ?'a = nat and ?'b = 32] by simp
  also have "\<dots> \<le> 2 ^ ls" using False by (intro power_increasing) auto
  finally show ?thesis .
qed

lemma hash_home_less: "home ls k < 2 ^ ls"
  by (cases "(ls, k)" rule: mainposition.cases)
    (simp_all add: home_def hashnum_def hashstr_def hashpointer_def hashpow2_less)

lemma mainposition_live: "live_key k \<Longrightarrow> mainposition ls k = Inr (home ls k)"
  by (cases "(ls, k)" rule: mainposition.cases) (auto simp: home_def live_key_def)

lemma hash_vec_cong: "flt_numeq x x' \<Longrightarrow> flt_numeq y y' \<Longrightarrow> flt_numeq z z' \<Longrightarrow> hash_vec x y z = hash_vec x' y' z'"
  unfolding hash_vec_def by (simp only: vec_scramble_cong)

lemma home_cong: "luaO_rawequalKey a b \<Longrightarrow> home ls a = home ls b"
  by (cases a; cases b)
    (auto simp: luaO_rawequalKey_def home_def hashnum_def dest: hash_num_cong hash_vec_cong)

section \<open>Array indices\<close>

lemma trunc_of_eq:
  assumes "exact_in_double n" "dbl_eq (dbl_of_int n) d"
  shows "dbl_trunc d = Some n"
proof -
  note n = dbl_of_int_exact [OF assms(1)]
  have m: "dbl_magnitude d = dbl_magnitude (dbl_of_int n)" using dbl_eq_bits(2) [OF assms(2)] by simp
  then have fin: "dbl_isfinite d" using magnitude_exponent [OF m] n(2) by (simp add: dbl_isfinite_def)
  have s: "dbl_scaled d = dbl_scaled (dbl_of_int n)" using assms(2) by (simp add: dbl_eq_def)
  have "dbl_trunc d = dbl_trunc (dbl_of_int n)"
  proof (cases "dbl_magnitude d = 0")
    case True
    with m fin n(2) show ?thesis by (simp add: dbl_trunc_def)
  next
    case False
    with s m have "dbl_sign d = dbl_sign (dbl_of_int n)"
      by (auto simp: dbl_scaled_def split: if_splits)
    with m fin n(2) show ?thesis by (simp only: dbl_trunc_def)
  qed
  with n(4) show ?thesis by simp
qed

definition int_key :: "TKey \<Rightarrow> int option" where
  "int_key k =
     (case k of
        KeyNumber d \<Rightarrow>
          (case dbl_trunc d of
             Some n \<Rightarrow> if in_int32 n \<and> dbl_eq (dbl_of_int n) d then Some n else None
           | None \<Rightarrow> None)
      | _ \<Rightarrow> None)"

abbreviation num :: "int \<Rightarrow> TKey" where
  "num i \<equiv> KeyNumber (dbl_of_int i)"

lemma int_key_iff: "int_key k = Some j \<longleftrightarrow> in_int32 j \<and> luaO_rawequalKey (num j) k"
proof (cases k)
  case (KeyNumber d)
  have t: "dbl_trunc d = Some n" if "in_int32 n" "dbl_eq (dbl_of_int n) d" for n
    using that by (intro trunc_of_eq in_int32_exact)
  show ?thesis
  proof (cases "in_int32 j \<and> dbl_eq (dbl_of_int j) d")
    case True
    with t [of j] show ?thesis by (simp add: KeyNumber int_key_def luaO_rawequalKey_def)
  next
    case False
    then show ?thesis by (auto simp: KeyNumber int_key_def luaO_rawequalKey_def split: option.split)
  qed
qed (simp_all add: int_key_def luaO_rawequalKey_def)

lemma live_num: "in_int32 j \<Longrightarrow> live_key (num j)"
  using dbl_of_int_exact(3) [OF in_int32_exact, of j] by (simp add: live_key_def)

lemma int_key_num [simp]: "in_int32 j \<Longrightarrow> int_key (num j) = Some j"
  unfolding int_key_iff using rawequal_refl [OF live_num] by blast

lemma int_key_cong:
  assumes "luaO_rawequalKey a b"
  shows "int_key a = int_key b"
proof -
  have "int_key a = Some j \<longleftrightarrow> int_key b = Some j" for j
    using rawequal_trans [OF _ assms, of "num j"] rawequal_trans [OF _ rawequal_sym [OF assms], of "num j"]
    by (auto simp only: int_key_iff)
  then show ?thesis by (metis option.exhaust)
qed

lemma int_key_rawequal: "int_key a = Some j \<Longrightarrow> int_key b = Some j \<Longrightarrow> luaO_rawequalKey a b"
  by (meson int_key_iff rawequal_trans rawequal_sym)

lemma int_key_live: "int_key k = Some j \<Longrightarrow> live_key k"
  using rawequal_live live_num by (auto simp: int_key_iff)

lemma int_key_None [simp]: "\<not> ttisnumber_key k \<Longrightarrow> int_key k = None"
  by (cases k) (auto simp: int_key_def)

lemma casts_int_key:
  assumes "casts c2i"
  shows "dbl_eq (dbl_of_int (c2i d)) d \<longleftrightarrow> int_key (KeyNumber d) \<noteq> None"
    and "int_key (KeyNumber d) = Some j \<Longrightarrow> c2i d = j"
proof -
  have c: "c2i d = j" if "int_key (KeyNumber d) = Some j" for j
    using that assms by (auto simp: int_key_def casts_def split: option.splits if_splits)
  show "int_key (KeyNumber d) = Some j \<Longrightarrow> c2i d = j" by (rule c)
  show "dbl_eq (dbl_of_int (c2i d)) d \<longleftrightarrow> int_key (KeyNumber d) \<noteq> None"
  proof
    assume "dbl_eq (dbl_of_int (c2i d)) d"
    then have "int_key (KeyNumber d) = Some (c2i d)"
      using assms by (simp add: int_key_iff luaO_rawequalKey_def casts_def)
    then show "int_key (KeyNumber d) \<noteq> None" by simp
  next
    assume "int_key (KeyNumber d) \<noteq> None"
    then obtain j where j: "int_key (KeyNumber d) = Some j" by blast
    with c [OF j] show "dbl_eq (dbl_of_int (c2i d)) d" by (simp add: int_key_iff luaO_rawequalKey_def)
  qed
qed

lemma arrayindex_int_key:
  assumes "casts c2i"
  shows "arrayindex c2i d = (case int_key (KeyNumber d) of Some j \<Rightarrow> j | None \<Rightarrow> - 1)"
  using casts_int_key [OF assms, of d] by (auto simp: arrayindex_def split: option.splits)

lemma casts_cvttsd2si: "casts cvttsd2si"
  by (auto simp: casts_def cvttsd2si_def in_int32_def split: option.splits)

lemma casts_fcvtzs: "casts fcvtzs"
  by (auto simp: casts_def fcvtzs_def in_int32_def split: option.splits)

lemma in_array_part_iff:
  assumes "in_int32 j" "0 \<le> n" "n < 2 ^ 31"
  shows "in_array_part j n \<longleftrightarrow> 1 \<le> j \<and> j \<le> n"
proof -
  have w: "(word_of_int j :: u32) - 1 = word_of_int (j - 1)" by simp
  have "uint ((word_of_int j :: u32) - 1) = (j - 1) mod 2 ^ 32" unfolding w uint_word_of_int by simp
  then have "in_array_part j n \<longleftrightarrow> (j - 1) mod 2 ^ 32 < n"
    using assms(2,3) by (simp add: in_array_part_def word_less_alt uint_word_of_int)
  also have "\<dots> \<longleftrightarrow> 1 \<le> j \<and> j \<le> n"
  proof (cases "1 \<le> j")
    case True
    with assms(1) show ?thesis by (auto simp: in_int32_def)
  next
    case False
    have "(j - 1) mod 2 ^ 32 = (j - 1 + 2 ^ 32) mod 2 ^ 32" by (simp only: mod_add_self2)
    also have "\<dots> = j - 1 + 2 ^ 32" using False assms(1) by (intro mod_pos_pos_trivial) (simp_all add: in_int32_def)
    finally show ?thesis using False assms by (simp add: in_int32_def)
  qed
  finally show ?thesis .
qed

section \<open>Chains\<close>

text \<open>The node behind a node, and paths through the chains: \<open>path f x ps y\<close> says that following \<open>f\<close> from \<open>x\<close>
  visits the nodes \<open>ps\<close> and arrives at \<open>y\<close>.\<close>

definition behind :: "'v LuaNode list \<Rightarrow> nat \<Rightarrow> nat option" where
  "behind ns i = (if gnext (ns ! i) = 0 then None else Some (nat (int i + gnext (ns ! i))))"

primrec path :: "(nat \<Rightarrow> nat option) \<Rightarrow> nat option \<Rightarrow> nat list \<Rightarrow> nat option \<Rightarrow> bool" where
  "path f x [] y \<longleftrightarrow> x = y"
| "path f x (p # ps) y \<longleftrightarrow> x = Some p \<and> path f (f p) ps y"

lemma path_append [simp]: "path f x (ps @ qs) y \<longleftrightarrow> (\<exists>z. path f x ps z \<and> path f z qs y)"
  by (induction ps arbitrary: x) auto

lemma path_None [simp]: "path f None ps y \<longleftrightarrow> ps = [] \<and> y = None"
  by (cases ps) auto

lemma path_cong: "(\<And>p. p \<in> set ps \<Longrightarrow> f p = g p) \<Longrightarrow> path f x ps y \<longleftrightarrow> path g x ps y"
  by (induction ps arbitrary: x) auto

lemma path_map: "path f x ps y \<Longrightarrow> (\<And>p. p \<in> set ps \<Longrightarrow> g (s p) = map_option s (f p)) \<Longrightarrow>
  path g (map_option s x) (map s ps) (map_option s y)"
  by (induction ps arbitrary: x) force+

lemma path_to_end_unique: "path f x ps None \<Longrightarrow> path f x qs None \<Longrightarrow> ps = qs"
  by (induction ps arbitrary: x qs) (auto, metis path.simps(2) list.exhaust option.inject path.simps(1) option.discI)

lemma path_to_end_distinct: "path f x ps None \<Longrightarrow> distinct ps"
proof (induction ps arbitrary: x)
  case (Cons p ps)
  have "p \<notin> set ps"
  proof
    assume "p \<in> set ps"
    then obtain as bs where ps: "ps = as @ p # bs" by (metis split_list)
    with Cons.prems have "path f (f p) (as @ p # bs) None" "path f (f p) bs None" by auto
    then have "as @ p # bs = bs" by (rule path_to_end_unique)
    then have "length (as @ p # bs) = length bs" by (rule arg_cong)
    then show False by simp
  qed
  with Cons show ?case by auto
qed simp

text \<open>A path that ends in the middle of a chain can be continued to its end.\<close>

lemma path_prefix:
  assumes "path f x ps None" "path f x qs (Some i)"
  shows "\<exists>rs. ps = qs @ i # rs"
  using assms
proof (induction qs arbitrary: x ps)
  case Nil
  then show ?case by (cases ps) auto
next
  case (Cons q qs)
  then obtain ps' where "ps = q # ps'" "path f (f q) ps' None" by (cases ps) auto
  with Cons show ?case by auto
qed

lemma path_through:
  assumes "path f x ps y" "p \<in> set ps"
  obtains as bs where "ps = as @ p # bs" "path f x as (Some p)" "path f (f p) bs y"
proof -
  from assms(2) obtain as bs where ps: "ps = as @ p # bs" by (metis split_list)
  with assms(1) show ?thesis by (intro that [OF ps]) auto
qed

text \<open>The keys at which a search for \<open>key\<close> stops_at, with the dead keys that \<^verbatim>\<open>findindex\<close> accepts.\<close>

definition stops_at :: "TKey \<Rightarrow> TKey \<Rightarrow> bool" where
  "stops_at key k \<longleftrightarrow> luaO_rawequalKey k key \<or> (case (k, key) of (KeyDead r, KeyGc r') \<Rightarrow> r = r' | _ \<Rightarrow> False)"

text \<open>The invariant of the hash part. Chains stay inside the vector, end and do not join; a free node
  is in no chain; a dead key has no value; no two live keys are equal; a live key is found from its main position; and
  a node in the main position of a live key has this main position itself or is dead.\<close>

definition in_chains :: "'v LuaNode list \<Rightarrow> bool" where
  "in_chains ns \<longleftrightarrow>
     (\<forall>i < length ns. 0 \<le> int i + gnext (ns ! i) \<and> int i + gnext (ns ! i) < int (length ns)) \<and>
     (\<forall>i < length ns. \<exists>ps. path (behind ns) (Some i) ps None) \<and>
     (\<forall>i < length ns. \<forall>j < length ns. behind ns i \<noteq> None \<and> behind ns i = behind ns j \<longrightarrow> i = j)"

definition free_nodes :: "'v LuaNode list \<Rightarrow> bool" where
  "free_nodes ns \<longleftrightarrow>
     (\<forall>i < length ns. gkey (ns ! i) = KeyNil \<longrightarrow>
        gval (ns ! i) = None \<and> gnext (ns ! i) = 0 \<and> (\<forall>j < length ns. behind ns j \<noteq> Some i))"

definition node_keys :: "'v LuaNode list \<Rightarrow> bool" where
  "node_keys ns \<longleftrightarrow>
     (\<forall>i < length ns. gval (ns ! i) \<noteq> None \<longrightarrow> live_key (gkey (ns ! i))) \<and>
     (\<forall>i < length ns. \<not> key_isnan (gkey (ns ! i))) \<and>
     (\<forall>i < length ns. \<forall>j < length ns. luaO_rawequalKey (gkey (ns ! i)) (gkey (ns ! j)) \<and> live_key (gkey (ns ! i)) \<longrightarrow> i = j)"

definition chained_keys :: "nat \<Rightarrow> 'v LuaNode list \<Rightarrow> bool" where
  "chained_keys ls ns \<longleftrightarrow>
     (\<forall>i < length ns. live_key (gkey (ns ! i)) \<longrightarrow>
        (\<exists>ps. path (behind ns) (Some (home ls (gkey (ns ! i)))) ps (Some i) \<and>
          (\<forall>j \<in> set ps. \<not> stops_at (gkey (ns ! i)) (gkey (ns ! j)))))"

definition main_positions :: "nat \<Rightarrow> 'v LuaNode list \<Rightarrow> bool" where
  "main_positions ls ns \<longleftrightarrow>
     (\<forall>i < length ns. let p = home ls (gkey (ns ! i)) in
        live_key (gkey (ns ! i)) \<and> live_key (gkey (ns ! p)) \<longrightarrow> home ls (gkey (ns ! p)) = p)"

definition hash_inv :: "nat \<Rightarrow> 'v LuaNode list \<Rightarrow> bool" where
  "hash_inv ls ns \<longleftrightarrow>
     length ns = 2 ^ ls \<and> in_chains ns \<and> free_nodes ns \<and> node_keys ns \<and> chained_keys ls ns \<and> main_positions ls ns"

lemma behind_less:
  assumes "in_chains ns" "i < length ns" "behind ns i = Some j"
  shows "j < length ns"
proof -
  from assms(1,2) have "0 \<le> int i + gnext (ns ! i)" "int i + gnext (ns ! i) < int (length ns)"
    by (auto simp: in_chains_def)
  with assms(3) show ?thesis by (auto simp: behind_def split: if_splits)
qed

lemma behind_inj:
  assumes "in_chains ns" "i < length ns" "j < length ns" "behind ns i \<noteq> None" "behind ns i = behind ns j"
  shows "i = j"
  using assms unfolding in_chains_def by blast

lemma path_less: "path (behind ns) x ps y \<Longrightarrow> in_chains ns \<Longrightarrow> (\<forall>i. x = Some i \<longrightarrow> i < length ns) \<Longrightarrow> \<forall>p \<in> set ps. p < length ns"
proof (induction ps arbitrary: x)
  case (Cons p ps)
  then have p: "p < length ns" by auto
  with Cons.prems behind_less [OF Cons.prems(2) p] have "\<forall>q \<in> set ps. q < length ns" by (intro Cons.IH [of "behind ns p"]) auto
  with p show ?case by simp
qed simp

section \<open>Lookup\<close>

definition holder :: "'v LuaNode list \<Rightarrow> TKey \<Rightarrow> nat \<Rightarrow> bool" where
  "holder ns k i \<longleftrightarrow> i < length ns \<and> luaO_rawequalKey (gkey (ns ! i)) k"

definition held :: "'v LuaNode list \<Rightarrow> TKey \<Rightarrow> nat option" where
  "held ns k = List.find (\<lambda>i. luaO_rawequalKey (gkey (ns ! i)) k) [0..<length ns]"

definition hval :: "'v LuaNode list \<Rightarrow> TKey \<Rightarrow> 'v option" where
  "hval ns k = (case held ns k of None \<Rightarrow> None | Some i \<Rightarrow> gval (ns ! i))"

lemma holder_unique:
  assumes "node_keys ns" "live_key k" "holder ns k i" "holder ns k j"
  shows "i = j"
proof -
  have "luaO_rawequalKey (gkey (ns ! i)) (gkey (ns ! j))" "live_key (gkey (ns ! i))"
    using assms(2-4) rawequal_trans rawequal_sym rawequal_live unfolding holder_def by meson+
  with assms show ?thesis by (auto simp: node_keys_def holder_def)
qed

lemma held_Some: "node_keys ns \<Longrightarrow> live_key k \<Longrightarrow> held ns k = Some i \<longleftrightarrow> holder ns k i"
proof
  assume "held ns k = Some i"
  then show "holder ns k i" by (auto simp: held_def find_Some_iff holder_def)
next
  assume n: "node_keys ns" "live_key k" "holder ns k i"
  then have "held ns k \<noteq> None" by (auto simp: held_def find_None_iff holder_def)
  then obtain j where j: "held ns k = Some j" by blast
  then have "holder ns k j" by (auto simp: held_def find_Some_iff holder_def)
  with holder_unique [OF n] j show "held ns k = Some i" by simp
qed

lemma held_None: "held ns k = None \<longleftrightarrow> (\<forall>i. \<not> holder ns k i)"
  by (auto simp: held_def find_None_iff holder_def)

lemma rawequal_cong: "luaO_rawequalKey k k' \<Longrightarrow> luaO_rawequalKey a k = luaO_rawequalKey a k'"
  by (meson rawequal_trans rawequal_sym)

lemma held_cong: "luaO_rawequalKey k k' \<Longrightarrow> held ns k = held ns k'"
  by (simp only: held_def rawequal_cong)

lemma hval_cong: "luaO_rawequalKey k k' \<Longrightarrow> hval ns k = hval ns k'"
  by (simp add: hval_def held_cong)

lemma hval_holder: "node_keys ns \<Longrightarrow> live_key k \<Longrightarrow> holder ns k i \<Longrightarrow> hval ns k = gval (ns ! i)"
  using held_Some [of ns k i] by (simp add: hval_def)

text \<open>Following a chain to its end.\<close>

lemma chain_find_path:
  assumes "in_chains (t_node t)" "n < length (t_node t)" "path (behind (t_node t)) (Some n) ps None"
  shows "chain_find P t n = Some (Inr (List.find (\<lambda>i. P (gkey (t_node t ! i))) ps))"
  using assms
proof (induction ps arbitrary: n)
  case (Cons p ps)
  let ?ns = "t_node t"
  have p: "p = n" and rest: "path (behind ?ns) (behind ?ns n) ps None" using Cons.prems by auto
  have node: "gnode t n = Inr (?ns ! n)" using Cons.prems by (auto simp: gnode_def)
  show ?case
  proof (cases "gnext (?ns ! n) = 0")
    case True
    with rest have "ps = []" by (simp add: behind_def)
    with True p node show ?thesis by (subst chain_find.simps) simp
  next
    case False
    then have b: "behind ?ns n = Some (nat (int n + gnext (?ns ! n)))" by (simp add: behind_def)
    have "0 \<le> int n + gnext (?ns ! n)" using Cons.prems by (auto simp: in_chains_def)
    then have "node_add n (gnext (?ns ! n)) = Inr (nat (int n + gnext (?ns ! n)))" by (simp add: node_add_def)
    moreover note Cons.IH [OF Cons.prems(1) behind_less [OF Cons.prems(1,2) b]]
    ultimately show ?thesis using False p node rest b by (subst chain_find.simps) simp
  qed
qed simp

lemma chain_find_dummy: "t_node t = [] \<Longrightarrow> chain_find P t 0 = Some (Inr (if P KeyNil then Some 0 else None))"
  by (subst chain_find.simps) (simp add: gnode_def dummynode_def)

text \<open>The search from the main position of a key finds the node that holds it.\<close>

lemma chain_find_holder:
  assumes "hash_inv (t_lsizenode t) (t_node t)" "live_key k" "holder (t_node t) k i"
    "\<And>k'. P k' \<Longrightarrow> stops_at k k'" "P (gkey (t_node t ! i))"
  shows "chain_find P t (home (t_lsizenode t) k) = Some (Inr (Some i))"
proof -
  let ?ns = "t_node t" and ?ls = "t_lsizenode t"
  note inv = assms(1) [unfolded hash_inv_def]
  from assms(3) have i: "i < length ?ns" "luaO_rawequalKey (gkey (?ns ! i)) k" by (auto simp: holder_def)
  then have live: "live_key (gkey (?ns ! i))" using rawequal_live [OF rawequal_sym assms(2)] by blast
  with i inv obtain qs where qs: "path (behind ?ns) (Some (home ?ls (gkey (?ns ! i)))) qs (Some i)"
    "\<forall>j \<in> set qs. \<not> stops_at (gkey (?ns ! i)) (gkey (?ns ! j))"
    by (auto simp: chained_keys_def)
  have h: "home ?ls (gkey (?ns ! i)) = home ?ls k" using home_cong [OF i(2)] .
  have less: "home ?ls k < length ?ns" using inv hash_home_less by auto
  obtain ps where ps: "path (behind ?ns) (Some (home ?ls k)) ps None"
    using inv less by (auto simp: in_chains_def)
  from path_prefix [OF ps qs(1) [unfolded h]] obtain rs where rs: "ps = qs @ i # rs" by blast
  have "\<not> P (gkey (?ns ! j))" if "j \<in> set qs" for j
  proof
    assume "P (gkey (?ns ! j))"
    then have s: "stops_at k (gkey (?ns ! j))" by (rule assms(4))
    have "stops_at (gkey (?ns ! i)) (gkey (?ns ! j))"
    proof (cases "luaO_rawequalKey (gkey (?ns ! j)) k")
      case True
      with i(2) show ?thesis using rawequal_trans rawequal_sym unfolding stops_at_def by blast
    next
      case False
      with s i(2) show ?thesis by (cases k; cases "gkey (?ns ! i)") (auto simp: stops_at_def luaO_rawequalKey_def split: TKey.splits)
    qed
    with qs(2) that show False by blast
  qed
  then have "List.find (\<lambda>i. P (gkey (?ns ! i))) ps = Some i"
    using assms(5) unfolding rs by (induction qs) auto
  with chain_find_path [OF _ less ps, of P] inv show ?thesis by simp
qed

lemma chain_find_absent:
  assumes "hash_inv (t_lsizenode t) (t_node t)" "\<And>i. i < length (t_node t) \<Longrightarrow> \<not> P (gkey (t_node t ! i))"
  shows "chain_find P t (home (t_lsizenode t) k) = Some (Inr None)"
proof -
  let ?ns = "t_node t" and ?h = "home (t_lsizenode t) k"
  note inv = assms(1) [unfolded hash_inv_def]
  have less: "?h < length ?ns" using inv hash_home_less by auto
  obtain ps where ps: "path (behind ?ns) (Some ?h) ps None" using inv less by (auto simp: in_chains_def)
  from path_less [OF ps] inv less assms(2) have "List.find (\<lambda>i. P (gkey (?ns ! i))) ps = None"
    by (auto simp: find_None_iff)
  with chain_find_path [OF _ less ps, of P] inv show ?thesis by simp
qed

definition node_inv :: "'v LuaTable \<Rightarrow> bool" where
  "node_inv t \<longleftrightarrow> (if t_node t = [] then t_lsizenode t = 0 else hash_inv (t_lsizenode t) (t_node t))"

definition node_slot :: "'v LuaTable \<Rightarrow> TKey \<Rightarrow> slot" where
  "node_slot t k = (case held (t_node t) k of None \<Rightarrow> NilObject | Some i \<Rightarrow> NodeSlot i)"

definition hashable :: "TKey \<Rightarrow> bool" where
  "hashable k \<longleftrightarrow> k \<noteq> KeyNil \<and> (\<forall>r. k \<noteq> KeyDead r)"

lemma live_hashable: "live_key k \<Longrightarrow> hashable k"
  by (simp add: live_key_def hashable_def)

lemma hashable_cases: "hashable k \<Longrightarrow> live_key k \<or> key_isnan k"
  by (auto simp: live_key_def hashable_def)

lemma nan_not_rawequal: "key_isnan k \<Longrightarrow> \<not> luaO_rawequalKey a k"
  by (cases k; cases a) (auto simp: luaO_rawequalKey_def dbl_eq_def flt_numeq_def)

lemma mainposition_hashable: "hashable k \<Longrightarrow> mainposition ls k = Inr (home ls k)"
  by (cases "(ls, k)" rule: mainposition.cases) (auto simp: home_def hashable_def)

lemma search_slot:
  assumes "node_inv t" "hashable k"
  shows "search (\<lambda>k'. luaO_rawequalKey k' k) t (home (t_lsizenode t) k) = Inr (node_slot t k)"
proof (cases "t_node t = []")
  case True
  with assms have "t_lsizenode t = 0" by (simp add: node_inv_def)
  then have "home (t_lsizenode t) k = 0" using hash_home_less [of 0 k] by simp
  moreover have "\<not> luaO_rawequalKey KeyNil k" using assms(2) by (simp add: luaO_rawequalKey_def hashable_def)
  ultimately show ?thesis
    using True by (simp add: search_def chain_find_dummy terminates_def node_slot_def held_def)
next
  case False
  with assms have inv: "hash_inv (t_lsizenode t) (t_node t)" by (simp add: node_inv_def)
  show ?thesis
  proof (cases "held (t_node t) k")
    case None
    then have "chain_find (\<lambda>k'. luaO_rawequalKey k' k) t (home (t_lsizenode t) k) = Some (Inr None)"
      by (intro chain_find_absent [OF inv]) (auto simp: held_None holder_def)
    with None show ?thesis by (simp add: search_def terminates_def node_slot_def)
  next
    case (Some i)
    then have h: "holder (t_node t) k i" by (auto simp: held_def find_Some_iff holder_def)
    then have live: "live_key k" using hashable_cases [OF assms(2)] nan_not_rawequal by (auto simp: holder_def)
    have "chain_find (\<lambda>k'. luaO_rawequalKey k' k) t (home (t_lsizenode t) k) = Some (Inr (Some i))"
      using h by (intro chain_find_holder [OF inv live h]) (auto simp: stops_at_def holder_def)
    with Some show ?thesis by (simp add: search_def terminates_def node_slot_def)
  qed
qed

section \<open>Placing a key\<close>

text \<open>The entries with a value, each once.\<close>

definition ents :: "'v LuaNode list \<Rightarrow> (TKey \<times> 'v option) multiset" where
  "ents ns = image_mset (\<lambda>n. (gkey n, gval n)) (filter_mset (\<lambda>n. gval n \<noteq> None) (mset ns))"

definition occupied :: "'v LuaNode list \<Rightarrow> nat set" where
  "occupied ns = {i. i < length ns \<and> gkey (ns ! i) \<noteq> KeyNil}"

lemma finite_occupied [simp]: "finite (occupied ns)"
  by (simp add: occupied_def)

lemma in_occupied: "i \<in> occupied ns \<longleftrightarrow> i < length ns \<and> gkey (ns ! i) \<noteq> KeyNil"
  by (simp add: occupied_def)

text \<open>What inserting a key into the nodes \<open>ns\<close> achieves: the node \<open>q\<close> holds the key and no value yet, one node
  is occupied that may have been free, all values stay with their keys.\<close>

definition inserted :: "nat \<Rightarrow> 'v LuaNode list \<Rightarrow> 'v LuaNode list \<Rightarrow> TKey \<Rightarrow> nat \<Rightarrow> nat \<Rightarrow> bool" where
  "inserted ls ns ns' key q x \<longleftrightarrow>
     hash_inv ls ns' \<and> length ns' = length ns \<and> q < length ns' \<and> gkey (ns' ! q) = key \<and> gval (ns' ! q) = None \<and>
     gkey ` set ns' \<subseteq> insert key (gkey ` set ns) \<and> x < length ns \<and> occupied ns' = insert x (occupied ns) \<and> ents ns' = ents ns"

lemma acyclic_behind:
  assumes "in_chains ns" "i < length ns"
  shows "behind ns i \<noteq> Some i"
proof
  assume b: "behind ns i = Some i"
  obtain ps where "path (behind ns) (Some i) ps None" using assms by (auto simp: in_chains_def)
  then obtain ps' where "path (behind ns) (Some i) (i # ps') None" by (cases ps) auto
  moreover from this b have "path (behind ns) (Some i) ps' None" by simp
  ultimately have "i # ps' = ps'" by (rule path_to_end_unique)
  then show False by simp
qed

lemma hash_invD:
  assumes "hash_inv ls ns"
  shows "length ns = 2 ^ ls" "in_chains ns" "free_nodes ns" "node_keys ns" "chained_keys ls ns" "main_positions ls ns"
    and home_in_nodes: "home ls k < length ns"
  using assms hash_home_less by (simp_all add: hash_inv_def)

text \<open>A key takes its main position, which holds no value.\<close>

lemma inserted_at_home:
  assumes inv: "hash_inv ls ns" and key: "live_key key" "\<forall>i. \<not> holder ns key i" and q: "q = home ls key" "gval (ns ! q) = None"
  shows "inserted ls ns (ns[q := (ns ! q)\<lparr>gkey := key\<rparr>]) key q q"
proof -
  let ?ns = "ns[q := (ns ! q)\<lparr>gkey := key\<rparr>]"
  note inv' = hash_invD [OF inv] and h = home_in_nodes [OF inv]
  have less: "q < length ns" using h q(1) by simp
  have b: "behind ?ns = behind ns" using less by (auto simp: fun_eq_iff behind_def nth_list_update)
  have k: "gkey (?ns ! i) = (if i = q then key else gkey (ns ! i))" if "i < length ns" for i
    using less by (simp add: nth_list_update)
  have v: "gval (?ns ! i) = gval (ns ! i)" "gnext (?ns ! i) = gnext (ns ! i)" for i
    using less by (simp_all add: nth_list_update)
  have absent: "\<not> luaO_rawequalKey (gkey (ns ! i)) key" "\<not> luaO_rawequalKey key (gkey (ns ! i))" if "i < length ns" for i
    using key(2) that rawequal_sym by (auto simp: holder_def)
  have "in_chains ?ns" using inv'(2) unfolding in_chains_def b v length_list_update .
  moreover have "free_nodes ?ns" using inv'(3) key(1) by (auto simp: free_nodes_def b v k live_key_def)
  moreover have "node_keys ?ns"
    using inv'(4) key(1) q(2) absent by (auto simp: node_keys_def v k live_key_def)
  moreover have "chained_keys ls ?ns"
    unfolding chained_keys_def
  proof (intro allI impI)
    fix i assume i: "i < length ?ns" "live_key (gkey (?ns ! i))"
    show "\<exists>ps. path (behind ?ns) (Some (home ls (gkey (?ns ! i)))) ps (Some i) \<and> (\<forall>j \<in> set ps. \<not> stops_at (gkey (?ns ! i)) (gkey (?ns ! j)))"
    proof (cases "i = q")
      case True
      with less q(1) show ?thesis by (intro exI [of _ "[]"]) (simp add: k)
    next
      case False
      with i inv'(5) obtain ps where ps: "path (behind ns) (Some (home ls (gkey (ns ! i)))) ps (Some i)"
        "\<forall>j \<in> set ps. \<not> stops_at (gkey (ns ! i)) (gkey (ns ! j))"
        by (auto simp: chained_keys_def k)
      have "\<not> stops_at (gkey (ns ! i)) (gkey (?ns ! j))" if "j \<in> set ps" for j
        using ps(2) that path_less [OF ps(1) inv'(2)] h absent [of i] i key(1)
        by (auto simp: k stops_at_def live_key_def split: TKey.splits if_splits)
      with ps(1) False i show ?thesis by (intro exI [of _ ps]) (simp add: b k)
    qed
  qed
  moreover have "main_positions ls ?ns"
    unfolding main_positions_def Let_def
  proof (intro allI impI)
    fix i assume i: "i < length ?ns" and live: "live_key (gkey (?ns ! i)) \<and> live_key (gkey (?ns ! home ls (gkey (?ns ! i))))"
    show "home ls (gkey (?ns ! home ls (gkey (?ns ! i)))) = home ls (gkey (?ns ! i))"
    proof (cases "home ls (gkey (?ns ! i)) = q")
      case True
      then show ?thesis using k [OF less] q(1) by simp
    next
      case False
      with i k have "i \<noteq> q" using q(1) by auto
      with False live i inv'(6) k h show ?thesis by (simp add: main_positions_def Let_def)
    qed
  qed
  ultimately have "hash_inv ls ?ns" using inv'(1) by (simp add: hash_inv_def)
  moreover have "ents ?ns = ents ns" using less q(2) by (simp add: ents_def mset_update)
  moreover have "occupied ?ns = insert q (occupied ns)" using less key(1) by (auto simp: in_occupied k live_key_def split: if_splits)
  moreover have "gkey ` set ?ns \<subseteq> insert key (gkey ` set ns)"
    using set_update_subset_insert [of ns q] by fastforce
  ultimately show ?thesis using less q(2) by (simp add: inserted_def v)
qed

text \<open>Renaming the nodes by an involution that moves no main position of a live key keeps the invariant.\<close>

lemma hash_inv_rename:
  assumes inv: "hash_inv ls ns" and len: "length ns' = length ns"
    and s: "\<And>i. i < length ns \<Longrightarrow> s i < length ns" "\<And>i. s (s i) = i"
    and fields: "\<And>i. i < length ns \<Longrightarrow> gkey (ns' ! s i) = gkey (ns ! i)" "\<And>i. i < length ns \<Longrightarrow> gval (ns' ! s i) = gval (ns ! i)"
    and links: "\<And>i. i < length ns \<Longrightarrow> behind ns' (s i) = map_option s (behind ns i)"
    and range: "\<And>i. i < length ns \<Longrightarrow> 0 \<le> int i + gnext (ns' ! i) \<and> int i + gnext (ns' ! i) < int (length ns)"
    and homes: "\<And>i. i < length ns \<Longrightarrow> live_key (gkey (ns ! i)) \<Longrightarrow> s (home ls (gkey (ns ! i))) = home ls (gkey (ns ! i))"
  shows "hash_inv ls ns'"
proof -
  note inv' = hash_invD [OF inv] and h = home_in_nodes [OF inv]
  have orig: "gkey (ns' ! i) = gkey (ns ! s i)" "gval (ns' ! i) = gval (ns ! s i)" "behind ns' i = map_option s (behind ns (s i))"
    if "i < length ns" for i
    using fields [of "s i"] links [of "s i"] s that by simp_all
  have inj: "s i = s j \<Longrightarrow> i = j" for i j using s(2) by metis
  have move: "path (behind ns') (map_option s x) (map s ps) (map_option s y)"
    if "path (behind ns) x ps y" "\<forall>i. x = Some i \<longrightarrow> i < length ns" for x ps y
    using path_less [OF that(1) inv'(2) that(2)] links by (intro path_map [OF that(1)]) auto
  have "in_chains ns'"
    unfolding in_chains_def len
  proof (intro conjI allI impI)
    fix i assume i: "i < length ns"
    show "0 \<le> int i + gnext (ns' ! i)" "int i + gnext (ns' ! i) < int (length ns)" using range [OF i] by auto
    obtain ps where "path (behind ns) (Some (s i)) ps None" using inv'(2) s(1) [OF i] by (auto simp: in_chains_def)
    from move [OF this] s i show "\<exists>ps. path (behind ns') (Some i) ps None" by auto
    fix j assume j: "j < length ns" and b: "behind ns' i \<noteq> None \<and> behind ns' i = behind ns' j"
    from b orig(3) [OF i] orig(3) [OF j] have "behind ns (s i) \<noteq> None \<and> behind ns (s i) = behind ns (s j)"
      using inj by (cases "behind ns (s i)"; cases "behind ns (s j)") auto
    then have "s i = s j" using behind_inj [OF inv'(2) s(1) [OF i] s(1) [OF j]] by blast
    then show "i = j" by (rule inj)
  qed
  moreover have "free_nodes ns'"
    unfolding free_nodes_def len
  proof (intro allI impI)
    fix i assume i: "i < length ns" "gkey (ns' ! i) = KeyNil"
    with orig have "gkey (ns ! s i) = KeyNil" by simp
    with inv'(3) s(1) [OF i(1)] have f: "gval (ns ! s i) = None" "gnext (ns ! s i) = 0"
      "\<And>j. j < length ns \<Longrightarrow> behind ns j \<noteq> Some (s i)" by (auto simp: free_nodes_def)
    have "behind ns (s i) = None" using f(2) by (simp add: behind_def)
    then have "behind ns' i = None" using orig(3) i(1) by simp
    then have "gnext (ns' ! i) = 0" by (simp add: behind_def split: if_splits)
    moreover have "behind ns' j \<noteq> Some i" if "j < length ns" for j
      using orig(3) [OF that] f(3) [OF s(1) [OF that]] s(2) by (cases "behind ns (s j)") auto
    ultimately show "gval (ns' ! i) = None \<and> gnext (ns' ! i) = 0 \<and> (\<forall>j < length ns. behind ns' j \<noteq> Some i)"
      using f(1) orig(2) i(1) by simp
  qed
  moreover have "node_keys ns'"
    unfolding node_keys_def len
  proof (intro conjI allI impI)
    fix i j assume ij: "i < length ns" "j < length ns" "luaO_rawequalKey (gkey (ns' ! i)) (gkey (ns' ! j)) \<and> live_key (gkey (ns' ! i))"
    with inv'(4) s(1) have "s i = s j" by (simp add: orig node_keys_def)
    then show "i = j" by (rule inj)
  qed (use inv'(4) s(1) in \<open>auto simp: orig node_keys_def\<close>)
  moreover have "chained_keys ls ns'"
    unfolding chained_keys_def len
  proof (intro allI impI)
    fix i assume i: "i < length ns" and live: "live_key (gkey (ns' ! i))"
    let ?k = "gkey (ns ! s i)"
    have k: "gkey (ns' ! i) = ?k" using orig i by simp
    obtain ps where ps: "path (behind ns) (Some (home ls ?k)) ps (Some (s i))" "\<forall>j \<in> set ps. \<not> stops_at ?k (gkey (ns ! j))"
      using inv'(5) s(1) [OF i] live k by (auto simp: chained_keys_def)
    have "path (behind ns') (Some (home ls ?k)) (map s ps) (Some i)"
      using move [OF ps(1)] h homes [OF s(1) [OF i]] live k s(2) by simp
    moreover have "\<forall>j \<in> set (map s ps). \<not> stops_at ?k (gkey (ns' ! j))"
      using ps(2) path_less [OF ps(1) inv'(2)] h fields(1) by auto
    ultimately show "\<exists>ps. path (behind ns') (Some (home ls (gkey (ns' ! i)))) ps (Some i) \<and> (\<forall>j \<in> set ps. \<not> stops_at (gkey (ns' ! i)) (gkey (ns' ! j)))"
      unfolding k by blast
  qed
  moreover have "main_positions ls ns'"
    unfolding main_positions_def Let_def len
  proof (intro allI impI)
    fix i assume i: "i < length ns" and live: "live_key (gkey (ns' ! i)) \<and> live_key (gkey (ns' ! home ls (gkey (ns' ! i))))"
    have k: "gkey (ns' ! i) = gkey (ns ! s i)" using orig i by simp
    then have "gkey (ns' ! home ls (gkey (ns' ! i))) = gkey (ns ! home ls (gkey (ns ! s i)))"
      using fields(1) [OF h] homes [OF s(1) [OF i]] live by metis
    with k live inv'(6) s(1) [OF i] show "home ls (gkey (ns' ! home ls (gkey (ns' ! i)))) = home ls (gkey (ns' ! i))"
      by (simp add: main_positions_def Let_def)
  qed
  ultimately show ?thesis using inv'(1) len by (simp add: hash_inv_def)
qed

lemma ents_nth: "ents ns = image_mset (\<lambda>i. (gkey (ns ! i), gval (ns ! i))) (filter_mset (\<lambda>i. gval (ns ! i) \<noteq> None) (mset_set {..<length ns}))"
proof -
  have "mset ns = image_mset ((!) ns) (mset_set {..<length ns})"
    by (metis atLeast_upt map_nth mset_map mset_upt lessThan_atLeast0)
  then show ?thesis by (simp add: ents_def filter_mset_image_mset image_mset.compositionality comp_def)
qed

lemma ents_cong:
  assumes "length ns' = length ns" "\<And>i. i < length ns \<Longrightarrow> gval (ns' ! i) = gval (ns ! i)"
    "\<And>i. i < length ns \<Longrightarrow> gval (ns ! i) \<noteq> None \<Longrightarrow> gkey (ns' ! i) = gkey (ns ! i)"
  shows "ents ns' = ents ns"
proof -
  have "filter_mset (\<lambda>i. gval (ns' ! i) \<noteq> None) (mset_set {..<length ns}) = filter_mset (\<lambda>i. gval (ns ! i) \<noteq> None) (mset_set {..<length ns})"
    by (rule filter_mset_cong) (auto simp: assms(2))
  then show ?thesis unfolding ents_nth assms(1) by (simp only:) (rule image_mset_cong, simp add: assms(2,3))
qed

lemma ents_rename:
  assumes "length ns' = length ns" "\<And>i. i < length ns \<Longrightarrow> s i < length ns" "\<And>i. s (s i) = i"
    "\<And>i. i < length ns \<Longrightarrow> gkey (ns' ! s i) = gkey (ns ! i)" "\<And>i. i < length ns \<Longrightarrow> gval (ns' ! s i) = gval (ns ! i)"
  shows "ents ns' = ents ns"
proof -
  have "inj_on s {..<length ns}" using assms(3) by (metis inj_onI)
  moreover have "s ` {..<length ns} = {..<length ns}" using assms(2,3) by (auto simp: image_iff) (metis lessThan_iff)
  ultimately have "mset_set {..<length ns} = image_mset s (mset_set {..<length ns})" by (simp add: image_mset_mset_set)
  then have "ents ns' = image_mset (\<lambda>i. (gkey (ns' ! i), gval (ns' ! i))) (filter_mset (\<lambda>i. gval (ns' ! i) \<noteq> None) (image_mset s (mset_set {..<length ns})))"
    by (simp add: ents_nth assms(1))
  also have "\<dots> = image_mset (\<lambda>i. (gkey (ns' ! s i), gval (ns' ! s i))) (filter_mset (\<lambda>i. gval (ns' ! s i) \<noteq> None) (mset_set {..<length ns}))"
    by (simp add: filter_mset_image_mset image_mset.compositionality comp_def)
  also have "\<dots> = ents ns"
  proof -
    have "filter_mset (\<lambda>i. gval (ns' ! s i) \<noteq> None) (mset_set {..<length ns}) = filter_mset (\<lambda>i. gval (ns ! i) \<noteq> None) (mset_set {..<length ns})"
      by (rule filter_mset_cong) (auto simp: assms(5))
    then show ?thesis unfolding ents_nth by (simp only:) (rule image_mset_cong, simp add: assms(4,5))
  qed
  finally show ?thesis .
qed

lemma inserted_after:
  assumes "inserted ls ns1 ns' key q x" "length ns1 = length ns" "ents ns1 = ents ns" "insert x (occupied ns1) = insert y (occupied ns)"
    "gkey ` set ns1 \<subseteq> gkey ` set ns" "y < length ns"
  shows "inserted ls ns ns' key q y"
proof -
  have "gkey ` set ns' \<subseteq> insert key (gkey ` set ns1)" using assms(1) unfolding inserted_def by (elim conjE)
  also have "\<dots> \<subseteq> insert key (gkey ` set ns)" by (rule insert_mono [OF assms(5)])
  finally show ?thesis using assms by (simp add: inserted_def)
qed

lemma free_not_home:
  assumes "hash_inv ls ns" "n < length ns" "gkey (ns ! n) = KeyNil" "i < length ns" "live_key (gkey (ns ! i))"
  shows "home ls (gkey (ns ! i)) \<noteq> n"
proof
  assume h: "home ls (gkey (ns ! i)) = n"
  note inv = hash_invD [OF assms(1)]
  from inv(5) assms(4,5) h obtain ps where ps: "path (behind ns) (Some n) ps (Some i)" by (auto simp: chained_keys_def)
  have "gnext (ns ! n) = 0" using inv(3) assms(2,3) by (auto simp: free_nodes_def)
  then have "behind ns n = None" by (simp add: behind_def)
  with ps have "i = n" by (cases ps) auto
  with assms(3,5) show False by (simp add: live_key_def)
qed

text \<open>The colliding node moves to a free one, and the key takes its main position.\<close>

lemma inserted_by_move:
  assumes inv: "hash_inv ls ns" and key: "live_key key" "\<forall>i. \<not> holder ns key i"
    and mp: "mp = home ls key" "gval (ns ! mp) \<noteq> None" "home ls (gkey (ns ! mp)) \<noteq> mp"
    and n: "n < length ns" "gkey (ns ! n) = KeyNil" and p: "p < length ns" "behind ns p = Some mp"
  defines "moved \<equiv> (ns ! mp)\<lparr>gnext := if gnext (ns ! mp) = 0 then 0 else gnext (ns ! mp) + (int mp - int n)\<rparr>"
  shows "inserted ls ns (ns[p := (ns ! p)\<lparr>gnext := int n - int p\<rparr>, n := moved, mp := \<lparr>gval = None, gkey = key, gnext = 0\<rparr>]) key mp n"
proof -
  let ?ns = "ns[p := (ns ! p)\<lparr>gnext := int n - int p\<rparr>, n := moved, mp := \<lparr>gval = None, gkey = KeyNil, gnext = 0\<rparr>]"
  define s where "s i = (if i = mp then n else if i = n then mp else i)" for i
  note inv' = hash_invD [OF inv] and h = home_in_nodes [OF inv]
  have less: "mp < length ns" using h mp(1) by simp
  have free: "gval (ns ! n) = None" "gnext (ns ! n) = 0" "\<And>j. j < length ns \<Longrightarrow> behind ns j \<noteq> Some n"
    using inv'(3) n by (auto simp: free_nodes_def)
  have bn: "behind ns n = None" using free(2) by (simp add: behind_def)
  have ne: "n \<noteq> mp" "p \<noteq> n" "p \<noteq> mp"
    using free(1) mp(2) bn p acyclic_behind [OF inv'(2) less] by auto
  have live: "live_key (gkey (ns ! mp))" using inv'(4) less mp(2) by (auto simp: node_keys_def)
  have nth: "?ns ! i = (if i = mp then \<lparr>gval = None, gkey = KeyNil, gnext = 0\<rparr> else if i = n then moved
      else if i = p then (ns ! p)\<lparr>gnext := int n - int p\<rparr> else ns ! i)" if "i < length ns" for i
    using that n(1) p(1) less by (simp add: nth_list_update)
  have rng: "0 \<le> int i + gnext (ns ! i)" "int i + gnext (ns ! i) < int (length ns)" if "i < length ns" for i
    using inv'(2) that by (auto simp: in_chains_def)
  have unmoved: "s x = x" if "behind ns i = Some x" "i < length ns" "i \<noteq> p" for i x
    using behind_inj [OF inv'(2) that(2) p(1)] that p(2) free(3) [OF that(2)] by (auto simp: s_def)
  have links: "behind ?ns (s i) = map_option s (behind ns i)" if i: "i < length ns" for i
  proof -
    consider "i = n" | "i = mp" | "i = p" | "i \<noteq> n" "i \<noteq> mp" "i \<noteq> p" by blast
    then show ?thesis
    proof cases
      case 1
      then show ?thesis using ne bn less by (simp add: s_def behind_def)
    next
      case 2
      show ?thesis
      proof (cases "gnext (ns ! mp) = 0")
        case True
        then show ?thesis using 2 ne n(1) by (simp add: s_def behind_def nth moved_def)
      next
        case False
        then have b: "behind ns mp = Some (nat (int mp + gnext (ns ! mp)))" by (simp add: behind_def)
        with free(3) [OF less] have "nat (int mp + gnext (ns ! mp)) \<noteq> n" by simp
        then have "gnext (ns ! mp) + (int mp - int n) \<noteq> 0" using rng [OF less] by auto
        with False have "behind ?ns n = Some (nat (int mp + gnext (ns ! mp)))"
          using ne n(1) by (simp add: behind_def nth moved_def add.commute)
        with b unmoved [OF b less ne(3) [symmetric]] 2 show ?thesis by (simp add: s_def)
      qed
    next
      case 3
      have "behind ?ns p = Some n" using ne p(1) by (simp add: behind_def nth)
      with 3 ne p(2) show ?thesis by (simp add: s_def)
    next
      case 4
      then have "s i = i" "behind ?ns i = behind ns i" using i by (simp_all add: s_def behind_def nth)
      then show ?thesis using unmoved [OF _ i 4(3)] by (cases "behind ns i") auto
    qed
  qed
  have fields: "gkey (?ns ! s i) = gkey (ns ! i)" "gval (?ns ! s i) = gval (ns ! i)" if "i < length ns" for i
    using that ne n less p(1) free by (auto simp: s_def nth moved_def nth_list_update)
  have srange: "s i < length ns" if "i < length ns" for i using that n(1) less by (simp add: s_def)
  have sinv: "s (s i) = i" for i by (simp add: s_def)
  have range: "0 \<le> int i + gnext (?ns ! i) \<and> int i + gnext (?ns ! i) < int (length ns)" if "i < length ns" for i
    unfolding nth [OF that] using that rng [OF that] rng [OF less] n(1) p(1) by (auto simp: moved_def)
  have homes: "s (home ls (gkey (ns ! i))) = home ls (gkey (ns ! i))" if "i < length ns" "live_key (gkey (ns ! i))" for i
  proof -
    have "home ls (gkey (ns ! i)) \<noteq> mp" using inv'(6) that mp(3) live by (auto simp: main_positions_def Let_def)
    moreover have "home ls (gkey (ns ! i)) \<noteq> n" by (rule free_not_home [OF inv n that])
    ultimately show ?thesis by (simp add: s_def)
  qed
  have moved_inv: "hash_inv ls ?ns" by (rule hash_inv_rename [OF inv _ srange sinv fields links range homes]) simp_all
  have orig: "gkey (?ns ! i) = gkey (ns ! s i)" if "i < length ns" for i
    using fields(1) [OF srange [OF that]] sinv by simp
  have "\<forall>i. \<not> holder ?ns key i" using key(2) orig srange by (simp add: holder_def)
  then have ins: "inserted ls ?ns (?ns[mp := (?ns ! mp)\<lparr>gkey := key\<rparr>]) key mp mp"
    using moved_inv key(1) mp(1) less by (intro inserted_at_home) simp_all
  have same: "?ns[mp := (?ns ! mp)\<lparr>gkey := key\<rparr>] = ns[p := (ns ! p)\<lparr>gnext := int n - int p\<rparr>, n := moved, mp := \<lparr>gval = None, gkey = key, gnext = 0\<rparr>]"
    using less by simp
  have "ents ?ns = ents ns" by (rule ents_rename [OF _ srange sinv fields]) simp_all
  moreover have "insert mp (occupied ?ns) = insert n (occupied ns)"
  proof (rule set_eqI)
    fix x
    have o: "x \<in> occupied ?ns \<longleftrightarrow> x < length ns \<and> gkey (ns ! s x) \<noteq> KeyNil" using orig [of x] by (auto simp: in_occupied)
    consider "x = n" | "x = mp" | "x \<noteq> n" "x \<noteq> mp" by blast
    then show "x \<in> insert mp (occupied ?ns) \<longleftrightarrow> x \<in> insert n (occupied ns)"
      using o less n live by cases (auto simp: in_occupied s_def live_key_def)
  qed
  moreover have "gkey ` set ?ns \<subseteq> gkey ` set ns"
    using orig srange by (auto simp: in_set_conv_nth) (metis imageI nth_mem)
  ultimately show ?thesis using inserted_after [OF ins _ _ _ _ n(1)] unfolding same by simp
qed

text \<open>The key takes a free node chained behind the colliding one, which stays in its main position.\<close>

lemma inserted_by_chain:
  assumes inv: "hash_inv ls ns" and key: "live_key key" "\<forall>i. \<not> holder ns key i"
    and mp: "mp = home ls key" "gval (ns ! mp) \<noteq> None" "home ls (gkey (ns ! mp)) = mp"
    and n: "n < length ns" "gkey (ns ! n) = KeyNil"
  defines "link \<equiv> if gnext (ns ! mp) = 0 then 0 else int mp + gnext (ns ! mp) - int n"
  shows "inserted ls ns (ns[n := (ns ! n)\<lparr>gkey := key, gnext := link\<rparr>, mp := (ns ! mp)\<lparr>gnext := int n - int mp\<rparr>]) key n n"
proof -
  let ?ns = "ns[n := (ns ! n)\<lparr>gkey := key, gnext := link\<rparr>, mp := (ns ! mp)\<lparr>gnext := int n - int mp\<rparr>]"
  note inv' = hash_invD [OF inv] and h = home_in_nodes [OF inv]
  have less: "mp < length ns" using h mp(1) by simp
  have free: "gval (ns ! n) = None" "gnext (ns ! n) = 0" "\<And>j. j < length ns \<Longrightarrow> behind ns j \<noteq> Some n"
    using inv'(3) n by (auto simp: free_nodes_def)
  have ne: "n \<noteq> mp" using free(1) mp(2) by auto
  have live: "live_key (gkey (ns ! mp))" using inv'(4) less mp(2) by (auto simp: node_keys_def)
  have nth: "?ns ! i = (if i = mp then (ns ! mp)\<lparr>gnext := int n - int mp\<rparr> else if i = n then (ns ! n)\<lparr>gkey := key, gnext := link\<rparr> else ns ! i)"
    if "i < length ns" for i
    using that n(1) less by (simp add: nth_list_update)
  have k: "gkey (?ns ! i) = (if i = n then key else gkey (ns ! i))" "gval (?ns ! i) = gval (ns ! i)" if "i < length ns" for i
    using that ne by (simp_all add: nth)
  have rng: "0 \<le> int i + gnext (ns ! i)" "int i + gnext (ns ! i) < int (length ns)" if "i < length ns" for i
    using inv'(2) that by (auto simp: in_chains_def)
  have absent: "\<not> luaO_rawequalKey (gkey (ns ! i)) key" "\<not> luaO_rawequalKey key (gkey (ns ! i))" if "i < length ns" for i
    using key(2) that rawequal_sym by (auto simp: holder_def)
  have b: "behind ?ns i = (if i = mp then Some n else if i = n then behind ns mp else behind ns i)" if i: "i < length ns" for i
  proof -
    have "link = 0 \<longleftrightarrow> gnext (ns ! mp) = 0" "int n + link = (if gnext (ns ! mp) = 0 then int n else int mp + gnext (ns ! mp))"
      using free(3) [OF less] rng [OF less] by (auto simp: link_def behind_def)
    then show ?thesis using ne i by (auto simp: behind_def nth)
  qed
  define ext where "ext ps = concat (map (\<lambda>x. if x = mp then [mp, n] else [x]) ps)" for ps
  have ext: "path (behind ?ns) x (ext ps) y" if "path (behind ns) x ps y" "\<forall>p \<in> set ps. p < length ns \<and> p \<noteq> n" for x ps y
    using that
  proof (induction ps arbitrary: x)
    case (Cons p ps)
    then show ?case using n(1) ne less by (auto simp: ext_def b)
  qed (simp add: ext_def)
  have avoid: "\<forall>p \<in> set ps. p < length ns \<and> p \<noteq> n" if "path (behind ns) (Some i) ps y" "i < length ns" "i \<noteq> n" for i ps y
  proof -
    have l: "\<forall>p \<in> set ps. p < length ns" using path_less [OF that(1) inv'(2)] that(2) by auto
    have "n \<notin> set ps" using that
    proof (induction ps arbitrary: i)
      case (Cons p ps)
      then have p: "p = i" "path (behind ns) (behind ns i) ps y" by auto
      show ?case
      proof (cases "behind ns i")
        case (Some j)
        with Cons.IH [of j] p free(3) [OF Cons.prems(2)] behind_less [OF inv'(2) Cons.prems(2) Some] Cons.prems(3) show ?thesis by auto
      qed (use p Cons.prems in auto)
    qed simp
    with l show ?thesis by blast
  qed
  have "in_chains ?ns"
    unfolding in_chains_def length_list_update
  proof (intro conjI allI impI)
    fix i assume i: "i < length ns"
    show "0 \<le> int i + gnext (?ns ! i)" "int i + gnext (?ns ! i) < int (length ns)"
      unfolding nth [OF i] using rng [OF i] rng [OF less] n(1) less by (auto simp: link_def)
    show "\<exists>ps. path (behind ?ns) (Some i) ps None"
    proof (cases "i = n")
      case True
      obtain ps where ps: "path (behind ns) (Some mp) (mp # ps) None"
        using inv'(2) less unfolding in_chains_def by (metis path.simps list.exhaust option.distinct(1) option.inject)
      then have "mp \<notin> set ps" using path_to_end_distinct by fastforce
      moreover have "\<forall>p \<in> set ps. p < length ns \<and> p \<noteq> n" using avoid [OF ps less ne [symmetric]] by simp
      ultimately have "path (behind ?ns) (behind ns mp) ps None"
        using ps b by (subst path_cong [where g = "behind ns"]) auto
      then have "path (behind ?ns) (Some i) (i # ps) None" using b [OF i] True ne by simp
      then show ?thesis by blast
    next
      case False
      obtain ps where ps: "path (behind ns) (Some i) ps None" using inv'(2) i by (auto simp: in_chains_def)
      from ext [OF ps avoid [OF ps i False]] show ?thesis by blast
    qed
    fix j assume j: "j < length ns" and e: "behind ?ns i \<noteq> None \<and> behind ?ns i = behind ?ns j"
    show "i = j"
    proof (cases "i = mp \<or> j = mp")
      case True
      with e b [OF i] b [OF j] free(3) [OF i] free(3) [OF j] free(3) [OF less] ne show ?thesis by (auto split: if_splits)
    next
      case False
      then have bij: "behind ?ns i = behind ns (if i = n then mp else i)" "behind ?ns j = behind ns (if j = n then mp else j)"
        using b [OF i] b [OF j] by simp_all
      note e' = e [unfolded bij]
      have "(if i = n then mp else i) = (if j = n then mp else j)"
        using i j less by (intro behind_inj [OF inv'(2) _ _ conjunct1 [OF e'] conjunct2 [OF e']]) auto
      with False show ?thesis by (auto split: if_splits)
    qed
  qed
  moreover have "free_nodes ?ns"
    unfolding free_nodes_def length_list_update
  proof (intro allI impI)
    fix i assume i: "i < length ns" and nil: "gkey (?ns ! i) = KeyNil"
    then have inl: "i \<noteq> n" "i \<noteq> mp" "gkey (ns ! i) = KeyNil" using k(1) [OF i] key(1) live by (auto simp: live_key_def split: if_splits)
    with inv'(3) i have "gval (ns ! i) = None" "gnext (ns ! i) = 0" "\<And>j. j < length ns \<Longrightarrow> behind ns j \<noteq> Some i"
      by (auto simp: free_nodes_def)
    with inl i less show "gval (?ns ! i) = None \<and> gnext (?ns ! i) = 0 \<and> (\<forall>j < length ns. behind ?ns j \<noteq> Some i)"
      by (simp add: b nth)
  qed
  moreover have "node_keys ?ns"
    unfolding node_keys_def length_list_update
  proof (intro conjI allI impI)
    fix i j assume ij: "i < length ns" "j < length ns" "luaO_rawequalKey (gkey (?ns ! i)) (gkey (?ns ! j)) \<and> live_key (gkey (?ns ! i))"
    then show "i = j" using inv'(4) absent [OF ij(1)] absent [OF ij(2)] k(1) [OF ij(1)] k(1) [OF ij(2)]
      by (auto simp: node_keys_def split: if_splits)
  next
    fix i assume i: "i < length ns"
    show "\<not> key_isnan (gkey (?ns ! i))" using inv'(4) i k(1) [OF i] key(1) by (auto simp: node_keys_def live_key_def)
    show "live_key (gkey (?ns ! i))" if "gval (?ns ! i) \<noteq> None" using that inv'(4) i k [OF i] key(1) by (auto simp: node_keys_def)
  qed
  moreover have "chained_keys ls ?ns"
    unfolding chained_keys_def length_list_update
  proof (intro allI impI)
    fix i assume i: "i < length ns" and li: "live_key (gkey (?ns ! i))"
    show "\<exists>ps. path (behind ?ns) (Some (home ls (gkey (?ns ! i)))) ps (Some i) \<and> (\<forall>j \<in> set ps. \<not> stops_at (gkey (?ns ! i)) (gkey (?ns ! j)))"
    proof (cases "i = n")
      case True
      have "\<not> stops_at key (gkey (ns ! mp))" using absent(1) [OF less] live by (auto simp: stops_at_def live_key_def split: TKey.splits)
      then show ?thesis using True b [OF less] k(1) [OF less] k(1) [OF i] ne mp(1) by (intro exI [of _ "[mp]"]) simp
    next
      case False
      let ?k = "gkey (ns ! i)"
      have ki: "gkey (?ns ! i) = ?k" using k(1) [OF i] False by simp
      with inv'(5) i li obtain ps where ps: "path (behind ns) (Some (home ls ?k)) ps (Some i)" "\<forall>j \<in> set ps. \<not> stops_at ?k (gkey (ns ! j))"
        by (auto simp: chained_keys_def)
      have "home ls ?k \<noteq> n" using free_not_home [OF inv n i] li ki by simp
      note av = avoid [OF ps(1) h this]
      have "\<not> stops_at ?k (gkey (?ns ! j))" if "j \<in> set (ext ps)" for j
      proof (cases "j = n")
        case True
        then show ?thesis using absent(2) [OF i] key(1) k(1) [OF n(1)] by (auto simp: stops_at_def live_key_def split: TKey.splits)
      next
        case False
        with that have "j \<in> set ps" by (auto simp: ext_def split: if_splits)
        with ps(2) av k(1) False show ?thesis by simp
      qed
      with ext [OF ps(1) av] show ?thesis unfolding ki by blast
    qed
  qed
  moreover have "main_positions ls ?ns"
    unfolding main_positions_def Let_def length_list_update
  proof (intro allI impI)
    fix i assume i: "i < length ns" and li: "live_key (gkey (?ns ! i)) \<and> live_key (gkey (?ns ! home ls (gkey (?ns ! i))))"
    show "home ls (gkey (?ns ! home ls (gkey (?ns ! i)))) = home ls (gkey (?ns ! i))"
    proof (cases "i = n")
      case True
      then show ?thesis using k(1) [OF i] k(1) [OF less] ne mp by simp
    next
      case False
      have "home ls (gkey (ns ! i)) \<noteq> n" using free_not_home [OF inv n i] li k(1) [OF i] False by simp
      then show ?thesis using False k(1) [OF i] k(1) [OF h] inv'(6) i li by (simp add: main_positions_def Let_def)
    qed
  qed
  ultimately have "hash_inv ls ?ns" using inv'(1) by (simp add: hash_inv_def)
  moreover have "ents ?ns = ents ns"
    by (rule ents_cong) (use free(1) in \<open>auto simp: k split: if_splits\<close>)
  moreover have "occupied ?ns = insert n (occupied ns)" using n(1) key(1) k(1) by (auto simp: in_occupied live_key_def split: if_splits)
  moreover have "gkey ` set ?ns \<subseteq> insert key (gkey ` set ns)"
  proof
    fix y assume "y \<in> gkey ` set ?ns"
    then obtain i where i: "i < length ns" "y = gkey (?ns ! i)" by (auto simp: in_set_conv_nth)
    then show "y \<in> insert key (gkey ` set ns)" using k(1) [OF i(1)] by (cases "i = n") auto
  qed
  ultimately show ?thesis using n(1) free(1) k [OF n(1)] ne by (simp add: inserted_def)
qed

section \<open>Insertion without a rehash\<close>

definition hash_ok :: "'v LuaTable \<Rightarrow> bool" where
  "hash_ok t \<longleftrightarrow> node_inv t \<and> t_lsizenode t \<le> 26 \<and> t_lastfree t \<le> int (length (t_node t)) \<and>
     (\<forall>i < length (t_node t). gkey (t_node t ! i) = KeyNil \<longrightarrow> int i < t_lastfree t)"

lemma hash_ok_inv: "hash_ok t \<Longrightarrow> t_node t \<noteq> [] \<Longrightarrow> hash_inv (t_lsizenode t) (t_node t)"
  by (simp add: hash_ok_def node_inv_def)

lemma hash_ok_inv_at: "hash_ok t \<Longrightarrow> i < length (t_node t) \<Longrightarrow> hash_inv (t_lsizenode t) (t_node t)"
  by (rule hash_ok_inv) auto

lemma hash_ok_length:
  assumes "hash_ok t"
  shows "int (length (t_node t)) \<le> 2 ^ 26"
proof (cases "t_node t = []")
  case False
  then have "length (t_node t) = 2 ^ t_lsizenode t" using hash_invD(1) [OF hash_ok_inv [OF assms]] by simp
  moreover have "(2 :: nat) ^ t_lsizenode t \<le> 2 ^ 26" using assms by (intro power_increasing) (auto simp: hash_ok_def)
  ultimately have "length (t_node t) \<le> 2 ^ 26" by simp
  then show ?thesis by simp
qed simp

lemma getfreepos_spec:
  assumes "t_lastfree t \<le> int (length (t_node t))" "\<forall>i < length (t_node t). gkey (t_node t ! i) = KeyNil \<longrightarrow> int i < t_lastfree t"
  shows "(\<exists>n. getfreepos t = Inr (Some n, t\<lparr>t_lastfree := int n\<rparr>) \<and> n < length (t_node t) \<and> gkey (t_node t ! n) = KeyNil \<and>
      (\<forall>i < length (t_node t). gkey (t_node t ! i) = KeyNil \<longrightarrow> i \<le> n)) \<or>
    (getfreepos t = Inr (None, t\<lparr>t_lastfree := min 0 (t_lastfree t)\<rparr>) \<and> (\<forall>i < length (t_node t). gkey (t_node t ! i) \<noteq> KeyNil))"
  using assms
proof (induction t rule: getfreepos.induct)
  case (1 t)
  show ?case
  proof (cases "t_lastfree t > 0")
    case True
    let ?t = "t\<lparr>t_lastfree := t_lastfree t - 1\<rparr>"
    let ?n = "nat (t_lastfree t - 1)"
    have n: "?n < length (t_node t)" using True "1.prems"(1) by auto
    then have node: "gnode ?t ?n = Inr (t_node t ! ?n)" by (auto simp: gnode_def)
    then have node': "gnode ?t (nat (t_lastfree ?t)) = Inr (t_node t ! ?n)" by simp
    show ?thesis
    proof (cases "gkey (t_node t ! ?n) = KeyNil")
      case True
      then have "getfreepos t = Inr (Some ?n, ?t)" using \<open>t_lastfree t > 0\<close> node by (subst getfreepos.simps) (simp add: Let_def)
      with True n \<open>t_lastfree t > 0\<close> "1.prems" show ?thesis by (intro disjI1 exI [of _ ?n]) auto
    next
      case False
      then have g: "getfreepos t = getfreepos ?t" using \<open>t_lastfree t > 0\<close> node by (subst getfreepos.simps) (simp add: Let_def)
      have "\<forall>i < length (t_node ?t). gkey (t_node ?t ! i) = KeyNil \<longrightarrow> int i < t_lastfree ?t"
      proof (intro allI impI)
        fix i assume i: "i < length (t_node ?t)" "gkey (t_node ?t ! i) = KeyNil"
        with "1.prems"(2) have "int i < t_lastfree t" by simp
        moreover have "i \<noteq> ?n" using i(2) False by auto
        ultimately show "int i < t_lastfree ?t" by auto
      qed
      moreover have "min 0 (t_lastfree ?t) = min 0 (t_lastfree t)" using \<open>t_lastfree t > 0\<close> by simp
      ultimately show ?thesis using "1.IH" [OF \<open>t_lastfree t > 0\<close> refl node' False] "1.prems"(1) unfolding g by simp
    qed
  next
    case False
    then have "getfreepos t = Inr (None, t)" by (subst getfreepos.simps) simp
    moreover have "\<forall>i < length (t_node t). gkey (t_node t ! i) \<noteq> KeyNil" using "1.prems"(2) False by (auto simp: not_less)
    moreover have "t\<lparr>t_lastfree := min 0 (t_lastfree t)\<rparr> = t" using False by (cases t) simp
    ultimately show ?thesis by (intro disjI2) simp
  qed
qed

lemma find_previous_spec:
  assumes "in_chains (t_node t)" "i < length (t_node t)" "path (behind (t_node t)) (Some i) ps (Some mp)" "i \<noteq> mp"
  shows "\<exists>p. find_previous t mp i = Some (Inr p) \<and> p < length (t_node t) \<and> behind (t_node t) p = Some mp"
  using assms
proof (induction ps arbitrary: i)
  case (Cons p ps)
  let ?ns = "t_node t"
  have p: "p = i" "path (behind ?ns) (behind ?ns i) ps (Some mp)" using Cons.prems by auto
  then obtain j where j: "behind ?ns i = Some j" by (cases "behind ?ns i") auto
  have "0 \<le> int i + gnext (?ns ! i)" using Cons.prems by (auto simp: in_chains_def)
  then have step: "bindE (gnode t i) (\<lambda>n. node_add i (gnext n)) = Inr j"
    using Cons.prems(2) j by (auto simp: gnode_def node_add_def behind_def split: if_splits)
  show ?case
  proof (cases "j = mp")
    case True
    with step j Cons.prems(2) show ?thesis by (subst find_previous.simps) simp
  next
    case False
    with Cons.IH [OF Cons.prems(1) behind_less [OF Cons.prems(1,2) j]] p j step show ?thesis
      by (subst find_previous.simps) simp
  qed
qed simp

lemma next28_id: "- (2 ^ 27) \<le> d \<Longrightarrow> d < 2 ^ 27 \<Longrightarrow> next28 d = d"
  unfolding next28_def by (rule signed_take_bit_int_eq_self)

lemma set_node_Inr [simp]: "i < length (t_node t) \<Longrightarrow> set_node t i n = Inr (t\<lparr>t_node := (t_node t)[i := n]\<rparr>)"
  by (simp add: set_node_def)

lemma gnode_Inr [simp]: "i < length (t_node t) \<Longrightarrow> gnode t i = Inr (t_node t ! i)"
  by (auto simp: gnode_def)

lemma move_colliding_spec:
  assumes inv: "hash_inv (t_lsizenode t) (t_node t)" and len: "int (length (t_node t)) \<le> 2 ^ 26" and mp: "mp < length (t_node t)" "gval (t_node t ! mp) \<noteq> None"
    and oth: "othern = home (t_lsizenode t) (gkey (t_node t ! mp))" "othern \<noteq> mp"
    and n: "n < length (t_node t)" "gkey (t_node t ! n) = KeyNil"
  shows "\<exists>p. p < length (t_node t) \<and> behind (t_node t) p = Some mp \<and>
    move_colliding t mp n othern = Inr (mp, t\<lparr>t_node := (t_node t)[p := (t_node t ! p)\<lparr>gnext := int n - int p\<rparr>,
      n := (t_node t ! mp)\<lparr>gnext := if gnext (t_node t ! mp) = 0 then 0 else gnext (t_node t ! mp) + (int mp - int n)\<rparr>,
      mp := (t_node t ! mp)\<lparr>gnext := 0, gval := None\<rparr>]\<rparr>)"
proof -
  let ?ns = "t_node t"
  note inv' = hash_invD [OF inv]
  have live: "live_key (gkey (?ns ! mp))" using inv'(4) mp by (auto simp: node_keys_def)
  obtain ps where "path (behind ?ns) (Some othern) ps (Some mp)" using inv'(5) mp(1) live oth(1) by (auto simp: chained_keys_def)
  from find_previous_spec [OF inv'(2) _ this oth(2)] home_in_nodes [OF inv] oth(1)
  obtain p where p: "find_previous t mp othern = Some (Inr p)" "p < length ?ns" "behind ?ns p = Some mp" by auto
  have free: "gval (?ns ! n) = None" "gnext (?ns ! n) = 0" using inv'(3) n by (auto simp: free_nodes_def)
  have ne: "n \<noteq> mp" "p \<noteq> n" "p \<noteq> mp" using free mp p acyclic_behind [OF inv'(2) mp(1)] by (auto simp: behind_def)
  have "0 \<le> int mp + gnext (?ns ! mp)" "int mp + gnext (?ns ! mp) < int (length ?ns)" using inv'(2) mp(1) by (auto simp: in_chains_def)
  then have d: "next28 (int n - int p) = int n - int p" "next28 (gnext (?ns ! mp) + (int mp - int n)) = gnext (?ns ! mp) + (int mp - int n)"
    using len n(1) p(2) by (auto intro!: next28_id)
  have m: "(?ns ! mp)\<lparr>gnext := 0\<rparr> = ?ns ! mp" if "gnext (?ns ! mp) = 0" using that by simp
  have "move_colliding t mp n othern = Inr (mp, t\<lparr>t_node := ?ns[p := (?ns ! p)\<lparr>gnext := int n - int p\<rparr>,
      n := (?ns ! mp)\<lparr>gnext := if gnext (?ns ! mp) = 0 then 0 else gnext (?ns ! mp) + (int mp - int n)\<rparr>,
      mp := (?ns ! mp)\<lparr>gnext := 0, gval := None\<rparr>]\<rparr>)"
  proof (cases "gnext (?ns ! mp) = 0")
    case True
    have m': "(?ns ! mp)\<lparr>gnext := 0, gval := None\<rparr> = (?ns ! mp)\<lparr>gval := None\<rparr>" by (simp only: m [OF True])
    from p mp n ne d True show ?thesis by (simp add: move_colliding_def terminates_def m [OF True] m')
  next
    case False
    with p mp n ne d show ?thesis by (simp add: move_colliding_def terminates_def)
  qed
  with p show ?thesis by blast
qed

lemma chain_behind_spec:
  assumes inv: "hash_inv (t_lsizenode t) (t_node t)" and len: "int (length (t_node t)) \<le> 2 ^ 26" and mp: "mp < length (t_node t)" "gval (t_node t ! mp) \<noteq> None"
    and n: "n < length (t_node t)" "gkey (t_node t ! n) = KeyNil"
  shows "chain_behind t mp n = Inr (n, t\<lparr>t_node := (t_node t)[
      n := (t_node t ! n)\<lparr>gnext := if gnext (t_node t ! mp) = 0 then 0 else int mp + gnext (t_node t ! mp) - int n\<rparr>,
      mp := (t_node t ! mp)\<lparr>gnext := int n - int mp\<rparr>]\<rparr>)"
proof -
  let ?ns = "t_node t"
  note inv' = hash_invD [OF inv]
  have free: "gval (?ns ! n) = None" "gnext (?ns ! n) = 0" using inv'(3) n by (auto simp: free_nodes_def)
  have ne: "n \<noteq> mp" using free mp by auto
  have r: "0 \<le> int mp + gnext (?ns ! mp)" "int mp + gnext (?ns ! mp) < int (length ?ns)" using inv'(2) mp(1) by (auto simp: in_chains_def)
  then have d: "next28 (int n - int mp) = int n - int mp" "next28 (int mp + gnext (?ns ! mp) - int n) = int mp + gnext (?ns ! mp) - int n"
    using len n(1) mp(1) by (auto intro!: next28_id)
  have m: "(?ns ! n)\<lparr>gnext := 0\<rparr> = ?ns ! n" using free by simp
  show ?thesis
  proof (cases "gnext (?ns ! mp) = 0")
    case True
    with mp n d free show ?thesis by (simp add: chain_behind_def m)
  next
    case False
    with mp n ne d r show ?thesis by (simp add: chain_behind_def node_add_def)
  qed
qed

definition boundary_key :: "'v LuaTable \<Rightarrow> TKey \<Rightarrow> bool" where
  "boundary_key t key \<longleftrightarrow> int_key key = Some (t_sizearray t + 1)"

definition full :: "'v LuaTable \<Rightarrow> bool" where
  "full t \<longleftrightarrow> (\<forall>i < length (t_node t). gkey (t_node t ! i) \<noteq> KeyNil)"

lemma boundary_test:
  assumes "0 \<le> t_sizearray t" "t_sizearray t \<le> 2 ^ 26"
  shows "(case key of KeyNumber d \<Rightarrow> dbl_eq d (dbl_of_int (t_sizearray t + 1)) | _ \<Rightarrow> False) \<longleftrightarrow> boundary_key t key"
proof -
  have "in_int32 (t_sizearray t + 1)" using assms by (simp add: in_int32_def)
  then show ?thesis using dbl_eq_sym
    by (cases key) (auto simp: boundary_key_def int_key_iff luaO_rawequalKey_def)
qed

text \<open>The nodes after an insertion, and the free position.\<close>

lemma inserted_lastfree:
  assumes "inserted ls ns ns' key q x" "\<forall>i < length ns. gkey (ns ! i) = KeyNil \<longrightarrow> i = x \<or> int i < lf"
  shows "\<forall>i < length ns'. gkey (ns' ! i) = KeyNil \<longrightarrow> int i < lf"
proof (intro allI impI)
  fix i assume i: "i < length ns'" "gkey (ns' ! i) = KeyNil"
  with assms(1) have "i \<notin> insert x (occupied ns)" "length ns' = length ns" by (auto simp: inserted_def in_occupied)
  with i assms(2) show "int i < lf" by (auto simp: in_occupied)
qed

lemma hash_ok_inserted:
  assumes "hash_ok t" "t_node t \<noteq> []" "inserted (t_lsizenode t) (t_node t) ns' key q x" "lf \<le> t_lastfree t"
    "\<forall>i < length (t_node t). gkey (t_node t ! i) = KeyNil \<longrightarrow> i = x \<or> int i < lf"
  shows "hash_ok (t\<lparr>t_node := ns', t_lastfree := lf\<rparr>)"
  using assms inserted_lastfree [OF assms(3,5)] by (auto simp: hash_ok_def node_inv_def inserted_def)

lemma node_update_order: "(r :: 'v LuaNode)\<lparr>gnext := a, gkey := k\<rparr> = r\<lparr>gkey := k, gnext := a\<rparr>"
  by (cases r) simp

lemma node_overwritten: "(r :: 'v LuaNode)\<lparr>gnext := a, gval := v, gkey := k\<rparr> = \<lparr>gval = v, gkey = k, gnext = a\<rparr>"
  by (cases r) simp

lemma table_update_order: "(t :: 'v LuaTable)\<lparr>t_lastfree := a, t_node := ns\<rparr> = t\<lparr>t_node := ns, t_lastfree := a\<rparr>"
  by (cases t) simp

text \<open>The step of \<^verbatim>\<open>newkey\<close>: the key is inserted, or there is no room and the table is rehashed.\<close>

lemma newkey_body_cases:
  assumes ok: "hash_ok t" and lastfree: "t_node t = [] \<Longrightarrow> t_lastfree t \<le> 0" and sz: "0 \<le> t_sizearray t" "t_sizearray t \<le> 2 ^ 26"
    and key: "live_key key" "\<forall>i. \<not> holder (t_node t) key i"
  obtains (insert) q x ns' lf where "t_node t \<noteq> []" "\<not> boundary_key t key"
      "newkey_body c2i nk t key = Inr (NodeSlot q, t\<lparr>t_node := ns', t_lastfree := lf\<rparr>)"
      "inserted (t_lsizenode t) (t_node t) ns' key q x" "hash_ok (t\<lparr>t_node := ns', t_lastfree := lf\<rparr>)" "lf \<le> t_lastfree t" "min 0 (t_lastfree t) \<le> lf"
  | (rehash) lf where "boundary_key t key \<or> full t" "lf = t_lastfree t \<or> full t \<and> lf = min 0 (t_lastfree t)"
      "newkey_body c2i nk t key =
         bindE (rehash c2i nk (t\<lparr>t_lastfree := lf\<rparr>) key) (\<lambda>t. arrayornewkey c2i nk t key)"
proof (cases "boundary_key t key")
  case True
  then have "newkey_body c2i nk t key = bindE (rehash c2i nk (t\<lparr>t_lastfree := t_lastfree t\<rparr>) key) (\<lambda>t. arrayornewkey c2i nk t key)"
    by (simp add: newkey_body_def boundary_test [OF sz])
  with True show ?thesis by (intro rehash [of "t_lastfree t"]) auto
next
  case boundary: False
  let ?ns = "t_node t" and ?ls = "t_lsizenode t"
  let ?mp = "home ?ls key"
  have main: "mainposition ?ls key = Inr ?mp" by (rule mainposition_live [OF key(1)])
  show ?thesis
  proof (cases "?ns = []")
    case True
    then have "?ls = 0" using ok by (simp add: hash_ok_def node_inv_def)
    then have "?mp = 0" using hash_home_less [of 0 key] by simp
    then have node: "gnode t ?mp = Inr dummynode" using True by (simp add: gnode_def)
    have g: "getfreepos t = Inr (None, t\<lparr>t_lastfree := t_lastfree t\<rparr>)" using lastfree True by (subst getfreepos.simps) simp
    have "newkey_body c2i nk t key = bindE (rehash c2i nk (t\<lparr>t_lastfree := t_lastfree t\<rparr>) key) (\<lambda>t. arrayornewkey c2i nk t key)"
      using boundary node main g True by (simp add: newkey_body_def boundary_test [OF sz])
    with True show ?thesis by (intro rehash [of "t_lastfree t"]) (auto simp: full_def)
  next
    case nonempty: False
    have inv: "hash_inv ?ls ?ns" using ok nonempty by (rule hash_ok_inv)
    note inv' = hash_invD [OF inv]
    have less: "?mp < length ?ns" by (rule home_in_nodes [OF inv])
    have len: "int (length ?ns) \<le> 2 ^ 26" by (rule hash_ok_length [OF ok])
    have lf: "t_lastfree t \<le> int (length ?ns)" "\<forall>i < length ?ns. gkey (?ns ! i) = KeyNil \<longrightarrow> int i < t_lastfree t"
      using ok by (simp_all add: hash_ok_def)
    show ?thesis
    proof (cases "gval (?ns ! ?mp) = None")
      case True
      let ?ns' = "?ns[?mp := (?ns ! ?mp)\<lparr>gkey := key\<rparr>]"
      have ins: "inserted ?ls ?ns ?ns' key ?mp ?mp" by (rule inserted_at_home [OF inv key refl True])
      have "newkey_body c2i nk t key = Inr (NodeSlot ?mp, t\<lparr>t_node := ?ns', t_lastfree := t_lastfree t\<rparr>)"
        using boundary True nonempty main less by (simp add: newkey_body_def boundary_test [OF sz])
      moreover have "hash_ok (t\<lparr>t_node := ?ns', t_lastfree := t_lastfree t\<rparr>)"
        using lf(2) by (intro hash_ok_inserted [OF ok nonempty ins]) auto
      ultimately show ?thesis using insert [OF nonempty boundary _ ins _ order_refl min.cobounded2] by blast
    next
      case False
      then have val: "gval (?ns ! ?mp) \<noteq> None" .
      from getfreepos_spec [OF lf] show ?thesis
      proof (elim disjE exE conjE)
        let ?l = "min 0 (t_lastfree t)"
        assume l: "getfreepos t = Inr (None, t\<lparr>t_lastfree := ?l\<rparr>)" "\<forall>i < length ?ns. gkey (?ns ! i) \<noteq> KeyNil"
        have "newkey_body c2i nk t key = bindE (rehash c2i nk (t\<lparr>t_lastfree := ?l\<rparr>) key) (\<lambda>t. arrayornewkey c2i nk t key)"
          using boundary val nonempty main less l(1) by (simp add: newkey_body_def boundary_test [OF sz])
        with l(2) show ?thesis by (intro rehash [of ?l]) (simp_all add: full_def)
      next
        fix n assume g: "getfreepos t = Inr (Some n, t\<lparr>t_lastfree := int n\<rparr>)" and n: "n < length ?ns" "gkey (?ns ! n) = KeyNil"
          and below: "\<forall>i < length ?ns. gkey (?ns ! i) = KeyNil \<longrightarrow> i \<le> n"
        let ?t = "t\<lparr>t_lastfree := int n\<rparr>"
        have nl: "int n \<le> t_lastfree t" "min 0 (t_lastfree t) \<le> int n" using lf(2) n by auto
        have free: "gval (?ns ! n) = None" using inv'(3) n by (auto simp: free_nodes_def)
        then have ne: "n \<noteq> ?mp" using val by auto
        have live: "live_key (gkey (?ns ! ?mp))" using inv'(4) less val by (auto simp: node_keys_def)
        have below': "\<forall>i < length ?ns. gkey (?ns ! i) = KeyNil \<longrightarrow> i = n \<or> int i < int n" using below by (auto simp: le_less)
        note finish = hash_ok_inserted [OF ok nonempty _ nl(1) below']
        show ?thesis
        proof (cases "home ?ls (gkey (?ns ! ?mp)) = ?mp")
          case True
          let ?ns' = "?ns[n := (?ns ! n)\<lparr>gkey := key, gnext := if gnext (?ns ! ?mp) = 0 then 0 else int ?mp + gnext (?ns ! ?mp) - int n\<rparr>,
            ?mp := (?ns ! ?mp)\<lparr>gnext := int n - int ?mp\<rparr>]"
          have ins: "inserted ?ls ?ns ?ns' key n n" by (rule inserted_by_chain [OF inv key refl val True n])
          have cb: "chain_behind ?t ?mp n = Inr (n, ?t\<lparr>t_node := ?ns[
              n := (?ns ! n)\<lparr>gnext := if gnext (?ns ! ?mp) = 0 then 0 else int ?mp + gnext (?ns ! ?mp) - int n\<rparr>,
              ?mp := (?ns ! ?mp)\<lparr>gnext := int n - int ?mp\<rparr>]\<rparr>)"
            using chain_behind_spec [of ?t ?mp n] inv len less val n by simp
          have "newkey_body c2i nk t key = Inr (NodeSlot n, t\<lparr>t_node := ?ns', t_lastfree := int n\<rparr>)"
            using boundary val nonempty main less g mainposition_live [OF live] True ne n free cb
            by (simp add: newkey_body_def boundary_test [OF sz] nth_list_update list_update_swap node_update_order table_update_order)
          with insert [OF nonempty boundary _ ins finish [OF ins] nl] show ?thesis by blast
        next
          case False
          let ?moved = "(?ns ! ?mp)\<lparr>gnext := if gnext (?ns ! ?mp) = 0 then 0 else gnext (?ns ! ?mp) + (int ?mp - int n)\<rparr>"
          from move_colliding_spec [of ?t ?mp _ n] inv len less val n False
          obtain p where p: "p < length ?ns" "behind ?ns p = Some ?mp"
            "move_colliding ?t ?mp n (home ?ls (gkey (?ns ! ?mp))) = Inr (?mp, ?t\<lparr>t_node := ?ns[p := (?ns ! p)\<lparr>gnext := int n - int p\<rparr>,
              n := ?moved, ?mp := (?ns ! ?mp)\<lparr>gnext := 0, gval := None\<rparr>]\<rparr>)" by auto
          let ?ns' = "?ns[p := (?ns ! p)\<lparr>gnext := int n - int p\<rparr>, n := ?moved, ?mp := \<lparr>gval = None, gkey = key, gnext = 0\<rparr>]"
          have ins: "inserted ?ls ?ns ?ns' key ?mp n" by (rule inserted_by_move [OF inv key refl val False n p(1,2)])
          have "newkey_body c2i nk t key = Inr (NodeSlot ?mp, t\<lparr>t_node := ?ns', t_lastfree := int n\<rparr>)"
            using boundary val nonempty main less g mainposition_live [OF live] False p
            by (simp add: newkey_body_def boundary_test [OF sz] table_update_order node_overwritten)
          with insert [OF nonempty boundary _ ins finish [OF ins] nl] show ?thesis by blast
        qed
      qed
    qed
  qed
qed

text \<open>The collector turns a key without a value into a dead key: chains and the values of keys stay.\<close>

lemma hash_inv_dead:
  assumes inv: "hash_inv ls ns" and i: "i < length ns" "gkey (ns ! i) = KeyGc r" "gval (ns ! i) = None"
  defines "ns' \<equiv> ns[i := (ns ! i)\<lparr>gkey := KeyDead r\<rparr>]"
  shows "hash_inv ls ns'" "live_key k \<Longrightarrow> hval ns' k = hval ns k"
proof -
  note inv' = hash_invD [OF inv]
  have len: "length ns' = length ns" by (simp add: ns'_def)
  have nth: "gkey (ns' ! j) = (if j = i then KeyDead r else gkey (ns ! j))" "gval (ns' ! j) = gval (ns ! j)" "gnext (ns' ! j) = gnext (ns ! j)"
    if "j < length ns" for j
    using that i by (simp_all add: ns'_def nth_list_update)
  have b: "behind ns' j = behind ns j" for j
    using i(1) by (cases "j < length ns") (simp_all add: ns'_def behind_def nth_list_update)
  then have bf: "behind ns' = behind ns" by (simp add: fun_eq_iff)
  have dead: "\<not> live_key (KeyDead r)" "int_key (KeyDead r) = None" by (simp_all add: live_key_def int_key_def)
  have live: "live_key (KeyGc r)" by (simp add: live_key_def)
  have other: "gkey (ns ! j) \<noteq> KeyGc r" if "j < length ns" "j \<noteq> i" for j
    using inv'(4) i that live by (auto simp: node_keys_def luaO_rawequalKey_def)
  have "\<forall>j < length ns. 0 \<le> int j + gnext (ns' ! j) \<and> int j + gnext (ns' ! j) < int (length ns)"
    using inv'(2) by (simp add: nth in_chains_def)
  then have "in_chains ns'" using inv'(2) unfolding in_chains_def len bf by blast
  moreover have "free_nodes ns'"
    using inv'(3) unfolding free_nodes_def len bf by (auto simp: nth split: if_splits)
  moreover have "node_keys ns'"
    unfolding node_keys_def len
  proof (intro conjI allI impI)
    fix j assume j: "j < length ns"
    show "live_key (gkey (ns' ! j))" if "gval (ns' ! j) \<noteq> None"
      using that inv'(4) j i by (auto simp: nth node_keys_def)
    show "\<not> key_isnan (gkey (ns' ! j))" using inv'(4) j by (auto simp: nth node_keys_def)
    fix l assume "l < length ns" "luaO_rawequalKey (gkey (ns' ! j)) (gkey (ns' ! l)) \<and> live_key (gkey (ns' ! j))"
    then show "j = l" using inv'(4) j rawequal_live dead by (auto simp: nth node_keys_def split: if_splits)
  qed
  moreover have "chained_keys ls ns'"
    unfolding chained_keys_def len bf
  proof (intro allI impI)
    fix j assume j: "j < length ns" "live_key (gkey (ns' ! j))"
    then have ji: "j \<noteq> i" and k: "gkey (ns' ! j) = gkey (ns ! j)" using dead by (auto simp: nth)
    with j inv'(5) obtain ps where ps: "path (behind ns) (Some (home ls (gkey (ns ! j)))) ps (Some j)"
      "\<forall>p \<in> set ps. \<not> stops_at (gkey (ns ! j)) (gkey (ns ! p))" by (auto simp: chained_keys_def)
    have less: "p < length ns" if "p \<in> set ps" for p
      using path_less [OF ps(1) inv'(2)] home_in_nodes [OF inv] that by simp
    have "\<not> stops_at (gkey (ns ! j)) (gkey (ns' ! p))" if "p \<in> set ps" for p
    proof (cases "p = i")
      case True
      then show ?thesis using other [OF j(1) ji] j(2) k i(1) by (auto simp: nth stops_at_def luaO_rawequalKey_def live_key_def split: TKey.splits)
    next
      case False
      with ps(2) that less [OF that] show ?thesis by (simp add: nth)
    qed
    with ps(1) k show "\<exists>ps. path (behind ns) (Some (home ls (gkey (ns' ! j)))) ps (Some j) \<and> (\<forall>p \<in> set ps. \<not> stops_at (gkey (ns' ! j)) (gkey (ns' ! p)))"
      by auto
  qed
  moreover have "main_positions ls ns'"
    unfolding main_positions_def len Let_def
  proof (intro allI impI)
    fix j assume j: "j < length ns" "live_key (gkey (ns' ! j)) \<and> live_key (gkey (ns' ! home ls (gkey (ns' ! j))))"
    then have k: "gkey (ns' ! j) = gkey (ns ! j)" "home ls (gkey (ns ! j)) \<noteq> i"
      using dead home_in_nodes [OF inv] by (auto simp: nth split: if_splits)
    with j inv'(6) home_in_nodes [OF inv] show "home ls (gkey (ns' ! home ls (gkey (ns' ! j)))) = home ls (gkey (ns' ! j))"
      by (auto simp: nth main_positions_def Let_def)
  qed
  ultimately show hinv: "hash_inv ls ns'" using inv'(1) by (simp add: hash_inv_def len)
  assume k: "live_key k"
  have h: "holder ns' k j \<longleftrightarrow> holder ns k j \<and> j \<noteq> i" for j
  proof -
    have "\<not> luaO_rawequalKey (KeyDead r) k" using k by (auto simp: luaO_rawequalKey_def live_key_def)
    then show ?thesis by (auto simp: holder_def len nth split: if_splits)
  qed
  show "hval ns' k = hval ns k"
  proof (cases "\<exists>j. holder ns k j \<and> j \<noteq> i")
    case True
    then obtain j where j: "holder ns k j" "j \<noteq> i" by blast
    then have "gval (ns' ! j) = gval (ns ! j)" by (simp add: holder_def nth)
    with hval_holder [OF inv'(4) k j(1)] hval_holder [OF hash_invD(4) [OF hinv] k] h j show ?thesis by simp
  next
    case False
    then have "hval ns' k = None" using h held_None [of ns' k] by (simp add: hval_def)
    moreover have "hval ns k = None"
    proof (cases "holder ns k i")
      case True
      then show ?thesis using hval_holder [OF inv'(4) k True] i(3) by simp
    next
      case none: False
      then have "held ns k = None" using False held_None [of ns k] by metis
      then show ?thesis by (simp add: hval_def)
    qed
    ultimately show ?thesis by simp
  qed
qed

end
