(* ===== verification/TableMap.thy ===== *)
theory TableMap
  imports TableNodes
begin

text \<open>
  Tables as maps. The value of a key is in the array part or in the hash part; lookups return its slot and
  insertions change the map at one key. A loop that moves elements into a table with room for them adds exactly these elements.
\<close>

section \<open>The value of a key\<close>

definition in_range :: "'v LuaTable \<Rightarrow> TKey \<Rightarrow> bool" where
  "in_range t k \<longleftrightarrow> (case int_key k of Some j \<Rightarrow> 1 \<le> j \<and> j \<le> t_sizearray t | None \<Rightarrow> False)"

definition key_index :: "TKey \<Rightarrow> nat" where
  "key_index k = nat (the (int_key k) - 1)"

definition key_slot :: "'v LuaTable \<Rightarrow> TKey \<Rightarrow> slot" where
  "key_slot t k = (if in_range t k then ArraySlot (key_index k) else node_slot t k)"

definition tval :: "'v LuaTable \<Rightarrow> TKey \<Rightarrow> 'v option" where
  "tval t k = (if in_range t k then t_array t ! key_index k else hval (t_node t) k)"

lemma in_range_cong: "luaO_rawequalKey k k' \<Longrightarrow> in_range t k = in_range t k'"
  by (simp add: in_range_def int_key_cong)

lemma key_index_cong: "luaO_rawequalKey k k' \<Longrightarrow> key_index k = key_index k'"
  by (simp add: key_index_def int_key_cong)

lemma tval_cong: "luaO_rawequalKey k k' \<Longrightarrow> tval t k = tval t k'"
  by (simp only: tval_def in_range_cong [of k k'] key_index_cong [of k k'] hval_cong [of k k'])

lemma in_range_num: "in_int32 j \<Longrightarrow> in_range t (num j) \<longleftrightarrow> 1 \<le> j \<and> j \<le> t_sizearray t"
  by (simp add: in_range_def)

lemma key_index_num: "in_int32 j \<Longrightarrow> key_index (num j) = nat (j - 1)"
  by (simp add: key_index_def)

lemma key_index_inj: "in_range t k \<Longrightarrow> in_range t k' \<Longrightarrow> key_index k = key_index k' \<Longrightarrow> luaO_rawequalKey k k'"
  by (auto simp: in_range_def key_index_def split: option.splits intro: int_key_rawequal)

definition sizes_ok :: "'v LuaTable \<Rightarrow> bool" where
  "sizes_ok t \<longleftrightarrow> 0 \<le> t_sizearray t \<and> t_sizearray t \<le> 2 ^ 26 \<and> t_sizearray t \<le> int (length (t_array t))"

lemma key_index_less: "sizes_ok t \<Longrightarrow> in_range t k \<Longrightarrow> key_index k < nat (t_sizearray t) \<and> key_index k < length (t_array t)"
  by (auto simp: sizes_ok_def in_range_def key_index_def split: option.splits)

lemma in_array_part_num:
  assumes "sizes_ok t" "in_int32 j"
  shows "in_array_part j (t_sizearray t) \<longleftrightarrow> in_range t (num j)"
  using assms in_array_part_iff [OF assms(2), of "t_sizearray t"] by (simp add: sizes_ok_def in_range_num)

lemma node_slot_dummy: "t_node t = [] \<Longrightarrow> node_slot t k = NilObject"
  by (simp add: node_slot_def held_def)

lemma luaH_getnum_slot:
  assumes "node_inv t" "sizes_ok t" "in_int32 j"
  shows "luaH_getnum t j = Inr (key_slot t (num j))"
proof -
  have p: "(\<lambda>k. case k of KeyNumber d \<Rightarrow> dbl_eq d (dbl_of_int j) | _ \<Rightarrow> False) = (\<lambda>k. luaO_rawequalKey k (num j))"
    by (auto simp: fun_eq_iff luaO_rawequalKey_def split: TKey.splits)
  have h: "hashnum (t_lsizenode t) (dbl_of_int j) = home (t_lsizenode t) (num j)" by (simp add: home_def)
  have "hashable (num j)" by (simp add: hashable_def)
  from search_slot [OF assms(1) this] show ?thesis
    using in_array_part_num [OF assms(2,3)] assms(3)
    by (simp add: luaH_getnum_def p h key_slot_def key_index_num node_slot_dummy del: int_key_num)
qed

lemma luaH_getstr_slot:
  assumes "node_inv t"
  shows "luaH_getstr t s = Inr (key_slot t (KeyGc (GcString s)))"
proof -
  have p: "(\<lambda>k. k = KeyGc (GcString s)) = (\<lambda>k. luaO_rawequalKey k (KeyGc (GcString s)))"
    by (auto simp: fun_eq_iff luaO_rawequalKey_def split: TKey.splits)
  have h: "hashstr (t_lsizenode t) s = home (t_lsizenode t) (KeyGc (GcString s))" by (simp add: home_def)
  have "hashable (KeyGc (GcString s))" "\<not> in_range t (KeyGc (GcString s))" by (simp_all add: hashable_def in_range_def)
  with search_slot [OF assms this(1)] show ?thesis by (simp add: luaH_getstr_def p h key_slot_def)
qed

lemma luaH_getp_slot:
  assumes "node_inv t"
  shows "luaH_getp t p tag = Inr (key_slot t (KeyLightUserdata p tag))"
proof -
  have p: "(\<lambda>k. k = KeyLightUserdata p tag) = (\<lambda>k. luaO_rawequalKey k (KeyLightUserdata p tag))"
    by (auto simp: fun_eq_iff luaO_rawequalKey_def split: TKey.splits)
  have h: "hashpointer (t_lsizenode t) p = home (t_lsizenode t) (KeyLightUserdata p tag)" by (simp add: home_def)
  have "hashable (KeyLightUserdata p tag)" "\<not> in_range t (KeyLightUserdata p tag)" by (simp_all add: hashable_def in_range_def)
  with search_slot [OF assms this(1)] show ?thesis by (simp add: luaH_getp_def p h key_slot_def)
qed

lemma key_slot_cong: "luaO_rawequalKey k k' \<Longrightarrow> key_slot t k = key_slot t k'"
  by (simp only: key_slot_def in_range_cong [of k k'] key_index_cong [of k k'] node_slot_def held_cong [of k k'])

lemma luaH_get_slot:
  assumes "casts c2i" "node_inv t" "sizes_ok t" "hashable k"
  shows "luaH_get c2i t k = Inr (key_slot t k)"
proof -
  have generic: "bindE (mainposition (t_lsizenode t) k) (\<lambda>n. search (\<lambda>k'. luaO_rawequalKey k' k) t n) = Inr (node_slot t k)"
    using search_slot [OF assms(2,4)] mainposition_hashable [OF assms(4)] by simp
  have other: "luaH_get c2i t k = Inr (key_slot t k)" if "\<not> ttisnumber_key k" "\<And>s. k \<noteq> KeyGc (GcString s)"
    using that generic assms(4)
    by (cases k) (auto simp: luaH_get_def key_slot_def in_range_def hashable_def Let_def split: GCRef.split)
  show ?thesis
  proof (cases "ttisnumber_key k")
    case True
    then obtain d where d: "k = KeyNumber d" by (cases k) auto
    show ?thesis
    proof (cases "int_key k")
      case None
      then show ?thesis using casts_int_key(1) [OF assms(1), of d] generic d by (simp add: luaH_get_def key_slot_def in_range_def)
    next
      case (Some j)
      then have "c2i d = j" "dbl_eq (dbl_of_int j) d" "in_int32 j" "luaO_rawequalKey (num j) k"
        using casts_int_key [OF assms(1), of d] d by (auto simp: int_key_iff luaO_rawequalKey_def)
      then show ?thesis using luaH_getnum_slot [OF assms(2,3), of j] d key_slot_cong [of "num j" k] by (simp add: luaH_get_def)
    qed
  next
    case False
    then show ?thesis using other luaH_getstr_slot [OF assms(2)] by (cases "\<exists>s. k = KeyGc (GcString s)") (auto simp: luaH_get_def)
  qed
qed

lemma held_less: "held ns k = Some i \<Longrightarrow> i < length ns"
  by (auto simp: held_def find_Some_iff)

lemma read_key_slot:
  assumes "sizes_ok t"
  shows "read_slot t (key_slot t k) = Inr (tval t k)"
proof (cases "in_range t k")
  case True
  with key_index_less [OF assms True] show ?thesis by (simp add: read_slot_def key_slot_def tval_def array_get_def)
next
  case False
  then show ?thesis
    using held_less [of "t_node t" k] by (cases "held (t_node t) k") (auto simp: read_slot_def key_slot_def tval_def node_slot_def hval_def)
qed

section \<open>Adding an element\<close>

definition base_inv :: "'v LuaTable \<Rightarrow> bool" where
  "base_inv t \<longleftrightarrow> hash_ok t \<and> (t_node t = [] \<longrightarrow> t_lastfree t \<le> 0) \<and> sizes_ok t \<and>
     (\<forall>i < length (t_node t). \<forall>j. int_key (gkey (t_node t ! i)) = Some j \<longrightarrow> \<not> (1 \<le> j \<and> j \<le> t_sizearray t + 1))"

definition used :: "'v LuaTable \<Rightarrow> nat" where
  "used t = card (occupied (t_node t))"

text \<open>The number of elements.\<close>

definition entries :: "'v LuaTable \<Rightarrow> nat" where
  "entries t = length (filter (\<lambda>v. v \<noteq> None) (take (nat (t_sizearray t)) (t_array t))) + size (ents (t_node t))"

text \<open>A table that differs only in the contents of its arrays and in the free position.\<close>

definition same_frame :: "'v LuaTable \<Rightarrow> 'v LuaTable \<Rightarrow> bool" where
  "same_frame t t' \<longleftrightarrow> t' = t\<lparr>t_array := t_array t', t_node := t_node t', t_lastfree := t_lastfree t'\<rparr> \<and>
     length (t_array t') = length (t_array t) \<and> length (t_node t') = length (t_node t)"

lemma same_frame_refl: "same_frame t t"
  unfolding same_frame_def by (cases t) simp

lemma same_frame_trans: "same_frame t t' \<Longrightarrow> same_frame t' t'' \<Longrightarrow> same_frame t t''"
  unfolding same_frame_def by (cases t; cases t'; cases t'') simp

lemma same_frame_update: "length a = length (t_array t) \<Longrightarrow> length ns = length (t_node t) \<Longrightarrow>
  same_frame t (t\<lparr>t_array := a, t_node := ns, t_lastfree := lf\<rparr>)"
  unfolding same_frame_def by (cases t) simp

lemma same_frameD:
  assumes "same_frame t t'"
  shows "t_sizearray t' = t_sizearray t" "length (t_array t') = length (t_array t)" "length (t_node t') = length (t_node t)"
    "t_lsizenode t' = t_lsizenode t" "t_nodemask8 t' = t_nodemask8 t" "t_tmcache t' = t_tmcache t" "t_metatable t' = t_metatable t"
    "t_readonly t' = t_readonly t" "t_arrayid t' = t_arrayid t" "t_nodeid t' = t_nodeid t" "in_range t' k = in_range t k"
    "boundary_key t' k = boundary_key t k"
proof -
  from assms obtain a ns lf where e: "t' = t\<lparr>t_array := a, t_node := ns, t_lastfree := lf\<rparr>"
    and len: "length (t_array t') = length (t_array t)" "length (t_node t') = length (t_node t)"
    unfolding same_frame_def by blast
  show "length (t_array t') = length (t_array t)" "length (t_node t') = length (t_node t)" by (rule len)+
  show "t_sizearray t' = t_sizearray t" "t_lsizenode t' = t_lsizenode t" "t_nodemask8 t' = t_nodemask8 t" "t_tmcache t' = t_tmcache t"
    "t_metatable t' = t_metatable t" "t_readonly t' = t_readonly t" "t_arrayid t' = t_arrayid t" "t_nodeid t' = t_nodeid t"
    unfolding e by simp_all
  then show "in_range t' k = in_range t k" "boundary_key t' k = boundary_key t k" by (simp_all only: in_range_def boundary_key_def)
qed

lemma not_full: "used t < length (t_node t) \<Longrightarrow> \<not> full t"
proof
  assume "used t < length (t_node t)" "full t"
  then have "occupied (t_node t) = {..<length (t_node t)}" by (auto simp: in_occupied full_def)
  with \<open>used t < length (t_node t)\<close> show False by (simp add: used_def)
qed

lemma hval_inserted:
  assumes "inserted ls ns ns' key q x" "hash_inv ls ns" "live_key key" "\<forall>i. \<not> holder ns key i" "live_key k"
  shows "hval ns' k = hval ns k"
proof -
  have inv: "node_keys ns" "node_keys ns'" using assms(1,2) by (auto simp: inserted_def hash_inv_def)
  have e: "ents ns' = ents ns" using assms(1) by (simp add: inserted_def)
  have val: "hval ms k = Some v \<longleftrightarrow> (\<exists>k'. (k', Some v) \<in># ents ms \<and> luaO_rawequalKey k' k)" if "node_keys ms" for ms :: "'a LuaNode list" and v
  proof
    assume "hval ms k = Some v"
    then obtain i where i: "held ms k = Some i" "gval (ms ! i) = Some v" by (auto simp: hval_def split: option.splits)
    then have "holder ms k i" by (auto simp: held_def find_Some_iff holder_def)
    with i show "\<exists>k'. (k', Some v) \<in># ents ms \<and> luaO_rawequalKey k' k"
      by (intro exI [of _ "gkey (ms ! i)"]) (force simp: ents_def holder_def image_iff)
  next
    assume "\<exists>k'. (k', Some v) \<in># ents ms \<and> luaO_rawequalKey k' k"
    then obtain n where n: "n \<in> set ms" "gval n = Some v" "luaO_rawequalKey (gkey n) k" by (auto simp: ents_def)
    then obtain i where "i < length ms" "n = ms ! i" by (auto simp: in_set_conv_nth)
    with n hval_holder [OF that assms(5), of i] show "hval ms k = Some v" by (simp add: holder_def)
  qed
  show ?thesis using val [OF inv(1)] val [OF inv(2)] e by (metis option.exhaust)
qed

lemma holder_inserted:
  assumes "inserted ls ns ns' key q x" "holder ns' k i"
  shows "luaO_rawequalKey key k \<or> (\<exists>j. holder ns k j)"
proof -
  have "gkey (ns' ! i) \<in> gkey ` set ns'" using assms(2) by (simp add: holder_def)
  then have "gkey (ns' ! i) \<in> insert key (gkey ` set ns)" using assms(1) unfolding inserted_def by blast
  then consider "gkey (ns' ! i) = key" | "gkey (ns' ! i) \<in> gkey ` set ns" by blast
  then show ?thesis
  proof cases
    case 2
    then obtain j where "j < length ns" "gkey (ns' ! i) = gkey (ns ! j)" by (auto simp: in_set_conv_nth)
    with assms(2) show ?thesis by (auto simp: holder_def)
  qed (use assms(2) in \<open>simp add: holder_def\<close>)
qed

text \<open>Storing a value in a node with a live key.\<close>

lemma hash_inv_set_value:
  assumes "hash_inv ls ns" "q < length ns" "live_key (gkey (ns ! q))"
  shows "hash_inv ls (ns[q := (ns ! q)\<lparr>gval := v\<rparr>])"
proof -
  let ?ns = "ns[q := (ns ! q)\<lparr>gval := v\<rparr>]"
  note inv = hash_invD [OF assms(1)]
  have b: "behind ?ns = behind ns" using assms(2) by (auto simp: fun_eq_iff behind_def nth_list_update)
  have k: "gkey (?ns ! i) = gkey (ns ! i)" "gnext (?ns ! i) = gnext (ns ! i)" for i
    using assms(2) by (simp_all add: nth_list_update)
  have g: "gval (?ns ! i) = (if i = q then v else gval (ns ! i))" for i using assms(2) by (simp add: nth_list_update)
  have "in_chains ?ns" using inv(2) unfolding in_chains_def b k length_list_update .
  moreover have "free_nodes ?ns" using inv(3) assms(3) by (auto simp: free_nodes_def b k g live_key_def)
  moreover have "node_keys ?ns" using inv(4) assms(3) by (auto simp: node_keys_def k g)
  moreover have "chained_keys ls ?ns" using inv(5) unfolding chained_keys_def b k length_list_update .
  moreover have "main_positions ls ?ns" using inv(6) unfolding main_positions_def b k length_list_update .
  ultimately show ?thesis using inv(1) by (simp add: hash_inv_def)
qed

lemma hval_set_value:
  assumes "hash_inv ls ns" "q < length ns" "live_key (gkey (ns ! q))" "live_key k"
  shows "hval (ns[q := (ns ! q)\<lparr>gval := v\<rparr>]) k = (if luaO_rawequalKey (gkey (ns ! q)) k then v else hval ns k)"
proof -
  let ?ns = "ns[q := (ns ! q)\<lparr>gval := v\<rparr>]"
  have k: "gkey (?ns ! i) = gkey (ns ! i)" for i using assms(2) by (simp add: nth_list_update)
  have h: "held ?ns k = held ns k" by (simp add: held_def k)
  show ?thesis
  proof (cases "luaO_rawequalKey (gkey (ns ! q)) k")
    case True
    then have "holder ns k q" using assms(2) by (simp add: holder_def)
    then have "held ns k = Some q" using held_Some hash_invD(4) [OF assms(1)] assms(4) by blast
    with True h assms(2) show ?thesis by (simp add: hval_def)
  next
    case False
    then have "held ns k \<noteq> Some q" by (auto simp: held_def find_Some_iff)
    with False h show ?thesis by (auto simp: hval_def nth_list_update split: option.splits)
  qed
qed

lemma size_ents_set_value:
  assumes "q < length ns"
  shows "size (ents (ns[q := (ns ! q)\<lparr>gval := v\<rparr>])) + (if gval (ns ! q) = None then 0 else 1) = size (ents ns) + (if v = None then 0 else 1)"
proof -
  have "ns ! q \<in># mset ns" using assms by simp
  then obtain M where M: "mset ns = add_mset (ns ! q) M" by (metis multi_member_split)
  have "mset (ns[q := (ns ! q)\<lparr>gval := v\<rparr>]) = add_mset ((ns ! q)\<lparr>gval := v\<rparr>) M"
    using assms by (simp add: mset_update M)
  then show ?thesis by (simp add: ents_def M)
qed

lemma occupied_set_value: "q < length ns \<Longrightarrow> occupied (ns[q := (ns ! q)\<lparr>gval := v\<rparr>]) = occupied ns"
  by (auto simp: in_occupied nth_list_update split: if_splits)

lemma in_range_eq: "t_sizearray t' = t_sizearray t \<Longrightarrow> in_range t' k = in_range t k"
  by (simp add: in_range_def cong: option.case_cong)

lemma in_range_update [simp]:
  "in_range (t\<lparr>t_array := a\<rparr>) k = in_range t k" "in_range (t\<lparr>t_node := ns\<rparr>) k = in_range t k"
  "in_range (t\<lparr>t_lastfree := lf\<rparr>) k = in_range t k" "in_range (t\<lparr>t_arrayid := n\<rparr>) k = in_range t k"
  "in_range (t\<lparr>t_tmcache := c\<rparr>) k = in_range t k"
  by (rule in_range_eq; simp)+

text \<open>The slots at which a key is stored.\<close>

definition slot_for :: "'v LuaTable \<Rightarrow> TKey \<Rightarrow> slot \<Rightarrow> bool" where
  "slot_for t k p \<longleftrightarrow>
     (if in_range t k then p = ArraySlot (key_index k) else \<exists>i. p = NodeSlot i \<and> holder (t_node t) k i)"

definition stored :: "'v LuaTable \<Rightarrow> TKey \<Rightarrow> bool" where
  "stored t k \<longleftrightarrow> in_range t k \<or> (\<exists>i. holder (t_node t) k i)"

lemma base_inv_hash: "base_inv t \<Longrightarrow> i < length (t_node t) \<Longrightarrow> hash_inv (t_lsizenode t) (t_node t)"
  by (auto simp: base_inv_def intro: hash_ok_inv_at)

lemma base_inv_key: "base_inv t \<Longrightarrow> i < length (t_node t) \<Longrightarrow> \<not> in_range t (gkey (t_node t ! i))"
  by (auto simp: base_inv_def in_range_def split: option.splits)

lemma base_inv_sizes: "base_inv t \<Longrightarrow> sizes_ok t"
  by (simp add: base_inv_def)

lemma base_inv_node: "base_inv t \<Longrightarrow> node_inv t"
  by (simp add: base_inv_def hash_ok_def)

lemma key_slot_for:
  assumes "base_inv t" "live_key k" "stored t k"
  shows "slot_for t k (key_slot t k)"
proof (cases "in_range t k")
  case False
  with assms(3) obtain i where i: "holder (t_node t) k i" by (auto simp: stored_def)
  with base_inv_hash [OF assms(1), of i] have "held (t_node t) k = Some i"
    using held_Some [OF hash_invD(4) assms(2)] i by (auto simp: holder_def)
  with False i show ?thesis by (simp add: slot_for_def key_slot_def node_slot_def)
qed (simp add: slot_for_def key_slot_def)

lemma not_stored: "base_inv t \<Longrightarrow> live_key k \<Longrightarrow> \<not> stored t k \<Longrightarrow> key_slot t k = NilObject \<and> tval t k = None"
  using held_None [of "t_node t" k] by (auto simp: stored_def key_slot_def node_slot_def tval_def hval_def split: option.splits)

lemma stored_not_nil: "base_inv t \<Longrightarrow> live_key k \<Longrightarrow> stored t k \<Longrightarrow> key_slot t k \<noteq> NilObject"
  using key_slot_for [of t k] by (auto simp: slot_for_def split: if_splits)

lemma length_filter_set_nth:
  "i < length xs \<Longrightarrow> length (filter P (xs[i := x])) + (if P (xs ! i) then 1 else 0) = length (filter P xs) + (if P x then 1 else 0)"
proof (induction xs arbitrary: i)
  case (Cons a xs)
  then show ?case by (cases i) auto
qed simp

definition assigned :: "'v LuaTable \<Rightarrow> TKey \<Rightarrow> 'v option \<Rightarrow> 'v LuaTable \<Rightarrow> bool" where
  "assigned t k v t' \<longleftrightarrow>
     base_inv t' \<and> same_frame t t' \<and> used t' = used t \<and> t_lastfree t' = t_lastfree t \<and>
     (\<forall>k'. live_key k' \<longrightarrow> tval t' k' = (if luaO_rawequalKey k k' then v else tval t k')) \<and>
     entries t' + (if tval t k = None then 0 else 1) = entries t + (if v = None then 0 else 1) \<and>
     (\<forall>k'. stored t' k' \<longleftrightarrow> stored t k')"

lemma write_slot_for:
  assumes "base_inv t" "live_key k" "slot_for t k p"
  shows "\<exists>t'. write_slot t p v = Inr t' \<and> assigned t k v t'"
proof (cases "in_range t k")
  case True
  let ?i = "key_index k"
  let ?t = "t\<lparr>t_array := (t_array t)[?i := v]\<rparr>"
  have less: "?i < nat (t_sizearray t)" "?i < length (t_array t)" using key_index_less [OF base_inv_sizes [OF assms(1)] True] by auto
  have w: "write_slot t p v = Inr ?t" using assms(3) True less by (simp add: slot_for_def write_slot_def)
  have frame: "same_frame t ?t" using same_frame_update [of "(t_array t)[?i := v]" t "t_node t" "t_lastfree t"] by simp
  have r: "in_range ?t k' = in_range t k'" for k' by (rule in_range_eq) simp
  have "base_inv ?t" using assms(1) by (simp add: base_inv_def hash_ok_def node_inv_def sizes_ok_def)
  moreover have "tval ?t k' = (if luaO_rawequalKey k k' then v else tval t k')" if "live_key k'" for k'
  proof (cases "luaO_rawequalKey k k'")
    case eq: True
    have "in_range t k'" using True in_range_cong [OF eq] by blast
    then show ?thesis using eq less key_index_cong [OF eq] by (simp add: tval_def)
  next
    case False
    then have "in_range t k' \<Longrightarrow> key_index k' \<noteq> ?i" using key_index_inj [OF True] by metis
    with False show ?thesis by (auto simp: tval_def r)
  qed
  moreover have "entries ?t + (if tval t k = None then 0 else 1) = entries t + (if v = None then 0 else 1)"
    using length_filter_set_nth [of ?i "take (nat (t_sizearray t)) (t_array t)" "\<lambda>v. v \<noteq> None" v] True less
    by (auto simp: entries_def tval_def take_update_swap split: if_splits)
  moreover have "stored ?t k' \<longleftrightarrow> stored t k'" for k' by (simp add: stored_def r)
  ultimately show ?thesis using w frame by (auto simp: assigned_def used_def)
next
  case False
  with assms(3) obtain i where i: "p = NodeSlot i" "holder (t_node t) k i" by (auto simp: slot_for_def)
  let ?ns = "(t_node t)[i := (t_node t ! i)\<lparr>gval := v\<rparr>]"
  let ?t = "t\<lparr>t_node := ?ns\<rparr>"
  have less: "i < length (t_node t)" and eq: "luaO_rawequalKey (gkey (t_node t ! i)) k" using i by (auto simp: holder_def)
  then have live: "live_key (gkey (t_node t ! i))" using assms(2) rawequal_live_iff by blast
  have inv: "hash_inv (t_lsizenode t) (t_node t)" by (rule base_inv_hash [OF assms(1) less])
  have w: "write_slot t p v = Inr ?t" using i less by (simp add: write_slot_def)
  have frame: "same_frame t ?t" using same_frame_update [of "t_array t" t ?ns "t_lastfree t"] by simp
  have k: "gkey (?ns ! j) = gkey (t_node t ! j)" for j using less by (simp add: nth_list_update)
  have r: "in_range ?t k' = in_range t k'" for k' by (rule in_range_eq) simp
  have nonempty: "?ns \<noteq> []" "t_node t \<noteq> []" using less by auto
  have "base_inv ?t"
    using assms(1) hash_inv_set_value [OF inv less live] nonempty
    by (simp add: base_inv_def hash_ok_def node_inv_def sizes_ok_def k)
  moreover have "tval ?t k' = (if luaO_rawequalKey k k' then v else tval t k')" if "live_key k'" for k'
  proof (cases "luaO_rawequalKey k k'")
    case True
    then have "\<not> in_range t k'" "luaO_rawequalKey (gkey (t_node t ! i)) k'" using False in_range_cong [of k k'] eq rawequal_trans by blast+
    with True show ?thesis by (simp add: tval_def r hval_set_value [OF inv less live that])
  next
    case neq: False
    then have "\<not> luaO_rawequalKey (gkey (t_node t ! i)) k'" using eq rawequal_sym rawequal_trans by blast
    with neq show ?thesis by (simp add: tval_def r hval_set_value [OF inv less live that])
  qed
  moreover have "entries ?t + (if tval t k = None then 0 else 1) = entries t + (if v = None then 0 else 1)"
    using size_ents_set_value [OF less, of v] False hval_holder [OF hash_invD(4) [OF inv] assms(2) i(2)]
    by (simp add: entries_def tval_def)
  moreover have "stored ?t k' \<longleftrightarrow> stored t k'" for k' by (simp add: stored_def r holder_def k)
  ultimately show ?thesis using w frame occupied_set_value [OF less] by (auto simp: assigned_def used_def)
qed

text \<open>A key that is not stored yet, while there is room for it.\<close>

definition keyed :: "'v LuaTable \<Rightarrow> TKey \<Rightarrow> slot \<Rightarrow> 'v LuaTable \<Rightarrow> bool" where
  "keyed t k p t' \<longleftrightarrow>
     base_inv t' \<and> slot_for t' k p \<and> (\<forall>k'. live_key k' \<longrightarrow> tval t' k' = tval t k') \<and> entries t' = entries t"

lemma keyed_inserted:
  assumes inv: "base_inv t" and key: "live_key key" "\<not> stored t key" "\<not> boundary_key t key" and nonempty: "t_node t \<noteq> []"
    and ins: "inserted (t_lsizenode t) (t_node t) ns' key q x" and ok: "hash_ok (t\<lparr>t_node := ns', t_lastfree := lf\<rparr>)"
  shows "keyed t key (NodeSlot q) (t\<lparr>t_node := ns', t_lastfree := lf\<rparr>) \<and> same_frame t (t\<lparr>t_node := ns', t_lastfree := lf\<rparr>) \<and>
    used (t\<lparr>t_node := ns', t_lastfree := lf\<rparr>) \<le> used t + 1 \<and>
    (\<forall>k. stored (t\<lparr>t_node := ns', t_lastfree := lf\<rparr>) k \<longrightarrow> stored t k \<or> luaO_rawequalKey key k)"
proof -
  have absent: "\<forall>i. \<not> holder (t_node t) key i" "\<not> in_range t key" using key(2) by (auto simp: stored_def)
  let ?t = "t\<lparr>t_node := ns', t_lastfree := lf\<rparr>"
  have hinv: "hash_inv (t_lsizenode t) (t_node t)" using base_inv_hash [OF inv, of 0] nonempty by simp
  have len: "length ns' = length (t_node t)" "q < length ns'" and k: "gkey (ns' ! q) = key" and e: "ents ns' = ents (t_node t)"
    and occ: "occupied ns' = insert x (occupied (t_node t))" and ks: "gkey ` set ns' \<subseteq> insert key (gkey ` set (t_node t))"
    using ins by (auto simp: inserted_def)
  have r: "in_range ?t k' = in_range t k'" for k' by (rule in_range_eq) simp
  have "\<not> (1 \<le> j \<and> j \<le> t_sizearray t + 1)" if "i < length ns'" "int_key (gkey (ns' ! i)) = Some j" for i j
  proof -
    have "gkey (ns' ! i) \<in> insert key (gkey ` set (t_node t))" using ks that(1) by (metis image_eqI nth_mem subsetD)
    then consider "gkey (ns' ! i) = key" | i' where "i' < length (t_node t)" "gkey (ns' ! i) = gkey (t_node t ! i')"
      by (auto simp: in_set_conv_nth)
    then show ?thesis
    proof cases
      case 1
      with that(2) absent(2) key(3) show ?thesis by (auto simp: in_range_def boundary_key_def)
    next
      case 2
      with that(2) inv show ?thesis by (auto simp: base_inv_def)
    qed
  qed
  moreover have "ns' \<noteq> []" using len by auto
  ultimately have "base_inv ?t" using inv ok by (auto simp: base_inv_def sizes_ok_def)
  moreover have "slot_for ?t key (NodeSlot q)"
    using absent(2) len k rawequal_refl [OF key(1)] by (auto simp: slot_for_def r holder_def)
  moreover have "tval ?t k' = tval t k'" if "live_key k'" for k'
    using hval_inserted [OF ins hinv key(1) absent(1) that] by (simp add: tval_def r)
  moreover have "same_frame t ?t" using same_frame_update [of "t_array t" t ns' lf] len by simp
  moreover have "used ?t \<le> used t + 1" by (simp add: used_def occ card_insert_if)
  moreover have "stored t k' \<or> luaO_rawequalKey key k'" if "stored ?t k'" for k'
    using that holder_inserted [OF ins] by (auto simp: stored_def r)
  ultimately show ?thesis using e by (auto simp: keyed_def entries_def)
qed

lemma newkey_room:
  assumes inv: "base_inv t" and key: "live_key key" "\<not> stored t key" "\<not> boundary_key t key" and room: "used t < length (t_node t)"
  shows "\<exists>p t'. newkey (Suc d) c2i t key = Inr (p, t') \<and> keyed t key p t' \<and> same_frame t t' \<and> used t' \<le> used t + 1 \<and>
    t_array t' = t_array t \<and> t_lastfree t' \<le> t_lastfree t \<and> min 0 (t_lastfree t) \<le> t_lastfree t' \<and>
    (\<forall>k. stored t' k \<longrightarrow> stored t k \<or> luaO_rawequalKey key k)"
proof (rule newkey_body_cases [of t key c2i "newkey d c2i"])
  show "hash_ok t" "t_node t = [] \<Longrightarrow> t_lastfree t \<le> 0" using inv by (simp_all add: base_inv_def)
  show "0 \<le> t_sizearray t" "t_sizearray t \<le> 2 ^ 26" using base_inv_sizes [OF inv] by (auto simp: sizes_ok_def)
  show "live_key key" "\<forall>i. \<not> holder (t_node t) key i" using key by (auto simp: stored_def)
next
  fix lf assume "boundary_key t key \<or> full t"
  with key(3) not_full [OF room] show ?thesis by simp
next
  fix q x ns' lf
  assume nonempty: "t_node t \<noteq> []" and call: "newkey_body c2i (newkey d c2i) t key = Inr (NodeSlot q, t\<lparr>t_node := ns', t_lastfree := lf\<rparr>)"
    and ins: "inserted (t_lsizenode t) (t_node t) ns' key q x" "hash_ok (t\<lparr>t_node := ns', t_lastfree := lf\<rparr>)"
    and lf: "lf \<le> t_lastfree t" "min 0 (t_lastfree t) \<le> lf"
  from keyed_inserted [OF inv key nonempty ins] call lf show ?thesis by auto
qed

section \<open>Moving elements\<close>

lemma arrayornewkey_eq:
  assumes "casts c2i" "sizes_ok t"
  shows "arrayornewkey c2i nk t k = (if in_range t k then Inr (ArraySlot (key_index k), t) else nk t k)"
proof (cases "ttisnumber_key k")
  case True
  then obtain d where d: "k = KeyNumber d" by (cases k) auto
  show ?thesis
  proof (cases "int_key k")
    case None
    then show ?thesis using casts_int_key(1) [OF assms(1), of d] d by (simp add: arrayornewkey_def in_range_def)
  next
    case (Some j)
    then have j: "c2i d = j" "dbl_eq (dbl_of_int j) d" "in_int32 j"
      using casts_int_key [OF assms(1), of d] d by (auto simp: int_key_iff luaO_rawequalKey_def)
    have "in_array_part j (t_sizearray t) \<longleftrightarrow> in_range t k"
      using in_array_part_num [OF assms(2) j(3)] Some j(3) by (simp add: in_range_def)
    then show ?thesis using Some j d by (simp add: arrayornewkey_def key_index_def)
  qed
next
  case False
  then show ?thesis by (cases k) (auto simp: arrayornewkey_def in_range_def)
qed

definition put :: "num2int \<Rightarrow> 'v inserter \<Rightarrow> 'v LuaTable \<Rightarrow> TKey \<times> 'v \<Rightarrow> 'v LuaTable cpp" where
  "put c2i nk t e = bindE (arrayornewkey c2i nk t (fst e)) (\<lambda>(p, t). write_slot t p (Some (snd e)))"

text \<open>What is left of the array behind the part in use.\<close>

definition beyond :: "'v LuaTable \<Rightarrow> 'v option list" where
  "beyond t = drop (nat (t_sizearray t)) (t_array t)"

lemma beyond_same: "t_sizearray t' = t_sizearray t \<Longrightarrow> t_array t' = t_array t \<Longrightarrow> beyond t' = beyond t"
  by (simp add: beyond_def)

definition putable :: "'v LuaTable \<Rightarrow> TKey \<Rightarrow> bool" where
  "putable t k \<longleftrightarrow> live_key k \<and> tval t k = None \<and> (in_range t k \<or> \<not> stored t k \<and> \<not> boundary_key t k)"

lemma write_slot_beyond:
  assumes "write_slot t p v = Inr t'" "slot_for t k p" "sizes_ok t"
  shows "beyond t' = beyond t"
  using assms key_index_less [OF assms(3), of k]
  by (auto simp: write_slot_def slot_for_def beyond_def split: if_splits)

lemma put_spec:
  assumes "casts c2i" "base_inv t" "putable t k" "in_range t k \<or> used t < length (t_node t)"
  shows "\<exists>t'. put c2i (newkey (Suc d) c2i) t (k, v) = Inr t' \<and> base_inv t' \<and> same_frame t t' \<and> beyond t' = beyond t \<and>
    used t' \<le> used t + (if in_range t k then 0 else 1) \<and> entries t' = entries t + 1 \<and> t_lastfree t' \<le> t_lastfree t \<and> min 0 (t_lastfree t) \<le> t_lastfree t' \<and>
    (\<forall>k'. live_key k' \<longrightarrow> tval t' k' = (if luaO_rawequalKey k k' then Some v else tval t k')) \<and>
    (\<forall>k'. stored t' k' \<longrightarrow> stored t k' \<or> luaO_rawequalKey k k')"
proof (cases "in_range t k")
  case True
  have live: "live_key k" and none: "tval t k = None" using assms(3) by (auto simp: putable_def)
  have s: "slot_for t k (ArraySlot (key_index k))" using True by (simp add: slot_for_def)
  from write_slot_for [OF assms(2) live s] obtain t' where t': "write_slot t (ArraySlot (key_index k)) (Some v) = Inr t'" "assigned t k (Some v) t'" by blast
  have "put c2i (newkey (Suc d) c2i) t (k, v) = Inr t'"
    using t'(1) True by (simp add: put_def arrayornewkey_eq [OF assms(1) base_inv_sizes [OF assms(2)]])
  with t'(2) none write_slot_beyond [OF t'(1) s base_inv_sizes [OF assms(2)]] True show ?thesis by (auto simp: assigned_def)
next
  case False
  with assms(3,4) have live: "live_key k" and none: "tval t k = None" and new: "\<not> stored t k" "\<not> boundary_key t k" and room: "used t < length (t_node t)"
    by (auto simp: putable_def)
  from newkey_room [OF assms(2) live new room, of d c2i] obtain p t1 where t1: "newkey (Suc d) c2i t k = Inr (p, t1)" "keyed t k p t1"
    "same_frame t t1" "used t1 \<le> used t + 1" "t_array t1 = t_array t" "t_lastfree t1 \<le> t_lastfree t" "min 0 (t_lastfree t) \<le> t_lastfree t1"
    "\<forall>k'. stored t1 k' \<longrightarrow> stored t k' \<or> luaO_rawequalKey k k'" by blast
  have k1: "base_inv t1" "slot_for t1 k p" "\<And>k'. live_key k' \<Longrightarrow> tval t1 k' = tval t k'" "entries t1 = entries t" using t1(2) by (auto simp: keyed_def)
  from write_slot_for [OF k1(1) live k1(2)] obtain t' where t': "write_slot t1 p (Some v) = Inr t'" "assigned t1 k (Some v) t'" by blast
  have "put c2i (newkey (Suc d) c2i) t (k, v) = Inr t'"
    using t'(1) t1(1) False by (simp add: put_def arrayornewkey_eq [OF assms(1) base_inv_sizes [OF assms(2)]])
  moreover have "beyond t' = beyond t"
    using write_slot_beyond [OF t'(1) k1(2) base_inv_sizes [OF k1(1)]] beyond_same [OF same_frameD(1) [OF t1(3)] t1(5)] by simp
  ultimately show ?thesis using t'(2) t1(3-8) k1 none live False same_frame_trans [OF t1(3), of t'] by (auto simp: assigned_def)
qed

text \<open>A loop that puts the elements \<open>map_filter e xs\<close> into the table.\<close>

lemma fold_put:
  assumes c: "casts c2i" and inv: "base_inv t"
    and step: "\<And>t' x. x \<in> set xs \<Longrightarrow> base_inv t' \<Longrightarrow> same_frame t t' \<Longrightarrow> beyond t' = beyond t \<Longrightarrow>
      step t' x = (case e x of None \<Rightarrow> Inr t' | Some kv \<Rightarrow> put c2i (newkey (Suc d) c2i) t' kv)"
    and ok: "\<forall>kv \<in> set (List.map_filter e xs). putable t (fst kv)"
    and distinct: "sorted_wrt (\<lambda>a b. \<not> luaO_rawequalKey (fst a) (fst b)) (List.map_filter e xs)"
    and room: "used t + length (filter (\<lambda>kv. \<not> in_range t (fst kv)) (List.map_filter e xs)) \<le> length (t_node t)"
  shows "\<exists>t'. foldE step t xs = Inr t' \<and> base_inv t' \<and> same_frame t t' \<and> beyond t' = beyond t \<and>
    used t' \<le> used t + length (filter (\<lambda>kv. \<not> in_range t (fst kv)) (List.map_filter e xs)) \<and>
    entries t' = entries t + length (List.map_filter e xs) \<and> t_lastfree t' \<le> t_lastfree t \<and> min 0 (t_lastfree t) \<le> t_lastfree t' \<and>
    (\<forall>k'. live_key k' \<longrightarrow> tval t' k' = (case List.find (\<lambda>kv. luaO_rawequalKey (fst kv) k') (List.map_filter e xs) of
      Some kv \<Rightarrow> Some (snd kv) | None \<Rightarrow> tval t k'))\<and>
    (\<forall>k'. stored t' k' \<longrightarrow> stored t k' \<or> (\<exists>kv \<in> set (List.map_filter e xs). luaO_rawequalKey (fst kv) k'))"
  using inv step ok distinct room
proof (induction xs arbitrary: t)
  case Nil
  then show ?case by (auto simp: map_filter_simps same_frame_refl)
next
  case (Cons x xs)
  show ?case
  proof (cases "e x")
    case None
    then have s: "step t x = Inr t" using Cons.prems(2) [of x t] Cons.prems(1) same_frame_refl [of t] by simp
    have "\<exists>t'. foldE step t xs = Inr t' \<and> base_inv t' \<and> same_frame t t' \<and> beyond t' = beyond t \<and>
      used t' \<le> used t + length (filter (\<lambda>kv. \<not> in_range t (fst kv)) (List.map_filter e xs)) \<and>
      entries t' = entries t + length (List.map_filter e xs) \<and> t_lastfree t' \<le> t_lastfree t \<and> min 0 (t_lastfree t) \<le> t_lastfree t' \<and>
      (\<forall>k'. live_key k' \<longrightarrow> tval t' k' = (case List.find (\<lambda>kv. luaO_rawequalKey (fst kv) k') (List.map_filter e xs) of
        Some kv \<Rightarrow> Some (snd kv) | None \<Rightarrow> tval t k')) \<and>
      (\<forall>k'. stored t' k' \<longrightarrow> stored t k' \<or> (\<exists>kv \<in> set (List.map_filter e xs). luaO_rawequalKey (fst kv) k'))"
      using Cons.prems None by (intro Cons.IH) (auto simp: map_filter_simps)
    then show ?thesis using None s by (simp add: map_filter_simps)
  next
    case (Some kv)
    obtain k v where kv: "kv = (k, v)" by fastforce
    let ?es = "List.map_filter e xs"
    have s: "step t x = put c2i (newkey (Suc d) c2i) t (k, v)" using Cons.prems(2) [of x t] Cons.prems(1) same_frame_refl [of t] Some kv by simp
    have pk: "putable t k" and live: "live_key k" using Cons.prems(3) Some kv by (auto simp: map_filter_simps putable_def)
    have "in_range t k \<or> used t < length (t_node t)" using Cons.prems(5) Some kv by (auto simp: map_filter_simps split: if_splits)
    from put_spec [OF c Cons.prems(1) pk this, of d v] obtain t1 where t1: "put c2i (newkey (Suc d) c2i) t (k, v) = Inr t1" "base_inv t1"
      "same_frame t t1" "beyond t1 = beyond t" "used t1 \<le> used t + (if in_range t k then 0 else 1)" "entries t1 = entries t + 1" "t_lastfree t1 \<le> t_lastfree t" "min 0 (t_lastfree t) \<le> t_lastfree t1"
      and v1: "\<And>k'. live_key k' \<Longrightarrow> tval t1 k' = (if luaO_rawequalKey k k' then Some v else tval t k')"
      and s1: "\<And>k'. stored t1 k' \<Longrightarrow> stored t k' \<or> luaO_rawequalKey k k'" by blast
    note f1 = same_frameD [OF t1(3)]
    have "\<exists>t'. foldE step t1 xs = Inr t' \<and> base_inv t' \<and> same_frame t1 t' \<and> beyond t' = beyond t1 \<and>
      used t' \<le> used t1 + length (filter (\<lambda>kv. \<not> in_range t1 (fst kv)) ?es) \<and>
      entries t' = entries t1 + length ?es \<and> t_lastfree t' \<le> t_lastfree t1 \<and> min 0 (t_lastfree t1) \<le> t_lastfree t' \<and>
      (\<forall>k'. live_key k' \<longrightarrow> tval t' k' = (case List.find (\<lambda>kv. luaO_rawequalKey (fst kv) k') ?es of Some kv \<Rightarrow> Some (snd kv) | None \<Rightarrow> tval t1 k')) \<and>
      (\<forall>k'. stored t' k' \<longrightarrow> stored t1 k' \<or> (\<exists>kv \<in> set ?es. luaO_rawequalKey (fst kv) k'))"
    proof (rule Cons.IH [OF t1(2)])
      show "step t' y = (case e y of None \<Rightarrow> Inr t' | Some kv \<Rightarrow> put c2i (newkey (Suc d) c2i) t' kv)"
        if "y \<in> set xs" "base_inv t'" "same_frame t1 t'" "beyond t' = beyond t1" for t' y
        using Cons.prems(2) [of y t'] that t1(4) same_frame_trans [OF t1(3)] by simp
      show "\<forall>kv \<in> set ?es. putable t1 (fst kv)"
      proof
        fix kv' assume kv': "kv' \<in> set ?es"
        then have "putable t (fst kv')" "\<not> luaO_rawequalKey k (fst kv')"
          using Cons.prems(3,4) Some kv by (auto simp: map_filter_simps)
        then show "putable t1 (fst kv')" using v1 s1 f1 by (auto simp: putable_def)
      qed
      show "sorted_wrt (\<lambda>a b. \<not> luaO_rawequalKey (fst a) (fst b)) ?es" using Cons.prems(4) Some by (simp add: map_filter_simps)
      show "used t1 + length (filter (\<lambda>kv. \<not> in_range t1 (fst kv)) ?es) \<le> length (t_node t1)"
        using Cons.prems(5) Some kv t1(5) f1 by (auto simp: map_filter_simps split: if_splits)
    qed
    then obtain t' where t': "foldE step t1 xs = Inr t'" "base_inv t'" "same_frame t1 t'" "beyond t' = beyond t1"
      "used t' \<le> used t1 + length (filter (\<lambda>kv. \<not> in_range t1 (fst kv)) ?es)" "entries t' = entries t1 + length ?es" "t_lastfree t' \<le> t_lastfree t1" "min 0 (t_lastfree t1) \<le> t_lastfree t'"
      and v2: "\<And>k'. live_key k' \<Longrightarrow> tval t' k' = (case List.find (\<lambda>kv. luaO_rawequalKey (fst kv) k') ?es of Some kv \<Rightarrow> Some (snd kv) | None \<Rightarrow> tval t1 k')"
      and s2: "\<And>k'. stored t' k' \<Longrightarrow> stored t1 k' \<or> (\<exists>kv \<in> set ?es. luaO_rawequalKey (fst kv) k')" by blast
    have val: "tval t' k' = (case List.find (\<lambda>kv. luaO_rawequalKey (fst kv) k') ((k, v) # ?es) of Some kv \<Rightarrow> Some (snd kv) | None \<Rightarrow> tval t k')"
      if "live_key k'" for k'
    proof (cases "luaO_rawequalKey k k'")
      case True
      have "\<not> luaO_rawequalKey (fst kv') k'" if "kv' \<in> set ?es" for kv'
      proof -
        have "\<not> luaO_rawequalKey k (fst kv')" using Cons.prems(4) that Some kv by (auto simp: map_filter_simps)
        then show ?thesis using True rawequal_sym rawequal_trans by blast
      qed
      then have "List.find (\<lambda>kv. luaO_rawequalKey (fst kv) k') ?es = None" by (auto simp: find_None_iff)
      with True v2 [OF that] v1 [OF that] show ?thesis by simp
    next
      case False
      with v2 [OF that] v1 [OF that] show ?thesis by (auto split: option.splits)
    qed
    have "used t' \<le> used t + length (filter (\<lambda>kv. \<not> in_range t (fst kv)) ((k, v) # ?es))"
      using t'(5) t1(5) f1 by (auto split: if_splits)
    moreover have "stored t k' \<or> (\<exists>kv \<in> set ((k, v) # ?es). luaO_rawequalKey (fst kv) k')" if "stored t' k'" for k'
      using s2 [OF that] s1 [of k'] by auto
    ultimately show ?thesis
      using s t1 t' same_frame_trans [OF t1(3) t'(3)] val Some kv by (intro exI [of _ t']) (simp add: map_filter_simps)
  qed
qed

section \<open>Sizes\<close>

lemma bit_length_0 [simp]: "bit_length 0 = 0"
  by (simp add: bit_length.simps)

lemma bit_length_shift: "2 ^ k \<le> n \<Longrightarrow> bit_length n = k + bit_length (n div 2 ^ k)"
proof (induction k arbitrary: n)
  case (Suc k)
  then have "0 < n" using less_le_trans [of 0 "2 ^ Suc k" n] by simp
  then have "bit_length n = Suc (bit_length (n div 2))" by (simp add: bit_length.simps [of n])
  moreover have "2 ^ k \<le> n div 2" using Suc.prems by simp
  from Suc.IH [OF this] have "bit_length (n div 2) = k + bit_length (n div 2 div 2 ^ k)" .
  moreover have "n div 2 div 2 ^ k = n div 2 ^ Suc k" by (simp add: div_mult2_eq)
  ultimately show ?case by simp
qed simp

lemma bit_length_le_iff: "bit_length n \<le> k \<longleftrightarrow> n < 2 ^ k"
proof
  assume "bit_length n \<le> k"
  have "n < 2 ^ bit_length n" using bit_length_bounds [of n] by (cases "n = 0") auto
  also have "\<dots> \<le> 2 ^ k" using \<open>bit_length n \<le> k\<close> by (rule power_increasing) simp
  finally show "n < 2 ^ k" .
qed (rule bit_length_le)

lemma bit_length_Suc: "2 ^ k \<le> n \<Longrightarrow> n < 2 ^ Suc k \<Longrightarrow> bit_length n = Suc k"
  using bit_length_le_iff [of n k] bit_length_le_iff [of n "Suc k"] by linarith

lemma log_2_table:
  assumes "i < 256"
  shows "log_2 ! i = int (bit_length i)"
proof -
  consider "i = 0" | "i = 1" | "2 \<le> i" "i < 4" | "4 \<le> i" "i < 8" | "8 \<le> i" "i < 16" | "16 \<le> i" "i < 32"
    | "32 \<le> i" "i < 64" | "64 \<le> i" "i < 128" | "128 \<le> i" "i < 256" using assms by linarith
  then show ?thesis
    using bit_length_Suc [of 0 i] bit_length_Suc [of 1 i] bit_length_Suc [of 2 i] bit_length_Suc [of 3 i] bit_length_Suc [of 4 i]
      bit_length_Suc [of 5 i] bit_length_Suc [of 6 i] bit_length_Suc [of 7 i]
    by cases (simp_all add: log_2_def nth_append nth_Cons', auto)
qed

lemma luaO_log2_loop_eq: "luaO_log2_loop l x = l + int (bit_length (unat x))"
proof (induction l x rule: luaO_log2_loop.induct)
  case (1 l x)
  show ?case
  proof (cases "x \<ge> 256")
    case True
    then have "2 ^ 8 \<le> unat x" by (simp add: word_le_nat_alt)
    from bit_length_shift [OF this] have "bit_length (unat x) = 8 + bit_length (unat (drop_bit 8 x))"
      by (simp add: unat_drop_bit_eq drop_bit_eq_div unat_div_distrib)
    with True "1.IH" [OF True] show ?thesis by (subst luaO_log2_loop.simps) simp
  next
    case False
    then have "unat x < 256" by (simp add: word_less_nat_alt not_le)
    then have "log_2 ! unat x = int (bit_length (unat x))" by (rule log_2_table)
    with False show ?thesis by (subst luaO_log2_loop.simps) simp
  qed
qed

lemma ceillog2_eq:
  assumes "1 \<le> k" "k \<le> 2 ^ 32"
  shows "ceillog2 k = int (bit_length (nat (k - 1)))"
proof -
  have "unat (word_of_int (k - 1) :: u32) = nat ((k - 1) mod 2 ^ 32)" unfolding unat_eq_nat_uint uint_word_of_int by simp
  also have "(k - 1) mod 2 ^ 32 = k - 1" using assms by simp
  finally show ?thesis by (simp add: ceillog2_def luaO_log2_def luaO_log2_loop_eq)
qed

lemma ceillog2_le:
  assumes "1 \<le> k" "k \<le> 2 ^ 32"
  shows "ceillog2 k \<le> int i \<longleftrightarrow> k \<le> 2 ^ i"
proof -
  have "ceillog2 k \<le> int i \<longleftrightarrow> nat (k - 1) < 2 ^ i" by (simp add: ceillog2_eq [OF assms] bit_length_le_iff)
  also have "\<dots> \<longleftrightarrow> k - 1 < 2 ^ i" using assms(1) by (simp add: nat_less_iff)
  finally show ?thesis by auto
qed

lemma ceillog2_nonneg: "1 \<le> k \<Longrightarrow> k \<le> 2 ^ 32 \<Longrightarrow> 0 \<le> ceillog2 k"
  by (simp add: ceillog2_eq)

text \<open>A new node vector.\<close>

abbreviation free_node :: "'v LuaNode" where
  "free_node \<equiv> \<lparr>gval = None, gkey = KeyNil, gnext = 0\<rparr>"

lemma hash_inv_free: "hash_inv ls (replicate (2 ^ ls) free_node)"
proof -
  let ?ns = "replicate (2 ^ ls) free_node :: 'a LuaNode list"
  have b: "behind ?ns i = None" if "i < 2 ^ ls" for i using that by (simp add: behind_def)
  have p: "\<exists>ps. path (behind ?ns) (Some i) ps None" if "i < 2 ^ ls" for i using b [OF that] by (intro exI [of _ "[i]"]) simp
  have "in_chains ?ns" unfolding in_chains_def using b p by simp
  moreover have "free_nodes ?ns" using b by (simp add: free_nodes_def)
  moreover have "node_keys ?ns" "chained_keys ls ?ns" "main_positions ls ?ns"
    by (auto simp: node_keys_def chained_keys_def main_positions_def live_key_def)
  ultimately show ?thesis by (simp add: hash_inv_def)
qed

lemma hval_free: "hval (replicate n free_node) k = None"
  by (auto simp: hval_def held_def find_Some_iff split: option.splits)

lemma setnodevector_spec:
  assumes "0 \<le> n" "n \<le> 2 ^ 26"
  shows "\<exists>N c. setnodevector t n = Inr (t\<lparr>t_node := replicate N free_node, t_lsizenode := c, t_nodemask8 := word_of_int (2 ^ c - 1),
      t_lastfree := int N, t_nodeid := t_nodeid t + 1\<rparr>) \<and> n \<le> int N \<and> c \<le> 26 \<and> (if N = 0 then c = 0 \<and> n = 0 else N = 2 ^ c)"
proof (cases "n = 0")
  case True
  then show ?thesis by (intro exI [of _ 0]) (simp add: setnodevector_def)
next
  case False
  then have n: "1 \<le> n" "n \<le> 2 ^ 32" using assms by auto
  define c where "c = nat (ceillog2 n)"
  have c: "ceillog2 n = int c" using ceillog2_nonneg [OF n] by (simp add: c_def)
  have "c \<le> 26" using ceillog2_le [OF n, of 26] assms(2) c by simp
  moreover have "n \<le> 2 ^ c" using ceillog2_le [OF n, of c] c by simp
  ultimately show ?thesis using False c
    by (intro exI [of _ "2 ^ c"] exI [of _ c]) (simp add: setnodevector_def twoto_def MAXBITS_def)
qed

section \<open>Resizing\<close>

definition tinv :: "'v LuaTable \<Rightarrow> bool" where
  "tinv t \<longleftrightarrow> base_inv t \<and> length (t_array t) = nat (t_sizearray t) \<and> (t_lastfree t < 0 \<longrightarrow> - t_lastfree t \<le> t_sizearray t) \<and>
     t_nodemask8 t = word_of_int (2 ^ t_lsizenode t - 1)"

lemma tinvD:
  assumes "tinv t"
  shows "base_inv t" "sizes_ok t" "node_inv t" "0 \<le> t_sizearray t" "t_sizearray t \<le> 2 ^ 26" "length (t_array t) = nat (t_sizearray t)"
  using assms by (auto simp: tinv_def base_inv_def hash_ok_def sizes_ok_def)

text \<open>The elements of the array part from index \<open>m\<close> on and those of the hash part, in the order of \<^verbatim>\<open>resize\<close>.\<close>

definition array_elem :: "'v LuaTable \<Rightarrow> int \<Rightarrow> (TKey \<times> 'v) option" where
  "array_elem t i = map_option (\<lambda>v. (num (i + 1), v)) (t_array t ! nat i)"

definition node_elem :: "'v LuaNode list \<Rightarrow> nat \<Rightarrow> (TKey \<times> 'v) option" where
  "node_elem ns i = (let n = if ns = [] then dummynode else ns ! i in map_option (\<lambda>v. (gkey n, v)) (gval n))"

definition array_elems :: "'v LuaTable \<Rightarrow> int \<Rightarrow> (TKey \<times> 'v) list" where
  "array_elems t m = List.map_filter (array_elem t) [m..t_sizearray t - 1]"

definition node_elems :: "'v LuaTable \<Rightarrow> (TKey \<times> 'v) list" where
  "node_elems t = List.map_filter (node_elem (t_node t)) (rev [0..<twoto (t_lsizenode t)])"

definition index_le :: "int \<Rightarrow> TKey \<Rightarrow> bool" where
  "index_le m k \<longleftrightarrow> (case int_key k of Some j \<Rightarrow> 1 \<le> j \<and> j \<le> m | None \<Rightarrow> False)"

lemma in_range_index: "in_range t k \<longleftrightarrow> index_le (t_sizearray t) k"
  by (simp add: in_range_def index_le_def)

text \<open>The number of elements that need a node when the array part has \<open>m\<close> places.\<close>

definition outside :: "'v LuaTable \<Rightarrow> int \<Rightarrow> nat" where
  "outside t m = length (array_elems t m) + length (filter (\<lambda>e. \<not> index_le m (fst e)) (node_elems t))"

definition distinct_keys :: "(TKey \<times> 'v) list \<Rightarrow> bool" where
  "distinct_keys es \<longleftrightarrow> sorted_wrt (\<lambda>a b. \<not> luaO_rawequalKey (fst a) (fst b)) es"

lemma in_map_filter: "y \<in> set (List.map_filter f xs) \<longleftrightarrow> (\<exists>x \<in> set xs. f x = Some y)"
  by (force simp: List.map_filter_def)

lemma sorted_wrt_map_filter:
  assumes "\<And>x x' y y'. x \<in> set xs \<Longrightarrow> x' \<in> set xs \<Longrightarrow> R x x' \<Longrightarrow> f x = Some y \<Longrightarrow> f x' = Some y' \<Longrightarrow> P y y'" "sorted_wrt R xs"
  shows "sorted_wrt P (List.map_filter f xs)"
  using assms
proof (induction xs)
  case (Cons a xs)
  have "sorted_wrt P (List.map_filter f xs)" using Cons.prems by (intro Cons.IH) auto
  moreover have "P y y'" if y: "f a = Some y" "y' \<in> set (List.map_filter f xs)" for y y'
  proof -
    obtain x where x: "x \<in> set xs" "f x = Some y'" using y(2) by (auto simp: in_map_filter)
    show ?thesis by (rule Cons.prems(1) [OF _ _ _ y(1) x(2)]) (use Cons.prems(2) x(1) in auto)
  qed
  ultimately show ?case by (auto simp: map_filter_simps split: option.splits)
qed (simp add: map_filter_simps)

lemma find_elem:
  assumes "distinct_keys es" "(k', v) \<in> set es" "luaO_rawequalKey k' k"
  shows "List.find (\<lambda>e. luaO_rawequalKey (fst e) k) es = Some (k', v)"
  using assms
proof (induction es)
  case (Cons e es)
  show ?case
  proof (cases "e = (k', v)")
    case False
    then have "(k', v) \<in> set es" using Cons.prems(2) by simp
    moreover from this have "\<not> luaO_rawequalKey (fst e) k'" using Cons.prems(1) by (auto simp: distinct_keys_def)
    then have "\<not> luaO_rawequalKey (fst e) k" using Cons.prems(3) rawequal_sym rawequal_trans by blast
    ultimately show ?thesis using Cons by (simp add: distinct_keys_def)
  qed (use Cons.prems(3) in simp)
qed simp

lemma find_no_elem: "\<forall>e \<in> set es. \<not> luaO_rawequalKey (fst e) k \<Longrightarrow> List.find (\<lambda>e. luaO_rawequalKey (fst e) k) es = None"
  by (auto simp: find_None_iff)

lemma length_node:
  assumes "node_inv t"
  shows "t_node t \<noteq> [] \<Longrightarrow> twoto (t_lsizenode t) = length (t_node t)" "t_node t = [] \<Longrightarrow> t_lsizenode t = 0"
  using assms hash_invD(1) [of "t_lsizenode t" "t_node t"] by (auto simp: node_inv_def twoto_def)

lemma in_node_elems:
  assumes "node_inv t"
  shows "(k, v) \<in> set (node_elems t) \<longleftrightarrow> (\<exists>i < length (t_node t). gkey (t_node t ! i) = k \<and> gval (t_node t ! i) = Some v)"
proof (cases "t_node t = []")
  case True
  then show ?thesis by (auto simp: node_elems_def in_map_filter node_elem_def dummynode_def)
next
  case False
  show ?thesis unfolding node_elems_def in_map_filter using False by (force simp: length_node(1) [OF assms False] node_elem_def Let_def)
qed

lemma distinct_node_elems:
  assumes "node_inv t"
  shows "distinct_keys (node_elems t)"
proof (cases "t_node t = []")
  case True
  then show ?thesis using length_node(2) [OF assms True]
    by (simp add: distinct_keys_def node_elems_def twoto_def map_filter_simps node_elem_def dummynode_def)
next
  case False
  then have "hash_inv (t_lsizenode t) (t_node t)" using assms by (simp add: node_inv_def)
  note keys = hash_invD(4) [OF this]
  show ?thesis
    unfolding distinct_keys_def node_elems_def
  proof (rule sorted_wrt_map_filter [where R = "\<lambda>i j. i \<noteq> j"])
    show "sorted_wrt (\<noteq>) (rev [0..<twoto (t_lsizenode t)])" by (auto simp: sorted_wrt_rev intro: sorted_wrt_mono_rel [OF _ sorted_wrt_upt])
    fix i j e e' assume "i \<in> set (rev [0..<twoto (t_lsizenode t)])" "j \<in> set (rev [0..<twoto (t_lsizenode t)])" "i \<noteq> j"
      "node_elem (t_node t) i = Some e" "node_elem (t_node t) j = Some e'"
    with keys length_node(1) [OF assms False] False show "\<not> luaO_rawequalKey (fst e) (fst e')"
      by (auto simp: node_elem_def node_keys_def Let_def)
  qed
qed

lemma in_array_elems:
  assumes "0 \<le> m"
  shows "(k, v) \<in> set (array_elems t m) \<longleftrightarrow> (\<exists>j. m < j \<and> j \<le> t_sizearray t \<and> k = num j \<and> t_array t ! nat (j - 1) = Some v)"
proof
  assume "(k, v) \<in> set (array_elems t m)"
  then obtain i where "m \<le> i" "i \<le> t_sizearray t - 1" "k = num (i + 1)" "t_array t ! nat i = Some v"
    by (auto simp: array_elems_def in_map_filter array_elem_def)
  then show "\<exists>j. m < j \<and> j \<le> t_sizearray t \<and> k = num j \<and> t_array t ! nat (j - 1) = Some v" by (intro exI [of _ "i + 1"]) simp
next
  assume "\<exists>j. m < j \<and> j \<le> t_sizearray t \<and> k = num j \<and> t_array t ! nat (j - 1) = Some v"
  then obtain j where "m < j" "j \<le> t_sizearray t" "k = num j" "t_array t ! nat (j - 1) = Some v" by blast
  then show "(k, v) \<in> set (array_elems t m)"
    by (auto simp: array_elems_def in_map_filter array_elem_def intro!: bexI [of _ "j - 1"])
qed

lemma distinct_array_elems:
  assumes "0 \<le> m" "t_sizearray t \<le> 2 ^ 26"
  shows "distinct_keys (array_elems t m)"
  unfolding distinct_keys_def array_elems_def
proof (rule sorted_wrt_map_filter [where R = "(<)"])
  show "sorted_wrt (<) [m..t_sizearray t - 1]" by simp
  fix i j e e' assume ij: "i \<in> set [m..t_sizearray t - 1]" "j \<in> set [m..t_sizearray t - 1]" "i < j"
    and e: "array_elem t i = Some e" "array_elem t j = Some e'"
  then have "in_int32 (i + 1)" "in_int32 (j + 1)" using assms by (auto simp: in_int32_def)
  then have "int_key (num (i + 1)) = Some (i + 1)" "int_key (num (j + 1)) = Some (j + 1)" by (auto intro: int_key_num)
  with ij(3) have "\<not> luaO_rawequalKey (num (i + 1)) (num (j + 1))" using int_key_cong by fastforce
  with e show "\<not> luaO_rawequalKey (fst e) (fst e')" by (auto simp: array_elem_def)
qed

lemma hval_elems:
  assumes "node_inv t" "live_key k"
  shows "hval (t_node t) k = Some v \<longleftrightarrow> (\<exists>k'. (k', v) \<in> set (node_elems t) \<and> luaO_rawequalKey k' k)"
proof
  assume "hval (t_node t) k = Some v"
  then obtain i where "held (t_node t) k = Some i" "gval (t_node t ! i) = Some v" by (auto simp: hval_def split: option.splits)
  then have "i < length (t_node t)" "luaO_rawequalKey (gkey (t_node t ! i)) k" by (auto simp: held_def find_Some_iff)
  with \<open>gval (t_node t ! i) = Some v\<close> show "\<exists>k'. (k', v) \<in> set (node_elems t) \<and> luaO_rawequalKey k' k"
    using in_node_elems [OF assms(1), of "gkey (t_node t ! i)" v] by blast
next
  assume "\<exists>k'. (k', v) \<in> set (node_elems t) \<and> luaO_rawequalKey k' k"
  then obtain i where i: "i < length (t_node t)" "luaO_rawequalKey (gkey (t_node t ! i)) k" "gval (t_node t ! i) = Some v"
    by (auto simp: in_node_elems [OF assms(1)])
  then have "hash_inv (t_lsizenode t) (t_node t)" using assms(1) by (auto simp: node_inv_def split: if_splits)
  from hval_holder [OF hash_invD(4) [OF this] assms(2), of i] i show "hval (t_node t) k = Some v" by (simp add: holder_def)
qed

lemma node_elems_live:
  assumes "node_inv t" "(k, v) \<in> set (node_elems t)"
  shows "live_key k"
proof -
  from assms obtain i where i: "i < length (t_node t)" "gkey (t_node t ! i) = k" "gval (t_node t ! i) = Some v"
    by (auto simp: in_node_elems [OF assms(1)])
  then have "hash_inv (t_lsizenode t) (t_node t)" using assms(1) by (auto simp: node_inv_def split: if_splits)
  from hash_invD(4) [OF this] i show ?thesis by (auto simp: node_keys_def)
qed

lemma node_elems_range: "base_inv t \<Longrightarrow> (k, v) \<in> set (node_elems t) \<Longrightarrow> int_key k = Some j \<Longrightarrow> \<not> (1 \<le> j \<and> j \<le> t_sizearray t + 1)"
  using base_inv_node [of t] by (auto simp: in_node_elems base_inv_def)

lemma length_map_filter: "length (List.map_filter f xs) = length (filter (\<lambda>x. f x \<noteq> None) xs)"
  by (simp add: List.map_filter_def)

lemma size_ents_elems:
  assumes "node_inv t"
  shows "size (ents (t_node t)) = length (node_elems t)"
proof (cases "t_node t = []")
  case True
  then show ?thesis using length_node(2) [OF assms True]
    by (simp add: ents_def node_elems_def twoto_def map_filter_simps node_elem_def dummynode_def)
next
  case False
  have "length (node_elems t) = length (filter (\<lambda>i. gval (t_node t ! i) \<noteq> None) [0..<length (t_node t)])"
    using False length_node(1) [OF assms False] by (simp add: node_elems_def length_map_filter node_elem_def Let_def rev_filter [symmetric] del: not_None_eq)
  also have "\<dots> = size (filter_mset (\<lambda>i. gval (t_node t ! i) \<noteq> None) (mset [0..<length (t_node t)]))"
    by (simp only: mset_filter [symmetric] size_mset)
  also have "mset [0..<length (t_node t)] = mset_set {..<length (t_node t)}" by (simp add: mset_upt lessThan_atLeast0)
  finally show ?thesis by (simp only: ents_nth size_image_mset)
qed

lemma length_array_elems:
  assumes "0 \<le> m" "m \<le> t_sizearray t" "length (t_array t) = nat (t_sizearray t)"
  shows "length (filter (\<lambda>v. v \<noteq> None) (t_array t)) = length (filter (\<lambda>v. v \<noteq> None) (take (nat m) (t_array t))) + length (array_elems t m)"
proof -
  have d: "drop (nat m) (t_array t) = map (\<lambda>i. t_array t ! nat i) [m..t_sizearray t - 1]"
    using assms by (intro nth_equalityI) (simp_all add: nat_add_distrib nth_upto nat_diff_distrib)
  have "length (array_elems t m) = length (filter (\<lambda>v. v \<noteq> None) (drop (nat m) (t_array t)))"
    by (simp add: array_elems_def length_map_filter array_elem_def d filter_map comp_def)
  moreover have "filter (\<lambda>v. v \<noteq> None) (t_array t) = filter (\<lambda>v. v \<noteq> None) (take (nat m) (t_array t)) @ filter (\<lambda>v. v \<noteq> None) (drop (nat m) (t_array t))"
    by (metis append_take_drop_id filter_append)
  ultimately show ?thesis by simp
qed

end
