(* ===== verification/TableRehash.thy ===== *)
theory TableRehash
  imports TableMap
begin

text \<open>
  The sizes of a table. \<^verbatim>\<open>resize\<close> moves every element to its new place when the node vector has room for the
  elements outside the array part; \<^verbatim>\<open>rehash\<close> counts the integer keys exactly, chooses a size of the array part that is more than
  half used and extends it to a border, and the node vector it asks for has room for the other elements and the new key.
\<close>

section \<open>Resizing\<close>

text \<open>A table with new, empty nodes: \<open>N\<close> of them, \<open>2 ^ c\<close> if there are any.\<close>

definition fresh :: "'v LuaTable \<Rightarrow> 'v option list \<Rightarrow> int \<Rightarrow> nat \<Rightarrow> nat \<Rightarrow> nat \<Rightarrow> 'v LuaTable" where
  "fresh t a m N c aid = t\<lparr>t_array := a, t_sizearray := m, t_node := replicate N free_node, t_lsizenode := c,
     t_nodemask8 := word_of_int (2 ^ c - 1), t_lastfree := int N, t_arrayid := aid, t_nodeid := t_nodeid t + 1\<rparr>"

definition node_size :: "nat \<Rightarrow> nat \<Rightarrow> bool" where
  "node_size N c \<longleftrightarrow> c \<le> 26 \<and> (if N = 0 then c = 0 else N = 2 ^ c)"

lemma index_le_range [simp]: "in_range (fresh t a m N c aid) k = index_le m k"
  by (simp add: in_range_index fresh_def)

lemma rawequal_nil: "live_key k \<Longrightarrow> \<not> luaO_rawequalKey KeyNil k"
  by (cases k) (simp_all add: live_key_def luaO_rawequalKey_def)

lemma fresh_table:
  assumes "0 \<le> m" "m \<le> 2 ^ 26" "m \<le> int (length a)" "node_size N c"
  shows "base_inv (fresh t a m N c aid)" "used (fresh t a m N c aid) = 0"
    "entries (fresh t a m N c aid) = length (filter (\<lambda>v. v \<noteq> None) (take (nat m) a))"
    "live_key k \<Longrightarrow> tval (fresh t a m N c aid) k = (if index_le m k then a ! key_index k else None)"
    "live_key k \<Longrightarrow> stored (fresh t a m N c aid) k \<longleftrightarrow> index_le m k"
proof -
  let ?s = "fresh t a m N c aid"
  have nodes: "node_inv ?s" using assms(4) hash_inv_free [of c] by (auto simp: node_inv_def fresh_def node_size_def)
  have ik: "int_key KeyNil = None" by (simp add: int_key_def)
  show "base_inv ?s" using nodes assms by (simp add: base_inv_def hash_ok_def sizes_ok_def fresh_def node_size_def ik)
  show "used ?s = 0" by (simp add: used_def fresh_def occupied_def)
  show "entries ?s = length (filter (\<lambda>v. v \<noteq> None) (take (nat m) a))"
    by (simp add: entries_def fresh_def ents_def)
  show "live_key k \<Longrightarrow> tval ?s k = (if index_le m k then a ! key_index k else None)"
    by (simp add: tval_def hval_free) (simp add: fresh_def hval_free)
  show "live_key k \<Longrightarrow> stored ?s k \<longleftrightarrow> index_le m k"
    by (simp add: stored_def holder_def) (auto simp: fresh_def rawequal_nil)
qed

lemma find_array_elems:
  assumes "tinv t" "0 \<le> m" "live_key k"
  shows "(case List.find (\<lambda>e. luaO_rawequalKey (fst e) k) (array_elems t m) of Some e \<Rightarrow> Some (snd e) | None \<Rightarrow> x) =
    (if in_range t k \<and> \<not> index_le m k \<and> tval t k \<noteq> None then tval t k else x)"
proof (cases "in_range t k \<and> \<not> index_le m k \<and> tval t k \<noteq> None")
  case True
  then obtain j v where j: "int_key k = Some j" "m < j" "j \<le> t_sizearray t" and v: "tval t k = Some v"
    using assms(2) by (auto simp: in_range_index index_le_def split: option.splits)
  have eq: "luaO_rawequalKey (num j) k" using j(1) by (simp add: int_key_iff)
  have "t_array t ! nat (j - 1) = Some v" using v True j by (simp add: tval_def key_index_def)
  then have "(num j, v) \<in> set (array_elems t m)" using j assms(2) by (auto simp: in_array_elems)
  from find_elem [OF distinct_array_elems [OF assms(2) tinvD(5) [OF assms(1)]] this eq] True v show ?thesis by simp
next
  case False
  have "\<not> luaO_rawequalKey (fst e) k" if "e \<in> set (array_elems t m)" for e
  proof
    assume eq: "luaO_rawequalKey (fst e) k"
    obtain k' v where e: "e = (k', v)" by fastforce
    with that assms(2) obtain j where j: "m < j" "j \<le> t_sizearray t" "k' = num j" "t_array t ! nat (j - 1) = Some v"
      by (auto simp: in_array_elems)
    then have i: "in_int32 j" using assms(2) tinvD(5) [OF assms(1)] by (auto simp: in_int32_def)
    have "int_key k = Some j" using eq e j(3) int_key_num [OF i] int_key_cong [of "num j" k] by simp
    with j assms(2) have "in_range t k" "\<not> index_le m k" "key_index k = nat (j - 1)" by (auto simp: in_range_index index_le_def key_index_def)
    with j False show False by (simp add: tval_def)
  qed
  from find_no_elem [OF ballI [OF this]] False show ?thesis by auto
qed

lemma find_node_elems:
  assumes "node_inv t" "live_key k"
  shows "(case List.find (\<lambda>e. luaO_rawequalKey (fst e) k) (node_elems t) of Some e \<Rightarrow> Some (snd e) | None \<Rightarrow> x) =
    (if hval (t_node t) k \<noteq> None then hval (t_node t) k else x)"
proof (cases "hval (t_node t) k")
  case None
  have "\<not> luaO_rawequalKey (fst e) k" if "e \<in> set (node_elems t)" for e
    using hval_elems [OF assms, of "snd e"] that None by (metis option.distinct(1) prod.collapse)
  from find_no_elem [OF ballI [OF this]] None show ?thesis by auto
next
  case (Some v)
  then obtain k' where "(k', v) \<in> set (node_elems t)" "luaO_rawequalKey k' k" using hval_elems [OF assms] by blast
  from find_elem [OF distinct_node_elems [OF assms(1)] this] Some show ?thesis by simp
qed

lemma array_get_nth: "0 \<le> i \<Longrightarrow> nat i < length (t_array t) \<Longrightarrow> array_get t i = Inr (t_array t ! nat i)"
  by (simp add: array_get_def)

lemma in_array_elems_live: "0 \<le> m \<Longrightarrow> t_sizearray t \<le> 2 ^ 26 \<Longrightarrow> e \<in> set (array_elems t m) \<Longrightarrow>
  \<exists>j v. e = (num j, v) \<and> m < j \<and> j \<le> t_sizearray t \<and> in_int32 j \<and> t_array t ! nat (j - 1) = Some v"
  by (cases e) (auto simp: in_array_elems in_int32_def)

text \<open>Moving the elements behind a smaller array part into the new nodes.\<close>

lemma migrate_arrays:
  assumes c: "casts c2i" and inv: "tinv t" and m: "0 \<le> m" "m < t_sizearray t" and ns: "node_size N c"
    and absent: "tval t (num (m + 1)) = None" and room: "length (array_elems t m) \<le> N"
  defines "s \<equiv> fresh t (t_array t) m N c (t_arrayid t)"
  shows "\<exists>t1. foldE (migrate_array (newkey (Suc d) c2i)) s [m..t_sizearray t - 1] = Inr t1 \<and> base_inv t1 \<and> same_frame s t1 \<and>
    beyond t1 = beyond s \<and> used t1 \<le> length (array_elems t m) \<and>
    entries t1 = length (filter (\<lambda>v. v \<noteq> None) (t_array t)) \<and>
    t_lastfree t1 \<le> int N \<and> 0 \<le> t_lastfree t1 \<and>
    (\<forall>k. live_key k \<longrightarrow> tval t1 k = (if in_range t k then tval t k else None)) \<and>
    (\<forall>k. live_key k \<longrightarrow> stored t1 k \<longrightarrow> index_le m k \<or> in_range t k \<and> tval t k \<noteq> None)"
proof -
  note sz = tinvD(4,5,6) [OF inv]
  have m': "m \<le> 2 ^ 26" "m \<le> int (length (t_array t))" using m sz by auto
  note fr = fresh_table [where t = t and aid = "t_arrayid t", OF m(1) m' ns, folded s_def]
  have sizes: "t_sizearray s = m" "t_array s = t_array t" "length (t_node s) = N" "t_lastfree s = int N" by (simp_all add: s_def fresh_def)
  have elem: "\<exists>j v. e = (num j, v) \<and> m < j \<and> j \<le> t_sizearray t \<and> in_int32 j \<and> t_array t ! nat (j - 1) = Some v" if "e \<in> set (array_elems t m)" for e
    using in_array_elems_live [OF m(1) sz(2) that] .
  have out: "\<not> index_le m (fst e)" "live_key (fst e)" "\<not> boundary_key s (fst e)" if e: "e \<in> set (array_elems t m)" for e
  proof -
    from elem [OF e] obtain j v where j: "e = (num j, v)" "m < j" "j \<le> t_sizearray t" "in_int32 j" "t_array t ! nat (j - 1) = Some v" by blast
    show "\<not> index_le m (fst e)" "live_key (fst e)" using j live_num by (auto simp: index_le_def)
    have "tval t (num j) = Some v" using j m in_range_num [of j t] key_index_num [of j] by (simp add: tval_def)
    with absent j show "\<not> boundary_key s (fst e)" by (auto simp: boundary_key_def sizes)
  qed
  have all: "filter (\<lambda>kv. \<not> in_range s (fst kv)) (array_elems t m) = array_elems t m" using out(1) by (auto simp: s_def filter_id_conv)
  have "\<exists>t'. foldE (migrate_array (newkey (Suc d) c2i)) s [m..t_sizearray t - 1] = Inr t' \<and> base_inv t' \<and> same_frame s t' \<and> beyond t' = beyond s \<and>
    used t' \<le> used s + length (filter (\<lambda>kv. \<not> in_range s (fst kv)) (array_elems t m)) \<and>
    entries t' = entries s + length (array_elems t m) \<and> t_lastfree t' \<le> t_lastfree s \<and> min 0 (t_lastfree s) \<le> t_lastfree t' \<and>
    (\<forall>k'. live_key k' \<longrightarrow> tval t' k' = (case List.find (\<lambda>kv. luaO_rawequalKey (fst kv) k') (array_elems t m) of
      Some kv \<Rightarrow> Some (snd kv) | None \<Rightarrow> tval s k')) \<and>
    (\<forall>k'. stored t' k' \<longrightarrow> stored s k' \<or> (\<exists>kv \<in> set (array_elems t m). luaO_rawequalKey (fst kv) k'))"
    unfolding array_elems_def
  proof (rule fold_put [OF c fr(1)], fold array_elems_def distinct_keys_def)
    fix t' i assume i: "i \<in> set [m..t_sizearray t - 1]" and t': "base_inv t'" "same_frame s t'" "beyond t' = beyond s"
    have il: "0 \<le> i" "m \<le> i" "i < t_sizearray t" using i m by auto
    have len: "length (t_array t') = nat (t_sizearray t)" using same_frameD(2) [OF t'(2)] sizes sz by simp
    have "nat m + (nat i - nat m) = nat i" using il m by simp
    moreover have "drop (nat m) (t_array t') ! (nat i - nat m) = drop (nat m) (t_array t) ! (nat i - nat m)"
      using t'(3) same_frameD(1) [OF t'(2)] by (simp only: beyond_def sizes)
    ultimately have nth: "t_array t' ! nat i = t_array t ! nat i" using il len sz by simp
    have r: "in_range t' k = index_le m k" for k using same_frameD(11) [OF t'(2)] by (simp add: s_def)
    have i32: "in_int32 (i + 1)" using il sz by (simp add: in_int32_def)
    have "\<not> in_range t' (num (i + 1))" unfolding r using int_key_num [OF i32] il by (simp add: index_le_def)
    then show "migrate_array (newkey (Suc d) c2i) t' i =
      (case array_elem t i of None \<Rightarrow> Inr t' | Some kv \<Rightarrow> put c2i (newkey (Suc d) c2i) t' kv)"
      using il len array_get_nth [of i t'] nth
      by (auto simp: migrate_array_def array_elem_def put_def arrayornewkey_eq [OF c base_inv_sizes [OF t'(1)]] simp del: newkey.simps
          split: option.splits)
  next
    show "distinct_keys (array_elems t m)" by (rule distinct_array_elems [OF m(1) sz(2)])
    show "used s + length (filter (\<lambda>kv. \<not> in_range s (fst kv)) (array_elems t m)) \<le> length (t_node s)"
      using room by (simp add: fr(2) all sizes)
    show "\<forall>kv \<in> set (array_elems t m). putable s (fst kv)" using out fr(4,5) by (simp add: putable_def)
  qed
  then obtain t' where t': "foldE (migrate_array (newkey (Suc d) c2i)) s [m..t_sizearray t - 1] = Inr t'" "base_inv t'" "same_frame s t'" "beyond t' = beyond s"
    "used t' \<le> length (array_elems t m)" "entries t' = entries s + length (array_elems t m)" "t_lastfree t' \<le> int N" "0 \<le> t_lastfree t'"
    and v: "\<And>k. live_key k \<Longrightarrow> tval t' k = (case List.find (\<lambda>kv. luaO_rawequalKey (fst kv) k) (array_elems t m) of
      Some kv \<Rightarrow> Some (snd kv) | None \<Rightarrow> tval s k)"
    and st: "\<And>k. stored t' k \<Longrightarrow> stored s k \<or> (\<exists>kv \<in> set (array_elems t m). luaO_rawequalKey (fst kv) k)"
    unfolding fr(2) all sizes by auto
  have "entries t' = length (filter (\<lambda>v. v \<noteq> None) (t_array t))"
    unfolding t'(6) fr(3) using length_array_elems [of m t] m sz by simp
  moreover have "tval t' k = (if in_range t k then tval t k else None)" if k: "live_key k" for k
  proof -
    have "index_le m k \<Longrightarrow> in_range t k" using m by (auto simp: in_range_index index_le_def split: option.splits)
    then show ?thesis
      unfolding v [OF k] find_array_elems [OF inv m(1) k] fr(4) [OF k] by (auto simp: tval_def)
  qed
  moreover have "index_le m k \<or> in_range t k \<and> tval t k \<noteq> None" if k: "live_key k" "stored t' k" for k
  proof -
    { fix e assume "e \<in> set (array_elems t m)" and eq: "luaO_rawequalKey (fst e) k"
      with elem [of e] obtain j v where j: "e = (num j, v)" "m < j" "j \<le> t_sizearray t" "in_int32 j" "t_array t ! nat (j - 1) = Some v" by blast
      then have "in_range t (fst e)" "tval t (fst e) = Some v" using m(1) by (simp_all add: in_range_num tval_def key_index_num)
      then have "in_range t k \<and> tval t k \<noteq> None" using in_range_cong [OF eq, of t] tval_cong [OF eq, of t] by simp }
    with st [OF k(2)] fr(5) [OF k(1)] show ?thesis by blast
  qed
  ultimately show ?thesis using t' by blast
qed

lemma not_in_range_node: "tinv t \<Longrightarrow> e \<in> set (node_elems t) \<Longrightarrow> live_key (fst e) \<and> \<not> in_range t (fst e) \<and> tval t (fst e) = Some (snd e)"
  using node_elems_live [of t "fst e" "snd e"] node_elems_range [of t "fst e" "snd e"] tinvD(1,3) [of t]
    hval_elems [of t "fst e" "snd e"] rawequal_refl [of "fst e"]
  by (fastforce simp: tval_def in_range_def split: option.splits)

text \<open>Moving the elements of the old nodes.\<close>

lemma migrate_nodes:
  assumes c: "casts c2i" and inv: "tinv t" and s: "base_inv s"
    and val: "\<And>k. live_key k \<Longrightarrow> tval s k = (if in_range t k then tval t k else None)"
    and st: "\<And>k. live_key k \<Longrightarrow> stored s k \<Longrightarrow> in_range s k \<or> in_range t k \<and> tval t k \<noteq> None"
    and absent: "tval t (num (t_sizearray s + 1)) = None" and size: "t_sizearray s \<le> 2 ^ 26"
    and room: "used s + length (filter (\<lambda>e. \<not> in_range s (fst e)) (node_elems t)) \<le> length (t_node s)"
  shows "\<exists>t'. foldE (migrate_node c2i (newkey (Suc d) c2i) (t_node t)) s (rev [0..<twoto (t_lsizenode t)]) = Inr t' \<and>
    base_inv t' \<and> same_frame s t' \<and> used t' \<le> used s + length (filter (\<lambda>e. \<not> in_range s (fst e)) (node_elems t)) \<and>
    entries t' = entries s + length (node_elems t) \<and> t_lastfree t' \<le> t_lastfree s \<and> min 0 (t_lastfree s) \<le> t_lastfree t' \<and>
    (\<forall>k. live_key k \<longrightarrow> tval t' k = tval t k) \<and>
    (\<forall>k. live_key k \<longrightarrow> stored t' k \<longrightarrow> in_range s k \<or> tval t k \<noteq> None)"
proof -
  note elem = not_in_range_node [OF inv]
  have "\<exists>t'. foldE (migrate_node c2i (newkey (Suc d) c2i) (t_node t)) s (rev [0..<twoto (t_lsizenode t)]) = Inr t' \<and>
    base_inv t' \<and> same_frame s t' \<and> beyond t' = beyond s \<and>
    used t' \<le> used s + length (filter (\<lambda>e. \<not> in_range s (fst e)) (node_elems t)) \<and>
    entries t' = entries s + length (node_elems t) \<and> t_lastfree t' \<le> t_lastfree s \<and> min 0 (t_lastfree s) \<le> t_lastfree t' \<and>
    (\<forall>k'. live_key k' \<longrightarrow> tval t' k' = (case List.find (\<lambda>e. luaO_rawequalKey (fst e) k') (node_elems t) of
      Some e \<Rightarrow> Some (snd e) | None \<Rightarrow> tval s k')) \<and>
    (\<forall>k'. stored t' k' \<longrightarrow> stored s k' \<or> (\<exists>e \<in> set (node_elems t). luaO_rawequalKey (fst e) k'))"
    unfolding node_elems_def
  proof (rule fold_put [OF c s], fold node_elems_def distinct_keys_def)
    fix t' i assume i: "i \<in> set (rev [0..<twoto (t_lsizenode t)])"
    show "migrate_node c2i (newkey (Suc d) c2i) (t_node t) t' i =
      (case node_elem (t_node t) i of None \<Rightarrow> Inr t' | Some kv \<Rightarrow> put c2i (newkey (Suc d) c2i) t' kv)"
    proof (cases "t_node t = []")
      case True
      with i length_node(2) [OF tinvD(3) [OF inv]] show ?thesis
        by (simp add: migrate_node_def node_elem_def twoto_def dummynode_def)
    next
      case False
      with i length_node(1) [OF tinvD(3) [OF inv]] show ?thesis
        by (auto simp: migrate_node_def node_elem_def put_def Let_def simp del: newkey.simps split: option.splits)
    qed
  next
    show "distinct_keys (node_elems t)" by (rule distinct_node_elems [OF tinvD(3) [OF inv]])
    show "used s + length (filter (\<lambda>kv. \<not> in_range s (fst kv)) (node_elems t)) \<le> length (t_node s)" by (rule room)
    show "\<forall>kv \<in> set (node_elems t). putable s (fst kv)"
    proof
      fix e assume e: "e \<in> set (node_elems t)"
      have "\<not> boundary_key s (fst e)"
      proof
        assume "boundary_key s (fst e)"
        then have "luaO_rawequalKey (num (t_sizearray s + 1)) (fst e)" by (simp add: boundary_key_def int_key_iff)
        from tval_cong [OF this, of t] absent elem [OF e] show False by simp
      qed
      with elem [OF e] val [of "fst e"] st [of "fst e"] show "putable s (fst e)" by (auto simp: putable_def)
    qed
  qed
  then obtain t' where t': "foldE (migrate_node c2i (newkey (Suc d) c2i) (t_node t)) s (rev [0..<twoto (t_lsizenode t)]) = Inr t'"
    "base_inv t'" "same_frame s t'" "used t' \<le> used s + length (filter (\<lambda>e. \<not> in_range s (fst e)) (node_elems t))"
    "entries t' = entries s + length (node_elems t)" "t_lastfree t' \<le> t_lastfree s" "min 0 (t_lastfree s) \<le> t_lastfree t'"
    and v: "\<And>k'. live_key k' \<Longrightarrow> tval t' k' = (case List.find (\<lambda>e. luaO_rawequalKey (fst e) k') (node_elems t) of
      Some e \<Rightarrow> Some (snd e) | None \<Rightarrow> tval s k')"
    and st': "\<And>k'. stored t' k' \<Longrightarrow> stored s k' \<or> (\<exists>e \<in> set (node_elems t). luaO_rawequalKey (fst e) k')" by blast
  have "tval t' k = tval t k" if k: "live_key k" for k
  proof (cases "hval (t_node t) k")
    case None
    then show ?thesis unfolding v [OF k] find_node_elems [OF tinvD(3) [OF inv] k] val [OF k] by (simp add: tval_def)
  next
    case (Some x)
    then obtain k' where "(k', x) \<in> set (node_elems t)" and eq: "luaO_rawequalKey k' k" using hval_elems [OF tinvD(3) [OF inv] k] by blast
    with elem [of "(k', x)"] have "\<not> in_range t k" using in_range_cong [OF eq, of t] by simp
    with Some show ?thesis unfolding v [OF k] find_node_elems [OF tinvD(3) [OF inv] k] by (simp add: tval_def)
  qed
  moreover have "in_range s k \<or> tval t k \<noteq> None" if k: "live_key k" "stored t' k" for k
    using st' [OF k(2)]
  proof
    assume "\<exists>e \<in> set (node_elems t). luaO_rawequalKey (fst e) k"
    then obtain e where e: "e \<in> set (node_elems t)" and eq: "luaO_rawequalKey (fst e) k" by blast
    from elem [OF e] tval_cong [OF eq, of t] show ?thesis by simp
  qed (use st [OF k(1)] in blast)
  ultimately show ?thesis using t' by blast
qed

text \<open>The result of a resize.\<close>

definition resized :: "'v LuaTable \<Rightarrow> int \<Rightarrow> int \<Rightarrow> 'v LuaTable \<Rightarrow> bool" where
  "resized t nasize nhsize t' \<longleftrightarrow>
     tinv t' \<and> t_sizearray t' = nasize \<and> nhsize \<le> int (length (t_node t')) \<and> used t' \<le> outside t nasize \<and>
     entries t' = entries t \<and> (\<forall>k. live_key k \<longrightarrow> tval t' k = tval t k) \<and> 0 \<le> t_lastfree t' \<and>
     (\<forall>k. live_key k \<longrightarrow> stored t' k \<longrightarrow> in_range t' k \<or> tval t k \<noteq> None) \<and>
     t_tmcache t' = t_tmcache t \<and> t_metatable t' = t_metatable t \<and> t_readonly t' = t_readonly t \<and> t_safeenv t' = t_safeenv t"

lemma entries_elems:
  assumes "tinv t"
  shows "entries t = length (filter (\<lambda>v. v \<noteq> None) (t_array t)) + length (node_elems t)"
  using tinvD [OF assms] size_ents_elems by (simp add: entries_def)

lemma same_frame_safeenv: "same_frame t t' \<Longrightarrow> t_safeenv t' = t_safeenv t"
  unfolding same_frame_def by (metis LuaTable.select_convs(10) LuaTable.surjective LuaTable.update_convs(1,3,6))

lemma resized_intro:
  assumes inv: "tinv t" and fr: "same_frame s t'" and s: "t_sizearray s = m" "length (t_array s) = nat m" "N = length (t_node s)" "n \<le> int N"
      "t_nodemask8 s = word_of_int (2 ^ t_lsizenode s - 1)"
      "t_tmcache s = t_tmcache t" "t_metatable s = t_metatable t" "t_readonly s = t_readonly t" "t_safeenv s = t_safeenv t"
    and t': "base_inv t'" "used t' \<le> outside t m" "entries t' = entries t" "0 \<le> t_lastfree t'" "\<And>k. live_key k \<Longrightarrow> tval t' k = tval t k"
      "\<And>k. live_key k \<Longrightarrow> stored t' k \<Longrightarrow> in_range s k \<or> tval t k \<noteq> None"
  shows "resized t m n t'"
  using assms same_frameD [OF fr] same_frame_safeenv [OF fr] by (simp add: resized_def tinv_def)

text \<open>The table between the two loops of \<^verbatim>\<open>resize\<close>.\<close>

definition array_moved :: "'v LuaTable \<Rightarrow> int \<Rightarrow> nat \<Rightarrow> 'v LuaTable \<Rightarrow> bool" where
  "array_moved t m N t1 \<longleftrightarrow>
     base_inv t1 \<and> t_sizearray t1 = m \<and> length (t_array t1) = nat m \<and> length (t_node t1) = N \<and>
     t_nodemask8 t1 = word_of_int (2 ^ t_lsizenode t1 - 1) \<and> t_nodeid t1 = t_nodeid t + 1 \<and>
     t_tmcache t1 = t_tmcache t \<and> t_metatable t1 = t_metatable t \<and> t_readonly t1 = t_readonly t \<and> t_safeenv t1 = t_safeenv t \<and>
     used t1 \<le> length (array_elems t m) \<and>
     entries t1 = length (filter (\<lambda>v. v \<noteq> None) (t_array t)) \<and> 0 \<le> t_lastfree t1 \<and>
     (\<forall>k. live_key k \<longrightarrow> tval t1 k = (if in_range t k then tval t k else None)) \<and>
     (\<forall>k. live_key k \<longrightarrow> stored t1 k \<longrightarrow> in_range t1 k \<or> in_range t k \<and> tval t k \<noteq> None)"

lemma array_moved_intro:
  assumes "t_sizearray t2 = m" "length (take (nat m) (t_array t2)) = nat m" "base_inv t2" "used t2 \<le> length (array_elems t m)"
    "entries t2 = length (filter (\<lambda>v. v \<noteq> None) (t_array t))" "0 \<le> t_lastfree t2"
    "\<And>k. live_key k \<Longrightarrow> tval t2 k = (if in_range t k then tval t k else None)"
    "\<And>k. live_key k \<Longrightarrow> stored t2 k \<Longrightarrow> index_le m k \<or> in_range t k \<and> tval t k \<noteq> None"
    "length (t_node t2) = N" "t_nodemask8 t2 = word_of_int (2 ^ t_lsizenode t2 - 1)" "t_nodeid t2 = t_nodeid t + 1"
    "t_tmcache t2 = t_tmcache t" "t_metatable t2 = t_metatable t" "t_readonly t2 = t_readonly t" "t_safeenv t2 = t_safeenv t"
  shows "array_moved t m N (t2\<lparr>t_array := take (nat m) (t_array t2), t_arrayid := t_arrayid t2 + 1\<rparr>)" (is "array_moved t m N ?t")
proof -
  have r: "in_range ?t k = in_range t2 k" for k by (rule in_range_eq) simp
  have b: "base_inv ?t" using assms(2,3) assms(1) [symmetric] by (simp add: base_inv_def hash_ok_def node_inv_def sizes_ok_def)
  have v: "tval ?t k = tval t2 k" for k
  proof (cases "in_range t2 k")
    case True
    have "key_index k < nat m" using key_index_less [OF base_inv_sizes [OF assms(3)] True] assms(1) by simp
    with True show ?thesis by (simp add: tval_def r)
  qed (simp add: tval_def r)
  have st: "stored ?t k = stored t2 k" for k by (simp add: stored_def r)
  have e: "entries ?t = entries t2" using assms(1) by (simp add: entries_def)
  show ?thesis using assms b v st e r by (simp add: array_moved_def in_range_index used_def)
qed

lemma resize_spec:
  assumes c: "casts c2i" and inv: "tinv t" and m: "0 \<le> m" "m \<le> 2 ^ 26" and n: "0 \<le> n" "n \<le> 2 ^ 26"
    and absent: "tval t (num (m + 1)) = None" and room: "int (outside t m) \<le> n"
  shows "\<exists>t'. resize c2i (newkey (Suc d) c2i) t m n = Inr t' \<and> resized t m n t'"
proof -
  note sz = tinvD(4,5,6) [OF inv]
  let ?nk = "newkey (Suc d) c2i"
  let ?idx = "rev [0..<twoto (t_lsizenode t)]"
  define grown where "grown = (if m > t_sizearray t then t_array t @ replicate (nat (m - t_sizearray t)) None else t_array t)"
  define aid where "aid = (if m > t_sizearray t then t_arrayid t + 1 else t_arrayid t)"
  define ta where "ta = (if m > t_sizearray t then t\<lparr>t_array := grown, t_arrayid := aid, t_sizearray := m\<rparr> else t)"
  have ta: "(if m > t_sizearray t then setarrayvector t m else Inr t) = Inr ta"
    using m sz by (simp add: ta_def grown_def aid_def setarrayvector_def MAXSIZE_def)
  from setnodevector_spec [OF n, of ta] obtain N cc where tb: "setnodevector ta n = Inr (ta\<lparr>t_node := replicate N free_node, t_lsizenode := cc,
      t_nodemask8 := word_of_int (2 ^ cc - 1), t_lastfree := int N, t_nodeid := t_nodeid ta + 1\<rparr>)" (is "_ = Inr ?tb")
    and N': "n \<le> int N" "cc \<le> 26 \<and> (if N = 0 then cc = 0 \<and> n = 0 else N = 2 ^ cc)" by blast
  then have N: "n \<le> int N" "node_size N cc" by (auto simp: node_size_def split: if_splits)
  define s where "s = fresh t grown m N cc aid"
  have ts: "?tb\<lparr>t_sizearray := m\<rparr> = s" by (cases t) (simp add: s_def fresh_def ta_def grown_def aid_def)
  have ts': "?tb = s" if "\<not> m < t_sizearray t" using that by (cases t) (simp add: s_def fresh_def ta_def grown_def aid_def)
  have "m \<le> int (length grown)" using m sz by (simp add: grown_def)
  note fr = fresh_table [where t = t and aid = aid, OF m this N(2), folded s_def]
  have sizes: "t_sizearray s = m" "t_array s = grown" "length (t_node s) = N" "t_lastfree s = int N" "t_nodeid s = t_nodeid t + 1"
    "t_nodemask8 s = word_of_int (2 ^ t_lsizenode s - 1)"
    "t_tmcache s = t_tmcache t" "t_metatable s = t_metatable t" "t_readonly s = t_readonly t" "t_safeenv s = t_safeenv t"
    by (simp_all add: s_def fresh_def)
  let ?first = "if m < t_sizearray t then
              bindE (foldE (migrate_array ?nk) (?tb\<lparr>t_sizearray := m\<rparr>) [m..t_sizearray t - 1]) (\<lambda>t.
              Inr (t\<lparr>t_array := take (nat m) (t_array t), t_arrayid := t_arrayid t + 1\<rparr>))
            else Inr ?tb"
  have "\<exists>t1. ?first = Inr t1 \<and> array_moved t m N t1"
  proof (cases "m < t_sizearray t")
    case True
    then have s': "s = fresh t (t_array t) m N cc (t_arrayid t)" by (simp add: s_def grown_def aid_def)
    have "length (array_elems t m) \<le> N" using room N(1) by (simp add: outside_def)
    from migrate_arrays [OF c inv m(1) True N(2) absent this, of d, folded s']
    obtain t2 where t2: "foldE (migrate_array ?nk) s [m..t_sizearray t - 1] = Inr t2" "base_inv t2" "same_frame s t2"
      "used t2 \<le> length (array_elems t m)" "entries t2 = length (filter (\<lambda>v. v \<noteq> None) (t_array t))" "0 \<le> t_lastfree t2"
      and v2: "\<And>k. live_key k \<Longrightarrow> tval t2 k = (if in_range t k then tval t k else None)"
      and st2: "\<And>k. live_key k \<Longrightarrow> stored t2 k \<Longrightarrow> index_le m k \<or> in_range t k \<and> tval t k \<noteq> None" by blast
    let ?t1 = "t2\<lparr>t_array := take (nat m) (t_array t2), t_arrayid := t_arrayid t2 + 1\<rparr>"
    note f2 = same_frameD [OF t2(3)]
    have size: "t_sizearray t2 = m" "length (take (nat m) (t_array t2)) = nat m" using f2 sizes True m sz by (simp_all add: grown_def)
    have "array_moved t m N ?t1"
      using array_moved_intro [OF size t2(2)] t2(4-) v2 st2 f2 sizes same_frame_safeenv [OF t2(3)] by simp
    moreover have "?first = Inr ?t1" unfolding ts t2(1) using True by simp
    ultimately show ?thesis by blast
  next
    case False
    have v: "tval s k = (if in_range t k then tval t k else None)" if k: "live_key k" for k
    proof (cases "index_le m k")
      case True
      then obtain j where j: "int_key k = Some j" "1 \<le> j" "j \<le> m" by (auto simp: index_le_def split: option.splits)
      then have i: "in_range t k \<longleftrightarrow> j \<le> t_sizearray t" "key_index k = nat (j - 1)" by (simp_all add: in_range_def key_index_def)
      show ?thesis
      proof (cases "j \<le> t_sizearray t")
        case True
        then have "grown ! nat (j - 1) = t_array t ! nat (j - 1)" using j sz by (simp add: grown_def nth_append)
        with True i \<open>index_le m k\<close> show ?thesis unfolding fr(4) [OF k] by (simp add: tval_def)
      next
        case f: False
        then have "grown ! nat (j - 1) = None" using j sz by (simp add: grown_def nth_append)
        with f i \<open>index_le m k\<close> k show ?thesis by (simp add: fr(4))
      qed
    next
      case f: False
      have "in_range t k \<Longrightarrow> index_le m k" using False by (auto simp: in_range_index index_le_def split: option.splits)
      with f k show ?thesis by (auto simp: fr(4))
    qed
    have "length grown = nat m" "take (nat m) grown = grown" using False sz by (auto simp: grown_def)
    moreover have "length (filter (\<lambda>v. v \<noteq> None) grown) = length (filter (\<lambda>v. v \<noteq> None) (t_array t))" by (simp add: grown_def)
    ultimately have "array_moved t m N s"
      using v fr sizes by (simp add: array_moved_def) (simp add: s_def)
    then show ?thesis using False ts' [OF False] by simp
  qed
  then obtain t1 where first: "?first = Inr t1" and moved: "array_moved t m N t1" by blast
  note t1 = moved [unfolded array_moved_def]
  have r1: "in_range t1 k \<longleftrightarrow> index_le m k" for k using t1 by (simp add: in_range_index)
  have used1: "used t1 + length (filter (\<lambda>e. \<not> in_range t1 (fst e)) (node_elems t)) \<le> outside t m"
    using t1 by (simp add: outside_def r1)
  have room1: "outside t m \<le> N" using room N(1) by linarith
  have "\<exists>t'. foldE (migrate_node c2i ?nk (t_node t)) t1 ?idx = Inr t' \<and>
    base_inv t' \<and> same_frame t1 t' \<and> used t' \<le> used t1 + length (filter (\<lambda>e. \<not> in_range t1 (fst e)) (node_elems t)) \<and>
    entries t' = entries t1 + length (node_elems t) \<and> t_lastfree t' \<le> t_lastfree t1 \<and> min 0 (t_lastfree t1) \<le> t_lastfree t' \<and>
    (\<forall>k. live_key k \<longrightarrow> tval t' k = tval t k) \<and>
    (\<forall>k. live_key k \<longrightarrow> stored t' k \<longrightarrow> in_range t1 k \<or> tval t k \<noteq> None)"
    using t1 absent m used1 room1 by (intro migrate_nodes [OF c inv]) auto
  then obtain t' where second: "foldE (migrate_node c2i ?nk (t_node t)) t1 ?idx = Inr t'"
    and t': "base_inv t'" "same_frame t1 t'" "used t' \<le> outside t m" "entries t' = entries t" "0 \<le> t_lastfree t'"
      "\<And>k. live_key k \<Longrightarrow> tval t' k = tval t k" "\<And>k. live_key k \<Longrightarrow> stored t' k \<Longrightarrow> in_range t1 k \<or> tval t k \<noteq> None"
    using used1 t1 entries_elems [OF inv] by auto
  have ids: "t_arrayid t' = t_arrayid t1" "t_nodeid t' = t_nodeid t + 1" using same_frameD(9,10) [OF t'(2)] t1 by simp_all
  have "t_nodeid ta = t_nodeid t" by (simp add: ta_def)
  then have "t_nodeid ?tb = t_nodeid t + 1" by simp
  moreover have "guardE (\<not> (m > MAXSIZE \<or> n > MAXSIZE)) (Thrown ''table overflow'') = Inr ()" using m n by (simp add: MAXSIZE_def)
  ultimately have "resize c2i ?nk t m n = Inr t'"
    unfolding resize_def Let_def by (simp only: bindE_simps ta tb first second ids) simp
  moreover have "resized t m n t'" using resized_intro [OF inv t'(2) _ _ refl] t1 t' N(1) by simp
  ultimately show ?thesis by blast
qed

section \<open>Counting the integer keys\<close>

text \<open>The counters of the slices \<open>(2 ^ (i - 1), 2 ^ i]\<close> after the indices \<open>js\<close>.\<close>

definition tally :: "int list \<Rightarrow> int list" where
  "tally js = map (\<lambda>i. int (length (filter (\<lambda>j. ceillog2 j = int i) js))) [0..<MAXBITS + 1]"

definition indices :: "int list \<Rightarrow> bool" where
  "indices js \<longleftrightarrow> (\<forall>j \<in> set js. 1 \<le> j \<and> j \<le> 2 ^ 26)"

lemma length_tally [simp]: "length (tally js) = 27"
  by (simp add: tally_def MAXBITS_def)

lemma nth_tally: "i < 27 \<Longrightarrow> tally js ! i = int (length (filter (\<lambda>j. ceillog2 j = int i) js))"
  by (simp add: tally_def MAXBITS_def del: upt_Suc)

lemma slice_le:
  assumes "1 \<le> j" "j \<le> 2 ^ 26"
  shows "ceillog2 j \<le> int i \<longleftrightarrow> j \<le> 2 ^ i" "0 \<le> ceillog2 j" "ceillog2 j \<le> 26"
  using ceillog2_le [of j] ceillog2_nonneg [of j] ceillog2_le [of j 26] assms by auto

lemma slice_iff:
  assumes "1 \<le> j" "j \<le> 2 ^ 26"
  shows "ceillog2 j = int i \<longleftrightarrow> j \<le> 2 ^ i \<and> (0 < i \<longrightarrow> 2 ^ (i - 1) < j)"
proof (cases i)
  case 0
  then show ?thesis using slice_le [OF assms] by (metis int_ops(1) less_irrefl order_antisym_conv)
next
  case (Suc l)
  have "ceillog2 j = int i \<longleftrightarrow> ceillog2 j \<le> int i \<and> \<not> ceillog2 j \<le> int l" using Suc by auto
  then have "ceillog2 j = int i \<longleftrightarrow> j \<le> 2 ^ i \<and> \<not> j \<le> 2 ^ l" unfolding slice_le(1) [OF assms] .
  with Suc show ?thesis by (simp add: not_le)
qed

lemma upto_join: "0 \<le> b \<Longrightarrow> b \<le> c \<Longrightarrow> [1..b] @ [b + 1..c] = [1..c]"
  using upto_split1 [of 1 "b + 1" c] by (cases "b = c") auto

lemma nums_add_tally:
  assumes "\<forall>j \<in> set ks. ceillog2 j = int n" "n < 27"
  shows "nums_add (tally js) (int n) (int (length ks)) = Inr (tally (js @ ks))"
proof -
  have "(tally js)[n := tally js ! n + int (length ks)] = tally (js @ ks)"
  proof (rule nth_equalityI)
    fix i assume "i < length ((tally js)[n := tally js ! n + int (length ks)])"
    then have i: "i < 27" by simp
    have "filter (\<lambda>j. ceillog2 j = int i) ks = (if i = n then ks else [])"
      using assms(1) by (auto simp: filter_id_conv filter_empty_conv)
    then show "(tally js)[n := tally js ! n + int (length ks)] ! i = tally (js @ ks) ! i"
      using i by (auto simp: nth_list_update nth_tally)
  qed simp
  then show ?thesis using assms(2) by (simp add: nums_add_def)
qed

lemma nums_add_index:
  assumes "1 \<le> j" "j \<le> 2 ^ 26"
  shows "nums_add (tally js) (ceillog2 j) 1 = Inr (tally (js @ [j]))"
  using nums_add_tally [of "[j]" "nat (ceillog2 j)" js] slice_le(2,3) [OF assms] by simp

text \<open>The array part.\<close>

definition array_indices :: "'v LuaTable \<Rightarrow> int \<Rightarrow> int list" where
  "array_indices t n = filter (\<lambda>j. t_array t ! nat (j - 1) \<noteq> None) [1..n]"

lemma count_range_spec:
  assumes "1 \<le> i" "l \<le> int (length (t_array t))"
  shows "count_range t i l = Inr (int (length (filter (\<lambda>j. t_array t ! nat (j - 1) \<noteq> None) [i..l])))"
proof -
  have "foldE (\<lambda>lc i. bindE (array_get t (i - 1)) (\<lambda>v. Inr (if v \<noteq> None then lc + 1 else lc))) c js =
    Inr (c + int (length (filter (\<lambda>j. t_array t ! nat (j - 1) \<noteq> None) js)))"
    if "\<forall>j \<in> set js. 1 \<le> j \<and> j \<le> int (length (t_array t))" for js c
    using that
  proof (induction js arbitrary: c)
    case (Cons j js)
    then have "array_get t (j - 1) = Inr (t_array t ! nat (j - 1))" by (intro array_get_nth) auto
    with Cons show ?case by simp
  qed simp
  from this [of "[i..l]" 0] assms show ?thesis by (simp add: count_range_def)
qed

definition before_slice :: "int \<Rightarrow> nat \<Rightarrow> int" where
  "before_slice sz n = (if n = 0 then 0 else min sz (2 ^ (n - 1)))"

lemma numusearray_loop_spec:
  assumes sz: "0 \<le> t_sizearray t" "t_sizearray t \<le> 2 ^ 26" "t_sizearray t \<le> int (length (t_array t))" and n: "n \<le> 27"
  defines "js \<equiv> array_indices t (before_slice (t_sizearray t) n)"
  shows "numusearray_loop t [n..<27] (before_slice (t_sizearray t) n + 1) (tally js) (int (length js)) =
    Inr (int (length (array_indices t (t_sizearray t))), tally (array_indices t (t_sizearray t)))"
  using n unfolding js_def
proof (induction "27 - n" arbitrary: n)
  case 0
  then have "before_slice (t_sizearray t) n = t_sizearray t" using sz by (simp add: before_slice_def)
  then show ?case using 0 by simp
next
  case (Suc x)
  let ?s = "t_sizearray t" and ?b = "before_slice (t_sizearray t)"
  have n: "n < 27" using Suc.hyps(2) by simp
  have u: "[n..<27] = n # [Suc n..<27]" using n by (rule upt_conv_Cons)
  have b: "0 \<le> ?b n" "?b n \<le> ?s" "?b n \<le> ?b (Suc n)" "?b (Suc n) \<le> ?s" "?b (Suc n) = min ?s (2 ^ n)"
    using sz by (auto simp: before_slice_def intro: min.coboundedI2 power_increasing)
  show ?case
  proof (cases "int (twoto n) > ?s \<and> ?b n + 1 > ?s")
    case True
    then have "?b n = ?s" using b by simp
    then show ?thesis using True unfolding u by (simp add: Let_def)
  next
    case False
    let ?ks = "filter (\<lambda>j. t_array t ! nat (j - 1) \<noteq> None) [?b n + 1..?b (Suc n)]"
    have lim: "(if int (twoto n) > ?s then ?s else int (twoto n)) = ?b (Suc n)" using b by (auto simp: twoto_def)
    have c: "count_range t (?b n + 1) (?b (Suc n)) = Inr (int (length ?ks))" using b sz by (intro count_range_spec) auto
    have "\<forall>j \<in> set ?ks. ceillog2 j = int n"
    proof
      fix j assume "j \<in> set ?ks"
      then have j: "?b n < j" "j \<le> ?b (Suc n)" by auto
      then have "1 \<le> j" "j \<le> 2 ^ 26" using b sz by auto
      moreover have "j \<le> 2 ^ n" "0 < n \<longrightarrow> 2 ^ (n - 1) < j" using j b by (auto simp: before_slice_def min_def split: if_splits)
      ultimately show "ceillog2 j = int n" by (simp add: slice_iff)
    qed
    from nums_add_tally [OF this n] have a: "nums_add (tally (array_indices t (?b n))) (int n) (int (length ?ks)) =
      Inr (tally (array_indices t (?b n) @ ?ks))" .
    have js: "array_indices t (?b n) @ ?ks = array_indices t (?b (Suc n))"
      unfolding array_indices_def filter_append [symmetric] upto_join [OF b(1,3)] ..
    have len: "int (length (array_indices t (?b n))) + int (length ?ks) = int (length (array_indices t (?b (Suc n))))"
      using js by (metis length_append of_nat_add)
    have mx: "max (?b n + 1) (?b (Suc n) + 1) = ?b (Suc n) + 1" using b(3) by simp
    have loop: "numusearray_loop t [Suc n..<27] (?b (Suc n) + 1) (tally (array_indices t (?b (Suc n)))) (int (length (array_indices t (?b (Suc n))))) =
      Inr (int (length (array_indices t ?s)), tally (array_indices t ?s))"
      using Suc.hyps n by (intro Suc.hyps(1)) auto
    show ?thesis unfolding u numusearray_loop.simps Let_def if_not_P [OF False] lim
      by (simp only: c a js len mx loop bindE_simps)
  qed
qed

lemma numusearray_spec:
  assumes "tinv t"
  shows "numusearray t (replicate (MAXBITS + 1) 0) = Inr (int (length (array_indices t (t_sizearray t))), tally (array_indices t (t_sizearray t)))"
proof -
  have "replicate (MAXBITS + 1) 0 = tally []" by (simp add: tally_def MAXBITS_def map_replicate_const del: upt_Suc replicate_Suc)
  with numusearray_loop_spec [of t 0] tinvD(4,5,6) [OF assms] show ?thesis
    by (simp add: numusearray_def before_slice_def array_indices_def MAXBITS_def)
qed

definition pos_index :: "TKey \<Rightarrow> int option" where
  "pos_index k = (case int_key k of Some j \<Rightarrow> if 1 \<le> j \<and> j \<le> 2 ^ 26 then Some j else None | None \<Rightarrow> None)"

lemma arrayindex_key:
  assumes "casts c2i"
  shows "arrayindex c2i d = (case int_key (KeyNumber d) of Some j \<Rightarrow> j | None \<Rightarrow> - 1)"
  using casts_int_key [OF assms, of d] by (auto simp: arrayindex_def Let_def split: option.splits)

lemma int_key_other: "(\<And>d. k \<noteq> KeyNumber d) \<Longrightarrow> int_key k = None"
  by (cases k) (auto simp: int_key_def)

lemma count_key:
  assumes "casts c2i"
  shows "(case k of KeyNumber d \<Rightarrow> countint c2i d (tally js) | _ \<Rightarrow> Inr (0, tally js)) =
    Inr (case pos_index k of None \<Rightarrow> (0, tally js) | Some j \<Rightarrow> (1, tally (js @ [j])))"
proof (cases "\<exists>d. k = KeyNumber d")
  case True
  then obtain d where d: "k = KeyNumber d" by blast
  show ?thesis
    using nums_add_index by (auto simp: d countint_def arrayindex_key [OF assms] pos_index_def MAXSIZE_def split: option.splits)
next
  case False
  then have "pos_index k = None" using int_key_other [of k] by (simp add: pos_index_def)
  with False show ?thesis by (cases k) auto
qed

definition node_indices :: "'v LuaTable \<Rightarrow> int list" where
  "node_indices t = List.map_filter (\<lambda>e. pos_index (fst e)) (node_elems t)"

lemma map_filter_append: "List.map_filter f (xs @ ys) = List.map_filter f xs @ List.map_filter f ys"
  by (simp add: List.map_filter_def)

lemma numusehash_spec:
  assumes c: "casts c2i" and t: "node_inv t"
  shows "numusehash c2i t (tally js) n =
    Inr (int (length (node_elems t)), tally (js @ node_indices t), n + int (length (node_indices t)))"
proof -
  let ?step = "\<lambda>(totaluse, ause, nums) i.
         bindE (gnode t i) (\<lambda>n.
         if gval n \<noteq> None then
           bindE (case gkey n of KeyNumber d \<Rightarrow> countint c2i d nums | _ \<Rightarrow> Inr (0, nums)) (\<lambda>(c, nums).
           Inr (totaluse + 1, ause + c, nums))
         else Inr (totaluse, ause, nums))"
  have "foldE ?step (int u, int a, tally js) xs =
    Inr (int (u + length (List.map_filter (node_elem (t_node t)) xs)),
      int (a + length (List.map_filter (\<lambda>e. pos_index (fst e)) (List.map_filter (node_elem (t_node t)) xs))),
      tally (js @ List.map_filter (\<lambda>e. pos_index (fst e)) (List.map_filter (node_elem (t_node t)) xs)))"
    if "\<forall>i \<in> set xs. i < twoto (t_lsizenode t)" for xs u a js
    using that
  proof (induction xs arbitrary: u a js)
    case Nil
    then show ?case by (simp add: map_filter_simps)
  next
    case (Cons i xs)
    obtain m where m: "gnode t i = Inr m" "node_elem (t_node t) i = map_option (\<lambda>v. (gkey m, v)) (gval m)"
    proof (cases "t_node t = []")
      case True
      with Cons.prems length_node(2) [OF t] have "i = 0" by (simp add: twoto_def)
      with True show ?thesis by (intro that [of dummynode]) (simp_all add: gnode_def node_elem_def Let_def)
    next
      case False
      with Cons.prems length_node(1) [OF t] have "i < length (t_node t)" by simp
      with False show ?thesis by (intro that [of "t_node t ! i"]) (simp_all add: gnode_def node_elem_def Let_def)
    qed
    show ?case
    proof (cases "gval m")
      case None
      with m Cons show ?thesis by (simp add: map_filter_simps)
    next
      case (Some v)
      have st: "?step (int u, int a, tally js) i =
        Inr (case pos_index (gkey m) of None \<Rightarrow> (int (u + 1), int a, tally js) | Some j \<Rightarrow> (int (u + 1), int (a + 1), tally (js @ [j])))"
        using count_key [OF c, where k = "gkey m" and js = js] m(1) Some by (simp split: option.splits)
      show ?thesis
      proof (cases "pos_index (gkey m)")
        case None
        with st have "?step (int u, int a, tally js) i = Inr (int (u + 1), int a, tally js)" by (simp only: option.case)
        moreover note Cons.IH [of "u + 1" a js]
        ultimately show ?thesis using None m(2) Some Cons.prems by (simp only: foldE.simps bindE_simps) (simp add: map_filter_simps)
      next
        case p: (Some j)
        with st have "?step (int u, int a, tally js) i = Inr (int (u + 1), int (a + 1), tally (js @ [j]))" by (simp only: option.case)
        moreover note Cons.IH [of "u + 1" "a + 1" "js @ [j]"]
        ultimately show ?thesis using p m(2) Some Cons.prems by (simp only: foldE.simps bindE_simps) (simp add: map_filter_simps)
      qed
    qed
  qed
  from this [of "rev [0..<twoto (t_lsizenode t)]" 0 0 js] show ?thesis
    unfolding numusehash_def sizenode_def by (simp add: node_indices_def node_elems_def)
qed

section \<open>Choosing the sizes\<close>

definition up_to :: "int list \<Rightarrow> int \<Rightarrow> nat" where
  "up_to js m = length (filter (\<lambda>j. j \<le> m) js)"

lemma up_to_all: "indices js \<Longrightarrow> up_to js (2 ^ 26) = length js"
  by (simp add: up_to_def indices_def)

lemma up_to_le:
  assumes "distinct js" "indices js" "0 \<le> m"
  shows "int (up_to js m) \<le> m"
proof -
  have "up_to js m = card (set (filter (\<lambda>j. j \<le> m) js))" unfolding up_to_def by (intro distinct_card [symmetric] distinct_filter assms)
  also have "\<dots> \<le> card {1..m}" using assms(2) by (intro card_mono) (auto simp: indices_def)
  finally show ?thesis using assms(3) by simp
qed

lemma up_to_length: "up_to js m \<le> length js"
  by (simp add: up_to_def)

text \<open>The number of indices in front of the slice \<open>i\<close>.\<close>

definition up_to_slice :: "int list \<Rightarrow> nat \<Rightarrow> nat" where
  "up_to_slice js i = (if i = 0 then 0 else up_to js (2 ^ (i - 1)))"

lemma up_to_slice_Suc:
  assumes "indices js" "i < 27"
  shows "int (up_to_slice js i) + tally js ! i = int (up_to_slice js (Suc i))"
proof -
  have "length (filter (\<lambda>j. j \<le> 2 ^ i) js) = up_to_slice js i + length (filter (\<lambda>j. ceillog2 j = int i) js)"
    using assms(1)
  proof (induction js)
    case (Cons j js)
    then have j: "1 \<le> j" "j \<le> 2 ^ 26" and "indices js" by (auto simp: indices_def)
    have le: "j \<le> 2 ^ (i - 1) \<Longrightarrow> j \<le> 2 ^ i" using power_increasing [of "i - 1" i "2 :: int"] by linarith
    show ?case using Cons.IH [OF \<open>indices js\<close>] slice_iff [OF j, of i] j le
      by (auto simp: up_to_slice_def up_to_def)
  qed (simp add: up_to_slice_def up_to_def)
  then show ?thesis using assms(2) by (simp add: up_to_slice_def up_to_def nth_tally)
qed

text \<open>The sizes that are a possible choice: a power of two of which more than half is used.\<close>

definition chosen :: "int list \<Rightarrow> int \<Rightarrow> int \<Rightarrow> bool" where
  "chosen js na n \<longleftrightarrow> (na = 0 \<and> n = 0) \<or> (\<exists>i \<le> 26. n = 2 ^ i \<and> na = int (up_to js n) \<and> n div 2 < na)"

lemma computesizes_loop_spec:
  assumes js: "indices js" "distinct js" and i: "i \<le> 26" and a: "a = int (up_to_slice js i)" "a < int (length js) \<or> i = 0" and ch: "chosen js na n"
  shows "\<exists>na' n'. computesizes_loop (tally js) (int (length js)) i a na n = Inr (na', n') \<and> chosen js na' n'"
  using i a ch
proof (induction "27 - i" arbitrary: i a na n rule: less_induct)
  case less
  show ?case
  proof (cases "(2 :: int) ^ i div 2 < int (length js)")
    case False
    then have "computesizes_loop (tally js) (int (length js)) i a na n = Inr (na, n)" by (simp add: computesizes_loop.simps [of _ _ i] Let_def)
    then show ?thesis using less.prems by blast
  next
    case True
    let ?c = "tally js ! i" and ?a = "int (up_to_slice js (Suc i))"
    have i: "i < 27" using less.prems by simp
    have a: "a + ?c = ?a" using up_to_slice_Suc [OF js(1) i] less.prems(2) by simp
    have c0: "0 \<le> ?c" by (simp add: nth_tally i)
    define r where "r = (if ?c > 0 then if ?a > 2 ^ i div 2 then (?a, ?a, 2 ^ i) else (?a, na, n) else (?a, na, n))"
    have a0: "?c \<le> 0 \<Longrightarrow> a = ?a" using a c0 by simp
    have r: "(if ?c > 0 then let a = a + ?c in if a > 2 ^ i div 2 then (a, a, 2 ^ i) else (a, na, n) else (a, na, n)) = r"
      using a a0 by (simp add: r_def Let_def)
    obtain na1 n1 where r1: "r = (?a, na1, n1)" by (cases "?c > 0"; cases "?a > 2 ^ i div 2") (simp_all add: r_def)
    have ch: "chosen js na1 n1"
    proof (cases "?c > 0 \<and> ?a > 2 ^ i div 2")
      case True
      then have "na1 = int (up_to js (2 ^ i))" "n1 = 2 ^ i" "n1 div 2 < na1" using r1 by (auto simp: r_def up_to_slice_def)
      then show ?thesis using i unfolding chosen_def by (intro disjI2 exI [of _ i]) auto
    next
      case False
      then have "na1 = na" "n1 = n" using r1 by (auto simp: r_def split: if_splits)
      then show ?thesis using less.prems by simp
    qed
    have step: "computesizes_loop (tally js) (int (length js)) i a na n =
      (if ?a = int (length js) then Inr (na1, n1) else computesizes_loop (tally js) (int (length js)) (i + 1) ?a na1 n1)"
      using True i r by (simp add: computesizes_loop.simps [of _ _ i] nums_get_def r1 Let_def)
    show ?thesis
    proof (cases "?a = int (length js)")
      case True
      then show ?thesis using step ch by simp
    next
      case False
      then have "i \<noteq> 26" using up_to_all [OF js(1)] by (auto simp: up_to_slice_def)
      then have i': "i < 26" using less.prems by simp
      have "?a \<le> int (length js)" using up_to_length by (simp add: up_to_slice_def)
      with False have "?a < int (length js)" by simp
      then have "\<exists>na' n'. computesizes_loop (tally js) (int (length js)) (Suc i) ?a na1 n1 = Inr (na', n') \<and> chosen js na' n'"
        using i' ch by (intro less.hyps) auto
      then show ?thesis using step False by simp
    qed
  qed
qed

lemma computesizes_spec:
  assumes "indices js" "distinct js"
  shows "\<exists>na n. computesizes (tally js) (int (length js)) = Inr (na, n) \<and> chosen js na n"
proof -
  have "\<exists>na n. computesizes_loop (tally js) (int (length js)) 0 0 0 0 = Inr (na, n) \<and> chosen js na n"
    by (intro computesizes_loop_spec assms) (simp_all add: up_to_slice_def chosen_def)
  then obtain na n where c: "computesizes_loop (tally js) (int (length js)) 0 0 0 0 = Inr (na, n)" "chosen js na n" by blast
  have "na \<le> n" "0 \<le> n" "n div 2 \<le> na"
    using c(2) up_to_le [OF assms(2,1), of n] by (auto simp: chosen_def)
  then have "cdiv n 2 \<le> na \<and> na \<le> n" using \<open>0 \<le> n\<close> by (cases "n = 0") (simp_all add: cdiv_def)
  with c show ?thesis by (simp add: computesizes_def)
qed

lemma chosen_bounds:
  assumes "chosen js na n" "indices js" "distinct js"
  shows "0 \<le> na" "na \<le> n" "n \<le> 2 ^ 26" "na = int (up_to js n)" "n \<le> 2 * na" "na \<le> int (length js)"
proof -
  have u0: "up_to js 0 = 0" using assms(2) by (auto simp: up_to_def indices_def filter_empty_conv)
  show na: "na = int (up_to js n)" using assms(1) u0 by (auto simp: chosen_def)
  then show "0 \<le> na" "na \<le> int (length js)" using up_to_length by simp_all
  have n0: "0 \<le> n" using assms(1) by (auto simp: chosen_def)
  show "na \<le> n" using up_to_le [OF assms(3,2) n0] na by simp
  show "n \<le> 2 ^ 26" using assms(1) power_increasing [of _ 26 "2 :: int"] by (auto simp: chosen_def)
  show "n \<le> 2 * na" using assms(1) by (auto simp: chosen_def)
qed

text \<open>The integer keys with a value.\<close>

definition int_keys :: "'v LuaTable \<Rightarrow> int set" where
  "int_keys t = {j. in_int32 j \<and> tval t (num j) \<noteq> None}"

lemma int_keys_elems:
  assumes "tinv t"
  shows "int_keys t \<subseteq> set (array_indices t (t_sizearray t)) \<union> set (List.map_filter (\<lambda>e. int_key (fst e)) (node_elems t))"
proof
  fix j assume "j \<in> int_keys t"
  then have i: "in_int32 j" and v: "tval t (num j) \<noteq> None" by (auto simp: int_keys_def)
  show "j \<in> set (array_indices t (t_sizearray t)) \<union> set (List.map_filter (\<lambda>e. int_key (fst e)) (node_elems t))"
  proof (cases "in_range t (num j)")
    case True
    then show ?thesis using v i by (simp add: array_indices_def tval_def key_index_num in_range_num)
  next
    case False
    then obtain v where "hval (t_node t) (num j) = Some v" using v by (auto simp: tval_def)
    then obtain k' where k': "(k', v) \<in> set (node_elems t)" "luaO_rawequalKey k' (num j)"
      using hval_elems [OF tinvD(3) [OF assms] live_num [OF i]] by blast
    then have "int_key k' = Some j" using int_key_cong [of k' "num j"] i by simp
    with k'(1) have "j \<in> set (List.map_filter (\<lambda>e. int_key (fst e)) (node_elems t))" unfolding in_map_filter by (intro bexI [of _ "(k', v)"]) simp_all
    then show ?thesis by simp
  qed
qed

lemma length_array_indices:
  assumes "tinv t"
  shows "length (array_indices t (t_sizearray t)) = length (filter (\<lambda>v. v \<noteq> None) (t_array t))"
proof -
  have "map (\<lambda>j. t_array t ! nat (j - 1)) [1..t_sizearray t] = t_array t"
    using tinvD(4,6) [OF assms] by (intro nth_equalityI) (simp_all add: nat_add_distrib nth_upto nat_diff_distrib)
  then have "length (filter (\<lambda>v. v \<noteq> None) (t_array t)) = length (filter (\<lambda>v. v \<noteq> None) (map (\<lambda>j. t_array t ! nat (j - 1)) [1..t_sizearray t]))" by simp
  also have "\<dots> = length (array_indices t (t_sizearray t))" by (simp add: array_indices_def filter_map comp_def)
  finally show ?thesis ..
qed

lemma length_map_filter_le: "length (List.map_filter f xs) \<le> length xs"
  by (simp add: length_map_filter)

lemma int_keys_card:
  assumes "tinv t"
  shows "finite (int_keys t)" "card (int_keys t) \<le> entries t"
proof -
  let ?A = "array_indices t (t_sizearray t)" and ?N = "List.map_filter (\<lambda>e. int_key (fst e)) (node_elems t)"
  show "finite (int_keys t)" by (rule finite_subset [OF int_keys_elems [OF assms]]) simp
  have "card (int_keys t) \<le> card (set (?A @ ?N))" using int_keys_elems [OF assms] by (intro card_mono) auto
  also have "\<dots> \<le> length (?A @ ?N)" by (rule card_length)
  also have "\<dots> \<le> entries t" using entries_elems [OF assms] length_array_indices [OF assms] length_map_filter_le [of "\<lambda>e. int_key (fst e)" "node_elems t"] by simp
  finally show "card (int_keys t) \<le> entries t" .
qed

lemma entries_le:
  assumes "tinv t"
  shows "entries t \<le> 2 ^ 27"
proof -
  have "length (filter (\<lambda>v. v \<noteq> None) (t_array t)) \<le> 2 ^ 26"
    using tinvD(4,5,6) [OF assms] by (intro order_trans [OF length_filter_le]) auto
  moreover have "length (node_elems t) \<le> 2 ^ 26"
  proof -
    have "t_lsizenode t \<le> 26" using tinvD(1) [OF assms] by (simp add: base_inv_def hash_ok_def)
    then have "twoto (t_lsizenode t) \<le> 2 ^ 26" unfolding twoto_def by (intro power_increasing) auto
    moreover have "length (node_elems t) \<le> twoto (t_lsizenode t)"
      unfolding node_elems_def by (rule order_trans [OF length_map_filter_le]) simp
    ultimately show ?thesis by simp
  qed
  ultimately show ?thesis using entries_elems [OF assms] by simp
qed

text \<open>The indices at which the loop of \<^verbatim>\<open>adjustasize\<close> goes on.\<close>

definition ahead :: "'v LuaTable \<Rightarrow> int \<Rightarrow> int \<Rightarrow> bool" where
  "ahead t ek j \<longleftrightarrow> j = ek \<or> tval t (num j) \<noteq> None"

lemma not_ahead_exists:
  assumes "tinv t" "0 \<le> a" "a + int (entries t) + 2 < 2 ^ 31"
  shows "\<exists>b > a. b \<le> a + int (entries t) + 2 \<and> \<not> ahead t ek b"
proof (rule ccontr)
  assume "\<not> ?thesis"
  then have all: "ahead t ek b" if "a < b" "b \<le> a + int (entries t) + 2" for b using that by blast
  have "{a + 1..a + int (entries t) + 2} \<subseteq> insert ek (int_keys t)"
  proof
    fix j assume j: "j \<in> {a + 1..a + int (entries t) + 2}"
    then have "in_int32 j" using assms(2,3) by (auto simp: in_int32_def)
    moreover have "ahead t ek j" using j by (intro all) auto
    ultimately show "j \<in> insert ek (int_keys t)" by (auto simp: ahead_def int_keys_def)
  qed
  then have "card {a + 1..a + int (entries t) + 2} \<le> card (insert ek (int_keys t))"
    using int_keys_card(1) [OF assms(1)] by (intro card_mono) auto
  also have "\<dots> \<le> Suc (entries t)" using int_keys_card [OF assms(1)] by (simp add: card_insert_if)
  finally show False by simp
qed

lemma adjust_loop_spec:
  assumes inv: "tinv t" and b: "a < b" "b < 2 ^ 31" "\<not> ahead t ek b" and a: "0 \<le> a"
    and tb: "\<not> tb \<Longrightarrow> \<forall>j. a < j \<longrightarrow> in_int32 j \<longrightarrow> tval t (num j) = None"
  shows "\<exists>a'. adjust_loop t tb ek a = Some (Inr a') \<and> a \<le> a' \<and> a' < b \<and> (\<forall>j. a < j \<longrightarrow> j \<le> a' \<longrightarrow> ahead t ek j) \<and> \<not> ahead t ek (a' + 1)"
  using b(1) a tb
proof (induction "nat (b - a)" arbitrary: a rule: less_induct)
  case less
  have i: "in_int32 (a + 1)" using less.prems b by (simp add: in_int32_def)
  have get: "luaH_getnum t (a + 1) = Inr (key_slot t (num (a + 1)))" by (rule luaH_getnum_slot [OF tinvD(3,2) [OF inv] i])
  have here: "(if a + 1 = ek then Inr True
     else if tb then bindE (luaH_getnum t (a + 1)) (\<lambda>p. bindE (read_slot t p) (\<lambda>v. Inr (v \<noteq> None)))
     else Inr False) = Inr (ahead t ek (a + 1))"
    using less.prems(3) i by (auto simp: get read_key_slot [OF tinvD(2) [OF inv]] ahead_def)
  have step: "adjust_loop t tb ek a = (if ahead t ek (a + 1) then adjust_loop t tb ek (a + 1) else Some (Inr a))"
    by (subst adjust_loop.simps) (simp only: here sum.case)
  show ?case
  proof (cases "ahead t ek (a + 1)")
    case True
    then have "a + 1 \<noteq> b" using b by auto
    then have less': "a + 1 < b" using less.prems by simp
    have "\<exists>a'. adjust_loop t tb ek (a + 1) = Some (Inr a') \<and> a + 1 \<le> a' \<and> a' < b \<and>
      (\<forall>j. a + 1 < j \<longrightarrow> j \<le> a' \<longrightarrow> ahead t ek j) \<and> \<not> ahead t ek (a' + 1)"
      using less' less.prems by (intro less.hyps) auto
    then obtain a' where a': "adjust_loop t tb ek (a + 1) = Some (Inr a')" "a + 1 \<le> a'" "a' < b"
      "\<And>j. a + 1 < j \<Longrightarrow> j \<le> a' \<Longrightarrow> ahead t ek j" "\<not> ahead t ek (a' + 1)" by blast
    have "ahead t ek j" if "a < j" "j \<le> a'" for j using True a'(4) that by (cases "j = a + 1") auto
    then show ?thesis using step True a' by (intro exI [of _ a']) simp
  next
    case False
    then show ?thesis using step less.prems(1) by (intro exI [of _ a]) auto
  qed
qed

definition ek_index :: "TKey option \<Rightarrow> int" where
  "ek_index ek = (case Option.bind ek int_key of Some j \<Rightarrow> j | None \<Rightarrow> - 1)"

lemma adjustasize_spec:
  assumes c: "casts c2i" and inv: "tinv t" and a: "0 \<le> a" "a + int (entries t) + 2 < 2 ^ 31"
  shows "\<exists>a'. adjustasize c2i t a ek = Inr a' \<and> a \<le> a' \<and> a' \<le> a + int (entries t) + 1 \<and>
    (\<forall>j. a < j \<longrightarrow> j \<le> a' \<longrightarrow> ahead t (ek_index ek) j) \<and> \<not> ahead t (ek_index ek) (a' + 1)"
proof -
  have e: "(case ek of Some (KeyNumber d) \<Rightarrow> arrayindex c2i d | _ \<Rightarrow> - 1) = ek_index ek"
  proof (cases ek)
    case (Some k)
    then show ?thesis using int_key_other [of k] by (cases k) (auto simp: ek_index_def arrayindex_key [OF c])
  qed (simp add: ek_index_def)
  let ?tb = "t_node t \<noteq> [] \<or> a < t_sizearray t"
  have tb: "\<forall>j. a < j \<longrightarrow> in_int32 j \<longrightarrow> tval t (num j) = None" if "\<not> ?tb"
    using that by (auto simp: tval_def in_range_num hval_def held_def)
  from not_ahead_exists [OF inv a] obtain b where b: "a < b" "b \<le> a + int (entries t) + 2" "\<not> ahead t (ek_index ek) b" by blast
  have "b < 2 ^ 31" using b(2) a(2) by simp
  from adjust_loop_spec [OF inv b(1) this b(3) a(1) tb] obtain a' where a': "adjust_loop t ?tb (ek_index ek) a = Some (Inr a')" "a \<le> a'" "a' < b"
    "\<forall>j. a < j \<longrightarrow> j \<le> a' \<longrightarrow> ahead t (ek_index ek) j" "\<not> ahead t (ek_index ek) (a' + 1)" by blast
  have "adjustasize c2i t a ek = Inr a'" unfolding adjustasize_def Let_def e a'(1) by (simp add: terminates_def)
  moreover have "a' \<le> a + int (entries t) + 1" using a'(3) b(2) by simp
  ultimately show ?thesis using a' by blast
qed

section \<open>Rehashing\<close>

definition all_indices :: "'v LuaTable \<Rightarrow> TKey \<Rightarrow> int list" where
  "all_indices t ek = array_indices t (t_sizearray t) @ node_indices t @ (case pos_index ek of Some j \<Rightarrow> [j] | None \<Rightarrow> [])"

lemma pos_index_iff: "pos_index k = Some j \<longleftrightarrow> int_key k = Some j \<and> 1 \<le> j \<and> j \<le> 2 ^ 26"
  by (auto simp: pos_index_def split: option.splits)

lemma index_le_pos: "m \<le> 2 ^ 26 \<Longrightarrow> index_le m k \<longleftrightarrow> (\<exists>j \<le> m. pos_index k = Some j)"
  by (auto simp: index_le_def pos_index_def split: option.splits)

lemma in_array_indices:
  assumes "tinv t"
  shows "j \<in> set (array_indices t (t_sizearray t)) \<longleftrightarrow> 1 \<le> j \<and> j \<le> t_sizearray t \<and> tval t (num j) \<noteq> None"
proof -
  have "tval t (num j) = t_array t ! nat (j - 1)" if "1 \<le> j" "j \<le> t_sizearray t"
  proof -
    have "in_int32 j" using that tinvD(5) [OF assms] by (simp add: in_int32_def)
    then show ?thesis using that by (simp add: tval_def in_range_num key_index_num)
  qed
  moreover have "j \<in> set (array_indices t (t_sizearray t)) \<longleftrightarrow> 1 \<le> j \<and> j \<le> t_sizearray t \<and> t_array t ! nat (j - 1) \<noteq> None"
    by (simp add: array_indices_def)
  ultimately show ?thesis by metis
qed

lemma in_node_indices:
  assumes "tinv t"
  shows "j \<in> set (node_indices t) \<longleftrightarrow> 1 \<le> j \<and> j \<le> 2 ^ 26 \<and> \<not> j \<le> t_sizearray t \<and> tval t (num j) \<noteq> None"
proof
  assume "j \<in> set (node_indices t)"
  then obtain e where e: "e \<in> set (node_elems t)" "pos_index (fst e) = Some j" by (auto simp: node_indices_def in_map_filter)
  note k = not_in_range_node [OF assms e(1)]
  have j: "int_key (fst e) = Some j" "1 \<le> j" "j \<le> 2 ^ 26" using e(2) by (auto simp: pos_index_iff)
  then have "tval t (num j) = tval t (fst e)" by (intro tval_cong) (auto simp: int_key_iff)
  with j k show "1 \<le> j \<and> j \<le> 2 ^ 26 \<and> \<not> j \<le> t_sizearray t \<and> tval t (num j) \<noteq> None" by (auto simp: in_range_def)
next
  assume j: "1 \<le> j \<and> j \<le> 2 ^ 26 \<and> \<not> j \<le> t_sizearray t \<and> tval t (num j) \<noteq> None"
  then have i: "in_int32 j" by (simp add: in_int32_def)
  with j obtain v where "hval (t_node t) (num j) = Some v" by (auto simp: tval_def in_range_num)
  then obtain k where k: "(k, v) \<in> set (node_elems t)" "luaO_rawequalKey k (num j)" using hval_elems [OF tinvD(3) [OF assms] live_num [OF i]] by blast
  then have "pos_index k = Some j" using int_key_cong [OF k(2)] i j by (simp add: pos_index_def)
  with k(1) show "j \<in> set (node_indices t)" unfolding node_indices_def in_map_filter by (intro bexI [of _ "(k, v)"]) simp_all
qed

lemma sorted_wrt_distinct: "sorted_wrt (\<noteq>) xs \<Longrightarrow> distinct xs"
  by (induction xs) auto

lemma distinct_node_indices:
  assumes "tinv t"
  shows "distinct (node_indices t)"
proof -
  have "sorted_wrt (\<noteq>) (node_indices t)"
    unfolding node_indices_def
  proof (rule sorted_wrt_map_filter)
    show "sorted_wrt (\<lambda>a b. \<not> luaO_rawequalKey (fst a) (fst b)) (node_elems t)"
      using distinct_node_elems [OF tinvD(3) [OF assms]] by (simp add: distinct_keys_def)
    fix e e' j j' assume ne: "\<not> luaO_rawequalKey (fst e) (fst e')" and "pos_index (fst e) = Some j" "pos_index (fst e') = Some j'"
    then have "luaO_rawequalKey (num j) (fst e)" "luaO_rawequalKey (num j') (fst e')" by (simp_all add: pos_index_iff int_key_iff)
    with ne show "j \<noteq> j'" using rawequal_trans [OF rawequal_sym, of "num j" "fst e" "fst e'"] by metis
  qed
  then show ?thesis by (rule sorted_wrt_distinct)
qed

lemma in_all_indices:
  assumes "tinv t"
  shows "j \<in> set (all_indices t ek) \<longleftrightarrow> 1 \<le> j \<and> j \<le> 2 ^ 26 \<and> (tval t (num j) \<noteq> None \<or> int_key ek = Some j)"
proof -
  have "j \<in> set (case pos_index ek of Some j \<Rightarrow> [j] | None \<Rightarrow> []) \<longleftrightarrow> int_key ek = Some j \<and> 1 \<le> j \<and> j \<le> 2 ^ 26"
  proof (cases "pos_index ek")
    case None
    then have "\<not> (int_key ek = Some j \<and> 1 \<le> j \<and> j \<le> 2 ^ 26)" unfolding pos_index_iff [symmetric] by simp
    with None show ?thesis by simp
  next
    case (Some i)
    then have "int_key ek = Some i" "1 \<le> i" "i \<le> 2 ^ 26" by (simp_all only: pos_index_iff)
    with Some show ?thesis by auto
  qed
  then show ?thesis
    using in_array_indices [OF assms, of j] in_node_indices [OF assms, of j] tinvD(5) [OF assms]
    unfolding all_indices_def by auto
qed

lemma indices_all: "tinv t \<Longrightarrow> indices (all_indices t ek)"
  by (auto simp: indices_def in_all_indices)

lemma distinct_all:
  assumes "tinv t" "tval t ek = None"
  shows "distinct (all_indices t ek)"
proof -
  have ek: "tval t (num j) = None" if "pos_index ek = Some j" for j
    using assms(2) that tval_cong [of "num j" ek t] by (simp add: pos_index_iff int_key_iff)
  have "distinct (array_indices t (t_sizearray t))" by (simp add: array_indices_def)
  then show ?thesis
    using distinct_node_indices [OF assms(1)] ek
    by (auto simp: all_indices_def in_array_indices [OF assms(1)] in_node_indices [OF assms(1)] split: option.splits)
qed

text \<open>Every element has a place in the array part, or needs a node.\<close>

lemma outside_up_to:
  assumes "tinv t" "0 \<le> m" "m \<le> 2 ^ 26"
  shows "outside t m + (if index_le m ek then 0 else 1) + up_to (all_indices t ek) m = entries t + 1"
proof -
  have a: "length (array_elems t m) + up_to (array_indices t (t_sizearray t)) m = length (filter (\<lambda>v. v \<noteq> None) (t_array t))"
  proof -
    note sz = tinvD(4,6) [OF assms(1)]
    let ?P = "\<lambda>j. t_array t ! nat (j - 1) \<noteq> None"
    have "up_to (array_indices t (t_sizearray t)) m + length (filter (\<lambda>j. \<not> j \<le> m) (array_indices t (t_sizearray t))) =
      length (array_indices t (t_sizearray t))" by (simp add: up_to_def sum_length_filter_compl)
    moreover have "length (filter (\<lambda>j. \<not> j \<le> m) (array_indices t (t_sizearray t))) = length (array_elems t m)"
    proof -
      have "filter (\<lambda>j. \<not> j \<le> m) [1..t_sizearray t] = [m + 1..t_sizearray t]"
      proof (cases "m \<le> t_sizearray t")
        case True
        have "filter (\<lambda>j. \<not> j \<le> m) ([1..m] @ [m + 1..t_sizearray t]) = [m + 1..t_sizearray t]"
          by (simp add: filter_empty_conv filter_id_conv)
        then show ?thesis unfolding upto_join [OF assms(2) True] .
      qed (simp add: filter_empty_conv)
      then have "filter (\<lambda>j. \<not> j \<le> m) (array_indices t (t_sizearray t)) = filter ?P [m + 1..t_sizearray t]"
        unfolding array_indices_def filter_filter by (metis (no_types, lifting) filter_cong filter_filter)
      also have "[m + 1..t_sizearray t] = map (\<lambda>i. i + 1) [m..t_sizearray t - 1]"
        by (intro nth_equalityI) (simp_all add: nth_upto)
      finally show ?thesis by (simp add: array_elems_def array_elem_def length_map_filter filter_map comp_def)
    qed
    ultimately show ?thesis using length_array_indices [OF assms(1)] by simp
  qed
  have n: "length (filter (\<lambda>e. \<not> index_le m (fst e)) (node_elems t)) + up_to (node_indices t) m = length (node_elems t)"
  proof -
    have "length (filter (\<lambda>e. \<not> index_le m (fst e)) es) + up_to (List.map_filter (\<lambda>e. pos_index (fst e)) es) m = length es" for es :: "(TKey \<times> 'a) list"
      by (induction es) (auto simp: up_to_def map_filter_simps index_le_pos [OF assms(3)] split: option.splits)
    then show ?thesis by (simp add: node_indices_def)
  qed
  have "up_to (case pos_index ek of Some j \<Rightarrow> [j] | None \<Rightarrow> []) m + (if index_le m ek then 0 else 1) = 1"
    using index_le_pos [OF assms(3), of ek] by (auto simp: up_to_def split: option.splits)
  moreover have "up_to (xs @ ys) m = up_to xs m + up_to ys m" for xs ys by (simp add: up_to_def)
  ultimately show ?thesis using a n entries_elems [OF assms(1)] by (simp add: outside_def all_indices_def)
qed

lemma tally_snoc: "tally (js @ (case p of Some j \<Rightarrow> [j] | None \<Rightarrow> [])) = (case p of None \<Rightarrow> tally js | Some j \<Rightarrow> tally (js @ [j]))"
  by (simp split: option.splits)

lemma up_to_card: "distinct js \<Longrightarrow> up_to js x = card (set js \<inter> {..x})"
  using distinct_length_filter [of js "\<lambda>j. j \<le> x"] by (simp add: up_to_def atMost_def Int_commute)

lemma up_to_more:
  assumes "distinct js" "n \<le> n'" "finite X" "set js \<inter> {..n} \<subseteq> X" "\<And>j. n < j \<Longrightarrow> j \<le> n' \<Longrightarrow> j \<in> X"
  shows "int (up_to js n) + (n' - n) \<le> int (card X)"
proof -
  have "card ((set js \<inter> {..n}) \<union> {n<..n'}) \<le> card X" using assms by (intro card_mono) auto
  moreover have "card ((set js \<inter> {..n}) \<union> {n<..n'}) = card (set js \<inter> {..n}) + card {n<..n'}" by (intro card_Un_disjoint) auto
  ultimately show ?thesis using assms(2) by (simp add: up_to_card [OF assms(1)])
qed

lemma index_neq_ek: "ek_index (Some ek) = j \<Longrightarrow> 1 \<le> j \<Longrightarrow> int_key ek = Some j"
  by (auto simp: ek_index_def split: option.splits)

text \<open>A rehash resizes the table to sizes for which every element and the new key have a place.\<close>

lemma rehash_spec:
  assumes c: "casts c2i" and inv: "tinv t" and ek: "tval t ek = None"
  shows "\<exists>m nh. rehash c2i nk t ek = resize c2i nk t m nh \<and> 0 \<le> m \<and> m \<le> 5 * int (entries t + 1) \<and> 0 \<le> nh \<and> nh \<le> int (entries t + 1) \<and>
    tval t (num (m + 1)) = None \<and> int_key ek \<noteq> Some (m + 1) \<and>
    (m \<le> 2 ^ 26 \<longrightarrow> int (outside t m) + (if index_le m ek then 0 else 1) \<le> nh)"
proof -
  let ?A = "array_indices t (t_sizearray t)" and ?N = "node_indices t" and ?J = "all_indices t ek"
  let ?E = "int (entries t) + 1" and ?x = "ek_index (Some ek)"
  have J: "indices ?J" "distinct ?J" by (rule indices_all [OF inv], rule distinct_all [OF inv ek])
  have E: "?E \<le> 2 ^ 27 + 1" using entries_le [OF inv] by simp
  have use: "int (length ?A) + int (length (node_elems t)) + 1 = ?E"
    using entries_elems [OF inv] length_array_indices [OF inv] by simp
  have len: "int (length ?A) + int (length ?N) + (case pos_index ek of None \<Rightarrow> 0 | Some j \<Rightarrow> 1) = int (length ?J)"
    by (simp add: all_indices_def split: option.splits)
  have "length ?J \<le> entries t + 1"
    using entries_elems [OF inv] length_array_indices [OF inv] length_map_filter_le [of "\<lambda>e. pos_index (fst e)" "node_elems t"]
    by (simp add: all_indices_def node_indices_def split: option.splits)
  then have JE: "int (length ?J) \<le> ?E" by linarith
  from computesizes_spec [OF J] obtain na n where cs: "computesizes (tally ?J) (int (length ?J)) = Inr (na, n)" and ch: "chosen ?J na n" by blast
  note cb = chosen_bounds [OF ch J]
  have a1: "0 \<le> n" "n + int (entries t) + 2 < 2 ^ 31" using cb E by auto
  from adjustasize_spec [OF c inv a1, of "Some ek"] obtain n1 where n1: "adjustasize c2i t n (Some ek) = Inr n1" "n \<le> n1" "n1 \<le> n + ?E"
    "\<And>j. n < j \<Longrightarrow> j \<le> n1 \<Longrightarrow> ahead t ?x j" "\<not> ahead t ?x (n1 + 1)" by auto
  define e where "e = n1 - n"
  have "\<exists>m. (if e \<noteq> 0 then bindE (adjustasize c2i t (n1 + e) (Some ek)) (\<lambda>nasize. Inr (nasize, ?E - na - e)) else Inr (n, ?E - na)) =
      Inr (m, ?E - na - e) \<and> n1 \<le> m \<and> m \<le> n + 3 * ?E \<and> \<not> ahead t ?x (m + 1)"
  proof (cases "e = 0")
    case True
    then show ?thesis using n1 by (simp add: e_def)
  next
    case False
    have a2: "0 \<le> n1 + e" "n1 + e + int (entries t) + 2 < 2 ^ 31" using n1 cb E a1 by (auto simp: e_def)
    from adjustasize_spec [OF c inv a2, of "Some ek"] obtain m where m: "adjustasize c2i t (n1 + e) (Some ek) = Inr m" "n1 + e \<le> m"
      "m \<le> n1 + e + ?E" "\<not> ahead t ?x (m + 1)" by auto
    with False n1 show ?thesis by (intro exI [of _ m]) (simp add: e_def)
  qed
  then obtain m where m: "(if e \<noteq> 0 then bindE (adjustasize c2i t (n1 + e) (Some ek)) (\<lambda>nasize. Inr (nasize, ?E - na - e)) else Inr (n, ?E - na)) =
      Inr (m, ?E - na - e)" "n1 \<le> m" "m \<le> n + 3 * ?E" "\<not> ahead t ?x (m + 1)" by blast
  have more: "na + e \<le> int (up_to ?J m)" if m26: "m \<le> 2 ^ 26"
    unfolding cb(4) e_def up_to_card [OF J(2), of m]
  proof (rule up_to_more [OF J(2) n1(2)])
    show "set ?J \<inter> {..n} \<subseteq> set ?J \<inter> {..m}" using m(2) n1(2) by auto
    fix j assume j: "n < j" "j \<le> n1"
    then have "1 \<le> j" "j \<le> 2 ^ 26" using a1 m(2) m26 by auto
    with n1(4) [OF j] index_neq_ek [of ek j] show "j \<in> set ?J \<inter> {..m}" using j m(2) by (auto simp: in_all_indices [OF inv] ahead_def)
  qed simp
  have all: "na + e \<le> ?E"
  proof -
    have "na + e \<le> int (card (insert ?x (int_keys t)))"
      unfolding cb(4) e_def
    proof (rule up_to_more [OF J(2) n1(2)])
      show "finite (insert ?x (int_keys t))" using int_keys_card(1) [OF inv] by simp
      show "set ?J \<inter> {..n} \<subseteq> insert ?x (int_keys t)"
        by (auto simp: in_all_indices [OF inv] int_keys_def in_int32_def ek_index_def)
      fix j assume j: "n < j" "j \<le> n1"
      then have "in_int32 j" using n1(3) a1 by (auto simp: in_int32_def)
      with n1(4) [OF j] show "j \<in> insert ?x (int_keys t)" by (auto simp: ahead_def int_keys_def)
    qed
    also have "card (insert ?x (int_keys t)) \<le> entries t + 1" using int_keys_card [OF inv] by (simp add: card_insert_if)
    finally show ?thesis by simp
  qed
  have "rehash c2i nk t ek = resize c2i nk t m (?E - na - e)"
  proof -
    have ja: "?A @ ?N @ (case pos_index ek of Some j \<Rightarrow> [j] | None \<Rightarrow> []) = ?J" by (simp add: all_indices_def)
    have ck: "(case ek of KeyNumber d \<Rightarrow> countint c2i d (tally (?A @ ?N)) | _ \<Rightarrow> Inr (0, tally (?A @ ?N))) =
      Inr (case pos_index ek of None \<Rightarrow> 0 | Some j \<Rightarrow> 1, tally ?J)"
      unfolding count_key [OF c] ja [symmetric] by (simp split: option.splits)
    have "n1 - n = e" by (simp add: e_def)
    moreover have "n1 + (n1 - n) = n1 + e" by (simp add: e_def)
    ultimately show ?thesis
      unfolding rehash_def numusearray_spec [OF inv] bindE_simps Let_def case_prod_conv numusehash_spec [OF c tinvD(3) [OF inv]] ck
      using use len cs n1(1) m(1) by (cases "n1 = n") (simp_all add: e_def)
  qed
  moreover have "m \<le> 5 * ?E" using m(3) cb(5,6) JE by simp
  moreover have "0 \<le> ?E - na - e" using all by simp
  moreover have "int_key ek \<noteq> Some (m + 1)" using m(4) by (auto simp: ahead_def ek_index_def)
  moreover have "int (outside t m) + (if index_le m ek then 0 else 1) \<le> ?E - na - e" if "m \<le> 2 ^ 26"
    using more [OF that] outside_up_to [OF inv _ that, of ek] m(2) n1(2) a1(1) by (simp split: if_splits)
  ultimately show ?thesis using m(2,4) n1(2) a1(1) cb by (intro exI [of _ m] exI [of _ "?E - na - e"]) (auto simp: ahead_def e_def)
qed

end
