(* ===== verification/TableSpec.thy ===== *)
theory TableSpec
  imports TableRehash
begin

text \<open>
  What a table promises. A new key always finds a node, assignment changes the value of one key, so sequences of operations refine a map;
  \<^verbatim>\<open>luaH_getn\<close> returns a border; \<^verbatim>\<open>luaH_next\<close> and \<^verbatim>\<open>lua_rawiter\<close> visit every element once; the
  recursion of \<^verbatim>\<open>newkey\<close> ends.
\<close>

section \<open>A new key\<close>

definition same_header :: "'v LuaTable \<Rightarrow> 'v LuaTable \<Rightarrow> bool" where
  "same_header t t' \<longleftrightarrow> t_metatable t' = t_metatable t \<and> t_readonly t' = t_readonly t \<and> t_safeenv t' = t_safeenv t"

definition located :: "'v LuaTable \<Rightarrow> TKey \<Rightarrow> slot \<Rightarrow> 'v LuaTable \<Rightarrow> bool" where
  "located t k p t' \<longleftrightarrow>
     tinv t' \<and> slot_for t' k p \<and> (\<forall>k'. live_key k' \<longrightarrow> tval t' k' = tval t k') \<and> entries t' = entries t \<and>
     same_header t t' \<and> t_tmcache t' = t_tmcache t"

lemma tinv_same_frame:
  assumes "tinv t" "same_frame t t'" "base_inv t'" "min 0 (t_lastfree t) \<le> t_lastfree t'"
  shows "tinv t'"
  using assms same_frameD [OF assms(2)] by (auto simp: tinv_def)

lemma tinv_lastfree:
  assumes "tinv t" "lf = t_lastfree t \<or> full t \<and> lf = min 0 (t_lastfree t)"
  shows "tinv (t\<lparr>t_lastfree := lf\<rparr>)"
  using assms by (auto simp: tinv_def base_inv_def hash_ok_def full_def node_inv_def sizes_ok_def)

lemma same_table_lastfree:
  "tval (t\<lparr>t_lastfree := lf\<rparr>) k = tval t k" "entries (t\<lparr>t_lastfree := lf\<rparr>) = entries t"
  by (simp_all add: tval_def entries_def)

lemma newkey_fits:
  assumes c: "casts c2i" and inv: "tinv t" and key: "live_key k" "\<not> stored t k" "\<not> boundary_key t k" and room: "used t < length (t_node t)"
  shows "\<exists>p t'. newkey (Suc d) c2i t k = Inr (p, t') \<and> located t k p t'"
proof -
  from newkey_room [OF tinvD(1) [OF inv] key room, of d c2i] obtain p t' where t': "newkey (Suc d) c2i t k = Inr (p, t')" "keyed t k p t'"
    "same_frame t t'" "min 0 (t_lastfree t) \<le> t_lastfree t'" by blast
  have "located t k p t'"
    using t' same_frameD [OF t'(3)] same_frame_safeenv [OF t'(3)] tinv_same_frame [OF inv t'(3) _ t'(4)]
    by (simp add: located_def keyed_def same_header_def)
  with t'(1) show ?thesis by blast
qed

lemma resize_overflow: "m > 2 ^ 26 \<or> n > 2 ^ 26 \<Longrightarrow> resize c2i nk t m n = Inl (Thrown ''table overflow'')"
  by (auto simp: resize_def MAXSIZE_def guardE_def)

lemma rehash_then_insert:
  assumes c: "casts c2i" and inv: "tinv t" and key: "live_key k" "\<not> stored t k"
  shows "(\<exists>p t'. bindE (rehash c2i (newkey (Suc d) c2i) t k) (\<lambda>t. arrayornewkey c2i (newkey (Suc d) c2i) t k) = Inr (p, t') \<and> located t k p t') \<or>
    bindE (rehash c2i (newkey (Suc d) c2i) t k) (\<lambda>t. arrayornewkey c2i (newkey (Suc d) c2i) t k) = Inl (Thrown ''table overflow'') \<and> 2 ^ 23 \<le> entries t"
proof -
  have none: "tval t k = None" using not_stored [OF tinvD(1) [OF inv] key] by blast
  from rehash_spec [OF c inv none, of "newkey (Suc d) c2i"] obtain m nh where r: "rehash c2i (newkey (Suc d) c2i) t k = resize c2i (newkey (Suc d) c2i) t m nh"
    and m: "0 \<le> m" "m \<le> 5 * int (entries t + 1)" and nh: "0 \<le> nh" "nh \<le> int (entries t + 1)"
    and absent: "tval t (num (m + 1)) = None" "int_key k \<noteq> Some (m + 1)"
    and room: "m \<le> 2 ^ 26 \<longrightarrow> int (outside t m) + (if index_le m k then 0 else 1) \<le> nh" by blast
  show ?thesis
  proof (cases "m \<le> 2 ^ 26 \<and> nh \<le> 2 ^ 26")
    case False
    have "2 ^ 23 \<le> entries t"
    proof (rule ccontr)
      assume "\<not> 2 ^ 23 \<le> entries t"
      then have "int (entries t + 1) \<le> 2 ^ 23" by simp
      with m nh False show False by simp
    qed
    with False show ?thesis unfolding r by (simp add: resize_overflow not_le del: newkey.simps)
  next
    case True
    then have m26: "m \<le> 2 ^ 26" and nh26: "nh \<le> 2 ^ 26" by simp_all
    have out: "int (outside t m) \<le> nh" using room m26 by (simp split: if_splits)
    from resize_spec [OF c inv m(1) m26 nh(1) nh26 absent(1) out, of d]
    obtain t1 where t1: "resize c2i (newkey (Suc d) c2i) t m nh = Inr t1" "resized t m nh t1" by blast
    have rs: "tinv t1" "t_sizearray t1 = m" "nh \<le> int (length (t_node t1))" "used t1 \<le> outside t m" "entries t1 = entries t"
      "\<And>k. live_key k \<Longrightarrow> tval t1 k = tval t k" "\<And>k. live_key k \<Longrightarrow> stored t1 k \<Longrightarrow> in_range t1 k \<or> tval t k \<noteq> None"
      "same_header t t1" "t_tmcache t1 = t_tmcache t"
      using t1(2) by (auto simp: resized_def same_header_def)
    have "\<exists>p t'. arrayornewkey c2i (newkey (Suc d) c2i) t1 k = Inr (p, t') \<and> located t1 k p t'"
    proof (cases "in_range t1 k")
      case True
      then show ?thesis using rs(1)
        by (simp add: arrayornewkey_eq [OF c tinvD(2) [OF rs(1)]] located_def slot_for_def same_header_def)
    next
      case False
      then have "used t1 < length (t_node t1)" using room m26 rs(2,3,4) by (simp add: in_range_index split: if_splits)
      moreover have "\<not> stored t1 k" using rs(7) [OF key(1)] False none by blast
      moreover have "\<not> boundary_key t1 k" using absent(2) rs(2) by (simp add: boundary_key_def)
      ultimately have "\<exists>p t'. newkey (Suc d) c2i t1 k = Inr (p, t') \<and> located t1 k p t'" by (intro newkey_fits [OF c rs(1) key(1)])
      then show ?thesis using False by (simp add: arrayornewkey_eq [OF c tinvD(2) [OF rs(1)]] del: newkey.simps)
    qed
    then obtain p t' where t': "arrayornewkey c2i (newkey (Suc d) c2i) t1 k = Inr (p, t')" "located t1 k p t'" by blast
    have "located t k p t'" using t'(2) rs(5,6,8,9) by (simp add: located_def same_header_def)
    then show ?thesis unfolding r t1(1) bindE_simps t'(1) by blast
  qed
qed

lemma newkey_spec:
  assumes c: "casts c2i" and inv: "tinv t" and key: "live_key k" "\<not> stored t k"
  shows "(\<exists>p t'. newkey (Suc (Suc d)) c2i t k = Inr (p, t') \<and> located t k p t') \<or>
    newkey (Suc (Suc d)) c2i t k = Inl (Thrown ''table overflow'') \<and> 2 ^ 23 \<le> entries t"
proof -
  have ok: "hash_ok t" "t_node t = [] \<Longrightarrow> t_lastfree t \<le> 0" using tinvD(1) [OF inv] by (simp_all add: base_inv_def)
  have absent: "\<forall>i. \<not> holder (t_node t) k i" using key(2) by (auto simp: stored_def)
  show ?thesis
  proof (rule newkey_body_cases [of t k c2i "newkey (Suc d) c2i"])
    fix q x ns' lf
    let ?t = "t\<lparr>t_node := ns', t_lastfree := lf\<rparr>"
    assume nonempty: "t_node t \<noteq> []" and boundary: "\<not> boundary_key t k" and call: "newkey_body c2i (newkey (Suc d) c2i) t k = Inr (NodeSlot q, ?t)"
      and ins: "inserted (t_lsizenode t) (t_node t) ns' k q x" "hash_ok ?t" and lf: "min 0 (t_lastfree t) \<le> lf"
    from keyed_inserted [OF tinvD(1) [OF inv] key boundary nonempty ins] have k: "keyed t k (NodeSlot q) ?t" "same_frame t ?t" by auto
    have "tinv ?t" using k(1) lf by (intro tinv_same_frame [OF inv k(2)]) (simp_all add: keyed_def)
    with k(1) have "located t k (NodeSlot q) ?t" by (simp add: located_def keyed_def same_header_def)
    then show ?thesis using call by simp
  next
    fix lf assume lf: "lf = t_lastfree t \<or> full t \<and> lf = min 0 (t_lastfree t)"
      and call: "newkey_body c2i (newkey (Suc d) c2i) t k =
        bindE (rehash c2i (newkey (Suc d) c2i) (t\<lparr>t_lastfree := lf\<rparr>) k) (\<lambda>t. arrayornewkey c2i (newkey (Suc d) c2i) t k)"
    let ?t = "t\<lparr>t_lastfree := lf\<rparr>"
    have "\<not> stored ?t k" using key(2) by (simp add: stored_def)
    from rehash_then_insert [OF c tinv_lastfree [OF inv lf] key(1) this, of d]
    show ?thesis unfolding newkey.simps(2) [of "Suc d"] call
      by (auto simp: located_def same_header_def same_table_lastfree)
  qed (use ok absent key tinvD(4,5) [OF inv] in auto)
qed

section \<open>Assignments\<close>

text \<open>The effect of \<open>t[k] = v\<close>.\<close>

definition updated :: "'v LuaTable \<Rightarrow> TKey \<Rightarrow> 'v option \<Rightarrow> 'v LuaTable \<Rightarrow> bool" where
  "updated t k v t' \<longleftrightarrow>
     tinv t' \<and> (\<forall>k'. live_key k' \<longrightarrow> tval t' k' = (if luaO_rawequalKey k k' then v else tval t k')) \<and>
     entries t' + (if tval t k = None then 0 else 1) = entries t + (if v = None then 0 else 1) \<and> same_header t t'"

lemma write_located:
  assumes "located t k p t'" "live_key k"
  shows "\<exists>t''. write_slot t' p v = Inr t'' \<and> updated t k v t''"
proof -
  have t': "tinv t'" "slot_for t' k p" "\<And>k'. live_key k' \<Longrightarrow> tval t' k' = tval t k'" "entries t' = entries t" "same_header t t'"
    using assms(1) by (auto simp: located_def)
  from write_slot_for [OF tinvD(1) [OF t'(1)] assms(2) t'(2)] obtain t'' where w: "write_slot t' p v = Inr t''" "assigned t' k v t''" by blast
  then have a: "base_inv t''" "same_frame t' t''" "t_lastfree t'' = t_lastfree t'"
    "\<And>k'. live_key k' \<Longrightarrow> tval t'' k' = (if luaO_rawequalKey k k' then v else tval t' k')"
    "entries t'' + (if tval t' k = None then 0 else 1) = entries t' + (if v = None then 0 else 1)" by (auto simp: assigned_def)
  have "tinv t''" using a(3) by (intro tinv_same_frame [OF t'(1) a(2,1)]) simp
  moreover have "same_header t t''" using t'(5) same_frameD [OF a(2)] same_frame_safeenv [OF a(2)] by (simp add: same_header_def)
  ultimately have "updated t k v t''" using a t' assms(2) by (simp add: updated_def)
  with w(1) show ?thesis by blast
qed

definition find_or_insert :: "num2int \<Rightarrow> 'v LuaTable \<Rightarrow> TKey \<Rightarrow> (slot \<times> 'v LuaTable) cpp" where
  "find_or_insert c2i t k = (if key_slot t k \<noteq> NilObject then Inr (key_slot t k, t) else newkey newkey_depth c2i t k)"

lemma find_or_insert_spec:
  assumes c: "casts c2i" and inv: "tinv t" and key: "live_key k"
  shows "(\<exists>p t'. find_or_insert c2i t k = Inr (p, t') \<and> located t k p t') \<or>
    find_or_insert c2i t k = Inl (Thrown ''table overflow'') \<and> 2 ^ 23 \<le> entries t"
proof (cases "stored t k")
  case True
  with key_slot_for [OF tinvD(1) [OF inv] key] stored_not_nil [OF tinvD(1) [OF inv] key] inv show ?thesis
    by (simp add: find_or_insert_def located_def same_header_def)
next
  case False
  have "find_or_insert c2i t k = newkey (Suc (Suc 0)) c2i t k"
    using not_stored [OF tinvD(1) [OF inv] key False] by (simp add: find_or_insert_def newkey_depth_def numeral_2_eq_2 del: newkey.simps)
  with newkey_spec [OF c inv key False, of 0] show ?thesis by simp
qed

lemma store_spec:
  assumes "casts c2i" "tinv t" "live_key k"
  shows "(\<exists>t'. bindE (find_or_insert c2i t k) (\<lambda>(p, t). write_slot t p v) = Inr t' \<and> updated t k v t') \<or>
    bindE (find_or_insert c2i t k) (\<lambda>(p, t). write_slot t p v) = Inl (Thrown ''table overflow'') \<and> 2 ^ 23 \<le> entries t"
  using find_or_insert_spec [OF assms]
proof
  assume "\<exists>p t'. find_or_insert c2i t k = Inr (p, t') \<and> located t k p t'"
  then obtain p t' where "find_or_insert c2i t k = Inr (p, t')" "located t k p t'" by blast
  with write_located [OF this(2) assms(3), of v] show ?thesis by simp
qed simp

text \<open>The cache of metamethods is no part of the contents.\<close>

lemma invalidate [simp]:
  "tval (invalidateTMcache t) k = tval t k" "entries (invalidateTMcache t) = entries t" "stored (invalidateTMcache t) k = stored t k"
  "tinv (invalidateTMcache t) = tinv t" "key_slot (invalidateTMcache t) k = key_slot t k" "t_readonly (invalidateTMcache t) = t_readonly t"
  by (simp_all add: invalidateTMcache_def tval_def entries_def stored_def tinv_def base_inv_def hash_ok_def node_inv_def sizes_ok_def
      key_slot_def node_slot_def)

lemma updated_invalidate: "updated (invalidateTMcache t) k v t' = updated t k v t'"
  by (simp add: updated_def) (simp add: same_header_def invalidateTMcache_def)

lemma luaH_newkey_live: "live_key k \<Longrightarrow> luaH_newkey c2i t k = newkey newkey_depth c2i t k"
  by (cases k) (auto simp: luaH_newkey_def live_key_def)

lemma luaH_set_eq:
  assumes "casts c2i" "tinv t" "live_key k"
  shows "luaH_set c2i t k = find_or_insert c2i (invalidateTMcache t) k"
  using luaH_get_slot [OF assms(1) tinvD(3,2) [OF assms(2)] live_hashable [OF assms(3)]]
  by (simp add: luaH_newkey_live [OF assms(3)] luaH_set_def find_or_insert_def Let_def)

lemma luaH_setstr_eq: "tinv t \<Longrightarrow> luaH_setstr c2i t s = find_or_insert c2i (invalidateTMcache t) (KeyGc (GcString s))"
  by (simp add: luaH_setstr_def find_or_insert_def Let_def luaH_getstr_slot [OF tinvD(3)])

lemma luaH_setp_eq: "tinv t \<Longrightarrow> luaH_setp c2i t p tag = find_or_insert c2i t (KeyLightUserdata p tag)"
  by (simp add: luaH_setp_def find_or_insert_def luaH_getp_slot [OF tinvD(3)])

lemma luaH_setnum_eq:
  assumes "tinv t" "in_int32 n"
  shows "luaH_setnum c2i t n = find_or_insert c2i t (num n)"
proof (cases "in_array_part n (t_sizearray t)")
  case True
  then have "in_range t (num n)" using in_array_part_num [OF tinvD(2) [OF assms(1)] assms(2)] by simp
  then have "key_slot t (num n) = ArraySlot (nat (n - 1))" by (simp add: key_slot_def key_index_num [OF assms(2)])
  with True show ?thesis by (simp add: luaH_setnum_def find_or_insert_def)
next
  case False
  then show ?thesis by (simp add: luaH_setnum_def find_or_insert_def luaH_getnum_slot [OF tinvD(3,2) [OF assms(1)] assms(2)])
qed

lemma key_cases:
  obtains "k = KeyNil" | r where "k = KeyDead r" | "key_isnan k" | "live_key k"
  by (auto simp: live_key_def)

lemma tval_nan: "key_isnan k \<Longrightarrow> tval t k = None"
proof -
  assume nan: "key_isnan k"
  have "int_key k = None" using nan_not_rawequal [OF nan] int_key_iff [of k] by (cases "int_key k") auto
  moreover have "held (t_node t) k = None" using nan_not_rawequal [OF nan] by (auto simp: held_def find_None_iff)
  ultimately show ?thesis by (simp add: tval_def in_range_def hval_def)
qed

section \<open>The collector\<close>

text \<open>A visit of the collector changes no value.\<close>

lemma removeentry_spec:
  assumes inv: "tinv t" and i: "i < length (t_node t)" "gval (t_node t ! i) = None"
  shows "\<exists>t'. removeentry t i = Inr t' \<and> tinv t' \<and> (\<forall>k. live_key k \<longrightarrow> tval t' k = tval t k) \<and>
    entries t' = entries t \<and> same_header t t' \<and> sizenode t' = sizenode t"
proof (cases "\<exists>r. gkey (t_node t ! i) = KeyGc r")
  case False
  then have "removeentry t i = Inr t" using i by (auto simp: removeentry_def gnode_def guardE_def split: TKey.splits)
  then show ?thesis using inv by (simp add: same_header_def)
next
  case True
  then obtain r where r: "gkey (t_node t ! i) = KeyGc r" by blast
  let ?ns = "(t_node t)[i := (t_node t ! i)\<lparr>gkey := KeyDead r\<rparr>]"
  have ne: "t_node t \<noteq> []" using i by auto
  have res: "removeentry t i = Inr (t\<lparr>t_node := ?ns\<rparr>)"
    using i r ne by (simp add: removeentry_def gnode_def guardE_def set_node_def)
  have hinv: "hash_inv (t_lsizenode t) (t_node t)" using inv ne by (simp add: tinv_def base_inv_def hash_ok_inv)
  note d = hash_inv_dead [OF hinv i(1) r i(2)]
  have ik: "int_key (KeyDead r) = None" by (simp add: int_key_def)
  have k: "gkey (?ns ! j) = (if j = i then KeyDead r else gkey (t_node t ! j))" if "j < length (t_node t)" for j
    using that i by (simp add: nth_list_update)
  have "tinv (t\<lparr>t_node := ?ns\<rparr>)"
    using inv d(1) ne ik k by (auto simp: tinv_def base_inv_def hash_ok_def node_inv_def sizes_ok_def split: if_splits)
  moreover have "tval (t\<lparr>t_node := ?ns\<rparr>) k = tval t k" if "live_key k" for k
    using d(2) [OF that] by (simp add: tval_def)
  moreover have "ents ?ns = ents (t_node t)"
  proof -
    have "t_node t ! i \<in># mset (t_node t)" using i(1) by simp
    then have "mset (t_node t) = add_mset (t_node t ! i) (mset (t_node t) - {#t_node t ! i#})" by simp
    then have "ents (t_node t) = image_mset (\<lambda>n. (gkey n, gval n)) (filter_mset (\<lambda>n. gval n \<noteq> None) (mset (t_node t) - {#t_node t ! i#}))"
      using i(2) unfolding ents_def by (metis (mono_tags, lifting) filter_mset_add_mset)
    moreover have "ents ?ns = image_mset (\<lambda>n. (gkey n, gval n)) (filter_mset (\<lambda>n. gval n \<noteq> None) (mset (t_node t) - {#t_node t ! i#}))"
      using i unfolding ents_def mset_update [OF i(1)] by simp
    ultimately show ?thesis by simp
  qed
  then have "entries (t\<lparr>t_node := ?ns\<rparr>) = entries t" by (simp add: entries_def)
  ultimately show ?thesis using res by (simp add: same_header_def sizenode_def)
qed

lemma removeentries_spec:
  "tinv t \<Longrightarrow> n \<le> sizenode t \<Longrightarrow>
    \<exists>t'. removeentries t n = Inr t' \<and> tinv t' \<and> (\<forall>k. live_key k \<longrightarrow> tval t' k = tval t k) \<and> entries t' = entries t \<and> same_header t t'"
proof (induction n arbitrary: t)
  case (Suc n)
  note inv = Suc.prems(1)
  show ?case
  proof (cases "t_node t = []")
    case True
    then have "n = 0" using Suc.prems length_node(2) [OF tinvD(3) [OF inv]] by (simp add: sizenode_def twoto_def)
    then have "removeentries t (Suc n) = Inr t"
      using True by (simp add: gnode_def dummynode_def guardE_def removeentry_def)
    then show ?thesis using inv by (simp add: same_header_def)
  next
    case False
    then have n: "n < length (t_node t)" using Suc.prems length_node(1) [OF tinvD(3) [OF inv]] by (simp add: sizenode_def)
    then have g: "gnode t n = Inr (t_node t ! n)" using False by (simp add: gnode_def)
    show ?thesis
    proof (cases "gval (t_node t ! n)")
      case None
      from removeentry_spec [OF inv n None] obtain t1 where t1: "removeentry t n = Inr t1" "tinv t1" "\<And>k. live_key k \<Longrightarrow> tval t1 k = tval t k"
        "entries t1 = entries t" "same_header t t1" "sizenode t1 = sizenode t" by blast
      with Suc.IH [OF t1(2)] Suc.prems(2) obtain t' where "removeentries t1 n = Inr t'" "tinv t'"
        "\<And>k. live_key k \<Longrightarrow> tval t' k = tval t1 k" "entries t' = entries t1" "same_header t1 t'" by auto
      with t1 g None show ?thesis by (simp add: guardE_def same_header_def)
    next
      case (Some v)
      have "node_keys (t_node t)" using inv False hash_ok_inv by (auto simp: tinv_def base_inv_def hash_inv_def)
      with n Some have "live_key (gkey (t_node t ! n))" by (simp add: node_keys_def)
      with g Some have "removeentries t (Suc n) = removeentries t n" by (auto simp: guardE_def live_key_def)
      with Suc.IH [OF inv] Suc.prems(2) show ?thesis by simp
    qed
  qed
qed (simp add: same_header_def)

lemma traversetable_spec:
  "tinv t \<Longrightarrow> \<exists>t'. traversetable t = Inr t' \<and> tinv t' \<and> (\<forall>k. live_key k \<longrightarrow> tval t' k = tval t k) \<and> entries t' = entries t \<and> same_header t t'"
  using removeentries_spec [of t "sizenode t"] by (simp add: traversetable_def)

section \<open>A table is a map\<close>

text \<open>The accesses of the C API and the visit of the collector as operations, on the table and on a map from keys to values in which
  equal keys (\<^verbatim>\<open>luaO_rawequalKey\<close>) have one value. A nil value stands for no value.\<close>

datatype 'v table_op =
    RawGet TKey
  | RawSet TKey "'v option"
  | RawGeti int
  | RawSeti int "'v option"
  | RawGetfield bytes
  | RawSetfield bytes "'v option"
  | RawGetptagged u64 nat
  | RawSetptagged u64 nat "'v option"
  | ClearTable
  | TraverseTable

fun table_step :: "num2int \<Rightarrow> 'v LuaTable \<Rightarrow> 'v table_op \<Rightarrow> ('v option \<times> 'v LuaTable) cpp" where
  "table_step c2i t (RawGet k) = bindE (rawget c2i t k) (\<lambda>v. Inr (v, t))"
| "table_step c2i t (RawSet k v) = bindE (rawset c2i t k v) (\<lambda>t. Inr (None, t))"
| "table_step c2i t (RawGeti n) = bindE (rawgeti t n) (\<lambda>v. Inr (v, t))"
| "table_step c2i t (RawSeti n v) = bindE (rawseti c2i t n v) (\<lambda>t. Inr (None, t))"
| "table_step c2i t (RawGetfield s) = bindE (rawgetfield t s) (\<lambda>v. Inr (v, t))"
| "table_step c2i t (RawSetfield s v) = bindE (rawsetfield c2i t s v) (\<lambda>t. Inr (None, t))"
| "table_step c2i t (RawGetptagged p tag) = bindE (rawgetptagged t p tag) (\<lambda>v. Inr (v, t))"
| "table_step c2i t (RawSetptagged p tag v) = bindE (rawsetptagged c2i t p tag v) (\<lambda>t. Inr (None, t))"
| "table_step c2i t ClearTable = bindE (lua_cleartable t) (\<lambda>t. Inr (None, t))"
| "table_step c2i t TraverseTable = bindE (traversetable t) (\<lambda>t. Inr (None, t))"

fun table_run :: "num2int \<Rightarrow> 'v LuaTable \<Rightarrow> 'v table_op list \<Rightarrow> ('v option list \<times> 'v LuaTable) cpp" where
  "table_run c2i t [] = Inr ([], t)"
| "table_run c2i t (op # ops) =
     bindE (table_step c2i t op) (\<lambda>(v, t). bindE (table_run c2i t ops) (\<lambda>(vs, t). Inr (v # vs, t)))"

type_synonym 'v key_map = "TKey \<Rightarrow> 'v option"

definition map_put :: "'v key_map \<Rightarrow> TKey \<Rightarrow> 'v option \<Rightarrow> 'v key_map cpp" where
  "map_put m k v =
     (case k of
        KeyNil \<Rightarrow> Inl (Thrown ''table index is nil'')
      | KeyNumber d \<Rightarrow> if dbl_isnan d then Inl (Thrown ''table index is NaN'') else Inr (\<lambda>k'. if luaO_rawequalKey k k' then v else m k')
      | KeyVector x y z \<Rightarrow>
          if flt_isnan x \<or> flt_isnan y \<or> flt_isnan z then Inl (Thrown ''table index contains NaN'')
          else Inr (\<lambda>k'. if luaO_rawequalKey k k' then v else m k')
      | _ \<Rightarrow> Inr (\<lambda>k'. if luaO_rawequalKey k k' then v else m k'))"

fun map_step :: "'v key_map \<Rightarrow> 'v table_op \<Rightarrow> ('v option \<times> 'v key_map) cpp" where
  "map_step m (RawGet k) = Inr (m k, m)"
| "map_step m (RawSet k v) = bindE (map_put m k v) (\<lambda>m. Inr (None, m))"
| "map_step m (RawGeti n) = Inr (m (num n), m)"
| "map_step m (RawSeti n v) = bindE (map_put m (num n) v) (\<lambda>m. Inr (None, m))"
| "map_step m (RawGetfield s) = Inr (m (KeyGc (GcString s)), m)"
| "map_step m (RawSetfield s v) = bindE (map_put m (KeyGc (GcString s)) v) (\<lambda>m. Inr (None, m))"
| "map_step m (RawGetptagged p tag) = Inr (m (KeyLightUserdata p tag), m)"
| "map_step m (RawSetptagged p tag v) = bindE (map_put m (KeyLightUserdata p tag) v) (\<lambda>m. Inr (None, m))"
| "map_step m ClearTable = Inr (None, \<lambda>_. None)"
| "map_step m TraverseTable = Inr (None, m)"

fun map_run :: "'v key_map \<Rightarrow> 'v table_op list \<Rightarrow> ('v option list \<times> 'v key_map) cpp" where
  "map_run m [] = Inr ([], m)"
| "map_run m (op # ops) = bindE (map_step m op) (\<lambda>(v, m). bindE (map_run m ops) (\<lambda>(vs, m). Inr (v # vs, m)))"

text \<open>The map a table stands for.\<close>

definition table_map :: "'v LuaTable \<Rightarrow> 'v key_map" where
  "table_map t = (\<lambda>k. if live_key k then tval t k else None)"

text \<open>Keys of the API: no dead key, and numbers of \<^verbatim>\<open>int\<close>.\<close>

fun api_op :: "'v table_op \<Rightarrow> bool" where
  "api_op (RawGet k) = (\<forall>r. k \<noteq> KeyDead r)"
| "api_op (RawSet k v) = (\<forall>r. k \<noteq> KeyDead r)"
| "api_op (RawGeti n) = in_int32 n"
| "api_op (RawSeti n v) = in_int32 n"
| "api_op _ = True"

definition table_ok :: "'v LuaTable \<Rightarrow> nat \<Rightarrow> bool" where
  "table_ok t n \<longleftrightarrow> tinv t \<and> \<not> t_readonly t \<and> entries t \<le> n"

definition step_refines :: "nat \<Rightarrow> ('v option \<times> 'v LuaTable) cpp \<Rightarrow> ('v option \<times> 'v key_map) cpp \<Rightarrow> bool" where
  "step_refines n r s \<longleftrightarrow> map_sum id (map_prod id table_map) r = s \<and> (\<forall>v t. r = Inr (v, t) \<longrightarrow> table_ok t n)"

lemma get_refines:
  assumes "table_ok t n" "r = Inr (tval t k)" "\<forall>r. k \<noteq> KeyDead r" "k \<noteq> KeyNil"
  shows "step_refines (Suc n) (bindE r (\<lambda>v. Inr (v, t))) (Inr (table_map t k, table_map t))"
proof -
  have "table_map t k = tval t k" using assms(3,4) tval_nan [of k t] by (auto simp: table_map_def live_key_def)
  then show ?thesis using assms by (simp add: step_refines_def table_ok_def)
qed

lemma map_put_live: "live_key k \<Longrightarrow> map_put m k v = Inr (\<lambda>k'. if luaO_rawequalKey k k' then v else m k')"
  by (cases k) (auto simp: map_put_def live_key_def)

lemma map_put_nan: "key_isnan k \<Longrightarrow> map_put m k v = bindE (luaH_newkey c2i t k) (\<lambda>_. Inr m)"
  by (cases k) (auto simp: map_put_def luaH_newkey_def)

lemma updated_map:
  assumes "updated t k v t'" "live_key k"
  shows "table_map t' = (\<lambda>k'. if luaO_rawequalKey k k' then v else table_map t k')"
  using assms rawequal_live_iff [of k] by (fastforce simp: table_map_def updated_def)

lemma updated_ok: "table_ok t n \<Longrightarrow> updated t k v t' \<Longrightarrow> table_ok t' (Suc n)"
  by (auto simp: table_ok_def updated_def same_header_def split: if_splits)

lemma put_refines:
  assumes "table_ok t n" "n < 2 ^ 23" "live_key k"
    and r: "(\<exists>t'. r = Inr t' \<and> updated t k v t') \<or> r = Inl (Thrown ''table overflow'') \<and> 2 ^ 23 \<le> entries t"
  shows "step_refines (Suc n) (bindE r (\<lambda>t. Inr (None, t))) (bindE (map_put (table_map t) k v) (\<lambda>m. Inr (None, m)))"
proof -
  have "\<not> 2 ^ 23 \<le> entries t" using assms(1,2) by (simp add: table_ok_def)
  then obtain t' where "r = Inr t'" "updated t k v t'" using r by blast
  with updated_ok [OF assms(1)] updated_map [OF _ assms(3)] show ?thesis by (simp add: step_refines_def map_put_live [OF assms(3)])
qed

lemma luaH_clear_spec:
  assumes "tinv t"
  shows "tinv (luaH_clear t)" "tval (luaH_clear t) k = None" "entries (luaH_clear t) = 0" "same_header t (luaH_clear t)"
proof -
  have dn: "dummynode = free_node" by (simp add: dummynode_def)
  note sz = tinvD(4,5,6) [OF assms]
  have nodes: "t_node (luaH_clear t) = replicate (length (t_node t)) free_node"
    using length_node(1) [OF tinvD(3) [OF assms]]
    by (simp add: luaH_clear_def Let_def maybesetaboundary_def sizenode_def dn)
  have arr: "t_array (luaH_clear t) = replicate (nat (t_sizearray t)) None"
    using sz by (simp add: luaH_clear_def Let_def maybesetaboundary_def)
  have f: "t_sizearray (luaH_clear t) = t_sizearray t" "t_lsizenode (luaH_clear t) = t_lsizenode t" "t_nodemask8 (luaH_clear t) = t_nodemask8 t"
    by (simp_all add: luaH_clear_def Let_def maybesetaboundary_def)
  have lf: "t_lastfree (luaH_clear t) = (if t_node t \<noteq> [] then int (length (t_node t)) else min 0 (max 0 (t_lastfree t)))"
    using length_node(1) [OF tinvD(3) [OF assms]] tinvD(1) [OF assms]
    by (auto simp: luaH_clear_def Let_def maybesetaboundary_def sizenode_def base_inv_def)
  have ik: "int_key KeyNil = None" by (simp add: int_key_def)
  have "length (t_node t) = 2 ^ t_lsizenode t" if "t_node t \<noteq> []" using length_node(1) [OF tinvD(3) [OF assms] that] by (simp add: twoto_def)
  then have "node_inv (luaH_clear t)"
    using length_node(2) [OF tinvD(3) [OF assms]] by (simp add: node_inv_def nodes f hash_inv_free)
  moreover have "t_lsizenode t \<le> 26" using tinvD(1) [OF assms] by (simp add: base_inv_def hash_ok_def)
  ultimately have "base_inv (luaH_clear t)" using sz lf by (auto simp: base_inv_def hash_ok_def sizes_ok_def nodes arr f ik)
  then show "tinv (luaH_clear t)" using assms lf by (auto simp: tinv_def arr f)
  show "tval (luaH_clear t) k = None"
  proof (cases "in_range (luaH_clear t) k")
    case True
    then have "key_index k < nat (t_sizearray t)" by (auto simp: in_range_def key_index_def f split: option.splits)
    with True show ?thesis by (simp add: tval_def arr)
  qed (simp add: tval_def nodes hval_free)
  show "entries (luaH_clear t) = 0" by (simp add: entries_def arr nodes ents_def)
  show "same_header t (luaH_clear t)" by (simp add: same_header_def luaH_clear_def Let_def maybesetaboundary_def)
qed

lemma nodeid_update:
  "tinv (t\<lparr>t_nodeid := i\<rparr>) = tinv t" "tval (t\<lparr>t_nodeid := i\<rparr>) k = tval t k" "entries (t\<lparr>t_nodeid := i\<rparr>) = entries t"
proof -
  have r: "in_range (t\<lparr>t_nodeid := i\<rparr>) k = in_range t k" by (rule in_range_eq) simp
  show "tval (t\<lparr>t_nodeid := i\<rparr>) k = tval t k" by (simp add: tval_def r)
qed (simp_all add: entries_def tinv_def base_inv_def hash_ok_def node_inv_def sizes_ok_def)

lemma luaH_new_spec:
  assumes "in_int32 na" "in_int32 nh"
  shows "(\<exists>t :: 'v LuaTable. luaH_new na nh = Inr t \<and> table_ok t 0 \<and> table_map t = (\<lambda>_. None)) \<or>
    (luaH_new na nh :: 'v LuaTable cpp) = Inl (Thrown ''table overflow'') \<and> (2 ^ 26 < na \<or> 2 ^ 26 < nh)"
proof -
  let ?t = "\<lparr>t_array = [], t_sizearray = 0, t_node = [], t_lsizenode = 0, t_nodemask8 = 0, t_lastfree = 0, t_tmcache = 255,
               t_metatable = None, t_readonly = False, t_safeenv = False, t_arrayid = 0, t_nodeid = 0\<rparr> :: 'v LuaTable"
  show ?thesis
  proof (cases "2 ^ 26 < na")
    case True
    then show ?thesis by (simp add: luaH_new_def setarrayvector_def MAXSIZE_def guardE_def)
  next
    case na: False
    define m where "m = max 0 na"
    have m: "0 \<le> m" "m \<le> 2 ^ 26" using na by (simp_all add: m_def)
    define ta where "ta = ?t\<lparr>t_array := replicate (nat m) None, t_arrayid := (if na > 0 then 1 else 0), t_sizearray := m\<rparr>"
    have ta: "(if na > 0 then setarrayvector ?t na else Inr ?t) = Inr ta"
      using na by (simp add: ta_def m_def setarrayvector_def MAXSIZE_def)
    have ok: "table_ok (fresh ta (replicate (nat m) None) m N c aid) 0 \<and> table_map (fresh ta (replicate (nat m) None) m N c aid) = (\<lambda>_. None)"
      if "node_size N c" for N c aid
    proof -
      let ?s = "fresh ta (replicate (nat m) None) m N c aid"
      have len: "m \<le> int (length (replicate (nat m) None))" using m by simp
      note fr = fresh_table [where t = ta and aid = aid, OF m len that]
      have "tinv ?s" using fr(1) m by (simp add: tinv_def) (simp add: fresh_def)
      moreover have "tval ?s k = None" if k: "live_key k" for k
      proof (cases "index_le m k")
        case True
        then have "key_index k < nat m" by (auto simp: index_le_def key_index_def split: option.splits)
        then show ?thesis using True fr(4) [OF k] by simp
      qed (use fr(4) [OF k] in simp)
      moreover have "\<not> t_readonly ?s" by (simp add: fresh_def ta_def)
      ultimately show ?thesis using fr(3) by (auto simp: table_ok_def table_map_def)
    qed
    show ?thesis
    proof (cases "nh > 0")
      case False
      let ?s = "fresh ta (replicate (nat m) None) m 0 0 (t_arrayid ta)"
      have e: "ta = ?s\<lparr>t_nodeid := 0\<rparr>" by (simp add: ta_def fresh_def)
      have "table_ok ta 0 \<and> table_map ta = (\<lambda>_. None)"
        using ok [of 0 0 "t_arrayid ta"] unfolding e [symmetric]
        by (subst (1 2) e) (simp add: table_ok_def table_map_def node_size_def nodeid_update cong: if_cong)
      moreover have "luaH_new na nh = Inr ta" unfolding luaH_new_def Let_def ta bindE_simps using False by simp
      ultimately show ?thesis by blast
    next
      case True
      show ?thesis
      proof (cases "nh \<le> 2 ^ 26")
        case False
        have "1 \<le> nh" "nh \<le> 2 ^ 32" using True assms(2) by (simp_all add: in_int32_def)
        then have "\<not> ceillog2 nh \<le> 26" using ceillog2_le [of nh 26] False by simp
        then have "setnodevector ta nh = Inl (Thrown ''table overflow'')" using True by (simp add: setnodevector_def MAXBITS_def guardE_def Let_def)
        then show ?thesis unfolding luaH_new_def Let_def ta bindE_simps using True False by simp
      next
        case nh: True
        from setnodevector_spec [of nh ta] True nh obtain N c where s: "setnodevector ta nh = Inr (ta\<lparr>t_node := replicate N free_node, t_lsizenode := c,
          t_nodemask8 := word_of_int (2 ^ c - 1), t_lastfree := int N, t_nodeid := t_nodeid ta + 1\<rparr>)"
          and N: "c \<le> 26 \<and> (if N = 0 then c = 0 \<and> nh = 0 else N = 2 ^ c)" by auto
        then have "node_size N c" by (auto simp: node_size_def split: if_splits)
        moreover have "ta\<lparr>t_node := replicate N free_node, t_lsizenode := c,
          t_nodemask8 := word_of_int (2 ^ c - 1), t_lastfree := int N, t_nodeid := t_nodeid ta + 1\<rparr> = fresh ta (replicate (nat m) None) m N c (t_arrayid ta)"
          by (simp add: fresh_def ta_def)
        ultimately have "luaH_new na nh = Inr (fresh ta (replicate (nat m) None) m N c (t_arrayid ta))"
          unfolding luaH_new_def Let_def ta bindE_simps using True s by simp
        with ok [OF \<open>node_size N c\<close>] show ?thesis by blast
      qed
    qed
  qed
qed

lemma hashable_not_nan: "in_int32 n \<Longrightarrow> tval t (num n) = table_map t (num n)"
  by (simp add: table_map_def live_num)

text \<open>Each operation of the table is the operation of the map.\<close>

lemma rawset_cases:
  assumes "casts c2i" "tinv t" "\<not> t_readonly t" "live_key k"
  shows "(\<exists>t'. rawset c2i t k v = Inr t' \<and> updated t k v t') \<or> rawset c2i t k v = Inl (Thrown ''table overflow'') \<and> 2 ^ 23 \<le> entries t"
  using store_spec [of c2i "invalidateTMcache t" k v] assms
  by (simp add: rawset_def luaH_set_eq [OF assms(1,2,4)] updated_invalidate)

lemma rawset_invalid:
  assumes "casts c2i" "tinv t" "\<not> t_readonly t" "k = KeyNil \<or> key_isnan k"
  shows "\<exists>e. rawset c2i t k v = Inl e \<and> map_put m k v = Inl e"
proof -
  have "key_slot t k = NilObject" if nan: "key_isnan k"
  proof -
    have "int_key k = None" using nan_not_rawequal [OF nan] int_key_iff [of k] by (cases "int_key k") auto
    moreover have "held (t_node t) k = None" using nan_not_rawequal [OF nan] by (auto simp: held_def find_None_iff)
    ultimately show ?thesis by (simp add: key_slot_def in_range_def node_slot_def)
  qed
  moreover have "hashable k" if "key_isnan k" using that by (cases k) (auto simp: hashable_def)
  ultimately have "luaH_get c2i t k = Inr NilObject"
    using assms(4) luaH_get_slot [OF assms(1) tinvD(3,2) [OF assms(2)], of k] by (auto simp: luaH_get_def)
  then show ?thesis using assms(3,4)
    by (cases k) (auto simp: rawset_def luaH_set_def luaH_newkey_def map_put_def Let_def)
qed

lemma table_step_refines:
  assumes c: "casts c2i" and ok: "table_ok t n" and n: "n < 2 ^ 23" and op: "api_op op"
  shows "step_refines (Suc n) (table_step c2i t op) (map_step (table_map t) op)"
proof -
  have inv: "tinv t" and rw: "\<not> t_readonly t" using ok by (simp_all add: table_ok_def)
  note slot = read_key_slot [OF tinvD(2) [OF inv]]
  show ?thesis
  proof (cases op)
    case (RawGet k)
    have "rawget c2i t k = Inr (tval t k) \<or> k = KeyNil"
      using luaH_get_slot [OF c tinvD(3,2) [OF inv], of k] op RawGet by (auto simp: rawget_def slot hashable_def)
    then show ?thesis
    proof
      assume "k = KeyNil"
      then show ?thesis using RawGet ok
        by (simp add: rawget_def luaH_get_def read_slot_def step_refines_def table_map_def live_key_def table_ok_def)
    next
      assume r: "rawget c2i t k = Inr (tval t k)"
      show ?thesis
      proof (cases "k = KeyNil")
        case True
        then show ?thesis using RawGet ok
          by (simp add: rawget_def luaH_get_def read_slot_def step_refines_def table_map_def live_key_def table_ok_def)
      next
        case False
        with get_refines [OF ok r] op RawGet show ?thesis by simp
      qed
    qed
  next
    case (RawSet k v)
    show ?thesis
    proof (cases "live_key k")
      case True
      with put_refines [OF ok n True rawset_cases [OF c inv rw True]] RawSet show ?thesis by simp
    next
      case False
      then have "k = KeyNil \<or> key_isnan k" using op RawSet by (auto simp: live_key_def)
      from rawset_invalid [OF c inv rw this] obtain e where "rawset c2i t k v = Inl e" "map_put (table_map t) k v = Inl e" by blast
      then show ?thesis using RawSet by (simp add: step_refines_def)
    qed
  next
    case (RawGeti i)
    then have i: "in_int32 i" using op by simp
    have "rawgeti t i = Inr (tval t (num i))" by (simp add: rawgeti_def luaH_getnum_slot [OF tinvD(3,2) [OF inv] i] slot)
    from get_refines [OF ok this] RawGeti show ?thesis by simp
  next
    case (RawSeti i v)
    then have i: "in_int32 i" using op by simp
    have "(\<exists>t'. rawseti c2i t i v = Inr t' \<and> updated t (num i) v t') \<or> rawseti c2i t i v = Inl (Thrown ''table overflow'') \<and> 2 ^ 23 \<le> entries t"
      using store_spec [OF c inv live_num [OF i], of v] rw by (simp add: rawseti_def luaH_setnum_eq [OF inv i])
    from put_refines [OF ok n live_num [OF i] this] RawSeti show ?thesis by simp
  next
    case (RawGetfield s)
    have "rawgetfield t s = Inr (tval t (KeyGc (GcString s)))" by (simp add: rawgetfield_def luaH_getstr_slot [OF tinvD(3) [OF inv]] slot)
    from get_refines [OF ok this] RawGetfield show ?thesis by simp
  next
    case (RawSetfield s v)
    have live: "live_key (KeyGc (GcString s))" by (simp add: live_key_def)
    have "(\<exists>t'. rawsetfield c2i t s v = Inr t' \<and> updated t (KeyGc (GcString s)) v t') \<or>
      rawsetfield c2i t s v = Inl (Thrown ''table overflow'') \<and> 2 ^ 23 \<le> entries t"
      using store_spec [of c2i "invalidateTMcache t" "KeyGc (GcString s)" v] c inv live rw
      by (simp add: rawsetfield_def luaH_setstr_eq updated_invalidate)
    from put_refines [OF ok n live this] RawSetfield show ?thesis by simp
  next
    case (RawGetptagged p tag)
    have "rawgetptagged t p tag = Inr (tval t (KeyLightUserdata p tag))" by (simp add: rawgetptagged_def luaH_getp_slot [OF tinvD(3) [OF inv]] slot)
    from get_refines [OF ok this] RawGetptagged show ?thesis by simp
  next
    case (RawSetptagged p tag v)
    have live: "live_key (KeyLightUserdata p tag)" by (simp add: live_key_def)
    have "(\<exists>t'. rawsetptagged c2i t p tag v = Inr t' \<and> updated t (KeyLightUserdata p tag) v t') \<or>
      rawsetptagged c2i t p tag v = Inl (Thrown ''table overflow'') \<and> 2 ^ 23 \<le> entries t"
      using store_spec [OF c inv live, of v] rw by (simp add: rawsetptagged_def luaH_setp_eq [OF inv])
    from put_refines [OF ok n live this] RawSetptagged show ?thesis by simp
  next
    case ClearTable
    have "table_map (luaH_clear t) = (\<lambda>_. None)" "table_ok (luaH_clear t) (Suc n)"
      using luaH_clear_spec [OF inv] rw by (auto simp: table_map_def table_ok_def same_header_def)
    then show ?thesis using ClearTable rw by (simp add: lua_cleartable_def step_refines_def)
  next
    case TraverseTable
    from traversetable_spec [OF inv] obtain t' where t': "traversetable t = Inr t'" "tinv t'" "\<And>k. live_key k \<Longrightarrow> tval t' k = tval t k"
      "entries t' = entries t" "same_header t t'" by blast
    then have "table_map t' = table_map t" "table_ok t' (Suc n)"
      using ok by (auto simp: table_map_def table_ok_def same_header_def)
    then show ?thesis using TraverseTable t'(1) by (simp add: step_refines_def)
  qed
qed

lemma table_run_refines:
  assumes c: "casts c2i"
  shows "table_ok t n \<Longrightarrow> n + length ops \<le> 2 ^ 23 \<Longrightarrow> \<forall>op \<in> set ops. api_op op \<Longrightarrow>
    map_sum id (map_prod id table_map) (table_run c2i t ops) = map_run (table_map t) ops"
proof (induction ops arbitrary: t n)
  case (Cons op ops)
  have st: "step_refines (Suc n) (table_step c2i t op) (map_step (table_map t) op)"
    using Cons.prems by (intro table_step_refines [OF c]) auto
  show ?case
  proof (cases "table_step c2i t op")
    case (Inl e)
    with st show ?thesis by (simp add: step_refines_def) (metis bindE_simps(1))
  next
    case (Inr r)
    obtain v t' where r: "r = (v, t')" by fastforce
    with st Inr have t': "table_ok t' (Suc n)" "map_step (table_map t) op = Inr (v, table_map t')" by (simp_all add: step_refines_def)
    have "map_sum id (map_prod id table_map) (table_run c2i t' ops) = map_run (table_map t') ops"
      using Cons.prems by (intro Cons.IH [OF t'(1)]) auto
    then have run: "map_run (table_map t') ops = map_sum id (map_prod id table_map) (table_run c2i t' ops)" ..
    show ?thesis using Inr r by (cases "table_run c2i t' ops") (auto simp: t'(2) run)
  qed
qed simp

section \<open>The boundary\<close>

text \<open>A boundary, as \<^verbatim>\<open>luaH_getn\<close> promises: index \<open>n\<close> has a value, or is 0, and \<open>n + 1\<close> has none.\<close>

definition boundary_of :: "'v LuaTable \<Rightarrow> int \<Rightarrow> bool" where
  "boundary_of t n \<longleftrightarrow> 0 \<le> n \<and> (n = 0 \<or> tval t (num n) \<noteq> None) \<and> tval t (num (n + 1)) = None"

lemma tval_array:
  assumes "tinv t" "1 \<le> j" "j \<le> t_sizearray t"
  shows "tval t (num j) = t_array t ! nat (j - 1)"
proof -
  have "in_int32 j" using assms tinvD(5) [OF assms(1)] by (simp add: in_int32_def)
  then show ?thesis using assms by (simp add: tval_def in_range_num key_index_num)
qed

lemma ttisnil_at_eq:
  assumes "tinv t" "0 \<le> i" "i < t_sizearray t"
  shows "ttisnil_at t i = Inr (tval t (num (i + 1)) = None)"
  using assms tinvD(6) [OF assms(1)] tval_array [OF assms(1), of "i + 1"] by (simp add: ttisnil_at_def array_get_nth)

lemma bisect_spec:
  assumes inv: "tinv t" and r: "0 \<le> pos" "1 \<le> rest" "pos + rest \<le> t_sizearray t"
    and lo: "pos = 0 \<or> tval t (num (pos + 1)) \<noteq> None"
    and hi: "tval t (num (pos + rest)) = None \<or> pos + rest < t_sizearray t \<and> tval t (num (pos + rest + 1)) = None"
  shows "\<exists>p. bisect t pos rest = Inr p \<and> 0 \<le> p \<and> p < t_sizearray t \<and> (p = 0 \<or> tval t (num (p + 1)) \<noteq> None) \<and>
    (tval t (num (p + 1)) = None \<or> p + 1 < t_sizearray t \<and> tval t (num (p + 2)) = None)"
  using r lo hi
proof (induction "nat rest" arbitrary: pos rest rule: less_induct)
  case less
  show ?case
  proof (cases "1 < rest")
    case False
    then have "rest = 1" using less.prems by simp
    moreover have "bisect t pos rest = Inr pos" using False by (subst bisect.simps) (simp add: Let_def)
    ultimately show ?thesis using less.prems by (auto simp: add.commute)
  next
    case True
    define h where "h = rest div 2"
    have h: "1 \<le> h" "h < rest" "2 * h = rest \<or> 2 * h + 1 = rest" using True by (auto simp: h_def)
    have nil: "ttisnil_at t (pos + h) = Inr (tval t (num (pos + h + 1)) = None)"
      using h less.prems by (intro ttisnil_at_eq [OF inv]) auto
    have step: "bisect t pos rest = bisect t (if tval t (num (pos + h + 1)) = None then pos else pos + h) (rest - h)"
      using True nil by (subst bisect.simps) (simp add: Let_def flip: h_def)
    show ?thesis
    proof (cases "tval t (num (pos + h + 1)) = None")
      case nil': True
      have "tval t (num (pos + (rest - h))) = None \<or> pos + (rest - h) < t_sizearray t \<and> tval t (num (pos + (rest - h) + 1)) = None"
        using h(3)
      proof
        assume "2 * h = rest"
        then have "pos + (rest - h) = pos + h" by simp
        with nil' h less.prems show ?thesis by simp
      next
        assume "2 * h + 1 = rest"
        then have e: "pos + (rest - h) = pos + h + 1" by simp
        show ?thesis unfolding e using nil' by simp
      qed
      then show ?thesis unfolding step if_P [OF nil']
        by (intro less.hyps) (use h less.prems in auto)
    next
      case False
      have e: "pos + h + (rest - h) = pos + rest" by simp
      show ?thesis unfolding step if_not_P [OF False]
        by (rule less.hyps) (use h False less.prems in \<open>auto simp: e\<close>)
    qed
  qed
qed

lemma maybesetaboundary_spec:
  assumes "tinv t" "0 \<le> b" "b \<le> t_sizearray t"
  shows "tinv (maybesetaboundary t b)" "tval (maybesetaboundary t b) k = tval t k"
    "same_header t (maybesetaboundary t b)" "entries (maybesetaboundary t b) = entries t"
  using assms by (auto simp: maybesetaboundary_def tinv_def base_inv_def hash_ok_def node_inv_def sizes_ok_def same_header_def
      tval_def entries_def)

lemma tval_behind_array:
  assumes "tinv t"
  shows "tval t (num (t_sizearray t + 1)) = None"
proof -
  have i: "in_int32 (t_sizearray t + 1)" using tinvD(4,5) [OF assms] by (simp add: in_int32_def)
  have "\<not> luaO_rawequalKey (gkey (t_node t ! n)) (num (t_sizearray t + 1))" if "n < length (t_node t)" for n
  proof
    assume "luaO_rawequalKey (gkey (t_node t ! n)) (num (t_sizearray t + 1))"
    then have "int_key (gkey (t_node t ! n)) = Some (t_sizearray t + 1)" using i int_key_cong by fastforce
    with that tinvD(1,4) [OF assms] show False by (auto simp: base_inv_def)
  qed
  then have "held (t_node t) (num (t_sizearray t + 1)) = None" by (auto simp: held_def find_None_iff)
  then show ?thesis using i by (simp add: tval_def in_range_num hval_def)
qed

text \<open>A correct answer of \<^verbatim>\<open>luaH_getn\<close>, which may have changed its hint.\<close>

definition boundary_result :: "'v LuaTable \<Rightarrow> (int \<times> 'v LuaTable) cpp \<Rightarrow> bool" where
  "boundary_result t r \<longleftrightarrow> (\<exists>n t'. r = Inr (n, t') \<and> boundary_of t n \<and> n \<le> t_sizearray t \<and> tinv t' \<and> (\<forall>k. tval t' k = tval t k) \<and>
     same_header t t' \<and> entries t' = entries t \<and> (t' = t \<or> t_lastfree t \<le> 0 \<and> t' = t\<lparr>t_lastfree := - n\<rparr>))"

lemma boundary_result_hint:
  "tinv t \<Longrightarrow> boundary_of t b \<Longrightarrow> b \<le> t_sizearray t \<Longrightarrow> boundary_result t (Inr (b, maybesetaboundary t b))"
  using maybesetaboundary_spec [of t b] by (simp add: boundary_result_def boundary_of_def) (simp add: maybesetaboundary_def)

lemma boundary_result_same: "tinv t \<Longrightarrow> boundary_of t b \<Longrightarrow> b \<le> t_sizearray t \<Longrightarrow> boundary_result t (Inr (b, t))"
  by (simp add: boundary_result_def same_header_def)

lemma getn_search:
  assumes inv: "tinv t"
  defines "j \<equiv> t_sizearray t"
  shows "boundary_result t (bindE (and_cpp (Inr (j > 0)) (ttisnil_at t (j - 1))) (\<lambda>search.
            if search then
              bindE (bisect t 0 j) (\<lambda>pos.
              bindE (ttisnil_at t pos) (\<lambda>isnil.
              let boundary = (if isnil then 0 else 1) + pos
              in Inr (boundary, maybesetaboundary t boundary)))
            else
              bindE (if t_node t = [] then Inr True
                     else bindE (luaH_getnum t (j + 1)) (\<lambda>p. bindE (read_slot t p) (\<lambda>v. Inr (v = None)))) (\<lambda>valid.
              bindE (guardE valid (AssertionFailed ''t->node == dummynode || ttisnil(luaH_getnum(t, j + 1))'')) (\<lambda>_.
              Inr (j, t)))))" (is "boundary_result t ?r")
proof -
  have j: "0 \<le> j" "in_int32 (j + 1)" using tinvD(4,5) [OF inv] by (simp_all add: j_def in_int32_def)
  have nil: "and_cpp (Inr (j > 0)) (ttisnil_at t (j - 1)) = Inr (j > 0 \<and> tval t (num j) = None)"
    using ttisnil_at_eq [OF inv, of "j - 1"] by (auto simp: and_cpp_def j_def)
  show ?thesis
  proof (cases "j > 0 \<and> tval t (num j) = None")
    case True
    from bisect_spec [OF inv, of 0 j] True obtain p where p: "bisect t 0 j = Inr p" "0 \<le> p" "p < t_sizearray t" "p = 0 \<or> tval t (num (p + 1)) \<noteq> None"
      "tval t (num (p + 1)) = None \<or> p + 1 < t_sizearray t \<and> tval t (num (p + 2)) = None" by (auto simp: j_def)
    have r: "?r = Inr ((if tval t (num (p + 1)) = None then 0 else 1) + p, maybesetaboundary t ((if tval t (num (p + 1)) = None then 0 else 1) + p))"
      unfolding nil using True p(1) ttisnil_at_eq [OF inv p(2,3)] by (simp add: Let_def)
    show ?thesis unfolding r
      by (rule boundary_result_hint [OF inv]) (use p in \<open>auto simp: boundary_of_def add.commute\<close>)
  next
    case False
    have "luaH_getnum t (j + 1) = Inr (key_slot t (num (j + 1)))" by (rule luaH_getnum_slot [OF tinvD(3,2) [OF inv] j(2)])
    then have "?r = Inr (j, t)"
      unfolding nil using False tval_behind_array [OF inv] by (auto simp: read_key_slot [OF tinvD(2) [OF inv]] j_def)
    moreover have "boundary_of t j" using False j tval_behind_array [OF inv] by (auto simp: boundary_of_def j_def)
    ultimately show ?thesis using boundary_result_same [OF inv] by (simp add: j_def)
  qed
qed

lemma getaboundary_le:
  assumes "tinv t"
  shows "getaboundary t \<le> t_sizearray t"
  using assms by (auto simp: getaboundary_def tinv_def)

lemma updateaboundary_spec:
  assumes inv: "tinv t" and b: "0 < b" "b \<le> t_sizearray t"
  shows "(\<exists>n. updateaboundary t b = Inr (n, maybesetaboundary t n) \<and> 0 < n \<and> n \<le> t_sizearray t \<and> boundary_of t n) \<or> updateaboundary t b = Inr (0, t)"
proof -
  let ?v = "\<lambda>j. tval t (num j)"
  have below: "and_cpp (Inr (b < t_sizearray t)) (ttisnil_at t (b - 1)) = Inr (b < t_sizearray t \<and> ?v b = None)"
    using ttisnil_at_eq [OF inv, of "b - 1"] b by (auto simp: and_cpp_def)
  have prev: "and_cpp (Inr (b \<ge> 2)) (not_cpp (ttisnil_at t (b - 2))) = Inr (b \<ge> 2 \<and> ?v (b - 1) \<noteq> None)"
    using ttisnil_at_eq [OF inv, of "b - 2"] b by (auto simp: and_cpp_def not_cpp_def)
  have succ: "and_cpp (Inr (b + 1 < t_sizearray t)) (and_cpp (not_cpp (ttisnil_at t b)) (ttisnil_at t (b + 1))) =
    Inr (b + 1 < t_sizearray t \<and> ?v (b + 1) \<noteq> None \<and> ?v (b + 2) = None)"
    using ttisnil_at_eq [OF inv, of b] ttisnil_at_eq [OF inv, of "b + 1"] b by (auto simp: and_cpp_def not_cpp_def add.commute)
  show ?thesis
  proof (cases "b < t_sizearray t \<and> ?v b = None")
    case True
    then show ?thesis using b unfolding updateaboundary_def below prev by (auto simp: boundary_of_def)
  next
    case False
    then show ?thesis using b unfolding updateaboundary_def below succ by (auto simp: boundary_of_def add.commute)
  qed
qed

lemma luaH_getn_spec:
  assumes inv: "tinv t"
  shows "boundary_result t (luaH_getn t)"
proof -
  let ?b = "getaboundary t"
  let ?v = "\<lambda>j. tval t (num j)"
  note search = getn_search [OF inv]
  show ?thesis
  proof (cases "?b > 0")
    case False
    then show ?thesis using search by (simp add: luaH_getn_def Let_def)
  next
    case True
    have le: "?b \<le> t_sizearray t" by (rule getaboundary_le [OF inv])
    have fullq: "and_cpp (not_cpp (ttisnil_at t (t_sizearray t - 1))) (Inr (t_node t = [])) = Inr (?v (t_sizearray t) \<noteq> None \<and> t_node t = [])"
      using ttisnil_at_eq [OF inv, of "t_sizearray t - 1"] True le by (auto simp: and_cpp_def not_cpp_def)
    have hereq: "and_cpp (Inr (?b < t_sizearray t)) (and_cpp (not_cpp (ttisnil_at t (?b - 1))) (ttisnil_at t ?b)) =
      Inr (?b < t_sizearray t \<and> ?v ?b \<noteq> None \<and> ?v (?b + 1) = None)"
      using ttisnil_at_eq [OF inv, of "?b - 1"] ttisnil_at_eq [OF inv, of ?b] True le by (auto simp: and_cpp_def not_cpp_def)
    consider (full) "?v (t_sizearray t) \<noteq> None \<and> t_node t = []"
      | (here) "\<not> (?v (t_sizearray t) \<noteq> None \<and> t_node t = [])" "?b < t_sizearray t \<and> ?v ?b \<noteq> None \<and> ?v (?b + 1) = None"
      | (other) "\<not> (?v (t_sizearray t) \<noteq> None \<and> t_node t = [])" "\<not> (?b < t_sizearray t \<and> ?v ?b \<noteq> None \<and> ?v (?b + 1) = None)" by blast
    then show ?thesis
    proof cases
      case full
      then have "luaH_getn t = Inr (t_sizearray t, t)" using True unfolding luaH_getn_def Let_def fullq by simp
      moreover have "boundary_of t (t_sizearray t)" using full True le tval_behind_array [OF inv] by (simp add: boundary_of_def)
      ultimately show ?thesis using boundary_result_same [OF inv] by simp
    next
      case here
      then have "luaH_getn t = Inr (?b, t)" using True unfolding luaH_getn_def Let_def fullq hereq by simp
      moreover have "boundary_of t ?b" using here True by (simp add: boundary_of_def)
      ultimately show ?thesis using boundary_result_same [OF inv _ le] by simp
    next
      case other
      from updateaboundary_spec [OF inv True le] show ?thesis
      proof
        assume "updateaboundary t ?b = Inr (0, t)"
        then show ?thesis using other True search unfolding luaH_getn_def Let_def fullq hereq by auto
      next
        assume "\<exists>n. updateaboundary t ?b = Inr (n, maybesetaboundary t n) \<and> 0 < n \<and> n \<le> t_sizearray t \<and> boundary_of t n"
        then obtain n where n: "updateaboundary t ?b = Inr (n, maybesetaboundary t n)" "0 < n" "n \<le> t_sizearray t" "boundary_of t n" by blast
        then have "luaH_getn t = Inr (n, maybesetaboundary t n)" using other True unfolding luaH_getn_def Let_def fullq hereq by auto
        then show ?thesis using boundary_result_hint [OF inv n(4,3)] by simp
      qed
    qed
  qed
qed

section \<open>Traversal\<close>

text \<open>The elements by the indices of \<^verbatim>\<open>findindex\<close>: those of the array part, then those of the nodes.\<close>

definition places :: "'v LuaTable \<Rightarrow> nat" where
  "places t = nat (t_sizearray t) + sizenode t"

definition elem_at :: "'v LuaTable \<Rightarrow> nat \<Rightarrow> (TKey \<times> 'v) option" where
  "elem_at t i = (if i < nat (t_sizearray t) then array_elem t (int i) else node_elem (t_node t) (i - nat (t_sizearray t)))"

definition first_from :: "'v LuaTable \<Rightarrow> nat \<Rightarrow> nat option" where
  "first_from t i = List.find (\<lambda>j. elem_at t j \<noteq> None) [i..<places t]"

lemma first_from_step:
  "first_from t i = (if i < places t then if elem_at t i \<noteq> None then Some i else first_from t (Suc i) else None)"
  by (simp add: first_from_def upt_conv_Cons del: upt_Suc)

lemma next_array_spec:
  assumes inv: "tinv t" and "0 \<le> i"
  shows "(\<exists>j v. next_array t i = Inr (Some (j, v)) \<and> i \<le> j \<and> j < t_sizearray t \<and> t_array t ! nat j = Some v \<and>
      first_from t (nat i) = Some (nat j)) \<or>
    next_array t i = Inr None \<and> first_from t (nat i) = first_from t (max (nat i) (nat (t_sizearray t)))"
  using assms(2)
proof (induction "nat (t_sizearray t - i)" arbitrary: i rule: less_induct)
  case less
  show ?case
  proof (cases "i < t_sizearray t")
    case False
    then have "next_array t i = Inr None" by (subst next_array.simps) simp
    moreover have "max (nat i) (nat (t_sizearray t)) = nat i" using False less.prems by simp
    ultimately show ?thesis by simp
  next
    case True
    have get: "array_get t i = Inr (t_array t ! nat i)" using True less.prems tinvD(6) [OF inv] by (intro array_get_nth) auto
    have at: "elem_at t (nat i) = map_option (\<lambda>v. (num (i + 1), v)) (t_array t ! nat i)" "nat i < places t"
      using True less.prems by (simp_all add: elem_at_def array_elem_def places_def)
    show ?thesis
    proof (cases "t_array t ! nat i")
      case (Some v)
      then have "next_array t i = Inr (Some (i, v))" using True get by (subst next_array.simps) simp
      moreover have "first_from t (nat i) = Some (nat i)" using at Some by (subst first_from_step) simp
      ultimately show ?thesis using True Some by (intro disjI1 exI [of _ i] exI [of _ v]) simp
    next
      case None
      then have n: "next_array t i = next_array t (i + 1)" using True get by (subst next_array.simps) simp
      have f: "first_from t (nat i) = first_from t (nat (i + 1))" using at None less.prems by (subst first_from_step) (simp add: nat_add_distrib)
      have m: "max (nat (i + 1)) (nat (t_sizearray t)) = max (nat i) (nat (t_sizearray t))" using True less.prems by simp
      have "(\<exists>j v. next_array t (i + 1) = Inr (Some (j, v)) \<and> i + 1 \<le> j \<and> j < t_sizearray t \<and> t_array t ! nat j = Some v \<and>
          first_from t (nat (i + 1)) = Some (nat j)) \<or>
        next_array t (i + 1) = Inr None \<and> first_from t (nat (i + 1)) = first_from t (max (nat (i + 1)) (nat (t_sizearray t)))"
        using True less.prems by (intro less.hyps) auto
      then show ?thesis unfolding n f m by fastforce
    qed
  qed
qed

lemma next_node_spec:
  assumes inv: "tinv t"
  shows "(\<exists>j k v. next_node t i = Inr (Some (j, k, v)) \<and> node_elem (t_node t) j = Some (k, v) \<and>
      first_from t (nat (t_sizearray t) + i) = Some (nat (t_sizearray t) + j)) \<or>
    next_node t i = Inr None \<and> first_from t (nat (t_sizearray t) + i) = None"
proof (induction "sizenode t - i" arbitrary: i rule: less_induct)
  case less
  let ?n = "nat (t_sizearray t)"
  show ?case
  proof (cases "i < sizenode t")
    case False
    then have "next_node t i = Inr None" by (subst next_node.simps) simp
    moreover have "first_from t (?n + i) = None" using False by (subst first_from_step) (simp add: places_def)
    ultimately show ?thesis by simp
  next
    case True
    define nd where "nd = (if t_node t = [] then dummynode else t_node t ! i)"
    have get: "gnode t i = Inr nd"
      using True length_node [OF tinvD(3) [OF inv]] by (cases "t_node t = []") (simp_all add: gnode_def nd_def sizenode_def twoto_def)
    have ne: "node_elem (t_node t) i = map_option (\<lambda>v. (gkey nd, v)) (gval nd)" by (simp add: node_elem_def nd_def Let_def)
    have at: "elem_at t (?n + i) = node_elem (t_node t) i" "?n + i < places t" using True by (simp_all add: elem_at_def places_def)
    show ?thesis
    proof (cases "gval nd")
      case (Some v)
      then have "next_node t i = Inr (Some (i, gkey nd, v))" using True get by (subst next_node.simps) simp
      moreover have "first_from t (?n + i) = Some (?n + i)" using at ne Some by (subst first_from_step) simp
      ultimately show ?thesis using ne Some by (intro disjI1 exI [of _ i] exI [of _ "gkey nd"] exI [of _ v]) simp
    next
      case None
      then have n: "next_node t i = next_node t (i + 1)" using True get by (subst next_node.simps) simp
      have f: "first_from t (?n + i) = first_from t (?n + (i + 1))" using at ne None by (subst first_from_step) simp
      show ?thesis unfolding n f using True by (intro less.hyps) simp
    qed
  qed
qed

lemma next_elem_spec:
  assumes inv: "tinv t" and i: "0 \<le> i"
  shows "bindE (next_array t i) (\<lambda>r.
     case r of
       Some (i, x) \<Rightarrow> Inr (Some (f i (KeyNumber (dbl_of_int (i + 1))) x))
     | None \<Rightarrow>
         bindE (next_node t (nat (max i (t_sizearray t) - t_sizearray t))) (\<lambda>r.
         Inr (map_option (\<lambda>(j, k, x). f (int j + t_sizearray t) k x) r))) =
    Inr (map_option (\<lambda>j. f (int j) (fst (the (elem_at t j))) (snd (the (elem_at t j)))) (first_from t (nat i)))" (is "?l = _")
proof -
  let ?n = "nat (t_sizearray t)"
  have n: "int ?n = t_sizearray t" using tinvD(4) [OF inv] by simp
  show ?thesis
    using next_array_spec [OF inv i]
  proof (elim disjE exE conjE)
    fix j v assume a: "next_array t i = Inr (Some (j, v))" "i \<le> j" "j < t_sizearray t" "t_array t ! nat j = Some v" "first_from t (nat i) = Some (nat j)"
    then have "elem_at t (nat j) = Some (num (j + 1), v)" using i by (simp add: elem_at_def array_elem_def)
    with a i show ?thesis by simp
  next
    assume a: "next_array t i = Inr None" "first_from t (nat i) = first_from t (max (nat i) ?n)"
    let ?m = "nat (max i (t_sizearray t) - t_sizearray t)"
    have m: "max (nat i) ?n = ?n + ?m" using i tinvD(4) [OF inv] by linarith
    show ?thesis
      using next_node_spec [OF inv, of ?m]
    proof (elim disjE exE conjE)
      fix j k v assume b: "next_node t ?m = Inr (Some (j, k, v))" "node_elem (t_node t) j = Some (k, v)" "first_from t (?n + ?m) = Some (?n + j)"
      then have "elem_at t (?n + j) = Some (k, v)" by (simp add: elem_at_def)
      with a b m n show ?thesis by (simp add: add.commute)
    next
      assume "next_node t ?m = Inr None" "first_from t (?n + ?m) = None"
      with a m show ?thesis by simp
    qed
  qed
qed

lemma lua_rawiter_spec:
  assumes "tinv t"
  shows "lua_rawiter t (int i) = Inr (map_option (\<lambda>j. (int j + 1, the (elem_at t j))) (first_from t i))"
proof -
  have "lua_rawiter t (int i) = bindE (next_array t (int i)) (\<lambda>r.
     case r of
       Some (i, x) \<Rightarrow> Inr (Some (i + 1, KeyNumber (dbl_of_int (i + 1)), x))
     | None \<Rightarrow>
         bindE (next_node t (nat (max (int i) (t_sizearray t) - t_sizearray t))) (\<lambda>r.
         Inr (map_option (\<lambda>(j, k, x). (int j + t_sizearray t + 1, k, x)) r)))"
    unfolding lua_rawiter_def Let_def ..
  also have "\<dots> = Inr (map_option (\<lambda>j. (int j + 1, fst (the (elem_at t j)), snd (the (elem_at t j)))) (first_from t (nat (int i))))"
    by (rule next_elem_spec [OF assms, where f = "\<lambda>i k x. (i + 1, k, x)"]) simp
  finally show ?thesis by simp
qed

lemma luaH_next_spec:
  fixes t :: "'v LuaTable"
  assumes "tinv t" "findindex c2i t k = Inr (int i - 1)"
  shows "luaH_next c2i t k = Inr (map_option (\<lambda>j. the (elem_at t j)) (first_from t i))"
proof -
  have e: "(\<lambda>(j :: nat, k :: TKey, x :: 'v). (k, x)) = snd" by auto
  have i: "int i - 1 + 1 = int i" by simp
  have "luaH_next c2i t k = bindE (next_array t (int i)) (\<lambda>r.
     case r of
       Some (i, x) \<Rightarrow> Inr (Some (KeyNumber (dbl_of_int (i + 1)), x))
     | None \<Rightarrow>
         bindE (next_node t (nat (max (int i) (t_sizearray t) - t_sizearray t))) (\<lambda>r.
         Inr (map_option (\<lambda>(j, k, x). (k, x)) r)))"
    unfolding luaH_next_def assms(2) bindE_simps i e ..
  also have "\<dots> = Inr (map_option (\<lambda>j. (fst (the (elem_at t j)), snd (the (elem_at t j)))) (first_from t (nat (int i))))"
    by (rule next_elem_spec [OF assms(1), where f = "\<lambda>i k x. (k, x)"]) simp
  finally show ?thesis by simp
qed

text \<open>\<^verbatim>\<open>findindex\<close> finds the index of every element.\<close>

lemma findindex_elem:
  assumes c: "casts c2i" and inv: "tinv t" and e: "elem_at t i = Some (k, v)" "i < places t"
  shows "findindex c2i t k = Inr (int i)"
proof (cases "i < nat (t_sizearray t)")
  case True
  define J where "J = int i + 1"
  have k: "k = num J" using True e by (auto simp: elem_at_def array_elem_def J_def)
  have j: "in_int32 J" "0 < J" "J \<le> t_sizearray t" using True tinvD(5) [OF inv] by (simp_all add: in_int32_def J_def)
  have "arrayindex c2i (dbl_of_int J) = J" using int_key_num [OF j(1)] by (simp add: arrayindex_key [OF c])
  then have "findindex c2i t k = Inr (J - 1)" using j by (simp add: findindex_def k Let_def)
  then show ?thesis by (simp add: J_def)
next
  case False
  let ?j = "i - nat (t_sizearray t)"
  have ne: "node_elem (t_node t) ?j = Some (k, v)" using False e by (simp add: elem_at_def)
  then have nonempty: "t_node t \<noteq> []" by (auto simp: node_elem_def dummynode_def)
  have less: "?j < length (t_node t)" using e(2) False length_node(1) [OF tinvD(3) [OF inv] nonempty] by (auto simp: places_def sizenode_def)
  have key: "gkey (t_node t ! ?j) = k" "gval (t_node t ! ?j) = Some v" using ne nonempty by (auto simp: node_elem_def Let_def)
  then have "(k, v) \<in> set (node_elems t)" using less in_node_elems [OF tinvD(3) [OF inv]] by blast
  from not_in_range_node [OF inv this] have live: "live_key k" and out: "\<not> in_range t k" by simp_all
  have "hash_inv (t_lsizenode t) (t_node t)" using tinvD(3) [OF inv] nonempty by (simp add: node_inv_def)
  then have "chain_find (stops_at k) t (home (t_lsizenode t) k) = Some (Inr (Some ?j))"
    by (rule chain_find_holder) (use live less key rawequal_refl [OF live] in \<open>auto simp: holder_def stops_at_def\<close>)
  moreover have "stops_at k = (\<lambda>k'. luaO_rawequalKey k' k \<or> (case (k', k) of (KeyDead r, KeyGc r') \<Rightarrow> r = r' | _ \<Rightarrow> False))"
    by (simp add: stops_at_def fun_eq_iff)
  moreover have "mainposition (t_lsizenode t) k = Inr (home (t_lsizenode t) k)" by (rule mainposition_live [OF live])
  moreover have "\<not> (0 < a \<and> a \<le> t_sizearray t)" if "a = (case k of KeyNumber d \<Rightarrow> arrayindex c2i d | _ \<Rightarrow> - 1)" for a
  proof -
    have "a = (case int_key k of Some j \<Rightarrow> j | None \<Rightarrow> - 1)"
      using that int_key_other [of k] by (cases k) (auto simp: arrayindex_key [OF c])
    with out show ?thesis by (auto simp: in_range_def split: option.splits)
  qed
  moreover have "k \<noteq> KeyNil" using live by (simp add: live_key_def)
  moreover have "int ?j + t_sizearray t = int i" using False tinvD(4) [OF inv] by simp
  ultimately show ?thesis unfolding findindex_def Let_def by (simp add: terminates_def)
qed

text \<open>The elements of a table, in the order of the traversal.\<close>

definition elements :: "'v LuaTable \<Rightarrow> nat \<Rightarrow> (TKey \<times> 'v) list" where
  "elements t i = List.map_filter (elem_at t) [i..<places t]"

lemma elements_first:
  "elements t i = (case first_from t i of None \<Rightarrow> [] | Some j \<Rightarrow> the (elem_at t j) # elements t (Suc j))"
proof (induction "places t - i" arbitrary: i)
  case 0
  then show ?case by (simp add: elements_def first_from_def map_filter_simps)
next
  case (Suc x)
  then have i: "i < places t" by simp
  have s: "elements t i = (case elem_at t i of None \<Rightarrow> elements t (Suc i) | Some e \<Rightarrow> e # elements t (Suc i))"
    using i by (simp add: elements_def upt_conv_Cons map_filter_simps split: option.splits)
  have "elements t (Suc i) = (case first_from t (Suc i) of None \<Rightarrow> [] | Some j \<Rightarrow> the (elem_at t j) # elements t (Suc j))"
    using Suc by (intro Suc.hyps(1)) simp
  with s i show ?case by (subst first_from_step) (auto split: option.splits)
qed

lemma first_from_elem: "first_from t i = Some j \<Longrightarrow> i \<le> j \<and> j < places t \<and> (\<exists>e. elem_at t j = Some e)"
  by (auto simp: first_from_def find_Some_iff)

text \<open>The loop of \<^verbatim>\<open>next\<close> from the key \<open>k\<close>.\<close>

fun traverse :: "nat \<Rightarrow> num2int \<Rightarrow> 'v LuaTable \<Rightarrow> TKey \<Rightarrow> (TKey \<times> 'v) list cpp" where
  "traverse 0 c2i t k = Inl Diverges"
| "traverse (Suc n) c2i t k =
     bindE (luaH_next c2i t k) (\<lambda>r.
     case r of
       None \<Rightarrow> Inr []
     | Some e \<Rightarrow> bindE (traverse n c2i t (fst e)) (\<lambda>es. Inr (e # es)))"

fun traverse_raw :: "nat \<Rightarrow> 'v LuaTable \<Rightarrow> int \<Rightarrow> (TKey \<times> 'v) list cpp" where
  "traverse_raw 0 t iter = Inl Diverges"
| "traverse_raw (Suc n) t iter =
     bindE (lua_rawiter t iter) (\<lambda>r.
     case r of
       None \<Rightarrow> Inr []
     | Some (iter, e) \<Rightarrow> bindE (traverse_raw n t iter) (\<lambda>es. Inr (e # es)))"

lemma traverse_spec:
  assumes c: "casts c2i" and inv: "tinv t"
  shows "findindex c2i t k = Inr (int i - 1) \<Longrightarrow> length (elements t i) < n \<Longrightarrow> traverse n c2i t k = Inr (elements t i)"
proof (induction n arbitrary: i k)
  case (Suc n)
  note nx = luaH_next_spec [OF inv Suc.prems(1)]
  show ?case
  proof (cases "first_from t i")
    case None
    then show ?thesis using nx elements_first [of t i] by simp
  next
    case (Some j)
    then obtain k' v where j: "elem_at t j = Some (k', v)" "j < places t" using first_from_elem by fastforce
    have es: "elements t i = (k', v) # elements t (Suc j)" using elements_first [of t i] Some j by simp
    have "findindex c2i t k' = Inr (int (Suc j) - 1)" using findindex_elem [OF c inv j] by simp
    moreover have "length (elements t (Suc j)) < n" using Suc.prems(2) es by simp
    ultimately have "traverse n c2i t k' = Inr (elements t (Suc j))" by (rule Suc.IH)
    with nx Some j es show ?thesis by simp
  qed
qed simp

lemma traverse_raw_spec:
  assumes inv: "tinv t"
  shows "length (elements t i) < n \<Longrightarrow> traverse_raw n t (int i) = Inr (elements t i)"
proof (induction n arbitrary: i)
  case (Suc n)
  note nx = lua_rawiter_spec [OF inv, of i]
  show ?case
  proof (cases "first_from t i")
    case None
    then show ?thesis using nx elements_first [of t i] by simp
  next
    case (Some j)
    then obtain k' v where j: "elem_at t j = Some (k', v)" "j < places t" using first_from_elem by fastforce
    have es: "elements t i = (k', v) # elements t (Suc j)" using elements_first [of t i] Some j by simp
    have "length (elements t (Suc j)) < n" using Suc.prems es by simp
    from Suc.IH [OF this] have "traverse_raw n t (1 + int j) = Inr (elements t (Suc j))" by simp
    with nx Some j es show ?thesis by (simp add: add.commute)
  qed
qed simp

lemma map_filter_map: "List.map_filter f (map g xs) = List.map_filter (\<lambda>x. f (g x)) xs"
  by (simp add: List.map_filter_def filter_map comp_def)

lemma map_filter_cong: "(\<And>x. x \<in> set xs \<Longrightarrow> f x = g x) \<Longrightarrow> List.map_filter f xs = List.map_filter g xs"
  by (induction xs) (auto simp: map_filter_simps split: option.splits)

lemma map_filter_rev: "List.map_filter f (rev xs) = rev (List.map_filter f xs)"
  by (simp add: List.map_filter_def rev_filter rev_map)

lemma elements_eq:
  assumes "tinv t"
  shows "elements t 0 = array_elems t 0 @ rev (node_elems t)"
proof -
  let ?n = "nat (t_sizearray t)" and ?N = "sizenode t"
  have "[0..<places t] = [0..<?n] @ map (\<lambda>i. i + ?n) [0..<?N]"
    using upt_add_eq_append [of 0 ?n ?N] map_add_upt [of ?n ?N] by (simp only: places_def add.commute [of ?N] zero_le)
  then have "elements t 0 = List.map_filter (elem_at t) [0..<?n] @ List.map_filter (\<lambda>i. elem_at t (i + ?n)) [0..<?N]"
    by (simp add: elements_def map_filter_append map_filter_map)
  moreover have "List.map_filter (\<lambda>i. elem_at t (i + ?n)) [0..<?N] = rev (node_elems t)"
    unfolding node_elems_def map_filter_rev rev_rev_ident sizenode_def by (rule map_filter_cong) (simp add: elem_at_def)
  moreover have "[0..t_sizearray t - 1] = map int [0..<?n]" by (intro nth_equalityI) (simp_all add: nth_upto)
  then have "array_elems t 0 = List.map_filter (\<lambda>i. array_elem t (int i)) [0..<?n]" by (simp add: array_elems_def map_filter_map)
  moreover have "List.map_filter (elem_at t) [0..<?n] = List.map_filter (\<lambda>i. array_elem t (int i)) [0..<?n]"
    by (rule map_filter_cong) (simp add: elem_at_def)
  ultimately show ?thesis by simp
qed

lemma elements_length:
  assumes "tinv t"
  shows "length (elements t 0) = entries t"
  using entries_elems [OF assms] length_array_elems [of 0 t] tinvD(4,6) [OF assms] by (simp add: elements_eq [OF assms])

lemma array_elem_in_range:
  assumes "tinv t" "e \<in> set (array_elems t 0)"
  shows "live_key (fst e) \<and> in_range t (fst e) \<and> tval t (fst e) = Some (snd e)"
proof -
  from in_array_elems_live [OF _ tinvD(5) [OF assms(1)] assms(2)] obtain j v where "e = (num j, v)" "0 < j" "j \<le> t_sizearray t" "in_int32 j"
    "t_array t ! nat (j - 1) = Some v" by auto
  then show ?thesis using live_num tval_array [OF assms(1), of j] by (simp add: in_range_num)
qed

lemma sorted_wrt_rev_sym: "(\<And>a b. P a b \<Longrightarrow> P b a) \<Longrightarrow> sorted_wrt P xs \<Longrightarrow> sorted_wrt P (rev xs)"
  unfolding sorted_wrt_rev by (rule sorted_wrt_mono_rel)

lemma elements_distinct:
  assumes inv: "tinv t"
  shows "distinct_keys (elements t 0)"
proof -
  have "distinct_keys (array_elems t 0)" by (rule distinct_array_elems [OF order_refl tinvD(5) [OF inv]])
  moreover have "distinct_keys (rev (node_elems t))"
    unfolding distinct_keys_def
  proof (rule sorted_wrt_rev_sym)
    show "\<not> luaO_rawequalKey (fst b) (fst a)" if "\<not> luaO_rawequalKey (fst a) (fst b)" for a b :: "TKey \<times> 'a"
      using that rawequal_sym [of "fst b" "fst a"] by metis
    show "sorted_wrt (\<lambda>a b. \<not> luaO_rawequalKey (fst a) (fst b)) (node_elems t)"
      using distinct_node_elems [OF tinvD(3) [OF inv]] by (simp add: distinct_keys_def)
  qed
  moreover have "\<not> luaO_rawequalKey (fst a) (fst b)" if "a \<in> set (array_elems t 0)" "b \<in> set (node_elems t)" for a b
    using array_elem_in_range [OF inv that(1)] not_in_range_node [OF inv that(2)] in_range_cong [of "fst a" "fst b" t] by blast
  ultimately show ?thesis by (simp add: elements_eq [OF inv] distinct_keys_def sorted_wrt_append)
qed

lemma elements_value: "tinv t \<Longrightarrow> e \<in> set (elements t 0) \<Longrightarrow> live_key (fst e) \<and> tval t (fst e) = Some (snd e)"
  using array_elem_in_range [of t e] not_in_range_node [of t e] by (auto simp: elements_eq)

lemma elements_map:
  assumes inv: "tinv t" and k: "live_key k"
  shows "tval t k = Some v \<longleftrightarrow> (\<exists>k'. (k', v) \<in> set (elements t 0) \<and> luaO_rawequalKey k' k)"
proof
  assume v: "tval t k = Some v"
  show "\<exists>k'. (k', v) \<in> set (elements t 0) \<and> luaO_rawequalKey k' k"
  proof (cases "in_range t k")
    case True
    then obtain j where j: "int_key k = Some j" "0 < j" "j \<le> t_sizearray t" by (auto simp: in_range_def split: option.splits)
    then have eq: "luaO_rawequalKey (num j) k" by (simp add: int_key_iff)
    have "t_array t ! nat (j - 1) = Some v" using v tval_cong [OF eq, of t] tval_array [OF inv, of j] j by simp
    then have "(num j, v) \<in> set (array_elems t 0)" using j by (auto simp: in_array_elems)
    with eq show ?thesis unfolding elements_eq [OF inv] by auto
  next
    case False
    then have "hval (t_node t) k = Some v" using v by (simp add: tval_def)
    with hval_elems [OF tinvD(3) [OF inv] k] show ?thesis unfolding elements_eq [OF inv] by auto
  qed
next
  assume "\<exists>k'. (k', v) \<in> set (elements t 0) \<and> luaO_rawequalKey k' k"
  then obtain k' where "(k', v) \<in> set (elements t 0)" and eq: "luaO_rawequalKey k' k" by blast
  with elements_value [OF inv this(1)] tval_cong [OF eq, of t] show "tval t k = Some v" by simp
qed

section \<open>The depth of the recursion\<close>

text \<open>A result that a greater depth does not change: the computation diverges or has ended.\<close>

definition settles :: "'a cpp \<Rightarrow> 'a cpp \<Rightarrow> bool" where
  "settles r r' \<longleftrightarrow> r = Inl Diverges \<or> r' = r"

lemma settles_refl: "settles r r"
  by (simp add: settles_def)

lemma settles_bind: "settles m m' \<Longrightarrow> (\<And>x. settles (f x) (f' x)) \<Longrightarrow> settles (bindE m f) (bindE m' f')"
  by (cases m) (auto simp: settles_def)

lemma settles_fold: "(\<And>s x. settles (f s x) (f' s x)) \<Longrightarrow> settles (foldE f s xs) (foldE f' s xs)"
proof (induction xs arbitrary: s)
  case (Cons x xs)
  then show ?case by (auto intro: settles_bind)
qed (simp add: settles_refl)

lemma settles_if: "settles a a' \<Longrightarrow> settles b b' \<Longrightarrow> settles (if c then a else b) (if c then a' else b')"
  by simp

lemma settles_arrayornewkey:
  assumes "\<And>t k. settles (f t k) (g t k)"
  shows "settles (arrayornewkey c2i f t k) (arrayornewkey c2i g t k)"
  using assms by (cases k) (auto simp: arrayornewkey_def Let_def settles_refl)

lemma settles_migrate_node:
  assumes "\<And>t k. settles (f t k) (g t k)"
  shows "settles (migrate_node c2i f ns t i) (migrate_node c2i g ns t i)"
  unfolding migrate_node_def by (intro settles_bind settles_if settles_arrayornewkey settles_refl assms)

lemma settles_migrate_array:
  assumes "\<And>t k. settles (f t k) (g t k)"
  shows "settles (migrate_array f t i) (migrate_array g t i)"
  unfolding migrate_array_def by (intro settles_bind settles_if settles_refl assms)

lemma settles_resize:
  assumes "\<And>t k. settles (f t k) (g t k)"
  shows "settles (resize c2i f t m n) (resize c2i g t m n)"
  unfolding resize_def Let_def
  by (intro settles_bind settles_if settles_fold settles_migrate_array settles_migrate_node settles_refl assms)

lemma settles_rehash:
  assumes "\<And>t k. settles (f t k) (g t k)"
  shows "settles (rehash c2i f t k) (rehash c2i g t k)"
  unfolding rehash_def Let_def case_prod_beta
  by (intro settles_bind settles_resize settles_refl assms)

lemma settles_newkey_body:
  assumes "\<And>t k. settles (f t k) (g t k)"
  shows "settles (newkey_body c2i f t k) (newkey_body c2i g t k)"
proof -
  have r: "settles (bindE (rehash c2i f t k) (\<lambda>t. arrayornewkey c2i f t k)) (bindE (rehash c2i g t k) (\<lambda>t. arrayornewkey c2i g t k))" for t
    by (intro settles_bind settles_rehash settles_arrayornewkey assms)
  have o: "settles (case p of None \<Rightarrow> bindE (rehash c2i f t k) (\<lambda>t. arrayornewkey c2i f t k) | Some n \<Rightarrow> h n)
      (case p of None \<Rightarrow> bindE (rehash c2i g t k) (\<lambda>t. arrayornewkey c2i g t k) | Some n \<Rightarrow> h n)" for p t and h :: "nat \<Rightarrow> (slot \<times> 'a LuaTable) cpp"
    using r by (cases p) (auto simp: settles_refl)
  show ?thesis
    unfolding newkey_body_def Let_def case_prod_beta
    by (intro settles_if settles_bind r o settles_refl)
qed

lemma newkey_settles: "settles (newkey n c2i t k) (newkey (Suc n) c2i t k)"
proof (induction n arbitrary: t k)
  case 0
  then show ?case by (simp add: settles_def)
next
  case (Suc n)
  then have "settles (newkey_body c2i (newkey n c2i) t k) (newkey_body c2i (newkey (Suc n) c2i) t k)" by (rule settles_newkey_body)
  then show ?case by (simp only: newkey.simps(2))
qed

lemma newkey_depth_irrelevant:
  assumes "newkey n c2i t k \<noteq> Inl Diverges" "n \<le> m"
  shows "newkey m c2i t k = newkey n c2i t k"
  using assms(2)
proof (induction rule: dec_induct)
  case (step m)
  then show ?case using newkey_settles [of m c2i t k] assms(1) by (auto simp: settles_def simp del: newkey.simps)
qed simp

section \<open>Copies and growth\<close>

lemma luaH_clone_spec:
  assumes "tinv t"
  shows "tinv (luaH_clone t)" "tval (luaH_clone t) k = tval t k" "entries (luaH_clone t) = entries t" "\<not> t_readonly (luaH_clone t)"
    "t_metatable (luaH_clone t) = t_metatable t"
proof -
  let ?c = "luaH_clone t"
  note sz = tinvD(4,5,6) [OF assms]
  have f: "t_array ?c = t_array t" "t_sizearray ?c = t_sizearray t" "t_node ?c = t_node t" "t_lsizenode ?c = t_lsizenode t"
    "t_nodemask8 ?c = t_nodemask8 t"
    using sz length_node [OF tinvD(3) [OF assms]] assms
    by (auto simp: luaH_clone_def Let_def maybesetaboundary_def tinv_def)
  have lf: "t_lastfree ?c = (if t_node t \<noteq> [] then t_lastfree t else if t_sizearray t \<noteq> 0 then - getaboundary t else 0)"
    by (auto simp: luaH_clone_def Let_def maybesetaboundary_def)
  have "0 \<le> getaboundary t" using sz by (auto simp: getaboundary_def)
  then show "tinv ?c" using assms getaboundary_le [OF assms] lf
    by (auto simp: tinv_def base_inv_def hash_ok_def node_inv_def sizes_ok_def f)
  have "in_range ?c k = in_range t k" by (rule in_range_eq) (simp add: f)
  then show "tval ?c k = tval t k" by (simp add: tval_def f)
  show "entries ?c = entries t" by (simp add: entries_def f)
  show "\<not> t_readonly ?c" "t_metatable ?c = t_metatable t" by (auto simp: luaH_clone_def Let_def maybesetaboundary_def)
qed

lemma outside_le: "outside t m \<le> length (array_elems t m) + length (node_elems t)"
  by (simp add: outside_def)

lemma array_elems_empty: "t_sizearray t \<le> m \<Longrightarrow> array_elems t m = []"
  by (simp add: array_elems_def map_filter_simps)

lemma node_elems_le:
  assumes "node_inv t"
  shows "length (node_elems t) \<le> length (t_node t)"
proof -
  have "size (ents (t_node t)) \<le> size (mset_set {..<length (t_node t)})"
    unfolding ents_nth size_image_mset by (rule size_filter_mset_lesseq)
  then show ?thesis by (simp add: size_ents_elems [OF assms])
qed

lemma luaH_resizearray_spec:
  assumes c: "casts c2i" and inv: "tinv t" and n: "t_sizearray t \<le> n" "n + int (entries t) < 2 ^ 26"
  shows "\<exists>t' m. luaH_resizearray c2i t n = Inr t' \<and> n \<le> m \<and> t_sizearray t' = m \<and> tinv t' \<and> (\<forall>k. live_key k \<longrightarrow> tval t' k = tval t k)"
proof -
  have "0 \<le> n" "n + int (entries t) + 2 < 2 ^ 31" using n tinvD(4) [OF inv] by auto
  from adjustasize_spec [OF c inv this, of None] obtain m where m: "adjustasize c2i t n None = Inr m" "n \<le> m" "m \<le> n + int (entries t) + 1"
    "\<not> ahead t (ek_index None) (m + 1)" by blast
  let ?nh = "if t_node t = [] then 0 else int (sizenode t)"
  have nh: "?nh = int (length (t_node t))" using length_node(1) [OF tinvD(3) [OF inv]] by (simp add: sizenode_def)
  have nh0: "0 \<le> ?nh" by simp
  have "array_elems t m = []" using n(1) m(2) by (intro array_elems_empty) simp
  then have room: "int (outside t m) \<le> ?nh" unfolding nh using outside_le [of t m] node_elems_le [OF tinvD(3) [OF inv]] by simp
  have "t_lsizenode t \<le> 26" using tinvD(1) [OF inv] by (simp add: base_inv_def hash_ok_def)
  then have "(2 :: int) ^ t_lsizenode t \<le> 2 ^ 26" by (intro power_increasing) auto
  then have "?nh \<le> 2 ^ 26" by (simp add: sizenode_def twoto_def)
  moreover have "tval t (num (m + 1)) = None" using m(4) by (simp add: ahead_def)
  ultimately obtain t' where "resize c2i (newkey (Suc 1) c2i) t m ?nh = Inr t'" "resized t m ?nh t'"
    using resize_spec [OF c inv _ _ nh0 _ _ room, of 1] m n tinvD(4) [OF inv] by auto
  then have "luaH_resizearray c2i t n = Inr t'" "resized t m ?nh t'"
    using m(1) by (simp_all add: luaH_resizearray_def newkey_depth_def numeral_2_eq_2 Let_def del: newkey.simps)
  with m(2) show ?thesis by (auto simp: resized_def)
qed

section \<open>The properties of tables\<close>

text \<open>C2: Refinement. A table made by \<^verbatim>\<open>luaH_new\<close> and used through \<^verbatim>\<open>lua_rawget\<close>, \<^verbatim>\<open>lua_rawset\<close>, \<^verbatim>\<open>lua_rawgeti\<close>,
  \<^verbatim>\<open>lua_rawseti\<close>, \<^verbatim>\<open>lua_rawgetfield\<close>, \<^verbatim>\<open>lua_rawsetfield\<close>, the functions for tagged pointers and \<^verbatim>\<open>lua_cleartable\<close>, with
  visits of the garbage collector at any points between, behaves as a map from keys to values: every sequence of at most 2^23 such operations returns the values and raises the errors
  that the map gives, and the final contents are those of the map. No chain of nodes loops or loses a key, no rehash drops an
  element or recurses further, no assertion fails and no access leaves the array or the node vector.\<close>

theorem table_refines_map:
  fixes t :: "'v LuaTable"
  assumes "casts c2i" "in_int32 narray" "in_int32 nhash" "luaH_new narray nhash = Inr t" "length ops \<le> 2 ^ 23" "\<forall>op \<in> set ops. api_op op"
  shows "map_sum id (map_prod id table_map) (table_run c2i t ops) = map_run (\<lambda>_. None) ops"
proof -
  from luaH_new_spec [where 'v = 'v, OF assms(2,3)] assms(4) have "table_ok t 0" "table_map t = (\<lambda>_. None)" by auto
  with table_run_refines [OF assms(1) this(1), of ops] assms(5,6) show ?thesis by simp
qed

lemma map_sum_outputs: "map_sum id fst (map_sum id (map_prod id g) r) = map_sum id fst r"
  by (cases r) auto

definition example_ops :: "nat table_op list" where
  "example_ops = [RawSet (KeyBoolean True) (Some 1), RawSeti 1 (Some 2), RawSetfield [1, 2] (Some 3), RawSetptagged 8 0 (Some 4),
     RawSet (KeyBoolean True) None, RawSetfield [3] (Some 5), RawSetfield [3] None, TraverseTable, RawGeti 1, RawGetfield [1, 2], RawGet (KeyBoolean True), RawGetptagged 8 0]"

lemma example_run: "map_sum id fst (map_run (\<lambda>_. None) example_ops) = Inr [None, None, None, None, None, None, None, None, Some 2, Some 3, None, Some 4]"
proof -
  have n: "\<not> dbl_isnan (dbl_of_int 1)" "dbl_eq (dbl_of_int 1) (dbl_of_int 1)"
    using live_num [of 1] rawequal_refl [OF live_num, of 1] by (simp_all add: in_int32_def live_key_def luaO_rawequalKey_def)
  show ?thesis by (simp add: example_ops_def map_put_def luaO_rawequalKey_def n)
qed

lemma table_refines_map_witness:
  "\<exists>t. luaH_new 4 2 = Inr t \<and>
     map_sum id fst (table_run cvttsd2si t example_ops) = Inr [None, None, None, None, None, None, None, None, Some 2, Some 3, None, Some 4]"
proof -
  have i: "in_int32 4" "in_int32 2" "length example_ops \<le> 2 ^ 23" "\<forall>op \<in> set example_ops. api_op op"
    by (simp_all add: example_ops_def in_int32_def)
  from luaH_new_spec [where 'v = nat, OF i(1,2)] obtain t :: "nat LuaTable" where t: "luaH_new 4 2 = Inr t" by auto
  from table_refines_map [OF casts_cvttsd2si i(1,2) t i(3,4)]
  have "map_sum id fst (table_run cvttsd2si t example_ops) = map_sum id fst (map_run (\<lambda>_. None) example_ops)"
    by (metis map_sum_outputs)
  with t show ?thesis unfolding example_run by blast
qed

text \<open>C6: Liveness of traversal. Starting from nil, \<^verbatim>\<open>luaH_next\<close> (and \<^verbatim>\<open>lua_rawiter\<close> from 0) called again and again
  with the key it returned ends after as many calls as the table has elements, and visits every element exactly once: the visited keys are
  pairwise different, and a key has a value exactly when the traversal returned it with this value.\<close>

theorem next_visits_every_entry:
  assumes "casts c2i" "tinv t"
  shows "\<exists>es. traverse (Suc (entries t)) c2i t KeyNil = Inr es \<and> traverse_raw (Suc (entries t)) t 0 = Inr es \<and>
    length es = entries t \<and> distinct_keys es \<and>
    (\<forall>k v. live_key k \<longrightarrow> (table_map t k = Some v \<longleftrightarrow> (\<exists>k'. (k', v) \<in> set es \<and> luaO_rawequalKey k' k)))"
proof -
  have n: "length (elements t 0) < Suc (entries t)" using elements_length [OF assms(2)] by simp
  have "findindex c2i t KeyNil = Inr (int 0 - 1)" by (simp add: findindex_def)
  from traverse_spec [OF assms this n] traverse_raw_spec [OF assms(2) n]
  show ?thesis using elements_length [OF assms(2)] elements_distinct [OF assms(2)] elements_map [OF assms(2)]
    by (intro exI [of _ "elements t 0"]) (simp add: table_map_def)
qed

lemma example_table: "\<exists>t. tinv (t :: nat LuaTable) \<and> table_map t (num 1) = Some 2 \<and> table_map t (num 2) = None"
proof -
  have i: "in_int32 4" "in_int32 2" "in_int32 1" by (simp_all add: in_int32_def)
  from luaH_new_spec [where 'v = nat, OF i(1,2)] obtain t :: "nat LuaTable" where t: "table_ok t 0" "table_map t = (\<lambda>_. None)" by auto
  have st: "step_refines 1 (table_step cvttsd2si t (RawSeti 1 (Some 2))) (map_step (\<lambda>_. None) (RawSeti 1 (Some 2)))"
    using table_step_refines [OF casts_cvttsd2si t(1), of "RawSeti 1 (Some 2)"] t(2) i(3) by simp
  moreover have "map_step (\<lambda>_. None) (RawSeti 1 (Some 2)) = Inr (None, \<lambda>k. if luaO_rawequalKey (num 1) k then Some (2 :: nat) else None)"
    by (simp add: map_put_live [OF live_num [OF i(3)]])
  ultimately obtain v t' where t': "table_step cvttsd2si t (RawSeti 1 (Some 2)) = Inr (v, t')" "table_ok t' 1"
    "table_map t' = (\<lambda>k. if luaO_rawequalKey (num 1) k then Some 2 else None)"
    unfolding step_refines_def by (cases "table_step cvttsd2si t (RawSeti 1 (Some 2))") auto
  have "\<not> luaO_rawequalKey (num 1) (num 2)" using int_key_cong [of "num 1" "num 2"] i by auto
  moreover have "luaO_rawequalKey (num 1) (num 1)" by (rule rawequal_refl [OF live_num [OF i(3)]])
  ultimately show ?thesis using t'(2,3) by (auto simp: table_ok_def)
qed

lemma next_visits_every_entry_witness:
  "\<exists>(t :: nat LuaTable) es. table_map t (num 1) = Some 2 \<and> traverse (Suc (entries t)) cvttsd2si t KeyNil = Inr es \<and> distinct_keys es \<and>
     (\<exists>k'. (k', 2) \<in> set es \<and> luaO_rawequalKey k' (num 1))"
proof -
  obtain t :: "nat LuaTable" where t: "tinv t" "table_map t (num 1) = Some 2" using example_table by blast
  have "live_key (num 1)" by (intro live_num) (simp add: in_int32_def)
  with next_visits_every_entry [OF casts_cvttsd2si t(1)] t(2) show ?thesis by blast
qed

text \<open>C11: The border. \<^verbatim>\<open>luaH_getn\<close>, the length operator of a table, returns a border whatever the contents and the
  cached hint are: an index that is 0 or holds a value while the next one holds none. It never reads outside the array part, its
  assertion holds. The table it leaves behind is the one it was given, or differs from it in the hint alone, which is then the
  border; and this only where the hint does not mark a free node.\<close>

theorem luaH_getn_border:
  assumes "tinv t"
  shows "\<exists>n t'. luaH_getn t = Inr (n, t') \<and> 0 \<le> n \<and> (n = 0 \<or> table_map t (num n) \<noteq> None) \<and> table_map t (num (n + 1)) = None \<and>
    tinv t' \<and> table_map t' = table_map t \<and> (t' = t \<or> t_lastfree t \<le> 0 \<and> t' = t\<lparr>t_lastfree := - n\<rparr>)"
proof -
  from luaH_getn_spec [OF assms] obtain n t' where n: "luaH_getn t = Inr (n, t')" "boundary_of t n" "n \<le> t_sizearray t" "tinv t'"
    "\<And>k. tval t' k = tval t k" "t' = t \<or> t_lastfree t \<le> 0 \<and> t' = t\<lparr>t_lastfree := - n\<rparr>"
    unfolding boundary_result_def by blast
  then have "in_int32 n" "in_int32 (n + 1)" using tinvD(5) [OF assms] by (auto simp: boundary_of_def in_int32_def)
  with n show ?thesis by (intro exI [of _ n] exI [of _ t']) (auto simp: boundary_of_def table_map_def live_num)
qed

lemma luaH_getn_border_witness:
  "\<exists>(t :: nat LuaTable) n t'. table_map t (num 1) = Some 2 \<and> luaH_getn t = Inr (n, t') \<and> table_map t' = table_map t \<and>
     (n = 0 \<or> table_map t (num n) \<noteq> None) \<and> table_map t (num (n + 1)) = None"
  using example_table luaH_getn_border by blast

text \<open>C8: Insertion ends. For a valid key that a well-formed table does not hold, \<^verbatim>\<open>luaH_newkey\<close> returns a slot for it and
  changes no value, or it throws the overflow error, and this only from 2^23 elements on. The recursion of \<^verbatim>\<open>newkey\<close> through
  \<^verbatim>\<open>rehash\<close> and \<^verbatim>\<open>resize\<close> never goes deeper than two calls: after a rehash every element has a
  place, so that no insertion of \<^verbatim>\<open>resize\<close> rehashes again and its assertions hold.\<close>

theorem newkey_ends:
  assumes "casts c2i" "tinv t" "live_key k" "key_slot t k = NilObject"
  shows "((\<exists>p t'. luaH_newkey c2i t k = Inr (p, t') \<and> tinv t' \<and> slot_for t' k p \<and> table_map t' = table_map t) \<or>
      luaH_newkey c2i t k = Inl (Thrown ''table overflow'') \<and> 2 ^ 23 \<le> entries t) \<and>
    (\<forall>d \<ge> 2. newkey d c2i t k = luaH_newkey c2i t k)"
proof -
  have new: "\<not> stored t k" using stored_not_nil [OF tinvD(1) [OF assms(2)] assms(3)] assms(4) by blast
  have e: "luaH_newkey c2i t k = newkey (Suc (Suc 0)) c2i t k"
    using luaH_newkey_live [OF assms(3)] by (simp add: newkey_depth_def numeral_2_eq_2 del: newkey.simps)
  note spec = newkey_spec [OF assms(1,2,3) new, of 0, folded e]
  then have "newkey (Suc (Suc 0)) c2i t k \<noteq> Inl Diverges" unfolding e [symmetric] by auto
  then have "newkey d c2i t k = luaH_newkey c2i t k" if "2 \<le> d" for d
    unfolding e using that by (intro newkey_depth_irrelevant) auto
  moreover have "table_map t' = table_map t" if "located t k p t'" for p t'
    using that by (auto simp: located_def table_map_def)
  ultimately show ?thesis using spec by (auto simp: located_def)
qed

lemma newkey_ends_witness:
  "\<exists>t. luaH_new 0 0 = Inr (t :: nat LuaTable) \<and> (\<exists>p t'. luaH_newkey cvttsd2si t (KeyBoolean True) = Inr (p, t') \<and>
     newkey 5 cvttsd2si t (KeyBoolean True) = Inr (p, t') \<and> slot_for t' (KeyBoolean True) p)"
proof -
  have "in_int32 0" by (simp add: in_int32_def)
  from luaH_new_spec [where 'v = nat, OF this this] obtain t :: "nat LuaTable" where t: "luaH_new 0 0 = Inr t" "tinv t" "entries t = 0"
    by (auto simp: table_ok_def)
  have live: "live_key (KeyBoolean True)" by (simp add: live_key_def)
  have "t_node t = []" using t(1) by (auto simp: luaH_new_def)
  then have "key_slot t (KeyBoolean True) = NilObject" by (simp add: key_slot_def node_slot_dummy in_range_def int_key_other)
  from newkey_ends [OF casts_cvttsd2si t(2) live this] t(1,3) show ?thesis by auto
qed

definition well_formed_result :: "('v option \<times> 'v LuaTable) cpp \<Rightarrow> bool" where
  "well_formed_result r \<longleftrightarrow> (case r of Inl e \<Rightarrow> \<exists>msg. e = Thrown msg | Inr (v, t') \<Rightarrow> tinv t')"

lemma well_formed_get: "tinv t \<Longrightarrow> r = Inr v \<Longrightarrow> well_formed_result (bindE r (\<lambda>v. Inr (v, t)))"
  by (simp add: well_formed_result_def)

lemma well_formed_set:
  "(\<exists>t'. r = Inr t' \<and> updated t k v t') \<or> r = Inl (Thrown ''table overflow'') \<and> P \<Longrightarrow> well_formed_result (bindE r (\<lambda>t. Inr (None, t)))"
  by (auto simp: well_formed_result_def updated_def)

lemma well_formed_readonly: "r = luaG_readonlyerror \<Longrightarrow> well_formed_result (bindE r (\<lambda>t. Inr (None, t)))"
  by (simp add: well_formed_result_def luaG_readonlyerror_def)

lemma table_step_well_formed:
  assumes c: "casts c2i" and inv: "tinv t" and op: "api_op op"
  shows "well_formed_result (table_step c2i t op)"
proof -
  note slot = read_key_slot [OF tinvD(2) [OF inv]]
  show ?thesis
  proof (cases op)
    case (RawGet k)
    have "rawget c2i t k = Inr (tval t k) \<or> rawget c2i t k = Inr None"
    proof (cases "k = KeyNil")
      case True
      then show ?thesis by (simp add: rawget_def luaH_get_def read_slot_def)
    next
      case False
      then have "hashable k" using op RawGet by (simp add: hashable_def)
      then show ?thesis by (simp add: rawget_def luaH_get_slot [OF c tinvD(3,2) [OF inv]] slot)
    qed
    with RawGet well_formed_get [OF inv] show ?thesis by auto
  next
    case (RawSet k v)
    consider (ro) "t_readonly t" | (live) "\<not> t_readonly t" "live_key k" | (bad) "\<not> t_readonly t" "k = KeyNil \<or> key_isnan k"
      using op RawSet by (auto simp: live_key_def)
    then show ?thesis
    proof cases
      case ro
      then show ?thesis using RawSet well_formed_readonly by (simp add: rawset_def)
    next
      case live
      from well_formed_set [OF rawset_cases [OF c inv live]] RawSet show ?thesis by simp
    next
      case bad
      from rawset_invalid [OF c inv bad, of v "\<lambda>_. None"] obtain e where "rawset c2i t k v = Inl e" "map_put (\<lambda>_. None) k v = Inl e" by blast
      with RawSet show ?thesis by (cases k) (auto simp: well_formed_result_def map_put_def split: if_splits)
    qed
  next
    case (RawGeti i)
    with op have "rawgeti t i = Inr (tval t (num i))" by (simp add: rawgeti_def luaH_getnum_slot [OF tinvD(3,2) [OF inv]] slot)
    with RawGeti well_formed_get [OF inv this] show ?thesis by simp
  next
    case (RawSeti i v)
    then have i: "in_int32 i" using op by simp
    show ?thesis
    proof (cases "t_readonly t")
      case True
      then show ?thesis using RawSeti well_formed_readonly by (simp add: rawseti_def)
    next
      case False
      from well_formed_set [OF store_spec [OF c inv live_num [OF i], of v]] False RawSeti
      show ?thesis by (simp add: rawseti_def luaH_setnum_eq [OF inv i])
    qed
  next
    case (RawGetfield s)
    have "rawgetfield t s = Inr (tval t (KeyGc (GcString s)))" by (simp add: rawgetfield_def luaH_getstr_slot [OF tinvD(3) [OF inv]] slot)
    with RawGetfield well_formed_get [OF inv this] show ?thesis by simp
  next
    case (RawSetfield s v)
    have live: "live_key (KeyGc (GcString s))" by (simp add: live_key_def)
    show ?thesis
    proof (cases "t_readonly t")
      case True
      then show ?thesis using RawSetfield well_formed_readonly by (simp add: rawsetfield_def)
    next
      case False
      have "tinv (invalidateTMcache t)" using inv by simp
      from well_formed_set [OF store_spec [OF c this live, of v]] False RawSetfield
      show ?thesis by (simp add: rawsetfield_def luaH_setstr_eq [OF inv])
    qed
  next
    case (RawGetptagged p tag)
    have "rawgetptagged t p tag = Inr (tval t (KeyLightUserdata p tag))" by (simp add: rawgetptagged_def luaH_getp_slot [OF tinvD(3) [OF inv]] slot)
    with RawGetptagged well_formed_get [OF inv this] show ?thesis by simp
  next
    case (RawSetptagged p tag v)
    have live: "live_key (KeyLightUserdata p tag)" by (simp add: live_key_def)
    show ?thesis
    proof (cases "t_readonly t")
      case True
      then show ?thesis using RawSetptagged well_formed_readonly by (simp add: rawsetptagged_def)
    next
      case False
      from well_formed_set [OF store_spec [OF c inv live, of v]] False RawSetptagged
      show ?thesis by (simp add: rawsetptagged_def luaH_setp_eq [OF inv])
    qed
  next
    case ClearTable
    then show ?thesis using luaH_clear_spec(1) [OF inv] well_formed_readonly
      by (cases "t_readonly t") (simp_all add: lua_cleartable_def well_formed_result_def)
  next
    case TraverseTable
    from traversetable_spec [OF inv] obtain t' where "traversetable t = Inr t'" "tinv t'" by blast
    then show ?thesis using TraverseTable by (simp add: well_formed_result_def)
  qed
qed

text \<open>C16: Well-formed tables. Every operation of the API, a visit of the garbage collector, and the length operator and \<^verbatim>\<open>luaH_clone\<close>, takes a
  well-formed table to a well-formed table: the chains stay inside the node vector, end and do not join, every node is reachable from the main position
  of its key, no two keys are equal, no key of the array part is in a node, and the hint and the free pointer are in
  their ranges. The only failures are errors thrown to the program, never a failed assertion or an access out of bounds.\<close>

theorem table_stays_well_formed:
  assumes "casts c2i" "tinv t" "api_op op"
  shows "(case table_step c2i t op of Inl e \<Rightarrow> \<exists>msg. e = Thrown msg | Inr (v, t') \<Rightarrow> tinv t') \<and>
    (\<exists>n t'. luaH_getn t = Inr (n, t') \<and> tinv t') \<and> tinv (luaH_clone t)"
  using table_step_well_formed [OF assms] luaH_getn_spec [OF assms(2)] luaH_clone_spec(1) [OF assms(2)]
  by (auto simp: boundary_result_def well_formed_result_def)

lemma table_stays_well_formed_witness:
  "\<exists>t :: nat LuaTable. table_map t (num 1) = Some 2 \<and>
     (case table_step cvttsd2si t (RawSet KeyNil (Some 7)) of Inl e \<Rightarrow> \<exists>msg. e = Thrown msg | Inr (v, t') \<Rightarrow> tinv t') \<and> tinv (luaH_clone t)"
proof -
  obtain t :: "nat LuaTable" where t: "tinv t" "table_map t (num 1) = Some 2" using example_table by blast
  from table_stays_well_formed [OF casts_cvttsd2si t(1), of "RawSet KeyNil (Some 7)"] t(2) show ?thesis by auto
qed

end
