(* ===== verification/Spec2Isabelle.thy ===== *)
theory Spec2Isabelle
  imports Utf8Lib StringLib VecDeque DenseHash2 TableSort BytecodeRoundTrip TableSpec
begin

text \<open>
  A verification development for Luwu (\<^verbatim>\<open>luwu-community/luwu\<close>), an embeddable scripting language
  derived from Luau: a compiler to bytecode, a loader and virtual machine with the standard
  libraries, a type checker and native code generation, all in C++.

  \<^bold>\<open>The program and the part modelled here.\<close> Scripts are parsed (\<^verbatim>\<open>Ast\<close>), type checked
  (\<^verbatim>\<open>Analysis\<close>) and compiled (\<^verbatim>\<open>Compiler\<close>, \<^verbatim>\<open>Bytecode\<close>); the VM loads the bytecode
  and runs it (\<^verbatim>\<open>VM\<close>), calling C functions of the libraries, or their fast paths when an
  instruction \<^verbatim>\<open>FASTCALL\<close> names one. The front end keeps its tables in containers of
  \<^verbatim>\<open>Common\<close>. The development models library code of the VM down to bytes and machine integers
  and the containers down to raw storage.

  \<^item> \<^verbatim>\<open>LuwuPrelude\<close>: results \<open>'e + 'a\<close> with \<open>bindE\<close>, \<open>foldE\<close>, \<open>mapE\<close>; little-endian bytes;
    \<^verbatim>\<open>int\<close> and \<^verbatim>\<open>int64_t\<close> ranges; words as naturals.
  \<^item> \<^verbatim>\<open>LuwuDouble\<close>, \<^verbatim>\<open>LuwuFloat\<close>: IEEE binary64 and binary32 values as their bits: order,
    classification, conversion from and to integers and between the widths.
  \<^item> \<^verbatim>\<open>NumPrint\<close> (\<^verbatim>\<open>VM/src/lnumprint.cpp\<close>): shortest printing of doubles and the
    printing of 64-bit integers.
  \<^item> \<^verbatim>\<open>LuaApi\<close> (\<^verbatim>\<open>lobject.h\<close>, \<^verbatim>\<open>lapi.cpp\<close>, \<^verbatim>\<open>laux.cpp\<close>, \<^verbatim>\<open>lnumutils.h\<close>): tagged values, the
    argument slots of a C call, conversions and argument checks.
  \<^item> \<^verbatim>\<open>Bit32Lib\<close> (\<^verbatim>\<open>lbitlib.cpp\<close>), \<^verbatim>\<open>IntegerLib\<close> (\<^verbatim>\<open>lintlib.cpp\<close>), \<^verbatim>\<open>BufferLib\<close>
    (\<^verbatim>\<open>lbuflib.cpp\<close>, \<^verbatim>\<open>lbuffer.cpp\<close>), \<^verbatim>\<open>Utf8Lib\<close> (\<^verbatim>\<open>lutf8lib.cpp\<close>): the libraries, one
    definition per C function under the function's name.
  \<^item> \<^verbatim>\<open>StringPattern\<close>, \<^verbatim>\<open>StringMatch\<close>, \<^verbatim>\<open>StringLib\<close> (\<^verbatim>\<open>lstrlib.cpp\<close>): the backtracking matcher with every
    kind of pattern item; patterns as syntax trees with the list of all ways to match one at a position, in the order of
    preference; \<^verbatim>\<open>string.find\<close>, \<^verbatim>\<open>match\<close>, \<^verbatim>\<open>gmatch\<close> and \<^verbatim>\<open>gsub\<close>. The functions of the matcher that call each other
    take the matcher as an argument; its first argument is \<^verbatim>\<open>matchdepth\<close>, which starts at \<^verbatim>\<open>LUAI_MAXCCALLS\<close> = 200 and
    makes it total. The interrupt callback of the host is not set, the character classes are those of the C locale, and the
    replacement function or table of \<^verbatim>\<open>gsub\<close> is a parameter.
  \<^item> \<^verbatim>\<open>FastCalls\<close> (\<^verbatim>\<open>lbuiltins.cpp\<close>, \<^verbatim>\<open>lvmexecute.cpp\<close>): the fast paths of the bit32 and
    integer libraries, their table, and the dispatch of \<^verbatim>\<open>LOP_FASTCALL\<close>; those of the buffer library
    are in \<^verbatim>\<open>BufferLib\<close>.
  \<^item> \<^verbatim>\<open>TableSort\<close> (\<^verbatim>\<open>ltablib.cpp\<close>, \<^verbatim>\<open>lvmutils.cpp\<close>): the introspective sort of \<^verbatim>\<open>table.sort\<close> and the
    default order. The predicate is a function on the whole state, since it may run a script.
  \<^item> \<^verbatim>\<open>LuaTable\<close> (\<^verbatim>\<open>ltable.cpp\<close>, \<^verbatim>\<open>luaS_hash\<close> of \<^verbatim>\<open>lstring.cpp\<close>, the raw accesses of \<^verbatim>\<open>lapi.cpp\<close>): tables with
    their array part and the chained scatter table, node for node. \<^verbatim>\<open>TableNodes\<close> has the invariant of the
    hash part and the insertion of one node, \<^verbatim>\<open>TableMap\<close> the value of a key in both parts,
    \<^verbatim>\<open>TableRehash\<close> counting, sizing and moving, \<^verbatim>\<open>TableSpec\<close> what the operations promise.
  \<^item> \<^verbatim>\<open>BytecodeWire\<close> (\<^verbatim>\<open>Bytecode/src/BytecodeBuilder.cpp\<close>, \<^verbatim>\<open>Common/src/BytecodeWire.cpp\<close>,
    \<^verbatim>\<open>lvmload.cpp\<close>, \<^verbatim>\<open>CodeGen/src/BytecodeAnalysis.cpp\<close>): the fields of bytecode as they are written
    and read; \<open>decodes\<close> says that a reader reads a value from given bytes wherever they stand.
  \<^item> \<^verbatim>\<open>BytecodeBuilder\<close> (\<^verbatim>\<open>BytecodeBuilder.cpp\<close>): the state of the builder (instructions and lines of the
    current function, its constant, table and closure tables, the string table, finished
    functions), one definition per method that changes it, and the serialisation.
  \<^item> \<^verbatim>\<open>BytecodeLoader\<close> (\<^verbatim>\<open>lvmload.cpp\<close>): \<^verbatim>\<open>luau_load\<close> as a function from bytes to a list of
    prototypes or an error: version check, strings, userdata type names, every kind of constant,
    imports resolved at load time, type information, line and debug information, feedback slots.
  \<^item> \<^verbatim>\<open>LineInfo\<close>: the two-level coding of line numbers, written by the builder and read by the loader.
  \<^item> \<^verbatim>\<open>BytecodeRoundTrip\<close>: what the loader makes of the module the builder serialises.
  \<^item> \<^verbatim>\<open>RawMemory\<close>, \<^verbatim>\<open>Refinement\<close>: storage of cells that hold an object or not, with every undefined
    access an error; the contract of a container, as a locale whose lemma lifts the
    refinement of single operations to runs.
  \<^item> \<^verbatim>\<open>VecDeque\<close> (\<^verbatim>\<open>Common/include/Luau/VecDeque.h\<close>), \<^verbatim>\<open>Probing\<close> and \<^verbatim>\<open>DenseHash\<close>
    (\<^verbatim>\<open>DenseHash.h\<close>), \<^verbatim>\<open>DenseBitSet\<close> and \<^verbatim>\<open>DenseHash2\<close> (\<^verbatim>\<open>DenseHash2.h\<close>): the containers.

  \<^bold>\<open>State.\<close> The libraries read a \<open>lua_State\<close>: the argument slots and the buffer objects; an operation
  returns the pushed results and the new buffers, or an error. The sort passes a record with the
  array part of the table and an arbitrary world. A container is a record of its fields with the
  allocation as a list of cells.

  \<^bold>\<open>What the lemmas show.\<close> Functional specifications of library functions on every branch; round trips
  of encoders and decoders (buffer reads and writes at every width, bit fields, UTF-8, rotations); memory
  safety of the buffer and utf8 libraries for every argument; equivalence of each modelled fast path with the
  library function it replaces, the bounds tests of the buffer accesses included; the matcher returns the first of all ways to match,
  at the leftmost position with any, stays inside subject and pattern whatever they are, and ends; the sort is safe and terminates for every predicate, permutes, and
  sorts for strict weak orders; loading what the builder serialised gives the prototypes that the
  builder's state describes, every line number included; the containers refine lists, partial functions and sets under every
  sequence of allowed operations, with nothing leaked; tables refine maps from keys to values, their traversal
  visits every element once, their length is a border, and a rehash always makes room. Where the code reaches undefined behaviour or
  differs from its documentation, a theorem states it and the manifest lists it as a finding.

  \<^bold>\<open>Bounds.\<close> Loops that the code leaves unbounded (probing in \<^verbatim>\<open>DenseHash2\<close>) are partial functions;
  that they end is part of the refinement theorem. Container sizes stay below \<open>d2_limit\<close> ($2^{60}$)
  and \<open>vd_limit\<close> so that \<^verbatim>\<open>size_t\<close> arithmetic does not wrap. Array indices of the sort are \<^verbatim>\<open>int\<close>
  in the code and far from its limit, since an array part has at most $2^{26}$ elements. \<^verbatim>\<open>newkey\<close>,
  \<^verbatim>\<open>rehash\<close> and \<^verbatim>\<open>resize\<close> of a table call each other; their depth is bounded by \<open>newkey_depth\<close> = 2, and
  a theorem shows that a greater depth changes no result. The overflow error of a table can only occur from $2^{23}$
  elements on, hence the length of the runs in the refinement theorem. The cast of a double key to \<^verbatim>\<open>int\<close> is a
  parameter \<open>c2i\<close>, since C++ leaves it undefined out of range: \<open>casts\<close> asks for the exact value where it
  is an \<^verbatim>\<open>int\<close>, and the instructions of x86 and ARM are instances.

  \<^bold>\<open>Not modelled.\<close> The parser, the type checker, the compiler, native code generation and the
  interpreter loop; the garbage collector except its visit to a table, which makes keys without
  a value dead keys and may come between any two accesses (the reuse of the address of a dead key and weak tables are not modelled;
  \<^verbatim>\<open>luaH_free\<close> only returns memory); of the bytecode builder jump folding and expansion, the
  validation of a debug build and the textual dumps, of the loader running out of memory; the functions on whole
  strings, formatting, splitting and packing of \<^verbatim>\<open>string\<close>; the \<^verbatim>\<open>math\<close>, \<^verbatim>\<open>vector\<close>, \<^verbatim>\<open>os\<close>, \<^verbatim>\<open>coroutine\<close> and \<^verbatim>\<open>debug\<close>
  libraries; the command line tools. Metamethods are a parameter where an operation can call one.
  \<^verbatim>\<open>strtod\<close> of the C library is a field of the state.
\<close>

end
